(* ===== verification/W16_Prelude.thy ===== *)
theory W16_Prelude
  imports Main
begin

text \<open>
  Shared vocabulary of the development: the types that stand for the machine-level values of
  the program (object pointers, handle locations, thread numbers, unsigned integers), the named collection the
  proofs about machine integers draw on, and generic facts on lists and loops that several components use.
\<close>

section \<open>Types shared by the components\<close>

text \<open>An \<open>Object*\<close> is an address; a thread is the index of its worker.\<close>

type_synonym addr = nat
type_synonym thread_id = nat

text \<open>
  A handle location (\<open>Object**\<close>) is either a cell of a handle scope or a persistent handle
  (\<open>ScopeCell\<close>), or the \<open>to_\<close> field of cell \<open>i\<close> of a malloc'ed STM block
  (\<open>BlockCell b i\<close>).  Blocks are never moved, so a block identifier names its memory.
\<close>

datatype location = ScopeCell nat | BlockCell nat nat

section \<open>Unsigned integers\<close>

text \<open>
  Where a component computes with \<open>uint64_t\<close> and \<open>uint32_t\<close> as numbers, its model uses natural numbers and writes the truncation
  out; \<open>machine_ints\<close> collects the facts that remove a truncation where nothing is lost.
\<close>

named_theorems machine_ints \<open>truncations that lose nothing\<close>

definition uint64 :: "nat \<Rightarrow> nat" where
  "uint64 x = x mod 2 ^ 64"

definition uint32 :: "nat \<Rightarrow> nat" where
  "uint32 x = x mod 2 ^ 32"

definition sub64 :: "nat \<Rightarrow> nat \<Rightarrow> nat" where
  "sub64 x y = uint64 (x + 2 ^ 64 - uint64 y)"

lemma cast_id [machine_ints]: "x < 2 ^ 64 \<Longrightarrow> uint64 x = x" "x < 2 ^ 32 \<Longrightarrow> uint32 x = x"
  by (simp_all add: uint64_def uint32_def)

lemma sub64_id [machine_ints]: "y \<le> x \<Longrightarrow> x < 2 ^ 64 \<Longrightarrow> sub64 x y = x - y"
  by (simp add: sub64_def uint64_def mod_if)

section \<open>Generic facts\<close>

lemma exI2: "P x y \<Longrightarrow> \<exists>x y. P x y"
  by blast

lemma exI3: "P x y z \<Longrightarrow> \<exists>x y z. P x y z"
  by blast

lemma take_Suc_update_same:
  "i < length xs \<Longrightarrow> take (Suc i) (xs[i := v]) = take i xs @ [v]"
  by (simp add: take_Suc_conv_app_nth)

text \<open>The invariant rule of a counting loop \<open>for (i = a; i < b; i++)\<close>.\<close>

lemma fold_upt_inv:
  assumes "P a s" "a \<le> b" "\<And>i s. a \<le> i \<Longrightarrow> i < b \<Longrightarrow> P i s \<Longrightarrow> P (Suc i) (f i s)"
  shows "P b (fold f [a..<b] s)"
  using assms(2,3)
proof (induction b)
  case 0
  then show ?case using assms(1) by simp
next
  case (Suc b)
  then show ?case using assms(1) by (cases "a = Suc b") auto
qed

end
