(* ===== verification/V8_List.thy ===== *)
theory V8_List
  imports W16_Prelude
begin

text \<open>
  The growable array \<open>List<T>\<close> of \<^verbatim>\<open>src/list.h\<close> and \<^verbatim>\<open>src/list-inl.h\<close>, which the STM uses for
  its list of transactions.  The backing store is a list of optional cells (\<open>None\<close> is memory that
  was allocated but never written); the abstraction \<open>elems\<close> reads the first \<open>list_length\<close> cells.
  Capacities and lengths are natural numbers: the wrap-around of \<open>int\<close> beyond \<open>2 ^ 31\<close> elements
  is not modelled.
\<close>

section \<open>The data structure\<close>

record 'a v8list =
  list_data :: "'a option list"
  list_capacity :: nat
  list_length :: nat

definition Initialize :: "nat \<Rightarrow> 'a v8list" where
  "Initialize capacity = \<lparr>list_data = replicate capacity None, list_capacity = capacity, list_length = 0\<rparr>"

text \<open>\<open>operator[]\<close>: \<open>None\<close> is a failed bounds assertion (or a read of an unwritten cell).\<close>

definition List_at :: "'a v8list \<Rightarrow> nat \<Rightarrow> 'a option" where
  "List_at l i = (if i < list_length l then list_data l ! i else None)"

definition Resize :: "nat \<Rightarrow> 'a v8list \<Rightarrow> 'a v8list" where
  "Resize new_capacity l =
     l\<lparr>list_data := take (list_capacity l) (list_data l) @ replicate (new_capacity - list_capacity l) None,
       list_capacity := new_capacity\<rparr>"

definition ResizeAdd :: "'a \<Rightarrow> 'a v8list \<Rightarrow> 'a v8list" where
  "ResizeAdd element l =
     (let new_capacity = 1 + list_capacity l + (list_capacity l div 2);
          l' = Resize new_capacity l
      in l'\<lparr>list_data := (list_data l')[list_length l' := Some element], list_length := Suc (list_length l')\<rparr>)"

definition Add :: "'a \<Rightarrow> 'a v8list \<Rightarrow> 'a v8list" where
  "Add element l =
     (if list_length l < list_capacity l
      then l\<lparr>list_data := (list_data l)[list_length l := Some element], list_length := Suc (list_length l)\<rparr>
      else ResizeAdd element l)"

fun store_from :: "nat \<Rightarrow> 'a list \<Rightarrow> 'a option list \<Rightarrow> 'a option list" where
  "store_from k [] d = d"
| "store_from k (x # xs) d = store_from (Suc k) xs (d[k := Some x])"

definition AddAll :: "'a list \<Rightarrow> 'a v8list \<Rightarrow> 'a v8list" where
  "AddAll other l =
     (let result_length = list_length l + length other;
          l' = (if list_capacity l < result_length then Resize result_length l else l)
      in l'\<lparr>list_data := store_from (list_length l') other (list_data l'), list_length := result_length\<rparr>)"

primrec AddBlock :: "'a \<Rightarrow> nat \<Rightarrow> 'a v8list \<Rightarrow> 'a v8list" where
  "AddBlock value 0 l = l"
| "AddBlock value (Suc count) l = AddBlock value count (Add value l)"

text \<open>The loop \<open>for (i = list_length - 1; i > index; --i) list_data[i] = list_data[i - 1]\<close>.\<close>

fun shift_up :: "nat \<Rightarrow> nat \<Rightarrow> 'b list \<Rightarrow> 'b list" where
  "shift_up index 0 d = d"
| "shift_up index (Suc i) d = (if Suc i > index then shift_up index i (d[Suc i := d ! i]) else d)"

definition InsertAt :: "nat \<Rightarrow> 'a \<Rightarrow> 'a v8list \<Rightarrow> 'a v8list option" where
  "InsertAt index elm l =
     (if index \<le> list_length l
      then let l' = Add elm l
           in Some (l'\<lparr>list_data := (shift_up index (list_length l' - 1) (list_data l'))[index := Some elm]\<rparr>)
      else None)"

text \<open>The loop \<open>while (i < list_length) { list_data[i] = list_data[i + 1]; i++; }\<close>.\<close>

function shift_down :: "nat \<Rightarrow> nat \<Rightarrow> 'b list \<Rightarrow> 'b list" where
  "shift_down i n d = (if i < n then shift_down (Suc i) n (d[i := d ! Suc i]) else d)"
  by pat_completeness auto
termination
  by (relation "measure (\<lambda>(i, n, d). n - i)") auto

declare shift_down.simps [simp del]

definition Remove :: "nat \<Rightarrow> 'a v8list \<Rightarrow> ('a \<times> 'a v8list) option" where
  "Remove i l =
     (case List_at l i of
        None \<Rightarrow> None
      | Some element \<Rightarrow>
          (let n = list_length l - 1
           in Some (element, l\<lparr>list_length := n, list_data := shift_down i n (list_data l)\<rparr>)))"

definition RemoveLast :: "'a v8list \<Rightarrow> ('a \<times> 'a v8list) option" where
  "RemoveLast l = (if list_length l = 0 then None else Remove (list_length l - 1) l)"

text \<open>The search loop of \<open>RemoveElement\<close> and \<open>Contains\<close>.\<close>

function find_from :: "'a \<Rightarrow> nat \<Rightarrow> 'a v8list \<Rightarrow> nat option" where
  "find_from elm i l =
     (if i < list_length l
      then if list_data l ! i = Some elm then Some i else find_from elm (Suc i) l
      else None)"
  by pat_completeness auto
termination
  by (relation "measure (\<lambda>(elm, i, l). list_length l - i)") auto

declare find_from.simps [simp del]

definition RemoveElement :: "'a \<Rightarrow> 'a v8list \<Rightarrow> bool \<times> 'a v8list" where
  "RemoveElement elm l =
     (case find_from elm 0 l of
        None \<Rightarrow> (False, l)
      | Some i \<Rightarrow> (case Remove i l of None \<Rightarrow> (True, l) | Some (_, l') \<Rightarrow> (True, l')))"

definition Contains :: "'a \<Rightarrow> 'a v8list \<Rightarrow> bool" where
  "Contains elm l = (find_from elm 0 l \<noteq> None)"

definition Clear :: "'a v8list \<Rightarrow> 'a v8list" where
  "Clear l = Initialize 0"

definition Rewind :: "nat \<Rightarrow> 'a v8list \<Rightarrow> 'a v8list" where
  "Rewind pos l = l\<lparr>list_length := pos\<rparr>"

definition RewindBy :: "nat \<Rightarrow> 'a v8list \<Rightarrow> 'a v8list" where
  "RewindBy count l = Rewind (list_length l - count) l"

text \<open>\<open>CountOccurrences\<close> counts in the inclusive range \<open>start \<le> i \<le> end\<close>.\<close>

function CountOccurrences :: "'a \<Rightarrow> nat \<Rightarrow> nat \<Rightarrow> nat \<Rightarrow> 'a v8list \<Rightarrow> nat" where
  "CountOccurrences elm i en result l =
     (if i \<le> en
      then CountOccurrences elm (Suc i) en (if list_data l ! i = Some elm then Suc result else result) l
      else result)"
  by pat_completeness auto
termination
  by (relation "measure (\<lambda>(elm, i, en, result, l). Suc en - i)") auto

declare CountOccurrences.simps [simp del]

text \<open>
  \<open>SortedListBSearch\<close>.  The comparison function the caller passes is not used by the code: the
  loop compares with the element type's own \<open><\<close> and \<open>>\<close>.  The result is an index or \<open>-1\<close>.
\<close>

function bsearch_loop :: "'a::linorder v8list \<Rightarrow> 'a \<Rightarrow> int \<Rightarrow> int \<Rightarrow> int" where
  "bsearch_loop l elem low high =
     (if low \<le> high
      then let mid = (low + high) div 2; mid_elem = the (list_data l ! nat mid)
           in if mid_elem > elem then bsearch_loop l elem low (mid - 1)
              else if mid_elem < elem then bsearch_loop l elem (mid + 1) high
              else mid
      else -1)"
  by pat_completeness auto
termination
  by (relation "measure (\<lambda>(l, elem, low, high). nat (high - low + 1))") auto

declare bsearch_loop.simps [simp del]

definition SortedListBSearch :: "'a::linorder v8list \<Rightarrow> 'a \<Rightarrow> int" where
  "SortedListBSearch l elem = bsearch_loop l elem 0 (int (list_length l) - 1)"

section \<open>Invariant and abstraction\<close>

definition list_wf :: "'a v8list \<Rightarrow> bool" where
  "list_wf l \<longleftrightarrow> length (list_data l) = list_capacity l \<and> list_length l \<le> list_capacity l
     \<and> (\<forall>i < list_length l. list_data l ! i \<noteq> None)"

definition elems :: "'a v8list \<Rightarrow> 'a list" where
  "elems l = map the (take (list_length l) (list_data l))"

lemma list_wf_lengths:
  "list_wf l \<Longrightarrow> length (list_data l) = list_capacity l"
  "list_wf l \<Longrightarrow> list_length l \<le> list_capacity l"
  by (auto simp: list_wf_def)

lemma length_elems [simp]: "list_wf l \<Longrightarrow> length (elems l) = list_length l"
  by (simp add: elems_def list_wf_def)

lemma elems_nth: "list_wf l \<Longrightarrow> i < list_length l \<Longrightarrow> elems l ! i = the (list_data l ! i)"
  by (simp add: elems_def list_wf_def)

lemma data_nth_elems:
  assumes "list_wf l" "i < list_length l"
  shows "list_data l ! i = Some (elems l ! i)"
proof -
  from assms have "list_data l ! i \<noteq> None" by (simp add: list_wf_def)
  with assms show ?thesis by (simp add: elems_nth)
qed

lemma wf_Initialize [simp]: "list_wf (Initialize n)"
  by (simp add: list_wf_def Initialize_def)

lemma elems_Initialize [simp]: "elems (Initialize n) = []"
  by (simp add: elems_def Initialize_def)

lemma wf_Resize: "list_wf l \<Longrightarrow> list_capacity l \<le> n \<Longrightarrow> list_wf (Resize n l)"
  by (auto simp: list_wf_def Resize_def nth_append)

lemma elems_Resize: "list_wf l \<Longrightarrow> list_capacity l \<le> n \<Longrightarrow> elems (Resize n l) = elems l"
  by (simp add: elems_def Resize_def list_wf_def)

lemma length_Resize [simp]:
  "list_length (Resize n l) = list_length l" "list_capacity (Resize n l) = n"
  by (simp_all add: Resize_def)

text \<open>Writing the cell just past the end and counting it in appends to the elements.\<close>

lemma append_cell:
  assumes "list_wf l" "list_length l < list_capacity l"
  shows "list_wf (l\<lparr>list_data := (list_data l)[list_length l := Some x], list_length := Suc (list_length l)\<rparr>)"
    and "elems (l\<lparr>list_data := (list_data l)[list_length l := Some x], list_length := Suc (list_length l)\<rparr>) = elems l @ [x]"
  using assms by (auto simp: list_wf_def elems_def nth_list_update take_Suc_update_same)

lemma wf_ResizeAdd: "list_wf l \<Longrightarrow> list_length l = list_capacity l \<Longrightarrow> list_wf (ResizeAdd x l)"
  unfolding ResizeAdd_def Let_def
  by (rule append_cell) (simp_all add: wf_Resize)

lemma elems_ResizeAdd:
  "list_wf l \<Longrightarrow> list_length l = list_capacity l \<Longrightarrow> elems (ResizeAdd x l) = elems l @ [x]"
  unfolding ResizeAdd_def Let_def
  by (subst append_cell(2)) (simp_all add: wf_Resize elems_Resize)

lemma full_if_not_less: "list_wf l \<Longrightarrow> \<not> list_length l < list_capacity l \<Longrightarrow> list_length l = list_capacity l"
  by (simp add: list_wf_def)

lemma wf_Add [simp]: "list_wf l \<Longrightarrow> list_wf (Add x l)"
  by (auto simp: Add_def intro: append_cell wf_ResizeAdd full_if_not_less)

lemma elems_Add [simp]: "list_wf l \<Longrightarrow> elems (Add x l) = elems l @ [x]"
  by (simp add: Add_def append_cell elems_ResizeAdd full_if_not_less)

lemma length_Add [simp]: "list_length (Add x l) = Suc (list_length l)"
  by (simp add: Add_def ResizeAdd_def Let_def)

lemma wf_AddBlock: "list_wf l \<Longrightarrow> list_wf (AddBlock x n l)"
  by (induction n arbitrary: l) auto

lemma elems_AddBlock: "list_wf l \<Longrightarrow> elems (AddBlock x n l) = elems l @ replicate n x"
  by (induction n arbitrary: l) (auto simp: replicate_append_same)

lemma length_store_from [simp]: "length (store_from k xs d) = length d"
  by (induction k xs d rule: store_from.induct) auto

lemma nth_store_from:
  "k + length xs \<le> length d \<Longrightarrow> store_from k xs d ! i =
     (if k \<le> i \<and> i < k + length xs then Some (xs ! (i - k)) else d ! i)"
  by (induction k xs d rule: store_from.induct) (auto simp: nth_list_update nth_Cons' Suc_diff_le)

lemma elems_eqI:
  assumes "list_wf l" "list_length l = length xs" "\<And>i. i < length xs \<Longrightarrow> list_data l ! i = Some (xs ! i)"
  shows "elems l = xs"
  by (rule nth_equalityI) (use assms in \<open>auto simp: elems_nth\<close>)

lemma store_all_append:
  assumes "list_wf l" "list_length l + length xs \<le> list_capacity l"
  shows "list_wf (l\<lparr>list_data := store_from (list_length l) xs (list_data l), list_length := list_length l + length xs\<rparr>)"
      (is "list_wf ?l")
    and "elems (l\<lparr>list_data := store_from (list_length l) xs (list_data l), list_length := list_length l + length xs\<rparr>)
           = elems l @ xs"
proof -
  show wf: "list_wf ?l"
    using assms by (auto simp: list_wf_def nth_store_from)
  show "elems ?l = elems l @ xs"
    by (rule elems_eqI [OF wf])
       (use assms in \<open>auto simp: nth_store_from nth_append data_nth_elems list_wf_lengths\<close>)
qed

lemma AddAll_correct:
  assumes "list_wf l"
  shows "list_wf (AddAll xs l)" "elems (AddAll xs l) = elems l @ xs"
proof -
  let ?l = "if list_capacity l < list_length l + length xs then Resize (list_length l + length xs) l else l"
  have "list_wf ?l" "list_length ?l + length xs \<le> list_capacity ?l" "elems ?l = elems l" "list_length ?l = list_length l"
    using assms by (simp_all add: wf_Resize elems_Resize)
  with store_all_append [of ?l xs] show "list_wf (AddAll xs l)" "elems (AddAll xs l) = elems l @ xs"
    by (auto simp: AddAll_def Let_def simp del: if_split)
qed

section \<open>Removal and insertion\<close>

lemma length_shift_down [simp]: "length (shift_down i n d) = length d"
proof (induction i n d rule: shift_down.induct)
  case (1 i n d)
  then show ?case by (cases "i < n") (simp_all add: shift_down.simps [of i n d])
qed

lemma nth_shift_down:
  "n < length d \<Longrightarrow> shift_down i n d ! k = (if i \<le> k \<and> k < n then d ! Suc k else d ! k)"
proof (induction i n d rule: shift_down.induct)
  case (1 i n d)
  show ?case
  proof (cases "i < n")
    case True
    with "1.IH" "1.prems" show ?thesis
      by (subst shift_down.simps) (auto simp: nth_list_update)
  next
    case False
    then show ?thesis by (subst shift_down.simps) auto
  qed
qed

lemma Remove_correct:
  assumes "list_wf l" "i < list_length l"
  shows "\<exists>l'. Remove i l = Some (elems l ! i, l') \<and> list_wf l'
           \<and> elems l' = take i (elems l) @ drop (Suc i) (elems l)"
proof -
  let ?n = "list_length l - 1"
  let ?l = "l\<lparr>list_length := ?n, list_data := shift_down i ?n (list_data l)\<rparr>"
  have n: "?n < length (list_data l)" using assms by (auto simp: list_wf_def)
  have wf: "list_wf ?l" using assms n by (auto simp: list_wf_def nth_shift_down)
  have "elems ?l = take i (elems l) @ drop (Suc i) (elems l)"
    by (rule elems_eqI [OF wf])
       (use assms n in \<open>auto simp: nth_shift_down nth_append data_nth_elems min_def\<close>)
  moreover have "Remove i l = Some (elems l ! i, ?l)"
    using assms by (simp add: Remove_def List_at_def data_nth_elems Let_def)
  ultimately show ?thesis using wf by blast
qed

lemma Remove_out_of_range: "list_length l \<le> i \<Longrightarrow> Remove i l = None"
  by (simp add: Remove_def List_at_def)

lemma find_from_correct:
  "list_wf l \<Longrightarrow> case find_from x i l of
      None \<Rightarrow> (\<forall>k. i \<le> k \<and> k < list_length l \<longrightarrow> elems l ! k \<noteq> x)
    | Some j \<Rightarrow> i \<le> j \<and> j < list_length l \<and> elems l ! j = x \<and> (\<forall>k. i \<le> k \<and> k < j \<longrightarrow> elems l ! k \<noteq> x)"
proof (induction x i l rule: find_from.induct)
  case (1 x i l)
  note unf = find_from.simps [of x i l]
  show ?case
  proof (cases "i < list_length l \<and> elems l ! i \<noteq> x")
    case True
    then have step: "find_from x i l = find_from x (Suc i) l"
      using "1.prems" by (simp add: unf data_nth_elems)
    have IH: "case find_from x (Suc i) l of
        None \<Rightarrow> (\<forall>k. Suc i \<le> k \<and> k < list_length l \<longrightarrow> elems l ! k \<noteq> x)
      | Some j \<Rightarrow> Suc i \<le> j \<and> j < list_length l \<and> elems l ! j = x
          \<and> (\<forall>k. Suc i \<le> k \<and> k < j \<longrightarrow> elems l ! k \<noteq> x)"
      using True "1.IH" "1.prems" by (simp add: data_nth_elems)
    have later: "Suc i \<le> k" if "i \<le> k" "elems l ! k = x" for k
      using True that by (cases "k = i") auto
    show ?thesis
    proof (cases "find_from x (Suc i) l")
      case None
      with IH step later show ?thesis by auto
    next
      case (Some j)
      with IH step later show ?thesis by simp (meson Suc_leD)
    qed
  next
    case False
    with "1.prems" show ?thesis by (auto simp: unf data_nth_elems)
  qed
qed

lemma find_from_Some:
  assumes "list_wf l" "find_from x 0 l = Some i"
  shows "i < list_length l" "elems l ! i = x" "\<forall>j < i. elems l ! j \<noteq> x"
  using find_from_correct [OF assms(1), where x = x and i = 0] assms(2) by auto

lemma find_from_None:
  assumes "list_wf l"
  shows "find_from x 0 l = None \<longleftrightarrow> x \<notin> set (elems l)"
  using find_from_correct [OF assms, where x = x and i = 0] assms
  by (auto simp: in_set_conv_nth split: option.splits)

lemma remove1_at_first:
  "i < length xs \<Longrightarrow> xs ! i = x \<Longrightarrow> \<forall>j < i. xs ! j \<noteq> x \<Longrightarrow>
     remove1 x xs = take i xs @ drop (Suc i) xs"
proof (induction xs arbitrary: i)
  case Nil
  then show ?case by simp
next
  case (Cons y ys)
  show ?case
  proof (cases i)
    case 0
    with Cons.prems show ?thesis by simp
  next
    case (Suc j)
    have "\<forall>k < j. ys ! k \<noteq> x" "y \<noteq> x" using Cons.prems(3) Suc by fastforce+
    with Cons Suc show ?thesis by simp
  qed
qed

lemma RemoveElement_correct:
  assumes "list_wf l"
  shows "fst (RemoveElement x l) = (x \<in> set (elems l))"
    and "list_wf (snd (RemoveElement x l))"
    and "elems (snd (RemoveElement x l)) = remove1 x (elems l)"
proof -
  have "fst (RemoveElement x l) = (x \<in> set (elems l)) \<and> list_wf (snd (RemoveElement x l))
      \<and> elems (snd (RemoveElement x l)) = remove1 x (elems l)"
  proof (cases "find_from x 0 l")
    case None
    with assms have "x \<notin> set (elems l)" by (simp add: find_from_None)
    with None assms show ?thesis by (simp add: RemoveElement_def remove1_idem)
  next
    case (Some i)
    note f = find_from_Some [OF assms Some]
    from Remove_correct [OF assms f(1)] obtain l' where
      l': "Remove i l = Some (elems l ! i, l')" "list_wf l'"
          "elems l' = take i (elems l) @ drop (Suc i) (elems l)" by blast
    from remove1_at_first [of i "elems l" x] f assms
    have "remove1 x (elems l) = take i (elems l) @ drop (Suc i) (elems l)" by simp
    with l' Some f assms show ?thesis
      by (auto simp: RemoveElement_def in_set_conv_nth)
  qed
  then show "fst (RemoveElement x l) = (x \<in> set (elems l))"
    "list_wf (snd (RemoveElement x l))"
    "elems (snd (RemoveElement x l)) = remove1 x (elems l)" by blast+
qed

lemma Contains_correct: "list_wf l \<Longrightarrow> Contains x l = (x \<in> set (elems l))"
  using find_from_None [of l x] by (auto simp: Contains_def)

lemma length_shift_up [simp]: "length (shift_up index i d) = length d"
  by (induction index i d rule: shift_up.induct) auto

lemma nth_shift_up:
  "i < length d \<Longrightarrow> shift_up index i d ! k = (if index < k \<and> k \<le> i then d ! (k - 1) else d ! k)"
proof (induction index i d rule: shift_up.induct)
  case (2 index i d)
  then show ?case by (cases "k = Suc i") (auto simp: nth_list_update)
qed auto

lemma InsertAt_correct:
  assumes "list_wf l" "index \<le> list_length l"
  shows "\<exists>l'. InsertAt index x l = Some l' \<and> list_wf l'
           \<and> elems l' = take index (elems l) @ x # drop index (elems l)"
proof -
  let ?a = "Add x l"
  let ?l = "?a\<lparr>list_data := (shift_up index (list_length ?a - 1) (list_data ?a))[index := Some x]\<rparr>"
  have a: "list_wf ?a" "elems ?a = elems l @ [x]" using assms(1) by simp_all
  then have len: "list_length ?a - 1 < length (list_data ?a)"
    by (auto simp: list_wf_def)
  have cell: "list_data ?l ! k = Some ((take index (elems l) @ x # drop index (elems l)) ! k)"
    if "k < Suc (list_length l)" for k
  proof (cases "k = index")
    case True
    with assms len show ?thesis by (simp add: nth_append)
  next
    case False
    have "list_data ?a ! j = Some ((elems l @ [x]) ! j)" if "j < Suc (list_length l)" for j
      using data_nth_elems [OF a(1), of j] that a(2) by simp
    with False that assms len show ?thesis
      by (auto simp: nth_shift_up nth_append nth_Cons' min_def)
  qed
  have wf: "list_wf ?l" using a(1) cell by (auto simp: list_wf_def)
  have "elems ?l = take index (elems l) @ x # drop index (elems l)"
    by (rule elems_eqI [OF wf]) (use assms cell in auto)
  moreover have "InsertAt index x l = Some ?l" using assms(2) by (simp add: InsertAt_def Let_def)
  ultimately show ?thesis using wf by blast
qed

lemma CountOccurrences_correct:
  "list_wf l \<Longrightarrow> en < list_length l \<Longrightarrow>
     CountOccurrences x i en r l = r + card {k. i \<le> k \<and> k \<le> en \<and> elems l ! k = x}"
proof (induction x i en r l rule: CountOccurrences.induct)
  case (1 x i en r l)
  show ?case
  proof (cases "i \<le> en")
    case False
    then have "{k. i \<le> k \<and> k \<le> en \<and> elems l ! k = x} = {}" by auto
    with False show ?thesis by (simp add: CountOccurrences.simps [of x i])
  next
    case True
    let ?S = "{k. Suc i \<le> k \<and> k \<le> en \<and> elems l ! k = x}"
    have "{k. i \<le> k \<and> k \<le> en \<and> elems l ! k = x} = (if elems l ! i = x then insert i ?S else ?S)"
      using True by (auto simp: Suc_le_eq order.order_iff_strict)
    moreover have "finite ?S" by simp
    ultimately show ?thesis
      using True 1 by (simp add: CountOccurrences.simps [of x i] data_nth_elems)
  qed
qed

section \<open>Binary search\<close>

definition bsearch_ok :: "'a::linorder v8list \<Rightarrow> 'a \<Rightarrow> int \<Rightarrow> int \<Rightarrow> int \<Rightarrow> bool" where
  "bsearch_ok l x low high r =
     (if r = -1 then \<forall>k. low \<le> int k \<and> int k \<le> high \<longrightarrow> elems l ! k \<noteq> x
      else 0 \<le> r \<and> nat r < list_length l \<and> elems l ! nat r = x)"

text \<open>An answer for a narrower window is one for the wider window, if the rest holds no match.\<close>

lemma bsearch_ok_widen:
  assumes "bsearch_ok l x low' high' r"
    and "\<And>k. low \<le> int k \<Longrightarrow> int k \<le> high \<Longrightarrow> \<not> (low' \<le> int k \<and> int k \<le> high') \<Longrightarrow> elems l ! k \<noteq> x"
  shows "bsearch_ok l x low high r"
  using assms unfolding bsearch_ok_def by (auto split: if_splits)

lemma bsearch_loop_correct:
  assumes "list_wf l" "sorted (elems l)" "0 \<le> low" "high < int (list_length l)"
  shows "bsearch_ok l x low high (bsearch_loop l x low high)"
  using assms
proof (induction l x low high rule: bsearch_loop.induct)
  case (1 l x low high)
  note unf = bsearch_loop.simps [of l x low high]
  let ?mid = "(low + high) div 2"
  show ?case
  proof (cases "low \<le> high")
    case False
    then show ?thesis by (auto simp: unf bsearch_ok_def)
  next
    case True
    then have mid: "low \<le> ?mid" "?mid \<le> high" by auto
    then have mlt: "nat ?mid < list_length l" "0 \<le> ?mid" using "1.prems" by auto
    then have me: "the (list_data l ! nat ?mid) = elems l ! nat ?mid"
      using "1.prems"(1) by (simp add: elems_nth)
    have mono: "elems l ! j \<le> elems l ! k" if "j \<le> k" "k < list_length l" for j k
      using "1.prems"(1,2) that by (simp add: sorted_nth_mono)
    consider "elems l ! nat ?mid > x" | "elems l ! nat ?mid < x" | "elems l ! nat ?mid = x"
      by fastforce
    then show ?thesis
    proof cases
      case 1
      then have "bsearch_loop l x low high = bsearch_loop l x low (?mid - 1)"
        using True me by (simp add: unf Let_def)
      moreover have "bsearch_ok l x low (?mid - 1) (bsearch_loop l x low (?mid - 1))"
        using "1.IH"(1) [OF True refl refl] me 1 "1.prems" mid by simp
      moreover have "elems l ! k \<noteq> x" if "?mid \<le> int k" "int k \<le> high" for k
        using mono [of "nat ?mid" k] that 1 "1.prems"(4) by force
      ultimately show ?thesis by (force elim!: bsearch_ok_widen simp: not_le)
    next
      case 2
      note not_gt = less_not_sym [OF 2]
      have "bsearch_loop l x low high = bsearch_loop l x (?mid + 1) high"
        using True me 2 not_gt by (simp add: unf Let_def)
      moreover have "bsearch_ok l x (?mid + 1) high (bsearch_loop l x (?mid + 1) high)"
        using "1.IH"(2) [OF True refl refl] me 2 not_gt "1.prems" mid by simp
      moreover have "elems l ! k \<noteq> x" if "int k \<le> ?mid" for k
        using mono [of k "nat ?mid"] that 2 mlt by force
      ultimately show ?thesis by (force elim!: bsearch_ok_widen simp: not_le)
    next
      case 3
      then have "bsearch_loop l x low high = ?mid"
        using True me by (simp add: unf Let_def)
      moreover have "?mid \<noteq> -1" using mlt(2) by linarith
      ultimately show ?thesis using 3 mlt mid unfolding bsearch_ok_def by presburger
    qed
  qed
qed

section \<open>The list as an implementation of a sequence\<close>

text \<open>What a client of the list relies on: the element sequence after every operation.\<close>

locale sequence =
  fixes empty :: "'s"
    and add :: "'a \<Rightarrow> 's \<Rightarrow> 's"
    and remove :: "'a \<Rightarrow> 's \<Rightarrow> bool \<times> 's"
    and contains :: "'a \<Rightarrow> 's \<Rightarrow> bool"
    and content :: "'s \<Rightarrow> 'a list"
    and inv :: "'s \<Rightarrow> bool"
  assumes inv_empty: "inv empty"
    and content_empty: "content empty = []"
    and inv_add: "inv s \<Longrightarrow> inv (add x s)"
    and content_add: "inv s \<Longrightarrow> content (add x s) = content s @ [x]"
    and inv_remove: "inv s \<Longrightarrow> inv (snd (remove x s))"
    and content_remove: "inv s \<Longrightarrow> content (snd (remove x s)) = remove1 x (content s)"
    and remove_found: "inv s \<Longrightarrow> fst (remove x s) = (x \<in> set (content s))"
    and contains_iff: "inv s \<Longrightarrow> contains x s = (x \<in> set (content s))"
begin

text \<open>Registering an element that was not there and removing it again changes nothing.\<close>

lemma add_remove:
  assumes "inv s" "\<not> contains x s"
  shows "content (snd (remove x (add x s))) = content s" "fst (remove x (add x s))"
proof -
  have "x \<notin> set (content s)" using assms by (simp add: contains_iff)
  with assms show "content (snd (remove x (add x s))) = content s" "fst (remove x (add x s))"
    by (simp_all add: content_remove content_add inv_add remove_found remove1_append)
qed

lemma distinct_add: "inv s \<Longrightarrow> distinct (content s) \<Longrightarrow> \<not> contains x s \<Longrightarrow> distinct (content (add x s))"
  by (simp add: content_add contains_iff)

lemma distinct_remove: "inv s \<Longrightarrow> distinct (content s) \<Longrightarrow> distinct (content (snd (remove x s)))"
  by (simp add: content_remove)

lemma removed_is_gone:
  "inv s \<Longrightarrow> distinct (content s) \<Longrightarrow> \<not> contains x (snd (remove x s))"
  by (simp add: contains_iff inv_remove content_remove)

end

interpretation vl: sequence "Initialize 0" Add RemoveElement Contains elems list_wf
  by unfold_locales (simp_all add: RemoveElement_correct Contains_correct)

section \<open>Properties\<close>

text \<open>
  Inserting an element at any position and removing it again restores the list: \<open>InsertAt\<close> grows
  the backing store when it is full and moves the tail up, \<open>RemoveElement\<close> finds the element and
  moves the tail down.
\<close>

theorem insert_then_remove:
  assumes "list_wf l" "index \<le> list_length l" "x \<notin> set (elems l)"
  shows "\<exists>l'. InsertAt index x l = Some l' \<and> elems l' ! index = x \<and> fst (RemoveElement x l')
    \<and> list_wf (snd (RemoveElement x l')) \<and> elems (snd (RemoveElement x l')) = elems l"
proof -
  obtain l' where l': "InsertAt index x l = Some l'" "list_wf l'"
    "elems l' = take index (elems l) @ x # drop index (elems l)"
    using InsertAt_correct [OF assms(1,2)] by blast
  have "x \<notin> set (take index (elems l))" using assms(3) by (auto dest: in_set_takeD)
  then show ?thesis
    using l' RemoveElement_correct [OF l'(2), of x] assms(1,2) by (simp add: remove1_append nth_append)
qed

theorem insert_then_remove_witness:
  "\<exists>l'. InsertAt 1 9 (Add 5 (Add 4 (Initialize 2))) = Some l' \<and> elems (snd (RemoveElement 9 l')) = [4, 5 :: nat]"
  using insert_then_remove [of "Add 5 (Add 4 (Initialize 2))" 1 "9 :: nat"] by auto

text \<open>
  Binary search in a sorted list is correct and ends: it returns the index of a matching element,
  or \<open>-1\<close> if and only if there is none.
\<close>

theorem SortedListBSearch_correct:
  assumes "list_wf l" "sorted (elems l)"
  shows "(SortedListBSearch l x = -1 \<longleftrightarrow> x \<notin> set (elems l))
    \<and> (x \<in> set (elems l) \<longrightarrow> 0 \<le> SortedListBSearch l x \<and> nat (SortedListBSearch l x) < list_length l
         \<and> elems l ! nat (SortedListBSearch l x) = x)"
proof -
  have "bsearch_ok l x 0 (int (list_length l) - 1) (SortedListBSearch l x)"
    unfolding SortedListBSearch_def by (rule bsearch_loop_correct) (use assms in auto)
  then show ?thesis using assms(1) by (auto simp: bsearch_ok_def in_set_conv_nth split: if_splits)
qed

theorem SortedListBSearch_correct_witness:
  "elems (Add 7 (Add 4 (Initialize 0))) ! nat (SortedListBSearch (Add 7 (Add 4 (Initialize 0))) (7 :: nat)) = (7 :: nat)"
  using SortedListBSearch_correct [of "Add 7 (Add 4 (Initialize 0))" "7 :: nat"] by simp

end
