(* ===== verification/Cell_Map.thy ===== *)
theory Cell_Map
  imports W16_Prelude
begin

text \<open>
  The class \<open>CellMap\<close> of \<^verbatim>\<open>src/stm.cc\<close>: a chain of malloc'ed blocks of one hundred cells, each
  a pair of object pointers, with a set of owned cell locations and a map from original object
  addresses to cells.  \<open>ReadSet\<close> and \<open>WriteSet\<close> are thin wrappers around it.  The chain from
  \<open>first_block_\<close> along \<open>next_\<close> is the list \<open>blocks\<close>; \<open>last_block_address_\<close>, a pointer to the
  pointer to the block being filled, is the position of that block in the chain (it is \<open>NULL\<close>
  when the position is the length of the chain).  A cell that was never written is \<open>None\<close>.
\<close>

section \<open>Data\<close>

definition BLOCK_SIZE :: nat where
  "BLOCK_SIZE = 100"

record cell_pair =
  cell_from :: addr
  cell_to :: addr

record block =
  block_id :: nat
  cells :: "cell_pair option list"

record cell_map =
  blocks :: "block list"
  last_block :: nat
  index :: nat
  location_set :: "location set"
  object_map :: "addr \<rightharpoonup> location"

text \<open>The constructor leaves \<open>index_\<close> uninitialised: it holds an arbitrary value.\<close>

definition CellMap_new :: "nat \<Rightarrow> cell_map" where
  "CellMap_new garbage =
     \<lparr>blocks = [], last_block = 0, index = garbage, location_set = {}, object_map = Map.empty\<rparr>"

definition CellMap_delete :: "cell_map \<Rightarrow> cell_map" where
  "CellMap_delete m = m\<lparr>blocks := [], last_block := 0\<rparr>"

text \<open>
  The loop every operation shares: whole blocks up to the one being filled, then its first
  \<open>index_\<close> cells.  \<open>walk\<close> lists the cells in the order the loop meets them.
\<close>

definition block_cells :: "block \<Rightarrow> nat \<Rightarrow> (location \<times> cell_pair) list" where
  "block_cells b n = map (\<lambda>i. (BlockCell (block_id b) i, the (cells b ! i))) [0..<n]"

fun walk :: "nat \<Rightarrow> nat \<Rightarrow> nat \<Rightarrow> block list \<Rightarrow> (location \<times> cell_pair) list" where
  "walk k lst idx [] = []"
| "walk k lst idx (b # bs) =
     (if k = lst then block_cells b idx else block_cells b BLOCK_SIZE @ walk (Suc k) lst idx bs)"

definition used_cells :: "cell_map \<Rightarrow> (location \<times> cell_pair) list" where
  "used_cells m = walk 0 (last_block m) (index m) (blocks m)"

text \<open>\<open>std::map::insert\<close> keeps an entry that is already there.\<close>

definition map_insert :: "'k \<Rightarrow> 'v \<Rightarrow> ('k \<rightharpoonup> 'v) \<Rightarrow> ('k \<rightharpoonup> 'v)" where
  "map_insert k v m = (case m k of None \<Rightarrow> m(k \<mapsto> v) | Some _ \<Rightarrow> m)"

definition RebuildObjectMap :: "cell_map \<Rightarrow> cell_map" where
  "RebuildObjectMap m =
     m\<lparr>object_map := fold (\<lambda>(l, p) om. map_insert (cell_from p) l om) (used_cells m) Map.empty\<rparr>"

text \<open>
  \<open>Iterate\<close>: the visitor may overwrite both pointers of every used cell (a moving collector
  replaces each by the new address).  \<open>v\<close> is what \<open>VisitPointer\<close> stores for an old pointer.
\<close>

definition visit_pair :: "(addr \<Rightarrow> addr) \<Rightarrow> cell_pair \<Rightarrow> cell_pair" where
  "visit_pair v p = \<lparr>cell_from = v (cell_from p), cell_to = v (cell_to p)\<rparr>"

definition visit_block :: "(addr \<Rightarrow> addr) \<Rightarrow> block \<Rightarrow> nat \<Rightarrow> block" where
  "visit_block v b n =
     b\<lparr>cells := map (map_option (visit_pair v)) (take n (cells b)) @ drop n (cells b)\<rparr>"

fun visit_blocks :: "(addr \<Rightarrow> addr) \<Rightarrow> nat \<Rightarrow> nat \<Rightarrow> nat \<Rightarrow> block list \<Rightarrow> block list" where
  "visit_blocks v k lst idx [] = []"
| "visit_blocks v k lst idx (b # bs) =
     (if k = lst then visit_block v b idx # bs
      else visit_block v b BLOCK_SIZE # visit_blocks v (Suc k) lst idx bs)"

definition Iterate :: "(addr \<Rightarrow> addr) \<Rightarrow> cell_map \<Rightarrow> cell_map" where
  "Iterate v m =
     (let changes = list_ex (\<lambda>(l, p). v (cell_from p) \<noteq> cell_from p) (used_cells m);
          m' = m\<lparr>blocks := visit_blocks v 0 (last_block m) (index m) (blocks m)\<rparr>
      in if changes then RebuildObjectMap m' else m')"

definition IsMapped :: "cell_map \<Rightarrow> location \<Rightarrow> bool" where
  "IsMapped m l \<longleftrightarrow> l \<in> location_set m"

definition GetMapping :: "cell_map \<Rightarrow> addr \<Rightarrow> location option" where
  "GetMapping m obj = object_map m obj"

text \<open>
  \<open>AddMapping\<close>: \<open>fresh\<close> names the block that \<open>malloc\<close> would return, used only when a block is
  needed.  The result is the location of the new cell's \<open>to_\<close> field.
\<close>

definition ensure_block :: "nat \<Rightarrow> cell_map \<Rightarrow> cell_map" where
  "ensure_block fresh m =
     (if length (blocks m) \<le> last_block m
      then m\<lparr>blocks := blocks m @ [\<lparr>block_id = fresh, cells = replicate BLOCK_SIZE None\<rparr>], index := 0\<rparr>
      else m)"

definition AddMapping :: "nat \<Rightarrow> addr \<Rightarrow> addr \<Rightarrow> cell_map \<Rightarrow> location \<times> cell_map" where
  "AddMapping fresh obj redirect m0 =
     (let m = ensure_block fresh m0;
          b = blocks m ! last_block m;
          loc = BlockCell (block_id b) (index m);
          b' = b\<lparr>cells := (cells b)[index m := Some \<lparr>cell_from = obj, cell_to = redirect\<rparr>]\<rparr>;
          m' = m\<lparr>blocks := (blocks m)[last_block m := b'],
                 index := Suc (index m),
                 location_set := insert loc (location_set m),
                 object_map := map_insert obj loc (object_map m)\<rparr>
      in (loc, if index m' = BLOCK_SIZE then m'\<lparr>last_block := Suc (last_block m')\<rparr> else m'))"

text \<open>
  The managed heap, seen by object: the words of the object at each address.  \<open>CopyBlock\<close> copies
  as many words as the object at the destination has.
\<close>

type_synonym heap = "addr \<Rightarrow> nat list"

definition object_size :: "heap \<Rightarrow> addr \<Rightarrow> nat" where
  "object_size h a = length (h a)"

definition CopyBlock :: "addr \<Rightarrow> addr \<Rightarrow> nat \<Rightarrow> heap \<Rightarrow> heap" where
  "CopyBlock dst src n h = h(dst := take n (h src) @ drop n (h dst))"

definition CommitChanges :: "cell_map \<Rightarrow> heap \<Rightarrow> heap" where
  "CommitChanges m h =
     fold (\<lambda>(l, p) h. CopyBlock (cell_from p) (cell_to p) (object_size h (cell_from p)) h)
       (used_cells m) h"

definition Intersects :: "cell_map \<Rightarrow> cell_map \<Rightarrow> bool" where
  "Intersects m other \<longleftrightarrow> list_ex (\<lambda>(l, p). GetMapping m (cell_from p) \<noteq> None) (used_cells other)"

section \<open>Read set and write set\<close>

text \<open>A handle: its location and the object pointer stored there.\<close>

record handle =
  hlocation :: location
  htarget :: addr

text \<open>The object pointer in an owned cell (what dereferencing a returned handle reads).\<close>

definition cell_target :: "cell_map \<Rightarrow> location \<Rightarrow> addr option" where
  "cell_target m l = map_option cell_to (map_of (used_cells m) l)"

definition handle_at :: "cell_map \<Rightarrow> location \<Rightarrow> handle" where
  "handle_at m l = \<lparr>hlocation = l, htarget = the (cell_target m l)\<rparr>"

text \<open>
  \<open>WriteSet::Get\<close> and \<open>ReadSet::Get\<close> have the same body.  \<open>None\<close> is the null handle.
\<close>

definition Set_Get :: "cell_map \<Rightarrow> handle \<Rightarrow> handle option" where
  "Set_Get m obj =
     (if IsMapped m (hlocation obj) then Some obj
      else case GetMapping m (htarget obj) of
             Some l \<Rightarrow> Some (handle_at m l)
           | None \<Rightarrow> None)"

definition WriteSet_Add :: "nat \<Rightarrow> handle \<Rightarrow> addr \<Rightarrow> cell_map \<Rightarrow> handle \<times> cell_map" where
  "WriteSet_Add fresh obj redirect m =
     (let (l, m') = AddMapping fresh (htarget obj) redirect m in (handle_at m' l, m'))"

definition ReadSet_Add :: "nat \<Rightarrow> handle \<Rightarrow> cell_map \<Rightarrow> handle \<times> cell_map" where
  "ReadSet_Add fresh obj m =
     (let (l, m') = AddMapping fresh (htarget obj) (htarget obj) m in (handle_at m' l, m'))"

section \<open>Invariant\<close>

definition block_ids :: "cell_map \<Rightarrow> nat set" where
  "block_ids m = block_id ` set (blocks m)"

definition full_block :: "block \<Rightarrow> bool" where
  "full_block b \<longleftrightarrow> length (cells b) = BLOCK_SIZE \<and> None \<notin> set (cells b)"

definition filling_block :: "nat \<Rightarrow> block \<Rightarrow> bool" where
  "filling_block n b \<longleftrightarrow> length (cells b) = BLOCK_SIZE \<and> 0 < n \<and> n < BLOCK_SIZE
     \<and> None \<notin> set (take n (cells b))"

definition chain_ok :: "cell_map \<Rightarrow> bool" where
  "chain_ok m \<longleftrightarrow> last_block m \<le> length (blocks m) \<and> length (blocks m) \<le> Suc (last_block m)
     \<and> (\<forall>b \<in> set (take (last_block m) (blocks m)). full_block b)
     \<and> (last_block m < length (blocks m) \<longrightarrow> filling_block (index m) (blocks m ! last_block m))
     \<and> distinct (map block_id (blocks m))"

definition origin_map :: "cell_map \<Rightarrow> addr \<rightharpoonup> location" where
  "origin_map m = map_of (map (\<lambda>(l, p). (cell_from p, l)) (used_cells m))"

definition cm_inv :: "cell_map \<Rightarrow> bool" where
  "cm_inv m \<longleftrightarrow> chain_ok m \<and> location_set m = fst ` set (used_cells m) \<and> object_map m = origin_map m"

text \<open>The contents as a list of (original, redirected) pairs, oldest first.\<close>

definition entries :: "cell_map \<Rightarrow> (addr \<times> addr) list" where
  "entries m = map (\<lambda>(l, p). (cell_from p, cell_to p)) (used_cells m)"

definition origins :: "cell_map \<Rightarrow> addr set" where
  "origins m = fst ` set (entries m)"

section \<open>The traversal\<close>

lemma walk_append_last:
  assumes "length bs + k = lst"
  shows "walk k lst idx (bs @ [b]) = walk k lst idx bs @ block_cells b idx"
  using assms by (induction bs arbitrary: k) auto

lemma walk_full:
  assumes "length bs + k \<le> lst"
  shows "walk k lst idx bs = concat (map (\<lambda>b. block_cells b BLOCK_SIZE) bs)"
  using assms by (induction bs arbitrary: k) auto

lemma chain_cases:
  assumes "chain_ok m"
  obtains (closed) "length (blocks m) = last_block m"
    | (partial) bs b where "blocks m = bs @ [b]" "length bs = last_block m"
        "filling_block (index m) b"
proof (cases "last_block m < length (blocks m)")
  case False
  then show ?thesis using assms closed by (auto simp: chain_ok_def)
next
  case True
  then obtain bs b where bs: "blocks m = bs @ [b]"
    by (metis length_greater_0_conv less_zeroE not_gr_zero rev_exhaust)
  moreover from bs True assms have "length bs = last_block m" by (auto simp: chain_ok_def)
  ultimately show ?thesis using assms partial True by (auto simp: chain_ok_def nth_append)
qed

lemma used_cells_closed:
  "length (blocks m) = last_block m \<Longrightarrow>
     used_cells m = concat (map (\<lambda>b. block_cells b BLOCK_SIZE) (blocks m))"
  by (simp add: used_cells_def walk_full)

lemma used_cells_partial:
  "blocks m = bs @ [b] \<Longrightarrow> length bs = last_block m \<Longrightarrow>
     used_cells m = concat (map (\<lambda>b. block_cells b BLOCK_SIZE) bs) @ block_cells b (index m)"
  by (simp add: used_cells_def walk_append_last walk_full)

lemma block_cells_Suc:
  "block_cells b (Suc n) = block_cells b n @ [(BlockCell (block_id b) n, the (cells b ! n))]"
  by (simp add: block_cells_def)

lemma block_cells_update:
  "n \<le> i \<Longrightarrow> block_cells (b\<lparr>cells := (cells b)[i := x]\<rparr>) n = block_cells b n"
  by (auto simp: block_cells_def)

lemma set_block_cells:
  "fst ` set (block_cells b n) = {BlockCell (block_id b) i | i. i < n}"
  by (auto simp: block_cells_def image_iff)

lemma set_used_cells_ids:
  assumes "chain_ok m" "l \<in> fst ` set (used_cells m)"
  shows "\<exists>b i. l = BlockCell b i \<and> b \<in> block_ids m"
  using assms(1)
proof (cases rule: chain_cases)
  case closed
  with assms(2) show ?thesis
    by (fastforce simp: used_cells_closed block_cells_def block_ids_def)
next
  case (partial bs b)
  with assms(2) show ?thesis
    by (fastforce simp: used_cells_partial block_cells_def block_ids_def)
qed

lemma distinct_block_cells: "distinct (map fst (block_cells b n))"
  by (simp add: block_cells_def distinct_map inj_on_def o_def)

lemma distinct_concat_block_cells:
  "distinct (map block_id bs) \<Longrightarrow>
     distinct (map fst (concat (map (\<lambda>b. block_cells b BLOCK_SIZE) bs)))"
proof (induction bs)
  case Nil
  then show ?case by simp
next
  case (Cons b bs)
  then show ?case
    by (auto simp: distinct_block_cells) (auto simp: block_cells_def)
qed

lemma distinct_locations:
  assumes "chain_ok m"
  shows "distinct (map fst (used_cells m))"
  using assms
proof (cases rule: chain_cases)
  case closed
  with assms show ?thesis
    by (simp add: used_cells_closed distinct_concat_block_cells chain_ok_def)
next
  case (partial bs b)
  with assms have "distinct (map block_id bs)" "block_id b \<notin> block_id ` set bs"
    by (auto simp: chain_ok_def)
  with partial show ?thesis
    by (auto simp: used_cells_partial distinct_concat_block_cells distinct_block_cells)
       (auto simp: block_cells_def image_iff)
qed

section \<open>Adding a mapping\<close>

text \<open>The map with a block that has room, which \<open>AddMapping\<close> establishes first.\<close>

definition ready :: "cell_map \<Rightarrow> block list \<Rightarrow> block \<Rightarrow> bool" where
  "ready m bs b \<longleftrightarrow> blocks m = bs @ [b] \<and> length bs = last_block m \<and> (\<forall>c \<in> set bs. full_block c)
     \<and> length (cells b) = BLOCK_SIZE \<and> index m < BLOCK_SIZE \<and> None \<notin> set (take (index m) (cells b))
     \<and> distinct (map block_id (blocks m))"

lemma ensure_block_ready:
  assumes "chain_ok m" "fresh \<notin> block_ids m"
  obtains bs b where "ready (ensure_block fresh m) bs b"
    "used_cells (ensure_block fresh m) = used_cells m"
  using assms(1)
proof (cases rule: chain_cases)
  case closed
  let ?b = "\<lparr>block_id = fresh, cells = replicate BLOCK_SIZE None\<rparr>"
  have "ready (ensure_block fresh m) (blocks m) ?b"
    using closed assms by (auto simp: ready_def ensure_block_def chain_ok_def block_ids_def BLOCK_SIZE_def)
  moreover have "used_cells (ensure_block fresh m) = used_cells m"
    using closed used_cells_partial [of "ensure_block fresh m" "blocks m" ?b]
    by (simp add: ensure_block_def used_cells_closed block_cells_def)
  ultimately show ?thesis by (rule that)
next
  case (partial bs b)
  then have "ready m bs b" using assms
    by (auto simp: ready_def chain_ok_def filling_block_def)
  with partial show ?thesis by (intro that [of bs b]) (simp_all add: ensure_block_def)
qed

lemma ensure_block_other [simp]:
  "location_set (ensure_block fresh m) = location_set m"
  "object_map (ensure_block fresh m) = object_map m"
  by (simp_all add: ensure_block_def)

lemma take_Suc_no_None:
  "None \<notin> set (take n xs) \<Longrightarrow> n < length xs \<Longrightarrow> None \<notin> set (take (Suc n) (xs[n := Some y]))"
  by (simp add: take_Suc_update_same)

lemma add_cell:
  assumes "ready m bs b"
    and "b' = b\<lparr>cells := (cells b)[index m := Some p]\<rparr>"
    and "m' = m\<lparr>blocks := (blocks m)[last_block m := b'], index := Suc (index m),
                location_set := L, object_map := M\<rparr>"
    and "m'' = (if index m' = BLOCK_SIZE then m'\<lparr>last_block := Suc (last_block m')\<rparr> else m')"
  shows "used_cells m'' = used_cells m @ [(BlockCell (block_id b) (index m), p)]" "chain_ok m''"
    "block_ids m'' = block_ids m"
proof -
  have bl: "blocks m'' = bs @ [b']" "block_id b' = block_id b"
    using assms by (auto simp: ready_def nth_append list_update_append)
  have cells: "cells b' = (cells b)[index m := Some p]" "index m < length (cells b)"
    using assms by (auto simp: ready_def)
  have old: "used_cells m = concat (map (\<lambda>b. block_cells b BLOCK_SIZE) bs) @ block_cells b (index m)"
    using assms(1) by (auto simp: ready_def used_cells_partial)
  have app: "block_cells b' (Suc (index m)) = block_cells b (index m) @ [(BlockCell (block_id b) (index m), p)]"
    using cells bl(2) by (simp add: block_cells_Suc assms(2) block_cells_update)
  have noNone: "None \<notin> set (take (Suc (index m)) (cells b'))" "length (cells b') = BLOCK_SIZE"
    using assms(1) cells by (auto simp: ready_def take_Suc_no_None)
  show "used_cells m'' = used_cells m @ [(BlockCell (block_id b) (index m), p)]"
  proof (cases "Suc (index m) = BLOCK_SIZE")
    case True
    then have "length (blocks m'') = last_block m''"
      using assms bl by (auto simp: ready_def)
    with True app bl old show ?thesis by (simp add: used_cells_closed)
  next
    case False
    then have "length bs = last_block m''" "index m'' = Suc (index m)"
      using assms by (auto simp: ready_def)
    with app bl old show ?thesis by (simp add: used_cells_partial)
  qed
  show "chain_ok m''"
    using assms(1) bl noNone unfolding assms(3,4)
    by (auto simp: chain_ok_def ready_def full_block_def filling_block_def nth_append)
  show "block_ids m'' = block_ids m"
    using assms(1) bl by (auto simp: ready_def block_ids_def)
qed

lemma AddMapping_cells:
  assumes "chain_ok m" "fresh \<notin> block_ids m" "AddMapping fresh obj r m = (l, m')"
  shows "used_cells m' = used_cells m @ [(l, \<lparr>cell_from = obj, cell_to = r\<rparr>)]"
    and "chain_ok m'"
    and "location_set m' = insert l (location_set m)"
    and "object_map m' = map_insert obj l (object_map m)"
    and "block_ids m' \<subseteq> insert fresh (block_ids m)"
proof -
  define e where "e = ensure_block fresh m"
  obtain bs b where rdy: "ready e bs b" and used: "used_cells e = used_cells m"
    using ensure_block_ready [OF assms(1,2)] unfolding e_def .
  have b: "blocks e ! last_block e = b"
    using rdy by (auto simp: ready_def nth_append)
  define m1 where "m1 = e\<lparr>blocks := (blocks e)[last_block e :=
          b\<lparr>cells := (cells b)[index e := Some \<lparr>cell_from = obj, cell_to = r\<rparr>]\<rparr>],
       index := Suc (index e), location_set := insert l (location_set m),
       object_map := map_insert obj l (object_map m)\<rparr>"
  have m': "m' = (if index m1 = BLOCK_SIZE then m1\<lparr>last_block := Suc (last_block m1)\<rparr> else m1)"
    and l: "l = BlockCell (block_id b) (index e)"
    using assms(3) b by (auto simp: AddMapping_def Let_def m1_def e_def)
  note add = add_cell [OF rdy refl m1_def m']
  show "used_cells m' = used_cells m @ [(l, \<lparr>cell_from = obj, cell_to = r\<rparr>)]" "chain_ok m'"
    using add l used by simp_all
  show "location_set m' = insert l (location_set m)"
    "object_map m' = map_insert obj l (object_map m)" using m' by (simp_all add: m1_def)
  have "block_ids e \<subseteq> insert fresh (block_ids m)"
    by (auto simp: e_def ensure_block_def block_ids_def)
  with add show "block_ids m' \<subseteq> insert fresh (block_ids m)" by simp
qed

section \<open>The object map\<close>

lemma map_insert_add: "[k \<mapsto> v] ++ M = map_insert k v M"
  by (auto simp: map_insert_def fun_eq_iff map_add_def split: option.splits)

lemma fold_map_insert:
  "fold (\<lambda>(l, p) om. map_insert (f p) l om) xs M =
     (\<lambda>k. case M k of Some v \<Rightarrow> Some v | None \<Rightarrow> map_of (map (\<lambda>(l, p). (f p, l)) xs) k)"
proof (induction xs arbitrary: M)
  case Nil
  then show ?case by (simp add: fun_eq_iff split: option.splits)
next
  case (Cons x xs)
  then show ?case
    by (cases x) (auto simp: map_insert_def fun_eq_iff split: option.splits)
qed

lemma object_map_Rebuild: "object_map (RebuildObjectMap m) = origin_map m"
  by (simp add: RebuildObjectMap_def origin_map_def fold_map_insert)

lemma RebuildObjectMap_other [simp]:
  "used_cells (RebuildObjectMap m) = used_cells m" "blocks (RebuildObjectMap m) = blocks m"
  "location_set (RebuildObjectMap m) = location_set m" "origin_map (RebuildObjectMap m) = origin_map m"
  "chain_ok (RebuildObjectMap m) = chain_ok m" "block_ids (RebuildObjectMap m) = block_ids m"
  by (simp_all add: RebuildObjectMap_def used_cells_def origin_map_def chain_ok_def block_ids_def)

lemma CellMap_new_cells [simp]: "used_cells (CellMap_new g) = []"
  by (simp add: used_cells_def CellMap_new_def)

lemma cm_inv_new [simp]: "cm_inv (CellMap_new g)"
  by (simp add: cm_inv_def origin_map_def chain_ok_def CellMap_new_def used_cells_def)

lemma block_ids_new [simp]: "block_ids (CellMap_new g) = {}"
  by (simp add: block_ids_def CellMap_new_def)

lemma entries_new [simp]: "entries (CellMap_new g) = []"
  by (simp add: entries_def)

lemma cm_inv_AddMapping:
  assumes "cm_inv m" "fresh \<notin> block_ids m" "AddMapping fresh obj r m = (l, m')"
  shows "cm_inv m'" "entries m' = entries m @ [(obj, r)]" "l \<notin> location_set m"
    "cell_target m' l = Some r" "used_cells m' = used_cells m @ [(l, \<lparr>cell_from = obj, cell_to = r\<rparr>)]"
    "block_ids m' \<subseteq> insert fresh (block_ids m)"
proof -
  have ch: "chain_ok m" using assms(1) by (simp add: cm_inv_def)
  note add = AddMapping_cells [OF ch assms(2,3)]
  show "used_cells m' = used_cells m @ [(l, \<lparr>cell_from = obj, cell_to = r\<rparr>)]"
    "block_ids m' \<subseteq> insert fresh (block_ids m)" by (fact add)+
  have "object_map m' = origin_map m'"
    using add(1,4) assms(1) by (simp add: origin_map_def map_insert_add cm_inv_def)
  with add assms(1) show "cm_inv m'" by (simp add: cm_inv_def)
  show "entries m' = entries m @ [(obj, r)]" by (simp add: entries_def add(1))
  have "l \<notin> fst ` set (used_cells m)"
    using distinct_locations [OF add(2)] add(1) by simp
  moreover from this have "map_of (used_cells m) l = None" by (simp add: map_of_eq_None_iff)
  ultimately show "l \<notin> location_set m" "cell_target m' l = Some r"
    using assms(1) add(1) by (auto simp: cm_inv_def cell_target_def map_add_def)
qed

section \<open>The visitor\<close>

lemma block_cells_visit:
  "None \<notin> set (take n (cells b)) \<Longrightarrow> n \<le> length (cells b) \<Longrightarrow>
     block_cells (visit_block v b n) n = map (\<lambda>(l, p). (l, visit_pair v p)) (block_cells b n)"
  by (auto simp: block_cells_def visit_block_def nth_append in_set_conv_nth option.map_sel)

lemma visit_blocks_append:
  "length bs + k = lst \<Longrightarrow>
     visit_blocks v k lst idx (bs @ [b]) = map (\<lambda>b. visit_block v b BLOCK_SIZE) bs @ [visit_block v b idx]"
  by (induction bs arbitrary: k) auto

lemma visit_blocks_full:
  "length bs + k \<le> lst \<Longrightarrow> visit_blocks v k lst idx bs = map (\<lambda>b. visit_block v b BLOCK_SIZE) bs"
  by (induction bs arbitrary: k) auto

lemma visit_block_props [simp]:
  "block_id (visit_block v b n) = block_id b"
  "length (cells (visit_block v b n)) = length (cells b)"
  "None \<in> set (take n (cells (visit_block v b n))) \<longleftrightarrow> None \<in> set (take n (cells b))"
  by (auto simp: visit_block_def image_iff min_def split: if_splits)

lemma full_block_visit: "full_block b \<Longrightarrow> full_block (visit_block v b BLOCK_SIZE)"
  using visit_block_props(3) [of BLOCK_SIZE v b] by (simp add: full_block_def)

lemma filling_block_visit: "filling_block n b \<Longrightarrow> filling_block n (visit_block v b n)"
  by (simp add: filling_block_def)

lemma block_cells_visit_full:
  "full_block b \<Longrightarrow> block_cells (visit_block v b BLOCK_SIZE) BLOCK_SIZE
     = map (\<lambda>(l, p). (l, visit_pair v p)) (block_cells b BLOCK_SIZE)"
  by (rule block_cells_visit) (auto simp: full_block_def)

lemma visit_blocks_correct:
  assumes "chain_ok m" "m' = m\<lparr>blocks := visit_blocks v 0 (last_block m) (index m) (blocks m)\<rparr>"
  shows "chain_ok m'" "used_cells m' = map (\<lambda>(l, p). (l, visit_pair v p)) (used_cells m)"
    "block_ids m' = block_ids m"
proof -
  have "chain_ok m' \<and> used_cells m' = map (\<lambda>(l, p). (l, visit_pair v p)) (used_cells m)
      \<and> block_ids m' = block_ids m"
    using assms(1)
  proof (cases rule: chain_cases)
    case closed
    then have bl: "blocks m' = map (\<lambda>b. visit_block v b BLOCK_SIZE) (blocks m)"
      using assms(2) by (simp add: visit_blocks_full)
    moreover have "\<forall>b \<in> set (blocks m). full_block b"
      using assms(1) closed by (simp add: chain_ok_def)
    ultimately show ?thesis
      using assms closed
      by (auto simp: chain_ok_def used_cells_closed full_block_visit block_ids_def o_def image_image
          map_concat block_cells_visit_full intro!: arg_cong [where f = concat])
  next
    case (partial bs b)
    then have bl: "blocks m' = map (\<lambda>b. visit_block v b BLOCK_SIZE) bs @ [visit_block v b (index m)]"
      using assms(2) by (simp add: visit_blocks_append)
    have full: "\<forall>b \<in> set bs. full_block b"
      using assms(1) partial by (simp add: chain_ok_def)
    have "used_cells m' = map (\<lambda>(l, p). (l, visit_pair v p)) (used_cells m)"
      using full partial bl assms(2) used_cells_partial [OF bl]
      by (auto simp: used_cells_partial map_concat o_def filling_block_def block_cells_visit
          block_cells_visit_full intro!: arg_cong [where f = concat])
    moreover have "chain_ok m'"
      using assms partial bl full
      by (auto simp: chain_ok_def full_block_visit filling_block_visit nth_append o_def)
    moreover have "block_ids m' = block_ids m"
      using bl partial by (auto simp: block_ids_def image_image)
    ultimately show ?thesis by blast
  qed
  then show "chain_ok m'" "used_cells m' = map (\<lambda>(l, p). (l, visit_pair v p)) (used_cells m)"
    "block_ids m' = block_ids m" by blast+
qed

lemma origin_map_cong:
  "map (\<lambda>(l, p). (cell_from p, l)) (used_cells m) = map (\<lambda>(l, p). (cell_from p, l)) (used_cells m')
     \<Longrightarrow> origin_map m = origin_map m'"
  by (simp add: origin_map_def)

lemma Iterate_correct:
  assumes "cm_inv m"
  shows "cm_inv (Iterate v m)"
    and "used_cells (Iterate v m) = map (\<lambda>(l, p). (l, visit_pair v p)) (used_cells m)"
    and "location_set (Iterate v m) = location_set m"
    and "block_ids (Iterate v m) = block_ids m"
proof -
  define m' where "m' = m\<lparr>blocks := visit_blocks v 0 (last_block m) (index m) (blocks m)\<rparr>"
  have ch: "chain_ok m" using assms by (simp add: cm_inv_def)
  note vis = visit_blocks_correct [OF ch m'_def]
  have locs: "location_set m' = fst ` set (used_cells m')" "location_set m' = location_set m"
    using assms vis by (auto simp: cm_inv_def m'_def image_image case_prod_beta)
  have it: "Iterate v m = (if list_ex (\<lambda>(l, p). v (cell_from p) \<noteq> cell_from p) (used_cells m)
      then RebuildObjectMap m' else m')"
    by (simp add: Iterate_def Let_def m'_def)
  have "origin_map m' = origin_map m"
    if "\<not> list_ex (\<lambda>(l, p). v (cell_from p) \<noteq> cell_from p) (used_cells m)"
    by (rule origin_map_cong)
       (use that in \<open>auto simp: vis(2) list_ex_iff visit_pair_def case_prod_beta\<close>)
  then have "object_map (Iterate v m) = origin_map (Iterate v m)"
    using assms by (simp add: it object_map_Rebuild cm_inv_def) (simp add: m'_def)
  then show "cm_inv (Iterate v m)"
    using vis locs by (simp add: it cm_inv_def)
  show "used_cells (Iterate v m) = map (\<lambda>(l, p). (l, visit_pair v p)) (used_cells m)"
    "location_set (Iterate v m) = location_set m" "block_ids (Iterate v m) = block_ids m"
    using vis locs by (simp_all add: it)
qed

lemma entries_Iterate:
  "cm_inv m \<Longrightarrow> entries (Iterate v m) = map (\<lambda>(a, b). (v a, v b)) (entries m)"
  by (simp add: entries_def Iterate_correct(2) visit_pair_def case_prod_beta o_def)

section \<open>Looking up a redirection\<close>

lemma GetMapping_None: "cm_inv m \<Longrightarrow> GetMapping m obj = None \<longleftrightarrow> obj \<notin> origins m"
  by (auto simp: GetMapping_def cm_inv_def origin_map_def origins_def entries_def
      map_of_eq_None_iff image_image case_prod_beta)

lemma map_of_first_location:
  "map_of (map (\<lambda>(l, p). (cell_from p, l)) xs) obj = Some l \<Longrightarrow> distinct (map fst xs) \<Longrightarrow>
     map_option cell_to (map_of xs l) = map_of (map (\<lambda>(l, p). (cell_from p, cell_to p)) xs) obj
     \<and> l \<in> fst ` set xs"
  by (induction xs) (auto split: if_splits simp: image_iff)

lemma GetMapping_Some:
  assumes "cm_inv m" "GetMapping m obj = Some l"
  shows "cell_target m l = map_of (entries m) obj" "IsMapped m l"
proof -
  have d: "distinct (map fst (used_cells m))"
    using assms(1) by (simp add: cm_inv_def distinct_locations)
  have "map_of (map (\<lambda>(l, p). (cell_from p, l)) (used_cells m)) obj = Some l"
    using assms by (simp add: cm_inv_def GetMapping_def origin_map_def)
  from map_of_first_location [OF this d] show "cell_target m l = map_of (entries m) obj" "IsMapped m l"
    using assms(1) by (simp_all add: cell_target_def entries_def IsMapped_def cm_inv_def)
qed

lemma cell_target_mapped: "cm_inv m \<Longrightarrow> IsMapped m l \<Longrightarrow> cell_target m l \<noteq> None"
  by (auto simp: cm_inv_def IsMapped_def cell_target_def map_of_eq_None_iff)

lemma origins_cells: "origins m = (\<lambda>x. cell_from (snd x)) ` set (used_cells m)"
  by (simp add: origins_def entries_def image_image case_prod_beta)

lemma Intersects_iff:
  assumes "cm_inv m"
  shows "Intersects m other \<longleftrightarrow> origins m \<inter> origins other \<noteq> {}"
proof -
  have "Intersects m other \<longleftrightarrow> (\<exists>x \<in> set (used_cells other). cell_from (snd x) \<in> origins m)"
    using assms by (simp add: Intersects_def list_ex_iff GetMapping_None case_prod_beta)
  also have "\<dots> \<longleftrightarrow> origins m \<inter> origins other \<noteq> {}"
    unfolding origins_cells [of other] by blast
  finally show ?thesis .
qed

text \<open>
  What the transaction layer relies on: the set is a growing association of original objects
  with the objects they are redirected to, and owned cells keep their contents.
\<close>

locale redirect_set =
  fixes lookup :: "'s \<Rightarrow> addr \<Rightarrow> location option"
    and owned :: "'s \<Rightarrow> location \<Rightarrow> bool"
    and add :: "nat \<Rightarrow> addr \<Rightarrow> addr \<Rightarrow> 's \<Rightarrow> location \<times> 's"
    and tgt :: "'s \<Rightarrow> location \<Rightarrow> addr option"
    and content :: "'s \<Rightarrow> (addr \<times> addr) list"
    and ids :: "'s \<Rightarrow> nat set"
    and inv :: "'s \<Rightarrow> bool"
  assumes lookup_None: "inv s \<Longrightarrow> lookup s a = None \<longleftrightarrow> a \<notin> fst ` set (content s)"
    and lookup_Some: "inv s \<Longrightarrow> lookup s a = Some l \<Longrightarrow> tgt s l = map_of (content s) a \<and> owned s l"
    and inv_add: "inv s \<Longrightarrow> f \<notin> ids s \<Longrightarrow> inv (snd (add f a r s))"
    and content_add: "inv s \<Longrightarrow> f \<notin> ids s \<Longrightarrow> content (snd (add f a r s)) = content s @ [(a, r)]"
    and tgt_add: "inv s \<Longrightarrow> f \<notin> ids s \<Longrightarrow> tgt (snd (add f a r s)) (fst (add f a r s)) = Some r"
    and owned_add: "inv s \<Longrightarrow> f \<notin> ids s \<Longrightarrow>
          owned (snd (add f a r s)) l \<longleftrightarrow> l = fst (add f a r s) \<or> owned s l"
    and tgt_kept: "inv s \<Longrightarrow> f \<notin> ids s \<Longrightarrow> owned s l \<Longrightarrow> tgt (snd (add f a r s)) l = tgt s l"
begin

text \<open>An original that was not yet redirected is redirected to what was added for it.\<close>

lemma lookup_added:
  assumes "inv s" "f \<notin> ids s" "lookup s a = None"
  shows "\<exists>l. lookup (snd (add f a r s)) a = Some l \<and> tgt (snd (add f a r s)) l = Some r"
proof -
  let ?s = "snd (add f a r s)"
  have i: "inv ?s" and c: "content ?s = content s @ [(a, r)]"
    using assms by (simp_all add: inv_add content_add)
  have new: "a \<notin> fst ` set (content s)" using assms by (simp add: lookup_None)
  then have "map_of (content ?s) a = Some r"
    by (simp add: c map_add_def map_of_eq_None_iff [THEN iffD2])
  moreover have "lookup ?s a \<noteq> None" using i c by (simp add: lookup_None)
  ultimately show ?thesis using lookup_Some [OF i] by fastforce
qed

text \<open>Adding a redirection never changes where an object already redirected goes.\<close>

lemma lookup_stable:
  assumes "inv s" "f \<notin> ids s" "lookup s b = Some l"
  shows "\<exists>l'. lookup (snd (add f a r s)) b = Some l' \<and> tgt (snd (add f a r s)) l' = tgt s l"
proof -
  let ?s = "snd (add f a r s)"
  have i: "inv ?s" and c: "content ?s = content s @ [(a, r)]"
    using assms by (simp_all add: inv_add content_add)
  have t: "tgt s l = map_of (content s) b" using lookup_Some [OF assms(1,3)] by simp
  have "b \<in> fst ` set (content s)" using assms lookup_None [of s b] by force
  then obtain t where "map_of (content s) b = Some t"
    by (metis map_of_eq_None_iff not_Some_eq)
  then have "map_of (content ?s) b = map_of (content s) b"
    by (simp add: c map_add_def)
  moreover have "lookup ?s b \<noteq> None"
    using \<open>b \<in> fst ` set (content s)\<close> i c by (simp add: lookup_None)
  ultimately show ?thesis using t lookup_Some [OF i] by fastforce
qed

end

lemma cell_target_kept:
  assumes "cm_inv m" "f \<notin> block_ids m" "IsMapped m l"
  shows "cell_target (snd (AddMapping f a r m)) l = cell_target m l"
proof -
  obtain l' m' where add: "AddMapping f a r m = (l', m')" by fastforce
  have "map_of (used_cells m) l \<noteq> None"
    using assms(1,3) by (auto simp: cm_inv_def IsMapped_def map_of_eq_None_iff)
  with cm_inv_AddMapping(5) [OF assms(1,2) add] add show ?thesis
    by (auto simp: cell_target_def map_add_def)
qed

lemma AddMapping_inv:
  assumes "cm_inv m" "f \<notin> block_ids m"
  shows "cm_inv (snd (AddMapping f a r m))" "entries (snd (AddMapping f a r m)) = entries m @ [(a, r)]"
    "cell_target (snd (AddMapping f a r m)) (fst (AddMapping f a r m)) = Some r"
    "location_set (snd (AddMapping f a r m)) = insert (fst (AddMapping f a r m)) (location_set m)"
    "block_ids (snd (AddMapping f a r m)) \<subseteq> insert f (block_ids m)"
    "fst (AddMapping f a r m) \<notin> location_set m"
proof -
  obtain l m' where add: "AddMapping f a r m = (l, m')" by fastforce
  have ch: "chain_ok m" using assms by (simp add: cm_inv_def)
  from cm_inv_AddMapping [OF assms add] AddMapping_cells(3) [OF ch assms(2) add] add
  show "cm_inv (snd (AddMapping f a r m))" "entries (snd (AddMapping f a r m)) = entries m @ [(a, r)]"
    "cell_target (snd (AddMapping f a r m)) (fst (AddMapping f a r m)) = Some r"
    "location_set (snd (AddMapping f a r m)) = insert (fst (AddMapping f a r m)) (location_set m)"
    "block_ids (snd (AddMapping f a r m)) \<subseteq> insert f (block_ids m)"
    "fst (AddMapping f a r m) \<notin> location_set m" by simp_all
qed

interpretation cm: redirect_set GetMapping IsMapped AddMapping cell_target entries block_ids cm_inv
proof unfold_locales
  fix s a
  show "cm_inv s \<Longrightarrow> (GetMapping s a = None) = (a \<notin> fst ` set (entries s))"
    by (simp add: GetMapping_None origins_def)
qed (auto simp: GetMapping_Some AddMapping_inv cell_target_kept, auto simp: IsMapped_def AddMapping_inv)

section \<open>Resolving handles\<close>

text \<open>The handle a set resolves to is one of its own cells, whatever handle it was asked for.\<close>

lemma Set_Get_owned:
  "cm_inv m \<Longrightarrow> Set_Get m obj = Some r \<Longrightarrow> IsMapped m (hlocation r)"
  by (auto simp: Set_Get_def handle_at_def dest: GetMapping_Some split: if_splits option.splits)

lemma Set_Get_target:
  assumes "cm_inv m" "Set_Get m obj = Some r" "\<not> IsMapped m (hlocation obj)"
  shows "map_of (entries m) (htarget obj) = Some (htarget r)"
proof -
  from assms(2,3) obtain l where l: "GetMapping m (htarget obj) = Some l" "r = handle_at m l"
    by (auto simp: Set_Get_def split: option.splits)
  from GetMapping_Some [OF assms(1) l(1)] have "cell_target m l = map_of (entries m) (htarget obj)"
    "IsMapped m l" by auto
  moreover from cell_target_mapped [OF assms(1) this(2)] obtain t where t: "cell_target m l = Some t"
    by auto
  ultimately have "map_of (entries m) (htarget obj) = Some t" by simp
  with t l(2) show ?thesis by (simp add: handle_at_def)
qed

lemma Set_Get_None:
  "cm_inv m \<Longrightarrow> Set_Get m obj = None \<longleftrightarrow> \<not> IsMapped m (hlocation obj) \<and> htarget obj \<notin> origins m"
  using GetMapping_None [of m "htarget obj"] by (auto simp: Set_Get_def split: option.splits)

lemma Set_Get_idem: "cm_inv m \<Longrightarrow> Set_Get m obj = Some r \<Longrightarrow> Set_Get m r = Some r"
  using Set_Get_owned [of m obj r] by (simp add: Set_Get_def)

section \<open>Collections\<close>

text \<open>A collection moves the object a handle points to.\<close>

definition relocate :: "(addr \<Rightarrow> addr) \<Rightarrow> handle \<Rightarrow> handle" where
  "relocate v h = h\<lparr>htarget := v (htarget h)\<rparr>"

lemma map_of_map_key:
  "inj_on v (insert k (fst ` set xs)) \<Longrightarrow> map_of (map (\<lambda>(a, l). (v a, l)) xs) (v k) = map_of xs k"
  by (induction xs) (auto simp: inj_on_def)

lemma GetMapping_Iterate:
  assumes "cm_inv m" "inj_on v (insert a (origins m))"
  shows "GetMapping (Iterate v m) (v a) = GetMapping m a"
proof -
  let ?o = "map (\<lambda>(l, p). (cell_from p, l)) (used_cells m)"
  have "origin_map (Iterate v m) = map_of (map (\<lambda>(a, l). (v a, l)) ?o)"
    using assms(1) by (simp add: origin_map_def Iterate_correct(2) visit_pair_def case_prod_beta o_def)
  moreover have "fst ` set ?o = origins m"
    by (simp add: origins_cells image_image case_prod_beta)
  ultimately have "origin_map (Iterate v m) (v a) = origin_map m a"
    using map_of_map_key [of v a ?o] assms(2) by (simp add: origin_map_def)
  then show ?thesis
    using assms(1) Iterate_correct(1) [OF assms(1), of v] by (simp add: GetMapping_def cm_inv_def)
qed

lemma cell_target_Iterate:
  assumes "cm_inv m"
  shows "cell_target (Iterate v m) l = map_option v (cell_target m l)"
proof -
  have "map_of (map (\<lambda>(l, p). (l, visit_pair v p)) xs) l = map_option (visit_pair v) (map_of xs l)" for xs
    by (induction xs) auto
  then show ?thesis
    using assms by (simp add: cell_target_def Iterate_correct(2) option.map_comp visit_pair_def o_def)
qed

lemma Set_Get_Iterate:
  assumes "cm_inv m" "inj_on v (insert (htarget h) (origins m))"
  shows "Set_Get (Iterate v m) (relocate v h) = map_option (relocate v) (Set_Get m h)"
proof -
  have eq: "IsMapped (Iterate v m) l = IsMapped m l" for l
    using Iterate_correct(3) [OF assms(1)] by (simp add: IsMapped_def)
  have "handle_at (Iterate v m) l = relocate v (handle_at m l)" if "GetMapping m (htarget h) = Some l" for l
    using cell_target_mapped [OF assms(1) GetMapping_Some(2) [OF assms(1) that]]
      cell_target_Iterate [OF assms(1), of v l]
    by (auto simp: handle_at_def relocate_def)
  with eq GetMapping_Iterate [OF assms] show ?thesis
    by (auto simp: Set_Get_def relocate_def split: option.splits)
qed

section \<open>Writing the changes back\<close>

lemma CopyBlock_same_size:
  "length (h src) = length (h dst) \<Longrightarrow> CopyBlock dst src (object_size h dst) h = h(dst := h src)"
  by (simp add: CopyBlock_def object_size_def)

definition commit_entries :: "(addr \<times> addr) list \<Rightarrow> heap \<Rightarrow> heap" where
  "commit_entries es h = fold (\<lambda>(a, b) h. CopyBlock a b (object_size h a) h) es h"

lemma CommitChanges_entries: "CommitChanges m h = commit_entries (entries m) h"
  by (simp add: CommitChanges_def commit_entries_def entries_def fold_map o_def case_prod_unfold)

lemma commit_entries_spec:
  assumes "distinct (map fst es)" "fst ` set es \<inter> snd ` set es = {}"
    and "\<forall>(a, b) \<in> set es. length (h a) = length (h b)"
  shows "commit_entries es h = (\<lambda>a. case map_of es a of Some b \<Rightarrow> h b | None \<Rightarrow> h a)"
  using assms
proof (induction es arbitrary: h)
  case Nil
  then show ?case by (simp add: commit_entries_def)
next
  case (Cons e es)
  obtain a b where e: "e = (a, b)" by fastforce
  let ?h = "h(a := h b)"
  have "a \<notin> snd ` set es" "a \<notin> fst ` set es" "a \<noteq> b" using Cons.prems e by auto
  then have "\<forall>(c, d) \<in> set es. length (?h c) = length (?h d)"
    using Cons.prems(3) by (force simp: e)
  moreover have "distinct (map fst es)" "fst ` set es \<inter> snd ` set es = {}" using Cons.prems by auto
  ultimately have "commit_entries es ?h = (\<lambda>x. case map_of es x of Some y \<Rightarrow> ?h y | None \<Rightarrow> ?h x)"
    using Cons.IH by blast
  moreover have "commit_entries (e # es) h = commit_entries es ?h"
    using Cons.prems(3) by (auto simp: commit_entries_def e CopyBlock_same_size)
  moreover have "?h y = h y" if "map_of es x = Some y" for x y
    using \<open>a \<notin> snd ` set es\<close> map_of_SomeD [OF that] by force
  moreover have "map_of es a = None"
    using \<open>a \<notin> fst ` set es\<close> by (simp add: map_of_eq_None_iff)
  ultimately show ?case
    by (auto simp: e fun_eq_iff split: option.splits)
qed

section \<open>Properties\<close>

text \<open>
  A redirect set is a faithful map from objects to cells: an object added to it is found and its
  cell holds the redirect, and adding an object changes no other lookup, although blocks are
  appended and filled cell by cell.
\<close>

theorem AddMapping_GetMapping:
  assumes "cm_inv m" "f \<notin> block_ids m" "GetMapping m a = None"
  shows "(\<exists>l. GetMapping (snd (AddMapping f a r m)) a = Some l \<and> cell_target (snd (AddMapping f a r m)) l = Some r)
    \<and> (\<forall>b l. GetMapping m b = Some l \<longrightarrow>
         (\<exists>l'. GetMapping (snd (AddMapping f a r m)) b = Some l' \<and> cell_target (snd (AddMapping f a r m)) l' = cell_target m l))"
  using cm.lookup_added [OF assms] cm.lookup_stable [OF assms(1,2)] by blast

theorem AddMapping_GetMapping_witness:
  "\<exists>l. GetMapping (snd (AddMapping 0 5 6 (CellMap_new 0))) 5 = Some l
     \<and> cell_target (snd (AddMapping 0 5 6 (CellMap_new 0))) l = Some 6"
  using AddMapping_GetMapping [of "CellMap_new 0" 0 5 6] GetMapping_None [of "CellMap_new 0" 5]
  by (simp add: origins_def)

text \<open>
  Conflict detection is exact: \<open>Intersects\<close> finds a conflict if and only if the two sets contain
  a common original object, whatever blocks the cells are in.
\<close>

theorem Intersects_exact:
  assumes "cm_inv m"
  shows "Intersects m other \<longleftrightarrow> (\<exists>a. a \<in> origins m \<and> a \<in> origins other)"
  using Intersects_iff [OF assms] by blast

theorem Intersects_exact_witness:
  "Intersects (snd (AddMapping 0 5 6 (CellMap_new 0))) (snd (AddMapping 1 5 7 (CellMap_new 1)))"
  using Intersects_exact [of "snd (AddMapping 0 5 6 (CellMap_new 0))" "snd (AddMapping 1 5 7 (CellMap_new 1))"]
  by (simp add: AddMapping_inv origins_def)

end
