(* ===== verification/Stm.thy ===== *)
theory Stm
  imports V8_List Cell_Map
begin

text \<open>
  The transactions and the transaction manager of \<^verbatim>\<open>src/stm.cc\<close> as state transformers: the
  classes \<open>Transaction\<close> and \<open>STM\<close>, with the part of the heap they use (allocation of a copy,
  \<open>CopyJSObject\<close>, the \<open>CALL_AND_RETRY\<close> macro).  Each operation is modelled whole; the theories
  \<open>Stm_Serial\<close> and \<open>Gc_Protocol\<close> interleave their steps.  A moving collection that runs while a
  copy is allocated acts on every pointer alike and is modelled by \<open>Iterate\<close>.
\<close>

section \<open>The managed heap\<close>

datatype object_kind = JSObjectKind | JSFunctionKind | OtherKind

text \<open>A function is a JavaScript object too.\<close>

definition IsJSObject :: "object_kind \<Rightarrow> bool" where
  "IsJSObject k \<longleftrightarrow> k = JSObjectKind \<or> k = JSFunctionKind"

definition IsJSFunction :: "object_kind \<Rightarrow> bool" where
  "IsJSFunction k \<longleftrightarrow> k = JSFunctionKind"

text \<open>
  Objects are allocated at increasing addresses below \<open>heap_limit\<close>; \<open>next_block\<close> is the next
  block identifier \<open>malloc\<close> returns to the STM.
\<close>

record memory =
  js_heap :: heap
  kinds :: "addr \<Rightarrow> object_kind"
  next_addr :: addr
  heap_limit :: addr
  next_block :: nat

datatype 'a maybe_object = Obj 'a | RetryAfterGC | OutOfMemory | Exception

definition AllocateRaw :: "nat list \<Rightarrow> object_kind \<Rightarrow> memory \<Rightarrow> addr maybe_object \<times> memory" where
  "AllocateRaw ws k m =
     (if next_addr m < heap_limit m
      then (Obj (next_addr m),
            m\<lparr>js_heap := (js_heap m)(next_addr m := ws),
              kinds := (kinds m)(next_addr m := k),
              next_addr := Suc (next_addr m)\<rparr>)
      else (RetryAfterGC, m))"

text \<open>
  The layout the code relies on: words 1 and 2 of a JavaScript object point to its properties
  and elements arrays; word 1 of an array is its length; word 0 is the map.
\<close>

definition properties_word :: nat where "properties_word = 1"
definition elements_word :: nat where "elements_word = 2"

definition array_length :: "memory \<Rightarrow> addr \<Rightarrow> nat" where
  "array_length m a = (if 1 < length (js_heap m a) then js_heap m a ! 1 else 0)"

definition array_map :: "memory \<Rightarrow> addr \<Rightarrow> nat" where
  "array_map m a = (case js_heap m a of [] \<Rightarrow> 0 | w # _ \<Rightarrow> w)"

definition set_word :: "addr \<Rightarrow> nat \<Rightarrow> nat \<Rightarrow> memory \<Rightarrow> memory" where
  "set_word a i w m = m\<lparr>js_heap := (js_heap m)(a := (js_heap m a)[i := w])\<rparr>"

text \<open>
  \<open>Heap::CopyJSObject\<close>: clone the words of the object, then give the clone its own elements
  (unless they are copy-on-write) and its own properties.
\<close>

definition copy_array_word :: "addr \<Rightarrow> nat \<Rightarrow> addr \<Rightarrow> bool \<Rightarrow> memory \<Rightarrow> addr maybe_object \<times> memory" where
  "copy_array_word clone i arr shared m =
     (if array_length m arr > 0
      then if shared then (Obj clone, set_word clone i arr m)
           else case AllocateRaw (js_heap m arr) (kinds m arr) m of
                  (Obj c, m') \<Rightarrow> (Obj clone, set_word clone i c m')
                | (r, m') \<Rightarrow> (r, m')
      else (Obj clone, m))"

definition CopyJSObject :: "nat \<Rightarrow> addr \<Rightarrow> memory \<Rightarrow> addr maybe_object \<times> memory" where
  "CopyJSObject cow_map src m =
     (case AllocateRaw (js_heap m src) (kinds m src) m of
        (Obj clone, m1) \<Rightarrow>
          (let elements = js_heap m1 src ! elements_word;
               properties = js_heap m1 src ! properties_word
           in case copy_array_word clone elements_word elements (array_map m1 elements = cow_map) m1 of
                (Obj _, m2) \<Rightarrow> copy_array_word clone properties_word properties False m2
              | (r, m2) \<Rightarrow> (r, m2))
      | (r, m1) \<Rightarrow> (r, m1))"

text \<open>
  The macro \<open>CALL_AND_RETRY\<close>: call, collect the space that failed, call again, collect
  everything, call a last time with \<open>AlwaysAllocateScope\<close>.  \<open>Returned\<close> is \<open>RETURN_VALUE\<close>,
  \<open>Empty\<close> is \<open>RETURN_EMPTY\<close>.
\<close>

datatype 'a call_result = Returned 'a | Empty | FatalProcessOutOfMemory string

definition CALL_AND_RETRY ::
  "('s \<Rightarrow> 'a maybe_object \<times> 's) \<Rightarrow> ('s \<Rightarrow> 'a maybe_object \<times> 's) \<Rightarrow> ('s \<Rightarrow> 's) \<Rightarrow> ('s \<Rightarrow> 's) \<Rightarrow> 's
     \<Rightarrow> 'a call_result \<times> 's" where
  "CALL_AND_RETRY call always_call collect collect_all s =
     (case call s of
        (Obj x, s1) \<Rightarrow> (Returned x, s1)
      | (OutOfMemory, s1) \<Rightarrow> (FatalProcessOutOfMemory ''CALL_AND_RETRY_0'', s1)
      | (Exception, s1) \<Rightarrow> (Empty, s1)
      | (RetryAfterGC, s1) \<Rightarrow>
         (case call (collect s1) of
            (Obj x, s2) \<Rightarrow> (Returned x, s2)
          | (OutOfMemory, s2) \<Rightarrow> (FatalProcessOutOfMemory ''CALL_AND_RETRY_1'', s2)
          | (Exception, s2) \<Rightarrow> (Empty, s2)
          | (RetryAfterGC, s2) \<Rightarrow>
             (case always_call (collect_all s2) of
                (Obj x, s3) \<Rightarrow> (Returned x, s3)
              | (OutOfMemory, s3) \<Rightarrow> (FatalProcessOutOfMemory ''CALL_AND_RETRY_2'', s3)
              | (RetryAfterGC, s3) \<Rightarrow> (FatalProcessOutOfMemory ''CALL_AND_RETRY_2'', s3)
              | (Exception, s3) \<Rightarrow> (Empty, s3))))"

section \<open>Transactions\<close>

record transaction =
  aborted :: bool
  read_set :: cell_map
  write_set :: cell_map

definition Transaction_new :: "nat \<Rightarrow> nat \<Rightarrow> transaction" where
  "Transaction_new g1 g2 =
     \<lparr>aborted = False, read_set = CellMap_new g1, write_set = CellMap_new g2\<rparr>"

definition Transaction_Iterate :: "(addr \<Rightarrow> addr) \<Rightarrow> transaction \<Rightarrow> transaction" where
  "Transaction_Iterate v t =
     t\<lparr>read_set := Iterate v (read_set t), write_set := Iterate v (write_set t)\<rparr>"

text \<open>Results: the handle to use, the value of \<open>*terminate\<close>, the transaction and the memory.\<close>

type_synonym redirect_result = "handle \<times> bool \<times> transaction \<times> memory"

definition Transaction_RedirectLoad :: "handle \<Rightarrow> bool \<Rightarrow> transaction \<Rightarrow> memory \<Rightarrow> redirect_result" where
  "Transaction_RedirectLoad obj terminate t m =
     (let k = kinds m (htarget obj) in
      if \<not> IsJSObject k \<or> IsJSFunction k then (obj, terminate, t, m)
      else if aborted t then (obj, True, t, m)
      else case Set_Get (write_set t) obj of
        Some redirect \<Rightarrow> (redirect, terminate, t, m)
      | None \<Rightarrow>
         (case Set_Get (read_set t) obj of
            Some redirect \<Rightarrow> (redirect, terminate, t, m)
          | None \<Rightarrow>
             (let (r, rs) = ReadSet_Add (next_block m) obj (read_set t)
              in (r, terminate, t\<lparr>read_set := rs\<rparr>, m\<lparr>next_block := Suc (next_block m)\<rparr>))))"

datatype stm_error = Fatal string | NullTransaction | UseAfterFree

text \<open>\<open>CreateCopy\<close>; the collector is the environment's \<open>collect\<close> and \<open>collect_all\<close>.\<close>

definition CreateCopy ::
  "nat \<Rightarrow> (memory \<Rightarrow> memory) \<Rightarrow> (memory \<Rightarrow> memory) \<Rightarrow> addr \<Rightarrow> memory \<Rightarrow> addr call_result \<times> memory" where
  "CreateCopy cow collect collect_all a m =
     CALL_AND_RETRY (CopyJSObject cow a) (CopyJSObject cow a) collect collect_all m"

definition Transaction_RedirectStore ::
  "nat \<Rightarrow> (memory \<Rightarrow> memory) \<Rightarrow> (memory \<Rightarrow> memory) \<Rightarrow> handle \<Rightarrow> bool \<Rightarrow> transaction \<Rightarrow> memory
     \<Rightarrow> stm_error + redirect_result" where
  "Transaction_RedirectStore cow collect collect_all obj terminate t m =
     (let k = kinds m (htarget obj) in
      if \<not> IsJSObject k \<or> IsJSFunction k then Inr (obj, terminate, t, m)
      else if aborted t then Inr (obj, True, t, m)
      else case Set_Get (write_set t) obj of
        Some redirect \<Rightarrow> Inr (redirect, terminate, t, m)
      | None \<Rightarrow>
         (case CreateCopy cow collect collect_all (htarget obj) m of
            (FatalProcessOutOfMemory msg, m') \<Rightarrow> Inl (Fatal msg)
          | (Empty, m') \<Rightarrow> Inl (Fatal ''Cannot create object copy'')
          | (Returned copy, m') \<Rightarrow>
             (let (r, ws) = WriteSet_Add (next_block m') obj copy (write_set t)
              in Inr (r, terminate, t\<lparr>write_set := ws\<rparr>, m'\<lparr>next_block := Suc (next_block m')\<rparr>))))"

definition CommitHeap :: "transaction \<Rightarrow> heap \<Rightarrow> heap" where
  "CommitHeap t h = CommitChanges (write_set t) h"

definition HasConflicts :: "transaction \<Rightarrow> transaction \<Rightarrow> bool" where
  "HasConflicts t other =
     (if Intersects (read_set t) (write_set other) then True
      else if Intersects (write_set t) (write_set other) then True
      else False)"

definition Abort :: "transaction \<Rightarrow> transaction" where
  "Abort t = t\<lparr>aborted := True\<rparr>"

section \<open>The transaction manager\<close>

text \<open>
  \<open>transactions\<close> is the list of pointers, \<open>store\<close> the transactions that are allocated, \<open>current\<close>
  the transaction of each thread (\<open>ThreadLocalTop\<close>), \<open>pending\<close> whether a thread has a pending
  exception, \<open>even\<close> the static counter of \<open>CommitTransaction\<close>.
\<close>

record stm =
  transactions :: "nat v8list"
  store :: "nat \<rightharpoonup> transaction"
  current :: "thread_id \<Rightarrow> nat option"
  pending :: "thread_id \<Rightarrow> bool"
  mem :: memory
  next_trans :: nat
  even_flag :: bool

text \<open>
  Build and command-line configuration: \<open>debug\<close> says whether \<open>ASSERT\<close> evaluates its argument
  (in a release build it expands to \<open>((void) 0)\<close>), \<open>stm_aborts\<close> is \<open>FLAG_stm_aborts\<close>.
\<close>

record config =
  debug :: bool
  stm_aborts :: bool

definition STM_new :: "memory \<Rightarrow> stm" where
  "STM_new m = \<lparr>transactions = Initialize 0, store = Map.empty, current = (\<lambda>_. None),
     pending = (\<lambda>_. False), mem = m, next_trans = 0, even_flag = True\<rparr>"

definition STM_Iterate :: "(addr \<Rightarrow> addr) \<Rightarrow> stm \<Rightarrow> stm" where
  "STM_Iterate v s =
     s\<lparr>store := fold (\<lambda>i st. case st i of None \<Rightarrow> st | Some t \<Rightarrow> st(i \<mapsto> Transaction_Iterate v t))
                  (elems (transactions s)) (store s)\<rparr>"

definition StartTransaction :: "thread_id \<Rightarrow> nat \<Rightarrow> nat \<Rightarrow> stm \<Rightarrow> stm" where
  "StartTransaction th g1 g2 s =
     (let i = next_trans s
      in s\<lparr>next_trans := Suc i,
           store := (store s)(i \<mapsto> Transaction_new g1 g2),
           current := (current s)(th := Some i),
           transactions := Add i (transactions s)\<rparr>)"

definition with_current ::
  "thread_id \<Rightarrow> stm \<Rightarrow> (nat \<Rightarrow> transaction \<Rightarrow> stm_error + 'a) \<Rightarrow> stm_error + 'a" where
  "with_current th s f =
     (case current s th of
        None \<Rightarrow> Inl NullTransaction
      | Some i \<Rightarrow> (case store s i of None \<Rightarrow> Inl UseAfterFree | Some t \<Rightarrow> f i t))"

definition STM_RedirectLoad :: "thread_id \<Rightarrow> handle \<Rightarrow> bool \<Rightarrow> stm \<Rightarrow> stm_error + (handle \<times> bool \<times> stm)" where
  "STM_RedirectLoad th obj terminate s =
     (if current s th = None then Inr (obj, terminate, s)
      else with_current th s (\<lambda>i t.
        let (r, tm, t', m') = Transaction_RedirectLoad obj terminate t (mem s)
        in Inr (r, tm, s\<lparr>store := (store s)(i \<mapsto> t'), mem := m'\<rparr>)))"

definition STM_RedirectStore ::
  "nat \<Rightarrow> (memory \<Rightarrow> memory) \<Rightarrow> (memory \<Rightarrow> memory) \<Rightarrow> thread_id \<Rightarrow> handle \<Rightarrow> bool \<Rightarrow> stm
     \<Rightarrow> stm_error + (handle \<times> bool \<times> stm)" where
  "STM_RedirectStore cow collect collect_all th obj terminate s =
     (if current s th = None then Inr (obj, terminate, s)
      else with_current th s (\<lambda>i t.
        case Transaction_RedirectStore cow collect collect_all obj terminate t (mem s) of
          Inl e \<Rightarrow> Inl e
        | Inr (r, tm, t', m') \<Rightarrow> Inr (r, tm, s\<lparr>store := (store s)(i \<mapsto> t'), mem := m'\<rparr>)))"

text \<open>
  The loop of \<open>CommitTransaction\<close> that aborts every other listed transaction in conflict; a
  listed transaction that is not allocated any more is a use after free.
\<close>

fun abort_conflicting :: "nat \<Rightarrow> transaction \<Rightarrow> nat list \<Rightarrow> (nat \<rightharpoonup> transaction) \<Rightarrow> stm_error + (nat \<rightharpoonup> transaction)" where
  "abort_conflicting self tr [] st = Inr st"
| "abort_conflicting self tr (j # js) st =
     (if j = self then abort_conflicting self tr js st
      else case st j of
             None \<Rightarrow> Inl UseAfterFree
           | Some t \<Rightarrow> abort_conflicting self tr js (if HasConflicts t tr then st(j \<mapsto> Abort t) else st))"

definition CommitTransaction :: "config \<Rightarrow> thread_id \<Rightarrow> stm \<Rightarrow> stm_error + (bool \<times> stm)" where
  "CommitTransaction cfg th s0 = with_current th s0 (\<lambda>i t0.
     let t = (if \<not> even_flag s0 \<and> stm_aborts cfg then Abort t0 else t0);
         s = s0\<lparr>even_flag := \<not> even_flag s0, store := (store s0)(i \<mapsto> t)\<rparr>;
         finish = (\<lambda>committed s.
           let s' = s\<lparr>current := (current s)(th := None)\<rparr>;
               s'' = (if debug cfg
                      then s'\<lparr>transactions := snd (RemoveElement i (transactions s'))\<rparr> else s')
           in (committed, s''\<lparr>store := (store s'')(i := None)\<rparr>))
     in if aborted t then Inr (finish False (s\<lparr>pending := (pending s)(th := False)\<rparr>))
        else case abort_conflicting i t (elems (transactions s)) (store s) of
               Inl e \<Rightarrow> Inl e
             | Inr st \<Rightarrow> Inr (finish True
                 (s\<lparr>store := st, mem := (mem s)\<lparr>js_heap := CommitHeap t (js_heap (mem s))\<rparr>\<rparr>)))"

section \<open>Copies\<close>

text \<open>Everything that existed before keeps its words and its kind.\<close>

definition preserves :: "memory \<Rightarrow> memory \<Rightarrow> bool" where
  "preserves m m' \<longleftrightarrow> next_addr m \<le> next_addr m'
     \<and> (\<forall>a < next_addr m. js_heap m' a = js_heap m a \<and> kinds m' a = kinds m a)"

lemma preserves_trans: "preserves m m' \<Longrightarrow> preserves m' m'' \<Longrightarrow> preserves m m''"
  by (auto simp: preserves_def)

lemma preserves_refl [simp]: "preserves m m"
  by (simp add: preserves_def)

lemma AllocateRaw_ok:
  "next_addr m < heap_limit m \<Longrightarrow> AllocateRaw ws k m =
     (Obj (next_addr m), m\<lparr>js_heap := (js_heap m)(next_addr m := ws),
        kinds := (kinds m)(next_addr m := k), next_addr := Suc (next_addr m)\<rparr>)"
  by (simp add: AllocateRaw_def)

lemma AllocateRaw_preserves: "AllocateRaw ws k m = (r, m') \<Longrightarrow> preserves m m'"
  by (auto simp: AllocateRaw_def preserves_def split: if_splits)

text \<open>What \<open>copy_array_word\<close> does to a clone: only the clone's word \<open>i\<close> changes.\<close>

definition array_copied :: "addr \<Rightarrow> nat \<Rightarrow> addr \<Rightarrow> memory \<Rightarrow> memory \<Rightarrow> bool" where
  "array_copied clone i arr m m' \<longleftrightarrow>
     next_addr m \<le> next_addr m' \<and> next_addr m' \<le> Suc (next_addr m) \<and> heap_limit m' = heap_limit m
     \<and> next_block m' = next_block m
     \<and> (\<forall>a < next_addr m. kinds m' a = kinds m a \<and> (a \<noteq> clone \<longrightarrow> js_heap m' a = js_heap m a))
     \<and> length (js_heap m' clone) = length (js_heap m clone)
     \<and> (\<forall>j. j \<noteq> i \<longrightarrow> js_heap m' clone ! j = js_heap m clone ! j)
     \<and> js_heap m' (js_heap m' clone ! i) = js_heap m arr
     \<and> js_heap m' clone ! i < next_addr m' \<and> js_heap m' clone ! i \<noteq> clone"

lemma copy_array_word_ok:
  assumes "clone < next_addr m" "arr < next_addr m" "arr \<noteq> clone" "next_addr m < heap_limit m"
    and "js_heap m clone ! i = arr" "i < length (js_heap m clone)"
  shows "\<exists>m'. copy_array_word clone i arr shared m = (Obj clone, m') \<and> array_copied clone i arr m m'"
proof -
  have same: "(js_heap m clone)[i := arr] = js_heap m clone"
    using assms(5) by (metis list_update_id)
  consider "array_length m arr = 0" | "array_length m arr > 0" "shared"
    | "array_length m arr > 0" "\<not> shared" by blast
  then show ?thesis
  proof cases
    case 1
    with assms show ?thesis by (auto simp: copy_array_word_def array_copied_def)
  next
    case 2
    with assms same show ?thesis by (auto simp: copy_array_word_def set_word_def array_copied_def)
  next
    case 3
    with assms show ?thesis
      by (auto simp: copy_array_word_def AllocateRaw_ok set_word_def array_copied_def)
  qed
qed

text \<open>
  A JavaScript object whose arrays are allocated, and a copy that has the same words except for
  its two arrays, which hold the same words as the originals.
\<close>

definition js_object_ok :: "memory \<Rightarrow> addr \<Rightarrow> bool" where
  "js_object_ok m a \<longleftrightarrow> a < next_addr m \<and> 3 \<le> length (js_heap m a)
     \<and> js_heap m a ! elements_word < next_addr m \<and> js_heap m a ! properties_word < next_addr m"

definition copy_of :: "memory \<Rightarrow> addr \<Rightarrow> memory \<Rightarrow> addr \<Rightarrow> bool" where
  "copy_of m a m' c \<longleftrightarrow> length (js_heap m' c) = length (js_heap m a)
     \<and> (\<forall>j. j \<noteq> elements_word \<and> j \<noteq> properties_word \<longrightarrow> js_heap m' c ! j = js_heap m a ! j)
     \<and> js_heap m' (js_heap m' c ! elements_word) = js_heap m (js_heap m a ! elements_word)
     \<and> js_heap m' (js_heap m' c ! properties_word) = js_heap m (js_heap m a ! properties_word)
     \<and> kinds m' c = kinds m a"

lemma CopyJSObject_ok:
  assumes "js_object_ok m src" "next_addr m + 3 \<le> heap_limit m"
  obtains m' where "CopyJSObject cow src m = (Obj (next_addr m), m')" "preserves m m'"
    "copy_of m src m' (next_addr m)" "next_addr m < next_addr m'" "next_block m' = next_block m"
    "heap_limit m' = heap_limit m" "next_addr m' \<le> next_addr m + 3"
proof -
  define c where "c = next_addr m"
  define m1 where "m1 = m\<lparr>js_heap := (js_heap m)(c := js_heap m src),
     kinds := (kinds m)(c := kinds m src), next_addr := Suc c\<rparr>"
  define el where "el = js_heap m src ! elements_word"
  define pr where "pr = js_heap m src ! properties_word"
  have src: "src < c" "el < c" "pr < c" "3 \<le> length (js_heap m src)"
    using assms(1) by (auto simp: js_object_ok_def c_def el_def pr_def)
  have alloc: "AllocateRaw (js_heap m src) (kinds m src) m = (Obj c, m1)"
    using assms(2) by (simp add: AllocateRaw_ok m1_def c_def)
  have w: "elements_word = 2" "properties_word = 1" by (simp_all add: elements_word_def properties_word_def)
  have h1: "js_heap m1 src ! elements_word = el" "js_heap m1 src ! properties_word = pr"
    "js_heap m1 c = js_heap m src" "next_addr m1 = Suc c" "heap_limit m1 = heap_limit m"
    "next_block m1 = next_block m" "\<And>a. a < c \<Longrightarrow> js_heap m1 a = js_heap m a"
    "\<And>a. a < c \<Longrightarrow> kinds m1 a = kinds m a" "kinds m1 c = kinds m src"
    using src by (auto simp: m1_def el_def pr_def)
  obtain m2 where m2: "copy_array_word c elements_word el (array_map m1 el = cow) m1 = (Obj c, m2)"
    and c2: "array_copied c elements_word el m1 m2"
    using copy_array_word_ok [of c m1 el elements_word "array_map m1 el = cow"] h1 src assms(2) w
    by (auto simp: c_def el_def)
  have c2': "next_addr m2 \<le> Suc (Suc c)" "c < next_addr m2" "pr \<noteq> c" "pr < next_addr m2"
    "next_addr m2 < heap_limit m2" "js_heap m2 c ! properties_word = pr"
    "properties_word < length (js_heap m2 c)"
    using c2 h1 src w assms(2) by (auto simp: array_copied_def c_def pr_def)
  obtain m3 where m3: "copy_array_word c properties_word pr False m2 = (Obj c, m3)"
    and c3: "array_copied c properties_word pr m2 m3"
    using copy_array_word_ok [of c m2 pr properties_word False] c2' by auto
  have "CopyJSObject cow src m = (Obj c, m3)"
    using alloc h1 m2 m3 by (simp add: CopyJSObject_def Let_def)
  moreover have "preserves m m3"
    using h1 c2 c3 by (auto simp: preserves_def array_copied_def c_def)
  moreover have "copy_of m src m3 c"
  proof -
    have "js_heap m3 c ! elements_word = js_heap m2 c ! elements_word"
      "js_heap m2 c ! elements_word < next_addr m2" "js_heap m2 c ! elements_word \<noteq> c"
      using c2 c3 w by (auto simp: array_copied_def)
    moreover from this have "js_heap m3 (js_heap m3 c ! elements_word) = js_heap m1 el"
      using c2 c3 by (auto simp: array_copied_def)
    moreover have "js_heap m3 (js_heap m3 c ! properties_word) = js_heap m1 pr"
      using c2 c3 h1 src by (auto simp: array_copied_def)
    ultimately show ?thesis
      using h1 c2 c3 src w by (simp add: copy_of_def el_def pr_def array_copied_def)
  qed
  ultimately show ?thesis
    using that h1 c2 c3 unfolding c_def array_copied_def by auto
qed

text \<open>No path of the copy touches an object that existed before, whether it succeeds or not.\<close>

lemma AllocateRaw_Obj: "AllocateRaw ws k m = (Obj c, m') \<Longrightarrow> c = next_addr m \<and> c < next_addr m'"
  by (auto simp: AllocateRaw_def split: if_splits)

lemma AllocateRaw_next_block: "AllocateRaw ws k m = (r, m') \<Longrightarrow> next_block m' = next_block m"
  by (auto simp: AllocateRaw_def split: if_splits)

lemma set_word_preserves:
  "next_addr m0 \<le> clone \<Longrightarrow> preserves m0 m \<Longrightarrow> preserves m0 (set_word clone i w m)"
  by (auto simp: preserves_def set_word_def)

lemma set_word_other [simp]:
  "next_addr (set_word a i w m) = next_addr m" "next_block (set_word a i w m) = next_block m"
  "kinds (set_word a i w m) = kinds m" "heap_limit (set_word a i w m) = heap_limit m"
  by (simp_all add: set_word_def)

lemma copy_array_word_preserves:
  assumes "next_addr m0 \<le> clone" "preserves m0 m" "copy_array_word clone i arr sh m = (r, m')"
  shows "preserves m0 m' \<and> next_block m' = next_block m"
  using assms
  by (auto simp: copy_array_word_def intro: set_word_preserves preserves_trans
      dest: AllocateRaw_preserves AllocateRaw_next_block
      split: if_splits prod.splits maybe_object.splits)

lemma CopyJSObject_preserves:
  assumes "CopyJSObject cow src m = (r, m')"
  shows "preserves m m' \<and> next_block m' = next_block m"
proof -
  obtain r1 m1 where a: "AllocateRaw (js_heap m src) (kinds m src) m = (r1, m1)" by fastforce
  note p1 = AllocateRaw_preserves [OF a] and b1 = AllocateRaw_next_block [OF a]
  show ?thesis
  proof (cases r1)
    case (Obj c)
    let ?el = "js_heap m1 src ! elements_word"
    obtain r2 m2 where e: "copy_array_word c elements_word ?el (array_map m1 ?el = cow) m1 = (r2, m2)"
      by fastforce
    have c: "next_addr m \<le> c" using AllocateRaw_Obj a Obj by fastforce
    note p2 = copy_array_word_preserves [OF c p1 e]
    have "preserves m m' \<and> next_block m' = next_block m2"
    proof (cases r2)
      case (Obj d)
      with assms a \<open>r1 = Obj c\<close> e
      have "copy_array_word c properties_word (js_heap m1 src ! properties_word) False m2 = (r, m')"
        by (simp add: CopyJSObject_def Let_def)
      from copy_array_word_preserves [OF c conjunct1 [OF p2] this] show ?thesis .
    qed (use assms a \<open>r1 = Obj c\<close> e p2 in \<open>auto simp: CopyJSObject_def Let_def\<close>)
    with p2 b1 show ?thesis by simp
  qed (use assms a p1 b1 in \<open>auto simp: CopyJSObject_def\<close>)
qed

text \<open>An invariant of the call and of both collections is an invariant of the macro.\<close>

lemma CALL_AND_RETRY_inv:
  assumes "CALL_AND_RETRY call acall gc gca s = (r, s')" "P s"
    and "\<And>s r s'. call s = (r, s') \<Longrightarrow> P s \<Longrightarrow> P s'" "\<And>s r s'. acall s = (r, s') \<Longrightarrow> P s \<Longrightarrow> P s'"
    and "\<And>s. P s \<Longrightarrow> P (gc s)" "\<And>s. P s \<Longrightarrow> P (gca s)"
  shows "P s'"
proof -
  obtain r1 s1 where c1: "call s = (r1, s1)" by fastforce
  obtain r2 s2 where c2: "call (gc s1) = (r2, s2)" by fastforce
  obtain r3 s3 where c3: "acall (gca s2) = (r3, s3)" by fastforce
  have "P s1" "P s2" "P s3" using assms c1 c2 c3 by blast+
  with assms(1) c1 c2 c3 show ?thesis
    by (auto simp: CALL_AND_RETRY_def split: maybe_object.splits)
qed

lemma CALL_AND_RETRY_first: "call s = (Obj x, s') \<Longrightarrow> CALL_AND_RETRY call acall gc gca s = (Returned x, s')"
  by (simp add: CALL_AND_RETRY_def)

section \<open>Invariant of a transaction\<close>

definition reads_ok :: "memory \<Rightarrow> (addr \<times> addr) list \<Rightarrow> bool" where
  "reads_ok m es \<longleftrightarrow> (\<forall>e \<in> set es. snd e = fst e \<and> fst e < next_addr m)"

definition writes_ok :: "memory \<Rightarrow> (addr \<times> addr) list \<Rightarrow> bool" where
  "writes_ok m es \<longleftrightarrow> distinct (map fst es)
     \<and> (\<forall>e \<in> set es. fst e < next_addr m \<and> snd e < next_addr m
          \<and> length (js_heap m (fst e)) = length (js_heap m (snd e)))"

definition tx_ok :: "memory \<Rightarrow> transaction \<Rightarrow> bool" where
  "tx_ok m t \<longleftrightarrow> cm_inv (read_set t) \<and> cm_inv (write_set t)
     \<and> (\<forall>b \<in> block_ids (read_set t) \<union> block_ids (write_set t). b < next_block m)
     \<and> reads_ok m (entries (read_set t)) \<and> writes_ok m (entries (write_set t))"

lemma tx_ok_new [simp]: "tx_ok m (Transaction_new g1 g2)"
  by (simp add: tx_ok_def Transaction_new_def reads_ok_def writes_ok_def)

lemma reads_ok_mono: "reads_ok m es \<Longrightarrow> preserves m m' \<Longrightarrow> reads_ok m' es"
  by (auto simp: reads_ok_def preserves_def dest: order.strict_trans2)

lemma writes_ok_mono: "writes_ok m es \<Longrightarrow> preserves m m' \<Longrightarrow> writes_ok m' es"
  by (auto simp: writes_ok_def preserves_def dest: order.strict_trans2)

lemma tx_ok_mono:
  assumes "tx_ok m t" "preserves m m'" "next_block m \<le> next_block m'"
  shows "tx_ok m' t"
proof -
  have "\<forall>b \<in> block_ids (read_set t) \<union> block_ids (write_set t). b < next_block m'"
    using assms(1,3) unfolding tx_ok_def by (meson order.strict_trans2)
  with assms(1) reads_ok_mono [OF _ assms(2)] writes_ok_mono [OF _ assms(2)] show ?thesis
    by (simp add: tx_ok_def)
qed

lemma ids_grow:
  assumes "\<forall>b \<in> A \<union> B. b < n" "A' \<subseteq> insert n A"
  shows "\<forall>b \<in> A' \<union> B. b < Suc n"
  using assms by (metis Un_iff insert_iff less_Suc_eq subset_iff)

lemma tx_ok_ids: "tx_ok m t \<Longrightarrow> \<forall>b \<in> block_ids (read_set t) \<union> block_ids (write_set t). b < next_block m"
  by (simp add: tx_ok_def)

lemma tx_ok_fresh: "tx_ok m t \<Longrightarrow> next_block m \<notin> block_ids (read_set t) \<and> next_block m \<notin> block_ids (write_set t)"
  by (auto simp: tx_ok_def)

lemma tx_ok_invs: "tx_ok m t \<Longrightarrow> cm_inv (read_set t) \<and> cm_inv (write_set t)"
  by (simp add: tx_ok_def)

text \<open>The two sets' \<open>Add\<close>, in terms of the entries.\<close>

lemma ReadSet_Add_ok:
  assumes "cm_inv m" "f \<notin> block_ids m" "ReadSet_Add f obj m = (r, m')"
  shows "cm_inv m'" "entries m' = entries m @ [(htarget obj, htarget obj)]" "htarget r = htarget obj"
    "IsMapped m' (hlocation r)" "block_ids m' \<subseteq> insert f (block_ids m)"
    "\<And>l. IsMapped m' l \<longleftrightarrow> l = hlocation r \<or> IsMapped m l"
  using AddMapping_inv [OF assms(1,2), of "htarget obj" "htarget obj"] assms(3)
  by (auto simp: ReadSet_Add_def handle_at_def IsMapped_def case_prod_beta)

lemma WriteSet_Add_ok:
  assumes "cm_inv m" "f \<notin> block_ids m" "WriteSet_Add f obj c m = (r, m')"
  shows "cm_inv m'" "entries m' = entries m @ [(htarget obj, c)]" "htarget r = c"
    "IsMapped m' (hlocation r)" "block_ids m' \<subseteq> insert f (block_ids m)"
    "\<And>l. IsMapped m' l \<longleftrightarrow> l = hlocation r \<or> IsMapped m l"
  using AddMapping_inv [OF assms(1,2), of "htarget obj" c] assms(3)
  by (auto simp: WriteSet_Add_def handle_at_def IsMapped_def case_prod_beta)

section \<open>Redirected loads\<close>

definition tracked :: "memory \<Rightarrow> handle \<Rightarrow> bool" where
  "tracked m obj \<longleftrightarrow> kinds m (htarget obj) = JSObjectKind"

lemma tracked_iff: "tracked m obj \<longleftrightarrow> IsJSObject (kinds m (htarget obj)) \<and> \<not> IsJSFunction (kinds m (htarget obj))"
  by (auto simp: tracked_def IsJSObject_def IsJSFunction_def)

text \<open>The cases of \<open>RedirectLoad\<close> for an object that is tracked.\<close>

lemma RedirectLoad_cases:
  assumes "tracked m obj" "\<not> aborted t"
  shows "Transaction_RedirectLoad obj tm t m =
    (case Set_Get (write_set t) obj of Some r \<Rightarrow> (r, tm, t, m)
     | None \<Rightarrow> (case Set_Get (read_set t) obj of Some r \<Rightarrow> (r, tm, t, m)
       | None \<Rightarrow> (fst (ReadSet_Add (next_block m) obj (read_set t)), tm,
                  t\<lparr>read_set := snd (ReadSet_Add (next_block m) obj (read_set t))\<rparr>,
                  m\<lparr>next_block := Suc (next_block m)\<rparr>)))"
  using assms
  by (cases "ReadSet_Add (next_block m) obj (read_set t)")
     (simp add: Transaction_RedirectLoad_def tracked_iff Let_def split: option.splits)

lemma RedirectLoad_untracked:
  "\<not> tracked m obj \<Longrightarrow> Transaction_RedirectLoad obj tm t m = (obj, tm, t, m)"
  by (auto simp: Transaction_RedirectLoad_def tracked_iff Let_def)

lemma RedirectLoad_aborted:
  "tracked m obj \<Longrightarrow> aborted t \<Longrightarrow> Transaction_RedirectLoad obj tm t m = (obj, True, t, m)"
  by (simp add: Transaction_RedirectLoad_def tracked_iff Let_def)

lemma tx_ok_RedirectLoad:
  assumes "tx_ok m t" "htarget obj < next_addr m" "Transaction_RedirectLoad obj tm t m = (r, tm', t', m')"
  shows "tx_ok m' t' \<and> preserves m m' \<and> next_block m \<le> next_block m' \<and> write_set t' = write_set t
     \<and> aborted t' = aborted t"
proof (cases "tracked m obj \<and> \<not> aborted t \<and> Set_Get (write_set t) obj = None \<and> Set_Get (read_set t) obj = None")
  case False
  then have "t' = t \<and> m' = m"
    using assms(3) by (cases "tracked m obj"; cases "aborted t")
      (auto simp: RedirectLoad_untracked RedirectLoad_aborted RedirectLoad_cases split: option.splits)
  with assms(1) show ?thesis by simp
next
  case True
  obtain r0 rs where add: "ReadSet_Add (next_block m) obj (read_set t) = (r0, rs)" by fastforce
  have t': "t' = t\<lparr>read_set := rs\<rparr>" "m' = m\<lparr>next_block := Suc (next_block m)\<rparr>"
    using True assms(3) add by (auto simp: RedirectLoad_cases)
  note ra = ReadSet_Add_ok [OF conjunct1 [OF tx_ok_invs [OF assms(1)]] conjunct1 [OF tx_ok_fresh [OF assms(1)]] add]
  have pre: "preserves m m'" using t' by (simp add: preserves_def)
  have "reads_ok m' (entries rs)"
    using ra(2) assms(1,2) t' by (auto simp: tx_ok_def reads_ok_def)
  moreover have "\<forall>b \<in> block_ids rs \<union> block_ids (write_set t). b < next_block m'"
    using ids_grow [OF tx_ok_ids [OF assms(1)] ra(5)] t' by simp
  ultimately show ?thesis
    using assms(1) ra(1) t' pre writes_ok_mono [OF _ pre] by (simp add: tx_ok_def)
qed

section \<open>Redirected stores\<close>

text \<open>A collector that keeps every object where it is and does not touch the STM's blocks.\<close>

definition benign :: "(memory \<Rightarrow> memory) \<Rightarrow> bool" where
  "benign gc \<longleftrightarrow> (\<forall>m. preserves m (gc m) \<and> next_block (gc m) = next_block m)"

lemma CreateCopy_preserves:
  assumes "CreateCopy cow gc gca a m = (r, m')" "benign gc" "benign gca"
  shows "preserves m m' \<and> next_block m' = next_block m"
  using assms(1) unfolding CreateCopy_def
proof (rule CALL_AND_RETRY_inv [where P = "\<lambda>s. preserves m s \<and> next_block s = next_block m"])
  show "preserves m m \<and> next_block m = next_block m" by simp
  show "preserves m s' \<and> next_block s' = next_block m"
    if "CopyJSObject cow a s = (r, s')" "preserves m s \<and> next_block s = next_block m" for s r s'
    using CopyJSObject_preserves [OF that(1)] that(2) preserves_trans by auto
  then show "preserves m s' \<and> next_block s' = next_block m"
    if "CopyJSObject cow a s = (r, s')" "preserves m s \<and> next_block s = next_block m" for s r s'
    using that .
  show "preserves m (gc s) \<and> next_block (gc s) = next_block m"
    if "preserves m s \<and> next_block s = next_block m" for s
    using that assms(2) preserves_trans by (auto simp: benign_def)
  show "preserves m (gca s) \<and> next_block (gca s) = next_block m"
    if "preserves m s \<and> next_block s = next_block m" for s
    using that assms(3) preserves_trans by (auto simp: benign_def)
qed

lemma CreateCopy_ok:
  assumes "js_object_ok m a" "next_addr m + 3 \<le> heap_limit m"
  obtains m' where "CreateCopy cow gc gca a m = (Returned (next_addr m), m')" "preserves m m'"
    "copy_of m a m' (next_addr m)" "next_addr m < next_addr m'" "next_block m' = next_block m"
    "heap_limit m' = heap_limit m" "next_addr m' \<le> next_addr m + 3"
  using CopyJSObject_ok [OF assms, of cow] CALL_AND_RETRY_first unfolding CreateCopy_def by metis

text \<open>
  The first store to an object makes a private copy with the same contents, registers it and
  returns it; nothing that existed before changes.
\<close>

lemma RedirectStore_copies:
  assumes "tx_ok m t" "tracked m obj" "\<not> aborted t" "Set_Get (write_set t) obj = None"
    and "js_object_ok m (htarget obj)" "next_addr m + 3 \<le> heap_limit m"
  obtains r t' m' where
    "Transaction_RedirectStore cow gc gca obj tm t m = Inr (r, tm, t', m')"
    "preserves m m'" "htarget r = next_addr m" "copy_of m (htarget obj) m' (htarget r)"
    "entries (write_set t') = entries (write_set t) @ [(htarget obj, htarget r)]"
    "next_block m \<le> next_block m'" "read_set t' = read_set t" "aborted t' = aborted t" "tx_ok m' t'" "IsMapped (write_set t') (hlocation r)"
    "\<And>l. IsMapped (write_set t') l \<longleftrightarrow> l = hlocation r \<or> IsMapped (write_set t) l"
    "heap_limit m' = heap_limit m" "next_addr m' \<le> next_addr m + 3"
proof -
  obtain m1 where cc: "CreateCopy cow gc gca (htarget obj) m = (Returned (next_addr m), m1)"
    and m1: "preserves m m1" "copy_of m (htarget obj) m1 (next_addr m)" "next_addr m < next_addr m1"
      "next_block m1 = next_block m" "heap_limit m1 = heap_limit m" "next_addr m1 \<le> next_addr m + 3"
    using CreateCopy_ok [OF assms(5,6)] .
  obtain r ws where add: "WriteSet_Add (next_block m1) obj (next_addr m) (write_set t) = (r, ws)"
    by fastforce
  define m' where "m' = m1\<lparr>next_block := Suc (next_block m1)\<rparr>"
  note inv = tx_ok_invs [OF assms(1)]
  have fresh: "next_block m1 \<notin> block_ids (write_set t)" using tx_ok_fresh [OF assms(1)] m1(4) by simp
  note wa = WriteSet_Add_ok [OF conjunct2 [OF inv] fresh add]
  have res: "Transaction_RedirectStore cow gc gca obj tm t m = Inr (r, tm, t\<lparr>write_set := ws\<rparr>, m')"
    using assms(2,3,4) cc add
    by (simp add: Transaction_RedirectStore_def tracked_iff Let_def m'_def)
  have pre: "preserves m m'" using m1(1) by (simp add: preserves_def m'_def)
  have cp: "copy_of m (htarget obj) m' (next_addr m)" using m1(2) by (simp add: copy_of_def m'_def)
  have new: "htarget obj \<notin> fst ` set (entries (write_set t))"
    using assms(4) Set_Get_None [OF conjunct2 [OF inv]] by (simp add: origins_def)
  have "writes_ok m' (entries (write_set t))"
    using assms(1) writes_ok_mono [OF _ pre] by (simp add: tx_ok_def)
  moreover have "htarget obj < next_addr m'" "next_addr m < next_addr m'"
    using assms(5) m1 by (auto simp: js_object_ok_def m'_def)
  moreover have "length (js_heap m' (htarget obj)) = length (js_heap m' (next_addr m))"
    using cp pre assms(5) by (auto simp: copy_of_def preserves_def js_object_ok_def)
  ultimately have "writes_ok m' (entries ws)"
    using wa(2) new by (auto simp: writes_ok_def)
  moreover have "\<forall>b \<in> block_ids (read_set t) \<union> block_ids ws. b < next_block m'"
    using ids_grow [of "block_ids (write_set t)" "block_ids (read_set t)" "next_block m" "block_ids ws"]
      tx_ok_ids [OF assms(1)] wa(5) m1(4) by (simp add: m'_def Un_commute)
  ultimately have "tx_ok m' (t\<lparr>write_set := ws\<rparr>)"
    using inv wa(1) assms(1) reads_ok_mono [OF _ pre] by (simp add: tx_ok_def)
  then show ?thesis
    using that [of r "t\<lparr>write_set := ws\<rparr>" m'] res pre cp wa m1 by (simp add: m'_def)
qed

lemma RedirectStore_known:
  "tracked m obj \<Longrightarrow> \<not> aborted t \<Longrightarrow> Set_Get (write_set t) obj = Some r \<Longrightarrow>
     Transaction_RedirectStore cow gc gca obj tm t m = Inr (r, tm, t, m)"
  by (simp add: Transaction_RedirectStore_def tracked_iff Let_def)

lemma RedirectStore_untracked:
  "\<not> tracked m obj \<Longrightarrow> Transaction_RedirectStore cow gc gca obj tm t m = Inr (obj, tm, t, m)"
  by (auto simp: Transaction_RedirectStore_def tracked_iff Let_def)

lemma RedirectStore_aborted:
  "tracked m obj \<Longrightarrow> aborted t \<Longrightarrow> Transaction_RedirectStore cow gc gca obj tm t m = Inr (obj, True, t, m)"
  by (simp add: Transaction_RedirectStore_def tracked_iff Let_def)

text \<open>Once an object is in the write set, a foreign handle to it resolves to the copy.\<close>

lemma Set_Get_entry:
  assumes "cm_inv ws" "\<not> IsMapped ws (hlocation h)" "map_of (entries ws) (htarget h) = Some c"
  shows "\<exists>r. Set_Get ws h = Some r \<and> htarget r = c"
proof -
  have "htarget h \<in> origins ws"
    using map_of_SomeD [OF assms(3)] by (force simp: origins_def)
  with assms(1) have "Set_Get ws h \<noteq> None" by (simp add: Set_Get_None)
  then obtain r where "Set_Get ws h = Some r" by auto
  with Set_Get_target [OF assms(1) this assms(2)] assms(3) show ?thesis by auto
qed

end
