(* ===== verification/Stm_Commit.thy ===== *)
theory Stm_Commit
  imports Stm
begin

text \<open>
  What the operations of \<open>STM\<close> guarantee when each of them runs to completion: an invariant that
  ties the list of transactions to the allocated transactions, kept by every operation; the effect
  of a commit on the heap and on the other transactions; reads that see the transaction's own
  writes; and what is left behind by a build in which \<open>ASSERT\<close> does not evaluate its argument.
\<close>

section \<open>The conflict loop\<close>

lemma abort_conflicting_spec:
  assumes "set js \<subseteq> dom st" "distinct js"
  shows "abort_conflicting self tr js st =
    Inr (\<lambda>j. if j \<in> set js \<and> j \<noteq> self \<and> HasConflicts (the (st j)) tr
             then Some (Abort (the (st j))) else st j)"
  using assms
proof (induction js arbitrary: st)
  case Nil
  then show ?case by simp
next
  case (Cons j js)
  show ?case
  proof (cases "j = self")
    case True
    with Cons show ?thesis by (auto simp: fun_eq_iff)
  next
    case False
    from Cons.prems obtain t where t: "st j = Some t" by auto
    let ?st = "if HasConflicts t tr then st(j \<mapsto> Abort t) else st"
    have "set js \<subseteq> dom ?st" "distinct js" "j \<notin> set js" using Cons.prems by auto
    with Cons.IH [of ?st] False t show ?thesis by (auto simp: fun_eq_iff)
  qed
qed

lemma HasConflicts_iff:
  assumes "tx_ok m t"
  shows "HasConflicts t tr \<longleftrightarrow> (origins (read_set t) \<union> origins (write_set t)) \<inter> origins (write_set tr) \<noteq> {}"
  using tx_ok_invs [OF assms] by (auto simp: HasConflicts_def Intersects_iff)

section \<open>Invariant of the manager\<close>

definition stm_inv :: "stm \<Rightarrow> bool" where
  "stm_inv s \<longleftrightarrow> list_wf (transactions s) \<and> distinct (elems (transactions s))
     \<and> set (elems (transactions s)) = dom (store s)
     \<and> (\<forall>i \<in> dom (store s). i < next_trans s)
     \<and> (\<forall>th i. current s th = Some i \<longrightarrow> i \<in> dom (store s))
     \<and> (\<forall>th th' i. current s th = Some i \<longrightarrow> current s th' = Some i \<longrightarrow> th = th')
     \<and> (\<forall>i t. store s i = Some t \<longrightarrow> tx_ok (mem s) t)"

lemma stm_inv_new [simp]: "stm_inv (STM_new m)"
  by (simp add: stm_inv_def STM_new_def)

lemma stm_invD:
  assumes "stm_inv s"
  shows "list_wf (transactions s)" "distinct (elems (transactions s))"
    "set (elems (transactions s)) = dom (store s)"
    "\<And>i. i \<in> dom (store s) \<Longrightarrow> i < next_trans s"
    "\<And>th i. current s th = Some i \<Longrightarrow> i \<in> dom (store s)"
    "\<And>th th' i. current s th = Some i \<Longrightarrow> current s th' = Some i \<Longrightarrow> th = th'"
    "\<And>i t. store s i = Some t \<Longrightarrow> tx_ok (mem s) t"
  using assms unfolding stm_inv_def by simp_all

lemma stm_inv_current:
  assumes "stm_inv s" "current s th = Some i"
  obtains t where "store s i = Some t" "tx_ok (mem s) t"
  using stm_invD(5,7) [OF assms(1)] assms(2) by (meson domD)

lemma stm_inv_store_update:
  assumes "stm_inv s" "store s i = Some t" "tx_ok m' t'"
    and "preserves (mem s) m'" "next_block (mem s) \<le> next_block m'"
  shows "stm_inv (s\<lparr>store := (store s)(i \<mapsto> t'), mem := m'\<rparr>)"
proof -
  have "dom ((store s)(i \<mapsto> t')) = dom (store s)" using assms(2) by auto
  moreover have "tx_ok m' u" if "store s j = Some u" for j u
    using stm_invD(7) [OF assms(1) that] assms(4,5) by (rule tx_ok_mono)
  ultimately show ?thesis
    using stm_invD(1-6) [OF assms(1)] assms(3) by (simp add: stm_inv_def)
qed

lemma stm_inv_StartTransaction:
  assumes "stm_inv s" "current s th = None"
  shows "stm_inv (StartTransaction th g1 g2 s)"
proof -
  note d = stm_invD [OF assms(1)]
  have new: "next_trans s \<notin> dom (store s)" using d(4) by blast
  then have "\<not> Contains (next_trans s) (transactions s)"
    using vl.contains_iff [OF d(1)] d(3) by simp
  then have "distinct (elems (Add (next_trans s) (transactions s)))"
    using vl.distinct_add [OF d(1,2)] by simp
  moreover have "current s th' \<noteq> Some (next_trans s)" for th'
    using new d(5) by blast
  ultimately show ?thesis
    using d assms(2) unfolding stm_inv_def StartTransaction_def Let_def
    by (simp add: less_SucI) blast
qed

lemma stm_inv_RedirectLoad:
  assumes "stm_inv s" "htarget obj < next_addr (mem s)" "STM_RedirectLoad th obj tm s = Inr (r, tm', s')"
  shows "stm_inv s'"
proof (cases "current s th")
  case None
  with assms show ?thesis by (simp add: STM_RedirectLoad_def)
next
  case (Some i)
  obtain t where t: "store s i = Some t" "tx_ok (mem s) t"
    using stm_inv_current [OF assms(1) Some] .
  obtain r0 tminit t' m' where rl: "Transaction_RedirectLoad obj tm t (mem s) = (r0, tminit, t', m')"
    by (metis prod.exhaust)
  have "s' = s\<lparr>store := (store s)(i \<mapsto> t'), mem := m'\<rparr>"
    using assms(3) Some t rl by (simp add: STM_RedirectLoad_def with_current_def)
  with tx_ok_RedirectLoad [OF t(2) assms(2) rl] stm_inv_store_update [OF assms(1) t(1)]
  show ?thesis by simp
qed

lemma stm_inv_RedirectStore:
  assumes "stm_inv s" "js_object_ok (mem s) (htarget obj)" "next_addr (mem s) + 3 \<le> heap_limit (mem s)"
    and "STM_RedirectStore cow gc gca th obj tm s = Inr (r, tm', s')"
  shows "stm_inv s'"
proof (cases "current s th")
  case None
  with assms show ?thesis by (simp add: STM_RedirectStore_def)
next
  case (Some i)
  obtain t where t: "store s i = Some t" "tx_ok (mem s) t"
    using stm_inv_current [OF assms(1) Some] .
  have "\<exists>r0 tminit t' m'. Transaction_RedirectStore cow gc gca obj tm t (mem s) = Inr (r0, tminit, t', m')
      \<and> tx_ok m' t' \<and> preserves (mem s) m' \<and> next_block (mem s) \<le> next_block m'"
  proof (cases "tracked (mem s) obj \<and> \<not> aborted t \<and> Set_Get (write_set t) obj = None")
    case True
    then show ?thesis
      using RedirectStore_copies [OF t(2) _ _ _ assms(2,3), of cow gc gca tm] by metis
  next
    case False
    with t(2) show ?thesis
      by (cases "tracked (mem s) obj"; cases "aborted t"; cases "Set_Get (write_set t) obj")
        (auto simp: RedirectStore_untracked RedirectStore_aborted RedirectStore_known)
  qed
  then obtain r0 tminit t' m' where rs: "Transaction_RedirectStore cow gc gca obj tm t (mem s) = Inr (r0, tminit, t', m')"
    and ok: "tx_ok m' t'" "preserves (mem s) m'" "next_block (mem s) \<le> next_block m'" by blast
  have "s' = s\<lparr>store := (store s)(i \<mapsto> t'), mem := m'\<rparr>"
    using assms(4) Some t rs by (simp add: STM_RedirectStore_def with_current_def)
  with ok stm_inv_store_update [OF assms(1) t(1)] show ?thesis by simp
qed

section \<open>Committing\<close>

lemma commit_entries_length:
  "\<forall>e \<in> set es. length (h (fst e)) = length (h (snd e)) \<Longrightarrow> length (commit_entries es h a) = length (h a)"
proof (induction es arbitrary: h)
  case Nil
  then show ?case by (simp add: commit_entries_def)
next
  case (Cons e es)
  let ?h = "h(fst e := h (snd e))"
  have same: "length (?h a) = length (h a)" for a using Cons.prems by simp
  have "commit_entries (e # es) h = commit_entries es ?h"
    using Cons.prems by (simp add: commit_entries_def case_prod_beta CopyBlock_same_size)
  moreover have "\<forall>e \<in> set es. length (?h (fst e)) = length (?h (snd e))"
    using Cons.prems same by simp
  ultimately show ?case using Cons.IH [of ?h] same by metis
qed

lemma CommitHeap_length: "tx_ok m t \<Longrightarrow> length (CommitHeap t (js_heap m) a) = length (js_heap m a)"
  by (auto simp: CommitHeap_def CommitChanges_entries tx_ok_def writes_ok_def intro: commit_entries_length)

lemma tx_ok_same_lengths:
  assumes "tx_ok m t" "next_addr m' = next_addr m" "next_block m' = next_block m"
    and "\<And>a. length (js_heap m' a) = length (js_heap m a)"
  shows "tx_ok m' t"
  using assms by (simp add: tx_ok_def reads_ok_def writes_ok_def Ball_def)

lemma tx_ok_Abort [simp]: "tx_ok m (Abort t) = tx_ok m t"
  by (simp add: tx_ok_def Abort_def)

lemma aborted_Abort [simp]: "aborted (Abort t)"
  by (simp add: Abort_def)

definition attempt :: "config \<Rightarrow> stm \<Rightarrow> transaction \<Rightarrow> transaction" where
  "attempt cfg s t = (if \<not> even_flag s \<and> stm_aborts cfg then Abort t else t)"

lemma tx_ok_attempt: "tx_ok m t \<Longrightarrow> tx_ok m (attempt cfg s t)"
  by (simp add: attempt_def)

text \<open>The state after the deregistration at the end of \<open>CommitTransaction\<close>.\<close>

lemma deregister_inv:
  assumes "stm_inv s" "current s th = Some i" "dom st = dom (store s)"
    and "\<And>j t. st j = Some t \<Longrightarrow> tx_ok m t"
  shows "stm_inv (s\<lparr>even_flag := e, pending := p, mem := m, current := (current s)(th := None),
     transactions := snd (RemoveElement i (transactions s)), store := st(i := None)\<rparr>)"
proof -
  note d = stm_invD [OF assms(1)]
  have "set (remove1 i (elems (transactions s))) = dom (store s) - {i}"
    using d(2,3) by (simp add: set_remove1_eq)
  moreover have "current s th' \<noteq> Some i" if "th' \<noteq> th" for th'
    using d(6) [OF assms(2)] that by blast
  ultimately show ?thesis
    using d vl.inv_remove [OF d(1)] vl.content_remove [OF d(1)] assms(3,4)
    by (auto simp: stm_inv_def)
qed

lemma Commit_unfold:
  assumes "stm_inv s" "current s th = Some i" "store s i = Some t0" "debug cfg"
    and "t = attempt cfg s t0"
  shows "CommitTransaction cfg th s =
    (if aborted t
     then Inr (False, s\<lparr>even_flag := \<not> even_flag s, pending := (pending s)(th := False), mem := mem s,
        current := (current s)(th := None), transactions := snd (RemoveElement i (transactions s)),
        store := ((store s)(i \<mapsto> t))(i := None)\<rparr>)
     else Inr (True, s\<lparr>even_flag := \<not> even_flag s, pending := pending s,
        mem := (mem s)\<lparr>js_heap := CommitHeap t (js_heap (mem s))\<rparr>, current := (current s)(th := None),
        transactions := snd (RemoveElement i (transactions s)),
        store := (\<lambda>j. if j \<noteq> i \<and> j \<in> dom (store s) \<and> HasConflicts (the (store s j)) t
                       then Some (Abort (the (store s j))) else ((store s)(i \<mapsto> t)) j)(i := None)\<rparr>))"
proof -
  note d = stm_invD [OF assms(1)]
  have "set (elems (transactions s)) \<subseteq> dom ((store s)(i \<mapsto> t))" using d(3) by auto
  from abort_conflicting_spec [OF this d(2), of i t]
  have "abort_conflicting i t (elems (transactions s)) ((store s)(i \<mapsto> t)) =
    Inr (\<lambda>j. if j \<noteq> i \<and> j \<in> dom (store s) \<and> HasConflicts (the (store s j)) t
             then Some (Abort (the (store s j))) else ((store s)(i \<mapsto> t)) j)"
    using d(3) by (auto simp: fun_eq_iff)
  then show ?thesis
    using assms(2-5) by (auto simp: CommitTransaction_def with_current_def attempt_def Let_def)
qed

lemma stm_inv_CommitTransaction:
  assumes "stm_inv s" "debug cfg" "CommitTransaction cfg th s = Inr (c, s')"
  shows "stm_inv s'"
proof (cases "current s th")
  case None
  with assms show ?thesis by (simp add: CommitTransaction_def with_current_def)
next
  case (Some i)
  obtain t0 where t0: "store s i = Some t0" "tx_ok (mem s) t0"
    using stm_inv_current [OF assms(1) Some] .
  define t where "t = attempt cfg s t0"
  have t: "tx_ok (mem s) t" using t0(2) by (simp add: t_def tx_ok_attempt)
  note cu = Commit_unfold [OF assms(1) Some t0(1) assms(2) t_def]
  note d = stm_invD [OF assms(1)]
  show ?thesis
  proof (cases "aborted t")
    case True
    have "tx_ok (mem s) u" if "((store s)(i \<mapsto> t)) j = Some u" for j u
      using that t d(7) by (auto split: if_splits)
    with True assms(3) cu deregister_inv [OF assms(1) Some, of "(store s)(i \<mapsto> t)" "mem s"]
    show ?thesis using t0(1) by (auto simp: insert_absorb domI)
  next
    case False
    let ?m = "(mem s)\<lparr>js_heap := CommitHeap t (js_heap (mem s))\<rparr>"
    let ?st = "\<lambda>j. if j \<noteq> i \<and> j \<in> dom (store s) \<and> HasConflicts (the (store s j)) t
                   then Some (Abort (the (store s j))) else ((store s)(i \<mapsto> t)) j"
    have len: "tx_ok ?m u" if "tx_ok (mem s) u" for u
      using that by (rule tx_ok_same_lengths) (simp_all add: CommitHeap_length [OF t])
    have "tx_ok ?m u" if "?st j = Some u" for j u
      using that t d(7) len by (auto split: if_splits)
    moreover have "dom ?st = dom (store s)" using t0(1) by (auto split: if_splits)
    ultimately have "stm_inv (s\<lparr>even_flag := \<not> even_flag s, pending := pending s, mem := ?m,
        current := (current s)(th := None), transactions := snd (RemoveElement i (transactions s)),
        store := ?st(i := None)\<rparr>)"
      by (intro deregister_inv [OF assms(1) Some]) auto
    with False assms(3) cu show ?thesis by simp
  qed
qed

lemma stm_inv_set_word: "stm_inv s \<Longrightarrow> stm_inv (s\<lparr>mem := set_word a i w (mem s)\<rparr>)"
proof -
  assume inv: "stm_inv s"
  have "tx_ok (set_word a i w (mem s)) t" if "store s j = Some t" for j t
    using stm_invD(7) [OF inv that] by (rule tx_ok_same_lengths) (simp_all add: set_word_def)
  with inv show ?thesis by (simp add: stm_inv_def)
qed

section \<open>Runs of the operations\<close>

text \<open>
  States reached by completed operations of any number of threads, with arbitrary writes to heap
  words in between (stores through the handles the STM returned).
\<close>

inductive stm_reach :: "config \<Rightarrow> memory \<Rightarrow> stm \<Rightarrow> bool" for cfg minit where
  init: "stm_reach cfg minit (STM_new minit)"
| start: "stm_reach cfg minit s \<Longrightarrow> current s th = None \<Longrightarrow> stm_reach cfg minit (StartTransaction th g1 g2 s)"
| load: "stm_reach cfg minit s \<Longrightarrow> htarget obj < next_addr (mem s) \<Longrightarrow>
    STM_RedirectLoad th obj tm s = Inr (r, tm', s') \<Longrightarrow> stm_reach cfg minit s'"
| store: "stm_reach cfg minit s \<Longrightarrow> js_object_ok (mem s) (htarget obj) \<Longrightarrow>
    next_addr (mem s) + 3 \<le> heap_limit (mem s) \<Longrightarrow>
    STM_RedirectStore cow gc gca th obj tm s = Inr (r, tm', s') \<Longrightarrow> stm_reach cfg minit s'"
| mutate: "stm_reach cfg minit s \<Longrightarrow> stm_reach cfg minit (s\<lparr>mem := set_word a i w (mem s)\<rparr>)"
| commit: "stm_reach cfg minit s \<Longrightarrow> CommitTransaction cfg th s = Inr (c, s') \<Longrightarrow> stm_reach cfg minit s'"


text \<open>A memory with one JavaScript object at address 1 and its empty array at address 0.\<close>

definition demo_memory :: memory where
  "demo_memory = \<lparr>js_heap = (\<lambda>a. if a = 0 then [7, 0] else if a = 1 then [9, 0, 0, 5] else []),
     kinds = (\<lambda>a. if a = 1 then JSObjectKind else OtherKind),
     next_addr = 2, heap_limit = 100, next_block = 0\<rparr>"

definition debug_build :: config where
  "debug_build = \<lparr>debug = True, stm_aborts = False\<rparr>"


section \<open>Effect of a commit\<close>

definition unaliased :: "transaction \<Rightarrow> bool" where
  "unaliased t \<longleftrightarrow> fst ` set (entries (write_set t)) \<inter> snd ` set (entries (write_set t)) = {}"

lemma CommitHeap_spec:
  assumes "tx_ok m t" "unaliased t"
  shows "CommitHeap t (js_heap m) =
    (\<lambda>a. case map_of (entries (write_set t)) a of Some c \<Rightarrow> js_heap m c | None \<Rightarrow> js_heap m a)"
  using assms
  by (auto simp: CommitHeap_def CommitChanges_entries tx_ok_def writes_ok_def unaliased_def
      intro!: commit_entries_spec)



text \<open>
  A transaction that was aborted never commits: \<open>CommitTransaction\<close> returns false, leaves the
  heap and the other transactions alone, clears the thread's pending exception (so it does not leak
  into the next attempt) and frees the transaction.
\<close>

theorem aborted_never_commits:
  assumes "stm_inv s" "current s th = Some i" "store s i = Some t" "aborted t" "debug cfg"
  shows "\<exists>s'. CommitTransaction cfg th s = Inr (False, s') \<and> mem s' = mem s
     \<and> \<not> pending s' th \<and> (\<forall>j. j \<noteq> i \<longrightarrow> store s' j = store s j) \<and> store s' i = None
     \<and> elems (transactions s') = remove1 i (elems (transactions s))"
proof -
  have "aborted (attempt cfg s t)" using assms(4) by (simp add: attempt_def)
  with Commit_unfold [OF assms(1-3,5) refl] vl.content_remove [OF stm_invD(1) [OF assms(1)]]
  show ?thesis by auto
qed

theorem aborted_never_commits_witness:
  "\<exists>s'. CommitTransaction debug_build 0
       ((StartTransaction 0 0 0 (STM_new demo_memory))\<lparr>store := [0 \<mapsto> Abort (Transaction_new 0 0)]\<rparr>)
     = Inr (False, s') \<and> mem s' = demo_memory"
proof -
  let ?started = "StartTransaction 0 0 0 (STM_new demo_memory)"
  let ?s = "?started\<lparr>store := [0 \<mapsto> Abort (Transaction_new 0 0)]\<rparr>"
  have "stm_inv ?started" by (rule stm_inv_StartTransaction [OF stm_inv_new]) (simp add: STM_new_def)
  then have "stm_inv (?started\<lparr>store := (store ?started)(0 \<mapsto> Abort (Transaction_new 0 0)), mem := mem ?started\<rparr>)"
    by (rule stm_inv_store_update) (simp_all add: StartTransaction_def STM_new_def Let_def)
  also have "?started\<lparr>store := (store ?started)(0 \<mapsto> Abort (Transaction_new 0 0)), mem := mem ?started\<rparr> = ?s"
    by (simp add: StartTransaction_def STM_new_def Let_def)
  finally have "stm_inv ?s" .
  moreover have "current ?s 0 = Some 0" "store ?s 0 = Some (Abort (Transaction_new 0 0))"
    "mem ?s = demo_memory"
    by (simp_all add: StartTransaction_def STM_new_def Let_def)
  ultimately show ?thesis
    using aborted_never_commits [of ?s 0 0 "Abort (Transaction_new 0 0)" debug_build]
    by (auto simp: debug_build_def)
qed

section \<open>Private copies\<close>

lemma IsMapped_BlockCell: "cm_inv m \<Longrightarrow> IsMapped m l \<Longrightarrow> \<exists>b i. l = BlockCell b i"
  using set_used_cells_ids [of m l] by (auto simp: cm_inv_def IsMapped_def)

lemma ScopeCell_not_owned: "cm_inv m \<Longrightarrow> hlocation h = ScopeCell n \<Longrightarrow> \<not> IsMapped m (hlocation h)"
  using IsMapped_BlockCell by fastforce


lemma demo_tracked:
  "tracked demo_memory \<lparr>hlocation = ScopeCell n, htarget = 1\<rparr>" "js_object_ok demo_memory 1"
  "next_addr demo_memory + 3 \<le> heap_limit demo_memory" "\<not> aborted (Transaction_new g1 g2)"
  "Set_Get (write_set (Transaction_new g1 g2)) h = None"
  by (simp_all add: tracked_def js_object_ok_def demo_memory_def elements_word_def properties_word_def
      Transaction_new_def CellMap_new_def Set_Get_def IsMapped_def GetMapping_def)




section \<open>Release builds\<close>

lemma abort_conflicting_dangling:
  "k \<in> set js \<Longrightarrow> k \<noteq> self \<Longrightarrow> st k = None \<Longrightarrow> abort_conflicting self tr js st = Inl UseAfterFree"
proof (induction js arbitrary: st)
  case Nil
  then show ?case by simp
next
  case (Cons j js)
  show ?case
  proof (cases "st j")
    case None
    with Cons show ?thesis by auto
  next
    case (Some t)
    then have "k \<in> set js" "((if HasConflicts t tr then st(j \<mapsto> Abort t) else st)) k = None"
      using Cons.prems by auto
    with Cons Some show ?thesis by auto
  qed
qed



section \<open>Collections\<close>

text \<open>
  C39. A moving collection between two operations is invisible to handle resolution: visiting the
  cells with an injective relocation and then resolving a relocated handle gives the relocated
  result of resolving it before, for a read set or a write set alike, and the sets stay well formed.
\<close>

theorem collection_commutes_with_lookup:
  assumes "cm_inv m" "inj v"
  shows "cm_inv (Iterate v m) \<and> Set_Get (Iterate v m) (relocate v h) = map_option (relocate v) (Set_Get m h)
     \<and> entries (Iterate v m) = map (\<lambda>(a, b). (v a, v b)) (entries m)"
proof -
  have "inj_on v (insert (htarget h) (origins m))" using assms(2) by (rule inj_on_subset) simp
  with assms(1) show ?thesis by (simp add: Iterate_correct entries_Iterate Set_Get_Iterate)
qed

theorem collection_commutes_with_lookup_witness:
  "cm_inv (Iterate Suc (snd (AddMapping 0 4 9 (CellMap_new 3))))
   \<and> entries (Iterate Suc (snd (AddMapping 0 4 9 (CellMap_new 3)))) = [(5, 10)]"
proof -
  have "cm_inv (snd (AddMapping 0 4 9 (CellMap_new 3)))" "entries (snd (AddMapping 0 4 9 (CellMap_new 3))) = [(4, 9)]"
    using AddMapping_inv [of "CellMap_new 3" 0 4 9] by simp_all
  with collection_commutes_with_lookup [of "snd (AddMapping 0 4 9 (CellMap_new 3))" Suc]
  show ?thesis by simp
qed

section \<open>Stores of object references\<close>

text \<open>
  \<open>StoreIC::Store\<close> of \<^verbatim>\<open>src/ic.cc\<close> for a named property that is an existing in-object field: both
  the receiver and the value go through \<open>RedirectStore\<close>, then the field is set.  The field is the
  receiver's word \<open>w\<close>.
\<close>

datatype ic_result = Terminated | Value addr

definition StoreIC_Store ::
  "nat \<Rightarrow> (memory \<Rightarrow> memory) \<Rightarrow> (memory \<Rightarrow> memory) \<Rightarrow> thread_id \<Rightarrow> handle \<Rightarrow> nat \<Rightarrow> handle \<Rightarrow> stm
     \<Rightarrow> stm_error + (ic_result \<times> stm)" where
  "StoreIC_Store cow gc gca th objectGiven w valueGiven s =
     (case STM_RedirectStore cow gc gca th objectGiven False s of
        Inl e \<Rightarrow> Inl e
      | Inr (object, tm1, s1) \<Rightarrow>
         (case STM_RedirectStore cow gc gca th valueGiven tm1 s1 of
            Inl e \<Rightarrow> Inl e
          | Inr (val, tm, s2) \<Rightarrow>
              if tm then Inr (Terminated, s2)
              else if \<not> IsJSObject (kinds (mem s2) (htarget object)) then Inr (Value (htarget val), s2)
              else Inr (Value (htarget val),
                        s2\<lparr>mem := set_word (htarget object) w (htarget val) (mem s2)\<rparr>)))"

lemma STM_RedirectStore_first:
  assumes "current s th = Some i" "store s i = Some t" "tx_ok (mem s) t" "\<not> aborted t"
    and "tracked (mem s) obj" "Set_Get (write_set t) obj = None" "js_object_ok (mem s) (htarget obj)"
    and "next_addr (mem s) + 3 \<le> heap_limit (mem s)"
  obtains r t' m' where
    "STM_RedirectStore cow gc gca th obj tm s = Inr (r, tm, s\<lparr>store := (store s)(i \<mapsto> t'), mem := m'\<rparr>)"
    "preserves (mem s) m'" "htarget r = next_addr (mem s)" "copy_of (mem s) (htarget obj) m' (htarget r)"
    "entries (write_set t') = entries (write_set t) @ [(htarget obj, htarget r)]" "aborted t' = aborted t"
    "tx_ok m' t'" "heap_limit m' = heap_limit (mem s)" "next_addr m' \<le> next_addr (mem s) + 3"
proof -
  obtain r t' m' where r: "Transaction_RedirectStore cow gc gca obj tm t (mem s) = Inr (r, tm, t', m')"
    and p: "preserves (mem s) m'" "htarget r = next_addr (mem s)" "copy_of (mem s) (htarget obj) m' (htarget r)"
    "entries (write_set t') = entries (write_set t) @ [(htarget obj, htarget r)]" "aborted t' = aborted t"
    "tx_ok m' t'" "heap_limit m' = heap_limit (mem s)" "next_addr m' \<le> next_addr (mem s) + 3"
    using RedirectStore_copies [OF assms(3,5,4,6-8), of cow gc gca tm] by metis
  have "STM_RedirectStore cow gc gca th obj tm s = Inr (r, tm, s\<lparr>store := (store s)(i \<mapsto> t'), mem := m'\<rparr>)"
    using assms(1,2) r by (simp add: STM_RedirectStore_def with_current_def)
  then show ?thesis using that p by blast
qed

lemma js_object_ok_preserved: "js_object_ok m a \<Longrightarrow> preserves m m' \<Longrightarrow> js_object_ok m' a"
  by (auto simp: js_object_ok_def preserves_def)

text \<open>
  Storing a reference to an object stores a reference to a private copy of it: when a
  transaction writes an object that it has not written before into a field of another such object,
  the word that lands in the field (and the value the assignment yields) is the address of a new
  object, not the address that was assigned.  Commit later copies the new object's words back to
  the original, but the field keeps referring to the copy, so object identity is lost.
\<close>

theorem store_of_reference_stores_copy:
  assumes "stm_inv s" "current s th = Some i" "store s i = Some t" "\<not> aborted t"
    and "tracked (mem s) obj" "tracked (mem s) v" "htarget obj \<noteq> htarget v"
    and "hlocation obj = ScopeCell n" "hlocation v = ScopeCell k" "entries (write_set t) = []"
    and "js_object_ok (mem s) (htarget obj)" "js_object_ok (mem s) (htarget v)"
    and "next_addr (mem s) + 6 \<le> heap_limit (mem s)" "w < length (js_heap (mem s) (htarget obj))"
  shows "\<exists>c s'. StoreIC_Store cow gc gca th obj w v s = Inr (Value c, s')
     \<and> js_heap (mem s') (next_addr (mem s)) ! w = c \<and> next_addr (mem s) < c \<and> htarget v < next_addr (mem s)"
proof -
  have tx: "tx_ok (mem s) t" using stm_invD(7) [OF assms(1,3)] .
  have inv: "cm_inv (write_set t)" using tx_ok_invs [OF tx] by simp
  have g1: "Set_Get (write_set t) obj = None"
    using Set_Get_None [OF inv] ScopeCell_not_owned [OF inv assms(8)] assms(10) by (simp add: origins_def)
  have room: "next_addr (mem s) + 3 \<le> heap_limit (mem s)" using assms(13) by simp
  obtain r t1 m1 where
    r: "STM_RedirectStore cow gc gca th obj False s = Inr (r, False, s\<lparr>store := (store s)(i \<mapsto> t1), mem := m1\<rparr>)"
    and p: "preserves (mem s) m1" "htarget r = next_addr (mem s)" "copy_of (mem s) (htarget obj) m1 (htarget r)"
    "entries (write_set t1) = entries (write_set t) @ [(htarget obj, htarget r)]" "aborted t1 = aborted t"
    "tx_ok m1 t1" "heap_limit m1 = heap_limit (mem s)" "next_addr m1 \<le> next_addr (mem s) + 3"
    using STM_RedirectStore_first [OF assms(2,3) tx assms(4,5) g1 assms(11) room, of cow gc gca False] .
  let ?s1 = "s\<lparr>store := (store s)(i \<mapsto> t1), mem := m1\<rparr>"
  have inv1: "cm_inv (write_set t1)" using tx_ok_invs [OF p(6)] by simp
  have g2: "Set_Get (write_set t1) v = None"
    using Set_Get_None [OF inv1] ScopeCell_not_owned [OF inv1 assms(9)] assms(7,10) p(4) by (simp add: origins_def)
  have v1: "tracked (mem ?s1) v" "js_object_ok (mem ?s1) (htarget v)"
    using assms(6,12) p(1) js_object_ok_preserved by (auto simp: tracked_def preserves_def js_object_ok_def)
  have room1: "next_addr (mem ?s1) + 3 \<le> heap_limit (mem ?s1)" using assms(13) p(7,8) by simp
  have cur1: "current ?s1 th = Some i" "store ?s1 i = Some t1" "tx_ok (mem ?s1) t1" "\<not> aborted t1"
    using assms(2,4) p(5,6) by simp_all
  obtain q t2 m2 where
    q: "STM_RedirectStore cow gc gca th v False ?s1 = Inr (q, False, ?s1\<lparr>store := (store ?s1)(i \<mapsto> t2), mem := m2\<rparr>)"
    and "preserves (mem ?s1) m2" "htarget q = next_addr (mem ?s1)"
    using STM_RedirectStore_first [OF cur1 v1(1) g2 v1(2) room1, of cow gc gca False] by blast
  then have q2: "preserves m1 m2" "htarget q = next_addr m1" by simp_all
  have new: "next_addr (mem s) < next_addr m1"
    using p(6,4,2) by (simp add: tx_ok_def writes_ok_def)
  have k: "kinds m2 (htarget r) = JSObjectKind" "length (js_heap m2 (htarget r)) = length (js_heap (mem s) (htarget obj))"
    using p(2,3) q2(1) new assms(5) by (auto simp: copy_of_def preserves_def tracked_def)
  then have "StoreIC_Store cow gc gca th obj w v s =
      Inr (Value (htarget q), ?s1\<lparr>store := (store ?s1)(i \<mapsto> t2), mem := set_word (htarget r) w (htarget q) m2\<rparr>)"
    using r q by (simp add: StoreIC_Store_def IsJSObject_def)
  then show ?thesis
    using k(2) p(2) q2(2) new assms(12,14) by (simp add: set_word_def js_object_ok_def)
qed

text \<open>Two JavaScript objects, at addresses 1 and 2, sharing the empty array at address 0.\<close>

definition pair_memory :: memory where
  "pair_memory = \<lparr>js_heap = (\<lambda>a. if a = 0 then [7, 0] else if a = 1 \<or> a = 2 then [9, 0, 0, 5] else []),
     kinds = (\<lambda>a. if a = 1 \<or> a = 2 then JSObjectKind else OtherKind),
     next_addr = 3, heap_limit = 100, next_block = 0\<rparr>"

theorem store_of_reference_stores_copy_witness:
  "\<exists>c s'. StoreIC_Store 0 id id 0 \<lparr>hlocation = ScopeCell 0, htarget = 1\<rparr> 3
       \<lparr>hlocation = ScopeCell 1, htarget = 2\<rparr> (StartTransaction 0 0 0 (STM_new pair_memory)) = Inr (Value c, s')
     \<and> js_heap (mem s') 3 ! 3 = c \<and> 3 < c"
proof -
  let ?s = "StartTransaction 0 0 0 (STM_new pair_memory)"
  have "stm_inv ?s" by (rule stm_inv_StartTransaction [OF stm_inv_new]) (simp add: STM_new_def)
  moreover have "current ?s 0 = Some 0" "store ?s 0 = Some (Transaction_new 0 0)" "mem ?s = pair_memory"
    by (simp_all add: StartTransaction_def STM_new_def Let_def)
  moreover have "entries (write_set (Transaction_new 0 0)) = []" by (simp add: Transaction_new_def)
  ultimately show ?thesis
    using store_of_reference_stores_copy [of ?s 0 0 "Transaction_new 0 0"
        "\<lparr>hlocation = ScopeCell 0, htarget = 1\<rparr>" "\<lparr>hlocation = ScopeCell 1, htarget = 2\<rparr>" 0 1 3 0 id id]
    by (auto simp: demo_tracked pair_memory_def tracked_def js_object_ok_def elements_word_def properties_word_def)
qed

end
