(* ===== verification/Stm_Serial.thy ===== *)
theory Stm_Serial
  imports Stm_Commit
begin

text \<open>
  The optimistic concurrency control of \<^verbatim>\<open>src/stm.cc\<close> as an interleaving of the steps of any number
  of threads.  An object's content stands for its words together with its two backing arrays,
  which \<open>CopyJSObject\<close> copies as well.  Read and write sets are represented by the objects they
  contain (\<open>Stm_Commit.HasConflicts_iff\<close> is the link to the cell maps).  Every place where the code
  can be preempted between two accesses to shared data is a separate step: the check of \<open>aborted_\<close>,
  the creation of a copy, the registration under \<open>mutex_\<close>, each lock, each conflict check, each
  \<open>CopyBlock\<close> of a commit.  Collections are the subject of \<open>Gc_Protocol\<close>.
\<close>

section \<open>States\<close>

type_synonym content = "nat list"

text \<open>
  A transaction: the abort flag, the objects read, the objects written with their private copies,
  and two ghost records of what it took from the heap: the field reads that went to original
  objects, and the contents its copies started from.
\<close>

record tx =
  t_aborted :: bool
  t_reads :: "addr list"
  t_writes :: "(addr \<times> content) list"
  t_obs :: "(addr \<times> nat \<times> nat) list"
  t_bases :: "(addr \<times> content) list"

definition new_tx :: tx where
  "new_tx = \<lparr>t_aborted = False, t_reads = [], t_writes = [], t_obs = [], t_bases = []\<rparr>"

text \<open>Where a thread is: outside any transaction, running, inside a redirect, or committing.\<close>

datatype pc = Idle | Body | Loading addr | Storing addr | Copied addr content | InCommit

text \<open>
  Where the holder of \<open>commit_mutex_\<close> and \<open>transactions_mutex_\<close> is in \<open>CommitTransaction\<close>: before
  the check of the abort flag, in the loop that locks all transactions (with the ones still to be
  locked), in the loop that aborts conflicting ones, in \<open>CommitHeap\<close> (with the entries still to be
  written back), in the loop that unlocks.
\<close>

datatype phase = NoCommit | Check thread_id | Locking thread_id "thread_id list"
  | Scanning thread_id "thread_id list" | Writing thread_id "(addr \<times> content) list"
  | Unlocking thread_id "thread_id list"

text \<open>A commit leaves a record of what the transaction observed and wrote, in commit order.\<close>

record commit_record =
  c_obs :: "(addr \<times> nat \<times> nat) list"
  c_bases :: "(addr \<times> content) list"
  c_writes :: "(addr \<times> content) list"

record sys =
  hp :: "addr \<Rightarrow> content"
  pcs :: "thread_id \<Rightarrow> pc"
  txs :: "thread_id \<Rightarrow> tx"
  listed :: "thread_id list"
  phase :: phase
  clog :: "commit_record list"

definition init_sys :: "(addr \<Rightarrow> content) \<Rightarrow> sys" where
  "init_sys h = \<lparr>hp = h, pcs = (\<lambda>_. Idle), txs = (\<lambda>_. new_tx), listed = [], phase = NoCommit, clog = []\<rparr>"

text \<open>The transactions whose \<open>mutex_\<close> the committing thread holds.\<close>

fun locked :: "thread_id list \<Rightarrow> phase \<Rightarrow> thread_id set" where
  "locked l NoCommit = {}"
| "locked l (Check i) = {}"
| "locked l (Locking i js) = set l - set js"
| "locked l (Scanning i js) = set l"
| "locked l (Writing i es) = set l"
| "locked l (Unlocking i js) = set js"

definition keys :: "('a \<times> 'b) list \<Rightarrow> 'a set" where
  "keys xs = fst ` set xs"

definition conflicts :: "tx \<Rightarrow> tx \<Rightarrow> bool" where
  "conflicts t u \<longleftrightarrow> (set (t_reads t) \<union> keys (t_writes t)) \<inter> keys (t_writes u) \<noteq> {}"

definition upd_tx :: "thread_id \<Rightarrow> (tx \<Rightarrow> tx) \<Rightarrow> sys \<Rightarrow> sys" where
  "upd_tx i f s = s\<lparr>txs := (txs s)(i := f (txs s i))\<rparr>"

definition goto :: "thread_id \<Rightarrow> pc \<Rightarrow> sys \<Rightarrow> sys" where
  "goto i p s = s\<lparr>pcs := (pcs s)(i := p)\<rparr>"

definition write_copy :: "addr \<Rightarrow> nat \<Rightarrow> nat \<Rightarrow> (addr \<times> content) list \<Rightarrow> (addr \<times> content) list" where
  "write_copy a n v ws = map (\<lambda>(b, c). if b = a then (b, c[n := v]) else (b, c)) ws"

section \<open>Steps\<close>

text \<open>
  With \<open>strict\<close>, a copy may be registered only while it still equals the object it was made from;
  the code has no such check (\<open>strict = False\<close>).
\<close>

inductive step :: "bool \<Rightarrow> sys \<Rightarrow> sys \<Rightarrow> bool" for strict where
  start_transaction: "pcs s i = Idle \<Longrightarrow> phase s = NoCommit \<Longrightarrow>
    step strict s (goto i Body (s\<lparr>txs := (txs s)(i := new_tx), listed := listed s @ [i]\<rparr>))"
| load_check: "pcs s i = Body \<Longrightarrow> \<not> t_aborted (txs s i) \<Longrightarrow> a \<notin> keys (t_writes (txs s i)) \<Longrightarrow>
    a \<notin> set (t_reads (txs s i)) \<Longrightarrow> step strict s (goto i (Loading a) s)"
| load_add: "pcs s i = Loading a \<Longrightarrow> i \<notin> locked (listed s) (phase s) \<Longrightarrow>
    step strict s (goto i Body (upd_tx i (\<lambda>t. t\<lparr>t_reads := t_reads t @ [a]\<rparr>) s))"
| read_field: "pcs s i = Body \<Longrightarrow> a \<in> set (t_reads (txs s i)) \<Longrightarrow> a \<notin> keys (t_writes (txs s i)) \<Longrightarrow>
    step strict s (upd_tx i (\<lambda>t. t\<lparr>t_obs := t_obs t @ [(a, n, hp s a ! n)]\<rparr>) s)"
| store_check: "pcs s i = Body \<Longrightarrow> \<not> t_aborted (txs s i) \<Longrightarrow> a \<notin> keys (t_writes (txs s i)) \<Longrightarrow>
    step strict s (goto i (Storing a) s)"
| store_copy: "pcs s i = Storing a \<Longrightarrow> step strict s (goto i (Copied a (hp s a)) s)"
| store_add: "pcs s i = Copied a c \<Longrightarrow> i \<notin> locked (listed s) (phase s) \<Longrightarrow> (strict \<longrightarrow> c = hp s a) \<Longrightarrow>
    step strict s (goto i Body
      (upd_tx i (\<lambda>t. t\<lparr>t_writes := t_writes t @ [(a, c)], t_bases := t_bases t @ [(a, c)]\<rparr>) s))"
| write_field: "pcs s i = Body \<Longrightarrow> a \<in> keys (t_writes (txs s i)) \<Longrightarrow>
    step strict s (upd_tx i (\<lambda>t. t\<lparr>t_writes := write_copy a n v (t_writes t)\<rparr>) s)"
| commit_enter: "pcs s i = Body \<Longrightarrow> phase s = NoCommit \<Longrightarrow>
    step strict s (goto i InCommit (s\<lparr>phase := Check i\<rparr>))"
| commit_aborted: "phase s = Check i \<Longrightarrow> t_aborted (txs s i) \<Longrightarrow>
    step strict s (goto i Idle (s\<lparr>phase := NoCommit, listed := remove1 i (listed s)\<rparr>))"
| commit_begin: "phase s = Check i \<Longrightarrow> \<not> t_aborted (txs s i) \<Longrightarrow>
    step strict s (s\<lparr>phase := Locking i (listed s)\<rparr>)"
| lock_one: "phase s = Locking i (j # js) \<Longrightarrow> step strict s (s\<lparr>phase := Locking i js\<rparr>)"
| lock_done: "phase s = Locking i [] \<Longrightarrow> step strict s (s\<lparr>phase := Scanning i (listed s)\<rparr>)"
| scan_self: "phase s = Scanning i (j # js) \<Longrightarrow> j = i \<Longrightarrow> step strict s (s\<lparr>phase := Scanning i js\<rparr>)"
| scan_other: "phase s = Scanning i (j # js) \<Longrightarrow> j \<noteq> i \<Longrightarrow> step strict s
    (upd_tx j (\<lambda>t. if conflicts t (txs s i) then t\<lparr>t_aborted := True\<rparr> else t) (s\<lparr>phase := Scanning i js\<rparr>))"
| scan_done: "phase s = Scanning i [] \<Longrightarrow> step strict s (s\<lparr>phase := Writing i (t_writes (txs s i))\<rparr>)"
| write_back: "phase s = Writing i ((a, c) # es) \<Longrightarrow>
    step strict s (s\<lparr>hp := (hp s)(a := c), phase := Writing i es\<rparr>)"
| write_done: "phase s = Writing i [] \<Longrightarrow>
    step strict s (s\<lparr>phase := Unlocking i (listed s),
      clog := clog s @ [\<lparr>c_obs = t_obs (txs s i), c_bases = t_bases (txs s i), c_writes = t_writes (txs s i)\<rparr>]\<rparr>)"
| unlock_one: "phase s = Unlocking i (j # js) \<Longrightarrow> step strict s (s\<lparr>phase := Unlocking i js\<rparr>)"
| unlock_done: "phase s = Unlocking i [] \<Longrightarrow>
    step strict s (goto i Idle (s\<lparr>phase := NoCommit, listed := remove1 i (listed s)\<rparr>))"

inductive reach :: "bool \<Rightarrow> (addr \<Rightarrow> content) \<Rightarrow> sys \<Rightarrow> bool" for strict h where
  reach_init: "reach strict h (init_sys h)"
| reach_step: "reach strict h s \<Longrightarrow> step strict s s' \<Longrightarrow> reach strict h s'"

section \<open>Serial executions\<close>

definition put :: "(addr \<times> content) list \<Rightarrow> (addr \<Rightarrow> content) \<Rightarrow> (addr \<Rightarrow> content)" where
  "put ws h = fold (\<lambda>(a, c) h. h(a := c)) ws h"

definition replay :: "(addr \<Rightarrow> content) \<Rightarrow> commit_record list \<Rightarrow> (addr \<Rightarrow> content)" where
  "replay h rs = fold (\<lambda>r. put (c_writes r)) rs h"

definition obs_ok :: "(addr \<Rightarrow> content) \<Rightarrow> (addr \<times> nat \<times> nat) list \<Rightarrow> bool" where
  "obs_ok h xs \<longleftrightarrow> (\<forall>(a, n, v) \<in> set xs. h a ! n = v)"

definition bases_ok :: "(addr \<Rightarrow> content) \<Rightarrow> (addr \<times> content) list \<Rightarrow> bool" where
  "bases_ok h xs \<longleftrightarrow> (\<forall>(a, c) \<in> set xs. h a = c)"

text \<open>
  Executing the commit records one after the other on the initial heap, each transaction finds
  every field it read, and (if \<open>copies\<close>) every object it copied, as it saw it.
\<close>

definition serial_log :: "bool \<Rightarrow> (addr \<Rightarrow> content) \<Rightarrow> commit_record list \<Rightarrow> bool" where
  "serial_log copies h rs \<longleftrightarrow> (\<forall>k < length rs.
     obs_ok (replay h (take k rs)) (c_obs (rs ! k))
     \<and> (copies \<longrightarrow> bases_ok (replay h (take k rs)) (c_bases (rs ! k))))"

section \<open>Invariants\<close>

fun committer :: "phase \<Rightarrow> thread_id option" where
  "committer NoCommit = None"
| "committer (Check i) = Some i"
| "committer (Locking i js) = Some i"
| "committer (Scanning i js) = Some i"
| "committer (Writing i es) = Some i"
| "committer (Unlocking i js) = Some i"

text \<open>Threads inside a transaction are listed; exactly the committing thread is in its commit.\<close>

definition sync_ok :: "sys \<Rightarrow> bool" where
  "sync_ok s \<longleftrightarrow> distinct (listed s) \<and> (\<forall>i. pcs s i \<noteq> Idle \<longleftrightarrow> i \<in> set (listed s))
     \<and> (\<forall>i. pcs s i = InCommit \<longleftrightarrow> committer (phase s) = Some i)"

text \<open>The heap is that of the serial execution so far, but for the entries being written back.\<close>

definition heap_ok :: "(addr \<Rightarrow> content) \<Rightarrow> sys \<Rightarrow> bool" where
  "heap_ok h s = (case phase s of
       Writing i es \<Rightarrow> (\<exists>dn. t_writes (txs s i) = dn @ es \<and> hp s = put dn (replay h (clog s)))
     | _ \<Rightarrow> hp s = replay h (clog s))"

text \<open>Transactions already scanned are aborted or do not conflict with the committing one.\<close>

definition scan_ok :: "sys \<Rightarrow> bool" where
  "scan_ok s = (case phase s of
       Locking i js \<Rightarrow> \<not> t_aborted (txs s i)
     | Scanning i js \<Rightarrow> \<not> t_aborted (txs s i)
         \<and> (\<forall>j \<in> set (listed s) - set js. j \<noteq> i \<longrightarrow> t_aborted (txs s j) \<or> \<not> conflicts (txs s j) (txs s i))
     | Writing i es \<Rightarrow> \<not> t_aborted (txs s i)
         \<and> (\<forall>j \<in> set (listed s). j \<noteq> i \<longrightarrow> t_aborted (txs s j) \<or> \<not> conflicts (txs s j) (txs s i))
     | _ \<Rightarrow> True)"

text \<open>What a live transaction has taken from the heap is still so in the serial execution.\<close>

definition tx_valid :: "bool \<Rightarrow> (addr \<Rightarrow> content) \<Rightarrow> tx \<Rightarrow> bool" where
  "tx_valid strict h t \<longleftrightarrow> (\<forall>(a, n, v) \<in> set (t_obs t). a \<in> set (t_reads t) \<and> h a ! n = v)
     \<and> (strict \<longrightarrow> (\<forall>(a, c) \<in> set (t_bases t). a \<in> keys (t_writes t) \<and> h a = c))"

definition valid_ok :: "bool \<Rightarrow> (addr \<Rightarrow> content) \<Rightarrow> sys \<Rightarrow> bool" where
  "valid_ok strict h s \<longleftrightarrow> (\<forall>j \<in> set (listed s). \<not> t_aborted (txs s j) \<longrightarrow> (\<forall>js. phase s \<noteq> Unlocking j js) \<longrightarrow>
     tx_valid strict (replay h (clog s)) (txs s j))"

definition sys_inv :: "bool \<Rightarrow> (addr \<Rightarrow> content) \<Rightarrow> sys \<Rightarrow> bool" where
  "sys_inv strict h s \<longleftrightarrow> sync_ok s \<and> heap_ok h s \<and> scan_ok s \<and> valid_ok strict h s
     \<and> serial_log strict h (clog s)"

lemmas state_ops = goto_def upd_tx_def

lemma keys_append [simp]: "keys (xs @ ys) = keys xs \<union> keys ys"
  by (auto simp: keys_def)

lemma keys_simps [simp]: "keys [] = {}" "keys ((a, c) # xs) = insert a (keys xs)"
  by (auto simp: keys_def)

lemma keys_write_copy [simp]: "keys (write_copy a n v ws) = keys ws"
  by (force simp: keys_def write_copy_def image_iff split: prod.splits if_splits)

lemma conflicts_write_copy:
  "conflicts (t\<lparr>t_writes := write_copy a n v (t_writes t)\<rparr>) u = conflicts t u"
  "conflicts u (t\<lparr>t_writes := write_copy a n v (t_writes t)\<rparr>) = conflicts u t"
  by (simp_all add: conflicts_def)

lemma conflicts_other [simp]:
  "conflicts (t\<lparr>t_obs := x\<rparr>) u = conflicts t u" "conflicts u (t\<lparr>t_obs := x\<rparr>) = conflicts u t"
  "conflicts (t\<lparr>t_aborted := b\<rparr>) u = conflicts t u" "conflicts u (t\<lparr>t_aborted := b\<rparr>) = conflicts u t"
  by (simp_all add: conflicts_def)

lemma put_append: "put (xs @ ys) h = put ys (put xs h)"
  by (simp add: put_def)

lemma put_outside: "a \<notin> keys ws \<Longrightarrow> put ws h a = h a"
  by (induction ws arbitrary: h) (auto simp: put_def)

lemma replay_snoc: "replay h (rs @ [r]) = put (c_writes r) (replay h rs)"
  by (simp add: replay_def)

lemma sync_goto:
  assumes "sync_ok s" "pcs s i \<noteq> Idle" "pcs s i \<noteq> InCommit" "p \<noteq> Idle" "p \<noteq> InCommit"
  shows "sync_ok (goto i p s)"
  using assms unfolding sync_ok_def state_ops by (auto split: if_splits)

lemma sync_upd [simp]: "sync_ok (upd_tx i f s) = sync_ok s"
  by (simp add: sync_ok_def state_ops)

lemma sync_phase: "sync_ok s \<Longrightarrow> committer p = committer (phase s) \<Longrightarrow> sync_ok (s\<lparr>phase := p\<rparr>)"
  by (simp add: sync_ok_def)

lemma sync_other [simp]:
  "sync_ok (s\<lparr>hp := h\<rparr>) = sync_ok s" "sync_ok (s\<lparr>clog := l\<rparr>) = sync_ok s"
  by (simp_all add: sync_ok_def)

lemma state_sel [simp]:
  "pcs (upd_tx i f s) = pcs s" "hp (upd_tx i f s) = hp s" "listed (upd_tx i f s) = listed s"
  "phase (upd_tx i f s) = phase s" "clog (upd_tx i f s) = clog s"
  "txs (upd_tx i f s) = (txs s)(i := f (txs s i))"
  "pcs (goto i p s) = (pcs s)(i := p)" "hp (goto i p s) = hp s" "listed (goto i p s) = listed s"
  "phase (goto i p s) = phase s" "clog (goto i p s) = clog s" "txs (goto i p s) = txs s"
  by (simp_all add: state_ops)

text \<open>Leaving the transaction at the end of a commit.\<close>

lemma sync_leave:
  assumes "sync_ok s" "committer (phase s) = Some i"
  shows "sync_ok (goto i Idle (s\<lparr>phase := NoCommit, listed := remove1 i (listed s)\<rparr>))"
proof -
  have d: "distinct (listed s)" and l: "\<And>j. pcs s j \<noteq> Idle \<longleftrightarrow> j \<in> set (listed s)"
    and c: "\<And>j. pcs s j = InCommit \<longleftrightarrow> committer (phase s) = Some j"
    using assms(1) by (simp_all add: sync_ok_def)
  have "pcs s j \<noteq> InCommit" if "j \<noteq> i" for j using c [of j] assms(2) that by simp
  with d l show ?thesis by (simp add: sync_ok_def state_ops)
qed

lemma sync_step:
  assumes "step strict s s'" "sync_ok s"
  shows "sync_ok s'"
  using assms
proof (cases rule: step.cases)
  case (start_transaction i)
  with assms(2) have "i \<notin> set (listed s)" by (auto simp: sync_ok_def)
  with start_transaction assms(2) show ?thesis by (simp add: sync_ok_def state_ops)
next
  case (commit_enter i)
  with assms(2) have "pcs s j \<noteq> InCommit" "i \<in> set (listed s)" for j by (auto simp: sync_ok_def)
  with commit_enter assms(2) show ?thesis by (simp add: sync_ok_def state_ops)
next
  case (scan_other i j js)
  with assms(2) show ?thesis using sync_phase [of s "Scanning i js"] by simp
next
  case (write_back i a c es)
  with assms(2) show ?thesis using sync_phase [of "s\<lparr>hp := (hp s)(a := c)\<rparr>" "Writing i es"] by simp
next
  case (write_done i)
  with assms(2) show ?thesis using sync_phase [of s "Unlocking i (listed s)"] by simp
qed (use assms(2) in \<open>auto intro: sync_goto sync_phase sync_leave\<close>)

section \<open>Every step keeps the invariant\<close>

text \<open>Threads that hold no phase of the commit are not in it, and the committing thread is listed.\<close>

lemma sync_running: "sync_ok s \<Longrightarrow> pcs s i = Body \<Longrightarrow> committer (phase s) \<noteq> Some i \<and> i \<in> set (listed s)"
  unfolding sync_ok_def by (metis pc.distinct(1) pc.distinct(17))

lemma sync_committer: "sync_ok s \<Longrightarrow> committer (phase s) = Some i \<Longrightarrow> i \<in> set (listed s)"
  unfolding sync_ok_def by (metis pc.distinct(9))

lemma heap_not_writing: "heap_ok h s \<Longrightarrow> (\<And>i es. phase s \<noteq> Writing i es) \<Longrightarrow> hp s = replay h (clog s)"
  by (auto simp: heap_ok_def split: phase.splits)

lemma heap_step:
  assumes "step strict s s'" "sync_ok s" "heap_ok h s"
  shows "heap_ok h s'"
  using assms
proof (cases rule: step.cases)
  case (write_back i a c es)
  with assms(3) obtain dn where dn: "t_writes (txs s i) = dn @ (a, c) # es" "hp s = put dn (replay h (clog s))"
    by (auto simp: heap_ok_def)
  then have "t_writes (txs s' i) = (dn @ [(a, c)]) @ es" "hp s' = put (dn @ [(a, c)]) (replay h (clog s'))"
    using write_back by (simp_all add: put_def)
  moreover have "phase s' = Writing i es" using write_back by simp
  ultimately show ?thesis by (auto simp: heap_ok_def)
next
  case (scan_done i)
  with assms(3) show ?thesis by (auto simp: heap_ok_def put_def intro: exI [of _ "[]"])
next
  case (write_done i)
  with assms(3) have "hp s = put (t_writes (txs s i)) (replay h (clog s))" by (auto simp: heap_ok_def)
  with write_done show ?thesis by (simp add: heap_ok_def replay_snoc)
next
  case (write_field i a n v)
  with assms show ?thesis
    using sync_running [OF assms(2), of i] by (auto simp: heap_ok_def state_ops split: phase.splits)
next
  case (store_add i a c)
  with assms show ?thesis by (auto simp: heap_ok_def state_ops sync_ok_def split: phase.splits)
qed (use assms in \<open>auto simp: heap_ok_def state_ops split: phase.splits\<close>)

lemma scan_step:
  assumes "step strict s s'" "sync_ok s" "scan_ok s"
  shows "scan_ok s'"
  using assms
proof (cases rule: step.cases)
  case (load_add i a)
  with assms(2) have "i \<in> set (listed s)" by (auto simp: sync_ok_def)
  with load_add assms(3) show ?thesis by (auto simp: scan_ok_def split: phase.splits)
next
  case (store_add i a c)
  with assms(2) have "i \<in> set (listed s)" by (auto simp: sync_ok_def)
  with store_add assms(3) show ?thesis by (auto simp: scan_ok_def split: phase.splits)
next
  case (write_field i a n v)
  with sync_running [OF assms(2), of i] assms(3) show ?thesis
    by (auto simp: scan_ok_def conflicts_write_copy split: phase.splits)
next
  case (read_field i a n)
  with sync_running [OF assms(2), of i] assms(3) show ?thesis
    by (force simp: scan_ok_def split: phase.splits)
next
  case (scan_other i j js)
  with assms(3) show ?thesis by (auto simp: scan_ok_def)
qed (use assms in \<open>auto simp: scan_ok_def split: phase.splits\<close>)

text \<open>A live running transaction reads the heap of the serial execution, even during a write-back.\<close>

lemma live_read:
  assumes "sync_ok s" "heap_ok h s" "scan_ok s" "pcs s i = Body" "\<not> t_aborted (txs s i)"
    and "a \<in> set (t_reads (txs s i))"
  shows "hp s a = replay h (clog s) a"
proof (cases "\<exists>k es. phase s = Writing k es")
  case True
  then obtain k es where w: "phase s = Writing k es" by blast
  from assms(2) w obtain dn where dn: "t_writes (txs s k) = dn @ es" "hp s = put dn (replay h (clog s))"
    by (auto simp: heap_ok_def)
  have "i \<noteq> k" "i \<in> set (listed s)" using sync_running [OF assms(1,4)] w by auto
  with assms(3,5) w have "\<not> conflicts (txs s i) (txs s k)" by (auto simp: scan_ok_def)
  with assms(6) dn(1) have "a \<notin> keys dn" by (auto simp: conflicts_def)
  then show ?thesis using dn(2) by (simp add: put_outside)
next
  case False
  then show ?thesis using heap_not_writing [OF assms(2)] by metis
qed

lemma unlocked_heap:
  assumes "heap_ok h s" "i \<in> set (listed s)" "i \<notin> locked (listed s) (phase s)"
  shows "hp s = replay h (clog s)"
  using assms by (intro heap_not_writing [OF assms(1)]) auto

lemma tx_valid_put:
  assumes "tx_valid strict h t" "\<not> conflicts t u"
  shows "tx_valid strict (put (t_writes u) h) t"
proof -
  have out: "put (t_writes u) h a = h a" if "a \<in> set (t_reads t) \<union> keys (t_writes t)" for a
    using assms(2) that by (intro put_outside) (auto simp: conflicts_def)
  show ?thesis using assms(1) out unfolding tx_valid_def by (auto 4 3)
qed

lemma valid_step:
  assumes "step strict s s'" "sync_ok s" "heap_ok h s" "scan_ok s" "valid_ok strict h s"
  shows "valid_ok strict h s'"
  using assms(1)
proof (cases rule: step.cases)
  case (start_transaction i)
  with assms(5) show ?thesis by (auto simp: valid_ok_def tx_valid_def new_tx_def)
next
  case (load_add i a)
  with assms(5) show ?thesis by (fastforce simp: valid_ok_def tx_valid_def)
next
  case (read_field i a n)
  with assms(5) live_read [OF assms(2-4), of i a] show ?thesis
    by (auto simp: valid_ok_def tx_valid_def)
next
  case (store_add i a c)
  with assms(2) have i: "i \<in> set (listed s)" by (auto simp: sync_ok_def)
  have "strict \<Longrightarrow> replay h (clog s) a = c"
    using unlocked_heap [OF assms(3) i] store_add by simp
  with store_add assms(5) show ?thesis by (fastforce simp: valid_ok_def tx_valid_def)
next
  case (write_field i a n v)
  with assms(5) show ?thesis by (auto simp: valid_ok_def tx_valid_def)
next
  case (commit_aborted i)
  with assms(5) show ?thesis by (auto simp: valid_ok_def dest: in_set_remove1 [THEN iffD1] notin_set_remove1)
next
  case (unlock_done i)
  with assms(2,5) show ?thesis
    by (auto simp: valid_ok_def sync_ok_def set_remove1_eq)
next
  case (scan_other i j js)
  with assms(5) show ?thesis by (auto simp: valid_ok_def tx_valid_def)
next
  case (write_done i)
  have "tx_valid strict (put (t_writes (txs s i)) (replay h (clog s))) (txs s j)"
    if "j \<in> set (listed s)" "\<not> t_aborted (txs s j)" "j \<noteq> i" for j
  proof (rule tx_valid_put)
    show "tx_valid strict (replay h (clog s)) (txs s j)"
      using that write_done assms(5) by (simp add: valid_ok_def)
    show "\<not> conflicts (txs s j) (txs s i)"
      using that write_done assms(4) by (auto simp: scan_ok_def)
  qed
  with write_done show ?thesis by (auto simp: valid_ok_def replay_snoc)
qed (use assms(5) in \<open>auto simp: valid_ok_def\<close>)

lemma log_step:
  assumes "step strict s s'" "sync_ok s" "scan_ok s" "valid_ok strict h s" "serial_log strict h (clog s)"
  shows "serial_log strict h (clog s')"
  using assms(1)
proof (cases rule: step.cases)
  case (write_done i)
  have "i \<in> set (listed s)" using sync_committer [OF assms(2), of i] write_done by simp
  moreover have "\<not> t_aborted (txs s i)" using assms(3) write_done by (simp add: scan_ok_def)
  ultimately have "tx_valid strict (replay h (clog s)) (txs s i)"
    using assms(4) write_done by (simp add: valid_ok_def)
  then have "obs_ok (replay h (clog s)) (t_obs (txs s i))"
    "strict \<Longrightarrow> bases_ok (replay h (clog s)) (t_bases (txs s i))"
    by (auto simp: tx_valid_def obs_ok_def bases_ok_def)
  with write_done assms(5) show ?thesis
    by (auto simp: serial_log_def nth_append less_Suc_eq)
qed (use assms(5) in auto)

lemma sys_inv_init: "sys_inv strict h (init_sys h)"
  by (simp add: sys_inv_def init_sys_def sync_ok_def heap_ok_def scan_ok_def valid_ok_def serial_log_def replay_def)

lemma sys_inv_step: "step strict s s' \<Longrightarrow> sys_inv strict h s \<Longrightarrow> sys_inv strict h s'"
  unfolding sys_inv_def using sync_step heap_step scan_step valid_step log_step by metis

lemma reach_inv: "reach strict h s \<Longrightarrow> sys_inv strict h s"
  by (induction rule: reach.induct) (auto intro: sys_inv_init sys_inv_step)

section \<open>Serializability\<close>

text \<open>
  C1. Reads are serializable in commit order.  In every state reachable by any interleaving of any
  number of threads, replaying the write sets of the committed transactions one after the other on
  the initial heap gives each of them, at its turn, exactly the field values it had read from
  original objects; and whenever no commit is in progress the heap is the result of that replay.
\<close>

theorem reads_serializable:
  assumes "reach False h s"
  shows "serial_log False h (clog s) \<and> (phase s = NoCommit \<longrightarrow> hp s = replay h (clog s))"
  using reach_inv [OF assms] heap_not_writing [of h s] by (auto simp: sys_inv_def)

text \<open>
  C2. If no private copy is registered after the object it was made from has changed, transactions
  are serializable altogether: in addition to the fields it read, every transaction finds at its
  turn in the commit order each object it wrote with the content its copy was made from, so no
  committed update is lost.
\<close>

theorem strict_serializable:
  assumes "reach True h s"
  shows "serial_log True h (clog s) \<and> (phase s = NoCommit \<longrightarrow> hp s = replay h (clog s))"
  using reach_inv [OF assms] heap_not_writing [of h s] by (auto simp: sys_inv_def)

text \<open>
  C4. A live transaction never reads a torn or stale object: whenever a running transaction that
  has not been aborted reads a field of an object of its read set, even while another transaction
  is being written back object by object, the field holds the value of the serial execution.
\<close>

theorem live_reads_are_consistent:
  assumes "reach strict h s" "pcs s i = Body" "\<not> t_aborted (txs s i)" "a \<in> set (t_reads (txs s i))"
  shows "hp s a = replay h (clog s) a"
  using reach_inv [OF assms(1)] live_read [OF _ _ _ assms(2-4)] by (simp add: sys_inv_def)

section \<open>Executing schedules\<close>

text \<open>A schedule names which thread does what; \<open>Commit\<close> is the next step of the commit in progress.\<close>

datatype action = Start thread_id | LoadCheck thread_id addr | LoadAdd thread_id
  | ReadField thread_id addr nat | StoreCheck thread_id addr | StoreCopy thread_id | StoreAdd thread_id
  | WriteField thread_id addr nat nat | CommitEnter thread_id | Commit

fun commit_exec :: "sys \<Rightarrow> sys option" where
  "commit_exec s = (case phase s of
     NoCommit \<Rightarrow> None
   | Check i \<Rightarrow> (if t_aborted (txs s i)
        then Some (goto i Idle (s\<lparr>phase := NoCommit, listed := remove1 i (listed s)\<rparr>))
        else Some (s\<lparr>phase := Locking i (listed s)\<rparr>))
   | Locking i js \<Rightarrow> (case js of
        [] \<Rightarrow> Some (s\<lparr>phase := Scanning i (listed s)\<rparr>)
      | j # js \<Rightarrow> Some (s\<lparr>phase := Locking i js\<rparr>))
   | Scanning i js \<Rightarrow> (case js of
        [] \<Rightarrow> Some (s\<lparr>phase := Writing i (t_writes (txs s i))\<rparr>)
      | j # js \<Rightarrow> (if j = i then Some (s\<lparr>phase := Scanning i js\<rparr>)
           else Some (upd_tx j (\<lambda>t. if conflicts t (txs s i) then t\<lparr>t_aborted := True\<rparr> else t)
                  (s\<lparr>phase := Scanning i js\<rparr>))))
   | Writing i es \<Rightarrow> (case es of
        [] \<Rightarrow> Some (s\<lparr>phase := Unlocking i (listed s), clog := clog s @
               [\<lparr>c_obs = t_obs (txs s i), c_bases = t_bases (txs s i), c_writes = t_writes (txs s i)\<rparr>]\<rparr>)
      | (a, c) # es \<Rightarrow> Some (s\<lparr>hp := (hp s)(a := c), phase := Writing i es\<rparr>))
   | Unlocking i js \<Rightarrow> (case js of
        [] \<Rightarrow> Some (goto i Idle (s\<lparr>phase := NoCommit, listed := remove1 i (listed s)\<rparr>))
      | j # js \<Rightarrow> Some (s\<lparr>phase := Unlocking i js\<rparr>)))"

fun exec :: "bool \<Rightarrow> action \<Rightarrow> sys \<Rightarrow> sys option" where
  "exec strict (Start i) s =
     (if pcs s i = Idle \<and> phase s = NoCommit
      then Some (goto i Body (s\<lparr>txs := (txs s)(i := new_tx), listed := listed s @ [i]\<rparr>)) else None)"
| "exec strict (LoadCheck i a) s =
     (if pcs s i = Body \<and> \<not> t_aborted (txs s i) \<and> a \<notin> keys (t_writes (txs s i))
         \<and> a \<notin> set (t_reads (txs s i)) then Some (goto i (Loading a) s) else None)"
| "exec strict (LoadAdd i) s =
     (case pcs s i of
        Loading a \<Rightarrow> (if i \<notin> locked (listed s) (phase s)
          then Some (goto i Body (upd_tx i (\<lambda>t. t\<lparr>t_reads := t_reads t @ [a]\<rparr>) s)) else None)
      | _ \<Rightarrow> None)"
| "exec strict (ReadField i a n) s =
     (if pcs s i = Body \<and> a \<in> set (t_reads (txs s i)) \<and> a \<notin> keys (t_writes (txs s i))
      then Some (upd_tx i (\<lambda>t. t\<lparr>t_obs := t_obs t @ [(a, n, hp s a ! n)]\<rparr>) s) else None)"
| "exec strict (StoreCheck i a) s =
     (if pcs s i = Body \<and> \<not> t_aborted (txs s i) \<and> a \<notin> keys (t_writes (txs s i))
      then Some (goto i (Storing a) s) else None)"
| "exec strict (StoreCopy i) s =
     (case pcs s i of Storing a \<Rightarrow> Some (goto i (Copied a (hp s a)) s) | _ \<Rightarrow> None)"
| "exec strict (StoreAdd i) s =
     (case pcs s i of
        Copied a c \<Rightarrow> (if i \<notin> locked (listed s) (phase s) \<and> (strict \<longrightarrow> c = hp s a)
          then Some (goto i Body (upd_tx i
            (\<lambda>t. t\<lparr>t_writes := t_writes t @ [(a, c)], t_bases := t_bases t @ [(a, c)]\<rparr>) s)) else None)
      | _ \<Rightarrow> None)"
| "exec strict (WriteField i a n v) s =
     (if pcs s i = Body \<and> a \<in> keys (t_writes (txs s i))
      then Some (upd_tx i (\<lambda>t. t\<lparr>t_writes := write_copy a n v (t_writes t)\<rparr>) s) else None)"
| "exec strict (CommitEnter i) s =
     (if pcs s i = Body \<and> phase s = NoCommit then Some (goto i InCommit (s\<lparr>phase := Check i\<rparr>)) else None)"
| "exec strict Commit s = commit_exec s"

fun run :: "bool \<Rightarrow> action list \<Rightarrow> sys \<Rightarrow> sys option" where
  "run strict [] s = Some s"
| "run strict (x # xs) s = (case exec strict x s of None \<Rightarrow> None | Some s' \<Rightarrow> run strict xs s')"

lemma commit_exec_step: "commit_exec s = Some s' \<Longrightarrow> step strict s s'"
  by (auto split: phase.splits list.splits if_splits intro: step.intros)

lemma exec_step: "exec strict x s = Some s' \<Longrightarrow> step strict s s'"
  by (cases x) (auto simp del: commit_exec.simps split: pc.splits if_splits intro: step.intros commit_exec_step)

lemma run_reach: "reach strict h s \<Longrightarrow> run strict xs s = Some s' \<Longrightarrow> reach strict h s'"
  by (induction xs arbitrary: s) (auto split: option.splits dest!: exec_step intro: reach_step)

text \<open>
  One thread writes field 1 of object 5 and commits; another reads field 0 of object 5 after that
  and commits; both run concurrently.
\<close>

definition demo_schedule :: "action list" where
  "demo_schedule = [Start 0, Start 1, StoreCheck 0 5, StoreCopy 0, StoreAdd 0, WriteField 0 5 1 1,
     CommitEnter 0] @ replicate 12 Commit @ [LoadCheck 1 5, LoadAdd 1, ReadField 1 5 1, CommitEnter 1]
     @ replicate 8 Commit"

lemma replicate_rec: "replicate (numeral k) x = x # replicate (pred_numeral k) x"
  by (simp add: numeral_eq_Suc)

lemmas run_simps = init_sys_def new_tx_def state_ops keys_def conflicts_def write_copy_def replicate_rec

lemma demo_schedule_runs:
  "\<exists>s. run strict demo_schedule (init_sys (\<lambda>_. [0, 0])) = Some s \<and> phase s = NoCommit
     \<and> map c_obs (clog s) = [[], [(5, 1, 1)]] \<and> map c_writes (clog s) = [[(5, [0, 1])], []]"
  by (simp add: demo_schedule_def run_simps)

theorem reads_serializable_witness:
  "\<exists>s. reach False (\<lambda>_. [0, 0]) s \<and> map c_obs (clog s) = [[], [(5, 1, 1)]]
     \<and> serial_log False (\<lambda>_. [0, 0]) (clog s) \<and> hp s = replay (\<lambda>_. [0, 0]) (clog s)"
proof -
  obtain s where s: "run False demo_schedule (init_sys (\<lambda>_. [0, 0])) = Some s" "phase s = NoCommit"
    "map c_obs (clog s) = [[], [(5, 1, 1)]]" using demo_schedule_runs by metis
  then have "reach False (\<lambda>_. [0, 0]) s" using run_reach [OF reach_init] by blast
  with s(2,3) reads_serializable [of "\<lambda>_. [0, 0]" s] show ?thesis by (intro exI [of _ s]) simp
qed

theorem strict_serializable_witness:
  "\<exists>s. reach True (\<lambda>_. [0, 0]) s \<and> map c_writes (clog s) = [[(5, [0, 1])], []]
     \<and> serial_log True (\<lambda>_. [0, 0]) (clog s) \<and> hp s = replay (\<lambda>_. [0, 0]) (clog s)"
proof -
  obtain s where s: "run True demo_schedule (init_sys (\<lambda>_. [0, 0])) = Some s" "phase s = NoCommit"
    "map c_writes (clog s) = [[(5, [0, 1])], []]" using demo_schedule_runs by metis
  then have "reach True (\<lambda>_. [0, 0]) s" using run_reach [OF reach_init] by blast
  with s(2,3) strict_serializable [of "\<lambda>_. [0, 0]" s] show ?thesis by (intro exI [of _ s]) simp
qed

text \<open>A reader of object 6 while another thread is in the middle of writing back object 5.\<close>

definition mid_commit_schedule :: "action list" where
  "mid_commit_schedule = [Start 0, Start 1, LoadCheck 1 6, LoadAdd 1, StoreCheck 0 5, StoreCopy 0, StoreAdd 0,
     WriteField 0 5 1 1, CommitEnter 0] @ replicate 8 Commit"

theorem live_reads_are_consistent_witness:
  "\<exists>s. reach False (\<lambda>_. [0, 0]) s \<and> phase s = Writing 0 [] \<and> hp s 5 = [0, 1] \<and> clog s = []
     \<and> pcs s 1 = Body \<and> hp s 6 = replay (\<lambda>_. [0, 0]) (clog s) 6"
proof -
  have "\<exists>s. run False mid_commit_schedule (init_sys (\<lambda>_. [0, 0])) = Some s \<and> phase s = Writing 0 []
      \<and> hp s 5 = [0, 1] \<and> clog s = [] \<and> pcs s 1 = Body \<and> \<not> t_aborted (txs s 1) \<and> 6 \<in> set (t_reads (txs s 1))"
    by (simp add: mid_commit_schedule_def run_simps)
  then obtain s where s: "run False mid_commit_schedule (init_sys (\<lambda>_. [0, 0])) = Some s" "phase s = Writing 0 []"
    "hp s 5 = [0, 1]" "clog s = []" "pcs s 1 = Body" "\<not> t_aborted (txs s 1)" "6 \<in> set (t_reads (txs s 1))"
    by metis
  then have "reach False (\<lambda>_. [0, 0]) s" using run_reach [OF reach_init] by blast
  with s live_reads_are_consistent [of False "\<lambda>_. [0, 0]" s 1 6] show ?thesis by blast
qed

text \<open>
  Thread 0 makes its private copy of object 5, thread 1 then writes field 1 of object 5 and commits,
  and only now thread 0 registers its copy, writes field 0 and commits.
\<close>

definition lost_update_schedule :: "action list" where
  "lost_update_schedule = [Start 0, Start 1, StoreCheck 0 5, StoreCopy 0,
     StoreCheck 1 5, StoreCopy 1, StoreAdd 1, WriteField 1 5 1 1, CommitEnter 1] @ replicate 12 Commit
     @ [StoreAdd 0, WriteField 0 5 0 1, CommitEnter 0] @ replicate 9 Commit"

text \<open>
  C3. A committed update can be lost.  \<open>RedirectStore\<close> creates the private copy before it takes
  \<open>mutex_\<close> and registers the object, so a transaction can copy an object, miss a commit that changes
  it, and overwrite that commit with its stale copy: there is a schedule of two transactions that
  both commit, one setting field 0 and the other field 1 of the same object, after which only field
  0 is set, although the second to commit never sees the first one's update.
\<close>

theorem lost_update_reachable:
  "\<exists>s. reach False (\<lambda>_. [0, 0]) s \<and> phase s = NoCommit \<and> listed s = []
     \<and> map c_writes (clog s) = [[(5, [0, 1])], [(5, [1, 0])]] \<and> hp s 5 = [1, 0]
     \<and> \<not> serial_log True (\<lambda>_. [0, 0]) (clog s)"
proof -
  have "\<exists>s. run False lost_update_schedule (init_sys (\<lambda>_. [0, 0])) = Some s \<and> phase s = NoCommit \<and> listed s = []
     \<and> map c_writes (clog s) = [[(5, [0, 1])], [(5, [1, 0])]] \<and> hp s 5 = [1, 0]
     \<and> map c_bases (clog s) = [[(5, [0, 0])], [(5, [0, 0])]]"
    by (simp add: lost_update_schedule_def run_simps)
  then obtain s where s: "run False lost_update_schedule (init_sys (\<lambda>_. [0, 0])) = Some s" "phase s = NoCommit"
    "listed s = []" "map c_writes (clog s) = [[(5, [0, 1])], [(5, [1, 0])]]" "hp s 5 = [1, 0]"
    "map c_bases (clog s) = [[(5, [0, 0])], [(5, [0, 0])]]" by metis
  obtain r q where rq: "clog s = [r, q]" "c_writes r = [(5, [0, 1])]" "c_bases q = [(5, [0, 0])]"
    using s(4,6) by (auto simp: map_eq_Cons_conv)
  have "\<not> serial_log True (\<lambda>_. [0, 0]) (clog s)"
  proof
    assume "serial_log True (\<lambda>_. [0, 0]) (clog s)"
    then have "bases_ok (replay (\<lambda>_. [0, 0]) (take 1 (clog s))) (c_bases (clog s ! 1))"
      unfolding serial_log_def using rq(1) by (metis (no_types) length_Cons lessI list.size(3) One_nat_def)
    then show False using rq by (simp add: replay_def put_def bases_ok_def)
  qed
  with s(2-5) run_reach [OF reach_init s(1)] show ?thesis by (intro exI [of _ s]) simp
qed

end
