(* ===== verification/Gc_Protocol.thy ===== *)
theory Gc_Protocol
  imports W16_Prelude
begin

text \<open>
  The stop-the-world protocol of \<^verbatim>\<open>src/stm.cc\<close>: allocation scopes, collection scopes, pausing, and the
  part of starting and committing a transaction that takes part in it.  Mutexes are the recursive
  pthread mutexes of \<^verbatim>\<open>src/platform-linux.cc\<close>.  Every access to a shared variable, mutex or
  semaphore is a step of its own; any number of threads interleave.
\<close>

section \<open>Recursive mutexes\<close>

text \<open>
  A mutex is free or has an owner and a count.  \<open>Lock\<close> returns \<open>None\<close> while it blocks; \<open>Unlock\<close> by
  a thread that is not the owner returns \<open>EPERM\<close>, which the callers ignore, and changes nothing.
\<close>

type_synonym mutex = "(thread_id \<times> nat) option"

fun Mutex_Lock :: "thread_id \<Rightarrow> mutex \<Rightarrow> mutex option" where
  "Mutex_Lock i None = Some (Some (i, 1))"
| "Mutex_Lock i (Some (j, n)) = (if i = j then Some (Some (i, Suc n)) else None)"

fun Mutex_Unlock :: "thread_id \<Rightarrow> mutex \<Rightarrow> mutex" where
  "Mutex_Unlock i None = None"
| "Mutex_Unlock i (Some (j, n)) =
     (if i = j then (if n \<le> 1 then None else Some (j, n - 1)) else Some (j, n))"

section \<open>Threads\<close>

text \<open>
  Where \<open>PauseForGC\<close> returns to: to \<open>EnterAllocationScope\<close>, or to \<open>EnterCollectionScope\<close>, which then
  returns \<open>false\<close>.  The flag tells whether the collection is nested into an allocation scope.
\<close>

datatype pause_return = ToAllocation | ToSkip bool

text \<open>
  The program points of a thread, each named after what it does next.  \<open>Running\<close> is JavaScript code
  inside a transaction, \<open>Allocating\<close> the body of an allocation scope, \<open>Collecting\<close> the collection
  itself and \<open>Committing\<close> the body of \<open>CommitTransaction\<close>.  The first flag of the points of a
  collection scope is as above; the second one of the points of \<open>LeaveCollectionScope\<close> is \<open>skip_\<close>.
\<close>

datatype gpc =
    Outside | StartLock | StartAdd
  | Running
  | PauseCheck pause_return | PauseReset pause_return | PauseUnlock pause_return
  | PauseWait pause_return | PauseLock pause_return
  | HeapLock | Allocating
  | EnterCas bool | LockList bool | LockOthers bool nat | Collecting bool
  | LeaveCas bool bool | LeaveLoop bool bool nat | LeaveSignal bool bool nat thread_id | LeaveList bool bool
  | CommitUnlockGC | CommitLock | CommitLockList | CommitLockGC | Committing | CommitRemove
  | CommitUnlockList | CommitUnlock

record gstate =
  need_gc :: nat
  heap_mutex :: mutex
  commit_mutex :: mutex
  list_mutex :: mutex
  gc_mutex :: "thread_id \<Rightarrow> mutex"
  done_gc :: "thread_id \<Rightarrow> nat option"
  txlist :: "thread_id list"
  gpcs :: "thread_id \<Rightarrow> gpc"

definition gc_init :: gstate where
  "gc_init = \<lparr>need_gc = 0, heap_mutex = None, commit_mutex = None, list_mutex = None,
     gc_mutex = (\<lambda>_. None), done_gc = (\<lambda>_. None), txlist = [], gpcs = (\<lambda>_. Outside)\<rparr>"

definition jump :: "thread_id \<Rightarrow> gpc \<Rightarrow> gstate \<Rightarrow> gstate" where
  "jump i p s = s\<lparr>gpcs := (gpcs s)(i := p)\<rparr>"

definition set_gc :: "thread_id \<Rightarrow> mutex \<Rightarrow> gstate \<Rightarrow> gstate" where
  "set_gc j m s = s\<lparr>gc_mutex := (gc_mutex s)(j := m)\<rparr>"

definition set_done :: "thread_id \<Rightarrow> nat option \<Rightarrow> gstate \<Rightarrow> gstate" where
  "set_done j d s = s\<lparr>done_gc := (done_gc s)(j := d)\<rparr>"

lemmas gstate_ops = jump_def set_gc_def set_done_def

text \<open>\<open>PauseForGC\<close>: a thread that finds the flag set gives up its GC lock and waits for the signal.\<close>

fun after_pause :: "pause_return \<Rightarrow> gpc" where
  "after_pause ToAllocation = HeapLock"
| "after_pause (ToSkip nested) = LeaveCas nested True"

fun PauseForGC :: "thread_id \<Rightarrow> gpc \<Rightarrow> gstate \<Rightarrow> gstate option" where
  "PauseForGC i (PauseCheck r) s =
     Some (jump i (if need_gc s = 0 then after_pause r else PauseReset r) s)"
| "PauseForGC i (PauseReset r) s = Some (jump i (PauseUnlock r) (set_done i (Some 0) s))"
| "PauseForGC i (PauseUnlock r) s =
     Some (jump i (PauseWait r) (set_gc i (Mutex_Unlock i (gc_mutex s i)) s))"
| "PauseForGC i (PauseWait r) s =
     (case done_gc s i of
        Some (Suc n) \<Rightarrow> Some (jump i (PauseLock r) (set_done i None s))
      | _ \<Rightarrow> None)"
| "PauseForGC i (PauseLock r) s =
     (case Mutex_Lock i (gc_mutex s i) of
        None \<Rightarrow> None
      | Some m \<Rightarrow> Some (jump i (after_pause r) (set_gc i m s)))"
| "PauseForGC i _ s = None"

text \<open>\<open>EnterAllocationScope\<close> (after its pause) and \<open>LeaveAllocationScope\<close>.\<close>

definition EnterAllocationScope :: "thread_id \<Rightarrow> gstate \<Rightarrow> gstate option" where
  "EnterAllocationScope i s =
     (case Mutex_Lock i (heap_mutex s) of
        None \<Rightarrow> None
      | Some m \<Rightarrow> Some (jump i Allocating (s\<lparr>heap_mutex := m\<rparr>)))"

definition LeaveAllocationScope :: "thread_id \<Rightarrow> gstate \<Rightarrow> gstate" where
  "LeaveAllocationScope i s = jump i Running (s\<lparr>heap_mutex := Mutex_Unlock i (heap_mutex s)\<rparr>)"

text \<open>
  \<open>EnterCollectionScope\<close>: the thread that sets the flag goes on to stop the others, every other one
  pauses and skips.
\<close>

fun EnterCollectionScope :: "thread_id \<Rightarrow> gpc \<Rightarrow> gstate \<Rightarrow> gstate option" where
  "EnterCollectionScope i (EnterCas nested) s =
     (if need_gc s = 0 then Some (jump i (LockList nested) (s\<lparr>need_gc := 1\<rparr>))
      else Some (jump i (PauseCheck (ToSkip nested)) s))"
| "EnterCollectionScope i (LockList nested) s =
     (case Mutex_Lock i (list_mutex s) of
        None \<Rightarrow> None
      | Some m \<Rightarrow> Some (jump i (LockOthers nested 0) (s\<lparr>list_mutex := m\<rparr>)))"
| "EnterCollectionScope i (LockOthers nested k) s =
     (if k < length (txlist s) then
        (let j = txlist s ! k in
         if j = i then Some (jump i (LockOthers nested (Suc k)) s)
         else case Mutex_Lock i (gc_mutex s j) of
           None \<Rightarrow> None
         | Some m \<Rightarrow> Some (jump i (LockOthers nested (Suc k)) (set_gc j m s)))
      else Some (jump i (Collecting nested) s))"
| "EnterCollectionScope i _ s = None"

text \<open>
  \<open>LeaveCollectionScope\<close>, run by the destructor of every collection scope, a skipped one included.
\<close>

fun LeaveCollectionScope :: "thread_id \<Rightarrow> gpc \<Rightarrow> gstate \<Rightarrow> gstate option" where
  "LeaveCollectionScope i (LeaveCas nested skip) s =
     Some (jump i (LeaveLoop nested skip 0) (s\<lparr>need_gc := (if need_gc s = 1 then 0 else need_gc s)\<rparr>))"
| "LeaveCollectionScope i (LeaveLoop nested skip k) s =
     (if k < length (txlist s) then
        (let j = txlist s ! k in
         if j = i then Some (jump i (LeaveLoop nested skip (Suc k)) s)
         else Some (jump i (LeaveSignal nested skip k j) (set_gc j (Mutex_Unlock i (gc_mutex s j)) s)))
      else Some (jump i (LeaveList nested skip) s))"
| "LeaveCollectionScope i (LeaveSignal nested skip k j) s =
     Some (jump i (LeaveLoop nested skip (Suc k)) (set_done j (map_option Suc (done_gc s j)) s))"
| "LeaveCollectionScope i (LeaveList nested skip) s =
     Some (jump i (if nested then Allocating else Running) (s\<lparr>list_mutex := Mutex_Unlock i (list_mutex s)\<rparr>))"
| "LeaveCollectionScope i _ s = None"

text \<open>The locking of \<open>StartTransaction\<close> (the constructor takes the GC lock) and \<open>CommitTransaction\<close>.\<close>

fun StartTransaction_locks :: "thread_id \<Rightarrow> gpc \<Rightarrow> gstate \<Rightarrow> gstate option" where
  "StartTransaction_locks i Outside s =
     Some (jump i StartLock (set_done i None (set_gc i (Some (i, 1)) s)))"
| "StartTransaction_locks i StartLock s =
     (case Mutex_Lock i (list_mutex s) of
        None \<Rightarrow> None
      | Some m \<Rightarrow> Some (jump i StartAdd (s\<lparr>list_mutex := m\<rparr>)))"
| "StartTransaction_locks i StartAdd s =
     Some (jump i Running (s\<lparr>txlist := txlist s @ [i], list_mutex := Mutex_Unlock i (list_mutex s)\<rparr>))"
| "StartTransaction_locks i _ s = None"

fun CommitTransaction_locks :: "thread_id \<Rightarrow> gpc \<Rightarrow> gstate \<Rightarrow> gstate option" where
  "CommitTransaction_locks i CommitUnlockGC s =
     Some (jump i CommitLock (set_gc i (Mutex_Unlock i (gc_mutex s i)) s))"
| "CommitTransaction_locks i CommitLock s =
     (case Mutex_Lock i (commit_mutex s) of
        None \<Rightarrow> None
      | Some m \<Rightarrow> Some (jump i CommitLockList (s\<lparr>commit_mutex := m\<rparr>)))"
| "CommitTransaction_locks i CommitLockList s =
     (case Mutex_Lock i (list_mutex s) of
        None \<Rightarrow> None
      | Some m \<Rightarrow> Some (jump i CommitLockGC (s\<lparr>list_mutex := m\<rparr>)))"
| "CommitTransaction_locks i CommitLockGC s =
     (case Mutex_Lock i (gc_mutex s i) of
        None \<Rightarrow> None
      | Some m \<Rightarrow> Some (jump i Committing (set_gc i m s)))"
| "CommitTransaction_locks i Committing s = Some (jump i CommitRemove s)"
| "CommitTransaction_locks i CommitRemove s =
     Some (jump i CommitUnlockList (set_gc i None (set_done i None (s\<lparr>txlist := remove1 i (txlist s)\<rparr>))))"
| "CommitTransaction_locks i CommitUnlockList s =
     Some (jump i CommitUnlock (s\<lparr>list_mutex := Mutex_Unlock i (list_mutex s)\<rparr>))"
| "CommitTransaction_locks i CommitUnlock s =
     Some (jump i Outside (s\<lparr>commit_mutex := Mutex_Unlock i (commit_mutex s)\<rparr>))"
| "CommitTransaction_locks i _ s = None"

text \<open>
  One step of thread \<open>i\<close>.  What JavaScript code and the body of an allocation do next is up to
  the program: allocate, collect, or finish.
\<close>

datatype intent = Allocate | Collect | Finish

fun advance :: "thread_id \<Rightarrow> intent \<Rightarrow> gstate \<Rightarrow> gstate option" where
  "advance i w s =
     (case gpcs s i of
        Running \<Rightarrow> Some (jump i (case w of Allocate \<Rightarrow> PauseCheck ToAllocation | Collect \<Rightarrow> EnterCas False
                                   | Finish \<Rightarrow> CommitUnlockGC) s)
      | HeapLock \<Rightarrow> EnterAllocationScope i s
      | Allocating \<Rightarrow> (if w = Collect then Some (jump i (EnterCas True) s) else Some (LeaveAllocationScope i s))
      | Collecting nested \<Rightarrow> Some (jump i (LeaveCas nested False) s)
      | p \<Rightarrow> (case StartTransaction_locks i p s of Some s' \<Rightarrow> Some s'
          | None \<Rightarrow> (case PauseForGC i p s of Some s' \<Rightarrow> Some s'
          | None \<Rightarrow> (case EnterCollectionScope i p s of Some s' \<Rightarrow> Some s'
          | None \<Rightarrow> (case LeaveCollectionScope i p s of Some s' \<Rightarrow> Some s'
          | None \<Rightarrow> CommitTransaction_locks i p s)))))"

declare advance.simps [simp del]

text \<open>The states reachable by \<open>n\<close> threads.\<close>

inductive gstep :: "nat \<Rightarrow> gstate \<Rightarrow> gstate \<Rightarrow> bool" where
  "\<lbrakk>i < n; advance i w s = Some s'\<rbrakk> \<Longrightarrow> gstep n s s'"

inductive greach :: "nat \<Rightarrow> gstate \<Rightarrow> bool" where
  greach_init: "greach n gc_init"
| greach_step: "\<lbrakk>greach n s; gstep n s s'\<rbrakk> \<Longrightarrow> greach n s'"

section \<open>Who holds which lock\<close>

fun holds_own :: "gpc \<Rightarrow> bool" where
  "holds_own Outside = False"
| "holds_own (PauseWait r) = False"
| "holds_own (PauseLock r) = False"
| "holds_own CommitLock = False"
| "holds_own CommitLockList = False"
| "holds_own CommitLockGC = False"
| "holds_own CommitUnlockList = False"
| "holds_own CommitUnlock = False"
| "holds_own _ = True"

fun holds_other :: "gpc \<Rightarrow> thread_id list \<Rightarrow> thread_id set" where
  "holds_other (LockOthers a k) js = set (take k js)"
| "holds_other (Collecting a) js = set js"
| "holds_other (LeaveCas a False) js = set js"
| "holds_other (LeaveLoop a False k) js = set (drop k js)"
| "holds_other (LeaveSignal a False k j) js = set (drop (Suc k) js)"
| "holds_other _ js = {}"

fun holds_list :: "gpc \<Rightarrow> bool" where
  "holds_list StartAdd = True"
| "holds_list (LockOthers a k) = True"
| "holds_list (Collecting a) = True"
| "holds_list (LeaveCas a skip) = (\<not> skip)"
| "holds_list (LeaveLoop a skip k) = (\<not> skip)"
| "holds_list (LeaveSignal a skip k j) = (\<not> skip)"
| "holds_list (LeaveList a skip) = (\<not> skip)"
| "holds_list CommitLockGC = True"
| "holds_list Committing = True"
| "holds_list CommitRemove = True"
| "holds_list CommitUnlockList = True"
| "holds_list _ = False"

fun holds_commit :: "gpc \<Rightarrow> bool" where
  "holds_commit CommitLockList = True"
| "holds_commit CommitLockGC = True"
| "holds_commit Committing = True"
| "holds_commit CommitRemove = True"
| "holds_commit CommitUnlockList = True"
| "holds_commit CommitUnlock = True"
| "holds_commit _ = False"

fun pause_nested :: "pause_return \<Rightarrow> bool" where
  "pause_nested ToAllocation = False"
| "pause_nested (ToSkip nested) = nested"

fun holds_heap :: "gpc \<Rightarrow> bool" where
  "holds_heap Allocating = True"
| "holds_heap (PauseCheck r) = pause_nested r"
| "holds_heap (PauseReset r) = pause_nested r"
| "holds_heap (PauseUnlock r) = pause_nested r"
| "holds_heap (PauseWait r) = pause_nested r"
| "holds_heap (PauseLock r) = pause_nested r"
| "holds_heap (EnterCas a) = a"
| "holds_heap (LockList a) = a"
| "holds_heap (LockOthers a k) = a"
| "holds_heap (Collecting a) = a"
| "holds_heap (LeaveCas a skip) = a"
| "holds_heap (LeaveLoop a skip k) = a"
| "holds_heap (LeaveSignal a skip k j) = a"
| "holds_heap (LeaveList a skip) = a"
| "holds_heap _ = False"

fun in_list :: "gpc \<Rightarrow> bool" where
  "in_list Outside = False"
| "in_list StartLock = False"
| "in_list StartAdd = False"
| "in_list CommitUnlockList = False"
| "in_list CommitUnlock = False"
| "in_list _ = True"

text \<open>The owner of a mutex, with count one, is the only thread that satisfies \<open>Q\<close>.\<close>

fun held_by :: "(thread_id \<Rightarrow> bool) \<Rightarrow> mutex \<Rightarrow> bool" where
  "held_by Q None = (\<forall>i. \<not> Q i)"
| "held_by Q (Some (i, n)) = (n = 1 \<and> (\<forall>j. Q j \<longleftrightarrow> j = i))"

definition held :: "(gpc \<Rightarrow> bool) \<Rightarrow> (thread_id \<Rightarrow> gpc) \<Rightarrow> mutex \<Rightarrow> bool" where
  "held P p = held_by (\<lambda>i. P (p i))"

definition list_ok :: "gstate \<Rightarrow> bool" where
  "list_ok s \<longleftrightarrow> distinct (txlist s) \<and> (\<forall>i. i \<in> set (txlist s) \<longleftrightarrow> in_list (gpcs s i))"

definition holds_gc :: "gstate \<Rightarrow> thread_id \<Rightarrow> thread_id \<Rightarrow> bool" where
  "holds_gc s j i \<longleftrightarrow>
     (if i = j then holds_own (gpcs s j) else j \<in> holds_other (gpcs s i) (txlist s))"

definition gc_ok :: "gstate \<Rightarrow> bool" where
  "gc_ok s \<longleftrightarrow> (\<forall>j. held_by (holds_gc s j) (gc_mutex s j))"

definition mutexes_ok :: "gstate \<Rightarrow> bool" where
  "mutexes_ok s \<longleftrightarrow> held holds_list (gpcs s) (list_mutex s) \<and> held holds_commit (gpcs s) (commit_mutex s)
     \<and> held holds_heap (gpcs s) (heap_mutex s)"

definition gc_inv :: "gstate \<Rightarrow> bool" where
  "gc_inv s \<longleftrightarrow> mutexes_ok s \<and> list_ok s \<and> gc_ok s"

lemma Mutex_Lock_held:
  assumes "Mutex_Lock i m = Some m'" "held_by Q m" "\<not> Q i"
  shows "m' = Some (i, 1)" "\<not> Q j"
  using assms by (cases m; auto split: if_splits)+

lemma held_by_lock:
  assumes "Mutex_Lock i m = Some m'" "held_by Q m" "\<not> Q i" "\<And>j. Q' j \<longleftrightarrow> j = i \<or> Q j"
  shows "held_by Q' m'"
  using Mutex_Lock_held [OF assms(1-3)] assms(4) by simp

lemma held_by_unlock:
  assumes "held_by Q m" "\<And>j. Q' j \<longleftrightarrow> j \<noteq> i \<and> Q j"
  shows "held_by Q' (Mutex_Unlock i m)"
proof -
  have "Q' = (\<lambda>j. j \<noteq> i \<and> Q j)" using assms(2) by blast
  then show ?thesis using assms(1) by (cases m) auto
qed

lemma held_by_cong: "held_by Q m \<Longrightarrow> (\<And>j. Q' j \<longleftrightarrow> Q j) \<Longrightarrow> held_by Q' m"
  by presburger

lemma held_by_unique: "held_by Q m \<Longrightarrow> Q i \<Longrightarrow> Q j \<Longrightarrow> i = j"
  by (cases m) auto

lemma held_keep: "held P p m \<Longrightarrow> P q = P (p i) \<Longrightarrow> held P (p(i := q)) m"
  unfolding held_def by (erule held_by_cong) auto

lemma held_lock: "Mutex_Lock i m = Some m' \<Longrightarrow> held P p m \<Longrightarrow> \<not> P (p i) \<Longrightarrow> P q \<Longrightarrow> held P (p(i := q)) m'"
  unfolding held_def by (erule held_by_lock, assumption) auto

lemma held_unlock: "held P p m \<Longrightarrow> \<not> P q \<Longrightarrow> held P (p(i := q)) (Mutex_Unlock i m)"
  unfolding held_def by (erule held_by_unlock) auto

section \<open>The invariant\<close>

lemmas op_defs = gstate_ops EnterAllocationScope_def LeaveAllocationScope_def Let_def advance.simps
lemmas op_splits = option.splits if_splits intent.splits nat.splits

lemma after_pause_locks [simp]:
  "holds_own (after_pause r)" "holds_other (after_pause r) js = {}" "\<not> holds_list (after_pause r)"
  "\<not> holds_commit (after_pause r)" "holds_heap (after_pause r) = pause_nested r" "in_list (after_pause r)"
  by (cases r; simp)+

lemma mutexes_ok_step:
  assumes "advance i w s = Some s'" "mutexes_ok s"
  shows "mutexes_ok s'"
  using assms unfolding mutexes_ok_def
  by (cases "gpcs s i")
    (auto simp: op_defs held_keep held_lock held_unlock simp del: fun_upd_apply split: op_splits)

lemma list_ok_step:
  assumes "advance i w s = Some s'" "list_ok s"
  shows "list_ok s'"
  using assms
  by (cases "gpcs s i") (auto simp: op_defs list_ok_def split: op_splits)

text \<open>
  How a step of thread \<open>i\<close> from \<open>p\<close> to \<open>q\<close> keeps \<open>gc_ok\<close>: without touching a GC lock, locking or
  unlocking its own, or locking or unlocking the one of \<open>j\<close>.
\<close>

definition gc_agree :: "thread_id set \<Rightarrow> thread_id \<Rightarrow> gstate \<Rightarrow> gpc \<Rightarrow> bool" where
  "gc_agree K i s q \<longleftrightarrow> (\<forall>k. k \<notin> K \<longrightarrow> (if k = i then holds_own q = holds_own (gpcs s i)
     else k \<in> holds_other q (txlist s) \<longleftrightarrow> k \<in> holds_other (gpcs s i) (txlist s)))"

lemma holds_gc_same:
  assumes "gc_agree K i s q" "gpcs s' = (gpcs s)(i := q)" "txlist s' = txlist s" "k \<notin> K"
  shows "holds_gc s' k = holds_gc s k"
  using assms by (auto simp: holds_gc_def gc_agree_def fun_eq_iff split: if_splits)

lemma gc_ok_upd:
  assumes "gc_ok s" "gpcs s' = (gpcs s)(i := q)" "txlist s' = txlist s" "gc_mutex s' = (gc_mutex s)(j := m)"
    and "gc_agree {j} i s q" "held_by (holds_gc s' j) m"
  shows "gc_ok s'"
  unfolding gc_ok_def
proof
  fix k show "held_by (holds_gc s' k) (gc_mutex s' k)"
    using holds_gc_same [OF assms(5,2,3), of k] assms(1,4,6) by (cases "k = j") (auto simp: gc_ok_def)
qed

lemma gc_ok_keep:
  assumes "gc_ok s" "gpcs s' = (gpcs s)(i := q)" "txlist s' = txlist s" "gc_mutex s' = gc_mutex s"
    and "gc_agree {} i s q"
  shows "gc_ok s'"
  using holds_gc_same [OF assms(5,2,3)] assms(1,4) by (auto simp: gc_ok_def)

lemma holds_gc_others:
  assumes "gpcs s' = (gpcs s)(i := q)" "txlist s' = txlist s" "k \<noteq> i"
  shows "holds_gc s' j k = holds_gc s j k"
  using assms by (auto simp: holds_gc_def)

lemma gc_ok_lock:
  assumes "gc_ok s" "Mutex_Lock i (gc_mutex s j) = Some m" "\<not> holds_gc s j i"
    and "gpcs s' = (gpcs s)(i := q)" "txlist s' = txlist s" "gc_mutex s' = (gc_mutex s)(j := m)"
    and "gc_agree {j} i s q" "holds_gc s' j i"
  shows "gc_ok s'"
proof (rule gc_ok_upd [OF assms(1,4,5,6,7)])
  have "held_by (holds_gc s j) (gc_mutex s j)" using assms(1) by (simp add: gc_ok_def)
  moreover have "holds_gc s' j k \<longleftrightarrow> k = i \<or> holds_gc s j k" for k
    using holds_gc_others [OF assms(4,5)] assms(8) by (cases "k = i") auto
  ultimately show "held_by (holds_gc s' j) m" using assms(2,3) held_by_lock [of i "gc_mutex s j" m "holds_gc s j"] by blast
qed

lemma gc_ok_unlock:
  assumes "gc_ok s"
    and "gpcs s' = (gpcs s)(i := q)" "txlist s' = txlist s" "gc_mutex s' = (gc_mutex s)(j := Mutex_Unlock i (gc_mutex s j))"
    and "gc_agree {j} i s q" "\<not> holds_gc s' j i"
  shows "gc_ok s'"
proof (rule gc_ok_upd [OF assms(1-5)])
  have h: "held_by (holds_gc s j) (gc_mutex s j)" using assms(1) by (simp add: gc_ok_def)
  moreover have "holds_gc s' j k \<longleftrightarrow> k \<noteq> i \<and> holds_gc s j k" for k
    using holds_gc_others [OF assms(2,3)] assms(6) by (cases "k = i") auto
  ultimately show "held_by (holds_gc s' j) (Mutex_Unlock i (gc_mutex s j))" by (rule held_by_unlock)
qed

lemma holds_other_list: "k \<in> holds_other p js \<Longrightarrow> k \<in> set js \<and> holds_list p"
  by (cases "(p, js)" rule: holds_other.cases) (auto dest: in_set_takeD in_set_dropD)

text \<open>The holder of \<open>transactions_mutex_\<close> may change the list as long as it holds no other GC lock.\<close>

lemma gc_ok_list:
  assumes "gc_ok s" "mutexes_ok s" "holds_list (gpcs s i)" "holds_other (gpcs s i) (txlist s) = {}"
    and "gpcs s' = (gpcs s)(i := q)" "gc_mutex s' = (gc_mutex s)(i := m)"
    and "holds_other q (txlist s') = {}" "if holds_own q then m = Some (i, 1) else m = None"
  shows "gc_ok s'"
proof -
  have none: "holds_other (gpcs s k) js = {}" if "k \<noteq> i" for k js
    using held_by_unique [of "\<lambda>i. holds_list (gpcs s i)" "list_mutex s" k i] assms(2,3) that holds_other_list
    by (fastforce simp: mutexes_ok_def held_def)
  then have "holds_other (gpcs s k) (txlist s) = {}" for k using assms(4) by (cases "k = i") auto
  then have old: "holds_gc s j k \<longleftrightarrow> k = j \<and> holds_own (gpcs s j)" for j k by (auto simp: holds_gc_def)
  have new: "holds_gc s' j k \<longleftrightarrow> k = j \<and> holds_own (gpcs s' j)" for j k
    using none assms(5,7) by (auto simp: holds_gc_def)
  show ?thesis unfolding gc_ok_def
  proof
    fix j show "held_by (holds_gc s' j) (gc_mutex s' j)"
      using assms(1,5,6,8) old [of j] new [of j]
      by (cases "j = i") (auto simp: gc_ok_def split: if_splits elim!: held_by_cong dest!: spec [of _ j])
  qed
qed

lemma gc_ok_pause:
  assumes "gc_ok s" "PauseForGC i (gpcs s i) s = Some s'"
  shows "gc_ok s'"
proof (cases "gpcs s i")
  case (PauseUnlock r)
  with assms show ?thesis
    by (intro gc_ok_unlock [of s s' i "PauseWait r" i]) (auto simp: op_defs gc_agree_def holds_gc_def)
next
  case (PauseLock r)
  with assms obtain m where "Mutex_Lock i (gc_mutex s i) = Some m" by (auto split: option.splits)
  with PauseLock assms show ?thesis
    by (intro gc_ok_lock [of s i i m s' "after_pause r"]) (auto simp: op_defs gc_agree_def holds_gc_def)
qed (use assms in \<open>auto simp: op_defs gc_agree_def split: op_splits intro!: gc_ok_keep [OF assms(1)]\<close>)

lemma gc_ok_enter:
  assumes "gc_ok s" "list_ok s" "EnterCollectionScope i (gpcs s i) s = Some s'"
  shows "gc_ok s'"
proof (cases "gpcs s i")
  case (LockOthers a k)
  let ?j = "txlist s ! k"
  show ?thesis
  proof (cases "k < length (txlist s) \<and> ?j \<noteq> i")
    case True
    then have new: "set (take (Suc k) (txlist s)) = insert ?j (set (take k (txlist s)))"
      "?j \<notin> set (take k (txlist s))"
      using assms(2) distinct_take [of "txlist s" "Suc k"] by (auto simp: take_Suc_conv_app_nth list_ok_def)
    from True LockOthers assms(3) obtain m where m: "Mutex_Lock i (gc_mutex s ?j) = Some m"
      "s' = jump i (LockOthers a (Suc k)) (set_gc ?j m s)" by (auto simp: Let_def split: option.splits)
    then show ?thesis using assms(1) LockOthers True new
      by (intro gc_ok_lock [of s i ?j m s' "LockOthers a (Suc k)"]) (auto simp: op_defs gc_agree_def holds_gc_def)
  next
    case False
    then show ?thesis using assms(3) LockOthers
      by (auto simp: op_defs gc_agree_def take_Suc_conv_app_nth split: if_splits intro!: gc_ok_keep [OF assms(1)])
  qed
qed (use assms in \<open>auto simp: op_defs gc_agree_def split: op_splits intro!: gc_ok_keep [OF assms(1)]\<close>)

lemma gc_ok_leave:
  assumes "gc_ok s" "list_ok s" "LeaveCollectionScope i (gpcs s i) s = Some s'"
  shows "gc_ok s'"
proof (cases "gpcs s i")
  case (LeaveCas a skip)
  with assms show ?thesis
    by (cases skip) (auto simp: op_defs gc_agree_def split: op_splits intro!: gc_ok_keep [OF assms(1)])
next
  case (LeaveLoop a skip k)
  let ?j = "txlist s ! k"
  show ?thesis
  proof (cases "k < length (txlist s) \<and> ?j \<noteq> i")
    case True
    then have new: "drop k (txlist s) = ?j # drop (Suc k) (txlist s)" "?j \<notin> set (drop (Suc k) (txlist s))"
      using assms(2) distinct_drop [of "txlist s" k] by (auto simp: Cons_nth_drop_Suc [symmetric] list_ok_def)
    then show ?thesis using assms(1,3) LeaveLoop True
      by (intro gc_ok_unlock [of s s' i "LeaveSignal a skip k ?j" ?j])
        (cases skip; auto simp: op_defs gc_agree_def holds_gc_def)+
  next
    case False
    then show ?thesis using assms(3) LeaveLoop
      by (cases skip) (auto simp: op_defs gc_agree_def Cons_nth_drop_Suc [symmetric] split: if_splits
        intro!: gc_ok_keep [OF assms(1)])
  qed
next
  case (LeaveSignal a skip k j)
  with assms show ?thesis
    by (cases skip) (auto simp: op_defs gc_agree_def split: op_splits intro!: gc_ok_keep [OF assms(1)])
next
  case (LeaveList a skip)
  with assms show ?thesis
    by (cases skip) (auto simp: op_defs gc_agree_def split: op_splits intro!: gc_ok_keep [OF assms(1)])
qed (use assms in auto)

lemma gc_ok_start:
  assumes "gc_ok s" "list_ok s" "mutexes_ok s" "StartTransaction_locks i (gpcs s i) s = Some s'"
  shows "gc_ok s'"
proof (cases "gpcs s i")
  case Outside
  then have "i \<notin> set (txlist s)" using assms(2) by (auto simp: list_ok_def)
  then have "i \<notin> holds_other (gpcs s k) (txlist s)" for k using holds_other_list by blast
  with assms Outside show ?thesis
    by (intro gc_ok_upd [of s s' i StartLock i "Some (i, 1)"]) (auto simp: op_defs gc_agree_def holds_gc_def)
next
  case StartAdd
  have "held_by (holds_gc s i) (gc_mutex s i)" "holds_gc s i i"
    using assms(1) StartAdd by (auto simp: gc_ok_def holds_gc_def)
  then have "gc_mutex s i = Some (i, 1)" by (cases "gc_mutex s i") auto
  with assms StartAdd show ?thesis
    by (intro gc_ok_list [of s i s' Running "Some (i, 1)"]) (auto simp: op_defs)
qed (use assms in \<open>auto simp: op_defs gc_agree_def split: op_splits intro!: gc_ok_keep [OF assms(1)]\<close>)

lemma gc_ok_commit:
  assumes "gc_ok s" "mutexes_ok s" "CommitTransaction_locks i (gpcs s i) s = Some s'"
  shows "gc_ok s'"
proof (cases "gpcs s i")
  case CommitUnlockGC
  with assms show ?thesis
    by (intro gc_ok_unlock [of s s' i CommitLock i]) (auto simp: op_defs gc_agree_def holds_gc_def)
next
  case CommitLockGC
  with assms obtain m where "Mutex_Lock i (gc_mutex s i) = Some m" by (auto split: option.splits)
  with CommitLockGC assms show ?thesis
    by (intro gc_ok_lock [of s i i m s' Committing]) (auto simp: op_defs gc_agree_def holds_gc_def)
next
  case CommitRemove
  with assms show ?thesis
    by (intro gc_ok_list [of s i s' CommitUnlockList None]) (auto simp: op_defs)
qed (use assms in \<open>auto simp: op_defs gc_agree_def split: op_splits intro!: gc_ok_keep [OF assms(1)]\<close>)

lemma gc_ok_step:
  assumes "advance i w s = Some s'" "gc_ok s" "list_ok s" "mutexes_ok s"
  shows "gc_ok s'"
proof -
  consider "StartTransaction_locks i (gpcs s i) s = Some s'" | "PauseForGC i (gpcs s i) s = Some s'"
    | "EnterCollectionScope i (gpcs s i) s = Some s'" | "LeaveCollectionScope i (gpcs s i) s = Some s'"
    | "CommitTransaction_locks i (gpcs s i) s = Some s'"
    | "gpcs s i \<in> {Running, HeapLock, Allocating, Collecting True, Collecting False}"
    using assms(1) by (cases "gpcs s i") (auto simp: advance.simps split: option.splits)
  then show ?thesis
  proof cases
    case 6
    with assms(1) show ?thesis
      by (auto simp: op_defs gc_agree_def split: op_splits intro!: gc_ok_keep [OF assms(2)])
  qed (use assms gc_ok_start gc_ok_pause gc_ok_enter gc_ok_leave gc_ok_commit in blast)+
qed

lemma greach_inv: "greach n s \<Longrightarrow> gc_inv s"
proof (induction rule: greach.induct)
  case (greach_init n)
  show ?case
    by (simp add: gc_inv_def gc_init_def mutexes_ok_def held_def list_ok_def gc_ok_def holds_gc_def)
next
  case (greach_step n s s')
  then show ?case
    by (auto simp: gc_inv_def elim!: gstep.cases
      intro: gc_ok_step list_ok_step mutexes_ok_step)
qed

section \<open>Safety\<close>

text \<open>
  The program points at which a thread touches neither the heap nor the transaction list: outside
  a transaction, before its transaction is listed, paused, or blocked at the start or after the
  end of a commit.
\<close>

fun safe_point :: "gpc \<Rightarrow> bool" where
  "safe_point Outside = True"
| "safe_point StartLock = True"
| "safe_point (PauseWait r) = True"
| "safe_point (PauseLock r) = True"
| "safe_point CommitLock = True"
| "safe_point CommitLockList = True"
| "safe_point CommitUnlock = True"
| "safe_point _ = False"

lemma safe_point_iff: "safe_point p \<longleftrightarrow> \<not> (holds_own p \<and> in_list p) \<and> \<not> holds_list p"
  by (cases p) auto

lemma collection_safe:
  assumes "greach n s" "gpcs s i = Collecting nested" "j \<noteq> i"
  shows "safe_point (gpcs s j)"
proof -
  have inv: "mutexes_ok s" "list_ok s" "gc_ok s" using greach_inv [OF assms(1)] by (auto simp: gc_inv_def)
  have "\<not> holds_list (gpcs s j)"
    using held_by_unique [of "\<lambda>i. holds_list (gpcs s i)" "list_mutex s" i j] inv(1) assms(2,3)
    by (auto simp: mutexes_ok_def held_def)
  moreover have "\<not> (holds_own (gpcs s j) \<and> in_list (gpcs s j))"
    using held_by_unique [of "holds_gc s j" "gc_mutex s j" i j] inv(2,3) assms(2,3)
    by (auto simp: gc_ok_def list_ok_def holds_gc_def)
  ultimately show ?thesis by (simp add: safe_point_iff)
qed

text \<open>
  C5. The world is stopped during a collection: while one thread collects, every other thread is at
  a safe point, in particular it neither runs JavaScript code, nor allocates, nor writes a
  transaction back, nor collects; this holds for any number of threads and any interleaving, even
  though a skipped collection scope also runs \<open>LeaveCollectionScope\<close>.
\<close>

theorem collection_stops_the_world:
  assumes "greach n s" "gpcs s i = Collecting nested" "j \<noteq> i"
  shows "safe_point (gpcs s j)"
  using assms by (rule collection_safe)

text \<open>
  C40. Heap modifications are mutually exclusive: at most one thread is in the body of an allocation
  scope or inside a collection.
\<close>

theorem heap_modifications_exclusive:
  assumes "greach n s" "i \<noteq> j" "gpcs s i = Allocating \<or> (\<exists>a. gpcs s i = Collecting a)"
  shows "gpcs s j \<noteq> Allocating \<and> gpcs s j \<noteq> Collecting a"
proof -
  have "\<not> (gpcs s i = Allocating \<and> gpcs s j = Allocating)"
    using held_by_unique [of "\<lambda>i. holds_heap (gpcs s i)" "heap_mutex s" i j] greach_inv [OF assms(1)] assms(2)
    by (auto simp: gc_inv_def mutexes_ok_def held_def)
  then show ?thesis using collection_safe [OF assms(1), of i _ j] collection_safe [OF assms(1), of j _ i] assms(2,3)
    by fastforce
qed

section \<open>No lost wake-up\<close>

text \<open>Collectors that will still lock, respectively signal, thread \<open>j\<close>.\<close>

fun will_lock :: "gpc \<Rightarrow> bool" where
  "will_lock (LockList a) = True"
| "will_lock (LockOthers a k) = True"
| "will_lock _ = False"

fun will_signal :: "gpc \<Rightarrow> thread_id list \<Rightarrow> thread_id \<Rightarrow> bool" where
  "will_signal (LockList a) js j = True"
| "will_signal (LockOthers a k) js j = True"
| "will_signal (Collecting a) js j = True"
| "will_signal (LeaveCas a skip) js j = (\<not> skip)"
| "will_signal (LeaveLoop a skip k) js j = (\<not> skip \<and> j \<in> set (drop k js))"
| "will_signal (LeaveSignal a skip k l) js j = (\<not> skip \<and> (j = l \<or> j \<in> set (drop (Suc k) js)))"
| "will_signal _ js j = False"

fun before_leave :: "gpc \<Rightarrow> bool" where
  "before_leave (LockList a) = True"
| "before_leave (LockOthers a k) = True"
| "before_leave (Collecting a) = True"
| "before_leave (LeaveCas a skip) = (\<not> skip)"
| "before_leave _ = False"

definition need_ok :: "gstate \<Rightarrow> bool" where
  "need_ok s \<longleftrightarrow> need_gc s \<le> 1 \<and> (need_gc s = 1 \<longrightarrow> (\<exists>i. before_leave (gpcs s i)))"

definition pausing_ok :: "gstate \<Rightarrow> bool" where
  "pausing_ok s \<longleftrightarrow> (\<forall>j r. gpcs s j \<in> {PauseReset r, PauseUnlock r} \<longrightarrow> (\<exists>i. will_lock (gpcs s i)))"

definition waiting_ok :: "gstate \<Rightarrow> bool" where
  "waiting_ok s \<longleftrightarrow> (\<forall>j r. (gpcs s j = PauseUnlock r \<longrightarrow> done_gc s j \<noteq> None)
     \<and> (gpcs s j = PauseWait r \<longrightarrow> done_gc s j \<noteq> None
        \<and> (done_gc s j = Some 0 \<longrightarrow> (\<exists>i. will_signal (gpcs s i) (txlist s) j))))"

lemma need_ok_step:
  assumes "advance i w s = Some s'" "need_ok s"
  shows "need_ok s'"
proof -
  have keep: "\<exists>k. before_leave (((gpcs s)(i := q)) k)" if "before_leave q \<or> \<not> before_leave (gpcs s i)" "need_gc s = 1" for q
    using assms(2) that by (auto simp: need_ok_def)
  have new: "\<exists>k. before_leave (((gpcs s)(i := q)) k)" if "before_leave q" for q
    using that by (intro exI [of _ i]) simp
  show ?thesis
    using assms keep new unfolding need_ok_def
    by (cases "gpcs s i") (auto simp: op_defs simp del: fun_upd_apply split: op_splits)
qed

text \<open>While a listed thread holds its own GC lock, no collector gets past it.\<close>

lemma not_past:
  assumes "gc_ok s" "list_ok s" "holds_own (gpcs s j)" "in_list (gpcs s j)" "k \<noteq> j"
  shows "gpcs s k \<noteq> Collecting a" "gpcs s k \<noteq> LeaveCas a False" "gpcs s k = LockOthers a m \<Longrightarrow> m < length (txlist s)"
proof -
  have "j \<notin> holds_other (gpcs s k) (txlist s)"
    using held_by_unique [of "holds_gc s j" "gc_mutex s j" k j] assms(1,3,5) by (auto simp: gc_ok_def holds_gc_def)
  moreover have "j \<in> set (txlist s)" using assms(2,4) by (simp add: list_ok_def)
  ultimately show "gpcs s k \<noteq> Collecting a" "gpcs s k \<noteq> LeaveCas a False"
    "gpcs s k = LockOthers a m \<Longrightarrow> m < length (txlist s)"
    by (auto, metis not_less take_all)
qed

lemma before_leave_split:
  "before_leave p \<Longrightarrow> will_lock p \<or> (\<exists>a. p = Collecting a) \<or> (\<exists>a. p = LeaveCas a False)"
  by (cases p) auto

lemma will_lock_step:
  assumes "advance i w s = Some s'" "will_lock (gpcs s k)" "gc_ok s" "list_ok s"
    and "holds_own (gpcs s j)" "in_list (gpcs s j)" "k \<noteq> j"
  shows "will_lock (gpcs s' k)"
  using assms(1,2) not_past [OF assms(3-7)]
  by (cases "gpcs s i") (auto simp: op_defs split: op_splits)

lemma advance_pausing:
  assumes "advance i w s = Some s'" "gpcs s' j \<in> {PauseReset r, PauseUnlock r}"
  shows "gpcs s j \<in> {PauseReset r, PauseUnlock r} \<or> (gpcs s j = PauseCheck r \<and> need_gc s \<noteq> 0)"
  using assms
  by (cases "gpcs s i"; cases r) (auto simp: op_defs split: op_splits elim!: after_pause.elims)

lemma pausing_ok_step:
  assumes step: "advance i w s = Some s'" and inv: "pausing_ok s" "need_ok s" "gc_ok s" "list_ok s"
  shows "pausing_ok s'"
  unfolding pausing_ok_def
proof (intro allI impI)
  fix j r assume "gpcs s' j \<in> {PauseReset r, PauseUnlock r}"
  then have j: "gpcs s j \<in> {PauseReset r, PauseUnlock r} \<or> (gpcs s j = PauseCheck r \<and> need_gc s \<noteq> 0)"
    by (rule advance_pausing [OF step])
  then have own: "holds_own (gpcs s j)" "in_list (gpcs s j)" by auto
  have "\<exists>k. before_leave (gpcs s k) \<and> k \<noteq> j"
    using j inv(1,2) unfolding pausing_ok_def need_ok_def
    by (metis (no_types) before_leave.simps empty_iff insert_iff le_neq_implies_less less_one will_lock.elims(2))
  then obtain k where k: "before_leave (gpcs s k)" "k \<noteq> j" by blast
  then have "will_lock (gpcs s k)"
    using before_leave_split [OF k(1)] not_past [OF inv(3,4) own k(2)] by blast
  then show "\<exists>k. will_lock (gpcs s' k)" using will_lock_step [OF step _ inv(3,4) own k(2)] by blast
qed

lemma advance_done:
  assumes "advance i w s = Some s'" "i \<noteq> j"
  shows "done_gc s' j = done_gc s j \<or> done_gc s' j = map_option Suc (done_gc s j)" "gpcs s' j = gpcs s j"
  using assms by (cases "gpcs s i"; auto simp: op_defs split: op_splits)+

lemma advance_list:
  assumes "advance i w s = Some s'" "txlist s' \<noteq> txlist s"
  shows "holds_list (gpcs s i)"
  using assms by (cases "gpcs s i") (auto simp: op_defs split: op_splits)

lemma will_signal_list: "will_signal p js j \<Longrightarrow> holds_list p \<or> (\<forall>ks. will_signal p ks j)"
  by (cases p) auto

lemma will_signal_self:
  assumes "advance k w s = Some s'" "will_signal (gpcs s k) (txlist s) j" "j \<in> set (txlist s)" "k \<noteq> j"
  shows "will_signal (gpcs s' k) (txlist s') j \<or> done_gc s' j = map_option Suc (done_gc s j)"
  using assms
  by (cases "gpcs s k") (auto simp: op_defs Cons_nth_drop_Suc [symmetric] split: op_splits)

lemma will_signal_step:
  assumes "advance i w s = Some s'" "will_signal (gpcs s k) (txlist s) j" "mutexes_ok s"
    and "j \<in> set (txlist s)" "k \<noteq> j"
  shows "will_signal (gpcs s' k) (txlist s') j \<or> done_gc s' j = map_option Suc (done_gc s j)"
proof (cases "i = k")
  case True then show ?thesis using will_signal_self assms by blast
next
  case False
  then have "txlist s' = txlist s \<or> \<not> holds_list (gpcs s k)"
    using advance_list [OF assms(1)] held_by_unique [of "\<lambda>i. holds_list (gpcs s i)" "list_mutex s" i k] assms(3)
    by (auto simp: mutexes_ok_def held_def)
  then show ?thesis using will_signal_list [OF assms(2)] assms(2) advance_done(2) [OF assms(1) False] by auto
qed

lemma advance_waiting:
  assumes "advance j w s = Some s'" "gpcs s' j = PauseWait r"
  shows "gpcs s j = PauseUnlock r \<and> done_gc s' = done_gc s \<and> txlist s' = txlist s"
  using assms by (cases "gpcs s j") (auto simp: op_defs split: op_splits elim!: after_pause.elims)

lemma advance_reset:
  assumes "advance j w s = Some s'" "gpcs s' j = PauseUnlock r"
  shows "done_gc s' j = Some 0"
  using assms by (cases "gpcs s j") (auto simp: op_defs split: op_splits elim!: after_pause.elims)

lemma will_lock_signal: "will_lock p \<Longrightarrow> will_signal p js j"
  by (cases p) auto

lemma waiting_ok_self:
  assumes "advance j w s = Some s'" "waiting_ok s" "pausing_ok s" "gpcs s' j = PauseWait r"
  shows "done_gc s' j \<noteq> None \<and> (\<exists>i. will_signal (gpcs s' i) (txlist s') j)"
proof -
  have j: "gpcs s j = PauseUnlock r" "done_gc s' = done_gc s" using advance_waiting [OF assms(1,4)] by auto
  then obtain k where k: "will_lock (gpcs s k)" using assms(3) unfolding pausing_ok_def by blast
  moreover have "k \<noteq> j" using k j(1) by auto
  ultimately have "will_lock (gpcs s' k)" using advance_done(2) [OF assms(1)] by simp
  then show ?thesis using j assms(2) will_lock_signal unfolding waiting_ok_def by metis
qed

lemma waiting_ok_other:
  assumes "advance i w s = Some s'" "i \<noteq> j" "waiting_ok s" "mutexes_ok s" "list_ok s" "gpcs s j = PauseWait r"
  shows "done_gc s' j \<noteq> None \<and> (done_gc s' j = Some 0 \<longrightarrow> (\<exists>k. will_signal (gpcs s' k) (txlist s') j))"
proof (cases "done_gc s' j = Some 0")
  case False
  then show ?thesis using advance_done(1) [OF assms(1,2)] assms(3,6) by (auto simp: waiting_ok_def)
next
  case True
  then have "done_gc s j = Some 0" using advance_done(1) [OF assms(1,2)] by (cases "done_gc s j") auto
  then obtain k where k: "will_signal (gpcs s k) (txlist s) j" using assms(3,6) by (auto simp: waiting_ok_def)
  have "k \<noteq> j" using k assms(6) by auto
  moreover have "j \<in> set (txlist s)" using assms(5,6) by (simp add: list_ok_def)
  ultimately show ?thesis using will_signal_step [OF assms(1) k assms(4)] True \<open>done_gc s j = Some 0\<close> by auto
qed

lemma waiting_ok_step:
  assumes "advance i w s = Some s'" "waiting_ok s" "pausing_ok s" "mutexes_ok s" "list_ok s"
  shows "waiting_ok s'"
  unfolding waiting_ok_def
proof (intro allI conjI impI)
  fix j r
  have old: "gpcs s j = PauseUnlock r \<Longrightarrow> done_gc s j \<noteq> None" using assms(2) by (simp add: waiting_ok_def)
  show "done_gc s' j \<noteq> None" if "gpcs s' j = PauseUnlock r"
    using that old advance_reset [of j w s s' r] advance_done [of i w s s' j] assms(1)
    by (cases "i = j") auto
  show "done_gc s' j \<noteq> None" if "gpcs s' j = PauseWait r"
    using that waiting_ok_self waiting_ok_other assms advance_done(2) by (cases "i = j") metis+
  show "\<exists>i. will_signal (gpcs s' i) (txlist s') j" if "gpcs s' j = PauseWait r" "done_gc s' j = Some 0"
    using that waiting_ok_self waiting_ok_other assms advance_done(2) by (cases "i = j") metis+
qed

lemma greach_waiting: "greach n s \<Longrightarrow> need_ok s \<and> pausing_ok s \<and> waiting_ok s"
proof (induction rule: greach.induct)
  case (greach_init n)
  show ?case by (simp add: gc_init_def need_ok_def pausing_ok_def waiting_ok_def)
next
  case (greach_step n s s')
  have "mutexes_ok s" "list_ok s" "gc_ok s"
    using greach_inv [OF greach_step.hyps(1)] by (auto simp: gc_inv_def)
  with greach_step show ?case
    by (auto elim!: gstep.cases
      intro: need_ok_step pausing_ok_step waiting_ok_step)
qed

text \<open>
  C14. No wake-up is lost: a thread that waits for the end of a collection has either been signalled
  already, or there is a collecting thread that has not signalled it yet and will do so when it
  leaves the collection scope; the semaphore it waits on exists.
\<close>

theorem pause_is_signalled:
  assumes "greach n s" "gpcs s j = PauseWait r"
  shows "\<exists>m. done_gc s j = Some m \<and> (m = 0 \<longrightarrow> (\<exists>i. i \<noteq> j \<and> will_signal (gpcs s i) (txlist s) j))"
proof -
  have "waiting_ok s" using greach_waiting [OF assms(1)] by blast
  moreover have "\<not> will_signal (gpcs s j) (txlist s) j" using assms(2) by simp
  ultimately show ?thesis using assms(2) unfolding waiting_ok_def by (metis not_None_eq)
qed

section \<open>Schedules\<close>

fun grun :: "(thread_id \<times> intent) list \<Rightarrow> gstate \<Rightarrow> gstate option" where
  "grun [] s = Some s"
| "grun ((i, w) # xs) s = (case advance i w s of None \<Rightarrow> None | Some s' \<Rightarrow> grun xs s')"

lemma grun_reach:
  "grun xs s = Some s' \<Longrightarrow> greach n s \<Longrightarrow> (\<forall>(i, w) \<in> set xs. i < n) \<Longrightarrow> greach n s'"
  by (induction xs s rule: grun.induct) (auto split: option.splits intro: greach_step gstep.intros)

lemmas grun_simps = gc_init_def op_defs

definition start_two :: "(thread_id \<times> intent) list" where
  "start_two = [(0, Finish), (0, Finish), (0, Finish), (1, Finish), (1, Finish), (1, Finish)]"

text \<open>Thread 0 collects while thread 1, which also wanted to collect, is paused.\<close>

definition collect_schedule :: "(thread_id \<times> intent) list" where
  "collect_schedule = start_two @ [(0, Collect), (0, Collect), (1, Collect), (1, Collect), (1, Collect),
     (1, Collect), (1, Collect), (0, Collect), (0, Collect), (0, Collect), (0, Collect)]"

lemma collect_schedule_runs:
  obtains s where "greach 2 s" "gpcs s 0 = Collecting False" "gpcs s 1 = PauseWait (ToSkip False)"
    "done_gc s 1 = Some 0"
proof -
  have "\<exists>s. grun collect_schedule gc_init = Some s \<and> gpcs s 0 = Collecting False
      \<and> gpcs s 1 = PauseWait (ToSkip False) \<and> done_gc s 1 = Some 0"
    by (simp add: collect_schedule_def start_two_def grun_simps)
  moreover have "\<forall>(i, w) \<in> set collect_schedule. i < 2" by (simp add: collect_schedule_def start_two_def)
  ultimately show ?thesis using that grun_reach greach_init by metis
qed

theorem collection_stops_the_world_witness:
  "\<exists>s. greach 2 s \<and> gpcs s 0 = Collecting False \<and> safe_point (gpcs s 1)"
proof -
  obtain s where "greach 2 s" "gpcs s 0 = Collecting False" by (rule collect_schedule_runs)
  then show ?thesis using collection_stops_the_world [of 2 s 0 False 1] by auto
qed

theorem heap_modifications_exclusive_witness:
  "\<exists>s. greach 2 s \<and> gpcs s 0 = Collecting False \<and> gpcs s 1 \<noteq> Allocating"
proof -
  obtain s where "greach 2 s" "gpcs s 0 = Collecting False" by (rule collect_schedule_runs)
  then show ?thesis using heap_modifications_exclusive [of 2 s 0 1] by auto
qed

theorem pause_is_signalled_witness:
  "\<exists>s. greach 2 s \<and> gpcs s 1 = PauseWait (ToSkip False) \<and> done_gc s 1 = Some 0
     \<and> (\<exists>i. i \<noteq> 1 \<and> will_signal (gpcs s i) (txlist s) 1)"
proof -
  obtain s where "greach 2 s" "gpcs s 1 = PauseWait (ToSkip False)" "done_gc s 1 = Some 0"
    by (rule collect_schedule_runs)
  then show ?thesis using pause_is_signalled [of 2 s 1 "ToSkip False"] by auto
qed

text \<open>
  Thread 1 passes the pause of \<open>EnterAllocationScope\<close> and is preempted before it takes
  \<open>heap_mutex_\<close>; thread 0 enters an allocation scope, runs out of memory and starts to collect.
\<close>

definition deadlock_schedule :: "(thread_id \<times> intent) list" where
  "deadlock_schedule = start_two @ [(1, Allocate), (1, Allocate), (0, Allocate), (0, Allocate), (0, Allocate),
     (0, Collect), (0, Collect), (0, Collect), (0, Collect)]"

text \<open>
  C9. The protocol can deadlock.  \<open>CALL_AND_RETRY\<close> collects inside an allocation scope, that is,
  while it holds \<open>heap_mutex_\<close>, and the collector then waits for the GC lock of each other
  transaction; a thread that has passed the check of \<open>need_gc_\<close> in \<open>EnterAllocationScope\<close> holds its
  GC lock while it waits for \<open>heap_mutex_\<close>.  With two threads there is a reachable state in which
  neither can take a step.
\<close>

theorem nested_collection_deadlock:
  "\<exists>s. greach 2 s \<and> gpcs s 0 = LockOthers True 1 \<and> gpcs s 1 = HeapLock \<and> (\<forall>s'. \<not> gstep 2 s s')"
proof -
  have "\<exists>s. grun deadlock_schedule gc_init = Some s \<and> gpcs s 0 = LockOthers True 1 \<and> gpcs s 1 = HeapLock
      \<and> heap_mutex s = Some (0, 1) \<and> gc_mutex s 1 = Some (1, 1) \<and> txlist s = [0, 1]"
    by (simp add: deadlock_schedule_def start_two_def grun_simps)
  then obtain s where s: "grun deadlock_schedule gc_init = Some s" "gpcs s 0 = LockOthers True 1"
    "gpcs s 1 = HeapLock" "heap_mutex s = Some (0, 1)" "gc_mutex s 1 = Some (1, 1)" "txlist s = [0, 1]"
    by blast
  have "advance i w s = None" if "i < 2" for i w
    using s that by (auto simp: less_Suc_eq numeral_2_eq_2 op_defs)
  moreover have "\<forall>(i, w) \<in> set deadlock_schedule. i < 2" by (simp add: deadlock_schedule_def start_two_def)
  then have "greach 2 s" using grun_reach [OF s(1) greach_init] by blast
  ultimately show ?thesis using s(2,3) by (intro exI [of _ s]) (auto elim!: gstep.cases)
qed

definition skip_schedule :: "(thread_id \<times> intent) list" where
  "skip_schedule = collect_schedule @ [(0, Collect), (0, Collect), (0, Collect), (0, Collect), (0, Collect), (0, Collect),
     (1, Collect), (1, Collect), (0, Collect), (0, Collect), (0, Collect), (0, Collect), (0, Collect)]"

text \<open>
  A skipped collection scope switches off a collection that is being prepared: the destructor of
  \<open>CollectionScope\<close> calls \<open>LeaveCollectionScope\<close> although \<open>EnterCollectionScope\<close> returned \<open>false\<close>.
  There is a reachable state of two threads in which one of them waits for the other to pause, the
  other one leaves a skipped scope, and its step clears \<open>need_gc_\<close>.
\<close>

theorem skipped_scope_clears_flag:
  "\<exists>s s'. greach 2 s \<and> gpcs s 0 = LockOthers False 1 \<and> gpcs s 1 = LeaveCas False True \<and> need_gc s = 1
     \<and> gstep 2 s s' \<and> gpcs s' 0 = LockOthers False 1 \<and> need_gc s' = 0"
proof -
  have "\<exists>s s'. grun skip_schedule gc_init = Some s \<and> gpcs s 0 = LockOthers False 1 \<and> gpcs s 1 = LeaveCas False True
     \<and> need_gc s = 1 \<and> advance 1 Collect s = Some s' \<and> gpcs s' 0 = LockOthers False 1 \<and> need_gc s' = 0"
    by (simp add: skip_schedule_def collect_schedule_def start_two_def grun_simps)
  moreover have "\<forall>(i, w) \<in> set skip_schedule. i < 2"
    by (simp add: skip_schedule_def collect_schedule_def start_two_def)
  moreover have "gstep 2 s s'" if "advance 1 Collect s = Some s'" for s s'
    using that by (intro gstep.intros [of 1]) auto
  ultimately show ?thesis using grun_reach [OF _ greach_init] by blast
qed

end
