(* ===== verification/Event_Loop.thy ===== *)
theory Event_Loop
  imports W16_Prelude "HOL-Library.Multiset" "HOL-Library.Word"
begin

text \<open>
  The driver \<^verbatim>\<open>w16/main.cc\<close>: the checks of \<open>main\<close> and the event loops that \<open>threads\<close> workers run on
  a shared queue of events.  Accesses to \<open>running_threads\<close> are modelled as the code writes them: an
  atomic increment at the start of a loop, plain (read, then write) decrements and increments under
  \<open>mutex\<close> later on.  Whether a transaction commits and which events the JavaScript code of an event
  creates is arbitrary here; \<open>Stm_Serial\<close> is about the former.
\<close>

section \<open>Command line\<close>

datatype startup = Usage | BadThreads | NonTransactional | Started

definition MAX_THREADS :: int where
  "MAX_THREADS = 8"

definition main_checks :: "int \<Rightarrow> int \<Rightarrow> bool \<Rightarrow> startup" where
  "main_checks argc threads stm =
     (if argc \<le> 1 then Usage
      else if threads < 1 \<or> threads > MAX_THREADS then BadThreads
      else if \<not> stm \<and> threads > 1 then NonTransactional
      else Started)"

section \<open>Event loops\<close>

type_synonym event = nat

text \<open>
  The program points of \<open>EventLoop\<close>, the flag being its local variable \<open>active\<close>: before the atomic
  increment, before taking \<open>mutex\<close>, with the mutex before and within the decrement, before the
  test of the queue, within the increment, and then in the part that runs an event.
\<close>

datatype epc = Entry | Top bool | Locked bool | DecWrite int | Fetch | IncWrite int event
  | Have event | Attempt event | Executing event | Committing event | Deleting event | Exited

record loop_state =
  event_queue :: "event list"
  running_threads :: int
  total_transactions :: "32 word"
  aborted_transactions :: "32 word"
  queue_mutex :: "thread_id option"
  epcs :: "thread_id \<Rightarrow> epc"
  pushed :: "event list"
  finished :: "event list"

definition at_pc :: "thread_id \<Rightarrow> epc \<Rightarrow> loop_state \<Rightarrow> loop_state" where
  "at_pc i p s = s\<lparr>epcs := (epcs s)(i := p)\<rparr>"

definition loop_init :: "event list \<Rightarrow> loop_state" where
  "loop_init es = \<lparr>event_queue = es, running_threads = 0, total_transactions = 0, aborted_transactions = 0,
     queue_mutex = None, epcs = (\<lambda>_. Entry), pushed = es, finished = []\<rparr>"

text \<open>
  What the environment decides: whether the JavaScript code of an event calls \<open>async\<close> or returns,
  and whether the commit succeeds.
\<close>

datatype outcome = CallAsync event | Return bool

definition Async :: "event \<Rightarrow> loop_state \<Rightarrow> loop_state option" where
  "Async e s =
     (if queue_mutex s = None
      then Some (s\<lparr>event_queue := event_queue s @ [e], pushed := pushed s @ [e]\<rparr>)
      else None)"

text \<open>
  A step of \<open>EventLoop\<close> in thread \<open>i\<close>.  With \<open>locked\<close>, the plain decrement and increment are atomic
  with respect to the increment at the start of another loop; the code does not ensure this.
\<close>

fun EventLoop :: "bool \<Rightarrow> bool \<Rightarrow> thread_id \<Rightarrow> outcome \<Rightarrow> loop_state \<Rightarrow> loop_state option" where
  "EventLoop locked stm i w s =
     (case epcs s i of
        Entry \<Rightarrow> Some (at_pc i (Top True) (s\<lparr>running_threads := running_threads s + 1\<rparr>))
      | Top active \<Rightarrow> (if queue_mutex s = None then Some (at_pc i (Locked active) (s\<lparr>queue_mutex := Some i\<rparr>)) else None)
      | Locked active \<Rightarrow>
          (if \<not> active then Some (at_pc i Fetch s)
           else if locked then Some (at_pc i Fetch (s\<lparr>running_threads := running_threads s - 1\<rparr>))
           else Some (at_pc i (DecWrite (running_threads s)) s))
      | DecWrite r \<Rightarrow> Some (at_pc i Fetch (s\<lparr>running_threads := r - 1\<rparr>))
      | Fetch \<Rightarrow>
          (case event_queue s of
             e # es \<Rightarrow>
               (if locked then Some (at_pc i (Have e) (s\<lparr>event_queue := es, queue_mutex := None,
                                       running_threads := running_threads s + 1\<rparr>))
                else Some (at_pc i (IncWrite (running_threads s) e) (s\<lparr>event_queue := es\<rparr>)))
           | [] \<Rightarrow>
               (if running_threads s = 0 then Some (at_pc i Exited (s\<lparr>queue_mutex := None\<rparr>))
                else Some (at_pc i (Top False) (s\<lparr>queue_mutex := None\<rparr>))))
      | IncWrite r e \<Rightarrow> Some (at_pc i (Have e) (s\<lparr>running_threads := r + 1, queue_mutex := None\<rparr>))
      | Have e \<Rightarrow> Some (at_pc i (if stm then Attempt e else Executing e) s)
      | Attempt e \<Rightarrow> Some (at_pc i (Executing e) (s\<lparr>total_transactions := total_transactions s + 1\<rparr>))
      | Executing e \<Rightarrow>
          (case w of
             CallAsync e' \<Rightarrow> Async e' s
           | Return _ \<Rightarrow> Some (at_pc i (if stm then Committing e else Deleting e) s))
      | Committing e \<Rightarrow>
          (case w of
             CallAsync _ \<Rightarrow> None
           | Return committed \<Rightarrow>
               (if committed then Some (at_pc i (Deleting e) s)
                else Some (at_pc i (Have e) (s\<lparr>aborted_transactions := aborted_transactions s + 1\<rparr>))))
      | Deleting e \<Rightarrow> Some (at_pc i (Top True) (s\<lparr>finished := finished s @ [e]\<rparr>))
      | Exited \<Rightarrow> None)"

declare EventLoop.simps [simp del]

inductive estep :: "bool \<Rightarrow> bool \<Rightarrow> nat \<Rightarrow> loop_state \<Rightarrow> loop_state \<Rightarrow> bool" for locked stm n where
  "\<lbrakk>i < n; EventLoop locked stm i w s = Some s'\<rbrakk> \<Longrightarrow> estep locked stm n s s'"

inductive ereach :: "bool \<Rightarrow> bool \<Rightarrow> nat \<Rightarrow> event list \<Rightarrow> loop_state \<Rightarrow> bool" for locked stm n es where
  ereach_init: "ereach locked stm n es (loop_init es)"
| ereach_step: "\<lbrakk>ereach locked stm n es s; estep locked stm n s s'\<rbrakk> \<Longrightarrow> ereach locked stm n es s'"

section \<open>Conservation of events\<close>

fun hand :: "epc \<Rightarrow> event multiset" where
  "hand (IncWrite r e) = {#e#}"
| "hand (Have e) = {#e#}"
| "hand (Attempt e) = {#e#}"
| "hand (Executing e) = {#e#}"
| "hand (Committing e) = {#e#}"
| "hand (Deleting e) = {#e#}"
| "hand _ = {#}"

definition hands :: "nat \<Rightarrow> loop_state \<Rightarrow> event multiset" where
  "hands n s = (\<Sum>i<n. hand (epcs s i))"

lemma sum_upd:
  fixes f :: "epc \<Rightarrow> 'a :: cancel_comm_monoid_add" and p :: "thread_id \<Rightarrow> epc"
  assumes "i < n"
  shows "(\<Sum>k<n. f ((p(i := q)) k)) + f (p i) = (\<Sum>k<n. f (p k)) + f q"
proof -
  have rest: "(\<Sum>k\<in>{..<n} - {i}. f ((p(i := q)) k)) = (\<Sum>k\<in>{..<n} - {i}. f (p k))"
    by (rule sum.cong) auto
  show ?thesis
    using assms sum.remove [of "{..<n}" i "\<lambda>k. f ((p(i := q)) k)"] sum.remove [of "{..<n}" i "\<lambda>k. f (p k)"] rest
    by (simp add: ac_simps)
qed

lemma hands_at:
  assumes "i < n"
  shows "hands n (at_pc i p s) = hands n s - hand (epcs s i) + hand p" "hand (epcs s i) \<subseteq># hands n s"
proof -
  have "hands n (at_pc i p s) + hand (epcs s i) = hands n s + hand p"
    using sum_upd [OF assms, of hand "epcs s" p] by (simp add: hands_def at_pc_def)
  moreover show "hand (epcs s i) \<subseteq># hands n s"
    using assms by (auto simp: hands_def sum.remove [of "{..<n}" i])
  ultimately show "hands n (at_pc i p s) = hands n s - hand (epcs s i) + hand p"
    by (metis add_diff_cancel_right' subset_mset.diff_add_assoc2)
qed

lemma hands_more [simp]:
  "hands n (s\<lparr>event_queue := q\<rparr>) = hands n s" "hands n (s\<lparr>running_threads := r\<rparr>) = hands n s"
  "hands n (s\<lparr>queue_mutex := m\<rparr>) = hands n s" "hands n (s\<lparr>pushed := q\<rparr>) = hands n s"
  "hands n (s\<lparr>finished := q\<rparr>) = hands n s" "hands n (s\<lparr>total_transactions := c\<rparr>) = hands n s"
  "hands n (s\<lparr>aborted_transactions := c\<rparr>) = hands n s"
  by (simp_all add: hands_def)

lemma at_pc_fields [simp]:
  "event_queue (at_pc i p s) = event_queue s" "running_threads (at_pc i p s) = running_threads s"
  "queue_mutex (at_pc i p s) = queue_mutex s" "pushed (at_pc i p s) = pushed s" "finished (at_pc i p s) = finished s"
  "total_transactions (at_pc i p s) = total_transactions s" "aborted_transactions (at_pc i p s) = aborted_transactions s"
  "epcs (at_pc i p s) = (epcs s)(i := p)"
  by (simp_all add: at_pc_def)

lemmas loop_defs = EventLoop.simps Async_def
lemmas loop_splits = epc.splits if_splits list.splits outcome.splits

definition conserved :: "nat \<Rightarrow> loop_state \<Rightarrow> bool" where
  "conserved n s \<longleftrightarrow> mset (pushed s) = mset (event_queue s) + hands n s + mset (finished s)"

lemma conserved_step:
  assumes "i < n" "EventLoop locked stm i w s = Some s'" "conserved n s"
  shows "conserved n s'"
  using assms(2,3) hands_at(2) [OF assms(1), of s] unfolding conserved_def
  by (cases "epcs s i") (auto simp: loop_defs hands_at(1) [OF assms(1)] split: loop_splits)

definition drained :: "nat \<Rightarrow> loop_state \<Rightarrow> bool" where
  "drained n s \<longleftrightarrow> ((\<forall>i<n. epcs s i = Exited) \<longrightarrow> event_queue s = [])"

lemma drained_step:
  assumes "i < n" "EventLoop locked stm i w s = Some s'"
  shows "drained n s'"
  using assms unfolding drained_def
  by (cases "epcs s i") (auto simp: loop_defs split: loop_splits)

lemma ereach_conserved: "ereach locked stm n es s \<Longrightarrow> conserved n s"
  by (induction rule: ereach.induct)
    (auto simp: conserved_def loop_init_def hands_def elim!: estep.cases dest: conserved_step)

lemma ereach_drained: "ereach locked stm n es s \<Longrightarrow> 0 < n \<Longrightarrow> drained n s"
proof (induction rule: ereach.induct)
  case ereach_init
  then show ?case by (auto simp: drained_def loop_init_def)
qed (auto elim!: estep.cases intro: drained_step)


section \<open>Detection of the end\<close>

fun counted :: "epc \<Rightarrow> int" where
  "counted (Top active) = (if active then 1 else 0)"
| "counted (Locked active) = (if active then 1 else 0)"
| "counted (Have e) = 1"
| "counted (Attempt e) = 1"
| "counted (Executing e) = 1"
| "counted (Committing e) = 1"
| "counted (Deleting e) = 1"
| "counted _ = 0"

fun plain_write :: "epc \<Rightarrow> bool" where
  "plain_write (DecWrite r) = True"
| "plain_write (IncWrite r e) = True"
| "plain_write _ = False"

definition count_ok :: "nat \<Rightarrow> loop_state \<Rightarrow> bool" where
  "count_ok n s \<longleftrightarrow> running_threads s = (\<Sum>i<n. counted (epcs s i)) \<and> (\<forall>i. \<not> plain_write (epcs s i))"

lemma count_ok_step:
  assumes "i < n" "EventLoop True stm i w s = Some s'" "count_ok n s"
  shows "count_ok n s'"
proof -
  have upd: "(\<Sum>k<n. counted (((epcs s)(i := p)) k)) = running_threads s + counted p - counted (epcs s i)" for p
    using sum_upd [OF assms(1), of counted "epcs s" p] assms(3) by (simp add: count_ok_def)
  have np: "\<forall>k. \<not> plain_write (epcs s k)" using assms(3) by (simp add: count_ok_def)
  then have "\<forall>k. \<not> plain_write (epcs s' k)"
    using assms(2) by (cases "epcs s i") (auto simp: loop_defs split: loop_splits)
  moreover have "running_threads s' = (\<Sum>k<n. counted (epcs s' k))"
    using assms(2) upd np [rule_format, of i] by (cases "epcs s i")
      (auto simp: loop_defs count_ok_def [THEN iffD1, OF assms(3), THEN conjunct1, symmetric]
        simp del: fun_upd_apply split: loop_splits)
  ultimately show ?thesis by (simp add: count_ok_def)
qed

definition quiet :: "nat \<Rightarrow> loop_state \<Rightarrow> bool" where
  "quiet n s \<longleftrightarrow> ((\<exists>i<n. epcs s i = Exited) \<longrightarrow> event_queue s = [] \<and> (\<forall>k<n. hand (epcs s k) = {#}))"

lemma count_zero: "count_ok n s \<Longrightarrow> running_threads s = 0 \<Longrightarrow> k < n \<Longrightarrow> hand (epcs s k) = {#}"
proof -
  assume a: "count_ok n s" "running_threads s = 0" "k < n"
  have "counted p \<ge> 0" for p by (cases p) auto
  then have "counted (epcs s k) = 0" using a by (simp add: count_ok_def sum_nonneg_eq_0_iff)
  moreover have "\<not> plain_write (epcs s k)" using a(1) by (simp add: count_ok_def)
  ultimately show ?thesis by (cases "epcs s k") auto
qed

lemma quiet_step:
  assumes "i < n" "EventLoop True stm i w s = Some s'" "quiet n s" "count_ok n s"
  shows "quiet n s'"
  using assms(1-3) count_zero [OF assms(4)] unfolding quiet_def
  by (cases "epcs s i") (fastforce simp: loop_defs split: loop_splits)+

lemma ereach_quiet: "ereach True stm n es s \<Longrightarrow> count_ok n s \<and> quiet n s"
proof (induction rule: ereach.induct)
  case ereach_init
  show ?case by (simp add: count_ok_def quiet_def loop_init_def)
qed (auto elim!: estep.cases intro: count_ok_step quiet_step)

text \<open>
  A worker leaves its loop only when the work is done, provided the plain updates of
  \<open>running_threads\<close> do not race with the start of another worker: then \<open>running_threads\<close> is the
  number of active workers, and once any worker has left, the queue is empty and nobody runs an
  event, so no further event can appear.
\<close>

theorem exit_is_final:
  assumes "ereach True stm n es s"
  shows "running_threads s = (\<Sum>i<n. counted (epcs s i))
    \<and> ((\<exists>i<n. epcs s i = Exited) \<longrightarrow> event_queue s = [] \<and> hands n s = {#})"
  using ereach_quiet [OF assms] by (auto simp: count_ok_def quiet_def hands_def)

section \<open>Statistics\<close>

fun in_attempt :: "epc \<Rightarrow> 32 word" where
  "in_attempt (Executing e) = 1"
| "in_attempt (Committing e) = 1"
| "in_attempt (Deleting e) = 1"
| "in_attempt _ = 0"

definition stats_ok :: "nat \<Rightarrow> loop_state \<Rightarrow> bool" where
  "stats_ok n s \<longleftrightarrow> total_transactions s =
     aborted_transactions s + of_nat (length (finished s)) + (\<Sum>i<n. in_attempt (epcs s i))"

lemma stats_ok_step:
  assumes "i < n" "EventLoop locked True i w s = Some s'" "stats_ok n s"
  shows "stats_ok n s'"
proof -
  let ?S = "\<Sum>k<n. in_attempt (epcs s k)"
  have upd: "(\<Sum>k<n. in_attempt (((epcs s)(i := p)) k)) = ?S + in_attempt p - in_attempt (epcs s i)" for p
    using sum_upd [OF assms(1), of in_attempt "epcs s" p] by (simp add: eq_diff_eq)
  show ?thesis
    using assms(2,3) unfolding stats_ok_def
    by (cases "epcs s i") (auto simp: loop_defs upd simp del: fun_upd_apply split: loop_splits)
qed

text \<open>
  The statistics printed at the end are consistent: in transactional mode, once all workers have
  left their loops, \<open>total_transactions\<close> is \<open>aborted_transactions\<close> plus the number of events that
  were ever queued, modulo the width of the counters.
\<close>

theorem printed_statistics:
  assumes "ereach locked True n es s" "0 < n" "\<forall>i<n. epcs s i = Exited"
  shows "total_transactions s = aborted_transactions s + of_nat (length (pushed s))"
proof -
  have "stats_ok n s" using assms(1)
  proof (induction rule: ereach.induct)
    case ereach_init show ?case by (simp add: stats_ok_def loop_init_def)
  qed (auto elim!: estep.cases intro: stats_ok_step)
  moreover have "length (finished s) = length (pushed s)"
    using ereach_conserved [OF assms(1)] ereach_drained [OF assms(1,2)] assms(3)
    by (auto simp: conserved_def drained_def hands_def dest!: mset_eq_length)
  ultimately show ?thesis using assms(3) by (simp add: stats_ok_def)
qed

section \<open>Schedules\<close>

fun erun :: "bool \<Rightarrow> bool \<Rightarrow> (thread_id \<times> outcome) list \<Rightarrow> loop_state \<Rightarrow> loop_state option" where
  "erun locked stm [] s = Some s"
| "erun locked stm ((i, w) # xs) s =
     (case EventLoop locked stm i w s of None \<Rightarrow> None | Some s' \<Rightarrow> erun locked stm xs s')"

lemma erun_reach:
  "erun locked stm xs s = Some s' \<Longrightarrow> ereach locked stm n es s \<Longrightarrow> (\<forall>(i, w) \<in> set xs. i < n)
    \<Longrightarrow> ereach locked stm n es s'"
  by (induction locked stm xs s rule: erun.induct) (auto split: option.splits intro: ereach_step estep.intros)

lemmas erun_simps = loop_init_def at_pc_def loop_defs

text \<open>
  One worker, one initial event: the first attempt queues an event and is aborted, the second one
  does the same and commits; then the two queued events run.
\<close>

definition retry_schedule :: "(thread_id \<times> outcome) list" where
  "retry_schedule = map (Pair 0) ([Return True, Return True, Return True, Return True,
     Return True, Return True, CallAsync 9, Return True, Return False,
     Return True, Return True, CallAsync 9, Return True, Return True, Return True])"

definition serve_one :: "(thread_id \<times> outcome) list" where
  "serve_one = map (\<lambda>_. (0, Return True)) [1..<9]"

definition leave :: "(thread_id \<times> outcome) list" where
  "leave = [(0, Return True), (0, Return True), (0, Return True)]"

lemmas schedule_defs = retry_schedule_def serve_one_def leave_def upt_rec

lemma retry_runs:
  "\<exists>s. ereach True True 1 [7] s \<and> epcs s 0 = Exited \<and> pushed s = [7, 9, 9] \<and> total_transactions s = 4"
proof -
  let ?xs = "retry_schedule @ serve_one @ serve_one @ leave"
  have "\<exists>s. erun True True ?xs (loop_init [7]) = Some s \<and> epcs s 0 = Exited \<and> pushed s = [7, 9, 9]
      \<and> total_transactions s = 4"
    by (simp add: schedule_defs erun_simps)
  moreover have "\<forall>(i, w) \<in> set ?xs. i < 1" by (simp add: schedule_defs)
  ultimately show ?thesis using erun_reach [OF _ ereach_init] by blast
qed


theorem exit_is_final_witness:
  "\<exists>s. ereach True True 1 [7] s \<and> epcs s 0 = Exited \<and> event_queue s = [] \<and> running_threads s = 0"
proof -
  obtain s where "ereach True True 1 [7] s" "epcs s 0 = Exited" using retry_runs by blast
  then show ?thesis using exit_is_final [of True 1 "[7]" s] by (intro exI [of _ s]) simp
qed

theorem printed_statistics_witness:
  "\<exists>s. ereach True True 1 [7] s \<and> total_transactions s = 4 \<and> aborted_transactions s = 1"
proof -
  obtain s where "ereach True True 1 [7] s" "epcs s 0 = Exited" "pushed s = [7, 9, 9]" "total_transactions s = 4"
    using retry_runs by blast
  then show ?thesis using printed_statistics [of True 1 "[7]" s] by (intro exI [of _ s]) simp
qed

text \<open>
  Events created by an aborted attempt stay in the queue: \<open>Async\<close> pushes them at once and nothing
  takes them back when the attempt does not commit.  A single event whose body queues one event and
  whose first attempt is aborted leaves two copies of it in the queue when it completes.
\<close>

theorem aborted_attempt_keeps_events:
  "\<exists>s. ereach True True 1 [7] s \<and> finished s = [7] \<and> event_queue s = [9, 9]
     \<and> total_transactions s = 2 \<and> aborted_transactions s = 1"
proof -
  have "\<exists>s. erun True True retry_schedule (loop_init [7]) = Some s \<and> finished s = [7] \<and> event_queue s = [9, 9]
      \<and> total_transactions s = 2 \<and> aborted_transactions s = 1"
    by (simp add: schedule_defs erun_simps)
  moreover have "\<forall>(i, w) \<in> set retry_schedule. i < 1" by (simp add: schedule_defs)
  ultimately show ?thesis using erun_reach [OF _ ereach_init] by blast
qed

text \<open>Worker 0 is inside its plain decrement when worker 1 starts.\<close>

definition race_schedule :: "(thread_id \<times> outcome) list" where
  "race_schedule = [(0, Return True), (0, Return True), (0, Return True), (1, Return True), (0, Return True),
     (0, Return True), (1, Return True), (1, Return True), (1, Return True), (1, Return True)]"

definition spinning :: "loop_state \<Rightarrow> bool" where
  "spinning s \<longleftrightarrow> event_queue s = [] \<and> running_threads s = -1 \<and> epcs s 0 = Exited
     \<and> epcs s 1 \<in> {Top False, Locked False, Fetch}"

lemma spinning_steps: "(estep False stm 2)\<^sup>*\<^sup>* s s' \<Longrightarrow> spinning s \<Longrightarrow> spinning s'"
proof (induction rule: rtranclp_induct)
  case (step s s')
  then show ?case
    by (auto simp: spinning_def loop_defs at_pc_def less_Suc_eq numeral_2_eq_2 elim!: estep.cases split: if_splits)
qed

text \<open>
  C12. The program may never end: the plain decrement of \<open>running_threads\<close> in one worker can race
  with the atomic increment at the start of another one and overwrite it.  With two workers and no
  events at all there is a reachable state in which one worker has left its loop, and the other one
  never leaves it, whatever happens next, because \<open>running_threads\<close> is stuck at \<open>-1\<close>.
\<close>

theorem startup_race_never_ends:
  "\<exists>s. ereach False stm 2 [] s \<and> running_threads s = -1 \<and> epcs s 0 = Exited
     \<and> \<not> (\<exists>s'. (estep False stm 2)\<^sup>*\<^sup>* s s' \<and> epcs s' 1 = Exited)"
proof -
  have "\<exists>s. erun False stm race_schedule (loop_init []) = Some s \<and> spinning s"
    by (simp add: race_schedule_def erun_simps spinning_def)
  moreover have "\<forall>(i, w) \<in> set race_schedule. i < 2" by (simp add: race_schedule_def)
  ultimately obtain s where s: "ereach False stm 2 [] s" "spinning s"
    using erun_reach [OF _ ereach_init] by blast
  have "epcs s' 1 \<noteq> Exited" if "(estep False stm 2)\<^sup>*\<^sup>* s s'" for s'
    using spinning_steps [OF that s(2)] by (auto simp: spinning_def)
  with s show ?thesis by (auto simp: spinning_def)
qed

text \<open>Concurrent workers run in transactions only: the program starts with more than one thread only in transactional mode, never with more than \<open>MAX_THREADS\<close>.\<close>

theorem started_threads:
  "main_checks argc threads stm = Started \<longleftrightarrow>
     argc > 1 \<and> 1 \<le> threads \<and> threads \<le> 8 \<and> (stm \<or> threads = 1)"
  by (auto simp: main_checks_def MAX_THREADS_def)

end
