(* ===== verification/Bignum.thy ===== *)
theory Bignum
  imports W16_Prelude
begin

text \<open>
  The arbitrary-precision naturals of \<^verbatim>\<open>src/bignum.cc\<close> that the number conversions use: a fixed
  buffer of 128 chunks of 32 bits, each holding a bigit of 28 bits, and an exponent that counts
  hidden zero bigits.  Chunks are naturals with the wrap-around of \<open>uint32_t\<close> and \<open>uint64_t\<close>
  written out.  \<open>EnsureCapacity\<close> beyond the buffer, and an access beyond it, is \<open>None\<close>.
\<close>

section \<open>Representation\<close>

definition BIGIT :: nat where "BIGIT = 2 ^ 28"
definition CHUNK :: nat where "CHUNK = 2 ^ 32"
definition DOUBLE_CHUNK :: nat where "DOUBLE_CHUNK = 2 ^ 64"
definition kBigitCapacity :: nat where "kBigitCapacity = 128"

lemma BIGIT_pos [simp]: "0 < BIGIT" "BIGIT \<noteq> 0" "1 \<le> BIGIT" "Suc 0 \<le> BIGIT" "1 < BIGIT"
  by (auto simp: BIGIT_def)

lemma kBigitCapacity_bounds [simp]:
  "0 < kBigitCapacity" "Suc 0 \<le> kBigitCapacity" "3 \<le> kBigitCapacity" "kBigitCapacity \<noteq> 0"
  by (auto simp: kBigitCapacity_def)

record bignum =
  bigits :: "nat list"
  used_digits :: nat
  exponent :: nat

definition Bignum_new :: bignum where
  "Bignum_new = \<lparr>bigits = replicate kBigitCapacity 0, used_digits = 0, exponent = 0\<rparr>"

definition EnsureCapacity :: "nat \<Rightarrow> 'a option \<Rightarrow> 'a option" where
  "EnsureCapacity needed k = (if needed > kBigitCapacity then None else k)"

definition BigitLength :: "bignum \<Rightarrow> nat" where
  "BigitLength b = used_digits b + exponent b"

definition BigitAt :: "bignum \<Rightarrow> nat \<Rightarrow> nat" where
  "BigitAt b i =
     (if i \<ge> BigitLength b then 0 else if i < exponent b then 0 else bigits b ! (i - exponent b))"

definition IsClamped :: "bignum \<Rightarrow> bool" where
  "IsClamped b \<longleftrightarrow> used_digits b = 0 \<or> bigits b ! (used_digits b - 1) \<noteq> 0"

definition Zero :: "bignum \<Rightarrow> bignum" where
  "Zero b = b\<lparr>bigits := fold (\<lambda>i bs. bs[i := 0]) [0..<used_digits b] (bigits b),
     used_digits := 0, exponent := 0\<rparr>"

fun clamp_used :: "nat list \<Rightarrow> nat \<Rightarrow> nat" where
  "clamp_used bs 0 = 0"
| "clamp_used bs (Suc n) = (if bs ! n = 0 then clamp_used bs n else Suc n)"

definition Clamp :: "bignum \<Rightarrow> bignum" where
  "Clamp b =
     (let n = clamp_used (bigits b) (used_digits b)
      in b\<lparr>used_digits := n, exponent := (if n = 0 then 0 else exponent b)\<rparr>)"

definition Align :: "bignum \<Rightarrow> bignum \<Rightarrow> bignum option" where
  "Align b other =
     (if exponent b > exponent other then
        (let zero_digits = exponent b - exponent other in
         EnsureCapacity (used_digits b + zero_digits)
           (let bs = fold (\<lambda>i bs. bs[i + zero_digits := bs ! i]) (rev [0..<used_digits b]) (bigits b);
                bs = fold (\<lambda>i bs. bs[i := 0]) [0..<zero_digits] bs
            in Some \<lparr>bigits = bs, used_digits = used_digits b + zero_digits,
                     exponent = exponent b - zero_digits\<rparr>))
      else Some b)"

section \<open>The number a buffer stands for\<close>

fun val :: "nat list \<Rightarrow> nat" where
  "val [] = 0"
| "val (d # ds) = d + BIGIT * val ds"

abbreviation mantissa :: "bignum \<Rightarrow> nat" where
  "mantissa b \<equiv> val (bigits b)"

definition bn_value :: "bignum \<Rightarrow> nat" where
  "bn_value b = mantissa b * BIGIT ^ exponent b"

text \<open>
  The representation invariant: the buffer has its full length, every chunk holds a bigit, and the
  number fits into the used digits; \<open>bn_inv\<close> adds that the most significant used digit is not zero
  and that zero has no exponent.
\<close>

definition digits_ok :: "nat list \<Rightarrow> bool" where
  "digits_ok bs \<longleftrightarrow> length bs = kBigitCapacity \<and> (\<forall>d \<in> set bs. d < BIGIT)"

definition bn_ok :: "bignum \<Rightarrow> bool" where
  "bn_ok b \<longleftrightarrow> digits_ok (bigits b) \<and> used_digits b \<le> kBigitCapacity \<and> mantissa b < BIGIT ^ used_digits b"

definition bn_inv :: "bignum \<Rightarrow> bool" where
  "bn_inv b \<longleftrightarrow> bn_ok b \<and> IsClamped b \<and> (used_digits b = 0 \<longrightarrow> exponent b = 0)"

lemma val_append: "val (xs @ ys) = val xs + BIGIT ^ length xs * val ys"
  by (induction xs) (auto simp: algebra_simps)

lemma val_replicate0 [simp]: "val (replicate n 0) = 0"
  by (induction n) auto

lemma val_split: "n \<le> length bs \<Longrightarrow> val bs = val (take n bs) + BIGIT ^ n * val (drop n bs)"
  using val_append [of "take n bs" "drop n bs"] by (simp add: min_absorb2)

lemma val_take_Suc: "i < length bs \<Longrightarrow> val (take (Suc i) bs) = val (take i bs) + bs ! i * BIGIT ^ i"
  by (simp add: take_Suc_conv_app_nth val_append)

lemma val_update: "i < length bs \<Longrightarrow> val (bs[i := d]) + bs ! i * BIGIT ^ i = val bs + d * BIGIT ^ i"
proof (induction bs arbitrary: i)
  case (Cons b bs)
  show ?case
  proof (cases i)
    case (Suc j)
    with Cons.prems have "BIGIT * (val (bs[j := d]) + bs ! j * BIGIT ^ j) = BIGIT * (val bs + d * BIGIT ^ j)"
      by (subst Cons.IH) auto
    then show ?thesis using Suc by (simp add: algebra_simps)
  qed simp
qed simp

lemma val_bound: "\<forall>d \<in> set bs. d < BIGIT \<Longrightarrow> val bs < BIGIT ^ length bs"
proof (induction bs)
  case (Cons b bs)
  then have "val bs + 1 \<le> BIGIT ^ length bs" "b < BIGIT" by auto
  then have "b + BIGIT * val bs < BIGIT + BIGIT * val bs" by simp
  also have "\<dots> = BIGIT * (val bs + 1)" by simp
  also have "\<dots> \<le> BIGIT * BIGIT ^ length bs" using \<open>val bs + 1 \<le> _\<close> by (rule mult_le_mono2)
  finally show ?case by simp
qed simp

lemma digits_ok_update: "digits_ok bs \<Longrightarrow> d < BIGIT \<Longrightarrow> digits_ok (bs[i := d])"
  by (auto simp: digits_ok_def dest!: set_update_subset_insert [THEN subsetD])

lemma digits_ok_nth: "digits_ok bs \<Longrightarrow> i < kBigitCapacity \<Longrightarrow> bs ! i < BIGIT"
  by (auto simp: digits_ok_def)

lemma digits_ok_take: "digits_ok bs \<Longrightarrow> n \<le> kBigitCapacity \<Longrightarrow> val (take n bs) < BIGIT ^ n"
  using val_bound [of "take n bs"] by (auto simp: digits_ok_def dest: in_set_takeD)

lemma digits_ok_val: "digits_ok bs \<Longrightarrow> val bs < BIGIT ^ kBigitCapacity"
  using val_bound [of bs] by (auto simp: digits_ok_def)

text \<open>A number below \<open>BIGIT ^ n\<close> has only zeros from position \<open>n\<close> on.\<close>

lemma val_high_zero:
  assumes "val bs < BIGIT ^ n" "n \<le> i" "i < length bs"
  shows "bs ! i = 0"
proof (rule ccontr)
  assume "bs ! i \<noteq> 0"
  have "val bs = val (take i bs) + BIGIT ^ i * val (drop i bs)" using assms(3) by (intro val_split) simp
  moreover have "val (drop i bs) \<ge> bs ! i" using assms(3) by (simp add: Cons_nth_drop_Suc [symmetric])
  ultimately have "val bs \<ge> BIGIT ^ i * 1" using \<open>bs ! i \<noteq> 0\<close>
    by (metis One_nat_def Suc_leI mult_le_mono2 neq0_conv order_trans trans_le_add2)
  moreover have "BIGIT ^ n \<le> BIGIT ^ i" using assms(2) by (intro power_increasing) auto
  ultimately show False using assms(1) by linarith
qed

lemma val_used: "val bs < BIGIT ^ n \<Longrightarrow> n \<le> length bs \<Longrightarrow> val (take n bs) = val bs \<and> val (drop n bs) = 0"
proof -
  assume a: "val bs < BIGIT ^ n" "n \<le> length bs"
  have "drop n bs = replicate (length bs - n) 0"
    using val_high_zero [OF a(1)] by (intro nth_equalityI) auto
  then have "val (drop n bs) = 0" by simp
  then show ?thesis using val_split [OF a(2)] by simp
qed

lemma top_digit:
  assumes "digits_ok bs" "val bs < BIGIT ^ Suc n" "n < kBigitCapacity"
  shows "val bs = val (take n bs) + bs ! n * BIGIT ^ n" "bs ! n \<noteq> 0 \<longleftrightarrow> BIGIT ^ n \<le> val bs"
proof -
  show v: "val bs = val (take n bs) + bs ! n * BIGIT ^ n"
    using val_used [OF assms(2)] val_take_Suc [of n bs] assms(1,3) by (simp add: digits_ok_def)
  have "val (take n bs) < BIGIT ^ n" using digits_ok_take [OF assms(1)] assms(3) by simp
  then show "bs ! n \<noteq> 0 \<longleftrightarrow> BIGIT ^ n \<le> val bs" using v by (cases "bs ! n") auto
qed

lemma IsClamped_iff:
  assumes "bn_ok b"
  shows "IsClamped b \<longleftrightarrow> used_digits b = 0 \<or> BIGIT ^ (used_digits b - 1) \<le> mantissa b"
  using assms top_digit(2) [of "bigits b" "used_digits b - 1"]
  by (cases "used_digits b") (auto simp: IsClamped_def bn_ok_def)

lemma IsClamped_val: "bn_inv b \<Longrightarrow> used_digits b \<noteq> 0 \<Longrightarrow> BIGIT ^ (used_digits b - 1) \<le> mantissa b"
  using IsClamped_iff [of b] by (auto simp: bn_inv_def)

lemma clamp_used_correct:
  assumes "digits_ok bs" "val bs < BIGIT ^ n" "n \<le> kBigitCapacity"
  shows "clamp_used bs n \<le> n \<and> val bs < BIGIT ^ clamp_used bs n
    \<and> (clamp_used bs n = 0 \<or> BIGIT ^ (clamp_used bs n - 1) \<le> val bs)"
  using assms
proof (induction n)
  case (Suc n)
  then show ?case using top_digit(2) [of bs n] by (cases "bs ! n = 0") (auto intro: le_SucI)
qed simp

lemma Clamp_correct:
  assumes "bn_ok b"
  shows "bn_inv (Clamp b)" "bn_value (Clamp b) = bn_value b" "bigits (Clamp b) = bigits b"
proof -
  let ?n = "clamp_used (bigits b) (used_digits b)"
  have c: "?n \<le> used_digits b" "mantissa b < BIGIT ^ ?n" "?n = 0 \<or> BIGIT ^ (?n - 1) \<le> mantissa b"
    using clamp_used_correct [of "bigits b" "used_digits b"] assms by (auto simp: bn_ok_def)
  then have "bn_ok (Clamp b)" using assms by (auto simp: bn_ok_def Clamp_def Let_def)
  then show "bn_inv (Clamp b)" using c(3) by (auto simp: bn_inv_def IsClamped_iff) (auto simp: Clamp_def Let_def)
  show "bn_value (Clamp b) = bn_value b" using c(2) by (auto simp: bn_value_def Clamp_def Let_def)
  show "bigits (Clamp b) = bigits b" by (simp add: Clamp_def Let_def)
qed

text \<open>Clearing the first \<open>n\<close> chunks.\<close>

lemma clear_loop:
  "n \<le> length bs \<Longrightarrow> fold (\<lambda>i bs. bs[i := 0]) [0..<n] bs = replicate n 0 @ drop n bs"
proof (induction n)
  case (Suc n)
  then show ?case
    by (simp add: list_update_append replicate_append_same [symmetric] Cons_nth_drop_Suc [symmetric])
qed simp

lemma Zero_correct:
  assumes "bn_ok b"
  shows "bn_inv (Zero b)" "bn_value (Zero b) = 0" "bigits (Zero b) = replicate kBigitCapacity 0"
proof -
  have "drop (used_digits b) (bigits b) = replicate (kBigitCapacity - used_digits b) 0"
    using assms val_high_zero [of "bigits b" "used_digits b"]
    by (intro nth_equalityI) (auto simp: bn_ok_def digits_ok_def)
  then show z: "bigits (Zero b) = replicate kBigitCapacity 0"
    using assms by (simp add: Zero_def clear_loop bn_ok_def digits_ok_def flip: replicate_add)
  then show "bn_value (Zero b) = 0" by (simp add: bn_value_def)
  show "bn_inv (Zero b)" using z by (auto simp: bn_inv_def bn_ok_def digits_ok_def IsClamped_def Zero_def)
qed

lemma Zero_eq: "bn_ok b \<Longrightarrow> Zero b = Bignum_new"
  using Zero_correct(3) [of b] by (cases b) (simp add: Zero_def Bignum_new_def)

lemma bn_inv_new: "bn_inv Bignum_new" "bn_value Bignum_new = 0"
  by (auto simp: Bignum_new_def bn_inv_def bn_ok_def digits_ok_def IsClamped_def bn_value_def)

text \<open>Moving \<open>n\<close> chunks up by \<open>z\<close> places, from the top.\<close>

lemma move_up_loop:
  assumes "n + z \<le> length bs" "0 < z"
  shows "fold (\<lambda>i bs. bs[i + z := bs ! i]) (rev [0..<n]) bs = take z bs @ take n bs @ drop (n + z) bs"
proof -
  have "length cs = length bs \<Longrightarrow> take (n + z) cs = take (n + z) bs \<Longrightarrow>
    fold (\<lambda>i bs. bs[i + z := bs ! i]) (rev [0..<n]) cs = take z bs @ take n bs @ drop (n + z) cs" for cs
    using assms(1)
  proof (induction n arbitrary: cs)
    case 0
    then show ?case by (metis add_0 append_Nil append_take_drop_id rev.simps(1) take0 upt_0 fold_simps(1))
  next
    case (Suc n)
    let ?c = "cs[n + z := cs ! n]"
    have "cs ! n = bs ! n" using Suc.prems by (metis add_Suc lessI less_add_Suc1 nth_take)
    moreover have "take (n + z) ?c = take (n + z) bs"
      using Suc.prems by (metis add_Suc lessI min.strict_order_iff nat_less_le take_take take_update_cancel order_refl)
    moreover have "drop (n + z) ?c = cs ! n # drop (Suc n + z) cs"
      using Suc.prems by (simp add: Cons_nth_drop_Suc [symmetric])
    ultimately show ?case using Suc.IH [of ?c] Suc.prems by (simp add: take_Suc_conv_app_nth)
  qed
  then show ?thesis by simp
qed

lemma Align_correct:
  assumes "bn_ok b" "exponent b \<le> exponent other \<or> used_digits b + (exponent b - exponent other) \<le> kBigitCapacity"
  obtains b' where "Align b other = Some b'" "bn_ok b'" "bn_value b' = bn_value b"
    "exponent b' = min (exponent b) (exponent other)" "BigitLength b' = BigitLength b" "IsClamped b \<longrightarrow> used_digits b \<noteq> 0 \<longrightarrow> IsClamped b'"
proof (cases "exponent b > exponent other")
  case False
  then show ?thesis using that [of b] assms(1) by (simp add: Align_def)
next
  case True
  let ?n = "used_digits b" and ?bs = "bigits b"
  define z where "z = exponent b - exponent other"
  define cs where "cs = replicate z 0 @ take ?n ?bs @ drop (?n + z) ?bs"
  have bs: "length ?bs = kBigitCapacity" "val ?bs < BIGIT ^ ?n" "?n + z \<le> kBigitCapacity" "0 < z"
    using assms True by (auto simp: z_def bn_ok_def digits_ok_def)
  have al: "Align b other = Some \<lparr>bigits = cs, used_digits = ?n + z, exponent = exponent other\<rparr>"
    using True bs unfolding Align_def z_def [symmetric] cs_def
    by (simp add: EnsureCapacity_def move_up_loop clear_loop) (simp add: z_def)
  have "drop (?n + z) ?bs = replicate (kBigitCapacity - (?n + z)) 0"
    using bs val_high_zero [of ?bs ?n] by (intro nth_equalityI) auto
  then have v: "val cs = BIGIT ^ z * val ?bs"
    using val_used [of ?bs ?n] bs by (simp add: cs_def val_append)
  have "digits_ok cs"
    using assms(1) bs by (auto simp: cs_def bn_ok_def digits_ok_def dest: in_set_takeD in_set_dropD)
  moreover have "val cs < BIGIT ^ (?n + z)" using bs(2) by (simp add: v power_add mult.commute)
  ultimately have ok: "bn_ok \<lparr>bigits = cs, used_digits = ?n + z, exponent = exponent other\<rparr>"
    using bs(3) by (simp add: bn_ok_def)
  show ?thesis
  proof (rule that [OF al ok])
    show "bn_value \<lparr>bigits = cs, used_digits = ?n + z, exponent = exponent other\<rparr> = bn_value b"
      using True by (simp add: bn_value_def v z_def mult.commute power_add [symmetric])
    show "IsClamped b \<longrightarrow> ?n \<noteq> 0 \<longrightarrow> IsClamped \<lparr>bigits = cs, used_digits = ?n + z, exponent = exponent other\<rparr>"
      using bs True by (auto simp: IsClamped_def cs_def nth_append)
  qed (use True in \<open>auto simp: BigitLength_def z_def\<close>)
qed

section \<open>Concrete bignums\<close>

text \<open>The bignum with the given bigits, padded to the buffer.\<close>

definition of_bigits :: "nat list \<Rightarrow> nat \<Rightarrow> bignum" where
  "of_bigits ds e = \<lparr>bigits = ds @ replicate (kBigitCapacity - length ds) 0, used_digits = length ds, exponent = e\<rparr>"

lemma of_bigits_value: "bn_value (of_bigits ds e) = val ds * BIGIT ^ e"
  by (simp add: of_bigits_def bn_value_def val_append)

lemma of_bigits_inv:
  assumes "length ds \<le> kBigitCapacity" "\<forall>d \<in> set ds. d < BIGIT" "ds = [] \<and> e = 0 \<or> ds \<noteq> [] \<and> last ds \<noteq> 0"
  shows "bn_inv (of_bigits ds e)"
  using assms val_bound [OF assms(2)]
  by (auto simp: of_bigits_def bn_inv_def bn_ok_def digits_ok_def IsClamped_def val_append nth_append last_conv_nth)

lemma of_bigits_digits [simp]:
  "used_digits (of_bigits ds e) = length ds" "exponent (of_bigits ds e) = e"
  "BigitLength (of_bigits ds e) = length ds + e" "val (bigits (of_bigits ds e)) = val ds"
  by (simp_all add: of_bigits_def BigitLength_def val_append)

lemmas concrete = kBigitCapacity_def BIGIT_def CHUNK_def

section \<open>Assignment\<close>

definition AssignUInt16 :: "bignum \<Rightarrow> nat \<Rightarrow> bignum option" where
  "AssignUInt16 b v =
     (let b = Zero b in
      if v = 0 then Some b
      else EnsureCapacity 1 (Some (b\<lparr>bigits := (bigits b)[0 := v], used_digits := 1\<rparr>)))"

definition AssignUInt64 :: "bignum \<Rightarrow> nat \<Rightarrow> bignum option" where
  "AssignUInt64 b v =
     (let b = Zero b; needed_bigits = 64 div 28 + 1 in
      if v = 0 then Some b
      else EnsureCapacity needed_bigits
        (let bs = fst (fold (\<lambda>i (bs, v). (bs[i := v mod BIGIT], v div BIGIT)) [0..<needed_bigits] (bigits b, v))
         in Some (Clamp (b\<lparr>bigits := bs, used_digits := needed_bigits\<rparr>))))"

definition AssignBignum :: "bignum \<Rightarrow> bignum \<Rightarrow> bignum" where
  "AssignBignum b other =
     (let bs = fold (\<lambda>i bs. bs[i := bigits other ! i]) [0..<used_digits other] (bigits b);
          bs = fold (\<lambda>i bs. bs[i := 0]) [used_digits other..<used_digits b] bs
      in \<lparr>bigits = bs, used_digits = used_digits other, exponent = exponent other\<rparr>)"

lemma bn_inv_intro:
  assumes "digits_ok bs" "n \<le> kBigitCapacity" "val bs < BIGIT ^ n" "0 < n" "BIGIT ^ (n - 1) \<le> val bs"
  shows "bn_inv \<lparr>bigits = bs, used_digits = n, exponent = e\<rparr>"
proof -
  have "bn_ok \<lparr>bigits = bs, used_digits = n, exponent = e\<rparr>" using assms by (simp add: bn_ok_def)
  then show ?thesis using assms by (simp add: bn_inv_def IsClamped_iff)
qed

lemma digits_ok_zeros [simp]: "digits_ok (replicate kBigitCapacity 0)"
  by (simp add: digits_ok_def)

lemma AssignUInt16_correct:
  assumes "bn_ok b" "v < 2 ^ 16"
  obtains b' where "AssignUInt16 b v = Some b'" "bn_inv b'" "bn_value b' = v"
proof (cases "v = 0")
  case True
  then show ?thesis using that Zero_correct [OF assms(1)] by (auto simp: AssignUInt16_def)
next
  case False
  let ?bs = "(replicate kBigitCapacity 0)[0 := v]"
  have e: "AssignUInt16 b v = Some \<lparr>bigits = ?bs, used_digits = 1, exponent = 0\<rparr>"
    using False by (simp add: AssignUInt16_def EnsureCapacity_def Zero_eq [OF assms(1)] Bignum_new_def)
  have v: "val ?bs = v" using val_update [of 0 "replicate kBigitCapacity 0" v] by (simp add: kBigitCapacity_def)
  have "v < BIGIT" using assms(2) by (simp add: BIGIT_def)
  then have "bn_inv \<lparr>bigits = ?bs, used_digits = 1, exponent = 0\<rparr>"
    using False v by (intro bn_inv_intro digits_ok_update) auto
  then show ?thesis using that [OF e] v by (simp add: bn_value_def)
qed

lemma AssignUInt64_correct:
  assumes "bn_ok b" "v < DOUBLE_CHUNK"
  obtains b' where "AssignUInt64 b v = Some b'" "bn_inv b'" "bn_value b' = v" "exponent b' = 0" "used_digits b' \<le> 3"
proof (cases "v = 0")
  case True
  then show ?thesis using that Zero_correct [OF assms(1)] by (auto simp: AssignUInt64_def) (simp add: Zero_def)
next
  case False
  let ?f = "\<lambda>i (bs, v). (bs[i := v mod BIGIT], v div BIGIT)"
  have inv: "digits_ok (fst (fold ?f [0..<n] (replicate kBigitCapacity 0, v)))
      \<and> val (fst (fold ?f [0..<n] (replicate kBigitCapacity 0, v))) = v mod BIGIT ^ n
      \<and> snd (fold ?f [0..<n] (replicate kBigitCapacity 0, v)) = v div BIGIT ^ n" if "n \<le> 3" for n
    using that
  proof (induction n)
    case (Suc n)
    obtain bs w where s: "fold ?f [0..<n] (replicate kBigitCapacity 0, v) = (bs, w)" by fastforce
    with Suc have ok: "digits_ok bs" "val bs = v mod BIGIT ^ n" "w = v div BIGIT ^ n" by auto
    have "bs ! n = 0" using ok(1,2) Suc.prems val_high_zero [of bs n n] by (auto simp: digits_ok_def kBigitCapacity_def)
    then have "val (bs[n := w mod BIGIT]) = v mod BIGIT ^ n + v div BIGIT ^ n mod BIGIT * BIGIT ^ n"
      using val_update [of n bs "w mod BIGIT"] ok Suc.prems by (simp add: digits_ok_def kBigitCapacity_def)
    also have "\<dots> = v mod BIGIT ^ Suc n"
      using mod_mult2_eq [of v "BIGIT ^ n" BIGIT] by (simp add: power_Suc2 mult.commute del: power_Suc)
    finally show ?case using ok s
      by (simp add: digits_ok_update power_Suc2 div_mult2_eq del: power_Suc)
  qed simp
  define bs where "bs = fst (fold ?f [0..<3] (replicate kBigitCapacity 0, v))"
  let ?b = "\<lparr>bigits = bs, used_digits = 3, exponent = 0\<rparr>"
  have "val bs = v" "digits_ok bs" using inv [of 3] assms(2) by (auto simp: bs_def BIGIT_def DOUBLE_CHUNK_def)
  moreover have "v < BIGIT ^ 3" using assms(2) by (simp add: BIGIT_def DOUBLE_CHUNK_def)
  ultimately have ok: "bn_ok ?b" "bn_value ?b = v" by (auto simp: bn_ok_def bn_value_def kBigitCapacity_def)
  have "AssignUInt64 b v = Some (Clamp ?b)"
    using False by (simp add: AssignUInt64_def EnsureCapacity_def Zero_eq [OF assms(1)] Bignum_new_def bs_def Let_def not_less)
  moreover have "exponent (Clamp ?b) = 0" "used_digits (Clamp ?b) \<le> 3"
    using clamp_used_correct [of bs 3] ok(1) by (auto simp: Clamp_def Let_def bn_ok_def)
  ultimately show ?thesis using that Clamp_correct [OF ok(1)] ok(2) by metis
qed

lemma copy_loop:
  "n \<le> length bs \<Longrightarrow> fold (\<lambda>i bs. bs[i := cs ! i]) [0..<n] bs = map ((!) cs) [0..<n] @ drop n bs"
proof (induction n)
  case (Suc n)
  then show ?case by (simp add: list_update_append Cons_nth_drop_Suc [symmetric])
qed simp

lemma clear_range:
  "m \<le> n \<Longrightarrow> n \<le> length bs \<Longrightarrow> fold (\<lambda>i bs. bs[i := 0]) [m..<n] bs = take m bs @ replicate (n - m) 0 @ drop n bs"
proof (induction n)
  case (Suc n)
  then show ?case
    by (cases "m = Suc n") (auto simp: list_update_append replicate_append_same [symmetric] Suc_diff_le
      Cons_nth_drop_Suc [symmetric])
qed simp

lemma AssignBignum_correct:
  assumes "bn_ok b" "bn_ok other"
  shows "AssignBignum b other = other"
proof -
  let ?m = "used_digits other" and ?n = "used_digits b"
  have len: "length (bigits b) = kBigitCapacity" "length (bigits other) = kBigitCapacity"
    "?m \<le> kBigitCapacity" "?n \<le> kBigitCapacity"
    and v: "mantissa b < BIGIT ^ ?n" "mantissa other < BIGIT ^ ?m"
    using assms by (auto simp: bn_ok_def digits_ok_def)
  define bs where "bs = map ((!) (bigits other)) [0..<?m] @ drop ?m (bigits b)"
  define cs where "cs = fold (\<lambda>i bs. bs[i := 0]) [?m..<?n] bs"
  have "cs ! k = bigits other ! k" if "k < kBigitCapacity" for k
    using that val_high_zero [OF v(1)] val_high_zero [OF v(2)] len
    by (cases "?m \<le> ?n") (auto simp: cs_def bs_def clear_range nth_append)
  moreover have "length cs = kBigitCapacity"
    using len by (cases "?m \<le> ?n") (auto simp: cs_def bs_def clear_range)
  ultimately have "cs = bigits other" using len by (intro nth_equalityI) auto
  then show ?thesis using len by (simp add: AssignBignum_def copy_loop cs_def bs_def Let_def)
qed

section \<open>Scaling\<close>

text \<open>
  The loops of \<open>BigitsShiftLeft\<close>, \<open>MultiplyByUInt32\<close> and \<open>MultiplyByUInt64\<close> run over the used
  digits with a carry; \<open>f\<close> gives the new bigit and the new carry.
\<close>

definition digit_loop :: "(nat \<Rightarrow> nat \<Rightarrow> nat \<times> nat) \<Rightarrow> nat \<Rightarrow> nat list \<Rightarrow> nat list \<times> nat" where
  "digit_loop f n bs =
     fold (\<lambda>i (bs, carry). let (d, c) = f (bs ! i) carry in (bs[i := d], c)) [0..<n] (bs, 0)"

function append_carry :: "nat list \<Rightarrow> nat \<Rightarrow> nat \<Rightarrow> (nat list \<times> nat) option" where
  "append_carry bs used carry =
     (if carry = 0 then Some (bs, used)
      else if used + 1 > kBigitCapacity then None
      else append_carry (bs[used := carry mod BIGIT]) (used + 1) (carry div BIGIT))"
  by pat_completeness auto
termination by (relation "measure (\<lambda>(bs, used, carry). carry)") (auto simp: BIGIT_def)

declare append_carry.simps [simp del]

definition shift_digit :: "nat \<Rightarrow> nat \<Rightarrow> nat \<Rightarrow> nat \<times> nat" where
  "shift_digit s d carry = ((d * 2 ^ s mod CHUNK + carry) mod CHUNK mod BIGIT, d div 2 ^ (28 - s))"

definition BigitsShiftLeft :: "bignum \<Rightarrow> nat \<Rightarrow> bignum" where
  "BigitsShiftLeft b s =
     (let (bs, carry) = digit_loop (shift_digit s) (used_digits b) (bigits b) in
      if carry \<noteq> 0 then b\<lparr>bigits := bs[used_digits b := carry], used_digits := used_digits b + 1\<rparr>
      else b\<lparr>bigits := bs\<rparr>)"

definition ShiftLeft :: "bignum \<Rightarrow> nat \<Rightarrow> bignum option" where
  "ShiftLeft b s =
     (if used_digits b = 0 then Some b
      else (let b = b\<lparr>exponent := exponent b + s div 28\<rparr> in
        EnsureCapacity (used_digits b + 1) (Some (BigitsShiftLeft b (s mod 28)))))"

definition mul32_digit :: "nat \<Rightarrow> nat \<Rightarrow> nat \<Rightarrow> nat \<times> nat" where
  "mul32_digit factor d carry =
     (let product = (factor * d + carry) mod DOUBLE_CHUNK in (product mod BIGIT, product div BIGIT))"

definition mul_by :: "(nat \<Rightarrow> nat \<Rightarrow> nat \<times> nat) \<Rightarrow> bignum \<Rightarrow> bignum option" where
  "mul_by f b =
     (let (bs, carry) = digit_loop f (used_digits b) (bigits b) in
      case append_carry bs (used_digits b) carry of
        None \<Rightarrow> None
      | Some (bs, used) \<Rightarrow> Some (b\<lparr>bigits := bs, used_digits := used\<rparr>))"

definition MultiplyByUInt32 :: "bignum \<Rightarrow> nat \<Rightarrow> bignum option" where
  "MultiplyByUInt32 b factor =
     (if factor = 1 then Some b
      else if factor = 0 then Some (Zero b)
      else if used_digits b = 0 then Some b
      else mul_by (mul32_digit factor) b)"

definition mul64_digit :: "nat \<Rightarrow> nat \<Rightarrow> nat \<Rightarrow> nat \<times> nat" where
  "mul64_digit factor d carry =
     (let low = factor mod 2 ^ 32; high = factor div 2 ^ 32;
          product_low = low * d mod DOUBLE_CHUNK; product_high = high * d mod DOUBLE_CHUNK;
          tmp = (carry mod BIGIT + product_low) mod DOUBLE_CHUNK
      in (tmp mod BIGIT,
          (carry div BIGIT + tmp div BIGIT + product_high * 2 ^ 4 mod DOUBLE_CHUNK) mod DOUBLE_CHUNK))"

definition MultiplyByUInt64 :: "bignum \<Rightarrow> nat \<Rightarrow> bignum option" where
  "MultiplyByUInt64 b factor =
     (if factor = 1 then Some b
      else if factor = 0 then Some (Zero b)
      else mul_by (mul64_digit factor) b)"

text \<open>One step of such a loop is exact: bigit and carry make up the scaled bigit plus the old carry.\<close>

definition scales :: "(nat \<Rightarrow> nat \<Rightarrow> nat \<times> nat) \<Rightarrow> nat \<Rightarrow> nat \<Rightarrow> bool" where
  "scales f k m \<longleftrightarrow> (\<forall>d c. d < BIGIT \<longrightarrow> c \<le> m \<longrightarrow>
     fst (f d c) < BIGIT \<and> snd (f d c) \<le> m \<and> fst (f d c) + BIGIT * snd (f d c) = k * d + c)"

lemma scalesD:
  assumes "scales f k m" "d < BIGIT" "c \<le> m" "f d c = (d', c')"
  shows "d' < BIGIT" "c' \<le> m" "d' + BIGIT * c' = k * d + c"
  using assms unfolding scales_def by (metis fst_conv snd_conv)+

lemma carry_bound:
  assumes "d < BIGIT" "c \<le> k"
  shows "(k * d + c) div BIGIT \<le> k" "k * d + c \<le> k * BIGIT"
proof -
  have "k * d + c \<le> k * (d + 1)" using assms(2) by simp
  also have "\<dots> \<le> k * BIGIT" using assms(1) by (intro mult_le_mono2) simp
  finally show "k * d + c \<le> k * BIGIT" .
  then show "(k * d + c) div BIGIT \<le> k" by (metis BIGIT_pos(2) div_le_mono nonzero_mult_div_cancel_right)
qed

lemma scales_mul32:
  assumes "factor < CHUNK"
  shows "scales (mul32_digit factor) factor factor"
proof -
  have "factor * d + c < DOUBLE_CHUNK" if "d < BIGIT" "c \<le> factor" for d c
  proof -
    have "factor * BIGIT < DOUBLE_CHUNK" using assms by (simp add: BIGIT_def CHUNK_def DOUBLE_CHUNK_def)
    then show ?thesis using carry_bound(2) [OF that] by linarith
  qed
  then show ?thesis by (auto simp: scales_def mul32_digit_def Let_def carry_bound(1))
qed

lemma scales_shift:
  assumes "s < 28"
  shows "scales (shift_digit s) (2 ^ s) (2 ^ s - 1)"
  unfolding scales_def
proof (intro allI impI)
  fix d c :: nat assume d: "d < BIGIT" and c: "c \<le> 2 ^ s - 1"
  define q r where "q = d div 2 ^ (28 - s)" and "r = d mod 2 ^ (28 - s)"
  have B: "BIGIT = 2 ^ s * 2 ^ (28 - s)" "BIGIT dvd CHUNK"
    using assms by (simp_all add: BIGIT_def CHUNK_def le_imp_power_dvd flip: power_add)
  have "d = q * 2 ^ (28 - s) + r" unfolding q_def r_def by (rule div_mult_mod_eq [symmetric])
  then have x: "d * 2 ^ s = q * BIGIT + r * 2 ^ s" by (simp add: B(1) algebra_simps)
  have "r + 1 \<le> 2 ^ (28 - s)" by (simp add: r_def Suc_leI)
  then have "(r + 1) * 2 ^ s \<le> BIGIT" unfolding B(1) by (metis mult.commute mult_le_mono1)
  moreover have "c < 2 ^ s" using c by (simp add: Suc_le_eq [symmetric] le_diff_conv2)
  ultimately have r: "r * 2 ^ s + c < BIGIT" by (simp add: add_mult_distrib)
  have "q < 2 ^ s" using d unfolding q_def B(1) by (simp add: less_mult_imp_div_less mult.commute)
  moreover have "(d * 2 ^ s mod CHUNK + c) mod CHUNK mod BIGIT = (d * 2 ^ s + c) mod BIGIT"
    by (simp add: mod_mod_cancel [OF B(2)] mod_add_left_eq)
  moreover have "(d * 2 ^ s + c) mod BIGIT = r * 2 ^ s + c" using r by (simp add: x add.assoc)
  ultimately show "fst (shift_digit s d c) < BIGIT \<and> snd (shift_digit s d c) \<le> 2 ^ s - 1
    \<and> fst (shift_digit s d c) + BIGIT * snd (shift_digit s d c) = 2 ^ s * d + c"
    using r x by (simp add: shift_digit_def q_def [symmetric] algebra_simps)
qed

lemma scales_mul64:
  assumes "factor < DOUBLE_CHUNK"
  shows "scales (mul64_digit factor) factor factor"
  unfolding scales_def
proof (intro allI impI)
  fix d c :: nat assume d: "d < BIGIT" and c: "c \<le> factor"
  define low high where "low = factor mod 2 ^ 32" and "high = factor div 2 ^ 32"
  define tmp carry where "tmp = c mod BIGIT + low * d" and "carry = c div BIGIT + tmp div BIGIT + high * d * 2 ^ 4"
  have lh: "low < 2 ^ 32" "high < 2 ^ 32" "factor = high * 2 ^ 32 + low"
    using assms by (auto simp: low_def high_def DOUBLE_CHUNK_def less_mult_imp_div_less)
  have low: "low * d \<le> 2 ^ 32 * 2 ^ 28" and high: "high * d \<le> (2 ^ 32 - 1) * (2 ^ 28 - 1)"
    using lh d by (intro mult_le_mono; simp add: BIGIT_def)+
  have B: "BIGIT * 2 ^ 4 = 2 ^ 32" by (simp add: BIGIT_def)
  have "carry * BIGIT + tmp mod BIGIT = c div BIGIT * BIGIT + (tmp div BIGIT * BIGIT + tmp mod BIGIT) + high * d * (BIGIT * 2 ^ 4)"
    by (simp add: carry_def algebra_simps)
  also have "\<dots> = factor * d + c" unfolding B by (simp add: tmp_def lh(3) algebra_simps)
  finally have exact: "carry * BIGIT + tmp mod BIGIT = factor * d + c" .
  then have "carry \<le> factor" using carry_bound(1) [OF d c] by (metis div_mult_self3 BIGIT_pos(2) add.commute div_mult_mod_eq le_add1 mod_div_trivial add.right_neutral)
  moreover have "mul64_digit factor d c = (tmp mod BIGIT, carry)"
  proof -
    have "c mod BIGIT < 2 ^ 28" by (simp add: BIGIT_def)
    then have b1: "tmp < DOUBLE_CHUNK" using low unfolding tmp_def DOUBLE_CHUNK_def by simp
    have b2: "low * d < DOUBLE_CHUNK" using low unfolding DOUBLE_CHUNK_def by simp
    have b3: "high * d * 2 ^ 4 < DOUBLE_CHUNK" using high unfolding DOUBLE_CHUNK_def by (simp add: mult.commute)
    have b4: "high * d < DOUBLE_CHUNK" using high unfolding DOUBLE_CHUNK_def by simp
    have b5: "carry < DOUBLE_CHUNK" using \<open>carry \<le> factor\<close> assms by simp
    show ?thesis
      unfolding mul64_digit_def Let_def low_def [symmetric] high_def [symmetric] mod_less [OF b2] mod_less [OF b4]
        mod_less [OF b3] tmp_def [symmetric] mod_less [OF b1] carry_def [symmetric] mod_less [OF b5] ..
  qed
  ultimately show "fst (mul64_digit factor d c) < BIGIT \<and> snd (mul64_digit factor d c) \<le> factor
    \<and> fst (mul64_digit factor d c) + BIGIT * snd (mul64_digit factor d c) = factor * d + c"
    using exact by (simp add: algebra_simps)
qed

lemma digit_loop_correct:
  assumes "scales f k m" "digits_ok bs" "n \<le> kBigitCapacity" "val bs < BIGIT ^ n"
  obtains bs' c where "digit_loop f n bs = (bs', c)" "digits_ok bs'" "c \<le> m" "val bs' + c * BIGIT ^ n = k * val bs"
    "val bs' < BIGIT ^ n"
proof -
  have "digits_ok (fst (digit_loop f i bs)) \<and> snd (digit_loop f i bs) \<le> m
     \<and> val (take i (fst (digit_loop f i bs))) + snd (digit_loop f i bs) * BIGIT ^ i = k * val (take i bs)
     \<and> drop i (fst (digit_loop f i bs)) = drop i bs" if "i \<le> n" for i
    using that
  proof (induction i)
    case 0 then show ?case using assms(2) by (simp add: digit_loop_def)
  next
    case (Suc i)
    obtain cs c where s: "digit_loop f i bs = (cs, c)" by fastforce
    with Suc have ih: "digits_ok cs" "c \<le> m" "val (take i cs) + c * BIGIT ^ i = k * val (take i bs)"
      "drop i cs = drop i bs" by auto
    have i: "i < kBigitCapacity" "i < length cs" "i < length bs"
      using Suc.prems assms(2,3) ih(1) by (auto simp: digits_ok_def)
    have same: "cs ! i = bs ! i" using ih(4) i by (metis hd_drop_conv_nth)
    obtain d c' where f: "f (cs ! i) c = (d, c')" by fastforce
    note step = scalesD [OF assms(1) digits_ok_nth [OF ih(1) i(1)] ih(2) f, unfolded same]
    have "digit_loop f (Suc i) bs = (cs[i := d], c')" using s f by (simp add: digit_loop_def)
    moreover have "val (take (Suc i) (cs[i := d])) + c' * BIGIT ^ Suc i
        = val (take i cs) + (d + BIGIT * c') * BIGIT ^ i"
      using i by (simp add: val_take_Suc algebra_simps)
    moreover have "\<dots> = k * val (take (Suc i) bs)"
      using ih(3) i by (simp add: step(3) val_take_Suc algebra_simps)
    moreover have "drop (Suc i) (cs[i := d]) = drop (Suc i) bs"
      using ih(4) by (metis drop_drop drop_update_cancel lessI plus_1_eq_Suc)
    ultimately show ?case using ih(1) step(1,2) by (simp add: digits_ok_update)
  qed
  from this [of n] obtain bs' c where r: "digit_loop f n bs = (bs', c)" "digits_ok bs'" "c \<le> m"
    "val (take n bs') + c * BIGIT ^ n = k * val (take n bs)" "drop n bs' = drop n bs"
    by (cases "digit_loop f n bs") auto
  have u: "val (take n bs) = val bs" "val (drop n bs) = 0"
    using val_used [OF assms(4)] assms(2,3) by (auto simp: digits_ok_def)
  have v: "val bs' = val (take n bs')"
    using val_split [of n bs'] r(2,5) u(2) assms(3) by (simp add: digits_ok_def)
  show ?thesis using that [OF r(1-3)] r(4) v u(1) digits_ok_take [OF r(2) assms(3)] by simp
qed

lemma power_BIGIT_le: "BIGIT ^ n \<le> BIGIT ^ m \<longleftrightarrow> n \<le> m" "BIGIT ^ n < BIGIT ^ m \<longleftrightarrow> n < m"
  using BIGIT_pos(5) by (auto intro: power_increasing power_strict_increasing simp del: BIGIT_pos)

lemma carry_split: "r * BIGIT ^ n + q * BIGIT ^ (n + 1) = (q * BIGIT + r) * BIGIT ^ n"
  by (simp add: algebra_simps)

lemma append_carry_correct:
  assumes "digits_ok bs" "used \<le> kBigitCapacity" "val bs < BIGIT ^ used"
    "val bs + carry * BIGIT ^ used < BIGIT ^ kBigitCapacity"
  shows "\<exists>bs' used'. append_carry bs used carry = Some (bs', used') \<and> digits_ok bs' \<and> used \<le> used'
    \<and> used' \<le> kBigitCapacity \<and> val bs' = val bs + carry * BIGIT ^ used \<and> val bs' < BIGIT ^ used'
    \<and> (used < used' \<longrightarrow> BIGIT ^ (used' - 1) \<le> val bs')"
  using assms
proof (induction bs used carry rule: append_carry.induct)
  case (1 bs used carry)
  show ?case
  proof (cases "carry = 0")
    case True
    then show ?thesis using 1 by (simp add: append_carry.simps)
  next
    case False
    let ?bs = "bs[used := carry mod BIGIT]"
    have "BIGIT ^ used < BIGIT ^ kBigitCapacity"
      using False 1(5) by (metis One_nat_def Suc_leI le_add2 le_less_trans mult_le_mono1 mult_1 neq0_conv)
    then have used: "used < kBigitCapacity" by (simp add: power_BIGIT_le)
    then have "bs ! used = 0" using val_high_zero [OF 1(4)] 1(2) by (simp add: digits_ok_def)
    then have v: "val ?bs = val bs + carry mod BIGIT * BIGIT ^ used"
      using val_update [of used bs "carry mod BIGIT"] used 1(2) by (simp add: digits_ok_def)
    have ok: "digits_ok ?bs" using 1(2) by (simp add: digits_ok_update)
    have split: "val ?bs + carry div BIGIT * BIGIT ^ (used + 1) = val bs + carry * BIGIT ^ used"
      using carry_split [of "carry mod BIGIT" used "carry div BIGIT"] by (simp add: v)
    have "val ?bs < BIGIT ^ (used + 1)"
    proof -
      have "val ?bs < (carry mod BIGIT + 1) * BIGIT ^ used" using 1(4) by (simp add: v)
      also have "\<dots> \<le> BIGIT * BIGIT ^ used" by (intro mult_le_mono1) (simp add: Suc_leI)
      finally show ?thesis by simp
    qed
    then obtain bs' used' where r: "append_carry ?bs (used + 1) (carry div BIGIT) = Some (bs', used')" "digits_ok bs'"
      "used + 1 \<le> used'" "used' \<le> kBigitCapacity" "val bs' = val bs + carry * BIGIT ^ used" "val bs' < BIGIT ^ used'"
      "used + 1 < used' \<longrightarrow> BIGIT ^ (used' - 1) \<le> val bs'"
      using 1(1) [OF False] used ok 1(5) split by auto
    have "BIGIT ^ used \<le> val bs'" using False r(5) by (cases carry) auto
    then have "BIGIT ^ (used' - 1) \<le> val bs'" using r(3,7) by (cases "used' = used + 1") auto
    then show ?thesis using r used False by (subst append_carry.simps) auto
  qed
qed

lemma mul_by_correct:
  assumes "scales f k k" "bn_inv b" "0 < k" "mantissa b * k < BIGIT ^ kBigitCapacity"
  obtains b' where "mul_by f b = Some b'" "bn_inv b'" "mantissa b' = mantissa b * k" "exponent b' = exponent b"
proof -
  let ?n = "used_digits b"
  have b: "digits_ok (bigits b)" "?n \<le> kBigitCapacity" "mantissa b < BIGIT ^ ?n" using assms(2) by (auto simp: bn_inv_def bn_ok_def)
  obtain bs c where d: "digit_loop f ?n (bigits b) = (bs, c)" "digits_ok bs" "val bs + c * BIGIT ^ ?n = k * mantissa b"
    "val bs < BIGIT ^ ?n" using digit_loop_correct [OF assms(1) b] by metis
  obtain bs' n where a: "append_carry bs ?n c = Some (bs', n)" "digits_ok bs'" "?n \<le> n" "n \<le> kBigitCapacity"
    "val bs' = k * mantissa b" "val bs' < BIGIT ^ n" "?n < n \<longrightarrow> BIGIT ^ (n - 1) \<le> val bs'"
    using append_carry_correct [OF d(2) b(2) d(4), of c] d(3) assms(4) by (auto simp: mult.commute)
  let ?b = "\<lparr>bigits = bs', used_digits = n, exponent = exponent b\<rparr>"
  have "mul_by f b = Some ?b" using d(1) a(1) by (cases b) (simp add: mul_by_def)
  moreover have "bn_inv ?b"
  proof (cases "?n = 0")
    case True
    then have "mantissa b = 0" using b(3) by simp
    then have "c = 0" using d(3) True by simp
    then have "n = ?n" using a(1) by (simp add: append_carry.simps [of _ _ 0])
    then show ?thesis using a(2,6) True assms(2) by (auto simp: bn_inv_def bn_ok_def IsClamped_def)
  next
    case False
    then have "BIGIT ^ (?n - 1) \<le> mantissa b" by (rule IsClamped_val [OF assms(2)])
    moreover have "mantissa b \<le> val bs'" using a(5) assms(3) by (cases k) auto
    ultimately have "BIGIT ^ (n - 1) \<le> val bs'" using a(3,7) by (cases "n = ?n") auto
    then show ?thesis using a False by (intro bn_inv_intro) auto
  qed
  ultimately show ?thesis using that a(5) by (simp add: mult.commute)
qed

lemma MultiplyByUInt32_ok:
  assumes "bn_inv b" "factor < CHUNK" "mantissa b * factor < BIGIT ^ kBigitCapacity"
  obtains b' where "MultiplyByUInt32 b factor = Some b'" "bn_inv b'" "mantissa b' = mantissa b * factor"
    "exponent b' = (if factor = 0 then 0 else exponent b)"
proof -
  consider "factor = 1" | "factor = 0" | "used_digits b = 0" "factor > 1" | "used_digits b \<noteq> 0" "factor > 1"
    by (cases "factor = 0"; cases "factor = 1"; cases "used_digits b = 0") auto
  then show ?thesis
  proof cases
    case 1 then show ?thesis using that assms(1) by (auto simp: MultiplyByUInt32_def)
  next
    case 2 then show ?thesis using that Zero_eq [of b] bn_inv_new assms(1)
      by (auto simp: MultiplyByUInt32_def bn_inv_def Bignum_new_def)
  next
    case 3
    then have "mantissa b = 0" using assms(1) by (simp add: bn_inv_def bn_ok_def)
    then show ?thesis using 3 that assms(1) by (auto simp: MultiplyByUInt32_def)
  next
    case 4
    then show ?thesis using that mul_by_correct [OF scales_mul32 [OF assms(2)] assms(1) _ assms(3)]
      by (auto simp: MultiplyByUInt32_def)
  qed
qed

lemma MultiplyByUInt64_ok:
  assumes "bn_inv b" "factor < DOUBLE_CHUNK" "mantissa b * factor < BIGIT ^ kBigitCapacity"
  obtains b' where "MultiplyByUInt64 b factor = Some b'" "bn_inv b'" "mantissa b' = mantissa b * factor"
    "exponent b' = (if factor = 0 then 0 else exponent b)"
proof -
  consider "factor = 1" | "factor = 0" | "factor > 1" by fastforce
  then show ?thesis
  proof cases
    case 1 then show ?thesis using that assms(1) by (auto simp: MultiplyByUInt64_def)
  next
    case 2 then show ?thesis using that Zero_eq [of b] bn_inv_new assms(1)
      by (auto simp: MultiplyByUInt64_def bn_inv_def Bignum_new_def)
  next
    case 3
    then show ?thesis using that mul_by_correct [OF scales_mul64 [OF assms(2)] assms(1) _ assms(3)]
      by (auto simp: MultiplyByUInt64_def)
  qed
qed

lemma ShiftLeft_ok:
  assumes "bn_inv b" "used_digits b < kBigitCapacity"
  obtains b' where "ShiftLeft b s = Some b'" "bn_inv b'" "bn_value b' = bn_value b * 2 ^ s"
proof (cases "used_digits b = 0")
  case True
  then have "mantissa b = 0" using assms(1) by (simp add: bn_inv_def bn_ok_def)
  then show ?thesis using that [of b] True assms(1) by (simp add: ShiftLeft_def bn_value_def)
next
  case False
  let ?n = "used_digits b" and ?k = "2 ^ (s mod 28) :: nat"
  have b: "digits_ok (bigits b)" "?n \<le> kBigitCapacity" "mantissa b < BIGIT ^ ?n" using assms(1) by (auto simp: bn_inv_def bn_ok_def)
  obtain bs c where d: "digit_loop (shift_digit (s mod 28)) ?n (bigits b) = (bs, c)" "digits_ok bs" "c \<le> ?k - 1"
    "val bs + c * BIGIT ^ ?n = ?k * mantissa b" "val bs < BIGIT ^ ?n"
    using digit_loop_correct [OF scales_shift b] by (metis mod_less_divisor zero_less_numeral)
  have "?k \<le> 2 ^ 28" by (intro power_increasing) (auto simp: less_imp_le)
  then have c: "c < BIGIT" using d(3) by (simp add: BIGIT_def)
  have z: "bs ! ?n = 0" using val_high_zero [OF d(5)] assms(2) d(2) by (simp add: digits_ok_def)
  have v: "val (bs[?n := c]) = ?k * mantissa b"
    using val_update [of ?n bs c] assms(2) d(2,4) z by (simp add: digits_ok_def)
  define n where "n = (if c = 0 then ?n else ?n + 1)"
  let ?b = "\<lparr>bigits = bs[?n := c], used_digits = n, exponent = exponent b + s div 28\<rparr>"
  have "bs[?n := 0] = bs" using z by (metis list_update_id)
  then have e: "ShiftLeft b s = Some ?b"
    using False assms(2) d(1) by (cases b) (auto simp: ShiftLeft_def EnsureCapacity_def BigitsShiftLeft_def n_def)
  have "BIGIT ^ (?n - 1) \<le> mantissa b" by (rule IsClamped_val [OF assms(1) False])
  also have "\<dots> \<le> ?k * mantissa b" by simp
  finally have low: "BIGIT ^ (?n - 1) \<le> val (bs[?n := c])" by (simp add: v)
  have "val (bs[?n := c]) < BIGIT ^ n \<and> BIGIT ^ (n - 1) \<le> val (bs[?n := c])"
  proof (cases "c = 0")
    case True then show ?thesis using d(5) low \<open>bs[?n := 0] = bs\<close> by (simp add: n_def)
  next
    case c0: False
    have "val (bs[?n := c]) < (c + 1) * BIGIT ^ ?n" using d(4,5) v by simp
    also have "\<dots> \<le> BIGIT * BIGIT ^ ?n" using c by (intro mult_le_mono1) simp
    finally show ?thesis using c0 d(4) v by (cases c) (auto simp: n_def)
  qed
  then have "bn_inv ?b" using d(2) c assms(2) False by (intro bn_inv_intro digits_ok_update) (auto simp: n_def)
  moreover have "bn_value ?b = bn_value b * 2 ^ s"
  proof -
    have "?k * BIGIT ^ (s div 28) = 2 ^ (s mod 28 + 28 * (s div 28))"
      unfolding BIGIT_def power_mult [symmetric] by (rule power_add [symmetric])
    then have "?k * BIGIT ^ (s div 28) = 2 ^ s" by (simp add: mod_mult_div_eq)
    then have "mantissa b * BIGIT ^ exponent b * (?k * BIGIT ^ (s div 28)) = bn_value b * 2 ^ s" by (simp add: bn_value_def)
    then show ?thesis by (simp add: bn_value_def v power_add algebra_simps)
  qed
  ultimately show ?thesis using that e by blast
qed

text \<open>
  Multiplication by a 32-bit number is exact, and the only failure is the end of the buffer: if
  the product fits into the 128 bigits then the operation succeeds, keeps the representation
  invariant and multiplies the value; in particular the 64-bit intermediate never overflows.
\<close>

theorem MultiplyByUInt32_exact:
  assumes "bn_inv b" "factor < CHUNK" "mantissa b * factor < BIGIT ^ kBigitCapacity"
  shows "\<exists>b'. MultiplyByUInt32 b factor = Some b' \<and> bn_inv b' \<and> bn_value b' = bn_value b * factor"
  using MultiplyByUInt32_ok [OF assms] by (metis bn_value_def mult.commute mult.left_commute mult_0_right)

theorem MultiplyByUInt32_exact_witness:
  "\<exists>b. MultiplyByUInt32 (of_bigits [BIGIT - 1] 3) 10 = Some b \<and> bn_value b = (2 ^ 28 - 1) * 2 ^ 84 * 10"
  using MultiplyByUInt32_exact [OF of_bigits_inv [of "[BIGIT - 1]" 3], of 10]
  by (simp add: of_bigits_value concrete) blast

end
