(* ===== verification/Bignum_Arith.thy ===== *)
theory Bignum_Arith
  imports Bignum
begin

text \<open>
  The arithmetic of \<^verbatim>\<open>src/bignum.cc\<close> on top of the representation of \<open>Bignum\<close>: powers of ten,
  addition, subtraction, comparison, and division with a small quotient.
\<close>

section \<open>Powers of ten\<close>

definition kFive27 :: nat where "kFive27 = 0x6765c793fa10079d"
definition kFive13 :: nat where "kFive13 = 5 * 244140625"

definition kFive1_to_12 :: "nat list" where
  "kFive1_to_12 = [5, 25, 125, 625, 3125, 15625, 78125, 390625, 1953125, 9765625, 48828125, 244140625]"

text \<open>The two loops that multiply by \<open>factor\<close> while at least \<open>step\<close> powers of five remain.\<close>

function five_loop :: "(bignum \<Rightarrow> bignum option) \<Rightarrow> nat \<Rightarrow> bignum \<Rightarrow> nat \<Rightarrow> (bignum \<times> nat) option" where
  "five_loop mul step b remaining =
     (if step = 0 \<or> remaining < step then Some (b, remaining)
      else case mul b of None \<Rightarrow> None | Some b \<Rightarrow> five_loop mul step b (remaining - step))"
  by pat_completeness auto
termination by (relation "measure (\<lambda>(mul, step, b, remaining). remaining)") auto

declare five_loop.simps [simp del]

definition MultiplyByPowerOfTen :: "bignum \<Rightarrow> nat \<Rightarrow> bignum option" where
  "MultiplyByPowerOfTen b e =
     (if e = 0 then Some b
      else if used_digits b = 0 then Some b
      else case five_loop (\<lambda>b. MultiplyByUInt64 b kFive27) 27 b e of
        None \<Rightarrow> None
      | Some (b, r) \<Rightarrow>
         (case five_loop (\<lambda>b. MultiplyByUInt32 b kFive13) 13 b r of
            None \<Rightarrow> None
          | Some (b, r) \<Rightarrow>
             (case (if r > 0 then MultiplyByUInt32 b (kFive1_to_12 ! (r - 1)) else Some b) of
                None \<Rightarrow> None
              | Some b \<Rightarrow> ShiftLeft b e)))"

lemma kFive_powers: "kFive27 = 5 ^ 27" "kFive13 = 5 ^ 13" "kFive27 < DOUBLE_CHUNK" "kFive13 < CHUNK"
  by (auto simp: kFive27_def kFive13_def DOUBLE_CHUNK_def CHUNK_def)

lemma kFive1_to_12_eq: "kFive1_to_12 = map (\<lambda>i. 5 ^ Suc i) [0..<12]"
  by (simp add: kFive1_to_12_def upt_rec)

lemma kFive1_to_12_power:
  assumes "0 < r" "r < 13"
  shows "kFive1_to_12 ! (r - 1) = 5 ^ r" "kFive1_to_12 ! (r - 1) < CHUNK"
proof -
  obtain q where "r = Suc q" "q < 12" using assms by (cases r) auto
  then show e: "kFive1_to_12 ! (r - 1) = 5 ^ r" unfolding kFive1_to_12_eq by (subst nth_map) auto
  have "(5::nat) ^ r \<le> 5 ^ 12" using assms(2) by (intro power_increasing) auto
  then show "kFive1_to_12 ! (r - 1) < CHUNK" unfolding e by (simp add: CHUNK_def)
qed

lemma mul_five27:
  "bn_inv b \<Longrightarrow> mantissa b * 5 ^ 27 < BIGIT ^ kBigitCapacity \<Longrightarrow>
    \<exists>b'. MultiplyByUInt64 b kFive27 = Some b' \<and> bn_inv b' \<and> mantissa b' = mantissa b * 5 ^ 27 \<and> exponent b' = exponent b"
  using MultiplyByUInt64_ok [OF _ kFive_powers(3), of b] unfolding kFive_powers(1) by (auto simp del: power_numeral)

lemma mul_five13:
  "bn_inv b \<Longrightarrow> mantissa b * 5 ^ 13 < BIGIT ^ kBigitCapacity \<Longrightarrow>
    \<exists>b'. MultiplyByUInt32 b kFive13 = Some b' \<and> bn_inv b' \<and> mantissa b' = mantissa b * 5 ^ 13 \<and> exponent b' = exponent b"
  using MultiplyByUInt32_ok [OF _ kFive_powers(4), of b] unfolding kFive_powers(2) by (auto simp del: power_numeral)

lemma five_loop_correct:
  assumes step: "\<And>b. bn_inv b \<Longrightarrow> mantissa b * 5 ^ step < BIGIT ^ kBigitCapacity \<Longrightarrow>
      \<exists>b'. mul b = Some b' \<and> bn_inv b' \<and> mantissa b' = mantissa b * 5 ^ step \<and> exponent b' = exponent b"
    and "0 < step"
  shows "bn_inv b \<Longrightarrow> mantissa b * 5 ^ r < BIGIT ^ kBigitCapacity \<Longrightarrow>
    \<exists>b'. five_loop mul step b r = Some (b', r mod step) \<and> bn_inv b'
      \<and> mantissa b' = mantissa b * 5 ^ (r - r mod step) \<and> exponent b' = exponent b"
proof (induction r arbitrary: b rule: less_induct)
  case (less r)
  show ?case
  proof (cases "r < step")
    case True
    then show ?thesis using less.prems assms(2) by (simp add: five_loop.simps)
  next
    case False
    have "mantissa b * 5 ^ step \<le> mantissa b * 5 ^ r" using False by (intro mult_le_mono2 power_increasing) auto
    then obtain b' where b': "mul b = Some b'" "bn_inv b'" "mantissa b' = mantissa b * 5 ^ step" "exponent b' = exponent b"
      using step [OF less.prems(1)] less.prems(2) by (meson le_less_trans)
    have p: "5 ^ step * 5 ^ (r - step) = (5 ^ r :: nat)" using False by (simp flip: power_add)
    then have "mantissa b' * 5 ^ (r - step) < BIGIT ^ kBigitCapacity" using less.prems b'(3) by (simp add: mult.assoc)
    then obtain b2 where b2: "five_loop mul step b' (r - step) = Some (b2, (r - step) mod step)" "bn_inv b2"
      "mantissa b2 = mantissa b' * 5 ^ (r - step - (r - step) mod step)" "exponent b2 = exponent b'"
      using less.IH [of "r - step" b'] b'(2) False assms(2) by auto
    have m: "(r - step) mod step = r mod step" using False by (simp add: le_mod_geq)
    then have "5 ^ step * 5 ^ (r - step - r mod step) = (5 ^ (r - r mod step) :: nat)"
      using False mod_less_eq_dividend [of "r - step" step] by (simp flip: power_add)
    then show ?thesis using b'(1,3,4) b2 m False assms(2)
      by (subst five_loop.simps) (simp add: mult.assoc)
  qed
qed

lemma bn_inv_used: "bn_inv b \<Longrightarrow> mantissa b < BIGIT ^ n \<Longrightarrow> used_digits b \<le> n"
  using IsClamped_val [of b] power_BIGIT_le(2) [of "used_digits b - 1" n]
  by (cases "used_digits b = 0") (auto dest: le_less_trans)

text \<open>
  Multiplication by a power of ten is exact whenever the odd part of the product leaves one bigit
  of the buffer free: the table of powers of five, the two loops and the final shift together
  multiply the value by \<open>10 ^ e\<close>.
\<close>

theorem MultiplyByPowerOfTen_exact:
  assumes "bn_inv b" "mantissa b * 5 ^ e < BIGIT ^ (kBigitCapacity - 1)"
  shows "\<exists>b'. MultiplyByPowerOfTen b e = Some b' \<and> bn_inv b' \<and> bn_value b' = bn_value b * 10 ^ e"
proof (cases "e = 0 \<or> used_digits b = 0")
  case True
  then have "e = 0 \<or> mantissa b = 0" using assms(1) by (auto simp: bn_inv_def bn_ok_def)
  then show ?thesis using True assms(1) by (auto simp: MultiplyByPowerOfTen_def bn_value_def)
next
  case False
  have cap: "BIGIT ^ (kBigitCapacity - 1) < BIGIT ^ kBigitCapacity" by (simp add: power_BIGIT_le)
  let ?r = "e mod 27" and ?q = "e mod 27 mod 13"
  have "mantissa b * 5 ^ e < BIGIT ^ kBigitCapacity" using assms(2) cap by linarith
  then obtain b1 where b1: "five_loop (\<lambda>b. MultiplyByUInt64 b kFive27) 27 b e = Some (b1, ?r)" "bn_inv b1"
    "mantissa b1 = mantissa b * 5 ^ (e - ?r)" "exponent b1 = exponent b"
    using five_loop_correct [OF mul_five27 _ assms(1), of e] by auto
  have m1: "mantissa b1 * 5 ^ ?r = mantissa b * 5 ^ e"
    unfolding b1(3) mult.assoc power_add [symmetric] by simp
  then obtain b2 where b2: "five_loop (\<lambda>b. MultiplyByUInt32 b kFive13) 13 b1 ?r = Some (b2, ?q)" "bn_inv b2"
    "mantissa b2 = mantissa b1 * 5 ^ (?r - ?q)" "exponent b2 = exponent b"
    using five_loop_correct [OF mul_five13 _ b1(2), of ?r] b1(4) assms(2) cap by auto
  have m2: "mantissa b2 * 5 ^ ?q = mantissa b * 5 ^ e"
    unfolding b2(3) m1 [symmetric] mult.assoc power_add [symmetric] by simp
  obtain b3 where b3: "(if ?q > 0 then MultiplyByUInt32 b2 (kFive1_to_12 ! (?q - 1)) else Some b2) = Some b3"
    "bn_inv b3" "mantissa b3 = mantissa b * 5 ^ e" "exponent b3 = exponent b"
  proof (cases "?q = 0")
    case True then show ?thesis using that [of b2] b2(2,4) m2 by simp
  next
    case q: False
    then have f: "kFive1_to_12 ! (?q - 1) = 5 ^ ?q" "kFive1_to_12 ! (?q - 1) < CHUNK"
      using kFive1_to_12_power [of ?q] by simp_all
    then have "mantissa b2 * kFive1_to_12 ! (?q - 1) < BIGIT ^ kBigitCapacity" using m2 assms(2) cap by simp
    then show ?thesis using that MultiplyByUInt32_ok [OF b2(2) f(2)] q f(1) m2 b2(4) by (metis neq0_conv power_not_zero zero_neq_numeral)
  qed
  have "used_digits b3 < kBigitCapacity" using bn_inv_used [OF b3(2), of "kBigitCapacity - 1"] b3(3) assms(2)
    by (simp add: kBigitCapacity_def)
  then obtain b4 where "ShiftLeft b3 e = Some b4" "bn_inv b4" "bn_value b4 = bn_value b3 * 2 ^ e"
    using ShiftLeft_ok [OF b3(2)] by metis
  moreover have "bn_value b3 * 2 ^ e = bn_value b * 10 ^ e"
    using power_mult_distrib [of "5 :: nat" 2 e] by (simp add: bn_value_def b3(3,4))
  ultimately show ?thesis using False b1(1) b2(1) b3(1) by (simp add: MultiplyByPowerOfTen_def)
qed

theorem MultiplyByPowerOfTen_exact_witness:
  "\<exists>b. MultiplyByPowerOfTen (of_bigits [1] 0) 30 = Some b \<and> bn_value b = 10 ^ 30"
  using MultiplyByPowerOfTen_exact [OF of_bigits_inv [of "[1]" 0], of 30]
  by (simp add: of_bigits_value concrete) blast

section \<open>Addition\<close>

definition add_digits :: "nat \<Rightarrow> nat list \<Rightarrow> nat \<Rightarrow> nat list \<Rightarrow> nat list \<times> nat" where
  "add_digits off ds n bs =
     fold (\<lambda>i (bs, carry).
        let sum = (bs ! (off + i) + ds ! i + carry) mod CHUNK
        in (bs[off + i := sum mod BIGIT], sum div BIGIT)) [0..<n] (bs, 0)"

function add_carry :: "nat list \<Rightarrow> nat \<Rightarrow> nat \<Rightarrow> (nat list \<times> nat) option" where
  "add_carry bs pos carry =
     (if carry = 0 then Some (bs, pos)
      else if pos \<ge> length bs then None
      else let sum = (bs ! pos + carry) mod CHUNK
           in add_carry (bs[pos := sum mod BIGIT]) (pos + 1) (sum div BIGIT))"
  by pat_completeness auto
termination by (relation "measure (\<lambda>(bs, pos, carry). length bs - pos)") auto

declare add_carry.simps [simp del]

definition AddBignum :: "bignum \<Rightarrow> bignum \<Rightarrow> bignum option" where
  "AddBignum b other =
     (case Align b other of
        None \<Rightarrow> None
      | Some b \<Rightarrow>
         EnsureCapacity (1 + max (BigitLength b) (BigitLength other) - exponent b)
           (let off = exponent other - exponent b;
                (bs, carry) = add_digits off (bigits other) (used_digits other) (bigits b)
            in case add_carry bs (off + used_digits other) carry of
                 None \<Rightarrow> None
               | Some (bs, pos) \<Rightarrow> Some (b\<lparr>bigits := bs, used_digits := max pos (used_digits b)\<rparr>)))"

definition AddUInt64 :: "bignum \<Rightarrow> nat \<Rightarrow> bignum option" where
  "AddUInt64 b operand =
     (if operand = 0 then Some b
      else case AssignUInt64 Bignum_new operand of None \<Rightarrow> None | Some other \<Rightarrow> AddBignum b other)"

lemma sum_exact:
  assumes "x < BIGIT" "y < BIGIT" "c \<le> 1"
  shows "(x + y + c) mod CHUNK = x + y + c" "(x + y + c) div BIGIT \<le> 1"
  using assms by (auto simp: BIGIT_def CHUNK_def)

lemma add_digits_correct:
  assumes "digits_ok bs" "digits_ok ds" "off + n \<le> kBigitCapacity"
  shows "\<exists>bs' c. add_digits off ds n bs = (bs', c) \<and> digits_ok bs' \<and> c \<le> 1
    \<and> val bs' + c * BIGIT ^ (off + n) = val bs + val (take n ds) * BIGIT ^ off \<and> (\<forall>i \<ge> off + n. bs' ! i = bs ! i)"
  using assms(3)
proof (induction n)
  case 0 then show ?case using assms(1) by (simp add: add_digits_def)
next
  case (Suc n)
  then obtain cs c where ih: "add_digits off ds n bs = (cs, c)" "digits_ok cs" "c \<le> 1"
    "val cs + c * BIGIT ^ (off + n) = val bs + val (take n ds) * BIGIT ^ off"
    "\<forall>i \<ge> off + n. cs ! i = bs ! i" by auto
  have i: "off + n < kBigitCapacity" "n < kBigitCapacity" using Suc.prems by auto
  define sum where "sum = cs ! (off + n) + ds ! n + c"
  have s: "sum mod CHUNK = sum" "sum div BIGIT \<le> 1"
    using sum_exact digits_ok_nth [OF ih(2) i(1)] digits_ok_nth [OF assms(2) i(2)] ih(3) unfolding sum_def by auto
  have e: "add_digits off ds (Suc n) bs = (cs[off + n := sum mod BIGIT], sum div BIGIT)"
    using ih(1) s(1) by (simp add: add_digits_def sum_def Let_def)
  have "val (cs[off + n := sum mod BIGIT]) + cs ! (off + n) * BIGIT ^ (off + n)
      = val cs + sum mod BIGIT * BIGIT ^ (off + n)"
    using ih(2) i by (intro val_update) (simp add: digits_ok_def)
  moreover have "sum mod BIGIT * BIGIT ^ (off + n) + sum div BIGIT * BIGIT ^ (off + n + 1) = sum * BIGIT ^ (off + n)"
    using carry_split [of "sum mod BIGIT" "off + n" "sum div BIGIT"] by simp
  moreover have "sum * BIGIT ^ (off + n) = cs ! (off + n) * BIGIT ^ (off + n) + ds ! n * BIGIT ^ n * BIGIT ^ off + c * BIGIT ^ (off + n)"
    by (simp add: sum_def algebra_simps power_add)
  moreover have "val (take (Suc n) ds) * BIGIT ^ off = val (take n ds) * BIGIT ^ off + ds ! n * BIGIT ^ n * BIGIT ^ off"
    using assms(2) i by (simp add: val_take_Suc digits_ok_def algebra_simps)
  ultimately have "val (cs[off + n := sum mod BIGIT]) + sum div BIGIT * BIGIT ^ (off + Suc n)
      = val bs + val (take (Suc n) ds) * BIGIT ^ off" using ih(4) by (simp add: add.commute)
  then show ?case using e s(2) digits_ok_update [OF ih(2)] ih(5) by simp
qed

lemma add_carry_correct:
  assumes "digits_ok bs" "pos \<le> kBigitCapacity" "carry \<le> 1" "val bs + carry * BIGIT ^ pos < BIGIT ^ kBigitCapacity"
  shows "\<exists>bs' pos'. add_carry bs pos carry = Some (bs', pos') \<and> digits_ok bs' \<and> pos \<le> pos' \<and> pos' \<le> kBigitCapacity
    \<and> val bs' = val bs + carry * BIGIT ^ pos \<and> (carry \<noteq> 0 \<longrightarrow> pos < pos')
    \<and> (pos < pos' \<longrightarrow> bs' ! (pos' - 1) \<noteq> 0) \<and> (\<forall>i \<ge> pos'. bs' ! i = bs ! i)"
  using assms
proof (induction bs pos carry rule: add_carry.induct)
  case (1 bs pos carry)
  show ?case
  proof (cases "carry = 0")
    case True then show ?thesis using 1 by (simp add: add_carry.simps [of _ _ 0])
  next
    case False
    then have c: "carry = 1" using 1(4) by simp
    define sum where "sum = bs ! pos + 1"
    let ?bs = "bs[pos := sum mod BIGIT]"
    have len: "length bs = kBigitCapacity" using 1(2) by (simp add: digits_ok_def)
    have pos: "pos < length bs"
    proof (rule ccontr)
      assume "\<not> pos < length bs"
      then show False using 1(3,5) c len by simp
    qed
    have s: "sum mod CHUNK = sum" "sum \<le> BIGIT" "sum div BIGIT \<le> 1"
      using digits_ok_nth [OF 1(2), of pos] pos len by (auto simp: sum_def BIGIT_def CHUNK_def)
    have "val ?bs + bs ! pos * BIGIT ^ pos = val bs + sum mod BIGIT * BIGIT ^ pos" using pos by (rule val_update)
    moreover have "sum mod BIGIT * BIGIT ^ pos + sum div BIGIT * BIGIT ^ (pos + 1) = sum * BIGIT ^ pos"
      using carry_split [of "sum mod BIGIT" pos "sum div BIGIT"] by simp
    ultimately have v: "val ?bs + sum div BIGIT * BIGIT ^ (pos + 1) = val bs + carry * BIGIT ^ pos"
      by (simp add: sum_def c)
    have ok: "digits_ok ?bs" using 1(2) by (simp add: digits_ok_update)
    have ind: "\<exists>bs' pos'. add_carry ?bs (pos + 1) (sum div BIGIT) = Some (bs', pos') \<and> digits_ok bs' \<and> pos + 1 \<le> pos'
      \<and> pos' \<le> kBigitCapacity \<and> val bs' = val ?bs + sum div BIGIT * BIGIT ^ (pos + 1)
      \<and> (sum div BIGIT \<noteq> 0 \<longrightarrow> pos + 1 < pos')
      \<and> (pos + 1 < pos' \<longrightarrow> bs' ! (pos' - 1) \<noteq> 0) \<and> (\<forall>i \<ge> pos'. bs' ! i = ?bs ! i)"
      using 1(1) [OF False _ refl] pos s(1,3) ok 1(5) v len c by (simp add: sum_def)
    then obtain bs' pos' where r: "add_carry ?bs (pos + 1) (sum div BIGIT) = Some (bs', pos')" "digits_ok bs'" "pos + 1 \<le> pos'"
      "pos' \<le> kBigitCapacity" "val bs' = val ?bs + sum div BIGIT * BIGIT ^ (pos + 1)"
      "pos + 1 < pos' \<longrightarrow> bs' ! (pos' - 1) \<noteq> 0" "\<forall>i \<ge> pos'. bs' ! i = ?bs ! i"
      "sum div BIGIT \<noteq> 0 \<longrightarrow> pos + 1 < pos'" by blast
    have "bs' ! (pos' - 1) \<noteq> 0"
    proof (cases "pos' = pos + 1")
      case True
      then have z: "sum div BIGIT = 0" using r(8) by simp
      then have "bs' = ?bs" using r(1) by (simp add: add_carry.simps [of _ _ 0])
      moreover have "sum mod BIGIT = sum" using z by (simp add: div_eq_0_iff)
      ultimately show ?thesis using True pos by (simp add: sum_def)
    next
      case False then show ?thesis using r(3,6) by simp
    qed
    moreover have "add_carry bs pos carry = Some (bs', pos')"
      using r(1) False pos s(1) c by (subst add_carry.simps) (simp add: sum_def)
    moreover have "\<forall>i \<ge> pos'. bs' ! i = bs ! i" using r(3,7) by simp
    ultimately show ?thesis using r(2,3,4,5) v by auto
  qed
qed

lemma val_zero_high:
  assumes "digits_ok bs" "n \<le> kBigitCapacity" "\<And>i. n \<le> i \<Longrightarrow> i < kBigitCapacity \<Longrightarrow> bs ! i = 0"
  shows "val bs < BIGIT ^ n"
proof -
  have "drop n bs = replicate (kBigitCapacity - n) 0"
    using assms by (intro nth_equalityI) (auto simp: digits_ok_def)
  then have "val bs = val (take n bs)" using val_split [of n bs] assms(1,2) by (simp add: digits_ok_def)
  then show ?thesis using digits_ok_take [OF assms(1,2)] by simp
qed

text \<open>When the operands have a common exponent, the buffer holds the sum of the mantissas.\<close>

lemma add_aligned:
  assumes "bn_ok b" "bn_inv other" "exponent b \<le> exponent other"
    and cap: "1 + max (BigitLength b) (BigitLength other) - exponent b \<le> kBigitCapacity"
    and clamped: "IsClamped b" "used_digits b = 0 \<longrightarrow> exponent b = 0"
  obtains bs carry bs' pos where
    "add_digits (exponent other - exponent b) (bigits other) (used_digits other) (bigits b) = (bs, carry)"
    "add_carry bs (exponent other - exponent b + used_digits other) carry = Some (bs', pos)"
    "val bs' = mantissa b + mantissa other * BIGIT ^ (exponent other - exponent b)"
    "bn_inv \<lparr>bigits = bs', used_digits = max pos (used_digits b), exponent = exponent b\<rparr>"
proof -
  let ?off = "exponent other - exponent b" and ?m = "used_digits other" and ?n = "used_digits b"
  define N where "N = max ?n (?off + ?m)"
  have b: "digits_ok (bigits b)" "mantissa b < BIGIT ^ ?n" using assms(1) by (auto simp: bn_ok_def)
  have o: "digits_ok (bigits other)" "mantissa other < BIGIT ^ ?m" "?m \<le> kBigitCapacity" using assms(2) by (auto simp: bn_inv_def bn_ok_def)
  have N: "N + 1 \<le> kBigitCapacity" "?n \<le> N" "?off + ?m \<le> N"
    using cap assms(3) by (auto simp: N_def BigitLength_def max_def split: if_splits)
  have ot: "val (take ?m (bigits other)) = mantissa other" using val_used [OF o(2)] o(1,3) by (simp add: digits_ok_def)
  obtain bs c where d: "add_digits ?off (bigits other) ?m (bigits b) = (bs, c)" "digits_ok bs" "c \<le> 1"
    "val bs + c * BIGIT ^ (?off + ?m) = mantissa b + mantissa other * BIGIT ^ ?off"
    "\<forall>i \<ge> ?off + ?m. bs ! i = bigits b ! i"
    using add_digits_correct [OF b(1) o(1), of ?off ?m] N ot by auto
  have "mantissa b < BIGIT ^ N" using b(2) N(2) power_BIGIT_le(1) [of ?n N] by linarith
  moreover have "mantissa other * BIGIT ^ ?off < BIGIT ^ N"
  proof -
    have "mantissa other * BIGIT ^ ?off < BIGIT ^ ?m * BIGIT ^ ?off" using o(2) by simp
    also have "\<dots> \<le> BIGIT ^ N" using N(3) power_BIGIT_le(1) [of "?off + ?m" N] by (simp add: power_add mult.commute)
    finally show ?thesis .
  qed
  ultimately have total: "mantissa b + mantissa other * BIGIT ^ ?off < 2 * BIGIT ^ N" by linarith
  also have "\<dots> \<le> BIGIT ^ (N + 1)" by (simp add: BIGIT_def)
  also have "\<dots> \<le> BIGIT ^ kBigitCapacity" using N(1) by (simp add: power_BIGIT_le del: power_Suc)
  finally have "val bs + c * BIGIT ^ (?off + ?m) < BIGIT ^ kBigitCapacity" using d(4) by simp
  then obtain bs' pos where a: "add_carry bs (?off + ?m) c = Some (bs', pos)" "digits_ok bs'" "?off + ?m \<le> pos"
    "pos \<le> kBigitCapacity" "val bs' = mantissa b + mantissa other * BIGIT ^ ?off"
    "?off + ?m < pos \<longrightarrow> bs' ! (pos - 1) \<noteq> 0" "\<forall>i \<ge> pos. bs' ! i = bs ! i"
    using add_carry_correct [OF d(2) _ d(3), of "?off + ?m"] N d(4) by auto
  let ?u = "max pos ?n"
  let ?b = "\<lparr>bigits = bs', used_digits = ?u, exponent = exponent b\<rparr>"
  have u: "?u \<le> kBigitCapacity" using a(4) N by simp
  have high: "bs' ! i = 0" if "?u \<le> i" "i < kBigitCapacity" for i
    using that a(3,7) d(5) val_high_zero [OF b(2), of i] b(1) by (simp add: digits_ok_def)
  have lt: "val bs' < BIGIT ^ ?u" using val_zero_high [OF a(2) u high] .
  then have ok: "bn_ok ?b" using a(2) u by (simp add: bn_ok_def)
  consider "?u = 0" | "pos \<le> ?n" "?n \<noteq> 0" | "?n < pos" "?off + ?m < pos" | "?n < pos" "pos = ?off + ?m"
    using a(3) by fastforce
  then have "?u = 0 \<or> bs' ! (?u - 1) \<noteq> 0"
  proof cases
    case 2
    then have "BIGIT ^ (?n - 1) \<le> mantissa b" using IsClamped_iff [OF assms(1)] clamped(1) by simp
    then show ?thesis using IsClamped_iff [OF ok] 2(1) a(5) by (simp add: IsClamped_def max_absorb2)
  next
    case 3 then show ?thesis using a(6) by (simp add: max_absorb1)
  next
    case 4
    have "?m \<noteq> 0" using 4 assms(2) by (auto simp: bn_inv_def)
    then have "BIGIT ^ (?m - 1) * BIGIT ^ ?off \<le> mantissa other * BIGIT ^ ?off"
      using IsClamped_val [OF assms(2)] by simp
    moreover have "?m - 1 + ?off = pos - 1" using 4 \<open>?m \<noteq> 0\<close> by simp
    ultimately have "BIGIT ^ (pos - 1) \<le> val bs'" using a(5) by (simp flip: power_add)
    then show ?thesis using IsClamped_iff [OF ok] 4(1) by (simp add: IsClamped_def max_absorb1)
  qed simp
  with ok have "bn_inv \<lparr>bigits = bs', used_digits = ?u, exponent = exponent b\<rparr>"
    using clamped(2) by (simp add: bn_inv_def IsClamped_def)
  then show ?thesis using that [OF d(1) a(1)] a(5) by simp
qed

text \<open>
  Addition is exact: if the buffer has room for the sum with one more bigit, aligned to the
  smaller exponent of the two, then \<open>AddBignum\<close> succeeds, keeps the representation invariant and
  adds the values.
\<close>

theorem AddBignum_exact:
  assumes "bn_inv b" "bn_inv other"
    "1 + max (BigitLength b) (BigitLength other) - min (exponent b) (exponent other) \<le> kBigitCapacity"
  shows "\<exists>b'. AddBignum b other = Some b' \<and> bn_inv b' \<and> bn_value b' = bn_value b + bn_value other"
proof -
  have "exponent b \<le> exponent other \<or> used_digits b + (exponent b - exponent other) \<le> kBigitCapacity"
    using assms(3) by (auto simp: BigitLength_def min_def max_def split: if_splits)
  then obtain c where c: "Align b other = Some c" "bn_ok c" "bn_value c = bn_value b"
    "exponent c = min (exponent b) (exponent other)" "BigitLength c = BigitLength b"
    "IsClamped b \<longrightarrow> used_digits b \<noteq> 0 \<longrightarrow> IsClamped c"
    using Align_correct [of b other] assms(1) by (metis bn_inv_def)
  have cl: "IsClamped c \<and> (used_digits c = 0 \<longrightarrow> exponent c = 0)"
  proof (cases "used_digits b = 0")
    case True
    then have "exponent b = 0" using assms(1) by (simp add: bn_inv_def)
    then show ?thesis using c(1,4) assms(1) True by (simp add: Align_def bn_inv_def)
  next
    case False
    then have "IsClamped c" using c(6) assms(1) by (simp add: bn_inv_def)
    moreover have "0 < mantissa b" using IsClamped_val [OF assms(1) False] by (rule less_le_trans [rotated]) simp
    then have "mantissa c \<noteq> 0" using c(3) unfolding bn_value_def by (metis BIGIT_pos(2) mult_eq_0_iff not_gr_zero power_not_zero)
    ultimately show ?thesis using c(2) by (auto simp: bn_ok_def)
  qed
  let ?off = "exponent other - exponent c"
  obtain bs carry bs' pos where r: "add_digits ?off (bigits other) (used_digits other) (bigits c) = (bs, carry)"
    "add_carry bs (?off + used_digits other) carry = Some (bs', pos)"
    "val bs' = mantissa c + mantissa other * BIGIT ^ ?off"
    "bn_inv \<lparr>bigits = bs', used_digits = max pos (used_digits c), exponent = exponent c\<rparr>"
    using add_aligned [OF c(2) assms(2)] assms(3) c(4,5) cl by (metis min.cobounded2)
  have "AddBignum b other = Some \<lparr>bigits = bs', used_digits = max pos (used_digits c), exponent = exponent c\<rparr>"
    using c(1) r(1,2) assms(3) c(4,5) by (cases c) (simp add: AddBignum_def EnsureCapacity_def)
  moreover have "(mantissa c + mantissa other * BIGIT ^ ?off) * BIGIT ^ exponent c = bn_value b + bn_value other"
    using c(3,4) by (simp add: bn_value_def algebra_simps flip: power_add)
  ultimately show ?thesis using r(3,4) by (auto simp: bn_value_def)
qed

theorem AddBignum_exact_witness:
  "\<exists>b. AddBignum (of_bigits [BIGIT - 1] 0) (of_bigits [1] 2) = Some b \<and> bn_value b = 2 ^ 56 + 2 ^ 28 - 1"
  using AddBignum_exact [OF of_bigits_inv [of "[BIGIT - 1]" 0] of_bigits_inv [of "[1]" 2]]
  by (simp add: of_bigits_value concrete) blast

section \<open>Subtraction\<close>

definition sub_digits :: "nat \<Rightarrow> nat list \<Rightarrow> nat \<Rightarrow> nat list \<Rightarrow> nat list \<times> nat" where
  "sub_digits off ds n bs =
     fold (\<lambda>i (bs, borrow).
        let difference = (bs ! (off + i) + 2 * CHUNK - ds ! i - borrow) mod CHUNK
        in (bs[off + i := difference mod BIGIT], difference div 2 ^ 31)) [0..<n] (bs, 0)"

function sub_borrow :: "nat list \<Rightarrow> nat \<Rightarrow> nat \<Rightarrow> nat list option" where
  "sub_borrow bs pos borrow =
     (if borrow = 0 then Some bs
      else if pos \<ge> length bs then None
      else let difference = (bs ! pos + CHUNK - borrow) mod CHUNK
           in sub_borrow (bs[pos := difference mod BIGIT]) (pos + 1) (difference div 2 ^ 31))"
  by pat_completeness auto
termination by (relation "measure (\<lambda>(bs, pos, borrow). length bs - pos)") auto

declare sub_borrow.simps [simp del]

definition SubtractBignum :: "bignum \<Rightarrow> bignum \<Rightarrow> bignum option" where
  "SubtractBignum b other =
     (case Align b other of
        None \<Rightarrow> None
      | Some b \<Rightarrow>
         (let off = exponent other - exponent b;
              (bs, borrow) = sub_digits off (bigits other) (used_digits other) (bigits b)
          in case sub_borrow bs (off + used_digits other) borrow of
               None \<Rightarrow> None
             | Some bs \<Rightarrow> Some (Clamp (b\<lparr>bigits := bs\<rparr>))))"

text \<open>
  One step of a subtraction: the low bits of the wrapped difference are the new bigit, and its sign
  bit is the borrow.
\<close>

lemma diff_exact:
  assumes "x < BIGIT" "y \<le> BIGIT" "k = 1 \<or> k = 2"
  shows "(x + k * CHUNK - y) mod CHUNK mod BIGIT + y = x + (x + k * CHUNK - y) mod CHUNK div 2 ^ 31 * BIGIT"
    "(x + k * CHUNK - y) mod CHUNK div 2 ^ 31 = (if y \<le> x then 0 else 1)"
proof -
  have B: "BIGIT = 268435456" "CHUNK = 4294967296" by (simp_all add: BIGIT_def CHUNK_def)
  let ?d = "(x + k * CHUNK - y) mod CHUNK"
  have "?d mod BIGIT + y = x + ?d div 2 ^ 31 * BIGIT \<and> ?d div 2 ^ 31 = (if y \<le> x then 0 else 1)"
  proof (cases "y \<le> x")
    case True
    then have e: "x + k * CHUNK - y = (x - y) + k * CHUNK" by simp
    have d: "?d = x - y" unfolding e mod_mult_self1 using True assms(1) by (simp add: B mod_less)
    show ?thesis unfolding d using True assms(1) by (simp add: B)
  next
    case False
    define z where "z = y - x"
    have z: "1 \<le> z" "z \<le> BIGIT" "x + z = y" using False assms(2) by (auto simp: z_def)
    have e: "x + k * CHUNK - y = (15 * BIGIT + (BIGIT - z)) + (k - 1) * CHUNK"
      using z assms(2,3) by (auto simp: B)
    have d: "?d = 15 * BIGIT + (BIGIT - z)" unfolding e mod_mult_self1 using z by (simp add: B)
    have "(BIGIT - z) mod BIGIT = BIGIT - z" using z by simp
    then have "?d mod BIGIT = BIGIT - z" unfolding d by (metis mod_mult_self3)
    moreover have "?d div 2 ^ 31 = 1" unfolding d using z by (simp add: B div_nat_eqI)
    ultimately show ?thesis using False z by simp
  qed
  then show "?d mod BIGIT + y = x + ?d div 2 ^ 31 * BIGIT" "?d div 2 ^ 31 = (if y \<le> x then 0 else 1)" by auto
qed

lemma sub_digits_correct:
  assumes "digits_ok bs" "digits_ok ds" "off + n \<le> kBigitCapacity"
  shows "\<exists>bs' c. sub_digits off ds n bs = (bs', c) \<and> digits_ok bs' \<and> c \<le> 1
    \<and> val bs' + val (take n ds) * BIGIT ^ off = val bs + c * BIGIT ^ (off + n) \<and> (\<forall>i \<ge> off + n. bs' ! i = bs ! i)"
  using assms(3)
proof (induction n)
  case 0 then show ?case using assms(1) by (simp add: sub_digits_def)
next
  case (Suc n)
  then obtain cs c where ih: "sub_digits off ds n bs = (cs, c)" "digits_ok cs" "c \<le> 1"
    "val cs + val (take n ds) * BIGIT ^ off = val bs + c * BIGIT ^ (off + n)" "\<forall>i \<ge> off + n. cs ! i = bs ! i" by auto
  have i: "off + n < kBigitCapacity" "n < kBigitCapacity" using Suc.prems by auto
  define x y d where "x = cs ! (off + n)" and "y = ds ! n + c" and "d = (x + 2 * CHUNK - y) mod CHUNK"
  have xy: "x < BIGIT" "y \<le> BIGIT"
    using digits_ok_nth [OF ih(2) i(1)] digits_ok_nth [OF assms(2) i(2)] ih(3) by (auto simp: x_def y_def)
  have d: "d mod BIGIT + y = x + d div 2 ^ 31 * BIGIT" "d div 2 ^ 31 \<le> 1"
    using diff_exact [OF xy, of 2] by (auto simp: d_def)
  have e: "sub_digits off ds (Suc n) bs = (cs[off + n := d mod BIGIT], d div 2 ^ 31)"
    using ih(1) by (simp add: sub_digits_def d_def x_def y_def Let_def)
  have "val (cs[off + n := d mod BIGIT]) + x * BIGIT ^ (off + n) = val cs + d mod BIGIT * BIGIT ^ (off + n)"
    unfolding x_def using ih(2) i by (intro val_update) (simp add: digits_ok_def)
  moreover have "(d mod BIGIT + y) * BIGIT ^ (off + n) = (x + d div 2 ^ 31 * BIGIT) * BIGIT ^ (off + n)" by (simp only: d(1))
  then have "d mod BIGIT * BIGIT ^ (off + n) + ds ! n * BIGIT ^ n * BIGIT ^ off + c * BIGIT ^ (off + n)
      = x * BIGIT ^ (off + n) + d div 2 ^ 31 * BIGIT ^ (off + Suc n)"
    by (simp add: y_def algebra_simps power_add)
  moreover have "val (take (Suc n) ds) * BIGIT ^ off = val (take n ds) * BIGIT ^ off + ds ! n * BIGIT ^ n * BIGIT ^ off"
    using assms(2) i by (simp add: val_take_Suc digits_ok_def algebra_simps)
  ultimately have "val (cs[off + n := d mod BIGIT]) + val (take (Suc n) ds) * BIGIT ^ off
      = val bs + d div 2 ^ 31 * BIGIT ^ (off + Suc n)" using ih(4) by linarith
  then show ?case using e d(2) digits_ok_update [OF ih(2)] ih(5) by simp
qed

lemma sub_borrow_correct:
  assumes "digits_ok bs" "pos \<le> kBigitCapacity" "borrow \<le> 1" "borrow * BIGIT ^ pos \<le> val bs"
  shows "\<exists>bs'. sub_borrow bs pos borrow = Some bs' \<and> digits_ok bs' \<and> val bs' + borrow * BIGIT ^ pos = val bs"
  using assms
proof (induction bs pos borrow rule: sub_borrow.induct)
  case (1 bs pos borrow)
  show ?case
  proof (cases "borrow = 0")
    case True then show ?thesis using 1 by (simp add: sub_borrow.simps [of _ _ 0])
  next
    case False
    then have c: "borrow = 1" using 1(4) by simp
    have len: "length bs = kBigitCapacity" using 1(2) by (simp add: digits_ok_def)
    have "BIGIT ^ pos < BIGIT ^ kBigitCapacity" using digits_ok_val [OF 1(2)] 1(5) c by simp
    then have pos: "pos < length bs" by (simp add: power_BIGIT_le len)
    define x d where "x = bs ! pos" and "d = (x + 1 * CHUNK - 1) mod CHUNK"
    have x: "x < BIGIT" using digits_ok_nth [OF 1(2)] pos len by (simp add: x_def)
    have d: "d mod BIGIT + 1 = x + d div 2 ^ 31 * BIGIT" "d div 2 ^ 31 \<le> 1"
      using diff_exact [OF x, of 1 1] by (auto simp: d_def)
    let ?bs = "bs[pos := d mod BIGIT]"
    have "val ?bs + x * BIGIT ^ pos = val bs + d mod BIGIT * BIGIT ^ pos" unfolding x_def using pos by (rule val_update)
    moreover have "(d mod BIGIT + 1) * BIGIT ^ pos = (x + d div 2 ^ 31 * BIGIT) * BIGIT ^ pos" by (simp only: d(1))
    then have "d mod BIGIT * BIGIT ^ pos + BIGIT ^ pos = x * BIGIT ^ pos + d div 2 ^ 31 * BIGIT ^ (pos + 1)"
      by (simp add: algebra_simps)
    ultimately have v: "val ?bs + BIGIT ^ pos = val bs + d div 2 ^ 31 * BIGIT ^ (pos + 1)" by linarith
    then have le: "d div 2 ^ 31 * BIGIT ^ (pos + 1) \<le> val ?bs" using 1(5) c by simp
    have ok: "digits_ok ?bs" using 1(2) by (simp add: digits_ok_update)
    have "\<exists>bs'. sub_borrow ?bs (pos + 1) (d div 2 ^ 31) = Some bs' \<and> digits_ok bs'
        \<and> val bs' + d div 2 ^ 31 * BIGIT ^ (pos + 1) = val ?bs"
      using 1(1) [OF False _ refl] pos ok d(2) le len by (simp add: c x_def d_def)
    then obtain bs' where r: "sub_borrow ?bs (pos + 1) (d div 2 ^ 31) = Some bs'" "digits_ok bs'"
      "val bs' + d div 2 ^ 31 * BIGIT ^ (pos + 1) = val ?bs" by blast
    have "sub_borrow bs pos borrow = Some bs'"
      using r(1) False pos by (subst sub_borrow.simps) (simp add: c x_def d_def)
    moreover have "val bs' + BIGIT ^ pos = val bs" using r(3) v by linarith
    ultimately show ?thesis using r(2) c by simp
  qed
qed

lemma BigitLength_bounds:
  assumes "bn_inv b"
  shows "bn_value b < BIGIT ^ BigitLength b" "used_digits b \<noteq> 0 \<Longrightarrow> BIGIT ^ (BigitLength b - 1) \<le> bn_value b"
proof -
  have "mantissa b < BIGIT ^ used_digits b" using assms by (simp add: bn_inv_def bn_ok_def)
  then show "bn_value b < BIGIT ^ BigitLength b" by (simp add: bn_value_def BigitLength_def power_add)
  assume u: "used_digits b \<noteq> 0"
  then have "BIGIT ^ (used_digits b - 1) * BIGIT ^ exponent b \<le> bn_value b"
    using IsClamped_val [OF assms] by (simp add: bn_value_def)
  moreover have "BigitLength b - 1 = used_digits b - 1 + exponent b" using u by (simp add: BigitLength_def)
  ultimately show "BIGIT ^ (BigitLength b - 1) \<le> bn_value b" by (simp add: power_add)
qed

lemma bn_value_zero: "bn_inv b \<Longrightarrow> bn_value b = 0 \<longleftrightarrow> used_digits b = 0"
proof
  assume b: "bn_inv b" "bn_value b = 0"
  then have "mantissa b = 0" by (simp add: bn_value_def)
  then show "used_digits b = 0" using IsClamped_val [OF b(1)] by auto
next
  assume "bn_inv b" "used_digits b = 0"
  then show "bn_value b = 0" by (simp add: bn_inv_def bn_ok_def bn_value_def)
qed

lemma BigitLength_mono:
  assumes "bn_inv a" "bn_inv b" "bn_value a \<le> bn_value b"
  shows "BigitLength a \<le> BigitLength b"
proof (cases "used_digits a = 0")
  case True
  then show ?thesis using assms(1) by (simp add: BigitLength_def bn_inv_def)
next
  case False
  then have "BIGIT ^ (BigitLength a - 1) < BIGIT ^ BigitLength b"
    using BigitLength_bounds(2) [OF assms(1)] BigitLength_bounds(1) [OF assms(2)] assms(3) by linarith
  then show ?thesis by (simp add: power_BIGIT_le)
qed

lemma Align_inv:
  assumes "bn_inv b" "exponent b \<le> exponent other \<or> used_digits b + (exponent b - exponent other) \<le> kBigitCapacity"
  obtains c where "Align b other = Some c" "bn_inv c" "bn_value c = bn_value b"
    "exponent c = min (exponent b) (exponent other)" "BigitLength c = BigitLength b"
proof -
  obtain c where c: "Align b other = Some c" "bn_ok c" "bn_value c = bn_value b"
    "exponent c = min (exponent b) (exponent other)" "BigitLength c = BigitLength b"
    "IsClamped b \<longrightarrow> used_digits b \<noteq> 0 \<longrightarrow> IsClamped c"
    using Align_correct [of b other] assms by (metis bn_inv_def)
  have "bn_inv c"
  proof (cases "used_digits b = 0")
    case True
    then have "exponent b = 0" using assms(1) by (simp add: bn_inv_def)
    then show ?thesis using c(1) assms(1) by (simp add: Align_def)
  next
    case False
    then have "bn_value c \<noteq> 0" using bn_value_zero [OF assms(1)] c(3) by simp
    then have "used_digits c \<noteq> 0" using c(2) by (cases "used_digits c = 0") (auto simp: bn_ok_def bn_value_def)
    then show ?thesis using c(2,6) False assms(1) by (simp add: bn_inv_def)
  qed
  then show ?thesis using that c by blast
qed

lemma SubtractBignum_ok:
  assumes "bn_inv b" "bn_inv other" "bn_value other \<le> bn_value b"
    "exponent b \<le> exponent other \<or> used_digits b + (exponent b - exponent other) \<le> kBigitCapacity"
  obtains b' where "SubtractBignum b other = Some b'" "bn_inv b'" "bn_value b' + bn_value other = bn_value b"
    "exponent b' \<le> exponent other"
proof -
  obtain c where c: "Align b other = Some c" "bn_inv c" "bn_value c = bn_value b"
    "exponent c = min (exponent b) (exponent other)" "BigitLength c = BigitLength b"
    using Align_inv [OF assms(1,4)] .
  define off where "off = exponent other - exponent c"
  have e: "exponent other = off + exponent c" using c(4) by (simp add: off_def)
  let ?m = "used_digits other" and ?n = "used_digits c"
  have cd: "digits_ok (bigits c)" "mantissa c < BIGIT ^ ?n" "?n \<le> kBigitCapacity" using c(2) by (auto simp: bn_inv_def bn_ok_def)
  have od: "digits_ok (bigits other)" "mantissa other < BIGIT ^ ?m" "?m \<le> kBigitCapacity" using assms(2) by (auto simp: bn_inv_def bn_ok_def)
  have ot: "val (take ?m (bigits other)) = mantissa other" using val_used [OF od(2)] od(1,3) by (simp add: digits_ok_def)
  have "BigitLength other \<le> BigitLength c" using BigitLength_mono [OF assms(2) c(2)] assms(3) c(3) by simp
  then have off: "off + ?m \<le> ?n" using e by (simp add: BigitLength_def)
  obtain bs carry where d: "sub_digits off (bigits other) ?m (bigits c) = (bs, carry)" "digits_ok bs" "carry \<le> 1"
    "val bs + mantissa other * BIGIT ^ off = mantissa c + carry * BIGIT ^ (off + ?m)"
    using sub_digits_correct [OF cd(1) od(1), of off ?m] off cd(3) ot by auto
  have "mantissa other * BIGIT ^ off * BIGIT ^ exponent c \<le> mantissa c * BIGIT ^ exponent c"
    using assms(3) c(3) by (simp add: bn_value_def e mult.assoc flip: power_add)
  then have le: "mantissa other * BIGIT ^ off \<le> mantissa c" by simp
  have "carry * BIGIT ^ (off + ?m) \<le> val bs" using d(4) le by linarith
  then obtain bs' where s: "sub_borrow bs (off + ?m) carry = Some bs'" "digits_ok bs'"
    "val bs' + carry * BIGIT ^ (off + ?m) = val bs"
    using sub_borrow_correct [OF d(2) _ d(3), of "off + ?m"] off cd(3) by auto
  have v: "val bs' + mantissa other * BIGIT ^ off = mantissa c" using s(3) d(4) by linarith
  let ?b = "\<lparr>bigits = bs', used_digits = ?n, exponent = exponent c\<rparr>"
  have ok: "bn_ok ?b" using s(2) cd v by (simp add: bn_ok_def)
  have "SubtractBignum b other = Some (Clamp ?b)"
    using c(1) d(1) s(1) by (cases c) (simp add: SubtractBignum_def off_def)
  moreover have "(val bs' + mantissa other * BIGIT ^ off) * BIGIT ^ exponent c = bn_value b"
    using c(3) v by (simp add: bn_value_def)
  then have "bn_value ?b + bn_value other = bn_value b"
    by (subst (2) bn_value_def, subst e) (simp add: bn_value_def algebra_simps power_add)
  moreover have "exponent (Clamp ?b) \<le> exponent other" using c(4) by (simp add: Clamp_def Let_def)
  ultimately show ?thesis using that Clamp_correct [OF ok] by simp
qed

text \<open>
  Subtraction is exact: if the subtrahend is not larger and the minuend can be aligned within the
  buffer, then \<open>SubtractBignum\<close> succeeds (its borrow loop ends inside the buffer), keeps the
  representation invariant and subtracts the values.
\<close>

theorem SubtractBignum_exact:
  assumes "bn_inv b" "bn_inv other" "bn_value other \<le> bn_value b"
    "exponent b \<le> exponent other \<or> used_digits b + (exponent b - exponent other) \<le> kBigitCapacity"
  shows "\<exists>b'. SubtractBignum b other = Some b' \<and> bn_inv b' \<and> bn_value b' = bn_value b - bn_value other"
  using SubtractBignum_ok [OF assms] by (metis add_diff_cancel_right')

theorem SubtractBignum_exact_witness:
  "\<exists>b. SubtractBignum (of_bigits [1] 2) (of_bigits [1] 0) = Some b \<and> bn_value b = 2 ^ 56 - 1"
  using SubtractBignum_exact [OF of_bigits_inv [of "[1]" 2] of_bigits_inv [of "[1]" 0]]
  by (simp add: of_bigits_value concrete) blast

end
