(* ===== verification/Bignum_Power.thy ===== *)
theory Bignum_Power
  imports Bignum_Arith
begin

text \<open>
  Squaring by columns (Comba multiplication) and powers of small bases, from \<^verbatim>\<open>src/bignum.cc\<close>.
\<close>

section \<open>Squaring\<close>

text \<open>
  The two inner loops of \<open>Square\<close>.  The digits have been copied to position \<open>n\<close> and up; column \<open>i\<close>
  adds the products of the digits whose indices add up to \<open>i\<close>, the first index going down and the
  second one going up.
\<close>

definition low_column :: "nat \<Rightarrow> nat \<Rightarrow> nat list \<Rightarrow> nat \<Rightarrow> nat" where
  "low_column n i bs acc =
     fold (\<lambda>k acc. (acc + bs ! (n + (i - k)) * bs ! (n + k)) mod DOUBLE_CHUNK) [0..<Suc i] acc"

definition high_column :: "nat \<Rightarrow> nat \<Rightarrow> nat list \<Rightarrow> nat \<Rightarrow> nat" where
  "high_column n i bs acc =
     fold (\<lambda>k acc. (acc + bs ! (n + (n - 1 - k)) * bs ! (n + (i - (n - 1) + k))) mod DOUBLE_CHUNK)
       [0..<2 * n - 1 - i] acc"

definition column_step :: "(nat list \<Rightarrow> nat \<Rightarrow> nat) \<Rightarrow> nat \<Rightarrow> nat list \<times> nat \<Rightarrow> nat list \<times> nat" where
  "column_step column i = (\<lambda>(bs, acc).
     let acc = column bs acc in (bs[i := acc mod CHUNK mod BIGIT], acc div BIGIT))"

definition Square :: "bignum \<Rightarrow> bignum option" where
  "Square b =
     (let n = used_digits b in
      EnsureCapacity (2 * n)
        (if 2 ^ (2 * (32 - 28)) \<le> n then None
         else let bs = fold (\<lambda>i bs. bs[n + i := bs ! i]) [0..<n] (bigits b);
                  s = fold (\<lambda>i. column_step (low_column n i) i) [0..<n] (bs, 0);
                  s = fold (\<lambda>i. column_step (high_column n i) i) [n..<2 * n] s
              in Some (Clamp \<lparr>bigits = fst s, used_digits = 2 * n, exponent = 2 * exponent b\<rparr>)))"

lemma copy_up_loop:
  "2 * n \<le> length bs \<Longrightarrow> fold (\<lambda>i bs. bs[n + i := bs ! i]) [0..<n] bs = take n bs @ take n bs @ drop (2 * n) bs"
proof -
  assume len: "2 * n \<le> length bs"
  have "fold (\<lambda>i bs. bs[n + i := bs ! i]) [0..<m] bs = take n bs @ take m bs @ drop (n + m) bs" if "m \<le> n" for m
    using that
  proof (induction m)
    case (Suc m)
    then have "(take n bs @ take m bs @ drop (n + m) bs) ! m = bs ! m" using len by (simp add: nth_append)
    then show ?case
      using Suc len by (simp add: list_update_append take_Suc_conv_app_nth Cons_nth_drop_Suc [symmetric])
  qed simp
  from this [of n] show ?thesis by (simp add: mult_2)
qed

text \<open>The digits as a sequence that is zero beyond the used ones, and the column sums.\<close>

definition digit :: "nat list \<Rightarrow> nat \<Rightarrow> nat \<Rightarrow> nat" where
  "digit as n k = (if k < n then as ! k else 0)"

definition column_sum :: "nat list \<Rightarrow> nat \<Rightarrow> nat \<Rightarrow> nat" where
  "column_sum as n r = (\<Sum>k\<le>r. digit as n k * digit as n (r - k))"

lemma val_digits: "n \<le> length as \<Longrightarrow> val (take n as) = (\<Sum>k<n. digit as n k * BIGIT ^ k)"
proof -
  assume "n \<le> length as"
  then have "val (take m as) = (\<Sum>k<m. as ! k * BIGIT ^ k)" if "m \<le> n" for m
    using that by (induction m) (simp_all add: val_take_Suc)
  from this [of n] show ?thesis by (simp add: digit_def)
qed

lemma square_columns:
  assumes "n \<le> length as" "0 < n"
  shows "val (take n as) ^ 2 = (\<Sum>r<2 * n. column_sum as n r * BIGIT ^ r)"
proof -
  let ?f = "\<lambda>k. int (digit as n k)"
  have v: "int (val (take n as)) = (\<Sum>k\<le>n - 1. ?f k * int BIGIT ^ k)"
    using assms by (simp add: val_digits lessThan_Suc_atMost [symmetric])
  have "(\<Sum>i\<le>n - 1. ?f i * int BIGIT ^ i) * (\<Sum>j\<le>n - 1. ?f j * int BIGIT ^ j)
      = (\<Sum>r\<le>n - 1 + (n - 1). (\<Sum>k\<le>r. ?f k * ?f (r - k)) * int BIGIT ^ r)"
    by (rule polynomial_product) (auto simp: digit_def)
  also have "\<dots> = int (\<Sum>r<2 * n - 1. column_sum as n r * BIGIT ^ r)"
  proof -
    have "{..n - 1 + (n - 1)} = {..<2 * n - 1}" using assms(2) by auto
    then show ?thesis by (simp add: column_sum_def)
  qed
  finally have "int (val (take n as) ^ 2) = int (\<Sum>r<2 * n - 1. column_sum as n r * BIGIT ^ r)"
    by (simp add: v power2_eq_square)
  moreover have "column_sum as n (2 * n - 1) = 0" using assms(2) by (auto simp: column_sum_def digit_def)
  moreover have "{..<2 * n} = insert (2 * n - 1) {..<2 * n - 1}" using assms(2) by auto
  ultimately show ?thesis by (simp only: of_nat_eq_iff) simp
qed

lemma fold_mod_sum:
  fixes f :: "nat \<Rightarrow> nat"
  assumes "acc + (\<Sum>k<m. f k) < d"
  shows "fold (\<lambda>k acc. (acc + f k) mod d) [0..<m] acc = acc + (\<Sum>k<m. f k)"
  using assms by (induction m) (auto simp: ac_simps)

lemma low_column_eq:
  assumes "i < n" "\<And>k. k < n \<Longrightarrow> bs ! (n + k) = as ! k" "acc + column_sum as n i < DOUBLE_CHUNK"
  shows "low_column n i bs acc = acc + column_sum as n i"
proof -
  have s: "(\<Sum>k<Suc i. bs ! (n + (i - k)) * bs ! (n + k)) = column_sum as n i"
    unfolding column_sum_def lessThan_Suc_atMost
  proof (rule sum.cong [OF refl])
    fix k assume "k \<in> {..i}"
    then have k: "i - k < n" "k < n" using assms(1) by auto
    show "bs ! (n + (i - k)) * bs ! (n + k) = digit as n k * digit as n (i - k)"
      unfolding assms(2) [OF k(1)] assms(2) [OF k(2)] using k by (simp add: digit_def mult.commute)
  qed
  show ?thesis unfolding low_column_def using assms(3) s by (subst fold_mod_sum) simp_all
qed

lemma high_sum:
  assumes "n \<le> i" "i < 2 * n"
  shows "(\<Sum>k<2 * n - 1 - i. as ! (n - 1 - k) * as ! (i - (n - 1) + k)) = column_sum as n i"
proof -
  have "column_sum as n i = (\<Sum>k\<in>{i - (n - 1)..<n}. as ! k * as ! (i - k))"
  proof -
    have "(\<Sum>k\<in>{i - (n - 1)..<n}. as ! k * as ! (i - k)) = (\<Sum>k\<in>{i - (n - 1)..<n}. digit as n k * digit as n (i - k))"
      using assms by (intro sum.cong) (auto simp: digit_def)
    also have "\<dots> = column_sum as n i"
      unfolding column_sum_def using assms by (intro sum.mono_neutral_left) (auto simp: digit_def)
    finally show ?thesis by simp
  qed
  also have "\<dots> = (\<Sum>k<2 * n - 1 - i. as ! (i - (n - 1) + k) * as ! (n - 1 - k))"
    using assms by (intro sum.reindex_bij_witness [of _ "\<lambda>k. i - (n - 1) + k" "\<lambda>k. k - (i - (n - 1))"])
      (auto intro: arg_cong2 [of _ _ _ _ "(*)"] arg_cong [of _ _ "(!) as"])
  finally show ?thesis by (simp add: mult.commute)
qed

lemma high_column_eq:
  assumes "n \<le> i" "i < 2 * n" "\<And>k. k < n \<Longrightarrow> i \<le> n + k \<Longrightarrow> bs ! (n + k) = as ! k"
    "acc + column_sum as n i < DOUBLE_CHUNK"
  shows "high_column n i bs acc = acc + column_sum as n i"
proof -
  have s: "(\<Sum>k<2 * n - 1 - i. bs ! (n + (n - 1 - k)) * bs ! (n + (i - (n - 1) + k))) = column_sum as n i"
    unfolding high_sum [OF assms(1,2), symmetric]
  proof (rule sum.cong [OF refl])
    fix k assume "k \<in> {..<2 * n - 1 - i}"
    then have k: "n - 1 - k < n" "i \<le> n + (n - 1 - k)" "i - (n - 1) + k < n" "i \<le> n + (i - (n - 1) + k)"
      using assms(1,2) by auto
    show "bs ! (n + (n - 1 - k)) * bs ! (n + (i - (n - 1) + k)) = as ! (n - 1 - k) * as ! (i - (n - 1) + k)"
      unfolding assms(3) [OF k(1,2)] assms(3) [OF k(3,4)] ..
  qed
  show ?thesis unfolding high_column_def using assms(4) s by (subst fold_mod_sum) simp_all
qed

lemma column_bound:
  assumes "\<And>k. k < n \<Longrightarrow> as ! k < BIGIT" "n < 256" "acc \<le> n * BIGIT"
  shows "acc + column_sum as n i \<le> n * BIGIT * BIGIT" "acc + column_sum as n i < DOUBLE_CHUNK"
proof -
  have "column_sum as n i = (\<Sum>k\<in>{..i} \<inter> {..<n}. digit as n k * digit as n (i - k))"
    unfolding column_sum_def by (intro sum.mono_neutral_right) (auto simp: digit_def)
  also have "\<dots> \<le> (\<Sum>k\<in>{..i} \<inter> {..<n}. (BIGIT - 1) * (BIGIT - 1))"
  proof (rule sum_mono)
    fix k
    have "digit as n j \<le> BIGIT - 1" for j using assms(1) [of j] by (auto simp: digit_def)
    then show "digit as n k * digit as n (i - k) \<le> (BIGIT - 1) * (BIGIT - 1)" by (intro mult_le_mono)
  qed
  also have "\<dots> \<le> (\<Sum>k\<in>{..<n}. (BIGIT - 1) * (BIGIT - 1))" by (intro sum_mono2) auto
  also have "\<dots> = n * ((BIGIT - 1) * (BIGIT - 1))" by simp
  finally have "acc + column_sum as n i \<le> n * (BIGIT + (BIGIT - 1) * (BIGIT - 1))"
    using assms(3) by (simp add: add_mult_distrib2)
  also have "\<dots> \<le> n * (BIGIT * BIGIT)" by (intro mult_le_mono2) (simp add: BIGIT_def)
  finally show le: "acc + column_sum as n i \<le> n * BIGIT * BIGIT" by (simp add: mult.assoc)
  also have "\<dots> \<le> 255 * BIGIT * BIGIT" using assms(2) by (intro mult_le_mono) auto
  also have "\<dots> < DOUBLE_CHUNK" by (simp add: BIGIT_def DOUBLE_CHUNK_def)
  finally show "acc + column_sum as n i < DOUBLE_CHUNK" .
qed

text \<open>
  The invariant of both outer loops at column \<open>i\<close>: the columns below \<open>i\<close> are written, the copied
  digits from position \<open>i\<close> on are intact, and the accumulator is small.
\<close>

definition columns_inv :: "nat list \<Rightarrow> nat \<Rightarrow> nat \<Rightarrow> nat list \<times> nat \<Rightarrow> bool" where
  "columns_inv as n i = (\<lambda>(bs, acc). digits_ok bs \<and> acc \<le> n * BIGIT
     \<and> (\<forall>k<n. i \<le> n + k \<longrightarrow> bs ! (n + k) = as ! k) \<and> (\<forall>p. 2 * n \<le> p \<longrightarrow> p < kBigitCapacity \<longrightarrow> bs ! p = 0)
     \<and> val (take i bs) + acc * BIGIT ^ i = (\<Sum>r<i. column_sum as n r * BIGIT ^ r))"

lemma column_step_inv:
  assumes inv: "columns_inv as n i (bs, acc)" and "2 * n \<le> kBigitCapacity" "i < 2 * n" "n < 256"
    and as: "\<And>k. k < n \<Longrightarrow> as ! k < BIGIT" and col: "column bs acc = acc + column_sum as n i"
  shows "columns_inv as n (Suc i) (column_step column i (bs, acc))"
proof -
  define s where "s = acc + column_sum as n i"
  have ok: "digits_ok bs" "acc \<le> n * BIGIT" using inv by (auto simp: columns_inv_def)
  have i: "i < length bs" using assms(2,3) ok(1) by (simp add: digits_ok_def)
  have "s \<le> n * BIGIT * BIGIT" using column_bound(1) [OF as assms(4) ok(2)] by (simp add: s_def)
  then have acc: "s div BIGIT \<le> n * BIGIT" by (metis BIGIT_pos(2) div_le_mono nonzero_mult_div_cancel_right)
  have m: "s mod CHUNK mod BIGIT = s mod BIGIT"
    by (simp add: mod_mod_cancel BIGIT_def CHUNK_def)
  have st: "column_step column i (bs, acc) = (bs[i := s mod BIGIT], s div BIGIT)"
    using col m by (simp add: column_step_def Let_def s_def)
  have "val (take (Suc i) (bs[i := s mod BIGIT])) + s div BIGIT * BIGIT ^ Suc i
      = val (take i bs) + (s mod BIGIT * BIGIT ^ i + s div BIGIT * BIGIT ^ (i + 1))"
    using i by (simp add: val_take_Suc)
  also have "\<dots> = val (take i bs) + s * BIGIT ^ i"
    using carry_split [of "s mod BIGIT" i "s div BIGIT"] by simp
  also have "\<dots> = (\<Sum>r<Suc i. column_sum as n r * BIGIT ^ r)"
    using inv by (simp add: columns_inv_def s_def add_mult_distrib)
  finally show ?thesis
    using inv acc assms(3) digits_ok_update [OF ok(1), of "s mod BIGIT" i] unfolding st
    by (simp add: columns_inv_def)
qed

lemma Square_ok:
  assumes "bn_inv b" "2 * used_digits b \<le> kBigitCapacity"
  obtains b' where "Square b = Some b'" "bn_inv b'" "bn_value b' = bn_value b ^ 2"
    "exponent b = 0 \<longrightarrow> exponent b' = 0"
proof (cases "used_digits b = 0")
  case True
  then have "mantissa b = 0" "exponent b = 0" using assms(1) by (auto simp: bn_inv_def bn_ok_def)
  then have "Square b = Some (Clamp \<lparr>bigits = bigits b, used_digits = 0, exponent = 0\<rparr>)"
    using True by (simp add: Square_def EnsureCapacity_def)
  moreover have "bn_ok \<lparr>bigits = bigits b, used_digits = 0, exponent = 0\<rparr>" (is "bn_ok ?z")
    using assms(1) True by (simp add: bn_inv_def bn_ok_def)
  moreover have "exponent (Clamp ?z) = 0" by (simp add: Clamp_def)
  ultimately show ?thesis using that [of "Clamp ?z"] Clamp_correct [of ?z] \<open>mantissa b = 0\<close>
    by (simp add: bn_value_def)
next
  case False
  let ?n = "used_digits b" and ?as = "bigits b"
  have b: "digits_ok ?as" "mantissa b < BIGIT ^ ?n" "length ?as = kBigitCapacity"
    using assms(1) by (auto simp: bn_inv_def bn_ok_def digits_ok_def)
  have n: "?n < 256" "2 * ?n \<le> kBigitCapacity" using assms(2) by (auto simp: kBigitCapacity_def)
  have as: "\<And>k. k < ?n \<Longrightarrow> ?as ! k < BIGIT" using digits_ok_nth [OF b(1)] n by simp
  define bs where "bs = take ?n ?as @ take ?n ?as @ drop (2 * ?n) ?as"
  have start: "columns_inv ?as ?n 0 (bs, 0)"
  proof -
    have "digits_ok bs" using b n by (auto simp: bs_def digits_ok_def dest: in_set_takeD in_set_dropD)
    moreover have "bs ! p = 0" if "2 * ?n \<le> p" "p < kBigitCapacity" for p
      using that b(3) val_high_zero [OF b(2), of p] by (auto simp: bs_def nth_append)
    moreover have "bs ! (?n + k) = ?as ! k" if "k < ?n" for k using that b(3) n by (simp add: bs_def nth_append)
    ultimately show ?thesis by (simp add: columns_inv_def)
  qed
  define s where "s = fold (\<lambda>i. column_step (low_column ?n i) i) [0..<?n] (bs, 0)"
  have mid: "columns_inv ?as ?n ?n s" unfolding s_def
  proof (rule fold_upt_inv [where P = "columns_inv ?as ?n", OF start])
    fix i s assume i: "i < ?n" and inv: "columns_inv ?as ?n i s"
    obtain bs acc where s: "s = (bs, acc)" by fastforce
    have "acc + column_sum ?as ?n i < DOUBLE_CHUNK"
      using column_bound(2) [OF as n(1)] inv s by (simp add: columns_inv_def)
    then have "low_column ?n i bs acc = acc + column_sum ?as ?n i"
      using inv i by (intro low_column_eq) (auto simp: s columns_inv_def)
    then show "columns_inv ?as ?n (Suc i) (column_step (low_column ?n i) i s)"
      using column_step_inv [of ?as ?n i bs acc] inv n i as unfolding s by simp
  qed simp
  define e where "e = fold (\<lambda>i. column_step (high_column ?n i) i) [?n..<2 * ?n] s"
  have final: "columns_inv ?as ?n (2 * ?n) e" unfolding e_def
  proof (rule fold_upt_inv [where P = "columns_inv ?as ?n", OF mid])
    fix i s assume i: "?n \<le> i" "i < 2 * ?n" and inv: "columns_inv ?as ?n i s"
    obtain bs acc where s: "s = (bs, acc)" by fastforce
    have "acc + column_sum ?as ?n i < DOUBLE_CHUNK"
      using column_bound(2) [OF as n(1)] inv s by (simp add: columns_inv_def)
    then have "high_column ?n i bs acc = acc + column_sum ?as ?n i"
      using inv i by (intro high_column_eq) (auto simp: s columns_inv_def)
    then show "columns_inv ?as ?n (Suc i) (column_step (high_column ?n i) i s)"
      using column_step_inv [of ?as ?n i bs acc] inv n i as unfolding s by simp
  qed simp
  obtain cs acc where e: "e = (cs, acc)" by fastforce
  have ok: "digits_ok cs" using final e by (simp add: columns_inv_def)
  have sq: "(\<Sum>r<2 * ?n. column_sum ?as ?n r * BIGIT ^ r) = mantissa b ^ 2"
    using square_columns [of ?n ?as] val_used [OF b(2)] b(3) n False by simp
  have lt: "val cs < BIGIT ^ (2 * ?n)"
    using final e by (intro val_zero_high [OF ok n(2)]) (simp add: columns_inv_def)
  then have "val (take (2 * ?n) cs) = val cs" using val_used [OF lt] ok n(2) by (simp add: digits_ok_def)
  then have v: "val cs + acc * BIGIT ^ (2 * ?n) = mantissa b ^ 2" using final e sq by (simp add: columns_inv_def)
  have "mantissa b ^ 2 < BIGIT ^ (2 * ?n)"
    using power_strict_mono [OF b(2), of 2] by (simp add: power_mult [symmetric] mult.commute)
  then have "acc * BIGIT ^ (2 * ?n) < BIGIT ^ (2 * ?n)" using v by linarith
  then have "acc = 0" by (cases acc) auto
  let ?b = "\<lparr>bigits = cs, used_digits = 2 * ?n, exponent = 2 * exponent b\<rparr>"
  have okb: "bn_ok ?b" using ok n(2) lt by (simp add: bn_ok_def)
  have "Square b = Some (Clamp ?b)"
    using n b(3) e unfolding Square_def Let_def
    by (simp add: EnsureCapacity_def copy_up_loop bs_def [symmetric] s_def [symmetric] e_def [symmetric])
  moreover have "bn_value ?b = bn_value b ^ 2"
    using v \<open>acc = 0\<close> by (simp add: bn_value_def power_mult_distrib power_mult [symmetric] mult.commute)
  ultimately show ?thesis using that Clamp_correct [OF okb] by (simp add: Clamp_def [of ?b] Let_def)
qed

text \<open>
  Squaring by columns is exact: if the buffer has room for twice the digits, \<open>Square\<close> succeeds,
  the 64-bit accumulator never overflows although it sums up to 64 products of bigits, the digits
  copied aside are not overwritten before they are used, and the value is squared.
\<close>

theorem Square_exact:
  assumes "bn_inv b" "2 * used_digits b \<le> kBigitCapacity"
  shows "\<exists>b'. Square b = Some b' \<and> bn_inv b' \<and> bn_value b' = bn_value b ^ 2"
  using Square_ok [OF assms] by blast

theorem Square_exact_witness:
  "\<exists>b. Square (of_bigits [BIGIT - 1, 1] 1) = Some b \<and> bn_value b = ((2 ^ 29 - 1) * 2 ^ 28) ^ 2"
  using Square_exact [OF of_bigits_inv [of "[BIGIT - 1, 1]" 1]]
  by (simp add: of_bigits_value concrete) blast

section \<open>Powers of small bases\<close>

unbundle bit_operations_syntax

text \<open>Removing the factors two of the base, counting its bits, and finding the top bit of the exponent.\<close>

function strip_twos :: "nat \<Rightarrow> nat \<Rightarrow> (nat \<times> nat) option" where
  "strip_twos base shifts =
     (if base = 0 then None
      else if base AND 1 = 0 then strip_twos (base div 2) (shifts + 1)
      else Some (base, shifts))"
  by pat_completeness auto
termination by (relation "measure fst") auto

fun count_bits :: "nat \<Rightarrow> nat" where
  "count_bits x = (if x = 0 then 0 else Suc (count_bits (x div 2)))"

function find_mask :: "nat \<Rightarrow> nat \<Rightarrow> nat" where
  "find_mask e msk = (if msk = 0 \<or> e < msk then msk else find_mask e (2 * msk))"
  by pat_completeness auto
termination by (relation "measure (\<lambda>(e, msk). Suc e - msk)") auto

declare strip_twos.simps [simp del] count_bits.simps [simp del] find_mask.simps [simp del]

text \<open>The exponentiation in a 64-bit integer, and its continuation as a bignum.\<close>

function power_64 :: "nat \<Rightarrow> nat \<Rightarrow> nat \<Rightarrow> nat \<Rightarrow> nat \<Rightarrow> bool \<Rightarrow> nat \<times> nat \<times> bool" where
  "power_64 base bit_size e msk this_value delayed =
     (if msk \<noteq> 0 \<and> this_value \<le> 0xFFFFFFFF then
        (let this_value = this_value * this_value mod DOUBLE_CHUNK in
         if e AND msk \<noteq> 0 then
           (if this_value < 2 ^ (64 - bit_size)
            then power_64 base bit_size e (msk div 2) (this_value * base mod DOUBLE_CHUNK) delayed
            else power_64 base bit_size e (msk div 2) this_value True)
         else power_64 base bit_size e (msk div 2) this_value delayed)
      else (msk, this_value, delayed))"
  by pat_completeness auto
termination by (relation "measure (\<lambda>(base, bit_size, e, msk, this_value, delayed). msk)") auto

function power_bignum :: "nat \<Rightarrow> nat \<Rightarrow> nat \<Rightarrow> bignum \<Rightarrow> bignum option" where
  "power_bignum base e msk b =
     (if msk = 0 then Some b
      else case Square b of
        None \<Rightarrow> None
      | Some b \<Rightarrow>
          (if e AND msk \<noteq> 0 then
             (case MultiplyByUInt32 b base of None \<Rightarrow> None | Some b \<Rightarrow> power_bignum base e (msk div 2) b)
           else power_bignum base e (msk div 2) b))"
  by pat_completeness auto
termination by (relation "measure (\<lambda>(base, e, msk, b). msk)") auto

declare power_64.simps [simp del] power_bignum.simps [simp del]

definition AssignPowerUInt16 :: "bignum \<Rightarrow> nat \<Rightarrow> nat \<Rightarrow> bignum option" where
  "AssignPowerUInt16 b base e =
     (if e = 0 then AssignUInt16 b 1
      else case strip_twos base 0 of
        None \<Rightarrow> None
      | Some (base, shifts) \<Rightarrow>
          (let b = Zero b; bit_size = count_bits base; final_size = bit_size * e in
           EnsureCapacity (final_size div 28 + 2)
             (case power_64 base bit_size e (find_mask e 1 div 4) base False of
                (msk, this_value, delayed) \<Rightarrow>
                  (case AssignUInt64 b this_value of
                     None \<Rightarrow> None
                   | Some b \<Rightarrow>
                      (case (if delayed then MultiplyByUInt32 b base else Some b) of
                         None \<Rightarrow> None
                       | Some b \<Rightarrow>
                          (case power_bignum base e msk b of
                             None \<Rightarrow> None
                           | Some b \<Rightarrow> ShiftLeft b (shifts * e)))))))"

lemma strip_twos_correct:
  "0 < base \<Longrightarrow> \<exists>root s. strip_twos base shifts = Some (root, shifts + s) \<and> base = root * 2 ^ s \<and> 0 < root \<and> root \<le> base"
proof (induction base shifts rule: strip_twos.induct)
  case (1 base shifts)
  show ?case
  proof (cases "base AND 1 = 0")
    case False then show ?thesis using 1(2) by (subst strip_twos.simps) (auto intro: exI [of _ 0])
  next
    case True
    then have even: "base = 2 * (base div 2)" by (simp add: and_one_eq even_iff_mod_2_eq_zero [symmetric])
    then obtain root s where r: "strip_twos (base div 2) (shifts + 1) = Some (root, shifts + 1 + s)" "base div 2 = root * 2 ^ s" "0 < root" "root \<le> base div 2"
      using 1(1) True 1(2) by (metis gr0I mult_0_right not_gr_zero)
    then have "strip_twos base shifts = Some (root, shifts + Suc s)" "base = root * 2 ^ Suc s"
      using True 1(2) even by (subst strip_twos.simps, auto)
    then show ?thesis using r(3,4) by (metis div_le_dividend le_trans)
  qed
qed

lemma count_bits_correct: "x < 2 ^ count_bits x" "x < 2 ^ n \<Longrightarrow> count_bits x \<le> n"
proof (induction x arbitrary: n rule: count_bits.induct)
  case (1 x)
  { case 1
    show ?case using \<open>x \<noteq> 0 \<Longrightarrow> x div 2 < 2 ^ count_bits (x div 2)\<close> by (subst count_bits.simps) auto
  next
    case 2
    show ?case
    proof (cases "x = 0")
      case False
      then obtain m where "n = Suc m" using 2 by (cases n) auto
      then show ?thesis using False 2 1(2) [of m] by (subst count_bits.simps) auto
    qed (simp add: count_bits.simps) }
qed

lemma find_mask_correct:
  "0 < e \<Longrightarrow> 2 ^ j \<le> 2 * e \<Longrightarrow> \<exists>i. find_mask e (2 ^ j) = 2 ^ i \<and> e < 2 ^ i \<and> 2 ^ i \<le> 2 * e"
proof (induction "Suc e - 2 ^ j" arbitrary: j rule: less_induct)
  case less
  show ?case
  proof (cases "e < 2 ^ j")
    case True then show ?thesis using less.prems by (subst find_mask.simps) auto
  next
    case False
    then have "Suc e - 2 ^ Suc j < Suc e - 2 ^ j" by (simp add: diff_less_mono2)
    then show ?thesis using less.hyps [of "Suc j"] less.prems False by (subst find_mask.simps) auto
  qed
qed

text \<open>
  Let \<open>E j = base ^ (e div 2 ^ j)\<close>.  Processing the bit \<open>2 ^ j\<close> takes \<open>E (j + 1)\<close> to \<open>E j\<close>.
\<close>

lemma next_bit:
  fixes base e :: nat
  defines "E \<equiv> \<lambda>j. base ^ (e div 2 ^ j)"
  shows "E j = (if e AND 2 ^ j \<noteq> 0 then E (Suc j) ^ 2 * base else E (Suc j) ^ 2)"
proof -
  have "e div 2 ^ j = 2 * (e div 2 ^ Suc j) + (if e AND 2 ^ j \<noteq> 0 then 1 else 0)"
  proof -
    have "e div 2 ^ j = 2 * (e div 2 ^ j div 2) + e div 2 ^ j mod 2" by simp
    moreover have "e div 2 ^ j div 2 = e div 2 ^ Suc j" by (simp add: div_mult2_eq [symmetric] mult.commute)
    moreover have "e div 2 ^ j mod 2 = (if e AND 2 ^ j \<noteq> 0 then 1 else 0)"
      by (simp add: and_exp_eq_0_iff_not_bit bit_iff_odd odd_iff_mod_2_eq_one)
    ultimately show ?thesis by simp
  qed
  moreover have "base ^ (2 * k + (if c then 1 else 0)) = (if c then (base ^ k) ^ 2 * base else (base ^ k) ^ 2)" for k c
    by (cases c) (simp_all add: power_even_eq)
  ultimately show ?thesis unfolding E_def by simp
qed

text \<open>A mask stands for the number of bits that are still to be processed.\<close>

definition msk_of :: "nat \<Rightarrow> nat" where
  "msk_of j = (case j of 0 \<Rightarrow> 0 | Suc i \<Rightarrow> 2 ^ i)"

lemma msk_of_simps [simp]: "msk_of 0 = 0" "msk_of (Suc i) = 2 ^ i" "2 ^ i div 2 = msk_of i"
  by (auto simp: msk_of_def split: nat.splits)

lemma power_64_correct:
  assumes base: "0 < base" "base < 2 ^ bs" "bs \<le> 16" "e \<noteq> 0"
  shows "v = base ^ (e div 2 ^ j) \<Longrightarrow> v < DOUBLE_CHUNK \<Longrightarrow>
    \<exists>i w d. power_64 base bs e (msk_of j) v False = (msk_of i, w, d) \<and> w < DOUBLE_CHUNK \<and> i \<le> j
      \<and> base ^ (e div 2 ^ i) = (if d then w * base else w)"
proof (induction j arbitrary: v)
  case 0
  then show ?case by (intro exI [of _ 0] exI [of _ v] exI [of _ False]) (simp add: power_64.simps [of _ _ _ 0])
next
  case (Suc j)
  show ?case
  proof (cases "v \<le> 0xFFFFFFFF")
    case False
    then have "power_64 base bs e (msk_of (Suc j)) v False = (msk_of (Suc j), v, False)"
      by (simp add: power_64.simps [of _ _ _ "2 ^ j" v])
    then show ?thesis using Suc.prems by (intro exI [of _ "Suc j"] exI [of _ v] exI [of _ False]) simp
  next
    case True
    have "v * v \<le> 0xFFFFFFFF * 0xFFFFFFFF" using True by (intro mult_le_mono)
    then have sq: "v * v mod DOUBLE_CHUNK = v * v" "v * v < DOUBLE_CHUNK" by (simp_all add: DOUBLE_CHUNK_def)
    have nb: "base ^ (e div 2 ^ j) = (if e AND 2 ^ j \<noteq> 0 then v * v * base else v * v)"
      using next_bit [of base e j] Suc.prems(1) by (simp add: power2_eq_square)
    have unf: "power_64 base bs e (msk_of (Suc j)) v False =
        (if e AND 2 ^ j \<noteq> 0 then
           (if v * v < 2 ^ (64 - bs) then power_64 base bs e (msk_of j) (v * v * base mod DOUBLE_CHUNK) False
            else power_64 base bs e (msk_of j) (v * v) True)
         else power_64 base bs e (msk_of j) (v * v) False)"
      using True sq by (simp add: power_64.simps [of _ _ _ "2 ^ j" v])
    have lift: ?thesis
      if "power_64 base bs e (msk_of (Suc j)) v False = power_64 base bs e (msk_of j) x b"
        "\<exists>i w d. power_64 base bs e (msk_of j) x b = (msk_of i, w, d) \<and> w < DOUBLE_CHUNK \<and> i \<le> j
           \<and> base ^ (e div 2 ^ i) = (if d then w * base else w)" for x b
      using that by (metis le_SucI)
    consider "e AND 2 ^ j = 0" | "e AND 2 ^ j \<noteq> 0" "v * v < 2 ^ (64 - bs)" | "e AND 2 ^ j \<noteq> 0" "\<not> v * v < 2 ^ (64 - bs)" by blast
    then show ?thesis
    proof cases
      case 1
      then show ?thesis using Suc.IH [of "v * v"] nb sq unf by (intro lift [of "v * v" False]) simp_all
    next
      case 2
      have "v * v * base < 2 ^ (64 - bs) * 2 ^ bs" using 2(2) base(2) by (intro mult_strict_mono) auto
      also have "\<dots> = DOUBLE_CHUNK" using base(3) by (simp add: DOUBLE_CHUNK_def flip: power_add)
      finally show ?thesis using Suc.IH [of "v * v * base"] nb unf 2
        by (intro lift [of "v * v * base" False]) simp_all
    next
      case 3
      have "(2 :: nat) ^ 48 \<le> 2 ^ (64 - bs)" using base(3) by (intro power_increasing) auto
      then have "\<not> v * v \<le> 0xFFFFFFFF" using 3(2) by simp
      then have "power_64 base bs e (msk_of j) (v * v) True = (msk_of j, v * v, True)"
        by (simp add: power_64.simps [of _ _ _ "msk_of j" "v * v" True])
      then show ?thesis using nb unf 3 sq by (intro exI [of _ j] exI [of _ "v * v"] exI [of _ True]) simp
    qed
  qed
qed


lemma below_next_bigit: "x < 28 * (x div 28 + 1)" for x :: nat
  by presburger

lemma half_bigits: "2 * x \<le> y \<Longrightarrow> 2 * (x div 28 + 1) \<le> y div 28 + 2" for x y :: nat
  using div_times_less_eq_dividend [of x 28] less_eq_div_iff_mult_less_eq [of 28 "2 * (x div 28)" y] by simp

lemma used_of_power:
  assumes "bn_inv b" "mantissa b = base ^ k" "base < 2 ^ bs"
  shows "used_digits b \<le> bs * k div 28 + 1"
proof -
  have "base ^ k \<le> (2 ^ bs) ^ k" using assms(3) by (intro power_mono) auto
  also have "\<dots> = 2 ^ (bs * k)" by (simp add: power_mult)
  also have "\<dots> < 2 ^ (28 * (bs * k div 28 + 1))"
    by (intro power_strict_increasing below_next_bigit) simp
  also have "\<dots> = BIGIT ^ (bs * k div 28 + 1)" unfolding BIGIT_def by (rule power_mult)
  finally show ?thesis using assms(1,2) bn_inv_used by metis
qed

lemma power_fits:
  assumes "base < 2 ^ bs" "bs * e div 28 + 2 \<le> kBigitCapacity" "k \<le> e"
  shows "base ^ k < BIGIT ^ kBigitCapacity"
proof -
  have "base ^ k \<le> (2 ^ bs) ^ k" using assms(1) by (intro power_mono) auto
  also have "\<dots> = 2 ^ (bs * k)" by (simp add: power_mult)
  also have "\<dots> < 2 ^ (28 * kBigitCapacity)"
  proof (rule power_strict_increasing)
    have "bs * k \<le> bs * e" using assms(3) by simp
    then show "bs * k < 28 * kBigitCapacity" using assms(2) by linarith
  qed simp
  also have "\<dots> = BIGIT ^ kBigitCapacity" unfolding BIGIT_def by (rule power_mult)
  finally show ?thesis .
qed

lemma power_bignum_correct:
  assumes base: "0 < base" "base < 2 ^ bs" "base < CHUNK" and cap: "bs * e div 28 + 2 \<le> kBigitCapacity"
  shows "bn_inv b \<Longrightarrow> mantissa b = base ^ (e div 2 ^ j) \<Longrightarrow> exponent b = 0 \<Longrightarrow>
    \<exists>b'. power_bignum base e (msk_of j) b = Some b' \<and> bn_inv b' \<and> mantissa b' = base ^ e \<and> exponent b' = 0"
proof (induction j arbitrary: b)
  case 0
  then show ?case by (simp add: power_bignum.simps [of _ _ 0])
next
  case (Suc j)
  let ?k = "e div 2 ^ Suc j"
  have "2 * ?k \<le> e"
    using div_times_less_eq_dividend [of e "2 ^ Suc j"] by (intro order_trans [OF mult_le_mono1 [of 2 "2 ^ Suc j"]]) (auto simp: mult.commute)
  then have "bs * (2 * ?k) \<le> bs * e" by (rule mult_le_mono2)
  then have "2 * (bs * ?k div 28 + 1) \<le> bs * e div 28 + 2" by (intro half_bigits) (simp add: algebra_simps)
  then have room: "2 * used_digits b \<le> kBigitCapacity"
    using used_of_power [OF Suc.prems(1,2) base(2)] cap by (meson le_trans mult_le_mono2)
  obtain c where c: "Square b = Some c" "bn_inv c" "bn_value c = bn_value b ^ 2" "exponent c = 0"
    using Square_ok [OF Suc.prems(1) room] Suc.prems(3) by metis
  then have m: "mantissa c = (base ^ ?k) ^ 2" using Suc.prems(2,3) by (simp add: bn_value_def)
  show ?case
  proof (cases "e AND 2 ^ j = 0")
    case True
    then show ?thesis using c m Suc.IH [of c] next_bit [of base e j] by (simp add: power_bignum.simps [of _ _ "2 ^ j" b])
  next
    case False
    have mj: "mantissa c * base = base ^ (e div 2 ^ j)" using next_bit [of base e j] False m by simp
    obtain d where d: "MultiplyByUInt32 c base = Some d" "bn_inv d" "mantissa d = mantissa c * base" "exponent d = 0"
      using MultiplyByUInt32_ok [OF c(2) base(3)] power_fits [OF base(2) cap, of "e div 2 ^ j"] mj c(4) base(1)
      by (metis div_le_dividend)
    then show ?thesis using c False mj Suc.IH [of d] by (simp add: power_bignum.simps [of _ _ "2 ^ j" b])
  qed
qed

lemma first_mask:
  assumes "0 < e"
  obtains k where "find_mask e 1 div 4 = msk_of k" "e div 2 ^ k = 1"
proof -
  obtain i where i: "find_mask e 1 = 2 ^ i" "e < 2 ^ i" "2 ^ i \<le> 2 * e"
    using find_mask_correct [of e 0] assms by auto
  then obtain k where k: "i = Suc k" using assms by (cases i) auto
  have "(2 :: nat) ^ Suc k div 4 = 2 ^ k div 2" by simp
  moreover have "e div 2 ^ k = 1" using i k by (intro div_nat_eqI) auto
  ultimately show ?thesis using that [of k] i(1) k by (metis msk_of_simps(3))
qed

text \<open>The two phases together, for the base without its factors of two.\<close>

lemma power_phases:
  assumes b: "bn_ok b" and base: "0 < base" "base < 2 ^ bs" "bs \<le> 16" and e: "0 < e"
    and cap: "bs * e div 28 + 2 \<le> kBigitCapacity"
    and p: "power_64 base bs e (find_mask e 1 div 4) base False = (msk, v, delayed)"
  obtains b1 b2 b3 where "AssignUInt64 b v = Some b1"
    "(if delayed then MultiplyByUInt32 b1 base else Some b1) = Some b2"
    "power_bignum base e msk b2 = Some b3" "bn_inv b3" "mantissa b3 = base ^ e" "exponent b3 = 0"
proof -
  have small: "base < CHUNK" "base < DOUBLE_CHUNK"
    using base(2,3) power_increasing [of bs 16 "2 :: nat"] by (simp_all add: CHUNK_def DOUBLE_CHUNK_def)
  obtain k where k: "find_mask e 1 div 4 = msk_of k" "e div 2 ^ k = 1" using first_mask [OF e] .
  obtain i where i: "msk = msk_of i" "v < DOUBLE_CHUNK" "base ^ (e div 2 ^ i) = (if delayed then v * base else v)"
    using power_64_correct [OF base, of e base k] k p small(2) e by auto
  obtain b1 where b1: "AssignUInt64 b v = Some b1" "bn_inv b1" "bn_value b1 = v" "exponent b1 = 0"
    using AssignUInt64_correct [OF b i(2)] by metis
  have "\<exists>b2. (if delayed then MultiplyByUInt32 b1 base else Some b1) = Some b2 \<and> bn_inv b2
      \<and> mantissa b2 = base ^ (e div 2 ^ i) \<and> exponent b2 = 0"
  proof (cases delayed)
    case True
    then have "mantissa b1 * base = base ^ (e div 2 ^ i)" using i(3) b1(3,4) by (simp add: bn_value_def)
    moreover from this have "mantissa b1 * base < BIGIT ^ kBigitCapacity"
      using power_fits [OF base(2) cap, of "e div 2 ^ i"] by simp
    ultimately show ?thesis using MultiplyByUInt32_ok [OF b1(2) small(1)] True b1(4) base(1) by (metis neq0_conv)
  qed (use i(3) b1 in \<open>simp add: bn_value_def\<close>)
  then obtain b2 where b2: "(if delayed then MultiplyByUInt32 b1 base else Some b1) = Some b2" "bn_inv b2"
      "mantissa b2 = base ^ (e div 2 ^ i)" "exponent b2 = 0" by blast
  then show ?thesis
    using power_bignum_correct [OF base(1,2) small(1) cap b2(2-4)] that [OF b1(1) b2(1)] i(1) by blast
qed

lemma AssignPowerUInt16_ok:
  assumes "bn_ok b" "0 < base" "base < 2 ^ 16" "count_bits base * e div 28 + 2 \<le> kBigitCapacity"
  shows "\<exists>b'. AssignPowerUInt16 b base e = Some b' \<and> bn_inv b' \<and> bn_value b' = base ^ e"
proof (cases "e = 0")
  case True
  then show ?thesis using AssignUInt16_correct [OF assms(1), of 1] by (auto simp: AssignPowerUInt16_def)
next
  case False
  obtain root s where r: "strip_twos base 0 = Some (root, s)" "base = root * 2 ^ s" "0 < root" "root \<le> base"
    using strip_twos_correct [OF assms(2), of 0] by auto
  let ?bs = "count_bits root"
  have bs: "root < 2 ^ ?bs" "?bs \<le> 16" "?bs \<le> count_bits base"
    using count_bits_correct r(4) assms(3) by (auto intro: le_less_trans)
  then have "?bs * e div 28 \<le> count_bits base * e div 28" by (intro div_le_mono mult_le_mono1)
  then have cap: "?bs * e div 28 + 2 \<le> kBigitCapacity" using assms(4) by simp
  obtain msk v delayed where p: "power_64 root ?bs e (find_mask e 1 div 4) root False = (msk, v, delayed)"
    using prod_cases3 by blast
  have z: "bn_ok (Zero b)" using Zero_correct(1) [OF assms(1)] by (simp add: bn_inv_def)
  obtain b1 b2 b3 where b3: "AssignUInt64 (Zero b) v = Some b1"
      "(if delayed then MultiplyByUInt32 b1 root else Some b1) = Some b2"
      "power_bignum root e msk b2 = Some b3" "bn_inv b3" "mantissa b3 = root ^ e" "exponent b3 = 0"
    using power_phases [OF z r(3) bs(1,2) _ cap p] False by blast
  have "used_digits b3 < kBigitCapacity"
    using used_of_power [OF b3(4,5) bs(1)] cap by simp
  from ShiftLeft_ok [OF b3(4) this, of "s * e"] obtain b4 where
    "ShiftLeft b3 (s * e) = Some b4" "bn_inv b4" "bn_value b4 = bn_value b3 * 2 ^ (s * e)" .
  moreover have "bn_value b3 * 2 ^ (s * e) = base ^ e"
    using b3(5,6) r(2) by (simp add: bn_value_def power_mult_distrib power_mult)
  ultimately show ?thesis using False r(1) cap p b3(1-3)
    by (simp add: AssignPowerUInt16_def EnsureCapacity_def Let_def)
qed

text \<open>
  \<^verbatim>\<open>AssignPowerUInt16\<close> computes the power: for a 16-bit base other than zero and an exponent
  whose result fits the buffer (by the size the code itself estimates) it returns, the invariant
  holds, and the number is exactly \<open>base ^ e\<close>; the 64-bit phase never wraps around, and the delayed
  multiplication restores the factor that phase skips.
\<close>

theorem AssignPowerUInt16_exact:
  assumes "bn_ok b" "0 < base" "base < 2 ^ 16" "count_bits base * e div 28 + 2 \<le> kBigitCapacity"
  shows "\<exists>b'. AssignPowerUInt16 b base e = Some b' \<and> bn_inv b' \<and> bn_value b' = base ^ e"
  using assms by (rule AssignPowerUInt16_ok)

theorem AssignPowerUInt16_exact_witness:
  "\<exists>b'. AssignPowerUInt16 Bignum_new 10 324 = Some b' \<and> bn_inv b' \<and> bn_value b' = 10 ^ 324"
proof -
  have "count_bits 10 = 4" by (simp add: count_bits.simps)
  then show ?thesis
    using AssignPowerUInt16_exact [of Bignum_new 10 324] bn_inv_new(1) by (simp add: bn_inv_def kBigitCapacity_def)
qed

end
