(* ===== verification/Bignum_Divide.thy ===== *)
theory Bignum_Divide
  imports Bignum_Arith
begin

text \<open>
  Comparison of bignums and division with a small quotient, from \<^verbatim>\<open>src/bignum.cc\<close>.
\<close>

section \<open>Comparison\<close>

fun compare_from :: "bignum \<Rightarrow> bignum \<Rightarrow> nat \<Rightarrow> nat \<Rightarrow> int" where
  "compare_from a b lo 0 = 0"
| "compare_from a b lo (Suc i) =
     (if i < lo then 0
      else if BigitAt a i < BigitAt b i then -1
      else if BigitAt a i > BigitAt b i then 1
      else compare_from a b lo i)"

definition Compare :: "bignum \<Rightarrow> bignum \<Rightarrow> int" where
  "Compare a b =
     (if BigitLength a < BigitLength b then -1
      else if BigitLength a > BigitLength b then 1
      else compare_from a b (min (exponent a) (exponent b)) (BigitLength a))"

definition LessEqual :: "bignum \<Rightarrow> bignum \<Rightarrow> bool" where
  "LessEqual a b \<longleftrightarrow> Compare a b \<le> 0"

fun plus_compare_from :: "bignum \<Rightarrow> bignum \<Rightarrow> bignum \<Rightarrow> nat \<Rightarrow> nat \<Rightarrow> nat \<Rightarrow> int" where
  "plus_compare_from a b c lo borrow 0 = (if borrow = 0 then 0 else -1)"
| "plus_compare_from a b c lo borrow (Suc i) =
     (if i < lo then (if borrow = 0 then 0 else -1)
      else let sum = (BigitAt a i + BigitAt b i) mod CHUNK;
               room = (BigitAt c i + borrow) mod CHUNK in
           if sum > room then 1
           else if room - sum > 1 then -1
           else plus_compare_from a b c lo ((room - sum) * BIGIT mod CHUNK) i)"

definition plus_compare_ordered :: "bignum \<Rightarrow> bignum \<Rightarrow> bignum \<Rightarrow> int" where
  "plus_compare_ordered a b c =
     (if BigitLength a + 1 < BigitLength c then -1
      else if BigitLength a > BigitLength c then 1
      else if exponent a \<ge> BigitLength b \<and> BigitLength a < BigitLength c then -1
      else plus_compare_from a b c (min (min (exponent a) (exponent b)) (exponent c)) 0 (BigitLength c))"

definition PlusCompare :: "bignum \<Rightarrow> bignum \<Rightarrow> bignum \<Rightarrow> int" where
  "PlusCompare a b c =
     (if BigitLength a < BigitLength b then plus_compare_ordered b a c else plus_compare_ordered a b c)"

text \<open>A bigit is a digit of the value.\<close>

lemma val_div: "\<forall>d \<in> set bs. d < BIGIT \<Longrightarrow> i \<le> length bs \<Longrightarrow> val bs div BIGIT ^ i = val (drop i bs)"
proof -
  assume a: "\<forall>d \<in> set bs. d < BIGIT" "i \<le> length bs"
  have "val (take i bs) < BIGIT ^ i" using val_bound [of "take i bs"] a by (auto dest: in_set_takeD)
  then show ?thesis using val_split [OF a(2)] by simp
qed

lemma BigitAt_eq:
  assumes "bn_ok b"
  shows "BigitAt b i = bn_value b div BIGIT ^ i mod BIGIT"
proof -
  have b: "digits_ok (bigits b)" "mantissa b < BIGIT ^ used_digits b" "used_digits b \<le> kBigitCapacity"
    using assms by (auto simp: bn_ok_def)
  consider "BigitLength b \<le> i" | "i < exponent b" "i < BigitLength b" | "exponent b \<le> i" "i < BigitLength b" by linarith
  then show ?thesis
  proof cases
    case 1
    have "bn_value b < BIGIT ^ BigitLength b" using b(2) by (simp add: bn_value_def BigitLength_def power_add)
    also have "\<dots> \<le> BIGIT ^ i" using 1 by (simp add: power_BIGIT_le)
    finally show ?thesis using 1 by (simp add: BigitAt_def)
  next
    case 2
    have "BIGIT ^ exponent b = BIGIT ^ i * (BIGIT * BIGIT ^ (exponent b - i - 1))"
      using 2 by (simp flip: power_add power_Suc)
    then have "bn_value b div BIGIT ^ i = BIGIT * (mantissa b * BIGIT ^ (exponent b - i - 1))"
      by (simp add: bn_value_def)
    then show ?thesis using 2 by (simp add: BigitAt_def)
  next
    case 3
    let ?k = "i - exponent b"
    have k: "?k < kBigitCapacity" "?k < length (bigits b)" using 3 b by (auto simp: BigitLength_def digits_ok_def)
    have "BIGIT ^ i = BIGIT ^ ?k * BIGIT ^ exponent b" using 3 by (simp flip: power_add)
    then have "bn_value b div BIGIT ^ i = mantissa b div BIGIT ^ ?k" by (simp add: bn_value_def)
    also have "\<dots> = val (drop ?k (bigits b))" using val_div [of "bigits b" ?k] b(1) k by (simp add: digits_ok_def)
    also have "\<dots> = bigits b ! ?k + BIGIT * val (drop (Suc ?k) (bigits b))" using k by (simp add: Cons_nth_drop_Suc [symmetric])
    finally show ?thesis using 3 digits_ok_nth [OF b(1) k(1)] by (simp add: BigitAt_def)
  qed
qed

lemma div_step: "(x::nat) div BIGIT ^ i = BIGIT * (x div BIGIT ^ Suc i) + x div BIGIT ^ i mod BIGIT"
  by (simp add: div_mult2_eq mult.commute [of BIGIT])

lemma low_zero: "bn_ok b \<Longrightarrow> lo \<le> exponent b \<Longrightarrow> bn_value b = bn_value b div BIGIT ^ lo * BIGIT ^ lo"
proof -
  assume "bn_ok b" "lo \<le> exponent b"
  then have "BIGIT ^ exponent b = BIGIT ^ (exponent b - lo) * BIGIT ^ lo" by (simp flip: power_add)
  then show ?thesis by (simp add: bn_value_def)
qed

lemma div_less_imp: "(x::nat) div m < y div m \<Longrightarrow> x < y"
  by (meson div_le_mono leD leI)

lemma compare_from_correct:
  assumes "bn_ok a" "bn_ok b" "lo \<le> exponent a" "lo \<le> exponent b" "bn_value a div BIGIT ^ n = bn_value b div BIGIT ^ n" "lo \<le> n"
  shows "compare_from a b lo n = sgn (int (bn_value a) - int (bn_value b))"
  using assms(5,6)
proof (induction n)
  case 0
  then show ?case by simp
next
  case (Suc i)
  show ?case
  proof (cases "i < lo")
    case True
    then have "Suc i = lo" using Suc.prems(2) by simp
    then have "bn_value a = bn_value b" using low_zero assms Suc.prems(1) by metis
    then show ?thesis using True by simp
  next
    case False
    let ?x = "BigitAt a i" and ?y = "BigitAt b i"
    have d: "bn_value a div BIGIT ^ i = BIGIT * (bn_value b div BIGIT ^ Suc i) + ?x"
      "bn_value b div BIGIT ^ i = BIGIT * (bn_value b div BIGIT ^ Suc i) + ?y"
      using div_step [of "bn_value a" i] div_step [of "bn_value b" i] Suc.prems(1) BigitAt_eq assms(1,2) by auto
    consider "?x < ?y" | "?y < ?x" | "?x = ?y" by linarith
    then show ?thesis
    proof cases
      case 1 then show ?thesis using d div_less_imp [of "bn_value a" "BIGIT ^ i" "bn_value b"] False by simp
    next
      case 2 then show ?thesis using d div_less_imp [of "bn_value b" "BIGIT ^ i" "bn_value a"] False by simp
    next
      case 3 then show ?thesis using d Suc.IH False by simp
    qed
  qed
qed

lemma compare_correct:
  assumes "bn_inv a" "bn_inv b"
  shows "Compare a b = sgn (int (bn_value a) - int (bn_value b))"
proof -
  consider "BigitLength a < BigitLength b" | "BigitLength b < BigitLength a" | "BigitLength a = BigitLength b" by linarith
  then show ?thesis
  proof cases
    case 1
    then have "bn_value a < bn_value b" using BigitLength_mono [OF assms(2,1)] by linarith
    then show ?thesis using 1 by (simp add: Compare_def)
  next
    case 2
    then have "bn_value b < bn_value a" using BigitLength_mono [OF assms] by linarith
    then show ?thesis using 2 by (simp add: Compare_def)
  next
    case 3
    have "bn_value a div BIGIT ^ BigitLength a = bn_value b div BIGIT ^ BigitLength a"
      using BigitLength_bounds(1) [OF assms(1)] BigitLength_bounds(1) [OF assms(2)] 3 by simp
    then show ?thesis using 3 compare_from_correct [of a b] assms
      by (simp add: Compare_def bn_inv_def BigitLength_def)
  qed
qed

text \<open>\<open>Compare\<close> compares the values, whatever the exponents and lengths of its operands.\<close>

theorem Compare_exact:
  assumes "bn_inv a" "bn_inv b"
  shows "Compare a b = sgn (int (bn_value a) - int (bn_value b))"
  using assms by (rule compare_correct)

theorem Compare_exact_witness: "Compare (of_bigits [3] 1) (of_bigits [5, 2] 0) = 1"
  using Compare_exact [OF of_bigits_inv [of "[3]" 1] of_bigits_inv [of "[5, 2]" 0]]
  by (simp add: of_bigits_value concrete)

lemma div_bounds: "m \<noteq> 0 \<Longrightarrow> (x::nat) div m * m \<le> x" "m \<noteq> 0 \<Longrightarrow> (x::nat) < (x div m + 1) * m"
  by (simp_all add: dividend_less_div_times)

lemma sgn_sum:
  fixes x y z :: nat
  shows "x + y < z \<Longrightarrow> sgn (int (x + y) - int z) = -1" "z < x + y \<Longrightarrow> sgn (int (x + y) - int z) = 1"
  by auto

lemma plus_compare_from_correct:
  assumes ok: "bn_ok a" "bn_ok b" "bn_ok c" and lo: "lo \<le> exponent a" "lo \<le> exponent b" "lo \<le> exponent c"
    and "bn_value c div BIGIT ^ n = bn_value a div BIGIT ^ n + bn_value b div BIGIT ^ n + D" "D \<le> 1" "lo \<le> n"
  shows "plus_compare_from a b c lo (D * BIGIT) n = sgn (int (bn_value a + bn_value b) - int (bn_value c))"
  using assms(7-9)
proof (induction n arbitrary: D)
  case 0
  then show ?case by (cases D) auto
next
  case (Suc i)
  let ?a = "bn_value a" and ?b = "bn_value b" and ?c = "bn_value c" and ?m = "BIGIT ^ i"
  show ?case
  proof (cases "i < lo")
    case True
    then have "Suc i = lo" using Suc.prems(3) by simp
    then have "?c = ?a + ?b + D * BIGIT ^ lo"
      using low_zero [OF ok(1) lo(1)] low_zero [OF ok(2) lo(2)] low_zero [OF ok(3) lo(3)] Suc.prems(1)
      by (metis add_mult_distrib)
    then show ?thesis using True Suc.prems(2) by (cases D) auto
  next
    case False
    have nz: "?m \<noteq> 0" by simp
    define sum room where "sum = BigitAt a i + BigitAt b i" and "room = BigitAt c i + D * BIGIT"
    have at: "BigitAt a i < BIGIT" "BigitAt b i < BIGIT" "BigitAt c i < BIGIT" using BigitAt_eq ok by auto
    then have small: "sum < CHUNK" "room < CHUNK"
      using Suc.prems(2) by (auto simp: sum_def room_def BIGIT_def CHUNK_def)
    have key: "?c div ?m + sum = ?a div ?m + ?b div ?m + room"
      using div_step [of ?a i] div_step [of ?b i] div_step [of ?c i] Suc.prems(1) BigitAt_eq ok
      by (simp add: sum_def room_def algebra_simps)
    have unfold: "plus_compare_from a b c lo (D * BIGIT) (Suc i) =
        (if sum > room then 1 else if room - sum > 1 then -1
         else plus_compare_from a b c lo ((room - sum) * BIGIT mod CHUNK) i)"
      using False small by (simp add: sum_def [symmetric] room_def [symmetric] Let_def)
    consider "sum > room" | "room \<ge> sum + 2" | "room = sum \<or> room = sum + 1" by linarith
    then show ?thesis
    proof cases
      case 1
      then have "(?c div ?m + 1) * ?m \<le> (?a div ?m + ?b div ?m) * ?m" using key by (intro mult_le_mono1) simp
      then have "?c < ?a + ?b"
        using div_bounds(1) [OF nz, of ?a] div_bounds(1) [OF nz, of ?b] div_bounds(2) [OF nz, of ?c] unfolding add_mult_distrib
        by linarith
      then show ?thesis using 1 unfold by simp
    next
      case 2
      then have "(?a div ?m + 1 + (?b div ?m + 1)) * ?m \<le> ?c div ?m * ?m" using key by (intro mult_le_mono1) simp
      then have h: "?a + ?b < ?c"
        using div_bounds(2) [OF nz, of ?a] div_bounds(2) [OF nz, of ?b] div_bounds(1) [OF nz, of ?c] unfolding add_mult_distrib
        by linarith
      have "1 < room - sum" "\<not> sum > room" using 2 by auto
      then show ?thesis unfolding unfold sgn_sum(1) [OF h] by simp
    next
      case 3
      then have "(room - sum) * BIGIT mod CHUNK = (room - sum) * BIGIT" by (auto simp: BIGIT_def CHUNK_def)
      moreover have "?c div ?m = ?a div ?m + ?b div ?m + (room - sum)" "room - sum \<le> 1" using key 3 by auto
      ultimately show ?thesis using Suc.IH [of "room - sum"] unfold 3 False by auto
    qed
  qed
qed

lemma plus_compare_ordered_correct:
  assumes "bn_inv a" "bn_inv b" "bn_inv c" "BigitLength b \<le> BigitLength a"
  shows "plus_compare_ordered a b c = sgn (int (bn_value a + bn_value b) - int (bn_value c))"
proof -
  let ?a = "bn_value a" and ?b = "bn_value b" and ?c = "bn_value c"
  let ?la = "BigitLength a" and ?lb = "BigitLength b" and ?lc = "BigitLength c"
  have lt: "?a < BIGIT ^ ?la" "?b < BIGIT ^ ?lb" "?c < BIGIT ^ ?lc" using BigitLength_bounds(1) assms by auto
  have c_ge: "BIGIT ^ (?lc - 1) \<le> ?c" if "0 < ?lc"
    using BigitLength_bounds(2) [OF assms(3)] that assms(3) by (auto simp: BigitLength_def bn_inv_def)
  consider "?la + 1 < ?lc" | "?lc < ?la" | "?la \<le> ?lc" "exponent a \<ge> ?lb" "?la < ?lc" | "?la \<le> ?lc" "?lc \<le> ?la + 1" "\<not> (exponent a \<ge> ?lb \<and> ?la < ?lc)"
    by linarith
  then show ?thesis
  proof cases
    case 1
    have "?b < BIGIT ^ ?la" using lt(2) assms(4) power_BIGIT_le(1) [of ?lb ?la] by linarith
    then have "?a + ?b < 2 * BIGIT ^ ?la" using lt(1) by simp
    also have "\<dots> \<le> BIGIT ^ (?la + 1)" by (simp add: BIGIT_def)
    also have "\<dots> \<le> BIGIT ^ (?lc - 1)" using 1 by (simp add: power_BIGIT_le del: power_Suc)
    finally show ?thesis using c_ge 1 sgn_sum(1) by (simp add: plus_compare_ordered_def)
  next
    case 2
    then have "?c < ?a" using BigitLength_mono [OF assms(1,3)] by linarith
    then show ?thesis using 2 sgn_sum(2) [of ?c ?a ?b] by (simp add: plus_compare_ordered_def)
  next
    case 3
    have "mantissa a + 1 \<le> BIGIT ^ used_digits a" using assms(1) by (simp add: bn_inv_def bn_ok_def Suc_leI)
    then have "(mantissa a + 1) * BIGIT ^ exponent a \<le> BIGIT ^ ?la"
      unfolding BigitLength_def power_add by (rule mult_le_mono1)
    moreover have "?b < BIGIT ^ exponent a" using lt(2) 3(2) power_BIGIT_le(1) [of ?lb "exponent a"] by linarith
    ultimately have "?a + ?b < BIGIT ^ ?la" by (simp add: bn_value_def)
    also have "\<dots> \<le> BIGIT ^ (?lc - 1)" using 3 by (simp add: power_BIGIT_le)
    finally show ?thesis using c_ge 3 sgn_sum(1) by (simp add: plus_compare_ordered_def)
  next
    case 4
    have "?a < BIGIT ^ ?lc" "?b < BIGIT ^ ?lc" using lt 4(1) assms(4) power_BIGIT_le(1) [of _ ?lc] by (meson le_trans less_le_trans)+
    then have "?c div BIGIT ^ ?lc = ?a div BIGIT ^ ?lc + ?b div BIGIT ^ ?lc + 0" using lt(3) by simp
    then show ?thesis
      using plus_compare_from_correct [of a b c "min (min (exponent a) (exponent b)) (exponent c)" ?lc 0] assms 4
      by (auto simp: plus_compare_ordered_def bn_inv_def BigitLength_def)
  qed
qed

lemma PlusCompare_ok:
  assumes "bn_inv a" "bn_inv b" "bn_inv c"
  shows "PlusCompare a b c = sgn (int (bn_value a + bn_value b) - int (bn_value c))"
  using plus_compare_ordered_correct [OF assms] plus_compare_ordered_correct [OF assms(2,1,3)]
  by (simp add: PlusCompare_def add.commute)

text \<open>
  \<open>PlusCompare\<close> compares the sum of its first two operands with the third without computing the
  sum: its shortcuts on lengths and exponents and its running borrow agree with the comparison
  of the values.
\<close>

theorem PlusCompare_correct:
  assumes "bn_inv a" "bn_inv b" "bn_inv c"
  shows "PlusCompare a b c = sgn (int (bn_value a + bn_value b) - int (bn_value c))"
  using assms by (rule PlusCompare_ok)

theorem PlusCompare_correct_witness: "PlusCompare (of_bigits [BIGIT - 1] 0) (of_bigits [1] 0) (of_bigits [1] 1) = 0"
  using PlusCompare_correct [OF of_bigits_inv [of "[BIGIT - 1]" 0] of_bigits_inv [of "[1]" 0] of_bigits_inv [of "[1]" 1]]
  by (simp add: of_bigits_value concrete)

section \<open>Subtracting a multiple\<close>

fun repeat_sub :: "nat \<Rightarrow> bignum \<Rightarrow> bignum \<Rightarrow> bignum option" where
  "repeat_sub 0 b other = Some b"
| "repeat_sub (Suc n) b other =
     (case SubtractBignum b other of None \<Rightarrow> None | Some b \<Rightarrow> repeat_sub n b other)"

definition times_digits :: "nat \<Rightarrow> nat \<Rightarrow> nat list \<Rightarrow> nat \<Rightarrow> nat list \<Rightarrow> nat list \<times> nat" where
  "times_digits off factor ds n bs =
     fold (\<lambda>i (bs, borrow).
        let product = factor * ds ! i mod DOUBLE_CHUNK;
            remove = (borrow + product) mod DOUBLE_CHUNK;
            difference = (bs ! (off + i) + CHUNK - remove mod BIGIT) mod CHUNK
        in (bs[off + i := difference mod BIGIT], (difference div 2 ^ 31 + remove div BIGIT) mod CHUNK))
       [0..<n] (bs, 0)"

text \<open>
  The second loop of \<open>SubtractTimes\<close>; its body increments \<open>i\<close> and so does the loop header.  The flag
  tells whether the loop ran to its end, after which the code clamps, or returned early.
\<close>

function times_tail :: "nat list \<Rightarrow> nat \<Rightarrow> nat \<Rightarrow> nat \<Rightarrow> nat list \<times> bool" where
  "times_tail bs i used borrow =
     (if i < used then
        (if borrow = 0 then (bs, False)
         else let difference = (bs ! i + CHUNK - borrow) mod CHUNK
              in times_tail (bs[i := difference mod BIGIT]) (i + 2) used (difference div 2 ^ 31))
      else (bs, True))"
  by pat_completeness auto
termination by (relation "measure (\<lambda>(bs, i, used, borrow). used - i)") auto

declare times_tail.simps [simp del]

definition SubtractTimes :: "bignum \<Rightarrow> bignum \<Rightarrow> nat \<Rightarrow> bignum option" where
  "SubtractTimes b other factor =
     (if factor < 3 then repeat_sub factor b other
      else let exponent_diff = exponent other - exponent b;
               (bs, borrow) = times_digits exponent_diff factor (bigits other) (used_digits other) (bigits b);
               (bs, clamp) = times_tail bs (used_digits other + exponent_diff) (used_digits b) borrow
           in Some (if clamp then Clamp (b\<lparr>bigits := bs\<rparr>) else b\<lparr>bigits := bs\<rparr>))"

lemma repeat_sub_ok:
  assumes "bn_inv other"
  shows "bn_inv b \<Longrightarrow> exponent b \<le> exponent other \<Longrightarrow> n * bn_value other \<le> bn_value b \<Longrightarrow>
    \<exists>b'. repeat_sub n b other = Some b' \<and> bn_inv b' \<and> bn_value b' + n * bn_value other = bn_value b
      \<and> exponent b' \<le> exponent other"
proof (induction n arbitrary: b)
  case (Suc n)
  have "bn_value other \<le> bn_value b" using Suc.prems(3) by simp
  then obtain c where c: "SubtractBignum b other = Some c" "bn_inv c" "bn_value c + bn_value other = bn_value b"
    "exponent c \<le> exponent other" using SubtractBignum_ok [OF Suc.prems(1) assms] Suc.prems(2) by metis
  then have "n * bn_value other \<le> bn_value c" using Suc.prems(3) by simp
  then show ?case using Suc.IH [OF c(2,4)] c(1,3) by auto
qed simp

lemma times_digits_correct:
  assumes "digits_ok bs" "digits_ok ds" "off + n \<le> kBigitCapacity" "factor < BIGIT"
  shows "\<exists>bs' c. times_digits off factor ds n bs = (bs', c) \<and> digits_ok bs' \<and> c \<le> factor
    \<and> val bs' + factor * val (take n ds) * BIGIT ^ off = val bs + c * BIGIT ^ (off + n) \<and> (\<forall>i \<ge> off + n. bs' ! i = bs ! i)"
  using assms(3)
proof (induction n)
  case 0 then show ?case using assms(1) by (simp add: times_digits_def)
next
  case (Suc n)
  then obtain cs c where ih: "times_digits off factor ds n bs = (cs, c)" "digits_ok cs" "c \<le> factor"
    "val cs + factor * val (take n ds) * BIGIT ^ off = val bs + c * BIGIT ^ (off + n)" "\<forall>i \<ge> off + n. cs ! i = bs ! i" by auto
  have i: "off + n < kBigitCapacity" "n < kBigitCapacity" using Suc.prems by auto
  define x r d where "x = cs ! (off + n)" and "r = c + factor * ds ! n" and "d = (x + 1 * CHUNK - r mod BIGIT) mod CHUNK"
  define c' where "c' = d div 2 ^ 31 + r div BIGIT"
  have x: "x < BIGIT" using digits_ok_nth [OF ih(2) i(1)] by (simp add: x_def)
  have r: "r \<le> factor * BIGIT" using carry_bound(2) [OF digits_ok_nth [OF assms(2) i(2)] ih(3)] by (simp add: r_def add.commute)
  have rmod: "r mod BIGIT \<le> BIGIT" by (simp add: less_imp_le)
  have "d mod BIGIT + r mod BIGIT = x + d div 2 ^ 31 * BIGIT" using diff_exact [OF x rmod, of 1] by (simp add: d_def)
  then have eq: "d mod BIGIT + r = x + c' * BIGIT" using div_mult_mod_eq [of r BIGIT] unfolding c'_def add_mult_distrib by linarith
  have "c' * BIGIT < (factor + 1) * BIGIT"
  proof -
    have "d mod BIGIT < BIGIT" by simp
    then have "d mod BIGIT + r < BIGIT + factor * BIGIT" using r by linarith
    then show ?thesis using eq by (simp add: add_mult_distrib)
  qed
  then have c': "c' \<le> factor" by (metis BIGIT_pos(1) Suc_eq_plus1 less_Suc_eq_le mult_less_cancel2)
  have fits: "factor * ds ! n < DOUBLE_CHUNK" "r < DOUBLE_CHUNK" "c' < CHUNK"
  proof -
    have "factor * BIGIT < DOUBLE_CHUNK" using assms(4) by (simp add: BIGIT_def DOUBLE_CHUNK_def)
    then show "r < DOUBLE_CHUNK" using r by linarith
    then show "factor * ds ! n < DOUBLE_CHUNK" by (simp add: r_def)
    show "c' < CHUNK" using c' assms(4) by (simp add: BIGIT_def CHUNK_def)
  qed
  have e: "times_digits off factor ds (Suc n) bs = (cs[off + n := d mod BIGIT], c')"
    using ih(1) fits by (simp add: times_digits_def d_def x_def r_def [symmetric] c'_def Let_def)
  have "val (cs[off + n := d mod BIGIT]) + x * BIGIT ^ (off + n) = val cs + d mod BIGIT * BIGIT ^ (off + n)"
    unfolding x_def using ih(2) i by (intro val_update) (simp add: digits_ok_def)
  moreover have "(d mod BIGIT + r) * BIGIT ^ (off + n) = (x + c' * BIGIT) * BIGIT ^ (off + n)" by (simp only: eq)
  then have "d mod BIGIT * BIGIT ^ (off + n) + factor * (ds ! n * BIGIT ^ n) * BIGIT ^ off + c * BIGIT ^ (off + n)
      = x * BIGIT ^ (off + n) + c' * BIGIT ^ (off + Suc n)"
    by (simp add: r_def algebra_simps power_add)
  moreover have "factor * val (take (Suc n) ds) * BIGIT ^ off
      = factor * val (take n ds) * BIGIT ^ off + factor * (ds ! n * BIGIT ^ n) * BIGIT ^ off"
    using assms(2) i by (simp add: val_take_Suc digits_ok_def algebra_simps)
  ultimately have "val (cs[off + n := d mod BIGIT]) + factor * val (take (Suc n) ds) * BIGIT ^ off
      = val bs + c' * BIGIT ^ (off + Suc n)" using ih(4) by linarith
  then show ?case using e c' digits_ok_update [OF ih(2)] ih(5) by simp
qed

text \<open>
  The tail of the loop when there is at most one bigit above the subtrahend: what is borrowed
  from beyond the used digits is zero, because the difference is not negative.
\<close>

lemma times_tail_ok:
  assumes "digits_ok bs" "p \<le> n" "n \<le> p + 1" "n \<le> kBigitCapacity" "c < BIGIT"
    and v: "val bs + f = v + c * BIGIT ^ p" and "f \<le> v" "v < BIGIT ^ n"
    and high: "\<And>i. n \<le> i \<Longrightarrow> i < kBigitCapacity \<Longrightarrow> bs ! i = 0"
  obtains bs' e where "times_tail bs p n c = (bs', e)" "digits_ok bs'" "val bs' + f = v"
    "e \<or> c = 0 \<and> p < n \<and> bs' = bs"
proof (cases "p < n \<and> c \<noteq> 0")
  case False
  have lt: "val bs < BIGIT ^ n" using val_zero_high [OF assms(1,4) high] .
  have "c = 0"
  proof (rule ccontr)
    assume "c \<noteq> 0"
    then have "p = n" using False assms(2) by simp
    then have "BIGIT ^ n \<le> c * BIGIT ^ p" using \<open>c \<noteq> 0\<close> by simp
    then show False using v assms(7) lt by linarith
  qed
  then show ?thesis using that [of bs "\<not> p < n"] assms(1) v by (simp add: times_tail.simps)
next
  case True
  then have n: "n = p + 1" "p < length bs" using assms(1,3,4) by (auto simp: digits_ok_def)
  define x d where "x = bs ! p" and "d = (x + 1 * CHUNK - c) mod CHUNK"
  have x: "x < BIGIT" using digits_ok_nth [OF assms(1)] n(1) assms(4) by (simp add: x_def)
  have d: "d mod BIGIT + c = x + d div 2 ^ 31 * BIGIT" using diff_exact(1) [OF x, of c 1] assms(5) by (simp add: d_def)
  let ?bs = "bs[p := d mod BIGIT]"
  have ok: "digits_ok ?bs" using assms(1) by (simp add: digits_ok_update)
  have "val ?bs + x * BIGIT ^ p = val bs + d mod BIGIT * BIGIT ^ p" unfolding x_def using n(2) by (rule val_update)
  moreover have "(d mod BIGIT + c) * BIGIT ^ p = (x + d div 2 ^ 31 * BIGIT) * BIGIT ^ p" by (simp only: d)
  then have "d mod BIGIT * BIGIT ^ p + c * BIGIT ^ p = x * BIGIT ^ p + d div 2 ^ 31 * BIGIT ^ n"
    by (simp add: n(1) algebra_simps)
  ultimately have v': "val ?bs + f = v + d div 2 ^ 31 * BIGIT ^ n" using v by linarith
  have "?bs ! i = 0" if "n \<le> i" "i < kBigitCapacity" for i using that high n(1) by simp
  then have "val ?bs < BIGIT ^ n" using val_zero_high [OF ok assms(4)] by blast
  then have "d div 2 ^ 31 * BIGIT ^ n < BIGIT ^ n" using v' assms(7) by linarith
  then have "d div 2 ^ 31 = 0" by (cases "d div 2 ^ 31") auto
  moreover have "times_tail bs p n c = times_tail ?bs (p + 2) n (d div 2 ^ 31)"
    using True by (subst times_tail.simps) (simp add: x_def d_def Let_def)
  ultimately have "times_tail bs p n c = (?bs, True)" using n(1) by (simp add: times_tail.simps)
  then show ?thesis using that [OF _ ok] v' \<open>d div 2 ^ 31 = 0\<close> by simp
qed

lemma SubtractTimes_ok:
  assumes "bn_inv b" "bn_inv other" "exponent b \<le> exponent other" "factor < BIGIT"
    "factor * bn_value other \<le> bn_value b" "BigitLength b \<le> BigitLength other + 1" "used_digits other \<noteq> 0"
  obtains b' where "SubtractTimes b other factor = Some b'" "bn_inv b'"
    "bn_value b' + factor * bn_value other = bn_value b" "exponent b' \<le> exponent other"
proof (cases "factor < 3")
  case True
  then show ?thesis using that repeat_sub_ok [OF assms(2,1,3,5)] by (auto simp: SubtractTimes_def)
next
  case False
  define off where "off = exponent other - exponent b"
  have e: "exponent other = off + exponent b" using assms(3) by (simp add: off_def)
  let ?m = "used_digits other" and ?n = "used_digits b"
  have bd: "digits_ok (bigits b)" "mantissa b < BIGIT ^ ?n" "?n \<le> kBigitCapacity" using assms(1) by (auto simp: bn_inv_def bn_ok_def)
  have od: "digits_ok (bigits other)" "mantissa other < BIGIT ^ ?m" "?m \<le> kBigitCapacity" using assms(2) by (auto simp: bn_inv_def bn_ok_def)
  have ot: "val (take ?m (bigits other)) = mantissa other" using val_used [OF od(2)] od(1,3) by (simp add: digits_ok_def)
  have "bn_value other \<le> factor * bn_value other" using False by simp
  then have "bn_value other \<le> bn_value b" using assms(5) by (rule le_trans)
  then have "BigitLength other \<le> BigitLength b" by (rule BigitLength_mono [OF assms(2,1)])
  then have off: "off + ?m \<le> ?n" "?n \<le> off + ?m + 1" using e assms(6) by (simp_all add: BigitLength_def)
  obtain bs c where d: "times_digits off factor (bigits other) ?m (bigits b) = (bs, c)" "digits_ok bs" "c \<le> factor"
    "val bs + factor * mantissa other * BIGIT ^ off = mantissa b + c * BIGIT ^ (off + ?m)" "\<forall>i \<ge> off + ?m. bs ! i = bigits b ! i"
    using times_digits_correct [OF bd(1) od(1) _ assms(4), of off ?m] off bd(3) ot by auto
  have "factor * mantissa other * BIGIT ^ off * BIGIT ^ exponent b \<le> mantissa b * BIGIT ^ exponent b"
    using assms(5) by (simp add: bn_value_def e mult.assoc flip: power_add)
  then have le: "factor * mantissa other * BIGIT ^ off \<le> mantissa b" by simp
  have high: "bs ! i = 0" if "?n \<le> i" "i < kBigitCapacity" for i
    using that d(5) off val_high_zero [OF bd(2), of i] bd(1) by (simp add: digits_ok_def)
  have cB: "c < BIGIT" using d(3) assms(4) by (rule le_less_trans)
  obtain bs' f where t: "times_tail bs (off + ?m) ?n c = (bs', f)" "digits_ok bs'"
    "val bs' + factor * mantissa other * BIGIT ^ off = mantissa b" "f \<or> c = 0 \<and> off + ?m < ?n \<and> bs' = bs"
    using times_tail_ok [OF d(2) off bd(3) cB d(4) le bd(2) high] by blast
  let ?b = "\<lparr>bigits = bs', used_digits = ?n, exponent = exponent b\<rparr>"
  have ok: "bn_ok ?b" using t(2,3) bd by (simp add: bn_ok_def)
  have "(val bs' + factor * mantissa other * BIGIT ^ off) * BIGIT ^ exponent b = bn_value b"
    using t(3) by (simp add: bn_value_def)
  then have v: "bn_value ?b + factor * bn_value other = bn_value b"
    by (subst (2) bn_value_def, subst e) (simp add: bn_value_def algebra_simps power_add)
  have s: "SubtractTimes b other factor = Some (if f then Clamp ?b else ?b)"
    using False d(1) t(1) by (cases b) (simp add: SubtractTimes_def off_def add.commute)
  show ?thesis
  proof (cases f)
    case True
    have "exponent (Clamp ?b) \<le> exponent other" using e by (simp add: Clamp_def Let_def)
    then show ?thesis using that s True Clamp_correct [OF ok] v by simp
  next
    case nf: False
    then have "bs' ! (?n - 1) = bigits b ! (?n - 1)" "?n \<noteq> 0" using t(4) d(5) by auto
    then have "bn_inv ?b" using ok assms(1) by (simp add: bn_inv_def IsClamped_def)
    then show ?thesis using that s nf v assms(3) by simp
  qed
qed

text \<open>
  \<open>SubtractTimes\<close> is exact as long as the minuend has at most one bigit more than the subtrahend:
  it subtracts \<open>factor\<close> times the other number and keeps the representation invariant, also on the
  early return that skips \<open>Clamp\<close>.
\<close>

theorem SubtractTimes_exact:
  assumes "bn_inv b" "bn_inv other" "exponent b \<le> exponent other" "factor < BIGIT" "used_digits other \<noteq> 0"
    "factor * bn_value other \<le> bn_value b" "BigitLength b \<le> BigitLength other + 1"
  shows "\<exists>b'. SubtractTimes b other factor = Some b' \<and> bn_inv b' \<and> bn_value b' = bn_value b - factor * bn_value other"
  using SubtractTimes_ok [OF assms(1-4,6,7,5)] by (metis add_diff_cancel_right')

theorem SubtractTimes_exact_witness:
  "\<exists>b. SubtractTimes (of_bigits [0, 1] 0) (of_bigits [5] 0) 4 = Some b \<and> bn_value b = 2 ^ 28 - 20"
  using SubtractTimes_exact [OF of_bigits_inv [of "[0, 1]" 0] of_bigits_inv [of "[5]" 0], of 4]
  by (simp add: of_bigits_value concrete) blast

section \<open>Division with a small quotient\<close>

text \<open>
  \<open>DivideModuloIntBignum\<close> returns the quotient, a \<open>uint16_t\<close>, and leaves the remainder in \<open>b\<close>.  Its
  two loops need not end on arbitrary bignums; then the result is \<open>None\<close>.
\<close>

partial_function (option) divide_loop :: "bignum \<Rightarrow> bignum \<Rightarrow> nat \<Rightarrow> (bignum \<times> nat) option" where
  "divide_loop b other result =
     (if BigitLength b > BigitLength other then
        (let first = bigits b ! (used_digits b - 1) in
         case SubtractTimes b other first of
           None \<Rightarrow> None
         | Some b \<Rightarrow> divide_loop b other ((result + first) mod 2 ^ 16))
      else Some (b, result))"

declare divide_loop.simps [code]

partial_function (option) subtract_loop :: "bignum \<Rightarrow> bignum \<Rightarrow> nat \<Rightarrow> (bignum \<times> nat) option" where
  "subtract_loop b other result =
     (if LessEqual other b then
        (case SubtractBignum b other of
           None \<Rightarrow> None
         | Some b \<Rightarrow> subtract_loop b other ((result + 1) mod 2 ^ 16))
      else Some (b, result))"

declare subtract_loop.simps [code]

definition divide_top :: "bignum \<Rightarrow> bignum \<Rightarrow> nat \<Rightarrow> (bignum \<times> nat) option" where
  "divide_top b other result =
     (let this_bigit = bigits b ! (used_digits b - 1);
          other_bigit = bigits other ! (used_digits other - 1) in
      if used_digits other = 1 then
        (let quotient = this_bigit div other_bigit
         in Some (Clamp (b\<lparr>bigits := (bigits b)[used_digits b - 1 := this_bigit - other_bigit * quotient]\<rparr>),
                  (result + quotient) mod 2 ^ 16))
      else
        (let division_estimate = this_bigit div (other_bigit + 1);
             result = (result + division_estimate) mod 2 ^ 16 in
         case SubtractTimes b other division_estimate of
           None \<Rightarrow> None
         | Some b \<Rightarrow>
             (if other_bigit * (division_estimate + 1) mod CHUNK > this_bigit then Some (b, result)
              else subtract_loop b other result)))"

definition DivideModuloIntBignum :: "bignum \<Rightarrow> bignum \<Rightarrow> (bignum \<times> nat) option" where
  "DivideModuloIntBignum b other =
     (if BigitLength b < BigitLength other then Some (b, 0)
      else case Align b other of
        None \<Rightarrow> None
      | Some b \<Rightarrow>
          (case divide_loop b other 0 of
             None \<Rightarrow> None
           | Some (b, result) \<Rightarrow> divide_top b other result))"

lemma LessEqual_iff: "bn_inv a \<Longrightarrow> bn_inv b \<Longrightarrow> LessEqual a b \<longleftrightarrow> bn_value a \<le> bn_value b"
  using compare_correct [of a b] by (auto simp: LessEqual_def sgn_if split: if_splits)

lemma subtract_loop_ok:
  assumes "bn_inv other" "0 < bn_value other"
  shows "bn_inv b \<Longrightarrow> exponent b \<le> exponent other \<Longrightarrow> result + bn_value b div bn_value other < 2 ^ 16 \<Longrightarrow>
    \<exists>b'. subtract_loop b other result = Some (b', result + bn_value b div bn_value other) \<and> bn_inv b'
      \<and> bn_value b' = bn_value b mod bn_value other"
proof (induction "bn_value b" arbitrary: b result rule: less_induct)
  case less
  show ?case
  proof (cases "bn_value other \<le> bn_value b")
    case False
    then show ?thesis using less.prems(1) assms(1) LessEqual_iff by (subst subtract_loop.simps) auto
  next
    case True
    obtain c where c: "SubtractBignum b other = Some c" "bn_inv c" "bn_value c + bn_value other = bn_value b"
      "exponent c \<le> exponent other"
      using SubtractBignum_ok [OF less.prems(1) assms(1) True] less.prems(2) by metis
    have q: "bn_value b div bn_value other = Suc (bn_value c div bn_value other)"
      "bn_value b mod bn_value other = bn_value c mod bn_value other"
      using c(3) assms(2) by (metis div_add_self2 less_numeral_extra(3) Suc_eq_plus1, metis mod_add_self2)
    have "\<exists>b'. subtract_loop c other (result + 1) = Some (b', result + 1 + bn_value c div bn_value other) \<and> bn_inv b'
        \<and> bn_value b' = bn_value c mod bn_value other"
      using less.hyps [of c "result + 1"] c assms(2) less.prems(3) q(1) by auto
    moreover have "(result + 1) mod 2 ^ 16 = result + 1" using less.prems(3) q(1) by simp
    ultimately show ?thesis using c(1) True less.prems(1) assms(1) LessEqual_iff q
      by (subst subtract_loop.simps) auto
  qed
qed

lemma top_bigit:
  assumes "bn_inv b" "used_digits b \<noteq> 0"
  shows "bn_value b div BIGIT ^ (BigitLength b - 1) = bigits b ! (used_digits b - 1)"
    "bigits b ! (used_digits b - 1) < BIGIT" "bigits b ! (used_digits b - 1) \<noteq> 0"
proof -
  let ?n = "used_digits b - 1"
  have b: "digits_ok (bigits b)" "mantissa b < BIGIT ^ Suc ?n" "?n < kBigitCapacity"
    using assms by (auto simp: bn_inv_def bn_ok_def)
  have "BigitLength b - 1 = ?n + exponent b" using assms(2) by (simp add: BigitLength_def)
  then have "bn_value b div BIGIT ^ (BigitLength b - 1) = mantissa b div BIGIT ^ ?n"
    by (simp add: bn_value_def power_add)
  then show "bn_value b div BIGIT ^ (BigitLength b - 1) = bigits b ! ?n"
    using top_digit(1) [OF b] digits_ok_take [OF b(1), of ?n] b(3) by simp
  show "bigits b ! ?n < BIGIT" using digits_ok_nth [OF b(1,3)] .
  show "bigits b ! ?n \<noteq> 0" using assms by (simp add: bn_inv_def IsClamped_def)
qed

text \<open>A divisor whose bigits after a first bigit of \<open>BIGIT - 1\<close> are not all zero.\<close>

definition huge :: "bignum \<Rightarrow> bool" where
  "huge other \<longleftrightarrow> (BIGIT - 1) * BIGIT ^ (BigitLength other - 1) < bn_value other"

lemma short_remainder:
  assumes "bn_inv other" "used_digits other \<noteq> 0" "bn_inv c" "BigitLength c < BigitLength other"
    "BIGIT ^ BigitLength other - bn_value other \<le> bn_value c"
  shows "huge other"
proof -
  define L where "L = BigitLength other - 1"
  have L: "BigitLength other = Suc L" using assms(2) by (simp add: L_def BigitLength_def)
  have "bn_value c < BIGIT ^ L"
    using BigitLength_bounds(1) [OF assms(3)] assms(4) power_BIGIT_le(1) [of "BigitLength c" L] L by linarith
  then have "BIGIT * BIGIT ^ L < bn_value other + BIGIT ^ L" using assms(5) L by simp
  moreover have "BIGIT * BIGIT ^ L = (BIGIT - 1) * BIGIT ^ L + BIGIT ^ L" by (simp add: BIGIT_def)
  ultimately show ?thesis by (simp add: huge_def L)
qed

lemma huge_top:
  assumes "bn_inv other" "huge other"
  shows "bigits other ! (used_digits other - 1) = BIGIT - 1" "used_digits other \<noteq> 1"
proof -
  have u: "used_digits other \<noteq> 0" using assms bn_value_zero [OF assms(1)] by (auto simp: huge_def)
  then have "BIGIT - 1 \<le> bn_value other div BIGIT ^ (BigitLength other - 1)"
    using assms(2) by (simp add: huge_def less_eq_div_iff_mult_less_eq less_imp_le)
  then show top: "bigits other ! (used_digits other - 1) = BIGIT - 1" using top_bigit(1,2) [OF assms(1) u] by simp
  show "used_digits other \<noteq> 1"
  proof
    assume one: "used_digits other = 1"
    then have "digits_ok (bigits other)" "mantissa other < BIGIT ^ Suc 0" using assms(1) by (auto simp: bn_inv_def bn_ok_def)
    then have "mantissa other = BIGIT - 1" using top_digit(1) [of "bigits other" 0] top one by simp
    then show False using assms(2) one by (simp add: huge_def bn_value_def BigitLength_def)
  qed
qed

text \<open>
  The first loop removes multiples of the divisor while the dividend is longer.  It may leave a
  remainder that is shorter than the divisor, but only if the divisor's top bigit is the largest one.
\<close>

lemma divide_loop_ok:
  assumes "bn_inv other" "used_digits other \<noteq> 0"
  defines "V \<equiv> bn_value other"
  shows "bn_inv b \<Longrightarrow> exponent b \<le> exponent other \<Longrightarrow> result + bn_value b div V < 2 ^ 16 \<Longrightarrow>
    BigitLength other \<le> BigitLength b \<or> huge other \<and> bn_value b \<noteq> 0 \<Longrightarrow>
    \<exists>b' r. divide_loop b other result = Some (b', r) \<and> bn_inv b' \<and> exponent b' \<le> exponent other
      \<and> BigitLength b' \<le> BigitLength other \<and> r + bn_value b' div V = result + bn_value b div V
      \<and> bn_value b' mod V = bn_value b mod V
      \<and> (BigitLength other = BigitLength b' \<or> huge other \<and> bn_value b' \<noteq> 0)"
proof (induction "bn_value b" arbitrary: b result rule: less_induct)
  case less
  let ?L = "BigitLength other"
  have V: "0 < V" "V < BIGIT ^ ?L" using bn_value_zero [OF assms(1)] assms(2) BigitLength_bounds(1) [OF assms(1)] by (auto simp: V_def)
  show ?case
  proof (cases "BigitLength b > ?L")
    case False
    then show ?thesis using less.prems by (subst divide_loop.simps) auto
  next
    case True
    have u: "used_digits b \<noteq> 0" using True less.prems(1) by (auto simp: BigitLength_def bn_inv_def)
    define t where "t = bigits b ! (used_digits b - 1)"
    have "bn_value b div V < 2 ^ 16" using less.prems(3) by linarith
    then have "bn_value b < 2 ^ 16 * V" using V(1) by (simp only: div_less_iff_less_mult)
    also have "\<dots> \<le> 2 ^ 16 * BIGIT ^ ?L" using V(2) by simp
    also have "\<dots> < BIGIT ^ (?L + 1)" by (simp add: BIGIT_def)
    finally have "bn_value b < BIGIT ^ (?L + 1)" .
    then have "BIGIT ^ (BigitLength b - 1) < BIGIT ^ (?L + 1)" using BigitLength_bounds(2) [OF less.prems(1) u] by linarith
    then have len: "BigitLength b = ?L + 1" using True by (simp add: power_BIGIT_le del: power_Suc)
    then have t: "bn_value b div BIGIT ^ ?L = t" "t < BIGIT" "t \<noteq> 0"
      using top_bigit [OF less.prems(1) u] by (auto simp: t_def)
    have tb: "t * BIGIT ^ ?L \<le> bn_value b" using t(1) div_bounds(1) [of "BIGIT ^ ?L" "bn_value b"] by simp
    have "t * V \<le> t * BIGIT ^ ?L" using V(2) by simp
    then have "t * V \<le> bn_value b" using tb by linarith
    then obtain c where c: "SubtractTimes b other t = Some c" "bn_inv c" "bn_value c + t * V = bn_value b" "exponent c \<le> exponent other"
      using SubtractTimes_ok [OF less.prems(1) assms(1) less.prems(2) t(2)] len assms(2) unfolding V_def by auto
    have q: "bn_value b div V = t + bn_value c div V" "bn_value b mod V = bn_value c mod V"
      using V(1) unfolding c(3) [symmetric] by simp_all
    have "t * (BIGIT ^ ?L - V) \<le> bn_value c" using tb c(3) unfolding diff_mult_distrib2 by linarith
    moreover have "1 * (BIGIT ^ ?L - V) \<le> t * (BIGIT ^ ?L - V)" using t(3) by (intro mult_le_mono1) simp
    ultimately have "BIGIT ^ ?L - V \<le> bn_value c" by linarith
    then have short: "?L \<le> BigitLength c \<or> huge other \<and> bn_value c \<noteq> 0"
      using short_remainder [OF assms(1,2) c(2)] V(2) by (auto simp: V_def)
    have "bn_value c < bn_value b" using c(3) t(3) V(1) by (cases t) auto
    then have "\<exists>b' r. divide_loop c other (result + t) = Some (b', r) \<and> bn_inv b' \<and> exponent b' \<le> exponent other
      \<and> BigitLength b' \<le> ?L \<and> r + bn_value b' div V = result + t + bn_value c div V
      \<and> bn_value b' mod V = bn_value c mod V
      \<and> (?L = BigitLength b' \<or> huge other \<and> bn_value b' \<noteq> 0)"
      using less.hyps [OF _ c(2,4) _ short, of "result + t"] less.prems(3) q(1) by simp
    moreover have "(result + t) mod 2 ^ 16 = result + t" using less.prems(3) q(1) by simp
    then have "divide_loop b other result = divide_loop c other (result + t)"
      using True c(1) by (subst divide_loop.simps) (simp add: t_def Let_def)
    ultimately show ?thesis using q by auto
  qed
qed

lemma quotient_unique:
  fixes v w V r q :: nat
  assumes "w + q * V = v" "w < V"
  shows "v div V = q" "v mod V = w"
  using assms by auto

lemma divide_top_one:
  assumes "bn_inv b" "bn_inv other" "exponent b \<le> exponent other" "used_digits other = 1"
    "BigitLength b = BigitLength other" "result + bn_value b div bn_value other < 2 ^ 16"
  shows "\<exists>b'. divide_top b other result = Some (b', result + bn_value b div bn_value other) \<and> bn_inv b'
    \<and> bn_value b' = bn_value b mod bn_value other"
proof -
  let ?n = "used_digits b - 1" and ?e = "exponent other"
  define x y q where "x = bigits b ! ?n" and "y = bigits other ! 0" and "q = x div y"
  have ub: "used_digits b \<noteq> 0" using assms(1,4,5) by (auto simp: BigitLength_def bn_inv_def)
  have e: "?e = ?n + exponent b" using ub assms(4,5) by (simp add: BigitLength_def)
  have b: "digits_ok (bigits b)" "mantissa b < BIGIT ^ Suc ?n" "?n < kBigitCapacity"
    using assms(1) ub by (auto simp: bn_inv_def bn_ok_def)
  have mb: "mantissa b = val (take ?n (bigits b)) + x * BIGIT ^ ?n" using top_digit(1) [OF b] by (simp add: x_def)
  have o: "digits_ok (bigits other)" "mantissa other < BIGIT ^ Suc 0" using assms(2,4) by (auto simp: bn_inv_def bn_ok_def)
  have mo: "mantissa other = y" using top_digit(1) [OF o] by (simp add: y_def)
  have y: "0 < y" using assms(2,4) by (simp add: bn_inv_def IsClamped_def y_def)
  let ?bs = "(bigits b)[?n := x - y * q]"
  have xy: "x - y * q = x mod y" "x mod y < y" using y by (simp_all add: q_def minus_mult_div_eq_mod)
  have "x < BIGIT" using digits_ok_nth [OF b(1,3)] by (simp add: x_def)
  then have small: "x mod y < BIGIT" using mod_less_eq_dividend [of x y] by linarith
  have "val ?bs + x * BIGIT ^ ?n = mantissa b + x mod y * BIGIT ^ ?n"
    unfolding xy(1) using val_update [of ?n "bigits b" "x mod y"] b(1,3) by (simp add: x_def digits_ok_def)
  then have v: "val ?bs = val (take ?n (bigits b)) + x mod y * BIGIT ^ ?n" using mb by linarith
  have low: "val (take ?n (bigits b)) < BIGIT ^ ?n" using digits_ok_take [OF b(1), of ?n] b(3) by simp
  have "val ?bs \<le> mantissa b" using v mb mod_less_eq_dividend [of x y] by simp
  then have ok: "bn_ok \<lparr>bigits = ?bs, used_digits = used_digits b, exponent = exponent b\<rparr>" (is "bn_ok ?b")
    using assms(1) small xy by (simp add: bn_inv_def bn_ok_def digits_ok_update)
  have V: "bn_value other = y * BIGIT ^ ?n * BIGIT ^ exponent b" by (simp add: bn_value_def mo e power_add mult.assoc)
  have bv: "bn_value ?b = val ?bs * BIGIT ^ exponent b" by (simp add: bn_value_def)
  have "x = q * y + x mod y" by (simp add: q_def)
  then have "x * BIGIT ^ ?n = q * y * BIGIT ^ ?n + x mod y * BIGIT ^ ?n" by (metis add_mult_distrib)
  then have "val ?bs + q * (y * BIGIT ^ ?n) = mantissa b" using v mb by (simp add: mult.assoc)
  then have "(val ?bs + q * (y * BIGIT ^ ?n)) * BIGIT ^ exponent b = mantissa b * BIGIT ^ exponent b" by simp
  then have eq: "bn_value ?b + q * bn_value other = bn_value b"
    unfolding bv V bn_value_def [of b] by (simp only: add_mult_distrib mult.assoc)
  have "val ?bs < (x mod y + 1) * BIGIT ^ ?n" using v low by simp
  also have "\<dots> \<le> y * BIGIT ^ ?n" using xy(2) by (intro mult_le_mono1) simp
  finally have "bn_value ?b < bn_value other" unfolding bv V by simp
  note u = quotient_unique [OF eq this]
  have "divide_top b other result = Some (Clamp ?b, (result + q) mod 2 ^ 16)"
    using assms(4) by (cases b) (simp add: divide_top_def Let_def x_def y_def q_def)
  moreover have "(result + q) mod 2 ^ 16 = result + q" using assms(6) u(1) by simp
  ultimately show ?thesis using Clamp_correct [OF ok] u by simp
qed

lemma divide_top_many:
  assumes "bn_inv b" "bn_inv other" "exponent b \<le> exponent other" "used_digits other > 1"
    "result + bn_value b div bn_value other < 2 ^ 16" "bn_value b \<noteq> 0"
    "BigitLength b = BigitLength other \<or> BigitLength b < BigitLength other \<and> bigits other ! (used_digits other - 1) = BIGIT - 1"
  shows "\<exists>b'. divide_top b other result = Some (b', result + bn_value b div bn_value other) \<and> bn_inv b'
    \<and> bn_value b' = bn_value b mod bn_value other"
proof -
  define x y q V where "x = bigits b ! (used_digits b - 1)" and "y = bigits other ! (used_digits other - 1)"
    and "q = x div (y + 1)" and "V = bn_value other"
  define m where "m = BIGIT ^ (BigitLength other - 1)"
  have ub: "used_digits b \<noteq> 0" and uo: "used_digits other \<noteq> 0" using assms(4,6) bn_value_zero [OF assms(1)] by auto
  have x: "bn_value b div BIGIT ^ (BigitLength b - 1) = x" "x < BIGIT" using top_bigit [OF assms(1) ub] by (auto simp: x_def)
  have y: "V div m = y" "y < BIGIT" "y \<noteq> 0" using top_bigit [OF assms(2) uo] by (auto simp: y_def V_def m_def)
  have V: "0 < V" "y * m \<le> V" "V < (y + 1) * m"
    using bn_value_zero [OF assms(2)] uo div_bounds [of m V] y(1) by (auto simp: V_def m_def)
  have "q * (y + 1) \<le> x" unfolding q_def by (rule div_times_less_eq_dividend)
  have cases: "q * V \<le> bn_value b \<and> (bn_value b < (x + 1) * m \<or> q = 0 \<and> bn_value b < V)"
  proof (cases "BigitLength b = BigitLength other")
    case True
    then have "x * m \<le> bn_value b" "bn_value b < (x + 1) * m"
      using x(1) div_bounds [of m "bn_value b"] by (auto simp: m_def)
    moreover have "q * V \<le> q * ((y + 1) * m)" using V(3) by (intro mult_le_mono2) simp
    moreover have "q * ((y + 1) * m) \<le> x * m" using \<open>q * (y + 1) \<le> x\<close> by (metis mult.assoc mult_le_mono1)
    ultimately show ?thesis by linarith
  next
    case False
    then have "q = 0" using assms(7) x(2) by (auto simp: q_def y_def)
    moreover have "bn_value b < V" using False assms(7) BigitLength_mono [OF assms(2,1)] by (auto simp: V_def not_le [symmetric])
    ultimately show ?thesis by simp
  qed
  have "q < BIGIT" unfolding q_def using div_le_dividend [of x "y + 1"] x(2) by (rule le_less_trans)
  moreover have "BigitLength b \<le> BigitLength other + 1" using assms(7) by auto
  ultimately obtain c where c: "SubtractTimes b other q = Some c" "bn_inv c" "bn_value c + q * V = bn_value b" "exponent c \<le> exponent other"
    using SubtractTimes_ok [OF assms(1-3), of q] cases uo unfolding V_def by auto
  have dm: "bn_value b div V = q + bn_value c div V" "bn_value b mod V = bn_value c mod V"
    using V(1) unfolding c(3) [symmetric] by simp_all
  have r: "(result + q) mod 2 ^ 16 = result + q" using assms(5) dm(1) by (simp add: V_def)
  have "y * (q + 1) < CHUNK"
  proof -
    have "y * q \<le> q * (y + 1)" by simp
    then have "y * (q + 1) < BIGIT + BIGIT"
      using \<open>q * (y + 1) \<le> x\<close> x(2) y(2) unfolding add_mult_distrib2 mult_1_right by linarith
    then show ?thesis by (simp add: BIGIT_def CHUNK_def)
  qed
  then have yq: "y * (q + 1) mod CHUNK = y * (q + 1)" by simp
  have top: "divide_top b other result =
      (if y * (q + 1) > x then Some (c, result + q) else subtract_loop c other (result + q))"
    unfolding divide_top_def Let_def x_def [symmetric] y_def [symmetric] q_def [symmetric] yq r c(1)
    using assms(4) by simp
  show ?thesis
  proof (cases "y * (q + 1) > x")
    case False
    then show ?thesis using subtract_loop_ok [OF assms(2) _ c(2,4), of "result + q"] V(1) top dm assms(5)
      by (auto simp: V_def)
  next
    case True
    have "bn_value b < (q + 1) * V"
      using cases
    proof (elim conjE disjE)
      assume "bn_value b < (x + 1) * m"
      also have "\<dots> \<le> y * (q + 1) * m" using True by (intro mult_le_mono1) simp
      also have "\<dots> = (q + 1) * (y * m)" by (simp add: algebra_simps)
      also have "\<dots> \<le> (q + 1) * V" using V(2) by (rule mult_le_mono2)
      finally show ?thesis .
    qed simp
    then have "bn_value c < V" using c(3) by simp
    then show ?thesis using True top c(2) dm by (simp add: V_def)
  qed
qed

lemma DivideModuloIntBignum_ok:
  assumes "bn_inv b" "bn_inv other" "used_digits other \<noteq> 0" "bn_value b div bn_value other < 2 ^ 16"
    "exponent b \<le> exponent other \<or> used_digits b + (exponent b - exponent other) \<le> kBigitCapacity"
  shows "\<exists>b'. DivideModuloIntBignum b other = Some (b', bn_value b div bn_value other) \<and> bn_inv b'
    \<and> bn_value b' = bn_value b mod bn_value other"
proof (cases "BigitLength b < BigitLength other")
  case True
  then have "bn_value b < bn_value other" using BigitLength_mono [OF assms(2,1)] by linarith
  then show ?thesis using True assms(1) by (simp add: DivideModuloIntBignum_def)
next
  case False
  obtain c where c: "Align b other = Some c" "bn_inv c" "bn_value c = bn_value b"
    "exponent c = min (exponent b) (exponent other)" "BigitLength c = BigitLength b"
    using Align_inv [OF assms(1,5)] .
  obtain d r where d: "divide_loop c other 0 = Some (d, r)" "bn_inv d" "exponent d \<le> exponent other"
    "BigitLength d \<le> BigitLength other" "r + bn_value d div bn_value other = bn_value b div bn_value other"
    "bn_value d mod bn_value other = bn_value b mod bn_value other"
    "BigitLength other = BigitLength d \<or> huge other \<and> bn_value d \<noteq> 0"
    using divide_loop_ok [OF assms(2,3) c(2), of 0] c(3-5) assms(4) False by auto
  have nz: "bn_value d \<noteq> 0"
    using d(7) bn_value_zero [OF d(2)] d(2) assms(3) by (auto simp: BigitLength_def bn_inv_def)
  have "\<exists>b'. divide_top d other r = Some (b', r + bn_value d div bn_value other) \<and> bn_inv b'
      \<and> bn_value b' = bn_value d mod bn_value other"
  proof (cases "used_digits other = 1")
    case True
    have "BigitLength d = BigitLength other" using d(7) huge_top(2) [OF assms(2)] True by auto
    then show ?thesis using divide_top_one [OF d(2) assms(2) d(3) True, of r] d(5) assms(4) by simp
  next
    case one: False
    have "BigitLength d = BigitLength other
        \<or> BigitLength d < BigitLength other \<and> bigits other ! (used_digits other - 1) = BIGIT - 1"
      using d(4,7) huge_top(1) [OF assms(2)] by (auto simp: le_less)
    then show ?thesis using divide_top_many [OF d(2) assms(2) d(3), of r] one d(5) assms(3,4) nz by auto
  qed
  then show ?thesis using False c(1) d(1,5,6) by (simp add: DivideModuloIntBignum_def)
qed



section \<open>Where the code departs from its assertions\<close>

text \<open>
  \<open>SubtractTimes\<close> loses a borrow when the minuend has two bigits more than the subtrahend: the
  body of its second loop increments the index a second time, so every other bigit is skipped.
  Subtracting three times \<open>1\<close> from \<open>2 ^ 56\<close> gives \<open>2 ^ 57 - 3\<close>.
\<close>

theorem SubtractTimes_skips_bigit:
  "\<exists>b'. SubtractTimes (of_bigits [0, 0, 1] 0) (of_bigits [1] 0) 3 = Some b'
     \<and> bn_value (of_bigits [0, 0, 1] 0) = 2 ^ 56 \<and> bn_value (of_bigits [1] 0) = 1 \<and> bn_value b' = 2 ^ 57 - 3"
proof -
  have "times_digits 0 3 (bigits (of_bigits [1] 0)) 1 (bigits (of_bigits [0, 0, 1] 0))
      = (bigits (of_bigits [BIGIT - 3, 0, 1] 0), 1)"
    by (simp add: times_digits_def of_bigits_def BIGIT_def CHUNK_def DOUBLE_CHUNK_def kBigitCapacity_def)
  moreover have "times_tail (bigits (of_bigits [BIGIT - 3, 0, 1] 0)) 1 3 1 = (bigits (of_bigits [BIGIT - 3, BIGIT - 1, 1] 0), True)"
    by (simp add: times_tail.simps of_bigits_def BIGIT_def CHUNK_def kBigitCapacity_def)
  ultimately have "SubtractTimes (of_bigits [0, 0, 1] 0) (of_bigits [1] 0) 3
      = Some (Clamp (of_bigits [BIGIT - 3, BIGIT - 1, 1] 0))"
    by (simp add: SubtractTimes_def of_bigits_def eval_nat_numeral Let_def)
  moreover have "bn_inv (of_bigits [BIGIT - 3, BIGIT - 1, 1] 0)" by (rule of_bigits_inv) (auto simp: concrete)
  then have "bn_value (Clamp (of_bigits [BIGIT - 3, BIGIT - 1, 1] 0)) = bn_value (of_bigits [BIGIT - 3, BIGIT - 1, 1] 0)"
    by (intro Clamp_correct) (simp add: bn_inv_def)
  ultimately show ?thesis by (simp add: of_bigits_value BIGIT_def)
qed

text \<open>
  The assertion after the first loop of \<open>DivideModuloIntBignum\<close> does not always hold: dividing
  \<open>2 ^ 56\<close> by \<open>2 ^ 56 - 1\<close>, which satisfies the asserted condition on the top bigit, leaves a
  remainder of one bigit where the code asserts the length of the divisor, two.
\<close>

theorem divide_length_assertion_fails:
  "\<exists>b r. divide_loop (of_bigits [0, 0, 1] 0) (of_bigits [BIGIT - 1, BIGIT - 1] 0) 0 = Some (b, r)
     \<and> BIGIT - 1 \<ge> BIGIT div 16 \<and> BigitLength b \<noteq> BigitLength (of_bigits [BIGIT - 1, BIGIT - 1] 0)"
proof -
  let ?o = "of_bigits [BIGIT - 1, BIGIT - 1] 0" and ?b = "of_bigits [0, 0, 1] 0"
  have inv: "bn_inv ?o" "bn_inv ?b" "bn_inv (of_bigits [1] 0)"
    by (rule of_bigits_inv; simp add: kBigitCapacity_def BIGIT_def)+
  have v: "bn_value ?o = 2 ^ 56 - 1" "bn_value ?b = 2 ^ 56" by (simp_all add: of_bigits_value BIGIT_def)
  obtain c where c: "SubtractTimes ?b ?o 1 = Some c" "bn_inv c" "bn_value c + 1 * bn_value ?o = bn_value ?b"
    using SubtractTimes_ok [OF inv(2,1), of 1] v BIGIT_pos(5) by (auto simp del: BIGIT_pos)
  have "bn_value c \<le> bn_value (of_bigits [1] 0)" using c(3) unfolding v of_bigits_value [of "[1]"] by simp
  then have len: "BigitLength c \<le> 1" using BigitLength_mono [OF c(2) inv(3)] by simp
  have "divide_loop ?b ?o 0 = divide_loop c ?o 1"
    using c(1) by (subst divide_loop.simps) (simp add: of_bigits_def BigitLength_def Let_def)
  also have "\<dots> = Some (c, 1)" using len by (subst divide_loop.simps) simp
  finally show ?thesis using len by (auto simp: BIGIT_def)
qed

end
