(* ===== verification/V8_Double.thy ===== *)
theory V8_Double
  imports Complex_Main W16_Prelude "HOL-Library.Word"
begin

text \<open>
  The bit-level view of doubles of \<^verbatim>\<open>src/double.h\<close> and the \<open>do it yourself\<close> floating-point numbers
  of \<^verbatim>\<open>src/diy-fp.h\<close> and \<^verbatim>\<open>src/diy-fp.cc\<close>.  A double is its 64-bit pattern \<open>d64\<close>; a \<open>DiyFp\<close> is a
  64-bit significand with an exponent.  The theory relates both to the numbers they stand for: the
  encoding is strictly monotone, the conversion to a pattern inverts the decomposition, and the
  boundaries of a double are the midpoints to its neighbours.
\<close>

unbundle bit_operations_syntax

section \<open>Do-it-yourself floating-point numbers\<close>

record diy_fp =
  fp_f :: "64 word"
  fp_e :: int

definition DiyFp :: "64 word \<Rightarrow> int \<Rightarrow> diy_fp" where
  "DiyFp f e = \<lparr>fp_f = f, fp_e = e\<rparr>"

text \<open>\<open>Subtract\<close> has the two assertions of the code as its error case.\<close>

definition DiyFp_Subtract :: "diy_fp \<Rightarrow> diy_fp \<Rightarrow> diy_fp option" where
  "DiyFp_Subtract a b =
     (if fp_e a = fp_e b \<and> fp_f a \<ge> fp_f b then Some (a\<lparr>fp_f := fp_f a - fp_f b\<rparr>) else None)"

definition DiyFp_Minus :: "diy_fp \<Rightarrow> diy_fp \<Rightarrow> diy_fp option" where
  "DiyFp_Minus a b = DiyFp_Subtract a b"

definition DiyFp_Multiply :: "diy_fp \<Rightarrow> diy_fp \<Rightarrow> diy_fp" where
  "DiyFp_Multiply x y =
     (let kM32 = 0xFFFFFFFF;
          a = drop_bit 32 (fp_f x); b = fp_f x AND kM32;
          c = drop_bit 32 (fp_f y); d = fp_f y AND kM32;
          ac = a * c; bc = b * c; ad = a * d; bd = b * d;
          tmp = drop_bit 32 bd + (ad AND kM32) + (bc AND kM32);
          tmp = tmp + push_bit 31 1
      in \<lparr>fp_f = ac + drop_bit 32 ad + drop_bit 32 bc + drop_bit 32 tmp, fp_e = fp_e x + (fp_e y + 64)\<rparr>)"

definition DiyFp_Times :: "diy_fp \<Rightarrow> diy_fp \<Rightarrow> diy_fp" where
  "DiyFp_Times a b = DiyFp_Multiply a b"

text \<open>
  The loop that shifts a significand left by \<open>s\<close> until one of the bits of the mask \<open>m\<close> is set.
  \<open>Normalize\<close> runs it with two masks, \<open>AsNormalizedDiyFp\<close> and \<open>NormalizedExponent\<close> with the hidden
  bit.  A loop that does not end, as on zero, is \<open>None\<close>.
\<close>

partial_function (option) shift_until :: "64 word \<Rightarrow> nat \<Rightarrow> 64 word \<Rightarrow> int \<Rightarrow> (64 word \<times> int) option" where
  "shift_until m s f e =
     (if f AND m = 0 then shift_until m s (push_bit s f) (e - int s) else Some (f, e))"

declare shift_until.simps [code]

definition k10MSBits :: "64 word" where "k10MSBits = push_bit 54 0x3FF"
definition kUint64MSB :: "64 word" where "kUint64MSB = push_bit 63 1"

definition DiyFp_Normalize :: "diy_fp \<Rightarrow> diy_fp option" where
  "DiyFp_Normalize a =
     (case shift_until k10MSBits 10 (fp_f a) (fp_e a) of
        None \<Rightarrow> None
      | Some (f, e) \<Rightarrow>
          (case shift_until kUint64MSB 1 f e of
             None \<Rightarrow> None
           | Some (f, e) \<Rightarrow> Some \<lparr>fp_f = f, fp_e = e\<rparr>))"

text \<open>The number a \<open>DiyFp\<close> stands for.\<close>

definition fp_value :: "diy_fp \<Rightarrow> real" where
  "fp_value a = real (unat (fp_f a)) * 2 powi fp_e a"

lemma unat_AND: "unat (a AND b :: 'a :: len word) = unat a AND unat b"
  by (simp add: unsigned_and_eq)

lemma and_bit_below: "x < 2 ^ Suc n \<Longrightarrow> x AND 2 ^ n = 0 \<longleftrightarrow> x < 2 ^ n" for x :: nat
proof -
  assume "x < 2 ^ Suc n"
  then have "x div 2 ^ n < 2" by (simp add: less_mult_imp_div_less)
  then have "x AND 2 ^ n = 0 \<longleftrightarrow> x div 2 ^ n = 0"
    by (auto simp: and_exp_eq_0_iff_not_bit bit_iff_odd less_2_cases_iff)
  then show ?thesis by (simp add: div_eq_0_iff)
qed

lemma unat_push_bit: "unat (f :: 64 word) * 2 ^ s < 2 ^ 64 \<Longrightarrow> unat (push_bit s f) = unat f * 2 ^ s"
  unfolding unsigned_push_bit_eq by (simp add: push_bit_eq_mult take_bit_eq_mod)

text \<open>If the mask separates the numbers below \<open>2 ^ n\<close>, the loop scales into \<open>[2 ^ n, 2 ^ (n + s))\<close>.\<close>

lemma shift_until_correct:
  assumes mask: "\<And>x. unat x < 2 ^ (n + s) \<Longrightarrow> x AND m = 0 \<longleftrightarrow> unat x < 2 ^ n" and "n + s \<le> 64" "0 < s"
  shows "f \<noteq> 0 \<Longrightarrow> unat f < 2 ^ (n + s) \<Longrightarrow>
    \<exists>k. shift_until m s f e = Some (push_bit k f, e - int k) \<and> unat (push_bit k f) = unat f * 2 ^ k
      \<and> 2 ^ n \<le> unat f * 2 ^ k \<and> unat f * 2 ^ k < 2 ^ (n + s)"
proof (induction "2 ^ n - unat f" arbitrary: f e rule: less_induct)
  case less
  show ?case
  proof (cases "unat f < 2 ^ n")
    case False
    then show ?thesis using less.prems mask [of f] by (intro exI [of _ 0]) (simp add: shift_until.simps)
  next
    case True
    have f: "unat f \<noteq> 0" using less.prems(1) by (simp add: unat_eq_0)
    have lt: "unat f * 2 ^ s < 2 ^ (n + s)" using True by (simp add: power_add)
    then have u: "unat (push_bit s f) = unat f * 2 ^ s"
      using assms(2) by (intro unat_push_bit order_less_le_trans [OF lt] power_increasing) simp_all
    have "1 < (2 :: nat) ^ s" using assms(3) by (metis one_less_numeral_iff one_less_power semiring_norm(76))
    then have grows: "unat f < unat f * 2 ^ s" using f by simp
    have "2 ^ n - unat (push_bit s f) < 2 ^ n - unat f"
      unfolding u using grows True by (intro diff_less_mono2)
    moreover have "push_bit s f \<noteq> 0" using u f by (auto simp: unat_eq_0 [symmetric])
    ultimately obtain k where k: "shift_until m s (push_bit s f) (e - int s) = Some (push_bit k (push_bit s f), e - int s - int k)"
        "unat (push_bit k (push_bit s f)) = unat (push_bit s f) * 2 ^ k"
        "2 ^ n \<le> unat (push_bit s f) * 2 ^ k" "unat (push_bit s f) * 2 ^ k < 2 ^ (n + s)"
      using less.hyps [of "push_bit s f" "e - int s"] u lt by auto
    have "push_bit k (push_bit s f) = push_bit (s + k) f" by (simp add: add.commute)
    then show ?thesis using k u mask [OF less.prems(2)] True
      by (intro exI [of _ "s + k"]) (simp add: shift_until.simps [of m s f] power_add mult.assoc algebra_simps)
  qed
qed

lemma mask_of_bit: "unat x < 2 ^ (n + 1) \<Longrightarrow> n < 64 \<Longrightarrow> x AND push_bit n 1 = 0 \<longleftrightarrow> unat x < 2 ^ n" for x :: "64 word"
proof -
  assume "unat x < 2 ^ (n + 1)" "n < 64"
  moreover have "unat (push_bit n 1 :: 64 word) = 2 ^ n"
    using \<open>n < 64\<close> power_strict_increasing [of n 64 "2 :: nat"] by (subst unat_push_bit) simp_all
  ultimately have "unat (x AND push_bit n 1) = 0 \<longleftrightarrow> unat x < 2 ^ n"
    using and_bit_below [of "unat x" n] by (simp only: unat_AND) simp
  then show ?thesis by (simp only: unat_eq_0)
qed

lemma high_mask: "n < 64 \<Longrightarrow> x AND push_bit n (mask (64 - n)) = 0 \<longleftrightarrow> unat (x :: 64 word) < 2 ^ n"
proof -
  assume n: "n < 64"
  have "bit (x AND push_bit n (mask (64 - n))) i \<longleftrightarrow> bit (drop_bit n x) (i - n) \<and> n \<le> i" for i
    using bit_imp_le_length [of x i] by (auto simp: bit_simps)
  then have "x AND push_bit n (mask (64 - n)) = 0 \<longleftrightarrow> drop_bit n x = 0"
    unfolding bit_eq_iff [of _ 0] by (auto simp: bit_simps) (metis add_diff_cancel_left' le_add1)
  also have "\<dots> \<longleftrightarrow> unat x div 2 ^ n = 0"
    by (metis unat_drop_bit_eq drop_bit_eq_div unat_eq_0)
  finally show ?thesis by (simp add: div_eq_0_iff)
qed

lemma k10MSBits_mask: "x AND k10MSBits = 0 \<longleftrightarrow> unat x < 2 ^ 54"
proof -
  have "k10MSBits = push_bit 54 (mask (64 - 54))" by (simp add: k10MSBits_def mask_numeral)
  then show ?thesis using high_mask [of 54 x] by simp
qed

lemma DiyFp_Normalize_correct:
  assumes "fp_f a \<noteq> 0"
  obtains k where "DiyFp_Normalize a = Some (DiyFp (push_bit k (fp_f a)) (fp_e a - int k))"
    "unat (push_bit k (fp_f a)) = unat (fp_f a) * 2 ^ k" "2 ^ 63 \<le> unat (fp_f a) * 2 ^ k"
    "unat (fp_f a) * 2 ^ k < 2 ^ 64"
proof -
  obtain j where j: "shift_until k10MSBits 10 (fp_f a) (fp_e a) = Some (push_bit j (fp_f a), fp_e a - int j)"
      "unat (push_bit j (fp_f a)) = unat (fp_f a) * 2 ^ j" "2 ^ 54 \<le> unat (fp_f a) * 2 ^ j"
      "unat (fp_f a) * 2 ^ j < 2 ^ (54 + 10)"
    using shift_until_correct [of 54 10 k10MSBits "fp_f a" "fp_e a"] k10MSBits_mask assms unsigned_less [of "fp_f a"]
    by auto
  let ?g = "push_bit j (fp_f a)"
  have "unat ?g \<noteq> 0" using j(2,3) by (metis not_numeral_le_zero zero_less_power not_le zero_less_numeral)
  then have "?g \<noteq> 0" by (simp add: unat_eq_0)
  then obtain k where k: "shift_until kUint64MSB 1 ?g (fp_e a - int j) = Some (push_bit k ?g, fp_e a - int j - int k)"
      "unat (push_bit k ?g) = unat ?g * 2 ^ k" "2 ^ 63 \<le> unat ?g * 2 ^ k" "unat ?g * 2 ^ k < 2 ^ (63 + 1)"
    using shift_until_correct [of 63 1 kUint64MSB ?g "fp_e a - int j"] mask_of_bit [of _ 63] unsigned_less [of ?g]
    by (auto simp: kUint64MSB_def)
  have pp: "push_bit k ?g = push_bit (j + k) (fp_f a)" by (simp add: add.commute)
  show ?thesis
    by (rule that [of "j + k"]) (use j k pp in \<open>simp_all add: DiyFp_Normalize_def DiyFp_def power_add mult.assoc algebra_simps\<close>)
qed

subsection \<open>Multiplication\<close>

text \<open>Schoolbook multiplication in base \<open>M\<close> with rounding, as an identity of natural numbers.\<close>

lemma rounded_product:
  fixes A B C D M H :: nat
  assumes "0 < M" "A < M" "B < M" "C < M" "D < M"
  defines "t \<equiv> B * D div M + A * D mod M + B * C mod M + H"
  shows "((A * M + B) * (C * M + D) + H * M) div (M * M) = A * C + A * D div M + B * C div M + t div M"
proof -
  have split: "x = x div M * M + x mod M" for x by simp
  have "(A * M + B) * (C * M + D) + H * M = A * C * (M * M) + (A * D) * M + (B * C) * M + B * D + H * M"
    by (simp add: algebra_simps)
  also have "\<dots> = A * C * (M * M) + (A * D div M * M + A * D mod M) * M + (B * C div M * M + B * C mod M) * M
      + (B * D div M * M + B * D mod M) + H * M"
    by (simp only: split [symmetric])
  also have "\<dots> = (A * C + A * D div M + B * C div M) * (M * M) + t * M + B * D mod M"
    unfolding t_def add_mult_distrib by (simp only: mult.assoc add.assoc add.left_commute add.commute)
  also have "\<dots> = (A * C + A * D div M + B * C div M + t div M) * (M * M) + (t mod M * M + B * D mod M)"
    using split [of t] by (metis add.assoc add_mult_distrib mult.assoc)
  finally have eq: "(A * M + B) * (C * M + D) + H * M =
      (A * C + A * D div M + B * C div M + t div M) * (M * M) + (t mod M * M + B * D mod M)" .
  have "t mod M * M + B * D mod M < t mod M * M + M" using assms(1) by simp
  also have "\<dots> = (t mod M + 1) * M" by simp
  also have "\<dots> \<le> M * M" using assms(1) by (intro mult_le_mono1) (simp add: Suc_leI)
  finally show ?thesis unfolding eq using assms(1) by simp
qed

lemma below_next_multiple: "0 < m \<Longrightarrow> x < x div m * m + m" for x m :: nat
  using dividend_less_div_times [of m x] by simp

lemma low_half: "unat (x AND 0xFFFFFFFF :: 64 word) = unat x mod 2 ^ 32"
proof -
  have "(0xFFFFFFFF :: 64 word) = mask 32" by (simp add: mask_numeral)
  then have "x AND 0xFFFFFFFF = take_bit 32 x" by (simp add: take_bit_eq_mask)
  then show ?thesis by (metis unsigned_take_bit_eq take_bit_eq_mod)
qed

lemma high_half: "unat (drop_bit n x :: 64 word) = unat x div 2 ^ n"
  unfolding unat_drop_bit_eq by (rule drop_bit_eq_div)

lemma unat_times: "unat (x :: 64 word) * unat y < 2 ^ 64 \<Longrightarrow> unat (x * y) = unat x * unat y"
  by (simp add: unat_word_ariths)

lemma unat_plus: "unat (x :: 64 word) + unat y < 2 ^ 64 \<Longrightarrow> unat (x + y) = unat x + unat y"
  by (simp add: unat_word_ariths)

lemma half_product: "a < 2 ^ 32 \<Longrightarrow> b < 2 ^ 32 \<Longrightarrow> a * b \<le> 2 ^ 64 - 2 ^ 33 + 1" for a b :: nat
  using mult_le_mono [of a "2 ^ 32 - 1" b "2 ^ 32 - 1"] by simp

lemma DiyFp_Multiply_f:
  "unat (fp_f (DiyFp_Multiply x y)) = (unat (fp_f x) * unat (fp_f y) + 2 ^ 63) div 2 ^ 64"
proof -
  define F G where "F = unat (fp_f x)" and "G = unat (fp_f y)"
  define A B C D where "A = F div 2 ^ 32" and "B = F mod 2 ^ 32" and "C = G div 2 ^ 32" and "D = G mod 2 ^ 32"
  have FG: "F < 2 ^ 64" "G < 2 ^ 64" using unsigned_less [of "fp_f x"] unsigned_less [of "fp_f y"] by (simp_all add: F_def G_def)
  then have lt: "A < 2 ^ 32" "B < 2 ^ 32" "C < 2 ^ 32" "D < 2 ^ 32"
    by (auto simp: A_def B_def C_def D_def less_mult_imp_div_less)
  let ?a = "drop_bit 32 (fp_f x)" and ?b = "fp_f x AND 0xFFFFFFFF"
  let ?c = "drop_bit 32 (fp_f y)" and ?d = "fp_f y AND 0xFFFFFFFF"
  have u: "unat ?a = A" "unat ?b = B" "unat ?c = C" "unat ?d = D"
    by (simp_all only: high_half low_half A_def B_def C_def D_def F_def G_def)
  have p: "unat (?a * ?c) = A * C" "unat (?b * ?c) = B * C" "unat (?a * ?d) = A * D" "unat (?b * ?d) = B * D"
    using half_product lt by (subst unat_times; fastforce simp: u)+
  define t where "t = B * D div 2 ^ 32 + A * D mod 2 ^ 32 + B * C mod 2 ^ 32 + 2 ^ 31"
  have "B * D div 2 ^ 32 < 2 ^ 32" using lt half_product [of B D] by (simp add: less_mult_imp_div_less)
  moreover have "A * D mod 2 ^ 32 < 2 ^ 32" "B * C mod 2 ^ 32 < 2 ^ 32" by simp_all
  ultimately have tb: "B * D div 2 ^ 32 + A * D mod 2 ^ 32 < 2 ^ 33"
      "B * D div 2 ^ 32 + A * D mod 2 ^ 32 + B * C mod 2 ^ 32 < 2 ^ 34" "t < 2 ^ 35" by (simp_all add: t_def)
  let ?t0 = "drop_bit 32 (?b * ?d) + (?a * ?d AND 0xFFFFFFFF)"
  have t0: "unat ?t0 = B * D div 2 ^ 32 + A * D mod 2 ^ 32"
    using tb(1) by (subst unat_plus) (simp_all add: high_half low_half p)
  let ?t1 = "?t0 + (?b * ?c AND 0xFFFFFFFF)"
  have t1: "unat ?t1 = B * D div 2 ^ 32 + A * D mod 2 ^ 32 + B * C mod 2 ^ 32"
    using tb(2) t0 by (subst unat_plus) (simp_all add: low_half p)
  have t2: "unat (?t1 + push_bit 31 1) = t"
    using tb(3) t1 by (subst unat_plus) (simp_all add: t_def)
  have big: "(F * G + 2 ^ 63) div 2 ^ 64 = A * C + A * D div 2 ^ 32 + B * C div 2 ^ 32 + t div 2 ^ 32"
  proof -
    have "F = A * 2 ^ 32 + B" "G = C * 2 ^ 32 + D" by (simp_all add: A_def B_def C_def D_def)
    then show ?thesis using rounded_product [of "2 ^ 32" A B C D "2 ^ 31"] lt by (simp add: t_def)
  qed
  have "F * G \<le> (2 ^ 64 - 1) * (2 ^ 64 - 1)" using FG by (intro mult_le_mono) simp_all
  then have "(F * G + 2 ^ 63) div 2 ^ 64 < 2 ^ 64" by (simp add: less_mult_imp_div_less)
  then have sb: "A * C + A * D div 2 ^ 32 + B * C div 2 ^ 32 + t div 2 ^ 32 < 2 ^ 64" using big by simp
  have "unat (?a * ?c + drop_bit 32 (?a * ?d)) = A * C + A * D div 2 ^ 32"
    using sb by (subst unat_plus) (simp_all add: high_half p)
  then have "unat (?a * ?c + drop_bit 32 (?a * ?d) + drop_bit 32 (?b * ?c)) = A * C + A * D div 2 ^ 32 + B * C div 2 ^ 32"
    using sb by (subst unat_plus) (simp_all add: high_half p)
  then have "unat (?a * ?c + drop_bit 32 (?a * ?d) + drop_bit 32 (?b * ?c) + drop_bit 32 (?t1 + push_bit 31 1)) =
      A * C + A * D div 2 ^ 32 + B * C div 2 ^ 32 + t div 2 ^ 32"
    using sb t2 by (subst unat_plus) (simp_all only: high_half)
  then show ?thesis using big by (simp only: DiyFp_Multiply_def Let_def F_def G_def diy_fp.simps)
qed

section \<open>Doubles\<close>

definition kSignMask :: "64 word" where "kSignMask = 0x8000000000000000"
definition kExponentMask :: "64 word" where "kExponentMask = 0x7FF0000000000000"
definition kSignificandMask :: "64 word" where "kSignificandMask = 0x000FFFFFFFFFFFFF"
definition kHiddenBit :: "64 word" where "kHiddenBit = 0x0010000000000000"
definition kPhysicalSignificandSize :: nat where "kPhysicalSignificandSize = 52"
definition kSignificandSize :: nat where "kSignificandSize = 53"
definition kExponentBias :: int where "kExponentBias = 0x3FF + int kPhysicalSignificandSize"
definition kDenormalExponent :: int where "kDenormalExponent = - kExponentBias + 1"
definition kMaxExponent :: int where "kMaxExponent = 0x7FF - kExponentBias"
definition kInfinity :: "64 word" where "kInfinity = 0x7FF0000000000000"

definition IsDenormal :: "64 word \<Rightarrow> bool" where
  "IsDenormal d64 \<longleftrightarrow> d64 AND kExponentMask = 0"

definition IsSpecial :: "64 word \<Rightarrow> bool" where
  "IsSpecial d64 \<longleftrightarrow> d64 AND kExponentMask = kExponentMask"

definition IsNan :: "64 word \<Rightarrow> bool" where
  "IsNan d64 \<longleftrightarrow> d64 AND kExponentMask = kExponentMask \<and> d64 AND kSignificandMask \<noteq> 0"

definition IsInfinite :: "64 word \<Rightarrow> bool" where
  "IsInfinite d64 \<longleftrightarrow> d64 AND kExponentMask = kExponentMask \<and> d64 AND kSignificandMask = 0"

definition Sign :: "64 word \<Rightarrow> int" where
  "Sign d64 = (if d64 AND kSignMask = 0 then 1 else -1)"

definition Exponent :: "64 word \<Rightarrow> int" where
  "Exponent d64 =
     (if IsDenormal d64 then kDenormalExponent
      else int (unat (drop_bit kPhysicalSignificandSize (d64 AND kExponentMask))) - kExponentBias)"

definition Significand :: "64 word \<Rightarrow> 64 word" where
  "Significand d64 =
     (let significand = d64 AND kSignificandMask in
      if \<not> IsDenormal d64 then significand + kHiddenBit else significand)"

definition AsDiyFp :: "64 word \<Rightarrow> diy_fp" where
  "AsDiyFp d64 = DiyFp (Significand d64) (Exponent d64)"

definition AsNormalizedDiyFp :: "64 word \<Rightarrow> diy_fp option" where
  "AsNormalizedDiyFp d64 =
     (case shift_until kHiddenBit 1 (Significand d64) (Exponent d64) of
        None \<Rightarrow> None
      | Some (f, e) \<Rightarrow>
          Some (DiyFp (push_bit (64 - kSignificandSize) f) (e - int (64 - kSignificandSize))))"

definition NextDouble :: "64 word \<Rightarrow> 64 word" where
  "NextDouble d64 =
     (if d64 = kInfinity then kInfinity
      else if Sign d64 < 0 \<and> Significand d64 = 0 then 0
      else if Sign d64 < 0 then d64 - 1 else d64 + 1)"

definition UpperBoundary :: "64 word \<Rightarrow> diy_fp" where
  "UpperBoundary d64 = DiyFp (Significand d64 * 2 + 1) (Exponent d64 - 1)"

definition NormalizedBoundaries :: "64 word \<Rightarrow> (diy_fp \<times> diy_fp) option" where
  "NormalizedBoundaries d64 =
     (let v = AsDiyFp d64; significand_is_zero = (fp_f v = kHiddenBit) in
      case DiyFp_Normalize (DiyFp (push_bit 1 (fp_f v) + 1) (fp_e v - 1)) of
        None \<Rightarrow> None
      | Some m_plus \<Rightarrow>
          (let m_minus =
                 (if significand_is_zero \<and> fp_e v \<noteq> kDenormalExponent
                  then DiyFp (push_bit 2 (fp_f v) - 1) (fp_e v - 2)
                  else DiyFp (push_bit 1 (fp_f v) - 1) (fp_e v - 1));
               m_minus = m_minus\<lparr>fp_f := push_bit (nat (fp_e m_minus - fp_e m_plus)) (fp_f m_minus)\<rparr>;
               m_minus = m_minus\<lparr>fp_e := fp_e m_plus\<rparr>
           in Some (m_minus, m_plus)))"

definition SignificandSizeForOrderOfMagnitude :: "int \<Rightarrow> int" where
  "SignificandSizeForOrderOfMagnitude order =
     (if order \<ge> kDenormalExponent + int kSignificandSize then int kSignificandSize
      else if order \<le> kDenormalExponent then 0 else order - kDenormalExponent)"

text \<open>The loops of \<open>DiyFpToUint64\<close>: drop bits while the significand is too wide, then normalize.\<close>

function drop_excess :: "64 word \<Rightarrow> int \<Rightarrow> 64 word \<times> int" where
  "drop_excess significand e =
     (if significand > kHiddenBit + kSignificandMask then drop_excess (drop_bit 1 significand) (e + 1)
      else (significand, e))"
  by pat_completeness auto
termination
  by (relation "measure (\<lambda>(significand, e). unat significand)")
    (auto simp: kHiddenBit_def kSignificandMask_def high_half [of 1, simplified] word_less_nat_alt)

function fill_significand :: "64 word \<Rightarrow> int \<Rightarrow> 64 word \<times> int" where
  "fill_significand significand e =
     (if e > kDenormalExponent \<and> significand AND kHiddenBit = 0 then fill_significand (push_bit 1 significand) (e - 1)
      else (significand, e))"
  by pat_completeness auto
termination by (relation "measure (\<lambda>(significand, e). nat (e - kDenormalExponent))") auto

definition DiyFpToUint64 :: "diy_fp \<Rightarrow> 64 word" where
  "DiyFpToUint64 diy_fp =
     (case drop_excess (fp_f diy_fp) (fp_e diy_fp) of (significand, e) \<Rightarrow>
        if e \<ge> kMaxExponent then kInfinity
        else if e < kDenormalExponent then 0
        else (case fill_significand significand e of (significand, e) \<Rightarrow>
          (let biased_exponent =
                 (if e = kDenormalExponent \<and> significand AND kHiddenBit = 0 then 0
                  else word_of_int (e + kExponentBias))
           in (significand AND kSignificandMask) OR push_bit kPhysicalSignificandSize biased_exponent)))"

declare drop_excess.simps [simp del] fill_significand.simps [simp del]

subsection \<open>The fields of a pattern as numbers\<close>

text \<open>
  A pattern below \<open>kInfinity\<close> stands for a finite number that is not negative.  \<open>bits_value\<close> is that
  number in units of the smallest denormal, \<open>bits_ulp\<close> the distance to the next pattern.
\<close>

definition bits_ulp :: "nat \<Rightarrow> nat" where
  "bits_ulp n = 2 ^ (n div 2 ^ 52 - 1)"

definition bits_value :: "nat \<Rightarrow> nat" where
  "bits_value n = (n mod 2 ^ 52 + (if n div 2 ^ 52 = 0 then 0 else 2 ^ 52)) * bits_ulp n"

definition double_value :: "64 word \<Rightarrow> real" where
  "double_value d = real (unat (Significand d)) * 2 powi Exponent d"

lemma unat_kInfinity: "unat kInfinity = 2047 * 2 ^ 52"
  by (simp add: kInfinity_def)

lemma significand_field: "unat (d AND kSignificandMask) = unat d mod 2 ^ 52"
proof -
  have "kSignificandMask = mask 52" by (simp add: kSignificandMask_def mask_numeral)
  then have "d AND kSignificandMask = take_bit 52 d" by (simp add: take_bit_eq_mask)
  then show ?thesis by (metis unsigned_take_bit_eq take_bit_eq_mod)
qed

lemma exponent_field: "drop_bit 52 (d AND kExponentMask) = take_bit 11 (drop_bit 52 d)"
proof -
  have m: "kExponentMask = push_bit 52 (mask 11)" by (simp add: kExponentMask_def mask_numeral)
  show ?thesis unfolding m by (intro bit_word_eqI) (auto simp: bit_simps)
qed

lemma exponent_field_zero: "d AND kExponentMask = 0 \<longleftrightarrow> take_bit 11 (drop_bit 52 d) = 0"
proof -
  have m: "kExponentMask = push_bit 52 (mask 11)" by (simp add: kExponentMask_def mask_numeral)
  have "d AND kExponentMask = push_bit 52 (take_bit 11 (drop_bit 52 d))"
    unfolding m by (intro bit_word_eqI) (auto simp: bit_simps)
  moreover have "drop_bit 52 (d AND kExponentMask) = take_bit 11 (drop_bit 52 d)" by (rule exponent_field)
  ultimately show ?thesis by (metis drop_bit_of_0 push_bit_of_0)
qed

lemma unat_take_11: "unat d < 2 ^ 63 \<Longrightarrow> unat (take_bit 11 (drop_bit 52 d)) = unat d div 2 ^ 52" for d :: "64 word"
proof -
  assume "unat d < 2 ^ 63"
  then have "unat d div 2 ^ 52 < 2 ^ 11" by (simp add: less_mult_imp_div_less)
  moreover have "unat (take_bit 11 (drop_bit 52 d)) = unat d div 2 ^ 52 mod 2 ^ 11"
    unfolding unsigned_take_bit_eq high_half by (rule take_bit_eq_mod)
  ultimately show ?thesis by simp
qed

lemma finite_below: "d \<le> kInfinity \<Longrightarrow> unat d < 2 ^ 63"
  using unat_kInfinity by (simp add: word_le_nat_alt)

lemma IsDenormal_iff: "d \<le> kInfinity \<Longrightarrow> IsDenormal d \<longleftrightarrow> unat d div 2 ^ 52 = 0"
  unfolding IsDenormal_def exponent_field_zero using unat_take_11 [OF finite_below] by (metis unat_eq_0)

lemma Exponent_eq: "d \<le> kInfinity \<Longrightarrow> Exponent d = int (unat d div 2 ^ 52 - 1) - 1074"
  unfolding Exponent_def kPhysicalSignificandSize_def exponent_field unat_take_11 [OF finite_below]
  using IsDenormal_iff [of d] by (auto simp: kExponentBias_def kDenormalExponent_def kPhysicalSignificandSize_def)

lemma Significand_eq:
  assumes "d \<le> kInfinity"
  shows "unat (Significand d) = unat d mod 2 ^ 52 + (if unat d div 2 ^ 52 = 0 then 0 else 2 ^ 52)"
proof -
  have "unat d mod 2 ^ 52 < 2 ^ 52" by simp
  then have "unat (d AND kSignificandMask) + unat kHiddenBit < 2 ^ 64"
    unfolding significand_field by (simp add: kHiddenBit_def)
  then show ?thesis using IsDenormal_iff [OF assms] unat_plus [of "d AND kSignificandMask" kHiddenBit]
    by (auto simp: Significand_def Let_def significand_field kHiddenBit_def)
qed

lemma Significand_bound: "d \<le> kInfinity \<Longrightarrow> unat (Significand d) < 2 ^ 53"
  using Significand_eq [of d] mod_less_divisor [of "2 ^ 52" "unat d"] by (simp split: if_splits)

definition min_denormal :: real where
  "min_denormal = 2 powi (-1074)"

lemma min_denormal_pos [simp]: "0 < min_denormal" "min_denormal \<noteq> 0"
  by (simp_all add: min_denormal_def)

lemma powi_Exponent: "d \<le> kInfinity \<Longrightarrow> 2 powi Exponent d = real (bits_ulp (unat d)) * min_denormal"
  unfolding Exponent_eq bits_ulp_def min_denormal_def diff_conv_add_uminus
  by (subst power_int_add) (simp_all only: power_int_of_nat of_nat_power of_nat_numeral, simp)

lemma double_value_eq:
  assumes "d \<le> kInfinity"
  shows "double_value d = real (bits_value (unat d)) * min_denormal"
proof -
  have "2 powi Exponent d = real (bits_ulp (unat d)) * min_denormal" by (rule powi_Exponent [OF assms])
  then show ?thesis
    unfolding double_value_def Significand_eq [OF assms] bits_value_def by (simp add: algebra_simps)
qed

lemma bits_value_Suc: "bits_value (Suc n) = bits_value n + bits_ulp n"
proof (cases "Suc (n mod 2 ^ 52) < 2 ^ 52")
  case True
  then have "Suc n div 2 ^ 52 = n div 2 ^ 52" "Suc n mod 2 ^ 52 = Suc (n mod 2 ^ 52)"
    by (simp_all add: div_Suc mod_Suc)
  then show ?thesis by (simp add: bits_value_def bits_ulp_def)
next
  case False
  then have eq: "Suc (n mod 2 ^ 52) = 2 ^ 52" using mod_less_divisor [of "2 ^ 52" n] by simp
  then have s: "Suc n div 2 ^ 52 = Suc (n div 2 ^ 52)" "Suc n mod 2 ^ 52 = 0" "n mod 2 ^ 52 = 2 ^ 52 - 1"
    by (simp_all add: div_Suc mod_Suc)
  show ?thesis
  proof (cases "n div 2 ^ 52")
    case 0 then show ?thesis unfolding bits_value_def bits_ulp_def s by simp
  next
    case (Suc k) then show ?thesis unfolding bits_value_def bits_ulp_def s by simp
  qed
qed

lemma bits_value_mono: "n < m \<Longrightarrow> bits_value n < bits_value m"
  by (rule lift_Suc_mono_less) (simp_all add: bits_value_Suc bits_ulp_def)

lemma double_value_mono: "d < d' \<Longrightarrow> d' \<le> kInfinity \<Longrightarrow> double_value d < double_value d'"
  using bits_value_mono [of "unat d" "unat d'"] order.strict_implies_order [OF order.strict_trans2, of d d' kInfinity]
  by (simp add: double_value_eq word_less_nat_alt)

subsection \<open>Boundaries\<close>

text \<open>
  The bounds of the interval of numbers that are closer to \<open>d\<close> than to any other double: the
  midpoints to the neighbouring patterns.
\<close>

definition upper_midpoint :: "64 word \<Rightarrow> real" where
  "upper_midpoint d = (double_value d + double_value (d + 1)) / 2"

definition lower_midpoint :: "64 word \<Rightarrow> real" where
  "lower_midpoint d = (double_value (d - 1) + double_value d) / 2"

lemma unat_succ: "d < kInfinity \<Longrightarrow> unat (d + 1) = Suc (unat d)"
  using unat_plus [of d 1] unat_kInfinity by (simp add: word_less_nat_alt)

lemma succ_le: "d < kInfinity \<Longrightarrow> d + 1 \<le> kInfinity"
  using unat_succ [of d] by (simp add: word_less_nat_alt word_le_nat_alt)

lemma upper_midpoint_eq:
  assumes "d < kInfinity"
  shows "upper_midpoint d = double_value d + 2 powi Exponent d / 2"
proof -
  have "double_value (d + 1) = double_value d + 2 powi Exponent d"
    using assms succ_le [OF assms] unat_succ [OF assms]
    by (simp add: double_value_eq powi_Exponent bits_value_Suc algebra_simps)
  then show ?thesis by (simp add: upper_midpoint_def)
qed

text \<open>The distance to the pattern below is half as large at a power of two, the smallest normal apart.\<close>

lemma bits_ulp_pred:
  assumes "0 < n"
  shows "bits_ulp n = (if n mod 2 ^ 52 = 0 \<and> 1 < n div 2 ^ 52 then 2 else 1) * bits_ulp (n - 1)"
proof (cases "n mod 2 ^ 52 = 0")
  case True
  then have "n div 2 ^ 52 \<noteq> 0" using assms by (metis div_mult_mod_eq mult_0 add_0 less_numeral_extra(3))
  moreover have "(n - 1) div 2 ^ 52 = n div 2 ^ 52 - 1"
    using True assms by (cases n) (auto simp: div_Suc)
  ultimately show ?thesis unfolding bits_ulp_def using True
    by (cases "n div 2 ^ 52"; cases "n div 2 ^ 52 - 1") auto
next
  case False
  then have "(n - 1) div 2 ^ 52 = n div 2 ^ 52" using assms by (cases n) (auto simp: div_Suc)
  then show ?thesis using False by (simp add: bits_ulp_def)
qed

definition lower_closer :: "64 word \<Rightarrow> bool" where
  "lower_closer d \<longleftrightarrow> d AND kSignificandMask = 0 \<and> kDenormalExponent < Exponent d"

lemma lower_closer_iff:
  assumes "d \<le> kInfinity"
  shows "lower_closer d \<longleftrightarrow> unat d mod 2 ^ 52 = 0 \<and> 1 < unat d div 2 ^ 52"
proof -
  have "d AND kSignificandMask = 0 \<longleftrightarrow> unat d mod 2 ^ 52 = 0"
    using significand_field [of d] by (metis unat_eq_0)
  then show ?thesis
    by (auto simp: lower_closer_def Exponent_eq [OF assms] kDenormalExponent_def kExponentBias_def kPhysicalSignificandSize_def)
qed

lemma lower_midpoint_eq:
  assumes "0 < d" "d < kInfinity"
  shows "lower_midpoint d = double_value d - 2 powi Exponent d / (if lower_closer d then 4 else 2)"
proof -
  have u: "unat (d - 1) = unat d - 1" "0 < unat d"
    using assms(1) unat_minus_one [of d] by (auto simp: word_less_nat_alt unat_eq_0 [symmetric])
  have le: "d \<le> kInfinity" "d - 1 \<le> kInfinity" using assms(2) u(1) by (simp_all add: word_le_nat_alt word_less_nat_alt)
  have "bits_value (unat d) = bits_value (unat d - 1) + bits_ulp (unat d - 1)"
    using bits_value_Suc [of "unat d - 1"] u(2) by simp
  moreover have "bits_ulp (unat d) = (if lower_closer d then 2 else 1) * bits_ulp (unat d - 1)"
    using bits_ulp_pred [OF u(2)] lower_closer_iff [OF le(1)] by simp
  ultimately show ?thesis
    by (auto simp: lower_midpoint_def double_value_eq le powi_Exponent u(1) field_simps)
qed

lemma Significand_pos: "0 < d \<Longrightarrow> d \<le> kInfinity \<Longrightarrow> 0 < unat (Significand d)"
proof -
  assume d: "0 < d" "d \<le> kInfinity"
  then have "unat d \<noteq> 0" by (simp add: unat_eq_0 word_gt_0_no word_greater_zero_iff)
  then show ?thesis unfolding Significand_eq [OF d(2)] by (auto simp: mod_eq_0_iff_dvd div_eq_0_iff)
qed

lemma fp_value_shift: "fp_value \<lparr>fp_f = f', fp_e = e - int k\<rparr> = real n * 2 powi e" if "unat f' = n * 2 ^ k"
  using that by (simp add: fp_value_def power_int_diff)

lemma significand_is_zero_iff:
  assumes "d \<le> kInfinity"
  shows "Significand d = kHiddenBit \<and> Exponent d \<noteq> kDenormalExponent \<longleftrightarrow> lower_closer d"
proof -
  have "Significand d = kHiddenBit \<longleftrightarrow> unat (Significand d) = 2 ^ 52"
    by (simp add: word_unat_eq_iff kHiddenBit_def)
  also have "\<dots> \<longleftrightarrow> unat d mod 2 ^ 52 = 0 \<and> unat d div 2 ^ 52 \<noteq> 0"
    unfolding Significand_eq [OF assms] using mod_less_divisor [of "2 ^ 52" "unat d"] by (auto split: if_splits)
  finally show ?thesis unfolding lower_closer_iff [OF assms]
    by (auto simp: Exponent_eq [OF assms] kDenormalExponent_def kExponentBias_def kPhysicalSignificandSize_def)
qed

text \<open>
  The boundaries of a double.  For every positive finite double, \<^verbatim>\<open>NormalizedBoundaries\<close> returns;
  the two results share their exponent, the upper one is normalized, and they are exactly the
  midpoints between the double and its two neighbours, so that they delimit the numbers that are
  read back as this double.
\<close>

theorem NormalizedBoundaries_are_midpoints:
  assumes "0 < d" "d < kInfinity"
  shows "\<exists>m_minus m_plus. NormalizedBoundaries d = Some (m_minus, m_plus) \<and> fp_e m_minus = fp_e m_plus
    \<and> 2 ^ 63 \<le> unat (fp_f m_plus) \<and> fp_value m_plus = (double_value d + double_value (d + 1)) / 2
    \<and> fp_value m_minus = (double_value (d - 1) + double_value d) / 2"
proof -
  have le: "d \<le> kInfinity" using assms(2) by simp
  define f e where "f = unat (Significand d)" and "e = Exponent d"
  have f: "0 < f" "f < 2 ^ 53" using Significand_pos [OF assms(1) le] Significand_bound [OF le] by (auto simp: f_def)
  have s1: "unat (push_bit 1 (Significand d)) = 2 * f" "unat (push_bit 2 (Significand d)) = 4 * f"
    using unat_push_bit [of "Significand d" 1] unat_push_bit [of "Significand d" 2] f(2) by (simp_all add: f_def)
  then have s2: "unat (push_bit 1 (Significand d) + 1) = 2 * f + 1"
    using f(2) by (subst unat_plus) simp_all
  have s3: "unat (push_bit 1 (Significand d) - 1) = 2 * f - 1" "unat (push_bit 2 (Significand d) - 1) = 4 * f - 1"
    using s1 f(1) by (simp_all add: unat_minus_one unat_eq_0 [symmetric])
  let ?p = "DiyFp (push_bit 1 (Significand d) + 1) (e - 1)"
  have "fp_f ?p \<noteq> 0" using s2 by (simp add: DiyFp_def unat_eq_0 [symmetric])
  then obtain k where k: "DiyFp_Normalize ?p = Some (DiyFp (push_bit k (push_bit 1 (Significand d) + 1)) (e - 1 - int k))"
      "unat (push_bit k (push_bit 1 (Significand d) + 1)) = (2 * f + 1) * 2 ^ k"
      "2 ^ 63 \<le> (2 * f + 1) * 2 ^ k" "(2 * f + 1) * 2 ^ k < 2 ^ 64"
    using DiyFp_Normalize_correct [of ?p] s2 by (auto simp: DiyFp_def)
  have "k \<noteq> 0" using k(3) f(2) by (intro notI) simp
  then obtain j where j: "k = Suc j" by (cases k) auto
  have up: "fp_value (DiyFp (push_bit k (push_bit 1 (Significand d) + 1)) (e - 1 - int k)) = upper_midpoint d"
    unfolding DiyFp_def fp_value_shift [OF k(2)] upper_midpoint_eq [OF assms(2)] double_value_def
    by (simp add: f_def e_def power_int_diff field_simps)
  define m_minus where "m_minus = (if lower_closer d
      then DiyFp (push_bit j (push_bit 2 (Significand d) - 1)) (e - 1 - int k)
      else DiyFp (push_bit k (push_bit 1 (Significand d) - 1)) (e - 1 - int k))"
  have nb: "NormalizedBoundaries d =
      Some (m_minus, DiyFp (push_bit k (push_bit 1 (Significand d) + 1)) (e - 1 - int k))"
  proof -
    have "nat (e - 2 - (e - 1 - int k)) = j" "nat (e - 1 - (e - 1 - int k)) = k" using j by simp_all
    then show ?thesis unfolding NormalizedBoundaries_def Let_def AsDiyFp_def m_minus_def
      using k(1) significand_is_zero_iff [OF le] by (simp only: DiyFp_def diy_fp.simps e_def option.case if_split) auto
  qed
  have "fp_value m_minus = lower_midpoint d"
  proof (cases "lower_closer d")
    case True
    have "(4 * f - 1) * 2 ^ j \<le> (2 * (2 * f + 1)) * 2 ^ j" by (intro mult_le_mono1) simp
    then have "(4 * f - 1) * 2 ^ j \<le> (2 * f + 1) * 2 ^ k" unfolding j by (simp only: power_Suc mult.assoc mult.left_commute)
    then have u: "unat (push_bit j (push_bit 2 (Significand d) - 1)) = (4 * f - 1) * 2 ^ j"
      using k(4) s3(2) by (subst unat_push_bit) simp_all
    have "e - 1 - int k = e - 2 - int j" using j by simp
    then have "fp_value m_minus = real (4 * f - 1) * 2 powi (e - 2)"
      unfolding m_minus_def DiyFp_def using True by (simp only: if_True fp_value_shift [OF u])
    then show ?thesis unfolding lower_midpoint_eq [OF assms] double_value_def using True f(1)
      by (simp add: f_def [symmetric] e_def [symmetric] power_int_diff of_nat_diff field_simps)
  next
    case False
    have "(2 * f - 1) * 2 ^ k \<le> (2 * f + 1) * 2 ^ k" by (intro mult_le_mono1) simp
    then have u: "unat (push_bit k (push_bit 1 (Significand d) - 1)) = (2 * f - 1) * 2 ^ k"
      using k(4) s3(1) by (subst unat_push_bit) simp_all
    have "fp_value m_minus = real (2 * f - 1) * 2 powi (e - 1)"
      unfolding m_minus_def DiyFp_def using False by (simp only: if_False fp_value_shift [OF u])
    then show ?thesis unfolding lower_midpoint_eq [OF assms] double_value_def using False f(1)
      by (simp add: f_def [symmetric] e_def [symmetric] power_int_diff of_nat_diff field_simps)
  qed
  then show ?thesis using nb up k(2,3)
    by (auto simp: m_minus_def DiyFp_def upper_midpoint_def lower_midpoint_def)
qed

text \<open>Evaluated on \<open>1.0\<close>, whose lower neighbour is closer.\<close>

theorem NormalizedBoundaries_are_midpoints_witness:
  "\<exists>m_minus m_plus. NormalizedBoundaries 0x3FF0000000000000 = Some (m_minus, m_plus)
    \<and> fp_value m_plus = (double_value 0x3FF0000000000000 + double_value 0x3FF0000000000001) / 2
    \<and> fp_value m_minus = (double_value 0x3FEFFFFFFFFFFFFF + double_value 0x3FF0000000000000) / 2"
  using NormalizedBoundaries_are_midpoints [of "0x3FF0000000000000"] by (auto simp: kInfinity_def)

subsection \<open>From a decomposed double back to its pattern\<close>

lemma hidden_bit_clear: "unat x < 2 ^ 53 \<Longrightarrow> x AND kHiddenBit = 0 \<longleftrightarrow> unat x < 2 ^ 52"
  using mask_of_bit [of x 52] by (simp add: kHiddenBit_def)

lemma join_fields:
  "take_bit 52 s OR push_bit 52 b = d" if "take_bit 52 s = take_bit 52 d" "b = drop_bit 52 d" for d s :: "64 word"
  unfolding that by (rule bit_word_eqI) (auto simp: bit_simps, metis le_add_diff_inverse not_less)

text \<open>
  Round trip: taking a finite double that is not negative apart into significand and exponent
  and encoding the pair again with \<^verbatim>\<open>DiyFpToUint64\<close> gives the bits of the double, for normal
  numbers and denormals.
\<close>

theorem DiyFpToUint64_AsDiyFp:
  assumes "d < kInfinity"
  shows "DiyFpToUint64 (AsDiyFp d) = d"
proof -
  have le: "d \<le> kInfinity" using assms by simp
  define b where "b = unat d div 2 ^ 52"
  have "unat d < 2047 * 2 ^ 52" using assms unat_kInfinity by (simp add: word_less_nat_alt)
  then have b: "b < 2047" unfolding b_def by (rule less_mult_imp_div_less)
  note bound = Significand_bound [OF le]
  have e: "Exponent d = int (b - 1) - 1074" using Exponent_eq [OF le] by (simp add: b_def)
  have hidden: "Significand d AND kHiddenBit = 0 \<longleftrightarrow> b = 0"
    unfolding hidden_bit_clear [OF bound] Significand_eq [OF le] b_def by (auto simp: div_eq_0_iff)
  have max: "unat (kHiddenBit + kSignificandMask) = 2 ^ 53 - 1" by (simp add: kHiddenBit_def kSignificandMask_def)
  have keep: "\<not> Significand d > kHiddenBit + kSignificandMask"
    unfolding word_less_nat_alt max using bound by simp
  have excess: "drop_excess (Significand d) (Exponent d) = (Significand d, Exponent d)"
    by (simp add: drop_excess.simps [of "Significand d"] keep)
  have fill: "fill_significand (Significand d) (Exponent d) = (Significand d, Exponent d)"
    using hidden e
    by (auto simp: fill_significand.simps [of "Significand d"] kDenormalExponent_def kExponentBias_def kPhysicalSignificandSize_def)
  have "unat (take_bit 52 (Significand d)) = unat (take_bit 52 d)"
    unfolding unsigned_take_bit_eq Significand_eq [OF le] by (simp add: take_bit_eq_mod)
  then have low: "take_bit 52 (Significand d) = take_bit 52 d" by (simp only: word_unat_eq_iff)
  have high: "drop_bit 52 d = word_of_int (int b)"
    unfolding word_unat_eq_iff high_half b_def [symmetric] using b by (simp add: unsigned_of_nat take_bit_nat_eq_self)
  have mask: "x AND kSignificandMask = take_bit 52 x" for x
    by (simp add: kSignificandMask_def take_bit_eq_mask mask_numeral)
  define biased :: "64 word" where "biased = (if Exponent d = kDenormalExponent \<and> Significand d AND kHiddenBit = 0 then 0
      else word_of_int (Exponent d + kExponentBias))"
  have "biased = drop_bit 52 d"
    unfolding biased_def hidden high e by (auto simp: kDenormalExponent_def kExponentBias_def kPhysicalSignificandSize_def)
  then have "DiyFpToUint64 (AsDiyFp d) = take_bit 52 (Significand d) OR push_bit 52 (drop_bit 52 d)"
    unfolding DiyFpToUint64_def AsDiyFp_def DiyFp_def diy_fp.simps excess prod.case fill Let_def biased_def [symmetric]
    using less_imp_diff_less [OF b, of 1] b e by (auto simp add: mask kMaxExponent_def kDenormalExponent_def kExponentBias_def kPhysicalSignificandSize_def)
  then show ?thesis using join_fields [OF low refl] by simp
qed

theorem DiyFpToUint64_AsDiyFp_witness: "DiyFpToUint64 (AsDiyFp 0x0008000000000000) = 0x0008000000000000"
  using DiyFpToUint64_AsDiyFp [of "0x0008000000000000"] by (simp add: kInfinity_def)

subsection \<open>Rounding of products\<close>

text \<open>
  The product of two \<^verbatim>\<open>DiyFp\<close> numbers.  \<^verbatim>\<open>Multiply\<close> computes with four 32-bit halves and no
  128-bit integer; no addition wraps around, and the significand is the exact product divided by
  \<open>2 ^ 64\<close>, rounded to nearest with halfway cases up, so that the error is at most half a unit in
  the last place.
\<close>

theorem DiyFp_Multiply_rounds:
  "unat (fp_f (DiyFp_Multiply x y)) = (unat (fp_f x) * unat (fp_f y) + 2 ^ 63) div 2 ^ 64
   \<and> \<bar>fp_value (DiyFp_Multiply x y) - fp_value x * fp_value y\<bar> \<le> 2 powi fp_e (DiyFp_Multiply x y) / 2"
proof (rule conjI [OF DiyFp_Multiply_f])
  let ?P = "unat (fp_f x) * unat (fp_f y)" and ?R = "unat (fp_f (DiyFp_Multiply x y))"
  let ?u = "2 powi (fp_e x + fp_e y) :: real"
  have e: "fp_e (DiyFp_Multiply x y) = fp_e x + fp_e y + 64" by (simp add: DiyFp_Multiply_def Let_def)
  have "?R * 2 ^ 64 \<le> ?P + 2 ^ 63" unfolding DiyFp_Multiply_f by (rule div_times_less_eq_dividend)
  moreover have "?P + 2 ^ 63 < ?R * 2 ^ 64 + 2 ^ 64"
    unfolding DiyFp_Multiply_f by (rule below_next_multiple) simp
  ultimately have "real (?R * 2 ^ 64) \<le> real (?P + 2 ^ 63)" "real (?P + 2 ^ 63) < real (?R * 2 ^ 64 + 2 ^ 64)"
    by (simp_all only: of_nat_le_iff of_nat_less_iff)
  then have "\<bar>real ?R * 2 ^ 64 - real ?P\<bar> \<le> 2 ^ 63" by (simp add: abs_le_iff)
  then have "\<bar>real ?R * 2 ^ 64 - real ?P\<bar> * ?u \<le> 2 ^ 63 * ?u" by (rule mult_right_mono) simp
  moreover have "fp_value (DiyFp_Multiply x y) - fp_value x * fp_value y = (real ?R * 2 ^ 64 - real ?P) * ?u"
    unfolding fp_value_def e by (simp add: power_int_add algebra_simps)
  moreover have "2 powi fp_e (DiyFp_Multiply x y) / 2 = 2 ^ 63 * ?u" unfolding e by (simp add: power_int_add)
  ultimately show "\<bar>fp_value (DiyFp_Multiply x y) - fp_value x * fp_value y\<bar> \<le> 2 powi fp_e (DiyFp_Multiply x y) / 2"
    by (simp only: abs_mult) simp
qed

end
