(* ===== verification/Estimate_Power.thy ===== *)
theory Estimate_Power
  imports Complex_Main V8_Double "HOL-Library.Log_Nat"
begin

text \<open>
  \<open>EstimatePower\<close> of \<^verbatim>\<open>src/bignum-dtoa.cc\<close>, the only floating-point computation of the conversion.
  Double arithmetic is the exact rational operation followed by \<open>fl\<close>, rounding to 53 significant
  bits with ties to even (the exponent range does not matter for the values that occur).  The
  estimate of the decimal exponent is right or too small by one.
\<close>

section \<open>Rounding to double precision\<close>

definition round_even :: "rat \<Rightarrow> int" where
  "round_even x =
     (let n = \<lfloor>x\<rfloor>; r = x - of_int n in
      if r < 1 / 2 then n else if 1 / 2 < r then n + 1 else if even n then n else n + 1)"

text \<open>The exponent of the leading bit of \<open>x\<close>, from the lengths of numerator and denominator.\<close>

definition leading_exponent :: "rat \<Rightarrow> int" where
  "leading_exponent x =
     (case quotient_of \<bar>x\<bar> of (n, d) \<Rightarrow>
        let k = int (floorlog 2 (nat n)) - int (floorlog 2 (nat d))
        in if 2 powi k \<le> \<bar>x\<bar> then k else k - 1)"

definition fl :: "rat \<Rightarrow> rat" where
  "fl x =
     (if x = 0 then 0
      else let u = 2 powi (leading_exponent x - 52) in of_int (round_even (x / u)) * u)"

definition k1Log10 :: rat where
  "k1Log10 = fl (30102999566398114 / 10 ^ 17)"

definition EstimatePower :: "int \<Rightarrow> int" where
  "EstimatePower e =
     \<lceil>fl (fl (of_int (e + int kSignificandSize - 1) * k1Log10) - fl (1 / 10 ^ 10))\<rceil>"

lemma round_even_error: "\<bar>of_int (round_even x) - x\<bar> \<le> 1 / 2"
proof -
  have "of_int \<lfloor>x\<rfloor> \<le> x" "x < of_int \<lfloor>x\<rfloor> + 1" using floor_correct [of x] by simp_all
  then show ?thesis by (simp add: round_even_def Let_def abs_le_iff)
qed

lemma leading_exponent_le: "x \<noteq> 0 \<Longrightarrow> 2 powi leading_exponent x \<le> \<bar>x\<bar>"
proof -
  assume x: "x \<noteq> 0"
  obtain n d where q: "quotient_of \<bar>x\<bar> = (n, d)" by fastforce
  then have xd: "\<bar>x\<bar> = of_int n / of_int d" "0 < d" by (auto intro: quotient_of_div quotient_of_denom_pos)
  then have n: "0 < n" using x by (metis abs_le_zero_iff divide_le_0_iff linorder_not_le of_int_0_less_iff of_int_le_0_iff order_less_imp_le)
  define a b where "a = floorlog 2 (nat n)" and "b = floorlog 2 (nat d)"
  have "2 ^ (a - 1) \<le> nat n" "nat d < 2 ^ b" "0 < a"
    using floorlog_bounds [of "nat n" 2] floorlog_bounds [of "nat d" 2] n xd(2) by (auto simp: a_def b_def floorlog_eq_zero_iff intro!: gr0I)
  then have nd: "2 ^ (a - 1) \<le> n" "d < 2 ^ b" by (simp_all add: le_nat_iff nat_less_iff)
  have "(2 :: rat) powi (int a - int b - 1) = 2 ^ (a - 1) / 2 ^ b"
    using \<open>0 < a\<close> by (simp add: power_int_diff power_diff)
  also have "\<dots> \<le> of_int n / of_int d"
  proof (rule frac_le)
    show "(2 :: rat) ^ (a - 1) \<le> of_int n" using nd(1) by (metis of_int_le_iff of_int_numeral of_int_power)
    show "of_int d \<le> (2 :: rat) ^ b" using nd(2) by (metis of_int_le_iff of_int_numeral of_int_power order_less_imp_le)
  qed (use xd(2) n in auto)
  finally show ?thesis using xd(1) q by (simp add: leading_exponent_def Let_def a_def b_def)
qed

lemma fl_error: "\<bar>fl x - x\<bar> \<le> \<bar>x\<bar> / 2 ^ 53"
proof (cases "x = 0")
  case False
  define u :: rat where "u = 2 powi (leading_exponent x - 52)"
  have u: "0 < u" "u * 2 ^ 52 \<le> \<bar>x\<bar>"
    using leading_exponent_le [OF False] by (auto simp: u_def power_int_diff)
  have "fl x - x = (of_int (round_even (x / u)) - x / u) * u"
    using False u(1) by (simp add: fl_def Let_def u_def [symmetric] algebra_simps)
  then have "\<bar>fl x - x\<bar> = \<bar>of_int (round_even (x / u)) - x / u\<bar> * u" using u(1) by (simp add: abs_mult)
  also have "\<dots> \<le> 1 / 2 * u" using round_even_error u(1) by (intro mult_right_mono) auto
  also have "\<dots> \<le> \<bar>x\<bar> / 2 ^ 53" using u(2) by simp
  finally show ?thesis .
qed (simp add: fl_def)

section \<open>The estimate\<close>

lemma error_bound: "\<bar>fl x - y\<bar> \<le> r" if "\<bar>x - y\<bar> \<le> d" "\<bar>y\<bar> + d \<le> B" "d + B / 2 ^ 53 \<le> r"
proof -
  have "\<bar>x\<bar> \<le> B" using that(1,2) by linarith
  then have "\<bar>x\<bar> / 2 ^ 53 \<le> B / 2 ^ 53" by (rule divide_right_mono) simp
  then show ?thesis using fl_error [of x] that(1,3) by linarith
qed

lemma fl_pos: "0 < x \<Longrightarrow> 0 < fl x"
proof -
  assume "0 < x"
  then have "\<bar>x\<bar> / 2 ^ 53 < x" by (simp add: field_simps)
  then show ?thesis using fl_error [of x] by linarith
qed

lemma fl_neg: "x < 0 \<Longrightarrow> fl x < 0"
proof -
  assume "x < 0"
  then have "\<bar>x\<bar> / 2 ^ 53 < - x" by (simp add: field_simps)
  then show ?thesis using fl_error [of x] by linarith
qed

lemma k1Log10_error: "\<bar>k1Log10 - 30102999566398114 / 10 ^ 17\<bar> \<le> 1 / 2 ^ 53"
  using fl_error [of "30102999566398114 / 10 ^ 17"] by (simp add: k1Log10_def)

text \<open>The argument of \<open>ceil\<close> is close to the product with the decimal constant, and negative at zero.\<close>

definition estimate :: "int \<Rightarrow> rat" where
  "estimate n = fl (fl (of_int n * k1Log10) - fl (1 / 10 ^ 10))"

lemma EstimatePower_eq: "EstimatePower e = \<lceil>estimate (e + 52)\<rceil>"
  by (simp add: EstimatePower_def estimate_def kSignificandSize_def add.commute)

lemma estimate_error:
  assumes "\<bar>n\<bar> \<le> 1100"
  shows "\<bar>estimate n - of_int n * (30102999566398114 / 10 ^ 17)\<bar> \<le> 1 / 10 ^ 9"
proof -
  let ?k = "30102999566398114 / 10 ^ 17 :: rat"
  have n: "\<bar>of_int n :: rat\<bar> \<le> 1100" using assms by (metis of_int_abs of_int_le_iff of_int_numeral)
  have "\<bar>of_int n * k1Log10 - of_int n * ?k\<bar> = \<bar>of_int n\<bar> * \<bar>k1Log10 - ?k\<bar>"
    by (simp only: abs_mult [symmetric] right_diff_distrib)
  also have "\<dots> \<le> 1100 * (1 / 2 ^ 53)" using n k1Log10_error by (intro mult_mono) auto
  finally have a: "\<bar>of_int n * k1Log10 - of_int n * ?k\<bar> \<le> 1100 / 2 ^ 53" by simp
  have m: "\<bar>of_int n * ?k\<bar> \<le> 400" using n by (simp add: abs_mult)
  have b: "\<bar>fl (of_int n * k1Log10) - of_int n * ?k\<bar> \<le> 2 / 10 ^ 12"
    by (rule error_bound [OF a, of 401]) (use m in \<open>simp_all add: field_simps\<close>)
  have c: "\<bar>fl (1 / 10 ^ 10) - 0\<bar> \<le> 2 / 10 ^ 10" by (rule error_bound [of _ _ "1 / 10 ^ 10" 1]) simp_all
  have d: "\<bar>fl (of_int n * k1Log10) - fl (1 / 10 ^ 10) - of_int n * ?k\<bar> \<le> 2 / 10 ^ 12 + 2 / 10 ^ 10"
    using b c by linarith
  show ?thesis unfolding estimate_def
    by (rule error_bound [OF d, of 401]) (use m in \<open>simp_all add: field_simps\<close>)
qed

lemma estimate_zero: "estimate 0 < 0"
  using fl_neg [of "- fl (1 / 10 ^ 10)"] fl_pos [of "1 / 10 ^ 10"] by (simp add: estimate_def fl_def [of 0])

text \<open>
  Two convergents of the decimal logarithm of two bracket it, and no fraction with a denominator
  below 2621 lies between them.
\<close>

lemma log_power_less: "x ^ k < y ^ m \<Longrightarrow> 1 < b \<Longrightarrow> 0 < x \<Longrightarrow> 0 < y \<Longrightarrow> k * log b x < m * log b (y :: real)"
  using log_less_cancel_iff [of b "x ^ k" "y ^ m"] by (simp add: log_nat_power)

lemma log_bracket: "643 / 2136 < log 10 2" "log 10 2 < 146 / 485"
proof -
  have "(10 :: nat) ^ 643 < 2 ^ 2136" "(2 :: nat) ^ 485 < 10 ^ 146" by simp_all
  then have "(10 :: real) ^ 643 < 2 ^ 2136" "(2 :: real) ^ 485 < 10 ^ 146"
    by (simp_all only: of_nat_less_iff [where 'a = real, symmetric] of_nat_power of_nat_numeral)
  from this [THEN log_power_less [of _ _ _ _ 10]] show "643 / 2136 < log 10 2" "log 10 2 < 146 / 485"
    by simp_all
qed

lemma no_fraction_between:
  fixes p n :: int
  assumes "\<bar>n\<bar> < 2621"
  shows "0 < n \<Longrightarrow> 485 * p < 146 * n \<Longrightarrow> 2136 * p \<le> 643 * n"
    and "n < 0 \<Longrightarrow> 2136 * p < 643 * n \<Longrightarrow> 485 * p \<le> 146 * n"
  using assms by linarith+

lemma powi_le_iff: "(10 :: real) powi p \<le> 2 powi n \<longleftrightarrow> of_int p \<le> of_int n * log 10 2"
proof -
  have "(2 :: real) powi n = 10 powr (of_int n * log 10 2)"
    by (simp add: mult.commute [of "of_int n"] powr_real_of_int' flip: powr_powr)
  then show ?thesis by (simp add: powr_real_of_int' [symmetric])
qed

lemma powi_less_iff: "(2 :: real) powi n < 10 powi p \<longleftrightarrow> of_int n * log 10 2 < of_int p"
  using powi_le_iff [of p n] by (simp add: not_le [symmetric])

lemma EstimatePower_correct:
  assumes "-1126 \<le> e" "e \<le> 971"
  shows "10 powi (EstimatePower e - 1) \<le> (2 :: real) powi (e + 52)" "(2 :: real) powi (e + 53) < 10 powi (EstimatePower e + 1)"
    "\<bar>EstimatePower e\<bar> \<le> 324"
proof -
  define n k y where "n = e + 52" and "k = EstimatePower e" and "y = estimate n"
  have n: "\<bar>n\<bar> \<le> 1074" using assms by (simp add: n_def)
  have k: "k = \<lceil>y\<rceil>" by (simp add: k_def y_def n_def EstimatePower_eq)
  then have ky: "of_int k - 1 < y" "y \<le> of_int k" by linarith+
  have err: "\<bar>y - of_int n * (30102999566398114 / 10 ^ 17)\<bar> \<le> 1 / 10 ^ 9" using estimate_error [of n] n by (simp add: y_def)
  let ?N = "of_int n :: rat" and ?K = "of_int k :: rat"
  have up: "0 < n \<Longrightarrow> y < ?N * (146 / 485)" "n < 0 \<Longrightarrow> y < ?N * (643 / 2136)"
  proof -
    assume "0 < n"
    then have "1 \<le> ?N" by linarith
    then show "y < ?N * (146 / 485)" using err by (simp add: abs_le_iff field_simps)
  next
    assume "n < 0"
    then have "?N \<le> -1" by linarith
    then show "y < ?N * (643 / 2136)" using err by (simp add: abs_le_iff field_simps)
  qed
  have lo: "of_int (n * 30102999566398114 - 10 ^ 8) \<le> (of_int (k * 10 ^ 17) :: rat)"
    using err ky(2) by (simp add: abs_le_iff field_simps)
  have hi: "of_int (k * 10 ^ 17) \<le> (of_int (n * 30102999566398114 + 10 ^ 17 + 10 ^ 8) :: rat)"
    using err ky(1) by (simp add: abs_le_iff field_simps)
  have ib: "n * 30102999566398114 - 10 ^ 8 \<le> k * 10 ^ 17" "k * 10 ^ 17 \<le> n * 30102999566398114 + 10 ^ 17 + 10 ^ 8"
    using lo hi by (simp_all only: of_int_le_iff)
  then show "\<bar>EstimatePower e\<bar> \<le> 324" unfolding k_def [symmetric] using n by (simp add: abs_le_iff)
  have "of_int (k - 1) \<le> of_int n * log 10 2"
  proof (cases n "0 :: int" rule: linorder_cases)
    case greater
    then have "of_int (485 * (k - 1)) < (of_int (146 * n) :: rat)" using up(1) ky(1) by (simp add: field_simps)
    then have "2136 * (k - 1) \<le> 643 * n" using no_fraction_between(1) [of n "k - 1"] greater n by linarith
    then have "of_int (2136 * (k - 1)) \<le> (of_int (643 * n) :: real)" by (simp only: of_int_le_iff)
    then have "of_int (k - 1) \<le> of_int n * (643 / 2136 :: real)" by simp
    also have "\<dots> \<le> of_int n * log 10 2" using greater log_bracket(1) by (intro mult_left_mono) auto
    finally show ?thesis .
  next
    case equal
    then have "?K - 1 < 0" using estimate_zero ky(1) by (simp add: y_def)
    then show ?thesis using equal by simp
  next
    case less
    then have "of_int (2136 * (k - 1)) < (of_int (643 * n) :: rat)" using up(2) ky(1) by (simp add: field_simps)
    then have "485 * (k - 1) \<le> 146 * n" using no_fraction_between(2) [of n "k - 1"] less n by linarith
    then have "of_int (485 * (k - 1)) \<le> (of_int (146 * n) :: real)" by (simp only: of_int_le_iff)
    then have "of_int (k - 1) \<le> of_int n * (146 / 485 :: real)" by simp
    also have "\<dots> \<le> of_int n * log 10 2" using less log_bracket(2) by (intro mult_left_mono_neg) auto
    finally show ?thesis .
  qed
  then show "10 powi (EstimatePower e - 1) \<le> (2 :: real) powi (e + 52)"
    unfolding k_def [symmetric] n_def [symmetric] by (simp only: powi_le_iff)
  have "of_int (n + 1) * log 10 2 < (of_int (k + 1) :: real)"
  proof (cases "0 \<le> n + 1")
    case True
    then have "of_int (n + 1) * log 10 2 \<le> of_int (n + 1) * (146 / 485 :: real)"
      using log_bracket(2) by (intro mult_left_mono) auto
    moreover have "of_int (146 * (n + 1)) < (of_int (485 * (k + 1)) :: real)"
      unfolding of_int_less_iff using ib(1) n by (simp add: abs_le_iff)
    ultimately show ?thesis by simp
  next
    case False
    then have "of_int (n + 1) * log 10 2 \<le> of_int (n + 1) * (643 / 2136 :: real)"
      using log_bracket(1) by (intro mult_left_mono_neg) auto
    moreover have "of_int (643 * (n + 1)) < (of_int (2136 * (k + 1)) :: real)"
      unfolding of_int_less_iff using ib(1) n by (simp add: abs_le_iff)
    ultimately show ?thesis by simp
  qed
  then show "(2 :: real) powi (e + 53) < 10 powi (EstimatePower e + 1)"
    using powi_less_iff [of "n + 1" "k + 1"] by (simp add: k_def n_def algebra_simps)
qed

text \<open>
  The estimate of the decimal exponent.  For every exponent \<open>e\<close> of a double (normalized, so that
  \<open>2 ^ (e + 52) \<le> v < 2 ^ (e + 53)\<close>), the double-precision computation of \<^verbatim>\<open>EstimatePower\<close>, rounding
  errors included, returns a \<open>k\<close> with \<open>10 ^ (k - 1) \<le> v < 10 ^ (k + 1)\<close>: it never overshoots, and it
  undershoots by at most one.
\<close>

theorem EstimatePower_bounds:
  assumes "-1126 \<le> e" "e \<le> 971" "2 powi (e + 52) \<le> v" "v < 2 powi (e + 53)"
  shows "10 powi (EstimatePower e - 1) \<le> v \<and> v < (10 powi (EstimatePower e + 1) :: real)"
  using EstimatePower_correct [OF assms(1,2)] assms(3,4) by linarith

theorem EstimatePower_bounds_witness:
  "10 powi (EstimatePower (-52) - 1) \<le> (3 / 2 :: real) \<and> 3 / 2 < (10 powi (EstimatePower (-52) + 1) :: real)"
  by (rule EstimatePower_bounds) simp_all

end
