(* ===== verification/Bignum_Dtoa.thy ===== *)
theory Bignum_Dtoa
  imports Bignum_Power Bignum_Divide Estimate_Power "HOL-Library.Monad_Syntax"
begin

text \<open>
  The exact conversion of doubles to decimal digits of \<^verbatim>\<open>src/bignum-dtoa.cc\<close>, in its three modes.
  A double is its bit pattern, the four bignums are explicit state, and the output buffer is a list
  of character codes of the length the caller provides: a write outside of it, a failing assertion
  and an exhausted bignum are \<open>None\<close>.
\<close>

section \<open>The program\<close>

datatype dtoa_mode = BIGNUM_DTOA_SHORTEST | BIGNUM_DTOA_FIXED | BIGNUM_DTOA_PRECISION

type_synonym ratio = "bignum \<times> bignum \<times> bignum \<times> bignum"

definition Times10 :: "bignum \<Rightarrow> bignum option" where
  "Times10 b = MultiplyByUInt32 b 10"

definition Equal :: "bignum \<Rightarrow> bignum \<Rightarrow> bool" where
  "Equal a b \<longleftrightarrow> Compare a b = 0"

definition Less :: "bignum \<Rightarrow> bignum \<Rightarrow> bool" where
  "Less a b \<longleftrightarrow> Compare a b < 0"

definition NormalizedExponent :: "64 word \<Rightarrow> int \<Rightarrow> int option" where
  "NormalizedExponent significand e = map_option snd (shift_until kHiddenBit 1 significand e)"

definition buffer_put :: "nat list \<Rightarrow> nat \<Rightarrow> nat \<Rightarrow> nat list option" where
  "buffer_put buffer i c = (if i < length buffer then Some (buffer[i := c]) else None)"

definition buffer_get :: "nat list \<Rightarrow> nat \<Rightarrow> nat option" where
  "buffer_get buffer i = (if i < length buffer then Some (buffer ! i) else None)"

subsection \<open>Start values\<close>

definition InitialScaledStartValuesPositiveExponent :: "64 word \<Rightarrow> int \<Rightarrow> bool \<Rightarrow> ratio \<Rightarrow> ratio option" where
  "InitialScaledStartValuesPositiveExponent v estimated_power need_boundary_deltas s =
     (case s of (numerator, denominator, delta_minus, delta_plus) \<Rightarrow>
      if estimated_power < 0 then None
      else do {
        numerator \<leftarrow> AssignUInt64 numerator (unat (Significand v));
        numerator \<leftarrow> ShiftLeft numerator (nat (Exponent v));
        denominator \<leftarrow> AssignPowerUInt16 denominator 10 (nat estimated_power);
        if \<not> need_boundary_deltas then Some (numerator, denominator, delta_minus, delta_plus)
        else do {
          denominator \<leftarrow> ShiftLeft denominator 1;
          numerator \<leftarrow> ShiftLeft numerator 1;
          delta_plus \<leftarrow> AssignUInt16 delta_plus 1;
          delta_plus \<leftarrow> ShiftLeft delta_plus (nat (Exponent v));
          delta_minus \<leftarrow> AssignUInt16 delta_minus 1;
          delta_minus \<leftarrow> ShiftLeft delta_minus (nat (Exponent v));
          if v AND kSignificandMask = 0 then do {
            denominator \<leftarrow> ShiftLeft denominator 1;
            numerator \<leftarrow> ShiftLeft numerator 1;
            delta_plus \<leftarrow> ShiftLeft delta_plus 1;
            Some (numerator, denominator, delta_minus, delta_plus)
          }
          else Some (numerator, denominator, delta_minus, delta_plus)
        }
      })"

definition InitialScaledStartValuesNegativeExponentPositivePower :: "64 word \<Rightarrow> int \<Rightarrow> bool \<Rightarrow> ratio \<Rightarrow> ratio option" where
  "InitialScaledStartValuesNegativeExponentPositivePower v estimated_power need_boundary_deltas s =
     (case s of (numerator, denominator, delta_minus, delta_plus) \<Rightarrow> do {
        numerator \<leftarrow> AssignUInt64 numerator (unat (Significand v));
        denominator \<leftarrow> AssignPowerUInt16 denominator 10 (nat estimated_power);
        denominator \<leftarrow> ShiftLeft denominator (nat (- Exponent v));
        if \<not> need_boundary_deltas then Some (numerator, denominator, delta_minus, delta_plus)
        else do {
          denominator \<leftarrow> ShiftLeft denominator 1;
          numerator \<leftarrow> ShiftLeft numerator 1;
          delta_plus \<leftarrow> AssignUInt16 delta_plus 1;
          delta_minus \<leftarrow> AssignUInt16 delta_minus 1;
          if v AND kSignificandMask = 0 then do {
            denominator \<leftarrow> ShiftLeft denominator 1;
            numerator \<leftarrow> ShiftLeft numerator 1;
            delta_plus \<leftarrow> ShiftLeft delta_plus 1;
            Some (numerator, denominator, delta_minus, delta_plus)
          }
          else Some (numerator, denominator, delta_minus, delta_plus)
        }
      })"

definition InitialScaledStartValuesNegativeExponentNegativePower :: "64 word \<Rightarrow> int \<Rightarrow> bool \<Rightarrow> ratio \<Rightarrow> ratio option" where
  "InitialScaledStartValuesNegativeExponentNegativePower v estimated_power need_boundary_deltas s =
     (case s of (numerator, denominator, delta_minus, delta_plus) \<Rightarrow> do {
        power_ten \<leftarrow> AssignPowerUInt16 numerator 10 (nat (- estimated_power));
        let (delta_plus, delta_minus) =
              (if need_boundary_deltas then (AssignBignum delta_plus power_ten, AssignBignum delta_minus power_ten)
               else (delta_plus, delta_minus));
        numerator \<leftarrow> MultiplyByUInt64 power_ten (unat (Significand v));
        denominator \<leftarrow> AssignUInt16 denominator 1;
        denominator \<leftarrow> ShiftLeft denominator (nat (- Exponent v));
        if \<not> need_boundary_deltas then Some (numerator, denominator, delta_minus, delta_plus)
        else do {
          numerator \<leftarrow> ShiftLeft numerator 1;
          denominator \<leftarrow> ShiftLeft denominator 1;
          if v AND kSignificandMask = 0 \<and> v AND kExponentMask \<noteq> 0x0010000000000000 then do {
            numerator \<leftarrow> ShiftLeft numerator 1;
            denominator \<leftarrow> ShiftLeft denominator 1;
            delta_plus \<leftarrow> ShiftLeft delta_plus 1;
            Some (numerator, denominator, delta_minus, delta_plus)
          }
          else Some (numerator, denominator, delta_minus, delta_plus)
        }
      })"

definition InitialScaledStartValues :: "64 word \<Rightarrow> int \<Rightarrow> bool \<Rightarrow> ratio \<Rightarrow> ratio option" where
  "InitialScaledStartValues v estimated_power need_boundary_deltas s =
     (if Exponent v \<ge> 0 then
        InitialScaledStartValuesPositiveExponent v estimated_power need_boundary_deltas s
      else if estimated_power \<ge> 0 then
        InitialScaledStartValuesNegativeExponentPositivePower v estimated_power need_boundary_deltas s
      else
        InitialScaledStartValuesNegativeExponentNegativePower v estimated_power need_boundary_deltas s)"

definition FixupMultiply10 :: "int \<Rightarrow> bool \<Rightarrow> ratio \<Rightarrow> (int \<times> ratio) option" where
  "FixupMultiply10 estimated_power is_even s =
     (case s of (numerator, denominator, delta_minus, delta_plus) \<Rightarrow>
      let in_range = (if is_even then PlusCompare numerator delta_plus denominator \<ge> 0
                      else PlusCompare numerator delta_plus denominator > 0)
      in if in_range then Some (estimated_power + 1, numerator, denominator, delta_minus, delta_plus)
      else do {
        numerator \<leftarrow> Times10 numerator;
        if Equal delta_minus delta_plus then do {
          delta_minus \<leftarrow> Times10 delta_minus;
          let delta_plus = AssignBignum delta_plus delta_minus;
          Some (estimated_power, numerator, denominator, delta_minus, delta_plus)
        }
        else do {
          delta_minus \<leftarrow> Times10 delta_minus;
          delta_plus \<leftarrow> Times10 delta_plus;
          Some (estimated_power, numerator, denominator, delta_minus, delta_plus)
        }
      })"

subsection \<open>Digit generation\<close>

text \<open>Rounding the last digit up asserts that it is not nine.\<close>

definition round_up :: "nat list \<Rightarrow> nat \<Rightarrow> (nat list \<times> nat) option" where
  "round_up buffer n = do {
     c \<leftarrow> buffer_get buffer (n - 1);
     if c = 57 then None else do { buffer \<leftarrow> buffer_put buffer (n - 1) (c + 1); Some (buffer, n) }
   }"

text \<open>
  The loop of \<open>GenerateShortestDigits\<close>.  The pointer \<open>delta_plus\<close> may have been set to the object of
  \<open>delta_minus\<close>: then it is \<open>None\<close>, and the loop multiplies the one object once.
\<close>

partial_function (option) shortest_loop ::
  "bool \<Rightarrow> bignum \<Rightarrow> bignum \<Rightarrow> bignum \<Rightarrow> bignum option \<Rightarrow> nat list \<Rightarrow> nat \<Rightarrow> (nat list \<times> nat) option" where
  "shortest_loop is_even numerator denominator delta_minus delta_plus buffer n = do {
     (numerator, digit) \<leftarrow> DivideModuloIntBignum numerator denominator;
     if digit > 9 then None else do {
       buffer \<leftarrow> buffer_put buffer n (digit + 48);
       let in_delta_room_minus = (if is_even then LessEqual numerator delta_minus else Less numerator delta_minus);
       let plus = (case delta_plus of None \<Rightarrow> delta_minus | Some b \<Rightarrow> b);
       let in_delta_room_plus = (if is_even then PlusCompare numerator plus denominator \<ge> 0
                                 else PlusCompare numerator plus denominator > 0);
       if \<not> in_delta_room_minus \<and> \<not> in_delta_room_plus then do {
         numerator \<leftarrow> Times10 numerator;
         delta_minus \<leftarrow> Times10 delta_minus;
         delta_plus \<leftarrow> (case delta_plus of None \<Rightarrow> Some None | Some b \<Rightarrow> map_option Some (Times10 b));
         shortest_loop is_even numerator denominator delta_minus delta_plus buffer (n + 1)
       }
       else if in_delta_room_minus \<and> in_delta_room_plus then
         (let compare = PlusCompare numerator numerator denominator in
          if compare < 0 then Some (buffer, n + 1)
          else if compare > 0 then round_up buffer (n + 1)
          else if (buffer ! n - 48) mod 2 = 0 then Some (buffer, n + 1)
          else round_up buffer (n + 1))
       else if in_delta_room_minus then Some (buffer, n + 1)
       else round_up buffer (n + 1)
     }
   }"

declare shortest_loop.simps [code]

definition GenerateShortestDigits :: "ratio \<Rightarrow> bool \<Rightarrow> nat list \<Rightarrow> (nat list \<times> nat) option" where
  "GenerateShortestDigits s is_even buffer =
     (case s of (numerator, denominator, delta_minus, delta_plus) \<Rightarrow>
        shortest_loop is_even numerator denominator delta_minus
          (if Equal delta_minus delta_plus then None else Some delta_plus) buffer 0)"

text \<open>The three loops of \<open>GenerateCountedDigits\<close>; \<open>count = 0\<close> would write before the buffer.\<close>

fun counted_digits :: "nat \<Rightarrow> nat \<Rightarrow> bignum \<Rightarrow> bignum \<Rightarrow> nat list \<Rightarrow> (bignum \<times> nat list) option" where
  "counted_digits 0 i numerator denominator buffer = Some (numerator, buffer)"
| "counted_digits (Suc m) i numerator denominator buffer = do {
     (numerator, digit) \<leftarrow> DivideModuloIntBignum numerator denominator;
     if digit > 9 then None else do {
       buffer \<leftarrow> buffer_put buffer i (digit + 48);
       numerator \<leftarrow> Times10 numerator;
       counted_digits m (i + 1) numerator denominator buffer
     }
   }"

fun propagate_carry :: "nat \<Rightarrow> nat list \<Rightarrow> nat list" where
  "propagate_carry 0 buffer = buffer"
| "propagate_carry (Suc i) buffer =
     (if buffer ! Suc i \<noteq> 48 + 10 then buffer
      else propagate_carry i (buffer[Suc i := 48, i := buffer ! i + 1]))"

definition GenerateCountedDigits :: "nat \<Rightarrow> int \<Rightarrow> bignum \<Rightarrow> bignum \<Rightarrow> nat list \<Rightarrow> (nat list \<times> nat \<times> int) option" where
  "GenerateCountedDigits count decimal_point numerator denominator buffer =
     (if count = 0 then None else do {
        (numerator, buffer) \<leftarrow> counted_digits (count - 1) 0 numerator denominator buffer;
        (numerator, digit) \<leftarrow> DivideModuloIntBignum numerator denominator;
        let digit = (if PlusCompare numerator numerator denominator \<ge> 0 then digit + 1 else digit);
        buffer \<leftarrow> buffer_put buffer (count - 1) (digit + 48);
        let buffer = propagate_carry (count - 1) buffer;
        if buffer ! 0 = 48 + 10 then Some (buffer[0 := 49], count, decimal_point + 1)
        else Some (buffer, count, decimal_point)
      })"

definition BignumToFixed :: "int \<Rightarrow> int \<Rightarrow> bignum \<Rightarrow> bignum \<Rightarrow> nat list \<Rightarrow> (nat list \<times> nat \<times> int) option" where
  "BignumToFixed requested_digits decimal_point numerator denominator buffer =
     (if - decimal_point > requested_digits then Some (buffer, 0, - requested_digits)
      else if - decimal_point = requested_digits then do {
        denominator \<leftarrow> Times10 denominator;
        if PlusCompare numerator numerator denominator \<ge> 0 then do {
          buffer \<leftarrow> buffer_put buffer 0 49;
          Some (buffer, 1, decimal_point + 1)
        }
        else Some (buffer, 0, decimal_point)
      }
      else GenerateCountedDigits (nat (decimal_point + requested_digits)) decimal_point numerator denominator buffer)"

definition BignumDtoa :: "64 word \<Rightarrow> dtoa_mode \<Rightarrow> int \<Rightarrow> nat list \<Rightarrow> (nat list \<times> nat \<times> int) option" where
  "BignumDtoa v mode requested_digits buffer = do {
     let is_even = (Significand v AND 1 = 0);
     normalized_exponent \<leftarrow> NormalizedExponent (Significand v) (Exponent v);
     let estimated_power = EstimatePower normalized_exponent;
     if mode = BIGNUM_DTOA_FIXED \<and> - estimated_power - 1 > requested_digits then do {
       buffer \<leftarrow> buffer_put buffer 0 0;
       Some (buffer, 0, - requested_digits)
     }
     else do {
       s \<leftarrow> InitialScaledStartValues v estimated_power (mode = BIGNUM_DTOA_SHORTEST)
             (Bignum_new, Bignum_new, Bignum_new, Bignum_new);
       (decimal_point, s) \<leftarrow> FixupMultiply10 estimated_power is_even s;
       (buffer, n, decimal_point) \<leftarrow>
         (case mode of
            BIGNUM_DTOA_SHORTEST \<Rightarrow>
              map_option (\<lambda>(buffer, n). (buffer, n, decimal_point)) (GenerateShortestDigits s is_even buffer)
          | BIGNUM_DTOA_FIXED \<Rightarrow> BignumToFixed requested_digits decimal_point (fst s) (fst (snd s)) buffer
          | BIGNUM_DTOA_PRECISION \<Rightarrow>
              GenerateCountedDigits (nat requested_digits) decimal_point (fst s) (fst (snd s)) buffer);
       buffer \<leftarrow> buffer_put buffer n 0;
       Some (buffer, n, decimal_point)
     }
   }"

end
