(* ===== verification/Dtoa_Digits.thy ===== *)
theory Dtoa_Digits
  imports Bignum_Dtoa
begin

text \<open>
  Digit generation.  The interface \<open>scaled_numbers\<close> states what the digit generator relies on;
  the bignums provide it below \<open>kLimit\<close>, \<open>2 ^ 2400\<close>.  The loops are then followed on the numbers the bignums
  stand for.
\<close>

section \<open>What the generator needs of its numbers\<close>

locale scaled_numbers =
  fixes num :: "'b \<Rightarrow> nat" and good :: "'b \<Rightarrow> bool" and limit :: nat
    and times10 :: "'b \<Rightarrow> 'b option"
    and divide :: "'b \<Rightarrow> 'b \<Rightarrow> ('b \<times> nat) option"
    and compare :: "'b \<Rightarrow> 'b \<Rightarrow> int"
    and plus_compare :: "'b \<Rightarrow> 'b \<Rightarrow> 'b \<Rightarrow> int"
  assumes times10: "good b \<Longrightarrow> 10 * num b < limit \<Longrightarrow> \<exists>c. times10 b = Some c \<and> good c \<and> num c = 10 * num b"
    and divide: "good b \<Longrightarrow> good d \<Longrightarrow> 0 < num d \<Longrightarrow> num b < limit \<Longrightarrow> num b div num d < 2 ^ 16 \<Longrightarrow>
      \<exists>c. divide b d = Some (c, num b div num d) \<and> good c \<and> num c = num b mod num d"
    and compare: "good a \<Longrightarrow> good b \<Longrightarrow> compare a b = sgn (int (num a) - int (num b))"
    and plus_compare: "good a \<Longrightarrow> good b \<Longrightarrow> good c \<Longrightarrow> plus_compare a b c = sgn (int (num a + num b) - int (num c))"
begin

lemma compare_iff:
  assumes "good a" "good b"
  shows "compare a b \<le> 0 \<longleftrightarrow> num a \<le> num b" "compare a b < 0 \<longleftrightarrow> num a < num b" "compare a b = 0 \<longleftrightarrow> num a = num b"
  using compare [OF assms] by (auto simp: sgn_if)

lemma plus_compare_iff:
  assumes "good a" "good b" "good c"
  shows "plus_compare a b c \<ge> 0 \<longleftrightarrow> num c \<le> num a + num b" "plus_compare a b c > 0 \<longleftrightarrow> num c < num a + num b"
    "plus_compare a b c < 0 \<longleftrightarrow> num a + num b < num c" "plus_compare a b c = 0 \<longleftrightarrow> num a + num b = num c"
  using plus_compare [OF assms] by (auto simp: sgn_if)

text \<open>One digit: the quotient is a decimal digit, and the scaled remainder is again below ten.\<close>

lemma digit_divide:
  assumes "good b" "good d" "num b < 10 * num d" "10 * num d \<le> limit"
  obtains c where "divide b d = Some (c, num b div num d)" "num b div num d \<le> 9" "good c" "num c = num b mod num d"
proof -
  have d: "0 < num d" using assms(3) by (cases "num d") auto
  then have "num b div num d < 10" using assms(3) by (simp add: less_mult_imp_div_less)
  then show ?thesis using divide [OF assms(1,2) d] assms(3,4) that by fastforce
qed

lemma digit_scale:
  assumes "good c" "num c < num d" "10 * num d \<le> limit"
  obtains c' where "times10 c = Some c'" "good c'" "num c' = 10 * num c" "num c' < 10 * num d"
  using times10 [OF assms(1)] assms(2,3) that by fastforce

end

definition kLimit :: nat where "kLimit = 2 ^ 2400"

lemma small_bignum:
  assumes "bn_inv b" "bn_value b < kLimit"
  shows "mantissa b < kLimit" "BigitLength b \<le> 86"
proof -
  have "mantissa b \<le> bn_value b" by (simp add: bn_value_def)
  then show "mantissa b < kLimit" using assms(2) by linarith
  show "BigitLength b \<le> 86"
  proof (cases "used_digits b = 0")
    case True
    then show ?thesis using assms(1) by (simp add: BigitLength_def bn_inv_def)
  next
    case False
    have "BIGIT ^ 86 = 2 ^ (28 * 86)" unfolding BIGIT_def by (rule power_mult [symmetric])
    moreover have "kLimit \<le> 2 ^ (28 * 86)" unfolding kLimit_def by (rule power_increasing) simp_all
    ultimately have "BIGIT ^ (BigitLength b - 1) < BIGIT ^ 86"
      using BigitLength_bounds(2) [OF assms(1) False] assms(2) by linarith
    then show ?thesis by (simp add: power_BIGIT_le)
  qed
qed

lemma below_capacity: "n < 2 ^ 3000 \<Longrightarrow> n < BIGIT ^ kBigitCapacity"
proof -
  assume "n < 2 ^ 3000"
  moreover have "BIGIT ^ kBigitCapacity = 2 ^ (28 * 128)" unfolding BIGIT_def kBigitCapacity_def by (rule power_mult [symmetric])
  moreover have "(2 :: nat) ^ 3000 \<le> 2 ^ (28 * 128)" by (rule power_increasing) simp_all
  ultimately show ?thesis by linarith
qed

lemma kLimit_capacity: "10 * kLimit < BIGIT ^ kBigitCapacity"
proof -
  have "10 * kLimit \<le> 2 ^ 4 * 2 ^ 2400" unfolding kLimit_def by (rule mult_le_mono1) simp
  also have "\<dots> < 2 ^ 3000" unfolding power_add [symmetric] by (rule power_strict_increasing) simp_all
  finally show ?thesis by (rule below_capacity)
qed

interpretation bn: scaled_numbers bn_value bn_inv kLimit Times10 DivideModuloIntBignum Compare PlusCompare
proof
  fix b assume b: "bn_inv b" "10 * bn_value b < kLimit"
  then have "mantissa b * 10 < BIGIT ^ kBigitCapacity"
    using small_bignum(1) [of b] kLimit_capacity by linarith
  moreover have "(10 :: nat) < CHUNK" by (simp add: CHUNK_def)
  ultimately show "\<exists>c. Times10 b = Some c \<and> bn_inv c \<and> bn_value c = 10 * bn_value b"
    using MultiplyByUInt32_ok [OF b(1), of 10] unfolding Times10_def
    by (metis bn_value_def mult.assoc mult.commute zero_neq_numeral)
next
  fix b d assume a: "bn_inv b" "bn_inv d" "0 < bn_value d" "bn_value b < kLimit" "bn_value b div bn_value d < 2 ^ 16"
  have "used_digits b + (exponent b - exponent d) \<le> kBigitCapacity"
    using small_bignum(2) [OF a(1,4)] by (simp add: BigitLength_def kBigitCapacity_def)
  moreover have "used_digits d \<noteq> 0" using a(3) bn_value_zero [OF a(2)] by simp
  ultimately show "\<exists>c. DivideModuloIntBignum b d = Some (c, bn_value b div bn_value d) \<and> bn_inv c
      \<and> bn_value c = bn_value b mod bn_value d"
    using DivideModuloIntBignum_ok [OF a(1,2) _ a(5)] by blast
qed (rule compare_correct PlusCompare_ok; assumption)+

section \<open>Decimals in an interval\<close>

text \<open>
  \<open>N / D\<close> is the number to print, \<open>M / D\<close> and \<open>P / D\<close> are the distances to its boundaries; the
  boundaries themselves count for an even significand.  \<open>in_room\<close> says that the multiple \<open>X\<close> of
  the current unit lies between them.
\<close>

definition in_room :: "bool \<Rightarrow> int \<Rightarrow> int \<Rightarrow> int \<Rightarrow> int \<Rightarrow> int \<Rightarrow> bool" where
  "in_room ev N D M P X \<longleftrightarrow>
     (if ev then N - M \<le> X * D \<and> X * D \<le> N + P else N - M < X * D \<and> X * D < N + P)"

fun dec :: "nat list \<Rightarrow> nat" where
  "dec [] = 0"
| "dec (d # ds) = d * 10 ^ length ds + dec ds"

text \<open>The digits are in the interval, as close as any decimal with this unit, and no coarser unit will do.\<close>

definition shortest_digits :: "bool \<Rightarrow> int \<Rightarrow> int \<Rightarrow> int \<Rightarrow> int \<Rightarrow> nat list \<Rightarrow> bool" where
  "shortest_digits ev N D M P ds \<longleftrightarrow>
     (let U = 10 ^ (length ds - 1) in
      ds \<noteq> [] \<and> (\<forall>d \<in> set ds. d \<le> 9) \<and> in_room ev (N * U) D (M * U) (P * U) (int (dec ds))
      \<and> (\<forall>X. in_room ev (N * U) D (M * U) (P * U) X \<longrightarrow> \<bar>int (dec ds) * D - N * U\<bar> \<le> \<bar>X * D - N * U\<bar>)
      \<and> (2 \<le> length ds \<longrightarrow> (\<forall>Y. \<not> in_room ev (N * U) D (M * U) (P * U) (10 * Y))))"

lemma in_room_shift: "in_room ev (q * D + r) D M P (q + X) \<longleftrightarrow> in_room ev r D M P X"
  by (simp add: in_room_def algebra_simps)

lemma in_room_scale: "0 < c \<Longrightarrow> in_room ev (N * c) D (M * c) (P * c) (c * X) \<longleftrightarrow> in_room ev N D M P X"
proof -
  assume c: "0 < c"
  have e: "N * c - M * c = c * (N - M)" "c * X * D = c * (X * D)" "N * c + P * c = c * (N + P)"
    by (simp_all add: algebra_simps)
  show ?thesis unfolding in_room_def e using c by simp
qed

lemma coarse_unit:
  assumes "in_room ev (q * D + r) D M P Y" "0 < D" "0 \<le> r" "r < D"
  shows "if ev then r \<le> M \<or> D \<le> r + P else r < M \<or> D < r + P"
proof -
  have w: "in_room ev r D M P (Y - q)" using assms(1) in_room_shift [of ev q D r M P "Y - q"] by simp
  consider "Y - q \<le> 0" | "1 \<le> Y - q" by linarith
  then show ?thesis
  proof cases
    case 1
    then have "(Y - q) * D \<le> 0" using assms(2) by (simp add: mult_nonpos_nonneg)
    then show ?thesis using w by (simp add: in_room_def split: if_splits)
  next
    case 2
    then have "1 * D \<le> (Y - q) * D" using assms(2) by (intro mult_right_mono) auto
    then show ?thesis using w by (simp add: in_room_def split: if_splits)
  qed
qed

lemma shortest_digits_Cons:
  assumes ds: "shortest_digits ev (10 * r) D (10 * M) (10 * P) ds"
    and "0 < D" "0 \<le> r" "r < D" "q \<le> 9"
    and no: "\<not> (if ev then r \<le> M \<or> D \<le> r + P else r < M \<or> D < r + P)"
  shows "shortest_digits ev (int q * D + r) D M P (q # ds)"
proof -
  obtain n where n: "length ds = Suc n" using ds by (cases ds) (auto simp: shortest_digits_def)
  define U :: int where "U = 10 ^ n"
  have scale: "(int q * D + r) * (10 * U) = int (q * 10 ^ length ds) * D + 10 * r * U"
    by (simp add: n U_def algebra_simps)
  let ?w = "in_room ev ((int q * D + r) * (10 * U)) D (M * (10 * U)) (P * (10 * U))"
  have iff: "?w (int (q * 10 ^ length ds) + X) \<longleftrightarrow> in_room ev (10 * r * U) D (10 * M * U) (10 * P * U) X" for X
    unfolding scale in_room_shift by (simp add: mult.assoc mult.left_commute)
  have ds': "\<forall>d \<in> set ds. d \<le> 9" "in_room ev (10 * r * U) D (10 * M * U) (10 * P * U) (int (dec ds))"
    "\<And>X. in_room ev (10 * r * U) D (10 * M * U) (10 * P * U) X \<Longrightarrow> \<bar>int (dec ds) * D - 10 * r * U\<bar> \<le> \<bar>X * D - 10 * r * U\<bar>"
    "1 \<le> n \<Longrightarrow> \<not> in_room ev (10 * r * U) D (10 * M * U) (10 * P * U) (10 * Y)" for Y
    using ds by (auto simp: shortest_digits_def n U_def Let_def)
  have close: "\<bar>int (dec (q # ds)) * D - (int q * D + r) * (10 * U)\<bar> \<le> \<bar>X * D - (int q * D + r) * (10 * U)\<bar>" if "?w X" for X
  proof -
    have "in_room ev (10 * r * U) D (10 * M * U) (10 * P * U) (X - int (q * 10 ^ length ds))"
      using iff [of "X - int (q * 10 ^ length ds)"] that by simp
    from ds'(3) [OF this] show ?thesis unfolding scale by (simp add: algebra_simps)
  qed
  have coarse: "\<not> ?w (10 * Y)" for Y
  proof (cases "n = 0")
    case True
    have "?w (10 * Y) \<longleftrightarrow> in_room ev (int q * D + r) D M P Y"
      using in_room_scale [of 10 ev "int q * D + r" D M P Y] by (simp add: True U_def)
    then show ?thesis using coarse_unit [of ev "int q" D r M P Y] assms(2-4) no by blast
  next
    case False
    then obtain k where k: "n = Suc k" by (cases n) auto
    have "10 * Y = int (q * 10 ^ length ds) + 10 * (Y - int (q * 10 ^ n))" by (simp add: n)
    then show ?thesis using iff [of "10 * (Y - int (q * 10 ^ n))"] ds'(4) k by (metis One_nat_def Suc_le_mono le0)
  qed
  have "?w (int (dec (q # ds)))" using iff [of "int (dec ds)"] ds'(2) by simp
  then show ?thesis using close coarse ds'(1) assms(5)
    by (simp add: shortest_digits_def n U_def Let_def del: dec.simps)
qed

text \<open>The last digit: rounding to the nearer multiple in the interval, in a halfway case to either.\<close>

lemma shortest_digits_last:
  assumes "0 < D" "0 \<le> r" "r < D" "0 < M" "0 < P" "x = q \<or> x = q + 1" "x \<le> 9"
    and room: "in_room ev (int q * D + r) D M P (int x)"
    and near: "x = q \<Longrightarrow> in_room ev (int q * D + r) D M P (int q + 1) \<Longrightarrow> 2 * r \<le> D"
      "x = q + 1 \<Longrightarrow> in_room ev (int q * D + r) D M P (int q) \<Longrightarrow> D \<le> 2 * r"
  shows "shortest_digits ev (int q * D + r) D M P [x]"
proof -
  have "\<bar>int x * D - (int q * D + r)\<bar> \<le> \<bar>X * D - (int q * D + r)\<bar>" if X: "in_room ev (int q * D + r) D M P X" for X
  proof -
    define Z where "Z = X - int q"
    have e: "X * D - (int q * D + r) = Z * D - r" "in_room ev r D M P Z"
      using X in_room_shift [of ev "int q" D r M P Z] by (simp_all add: Z_def algebra_simps)
    have one: "in_room ev (int q * D + r) D M P (int q + 1) \<longleftrightarrow> in_room ev r D M P 1"
      "in_room ev (int q * D + r) D M P (int q) \<longleftrightarrow> in_room ev r D M P 0"
      using in_room_shift [of ev "int q" D r M P 1] in_room_shift [of ev "int q" D r M P 0] by simp_all
    have lhs: "x = q \<and> \<bar>int x * D - (int q * D + r)\<bar> = r \<or> x = q + 1 \<and> \<bar>int x * D - (int q * D + r)\<bar> = D - r"
      using assms(2,3,6) by (auto simp: algebra_simps)
    consider "Z \<le> 0" | "1 \<le> Z" by linarith
    then show ?thesis
    proof cases
      case 1
      then have zd: "Z * D \<le> 0" using assms(1) by (simp add: mult_nonpos_nonneg)
      then have "in_room ev r D M P 0" using e(2) assms(2,5) by (auto simp: in_room_def split: if_splits)
      moreover have "r \<le> \<bar>Z * D - r\<bar>" using zd by linarith
      ultimately show ?thesis unfolding e(1) using lhs near(2) one by linarith
    next
      case 2
      then have zd: "1 * D \<le> Z * D" using assms(1) by (intro mult_right_mono) auto
      then have "in_room ev r D M P 1" using e(2) assms(3,4) by (auto simp: in_room_def split: if_splits)
      moreover have "D - r \<le> \<bar>Z * D - r\<bar>" using zd by linarith
      ultimately show ?thesis unfolding e(1) using lhs near(1) one by linarith
    qed
  qed
  then show ?thesis using room assms(7) by (simp add: shortest_digits_def)
qed

section \<open>The shortest digits\<close>

text \<open>The digit the loop ends with, on numbers.\<close>

definition last_digit :: "bool \<Rightarrow> nat \<Rightarrow> nat \<Rightarrow> nat \<Rightarrow> nat \<Rightarrow> nat \<Rightarrow> nat" where
  "last_digit ev D M P q r =
     (let minus = (if ev then r \<le> M else r < M); plus = (if ev then D \<le> r + P else D < r + P) in
      if minus \<and> plus then (if 2 * r < D then q else if D < 2 * r then q + 1 else if q mod 2 = 0 then q else q + 1)
      else if minus then q else q + 1)"

lemma round_up_correct: "n < length buffer \<Longrightarrow> buffer ! n = q + 48 \<Longrightarrow> q \<noteq> 9 \<Longrightarrow> round_up buffer (n + 1) = Some (buffer[n := q + 49], n + 1)"
  by (simp add: round_up_def buffer_get_def buffer_put_def add.commute)

lemma last_digit_correct:
  assumes "0 < D" "r < D" "0 < M" "0 < P" "q \<le> 9" "if ev then q * D + r + P < 10 * D else q * D + r + P \<le> 10 * D"
    and stop: "if ev then r \<le> M \<or> D \<le> r + P else r < M \<or> D < r + P"
  shows "shortest_digits ev (int (q * D + r)) (int D) (int M) (int P) [last_digit ev D M P q r]"
    "last_digit ev D M P q r = q + 1 \<Longrightarrow> q \<noteq> 9"
proof -
  define x where "x = last_digit ev D M P q r"
  have minus: "in_room ev (int q * int D + int r) D M P (int q) \<longleftrightarrow> (if ev then r \<le> M else r < M)"
    using in_room_shift [of ev "int q" D r M P 0] assms(4) by (auto simp: in_room_def)
  have plus: "in_room ev (int q * int D + int r) D M P (int q + 1) \<longleftrightarrow> (if ev then D \<le> r + P else D < r + P)"
    using in_room_shift [of ev "int q" D r M P 1] assms(2,3) by (auto simp: in_room_def)
  have x: "x = q \<or> x = q + 1" by (auto simp: x_def last_digit_def Let_def)
  have up: "x = q + 1 \<Longrightarrow> (if ev then D \<le> r + P else D < r + P)"
    using stop unfolding x_def last_digit_def Let_def by (auto split: if_splits)
  have down: "x = q \<Longrightarrow> (if ev then r \<le> M else r < M)"
    unfolding x_def last_digit_def Let_def by (auto split: if_splits)
  show nine: "last_digit ev D M P q r = q + 1 \<Longrightarrow> q \<noteq> 9"
    using up assms(6) unfolding x_def by (auto split: if_splits)
  then have "x \<le> 9" using x assms(5) unfolding x_def by auto
  moreover have "in_room ev (int q * int D + int r) D M P (int x)"
    using x up down minus plus by (auto simp: add.commute)
  moreover have "x = q \<Longrightarrow> in_room ev (int q * int D + int r) D M P (int q + 1) \<Longrightarrow> 2 * int r \<le> int D"
    unfolding plus x_def last_digit_def Let_def by (auto split: if_splits)
  moreover have "x = q + 1 \<Longrightarrow> in_room ev (int q * int D + int r) D M P (int q) \<Longrightarrow> int D \<le> 2 * int r"
    unfolding minus x_def last_digit_def Let_def by (auto split: if_splits)
  ultimately show "shortest_digits ev (int (q * D + r)) (int D) (int M) (int P) [last_digit ev D M P q r]"
    using shortest_digits_last [of "int D" "int r" "int M" "int P" x q ev] x assms(1-4) unfolding x_def by simp
qed

lemma written:
  assumes "n < length buffer"
  shows "take (n + 1) (buffer[n := c]) = take n buffer @ [c]"
  using assms by (simp add: take_Suc_conv_app_nth)

definition plus_of :: "bignum \<Rightarrow> bignum option \<Rightarrow> bignum" where
  "plus_of dm dp = (case dp of None \<Rightarrow> dm | Some b \<Rightarrow> b)"

lemma shortest_step:
  assumes den: "bn_inv den" "10 * bn_value den \<le> kLimit"
    and inv: "bn_inv numr" "bn_inv dm" "bn_inv (plus_of dm dp)" "n < length buffer"
  defines "D \<equiv> bn_value den" and "P \<equiv> bn_value (plus_of dm dp)" and "M \<equiv> bn_value dm"
    and "q \<equiv> bn_value numr div bn_value den" and "r \<equiv> bn_value numr mod bn_value den"
  assumes lt: "bn_value numr < 10 * D" "if ev then bn_value numr + P < 10 * D else bn_value numr + P \<le> 10 * D" "0 < M" "0 < P"
  obtains c where "bn_inv c" "bn_value c = r" "q \<le> 9"
    "shortest_loop ev numr den dm dp buffer n =
       (if if ev then r \<le> M \<or> D \<le> r + P else r < M \<or> D < r + P
        then Some (buffer[n := last_digit ev D M P q r + 48], n + 1)
        else do {
          numr \<leftarrow> Times10 c; dm \<leftarrow> Times10 dm;
          dp \<leftarrow> (case dp of None \<Rightarrow> Some None | Some b \<Rightarrow> map_option Some (Times10 b));
          shortest_loop ev numr den dm dp (buffer[n := q + 48]) (n + 1)
        })"
proof -
  obtain c where c: "DivideModuloIntBignum numr den = Some (c, q)" "q \<le> 9" "bn_inv c" "bn_value c = r"
    using bn.digit_divide [OF inv(1) den(1)] lt(1) den(2) unfolding q_def r_def D_def by blast
  have D: "0 < D" using lt(1) by (cases D) auto
  then have r: "r < D" unfolding r_def D_def by simp
  have N: "bn_value numr = q * D + r" by (simp add: q_def r_def D_def)
  have minus: "(if ev then LessEqual c dm else Less c dm) \<longleftrightarrow> (if ev then r \<le> M else r < M)"
    using bn.compare_iff [OF c(3) inv(2)] c(4) by (simp add: LessEqual_def Less_def M_def)
  have plus: "(if ev then PlusCompare c (plus_of dm dp) den \<ge> 0 else PlusCompare c (plus_of dm dp) den > 0)
      \<longleftrightarrow> (if ev then D \<le> r + P else D < r + P)"
    using bn.plus_compare_iff [OF c(3) inv(3) den(1)] c(4) by (simp add: P_def D_def)
  have twice: "PlusCompare c c den < 0 \<longleftrightarrow> 2 * r < D" "PlusCompare c c den > 0 \<longleftrightarrow> D < 2 * r"
    using bn.plus_compare_iff [OF c(3) c(3) den(1)] c(4) by (simp_all add: D_def mult_2)
  let ?buffer = "buffer[n := q + 48]"
  have up: "round_up ?buffer (n + 1) = Some (buffer[n := q + 1 + 48], n + 1)" if "q \<noteq> 9"
    using round_up_correct [of n ?buffer q] that inv(4) by (simp add: add.commute)
  have "shortest_loop ev numr den dm dp buffer n =
      (let minus = (if ev then r \<le> M else r < M); plus = (if ev then D \<le> r + P else D < r + P) in
       if \<not> minus \<and> \<not> plus then do {
          numr \<leftarrow> Times10 c; dm \<leftarrow> Times10 dm;
          dp \<leftarrow> (case dp of None \<Rightarrow> Some None | Some b \<Rightarrow> map_option Some (Times10 b));
          shortest_loop ev numr den dm dp ?buffer (n + 1)
        }
       else if minus \<and> plus then
         (if 2 * r < D then Some (?buffer, n + 1)
          else if D < 2 * r then round_up ?buffer (n + 1)
          else if q mod 2 = 0 then Some (?buffer, n + 1) else round_up ?buffer (n + 1))
       else if minus then Some (?buffer, n + 1) else round_up ?buffer (n + 1))"
    unfolding minus [symmetric] plus [symmetric] twice [symmetric] shortest_loop.simps [of ev numr]
    using c(1,2) inv(4) by (simp add: buffer_put_def Let_def plus_of_def)
  then show ?thesis
    using that [OF c(3,4,2)] up last_digit_correct(2) [OF D r lt(3,4) c(2)] lt(2) unfolding N last_digit_def
    by (auto simp: Let_def)
qed

lemma times10_plus:
  assumes "bn_inv (plus_of dm dp)" "10 * bn_value (plus_of dm dp) < kLimit" "Times10 dm = Some dm'" "bn_inv dm'"
    "bn_value dm' = 10 * bn_value dm"
  obtains dp' where "(case dp of None \<Rightarrow> Some None | Some b \<Rightarrow> map_option Some (Times10 b)) = Some dp'"
    "bn_inv (plus_of dm' dp')" "bn_value (plus_of dm' dp') = 10 * bn_value (plus_of dm dp)"
proof (cases dp)
  case None
  then show ?thesis using that assms by (simp add: plus_of_def)
next
  case (Some b)
  then obtain b' where "Times10 b = Some b'" "bn_inv b'" "bn_value b' = 10 * bn_value b"
    using bn.times10 assms(1,2) by (auto simp: plus_of_def)
  then show ?thesis using that [of "Some b'"] Some by (simp add: plus_of_def)
qed

text \<open>The loop ends within \<open>k + 1\<close> digits if the interval is wider than the unit of the last of them.\<close>

lemma shortest_loop_correct:
  assumes den: "bn_inv den" "10 * bn_value den \<le> kLimit"
  defines "D \<equiv> bn_value den" and "P \<equiv> \<lambda>dm dp. bn_value (plus_of dm dp)"
  shows "bn_inv numr \<Longrightarrow> bn_inv dm \<Longrightarrow> bn_inv (plus_of dm dp) \<Longrightarrow> bn_value numr < 10 * D \<Longrightarrow>
    (if ev then bn_value numr + P dm dp < 10 * D else bn_value numr + P dm dp \<le> 10 * D) \<Longrightarrow>
    0 < bn_value dm \<Longrightarrow> 0 < P dm dp \<Longrightarrow> D < (bn_value dm + P dm dp) * 10 ^ k \<Longrightarrow> n + k < length buffer \<Longrightarrow>
    \<exists>ds buffer'. shortest_loop ev numr den dm dp buffer n = Some (buffer', n + length ds) \<and> length buffer' = length buffer
      \<and> take (n + length ds) buffer' = take n buffer @ map ((+) 48) ds \<and> length ds \<le> k + 1
      \<and> shortest_digits ev (bn_value numr) D (bn_value dm) (P dm dp) ds"
proof (induction k arbitrary: numr dm dp n buffer rule: less_induct)
  case (less k numr dm dp n buffer)
  define M p q r where "M = bn_value dm" and "p = P dm dp" and "q = bn_value numr div D" and "r = bn_value numr mod D"
  note pre = less.prems [folded M_def p_def]
  have n: "n < length buffer" using pre(9) by simp
  obtain c where c: "bn_inv c" "bn_value c = r" "q \<le> 9"
    "shortest_loop ev numr den dm dp buffer n =
       (if if ev then r \<le> M \<or> D \<le> r + p else r < M \<or> D < r + p
        then Some (buffer[n := last_digit ev D M p q r + 48], n + 1)
        else do {
          numr \<leftarrow> Times10 c; dm \<leftarrow> Times10 dm;
          dp \<leftarrow> (case dp of None \<Rightarrow> Some None | Some b \<Rightarrow> map_option Some (Times10 b));
          shortest_loop ev numr den dm dp (buffer[n := q + 48]) (n + 1)
        })"
    using shortest_step [OF den pre(1-3) n, of ev] pre(4-7) unfolding M_def p_def q_def r_def D_def P_def by blast
  have D: "0 < D" using pre(4) by (cases D) auto
  then have r: "r < D" unfolding r_def by simp
  have N: "bn_value numr = q * D + r" by (simp add: q_def r_def)
  show ?case
  proof (cases "if ev then r \<le> M \<or> D \<le> r + p else r < M \<or> D < r + p")
    case True
    then have "shortest_digits ev (int (q * D + r)) (int D) (int M) (int p) [last_digit ev D M p q r]"
      using last_digit_correct(1) [OF D r pre(6,7) c(3)] pre(5) unfolding N by simp
    moreover have "shortest_loop ev numr den dm dp buffer n = Some (buffer[n := last_digit ev D M p q r + 48], n + 1)"
      unfolding c(4) by (rule if_P [OF True])
    ultimately show ?thesis using written [OF n, of "last_digit ev D M p q r + 48"]
      unfolding N M_def [symmetric] p_def [symmetric]
      by (intro exI [of _ "[last_digit ev D M p q r]"] exI [of _ "buffer[n := last_digit ev D M p q r + 48]"]) simp
  next
    case False
    then have room: "M \<le> r" "r + p \<le> D" "if ev then r + p < D else r + p \<le> D" by (auto split: if_splits)
    have small: "10 * M < kLimit" "10 * p < kLimit"
      using room r pre(6,7) den(2) unfolding D_def by linarith+
    have "D \<ge> M + p" "ev \<Longrightarrow> D > M + p" using False by (auto split: if_splits)
    then have "k \<noteq> 0" using pre(8) by (intro notI) simp
    then obtain j where j: "k = Suc j" by (cases k) auto
    obtain numr' where numr': "Times10 c = Some numr'" "bn_inv numr'" "bn_value numr' = 10 * r" "bn_value numr' < 10 * D"
      using bn.digit_scale [OF c(1), of den] c(2) r den(2) unfolding D_def by metis
    obtain dm' where dm': "Times10 dm = Some dm'" "bn_inv dm'" "bn_value dm' = 10 * M"
      using bn.times10 [OF pre(2)] small(1) unfolding M_def by blast
    obtain dp' where dp': "(case dp of None \<Rightarrow> Some None | Some b \<Rightarrow> map_option Some (Times10 b)) = Some dp'"
      "bn_inv (plus_of dm' dp')" "P dm' dp' = 10 * p"
      using times10_plus [OF pre(3) _ dm'(1,2)] small(2) dm'(3) unfolding M_def p_def P_def by blast
    have "D < (10 * M + 10 * p) * 10 ^ j" using pre(8) unfolding j by (simp add: algebra_simps)
    then obtain ds buffer' where ds: "shortest_loop ev numr' den dm' dp' (buffer[n := q + 48]) (n + 1) = Some (buffer', n + 1 + length ds)"
        "length buffer' = length buffer" "take (n + 1 + length ds) buffer' = take (n + 1) (buffer[n := q + 48]) @ map ((+) 48) ds"
        "length ds \<le> j + 1" "shortest_digits ev (10 * int r) D (10 * int M) (10 * int p) ds"
      using less.IH [of j numr' dm' dp' "n + 1" "buffer[n := q + 48]"] numr'(2-4) dm'(2,3) dp'(2,3) room pre(6,7,9) j
      by (auto split: if_splits)
    have "shortest_digits ev (int (bn_value numr)) D M p (q # ds)"
      unfolding N of_nat_add of_nat_mult
      by (rule shortest_digits_Cons [OF ds(5)]) (use D r c(3) False in \<open>auto split: if_splits\<close>)
    then show ?thesis using c(4) False numr'(1) dm'(1) dp'(1) ds(1-4) j written [OF n, of "q + 48"]
      unfolding M_def [symmetric] p_def [symmetric]
      by (intro exI [of _ "q # ds"] exI [of _ buffer']) (simp add: add.commute)
  qed
qed

section \<open>A given number of digits\<close>

lemma dec_append: "dec (xs @ [x]) = 10 * dec xs + x"
  by (induction xs) auto

lemma dec_bound: "\<forall>d \<in> set ds. d \<le> 9 \<Longrightarrow> dec ds < 10 ^ length ds"
proof (induction ds)
  case (Cons d ds)
  then have "d * 10 ^ length ds \<le> 9 * 10 ^ length ds" "dec ds < 10 ^ length ds" by (auto intro: mult_le_mono1)
  then have "d * 10 ^ length ds + dec ds < 9 * 10 ^ length ds + 10 ^ length ds" by (rule add_le_less_mono)
  then show ?case by simp
qed simp

lemma dec_update: "i < length ds \<Longrightarrow> dec (ds[i := x]) + ds ! i * 10 ^ (length ds - Suc i) = dec ds + x * 10 ^ (length ds - Suc i)"
proof (induction ds arbitrary: i)
  case (Cons d ds)
  then show ?case by (cases i) auto
qed simp

lemma counted_digits_correct:
  assumes den: "bn_inv den" "10 * bn_value den \<le> kLimit"
  defines "D \<equiv> bn_value den"
  shows "bn_inv numr \<Longrightarrow> bn_value numr < 10 * D \<Longrightarrow> i + m \<le> length buffer \<Longrightarrow>
    \<exists>c ds buffer'. counted_digits m i numr den buffer = Some (c, buffer') \<and> bn_inv c \<and> bn_value c < 10 * D
      \<and> length ds = m \<and> (\<forall>d \<in> set ds. d \<le> 9) \<and> length buffer' = length buffer
      \<and> take (i + m) buffer' = take i buffer @ map ((+) 48) ds
      \<and> bn_value numr * 10 ^ m = dec ds * 10 * D + bn_value c"
proof (induction m arbitrary: i numr buffer)
  case 0
  then show ?case by simp
next
  case (Suc m)
  define q r where "q = bn_value numr div D" and "r = bn_value numr mod D"
  obtain c where c: "DivideModuloIntBignum numr den = Some (c, q)" "q \<le> 9" "bn_inv c" "bn_value c = r"
    using bn.digit_divide [OF Suc.prems(1) den(1)] Suc.prems(2) den(2) unfolding q_def r_def D_def by blast
  have "0 < D" using Suc.prems(2) by (cases D) auto
  then have "r < D" by (simp add: r_def)
  then obtain c' where c': "Times10 c = Some c'" "bn_inv c'" "bn_value c' = 10 * r" "bn_value c' < 10 * D"
    using bn.digit_scale [OF c(3), of den] c(4) den(2) unfolding D_def by metis
  have i: "i < length buffer" using Suc.prems(3) by simp
  obtain e ds buffer' where e: "counted_digits m (i + 1) c' den (buffer[i := q + 48]) = Some (e, buffer')" "bn_inv e"
    "bn_value e < 10 * D" "length ds = m" "\<forall>d \<in> set ds. d \<le> 9" "length buffer' = length buffer"
    "take (i + 1 + m) buffer' = take (i + 1) (buffer[i := q + 48]) @ map ((+) 48) ds"
    "bn_value c' * 10 ^ m = dec ds * 10 * D + bn_value e"
    using Suc.IH [of c' "i + 1" "buffer[i := q + 48]"] c'(2,4) Suc.prems(3) by auto
  have "bn_value numr = q * D + r" by (simp add: q_def r_def)
  then have "bn_value numr * 10 ^ Suc m = (q * 10 ^ m) * 10 * D + bn_value c' * 10 ^ m"
    using c'(3) by (simp add: algebra_simps)
  then have "bn_value numr * 10 ^ Suc m = dec (q # ds) * 10 * D + bn_value e" using e(4,8) by (simp add: algebra_simps)
  moreover have "counted_digits (Suc m) i numr den buffer = Some (e, buffer')"
    using c(1,2) c'(1) e(1) i by (simp add: buffer_put_def)
  ultimately show ?case using e(2-7) c(2) written [OF i, of "q + 48"]
    by (intro exI [of _ e] exI [of _ "q # ds"] exI [of _ buffer']) (simp add: add.commute)
qed

lemma propagate_carry_correct:
  "i < length ds \<Longrightarrow> ds ! i \<le> 10 \<Longrightarrow> (\<And>j. j < length ds \<Longrightarrow> j \<noteq> i \<Longrightarrow> ds ! j \<le> 9) \<Longrightarrow>
   \<exists>ds'. propagate_carry i (map ((+) 48) ds @ rest) = map ((+) 48) ds' @ rest \<and> length ds' = length ds
     \<and> dec ds' = dec ds \<and> (\<forall>j < length ds. 0 < j \<longrightarrow> ds' ! j \<le> 9) \<and> ds' ! 0 \<le> 10"
proof (induction i arbitrary: ds)
  case 0
  then show ?case by (intro exI [of _ ds]) simp
next
  case (Suc i)
  have at: "(map ((+) 48) ds @ rest) ! Suc i = 48 + ds ! Suc i" "(map ((+) 48) ds @ rest) ! i = 48 + ds ! i"
    using Suc.prems(1) by (simp_all add: nth_append)
  show ?case
  proof (cases "ds ! Suc i = 10")
    case False
    then have "ds ! Suc i \<le> 9" using Suc.prems(2) by linarith
    then have "\<forall>j < length ds. ds ! j \<le> 9" using Suc.prems(3) by blast
    moreover from this have "ds ! 0 \<le> 10" using Suc.prems(1) by (cases ds) (auto intro: le_SucI)
    ultimately show ?thesis using False at by (intro exI [of _ ds]) simp
  next
    case True
    let ?ds = "ds[Suc i := 0, i := ds ! i + 1]"
    have "dec ?ds = dec ds"
    proof -
      have e: "10 ^ (length ds - Suc i) = 10 * (10 :: nat) ^ (length ds - Suc (Suc i))"
        using Suc.prems(1) by (simp flip: power_Suc add: Suc_diff_Suc)
      show ?thesis
        using dec_update [of "Suc i" ds 0] dec_update [of i "ds[Suc i := 0]" "ds ! i + 1"] Suc.prems(1) True e
        by (simp add: algebra_simps)
    qed
    moreover have "(map ((+) 48) ds @ rest)[Suc i := 48, i := (map ((+) 48) ds @ rest) ! i + 1] = map ((+) 48) ?ds @ rest"
      using Suc.prems(1) by (simp add: list_update_append map_update nth_append)
    ultimately show ?thesis
      using Suc.IH [of ?ds] Suc.prems True at by (auto simp: nth_list_update)
  qed
qed

text \<open>\<open>N / D\<close> in units of the last digit, rounded to nearest with halfway cases up.\<close>

definition rounded :: "nat \<Rightarrow> nat \<Rightarrow> nat" where
  "rounded N D = (2 * N + D) div (2 * D)"

lemma rounded_split: "r < D \<Longrightarrow> rounded (q * D + r) D = (if D \<le> 2 * r then q + 1 else q)"
proof -
  assume "r < D"
  then have "(2 * r + D) div (2 * D) = (if D \<le> 2 * r then 1 else 0)" by (auto intro: div_nat_eqI)
  moreover have eq: "2 * (q * D + r) + D = (2 * r + D) + q * (2 * D)" by simp
  moreover have "((2 * r + D) + q * (2 * D)) div (2 * D) = q + (2 * r + D) div (2 * D)"
    using \<open>r < D\<close> by (intro div_mult_self1) simp
  ultimately show ?thesis unfolding rounded_def eq by simp
qed

lemma rounded_le: "0 < D \<Longrightarrow> N \<le> k * D \<Longrightarrow> rounded N D \<le> k"
proof -
  assume "0 < D" "N \<le> k * D"
  then have "2 * N + D < (k + 1) * (2 * D)" by simp
  then have "rounded N D < k + 1" unfolding rounded_def by (rule less_mult_imp_div_less)
  then show ?thesis by simp
qed

lemma dec_zeros: "dec ds = 0 \<Longrightarrow> ds = replicate (length ds) 0"
  by (induction ds) (auto simp: replicate_append_same)

lemma GenerateCountedDigits_correct:
  assumes den: "bn_inv den" "10 * bn_value den \<le> kLimit" and numr: "bn_inv numr" "bn_value numr < 10 * bn_value den"
    and count: "0 < count" "count \<le> length buffer"
  defines "X \<equiv> rounded (bn_value numr * 10 ^ (count - 1)) (bn_value den)"
  shows "\<exists>ds buffer' dp'. GenerateCountedDigits count dp numr den buffer = Some (buffer', count, dp')
    \<and> length buffer' = length buffer \<and> take count buffer' = map ((+) 48) ds \<and> length ds = count
    \<and> (\<forall>d \<in> set ds. d \<le> 9) \<and> (dp' = dp \<and> dec ds = X \<or> dp' = dp + 1 \<and> 10 * dec ds = X)"
proof -
  let ?D = "bn_value den"
  obtain m where m: "count = Suc m" using count(1) by (cases count) auto
  obtain c ds buffer1 where c: "counted_digits m 0 numr den buffer = Some (c, buffer1)" "bn_inv c" "bn_value c < 10 * ?D"
    "length ds = m" "\<forall>d \<in> set ds. d \<le> 9" "length buffer1 = length buffer" "take m buffer1 = map ((+) 48) ds"
    "bn_value numr * 10 ^ m = dec ds * 10 * ?D + bn_value c"
    using counted_digits_correct [OF den numr, of 0 m buffer] count(2) m by auto
  define q r where "q = bn_value c div ?D" and "r = bn_value c mod ?D"
  obtain e where e: "DivideModuloIntBignum c den = Some (e, q)" "q \<le> 9" "bn_inv e" "bn_value e = r"
    using bn.digit_divide [OF c(2) den(1) c(3) den(2)] unfolding q_def r_def by blast
  have D: "0 < ?D" using numr(2) by (cases ?D) auto
  define x where "x = (if ?D \<le> 2 * r then q + 1 else q)"
  have X: "X = dec (ds @ [x])"
  proof -
    have "bn_value numr * 10 ^ m = (dec ds * 10 + q) * ?D + r" using c(8) by (simp add: q_def r_def algebra_simps)
    then show ?thesis unfolding X_def m using rounded_split [of r ?D "dec ds * 10 + q"] D
      by (simp add: x_def dec_append r_def)
  qed
  have round: "(if PlusCompare e e den \<ge> 0 then q + 1 else q) = x"
    using bn.plus_compare_iff(1) [OF e(3) e(3) den(1)] e(4) by (simp add: x_def mult_2)
  define buffer2 where "buffer2 = buffer1[m := x + 48]"
  have b2: "buffer2 = map ((+) 48) (ds @ [x]) @ drop count buffer2"
  proof -
    have "take count buffer2 = map ((+) 48) (ds @ [x])"
      using written [of m buffer1 "x + 48"] c(6,7) count(2) m by (simp add: buffer2_def add.commute)
    then show ?thesis by (metis append_take_drop_id)
  qed
  have x10: "x \<le> 10" using e(2) by (simp add: x_def)
  have "(ds @ [x]) ! j \<le> 9" if "j < length (ds @ [x])" "j \<noteq> m" for j
    using that c(4,5) by (auto simp: nth_append)
  then obtain ds' where ds': "propagate_carry m buffer2 = map ((+) 48) ds' @ drop count buffer2" "length ds' = count"
    "dec ds' = X" "\<And>j. j < count \<Longrightarrow> 0 < j \<Longrightarrow> ds' ! j \<le> 9" "ds' ! 0 \<le> 10"
    using propagate_carry_correct [of m "ds @ [x]" "drop count buffer2"] b2 X c(4) x10 m by (auto simp: nth_append)
  obtain d tl where dt: "ds' = d # tl" "length tl = m" using ds'(2) m by (cases ds') auto
  have tl9: "\<forall>d \<in> set tl. d \<le> 9"
    using ds'(4) [of "Suc j" for j] dt m by (auto simp: in_set_conv_nth)
  let ?B = "propagate_carry m buffer2"
  have len: "length ?B = length buffer" "?B ! 0 = 48 + d"
    using ds'(1,2) dt count(2) c(6) by (simp_all add: buffer2_def)
  have res: "GenerateCountedDigits count dp numr den buffer =
      (if d = 10 then Some (?B[0 := 49], count, dp + 1) else Some (?B, count, dp))"
    using c(1,6) e(1) round count m len(2) by (simp add: GenerateCountedDigits_def buffer_put_def Let_def buffer2_def)
  show ?thesis
  proof (cases "d = 10")
    case False
    then have "\<forall>d \<in> set ds'. d \<le> 9" using tl9 ds'(5) dt by auto
    then show ?thesis using res False len(1) ds'(1-3) by (intro exI [of _ ds'] exI [of _ ?B]) simp
  next
    case True
    have "X \<le> 10 ^ count"
      unfolding X_def using numr(2) D m by (intro rounded_le) (simp_all add: algebra_simps)
    then have z: "dec tl = 0" "X = 10 ^ count" using ds'(3) dt True m by simp_all
    have "take count (?B[0 := 49]) = map ((+) 48) (1 # tl)" using ds'(1) dt m by simp
    moreover have "10 * dec (1 # tl) = X" using z dt(2) m by simp
    ultimately show ?thesis using res True len(1) dt tl9 m
      by (intro exI [of _ "1 # tl"] exI [of _ "?B[0 := 49]"]) simp
  qed
qed

end
