(* ===== verification/Dtoa_Start.thy ===== *)
theory Dtoa_Start
  imports Dtoa_Digits
begin

text \<open>
  The start values of the conversion: the three routines represent the double, scaled by the
  estimated power of ten, and the distances to its boundaries exactly, and the estimate is right or
  too small by one for every double.
\<close>

section \<open>Operations within the limit\<close>

definition repr :: "bignum \<Rightarrow> nat \<Rightarrow> bool" where
  "repr b n \<longleftrightarrow> bn_inv b \<and> bn_value b = n"

lemma repr_new: "repr Bignum_new 0"
  using bn_inv_new by (simp add: repr_def)

lemma repr_ok: "repr b n \<Longrightarrow> bn_ok b"
  by (simp add: repr_def bn_inv_def)

lemma shift_repr:
  assumes "repr b n" "n < kLimit"
  obtains c where "ShiftLeft b s = Some c" "repr c (n * 2 ^ s)"
proof -
  have "used_digits b < kBigitCapacity"
    using small_bignum(2) [of b] assms by (simp add: repr_def BigitLength_def kBigitCapacity_def)
  then show ?thesis using ShiftLeft_ok [of b s] assms(1) that unfolding repr_def by metis
qed

lemma one_repr:
  assumes "repr b n"
  obtains c where "AssignUInt16 b 1 = Some c" "repr c 1"
  using AssignUInt16_correct [OF repr_ok [OF assms], of 1] that unfolding repr_def by auto

lemma assign64_repr:
  assumes "repr b n" "f < 2 ^ 64"
  obtains c where "AssignUInt64 b f = Some c" "repr c f"
  using AssignUInt64_correct [OF repr_ok [OF assms(1)], of f] assms(2) that unfolding repr_def DOUBLE_CHUNK_def by auto

lemma power_repr:
  assumes "repr b n" "k \<le> 324"
  obtains c where "AssignPowerUInt16 b 10 k = Some c" "repr c (10 ^ k)"
proof -
  have "count_bits 10 = 4" by (simp add: count_bits.simps)
  then have "count_bits 10 * k div 28 + 2 \<le> kBigitCapacity"
    using assms(2) div_le_mono [of "4 * k" "4 * 324" 28] by (simp add: kBigitCapacity_def)
  then show ?thesis using AssignPowerUInt16_ok [OF repr_ok [OF assms(1)], of 10 k] that unfolding repr_def by auto
qed

lemma times64_repr:
  assumes "repr b n" "f < 2 ^ 64" "0 < f" "n * f < kLimit"
  obtains c where "MultiplyByUInt64 b f = Some c" "repr c (n * f)"
proof -
  have "mantissa b \<le> n" using assms(1) by (auto simp: repr_def bn_value_def)
  then have "mantissa b * f \<le> n * f" by (rule mult_le_mono1)
  then have "mantissa b * f < BIGIT ^ kBigitCapacity" using assms(4) kLimit_capacity by linarith
  then obtain c where c: "MultiplyByUInt64 b f = Some c" "bn_inv c" "mantissa c = mantissa b * f" "exponent c = exponent b"
    using MultiplyByUInt64_ok [of b f] assms(1-3) unfolding repr_def DOUBLE_CHUNK_def by auto
  then have "bn_value c = bn_value b * f" by (simp add: bn_value_def)
  then show ?thesis using that c(1,2) assms(1) by (simp add: repr_def)
qed

lemma times10_repr:
  assumes "repr b n" "10 * n < kLimit"
  obtains c where "Times10 b = Some c" "repr c (10 * n)"
  using bn.times10 [of b] assms that unfolding repr_def by auto

lemma assign_repr: "repr b m \<Longrightarrow> repr c n \<Longrightarrow> AssignBignum b c = c"
  using AssignBignum_correct repr_ok by blast

text \<open>Sizes in bits.\<close>

definition fits :: "nat \<Rightarrow> nat \<Rightarrow> bool" where
  "fits m x \<longleftrightarrow> x \<le> 2 ^ m"

lemma fits_mult: "fits m x \<Longrightarrow> fits n y \<Longrightarrow> fits (m + n) (x * y)"
  unfolding fits_def power_add by (rule mult_le_mono)

lemma fits_mono: "fits m x \<Longrightarrow> m \<le> n \<Longrightarrow> fits n x"
  unfolding fits_def by (rule order_trans [OF _ power_increasing]) simp_all

lemma fits_power: "s \<le> m \<Longrightarrow> fits m (2 ^ s)" "k \<le> 324 \<Longrightarrow> fits 1080 (10 ^ k)" "fits 0 1"
proof -
  assume "k \<le> 324"
  then have "(10 :: nat) ^ k \<le> 10 ^ 324" by (rule power_increasing) simp
  also have "\<dots> \<le> 2 ^ 1080" by simp
  finally show "fits 1080 (10 ^ k)" by (simp only: fits_def)
qed (auto simp: fits_def power_increasing)

lemma limit_bound: "fits m x \<Longrightarrow> m < 2400 \<Longrightarrow> x < kLimit"
  unfolding kLimit_def fits_def by (rule le_less_trans [OF _ power_strict_increasing]) simp_all

lemma double_repr:
  assumes "repr b n" "fits m n" "m < 2300"
  obtains c d where "ShiftLeft b 1 = Some c" "repr c (n * 2)" "ShiftLeft c 1 = Some d" "repr d (n * 4)"
proof -
  obtain c where c: "ShiftLeft b 1 = Some c" "repr c (n * 2)"
    using shift_repr [OF assms(1) limit_bound [OF assms(2)], of 1] assms(3) by auto
  have "fits (m + 1) (n * 2)" using assms(2) by (simp add: fits_def)
  then obtain d where "ShiftLeft c 1 = Some d" "repr d (n * 2 * 2 ^ 1)"
    using shift_repr [OF c(2) limit_bound, of "m + 1" 1] assms(3) by auto
  then show ?thesis using that [OF c] by (simp add: mult.commute)
qed

section \<open>Start values\<close>

text \<open>
  Numerator and denominator are \<open>v / 10 ^ k\<close> over a common factor \<open>t\<close>; \<open>A\<close> is one unit in the last
  place of the double.  With deltas, they are half a unit each, the lower one a quarter where the
  lower neighbour is closer.
\<close>

definition start_factor :: "64 word \<Rightarrow> bool \<Rightarrow> nat" where
  "start_factor v need = (if need then (if lower_closer v then 4 else 2) else 1)"

definition start_ok :: "64 word \<Rightarrow> int \<Rightarrow> bool \<Rightarrow> nat \<Rightarrow> nat \<Rightarrow> ratio \<Rightarrow> bool" where
  "start_ok v k need A B s \<longleftrightarrow>
     0 < A \<and> 0 < B \<and> fits 1080 A \<and> fits 2160 B \<and> real A * 10 powi k = real B * 2 powi Exponent v
     \<and> (case s of (numerator, denominator, delta_minus, delta_plus) \<Rightarrow>
        repr numerator (unat (Significand v) * A * start_factor v need) \<and> repr denominator (B * start_factor v need)
        \<and> repr delta_minus (if need then A else 0)
        \<and> repr delta_plus (if need then A * (start_factor v need div 2) else 0))"

lemma start_okI:
  assumes "0 < A" "0 < B" "fits 1080 A" "fits 2160 B" "real A * 10 powi k = real B * 2 powi Exponent v"
    "repr n1 (unat (Significand v) * A)" "repr n2 (unat (Significand v) * A * 2)" "repr n4 (unat (Significand v) * A * 4)"
    "repr d1 B" "repr d2 (B * 2)" "repr d4 (B * 4)" "repr m A" "repr p1 A" "repr p2 (A * 2)"
  shows "start_ok v k need A B
    (if \<not> need then (n1, d1, Bignum_new, Bignum_new) else if lower_closer v then (n4, d4, m, p2) else (n2, d2, m, p1))"
  unfolding start_ok_def using assms repr_new by (auto simp: start_factor_def)

lemma finite_fields:
  assumes "0 < v" "v < kInfinity"
  shows "unat (Significand v) < 2 ^ 53" "0 < unat (Significand v)" "-1074 \<le> Exponent v" "Exponent v \<le> 971"
proof -
  have le: "v \<le> kInfinity" using assms(2) by simp
  show "unat (Significand v) < 2 ^ 53" "0 < unat (Significand v)"
    using Significand_bound [OF le] Significand_pos [OF assms(1) le] by simp_all
  have "unat v div 2 ^ 52 < 2047"
    using assms(2) unat_kInfinity by (intro less_mult_imp_div_less) (simp add: word_less_nat_alt)
  then have "unat v div 2 ^ 52 - 1 \<le> 2045" by linarith
  then show "-1074 \<le> Exponent v" "Exponent v \<le> 971" unfolding Exponent_eq [OF le] by linarith+
qed

lemma PositiveExponent_start:
  assumes v: "0 < v" "v < kInfinity" and e: "0 \<le> Exponent v" and k: "0 \<le> k" "k \<le> 324"
  obtains s A B where "InitialScaledStartValuesPositiveExponent v k need (Bignum_new, Bignum_new, Bignum_new, Bignum_new) = Some s"
    "start_ok v k need A B s"
proof -
  define f ex where "f = unat (Significand v)" and "ex = nat (Exponent v)"
  have f: "f < 2 ^ 64" "fits 53 f" using finite_fields(1) [OF v] by (simp_all add: f_def fits_def)
  have ex: "Exponent v = int ex" "ex \<le> 971" using e finite_fields(4) [OF v] by (simp_all add: ex_def)
  have kn: "nat k \<le> 324" using k by simp
  have A: "fits 971 (2 ^ ex)" using ex(2) by (rule fits_power)
  have B: "fits 1080 (10 ^ nat k)" using kn by (rule fits_power)
  have eq: "real (2 ^ ex) * 10 powi k = real (10 ^ nat k) * 2 powi Exponent v"
    using k(1) ex(1) by (simp add: power_int_def)
  have fA: "fits 1024 (f * 2 ^ ex)" using fits_mult [OF f(2) A] by simp
  obtain n0 where n0: "AssignUInt64 Bignum_new f = Some n0" "repr n0 f" using assign64_repr [OF repr_new f(1)] .
  obtain n1 where n1: "ShiftLeft n0 ex = Some n1" "repr n1 (f * 2 ^ ex)"
    using shift_repr [OF n0(2) limit_bound [OF f(2)]] by auto
  obtain d1 where d1: "AssignPowerUInt16 Bignum_new 10 (nat k) = Some d1" "repr d1 (10 ^ nat k)"
    using power_repr [OF repr_new kn] .
  obtain p0 where p0: "AssignUInt16 Bignum_new 1 = Some p0" "repr p0 1" using one_repr [OF repr_new] .
  obtain p1 where p1: "ShiftLeft p0 ex = Some p1" "repr p1 (2 ^ ex)"
    using shift_repr [OF p0(2) limit_bound [OF fits_power(3)], of ex] by auto
  obtain n2 n3 where n23: "ShiftLeft n1 1 = Some n2" "repr n2 (f * 2 ^ ex * 2)" "ShiftLeft n2 1 = Some n3" "repr n3 (f * 2 ^ ex * 4)"
    using double_repr [OF n1(2) fA] by auto
  obtain d2 d3 where d23: "ShiftLeft d1 1 = Some d2" "repr d2 (10 ^ nat k * 2)" "ShiftLeft d2 1 = Some d3" "repr d3 (10 ^ nat k * 4)"
    using double_repr [OF d1(2) B] by auto
  obtain p2 where p2: "ShiftLeft p1 1 = Some p2" "repr p2 (2 ^ ex * 2)"
    using double_repr [OF p1(2) A] by auto
  have closer: "v AND kSignificandMask = 0 \<longleftrightarrow> lower_closer v"
    using e by (simp add: lower_closer_def kDenormalExponent_def kExponentBias_def)
  define s where "s = (if \<not> need then (n1, d1, Bignum_new, Bignum_new) else if lower_closer v then (n3, d3, p1, p2) else (n2, d2, p1, p1))"
  have "InitialScaledStartValuesPositiveExponent v k need (Bignum_new, Bignum_new, Bignum_new, Bignum_new) = Some s"
    using k(1) n0(1) n1(1) d1(1) p0(1) p1(1) n23(1,3) d23(1,3) p2(1)
    by (simp add: InitialScaledStartValuesPositiveExponent_def s_def closer f_def ex_def)
  moreover have "start_ok v k need (2 ^ ex) (10 ^ nat k) s"
    unfolding s_def using fits_mono [OF A, of 1080] fits_mono [OF B, of 2160] eq n1(2) d1(2) n23(2,4) d23(2,4) p1(2) p2(2)
    by (intro start_okI) (simp_all add: f_def)
  ultimately show ?thesis by (rule that)
qed

lemma PositivePower_start:
  assumes v: "0 < v" "v < kInfinity" and e: "kDenormalExponent < Exponent v" "Exponent v < 0" and k: "0 \<le> k" "k \<le> 324"
  obtains s A B where "InitialScaledStartValuesNegativeExponentPositivePower v k need (Bignum_new, Bignum_new, Bignum_new, Bignum_new) = Some s"
    "start_ok v k need A B s"
proof -
  define f ex where "f = unat (Significand v)" and "ex = nat (- Exponent v)"
  have f: "f < 2 ^ 64" "fits 53 f" using finite_fields(1) [OF v] by (simp_all add: f_def fits_def)
  have ex: "Exponent v = - int ex" "ex \<le> 1074" using e finite_fields(3) [OF v] by (simp_all add: ex_def)
  have kn: "nat k \<le> 324" using k by simp
  have B0: "fits 1080 (10 ^ nat k)" using kn by (rule fits_power)
  have B: "fits 2154 (10 ^ nat k * 2 ^ ex)" using fits_mult [OF B0 fits_power(1) [OF ex(2)]] by simp
  have eq: "real 1 * 10 powi k = real (10 ^ nat k * 2 ^ ex) * 2 powi Exponent v"
    using k(1) ex(1) by (simp add: power_int_def field_simps)
  obtain n1 where n1: "AssignUInt64 Bignum_new f = Some n1" "repr n1 f" using assign64_repr [OF repr_new f(1)] .
  obtain d0 where d0: "AssignPowerUInt16 Bignum_new 10 (nat k) = Some d0" "repr d0 (10 ^ nat k)"
    using power_repr [OF repr_new kn] .
  obtain d1 where d1: "ShiftLeft d0 ex = Some d1" "repr d1 (10 ^ nat k * 2 ^ ex)"
    using shift_repr [OF d0(2) limit_bound [OF B0]] by auto
  obtain p1 where p1: "AssignUInt16 Bignum_new 1 = Some p1" "repr p1 1" using one_repr [OF repr_new] .
  obtain n2 n3 where n23: "ShiftLeft n1 1 = Some n2" "repr n2 (f * 2)" "ShiftLeft n2 1 = Some n3" "repr n3 (f * 4)"
    using double_repr [OF n1(2) f(2)] by auto
  obtain d2 d3 where d23: "ShiftLeft d1 1 = Some d2" "repr d2 (10 ^ nat k * 2 ^ ex * 2)"
      "ShiftLeft d2 1 = Some d3" "repr d3 (10 ^ nat k * 2 ^ ex * 4)"
    using double_repr [OF d1(2) B] by auto
  obtain p2 where p2: "ShiftLeft p1 1 = Some p2" "repr p2 (1 * 2)"
    using double_repr [OF p1(2) fits_power(3)] by auto
  have closer: "v AND kSignificandMask = 0 \<longleftrightarrow> lower_closer v" using e(1) by (simp add: lower_closer_def)
  define s where "s = (if \<not> need then (n1, d1, Bignum_new, Bignum_new) else if lower_closer v then (n3, d3, p1, p2) else (n2, d2, p1, p1))"
  have "InitialScaledStartValuesNegativeExponentPositivePower v k need (Bignum_new, Bignum_new, Bignum_new, Bignum_new) = Some s"
    using n1(1) d0(1) d1(1) p1(1) n23(1,3) d23(1,3) p2(1)
    by (simp add: InitialScaledStartValuesNegativeExponentPositivePower_def s_def closer f_def ex_def)
  moreover have "start_ok v k need 1 (10 ^ nat k * 2 ^ ex) s"
    unfolding s_def using fits_mono [OF fits_power(3), of 1080] fits_mono [OF B, of 2160] eq n1(2) d1(2) n23(2,4) d23(2,4) p1(2) p2(2)
    by (intro start_okI) (simp_all add: f_def)
  ultimately show ?thesis by (rule that)
qed

lemma exponent_one: "v < kInfinity \<Longrightarrow> v AND kExponentMask = 0x0010000000000000 \<longleftrightarrow> unat v div 2 ^ 52 = 1"
proof -
  assume v: "v < kInfinity"
  have m: "kExponentMask = push_bit 52 (mask 11)" by (simp add: kExponentMask_def mask_numeral)
  have e: "v AND kExponentMask = push_bit 52 (take_bit 11 (drop_bit 52 v))"
    unfolding m by (intro bit_word_eqI) (auto simp: bit_simps)
  have u: "unat (take_bit 11 (drop_bit 52 v)) = unat v div 2 ^ 52" using v by (intro unat_take_11 finite_below) simp
  have "unat v div 2 ^ 52 < 2047"
    using v unat_kInfinity by (intro less_mult_imp_div_less) (simp add: word_less_nat_alt)
  then have "unat (push_bit 52 (take_bit 11 (drop_bit 52 v))) = unat v div 2 ^ 52 * 2 ^ 52"
    unfolding u [symmetric] by (intro unat_push_bit) simp
  moreover have "unat (0x0010000000000000 :: 64 word) = 1 * 2 ^ 52" by simp
  ultimately show ?thesis unfolding e word_unat_eq_iff by (metis mult_cancel2 power_not_zero zero_neq_numeral)
qed

lemma closer_iff:
  assumes "0 < v" "v < kInfinity"
  shows "v AND kSignificandMask = 0 \<and> v AND kExponentMask \<noteq> 0x0010000000000000 \<longleftrightarrow> lower_closer v"
proof -
  have le: "v \<le> kInfinity" using assms(2) by simp
  have "unat v \<noteq> 0" using assms(1) by (simp add: word_less_nat_alt)
  then have "unat v mod 2 ^ 52 = 0 \<Longrightarrow> unat v div 2 ^ 52 \<noteq> 0" by (metis div_mult_mod_eq mult_0 add_0)
  moreover have "v AND kSignificandMask = 0 \<longleftrightarrow> unat v mod 2 ^ 52 = 0"
    using significand_field [of v] by (metis unat_eq_0)
  ultimately show ?thesis unfolding lower_closer_iff [OF le] exponent_one [OF assms(2)] by auto
qed

lemma NegativePower_start:
  assumes v: "0 < v" "v < kInfinity" and e: "Exponent v < 0" and k: "k < 0" "-324 \<le> k"
  obtains s A B where "InitialScaledStartValuesNegativeExponentNegativePower v k need (Bignum_new, Bignum_new, Bignum_new, Bignum_new) = Some s"
    "start_ok v k need A B s"
proof -
  define f ex m where "f = unat (Significand v)" and "ex = nat (- Exponent v)" and "m = nat (- k)"
  have f: "f < 2 ^ 64" "0 < f" "fits 53 f" using finite_fields(1,2) [OF v] by (simp_all add: f_def fits_def)
  have ex: "Exponent v = - int ex" "ex \<le> 1074" using e finite_fields(3) [OF v] by (simp_all add: ex_def)
  have mk: "k = - int m" "m \<le> 324" using k by (simp_all add: m_def)
  have A: "fits 1080 (10 ^ m)" using mk(2) by (rule fits_power)
  have B: "fits 1074 (2 ^ ex)" using ex(2) by (rule fits_power)
  have eq: "real (10 ^ m) * 10 powi k = real (2 ^ ex) * 2 powi Exponent v"
    using mk(1) ex(1) by (simp add: power_int_minus)
  have fA: "fits 1133 (10 ^ m * f)" using fits_mult [OF A f(3)] by simp
  obtain p1 where p1: "AssignPowerUInt16 Bignum_new 10 m = Some p1" "repr p1 (10 ^ m)"
    using power_repr [OF repr_new mk(2)] .
  have copy: "AssignBignum Bignum_new p1 = p1" using repr_new p1(2) by (rule assign_repr)
  obtain n1 where n1: "MultiplyByUInt64 p1 f = Some n1" "repr n1 (10 ^ m * f)"
    using times64_repr [OF p1(2) f(1,2) limit_bound [OF fA]] by auto
  obtain d0 where d0: "AssignUInt16 Bignum_new 1 = Some d0" "repr d0 1" using one_repr [OF repr_new] .
  obtain d1 where d1: "ShiftLeft d0 ex = Some d1" "repr d1 (2 ^ ex)"
    using shift_repr [OF d0(2) limit_bound [OF fits_power(3)], of ex] by auto
  obtain n2 n3 where n23: "ShiftLeft n1 1 = Some n2" "repr n2 (10 ^ m * f * 2)" "ShiftLeft n2 1 = Some n3" "repr n3 (10 ^ m * f * 4)"
    using double_repr [OF n1(2) fA] by auto
  obtain d2 d3 where d23: "ShiftLeft d1 1 = Some d2" "repr d2 (2 ^ ex * 2)" "ShiftLeft d2 1 = Some d3" "repr d3 (2 ^ ex * 4)"
    using double_repr [OF d1(2) B] by auto
  obtain p2 where p2: "ShiftLeft p1 1 = Some p2" "repr p2 (10 ^ m * 2)"
    using double_repr [OF p1(2) A] by auto
  define s where "s = (if \<not> need then (n1, d1, Bignum_new, Bignum_new) else if lower_closer v then (n3, d3, p1, p2) else (n2, d2, p1, p1))"
  have "InitialScaledStartValuesNegativeExponentNegativePower v k need (Bignum_new, Bignum_new, Bignum_new, Bignum_new) = Some s"
    using p1(1) copy n1(1) d0(1) d1(1) n23(1,3) d23(1,3) p2(1) closer_iff [OF v]
    by (auto simp: InitialScaledStartValuesNegativeExponentNegativePower_def s_def f_def ex_def m_def Let_def)
  moreover have "start_ok v k need (10 ^ m) (2 ^ ex) s"
    unfolding s_def using A fits_mono [OF B, of 2160] eq n1(2) d1(2) n23(2,4) d23(2,4) p1(2) p2(2)
    by (intro start_okI) (simp_all add: f_def mult.commute mult.left_commute)
  ultimately show ?thesis by (rule that)
qed

text \<open>
  Together: for an estimate \<open>k\<close> that is right or one too small the start values are exact, and each
  of the three routines is called only where its assumptions on the exponents hold.
\<close>

lemma start_values:
  assumes v: "0 < v" "v < kInfinity" and k: "\<bar>k\<bar> \<le> 324"
    and est: "10 powi (k - 1) \<le> double_value v" "double_value v < 10 powi (k + 1)"
  obtains s A B where "InitialScaledStartValues v k need (Bignum_new, Bignum_new, Bignum_new, Bignum_new) = Some s"
    "start_ok v k need A B s"
proof -
  have f: "0 < unat (Significand v)" "unat (Significand v) < 2 ^ 53" using finite_fields [OF v] by simp_all
  consider "0 \<le> Exponent v" | "Exponent v < 0" "0 \<le> k" | "Exponent v < 0" "k < 0" by linarith
  then show ?thesis
  proof cases
    case 1
    have "1 * 1 \<le> double_value v"
      unfolding double_value_def
    proof (rule mult_mono)
      show "1 \<le> real (unat (Significand v))" using f(1) by linarith
      show "1 \<le> (2 :: real) powi Exponent v" using 1 by (intro one_le_power_int) simp_all
      show "0 \<le> real (unat (Significand v))" by (rule of_nat_0_le_iff)
    qed simp
    then have "(10 :: real) powi 0 < 10 powi (k + 1)" using est(2) by simp
    moreover have "(10 :: real) powi (k + 1) \<le> 10 powi 0" if "k < 0" using that by (intro power_int_increasing) simp_all
    ultimately have "0 \<le> k" by linarith
    then show ?thesis using PositiveExponent_start [OF v 1, of k need] k 1 that by (auto simp: InitialScaledStartValues_def)
  next
    case 2
    have "Exponent v \<noteq> kDenormalExponent"
    proof
      assume "Exponent v = kDenormalExponent"
      then have e: "Exponent v = -1074" by (simp add: kDenormalExponent_def kExponentBias_def kPhysicalSignificandSize_def)
      have "real (unat (Significand v)) < 2 ^ 53" using f(2) by (metis of_nat_less_iff of_nat_numeral of_nat_power)
      then have "double_value v < 2 ^ 53 * 2 powi (-1074)"
        unfolding double_value_def e by (rule mult_strict_right_mono) simp
      also have "\<dots> \<le> 1 / 10" by simp
      also have "\<dots> = 10 powi (-1)" by simp
      also have "\<dots> \<le> (10 :: real) powi (k - 1)" using 2(2) by (intro power_int_increasing) simp_all
      finally show False using est(1) by simp
    qed
    then have "kDenormalExponent < Exponent v"
      using finite_fields(3) [OF v] by (simp add: kDenormalExponent_def kExponentBias_def kPhysicalSignificandSize_def)
    then show ?thesis using PositivePower_start [OF v _ 2(1,2), of need] k 2 that by (auto simp: InitialScaledStartValues_def)
  next
    case 3
    then show ?thesis using NegativePower_start [OF v 3, of need] k that by (auto simp: InitialScaledStartValues_def)
  qed
qed

section \<open>The estimate for a double\<close>

lemma normalized_exponent:
  assumes "0 < v" "v < kInfinity"
  obtains j where "NormalizedExponent (Significand v) (Exponent v) = Some (Exponent v - int j)" "j \<le> 52"
    "2 ^ 52 \<le> unat (Significand v) * 2 ^ j" "unat (Significand v) * 2 ^ j < 2 ^ 53"
proof -
  let ?f = "Significand v"
  have f: "?f \<noteq> 0" "unat ?f < 2 ^ (52 + 1)" using finite_fields [OF assms] by (auto simp: unat_eq_0 [symmetric])
  have "x AND kHiddenBit = 0 \<longleftrightarrow> unat x < 2 ^ 52" if "unat x < 2 ^ (52 + 1)" for x
    using hidden_bit_clear [of x] that by simp
  from shift_until_correct [OF this _ _ f, of "Exponent v"]
  obtain j where j: "shift_until kHiddenBit 1 ?f (Exponent v) = Some (push_bit j ?f, Exponent v - int j)"
      "2 ^ 52 \<le> unat ?f * 2 ^ j" "unat ?f * 2 ^ j < 2 ^ (52 + 1)" by auto
  have "1 * 2 ^ j \<le> unat ?f * 2 ^ j" using f(1) by (intro mult_le_mono1) (simp add: Suc_le_eq unat_gt_0)
  then have "1 * (2 :: nat) ^ j < 2 ^ (52 + 1)" using j(3) by (rule le_less_trans)
  then have "(2 :: nat) ^ j < 2 ^ 53" by (simp only: mult_1) simp
  then have "j < 53" by (rule power_less_imp_less_exp [rotated]) simp
  then show ?thesis using that j by (simp add: NormalizedExponent_def)
qed

lemma estimate_double:
  assumes v: "0 < v" "v < kInfinity"
  obtains ne where "NormalizedExponent (Significand v) (Exponent v) = Some ne" "\<bar>EstimatePower ne\<bar> \<le> 324"
    "10 powi (EstimatePower ne - 1) \<le> double_value v"
    "(real (unat (Significand v)) + 1) * 2 powi Exponent v < 10 powi (EstimatePower ne + 1)"
proof -
  define f where "f = unat (Significand v)"
  obtain j where j: "NormalizedExponent (Significand v) (Exponent v) = Some (Exponent v - int j)" "j \<le> 52"
      "2 ^ 52 \<le> f * 2 ^ j" "f * 2 ^ j < 2 ^ 53"
    using normalized_exponent [OF v] unfolding f_def .
  define ne where "ne = Exponent v - int j"
  have ne: "-1126 \<le> ne" "ne \<le> 971" using j(2) finite_fields(3,4) [OF v] by (simp_all add: ne_def)
  have e: "(2 :: real) powi Exponent v = 2 ^ j * 2 powi ne" by (simp add: ne_def power_int_diff)
  have dv: "double_value v = real (f * 2 ^ j) * 2 powi ne" "(real f + 1) * 2 powi Exponent v = real ((f + 1) * 2 ^ j) * 2 powi ne"
    unfolding double_value_def f_def [symmetric] e by (simp_all add: algebra_simps)
  have "(2 :: real) powi (ne + 52) = 2 ^ 52 * 2 powi ne" by (simp add: power_int_add)
  also have "\<dots> \<le> double_value v" unfolding dv(1)
    using j(3) by (intro mult_right_mono) (metis of_nat_le_iff of_nat_numeral of_nat_power, simp)
  finally have lo: "(2 :: real) powi (ne + 52) \<le> double_value v" .
  have "f < 2 ^ (53 - j)"
  proof -
    have "f * 2 ^ j < 2 ^ (53 - j) * 2 ^ j" using j(2,4) by (simp flip: power_add)
    then show ?thesis by simp
  qed
  then have "(f + 1) * 2 ^ j \<le> 2 ^ (53 - j) * 2 ^ j" by (intro mult_le_mono1) simp
  then have "(f + 1) * 2 ^ j \<le> 2 ^ 53" using j(2) by (simp flip: power_add)
  then have "real ((f + 1) * 2 ^ j) \<le> 2 ^ 53" by (metis of_nat_le_iff of_nat_numeral of_nat_power)
  then have "(real f + 1) * 2 powi Exponent v \<le> 2 ^ 53 * 2 powi ne" unfolding dv(2) by (intro mult_right_mono) simp_all
  also have "\<dots> = 2 powi (ne + 53)" by (simp add: power_int_add)
  finally have "(real f + 1) * 2 powi Exponent v < 10 powi (EstimatePower ne + 1)"
    using EstimatePower_correct(2) [OF ne] by linarith
  then show ?thesis
    using that [of ne] j(1) EstimatePower_correct(1,3) [OF ne] lo unfolding ne_def [symmetric] f_def by linarith
qed

end
