(* ===== verification/Dtoa_Correct.thy ===== *)
theory Dtoa_Correct
  imports Dtoa_Start
begin

text \<open>
  The conversion as a whole.  In the shortest mode the digits read back as the double, are as close
  to it as any with the same last place, and no coarser last place will do; they fit into the
  caller's buffer of 18 characters.  In the two other modes the digits are the exactly rounded ones.
\<close>

section \<open>From integer ratios to reals\<close>

text \<open>A number reads as the double \<open>v\<close> if it lies between the midpoints to the neighbours of \<open>v\<close>.\<close>

definition reads_as :: "64 word \<Rightarrow> real \<Rightarrow> bool" where
  "reads_as v x \<longleftrightarrow>
     (if Significand v AND 1 = 0 then lower_midpoint v \<le> x \<and> x \<le> upper_midpoint v
      else lower_midpoint v < x \<and> x < upper_midpoint v)"

lemma room_real:
  fixes s lo hi v :: real and N D M P U :: nat
  assumes "0 < D" "0 < U" "0 < s" "real N * s = D * v" "real M * s = D * (v - lo)" "real P * s = D * (hi - v)"
  shows "in_room ev (int N * int U) (int D) (int M * int U) (int P * int U) X \<longleftrightarrow>
      (if ev then lo \<le> of_int X * (s / U) \<and> of_int X * (s / U) \<le> hi else lo < of_int X * (s / U) \<and> of_int X * (s / U) < hi)"
    and "\<bar>of_int (X * int D - int N * int U)\<bar> * s = D * U * \<bar>of_int X * (s / U) - v\<bar>"
proof -
  define W where "W = real D * real U"
  have W: "0 < W" using assms(1,2) by (simp add: W_def)
  have "of_int (int N * int U - int M * int U) * s = (real N * s - real M * s) * U" by (simp add: algebra_simps)
  then have lo: "of_int (int N * int U - int M * int U) * s = W * lo"
    unfolding assms(4,5) by (simp add: W_def algebra_simps)
  have "of_int (int N * int U + int P * int U) * s = (real N * s + real P * s) * U" by (simp add: algebra_simps)
  then have hi: "of_int (int N * int U + int P * int U) * s = W * hi"
    unfolding assms(4,6) by (simp add: W_def algebra_simps)
  have x: "of_int (X * int D) * s = W * (of_int X * (s / U))"
    using assms(2) by (simp add: W_def)
  have "of_int (int N * int U) * s = (real N * s) * U" by simp
  then have n: "of_int (int N * int U) * s = W * v" unfolding assms(4) by (simp add: W_def)
  have le: "a \<le> b \<longleftrightarrow> of_int a * s \<le> of_int b * s" "a < b \<longleftrightarrow> of_int a * s < of_int b * s" for a b
    using assms(3) by simp_all
  show "in_room ev (int N * int U) (int D) (int M * int U) (int P * int U) X \<longleftrightarrow>
      (if ev then lo \<le> of_int X * (s / U) \<and> of_int X * (s / U) \<le> hi else lo < of_int X * (s / U) \<and> of_int X * (s / U) < hi)"
    unfolding in_room_def le lo hi x using W by (simp only: mult_le_cancel_left_pos mult_less_cancel_left_pos)
  have "\<bar>of_int (X * int D - int N * int U)\<bar> * s = \<bar>of_int (X * int D) * s - of_int (int N * int U) * s\<bar>"
    using assms(3) by (simp add: abs_mult flip: left_diff_distrib)
  also have "\<dots> = W * \<bar>of_int X * (s / U) - v\<bar>"
    unfolding x n right_diff_distrib [symmetric] abs_mult using W by (simp only: abs_of_pos)
  finally show "\<bar>of_int (X * int D - int N * int U)\<bar> * s = D * U * \<bar>of_int X * (s / U) - v\<bar>" by (simp add: W_def)
qed

text \<open>The start values as reals.\<close>

lemma start_real:
  assumes "start_ok v k need A B (numerator, denominator, delta_minus, delta_plus)" "0 < v" "v < kInfinity"
  shows "real (bn_value numerator) * 10 powi k = real (bn_value denominator) * double_value v"
    "need \<Longrightarrow> real (bn_value delta_minus) * 10 powi k = real (bn_value denominator) * (double_value v - lower_midpoint v)"
    "need \<Longrightarrow> real (bn_value delta_plus) * 10 powi k = real (bn_value denominator) * (upper_midpoint v - double_value v)"
proof -
  define T where "T = real (start_factor v need)"
  have eq: "real A * 10 powi k = real B * 2 powi Exponent v" using assms(1) by (simp add: start_ok_def)
  have N: "real (bn_value numerator) = real (unat (Significand v)) * real A * T"
    and D: "real (bn_value denominator) = real B * T"
    using assms(1) by (auto simp: start_ok_def repr_def T_def simp del: of_nat_unat)
  have "real (bn_value numerator) * 10 powi k = real (unat (Significand v)) * T * (real A * 10 powi k)"
    unfolding N by (simp only: mult.assoc mult.commute mult.left_commute)
  then show "real (bn_value numerator) * 10 powi k = real (bn_value denominator) * double_value v"
    unfolding D double_value_def eq by (simp only: mult.assoc mult.commute mult.left_commute)
  assume need: need
  have M: "real (bn_value delta_minus) = real A" and P: "real (bn_value delta_plus) = real A * (T / 2)"
    using assms(1) need by (auto simp: start_ok_def repr_def T_def start_factor_def)
  have T: "T = (if lower_closer v then 4 else 2)" using need by (simp add: T_def start_factor_def)
  show "real (bn_value delta_minus) * 10 powi k = real (bn_value denominator) * (double_value v - lower_midpoint v)"
    unfolding M D eq lower_midpoint_eq [OF assms(2,3)] T by simp
  have "real (bn_value delta_plus) * 10 powi k = T / 2 * (real A * 10 powi k)" unfolding P by simp
  then show "real (bn_value delta_plus) * 10 powi k = real (bn_value denominator) * (upper_midpoint v - double_value v)"
    unfolding D eq upper_midpoint_eq [OF assms(3)] by simp
qed

section \<open>The fix-up\<close>

text \<open>
  After \<open>FixupMultiply10\<close> all numbers are scaled by \<open>c\<close>, one or ten, and the decimal point is such
  that the ratio is the double over \<open>10 ^ (decimal_point - 1)\<close>.
\<close>

lemma fixup_cases:
  fixes ev :: bool
  assumes "bn_inv num" "bn_inv den" "bn_inv dm" "bn_inv dp"
    and small: "10 * bn_value num < kLimit" "10 * bn_value dm < kLimit" "10 * bn_value dp < kLimit"
  defines "in_range \<equiv> (if ev then bn_value den \<le> bn_value num + bn_value dp else bn_value den < bn_value num + bn_value dp)"
  obtains num' dm' dp' c where "FixupMultiply10 k ev (num, den, dm, dp) = Some (k + (if in_range then 1 else 0), num', den, dm', dp')"
    "repr num' (c * bn_value num)" "repr dm' (c * bn_value dm)" "repr dp' (c * bn_value dp)" "c = (if in_range then 1 else 10)"
proof (cases in_range)
  case True
  then have "FixupMultiply10 k ev (num, den, dm, dp) = Some (k + 1, num, den, dm, dp)"
    using bn.plus_compare_iff [OF assms(1,4,2)] by (auto simp: FixupMultiply10_def in_range_def)
  then show ?thesis using that [of num dm dp 1] True assms(1,3,4) by (simp add: repr_def)
next
  case False
  obtain num' where num': "Times10 num = Some num'" "repr num' (10 * bn_value num)"
    using times10_repr [of num] assms(1) small(1) by (auto simp: repr_def)
  obtain dm' where dm': "Times10 dm = Some dm'" "repr dm' (10 * bn_value dm)"
    using times10_repr [of dm] assms(3) small(2) by (auto simp: repr_def)
  obtain dp' where dp': "Times10 dp = Some dp'" "repr dp' (10 * bn_value dp)"
    using times10_repr [of dp] assms(4) small(3) by (auto simp: repr_def)
  have eq: "Equal dm dp \<longleftrightarrow> bn_value dm = bn_value dp" using bn.compare_iff(3) [OF assms(3,4)] by (simp add: Equal_def)
  have copy: "AssignBignum dp dm' = dm'" using assign_repr [of dp] dm'(2) assms(4) by (auto simp: repr_def)
  have "FixupMultiply10 k ev (num, den, dm, dp) =
      Some (k, num', den, dm', if bn_value dm = bn_value dp then dm' else dp')"
    using False bn.plus_compare_iff [OF assms(1,4,2)] num'(1) dm'(1) dp'(1) copy
    by (auto simp: FixupMultiply10_def in_range_def eq Let_def)
  moreover have "repr (if bn_value dm = bn_value dp then dm' else dp') (10 * bn_value dp)" using dm'(2) dp'(2) by metis
  ultimately show ?thesis using that [of num' dm' "if bn_value dm = bn_value dp then dm' else dp'" 10] False num'(2) dm'(2) by simp
qed

lemma start_bounds:
  assumes "start_ok v k need A B (num, den, dm, dp)" "0 < v" "v < kInfinity"
  shows "bn_inv num" "bn_inv den" "bn_inv dm" "bn_inv dp" "0 < bn_value den" "10 * bn_value den < kLimit"
    "10 * bn_value num < kLimit" "10 * bn_value dm < kLimit" "10 * bn_value dp < kLimit"
proof -
  let ?T = "start_factor v need" and ?f = "unat (Significand v)"
  have T: "0 < ?T" "fits 2 ?T" "fits 2 (?T div 2)" by (auto simp: start_factor_def fits_def)
  have ten: "fits 4 10" by (simp add: fits_def)
  have f: "fits 53 ?f" using finite_fields(1) [OF assms(2,3)] by (simp add: fits_def)
  have s: "0 < B" "fits 1080 A" "fits 2160 B" "repr num (?f * A * ?T)" "repr den (B * ?T)"
      "repr dm (if need then A else 0)" "repr dp (if need then A * (?T div 2) else 0)"
    using assms(1) by (simp_all add: start_ok_def)
  then show "bn_inv num" "bn_inv den" "bn_inv dm" "bn_inv dp" by (simp_all add: repr_def)
  show "0 < bn_value den" using s(1,5) T(1) by (simp add: repr_def)
  show "10 * bn_value den < kLimit"
    using limit_bound [OF fits_mult [OF ten fits_mult [OF s(3) T(2)]]] s(5) by (simp add: repr_def)
  show "10 * bn_value num < kLimit"
    using limit_bound [OF fits_mult [OF ten fits_mult [OF fits_mult [OF f s(2)] T(2)]]] s(4) by (simp add: repr_def)
  have z: "0 < kLimit" by (simp add: kLimit_def)
  show "10 * bn_value dm < kLimit"
    using limit_bound [OF fits_mult [OF ten s(2)]] s(6) z by (cases need) (simp_all add: repr_def)
  show "10 * bn_value dp < kLimit"
    using limit_bound [OF fits_mult [OF ten fits_mult [OF s(2) T(3)]]] s(7) z by (cases need) (simp_all add: repr_def)
qed

section \<open>Shortest digits\<close>

lemma ratio_less_iff:
  assumes "start_ok v k need A B s"
  shows "x * 2 powi Exponent v < y * 10 powi k \<longleftrightarrow> x * real A < y * real B"
    "x * 2 powi Exponent v \<le> y * 10 powi k \<longleftrightarrow> x * real A \<le> y * real B"
    "y * 10 powi k \<le> x * 2 powi Exponent v \<longleftrightarrow> y * real B \<le> x * real A"
proof -
  have "0 < A" "0 < B" "real A * 10 powi k = real B * 2 powi Exponent v" using assms by (simp_all add: start_ok_def)
  then have e: "2 powi Exponent v = real A * (10 powi k / real B)" "10 powi k = real B * (10 powi k / real B)"
    and p: "0 < 10 powi k / real B" by (simp_all add: field_simps)
  have x: "x * 2 powi Exponent v = x * real A * (10 powi k / real B)" "y * 10 powi k = y * real B * (10 powi k / real B)"
    using e by (metis mult.assoc)+
  show "x * 2 powi Exponent v < y * 10 powi k \<longleftrightarrow> x * real A < y * real B"
    "x * 2 powi Exponent v \<le> y * 10 powi k \<longleftrightarrow> x * real A \<le> y * real B"
    "y * 10 powi k \<le> x * 2 powi Exponent v \<longleftrightarrow> y * real B \<le> x * real A"
    unfolding x using p by (simp_all only: mult_less_cancel_right_pos mult_le_cancel_right_pos)
qed

text \<open>Bounds of the start values in the shortest mode; the last gives the bound of 17 digits.\<close>

lemma shortest_bounds:
  assumes v: "0 < v" "v < kInfinity" and s: "start_ok v k True A B (num, den, dm, dp)"
    and est: "10 powi (k - 1) \<le> double_value v" "(real (unat (Significand v)) + 1) * 2 powi Exponent v < 10 powi (k + 1)"
  shows "bn_value num + bn_value dp < 10 * bn_value den" "bn_value den \<le> 10 * bn_value num"
    "bn_value num + bn_value dp < (bn_value dm + bn_value dp) * 10 ^ 16" "0 < bn_value dm" "0 < bn_value dp"
proof -
  define f T where "f = unat (Significand v)" and "T = start_factor v True"
  have T: "T = (if lower_closer v then 4 else 2)" by (simp add: T_def start_factor_def)
  have vals: "0 < A" "bn_value num = f * A * T" "bn_value den = B * T" "bn_value dm = A" "bn_value dp = A * (T div 2)"
    using s by (auto simp: start_ok_def repr_def f_def T_def)
  then show "0 < bn_value dm" "0 < bn_value dp" by (auto simp: T)
  have "(real f + 1) * 2 powi Exponent v < 10 * 10 powi k"
    using est(2) by (simp add: f_def power_int_add mult.commute del: of_nat_unat)
  then have "(real f + 1) * real A < 10 * real B" using ratio_less_iff(1) [OF s] by simp
  then have "real ((f + 1) * A) < real (10 * B)" by (simp add: algebra_simps)
  then have lt: "(f + 1) * A < 10 * B" by (simp only: of_nat_less_iff)
  have "bn_value num + bn_value dp \<le> (f + 1) * A * T" unfolding vals by (simp add: T algebra_simps)
  also have "\<dots> < 10 * B * T" using lt by (simp add: T)
  finally show "bn_value num + bn_value dp < 10 * bn_value den" by (simp add: vals)
  have "10 powi k \<le> 10 * double_value v" using est(1) by (simp add: power_int_diff)
  then have "1 * 10 powi k \<le> 10 * real f * 2 powi Exponent v"
    by (simp add: double_value_def f_def mult.assoc del: of_nat_unat)
  then have "real B \<le> 10 * real f * real A" using ratio_less_iff(3) [OF s, of 1 "10 * real f"] by simp
  then have "real B \<le> real (10 * f * A)" by simp
  then have "B \<le> 10 * f * A" by (simp only: of_nat_le_iff)
  then show "bn_value den \<le> 10 * bn_value num" unfolding vals by (simp add: T)
  have "f < 2 ^ 53" "lower_closer v \<Longrightarrow> f = 2 ^ 52"
    using finite_fields(1) [OF v] significand_is_zero_iff [of v] v(2) by (auto simp: f_def kHiddenBit_def)
  then have "f * T + T div 2 < (1 + T div 2) * 10 ^ 16" by (auto simp: T)
  then have "A * (f * T + T div 2) < A * ((1 + T div 2) * 10 ^ 16)" using vals(1) by simp
  then show "bn_value num + bn_value dp < (bn_value dm + bn_value dp) * 10 ^ 16"
    unfolding vals by (simp add: algebra_simps)
qed

text \<open>The digits as a number, and what the digits of the shortest mode promise.\<close>

definition decimal :: "nat list \<Rightarrow> int \<Rightarrow> real" where
  "decimal ds point = real (dec ds) * 10 powi (point - int (length ds))"

definition shortest_decimal :: "64 word \<Rightarrow> nat list \<Rightarrow> int \<Rightarrow> bool" where
  "shortest_decimal v ds point \<longleftrightarrow>
     (let unit = 10 powi (point - int (length ds)) in
      reads_as v (decimal ds point)
      \<and> (\<forall>X :: int. reads_as v (of_int X * unit) \<longrightarrow> \<bar>decimal ds point - double_value v\<bar> \<le> \<bar>of_int X * unit - double_value v\<bar>)
      \<and> (2 \<le> length ds \<longrightarrow> (\<forall>Y :: int. \<not> reads_as v (of_int Y * (10 * unit)))))"

lemma powi_shift: "(10 :: real) powi (a + int m) = 10 powi a * 10 ^ m"
  by (simp add: power_int_add)

lemma shortest_decimalI:
  assumes sd: "shortest_digits (Significand v AND 1 = 0) (int N) (int D) (int M) (int P) ds"
    and D: "0 < D" "real N * 10 powi (p - 1) = D * double_value v"
      "real M * 10 powi (p - 1) = D * (double_value v - lower_midpoint v)"
      "real P * 10 powi (p - 1) = D * (upper_midpoint v - double_value v)"
  shows "shortest_decimal v ds p"
proof -
  define n U where "n = length ds" and "U = (10 :: nat) ^ (n - 1)"
  let ?ev = "Significand v AND 1 = 0" and ?s = "10 powi (p - 1) :: real"
  have n: "n \<noteq> 0" using sd by (auto simp: shortest_digits_def n_def Let_def)
  have U: "int U = 10 ^ (n - 1)" "0 < U" "0 < ?s" by (simp_all add: U_def)
  have unit: "?s / real U = 10 powi (p - int n)"
  proof -
    obtain m where m: "n = Suc m" using n by (cases n) auto
    then have "p - 1 = (p - int n) + int m" by simp
    then have "?s = 10 powi (p - int n) * 10 ^ m" using powi_shift [of "p - int n" m] by metis
    then show ?thesis by (simp add: U_def m)
  qed
  note room = room_real [OF D(1) U(2,3) D(2-4)]
  have reads: "in_room ?ev (int N * int U) (int D) (int M * int U) (int P * int U) X \<longleftrightarrow> reads_as v (of_int X * 10 powi (p - int n))" for X
    unfolding room(1) unit reads_as_def ..
  have dist: "\<bar>X * int D - int N * int U\<bar> \<le> \<bar>Y * int D - int N * int U\<bar> \<longleftrightarrow>
      \<bar>of_int X * 10 powi (p - int n) - double_value v\<bar> \<le> \<bar>of_int Y * 10 powi (p - int n) - double_value v\<bar>" for X Y
  proof -
    have "\<bar>X * int D - int N * int U\<bar> \<le> \<bar>Y * int D - int N * int U\<bar> \<longleftrightarrow>
        \<bar>of_int (X * int D - int N * int U)\<bar> * ?s \<le> \<bar>of_int (Y * int D - int N * int U)\<bar> * ?s"
      using U(3) by (simp only: mult_le_cancel_right_pos of_int_abs [symmetric] of_int_le_iff)
    then show ?thesis unfolding room(2) unit using D(1) U(2) by simp
  qed
  have ten: "of_int Y * (10 * 10 powi (p - int n)) = of_int (10 * Y) * (10 powi (p - int n) :: real)" for Y by simp
  show ?thesis
    using sd unfolding shortest_decimal_def shortest_digits_def Let_def decimal_def n_def [symmetric] U(1) [symmetric] reads dist ten
    by simp
qed

lemma below_successor: "double_value v < (real (unat (Significand v)) + 1) * 2 powi Exponent v"
  unfolding double_value_def by (rule mult_strict_right_mono) simp_all

lemma BignumDtoa_shortest_ok:
  assumes v: "0 < v" "v < kInfinity" and buffer: "18 \<le> length buffer"
  obtains buffer' ds point where "BignumDtoa v BIGNUM_DTOA_SHORTEST requested_digits buffer = Some (buffer', length ds, point)"
    "take (length ds) buffer' = map ((+) 48) ds" "buffer' ! length ds = 0" "length buffer' = length buffer"
    "1 \<le> length ds" "length ds \<le> 17" "\<forall>d \<in> set ds. d \<le> 9" "shortest_decimal v ds point"
proof -
  let ?ev = "Significand v AND 1 = 0"
  obtain ne where ne: "NormalizedExponent (Significand v) (Exponent v) = Some ne" "\<bar>EstimatePower ne\<bar> \<le> 324"
      "10 powi (EstimatePower ne - 1) \<le> double_value v"
      "(real (unat (Significand v)) + 1) * 2 powi Exponent v < 10 powi (EstimatePower ne + 1)"
    using estimate_double [OF v] .
  define k where "k = EstimatePower ne"
  note est = ne(2-4) [folded k_def]
  have "double_value v < 10 powi (k + 1)" using below_successor est(3) by (rule less_trans)
  then obtain num den dm dp A B where s: "InitialScaledStartValues v k True (Bignum_new, Bignum_new, Bignum_new, Bignum_new) = Some (num, den, dm, dp)"
      "start_ok v k True A B (num, den, dm, dp)"
    using start_values [OF v est(1,2), of True] by (metis prod_cases4)
  note b = start_bounds [OF s(2) v] and sb = shortest_bounds [OF v s(2) est(2,3)] and re = start_real [OF s(2) v]
  define in_range where "in_range = (if ?ev then bn_value den \<le> bn_value num + bn_value dp else bn_value den < bn_value num + bn_value dp)"
  obtain num' dm' dp' c where fx: "FixupMultiply10 k ?ev (num, den, dm, dp) = Some (k + (if in_range then 1 else 0), num', den, dm', dp')"
      "repr num' (c * bn_value num)" "repr dm' (c * bn_value dm)" "repr dp' (c * bn_value dp)" "c = (if in_range then 1 else 10)"
    using fixup_cases [OF b(1-4,7-9), where ev = ?ev and k = k] unfolding in_range_def .
  define p where "p = k + (if in_range then 1 else 0)"
  have scale: "real c * 10 powi (p - 1) = 10 powi k" by (simp add: fx(5) p_def power_int_diff power_int_add)
  define plus where "plus = (if Equal dm' dp' then None else Some dp')"
  have inv: "bn_inv num'" "bn_inv dm'" "bn_inv dp'" using fx(2-4) by (simp_all add: repr_def)
  have vals: "bn_value num' = c * bn_value num" "bn_value dm' = c * bn_value dm" "bn_value dp' = c * bn_value dp"
    using fx(2-4) by (simp_all add: repr_def)
  have plus: "bn_inv (plus_of dm' plus)" "bn_value (plus_of dm' plus) = bn_value dp'"
    using inv bn.compare_iff(3) [OF inv(2,3)] by (auto simp: plus_def plus_of_def Equal_def)
  let ?D = "bn_value den"
  have high: "if ?ev then bn_value num' + bn_value dp' < 10 * ?D else bn_value num' + bn_value dp' \<le> 10 * ?D"
    using sb(1) by (auto simp: vals fx(5) in_range_def not_le not_less split: if_splits)
  then have lt: "bn_value num' < 10 * ?D" using sb(5) by (auto simp: vals fx(5) split: if_splits)
  have wide: "?D < (bn_value dm' + bn_value dp') * 10 ^ 16"
    using sb(2,3) by (auto simp: vals fx(5) in_range_def split: if_splits)
  have pos: "0 < bn_value dm'" "0 < bn_value dp'" using sb(4,5) by (auto simp: vals fx(5))
  have room: "0 + 16 < length buffer" using buffer by simp
  obtain ds buffer1 where ds: "shortest_loop ?ev num' den dm' plus buffer 0 = Some (buffer1, length ds)"
      "length buffer1 = length buffer" "take (length ds) buffer1 = map ((+) 48) ds" "length ds \<le> 17"
      "shortest_digits ?ev (bn_value num') ?D (bn_value dm') (bn_value dp') ds"
    using shortest_loop_correct [OF b(2) less_imp_le [OF b(6)] inv(1,2) plus(1) lt _ _ _ _ room, of ?ev] high pos wide unfolding plus(2) by auto
  have n: "length ds < length buffer1" using ds(2,4) buffer by simp
  have "real (c * x) * 10 powi (p - 1) = real x * 10 powi k" for x using scale by (simp add: mult.assoc mult.left_commute)
  then have short: "shortest_decimal v ds p"
    using shortest_decimalI [OF ds(5) b(5), of p] re by (simp only: vals)
  have "BignumDtoa v BIGNUM_DTOA_SHORTEST requested_digits buffer = Some (buffer1[length ds := 0], length ds, p)"
    using ne(1) s(1) fx(1) ds(1) n
    by (simp add: BignumDtoa_def k_def GenerateShortestDigits_def plus_def p_def buffer_put_def)
  moreover have "1 \<le> length ds" "\<forall>d \<in> set ds. d \<le> 9" using ds(5) by (auto simp: shortest_digits_def Let_def Suc_le_eq)
  ultimately show ?thesis using that [of "buffer1[length ds := 0]" ds p] ds(2-4) n short by simp
qed

text \<open>What reads as \<open>v\<close> is closer to \<open>v\<close> than to any other double, or halfway and the significand is even.\<close>

lemma reads_as_nearest:
  assumes v: "0 < v" "v < kInfinity" and x: "reads_as v x" and w: "w < kInfinity" "w \<noteq> v"
  shows "\<bar>x - double_value v\<bar> \<le> \<bar>x - double_value w\<bar>"
    and "\<bar>x - double_value v\<bar> = \<bar>x - double_value w\<bar> \<Longrightarrow> Significand v AND 1 = 0"
proof -
  have lo: "lower_midpoint v \<le> x" "Significand v AND 1 \<noteq> 0 \<Longrightarrow> lower_midpoint v < x"
    and hi: "x \<le> upper_midpoint v" "Significand v AND 1 \<noteq> 0 \<Longrightarrow> x < upper_midpoint v"
    using x by (auto simp: reads_as_def split: if_splits)
  have "\<bar>x - double_value v\<bar> \<le> \<bar>x - double_value w\<bar> \<and>
      (Significand v AND 1 \<noteq> 0 \<longrightarrow> \<bar>x - double_value v\<bar> < \<bar>x - double_value w\<bar>)"
  proof (cases "w < v")
    case True
    have "unat (v - 1) = unat v - 1" using v(1) unat_minus_one [of v] by (auto simp: word_less_nat_alt unat_eq_0 [symmetric])
    then have "w \<le> v - 1" using True by (simp add: word_le_nat_alt word_less_nat_alt)
    moreover have "v - 1 < v" using v(1) \<open>unat (v - 1) = _\<close> by (simp add: word_less_nat_alt)
    ultimately have "double_value w \<le> double_value (v - 1)" "double_value (v - 1) < double_value v"
      using double_value_mono [of w "v - 1"] double_value_mono [of "v - 1" v] v(2) less_trans [of "v - 1" v kInfinity]
      by (auto simp: le_less)
    then show ?thesis using lo unfolding lower_midpoint_def by (auto simp: abs_if)
  next
    case False
    then have "v < w" using w(2) by simp
    then have "v + 1 \<le> w" using unat_succ [OF v(2)] by (simp add: word_le_nat_alt word_less_nat_alt)
    then have "double_value (v + 1) \<le> double_value w" "double_value v < double_value (v + 1)"
      using double_value_mono [of "v + 1" w] double_value_mono [of v "v + 1"] w(1) succ_le [OF v(2)] unat_succ [OF v(2)]
      by (auto simp: le_less word_less_nat_alt)
    then show ?thesis using hi unfolding upper_midpoint_def by (auto simp: abs_if)
  qed
  then show "\<bar>x - double_value v\<bar> \<le> \<bar>x - double_value w\<bar>"
    "\<bar>x - double_value v\<bar> = \<bar>x - double_value w\<bar> \<Longrightarrow> Significand v AND 1 = 0" by auto
qed

section \<open>No power of ten has an odd significand\<close>

lemma not_5_dvd_power_2: "\<not> 5 dvd (2 :: nat) ^ x"
proof (induction x)
  case (Suc x)
  have "5 dvd 2 * y \<Longrightarrow> 5 dvd y" for y :: nat by presburger
  from this [of "2 ^ x"] show ?case using Suc by (simp only: power_Suc) blast
qed simp

lemma odd_significand: "Significand v AND 1 \<noteq> 0 \<longleftrightarrow> odd (unat (Significand v))"
proof -
  have "unat (Significand v AND 1) = unat (Significand v) mod 2"
    unfolding unat_AND unsigned_1 by (rule and_one_eq)
  then show ?thesis by (metis odd_iff_mod_2_eq_one unat_eq_0 not_mod_2_eq_1_eq_0)
qed

lemma odd_power_of_ten:
  assumes "odd f" "f * 2 ^ x = (10 :: nat) ^ m"
  shows "f = 5 ^ m"
proof -
  have eq: "f * 2 ^ x = 5 ^ m * 2 ^ m" using assms(2) power_mult_distrib [of "5 :: nat" 2 m] by simp
  have odd5: "odd ((5 :: nat) ^ m)" by simp
  consider "x < m" | "m < x" | "x = m" by linarith
  then show ?thesis
  proof cases
    case 1
    then have "f * 2 ^ x = 5 ^ m * 2 ^ (m - x) * 2 ^ x" using eq by (simp add: mult.assoc flip: power_add)
    then have "f = 5 ^ m * 2 ^ (m - x)" by simp
    then show ?thesis using assms(1) 1 by simp
  next
    case 2
    then have "f * 2 ^ (x - m) * 2 ^ m = 5 ^ m * 2 ^ m" using eq by (simp add: mult.assoc flip: power_add)
    then have "f * 2 ^ (x - m) = 5 ^ m" by simp
    then have "even ((5 :: nat) ^ m)" using 2 by (metis dvd_mult even_power even_numeral zero_less_diff)
    then show ?thesis using odd5 by simp
  qed (use eq in simp)
qed

lemma no_power_of_five: "2 ^ 52 \<le> (5 :: nat) ^ m \<Longrightarrow> 2 ^ 53 \<le> (5 :: nat) ^ m"
proof -
  assume a: "2 ^ 52 \<le> (5 :: nat) ^ m"
  have "23 \<le> m"
  proof (rule ccontr)
    assume "\<not> 23 \<le> m"
    then have "(5 :: nat) ^ m \<le> 5 ^ 22" by (intro power_increasing) simp_all
    then show False using a by simp
  qed
  then have "(5 :: nat) ^ 23 \<le> 5 ^ m" by (intro power_increasing) simp_all
  then show ?thesis by simp
qed

lemma odd_not_power:
  assumes v: "0 < v" "v < kInfinity" and "Significand v AND 1 \<noteq> 0"
  shows "double_value v \<noteq> 10 powi k"
proof
  define f where "f = unat (Significand v)"
  have f: "odd f" "0 < f" "f < 2 ^ 53" using assms(3) odd_significand finite_fields [OF v] by (auto simp: f_def)
  assume "double_value v = 10 powi k"
  then have eq: "real f * 2 powi Exponent v = 10 powi k" by (simp only: double_value_def f_def)
  consider x m where "Exponent v = int x" "k = int m" | x m where "Exponent v = int x" "k = - int (Suc m)"
    | x m where "Exponent v = - int (Suc x)" "k = int m" | x m where "Exponent v = - int (Suc x)" "k = - int (Suc m)"
    by (metis int_cases2 int_cases nat.exhaust of_nat_0 minus_zero)
  then show False
  proof cases
    case 1
    have "real (f * 2 ^ x) = real (10 ^ m)" using eq 1 by simp
    then have "f * 2 ^ x = 10 ^ m" by (simp only: of_nat_eq_iff)
    then have "f = 5 ^ m" by (rule odd_power_of_ten [OF f(1)])
    moreover have "2 ^ 52 \<le> f"
    proof -
      have "unat v div 2 ^ 52 \<noteq> 0" using 1(1) Exponent_eq [of v] v(2) by (intro notI) simp
      then show ?thesis using Significand_eq [of v] v(2) by (simp add: f_def)
    qed
    ultimately show False using no_power_of_five f(3) by fastforce
  next
    case 2
    have "real f * 2 ^ x = inverse (10 ^ Suc m)" using eq unfolding 2 power_int_minus power_int_of_nat .
    then have "real (f * 2 ^ x * 10 ^ Suc m) = real 1" by (simp add: field_simps)
    then have "f * 2 ^ x * 10 ^ Suc m = 1" by (simp only: of_nat_eq_iff)
    then show False by (simp add: mult_eq_1_iff)
  next
    case 3
    have "real f * inverse (2 ^ Suc x) = 10 ^ m" using eq unfolding 3 power_int_minus power_int_of_nat .
    then have "real f = real (10 ^ m * 2 ^ Suc x)" by (simp add: field_simps)
    then have "f = 10 ^ m * 2 ^ Suc x" by (simp only: of_nat_eq_iff)
    then show False using f(1) by simp
  next
    case 4
    have "real f * inverse (2 ^ Suc x) = inverse (10 ^ Suc m)" using eq unfolding 4 power_int_minus power_int_of_nat .
    then have "real (f * 10 ^ Suc m) = real (2 ^ Suc x)" by (simp add: field_simps)
    then have "f * 10 ^ Suc m = 2 ^ Suc x" by (simp only: of_nat_eq_iff)
    moreover have "f * 10 ^ Suc m = 5 * (2 * f * 10 ^ m)" by simp
    ultimately have "5 dvd (2 :: nat) ^ Suc x" by (metis dvd_triv_left)
    then show False using not_5_dvd_power_2 by blast
  qed
qed

section \<open>Digits to a given place\<close>

text \<open>Without deltas, the ratio after the fix-up is the double over \<open>10 ^ (p - 1)\<close> and lies in \<open>[1, 10)\<close>.\<close>

lemma plain_ratio:
  assumes v: "0 < v" "v < kInfinity"
    and est: "\<bar>k\<bar> \<le> 324" "10 powi (k - 1) \<le> double_value v" "(real (unat (Significand v)) + 1) * 2 powi Exponent v < 10 powi (k + 1)"
  obtains s num den dm dp p where
    "InitialScaledStartValues v k False (Bignum_new, Bignum_new, Bignum_new, Bignum_new) = Some s"
    "FixupMultiply10 k (Significand v AND 1 = 0) s = Some (p, num, den, dm, dp)"
    "bn_inv num" "bn_inv den" "bn_value den \<le> bn_value num" "bn_value num < 10 * bn_value den" "10 * bn_value den < kLimit"
    "real (bn_value num) * 10 powi (p - 1) = real (bn_value den) * double_value v"
proof -
  let ?ev = "Significand v AND 1 = 0"
  have hi: "double_value v < 10 powi (k + 1)" using below_successor est(3) by (rule less_trans)
  then obtain num den dm dp A B where s: "InitialScaledStartValues v k False (Bignum_new, Bignum_new, Bignum_new, Bignum_new) = Some (num, den, dm, dp)"
      "start_ok v k False A B (num, den, dm, dp)"
    using start_values [OF v est(1,2), of False] by (metis prod_cases4)
  note b = start_bounds [OF s(2) v] and re = start_real(1) [OF s(2) v]
  have dp: "bn_value dp = 0" using s(2) by (simp add: start_ok_def repr_def)
  let ?N = "bn_value num" and ?D = "bn_value den"
  define in_range where "in_range = (if ?ev then ?D \<le> ?N + bn_value dp else ?D < ?N + bn_value dp)"
  obtain num' dm' dp' c where fx: "FixupMultiply10 k ?ev (num, den, dm, dp) = Some (k + (if in_range then 1 else 0), num', den, dm', dp')"
      "repr num' (c * ?N)" "repr dm' (c * bn_value dm)" "repr dp' (c * bn_value dp)" "c = (if in_range then 1 else 10)"
    using fixup_cases [OF b(1-4,7-9), where ev = ?ev and k = k] unfolding in_range_def .
  define p where "p = k + (if in_range then 1 else 0)"
  have scale: "real c * 10 powi (p - 1) = 10 powi k" by (simp add: fx(5) p_def power_int_diff power_int_add)
  have D: "0 < real ?D" "0 < (10 :: real) powi k" using b(5) by simp_all
  have iff: "real ?N < y * real ?D \<longleftrightarrow> double_value v < y * 10 powi k" "y * real ?D \<le> real ?N \<longleftrightarrow> y * 10 powi k \<le> double_value v"
      "real ?N = y * real ?D \<longleftrightarrow> double_value v = y * 10 powi k" for y
  proof -
    have N: "real ?N = real ?D / 10 powi k * double_value v" and Y: "y * real ?D = real ?D / 10 powi k * (y * 10 powi k)"
      and q: "0 < real ?D / 10 powi k" using re D by (simp_all add: field_simps)
    show "real ?N < y * real ?D \<longleftrightarrow> double_value v < y * 10 powi k" "y * real ?D \<le> real ?N \<longleftrightarrow> y * 10 powi k \<le> double_value v"
      "real ?N = y * real ?D \<longleftrightarrow> double_value v = y * 10 powi k"
      unfolding N Y using q by (simp_all only: mult_less_cancel_left_pos mult_le_cancel_left_pos mult_cancel_left) auto
  qed
  have "real ?N < 10 * real ?D" unfolding iff(1) using hi by (simp add: power_int_add mult.commute)
  then have lt: "?N < 10 * ?D" by linarith
  have "1 / 10 * real ?D \<le> real ?N" unfolding iff(2) using est(2) by (simp add: power_int_diff)
  then have ge: "?D \<le> 10 * ?N" by linarith
  have ne: "\<not> ?ev \<Longrightarrow> ?N \<noteq> ?D" using iff(3) [of 1] odd_not_power [OF v, of k] by auto
  have "?D \<le> c * ?N \<and> c * ?N < 10 * ?D" using lt ge ne unfolding fx(5) in_range_def dp by (auto split: if_splits)
  moreover have "real (c * ?N) * 10 powi (p - 1) = real ?D * double_value v"
  proof -
    have "real (c * ?N) * 10 powi (p - 1) = real ?N * (real c * 10 powi (p - 1))" by simp
    then show ?thesis unfolding scale re .
  qed
  ultimately show ?thesis
    using that [OF s(1) fx(1) _ b(2) _ _ b(6)] fx(2) unfolding p_def repr_def by simp
qed

lemma rounded_floor: "0 < D \<Longrightarrow> int (rounded N D) = \<lfloor>real N / real D + 1 / 2\<rfloor>"
proof -
  assume "0 < D"
  then have "real N / real D + 1 / 2 = real (2 * N + D) / real (2 * D)" by (simp add: field_simps)
  then show ?thesis unfolding rounded_def by (simp only: floor_divide_of_nat_eq)
qed

text \<open>The number that rounding \<open>x\<close> to a multiple of \<open>10 ^ q\<close> gives, halfway cases up.\<close>

definition rounded_to :: "int \<Rightarrow> real \<Rightarrow> real" where
  "rounded_to q x = of_int \<lfloor>x / 10 powi q + 1 / 2\<rfloor> * 10 powi q"

lemma counted_decimal:
  assumes "bn_inv num" "bn_inv den" "bn_value num < 10 * bn_value den" "10 * bn_value den < kLimit"
    and x: "real (bn_value num) * 10 powi (p - 1) = real (bn_value den) * x"
    and count: "0 < count" "count \<le> length buffer"
  obtains ds buffer' point where "GenerateCountedDigits count p num den buffer = Some (buffer', count, point)"
    "length buffer' = length buffer" "take count buffer' = map ((+) 48) ds" "length ds = count" "\<forall>d \<in> set ds. d \<le> 9"
    "decimal ds point = rounded_to (p - int count) x"
proof -
  let ?N = "bn_value num" and ?D = "bn_value den" and ?u = "10 powi (p - int count) :: real"
  define X where "X = rounded (?N * 10 ^ (count - 1)) ?D"
  obtain ds buffer' point where r: "GenerateCountedDigits count p num den buffer = Some (buffer', count, point)"
    "length buffer' = length buffer" "take count buffer' = map ((+) 48) ds" "length ds = count" "\<forall>d \<in> set ds. d \<le> 9"
    "point = p \<and> dec ds = X \<or> point = p + 1 \<and> 10 * dec ds = X"
    using GenerateCountedDigits_correct [OF assms(2) less_imp_le [OF assms(4)] assms(1,3) count, of p] unfolding X_def by blast
  have D: "0 < ?D" using assms(3) by (cases ?D) auto
  obtain m where m: "count = Suc m" using count(1) by (cases count) auto
  have u: "10 powi (p - 1) = ?u * 10 ^ m" using powi_shift [of "p - int count" m] m by simp
  have "x = real ?N * 10 powi (p - 1) / real ?D" using x D by (simp add: field_simps)
  then have "x / ?u = real (?N * 10 ^ m) / real ?D" unfolding u by simp
  then have X: "real X * ?u = rounded_to (p - int count) x"
    using rounded_floor [OF D, of "?N * 10 ^ m"] unfolding rounded_to_def X_def m by (metis diff_Suc_1 of_int_of_nat_eq)
  have "decimal ds point = real X * ?u"
    using r(6)
  proof
    assume "point = p \<and> dec ds = X"
    then show ?thesis by (simp add: decimal_def r(4))
  next
    assume a: "point = p + 1 \<and> 10 * dec ds = X"
    have e: "p + 1 - int count = (p - int count) + int 1" by simp
    have "10 powi (p + 1 - int count) = ?u * 10" unfolding e powi_shift by simp
    moreover have "real X = real (dec ds) * 10" using a by auto
    ultimately show ?thesis unfolding decimal_def r(4) using a by simp
  qed
  then show ?thesis using that r(1-5) X by simp
qed

lemma scaled_range:
  assumes "D \<le> N" "N < 10 * D" "real N * 10 powi (p - 1) = real D * x"
  shows "10 powi (p - 1) \<le> x" "x < 10 powi p"
proof -
  have D: "0 < real D" using assms(2) by (cases D) auto
  have "real D * 10 powi (p - 1) \<le> real N * 10 powi (p - 1)" using assms(1) by (intro mult_right_mono) simp_all
  then show "10 powi (p - 1) \<le> x" unfolding assms(3) using D by (simp only: mult_le_cancel_left_pos)
  have "real N < real (10 * D)" using assms(2) by (simp only: of_nat_less_iff)
  then have "real N * 10 powi (p - 1) < real (10 * D) * 10 powi (p - 1)" by (intro mult_strict_right_mono) simp_all
  also have "\<dots> = real D * 10 powi p" by (simp add: power_int_diff)
  finally show "x < 10 powi p" unfolding assms(3) using D by (simp only: mult_less_cancel_left_pos)
qed

lemma BignumDtoa_precision_ok:
  assumes v: "0 < v" "v < kInfinity" and count: "0 < count" "count < length buffer"
  obtains buffer' ds point p where "BignumDtoa v BIGNUM_DTOA_PRECISION (int count) buffer = Some (buffer', count, point)"
    "take count buffer' = map ((+) 48) ds" "buffer' ! count = 0" "length ds = count" "\<forall>d \<in> set ds. d \<le> 9"
    "10 powi (p - 1) \<le> double_value v" "double_value v < 10 powi p" "decimal ds point = rounded_to (p - int count) (double_value v)"
    "length buffer' = length buffer"
proof -
  obtain ne where ne: "NormalizedExponent (Significand v) (Exponent v) = Some ne" "\<bar>EstimatePower ne\<bar> \<le> 324"
      "10 powi (EstimatePower ne - 1) \<le> double_value v"
      "(real (unat (Significand v)) + 1) * 2 powi Exponent v < 10 powi (EstimatePower ne + 1)"
    using estimate_double [OF v] .
  obtain s num den dm dp p where r:
    "InitialScaledStartValues v (EstimatePower ne) False (Bignum_new, Bignum_new, Bignum_new, Bignum_new) = Some s"
    "FixupMultiply10 (EstimatePower ne) (Significand v AND 1 = 0) s = Some (p, num, den, dm, dp)"
    "bn_inv num" "bn_inv den" "bn_value den \<le> bn_value num" "bn_value num < 10 * bn_value den" "10 * bn_value den < kLimit"
    "real (bn_value num) * 10 powi (p - 1) = real (bn_value den) * double_value v"
    using plain_ratio [OF v ne(2-4)] .
  have le: "count \<le> length buffer" using count(2) by simp
  obtain ds buffer1 point where d: "GenerateCountedDigits count p num den buffer = Some (buffer1, count, point)"
    "length buffer1 = length buffer" "take count buffer1 = map ((+) 48) ds" "length ds = count" "\<forall>d \<in> set ds. d \<le> 9"
    "decimal ds point = rounded_to (p - int count) (double_value v)"
    using counted_decimal [OF r(3,4,6,7,8) count(1) le] .
  have "BignumDtoa v BIGNUM_DTOA_PRECISION (int count) buffer = Some (buffer1[count := 0], count, point)"
    using ne(1) r(1,2) d(1,2) count(2) by (simp add: BignumDtoa_def buffer_put_def)
  moreover have "10 powi (p - 1) \<le> double_value v" "double_value v < 10 powi p" using scaled_range [OF r(5,6,8)] .
  ultimately show ?thesis using that [of "buffer1[count := 0]" point ds p] d count(2) by simp
qed

lemma rounded_to_zero:
  assumes "0 \<le> x" "x < 10 powi (- q - 1)"
  shows "rounded_to (- q) x = 0"
proof -
  have "(10 :: real) powi (- q - 1) = 10 powi (- q) / 10" by (simp add: power_int_diff)
  then have "x / 10 powi (- q) < 1 / 10" using assms(2) by (simp add: divide_less_eq)
  moreover have "0 \<le> x / 10 powi (- q)" using assms(1) by simp
  ultimately have "\<lfloor>x / 10 powi (- q) + 1 / 2\<rfloor> = 0" by (intro floor_unique) linarith+
  then show ?thesis by (simp add: rounded_to_def)
qed

lemma decimal_empty: "decimal [] p = 0"
  by (simp add: decimal_def)

text \<open>The case that the first digit is the one after the last requested place.\<close>

lemma rounded_to_first:
  assumes "0 < D" "D \<le> N" "N < 10 * D" "real N * 10 powi (p - 1) = real D * x"
  shows "rounded_to p x = (if 10 * D \<le> 2 * N then 10 powi p else 0)"
proof -
  have "x = real N * 10 powi (p - 1) / real D" using assms(1,4) by (simp add: field_simps)
  then have "x / 10 powi p = real N / real (10 * D)" using assms(1) by (simp add: power_int_diff)
  then have "\<lfloor>x / 10 powi p + 1 / 2\<rfloor> = int (rounded N (10 * D))" using rounded_floor [of "10 * D" N] assms(1) by simp
  also have "rounded N (10 * D) = (if 10 * D \<le> 2 * N then 1 else 0)" using rounded_split [of N "10 * D" 0] assms(3) by simp
  finally show ?thesis by (simp add: rounded_to_def)
qed

lemma BignumToFixed_ok:
  assumes "bn_inv num" "bn_inv den" "bn_value den \<le> bn_value num" "bn_value num < 10 * bn_value den" "10 * bn_value den < kLimit"
    and x: "real (bn_value num) * 10 powi (p - 1) = real (bn_value den) * x"
    and q: "0 \<le> q" "p + q < int (length buffer)" "1 < length buffer"
  obtains buffer' ds point where "BignumToFixed q p num den buffer = Some (buffer', length ds, point)"
    "length buffer' = length buffer" "length ds < length buffer" "take (length ds) buffer' = map ((+) 48) ds" "\<forall>d \<in> set ds. d \<le> 9"
    "decimal ds point = rounded_to (- q) x"
proof -
  note range = scaled_range [OF assms(3,4) x]
  have x0: "0 \<le> x" using range(1) by (meson order_trans zero_le_power_int zero_le_numeral)
  have D: "0 < bn_value den" using assms(4) by (cases "bn_value den") auto
  have ne: "buffer \<noteq> []" using q(3) by auto
  consider "q < - p" | "q = - p" | "0 < p + q" by linarith
  then show ?thesis
  proof cases
    case 1
    have "x < 10 powi (- q - 1)"
      using range(2) 1 by (elim order.strict_trans2) (intro power_int_increasing, simp_all)
    then show ?thesis using that [of buffer "[]" "- q"] 1 ne rounded_to_zero [OF x0] by (simp add: BignumToFixed_def decimal_empty)
  next
    case 2
    obtain den' where den': "Times10 den = Some den'" "bn_inv den'" "bn_value den' = 10 * bn_value den"
      using bn.times10 [OF assms(2,5)] by blast
    have cmp: "PlusCompare num num den' \<ge> 0 \<longleftrightarrow> 10 * bn_value den \<le> 2 * bn_value num"
      using bn.plus_compare_iff(1) [OF assms(1,1) den'(2)] den'(3) by (simp add: mult_2)
    note first = rounded_to_first [OF D assms(3,4) x]
    show ?thesis
    proof (cases "10 * bn_value den \<le> 2 * bn_value num")
      case True
      then have "BignumToFixed q p num den buffer = Some (buffer[0 := 49], length [1 :: nat], p + 1)"
        using 2 den'(1) cmp ne by (simp add: BignumToFixed_def buffer_put_def)
      moreover have "take (length [1 :: nat]) (buffer[0 := 49]) = map ((+) 48) [1]" using q(3) by (cases buffer) auto
      moreover have "decimal [1] (p + 1) = rounded_to (- q) x" using first True 2 by (simp add: decimal_def)
      ultimately show ?thesis using that [of "buffer[0 := 49]" "[1]" "p + 1"] q(3) by simp
    next
      case False
      then have "BignumToFixed q p num den buffer = Some (buffer, length ([] :: nat list), p)"
        using 2 den'(1) cmp by (simp add: BignumToFixed_def)
      then show ?thesis using that [of buffer "[]" p] first False 2 ne by (simp add: decimal_empty)
    qed
  next
    case 3
    have n: "0 < nat (p + q)" "nat (p + q) \<le> length buffer" using 3 q(2) by simp_all
    obtain ds buffer' point where d: "GenerateCountedDigits (nat (p + q)) p num den buffer = Some (buffer', nat (p + q), point)"
      "length buffer' = length buffer" "take (nat (p + q)) buffer' = map ((+) 48) ds" "length ds = nat (p + q)" "\<forall>d \<in> set ds. d \<le> 9"
      "decimal ds point = rounded_to (p - int (nat (p + q))) x"
      using counted_decimal [OF assms(1,2,4,5) x n] .
    moreover have "p - int (nat (p + q)) = - q" using 3 by simp
    ultimately show ?thesis using that [of buffer' ds point] 3 q(2) by (simp add: BignumToFixed_def)
  qed
qed

lemma BignumDtoa_fixed_ok:
  assumes v: "0 < v" "v < kInfinity" and q: "0 \<le> q" "q + 326 < int (length buffer)"
  obtains buffer' ds point where "BignumDtoa v BIGNUM_DTOA_FIXED q buffer = Some (buffer', length ds, point)"
    "take (length ds) buffer' = map ((+) 48) ds" "buffer' ! length ds = 0" "\<forall>d \<in> set ds. d \<le> 9"
    "decimal ds point = rounded_to (- q) (double_value v)" "length buffer' = length buffer" "length ds < length buffer"
proof -
  obtain ne where ne: "NormalizedExponent (Significand v) (Exponent v) = Some ne" "\<bar>EstimatePower ne\<bar> \<le> 324"
      "10 powi (EstimatePower ne - 1) \<le> double_value v"
      "(real (unat (Significand v)) + 1) * 2 powi Exponent v < 10 powi (EstimatePower ne + 1)"
    using estimate_double [OF v] .
  define k where "k = EstimatePower ne"
  have hi: "double_value v < 10 powi (k + 1)" unfolding k_def using below_successor ne(4) by (rule less_trans)
  have pos: "0 \<le> double_value v" using ne(3) by (meson order_trans zero_le_power_int zero_le_numeral)
  have len: "0 < length buffer" "1 < length buffer" using q by linarith+
  show ?thesis
  proof (cases "- k - 1 > q")
    case True
    then have "BignumDtoa v BIGNUM_DTOA_FIXED q buffer = Some (buffer[0 := 0], length ([] :: nat list), - q)"
      using ne(1) len by (simp add: BignumDtoa_def k_def buffer_put_def)
    moreover have "double_value v < 10 powi (- q - 1)"
      using hi True by (elim order.strict_trans2) (intro power_int_increasing, simp_all)
    ultimately show ?thesis using that [of "buffer[0 := 0]" "[]" "- q"] len rounded_to_zero [OF pos] by (simp add: decimal_empty)
  next
    case False
    obtain s num den dm dp p where r:
      "InitialScaledStartValues v k False (Bignum_new, Bignum_new, Bignum_new, Bignum_new) = Some s"
      "FixupMultiply10 k (Significand v AND 1 = 0) s = Some (p, num, den, dm, dp)"
      "bn_inv num" "bn_inv den" "bn_value den \<le> bn_value num" "bn_value num < 10 * bn_value den" "10 * bn_value den < kLimit"
      "real (bn_value num) * 10 powi (p - 1) = real (bn_value den) * double_value v"
      using plain_ratio [OF v ne(2-4)] unfolding k_def .
    have "10 powi (p - 1) < (10 :: real) powi (k + 1)" using scaled_range(1) [OF r(5,6,8)] hi by linarith
    then have "p - 1 < k + 1" by (metis not_le one_le_numeral power_int_increasing)
    then have room: "p + q < int (length buffer)" using ne(2) q(2) by (simp add: k_def)
    obtain buffer1 ds point where d: "BignumToFixed q p num den buffer = Some (buffer1, length ds, point)"
      "length buffer1 = length buffer" "length ds < length buffer" "take (length ds) buffer1 = map ((+) 48) ds" "\<forall>d \<in> set ds. d \<le> 9"
      "decimal ds point = rounded_to (- q) (double_value v)"
      using BignumToFixed_ok [OF r(3-8) q(1) room len(2)] .
    have "BignumDtoa v BIGNUM_DTOA_FIXED q buffer = Some (buffer1[length ds := 0], length ds, point)"
      using ne(1) r(1,2) d(1-3) False by (simp add: BignumDtoa_def k_def buffer_put_def)
    then show ?thesis using that [of "buffer1[length ds := 0]" ds point] d by simp
  qed
qed

section \<open>The three modes\<close>

text \<open>
  Shortest mode.  For every positive finite double and a buffer of at least 18 characters,
  \<^verbatim>\<open>BignumDtoa\<close> returns (its loop ends, no bignum is exhausted, no assertion fails, no write leaves
  the buffer) between one and seventeen decimal digits, terminated by a zero character.  The decimal
  lies between the midpoints to the neighbouring doubles, at a midpoint only for an even
  significand; among all multiples of its last place that do so it is one closest to the double; and
  if it has two digits or more, no multiple of the next coarser place lies there.
\<close>

theorem BignumDtoa_shortest:
  assumes "0 < v" "v < kInfinity" "18 \<le> length buffer"
  shows "\<exists>buffer' ds point. BignumDtoa v BIGNUM_DTOA_SHORTEST requested_digits buffer = Some (buffer', length ds, point)
    \<and> take (length ds) buffer' = map ((+) 48) ds \<and> buffer' ! length ds = 0
    \<and> 1 \<le> length ds \<and> length ds \<le> 17 \<and> list_all (\<lambda>d. d \<le> 9) ds \<and> shortest_decimal v ds point"
  unfolding list_all_iff by (rule BignumDtoa_shortest_ok [OF assms]) blast

theorem BignumDtoa_shortest_witness:
  "\<exists>buffer' ds point. BignumDtoa 0x3FD3333333333333 BIGNUM_DTOA_SHORTEST 0 (replicate 18 0) = Some (buffer', length ds, point)
    \<and> length ds \<le> 17 \<and> shortest_decimal 0x3FD3333333333333 ds point"
proof -
  have v: "(0 :: 64 word) < 0x3FD3333333333333" "0x3FD3333333333333 < kInfinity" by (simp_all add: kInfinity_def)
  have "18 \<le> length (replicate 18 (0 :: nat))" by simp
  from BignumDtoa_shortest [OF v this, of 0] show ?thesis by blast
qed

text \<open>
  Reading back.  The decimal the shortest mode prints is at least as close to the double as to
  any other finite double, and as close to another one only if the significand is even: rounding to
  nearest with ties to even turns it back into the same double.
\<close>

theorem BignumDtoa_reads_back:
  assumes "0 < v" "v < kInfinity" "18 \<le> length buffer" "w < kInfinity" "w \<noteq> v"
  shows "\<exists>buffer' ds point. BignumDtoa v BIGNUM_DTOA_SHORTEST requested_digits buffer = Some (buffer', length ds, point)
    \<and> take (length ds) buffer' = map ((+) 48) ds
    \<and> \<bar>decimal ds point - double_value v\<bar> \<le> \<bar>decimal ds point - double_value w\<bar>
    \<and> (\<bar>decimal ds point - double_value v\<bar> < \<bar>decimal ds point - double_value w\<bar> \<or> even (unat (Significand v)))"
proof -
  obtain buffer' ds point where r: "BignumDtoa v BIGNUM_DTOA_SHORTEST requested_digits buffer = Some (buffer', length ds, point)"
      "take (length ds) buffer' = map ((+) 48) ds" "shortest_decimal v ds point"
    using BignumDtoa_shortest_ok [OF assms(1-3)] by metis
  then have "reads_as v (decimal ds point)" by (simp add: shortest_decimal_def Let_def)
  from reads_as_nearest [OF assms(1,2) this assms(4,5)] show ?thesis using r(1,2) odd_significand [of v] by fastforce
qed

theorem BignumDtoa_reads_back_witness:
  "\<exists>buffer' ds point. BignumDtoa 1 BIGNUM_DTOA_SHORTEST 0 (replicate 18 0) = Some (buffer', length ds, point)
    \<and> \<bar>decimal ds point - double_value 1\<bar> < \<bar>decimal ds point - double_value 2\<bar>"
proof -
  have "odd (unat (Significand 1))" using Significand_eq [of 1] by (simp add: kInfinity_def)
  then show ?thesis using BignumDtoa_reads_back [of 1 "replicate 18 0" 2 0] by (auto simp: kInfinity_def)
qed

text \<open>
  Precision mode.  For a positive number of digits that fits into the buffer, \<^verbatim>\<open>BignumDtoa\<close>
  returns exactly that many digits; the decimal is the double rounded to that many significant
  digits, halfway cases up, also when the carry runs through all digits and moves the point.
\<close>

theorem BignumDtoa_precision:
  assumes "0 < v" "v < kInfinity" "0 < count" "count < length buffer"
  shows "\<exists>buffer' ds point p. BignumDtoa v BIGNUM_DTOA_PRECISION (int count) buffer = Some (buffer', count, point)
    \<and> take count buffer' = map ((+) 48) ds \<and> buffer' ! count = 0 \<and> list_all (\<lambda>d. d \<le> 9) ds
    \<and> 10 powi (p - 1) \<le> double_value v \<and> double_value v < 10 powi p
    \<and> decimal ds point = of_int \<lfloor>double_value v / 10 powi (p - int count) + 1 / 2\<rfloor> * 10 powi (p - int count)"
  unfolding list_all_iff rounded_to_def [symmetric] by (rule BignumDtoa_precision_ok [OF assms]) blast

theorem BignumDtoa_precision_witness:
  "\<exists>buffer' point. BignumDtoa 0x3FEFFFFFFFFFFFFF BIGNUM_DTOA_PRECISION (int 5) (replicate 6 0) = Some (buffer', 5, point)"
proof -
  have v: "(0 :: 64 word) < 0x3FEFFFFFFFFFFFFF" "0x3FEFFFFFFFFFFFFF < kInfinity" by (simp_all add: kInfinity_def)
  have "(0 :: nat) < 5" "5 < length (replicate 6 (0 :: nat))" by simp_all
  from BignumDtoa_precision [OF v this] show ?thesis by blast
qed

text \<open>
  Fixed mode.  For a number of digits after the point that is not negative and a buffer that is
  long enough for every double, the decimal \<^verbatim>\<open>BignumDtoa\<close> returns is the double rounded to that many
  digits after the point, halfway cases up; the empty buffer stands for zero, on the shortcut for
  much too small numbers as well as on the two branches of \<^verbatim>\<open>BignumToFixed\<close> that generate no digits.
\<close>

theorem BignumDtoa_fixed:
  assumes "0 < v" "v < kInfinity" "0 \<le> requested_digits" "requested_digits + 326 < int (length buffer)"
  shows "\<exists>buffer' ds point. BignumDtoa v BIGNUM_DTOA_FIXED requested_digits buffer = Some (buffer', length ds, point)
    \<and> take (length ds) buffer' = map ((+) 48) ds \<and> buffer' ! length ds = 0 \<and> list_all (\<lambda>d. d \<le> 9) ds
    \<and> decimal ds point = of_int \<lfloor>double_value v / 10 powi (- requested_digits) + 1 / 2\<rfloor> * 10 powi (- requested_digits)"
  unfolding list_all_iff rounded_to_def [symmetric] by (rule BignumDtoa_fixed_ok [OF assms]) blast

theorem BignumDtoa_fixed_witness:
  "\<exists>buffer' ds point. BignumDtoa 0x3FE0000000000000 BIGNUM_DTOA_FIXED 0 (replicate 327 0) = Some (buffer', length ds, point)
    \<and> decimal ds point = of_int \<lfloor>double_value 0x3FE0000000000000 / 10 powi (- 0) + 1 / 2\<rfloor> * 10 powi (- 0)"
proof -
  have v: "(0 :: 64 word) < 0x3FE0000000000000" "0x3FE0000000000000 < kInfinity" by (simp_all add: kInfinity_def)
  have "0 + 326 < int (length (replicate 327 (0 :: nat)))" by simp
  from BignumDtoa_fixed [OF v order.refl this] show ?thesis by blast
qed

end
