(* ===== verification/Fixed_Dtoa.thy ===== *)
theory Fixed_Dtoa
  imports Dtoa_Correct
begin

text \<open>
  The fast conversion to a fixed number of digits after the point, \<^verbatim>\<open>src/fixed-dtoa.cc\<close>.  Unsigned integers are natural
  numbers with the truncation to 64 or 32 bits written out, the buffer is a list of character codes of the length
  the caller provides; a write outside of it and a failing assertion are \<open>None\<close>, and \<open>Some None\<close> is the answer \<open>false\<close>.
  What a shift by a negative number of bits gives is left open by the language: it is the parameter \<open>undefined_shift\<close>.
\<close>

section \<open>The program\<close>

subsection \<open>Numbers of 128 bits\<close>

record uint128 =
  high_bits :: nat
  low_bits :: nat

definition UInt128_Multiply :: "nat \<Rightarrow> uint128 \<Rightarrow> uint128 option" where
  "UInt128_Multiply multiplicand u =
     (let accumulator = uint64 (low_bits u mod 2 ^ 32 * multiplicand);
          part = accumulator mod 2 ^ 32;
          accumulator = accumulator div 2 ^ 32;
          accumulator = uint64 (accumulator + low_bits u div 2 ^ 32 * multiplicand);
          low = uint64 (uint64 (accumulator * 2 ^ 32) + part);
          accumulator = accumulator div 2 ^ 32;
          accumulator = uint64 (accumulator + high_bits u mod 2 ^ 32 * multiplicand);
          part = accumulator mod 2 ^ 32;
          accumulator = accumulator div 2 ^ 32;
          accumulator = uint64 (accumulator + high_bits u div 2 ^ 32 * multiplicand);
          high = uint64 (uint64 (accumulator * 2 ^ 32) + part)
      in if accumulator div 2 ^ 32 = 0 then Some \<lparr>high_bits = high, low_bits = low\<rparr> else None)"

definition UInt128_Shift :: "int \<Rightarrow> uint128 \<Rightarrow> uint128 option" where
  "UInt128_Shift shift_amount u =
     (if shift_amount < -64 \<or> 64 < shift_amount then None
      else if shift_amount = 0 then Some u
      else if shift_amount = -64 then Some \<lparr>high_bits = low_bits u, low_bits = 0\<rparr>
      else if shift_amount = 64 then Some \<lparr>high_bits = 0, low_bits = high_bits u\<rparr>
      else if shift_amount \<le> 0 then
        Some \<lparr>high_bits = uint64 (uint64 (high_bits u * 2 ^ nat (- shift_amount)) + low_bits u div 2 ^ nat (64 + shift_amount)),
              low_bits = uint64 (low_bits u * 2 ^ nat (- shift_amount))\<rparr>
      else
        Some \<lparr>high_bits = high_bits u div 2 ^ nat shift_amount,
              low_bits = uint64 (low_bits u div 2 ^ nat shift_amount + uint64 (high_bits u * 2 ^ nat (64 - shift_amount)))\<rparr>)"

definition DivModPowerOf2 :: "nat \<Rightarrow> uint128 \<Rightarrow> nat \<times> uint128" where
  "DivModPowerOf2 k u =
     (if k \<ge> 64 then
        (let result = uint32 (high_bits u div 2 ^ (k - 64))
         in (result, u \<lparr>high_bits := sub64 (high_bits u) (result * 2 ^ (k - 64))\<rparr>))
      else
        (let part_low = low_bits u div 2 ^ k;
             part_high = uint64 (high_bits u * 2 ^ (64 - k));
             result = uint32 (uint64 (part_low + part_high))
         in (result, \<lparr>high_bits = 0, low_bits = sub64 (low_bits u) (part_low * 2 ^ k)\<rparr>)))"

definition IsZero :: "uint128 \<Rightarrow> bool" where
  "IsZero u \<longleftrightarrow> high_bits u = 0 \<and> low_bits u = 0"

definition BitAt :: "nat \<Rightarrow> uint128 \<Rightarrow> nat" where
  "BitAt position u = (if position \<ge> 64 then high_bits u div 2 ^ (position - 64) mod 2 else low_bits u div 2 ^ position mod 2)"

subsection \<open>Filling the buffer\<close>

definition kDoubleSignificandSize :: int where
  "kDoubleSignificandSize = 53"

fun fixed_loop :: "nat \<Rightarrow> nat \<Rightarrow> nat \<Rightarrow> nat list \<Rightarrow> nat list option" where
  "fixed_loop 0 number len buffer = Some buffer"
| "fixed_loop (Suc i) number len buffer = do {
     buffer \<leftarrow> buffer_put buffer (len + i) (48 + number mod 10);
     fixed_loop i (number div 10) len buffer
   }"

definition FillDigits32FixedLength :: "nat \<Rightarrow> nat \<Rightarrow> nat list \<times> nat \<Rightarrow> (nat list \<times> nat) option" where
  "FillDigits32FixedLength number requested_length = (\<lambda>(buffer, len). do {
     buffer \<leftarrow> fixed_loop requested_length number len buffer;
     Some (buffer, len + requested_length)
   })"

function fill_reverse :: "nat \<Rightarrow> nat \<Rightarrow> nat \<Rightarrow> nat list \<Rightarrow> (nat list \<times> nat) option" where
  "fill_reverse number len number_length buffer =
     (if number = 0 then Some (buffer, number_length)
      else do {
        buffer \<leftarrow> buffer_put buffer (len + number_length) (48 + number mod 10);
        fill_reverse (number div 10) len (number_length + 1) buffer
      })"
  by pat_completeness auto

termination
  by (relation "measure (\<lambda>(number, _). number)") auto

declare fill_reverse.simps [simp del]

function exchange :: "nat \<Rightarrow> nat \<Rightarrow> nat list \<Rightarrow> nat list" where
  "exchange i j buffer = (if i < j then exchange (i + 1) (j - 1) (buffer[i := buffer ! j, j := buffer ! i]) else buffer)"
  by pat_completeness auto

termination
  by (relation "measure (\<lambda>(i, j, _). j - i)") auto

declare exchange.simps [simp del]

definition FillDigits32 :: "nat \<Rightarrow> nat list \<times> nat \<Rightarrow> (nat list \<times> nat) option" where
  "FillDigits32 number = (\<lambda>(buffer, len). do {
     (buffer, number_length) \<leftarrow> fill_reverse number len 0 buffer;
     Some (exchange len (len + number_length - 1) buffer, len + number_length)
   })"

definition kTen7 :: nat where
  "kTen7 = 10000000"

definition FillDigits64FixedLength :: "nat \<Rightarrow> nat list \<times> nat \<Rightarrow> (nat list \<times> nat) option" where
  "FillDigits64FixedLength number s =
     (let part2 = uint32 (number mod kTen7);
          number = number div kTen7;
          part1 = uint32 (number mod kTen7);
          part0 = uint32 (number div kTen7)
      in do {
        s \<leftarrow> FillDigits32FixedLength part0 3 s;
        s \<leftarrow> FillDigits32FixedLength part1 7 s;
        FillDigits32FixedLength part2 7 s
      })"

definition FillDigits64 :: "nat \<Rightarrow> nat list \<times> nat \<Rightarrow> (nat list \<times> nat) option" where
  "FillDigits64 number s =
     (let part2 = uint32 (number mod kTen7);
          number = number div kTen7;
          part1 = uint32 (number mod kTen7);
          part0 = uint32 (number div kTen7)
      in if part0 \<noteq> 0 then do {
           s \<leftarrow> FillDigits32 part0 s;
           s \<leftarrow> FillDigits32FixedLength part1 7 s;
           FillDigits32FixedLength part2 7 s
         }
         else if part1 \<noteq> 0 then do {
           s \<leftarrow> FillDigits32 part1 s;
           FillDigits32FixedLength part2 7 s
         }
         else FillDigits32 part2 s)"

definition RoundUp :: "nat list \<Rightarrow> nat \<Rightarrow> int \<Rightarrow> (nat list \<times> nat \<times> int) option" where
  "RoundUp buffer len decimal_point =
     (if len = 0 then do {
        buffer \<leftarrow> buffer_put buffer 0 49;
        Some (buffer, 1, 1)
      }
      else do {
        digit \<leftarrow> buffer_get buffer (len - 1);
        let buffer = propagate_carry (len - 1) (buffer[len - 1 := digit + 1]);
        if buffer ! 0 = 48 + 10 then Some (buffer[0 := 49], len, decimal_point + 1) else Some (buffer, len, decimal_point)
      })"

subsection \<open>The digits after the point\<close>

definition shr :: "(nat \<Rightarrow> int \<Rightarrow> nat) \<Rightarrow> nat \<Rightarrow> int \<Rightarrow> nat" where
  "shr undefined_shift x n = (if 0 \<le> n \<and> n < 64 then x div 2 ^ nat n else undefined_shift x n)"

definition shl :: "(nat \<Rightarrow> int \<Rightarrow> nat) \<Rightarrow> nat \<Rightarrow> int \<Rightarrow> nat" where
  "shl undefined_shift x n = (if 0 \<le> n \<and> n < 64 then uint64 (x * 2 ^ nat n) else undefined_shift x n)"

text \<open>The loop over the fractional digits, which the code has once for 64 and once for 128 bits.\<close>

fun fraction_loop :: "('a \<Rightarrow> bool) \<Rightarrow> (int \<Rightarrow> 'a \<Rightarrow> (nat \<times> 'a) option) \<Rightarrow> nat \<Rightarrow> int \<Rightarrow> 'a \<Rightarrow> nat list \<Rightarrow> nat \<Rightarrow>
    ('a \<times> int \<times> nat list \<times> nat) option" where
  "fraction_loop is_zero next_digit 0 point fractionals buffer len = Some (fractionals, point, buffer, len)"
| "fraction_loop is_zero next_digit (Suc n) point fractionals buffer len =
     (if is_zero fractionals then Some (fractionals, point, buffer, len)
      else do {
        (digit, fractionals) \<leftarrow> next_digit (point - 1) fractionals;
        buffer \<leftarrow> buffer_put buffer len (48 + digit);
        fraction_loop is_zero next_digit n (point - 1) fractionals buffer (len + 1)
      })"

definition next_digit64 :: "(nat \<Rightarrow> int \<Rightarrow> nat) \<Rightarrow> int \<Rightarrow> nat \<Rightarrow> (nat \<times> nat) option" where
  "next_digit64 undefined_shift point fractionals =
     (let fractionals = uint64 (fractionals * 5);
          digit = uint32 (shr undefined_shift fractionals point)
      in Some (digit, sub64 fractionals (shl undefined_shift digit point)))"

definition next_digit128 :: "int \<Rightarrow> uint128 \<Rightarrow> (nat \<times> uint128) option" where
  "next_digit128 point fractionals = do {
     fractionals \<leftarrow> UInt128_Multiply 5 fractionals;
     Some (DivModPowerOf2 (nat point) fractionals)
   }"

definition FillFractionals :: "(nat \<Rightarrow> int \<Rightarrow> nat) \<Rightarrow> nat \<Rightarrow> int \<Rightarrow> int \<Rightarrow> nat list \<Rightarrow> nat \<Rightarrow> int \<Rightarrow> (nat list \<times> nat \<times> int) option" where
  "FillFractionals undefined_shift fractionals expo fractional_count buffer len decimal_point =
     (if \<not> (-128 \<le> expo \<and> expo \<le> 0) then None
      else if - expo \<le> 64 then
        (if fractionals div 2 ^ 56 \<noteq> 0 then None
         else do {
           (fractionals, point, buffer, len) \<leftarrow>
             fraction_loop (\<lambda>x. x = 0) (next_digit64 undefined_shift) (nat fractional_count) (- expo) fractionals buffer len;
           if shr undefined_shift fractionals (point - 1) mod 2 = 1 then RoundUp buffer len decimal_point
           else Some (buffer, len, decimal_point)
         })
      else do {
        fractionals128 \<leftarrow> UInt128_Shift (- expo - 64) \<lparr>high_bits = fractionals, low_bits = 0\<rparr>;
        (fractionals128, point, buffer, len) \<leftarrow> fraction_loop IsZero next_digit128 (nat fractional_count) 128 fractionals128 buffer len;
        if BitAt (nat (point - 1)) fractionals128 = 1 then RoundUp buffer len decimal_point
        else Some (buffer, len, decimal_point)
      })"

subsection \<open>Trimming\<close>

fun trim_end :: "nat list \<Rightarrow> nat \<Rightarrow> nat" where
  "trim_end buffer 0 = 0"
| "trim_end buffer (Suc n) = (if buffer ! n = 48 then trim_end buffer n else Suc n)"

function trim_start :: "nat list \<Rightarrow> nat \<Rightarrow> nat \<Rightarrow> nat" where
  "trim_start buffer len i = (if i < len \<and> buffer ! i = 48 then trim_start buffer len (i + 1) else i)"
  by pat_completeness auto

termination
  by (relation "measure (\<lambda>(_, len, i). len - i)") auto

declare trim_start.simps [simp del]

function shift_front :: "nat \<Rightarrow> nat \<Rightarrow> nat \<Rightarrow> nat list \<Rightarrow> nat list" where
  "shift_front k len i buffer = (if i < len then shift_front k len (i + 1) (buffer[i - k := buffer ! i]) else buffer)"
  by pat_completeness auto

termination
  by (relation "measure (\<lambda>(_, len, i, _). len - i)") auto

declare shift_front.simps [simp del]

definition TrimZeros :: "nat list \<Rightarrow> nat \<Rightarrow> int \<Rightarrow> nat list \<times> nat \<times> int" where
  "TrimZeros buffer len decimal_point =
     (let len = trim_end buffer len;
          first_non_zero = trim_start buffer len 0
      in if first_non_zero \<noteq> 0
         then (shift_front first_non_zero len first_non_zero buffer, len - first_non_zero, decimal_point - int first_non_zero)
         else (buffer, len, decimal_point))"

subsection \<open>The conversion\<close>

definition kFive17 :: nat where
  "kFive17 = 0xB1A2BC2EC5"

definition split17 :: "nat \<Rightarrow> int \<Rightarrow> nat \<times> nat" where
  "split17 significand expo =
     (if expo > 17 then
        (let dividend = uint64 (significand * 2 ^ nat (expo - 17))
         in (uint32 (dividend div kFive17), uint64 (dividend mod kFive17 * 2 ^ 17)))
      else
        (let divisor = uint64 (kFive17 * 2 ^ nat (17 - expo))
         in (uint32 (significand div divisor), uint64 (significand mod divisor * 2 ^ nat expo))))"

definition fixed_digits :: "(nat \<Rightarrow> int \<Rightarrow> nat) \<Rightarrow> nat \<Rightarrow> int \<Rightarrow> int \<Rightarrow> nat list \<Rightarrow> (nat list \<times> nat \<times> int) option" where
  "fixed_digits undefined_shift significand expo fractional_count buffer =
     (if expo + kDoubleSignificandSize > 64 then
        (let (quotient, remainder) = split17 significand expo
         in do {
           s \<leftarrow> FillDigits32 quotient (buffer, 0);
           (buffer, len) \<leftarrow> FillDigits64FixedLength remainder s;
           Some (buffer, len, int len)
         })
      else if expo \<ge> 0 then do {
        (buffer, len) \<leftarrow> FillDigits64 (uint64 (significand * 2 ^ nat expo)) (buffer, 0);
        Some (buffer, len, int len)
      }
      else if expo > - kDoubleSignificandSize then
        (let integrals = significand div 2 ^ nat (- expo);
             fractionals = sub64 significand (integrals * 2 ^ nat (- expo))
         in do {
           (buffer, len) \<leftarrow> (if integrals > 0xFFFFFFFF then FillDigits64 integrals (buffer, 0) else FillDigits32 (uint32 integrals) (buffer, 0));
           FillFractionals undefined_shift fractionals expo fractional_count buffer len (int len)
         })
      else if expo < -128 then do {
        buffer \<leftarrow> buffer_put buffer 0 0;
        Some (buffer, 0, - fractional_count)
      }
      else FillFractionals undefined_shift significand expo fractional_count buffer 0 0)"

definition FastFixedDtoa :: "(nat \<Rightarrow> int \<Rightarrow> nat) \<Rightarrow> 64 word \<Rightarrow> int \<Rightarrow> nat list \<Rightarrow> (nat list \<times> nat \<times> int) option option" where
  "FastFixedDtoa undefined_shift v fractional_count buffer =
     (let significand = unat (Significand v);
          expo = Exponent v
      in if expo > 20 then Some None
         else if fractional_count > 20 then Some None
         else do {
           (buffer, len, decimal_point) \<leftarrow> fixed_digits undefined_shift significand expo fractional_count buffer;
           let (buffer, len, decimal_point) = TrimZeros buffer len decimal_point;
           buffer \<leftarrow> buffer_put buffer len 0;
           Some (Some (buffer, len, if len = 0 then - fractional_count else decimal_point))
         })"


section \<open>Digits in the buffer\<close>

definition holds :: "nat list \<Rightarrow> nat \<Rightarrow> nat list \<Rightarrow> bool" where
  "holds buffer len ds \<longleftrightarrow> length ds = len \<and> len \<le> length buffer \<and> take len buffer = map ((+) 48) ds \<and> (\<forall>d\<in>set ds. d \<le> 9)"

lemma holds_nth: "holds buffer len ds \<Longrightarrow> i < len \<Longrightarrow> buffer ! i = 48 + ds ! i"
  unfolding holds_def by (metis nth_map nth_take)

lemma holds_cong:
  assumes "holds buffer len ds" "length buffer' = length buffer" "\<And>i. i < len \<Longrightarrow> buffer' ! i = buffer ! i"
  shows "holds buffer' len ds"
proof -
  have "len \<le> length buffer" using assms(1) by (simp add: holds_def)
  then have "take len buffer' = take len buffer" using assms(2,3) by (intro nth_equalityI) auto
  then show ?thesis using assms(1,2) by (simp add: holds_def)
qed

lemma holdsI:
  assumes "length ds = len" "len \<le> length buffer" "\<And>i. i < len \<Longrightarrow> buffer ! i = 48 + ds ! i" "\<forall>d\<in>set ds. d \<le> 9"
  shows "holds buffer len ds"
proof -
  have "take len buffer = map ((+) 48) ds" using assms by (intro nth_equalityI) auto
  then show ?thesis using assms by (simp add: holds_def)
qed

lemma holds_append:
  assumes "holds buffer len ds" "length buffer' = length buffer" "\<And>i. i < len \<Longrightarrow> buffer' ! i = buffer ! i"
    and "len + length es \<le> length buffer" "\<And>i. i < length es \<Longrightarrow> buffer' ! (len + i) = 48 + es ! i" "\<forall>d\<in>set es. d \<le> 9"
  shows "holds buffer' (len + length es) (ds @ es)"
proof (rule holdsI)
  show "length (ds @ es) = len + length es" "len + length es \<le> length buffer'" "\<forall>d\<in>set (ds @ es). d \<le> 9"
    using assms by (auto simp: holds_def)
  fix i assume i: "i < len + length es"
  have l: "length ds = len" using assms(1) by (simp add: holds_def)
  show "buffer' ! i = 48 + (ds @ es) ! i"
  proof (cases "i < len")
    case True
    then show ?thesis using assms(3) holds_nth [OF assms(1)] l by (simp add: nth_append)
  next
    case False
    then show ?thesis using assms(5) [of "i - len"] i l by (simp add: nth_append)
  qed
qed

lemma dec_app: "dec (xs @ ys) = dec xs * 10 ^ length ys + dec ys"
  by (induction xs) (simp_all add: algebra_simps power_add)

text \<open>The digits of a number, with leading zeros up to a length and without them.\<close>

fun fixed :: "nat \<Rightarrow> nat \<Rightarrow> nat list" where
  "fixed 0 n = []"
| "fixed (Suc i) n = fixed i (n div 10) @ [n mod 10]"

fun digits :: "nat \<Rightarrow> nat list" where
  "digits n = (if n = 0 then [] else digits (n div 10) @ [n mod 10])"

declare digits.simps [simp del]

lemma fixed_ok: "length (fixed k n) = k \<and> (\<forall>d\<in>set (fixed k n). d \<le> 9)" and dec_fixed: "dec (fixed k n) = n mod 10 ^ k"
proof -
  show "length (fixed k n) = k \<and> (\<forall>d\<in>set (fixed k n). d \<le> 9)"
    by (induction k n rule: fixed.induct) auto
  show "dec (fixed k n) = n mod 10 ^ k"
    by (induction k n rule: fixed.induct) (simp_all add: dec_append mod_mult2_eq)
qed

lemma digits_ok: "\<forall>d\<in>set (digits n). d \<le> 9" and dec_digits: "dec (digits n) = n"
proof -
  show "\<forall>d\<in>set (digits n). d \<le> 9"
    by (induction n rule: digits.induct) (subst digits.simps, auto)
  show "dec (digits n) = n"
  proof (induction n rule: digits.induct)
    case (1 n)
    then show ?case by (cases "n = 0") (simp_all add: digits.simps [of 0] digits.simps [of n] dec_append)
  qed
qed

lemma digits_length: "n < 10 ^ k \<Longrightarrow> length (digits n) \<le> k"
proof (induction k arbitrary: n)
  case (Suc k)
  then have "n div 10 < 10 ^ k" by auto
  then show ?case using Suc.IH by (subst digits.simps) auto
qed (simp add: digits.simps)

lemma fixed_loop_ok:
  "len + k \<le> length buffer \<Longrightarrow>
   \<exists>buffer'. fixed_loop k n len buffer = Some buffer' \<and> length buffer' = length buffer \<and>
     (\<forall>i. i < len \<or> len + k \<le> i \<longrightarrow> buffer' ! i = buffer ! i) \<and> (\<forall>i<k. buffer' ! (len + i) = 48 + fixed k n ! i)"
proof (induction k n len buffer rule: fixed_loop.induct)
  case (2 k n len buffer)
  let ?b = "buffer[len + k := 48 + n mod 10]"
  have p: "buffer_put buffer (len + k) (48 + n mod 10) = Some ?b" using 2(2) by (simp add: buffer_put_def)
  have "len + k \<le> length ?b" using 2(2) by simp
  from "2.IH" [OF p this] obtain b' where b': "fixed_loop k (n div 10) len ?b = Some b'" "length b' = length ?b"
      "\<forall>i. i < len \<or> len + k \<le> i \<longrightarrow> b' ! i = ?b ! i" "\<forall>i<k. b' ! (len + i) = 48 + fixed k (n div 10) ! i"
    by blast
  have "b' ! (len + i) = 48 + fixed (Suc k) n ! i" if "i < Suc k" for i
    using that b'(3) [rule_format, of "len + i"] b'(4) [rule_format, of i] fixed_ok [of k "n div 10"] 2(2) by (cases "i = k") (auto simp: nth_append)
  then show ?case using p b' by auto
qed simp

lemma FillDigits32FixedLength_ok:
  assumes "holds buffer len ds" "len + k \<le> length buffer"
  shows "\<exists>buffer'. FillDigits32FixedLength n k (buffer, len) = Some (buffer', len + k) \<and> length buffer' = length buffer \<and>
    holds buffer' (len + k) (ds @ fixed k n)"
proof -
  obtain b' where b': "fixed_loop k n len buffer = Some b'" "length b' = length buffer"
      "\<forall>i. i < len \<or> len + k \<le> i \<longrightarrow> b' ! i = buffer ! i" "\<forall>i<k. b' ! (len + i) = 48 + fixed k n ! i"
    using fixed_loop_ok [OF assms(2)] by blast
  have "holds b' (len + length (fixed k n)) (ds @ fixed k n)"
    using holds_append [OF assms(1), of b' "fixed k n"] b' assms(2) fixed_ok [of k n] by simp
  then show ?thesis using b' fixed_ok [of k n] by (simp add: FillDigits32FixedLength_def)
qed

lemma fill_reverse_ok:
  "len + k + length (digits n) \<le> length buffer \<Longrightarrow>
   \<exists>buffer'. fill_reverse n len k buffer = Some (buffer', k + length (digits n)) \<and> length buffer' = length buffer \<and>
     (\<forall>i<len + k. buffer' ! i = buffer ! i) \<and> (\<forall>i<length (digits n). buffer' ! (len + k + i) = 48 + rev (digits n) ! i)"
proof (induction n arbitrary: k buffer rule: less_induct)
  case (less n)
  show ?case
  proof (cases "n = 0")
    case True
    then show ?thesis by (simp add: fill_reverse.simps digits.simps)
  next
    case False
    let ?b = "buffer[len + k := 48 + n mod 10]"
    have d: "digits n = digits (n div 10) @ [n mod 10]" using False by (simp add: digits.simps)
    have p: "buffer_put buffer (len + k) (48 + n mod 10) = Some ?b" using less.prems d by (simp add: buffer_put_def)
    obtain b' where b': "fill_reverse (n div 10) len (k + 1) ?b = Some (b', k + 1 + length (digits (n div 10)))" "length b' = length buffer"
        "\<forall>i<len + k + 1. b' ! i = ?b ! i" "\<forall>i<length (digits (n div 10)). b' ! (len + k + 1 + i) = 48 + rev (digits (n div 10)) ! i"
      using less.IH [of "n div 10" "k + 1" ?b] less.prems False d by auto
    have "b' ! (len + k + i) = 48 + rev (digits n) ! i" if "i < length (digits n)" for i
      using that b'(3,4) d less.prems by (cases i) auto
    then show ?thesis using False p b' d by (subst fill_reverse.simps) auto
  qed
qed

lemma exchange_ok:
  "j < length buffer \<Longrightarrow> length (exchange i j buffer) = length buffer \<and>
   (\<forall>x. exchange i j buffer ! x = (if i \<le> x \<and> x \<le> j then buffer ! (i + j - x) else buffer ! x))"
proof (induction i j buffer rule: exchange.induct)
  case (1 i j buffer)
  show ?case
  proof (cases "i < j")
    case True
    let ?b = "buffer[i := buffer ! j, j := buffer ! i]"
    have IH: "length (exchange (i + 1) (j - 1) ?b) = length buffer" "\<And>x. exchange (i + 1) (j - 1) ?b ! x =
        (if i + 1 \<le> x \<and> x \<le> j - 1 then ?b ! (i + 1 + (j - 1) - x) else ?b ! x)"
      using "1.IH" [OF True] 1(2) by auto
    have "exchange (i + 1) (j - 1) ?b ! x = (if i \<le> x \<and> x \<le> j then buffer ! (i + j - x) else buffer ! x)" for x
      unfolding IH(2) using True 1(2) by (auto simp: nth_list_update)
    then show ?thesis using True IH(1) by (simp add: exchange.simps [of i j])
  next
    case False
    then have "exchange i j buffer = buffer" by (subst exchange.simps) (rule if_not_P)
    then show ?thesis using False by (cases "i = j") auto
  qed
qed

lemma FillDigits32_ok:
  assumes "holds buffer len ds" "len + length (digits n) \<le> length buffer"
  shows "\<exists>buffer'. FillDigits32 n (buffer, len) = Some (buffer', len + length (digits n)) \<and> length buffer' = length buffer \<and>
    holds buffer' (len + length (digits n)) (ds @ digits n)"
proof -
  let ?k = "length (digits n)"
  obtain b where b: "fill_reverse n len 0 buffer = Some (b, ?k)" "length b = length buffer"
      "\<forall>i<len. b ! i = buffer ! i" "\<forall>i<?k. b ! (len + i) = 48 + rev (digits n) ! i"
    using fill_reverse_ok [of len 0 n buffer] assms(2) by auto
  let ?b = "exchange len (len + ?k - 1) b"
  have f: "FillDigits32 n (buffer, len) = Some (?b, len + ?k)" using b(1) by (simp add: FillDigits32_def)
  show ?thesis
  proof (cases "?k = 0")
    case True
    then have "\<not> len < len + ?k - 1" by simp
    then have "?b = b" by (subst exchange.simps) (rule if_not_P)
    then show ?thesis using f True b holds_cong [OF assms(1), of b] by simp
  next
    case False
    have E: "length ?b = length buffer" "\<And>x. ?b ! x = (if len \<le> x \<and> x \<le> len + ?k - 1 then b ! (len + (len + ?k - 1) - x) else b ! x)"
    proof -
      have "len + ?k - 1 < length b" using b(2) assms(2) False by (cases ?k) auto
      from exchange_ok [OF this, of len] show "length ?b = length buffer" "\<And>x. ?b ! x = (if len \<le> x \<and> x \<le> len + ?k - 1 then b ! (len + (len + ?k - 1) - x) else b ! x)"
        using b(2) by simp_all
    qed
    have "?b ! (len + i) = 48 + digits n ! i" if "i < ?k" for i
    proof -
      have "len \<le> len + i \<and> len + i \<le> len + ?k - 1" "len + (len + ?k - 1) - (len + i) = len + (?k - 1 - i)" using that by auto
      then have "?b ! (len + i) = b ! (len + (?k - 1 - i))" unfolding E(2) by simp
      then show ?thesis using that b(4) [rule_format, of "?k - 1 - i"] by (simp add: rev_nth)
    qed
    moreover have "?b ! i = buffer ! i" if "i < len" for i unfolding E(2) using that b(3) by simp
    ultimately show ?thesis using f holds_append [OF assms(1) E(1) _ assms(2)] E(1) digits_ok by auto
  qed
qed


subsection \<open>Numbers of 64 bits\<close>

declare machine_ints [simp]

text \<open>A number is cut into a part above and two parts of seven digits.\<close>

lemma parts7: "n = n div kTen7 div kTen7 * 10 ^ 14 + n div kTen7 mod kTen7 * 10 ^ 7 + n mod kTen7"
proof -
  have "a * 10 ^ 14 + b * 10 ^ 7 + c = (a * kTen7 + b) * kTen7 + c" for a b c by (simp add: kTen7_def)
  then show ?thesis by (metis div_mult_mod_eq)
qed

lemma uint32_mod [simp]: "uint32 (n mod kTen7) = n mod kTen7"
proof -
  have "n mod kTen7 < 2 ^ 32" by (rule less_le_trans [OF mod_less_divisor]) (simp_all add: kTen7_def)
  then show ?thesis by simp
qed

lemma fixed7 [simp]: "dec (fixed 7 (n mod kTen7)) = n mod kTen7"
  by (simp add: dec_fixed kTen7_def)

lemma FillDigits64FixedLength_ok:
  assumes h: "holds buffer len ds" and r: "len + 17 \<le> length buffer" and n: "n < 10 ^ 17"
  shows "\<exists>buffer' es. FillDigits64FixedLength n (buffer, len) = Some (buffer', len + 17) \<and> length buffer' = length buffer \<and>
    holds buffer' (len + 17) (ds @ es) \<and> length es = 17 \<and> dec es = n"
proof -
  let ?p0 = "n div kTen7 div kTen7" and ?p1 = "n div kTen7 mod kTen7" and ?p2 = "n mod kTen7"
  have p0: "?p0 < 10 ^ 3" using n by (simp add: kTen7_def div_mult2_eq [symmetric] less_mult_imp_div_less)
  then have u: "uint32 ?p0 = ?p0" by simp
  obtain b1 where 1: "FillDigits32FixedLength ?p0 3 (buffer, len) = Some (b1, len + 3)" "length b1 = length buffer" "holds b1 (len + 3) (ds @ fixed 3 ?p0)"
    using FillDigits32FixedLength_ok [OF h, of 3 ?p0] r by auto
  obtain b2 where 2: "FillDigits32FixedLength ?p1 7 (b1, len + 3) = Some (b2, len + 3 + 7)" "length b2 = length buffer"
      "holds b2 (len + 3 + 7) ((ds @ fixed 3 ?p0) @ fixed 7 ?p1)"
    using FillDigits32FixedLength_ok [OF 1(3), of 7 ?p1] 1(2) r by auto
  obtain b3 where 3: "FillDigits32FixedLength ?p2 7 (b2, len + 3 + 7) = Some (b3, len + 3 + 7 + 7)" "length b3 = length buffer"
      "holds b3 (len + 3 + 7 + 7) (((ds @ fixed 3 ?p0) @ fixed 7 ?p1) @ fixed 7 ?p2)"
    using FillDigits32FixedLength_ok [OF 2(3), of 7 ?p2] 2(2) r by auto
  let ?es = "fixed 3 ?p0 @ fixed 7 ?p1 @ fixed 7 ?p2"
  have "dec ?es = n" using parts7 [of n] p0 by (simp add: dec_app fixed_ok dec_fixed [of 3])
  moreover have "length ?es = 17" by (simp add: fixed_ok)
  moreover have "FillDigits64FixedLength n (buffer, len) = Some (b3, len + 17)"
    using 1(1) 2(1) 3(1) u by (simp add: FillDigits64FixedLength_def Let_def)
  ultimately show ?thesis using 3(2,3) by (intro exI2 [of _ b3 ?es]) (simp add: add.commute)
qed

lemma FillDigits64_ok:
  assumes r: "20 \<le> length buffer" and n: "n < 2 ^ 64"
  shows "\<exists>buffer' ds. FillDigits64 n (buffer, 0) = Some (buffer', length ds) \<and> length buffer' = length buffer \<and>
    holds buffer' (length ds) ds \<and> length ds \<le> 20 \<and> dec ds = n"
proof -
  let ?p0 = "n div kTen7 div kTen7" and ?p1 = "n div kTen7 mod kTen7" and ?p2 = "n mod kTen7"
  have h: "holds buffer 0 []" by (simp add: holds_def)
  have p0: "?p0 < 10 ^ 6" using n by (simp add: kTen7_def div_mult2_eq [symmetric] less_mult_imp_div_less)
  then have u: "uint32 ?p0 = ?p0" by simp
  have p: "?p1 < 10 ^ 7" "?p2 < 10 ^ 7" by (simp_all add: kTen7_def)
  consider "?p0 \<noteq> 0" | "?p0 = 0" "?p1 \<noteq> 0" | "?p0 = 0" "?p1 = 0" by blast
  then show ?thesis
  proof cases
    case 1
    have l: "length (digits ?p0) \<le> 6" using digits_length [OF p0] .
    obtain b1 where 1: "FillDigits32 ?p0 (buffer, 0) = Some (b1, length (digits ?p0))" "length b1 = length buffer" "holds b1 (length (digits ?p0)) (digits ?p0)"
      using FillDigits32_ok [OF h, of ?p0] l r by auto
    obtain b2 where 2: "FillDigits32FixedLength ?p1 7 (b1, length (digits ?p0)) = Some (b2, length (digits ?p0) + 7)" "length b2 = length buffer"
        "holds b2 (length (digits ?p0) + 7) (digits ?p0 @ fixed 7 ?p1)"
      using FillDigits32FixedLength_ok [OF 1(3), of 7 ?p1] 1(2) l r by auto
    obtain b3 where 3: "FillDigits32FixedLength ?p2 7 (b2, length (digits ?p0) + 7) = Some (b3, length (digits ?p0) + 7 + 7)" "length b3 = length buffer"
        "holds b3 (length (digits ?p0) + 7 + 7) ((digits ?p0 @ fixed 7 ?p1) @ fixed 7 ?p2)"
      using FillDigits32FixedLength_ok [OF 2(3), of 7 ?p2] 2(2) l r by auto
    have "dec (digits ?p0 @ fixed 7 ?p1 @ fixed 7 ?p2) = n" using parts7 [of n] by (simp add: dec_app fixed_ok dec_digits)
    then show ?thesis using 1(1) 2(1) 3 u l \<open>?p0 \<noteq> 0\<close>
      by (intro exI2 [of _ b3 "digits ?p0 @ fixed 7 ?p1 @ fixed 7 ?p2"]) (simp add: FillDigits64_def Let_def fixed_ok add.commute)
  next
    case 2
    have l: "length (digits ?p1) \<le> 7" using digits_length [OF p(1)] .
    obtain b1 where 1: "FillDigits32 ?p1 (buffer, 0) = Some (b1, length (digits ?p1))" "length b1 = length buffer" "holds b1 (length (digits ?p1)) (digits ?p1)"
      using FillDigits32_ok [OF h, of ?p1] l r by auto
    obtain b2 where 3: "FillDigits32FixedLength ?p2 7 (b1, length (digits ?p1)) = Some (b2, length (digits ?p1) + 7)" "length b2 = length buffer"
        "holds b2 (length (digits ?p1) + 7) (digits ?p1 @ fixed 7 ?p2)"
      using FillDigits32FixedLength_ok [OF 1(3), of 7 ?p2] 1(2) l r by auto
    have "dec (digits ?p1 @ fixed 7 ?p2) = n" using parts7 [of n] 2(1) by (simp add: dec_app fixed_ok dec_digits)
    then show ?thesis using 1(1) 2 3 u l
      by (intro exI2 [of _ b2 "digits ?p1 @ fixed 7 ?p2"]) (simp add: FillDigits64_def Let_def fixed_ok)
  next
    case 3
    have l: "length (digits ?p2) \<le> 7" using digits_length [OF p(2)] .
    obtain b1 where 1: "FillDigits32 ?p2 (buffer, 0) = Some (b1, length (digits ?p2))" "length b1 = length buffer" "holds b1 (length (digits ?p2)) (digits ?p2)"
      using FillDigits32_ok [OF h, of ?p2] l r by auto
    have "dec (digits ?p2) = n" using parts7 [of n] 3 by (simp add: dec_digits)
    then show ?thesis using 1 3 u l by (intro exI2 [of _ b1 "digits ?p2"]) (simp add: FillDigits64_def Let_def)
  qed
qed


section \<open>Rounding up\<close>

lemma decimal_step: "decimal (ds @ es) (p + int (length ds)) = (real (dec ds) + real (dec es) / 10 ^ length es) * 10 powi p"
  by (simp add: decimal_def dec_app power_int_diff field_simps)

lemma RoundUp_ok:
  assumes h: "holds buffer len ds" and r: "0 < length buffer" and p: "len = 0 \<Longrightarrow> point = 0"
  shows "\<exists>buffer' ds' point'. RoundUp buffer len point = Some (buffer', length ds', point') \<and> length buffer' = length buffer \<and>
    holds buffer' (length ds') ds' \<and> length ds' \<le> max 1 len \<and> decimal ds' point' = (real (dec ds) + 1) * 10 powi (point - int len)"
proof (cases "len = 0")
  case True
  then have "RoundUp buffer len point = Some (buffer[0 := 49], 1, 1)" using r by (simp add: RoundUp_def buffer_put_def)
  moreover have "holds (buffer[0 := 49]) 1 [1]" using r by (intro holdsI) (auto simp: Suc_le_eq)
  ultimately show ?thesis using True p h by (intro exI3 [of _ "buffer[0 := 49]" "[1]" 1]) (simp add: decimal_def holds_def)
next
  case False
  then obtain m where m: "len = Suc m" by (cases len) auto
  have l: "length ds = Suc m" "Suc m \<le> length buffer" and dig: "\<forall>d\<in>set ds. d \<le> 9" using h m by (auto simp: holds_def)
  obtain es x where ds: "ds = es @ [x]" using l(1) by (cases ds rule: rev_cases) auto
  have x: "x \<le> 9" "length es = m" using dig l(1) ds by auto
  have g: "buffer_get buffer m = Some (48 + x)" using holds_nth [OF h, of m] m l ds x by (simp add: buffer_get_def nth_append)
  let ?b = "buffer[m := 48 + x + 1]"
  have "take (Suc m) buffer = map ((+) 48) es @ [48 + x]" using h m ds by (simp add: holds_def)
  then have "buffer = map ((+) 48) es @ (48 + x) # drop (Suc m) buffer" by (metis append_take_drop_id append.assoc append_Cons append_Nil)
  then have b: "?b = map ((+) 48) (es @ [x + 1]) @ drop (Suc m) buffer"
    using x(2) list_update_length [of "map ((+) 48) es" "48 + x" "drop (Suc m) buffer" "48 + x + 1"] by simp
  have "(es @ [x + 1]) ! j \<le> 9" if "j < length (es @ [x + 1])" "j \<noteq> m" for j using that x(2) dig ds by (auto simp: nth_append)
  then obtain ds' where ds': "propagate_carry m ?b = map ((+) 48) ds' @ drop (Suc m) buffer" "length ds' = Suc m"
      "dec ds' = dec ds + 1" "\<And>j. j < Suc m \<Longrightarrow> 0 < j \<Longrightarrow> ds' ! j \<le> 9" "ds' ! 0 \<le> 10"
    using propagate_carry_correct [of m "es @ [x + 1]" "drop (Suc m) buffer"] b x ds by (auto simp: nth_append dec_append)
  obtain d tl where dt: "ds' = d # tl" "length tl = m" using ds'(2) by (cases ds') auto
  have tl9: "\<forall>d\<in>set tl. d \<le> 9" using ds'(4) [of "Suc j" for j] dt by (auto simp: in_set_conv_nth)
  let ?B = "propagate_carry m ?b"
  have B: "length ?B = length buffer" "?B ! 0 = 48 + d" "take (Suc m) ?B = map ((+) 48) ds'" unfolding ds'(1) using dt l(2) by simp_all
  have res: "RoundUp buffer len point = (if d = 10 then Some (?B[0 := 49], len, point + 1) else Some (?B, len, point))"
    using g m B(2) by (simp add: RoundUp_def Let_def)
  show ?thesis
  proof (cases "d = 10")
    case False
    then have "holds ?B len ds'" using B ds'(2,5) dt tl9 m l(2) by (auto simp: holds_def)
    moreover have "decimal ds' point = (real (dec ds) + 1) * 10 powi (point - int len)" using ds'(2,3) m by (simp add: decimal_def)
    ultimately show ?thesis using res False B(1) ds'(2) m by (intro exI3 [of _ ?B ds' point]) simp
  next
    case True
    have "dec ds + 1 \<le> 10 ^ Suc m" using dec_bound [OF dig] l(1) by simp
    then have z: "dec tl = 0" "dec ds + 1 = 10 ^ Suc m" using ds'(3) dt True by simp_all
    have "real (dec ds) + 1 = real (dec ds + 1)" by simp
    then have z': "real (dec ds) + 1 = 10 ^ Suc m" unfolding z(2) by simp
    have "take (Suc m) (?B[0 := 49]) = map ((+) 48) (1 # tl)" using B(3) dt by (simp add: take_update_swap)
    then have "holds (?B[0 := 49]) len (1 # tl)" using B(1) dt(2) tl9 m l(2) by (auto simp: holds_def)
    moreover have "decimal (1 # tl) (point + 1) = (real (dec ds) + 1) * 10 powi (point - int len)"
      unfolding z' using z(1) dt(2) m by (simp add: decimal_def power_int_diff power_int_add)
    ultimately show ?thesis using res True B(1) dt(2) m by (intro exI3 [of _ "?B[0 := 49]" "1 # tl" "point + 1"]) simp
  qed
qed


section \<open>Fractional digits\<close>

text \<open>
  The interface of the loop: numbers below \<open>2 ^ p\<close>, which stand for the fraction \<open>val a / 2 ^ p\<close>, and the step that multiplies by five,
  moves the point by one bit and splits off the part above it, which together is a multiplication by ten.
\<close>

locale fixed_point =
  fixes is_zero :: "'a \<Rightarrow> bool" and next_digit :: "int \<Rightarrow> 'a \<Rightarrow> (nat \<times> 'a) option" and ok :: "nat \<Rightarrow> 'a \<Rightarrow> bool" and val :: "'a \<Rightarrow> nat"
  assumes below: "ok p a \<Longrightarrow> val a < 2 ^ p"
    and is_zero: "ok p a \<Longrightarrow> is_zero a \<longleftrightarrow> val a = 0"
    and next_digit: "ok (Suc p) a \<Longrightarrow> \<exists>a'. next_digit (int p) a = Some (5 * val a div 2 ^ p, a') \<and> ok p a' \<and> val a' = 5 * val a mod 2 ^ p"
begin

lemma loop_digits:
  "ok p a \<Longrightarrow> holds buffer len ds \<Longrightarrow> len + n \<le> length buffer \<Longrightarrow>
   \<exists>es buffer' a' q. fraction_loop is_zero next_digit n (int p) a buffer len = Some (a', int q, buffer', len + length es) \<and>
     length buffer' = length buffer \<and> holds buffer' (len + length es) (ds @ es) \<and> length es \<le> n \<and> (length es = n \<or> val a' = 0) \<and>
     ok q a' \<and> p = q + length es \<and> val a * 10 ^ length es = (dec es * 2 ^ q + val a') * 2 ^ length es"
proof (induction n arbitrary: p a buffer len ds)
  case 0
  then show ?case by (intro exI [of _ "[]"] exI [of _ buffer] exI [of _ a] exI [of _ p]) simp
next
  case (Suc n)
  show ?case
  proof (cases "val a = 0")
    case True
    then show ?thesis using Suc.prems is_zero by (intro exI [of _ "[]"] exI [of _ buffer] exI [of _ a] exI [of _ p]) simp
  next
    case False
    then obtain p' where p: "p = Suc p'" using below [OF Suc.prems(1)] by (cases p) auto
    obtain a1 where a1: "next_digit (int p') a = Some (5 * val a div 2 ^ p', a1)" "ok p' a1" "val a1 = 5 * val a mod 2 ^ p'"
      using next_digit Suc.prems(1) p by blast
    let ?d = "5 * val a div 2 ^ p'" and ?b = "buffer[len := 48 + 5 * val a div 2 ^ p']"
    have "5 * val a < 10 * 2 ^ p'" using below [OF Suc.prems(1)] p by simp
    then have d: "?d \<le> 9" using less_mult_imp_div_less [of "5 * val a" 10 "2 ^ p'"] by simp
    have h: "holds ?b (len + length [?d]) (ds @ [?d])" using Suc.prems(3) d by (intro holds_append [OF Suc.prems(2)]) auto
    obtain es b' a' q where e: "fraction_loop is_zero next_digit n (int p') a1 ?b (len + 1) = Some (a', int q, b', len + 1 + length es)"
        "length b' = length buffer" "holds b' (len + 1 + length es) ((ds @ [?d]) @ es)" "length es \<le> n" "length es = n \<or> val a' = 0"
        "ok q a'" "p' = q + length es" "val a1 * 10 ^ length es = (dec es * 2 ^ q + val a') * 2 ^ length es"
      using Suc.IH [OF a1(2), of ?b "len + 1" "ds @ [?d]"] h Suc.prems(3) by auto
    have "5 * val a = ?d * 2 ^ p' + val a1" unfolding a1(3) by (rule div_mult_mod_eq [symmetric])
    then have "5 * val a * 10 ^ length es = ?d * 2 ^ p' * 10 ^ length es + (dec es * 2 ^ q + val a') * 2 ^ length es"
      using e(8) by (metis add_mult_distrib)
    also have "\<dots> = (dec (?d # es) * 2 ^ q + val a') * 2 ^ length es" unfolding e(7) by (simp add: power_add algebra_simps)
    finally have "val a * 10 ^ length (?d # es) = (dec (?d # es) * 2 ^ q + val a') * 2 ^ length (?d # es)"
      by (simp only: length_Cons power_Suc ac_simps)
    moreover have "fraction_loop is_zero next_digit (Suc n) (int p) a buffer len = Some (a', int q, b', len + length (?d # es))"
      using e(1) a1(1) False is_zero [OF Suc.prems(1)] p Suc.prems(3) by (simp add: buffer_put_def)
    ultimately show ?thesis using e p
      by (intro exI [of _ "?d # es"] exI [of _ b'] exI [of _ a'] exI [of _ q]) simp
  qed
qed

end

text \<open>The multiplication by five does not overflow \<open>w\<close> bits: a number that starts with eleven zeros has room until the point has moved.\<close>

definition spare :: "nat \<Rightarrow> nat \<Rightarrow> nat \<Rightarrow> bool" where
  "spare w p x \<longleftrightarrow> x < 2 ^ p \<and> p \<le> w \<and> (p \<le> w - 3 \<or> x < 2 ^ (w - 11) * 5 ^ (w - p))"

lemma spare_step:
  assumes "spare w (Suc p) x" "11 \<le> w"
  shows "5 * x < 2 ^ w" "spare w p (5 * x mod 2 ^ p)"
proof -
  obtain u where w: "w = u + 11" using assms(2) by (metis add.commute le_Suc_ex)
  show "5 * x < 2 ^ w"
  proof (cases "Suc p \<le> w - 3")
    case True
    then have "(2 :: nat) ^ Suc p \<le> 2 ^ (w - 3)" by (intro power_increasing) auto
    then have "x < 2 ^ (w - 3)" using assms(1) by (simp add: spare_def)
    then show ?thesis using w by (simp add: power_add)
  next
    case False
    then have "w - Suc p \<le> 2" "x < 2 ^ u * 5 ^ (w - Suc p)" using assms(1) w by (auto simp: spare_def)
    then have "x < 2 ^ u * 5 ^ 2" by (metis less_le_trans mult_le_mono2 one_le_numeral power_increasing)
    then show ?thesis using w by (simp add: power_add)
  qed
  have "5 * x mod 2 ^ p < 2 ^ (w - 11) * 5 ^ (w - p)" if "\<not> p \<le> w - 3"
  proof -
    have "x < 2 ^ (w - 11) * 5 ^ (w - Suc p)" "w - p = Suc (w - Suc p)" using assms(1) that by (auto simp: spare_def)
    then have "5 * x < 2 ^ (w - 11) * 5 ^ (w - p)" by simp
    then show ?thesis using mod_less_eq_dividend le_less_trans by blast
  qed
  then show "spare w p (5 * x mod 2 ^ p)" using assms(1) by (auto simp: spare_def)
qed

interpretation digits64: fixed_point "\<lambda>x. x = 0" "next_digit64 undefined_shift" "spare 64" "\<lambda>x. x"
proof unfold_locales
  fix p a assume a: "spare 64 (Suc p) a"
  have p: "p < 64" "a < 2 ^ Suc p" using a by (auto simp: spare_def)
  have 5: "5 * a < 2 ^ 64" using spare_step(1) [OF a] by simp
  obtain d where d: "d = 5 * a div 2 ^ p" by blast
  have "5 * a < 10 * 2 ^ p" using p(2) by simp
  then have "d < 10" unfolding d by (simp add: less_mult_imp_div_less)
  then have u: "uint32 d = d" by simp
  have le: "d * 2 ^ p \<le> 5 * a" unfolding d by simp
  have m: "5 * a - d * 2 ^ p = 5 * a mod 2 ^ p" unfolding d by (rule minus_div_mult_eq_mod)
  have "uint64 (d * 2 ^ p) = d * 2 ^ p" using 5 le by (intro cast_id) linarith
  then have "sub64 (5 * a) (uint64 (d * 2 ^ p)) = 5 * a mod 2 ^ p" using sub64_id [OF le 5] m by simp
  then have "next_digit64 undefined_shift (int p) a = Some (d, 5 * a mod 2 ^ p)"
    using 5 u p(1) by (simp add: next_digit64_def Let_def shr_def shl_def mult.commute [of a 5] d [symmetric])
  then show "\<exists>a'. next_digit64 undefined_shift (int p) a = Some (5 * a div 2 ^ p, a') \<and> spare 64 p a' \<and> a' = 5 * a mod 2 ^ p"
    using spare_step(2) [OF a] d by simp
qed (auto simp: spare_def)


subsection \<open>Numbers of 128 bits\<close>

definition value128 :: "uint128 \<Rightarrow> nat" where
  "value128 u = high_bits u * 2 ^ 64 + low_bits u"

definition wide :: "uint128 \<Rightarrow> bool" where
  "wide u \<longleftrightarrow> high_bits u < 2 ^ 64 \<and> low_bits u < 2 ^ 64"

text \<open>One limb of 32 bits: the accumulator has the carry in its upper half.\<close>

lemma limb:
  assumes "x < 2 ^ 32" "c < 2 ^ 32" "m < (2 ^ 32 :: nat)"
  shows "c + x * m < 2 ^ 64" "(c + x * m) div 2 ^ 32 < 2 ^ 32"
proof -
  have "x * m \<le> (2 ^ 32 - 1) * (2 ^ 32 - 1)" using assms by (intro mult_le_mono) auto
  then show *: "c + x * m < 2 ^ 64" using assms by simp
  then show "(c + x * m) div 2 ^ 32 < 2 ^ 32" by (simp add: less_mult_imp_div_less)
qed

lemma limbs_joined:
  assumes "a mod 2 ^ 32 = (lo :: nat)" "a div 2 ^ 32 + x * m < 2 ^ 64"
  shows "uint64 (uint64 ((a div 2 ^ 32 + x * m) * 2 ^ 32) + lo) = (a div 2 ^ 32 + x * m) mod 2 ^ 32 * 2 ^ 32 + lo"
proof -
  have "uint64 ((a div 2 ^ 32 + x * m) * 2 ^ 32) = (a div 2 ^ 32 + x * m) mod 2 ^ 32 * 2 ^ 32"
    unfolding uint64_def using mult_mod_left [of "a div 2 ^ 32 + x * m" "2 ^ 32" "2 ^ 32"] by simp
  moreover have "(a div 2 ^ 32 + x * m) mod 2 ^ 32 \<le> 2 ^ 32 - 1" "lo \<le> 2 ^ 32 - 1" using assms(1) by (auto intro: Suc_leI simp: less_eq_Suc_le [symmetric] Suc_le_eq)
  ultimately show ?thesis by (simp add: uint64_def)
qed


lemma Multiply_ok:
  assumes u: "wide u" and m: "m < 2 ^ 32" and v: "value128 u * m < 2 ^ 128"
  shows "\<exists>u'. UInt128_Multiply m u = Some u' \<and> wide u' \<and> value128 u' = value128 u * m"
proof -
  define x0 x1 x2 x3 where x: "x0 = low_bits u mod 2 ^ 32" "x1 = low_bits u div 2 ^ 32" "x2 = high_bits u mod 2 ^ 32" "x3 = high_bits u div 2 ^ 32"
  have xb: "x0 < 2 ^ 32" "x1 < 2 ^ 32" "x2 < 2 ^ 32" "x3 < 2 ^ 32"
    using u unfolding x wide_def by (auto simp: less_mult_imp_div_less)
  define a0 a1 a2 a3 where a: "a0 = x0 * m" "a1 = a0 div 2 ^ 32 + x1 * m" "a2 = a1 div 2 ^ 32 + x2 * m" "a3 = a2 div 2 ^ 32 + x3 * m"
  have b0: "a0 < 2 ^ 64" "a0 div 2 ^ 32 < 2 ^ 32" using limb [OF xb(1) _ m, of 0] unfolding a by simp_all
  have b1: "a1 < 2 ^ 64" "a1 div 2 ^ 32 < 2 ^ 32" using limb [OF xb(2) b0(2) m] unfolding a by simp_all
  have b2: "a2 < 2 ^ 64" "a2 div 2 ^ 32 < 2 ^ 32" using limb [OF xb(3) b1(2) m] unfolding a by simp_all
  have b3: "a3 < 2 ^ 64" using limb [OF xb(4) b2(2) m] unfolding a by simp
  obtain q0 r0 q1 r1 q2 r2 q3 r3 where qr: "q0 = a0 div 2 ^ 32" "r0 = a0 mod 2 ^ 32" "q1 = a1 div 2 ^ 32" "r1 = a1 mod 2 ^ 32"
    "q2 = a2 div 2 ^ 32" "r2 = a2 mod 2 ^ 32" "q3 = a3 div 2 ^ 32" "r3 = a3 mod 2 ^ 32" by blast
  have e: "a0 = q0 * 2 ^ 32 + r0" "a1 = q1 * 2 ^ 32 + r1" "a2 = q2 * 2 ^ 32 + r2" "a3 = q3 * 2 ^ 32 + r3" unfolding qr by simp_all
  have c: "q1 * 2 ^ 32 + r1 = q0 + x1 * m" "q2 * 2 ^ 32 + r2 = q1 + x2 * m" "q3 * 2 ^ 32 + r3 = q2 + x3 * m"
    using a(2-4) e unfolding qr(1,3,5) [symmetric] by simp_all
  define l h where lh: "l = r1 * 2 ^ 32 + r0" "h = r3 * 2 ^ 32 + r2"
  have j: "uint64 (uint64 (a1 * 2 ^ 32) + a0 mod 2 ^ 32) = l" "uint64 (uint64 (a3 * 2 ^ 32) + a2 mod 2 ^ 32) = h"
    using limbs_joined [OF refl, of a0 x1 m] limbs_joined [OF refl, of a2 x3 m] b1(1) b3 unfolding lh qr a(2,4) by simp_all
  have low: "low_bits u = x1 * 2 ^ 32 + x0" "high_bits u = x3 * 2 ^ 32 + x2" unfolding x by simp_all
  have "value128 u * m = a0 + x1 * m * 2 ^ 32 + x2 * m * 2 ^ 64 + x3 * m * 2 ^ 96"
    unfolding value128_def low a(1) by (simp add: algebra_simps)
  also have "\<dots> = q3 * 2 ^ 128 + h * 2 ^ 64 + l" unfolding lh e(1) using c by simp
  finally have sum: "value128 u * m = a3 div 2 ^ 32 * 2 ^ 128 + h * 2 ^ 64 + l" unfolding qr .
  then have z: "a3 div 2 ^ 32 = 0" using v by (cases "a3 div 2 ^ 32") auto
  have "UInt128_Multiply m u = Some \<lparr>high_bits = h, low_bits = l\<rparr>"
    using b0(1) b1(1) b2(1) b3 j z unfolding UInt128_Multiply_def Let_def x [symmetric]
    unfolding a(1) [symmetric] cast_id(1) [OF b0(1)] a(2) [symmetric] cast_id(1) [OF b1(1)] a(3) [symmetric] cast_id(1) [OF b2(1)]
      a(4) [symmetric] cast_id(1) [OF b3] by simp
  moreover have "l < 2 ^ 64" "h < 2 ^ 64" unfolding j [symmetric] uint64_def by simp_all
  ultimately show ?thesis using sum z by (simp add: wide_def value128_def)
qed


definition ok128 :: "nat \<Rightarrow> uint128 \<Rightarrow> bool" where
  "ok128 p u \<longleftrightarrow> wide u \<and> spare 128 p (value128 u)"

lemma DivMod_high:
  assumes u: "wide u" and p: "64 \<le> p" and v: "value128 u < 10 * 2 ^ p"
  shows "\<exists>u'. DivModPowerOf2 p u = (value128 u div 2 ^ p, u') \<and> wide u' \<and> value128 u' = value128 u mod 2 ^ p"
proof -
  obtain s where s: "p = 64 + s" using p le_Suc_ex by blast
  have lo: "low_bits u < 2 ^ 64" "high_bits u < 2 ^ 64" using u by (simp_all add: wide_def)
  obtain d where d: "d = high_bits u div 2 ^ s" by blast
  have q: "value128 u div 2 ^ p = d" unfolding s power_add div_mult2_eq value128_def d using lo(1) by simp
  then have "d < 10" using v less_mult_imp_div_less by blast
  then have d32: "uint32 d = d" by simp
  have le: "d * 2 ^ s \<le> high_bits u" unfolding d by simp
  have m: "high_bits u - d * 2 ^ s = high_bits u mod 2 ^ s" unfolding d by (rule minus_div_mult_eq_mod)
  have "DivModPowerOf2 p u = (d, u \<lparr>high_bits := high_bits u mod 2 ^ s\<rparr>)"
    using sub64_id [OF le lo(2)] m d32 by (simp add: DivModPowerOf2_def s Let_def d [symmetric])
  moreover have "value128 u mod 2 ^ p = high_bits u mod 2 ^ s * 2 ^ 64 + low_bits u"
    unfolding s power_add mod_mult2_eq value128_def using lo(1) by simp
  moreover have "high_bits u mod 2 ^ s < 2 ^ 64" using lo(2) by (rule le_less_trans [OF mod_less_eq_dividend])
  ultimately show ?thesis using q lo(1) by (simp add: wide_def value128_def)
qed


lemma DivMod_low:
  assumes u: "wide u" and p: "p < 64" and v: "value128 u < 10 * 2 ^ p"
  shows "\<exists>u'. DivModPowerOf2 p u = (value128 u div 2 ^ p, u') \<and> wide u' \<and> value128 u' = value128 u mod 2 ^ p"
proof -
  obtain s where s: "p + s = 64" using p less_imp_add_positive by blast
  have e: "(2 :: nat) ^ 64 = 2 ^ s * 2 ^ p" unfolding s [symmetric] power_add by (rule mult.commute)
  have lo: "low_bits u < 2 ^ 64" using u by (simp add: wide_def)
  obtain d where d: "d = low_bits u div 2 ^ p" by blast
  have w: "value128 u = high_bits u * 2 ^ s * 2 ^ p + low_bits u" unfolding value128_def e by (simp only: mult.assoc)
  then have q: "value128 u div 2 ^ p = d + high_bits u * 2 ^ s" unfolding d by simp
  then have b: "d + high_bits u * 2 ^ s < 10" using v less_mult_imp_div_less by metis
  have le: "d * 2 ^ p \<le> low_bits u" unfolding d by simp
  have m: "low_bits u - d * 2 ^ p = low_bits u mod 2 ^ p" unfolding d by (rule minus_div_mult_eq_mod)
  have "64 - p = s" using s by simp
  then have "DivModPowerOf2 p u = (d + high_bits u * 2 ^ s, \<lparr>high_bits = 0, low_bits = low_bits u mod 2 ^ p\<rparr>)"
    using sub64_id [OF le lo] m b p by (simp add: DivModPowerOf2_def Let_def d [symmetric])
  moreover have "value128 u mod 2 ^ p = low_bits u mod 2 ^ p" unfolding w by simp
  moreover have "low_bits u mod 2 ^ p < 2 ^ 64" using lo by (rule le_less_trans [OF mod_less_eq_dividend])
  ultimately show ?thesis using q by (simp add: wide_def value128_def)
qed

interpretation digits128: fixed_point IsZero next_digit128 ok128 value128
proof unfold_locales
  fix p a
  show "ok128 p a \<Longrightarrow> value128 a < 2 ^ p" by (simp add: ok128_def spare_def)
  show "ok128 p a \<Longrightarrow> IsZero a \<longleftrightarrow> value128 a = 0" by (auto simp: IsZero_def value128_def)
  assume a: "ok128 (Suc p) a"
  then have w: "wide a" "value128 a < 2 ^ Suc p" and 5: "5 * value128 a < 2 ^ 128" "spare 128 p (5 * value128 a mod 2 ^ p)"
    using spare_step [of 128 p "value128 a"] by (simp_all add: ok128_def spare_def [of _ "Suc p"])
  obtain u where u: "UInt128_Multiply 5 a = Some u" "wide u" "value128 u = 5 * value128 a"
    using Multiply_ok [OF w(1), of 5] 5(1) by (auto simp: mult.commute)
  have v: "value128 u < 10 * 2 ^ p" using u(3) w(2) by simp
  obtain u' where "DivModPowerOf2 p u = (value128 u div 2 ^ p, u')" "wide u'" "value128 u' = value128 u mod 2 ^ p"
    using DivMod_high [OF u(2) _ v] DivMod_low [OF u(2) _ v] by (cases "p < 64") force+
  then show "\<exists>a'. next_digit128 (int p) a = Some (5 * value128 a div 2 ^ p, a') \<and> ok128 p a' \<and> value128 a' = 5 * value128 a mod 2 ^ p"
    using u 5(2) by (simp add: next_digit128_def ok128_def)
qed

text \<open>The first bit after the point tells whether the rest is at least one half.\<close>

lemma top_bit: "x < 2 ^ Suc p \<Longrightarrow> x div 2 ^ p mod 2 = 1 \<longleftrightarrow> 2 ^ p \<le> (x :: nat)"
proof -
  assume "x < 2 ^ Suc p"
  then have "x div 2 ^ p < 2" by (simp add: less_mult_imp_div_less)
  then have "x div 2 ^ p mod 2 = x div 2 ^ p" "x div 2 ^ p = 1 \<longleftrightarrow> 1 \<le> x div 2 ^ p" by auto
  then show ?thesis using div_le_mono2 by (simp add: Suc_le_eq div_greater_zero_iff)
qed

lemma BitAt_ok:
  assumes "wide u"
  shows "BitAt p u = value128 u div 2 ^ p mod 2"
proof (cases "64 \<le> p")
  case True
  then obtain s where s: "p = 64 + s" using le_Suc_ex by blast
  have "value128 u div 2 ^ p = high_bits u div 2 ^ s" unfolding s power_add div_mult2_eq value128_def using assms by (simp add: wide_def)
  then show ?thesis by (simp add: BitAt_def s)
next
  case False
  then obtain s where s: "p + Suc s = 64" using less_imp_Suc_add by (metis add_Suc_right not_le)
  have e: "(2 :: nat) ^ 64 = 2 ^ s * 2 * 2 ^ p" unfolding s [symmetric] power_add power_Suc by (simp only: ac_simps)
  have "value128 u = high_bits u * 2 ^ s * 2 * 2 ^ p + low_bits u" unfolding value128_def e by (simp only: mult.assoc)
  then have "value128 u div 2 ^ p = high_bits u * 2 ^ s * 2 + low_bits u div 2 ^ p" by simp
  then show ?thesis using False by (simp add: BitAt_def)
qed


lemma rounded_to_digits:
  fixes x r :: real
  assumes x: "x * 10 ^ k = real N + r" and r: "0 \<le> r" "r < 1"
  shows "1 / 2 \<le> r \<Longrightarrow> rounded_to (- int k) x = (real N + 1) * 10 powi (- int k)"
    and "r < 1 / 2 \<Longrightarrow> rounded_to (- int k) x = real N * 10 powi (- int k)"
    and "r = 0 \<Longrightarrow> k \<le> c \<Longrightarrow> rounded_to (- int c) x = real N * 10 powi (- int k)"
proof -
  have d: "x / 10 powi (- int j) = x * 10 ^ j" for j by (simp add: power_int_minus divide_inverse)
  have "1 / 2 \<le> r \<Longrightarrow> \<lfloor>real N + r + 1 / 2\<rfloor> = int N + 1" "r < 1 / 2 \<Longrightarrow> \<lfloor>real N + r + 1 / 2\<rfloor> = int N" using r by linarith+
  then show "1 / 2 \<le> r \<Longrightarrow> rounded_to (- int k) x = (real N + 1) * 10 powi (- int k)"
    "r < 1 / 2 \<Longrightarrow> rounded_to (- int k) x = real N * 10 powi (- int k)" unfolding rounded_to_def d x by simp_all
  assume 0: "r = 0" "k \<le> c"
  then obtain j where j: "c = k + j" using le_Suc_ex by blast
  have "x * 10 ^ c = real (N * 10 ^ j)" using x 0 j by (simp add: power_add)
  moreover have "\<lfloor>real (N * 10 ^ j) + 1 / 2\<rfloor> = int (N * 10 ^ j)" by linarith
  ultimately have "rounded_to (- int c) x = real (N * 10 ^ j) * 10 powi (- int c)" unfolding rounded_to_def d by simp
  also have "\<dots> = real N * 10 powi (- int k)" using j by (simp add: power_int_minus power_add field_simps power_int_diff)
  finally show "rounded_to (- int c) x = real N * 10 powi (- int k)" .
qed

text \<open>After the loop: the digits that were written, the rest \<open>a / 2 ^ q\<close> and the decision to round up.\<close>

lemma rounding_ok:
  assumes h: "holds buffer (len + length es) (ds @ es)" and len: "length ds = len" and r: "0 < length buffer"
    and a: "a < 2 ^ q" "length es = c \<or> a = 0" "length es \<le> c" and x: "x * 10 ^ length es = real (dec (ds @ es)) + real a / 2 ^ q"
    and b: "b \<longleftrightarrow> 2 ^ q \<le> 2 * a"
  shows "\<exists>buffer' ds' point'. (if b then RoundUp buffer (len + length es) (int len) else Some (buffer, len + length es, int len)) = Some (buffer', length ds', point') \<and>
    length buffer' = length buffer \<and> holds buffer' (length ds') ds' \<and> length ds' \<le> max 1 (len + c) \<and> decimal ds' point' = rounded_to (- int c) x"
proof -
  have "real a < 2 ^ q" using a(1) by (metis of_nat_less_iff of_nat_numeral of_nat_power)
  then have f: "0 \<le> real a / 2 ^ q" "real a / 2 ^ q < 1" by simp_all
  have hb: "b \<longleftrightarrow> 1 / 2 \<le> real a / 2 ^ q"
    unfolding b using of_nat_le_iff [where ?'a = real, of "2 ^ q" "2 * a"] by (simp add: field_simps)
  note R = rounded_to_digits [OF x f]
  show ?thesis
  proof (cases b)
    case True
    then have "a \<noteq> 0" unfolding b by (cases "a = 0") auto
    then have c: "length es = c" using a(2) by simp
    obtain b' ds' p' where p: "RoundUp buffer (len + length es) (int len) = Some (b', length ds', p')" "length b' = length buffer" "holds b' (length ds') ds'"
        "length ds' \<le> max 1 (len + length es)" "decimal ds' p' = (real (dec (ds @ es)) + 1) * 10 powi (int len - int (len + length es))"
      using RoundUp_ok [OF h r, of "int len"] by auto
    moreover have "decimal ds' p' = rounded_to (- int c) x" using p(5) R(1) True hb c by simp
    ultimately show ?thesis using True c by (intro exI3 [of _ b' ds' p']) simp
  next
    case False
    have "decimal (ds @ es) (int len) = real (dec (ds @ es)) * 10 powi (- int (length es))" using len by (simp add: decimal_def)
    moreover have "rounded_to (- int c) x = real (dec (ds @ es)) * 10 powi (- int (length es))"
      using R(2,3) False hb a(2,3) by (cases "a = 0") auto
    ultimately show ?thesis using False h len a(3) by (intro exI3 [of _ buffer "ds @ es" "int len"]) auto
  qed
qed

lemma fraction_scaled:
  assumes "x * 10 ^ k = (dec es * 2 ^ q + a) * 2 ^ k" "k = length es"
  shows "(real (dec ds) + real x / 2 ^ (q + k)) * 10 ^ k = real (dec (ds @ es)) + real a / 2 ^ q"
proof -
  have "real x * 10 ^ k = (real (dec es) * 2 ^ q + real a) * 2 ^ k"
    using arg_cong [OF assms(1), of real] by simp
  then have "real x * 10 ^ k / 2 ^ (q + k) = real (dec es) + real a / 2 ^ q" by (simp add: power_add field_simps)
  then show ?thesis using assms(2) by (simp add: dec_app algebra_simps)
qed

lemma Shift_ok:
  assumes "x < 2 ^ n" "n \<le> 128" "64 < n" "x < 2 ^ 53"
  shows "\<exists>u. UInt128_Shift (int n - 64) \<lparr>high_bits = x, low_bits = 0\<rparr> = Some u \<and> wide u \<and> value128 u = x * 2 ^ (128 - n)"
proof (cases "n = 128")
  case True
  then show ?thesis using assms(4) by (simp add: UInt128_Shift_def wide_def value128_def)
next
  case False
  obtain s where s: "n = 64 + s" using assms(3) less_imp_add_positive by blast
  then have s': "0 < s" "s < 64" "128 - n = 64 - s" using assms False by auto
  let ?t = "64 - s"
  have e: "(2 :: nat) ^ 64 = 2 ^ ?t * 2 ^ s" using s' by (simp add: power_add [symmetric] del: power_numeral)
  have "uint64 (x * 2 ^ ?t) = x mod 2 ^ s * 2 ^ ?t" unfolding uint64_def e using mult_mod_left [of x "2 ^ s" "2 ^ ?t"] by (simp only: mult.commute)
  moreover have "x mod 2 ^ s * 2 ^ ?t < 2 ^ 64" unfolding e by (simp add: mult.commute)
  moreover have "x div 2 ^ s < 2 ^ 64" using assms(4) by (intro le_less_trans [OF div_le_dividend]) simp
  moreover have "nat (64 - int s) = ?t" by simp
  ultimately have u: "UInt128_Shift (int n - 64) \<lparr>high_bits = x, low_bits = 0\<rparr> = Some \<lparr>high_bits = x div 2 ^ s, low_bits = x mod 2 ^ s * 2 ^ ?t\<rparr>"
      "wide \<lparr>high_bits = x div 2 ^ s, low_bits = x mod 2 ^ s * 2 ^ ?t\<rparr>"
    using s s' by (simp_all add: UInt128_Shift_def wide_def)
  have "x div 2 ^ s * 2 ^ 64 + x mod 2 ^ s * 2 ^ ?t = (x div 2 ^ s * 2 ^ s + x mod 2 ^ s) * 2 ^ ?t" unfolding e by (simp only: algebra_simps)
  also have "\<dots> = x * 2 ^ ?t" unfolding div_mult_mod_eq ..
  finally show ?thesis using u s'(3) by (intro exI) (auto simp: value128_def)
qed

lemma FillFractionals_ok:
  assumes x: "x < 2 ^ 53" "x < 2 ^ n" "n \<le> 128" and und: "undefined_shift 0 (-1) mod 2 = 0"
    and h: "holds buffer len ds" and room: "len + c < length buffer"
  shows "\<exists>buffer' ds' point'. FillFractionals undefined_shift x (- int n) (int c) buffer len (int len) = Some (buffer', length ds', point') \<and>
    length buffer' = length buffer \<and> holds buffer' (length ds') ds' \<and> length ds' \<le> max 1 (len + c) \<and>
    decimal ds' point' = rounded_to (- int c) (real (dec ds) + real x / 2 ^ n)"
proof (cases "n \<le> 64")
  case True
  have "x < 2 ^ (64 - 11) * 5 ^ (64 - n)" using x(1) by (rule less_le_trans) simp
  then have sp: "spare 64 n x" using x(2) True by (simp add: spare_def)
  have l: "length ds = len" and r: "len + c \<le> length buffer" "0 < length buffer" using h room by (auto simp: holds_def)
  obtain es b a q where e: "fraction_loop (\<lambda>x. x = 0) (next_digit64 undefined_shift) c (int n) x buffer len = Some (a, int q, b, len + length es)"
      "length b = length buffer" "holds b (len + length es) (ds @ es)" "length es \<le> c" "length es = c \<or> a = 0" "spare 64 q a" "n = q + length es"
      "x * 10 ^ length es = (dec es * 2 ^ q + a) * 2 ^ length es"
    using digits64.loop_digits [OF sp h r(1), of undefined_shift] by blast
  have aq: "a < 2 ^ q" "q \<le> 64" using e(6) by (simp_all add: spare_def)
  have bit: "shr undefined_shift a (int q - 1) mod 2 = 1 \<longleftrightarrow> 2 ^ q \<le> 2 * a"
  proof (cases q)
    case 0
    then show ?thesis using aq(1) und by (simp add: shr_def)
  next
    case (Suc p)
    then show ?thesis using top_bit [of a p] aq by (simp add: shr_def)
  qed
  have F: "FillFractionals undefined_shift x (- int n) (int c) buffer len (int len) =
      (if shr undefined_shift a (int q - 1) mod 2 = 1 then RoundUp b (len + length es) (int len) else Some (b, len + length es, int len))"
    using True x(1,3) e(1) by (simp add: FillFractionals_def)
  have r': "0 < length b" using r(2) e(2) by simp
  show ?thesis unfolding F using rounding_ok [OF e(3) l r' aq(1) e(5,4) fraction_scaled [OF e(8) refl, of ds] bit] e(2,7) by simp
next
  case False
  let ?u = "\<lparr>high_bits = x, low_bits = 0\<rparr>"
  obtain u where u: "UInt128_Shift (int n - 64) ?u = Some u" "wide u" "value128 u = x * 2 ^ (128 - n)"
    using Shift_ok [OF x(2,3) _ x(1)] False by (metis not_le)
  have "2 ^ (128 - n) \<le> (2 :: nat) ^ 63" using False by (intro power_increasing) auto
  then have "x * 2 ^ (128 - n) < 2 ^ 53 * 2 ^ 63" using x(1) by (intro mult_less_le_imp_less) auto
  then have sp: "ok128 128 u" using u(2,3) by (simp add: ok128_def spare_def)
  have l: "length ds = len" and r: "len + c \<le> length buffer" "0 < length buffer" using h room by (auto simp: holds_def)
  obtain es b a q where e: "fraction_loop IsZero next_digit128 c (int 128) u buffer len = Some (a, int q, b, len + length es)"
      "length b = length buffer" "holds b (len + length es) (ds @ es)" "length es \<le> c" "length es = c \<or> value128 a = 0" "ok128 q a" "128 = q + length es"
      "value128 u * 10 ^ length es = (dec es * 2 ^ q + value128 a) * 2 ^ length es"
    using digits128.loop_digits [OF sp h r(1)] by blast
  have aq: "value128 a < 2 ^ q" "wide a" using e(6) by (simp_all add: ok128_def spare_def)
  have bit: "BitAt (nat (int q - 1)) a = 1 \<longleftrightarrow> 2 ^ q \<le> 2 * value128 a"
    using top_bit [of "value128 a" "q - 1"] BitAt_ok [OF aq(2)] aq(1) by (cases q) simp_all
  have F: "FillFractionals undefined_shift x (- int n) (int c) buffer len (int len) =
      (if BitAt (nat (int q - 1)) a = 1 then RoundUp b (len + length es) (int len) else Some (b, len + length es, int len))"
    using False x(3) u(1) e(1) by (simp add: FillFractionals_def)
  have r': "0 < length b" using r(2) e(2) by simp
  have "real (value128 u) / 2 ^ 128 = real x / 2 ^ n"
  proof -
    have p2: "(2 :: real) ^ 128 = 2 ^ (128 - n) * 2 ^ n" using x(3) by (simp add: power_add [symmetric] del: power_numeral)
    show ?thesis unfolding u(3) p2 by simp
  qed
  then show ?thesis unfolding F
    using rounding_ok [OF e(3) l r' aq(1) e(5,4) fraction_scaled [OF e(8) refl, of ds] bit] e(2,7) by (simp del: power_numeral)
qed


section \<open>Trimming\<close>

lemma decimal_zeros: "decimal (ds @ replicate k 0) p = decimal ds p" "decimal (replicate k 0 @ ds) p = decimal ds (p - int k)"
proof -
  have z: "dec (replicate k 0) = 0" by (induction k) simp_all
  show "decimal (ds @ replicate k 0) p = decimal ds p" using z by (simp add: decimal_def dec_app power_int_diff power_int_add)
  show "decimal (replicate k 0 @ ds) p = decimal ds (p - int k)" using z by (simp add: decimal_def dec_app algebra_simps)
qed

lemma holds_butlast: "holds buffer (Suc n) (ds @ [d]) \<Longrightarrow> holds buffer n ds \<and> buffer ! n = 48 + d"
  using holds_nth [of buffer "Suc n" "ds @ [d]" n] holds_nth [of buffer "Suc n" "ds @ [d]"]
  by (auto simp: holds_def nth_append intro!: nth_equalityI)

lemma trim_end_ok:
  "holds buffer len ds \<Longrightarrow> \<exists>es k. ds = es @ replicate k 0 \<and> trim_end buffer len = length es \<and> (es \<noteq> [] \<longrightarrow> last es \<noteq> 0) \<and> holds buffer (length es) es"
proof (induction len arbitrary: ds)
  case 0
  then show ?case by (intro exI2 [of _ "[]" 0]) (simp add: holds_def)
next
  case (Suc n)
  then obtain fs d where ds: "ds = fs @ [d]" by (cases ds rule: rev_cases) (auto simp: holds_def)
  have h: "holds buffer n fs" "buffer ! n = 48 + d" using holds_butlast Suc.prems ds by blast+
  show ?case
  proof (cases "d = 0")
    case True
    obtain es k where "fs = es @ replicate k 0" "trim_end buffer n = length es" "es \<noteq> [] \<longrightarrow> last es \<noteq> 0" "holds buffer (length es) es"
      using Suc.IH [OF h(1)] by blast
    then show ?thesis using ds True h(2) by (intro exI2 [of _ es "Suc k"]) (simp add: replicate_append_same)
  next
    case False
    have "length ds = Suc n" using Suc.prems by (simp add: holds_def)
    then show ?thesis using ds False h(2) Suc.prems by (intro exI2 [of _ ds 0]) simp
  qed
qed

lemma trim_start_ok:
  "holds buffer len ds \<Longrightarrow> i \<le> len \<Longrightarrow>
   i \<le> trim_start buffer len i \<and> trim_start buffer len i \<le> len \<and> (\<forall>x. i \<le> x \<longrightarrow> x < trim_start buffer len i \<longrightarrow> ds ! x = 0) \<and>
     (trim_start buffer len i < len \<longrightarrow> ds ! trim_start buffer len i \<noteq> 0)"
proof (induction buffer len i rule: trim_start.induct)
  case (1 buffer len i)
  show ?case
  proof (cases "i < len \<and> buffer ! i = 48")
    case True
    then have z: "ds ! i = 0" using holds_nth [OF 1(2), of i] by simp
    have e: "trim_start buffer len i = trim_start buffer len (i + 1)" using True trim_start.simps [of buffer len i] by simp
    have "i + 1 \<le> len" using True by simp
    note I = "1.IH" [OF True 1(2) this]
    have "ds ! x = 0" if "i \<le> x" "x < trim_start buffer len (i + 1)" for x using that I z by (cases "x = i") auto
    then show ?thesis using I unfolding e by auto
  next
    case False
    then have "trim_start buffer len i = i" by (subst trim_start.simps) (rule if_not_P)
    then show ?thesis using False 1(3) holds_nth [OF 1(2), of i] by auto
  qed
qed

lemma shift_front_ok:
  "0 < k \<Longrightarrow> k \<le> i \<Longrightarrow> i \<le> len \<Longrightarrow> len \<le> length buffer \<Longrightarrow> length (shift_front k len i buffer) = length buffer \<and>
   (\<forall>x. shift_front k len i buffer ! x = (if i - k \<le> x \<and> x < len - k then buffer ! (x + k) else buffer ! x))"
proof (induction k len i buffer rule: shift_front.induct)
  case (1 k len i buffer)
  show ?case
  proof (cases "i < len")
    case True
    let ?b = "buffer[i - k := buffer ! i]"
    have IH: "length (shift_front k len (i + 1) ?b) = length buffer"
        "\<And>x. shift_front k len (i + 1) ?b ! x = (if i + 1 - k \<le> x \<and> x < len - k then ?b ! (x + k) else ?b ! x)"
      using "1.IH" [OF True] 1(2-5) True by auto
    have "shift_front k len (i + 1) ?b ! x = (if i - k \<le> x \<and> x < len - k then buffer ! (x + k) else buffer ! x)" for x
      unfolding IH(2) using 1(2-5) True by (cases "x = i - k") (auto simp: nth_list_update)
    then show ?thesis using IH(1) True shift_front.simps [of k len i buffer] by simp
  next
    case False
    then have "shift_front k len i buffer = buffer" by (subst shift_front.simps) (rule if_not_P)
    then show ?thesis using False 1(4) by auto
  qed
qed

definition trimmed :: "nat list \<Rightarrow> bool" where
  "trimmed ds \<longleftrightarrow> ds = [] \<or> hd ds \<noteq> 0 \<and> last ds \<noteq> 0"

lemma TrimZeros_ok:
  assumes h: "holds buffer len ds"
  shows "\<exists>buffer' es point'. TrimZeros buffer len point = (buffer', length es, point') \<and> length buffer' = length buffer \<and>
    holds buffer' (length es) es \<and> length es \<le> len \<and> trimmed es \<and> decimal es point' = decimal ds point"
proof -
  obtain fs k where f: "ds = fs @ replicate k 0" "trim_end buffer len = length fs" "fs \<noteq> [] \<longrightarrow> last fs \<noteq> 0" "holds buffer (length fs) fs"
    using trim_end_ok [OF h] by blast
  let ?n = "length fs" and ?j = "trim_start buffer (length fs) 0"
  have j: "?j \<le> ?n" "\<forall>x<?j. fs ! x = 0" "?j < ?n \<longrightarrow> fs ! ?j \<noteq> 0" using trim_start_ok [OF f(4), of 0] by auto
  let ?es = "drop ?j fs"
  have fs: "fs = replicate ?j 0 @ ?es" using j(1,2) by (intro nth_equalityI) (auto simp: nth_append)
  have "trimmed ?es" unfolding trimmed_def using j(3) f(3) by (auto simp: hd_drop_conv_nth last_drop)
  moreover have "decimal ?es (point - int ?j) = decimal ds point" using f(1) fs decimal_zeros by metis
  moreover have "length ?es \<le> len" using h f(1) by (auto simp: holds_def)
  moreover have "holds (if ?j \<noteq> 0 then shift_front ?j ?n ?j buffer else buffer) (length ?es) ?es \<and>
      length (if ?j \<noteq> 0 then shift_front ?j ?n ?j buffer else buffer) = length buffer"
  proof (cases "?j = 0")
    case False
    have b: "?n \<le> length buffer" using f(4) by (simp add: holds_def)
    note S = shift_front_ok [of ?j ?j ?n buffer]
    have "holds (shift_front ?j ?n ?j buffer) (length ?es) ?es"
    proof (rule holdsI)
      show "\<forall>d\<in>set ?es. d \<le> 9" using f(4) by (auto simp: holds_def dest: in_set_dropD)
      fix i assume "i < length ?es"
      then show "shift_front ?j ?n ?j buffer ! i = 48 + ?es ! i" using S False j(1) b holds_nth [OF f(4), of "i + ?j"] by (simp add: add.commute)
    qed (use S False j(1) b in auto)
    then show ?thesis using S False j(1) b by simp
  qed (use f(4) in simp)
  ultimately show ?thesis using f(2)
    by (intro exI3 [of _ "if ?j \<noteq> 0 then shift_front ?j ?n ?j buffer else buffer" ?es "point - int ?j"]) (simp add: TrimZeros_def Let_def)
qed


section \<open>The conversion\<close>

lemma rounded_to_nat: "rounded_to (- int c) (real N) = real N"
  using rounded_to_digits(3) [of "real N" 0 N 0 c] by simp

lemma decimal_nat: "length ds = len \<Longrightarrow> decimal ds (int len) = real (dec ds)"
  by (simp add: decimal_def)

text \<open>Division by \<open>10 ^ 17\<close>, which the code does without numbers of more than 64 bits.\<close>

lemma kFive17: "kFive17 = 5 ^ 17"
  by (simp add: kFive17_def)

lemma split17_ok:
  assumes f: "f < 2 ^ 53" and e: "12 \<le> e" "e \<le> 20"
  shows "\<exists>q r. split17 f e = (q, r) \<and> q < 10 ^ 5 \<and> r < 10 ^ 17 \<and> f * 2 ^ nat e = q * 10 ^ 17 + r"
proof -
  have "(2 :: nat) ^ nat e \<le> 2 ^ 20" using e by (intro power_increasing) auto
  then have "f * 2 ^ nat e < 2 ^ 53 * 2 ^ 20" using f by (intro mult_less_le_imp_less) auto
  then have big: "f * 2 ^ nat e < 10 ^ 5 * 10 ^ 17" by simp
  have fin: "\<exists>q r. (uint32 (d div m), uint64 (d mod m * 2 ^ t)) = (q, r) \<and> q < 10 ^ 5 \<and> r < 10 ^ 17 \<and> f * 2 ^ nat e = q * 10 ^ 17 + r"
    if "m * 2 ^ t = 10 ^ 17" "0 < m" "f * 2 ^ nat e = d * 2 ^ t" for d m t
  proof -
    have s: "f * 2 ^ nat e = d div m * 10 ^ 17 + d mod m * 2 ^ t"
      unfolding that(3) that(1) [symmetric] by (metis add_mult_distrib div_mult_mod_eq mult.assoc)
    have r: "d mod m * 2 ^ t < 10 ^ 17" unfolding that(1) [symmetric] using that(2) by simp
    have q: "d div m < 10 ^ 5" using big s by simp
    have "uint32 (d div m) = d div m" "uint64 (d mod m * 2 ^ t) = d mod m * 2 ^ t" using q r by simp_all
    then show ?thesis using q r s by auto
  qed
  show ?thesis
  proof (cases "e > 17")
    case True
    have "(2 :: nat) ^ nat (e - 17) \<le> 2 ^ 3" using e by (intro power_increasing) auto
    then have b: "f * 2 ^ nat (e - 17) < 2 ^ 53 * 2 ^ 3" using f by (intro mult_less_le_imp_less) auto
    have "nat e = nat (e - 17) + 17" using True by simp
    then have "f * 2 ^ nat e = f * 2 ^ nat (e - 17) * 2 ^ 17" by (simp only: power_add mult.assoc)
    moreover have "split17 f e = (uint32 (f * 2 ^ nat (e - 17) div kFive17), uint64 (f * 2 ^ nat (e - 17) mod kFive17 * 2 ^ 17))"
      using b True by (simp add: split17_def Let_def)
    ultimately show ?thesis using fin [of kFive17 17 "f * 2 ^ nat (e - 17)"] by (simp only: kFive17_def) simp
  next
    case False
    have "(2 :: nat) ^ nat (17 - e) \<le> 2 ^ 5" using e by (intro power_increasing) auto
    then have b: "kFive17 * 2 ^ nat (17 - e) < 2 ^ 64" by (simp add: kFive17)
    have "kFive17 * 2 ^ nat (17 - e) * 2 ^ nat e = 5 ^ 17 * 2 ^ 17" using False e by (simp add: kFive17 power_add [symmetric] nat_add_distrib [symmetric])
    moreover have "split17 f e = (uint32 (f div (kFive17 * 2 ^ nat (17 - e))), uint64 (f mod (kFive17 * 2 ^ nat (17 - e)) * 2 ^ nat e))"
      using b False by (simp add: split17_def Let_def)
    ultimately show ?thesis using fin [of "kFive17 * 2 ^ nat (17 - e)" "nat e" f] by (simp add: kFive17_def)
  qed
qed


definition fixed_result :: "nat list \<Rightarrow> nat \<Rightarrow> real \<Rightarrow> (nat list \<times> nat \<times> int) option \<Rightarrow> bool" where
  "fixed_result buffer c x res \<longleftrightarrow> (\<exists>buffer' ds point. res = Some (buffer', length ds, point) \<and> length buffer' = length buffer \<and>
     holds buffer' (length ds) ds \<and> length ds < length buffer \<and> decimal ds point = rounded_to (- int c) x)"

lemma fixed_integer:
  assumes "s = Some (buffer', length ds)" "length buffer' = length buffer" "holds buffer' (length ds) ds" "length ds < length buffer" "real (dec ds) = x"
  shows "fixed_result buffer c x (do { (buffer, len) \<leftarrow> s; Some (buffer, len, int len) })"
  unfolding fixed_result_def using assms rounded_to_nat [of c "dec ds"] decimal_nat [of ds]
  by (intro exI3 [of _ buffer' ds "int (length ds)"]) simp

lemma fixed_fraction:
  assumes "x < 2 ^ 53" "x < 2 ^ n" "n \<le> 128" and "undefined_shift 0 (-1) mod 2 = 0"
    and "holds buffer' (length ds) ds" "length ds + c < length buffer'" "1 < length buffer'" "length buffer' = length buffer"
  shows "fixed_result buffer c (real (dec ds) + real x / 2 ^ n) (FillFractionals undefined_shift x (- int n) (int c) buffer' (length ds) (int (length ds)))"
proof -
  obtain b ds' p where "FillFractionals undefined_shift x (- int n) (int c) buffer' (length ds) (int (length ds)) = Some (b, length ds', p)"
      "length b = length buffer'" "holds b (length ds') ds'" "length ds' \<le> max 1 (length ds + c)"
      "decimal ds' p = rounded_to (- int c) (real (dec ds) + real x / 2 ^ n)"
    using FillFractionals_ok [where undefined_shift = undefined_shift, OF assms(1-6)] by blast
  then show ?thesis unfolding fixed_result_def using assms(6-8) by (intro exI3 [of _ b ds' p]) auto
qed

lemma fixed_digits_ok:
  assumes f: "f < 2 ^ 53" and e: "e \<le> 20" and c: "c \<le> 20" and und: "undefined_shift 0 (-1) mod 2 = 0" and room: "41 \<le> length buffer"
  shows "fixed_result buffer c (real f * 2 powi e) (fixed_digits undefined_shift f e (int c) buffer)"
proof -
  have h: "holds buffer 0 []" by (simp add: holds_def)
  consider "12 \<le> e" | "0 \<le> e" "e < 12" | "-53 < e" "e < 0" | "e < -128" | "-128 \<le> e" "e \<le> -53" by linarith
  then show ?thesis
  proof cases
    case 1
    obtain q r where qr: "split17 f e = (q, r)" "q < 10 ^ 5" "r < 10 ^ 17" "f * 2 ^ nat e = q * 10 ^ 17 + r" using split17_ok [OF f 1 e] by blast
    have l: "length (digits q) \<le> 5" using digits_length [OF qr(2)] .
    obtain b1 where b1: "FillDigits32 q (buffer, 0) = Some (b1, length (digits q))" "length b1 = length buffer" "holds b1 (length (digits q)) (digits q)"
      using FillDigits32_ok [OF h, of q] l room by auto
    obtain b2 es where b2: "FillDigits64FixedLength r (b1, length (digits q)) = Some (b2, length (digits q) + 17)" "length b2 = length buffer"
        "holds b2 (length (digits q) + 17) (digits q @ es)" "length es = 17" "dec es = r"
      using FillDigits64FixedLength_ok [OF b1(3) _ qr(3)] l room b1(2) by auto
    have "real (dec (digits q @ es)) = real f * 2 powi e"
    proof -
      have "real f * 2 ^ nat e = real q * 10 ^ 17 + real r" using arg_cong [OF qr(4), of real] by simp
      then show ?thesis using b2(4,5) 1 by (simp add: dec_app dec_digits power_int_def)
    qed
    moreover have "fixed_digits undefined_shift f e (int c) buffer =
        (do { (buffer, len) \<leftarrow> FillDigits64FixedLength r (b1, length (digits q)); Some (buffer, len, int len) })"
      using 1 qr(1) b1(1) by (simp add: fixed_digits_def kDoubleSignificandSize_def)
    ultimately show ?thesis using fixed_integer [of _ b2 "digits q @ es" buffer] b2 l room by simp
  next
    case 2
    have "(2 :: nat) ^ nat e \<le> 2 ^ 11" using 2 by (intro power_increasing) auto
    then have b: "f * 2 ^ nat e < 2 ^ 53 * 2 ^ 11" using f by (intro mult_less_le_imp_less) auto
    then have u: "uint64 (f * 2 ^ nat e) = f * 2 ^ nat e" by simp
    obtain b1 ds where b1: "FillDigits64 (f * 2 ^ nat e) (buffer, 0) = Some (b1, length ds)" "length b1 = length buffer" "holds b1 (length ds) ds"
        "length ds \<le> 20" "dec ds = f * 2 ^ nat e"
      using FillDigits64_ok [of buffer "f * 2 ^ nat e"] b room by auto
    have "real (dec ds) = real f * 2 powi e" using b1(5) 2 by (simp add: power_int_def)
    then show ?thesis using fixed_integer [OF b1(1,2,3)] b1(4) room 2 u by (simp add: fixed_digits_def kDoubleSignificandSize_def)
  next
    case 3
    obtain n where n: "e = - int n" "0 < n" "n < 53" using 3 by (intro that [of "nat (- e)"]) auto
    let ?i = "f div 2 ^ n" and ?x = "f mod 2 ^ n"
    have i: "?i < 2 ^ 53" using f by (rule le_less_trans [OF div_le_dividend])
    have "?i * 2 ^ n \<le> f" "f < 2 ^ 64" using f by simp_all
    then have x: "sub64 f (?i * 2 ^ n) = ?x" using sub64_id by (simp add: minus_div_mult_eq_mod)
    have xb: "?x < 2 ^ 53" "?x < 2 ^ n" using f by (auto intro: le_less_trans [OF mod_less_eq_dividend])
    have ex: "\<exists>b1 ds. (if ?i > 0xFFFFFFFF then FillDigits64 ?i (buffer, 0) else FillDigits32 (uint32 ?i) (buffer, 0)) = Some (b1, length ds) \<and>
        length b1 = length buffer \<and> holds b1 (length ds) ds \<and> length ds \<le> 20 \<and> dec ds = ?i"
    proof (cases "?i > 0xFFFFFFFF")
      case True
      then show ?thesis using FillDigits64_ok [of buffer ?i] i room by simp
    next
      case False
      then have i: "?i < 2 ^ 32" "?i < 10 ^ 10" by simp_all
      have l: "length (digits ?i) \<le> 10" using digits_length [OF i(2)] .
      have "0 + length (digits ?i) \<le> length buffer" using l room by simp
      then obtain b where "FillDigits32 ?i (buffer, 0) = Some (b, length (digits ?i))" "length b = length buffer" "holds b (length (digits ?i)) (digits ?i)"
        using FillDigits32_ok [OF h, of ?i] by auto
      then show ?thesis using cast_id(2) [OF i(1)] False dec_digits [of ?i] l by (intro exI2 [of _ b "digits ?i"]) simp
    qed
    then obtain b1 ds where b1: "(if ?i > 0xFFFFFFFF then FillDigits64 ?i (buffer, 0) else FillDigits32 (uint32 ?i) (buffer, 0)) = Some (b1, length ds)"
        "length b1 = length buffer" "holds b1 (length ds) ds" "length ds \<le> 20" "dec ds = ?i" by blast
    have F: "fixed_digits undefined_shift f e (int c) buffer = FillFractionals undefined_shift ?x (- int n) (int c) b1 (length ds) (int (length ds))"
    proof -
      have k: "(e + kDoubleSignificandSize > 64) = False" "(e \<ge> 0) = False" "(e > - kDoubleSignificandSize) = True" "nat (- e) = n"
        using n by (simp_all add: kDoubleSignificandSize_def)
      show ?thesis unfolding fixed_digits_def Let_def k if_True if_False x b1(1) by (simp add: n(1))
    qed
    have g: "y * 2 powi (- int n) = i + x / 2 ^ n" if "y = i * 2 ^ n + x" for y i x :: real using that by (simp add: power_int_minus field_simps)
    have "real f = real (?i * 2 ^ n + ?x)" unfolding div_mult_mod_eq ..
    then have "real f = real ?i * 2 ^ n + real ?x" by (simp only: of_nat_add of_nat_mult of_nat_power of_nat_numeral)
    then have v: "real f * 2 powi e = real (dec ds) + real ?x / 2 ^ n" unfolding n(1) b1(5) by (rule g)
    have r: "n \<le> 128" "length ds + c < length b1" "1 < length b1" using n(3) b1(2,4) c room by linarith+
    show ?thesis using fixed_fraction [where undefined_shift = undefined_shift, OF xb r(1) und b1(3) r(2,3) b1(2)] unfolding F v .
  next
    case 4
    have "2 powi e \<le> (2 :: real) powi (-129)" using 4 by (intro power_int_increasing) auto
    then have "real f * 2 powi e \<le> 2 ^ 53 * 2 powi (-129)" using f by (intro mult_mono) auto
    also have "\<dots> < 10 powi (-21)" by (simp add: power_int_minus)
    also have "\<dots> \<le> 10 powi (- int c - 1)" using c by (intro power_int_increasing) auto
    finally have "rounded_to (- int c) (real f * 2 powi e) = 0" by (intro rounded_to_zero) simp_all
    moreover have "fixed_digits undefined_shift f e (int c) buffer = Some (buffer[0 := 0], length ([] :: nat list), - int c)"
      using 4 room by (cases buffer) (simp_all add: fixed_digits_def kDoubleSignificandSize_def buffer_put_def)
    ultimately show ?thesis unfolding fixed_result_def using room
      by (intro exI3 [of _ "buffer[0 := 0]" "[]" "- int c"]) (auto simp: holds_def decimal_empty)
  next
    case 5
    obtain n where n: "e = - int n" "53 \<le> n" "n \<le> 128" using 5 by (intro that [of "nat (- e)"]) auto
    have "(2 :: nat) ^ 53 \<le> 2 ^ n" using n(2) by (intro power_increasing) auto
    then have b: "f < 2 ^ n" using f by linarith
    have "fixed_digits undefined_shift f e (int c) buffer = FillFractionals undefined_shift f (- int n) (int c) buffer 0 0"
      using n by (simp add: fixed_digits_def kDoubleSignificandSize_def)
    moreover have "real f * 2 powi e = real (dec []) + real f / 2 ^ n" using n(1) by (simp add: power_int_minus divide_inverse)
    ultimately show ?thesis using fixed_fraction [where undefined_shift = undefined_shift, OF f b n(3) und, of buffer "[]" c buffer] h c room by simp
  qed
qed


lemma finish_ok:
  assumes e: "Exponent v \<le> 20" and c: "c \<le> 20"
    and d: "fixed_digits undefined_shift (unat (Significand v)) (Exponent v) (int c) buffer = Some (b, length ds, p)" "length b = length buffer"
      "holds b (length ds) ds" "length ds < length buffer"
  shows "\<exists>buffer' es point. FastFixedDtoa undefined_shift v (int c) buffer = Some (Some (buffer', length es, point)) \<and>
    take (length es) buffer' = map ((+) 48) es \<and> buffer' ! length es = 0 \<and> (\<forall>d\<in>set es. d \<le> 9) \<and> length es < length buffer' \<and> trimmed es \<and> decimal es point = decimal ds p"
proof -
  obtain b' es p' where t: "TrimZeros b (length ds) p = (b', length es, p')" "length b' = length b" "holds b' (length es) es" "length es \<le> length ds"
      "trimmed es" "decimal es p' = decimal ds p"
    using TrimZeros_ok [OF d(3)] by blast
  let ?b = "b'[length es := 0]" and ?p = "if length es = 0 then - int c else p'"
  have n: "length es < length b'" using t(2,4) d(2,4) by simp
  have "FastFixedDtoa undefined_shift v (int c) buffer = Some (Some (?b, length es, ?p))"
    using e c d(1) t(1) n by (simp add: FastFixedDtoa_def Let_def buffer_put_def)
  moreover have "decimal es ?p = decimal ds p" using t(6) by (cases "es = []") (simp_all add: decimal_empty)
  ultimately show ?thesis using t(3,5) n by (intro exI3 [of _ ?b es ?p]) (simp add: holds_def)
qed

lemma FastFixedDtoa_ok:
  assumes v: "v < kInfinity" and e: "Exponent v \<le> 20" and c: "c \<le> 20" and und: "undefined_shift 0 (-1) mod 2 = 0" and room: "41 \<le> length buffer"
  shows "\<exists>buffer' ds point. FastFixedDtoa undefined_shift v (int c) buffer = Some (Some (buffer', length ds, point)) \<and>
    take (length ds) buffer' = map ((+) 48) ds \<and> buffer' ! length ds = 0 \<and> (\<forall>d\<in>set ds. d \<le> 9) \<and> length ds < length buffer' \<and> trimmed ds \<and>
    decimal ds point = rounded_to (- int c) (double_value v)"
proof -
  have f: "unat (Significand v) < 2 ^ 53" using Significand_bound v by simp
  obtain b ds p where d: "fixed_digits undefined_shift (unat (Significand v)) (Exponent v) (int c) buffer = Some (b, length ds, p)" "length b = length buffer"
      "holds b (length ds) ds" "length ds < length buffer" "decimal ds p = rounded_to (- int c) (double_value v)"
    using fixed_digits_ok [where undefined_shift = undefined_shift, OF f e c und room] unfolding fixed_result_def double_value_def by blast
  from finish_ok [OF e c d(1-4)] show ?thesis unfolding d(5) .
qed

section \<open>Properties\<close>

text \<open>
  C38. \<open>FastFixedDtoa\<close> is exact: for every finite number that is not negative and below \<open>2 ^ 73\<close> or so (exponent at most 20) and up to
  20 digits after the point it answers with the number rounded to that many digits, halfway cases up, without zeros at either end; no
  multiplication by five overflows and no write leaves a buffer of 41 characters.  A right shift of zero by \<open>-1\<close>, which the code does when
  the fraction ends with the last requested digit, is assumed not to set the lowest bit.
\<close>

theorem FastFixedDtoa_exact:
  assumes "v < kInfinity" and "Exponent v \<le> 20" and "c \<le> 20" and "undefined_shift 0 (-1) mod 2 = 0" and "41 \<le> length buffer"
  shows "\<exists>buffer' ds point. FastFixedDtoa undefined_shift v (int c) buffer = Some (Some (buffer', length ds, point)) \<and>
    take (length ds) buffer' = map ((+) 48) ds \<and> buffer' ! length ds = 0 \<and> list_all (\<lambda>d. d \<le> 9) ds \<and> length ds < length buffer' \<and> trimmed ds \<and>
    decimal ds point = of_int \<lfloor>double_value v / 10 powi (- int c) + 1 / 2\<rfloor> * 10 powi (- int c)"
  unfolding list_all_iff rounded_to_def [symmetric] by (rule FastFixedDtoa_ok [where undefined_shift = undefined_shift, OF assms])

theorem FastFixedDtoa_exact_witness:
  "\<exists>buffer' ds point. FastFixedDtoa (\<lambda>_ _. 0) 0x3FC3333333333333 (int 2) (replicate 41 0) = Some (Some (buffer', length ds, point)) \<and>
    decimal ds point = of_int \<lfloor>double_value 0x3FC3333333333333 / 10 powi (- int 2) + 1 / 2\<rfloor> * 10 powi (- int 2)"
proof -
  have v: "(0x3FC3333333333333 :: 64 word) < kInfinity" by (simp add: kInfinity_def)
  have e: "Exponent 0x3FC3333333333333 \<le> 20" using Exponent_eq [of "0x3FC3333333333333"] v by simp
  from FastFixedDtoa_exact [OF v e, of 2 "\<lambda>_ _. 0" "replicate 41 0"] show ?thesis by auto
qed

text \<open>
  The fast and the exact conversion agree: where \<open>FastFixedDtoa\<close> answers, its decimal is the one that \<open>BignumDtoa\<close> computes in fixed
  mode, so that trying the fast one first does not change the result.
\<close>

theorem FastFixedDtoa_agrees_with_BignumDtoa:
  assumes "0 < v" and "v < kInfinity" and "Exponent v \<le> 20" and "c \<le> 20" and "undefined_shift 0 (-1) mod 2 = 0" and "347 \<le> length buffer"
  shows "\<exists>b ds p b' ds' p'. FastFixedDtoa undefined_shift v (int c) buffer = Some (Some (b, length ds, p)) \<and>
    BignumDtoa v BIGNUM_DTOA_FIXED (int c) buffer = Some (b', length ds', p') \<and> take (length ds) b = map ((+) 48) ds \<and>
    take (length ds') b' = map ((+) 48) ds' \<and> decimal ds p = decimal ds' p'"
proof -
  obtain b ds p where f: "FastFixedDtoa undefined_shift v (int c) buffer = Some (Some (b, length ds, p))" "take (length ds) b = map ((+) 48) ds"
      "decimal ds p = rounded_to (- int c) (double_value v)"
    using FastFixedDtoa_ok [where undefined_shift = undefined_shift, OF assms(2-5), of buffer] assms(6) by auto
  have "int c + 326 < int (length buffer)" using assms(4,6) by simp
  then obtain b' ds' p' where "BignumDtoa v BIGNUM_DTOA_FIXED (int c) buffer = Some (b', length ds', p')" "take (length ds') b' = map ((+) 48) ds'"
      "decimal ds' p' = rounded_to (- int c) (double_value v)"
    by (rule BignumDtoa_fixed_ok [OF assms(1,2) of_nat_0_le_iff, of c buffer])
  then show ?thesis using f by metis
qed

theorem FastFixedDtoa_agrees_with_BignumDtoa_witness:
  "\<exists>b ds p b' ds' p'. FastFixedDtoa (\<lambda>_ _. 0) 0x3FC3333333333333 (int 2) (replicate 347 0) = Some (Some (b, length ds, p)) \<and>
    BignumDtoa 0x3FC3333333333333 BIGNUM_DTOA_FIXED (int 2) (replicate 347 0) = Some (b', length ds', p') \<and> decimal ds p = decimal ds' p'"
proof -
  have v: "(0 :: 64 word) < 0x3FC3333333333333" "(0x3FC3333333333333 :: 64 word) < kInfinity" by (simp_all add: kInfinity_def)
  have e: "Exponent 0x3FC3333333333333 \<le> 20" using Exponent_eq [of "0x3FC3333333333333"] v by simp
  from FastFixedDtoa_agrees_with_BignumDtoa [OF v e, of 2 "\<lambda>_ _. 0" "replicate 347 0"] show ?thesis by (simp del: length_0_conv) blast
qed

text \<open>
  The shift by \<open>-1\<close> happens: for \<open>2 ^ 51 + 1 / 2\<close> and one digit after the point the fraction ends with that digit, and on a
  machine where the shift of zero gives one the answer is \<open>2 ^ 51 + 6 / 10\<close>.
\<close>

theorem FastFixedDtoa_depends_on_undefined_shift:
  "\<exists>buffer' ds point. FastFixedDtoa (\<lambda>_ _. 1) 0x4320000000000001 (int 1) (replicate 41 0) = Some (Some (buffer', length ds, point)) \<and>
    take (length ds) buffer' = map ((+) 48) ds \<and> double_value 0x4320000000000001 = 2 ^ 51 + 5 / 10 \<and> decimal ds point = 2 ^ 51 + 6 / 10"
proof -
  let ?v = "0x4320000000000001 :: 64 word" and ?b = "replicate 41 (0 :: nat)"
  have "?v \<le> kInfinity" by (simp add: kInfinity_def)
  then have v: "Exponent ?v = -1" "unat (Significand ?v) = 2 ^ 52 + 1" using Exponent_eq [of ?v] Significand_eq [of ?v] by simp_all
  obtain b1 ds where b1: "FillDigits64 (2 ^ 51) (?b, 0) = Some (b1, length ds)" "length b1 = 41" "holds b1 (length ds) ds" "length ds \<le> 20" "dec ds = 2 ^ 51"
    using FillDigits64_ok [of ?b "2 ^ 51"] by auto
  let ?b2 = "b1[length ds := 53]"
  have "holds ?b2 (length ds + length [5 :: nat]) (ds @ [5])" using b1(2,4) by (intro holds_append [OF b1(3)]) auto
  then obtain b3 es p where r: "RoundUp ?b2 (length ds + 1) (int (length ds)) = Some (b3, length es, p)" "length b3 = 41" "holds b3 (length es) es"
      "length es \<le> max 1 (length ds + 1)" "decimal es p = (real (dec (ds @ [5])) + 1) * 10 powi (int (length ds) - int (length ds + 1))"
    using RoundUp_ok [of ?b2 "length ds + 1" "ds @ [5]" "int (length ds)"] b1(2) by auto
  have "fixed_digits (\<lambda>_ _. 1) (unat (Significand ?v)) (Exponent ?v) (int 1) ?b = Some (b3, length es, p)"
    unfolding v using b1(1,2,4) r(1) by (simp add: fixed_digits_def kDoubleSignificandSize_def FillFractionals_def next_digit64_def Let_def
      shr_def shl_def uint32_def uint64_def sub64_def buffer_put_def)
  then obtain b' fs p' where "FastFixedDtoa (\<lambda>_ _. 1) ?v (int 1) ?b = Some (Some (b', length fs, p'))" "take (length fs) b' = map ((+) 48) fs"
      "decimal fs p' = decimal es p"
    using finish_ok [of ?v 1 "\<lambda>_ _. 1" ?b b3 es p] v r b1(4) by auto
  moreover have "decimal es p = 2 ^ 51 + 6 / 10" using r(5) b1(5) by (simp add: dec_append power_int_minus)
  moreover have "double_value ?v = 2 ^ 51 + 5 / 10" unfolding double_value_def v by (simp add: power_int_minus)
  ultimately show ?thesis by (intro exI3 [of _ b' fs p']) simp
qed

end
