(* ===== verification/Cached_Powers.thy ===== *)
theory Cached_Powers
  imports Estimate_Power "HOL-Library.Signed_Division"
begin

text \<open>
  The cache of powers of ten of \<^verbatim>\<open>src/cached-powers.cc\<close>: every eighth power from \<open>10 ^ (-348)\<close> to \<open>10 ^ 340\<close> with a significand
  of 64 bits.  Every entry is correct to half a unit in the last place, and the two lookups return an entry of the requested range.
  A failing assertion is \<open>None\<close>.
\<close>

section \<open>The program\<close>

record CachedPower =
  cp_significand :: "64 word"
  binary_exponent :: int
  decimal_exponent :: int

definition kCachedPowers :: "CachedPower list" where
  "kCachedPowers = map (\<lambda>(significand, be, de). \<lparr>cp_significand = significand, binary_exponent = be, decimal_exponent = de\<rparr>)
    [(0xfa8fd5a0081c0288, -1220, -348), (0xbaaee17fa23ebf76, -1193, -340), (0x8b16fb203055ac76, -1166, -332), (0xcf42894a5dce35ea, -1140, -324),
     (0x9a6bb0aa55653b2d, -1113, -316), (0xe61acf033d1a45df, -1087, -308), (0xab70fe17c79ac6ca, -1060, -300), (0xff77b1fcbebcdc4f, -1034, -292),
     (0xbe5691ef416bd60c, -1007, -284), (0x8dd01fad907ffc3c, -980, -276), (0xd3515c2831559a83, -954, -268), (0x9d71ac8fada6c9b5, -927, -260),
     (0xea9c227723ee8bcb, -901, -252), (0xaecc49914078536d, -874, -244), (0x823c12795db6ce57, -847, -236), (0xc21094364dfb5637, -821, -228),
     (0x9096ea6f3848984f, -794, -220), (0xd77485cb25823ac7, -768, -212), (0xa086cfcd97bf97f4, -741, -204), (0xef340a98172aace5, -715, -196),
     (0xb23867fb2a35b28e, -688, -188), (0x84c8d4dfd2c63f3b, -661, -180), (0xc5dd44271ad3cdba, -635, -172), (0x936b9fcebb25c996, -608, -164),
     (0xdbac6c247d62a584, -582, -156), (0xa3ab66580d5fdaf6, -555, -148), (0xf3e2f893dec3f126, -529, -140), (0xb5b5ada8aaff80b8, -502, -132),
     (0x87625f056c7c4a8b, -475, -124), (0xc9bcff6034c13053, -449, -116), (0x964e858c91ba2655, -422, -108), (0xdff9772470297ebd, -396, -100),
     (0xa6dfbd9fb8e5b88f, -369, -92), (0xf8a95fcf88747d94, -343, -84), (0xb94470938fa89bcf, -316, -76), (0x8a08f0f8bf0f156b, -289, -68),
     (0xcdb02555653131b6, -263, -60), (0x993fe2c6d07b7fac, -236, -52), (0xe45c10c42a2b3b06, -210, -44), (0xaa242499697392d3, -183, -36),
     (0xfd87b5f28300ca0e, -157, -28), (0xbce5086492111aeb, -130, -20), (0x8cbccc096f5088cc, -103, -12), (0xd1b71758e219652c, -77, -4),
     (0x9c40000000000000, -50, 4), (0xe8d4a51000000000, -24, 12), (0xad78ebc5ac620000, 3, 20), (0x813f3978f8940984, 30, 28),
     (0xc097ce7bc90715b3, 56, 36), (0x8f7e32ce7bea5c70, 83, 44), (0xd5d238a4abe98068, 109, 52), (0x9f4f2726179a2245, 136, 60),
     (0xed63a231d4c4fb27, 162, 68), (0xb0de65388cc8ada8, 189, 76), (0x83c7088e1aab65db, 216, 84), (0xc45d1df942711d9a, 242, 92),
     (0x924d692ca61be758, 269, 100), (0xda01ee641a708dea, 295, 108), (0xa26da3999aef774a, 322, 116), (0xf209787bb47d6b85, 348, 124),
     (0xb454e4a179dd1877, 375, 132), (0x865b86925b9bc5c2, 402, 140), (0xc83553c5c8965d3d, 428, 148), (0x952ab45cfa97a0b3, 455, 156),
     (0xde469fbd99a05fe3, 481, 164), (0xa59bc234db398c25, 508, 172), (0xf6c69a72a3989f5c, 534, 180), (0xb7dcbf5354e9bece, 561, 188),
     (0x88fcf317f22241e2, 588, 196), (0xcc20ce9bd35c78a5, 614, 204), (0x98165af37b2153df, 641, 212), (0xe2a0b5dc971f303a, 667, 220),
     (0xa8d9d1535ce3b396, 694, 228), (0xfb9b7cd9a4a7443c, 720, 236), (0xbb764c4ca7a44410, 747, 244), (0x8bab8eefb6409c1a, 774, 252),
     (0xd01fef10a657842c, 800, 260), (0x9b10a4e5e9913129, 827, 268), (0xe7109bfba19c0c9d, 853, 276), (0xac2820d9623bf429, 880, 284),
     (0x80444b5e7aa7cf85, 907, 292), (0xbf21e44003acdd2d, 933, 300), (0x8e679c2f5e44ff8f, 960, 308), (0xd433179d9c8cb841, 986, 316),
     (0x9e19db92b4e31ba9, 1013, 324), (0xeb96bf6ebadf77d9, 1039, 332), (0xaf87023b9bf0ee6b, 1066, 340)]"

definition kCachedPowersLength :: int where
  "kCachedPowersLength = int (length kCachedPowers)"

definition kCachedPowersOffset :: int where
  "kCachedPowersOffset = - decimal_exponent (kCachedPowers ! 0)"

definition kD_1_LOG2_10 :: rat where
  "kD_1_LOG2_10 = fl (30102999566398114 / 10 ^ 17)"

definition kDecimalExponentDistance :: int where
  "kDecimalExponentDistance = decimal_exponent (kCachedPowers ! 1) - decimal_exponent (kCachedPowers ! 0)"

definition kMinDecimalExponent :: int where
  "kMinDecimalExponent = decimal_exponent (kCachedPowers ! 0)"

definition kMaxDecimalExponent :: int where
  "kMaxDecimalExponent = decimal_exponent (kCachedPowers ! nat (kCachedPowersLength - 1))"

definition cached_fp :: "CachedPower \<Rightarrow> diy_fp" where
  "cached_fp c = DiyFp (cp_significand c) (binary_exponent c)"

definition GetCachedPowerForBinaryExponentRange :: "int \<Rightarrow> int \<Rightarrow> (diy_fp \<times> int) option" where
  "GetCachedPowerForBinaryExponentRange min_exponent max_exponent =
     (let k = \<lceil>fl (of_int (min_exponent + 64 - 1) * kD_1_LOG2_10)\<rceil>;
          index = (kCachedPowersOffset + k - 1) sdiv kDecimalExponentDistance + 1
      in if \<not> (0 \<le> index \<and> index < kCachedPowersLength) then None
         else
           (let cached_power = kCachedPowers ! nat index
            in if min_exponent \<le> binary_exponent cached_power \<and> binary_exponent cached_power \<le> max_exponent
               then Some (cached_fp cached_power, decimal_exponent cached_power) else None))"

definition GetCachedPowerForDecimalExponent :: "int \<Rightarrow> (diy_fp \<times> int) option" where
  "GetCachedPowerForDecimalExponent requested_exponent =
     (if \<not> (kMinDecimalExponent \<le> requested_exponent \<and> requested_exponent < kMaxDecimalExponent + kDecimalExponentDistance) then None
      else
        (let index = (requested_exponent + kCachedPowersOffset) sdiv kDecimalExponentDistance;
             cached_power = kCachedPowers ! nat index;
             found_exponent = decimal_exponent cached_power
         in if found_exponent \<le> requested_exponent \<and> requested_exponent < found_exponent + kDecimalExponentDistance
            then Some (cached_fp cached_power, found_exponent) else None))"

section \<open>The table\<close>

text \<open>
  What one entry promises, over the integers and with the power of five given: the significand is normalized and within half a
  unit of the power of ten, and the binary exponent fits the decimal one with a margin that outweighs the rounding of \<open>k\<close>.
\<close>

definition margin_ok :: "CachedPower \<Rightarrow> bool" where
  "margin_ok c \<longleftrightarrow> kUint64MSB \<le> cp_significand c \<and> decimal_exponent c * 100000 + 80 \<le> (binary_exponent c + 64) * 30103 \<and>
     (binary_exponent c + 34) * 30103 + 80 \<le> (decimal_exponent c - 8) * 100000"

fun check_pos :: "int \<Rightarrow> int \<Rightarrow> CachedPower list \<Rightarrow> bool" where
  "check_pos d p [] = True"
| "check_pos d p (c # cs) \<longleftrightarrow> decimal_exponent c = d \<and> margin_ok c \<and>
     \<bar>2 * int (unat (cp_significand c)) * 2 ^ nat (binary_exponent c - d) - 2 * p * 2 ^ nat (d - binary_exponent c)\<bar>
       \<le> 2 ^ nat (binary_exponent c - d) \<and> check_pos (d + 8) (p * 390625) cs"

fun check_neg :: "int \<Rightarrow> int \<Rightarrow> CachedPower list \<Rightarrow> bool" where
  "check_neg d p [] = True"
| "check_neg d p (c # cs) \<longleftrightarrow> decimal_exponent c = - d \<and> margin_ok c \<and> binary_exponent c + d < 0 \<and>
     \<bar>2 * int (unat (cp_significand c)) * p - 2 * 2 ^ nat (- d - binary_exponent c)\<bar> \<le> p \<and> check_neg (d + 8) (p * 390625) cs"

lemma small_entries: "check_pos 4 (5 ^ 4) (take 22 (drop 44 kCachedPowers))"
  by (simp add: kCachedPowers_def margin_ok_def kUint64MSB_def)

lemma large_entries: "check_pos 180 (5 ^ 180) (drop 66 kCachedPowers)"
  by (simp add: kCachedPowers_def margin_ok_def kUint64MSB_def)

lemma small_negative_entries: "check_neg 4 (5 ^ 4) (rev (drop 22 (take 44 kCachedPowers)))"
  by (simp add: kCachedPowers_def margin_ok_def kUint64MSB_def)

lemma large_negative_entries: "check_neg 180 (5 ^ 180) (rev (take 22 kCachedPowers))"
  by (simp add: kCachedPowers_def margin_ok_def kUint64MSB_def)

lemma table_facts: "length kCachedPowers = 87" "map decimal_exponent kCachedPowers = map (\<lambda>i. 8 * int i - 348) [0..<87]"
  by (simp_all add: kCachedPowers_def upt_rec)

text \<open>An entry is a power of ten up to half a unit in the last place.\<close>

definition power_ok :: "CachedPower \<Rightarrow> bool" where
  "power_ok c \<longleftrightarrow> \<bar>fp_value (cached_fp c) - 10 powi decimal_exponent c\<bar> \<le> 2 powi binary_exponent c / 2"

lemma power_okI:
  fixes a b t :: real
  assumes "0 < t" "fp_value (cached_fp c) = a * t" "10 powi decimal_exponent c = b * t" "2 powi binary_exponent c = u * t" "\<bar>2 * a - 2 * b\<bar> \<le> u"
  shows "power_ok c"
proof -
  have "\<bar>a * t - b * t\<bar> = \<bar>a - b\<bar> * t" using assms(1) by (simp add: abs_mult flip: left_diff_distrib)
  also have "\<dots> \<le> u / 2 * t" using assms(1,5) by (intro mult_right_mono) linarith+
  finally show ?thesis unfolding power_ok_def assms(2-4) by simp
qed

lemma power_split: "(2 :: real) powi (a - b) = 2 ^ nat (a - b) / 2 ^ nat (b - a)"
  by (cases "b \<le> a") (simp_all add: power_int_def field_simps)

lemma powi_offset: "(2 :: real) powi a = 2 powi (a - b) * 2 powi b"
  by (simp flip: power_int_add)

lemma ten_five: "0 \<le> d \<Longrightarrow> (10 :: real) powi d = 5 ^ nat d * 2 powi d"
  by (simp add: power_int_def flip: power_mult_distrib)

lemma check_pos_ok: "check_pos d (5 ^ nat d) cs \<Longrightarrow> 0 \<le> d \<Longrightarrow> c \<in> set cs \<Longrightarrow> power_ok c \<and> margin_ok c"
proof (induction d "5 ^ nat d :: int" cs rule: check_pos.induct)
  case (2 d c' cs)
  have five: "(5 :: int) ^ nat d * 390625 = 5 ^ nat (d + 8)" using 2(3) by (simp add: nat_add_distrib power_add)
  show ?case
  proof (cases "c = c'")
    case True
    let ?s = "int (unat (cp_significand c))" and ?b = "binary_exponent c" and ?S = "2 ^ nat (binary_exponent c - d)" and ?L = "2 ^ nat (d - binary_exponent c)"
    define t :: real where "t = 2 powi d / 2 ^ nat (d - ?b)"
    have d: "decimal_exponent c = d" and m: "margin_ok c" and e: "\<bar>2 * ?s * ?S - 2 * 5 ^ nat d * ?L\<bar> \<le> ?S" using 2(2) True by auto
    have "real_of_int \<bar>2 * ?s * ?S - 2 * 5 ^ nat d * ?L\<bar> \<le> real_of_int ?S" using e by (simp only: of_int_le_iff)
    then have e': "\<bar>2 * (real_of_int ?s * ?S) - 2 * (5 ^ nat d * ?L)\<bar> \<le> (?S :: real)" by (simp add: mult.assoc)
    have b: "2 powi ?b = ?S * t" using powi_offset [of ?b d] by (simp add: t_def power_split)
    have "power_ok c"
    proof (rule power_okI [OF _ _ _ b e'])
      show "0 < t" by (simp add: t_def)
      show "fp_value (cached_fp c) = real_of_int ?s * ?S * t" using b by (simp add: fp_value_def cached_fp_def DiyFp_def)
      show "10 powi decimal_exponent c = 5 ^ nat d * ?L * t" using ten_five [OF 2(3)] by (simp add: d t_def)
    qed
    then show ?thesis using m by simp
  next
    case False
    then show ?thesis using 2(1) [OF five] 2(2-4) by (simp add: five)
  qed
qed simp

lemma check_neg_ok: "check_neg d (5 ^ nat d) cs \<Longrightarrow> 0 \<le> d \<Longrightarrow> c \<in> set cs \<Longrightarrow> power_ok c \<and> margin_ok c"
proof (induction d "5 ^ nat d :: int" cs rule: check_neg.induct)
  case (2 d c' cs)
  have five: "(5 :: int) ^ nat d * 390625 = 5 ^ nat (d + 8)" using 2(3) by (simp add: nat_add_distrib power_add)
  show ?case
  proof (cases "c = c'")
    case True
    let ?s = "int (unat (cp_significand c))" and ?b = "binary_exponent c" and ?L = "2 ^ nat (- d - binary_exponent c)"
    define t :: real where "t = 2 powi ?b / 5 ^ nat d"
    have d: "decimal_exponent c = - d" and m: "margin_ok c" and neg: "?b + d < 0" and e: "\<bar>2 * ?s * 5 ^ nat d - 2 * ?L\<bar> \<le> 5 ^ nat d"
      using 2(2) True by auto
    have "real_of_int \<bar>2 * ?s * 5 ^ nat d - 2 * ?L\<bar> \<le> real_of_int (5 ^ nat d)" using e by (simp only: of_int_le_iff)
    then have e': "\<bar>2 * (real_of_int ?s * 5 ^ nat d) - 2 * ?L\<bar> \<le> (5 ^ nat d :: real)" by (simp add: mult.assoc)
    have "(2 :: real) powi (- d) = ?L * 2 powi ?b" using powi_offset [of "- d" ?b] neg by (simp add: power_int_def)
    then have ten: "10 powi (- d) = ?L * t" using ten_five [OF 2(3)] by (simp add: t_def power_int_minus field_simps)
    have "power_ok c"
    proof (rule power_okI [of t, OF _ _ _ _ e'])
      show "0 < t" by (simp add: t_def)
      show "fp_value (cached_fp c) = real_of_int ?s * 5 ^ nat d * t" by (simp add: fp_value_def cached_fp_def DiyFp_def t_def)
      show "10 powi decimal_exponent c = ?L * t" using ten by (simp add: d)
      show "2 powi ?b = 5 ^ nat d * t" by (simp add: t_def)
    qed
    then show ?thesis using m by simp
  next
    case False
    then show ?thesis using 2(1) [OF five] 2(2-4) by (simp add: five)
  qed
qed simp

lemma all_entries: "c \<in> set kCachedPowers \<Longrightarrow> power_ok c \<and> margin_ok c"
proof -
  assume c: "c \<in> set kCachedPowers"
  have "xs = take 22 xs @ drop 22 (take 44 xs) @ take 22 (drop 44 xs) @ drop 66 xs" for xs :: "CachedPower list"
    using append_take_drop_id [of 44 xs] append_take_drop_id [of 22 "take 44 xs"] append_take_drop_id [of 22 "drop 44 xs"]
    by (simp flip: append_assoc)
  note this [of kCachedPowers]
  then consider "c \<in> set (rev (take 22 kCachedPowers))" | "c \<in> set (rev (drop 22 (take 44 kCachedPowers)))"
    | "c \<in> set (take 22 (drop 44 kCachedPowers))" | "c \<in> set (drop 66 kCachedPowers)" using c by (metis Un_iff set_append set_rev)
  then show ?thesis
  proof cases
    case 1
    then show ?thesis using check_neg_ok [of 180] large_negative_entries by simp
  next
    case 2
    then show ?thesis using check_neg_ok [of 4] small_negative_entries by simp
  next
    case 3
    then show ?thesis using check_pos_ok [of 4] small_entries by simp
  next
    case 4
    then show ?thesis using check_pos_ok [of 180] large_entries by simp
  qed
qed

section \<open>The lookups\<close>

lemma table_entry:
  assumes "i < 87"
  shows "decimal_exponent (kCachedPowers ! i) = 8 * int i - 348" "power_ok (kCachedPowers ! i)" "margin_ok (kCachedPowers ! i)"
proof -
  have "map decimal_exponent kCachedPowers ! i = map (\<lambda>i. 8 * int i - 348) [0..<87] ! i" by (simp only: table_facts(2))
  then show "decimal_exponent (kCachedPowers ! i) = 8 * int i - 348" using assms table_facts(1) by simp
  show "power_ok (kCachedPowers ! i)" "margin_ok (kCachedPowers ! i)" using all_entries [of "kCachedPowers ! i"] assms table_facts(1) by auto
qed

lemma table_constants [simp]:
  "kCachedPowersLength = 87" "kCachedPowersOffset = 348" "kDecimalExponentDistance = 8" "kMinDecimalExponent = -348" "kMaxDecimalExponent = 340"
  using table_entry(1) [of 0] table_entry(1) [of 1] table_entry(1) [of 86]
  by (simp_all add: kCachedPowersLength_def kCachedPowersOffset_def kDecimalExponentDistance_def kMinDecimalExponent_def kMaxDecimalExponent_def table_facts)

lemma product_error:
  assumes "\<bar>n\<bar> \<le> 1100"
  shows "\<bar>fl (of_int n * kD_1_LOG2_10) - of_int n * (30103 / 100000)\<bar> \<le> 1 / 100000"
proof -
  let ?k = "30103 / 100000 :: rat"
  have n: "\<bar>of_int n :: rat\<bar> \<le> 1100" using assms by (metis of_int_abs of_int_le_iff of_int_numeral)
  have "\<bar>kD_1_LOG2_10 - ?k\<bar> \<le> 5 / 10 ^ 9"
  proof -
    have "\<bar>30102999566398114 / 10 ^ 17 - ?k\<bar> + 1 / 2 ^ 53 \<le> 5 / 10 ^ 9" by simp
    moreover have "kD_1_LOG2_10 = k1Log10" by (simp only: kD_1_LOG2_10_def k1Log10_def)
    ultimately show ?thesis using k1Log10_error by linarith
  qed
  then have "\<bar>of_int n\<bar> * \<bar>kD_1_LOG2_10 - ?k\<bar> \<le> 1100 * (5 / 10 ^ 9)" using n by (intro mult_mono) auto
  then have a: "\<bar>of_int n * kD_1_LOG2_10 - of_int n * ?k\<bar> \<le> 55 / 10 ^ 7"
    unfolding right_diff_distrib [symmetric] abs_mult by simp
  show ?thesis by (rule error_bound [OF a, of 401]) (use n in \<open>simp_all add: abs_mult field_simps\<close>)
qed

text \<open>What a lookup returns: a normalized significand that is within half a unit of a power of ten.\<close>

definition ten_power :: "diy_fp \<Rightarrow> int \<Rightarrow> bool" where
  "ten_power c mk \<longleftrightarrow> 2 ^ 63 \<le> unat (fp_f c) \<and> \<bar>fp_value c - 10 powi mk\<bar> \<le> 2 powi fp_e c / 2"

lemma cached_ten_power: "i < 87 \<Longrightarrow> ten_power (cached_fp (kCachedPowers ! i)) (decimal_exponent (kCachedPowers ! i))"
  using table_entry(2,3) [of i]
  by (simp add: ten_power_def power_ok_def margin_ok_def cached_fp_def DiyFp_def kUint64MSB_def word_le_nat_alt)

lemma GetCachedPowerForBinaryExponentRange_ok:
  assumes "-1084 \<le> min_exponent" "min_exponent \<le> 1013" "max_exponent = min_exponent + 28"
  obtains c mk where "GetCachedPowerForBinaryExponentRange min_exponent max_exponent = Some (c, mk)" "ten_power c mk"
    "min_exponent \<le> fp_e c" "fp_e c \<le> max_exponent"
proof -
  define n y k where "n = min_exponent + 63" and "y = fl (of_int n * kD_1_LOG2_10)" and "k = \<lceil>y\<rceil>"
  have n: "\<bar>n\<bar> \<le> 1100" using assms by (simp add: n_def)
  have ky: "of_int k - 1 < y" "y \<le> of_int k" unfolding k_def by linarith+
  have err: "\<bar>y - of_int n * (30103 / 100000)\<bar> \<le> 1 / 100000" using product_error [OF n] by (simp add: y_def)
  have "of_int (n * 30103 - 1) \<le> (of_int (k * 100000) :: rat)" "of_int (k * 100000) < (of_int (n * 30103 + 100002) :: rat)"
    using err ky by (simp_all add: abs_le_iff field_simps)
  then have k: "n * 30103 - 1 \<le> k * 100000" "k * 100000 < n * 30103 + 100002" by (simp_all only: of_int_le_iff of_int_less_iff)
  have kb: "-309 \<le> k" "k \<le> 325" using k assms(1,2) by (simp_all add: n_def)
  define i where "i = nat ((347 + k) div 8 + 1)"
  have i: "int i = (347 + k) div 8 + 1" "i < 87" using kb by (simp_all add: i_def)
  let ?c = "kCachedPowers ! i"
  have de: "k \<le> decimal_exponent ?c" "decimal_exponent ?c \<le> k + 7" using table_entry(1) [OF i(2)] i(1) by presburger+
  have m: "decimal_exponent ?c * 100000 + 80 \<le> (binary_exponent ?c + 64) * 30103" "(binary_exponent ?c + 34) * 30103 + 80 \<le> (decimal_exponent ?c - 8) * 100000"
    using table_entry(3) [OF i(2)] by (simp_all add: margin_ok_def)
  have "min_exponent \<le> binary_exponent ?c" "binary_exponent ?c \<le> max_exponent"
    using m de k assms(3) by (simp_all add: n_def)
  moreover have "GetCachedPowerForBinaryExponentRange min_exponent max_exponent = Some (cached_fp ?c, decimal_exponent ?c)"
  proof -
    have s: "(348 + k - 1) sdiv 8 + 1 = int i" using kb i(1) by (simp add: signed_divide_int_def sgn_if algebra_simps)
    have "min_exponent + 64 - 1 = n" by (simp add: n_def)
    then show ?thesis unfolding GetCachedPowerForBinaryExponentRange_def Let_def table_constants
      using calculation i(2) s by (simp add: y_def [symmetric] k_def [symmetric])
  qed
  ultimately show ?thesis using that [of "cached_fp ?c" "decimal_exponent ?c"] cached_ten_power [OF i(2)] by (simp add: cached_fp_def DiyFp_def)
qed

lemma GetCachedPowerForDecimalExponent_ok:
  assumes "-348 \<le> e" "e < 348"
  obtains c mk where "GetCachedPowerForDecimalExponent e = Some (c, mk)" "ten_power c mk" "mk \<le> e" "e < mk + 8"
proof -
  define i where "i = nat ((e + 348) div 8)"
  have i: "int i = (e + 348) div 8" "i < 87" using assms by (simp_all add: i_def)
  let ?c = "kCachedPowers ! i"
  have de: "decimal_exponent ?c \<le> e" "e < decimal_exponent ?c + 8" using table_entry(1) [OF i(2)] i(1) by presburger+
  have "(e + 348) sdiv 8 = int i" using assms i(1) by (simp add: signed_divide_int_def sgn_if)
  then have "GetCachedPowerForDecimalExponent e = Some (cached_fp ?c, decimal_exponent ?c)"
    using assms de by (simp add: GetCachedPowerForDecimalExponent_def Let_def)
  then show ?thesis using that cached_ten_power [OF i(2)] de by blast
qed

section \<open>Properties\<close>

text \<open>
  C23. Bounds of the cached powers of ten.  For every binary exponent that the conversion of a double asks for, the lookup finds an entry
  inside the table (no assertion fails although the index comes from rounded double arithmetic) with a binary exponent in the
  requested range of 29 exponents, a significand of exactly 64 bits, and a value that is off from the power of ten by at most half a
  unit in the last place.
\<close>

theorem cached_power_bounds:
  assumes "-1084 \<le> min_exponent" "min_exponent \<le> 1013"
  shows "\<exists>c mk. GetCachedPowerForBinaryExponentRange min_exponent (min_exponent + 28) = Some (c, mk) \<and>
    min_exponent \<le> fp_e c \<and> fp_e c \<le> min_exponent + 28 \<and> 2 ^ 63 \<le> unat (fp_f c) \<and> \<bar>fp_value c - 10 powi mk\<bar> \<le> 2 powi fp_e c / 2"
  by (rule GetCachedPowerForBinaryExponentRange_ok [OF assms refl]) (auto simp: ten_power_def)

theorem cached_power_bounds_witness:
  "\<exists>c mk. GetCachedPowerForBinaryExponentRange (-1084) (-1084 + 28) = Some (c, mk) \<and> 2 ^ 63 \<le> unat (fp_f c) \<and>
    \<bar>fp_value c - 10 powi mk\<bar> \<le> 2 powi fp_e c / 2"
  using cached_power_bounds [of "-1084"] by auto

end
