(* ===== verification/Fast_Dtoa.thy ===== *)
theory Fast_Dtoa
  imports Fixed_Dtoa Cached_Powers
begin

text \<open>
  The fast conversion of doubles to decimals of \<^verbatim>\<open>src/fast-dtoa.cc\<close> (Grisu3), which computes with 64-bit approximations and gives up when
  they are too coarse.  Unsigned integers are natural numbers with the truncation written out; the buffer is a list of character codes
  of the length that the caller provides.  A failing assertion, a write outside of the buffer and a division by zero are \<open>None\<close>; the
  answer \<open>false\<close> is a value.
\<close>

section \<open>The program\<close>

definition kMinimalTargetExponent :: int where "kMinimalTargetExponent = -60"
definition kMaximalTargetExponent :: int where "kMaximalTargetExponent = -32"

subsection \<open>Rounding and weeding\<close>

text \<open>Decrementing the last digit while this brings the number closer to the upper end of the possible values.\<close>

partial_function (option) weed_loop :: "nat \<Rightarrow> nat \<Rightarrow> nat \<Rightarrow> nat list \<Rightarrow> nat \<Rightarrow> nat \<Rightarrow> (nat list \<times> nat) option" where
  "weed_loop small_distance unsafe_interval ten_kappa buffer len rest =
     (if rest < small_distance \<and> sub64 unsafe_interval rest \<ge> ten_kappa \<and>
         (uint64 (rest + ten_kappa) < small_distance \<or> sub64 small_distance rest \<ge> sub64 (uint64 (rest + ten_kappa)) small_distance)
      then do {
        c \<leftarrow> buffer_get buffer (len - 1);
        buffer \<leftarrow> buffer_put buffer (len - 1) ((c + 255) mod 256);
        weed_loop small_distance unsafe_interval ten_kappa buffer len (uint64 (rest + ten_kappa))
      }
      else Some (buffer, rest))"

declare weed_loop.simps [code]

definition RoundWeed :: "nat list \<Rightarrow> nat \<Rightarrow> nat \<Rightarrow> nat \<Rightarrow> nat \<Rightarrow> nat \<Rightarrow> nat \<Rightarrow> (bool \<times> nat list) option" where
  "RoundWeed buffer len distance_too_high_w unsafe_interval rest ten_kappa unit =
     (let small_distance = sub64 distance_too_high_w unit;
          big_distance = uint64 (distance_too_high_w + unit)
      in if \<not> rest \<le> unsafe_interval then None
         else do {
           (buffer, rest) \<leftarrow> weed_loop small_distance unsafe_interval ten_kappa buffer len rest;
           if rest < big_distance \<and> sub64 unsafe_interval rest \<ge> ten_kappa \<and>
             (uint64 (rest + ten_kappa) < big_distance \<or> sub64 big_distance rest > sub64 (uint64 (rest + ten_kappa)) big_distance)
           then Some (False, buffer)
           else Some (uint64 (2 * unit) \<le> rest \<and> rest \<le> sub64 unsafe_interval (uint64 (4 * unit)), buffer)
         })"

definition RoundWeedCounted :: "nat list \<Rightarrow> nat \<Rightarrow> nat \<Rightarrow> nat \<Rightarrow> nat \<Rightarrow> int \<Rightarrow> (bool \<times> nat list \<times> int) option" where
  "RoundWeedCounted buffer len rest ten_kappa unit kappa =
     (if \<not> rest < ten_kappa then None
      else if unit \<ge> ten_kappa then Some (False, buffer, kappa)
      else if sub64 ten_kappa unit \<le> unit then Some (False, buffer, kappa)
      else if sub64 ten_kappa rest > rest \<and> sub64 ten_kappa (uint64 (2 * rest)) \<ge> uint64 (2 * unit) then Some (True, buffer, kappa)
      else if rest > unit \<and> sub64 ten_kappa (sub64 rest unit) \<le> sub64 rest unit then do {
        digit \<leftarrow> buffer_get buffer (len - 1);
        let buffer = propagate_carry (len - 1) (buffer[len - 1 := digit + 1]);
        if buffer ! 0 = 48 + 10 then Some (True, buffer[0 := 49], kappa + 1) else Some (True, buffer, kappa)
      }
      else Some (False, buffer, kappa))"

definition kTen4 :: nat where "kTen4 = 10000"
definition kTen5 :: nat where "kTen5 = 100000"
definition kTen6 :: nat where "kTen6 = 1000000"
definition kTen8 :: nat where "kTen8 = 100000000"
definition kTen9 :: nat where "kTen9 = 1000000000"

text \<open>The cases of the switch fall through to the next smaller power.\<close>

definition BiggestPowerTen :: "nat \<Rightarrow> int \<Rightarrow> (nat \<times> int) option" where
  "BiggestPowerTen number number_bits =
     (if number_bits < 0 \<or> 32 < number_bits then None
      else if 30 \<le> number_bits \<and> kTen9 \<le> number then Some (kTen9, 9)
      else if 27 \<le> number_bits \<and> kTen8 \<le> number then Some (kTen8, 8)
      else if 24 \<le> number_bits \<and> kTen7 \<le> number then Some (kTen7, 7)
      else if 20 \<le> number_bits \<and> kTen6 \<le> number then Some (kTen6, 6)
      else if 17 \<le> number_bits \<and> kTen5 \<le> number then Some (kTen5, 5)
      else if 14 \<le> number_bits \<and> kTen4 \<le> number then Some (kTen4, 4)
      else if 10 \<le> number_bits \<and> 1000 \<le> number then Some (1000, 3)
      else if 7 \<le> number_bits \<and> 100 \<le> number then Some (100, 2)
      else if 4 \<le> number_bits \<and> 10 \<le> number then Some (10, 1)
      else if 1 \<le> number_bits \<and> 1 \<le> number then Some (1, 0)
      else Some (0, -1))"

subsection \<open>Generating the shortest digits\<close>

text \<open>
  The digits of the integral part.  The loop ends with the digits and the rest when the rest is in the unsafe interval, and
  otherwise when there are no integral digits left.
\<close>

datatype digits_result = Stopped "nat list" nat int nat nat | Exhausted "nat list" nat

fun integral_loop :: "nat \<Rightarrow> nat \<Rightarrow> nat \<Rightarrow> nat \<Rightarrow> nat \<Rightarrow> nat \<Rightarrow> nat list \<Rightarrow> nat \<Rightarrow> digits_result option" where
  "integral_loop 0 shift fractionals unsafe_interval integrals divisor buffer len = Some (Exhausted buffer len)"
| "integral_loop (Suc kappa) shift fractionals unsafe_interval integrals divisor buffer len =
     (if divisor = 0 then None
      else do {
        buffer \<leftarrow> buffer_put buffer len (48 + integrals div divisor);
        let integrals = integrals mod divisor;
        let rest = uint64 (uint64 (integrals * 2 ^ shift) + fractionals);
        if rest < unsafe_interval then Some (Stopped buffer (len + 1) (int kappa) rest (uint64 (divisor * 2 ^ shift)))
        else integral_loop kappa shift fractionals unsafe_interval integrals (divisor div 10) buffer (len + 1)
      })"

text \<open>The digits of the fraction; \<open>too_high_w\<close> is the distance to the upper end before scaling.  The mask \<open>one - 1\<close> is a remainder.\<close>

partial_function (option) shortest_fraction :: "nat \<Rightarrow> nat \<Rightarrow> nat \<Rightarrow> nat \<Rightarrow> nat \<Rightarrow> nat list \<Rightarrow> nat \<Rightarrow> int \<Rightarrow> (bool \<times> nat list \<times> nat \<times> int) option" where
  "shortest_fraction shift too_high_w fractionals unit unsafe_interval buffer len kappa =
     (let fractionals = uint64 (fractionals * 10);
          unit = uint64 (unit * 10);
          unsafe_interval = uint64 (unsafe_interval * 10);
          digit = fractionals div 2 ^ shift
      in do {
        buffer \<leftarrow> buffer_put buffer len (48 + digit);
        let fractionals = fractionals mod 2 ^ shift;
        if fractionals < unsafe_interval then do {
          (result, buffer) \<leftarrow> RoundWeed buffer (len + 1) (uint64 (too_high_w * unit)) unsafe_interval fractionals (2 ^ shift) unit;
          Some (result, buffer, len + 1, kappa - 1)
        }
        else shortest_fraction shift too_high_w fractionals unit unsafe_interval buffer (len + 1) (kappa - 1)
      })"

declare shortest_fraction.simps [code]

definition DigitGen :: "diy_fp \<Rightarrow> diy_fp \<Rightarrow> diy_fp \<Rightarrow> nat list \<Rightarrow> (bool \<times> nat list \<times> nat \<times> int) option" where
  "DigitGen low w high buffer =
     (if \<not> (fp_e low = fp_e w \<and> fp_e w = fp_e high) then None
      else if \<not> fp_f low + 1 \<le> fp_f high - 1 then None
      else if \<not> (kMinimalTargetExponent \<le> fp_e w \<and> fp_e w \<le> kMaximalTargetExponent) then None
      else
        (let too_low = DiyFp (fp_f low - 1) (fp_e low);
             too_high = DiyFp (fp_f high + 1) (fp_e high);
             shift = nat (- fp_e w)
         in do {
           unsafe_interval \<leftarrow> DiyFp_Minus too_high too_low;
           too_high_w \<leftarrow> DiyFp_Minus too_high w;
           let integrals = uint32 (unat (fp_f too_high) div 2 ^ shift);
           let fractionals = unat (fp_f too_high) mod 2 ^ shift;
           (divisor, divisor_exponent) \<leftarrow> BiggestPowerTen integrals (64 - int shift);
           r \<leftarrow> integral_loop (nat (divisor_exponent + 1)) shift fractionals (unat (fp_f unsafe_interval)) integrals divisor buffer 0;
           (case r of
              Stopped buffer len kappa rest ten_kappa \<Rightarrow> do {
                (result, buffer) \<leftarrow> RoundWeed buffer len (unat (fp_f too_high_w)) (unat (fp_f unsafe_interval)) rest ten_kappa 1;
                Some (result, buffer, len, kappa)
              }
            | Exhausted buffer len \<Rightarrow>
                shortest_fraction shift (unat (fp_f too_high_w)) fractionals 1 (unat (fp_f unsafe_interval)) buffer len 0)
         }))"

subsection \<open>Generating a number of digits\<close>

fun counted_integral :: "nat \<Rightarrow> int \<Rightarrow> nat \<Rightarrow> nat \<Rightarrow> nat list \<Rightarrow> nat \<Rightarrow> (nat \<times> int \<times> nat \<times> nat \<times> nat list \<times> nat) option" where
  "counted_integral 0 requested_digits integrals divisor buffer len = Some (0, requested_digits, integrals, divisor, buffer, len)"
| "counted_integral (Suc kappa) requested_digits integrals divisor buffer len =
     (if divisor = 0 then None
      else do {
        buffer \<leftarrow> buffer_put buffer len (48 + integrals div divisor);
        if requested_digits - 1 = 0 then Some (kappa, 0, integrals mod divisor, divisor, buffer, len + 1)
        else counted_integral kappa (requested_digits - 1) (integrals mod divisor) (divisor div 10) buffer (len + 1)
      })"

fun counted_fraction :: "nat \<Rightarrow> nat \<Rightarrow> nat \<Rightarrow> nat \<Rightarrow> nat list \<Rightarrow> nat \<Rightarrow> int \<Rightarrow> (nat \<times> nat \<times> nat \<times> nat list \<times> nat \<times> int) option" where
  "counted_fraction shift 0 fractionals w_error buffer len kappa = Some (0, fractionals, w_error, buffer, len, kappa)"
| "counted_fraction shift (Suc requested_digits) fractionals w_error buffer len kappa =
     (if \<not> fractionals > w_error then Some (Suc requested_digits, fractionals, w_error, buffer, len, kappa)
      else
        (let fractionals = uint64 (fractionals * 10);
             w_error = uint64 (w_error * 10)
         in do {
           buffer \<leftarrow> buffer_put buffer len (48 + fractionals div 2 ^ shift);
           counted_fraction shift requested_digits (fractionals mod 2 ^ shift) w_error buffer (len + 1) (kappa - 1)
         }))"

definition DigitGenCounted :: "diy_fp \<Rightarrow> int \<Rightarrow> nat list \<Rightarrow> (bool \<times> nat list \<times> nat \<times> int) option" where
  "DigitGenCounted w requested_digits buffer =
     (if \<not> (kMinimalTargetExponent \<le> fp_e w \<and> fp_e w \<le> kMaximalTargetExponent) then None
      else
        (let shift = nat (- fp_e w);
             integrals = uint32 (unat (fp_f w) div 2 ^ shift);
             fractionals = unat (fp_f w) mod 2 ^ shift
         in do {
           (divisor, divisor_exponent) \<leftarrow> BiggestPowerTen integrals (64 - int shift);
           (kappa, requested_digits, integrals, divisor, buffer, len) \<leftarrow>
             counted_integral (nat (divisor_exponent + 1)) requested_digits integrals divisor buffer 0;
           if requested_digits = 0 then do {
             (result, buffer, kappa) \<leftarrow> RoundWeedCounted buffer len (uint64 (uint64 (integrals * 2 ^ shift) + fractionals))
               (uint64 (divisor * 2 ^ shift)) 1 (int kappa);
             Some (result, buffer, len, kappa)
           }
           else do {
             (missing, fractionals, w_error, buffer, len, kappa) \<leftarrow> counted_fraction shift (nat requested_digits) fractionals 1 buffer len (int kappa);
             if requested_digits < 0 \<or> missing \<noteq> 0 then Some (False, buffer, len, kappa)
             else do {
               (result, buffer, kappa) \<leftarrow> RoundWeedCounted buffer len fractionals (2 ^ shift) w_error kappa;
               Some (result, buffer, len, kappa)
             }
           }
         }))"

subsection \<open>The conversions\<close>

definition scaling_power :: "diy_fp \<Rightarrow> (diy_fp \<times> int) option" where
  "scaling_power w =
     (let ten_mk_minimal_binary_exponent = kMinimalTargetExponent - (fp_e w + 64);
          ten_mk_maximal_binary_exponent = kMaximalTargetExponent - (fp_e w + 64)
      in do {
        (ten_mk, mk) \<leftarrow> GetCachedPowerForBinaryExponentRange ten_mk_minimal_binary_exponent ten_mk_maximal_binary_exponent;
        if kMinimalTargetExponent \<le> fp_e w + fp_e ten_mk + 64 \<and> fp_e w + fp_e ten_mk + 64 \<le> kMaximalTargetExponent
        then Some (ten_mk, mk) else None
      })"

definition Grisu3 :: "64 word \<Rightarrow> nat list \<Rightarrow> (bool \<times> nat list \<times> nat \<times> int) option" where
  "Grisu3 v buffer = do {
     w \<leftarrow> AsNormalizedDiyFp v;
     (boundary_minus, boundary_plus) \<leftarrow> NormalizedBoundaries v;
     if fp_e boundary_plus \<noteq> fp_e w then None
     else do {
       (ten_mk, mk) \<leftarrow> scaling_power w;
       let scaled_w = DiyFp_Times w ten_mk;
       if fp_e scaled_w \<noteq> fp_e boundary_plus + fp_e ten_mk + 64 then None
       else do {
         (result, buffer, len, kappa) \<leftarrow> DigitGen (DiyFp_Times boundary_minus ten_mk) scaled_w (DiyFp_Times boundary_plus ten_mk) buffer;
         Some (result, buffer, len, - mk + kappa)
       }
     }
   }"

definition Grisu3Counted :: "64 word \<Rightarrow> int \<Rightarrow> nat list \<Rightarrow> (bool \<times> nat list \<times> nat \<times> int) option" where
  "Grisu3Counted v requested_digits buffer = do {
     w \<leftarrow> AsNormalizedDiyFp v;
     (ten_mk, mk) \<leftarrow> scaling_power w;
     (result, buffer, len, kappa) \<leftarrow> DigitGenCounted (DiyFp_Times w ten_mk) requested_digits buffer;
     Some (result, buffer, len, - mk + kappa)
   }"

datatype fast_dtoa_mode = FAST_DTOA_SHORTEST | FAST_DTOA_PRECISION

text \<open>The buffer, and, unless the answer is \<open>false\<close>, the number of digits and the position of the point.\<close>

definition FastDtoa :: "64 word \<Rightarrow> fast_dtoa_mode \<Rightarrow> int \<Rightarrow> nat list \<Rightarrow> (nat list \<times> (nat \<times> int) option) option" where
  "FastDtoa v mode requested_digits buffer =
     (if IsSpecial v \<or> v = 0 \<or> Sign v < 0 then None
      else do {
        (result, buffer, len, decimal_exponent) \<leftarrow>
          (case mode of FAST_DTOA_SHORTEST \<Rightarrow> Grisu3 v buffer | FAST_DTOA_PRECISION \<Rightarrow> Grisu3Counted v requested_digits buffer);
        if result then do {
          buffer \<leftarrow> buffer_put buffer len 0;
          Some (buffer, Some (len, int len + decimal_exponent))
        }
        else Some (buffer, None)
      })"

end
