(* ===== verification/Grisu_Digits.thy ===== *)
theory Grisu_Digits
  imports Fast_Dtoa
begin

text \<open>
  The digit generation of \<^verbatim>\<open>src/fast-dtoa.cc\<close> on natural numbers.  No product or sum of the loops is truncated, the last digit is
  never decremented below zero, and when the weeding accepts the digits, they are the closest ones to every number that the
  approximation may stand for.
\<close>

section \<open>Rounding and weeding\<close>

lemma holds_last:
  assumes "holds buffer (Suc n) (es @ [d])" "c \<le> 9"
  shows "holds (buffer[n := 48 + c]) (Suc n) (es @ [c])"
proof -
  have l: "length es = n" "Suc n \<le> length buffer" and d: "\<forall>d\<in>set es. d \<le> 9" using assms(1) by (auto simp: holds_def)
  show ?thesis
  proof (rule holdsI)
    fix i assume "i < Suc n"
    then show "buffer[n := 48 + c] ! i = 48 + (es @ [c]) ! i"
      using holds_nth [OF assms(1), of i] l by (cases "i = n") (auto simp: nth_append nth_list_update)
  qed (use l d assms(2) in auto)
qed

text \<open>The loop decrements the digit \<open>m\<close> times; before the last time the number was above all that the double may be.\<close>

lemma weed_loop_ok:
  assumes I: "I < 2 ^ 64" and T: "0 < T"
  shows "rest \<le> I \<Longrightarrow> small \<le> I \<Longrightarrow> I \<le> d * T + rest \<Longrightarrow> holds buffer (Suc n) (es @ [d]) \<Longrightarrow>
    \<exists>m buffer'. weed_loop small I T buffer (Suc n) rest = Some (buffer', rest + m * T) \<and> m \<le> d \<and> rest + m * T \<le> I \<and>
      length buffer' = length buffer \<and> holds buffer' (Suc n) (es @ [d - m]) \<and>
      (0 < m \<longrightarrow> rest + (m - 1) * T < small \<and> 2 * (rest + m * T) \<le> 2 * small + T)"
proof (induction "I - rest" arbitrary: rest d buffer rule: less_induct)
  case less
  let ?go = "rest < small \<and> sub64 I rest \<ge> T \<and> (uint64 (rest + T) < small \<or> sub64 small rest \<ge> sub64 (uint64 (rest + T)) small)"
  show ?case
  proof (cases ?go)
    case False
    then have "weed_loop small I T buffer (Suc n) rest = Some (buffer, rest)" by (subst weed_loop.simps) (rule if_not_P)
    then show ?thesis using less.prems by (intro exI2 [of _ 0 buffer]) simp
  next
    case True
    have s: "sub64 I rest = I - rest" "sub64 small rest = small - rest" using less.prems(1,2) True I by (simp_all add: sub64_id)
    have rT: "rest + T \<le> I" using True s(1) less.prems(1) by (simp add: le_diff_conv2)
    then have u: "uint64 (rest + T) = rest + T" using I by (simp add: cast_id)
    have close: "2 * (rest + T) \<le> 2 * small + T"
    proof (cases "rest + T < small")
      case False
      then have "sub64 (rest + T) small = rest + T - small" using rT I by (simp add: sub64_id)
      then have "rest < small" "rest + T - small \<le> small - rest" using True u s(2) False by simp_all
      then show ?thesis using False by arith
    qed simp
    have d: "d \<noteq> 0" using less.prems(3) rT T by (intro notI) simp
    then obtain d' where d': "d = Suc d'" by (cases d) auto
    have h9: "d \<le> 9" "n < length buffer" "length es = n" using less.prems(4) by (auto simp: holds_def)
    have g: "buffer ! n = 48 + d" using holds_nth [OF less.prems(4), of n] h9(3) by (simp add: nth_append)
    let ?b = "buffer[n := 48 + d']"
    have h: "holds ?b (Suc n) (es @ [d'])" using holds_last [OF less.prems(4), of d'] h9(1) d' by simp
    have m256: "(303 + d) mod 256 = 48 + d'" using d' h9(1) mod_add_self2 [of "48 + d'" 256] by simp
    have step: "weed_loop small I T buffer (Suc n) rest = weed_loop small I T ?b (Suc n) (rest + T)"
      using True u h9(2) by (subst weed_loop.simps) (simp add: buffer_get_def buffer_put_def g m256)
    have "I - (rest + T) < I - rest" using rT T by simp
    moreover have "I \<le> d' * T + (rest + T)" using less.prems(3) d' by simp
    ultimately obtain m buffer' where m: "weed_loop small I T ?b (Suc n) (rest + T) = Some (buffer', rest + T + m * T)" "m \<le> d'"
        "rest + T + m * T \<le> I" "length buffer' = length ?b" "holds buffer' (Suc n) (es @ [d' - m])"
        "0 < m \<longrightarrow> rest + T + (m - 1) * T < small \<and> 2 * (rest + T + m * T) \<le> 2 * small + T"
      using less.hyps [of "rest + T" d' ?b] rT less.prems(2) h by blast
    have "rest + (Suc m - 1) * T < small \<and> 2 * (rest + Suc m * T) \<le> 2 * small + T"
    proof (cases m)
      case 0
      then show ?thesis using True close by simp
    next
      case (Suc j)
      then show ?thesis using m(6) by simp
    qed
    then show ?thesis using m step d' by (intro exI2 [of _ "Suc m" buffer']) (simp add: add.assoc)
  qed
qed

text \<open>
  What an accepted rest promises: the number is in the safe interval, and neither the next larger nor the next smaller one is
  closer to a number at a distance between \<open>small\<close> and \<open>big\<close> from the upper end.
\<close>

definition weeded :: "nat \<Rightarrow> nat \<Rightarrow> nat \<Rightarrow> nat \<Rightarrow> nat \<Rightarrow> nat \<Rightarrow> nat \<Rightarrow> bool" where
  "weeded small big I T unit m R \<longleftrightarrow> 2 * unit \<le> R \<and> R + 4 * unit \<le> I \<and> (big \<le> R \<or> I < R + T \<or> big \<le> R + T \<and> 2 * big \<le> 2 * R + T) \<and>
     (0 < m \<longrightarrow> R < small + T \<and> 2 * R \<le> 2 * small + T)"

lemma RoundWeed_ok:
  assumes I: "I < 2 ^ 64" and T: "0 < T" and W: "unit \<le> W" "W + unit \<le> I" "4 * unit \<le> I" and rest: "rest \<le> I" "I \<le> d * T + rest"
    and h: "holds buffer (Suc n) (es @ [d])"
  obtains m buffer' ok where "RoundWeed buffer (Suc n) W I rest T unit = Some (ok, buffer')" "length buffer' = length buffer"
    "m \<le> d" "holds buffer' (Suc n) (es @ [d - m])" "ok \<Longrightarrow> weeded (W - unit) (W + unit) I T unit m (rest + m * T)"
proof -
  let ?small = "W - unit" and ?big = "W + unit"
  have s: "sub64 W unit = ?small" "uint64 ?big = ?big" "uint64 (2 * unit) = 2 * unit" "uint64 (4 * unit) = 4 * unit" "sub64 I (4 * unit) = I - 4 * unit"
    using W I by (simp_all add: sub64_id cast_id)
  have small: "?small \<le> I" using W by simp
  obtain m buffer' where m: "weed_loop ?small I T buffer (Suc n) rest = Some (buffer', rest + m * T)" "m \<le> d" "rest + m * T \<le> I"
      "length buffer' = length buffer" "holds buffer' (Suc n) (es @ [d - m])"
      "0 < m \<longrightarrow> rest + (m - 1) * T < ?small \<and> 2 * (rest + m * T) \<le> 2 * ?small + T"
    using weed_loop_ok [OF I T rest(1) small rest(2) h] by blast
  define R where "R = rest + m * T"
  let ?again = "R < ?big \<and> sub64 I R \<ge> T \<and> (uint64 (R + T) < ?big \<or> sub64 ?big R > sub64 (uint64 (R + T)) ?big)"
  have RI: "R \<le> I" using m(3) by (simp add: R_def)
  have no: "?big \<le> R \<or> I < R + T \<or> ?big \<le> R + T \<and> 2 * ?big \<le> 2 * R + T" if "\<not> ?again"
  proof (rule ccontr)
    assume c: "\<not> ?thesis"
    then have RT: "R < ?big" "R + T \<le> I" by auto
    then have u: "uint64 (R + T) = R + T" "sub64 I R = I - R" "sub64 ?big R = ?big - R" using I W(2) by (simp_all add: cast_id sub64_id)
    show False
    proof (cases "R + T < ?big")
      case True
      then show ?thesis using that RT u by simp
    next
      case False
      then have "sub64 (R + T) ?big = R + T - ?big" using RT I by (simp add: sub64_id)
      moreover have "T \<le> I - R" using RT by simp
      ultimately have "\<not> R + T - ?big < ?big - R" using that RT u by auto
      moreover have "\<not> 2 * ?big \<le> 2 * R + T" using c False by auto
      ultimately show ?thesis using RT(1) False by arith
    qed
  qed
  have last: "0 < m \<longrightarrow> R < ?small + T \<and> 2 * R \<le> 2 * ?small + T"
  proof
    assume "0 < m"
    then obtain j where j: "m = Suc j" by (cases m) auto
    then show "R < ?small + T \<and> 2 * R \<le> 2 * ?small + T" using m(6) by (simp add: R_def)
  qed
  have r: "RoundWeed buffer (Suc n) W I rest T unit = Some (\<not> ?again \<and> 2 * unit \<le> R \<and> R \<le> I - 4 * unit, buffer')"
    using rest(1) m(1) s by (auto simp: RoundWeed_def Let_def R_def)
  show ?thesis
  proof (rule that [OF r m(4,2,5)])
    assume "\<not> ?again \<and> 2 * unit \<le> R \<and> R \<le> I - 4 * unit"
    then show "weeded ?small ?big I T unit m (rest + m * T)" using no last W(3) unfolding weeded_def R_def [symmetric] by auto
  qed
qed

text \<open>In the reals: \<open>D * T = H - R\<close> is closest to \<open>V\<close> among the multiples of \<open>T\<close> between \<open>lo\<close> and \<open>hi\<close>.\<close>

lemma weeded_closest:
  fixes V lo hi :: real and H D T R I m :: nat and X :: int
  assumes w: "weeded small big I T unit m R" and eq: "D * T + R = H" and T: "0 < T"
    and V: "H - real big < V" "V < H - real small" and lo: "H - real I < lo" and hi: "hi < H" and top: "m = 0 \<Longrightarrow> R < T"
    and X: "lo \<le> of_int X * real T" "of_int X * real T \<le> hi"
  shows "\<bar>real (D * T) - V\<bar> \<le> \<bar>of_int X * real T - V\<bar>"
proof -
  define y where "y = H - V"
  have D: "real (D * T) = H - real R" using eq by linarith
  have Dr: "real D * real T = H - real R" using D by simp
  consider "X = int D" | "int D + 1 \<le> X" | "X \<le> int D - 1" by linarith
  then show ?thesis
  proof cases
    case 1
    then show ?thesis by simp
  next
    case 2
    then have "(real D + 1) * real T \<le> of_int X * real T" by (intro mult_right_mono) linarith+
    then have up: "H - real R + T \<le> of_int X * real T" using Dr by (simp add: algebra_simps)
    have "0 < m" using top up X(2) hi by (cases m) auto
    then have "real R < real small + T" "2 * real R \<le> 2 * real small + T" using w by (auto simp: weeded_def simp flip: of_nat_add of_nat_mult)
    then show ?thesis unfolding D using up V by (simp add: abs_if)
  next
    case 3
    then have "of_int X * real T \<le> (real D - 1) * real T" by (intro mult_right_mono) linarith+
    then have down: "of_int X * real T \<le> H - real R - T" using Dr by (simp add: algebra_simps)
    have "\<not> I < R + T" using down X(1) lo by linarith
    then have "real big \<le> real R \<or> real big \<le> real R + T \<and> 2 * real big \<le> 2 * real R + T" using w by (auto simp: weeded_def)
    then show ?thesis unfolding D using down V by (auto simp: abs_if)
  qed
qed

section \<open>The shortest digits\<close>

text \<open>
  A digit is only written while the interval is not larger than the rest; this bounds the number of digits by 17, because the
  interval is large enough compared to the number.
\<close>

lemma digit_room:
  fixes D T H I rest :: nat
  assumes "D * T \<le> H" "I \<le> rest" "rest < 10 * T" "10 * H < 10 ^ 17 * I"
  shows "D < 10 ^ 17"
proof -
  have "10 * H < 100000000000000000 * I" using assms(4) by simp
  then have "10 * (D * T) < 100000000000000000 * (10 * T)" using assms(1-3) by linarith
  then show ?thesis by simp
qed

lemma digits_bound: "10 ^ n \<le> D \<Longrightarrow> D < 10 ^ 17 \<Longrightarrow> n < (17 :: nat)" for D :: nat
  using power_strict_increasing_iff [of "10 :: nat" n 17] by (simp add: le_less_trans)

lemma holds_put:
  assumes "holds buffer len ds" "len < length buffer" "q \<le> 9"
  shows "buffer_put buffer len (48 + q) = Some (buffer[len := 48 + q])" "holds (buffer[len := 48 + q]) (Suc len) (ds @ [q])"
proof -
  show "buffer_put buffer len (48 + q) = Some (buffer[len := 48 + q])" using assms(2) by (simp add: buffer_put_def)
  have "holds (buffer[len := 48 + q]) (len + length [q]) (ds @ [q])" using assms by (intro holds_append [OF assms(1)]) auto
  then show "holds (buffer[len := 48 + q]) (Suc len) (ds @ [q])" by simp
qed

definition leading :: "nat list \<Rightarrow> nat \<Rightarrow> nat \<Rightarrow> bool" where
  "leading ds K x \<longleftrightarrow> (if ds = [] then 0 < K \<and> 10 ^ (K - 1) \<le> x else 10 ^ (length ds - 1) \<le> dec ds)"

lemma leading_step:
  assumes "leading ds (Suc k) x"
  shows "10 ^ length ds \<le> dec (ds @ [x div 10 ^ k])" "leading (ds @ [x div 10 ^ k]) K y"
proof -
  show "10 ^ length ds \<le> dec (ds @ [x div 10 ^ k])"
  proof (cases ds rule: rev_cases)
    case Nil
    have "1 \<le> x div 10 ^ k" using assms Nil div_le_mono [of "10 ^ k" x "10 ^ k"] by (simp add: leading_def)
    then show ?thesis using Nil by simp
  next
    case (snoc es e)
    then have "10 * 10 ^ length es \<le> 10 * dec ds" using assms by (simp add: leading_def)
    moreover have "(10 :: nat) ^ length ds = 10 * 10 ^ length es" using snoc by simp
    ultimately show ?thesis unfolding dec_append by linarith
  qed
  then show "leading (ds @ [x div 10 ^ k]) K y" by (simp add: leading_def)
qed

definition stopped_at :: "nat \<Rightarrow> nat \<Rightarrow> nat list \<Rightarrow> nat \<Rightarrow> nat \<Rightarrow> nat \<Rightarrow> bool" where
  "stopped_at H I es d T rest \<longleftrightarrow> dec (es @ [d]) * T + rest = H \<and> rest < T \<and> rest < I \<and> I \<le> d * T + rest \<and> d \<le> 9 \<and> length es \<le> 16"

lemma integral_loop_ok:
  assumes H: "N * 2 ^ s + F = H" "H < 2 ^ 64" and I: "10 * H < 10 ^ 17 * I"
  shows "holds buffer len ds \<Longrightarrow> 17 \<le> length buffer \<Longrightarrow> x < 10 ^ K \<Longrightarrow> dec ds * 10 ^ K + x = N \<Longrightarrow> I \<le> x * 2 ^ s + F \<Longrightarrow> F < 2 ^ s \<Longrightarrow>
    leading ds K x \<Longrightarrow> (0 < K \<longrightarrow> divisor = 10 ^ (K - 1)) \<Longrightarrow>
    (\<exists>buffer' es d k rest. integral_loop K s F I x divisor buffer len = Some (Stopped buffer' (Suc (length es)) (int k) rest (10 ^ k * 2 ^ s)) \<and>
       length buffer' = length buffer \<and> holds buffer' (Suc (length es)) (es @ [d]) \<and> stopped_at H I es d (10 ^ k * 2 ^ s) rest) \<or>
    (\<exists>buffer' ds'. integral_loop K s F I x divisor buffer len = Some (Exhausted buffer' (length ds')) \<and> length buffer' = length buffer \<and>
       holds buffer' (length ds') ds' \<and> dec ds' = N \<and> I \<le> F \<and> ds' \<noteq> [] \<and> 10 ^ (length ds' - 1) \<le> dec ds')"
proof (induction K arbitrary: buffer len ds x divisor)
  case 0
  have l: "length ds = len" using 0(1) by (simp add: holds_def)
  have "integral_loop 0 s F I x divisor buffer len = Some (Exhausted buffer (length ds)) \<and> dec ds = N \<and> I \<le> F \<and> ds \<noteq> [] \<and> 10 ^ (length ds - 1) \<le> dec ds"
    using 0(3-7) l by (auto simp: leading_def split: if_splits)
  then show ?case using 0(1) l by blast
next
  case (Suc k)
  let ?q = "x div 10 ^ k" and ?r = "x mod 10 ^ k" and ?T = "10 ^ k * 2 ^ s" and ?rest = "x mod 10 ^ k * 2 ^ s + F"
  have div: "divisor = 10 ^ k" using Suc.prems(8) by simp
  have q: "?q \<le> 9" using Suc.prems(3) less_mult_imp_div_less [of x 10 "10 ^ k"] by simp
  have l: "length ds = len" using Suc.prems(1) by (simp add: holds_def)
  have N: "dec (ds @ [?q]) * 10 ^ k + ?r = N" unfolding dec_append using Suc.prems(4) by (simp add: algebra_simps)
  have DT: "dec (ds @ [?q]) * ?T + ?rest = H"
  proof -
    have "(dec (ds @ [?q]) * 10 ^ k + ?r) * 2 ^ s + F = H" using N H(1) by simp
    then show ?thesis by (simp only: add_mult_distrib mult.assoc add.assoc)
  qed
  have "(?q * 10 ^ k + ?r) * 2 ^ s = x * 2 ^ s" by (simp only: div_mult_mod_eq)
  then have dT: "?q * ?T + ?rest = x * 2 ^ s + F" by (simp only: add_mult_distrib mult.assoc add.assoc [symmetric])
  have rT: "?rest < ?T"
  proof -
    have "(?r + 1) * 2 ^ s \<le> 10 ^ k * 2 ^ s" by (intro mult_le_mono1) (simp add: Suc_leI)
    then show ?thesis using Suc.prems(6) by simp
  qed
  note lead = leading_step [OF Suc.prems(7)]
  have len: "len \<le> 16"
  proof -
    have "x * 2 ^ s + F < 10 * ?T" using q dT rT mult_le_mono1 [OF q, of ?T] by linarith
    then have "dec (ds @ [?q]) < 10 ^ 17" using digit_room [of "dec (ds @ [?q])" ?T H I "x * 2 ^ s + F"] DT Suc.prems(5) I by simp
    then show ?thesis using digits_bound lead(1) l by fastforce
  qed
  have lt: "len < length buffer" using len Suc.prems(2) by simp
  note put = holds_put [OF Suc.prems(1) lt q]
  let ?b = "buffer[len := 48 + ?q]"
  have u: "uint64 (uint64 (?r * 2 ^ s) + F) = ?rest" using DT H(2) by (simp add: cast_id)
  have "1 \<le> dec (ds @ [?q])" using lead(1) one_le_power [of "10 :: nat" "length ds"] by linarith
  then have "?T \<le> H" using DT mult_le_mono1 [of 1 "dec (ds @ [?q])" ?T] by linarith
  then have uT: "uint64 (divisor * 2 ^ s) = ?T" using H(2) div by (simp add: cast_id)
  show ?case
  proof (cases "?rest < I")
    case True
    then have "integral_loop (Suc k) s F I x divisor buffer len = Some (Stopped ?b (Suc (length ds)) (int k) ?rest ?T)"
      using put(1) u uT div l by (simp add: Let_def)
    moreover have "stopped_at H I ds ?q ?T ?rest" unfolding stopped_at_def using DT rT True dT Suc.prems(5) q len l by simp
    ultimately show ?thesis using put(2) l by (intro disjI1) (metis length_list_update)
  next
    case False
    then have step: "integral_loop (Suc k) s F I x divisor buffer len = integral_loop k s F I ?r (10 ^ k div 10) ?b (Suc len)"
      using put(1) u div by (simp add: Let_def)
    have "0 < k \<longrightarrow> (10 :: nat) ^ k div 10 = 10 ^ (k - 1)" by (cases k) auto
    then show ?thesis unfolding step
      using Suc.IH [of ?b "Suc len" "ds @ [?q]" ?r "10 ^ k div 10"] put(2) Suc.prems(2,6) N False lead(2) by simp
  qed
qed

text \<open>What the generation of the shortest digits ends with: the digits, scaled by \<open>unit\<close>, and an accepted rest.\<close>

definition generated :: "nat \<Rightarrow> nat \<Rightarrow> nat \<Rightarrow> nat \<Rightarrow> nat list \<Rightarrow> nat \<Rightarrow> nat \<Rightarrow> int \<Rightarrow> bool" where
  "generated s H I W es d m kappa \<longleftrightarrow>
     (\<exists>unit T rest. real T = 10 powi kappa * 2 ^ s * real unit \<and> 0 < unit \<and> stopped_at (H * unit) (I * unit) es d T rest \<and>
        m \<le> d \<and> weeded (W * unit - unit) (W * unit + unit) (I * unit) T unit m (rest + m * T))"

lemma shortest_fraction_ok:
  assumes s: "s \<le> 60" and I: "10 * H < 10 ^ 17 * I" and W: "1 \<le> W" "W + 1 \<le> I" "4 \<le> I"
  shows "holds buffer len ds \<Longrightarrow> 17 \<le> length buffer \<Longrightarrow> f < 2 ^ s \<Longrightarrow> dec ds * 2 ^ s + f = H * 10 ^ j \<Longrightarrow> I * 10 ^ j \<le> f \<Longrightarrow>
    leading ds 0 0 \<Longrightarrow> \<exists>buffer' es d m ok kappa. shortest_fraction s W f (10 ^ j) (I * 10 ^ j) buffer len (- int j) = Some (ok, buffer', Suc (length es), kappa) \<and>
      length buffer' = length buffer \<and> holds buffer' (Suc (length es)) (es @ [d - m]) \<and> length es \<le> 16 \<and> (ok \<longrightarrow> generated s H I W es d m kappa)"
proof (induction "2 ^ s - I * 10 ^ j" arbitrary: buffer len ds f j rule: less_induct)
  case less
  let ?f = "f * 10" and ?q = "f * 10 div 2 ^ s" and ?r = "f * 10 mod 2 ^ s" and ?u = "(10 :: nat) ^ Suc j"
  have ps: "(2 :: nat) ^ s \<le> 2 ^ 60" using s by (intro power_increasing) auto
  have f10: "f * 10 < 2 ^ 64" using less.prems(3) ps by simp
  have Iu: "I * ?u \<le> f * 10" using less.prems(5) by simp
  have u1: "1 * ?u \<le> I * ?u" using W(3) by (intro mult_le_mono1) simp
  have uint: "uint64 (f * 10) = f * 10" "uint64 (10 ^ j * 10) = ?u" "uint64 (I * 10 ^ j * 10) = I * ?u"
  proof -
    have c: "(10 :: nat) ^ j * 10 = ?u" "I * 10 ^ j * 10 = I * ?u" by simp_all
    have "1 * ?u < 2 ^ 64" "I * ?u < 2 ^ 64" using f10 Iu u1 by linarith+
    then show "uint64 (f * 10) = f * 10" "uint64 (10 ^ j * 10) = ?u" "uint64 (I * 10 ^ j * 10) = I * ?u"
      unfolding c mult_1 by (simp_all only: cast_id f10)
  qed
  have q: "?q \<le> 9" using less_mult_imp_div_less [of "f * 10" 10 "2 ^ s"] less.prems(3) by simp
  have l: "length ds = len" "ds \<noteq> []" using less.prems(1,6) by (auto simp: holds_def leading_def)
  have qr: "?q * 2 ^ s + ?r = f * 10" by (rule div_mult_mod_eq)
  have DT: "dec (ds @ [?q]) * 2 ^ s + ?r = H * ?u"
  proof -
    have "dec (ds @ [?q]) * 2 ^ s + ?r = 10 * (dec ds * 2 ^ s) + (?q * 2 ^ s + ?r)" unfolding dec_append by (simp only: add_mult_distrib mult.assoc add.assoc)
    also have "\<dots> = 10 * (dec ds * 2 ^ s + f)" unfolding qr by simp
    finally show ?thesis unfolding less.prems(4) by simp
  qed
  have lead: "10 ^ length ds \<le> dec (ds @ [?q])" "leading (ds @ [?q]) 0 0"
  proof -
    have "10 ^ (length ds - 1) \<le> dec ds" using less.prems(6) l(2) by (simp add: leading_def)
    moreover have "(10 :: nat) ^ length ds = 10 * 10 ^ (length ds - 1)" using l(2) by (cases ds) auto
    ultimately show "10 ^ length ds \<le> dec (ds @ [?q])" unfolding dec_append by linarith
    then show "leading (ds @ [?q]) 0 0" by (simp add: leading_def)
  qed
  have len: "len \<le> 16"
  proof -
    have "10 * (H * ?u) < 10 ^ 17 * (I * ?u)" using mult_less_mono1 [OF I, of ?u] by (simp only: mult.assoc zero_less_power zero_less_numeral)
    then have "dec (ds @ [?q]) < 10 ^ 17"
      using digit_room [of "dec (ds @ [?q])" "2 ^ s" "H * ?u" "I * ?u" "f * 10"] DT Iu less.prems(3) by simp
    then show ?thesis using digits_bound lead(1) l(1) by fastforce
  qed
  have lt: "len < length buffer" using len less.prems(2) by simp
  note put = holds_put [OF less.prems(1) lt q]
  let ?b = "buffer[len := 48 + ?q]"
  show ?case
  proof (cases "?r < I * ?u")
    case True
    have st: "stopped_at (H * ?u) (I * ?u) ds ?q (2 ^ s) ?r"
      unfolding stopped_at_def using DT True qr Iu q len l(1) by simp
    have I64: "I * ?u < 2 ^ 64" using Iu f10 by linarith
    have Wu: "?u \<le> W * ?u" "W * ?u + ?u \<le> I * ?u" "4 * ?u \<le> I * ?u"
      using mult_le_mono1 [OF W(1), of ?u] mult_le_mono1 [OF W(2), of ?u] mult_le_mono1 [OF W(3), of ?u] by (simp_all add: algebra_simps)
    have h: "holds ?b (Suc len) (ds @ [?q])" using put(2) .
    have T: "0 < (2 :: nat) ^ s" "?r \<le> I * ?u" "I * ?u \<le> ?q * 2 ^ s + ?r" using True qr Iu by simp_all
    obtain m buffer' ok where m: "RoundWeed ?b (Suc len) (W * ?u) (I * ?u) ?r (2 ^ s) ?u = Some (ok, buffer')" "length buffer' = length ?b"
        "m \<le> ?q" "holds buffer' (Suc len) (ds @ [?q - m])" "ok \<Longrightarrow> weeded (W * ?u - ?u) (W * ?u + ?u) (I * ?u) (2 ^ s) ?u m (?r + m * 2 ^ s)"
      using RoundWeed_ok [OF I64 T(1) Wu T(2,3) h] by blast
    have uW: "uint64 (W * ?u) = W * ?u" using Wu(2) I64 by (simp add: cast_id)
    have "shortest_fraction s W f (10 ^ j) (I * 10 ^ j) buffer len (- int j) = Some (ok, buffer', Suc (length ds), - int (Suc j))"
      using put(1) True m(1) uW l(1) by (subst shortest_fraction.simps) (simp only: uint Let_def bind_simps, simp)
    moreover have "ok \<longrightarrow> generated s H I W ds ?q m (- int (Suc j))"
    proof
      assume ok
      have "real (2 ^ s) = 10 powi (- int (Suc j)) * 2 ^ s * real ?u" unfolding power_int_minus power_int_of_nat by simp
      then show "generated s H I W ds ?q m (- int (Suc j))"
        unfolding generated_def using st m(3) m(5) [OF \<open>ok\<close>] by (intro exI3 [of _ ?u "2 ^ s" ?r]) simp
    qed
    ultimately show ?thesis using m(2,4) len l(1) by (metis length_list_update)
  next
    case False
    have step: "shortest_fraction s W f (10 ^ j) (I * 10 ^ j) buffer len (- int j) =
        shortest_fraction s W ?r (10 ^ Suc j) (I * 10 ^ Suc j) ?b (Suc len) (- int j - 1)"
      using put(1) False by (subst shortest_fraction.simps) (simp only: uint Let_def bind_simps, simp)
    have k: "- int j - 1 = - int (Suc j)" by simp
    have r: "?r < 2 ^ s" by simp
    have "I * 10 ^ j < I * ?u" using W(3) by simp
    moreover have "I * ?u \<le> ?r" using False by simp
    ultimately have "2 ^ s - I * ?u < 2 ^ s - I * 10 ^ j" using r by linarith
    then show ?thesis unfolding step k
      using less.hyps [of "Suc j" ?b "Suc len" "ds @ [?q]" ?r] put(2) less.prems(2) DT False lead(2) r by simp
  qed
qed

lemma BiggestPowerTen_ok:
  assumes "1 \<le> n" "n < 2 ^ nat bits" "0 \<le> bits" "bits \<le> 32"
  shows "\<exists>k. BiggestPowerTen n bits = Some (10 ^ k, int k) \<and> 10 ^ k \<le> n \<and> n < 10 ^ Suc k"
proof -
  have b: "int m < bits" if "2 ^ m \<le> n" for m
  proof (rule ccontr)
    assume "\<not> int m < bits"
    then have "(2 :: nat) ^ nat bits \<le> 2 ^ m" by (intro power_increasing) auto
    then show False using assms(2) that by linarith
  qed
  have bits: "1000000000 \<le> n \<Longrightarrow> 29 < bits" "100000000 \<le> n \<Longrightarrow> 26 < bits" "10000000 \<le> n \<Longrightarrow> 23 < bits" "1000000 \<le> n \<Longrightarrow> 19 < bits"
      "100000 \<le> n \<Longrightarrow> 16 < bits" "10000 \<le> n \<Longrightarrow> 13 < bits" "1000 \<le> n \<Longrightarrow> 9 < bits" "100 \<le> n \<Longrightarrow> 6 < bits" "10 \<le> n \<Longrightarrow> 3 < bits" "0 < bits"
    using b [of 29] b [of 26] b [of 23] b [of 19] b [of 16] b [of 13] b [of 9] b [of 6] b [of 3] b [of 0] assms(1) by simp_all
  have "n < 2 ^ 32"
  proof -
    have "(2 :: nat) ^ nat bits \<le> 2 ^ 32" using assms(4) by (intro power_increasing) auto
    then show ?thesis using assms(2) by linarith
  qed
  then have n32: "n < 10000000000" by simp
  have ten: "BiggestPowerTen n bits = Some (10 ^ k, int k) \<Longrightarrow> 10 ^ k \<le> n \<Longrightarrow> n < 10 ^ Suc k \<Longrightarrow> ?thesis" for k by blast
  note defs = BiggestPowerTen_def kTen9_def kTen8_def kTen7_def kTen6_def kTen5_def kTen4_def
  consider "1000000000 \<le> n" | "100000000 \<le> n" "n < 1000000000" | "10000000 \<le> n" "n < 100000000" | "1000000 \<le> n" "n < 10000000"
    | "100000 \<le> n" "n < 1000000" | "10000 \<le> n" "n < 100000" | "1000 \<le> n" "n < 10000" | "100 \<le> n" "n < 1000" | "10 \<le> n" "n < 100" | "n < 10"
    by linarith
  then show ?thesis
  proof cases
    case 1
    then show ?thesis using bits(1) assms(3,4) n32 by (intro ten [of 9]) (simp_all add: defs)
  next
    case 2
    then show ?thesis using bits(2) assms(3,4) by (intro ten [of 8]) (simp_all add: defs)
  next
    case 3
    then show ?thesis using bits(3) assms(3,4) by (intro ten [of 7]) (simp_all add: defs)
  next
    case 4
    then show ?thesis using bits(4) assms(3,4) by (intro ten [of 6]) (simp_all add: defs)
  next
    case 5
    then show ?thesis using bits(5) assms(3,4) by (intro ten [of 5]) (simp_all add: defs)
  next
    case 6
    then show ?thesis using bits(6) assms(3,4) by (intro ten [of 4]) (simp_all add: defs)
  next
    case 7
    then show ?thesis using bits(7) assms(3,4) by (intro ten [of 3]) (simp_all add: defs)
  next
    case 8
    then show ?thesis using bits(8) assms(3,4) by (intro ten [of 2]) (simp_all add: defs)
  next
    case 9
    then show ?thesis using bits(9) assms(3,4) by (intro ten [of 1]) (simp_all add: defs)
  next
    case 10
    then show ?thesis using bits(10) assms(1,3,4) by (intro ten [of 0]) (simp_all add: defs)
  qed
qed

text \<open>The integral part of a number with an exponent in the target range, and its first digit.\<close>

lemma integral_part:
  assumes s: "32 \<le> s" "s \<le> 60" and H: "2 ^ 60 \<le> H" "H < 2 ^ 64"
  shows "\<exists>k. BiggestPowerTen (H div 2 ^ s) (64 - int s) = Some (10 ^ k, int k) \<and> 10 ^ k \<le> H div 2 ^ s \<and> H div 2 ^ s < 10 ^ Suc k"
    "uint32 (H div 2 ^ s) = H div 2 ^ s"
proof -
  have ps: "(2 :: nat) ^ s \<le> 2 ^ 60" "(2 :: nat) ^ 32 \<le> 2 ^ s" using s by (intro power_increasing; simp)+
  have N1: "1 \<le> H div 2 ^ s" using div_le_mono [of "2 ^ s" H "2 ^ s"] ps(1) H(1) by simp
  have N2: "H div 2 ^ s < 2 ^ (64 - s)"
  proof -
    have "(2 :: nat) ^ (64 - s) * 2 ^ s = 2 ^ 64" using s(2) by (simp flip: power_add)
    then show ?thesis using H(2) less_mult_imp_div_less [of H "2 ^ (64 - s)" "2 ^ s"] by simp
  qed
  have "(2 :: nat) ^ (64 - s) \<le> 2 ^ 32" using s(1) by (intro power_increasing) auto
  then show "uint32 (H div 2 ^ s) = H div 2 ^ s" using N2 by (simp add: cast_id)
  have nb: "nat (64 - int s) = 64 - s" using s(2) by (simp add: nat_diff_distrib')
  then show "\<exists>k. BiggestPowerTen (H div 2 ^ s) (64 - int s) = Some (10 ^ k, int k) \<and> 10 ^ k \<le> H div 2 ^ s \<and> H div 2 ^ s < 10 ^ Suc k"
    using BiggestPowerTen_ok [of "H div 2 ^ s" "64 - int s"] N1 N2 s by auto
qed

lemma DigitGen_ok:
  assumes e: "fp_e low = fp_e w" "fp_e high = fp_e w" "-60 \<le> fp_e w" "fp_e w \<le> -32"
    and f: "1 \<le> unat (fp_f low)" "unat (fp_f low) \<le> unat (fp_f w)" "unat (fp_f w) \<le> unat (fp_f high)" "unat (fp_f high) + 1 < 2 ^ 64"
      "unat (fp_f low) + 2 \<le> unat (fp_f high)" "2 ^ 60 \<le> unat (fp_f high)"
    and I: "10 * (unat (fp_f high) + 1) < 10 ^ 17 * (unat (fp_f high) - unat (fp_f low) + 2)" and b: "17 \<le> length buffer"
  shows "\<exists>buffer' es d m ok kappa. DigitGen low w high buffer = Some (ok, buffer', Suc (length es), kappa) \<and>
    length buffer' = length buffer \<and> holds buffer' (Suc (length es)) (es @ [d - m]) \<and> length es \<le> 16 \<and>
    (ok \<longrightarrow> generated (nat (- fp_e w)) (unat (fp_f high) + 1) (unat (fp_f high) - unat (fp_f low) + 2) (unat (fp_f high) + 1 - unat (fp_f w)) es d m kappa)"
proof -
  define L H X s where "L = unat (fp_f low)" and "H = unat (fp_f high) + 1" and "X = unat (fp_f w)" and "s = nat (- fp_e w)"
  let ?I = "H + 1 - L" and ?W = "H - X"
  have s: "32 \<le> s" "s \<le> 60" using e by (auto simp: s_def)
  have LH: "1 \<le> L" "L \<le> X" "X + 1 \<le> H" "H < 2 ^ 64" "L + 3 \<le> H" "2 ^ 60 \<le> H" using f by (simp_all add: L_def H_def X_def)
  have uH: "unat (fp_f high + 1) = H" using f(4) by (subst unat_plus) (simp_all add: H_def)
  have l1: "1 \<le> fp_f low" using f(1) by (simp add: word_le_nat_alt)
  have h1: "1 \<le> fp_f high" using f(6) by (simp add: word_le_nat_alt)
  have uL: "unat (fp_f low - 1) = L - 1" using unat_sub [OF l1] by (simp add: L_def)
  have as: "fp_f low + 1 \<le> fp_f high - 1"
  proof -
    have "unat (fp_f low + 1) = L + 1" using f(3-5) by (subst unat_plus) (simp_all add: L_def)
    moreover have "unat (fp_f high - 1) = H - 2" using unat_sub [OF h1] by (simp add: H_def)
    ultimately show ?thesis using LH(5) by (simp add: word_le_nat_alt)
  qed
  have d1: "fp_f low - 1 \<le> fp_f high + 1" "fp_f w \<le> fp_f high + 1" using uH uL LH by (simp_all add: word_le_nat_alt X_def)
  have mi: "DiyFp_Minus (DiyFp (fp_f high + 1) (fp_e w)) (DiyFp (fp_f low - 1) (fp_e w)) = Some (DiyFp (fp_f high + 1 - (fp_f low - 1)) (fp_e w))"
      "DiyFp_Minus (DiyFp (fp_f high + 1) (fp_e w)) w = Some (DiyFp (fp_f high + 1 - fp_f w) (fp_e w))"
    using d1 by (simp_all add: DiyFp_Minus_def DiyFp_Subtract_def DiyFp_def)
  have un: "unat (fp_f high + 1 - (fp_f low - 1)) = ?I" "unat (fp_f high + 1 - fp_f w) = ?W"
    using unat_sub [OF d1(1)] unat_sub [OF d1(2)] uH uL LH by (simp_all add: X_def)
  define N F where "N = H div 2 ^ s" and "F = H mod 2 ^ s"
  have NF: "N * 2 ^ s + F = H" "F < 2 ^ s" unfolding N_def F_def by (rule div_mult_mod_eq, simp)
  obtain k where k: "BiggestPowerTen N (64 - int s) = Some (10 ^ k, int k)" "10 ^ k \<le> N" "N < 10 ^ Suc k" and u32: "uint32 N = N"
    using integral_part [OF s LH(6,4)] unfolding N_def by blast
  have I10: "10 * H < 10 ^ 17 * ?I" using I f(5) by (simp add: H_def L_def Suc_diff_le)
  have IH: "?I \<le> N * 2 ^ s + F" using NF LH(1) by simp
  have h0: "holds buffer 0 []" by (simp add: holds_def)
  let ?loop = "integral_loop (Suc k) s F ?I N (10 ^ k) buffer 0"
  have gen: "DigitGen low w high buffer = ?loop \<bind> (\<lambda>r. case r of
      Stopped buffer len kappa rest ten_kappa \<Rightarrow> RoundWeed buffer len ?W ?I rest ten_kappa 1 \<bind> (\<lambda>(result, buffer). Some (result, buffer, len, kappa))
    | Exhausted buffer len \<Rightarrow> shortest_fraction s ?W F 1 ?I buffer len 0)"
  proof -
    have "unat (2 + (fp_f high - fp_f low)) = ?I" using un(1) by (simp add: algebra_simps)
    moreover have "nat (int k + 1) = Suc k" by simp
    moreover have "fp_f (DiyFp f x) = f" "fp_e (DiyFp f x) = x" for f x by (simp_all add: DiyFp_def)
    ultimately show ?thesis
      unfolding DigitGen_def Let_def using e as
      by (simp add: kMinimalTargetExponent_def kMaximalTargetExponent_def mi un k(1) u32 uH del: integral_loop.simps One_nat_def flip: s_def N_def F_def)
  qed
  have "leading [] (Suc k) N" using k(2) by (simp add: leading_def)
  then consider buffer' es d k' rest where "?loop = Some (Stopped buffer' (Suc (length es)) (int k') rest (10 ^ k' * 2 ^ s))" "length buffer' = length buffer"
      "holds buffer' (Suc (length es)) (es @ [d])" "stopped_at H ?I es d (10 ^ k' * 2 ^ s) rest"
    | buffer' ds where "?loop = Some (Exhausted buffer' (length ds))" "length buffer' = length buffer" "holds buffer' (length ds) ds" "dec ds = N" "?I \<le> F"
      "ds \<noteq> []" "10 ^ (length ds - 1) \<le> dec ds"
    using integral_loop_ok [OF NF(1) LH(4) I10 h0 b, of N "Suc k" "10 ^ k"] k(3) IH NF(2) by (simp del: power_Suc) blast
  then have "\<exists>buffer' es d m ok kappa. DigitGen low w high buffer = Some (ok, buffer', Suc (length es), kappa) \<and>
    length buffer' = length buffer \<and> holds buffer' (Suc (length es)) (es @ [d - m]) \<and> length es \<le> 16 \<and> (ok \<longrightarrow> generated s H ?I ?W es d m kappa)"
  proof cases
    case 1
    let ?T = "10 ^ k' * 2 ^ s :: nat"
    have st: "dec (es @ [d]) * ?T + rest = H" "rest < ?T" "rest < ?I" "?I \<le> d * ?T + rest" "length es \<le> 16" using 1(4) by (simp_all add: stopped_at_def)
    have I64: "?I < 2 ^ 64" and W: "1 \<le> ?W" "?W + 1 \<le> ?I" "4 * 1 \<le> ?I" and T0: "0 < ?T" and rI: "rest \<le> ?I" using LH st(3) by simp_all
    obtain m buffer2 ok where m: "RoundWeed buffer' (Suc (length es)) ?W ?I rest ?T 1 = Some (ok, buffer2)" "length buffer2 = length buffer'"
        "m \<le> d" "holds buffer2 (Suc (length es)) (es @ [d - m])" "ok \<Longrightarrow> weeded (?W - 1) (?W + 1) ?I ?T 1 m (rest + m * ?T)"
      using RoundWeed_ok [OF I64 T0 W rI st(4) 1(3)] by blast
    have "DigitGen low w high buffer = Some (ok, buffer2, Suc (length es), int k')" unfolding gen using 1(1) m(1) by simp
    moreover have "generated s H ?I ?W es d m (int k')" if ok
      unfolding generated_def using 1(4) m(3) m(5) [OF that] by (intro exI3 [of _ 1 ?T rest]) simp
    ultimately show ?thesis using m(2,4) 1(2) st(5) by metis
  next
    case 2
    have st: "dec ds * 2 ^ s + F = H * 10 ^ 0" "?I * 10 ^ 0 \<le> F" "leading ds 0 0" using 2 NF by (simp_all add: leading_def)
    have W: "1 \<le> ?W" "?W + 1 \<le> ?I" "4 \<le> ?I" using LH by simp_all
    have b': "17 \<le> length buffer'" using b 2(2) by simp
    obtain buffer2 es d m ok kappa where r: "shortest_fraction s ?W F (10 ^ 0) (?I * 10 ^ 0) buffer' (length ds) (- int 0) = Some (ok, buffer2, Suc (length es), kappa)"
        "length buffer2 = length buffer'" "holds buffer2 (Suc (length es)) (es @ [d - m])" "length es \<le> 16" "ok \<longrightarrow> generated s H ?I ?W es d m kappa"
      using shortest_fraction_ok [OF s(2) I10 W 2(3) b' NF(2) st] by blast
    have "DigitGen low w high buffer = Some (ok, buffer2, Suc (length es), kappa)" unfolding gen using 2(1) r(1) by simp
    then show ?thesis using r 2(2) by metis
  qed
  moreover have "unat (fp_f high) - unat (fp_f low) + 2 = ?I" using f(5) by (simp add: H_def L_def)
  ultimately show ?thesis by (simp only: H_def [symmetric] X_def [symmetric] s_def [symmetric])
qed

end
