(* ===== verification/Grisu_Counted.thy ===== *)
theory Grisu_Counted
  imports Grisu_Digits
begin

text \<open>
  The generation of a given number of digits of \<^verbatim>\<open>src/fast-dtoa.cc\<close>: when it succeeds, the digits are those of the number rounded to as
  many significant digits, for every number that the approximation may stand for.
\<close>

section \<open>A number of digits\<close>

lemma first_digit:
  assumes "length ds = Suc n" "\<forall>d\<in>set ds. d \<le> 9"
  shows "10 ^ n \<le> dec ds \<longleftrightarrow> ds ! 0 \<noteq> 0"
proof -
  obtain d es where ds: "ds = d # es" "length es = n" using assms(1) by (cases ds) auto
  have "dec es < 10 ^ n" using dec_bound [of es] assms(2) ds by simp
  then show ?thesis using ds by (cases d) auto
qed

text \<open>The digits are kept, or the last one is incremented, in both cases only if this is right for every number within one unit.\<close>

lemma RoundWeedCounted_ok:
  assumes rest: "rest < T" "T < 2 ^ 64" and h: "holds buffer (Suc n) ds" "ds ! 0 \<noteq> 0"
  shows "\<exists>ok buffer' kappa'. RoundWeedCounted buffer (Suc n) rest T unit kappa = Some (ok, buffer', kappa') \<and> length buffer' = length buffer \<and>
    (ok \<longrightarrow> (\<exists>ds' c. holds buffer' (Suc n) ds' \<and> ds' ! 0 \<noteq> 0 \<and> kappa \<le> kappa' \<and> real (dec ds') * 10 powi kappa' = (real (dec ds) + real c) * 10 powi kappa \<and>
       2 * unit < T \<and> (c = 0 \<and> 2 * (rest + unit) \<le> T \<or> c = 1 \<and> T + 2 * unit \<le> 2 * rest)))"
proof (cases "unit \<ge> T \<or> sub64 T unit \<le> unit")
  case True
  then have "RoundWeedCounted buffer (Suc n) rest T unit kappa = Some (False, buffer, kappa)" using rest(1) by (auto simp: RoundWeedCounted_def)
  then show ?thesis by (intro exI3 [of _ False buffer kappa]) simp
next
  case F1: False
  then have "unit < T" "sub64 T unit = T - unit" "unit < sub64 T unit" using rest(2) by (auto intro: sub64_id)
  then have u: "2 * unit < T" by simp
  let ?down = "sub64 T rest > rest \<and> sub64 T (uint64 (2 * rest)) \<ge> uint64 (2 * unit)"
  let ?up = "rest > unit \<and> sub64 T (sub64 rest unit) \<le> sub64 rest unit"
  have s: "sub64 T rest = T - rest" "uint64 (2 * unit) = 2 * unit" using rest u by (simp_all add: sub64_id cast_id)
  show ?thesis
  proof (cases ?down)
    case True
    then have "rest < T - rest" using s(1) by simp
    then have lt: "2 * rest < T" by arith
    then have "sub64 T (uint64 (2 * rest)) = T - 2 * rest" using rest(2) by (simp add: sub64_id cast_id)
    then have "2 * unit \<le> T - 2 * rest" using True s(2) by simp
    then have "2 * (rest + unit) \<le> T" using lt by arith
    moreover have "RoundWeedCounted buffer (Suc n) rest T unit kappa = Some (True, buffer, kappa)" using True F1 rest(1) by (auto simp: RoundWeedCounted_def)
    ultimately show ?thesis using h u by (intro exI3 [of _ True buffer kappa]) (auto intro!: exI2 [of _ ds "0 :: nat"])
  next
    case F2: False
    show ?thesis
    proof (cases ?up)
      case False
      then have "RoundWeedCounted buffer (Suc n) rest T unit kappa = Some (False, buffer, kappa)" using F1 F2 rest(1) by (auto simp: RoundWeedCounted_def)
      then show ?thesis by (intro exI3 [of _ False buffer kappa]) simp
    next
      case True
      have "sub64 rest unit = rest - unit" "sub64 T (rest - unit) = T - (rest - unit)" using True rest by (simp_all add: sub64_id)
      then have "unit < rest" "T - (rest - unit) \<le> rest - unit" using True by simp_all
      then have up: "T + 2 * unit \<le> 2 * rest" using rest(1) by arith
      have nb: "n < length buffer" "length ds = Suc n" using h(1) by (auto simp: holds_def)
      obtain buffer' ds' p where r: "RoundUp buffer (Suc n) kappa = Some (buffer', length ds', p)" "length buffer' = length buffer" "holds buffer' (length ds') ds'"
          "decimal ds' p = (real (dec ds) + 1) * 10 powi (kappa - int (Suc n))"
        using RoundUp_ok [OF h(1) gr_implies_not_zero [OF nb(1), unfolded neq0_conv], of kappa] by auto
      have eq: "RoundWeedCounted buffer (Suc n) rest T unit kappa = map_option (\<lambda>(b, l, k). (True, b, k)) (RoundUp buffer (Suc n) kappa)"
        using True F1 F2 rest(1) nb by (auto simp: RoundWeedCounted_def RoundUp_def buffer_get_def Let_def)
      have l0: "length ds' = Suc n" "p = kappa \<or> p = kappa + 1 \<and> (\<exists>B. buffer' = B[0 := 49])"
        using r(1) nb(1) by (auto simp: RoundUp_def buffer_get_def Let_def split: if_splits)
      have "buffer' ! 0 = 49" if "buffer' = B[0 := 49]" for B using that r(2) nb(1) by (cases B) auto
      then have l: "length ds' = Suc n" "p = kappa \<or> p = kappa + 1 \<and> buffer' ! 0 = 49" using l0 by blast+
      have d9: "\<forall>d\<in>set ds'. d \<le> 9" using r(3) by (simp add: holds_def)
      have val: "real (dec ds') * 10 powi p = (real (dec ds) + 1) * 10 powi kappa"
        using r(4) unfolding decimal_def l(1) by (simp add: power_int_diff power_int_add field_simps)
      have "ds' ! 0 \<noteq> 0"
        using l(2)
      proof
        assume p: "p = kappa"
        then have "real (dec ds') = real (dec ds + 1)" using val by simp
        then have "dec ds' = dec ds + 1" by (simp only: of_nat_eq_iff)
        moreover have "10 ^ n \<le> dec ds" using first_digit [OF nb(2)] h by (auto simp: holds_def)
        ultimately show ?thesis using first_digit [OF l(1) d9] by simp
      next
        assume "p = kappa + 1 \<and> buffer' ! 0 = 49"
        then show ?thesis using holds_nth [OF r(3), of 0] l(1) by simp
      qed
      then show ?thesis using eq r(1-3) l val up u by (intro exI3 [of _ True buffer' p]) (auto intro!: exI2 [of _ ds' "1 :: nat"])
    qed
  qed
qed

text \<open>
  What \<open>ok\<close> promises: for every number that the approximation stands for, the digits are those of its rounding to as many
  significant digits.  The decade of the number is not always that of the approximation.
\<close>

definition counted_ok :: "nat \<Rightarrow> nat \<Rightarrow> nat list \<Rightarrow> int \<Rightarrow> bool" where
  "counted_ok s X ds kappa \<longleftrightarrow> ds ! 0 \<noteq> 0 \<and>
     (\<forall>y. \<bar>y * 2 ^ s - real X\<bar> < 1 \<longrightarrow> (\<exists>q. 10 powi (q + int (length ds) - 1) \<le> y \<and> y < 10 powi (q + int (length ds)) \<and>
        real (dec ds) * 10 powi kappa = rounded_to q y))"

lemma rounded_toI: "of_int D - 1 / 2 \<le> x / 10 powi q \<Longrightarrow> x / 10 powi q < of_int D + 1 / 2 \<Longrightarrow> rounded_to q x = of_int D * 10 powi q"
  unfolding rounded_to_def by (subst floor_unique [of D]) auto

lemma rounded_in_decade:
  fixes y :: real and D c n :: nat
  assumes D: "10 ^ n \<le> D" "D < 10 ^ Suc n" and y: "real D - 1 / 2 < y / 10 powi k"
    and c: "c = 0 \<and> y / 10 powi k < real D + 1 / 2 \<or> c = 1 \<and> real D + 1 / 2 < y / 10 powi k \<and> y / 10 powi k < real D + 3 / 2"
    and first: "D = 10 ^ n \<Longrightarrow> real D - 1 / 20 \<le> y / 10 powi k"
  shows "\<exists>q. 10 powi (q + int (Suc n) - 1) \<le> y \<and> y < 10 powi (q + int (Suc n)) \<and> (real D + real c) * 10 powi k = rounded_to q y"
proof -
  define z where "z = y / 10 powi k"
  have y': "y = z * 10 powi k" by (simp add: z_def)
  have p: "10 powi (k + int m) = 10 ^ m * (10 :: real) powi k" for m by (simp add: power_int_add)
  have D': "10 ^ n \<le> real D" "real D + 1 \<le> 10 ^ Suc n"
  proof -
    have "real (10 ^ n) \<le> real D" "real (D + 1) \<le> real (10 ^ Suc n)" using D by (simp_all only: of_nat_le_iff Suc_leI Suc_eq_plus1 [symmetric])
    then show "10 ^ n \<le> real D" "real D + 1 \<le> 10 ^ Suc n" by simp_all
  qed
  note yz = y [folded z_def] and cz = c [folded z_def] and fz = first [folded z_def]
  have kpos: "0 < (10 :: real) powi k" by simp
  consider (same) "10 ^ n \<le> z" "z < 10 ^ Suc n" | (below) "z < 10 ^ n" | (above) "10 ^ Suc n \<le> z" by linarith
  then show ?thesis
  proof cases
    case same
    have "10 powi (k + int (Suc n) - 1) \<le> y" "y < 10 powi (k + int (Suc n))"
      unfolding y' p using p [of n] same by (simp_all add: mult_right_mono mult_strict_right_mono del: power_Suc)
    moreover have "rounded_to k y = of_int (int (D + c)) * 10 powi k"
      by (rule rounded_toI) (use cz yz in \<open>auto simp flip: z_def\<close>)
    ultimately show ?thesis by (intro exI [of _ k]) simp
  next
    case below
    have Dn: "D = 10 ^ n"
    proof (rule ccontr)
      assume "D \<noteq> 10 ^ n"
      then have "real (10 ^ n + 1) \<le> real D" using D(1) by (simp only: of_nat_le_iff)
      then show False using yz below by simp
    qed
    have c0: "c = 0" using cz below D' by auto
    have k1: "10 powi k = 10 * (10 :: real) powi (k - 1)" by (simp add: power_int_diff)
    have pk: "10 powi (k - 1 + int (Suc n) - 1) = 10 ^ n * (10 :: real) powi (k - 1)" "10 powi (k - 1 + int (Suc n)) = 10 ^ n * (10 :: real) powi k"
      by (simp_all add: power_int_add power_int_diff)
    have n1: "(1 :: real) \<le> 10 ^ n" by simp
    have Dr: "real D = 10 ^ n" using Dn by simp
    then have "10 ^ n \<le> 10 * z" using fz [OF Dn] n1 by linarith
    then have "10 ^ n * 10 powi (k - 1) \<le> 10 * z * (10 :: real) powi (k - 1)" by (intro mult_right_mono) simp_all
    then have "10 powi (k - 1 + int (Suc n) - 1) \<le> y" unfolding pk(1) y' k1 by (simp add: mult.assoc mult.left_commute)
    moreover have "y < 10 powi (k - 1 + int (Suc n))" unfolding pk(2) y' using below by (simp add: mult_strict_right_mono)
    moreover have "y / 10 powi (k - 1) = 10 * z" unfolding y' k1 by simp
    then have "rounded_to (k - 1) y = of_int (int (10 * D)) * 10 powi (k - 1)"
      by (intro rounded_toI) (use fz [OF Dn] below Dr in simp_all)
    ultimately show ?thesis using c0 k1 by (intro exI [of _ "k - 1"]) simp
  next
    case above
    have c1: "c = 1" "z < real D + 3 / 2" using cz above D' by auto
    have "real (10 ^ Suc n) < real (D + 2)" using above c1(2) by simp
    then have "10 ^ Suc n < D + 2" by (simp only: of_nat_less_iff)
    then have Dn: "D + 1 = 10 * 10 ^ n" using D(2) by simp
    have Dr: "real D + 1 = 10 * 10 ^ n" using arg_cong [OF Dn, of real] by simp
    have k1: "10 powi (k + 1) = 10 * (10 :: real) powi k" by (simp add: power_int_add)
    have pk: "10 powi (k + 1 + int (Suc n) - 1) = 10 ^ Suc n * (10 :: real) powi k" "10 powi (k + 1 + int (Suc n)) = 100 * 10 ^ n * (10 :: real) powi k"
      by (simp_all add: power_int_add)
    have n1: "(1 :: real) \<le> 10 ^ n" by simp
    have "10 powi (k + 1 + int (Suc n) - 1) \<le> y" unfolding pk(1) y' using above by (simp add: mult_right_mono del: power_Suc)
    moreover have "z < 100 * 10 ^ n" using c1(2) Dr n1 by linarith
    then have "y < 10 powi (k + 1 + int (Suc n))" unfolding pk(2) y' by (simp add: mult_strict_right_mono)
    moreover have yq: "y / 10 powi (k + 1) = z / 10" unfolding y' k1 by simp
    have "10 ^ n - 1 / 2 \<le> z / 10" "z / 10 < 10 ^ n + 1 / 2" using above c1(2) Dr by simp_all
    then have "rounded_to (k + 1) y = of_int (int (10 ^ n)) * 10 powi (k + 1)"
      by (intro rounded_toI) (simp_all only: yq of_int_of_nat_eq of_nat_power of_nat_numeral of_int_power of_int_numeral)
    ultimately show ?thesis using c1(1) Dr k1 by (intro exI [of _ "k + 1"]) (simp add: mult.assoc)
  qed
qed

lemma counted_okI:
  fixes s X D T rest unit c n :: nat
  assumes eq: "D * T + rest = X * unit" and unit: "0 < unit" "real T = 10 powi kappa * 2 ^ s * real unit" and T: "2 * unit < T"
    and c: "c = 0 \<and> 2 * (rest + unit) \<le> T \<or> c = 1 \<and> T + 2 * unit \<le> 2 * rest" and rest: "rest < T"
    and ds: "real (dec ds) * 10 powi kappa' = (real D + real c) * 10 powi kappa" "ds ! 0 \<noteq> 0" "length ds = Suc n"
    and D: "10 ^ n \<le> D" "D < 10 ^ Suc n" and first: "D = 10 ^ n \<Longrightarrow> 20 * unit \<le> T + 20 * rest"
  shows "counted_ok s X ds kappa'"
  unfolding counted_ok_def ds(1,3)
proof (intro conjI allI impI ds(2))
  fix y :: real assume V: "\<bar>y * 2 ^ s - real X\<bar> < 1"
  define t r u z where "t = real T" and "r = real rest" and "u = real unit" and "z = y / 10 powi kappa"
  have u: "0 < u" "2 * u < t" "r < t" "0 \<le> r" "0 < t" using unit(1) T rest by (simp_all add: t_def r_def u_def)
  have yt: "y * 2 ^ s * u = z * t" using unit(2) by (simp add: t_def u_def z_def)
  have "real (D * T + rest) = real (X * unit)" by (simp only: eq)
  then have X: "real X * u = real D * t + r" by (simp add: t_def r_def u_def)
  have "\<bar>y * 2 ^ s - real X\<bar> * u < 1 * u" using V u(1) by (rule mult_strict_right_mono)
  then have "\<bar>y * 2 ^ s * u - real X * u\<bar> < u" using u(1) by (simp flip: left_diff_distrib add: abs_mult)
  then have d: "(z - real D) * t < r + u" "r - u < (z - real D) * t" unfolding yt X left_diff_distrib by linarith+
  have less: "a < b" if "a * t < b * t" for a b using that u(5) by (simp only: mult_less_cancel_right_pos)
  have low: "real D - 1 / 2 < z"
  proof -
    have "(- 1 / 2) * t < (z - real D) * t" using d(2) u by linarith
    then have "- 1 / 2 < z - real D" by (rule less)
    then show ?thesis by linarith
  qed
  have cz: "c = 0 \<and> z < real D + 1 / 2 \<or> c = 1 \<and> real D + 1 / 2 < z \<and> z < real D + 3 / 2"
    using c
  proof
    assume a: "c = 0 \<and> 2 * (rest + unit) \<le> T"
    then have "real (2 * (rest + unit)) \<le> real T" by (simp only: of_nat_le_iff)
    then have "(z - real D) * t < 1 / 2 * t" using d(1) by (simp add: r_def u_def t_def)
    then have "z - real D < 1 / 2" by (rule less)
    then show ?thesis using a by simp
  next
    assume a: "c = 1 \<and> T + 2 * unit \<le> 2 * rest"
    then have "real (T + 2 * unit) \<le> real (2 * rest)" by (simp only: of_nat_le_iff)
    then have "t + 2 * u \<le> 2 * r" by (simp add: r_def u_def t_def)
    then have "1 / 2 * t < (z - real D) * t" "(z - real D) * t < 3 / 2 * t" using d u by linarith+
    then have "1 / 2 < z - real D" "z - real D < 3 / 2" using less by blast+
    then show ?thesis using a by simp
  qed
  have "real D - 1 / 20 \<le> z" if "D = 10 ^ n"
  proof -
    have "real (20 * unit) \<le> real (T + 20 * rest)" using first [OF that] by (simp only: of_nat_le_iff)
    then have "(- 1 / 20) * t < (z - real D) * t" using d(2) by (simp add: r_def u_def t_def)
    then have "- 1 / 20 < z - real D" by (rule less)
    then show ?thesis by linarith
  qed
  then show "\<exists>q. 10 powi (q + int (Suc n) - 1) \<le> y \<and> y < 10 powi (q + int (Suc n)) \<and> (real D + real c) * 10 powi kappa = rounded_to q y"
    using rounded_in_decade [OF D, of y kappa c] low cz by (simp only: z_def)
qed

lemma counted_integral_ok:
  "holds buffer len ds \<Longrightarrow> 1 \<le> req \<Longrightarrow> len + req \<le> length buffer \<Longrightarrow> x < 10 ^ K \<Longrightarrow> dec ds * 10 ^ K + x = N \<Longrightarrow> leading ds K x \<Longrightarrow>
   (0 < K \<longrightarrow> divisor = 10 ^ (K - 1)) \<Longrightarrow>
   (\<exists>buffer' ds' k r. counted_integral K (int req) x divisor buffer len = Some (k, 0, r, 10 ^ k, buffer', len + req) \<and> length buffer' = length buffer \<and>
      holds buffer' (len + req) ds' \<and> dec ds' * 10 ^ k + r = N \<and> r < 10 ^ k \<and> ds' ! 0 \<noteq> 0) \<or>
   (\<exists>buffer' ds' req' r divisor'. counted_integral K (int req) x divisor buffer len = Some (0, int req', r, divisor', buffer', length ds') \<and> length buffer' = length buffer \<and>
      holds buffer' (length ds') ds' \<and> dec ds' = N \<and> 1 \<le> req' \<and> length ds' + req' = len + req \<and> ds' \<noteq> [] \<and> ds' ! 0 \<noteq> 0)"
proof (induction K arbitrary: buffer len ds x divisor req)
  case 0
  have l: "length ds = len" "\<forall>d\<in>set ds. d \<le> 9" using 0(1) by (auto simp: holds_def)
  have ne: "ds \<noteq> []" "10 ^ (length ds - 1) \<le> dec ds" using 0(6) by (auto simp: leading_def split: if_splits)
  then have "ds ! 0 \<noteq> 0" using first_digit [of ds "length ds - 1"] l(2) by (cases ds) auto
  moreover have "counted_integral 0 (int req) x divisor buffer len = Some (0, int req, x, divisor, buffer, length ds)" "dec ds = N" using 0(4,5) l(1) by simp_all
  ultimately show ?case using 0(1,2) l(1) ne(1) by blast
next
  case (Suc k)
  let ?q = "x div 10 ^ k" and ?r = "x mod 10 ^ k"
  have dv: "divisor = 10 ^ k" using Suc.prems(7) by simp
  have q: "?q \<le> 9" using Suc.prems(4) less_mult_imp_div_less [of x 10 "10 ^ k"] by simp
  have N: "dec (ds @ [?q]) * 10 ^ k + ?r = N" unfolding dec_append using Suc.prems(5) by (simp add: algebra_simps)
  note lead = leading_step [OF Suc.prems(6)]
  have lt: "len < length buffer" using Suc.prems(2,3) by simp
  note put = holds_put [OF Suc.prems(1) lt q]
  let ?b = "buffer[len := 48 + ?q]"
  have l: "length ds = len" "\<forall>d\<in>set (ds @ [?q]). d \<le> 9" using Suc.prems(1) put(2) by (auto simp: holds_def)
  have nz: "(ds @ [?q]) ! 0 \<noteq> 0" using first_digit [of "ds @ [?q]" len] l lead(1) by simp
  show ?case
  proof (cases "req = 1")
    case True
    then have "counted_integral (Suc k) (int req) x divisor buffer len = Some (k, 0, ?r, 10 ^ k, ?b, len + req)" using put(1) dv by simp
    then show ?thesis using True put(2) N nz by (intro disjI1) (metis Suc_eq_plus1 length_list_update mod_less_divisor zero_less_numeral zero_less_power)
  next
    case False
    then have step: "counted_integral (Suc k) (int req) x divisor buffer len = counted_integral k (int (req - 1)) ?r (10 ^ k div 10) ?b (Suc len)"
      using put(1) dv Suc.prems(2) by (simp add: of_nat_diff)
    have "0 < k \<longrightarrow> (10 :: nat) ^ k div 10 = 10 ^ (k - 1)" by (cases k) auto
    moreover have "1 \<le> req - 1" "Suc len + (req - 1) = len + req" using False Suc.prems(2) by simp_all
    ultimately show ?thesis unfolding step
      using Suc.IH [of ?b "Suc len" "ds @ [?q]" "req - 1" ?r "10 ^ k div 10"] put(2) Suc.prems(3) N lead(2) by simp
  qed
qed

lemma counted_fraction_ok:
  assumes s: "s \<le> 60"
  shows "holds buffer len ds \<Longrightarrow> len + req \<le> length buffer \<Longrightarrow> f < 2 ^ s \<Longrightarrow> dec ds * 2 ^ s + f = X * 10 ^ j \<Longrightarrow> ds \<noteq> [] \<Longrightarrow> ds ! 0 \<noteq> 0 \<Longrightarrow>
    \<exists>missing f' j' buffer' len'. counted_fraction s req f (10 ^ j) buffer len (- int j) = Some (missing, f', 10 ^ j', buffer', len', - int j') \<and>
      length buffer' = length buffer \<and>
      (missing = 0 \<longrightarrow> len' = len + req \<and> f' < 2 ^ s \<and> j' = j + req \<and> (0 < req \<longrightarrow> 10 ^ j < f) \<and> (\<exists>ds'. holds buffer' (len + req) ds' \<and> dec ds' * 2 ^ s + f' = X * 10 ^ j' \<and> ds' ! 0 \<noteq> 0))"
proof (induction req arbitrary: buffer len ds f j)
  case 0
  then show ?case by (intro exI3 [of _ 0 f j]) auto
next
  case (Suc req)
  show ?case
  proof (cases "10 ^ j < f")
    case False
    then have "counted_fraction s (Suc req) f (10 ^ j) buffer len (- int j) = Some (Suc req, f, 10 ^ j, buffer, len, - int j)" by simp
    then show ?thesis by blast
  next
    case True
    let ?q = "f * 10 div 2 ^ s" and ?r = "f * 10 mod 2 ^ s"
    have "(2 :: nat) ^ s \<le> 2 ^ 60" using s by (intro power_increasing) auto
    then have "f * 10 < 2 ^ 64" "(10 :: nat) ^ j * 10 < 2 ^ 64" using Suc.prems(3) True by simp_all
    then have uint: "uint64 (f * 10) = f * 10" "uint64 (10 ^ j * 10) = 10 ^ Suc j" by (simp_all add: cast_id mult.commute)
    have q: "?q \<le> 9" using less_mult_imp_div_less [of "f * 10" 10 "2 ^ s"] Suc.prems(3) by simp
    have qr: "?q * 2 ^ s + ?r = f * 10" by (rule div_mult_mod_eq)
    have DT: "dec (ds @ [?q]) * 2 ^ s + ?r = X * 10 ^ Suc j"
    proof -
      have "dec (ds @ [?q]) * 2 ^ s + ?r = 10 * (dec ds * 2 ^ s) + (?q * 2 ^ s + ?r)" unfolding dec_append by (simp only: add_mult_distrib mult.assoc add.assoc)
      also have "\<dots> = 10 * (dec ds * 2 ^ s + f)" unfolding qr by simp
      finally show ?thesis unfolding Suc.prems(4) by simp
    qed
    have lt: "len < length buffer" using Suc.prems(2) by simp
    note put = holds_put [OF Suc.prems(1) lt q]
    let ?b = "buffer[len := 48 + ?q]"
    have k: "- int j - 1 = - int (Suc j)" by simp
    have step: "counted_fraction s (Suc req) f (10 ^ j) buffer len (- int j) = counted_fraction s req ?r (10 ^ Suc j) ?b (Suc len) (- int (Suc j))"
      using True put(1) unfolding k [symmetric] by (simp only: counted_fraction.simps uint Let_def) simp
    have "(ds @ [?q]) ! 0 \<noteq> 0" using Suc.prems(5,6) by (simp add: nth_append)
    then show ?thesis unfolding step
      using Suc.IH [of ?b "Suc len" "ds @ [?q]" ?r "Suc j"] put(2) Suc.prems(2) DT True by fastforce
  qed
qed

lemma DigitGenCounted_ok:
  assumes e: "-60 \<le> fp_e w" "fp_e w \<le> -32" and f: "2 ^ 60 \<le> unat (fp_f w)" and n: "1 \<le> n" "n \<le> length buffer"
  shows "\<exists>ok buffer' len kappa. DigitGenCounted w (int n) buffer = Some (ok, buffer', len, kappa) \<and> length buffer' = length buffer \<and>
    (ok \<longrightarrow> len = n \<and> (\<exists>ds. holds buffer' n ds \<and> counted_ok (nat (- fp_e w)) (unat (fp_f w)) ds kappa))"
proof -
  define H s where "H = unat (fp_f w)" and "s = nat (- fp_e w)"
  have s: "32 \<le> s" "s \<le> 60" using e by (auto simp: s_def)
  have H64: "H < 2 ^ 64" using unsigned_less [of "fp_f w"] by (simp add: H_def)
  define N F where "N = H div 2 ^ s" and "F = H mod 2 ^ s"
  have NF: "N * 2 ^ s + F = H" "F < 2 ^ s" unfolding N_def F_def by (rule div_mult_mod_eq, simp)
  obtain k where k: "BiggestPowerTen N (64 - int s) = Some (10 ^ k, int k)" "10 ^ k \<le> N" "N < 10 ^ Suc k" and u32: "uint32 N = N"
    using integral_part [OF s _ H64] f unfolding H_def N_def by blast
  have nk: "nat (int k + 1) = Suc k" by simp
  let ?loop = "counted_integral (Suc k) (int n) N (10 ^ k) buffer 0"
  have gen: "DigitGenCounted w (int n) buffer = ?loop \<bind> (\<lambda>(kappa, req, x, divisor, buffer, len).
      if req = 0 then RoundWeedCounted buffer len (uint64 (uint64 (x * 2 ^ s) + F)) (uint64 (divisor * 2 ^ s)) 1 (int kappa) \<bind>
        (\<lambda>(result, buffer, kappa). Some (result, buffer, len, kappa))
      else counted_fraction s (nat req) F 1 buffer len (int kappa) \<bind> (\<lambda>(missing, f, u, buffer, len, kappa).
        if req < 0 \<or> missing \<noteq> 0 then Some (False, buffer, len, kappa)
        else RoundWeedCounted buffer len f (2 ^ s) u kappa \<bind> (\<lambda>(result, buffer, kappa). Some (result, buffer, len, kappa))))"
    unfolding DigitGenCounted_def Let_def H_def [symmetric] s_def [symmetric] N_def [symmetric] F_def [symmetric] u32 k(1) using e
    by (simp only: kMinimalTargetExponent_def kMaximalTargetExponent_def simp_thms if_False Option.bind.simps prod.case nk)
  have "leading [] (Suc k) N" using k(2) by (simp add: leading_def)
  moreover have "holds buffer 0 []" by (simp add: holds_def)
  ultimately consider buffer' ds k' r where "?loop = Some (k', 0, r, 10 ^ k', buffer', n)" "length buffer' = length buffer" "holds buffer' n ds"
      "dec ds * 10 ^ k' + r = N" "r < 10 ^ k'" "ds ! 0 \<noteq> 0"
    | buffer' ds req r divisor where "?loop = Some (0, int req, r, divisor, buffer', length ds)" "length buffer' = length buffer" "holds buffer' (length ds) ds"
      "dec ds = N" "1 \<le> req" "length ds + req = n" "ds \<noteq> []" "ds ! 0 \<noteq> 0"
    using counted_integral_ok [of buffer 0 "[]" n N "Suc k" N "10 ^ k"] n k(3) by (simp del: power_Suc) blast
  then have "\<exists>ok buffer' len kappa. DigitGenCounted w (int n) buffer = Some (ok, buffer', len, kappa) \<and> length buffer' = length buffer \<and>
    (ok \<longrightarrow> len = n \<and> (\<exists>ds. holds buffer' n ds \<and> counted_ok s H ds kappa))"
  proof cases
    case 1
    let ?T = "10 ^ k' * 2 ^ s :: nat" and ?rest = "r * 2 ^ s + F"
    obtain n' where n': "n = Suc n'" using n(1) by (cases n) auto
    have eq: "dec ds * ?T + ?rest = H"
    proof -
      have "(dec ds * 10 ^ k' + r) * 2 ^ s + F = H" using 1(4) NF(1) by simp
      then show ?thesis by (simp only: add_mult_distrib mult.assoc add.assoc)
    qed
    have D: "10 ^ n' \<le> dec ds" "dec ds < 10 ^ Suc n'" using first_digit [of ds n'] dec_bound [of ds] 1(3,6) n' by (simp_all add: holds_def)
    then have "1 \<le> dec ds" using one_le_power [of "10 :: nat" n'] by linarith
    then have "?T \<le> H" using eq mult_le_mono1 [of 1 "dec ds" ?T] by linarith
    then have uT: "uint64 (10 ^ k' * 2 ^ s) = ?T" "?T < 2 ^ 64" using H64 by (simp_all add: cast_id)
    have uR: "uint64 (uint64 (r * 2 ^ s) + F) = ?rest" using eq H64 by (simp add: cast_id)
    have "(r + 1) * 2 ^ s \<le> 10 ^ k' * 2 ^ s" using 1(5) by (intro mult_le_mono1) simp
    then have rT: "?rest < ?T" using NF(2) by simp
    obtain ok b kappa where r: "RoundWeedCounted buffer' n ?rest ?T 1 (int k') = Some (ok, b, kappa)" "length b = length buffer'"
        "ok \<Longrightarrow> \<exists>ds' c. holds b n ds' \<and> ds' ! 0 \<noteq> 0 \<and> int k' \<le> kappa \<and> real (dec ds') * 10 powi kappa = (real (dec ds) + real c) * 10 powi int k' \<and>
          2 * 1 < ?T \<and> (c = 0 \<and> 2 * (?rest + 1) \<le> ?T \<or> c = 1 \<and> ?T + 2 * 1 \<le> 2 * ?rest)"
      using RoundWeedCounted_ok [OF rT uT(2) 1(3) [unfolded n'] 1(6), of 1 "int k'"] n' by blast
    have "DigitGenCounted w (int n) buffer = Some (ok, b, n, kappa)" unfolding gen using 1(1) r(1) uT(1) uR by simp
    moreover have "\<exists>ds. holds b n ds \<and> counted_ok s H ds kappa" if good: ok
    proof -
      obtain ds' c where d: "holds b n ds'" "ds' ! 0 \<noteq> 0" "int k' \<le> kappa" "real (dec ds') * 10 powi kappa = (real (dec ds) + real c) * 10 powi int k'"
          "2 * 1 < ?T" "c = 0 \<and> 2 * (?rest + 1) \<le> ?T \<or> c = 1 \<and> ?T + 2 * 1 \<le> 2 * ?rest" using r(3) [OF good] by blast
      have eq': "dec ds * ?T + ?rest = H * 1" "0 < (1 :: nat)" "real ?T = 10 powi int k' * 2 ^ s * real 1" using eq by simp_all
      have "length ds' = Suc n'" using d(1) n' by (simp add: holds_def)
      moreover have "20 * 1 \<le> ?T + 20 * ?rest"
      proof -
        have "1 * 2 ^ 32 \<le> ?T" using s(1) by (intro mult_le_mono power_increasing) auto
        then show ?thesis by simp
      qed
      ultimately show ?thesis using counted_okI [OF eq' d(5,6) rT d(4,2) _ D] d(1) by blast
    qed
    ultimately show ?thesis using r(2) 1(2) by auto
  next
    case 2
    have st: "dec ds * 2 ^ s + F = H * 10 ^ 0" "length ds + req \<le> length buffer'" using 2 NF n(2) by simp_all
    obtain missing f' j b len' where c: "counted_fraction s req F (10 ^ 0) buffer' (length ds) (- int 0) = Some (missing, f', 10 ^ j, b, len', - int j)"
        "length b = length buffer'" "missing = 0 \<longrightarrow> len' = n \<and> f' < 2 ^ s \<and> j = req \<and> (0 < req \<longrightarrow> 10 ^ 0 < F) \<and> (\<exists>ds'. holds b n ds' \<and> dec ds' * 2 ^ s + f' = H * 10 ^ j \<and> ds' ! 0 \<noteq> 0)"
      using counted_fraction_ok [OF s(2) 2(3) st(2) NF(2) st(1) 2(7,8)] unfolding 2(6) add_0 by blast
    show ?thesis
    proof (cases "missing = 0")
      case False
      then have "DigitGenCounted w (int n) buffer = Some (False, b, len', - int j)" unfolding gen using 2(1,5) c(1) by simp
      then show ?thesis using c(2) 2(2) by (intro exI3 [of _ False b len'] exI [of _ "- int j"]) simp
    next
      case True
      then obtain ds' where d: "len' = n" "f' < 2 ^ s" "holds b n ds'" "dec ds' * 2 ^ s + f' = H * 10 ^ j" "ds' ! 0 \<noteq> 0" and j: "j = req" "1 < F"
        using c(3) 2(5) by auto
      obtain n' where n': "n = Suc n'" using n(1) by (cases n) auto
      have D: "10 ^ n' \<le> dec ds'" "dec ds' < 10 ^ Suc n'" using first_digit [of ds' n'] dec_bound [of ds'] d(3,5) n' by (simp_all add: holds_def)
      have far: "10 ^ j \<le> f'" if "dec ds' = 10 ^ n'"
      proof (rule ccontr)
        assume small: "\<not> 10 ^ j \<le> f'"
        obtain l where l: "length ds = Suc l" using 2(7) by (cases ds) auto
        have "n' = l + j" using 2(6) l n' j(1) by simp
        then have "H * 10 ^ j = f' + 10 ^ l * 2 ^ s * 10 ^ j" using d(4) that by (simp add: power_add algebra_simps)
        then have "H * 10 ^ j div 10 ^ j = 10 ^ l * 2 ^ s" using small by simp
        then have "N * 2 ^ s + F = 10 ^ l * 2 ^ s" using NF(1) by simp
        then have "(N * 2 ^ s + F) mod 2 ^ s = 0" by simp
        then show False using NF(2) j(2) by simp
      qed
      have "(2 :: nat) ^ s < 2 ^ 64" using s(2) by (intro power_strict_increasing) auto
      then obtain ok b' kappa where r: "RoundWeedCounted b n f' (2 ^ s) (10 ^ j) (- int j) = Some (ok, b', kappa)" "length b' = length b"
          "ok \<Longrightarrow> \<exists>ds c. holds b' n ds \<and> ds ! 0 \<noteq> 0 \<and> - int j \<le> kappa \<and> real (dec ds) * 10 powi kappa = (real (dec ds') + real c) * 10 powi (- int j) \<and>
            2 * 10 ^ j < (2 :: nat) ^ s \<and> (c = 0 \<and> 2 * (f' + 10 ^ j) \<le> 2 ^ s \<or> c = 1 \<and> 2 ^ s + 2 * 10 ^ j \<le> 2 * f')"
        using RoundWeedCounted_ok [OF d(2) _ d(3) [unfolded n'] d(5), of "10 ^ j" "- int j"] n' by blast
      have "DigitGenCounted w (int n) buffer = Some (ok, b', n, kappa)" unfolding gen using 2(1,5) c(1) True d(1) r(1) by simp
      moreover have "\<exists>ds. holds b' n ds \<and> counted_ok s H ds kappa" if good: ok
      proof -
        obtain ds c where q: "holds b' n ds" "ds ! 0 \<noteq> 0" "- int j \<le> kappa" "real (dec ds) * 10 powi kappa = (real (dec ds') + real c) * 10 powi (- int j)"
            "2 * 10 ^ j < (2 :: nat) ^ s" "c = 0 \<and> 2 * (f' + 10 ^ j) \<le> 2 ^ s \<or> c = 1 \<and> 2 ^ s + 2 * 10 ^ j \<le> 2 * f'" using r(3) [OF good] by blast
        have "0 < (10 :: nat) ^ j" "real (2 ^ s) = 10 powi (- int j) * 2 ^ s * real (10 ^ j)" unfolding power_int_minus power_int_of_nat by simp_all
        moreover have "length ds = Suc n'" using q(1) n' by (simp add: holds_def)
        moreover have "20 * 10 ^ j \<le> 2 ^ s + 20 * f'" if "dec ds' = 10 ^ n'" using far [OF that] by simp
        ultimately show ?thesis using counted_okI [OF d(4) _ _ q(5,6) d(2) q(4,2) _ D] q(1) by blast
      qed
      ultimately show ?thesis using r(2) c(2) 2(2) by auto
    qed
  qed
  then show ?thesis by (simp only: H_def s_def)
qed

end
