(* ===== verification/Fast_Dtoa_Correct.thy ===== *)
theory Fast_Dtoa_Correct
  imports Grisu_Counted
begin

text \<open>
  \<^verbatim>\<open>src/fast-dtoa.cc\<close> as a whole: the scaled number and boundaries are off by less than a unit in the last place, and when the
  conversion succeeds, its digits have the properties of those of the exact conversion.
\<close>

section \<open>The double and its boundaries with 64 bits\<close>

lemma unat64: "unat (x :: 64 word) < 2 ^ 64" using unsigned_less [of x, where 'a = nat] by simp

lemma real64: "real (unat (x :: 64 word)) < 2 ^ 64"
proof -
  have "real (unat x) < real (2 ^ 64)" using unat64 by (simp only: of_nat_less_iff)
  then show ?thesis by simp
qed

lemma normalized_unique:
  fixes x y :: nat
  assumes "real x * 2 powi a = real y * 2 powi b" "2 ^ 63 \<le> x" "x < 2 ^ 64" "2 ^ 63 \<le> y" "y < 2 ^ 64"
  shows "a = b" "x = y"
proof -
  have "b \<le> a" if "real x * 2 powi a = real y * 2 powi b" "2 ^ 63 \<le> x" "y < 2 ^ 64" "x < 2 ^ 64" "2 ^ 63 \<le> y" for x y :: nat and a b
  proof (rule ccontr)
    assume "\<not> b \<le> a"
    then have "a + 1 \<le> b" by simp
    then have "(2 :: real) powi (a + 1) \<le> 2 powi b" by (intro power_int_increasing) auto
    then have "real y * (2 * 2 powi a) \<le> real x * 2 powi a" using that(1) mult_left_mono [of "2 powi (a + 1)" "2 powi b" "real y"] by (simp add: power_int_add mult.commute)
    then have "(real y * 2) * 2 powi a \<le> real x * 2 powi a" by (simp add: mult.assoc)
    then have "real y * 2 \<le> real x" by (simp only: mult_le_cancel_right_pos zero_less_power_int zero_less_numeral)
    then have "y * 2 \<le> x" by linarith
    then show False using that by simp
  qed
  from this [of x a y b] this [of y b x a] show ab: "a = b" using assms by force
  show "x = y" using assms(1) by (simp add: ab)
qed

text \<open>
  In units in the last place of the normalized double: \<open>t\<close> is a quarter of the distance to the next double, the upper boundary is at
  twice that distance, the lower one too unless it is a power of two.
\<close>

lemma normalized_double:
  assumes v: "0 < v" "v < kInfinity"
  obtains w minus plus t where "AsNormalizedDiyFp v = Some w" "NormalizedBoundaries v = Some (minus, plus)" "fp_e plus = fp_e w" "fp_e minus = fp_e w"
    "-1137 \<le> fp_e w" "fp_e w \<le> 960" "2 ^ 63 \<le> unat (fp_f w)" "512 \<le> t" "4 * t \<le> unat (fp_f w)"
    "unat (fp_f plus) = unat (fp_f w) + 2 * t" "unat (fp_f minus) + 2 * t = unat (fp_f w) \<or> unat (fp_f minus) + t = unat (fp_f w)"
    "unat (fp_f plus) \<le> (unat (fp_f plus) - unat (fp_f minus)) * 2 ^ 53"
    "fp_value w = double_value v" "fp_value minus = lower_midpoint v" "fp_value plus = upper_midpoint v"
proof -
  define f E where "f = unat (Significand v)" and "E = Exponent v"
  have le: "v \<le> kInfinity" using v(2) by simp
  have f: "0 < f" "f < 2 ^ 53" and E: "-1074 \<le> E" "E \<le> 971" using finite_fields [OF v] by (simp_all add: f_def E_def)
  have nz: "Significand v \<noteq> 0" using f(1) by (simp add: f_def unat_eq_0 [symmetric])
  obtain a where a: "shift_until kHiddenBit 1 (Significand v) E = Some (push_bit a (Significand v), E - int a)"
      "unat (push_bit a (Significand v)) = f * 2 ^ a" "2 ^ 52 \<le> f * 2 ^ a" "f * 2 ^ a < 2 ^ 53"
    using shift_until_correct [of 52 1 kHiddenBit "Significand v" E] hidden_bit_clear f nz by (auto simp: f_def)
  have a52: "a \<le> 52"
  proof (rule ccontr)
    assume "\<not> a \<le> 52"
    then have "(2 :: nat) ^ 53 \<le> 2 ^ a" by (intro power_increasing) auto
    then show False using a(4) f(1) mult_le_mono [of 1 f "2 ^ 53" "2 ^ a"] by simp
  qed
  define w where "w = DiyFp (push_bit 11 (push_bit a (Significand v))) (E - int a - 11)"
  have w: "AsNormalizedDiyFp v = Some w" using a(1) by (simp add: AsNormalizedDiyFp_def kSignificandSize_def E_def w_def)
  have uw: "unat (fp_f w) = f * 2 ^ a * 2 ^ 11"
    using unat_push_bit [of "push_bit a (Significand v)" 11] a(2,4) by (simp add: w_def DiyFp_def)
  have ew: "fp_e w = E - int a - 11" by (simp add: w_def DiyFp_def)
  have w63: "2 ^ 63 \<le> unat (fp_f w)" unfolding uw using a(3) by simp
  define t where "t = 2 ^ a * (512 :: nat)"
  have t: "512 \<le> t" "unat (fp_f w) = f * (4 * t)" by (simp_all add: t_def uw)
  have u: "(2 :: real) powi E = 4 * real t * 2 powi fp_e w" by (simp add: ew t_def power_int_diff)
  have vw: "fp_value w = double_value v" unfolding fp_value_def double_value_def t(2) f_def [symmetric] E_def [symmetric] u by simp
  obtain minus plus where b: "NormalizedBoundaries v = Some (minus, plus)" "fp_e minus = fp_e plus" "2 ^ 63 \<le> unat (fp_f plus)"
      "fp_value plus = upper_midpoint v" "fp_value minus = lower_midpoint v"
    using NormalizedBoundaries_are_midpoints [OF v] unfolding upper_midpoint_def lower_midpoint_def by blast
  have up: "upper_midpoint v = real (f * (4 * t) + 2 * t) * 2 powi fp_e w"
    unfolding upper_midpoint_eq [OF v(2)] vw [symmetric] fp_value_def t(2) E_def [symmetric] u by (simp add: algebra_simps)
  have "f * 2 ^ a + 1 \<le> 2 ^ 53" using a(4) by simp
  then have top: "f * (4 * t) + 2 * t < 2 ^ 64"
  proof -
    have "(f + 1) * 2 ^ a \<le> 2 ^ 53"
    proof -
      have p: "(2 :: nat) ^ 53 = 2 ^ (53 - a) * 2 ^ a" using a52 by (simp flip: power_add)
      have "f < 2 ^ (53 - a)" using a(4) unfolding p by simp
      then have "(f + 1) * 2 ^ a \<le> 2 ^ (53 - a) * 2 ^ a" by (intro mult_le_mono1) simp
      then show ?thesis using p by simp
    qed
    then have "(f + 1) * (4 * t) \<le> 2 ^ 64" by (simp add: t_def)
    then show ?thesis using t(1) by simp
  qed
  have plus: "fp_e plus = fp_e w" "unat (fp_f plus) = f * (4 * t) + 2 * t"
    using normalized_unique [of "unat (fp_f plus)" "fp_e plus" "f * (4 * t) + 2 * t" "fp_e w"] b(3,4) up top w63 t(2) unat64 [of "fp_f plus"]
    by (simp_all add: fp_value_def)
  have lo: "lower_midpoint v = real (unat (fp_f minus)) * 2 powi fp_e w" using b(2,5) plus(1) by (simp add: fp_value_def)
  have cl: "lower_closer v \<Longrightarrow> f = 2 ^ 52" using significand_is_zero_iff [OF le] by (simp add: f_def kHiddenBit_def)
  define x where "x = (if lower_closer v then t else 2 * t)"
  have x: "x \<le> f * (4 * t)" using f(1) t(1) by (auto simp: x_def)
  have "real (unat (fp_f minus)) * 2 powi fp_e w = real (f * (4 * t) - x) * 2 powi fp_e w"
    unfolding lo [symmetric] lower_midpoint_eq [OF v] vw [symmetric] fp_value_def t(2) E_def [symmetric] u of_nat_diff [OF x]
    by (simp add: x_def algebra_simps)
  then have minus: "unat (fp_f minus) = f * (4 * t) - x" by (simp del: of_nat_unat)
  have d: "f * (4 * t) + 2 * t - (f * (4 * t) - x) = 2 * t + x" using x by simp
  have wide: "unat (fp_f plus) \<le> (unat (fp_f plus) - unat (fp_f minus)) * 2 ^ 53"
  proof (cases "lower_closer v")
    case True
    then show ?thesis unfolding plus(2) minus d using cl by (simp add: x_def)
  next
    case False
    have "f * (4 * t) + 2 * t \<le> 2 ^ 53 * (4 * t)" using mult_le_mono1 [of "f + 1" "2 ^ 53" "4 * t"] f(2) by simp
    then show ?thesis unfolding plus(2) minus d using False by (simp add: x_def)
  qed
  show ?thesis
  proof (rule that [OF w b(1) plus(1) _ _ _ w63 t(1) _ _ _ wide vw b(5,4)])
    show "4 * t \<le> unat (fp_f w)" unfolding t(2) using f(1) by simp
    show "fp_e minus = fp_e w" "-1137 \<le> fp_e w" "fp_e w \<le> 960" using b(2) plus(1) ew E a52 by simp_all
    show "unat (fp_f plus) = unat (fp_f w) + 2 * t" using plus(2) t(2) by simp
    show "unat (fp_f minus) + 2 * t = unat (fp_f w) \<or> unat (fp_f minus) + t = unat (fp_f w)" using minus x t(2) by (auto simp: x_def)
  qed
qed

section \<open>Scaling\<close>

text \<open>The product with a cached power is off by less than one unit in its last place.\<close>

lemma Times_error:
  assumes c: "ten_power c mk"
  shows "\<bar>real (unat (fp_f (DiyFp_Times x c))) - fp_value x * (10 powi mk / 2 powi (fp_e x + fp_e c + 64))\<bar> < 1"
proof -
  define F C q where "F = unat (fp_f x)" and "C = unat (fp_f c)" and "q = 10 powi mk / 2 powi fp_e c - real C"
  let ?R = "unat (fp_f (DiyFp_Times x c))"
  have F: "real F < 2 ^ 64" unfolding F_def by (rule real64)
  have p: "0 < (2 :: real) powi fp_e c" by simp
  have "\<bar>real C * 2 powi fp_e c - 10 powi mk\<bar> \<le> 2 powi fp_e c / 2" using c by (simp add: ten_power_def fp_value_def C_def)
  then have "\<bar>real C - 10 powi mk / 2 powi fp_e c\<bar> * 2 powi fp_e c \<le> 1 / 2 * 2 powi fp_e c" using p by (simp add: abs_mult flip: abs_mult_pos' add: field_simps)
  then have q: "\<bar>q\<bar> \<le> 1 / 2" using p by (simp only: mult_le_cancel_right_pos q_def abs_minus_commute)
  have "?R = (F * C + 2 ^ 63) div 2 ^ 64" by (simp add: DiyFp_Times_def DiyFp_Multiply_f F_def C_def)
  then have "?R * 2 ^ 64 \<le> F * C + 2 ^ 63" "F * C + 2 ^ 63 < ?R * 2 ^ 64 + 2 ^ 64" using below_next_multiple [of "2 ^ 64" "F * C + 2 ^ 63"] by (metis div_times_less_eq_dividend, simp)
  then have "real (?R * 2 ^ 64) \<le> real (F * C + 2 ^ 63)" "real (F * C + 2 ^ 63) < real (?R * 2 ^ 64 + 2 ^ 64)" by (simp_all only: of_nat_le_iff of_nat_less_iff)
  then have e: "\<bar>real ?R * 2 ^ 64 - real F * real C\<bar> \<le> 2 ^ 63" by (simp add: abs_le_iff)
  have Fq: "\<bar>real F * q\<bar> < 2 ^ 63"
  proof -
    have "\<bar>real F * q\<bar> \<le> real F * (1 / 2)" using q by (simp only: abs_mult abs_of_nat) (intro mult_left_mono, simp_all)
    then show ?thesis using F by simp
  qed
  have "fp_value x * (10 powi mk / 2 powi (fp_e x + fp_e c + 64)) = real F * (real C + q) / 2 ^ 64"
    by (simp add: fp_value_def F_def q_def power_int_add)
  moreover have "\<bar>real ?R * 2 ^ 64 - real F * (real C + q)\<bar> < 2 ^ 64" using e Fq by (simp add: algebra_simps)
  ultimately show ?thesis by (simp only:) (simp add: abs_less_iff field_simps del: of_nat_unat)
qed

lemma Times_mono:
  "fp_f x \<le> fp_f y \<Longrightarrow> unat (fp_f (DiyFp_Times x c)) \<le> unat (fp_f (DiyFp_Times y c))"
  by (simp add: DiyFp_Times_def DiyFp_Multiply_f word_le_nat_alt div_le_mono)

lemma Times_far:
  assumes "unat (fp_f x) + 6 \<le> unat (fp_f y)" "2 ^ 63 \<le> unat (fp_f c)"
  shows "unat (fp_f (DiyFp_Times x c)) + 2 \<le> unat (fp_f (DiyFp_Times y c))"
proof -
  let ?a = "unat (fp_f x)" and ?b = "unat (fp_f y)" and ?c = "unat (fp_f c)"
  have "(?a + 6) * ?c \<le> ?b * ?c" using assms(1) by (rule mult_le_mono1)
  then have "(?a * ?c + 2 ^ 63) + 2 * 2 ^ 64 \<le> ?b * ?c + 2 ^ 63" using assms(2) by (simp add: add_mult_distrib)
  then have "((?a * ?c + 2 ^ 63) + 2 * 2 ^ 64) div 2 ^ 64 \<le> (?b * ?c + 2 ^ 63) div 2 ^ 64" by (rule div_le_mono)
  moreover have "((?a * ?c + 2 ^ 63) + 2 * 2 ^ 64) div 2 ^ 64 = (?a * ?c + 2 ^ 63) div 2 ^ 64 + 2" by simp
  ultimately show ?thesis by (simp add: DiyFp_Times_def DiyFp_Multiply_f)
qed

lemma Times_bounds:
  assumes "2 ^ 62 \<le> unat (fp_f x)" "2 ^ 63 \<le> unat (fp_f c)"
  shows "2 ^ 61 \<le> unat (fp_f (DiyFp_Times x c))" "unat (fp_f (DiyFp_Times x c)) + 1 < 2 ^ 64"
proof -
  let ?a = "unat (fp_f x)" and ?c = "unat (fp_f c)"
  have "2 ^ 62 * 2 ^ 63 \<le> ?a * ?c" using assms by (rule mult_le_mono)
  then have "(2 ^ 61 * 2 ^ 64) div 2 ^ 64 \<le> (?a * ?c + 2 ^ 63) div 2 ^ 64" by (intro div_le_mono) simp
  then show "2 ^ 61 \<le> unat (fp_f (DiyFp_Times x c))" by (simp add: DiyFp_Times_def DiyFp_Multiply_f)
  have "?a \<le> 2 ^ 64 - 1" "?c \<le> 2 ^ 64 - 1" using unat64 [of "fp_f x"] unat64 [of "fp_f c"] by simp_all
  then have "?a * ?c \<le> (2 ^ 64 - 1) * (2 ^ 64 - 1)" by (rule mult_le_mono)
  then have "?a * ?c + 2 ^ 63 < (2 ^ 64 - 1) * 2 ^ 64" by simp
  then have "(?a * ?c + 2 ^ 63) div 2 ^ 64 < 2 ^ 64 - 1" by (rule less_mult_imp_div_less)
  then show "unat (fp_f (DiyFp_Times x c)) + 1 < 2 ^ 64" by (simp add: DiyFp_Times_def DiyFp_Multiply_f)
qed

lemma scaling_power_ok:
  assumes "-1137 \<le> fp_e w" "fp_e w \<le> 960"
  obtains c mk where "scaling_power w = Some (c, mk)" "ten_power c mk" "-60 \<le> fp_e w + fp_e c + 64" "fp_e w + fp_e c + 64 \<le> -32"
proof -
  have r: "-1084 \<le> -60 - (fp_e w + 64)" "-60 - (fp_e w + 64) \<le> 1013" "-32 - (fp_e w + 64) = -60 - (fp_e w + 64) + 28" using assms by simp_all
  obtain c mk where c: "GetCachedPowerForBinaryExponentRange (-60 - (fp_e w + 64)) (-32 - (fp_e w + 64)) = Some (c, mk)" "ten_power c mk"
      "-60 - (fp_e w + 64) \<le> fp_e c" "fp_e c \<le> -32 - (fp_e w + 64)"
    using GetCachedPowerForBinaryExponentRange_ok [OF r] .
  then have "scaling_power w = Some (c, mk)" unfolding scaling_power_def Let_def kMinimalTargetExponent_def kMaximalTargetExponent_def by simp
  then show ?thesis using that c by simp
qed

section \<open>The shortest digits\<close>

text \<open>Digits that the weeding accepts, for a number and boundaries that the approximations stand for up to one unit.\<close>

lemma generated_shortest:
  fixes low w high :: nat and g :: real
  assumes g: "generated s (high + 1) (high - low + 2) (high + 1 - w) es d m kappa" and lw: "1 \<le> low" "low \<le> w" "w \<le> high"
    and gain: "g = 10 powi mk * 2 ^ s"
    and V: "\<bar>real w - double_value v * g\<bar> < 1" and Lo: "\<bar>real low - lower_midpoint v * g\<bar> < 1" and Hi: "\<bar>real high - upper_midpoint v * g\<bar> < 1"
  shows "shortest_decimal v (es @ [d - m]) (int (Suc (length es)) + (kappa - mk))"
proof -
  obtain unit T rest where T: "real T = 10 powi kappa * 2 ^ s * real unit" "0 < unit"
      and st: "stopped_at ((high + 1) * unit) ((high - low + 2) * unit) es d T rest" and m: "m \<le> d"
      and wd: "weeded ((high + 1 - w) * unit - unit) ((high + 1 - w) * unit + unit) ((high - low + 2) * unit) T unit m (rest + m * T)"
    using g unfolding generated_def by blast
  define S where "S = g * real unit"
  define u where "u = real unit"
  define R where "R = rest + m * T"
  let ?D = "dec (es @ [d - m])" and ?H = "(high + 1) * unit" and ?I = "(high - low + 2) * unit"
  let ?W = "(high + 1 - w) * unit" and ?e = "10 powi (kappa - mk) :: real"
  have u: "0 < u" using T(2) by (simp add: u_def)
  have S: "0 < S" using T(2) by (simp add: S_def gain)
  have e: "?e * S = real T" by (simp add: T(1) S_def gain power_int_diff)
  have T0: "0 < T"
  proof -
    have "0 < real T" unfolding T(1) using T(2) by simp
    then show ?thesis by simp
  qed
  note st' = st [unfolded stopped_at_def]
  have DT: "?D * T + R = ?H"
  proof -
    have "dec (es @ [d]) * T + rest = (dec (es @ [d - m]) + m) * T + rest" unfolding dec_append using m by simp
    then show ?thesis using st' by (simp add: R_def add_mult_distrib)
  qed
  have rH: "real ?H = (real high + 1) * u" "real ?I = (real high - real low + 2) * u" "real ?W = (real high + 1 - real w) * u"
  proof -
    have "real (high - low + 2) = real high - real low + 2" "real (high + 1 - w) = real high + 1 - real w" "real (high + 1) = real high + 1"
      using lw by (simp_all add: of_nat_diff)
    then show "real ?H = (real high + 1) * u" "real ?I = (real high - real low + 2) * u" "real ?W = (real high + 1 - real w) * u"
      by (simp_all only: u_def of_nat_mult)
  qed
  have scale: "a * u - u < x * S" "x * S < a * u + u" if "\<bar>a - x * g\<bar> < 1" for a x
  proof -
    have "(a - 1) * u < x * g * u" "x * g * u < (a + 1) * u" using that u by (auto intro!: mult_strict_right_mono simp: abs_less_iff)
    then show "a * u - u < x * S" "x * S < a * u + u" by (simp_all add: S_def u_def algebra_simps)
  qed
  note sV = scale [OF V] and sLo = scale [OF Lo] and sHi = scale [OF Hi]
  have smallW: "real (?W - unit) = real ?W - u" "real (?W + unit) = real ?W + u"
  proof -
    have "1 * unit \<le> ?W" using lw by (intro mult_le_mono1) simp
    then show "real (?W - unit) = real ?W - u" "real (?W + unit) = real ?W + u" by (simp_all add: u_def of_nat_diff)
  qed
  have lo: "real ?H - real ?I < lower_midpoint v * S" unfolding rH using sLo by (simp add: algebra_simps)
  have hi: "upper_midpoint v * S < real ?H" unfolding rH using sHi by (simp add: algebra_simps)
  have between: "real ?H - real (?W + unit) < double_value v * S" "double_value v * S < real ?H - real (?W - unit)"
    unfolding smallW rH using sV by (simp_all add: algebra_simps)
  have wd': "2 * u \<le> real R" "real R + 4 * u \<le> real ?I"
  proof -
    have "2 * unit \<le> R" "R + 4 * unit \<le> ?I" using wd by (simp_all add: weeded_def R_def)
    then have "real (2 * unit) \<le> real R" "real (R + 4 * unit) \<le> real ?I" by (simp_all only: of_nat_le_iff)
    then show "2 * u \<le> real R" "real R + 4 * u \<le> real ?I" by (simp_all add: u_def)
  qed
  have DTr: "real ?D * real T = real ?H - real R" using arg_cong [OF DT, of real] by simp
  have Dv: "real ?D * ?e * S = real ?H - real R" using DTr e by (simp add: mult.assoc)
  have reads: "lower_midpoint v < real ?D * ?e" "real ?D * ?e < upper_midpoint v"
  proof -
    have "lower_midpoint v * S < real ?D * ?e * S" unfolding Dv using wd'(2) sLo(2) u unfolding rH by (simp add: algebra_simps)
    then show "lower_midpoint v < real ?D * ?e" using S by (simp only: mult_less_cancel_right_pos)
    have "real ?D * ?e * S < upper_midpoint v * S" unfolding Dv using wd'(1) sHi(1) u unfolding rH by (simp add: algebra_simps)
    then show "real ?D * ?e < upper_midpoint v" using S by (simp only: mult_less_cancel_right_pos)
  qed
  have inside: "lower_midpoint v * S \<le> of_int X * real c * real T" "of_int X * real c * real T \<le> upper_midpoint v * S" if "reads_as v (of_int X * (real c * ?e))" for X c
  proof -
    have "lower_midpoint v \<le> of_int X * (real c * ?e)" "of_int X * (real c * ?e) \<le> upper_midpoint v" using that by (auto simp: reads_as_def split: if_splits)
    then have "lower_midpoint v * S \<le> of_int X * (real c * ?e) * S" "of_int X * (real c * ?e) * S \<le> upper_midpoint v * S"
      using S by (simp_all only: mult_le_cancel_right_pos)
    then show "lower_midpoint v * S \<le> of_int X * real c * real T" "of_int X * real c * real T \<le> upper_midpoint v * S"
      unfolding e [symmetric] by (simp_all only: mult.assoc)
  qed
  have closest: "\<bar>real ?D * ?e - double_value v\<bar> \<le> \<bar>of_int X * ?e - double_value v\<bar>" if X: "reads_as v (of_int X * ?e)" for X
  proof -
    have ins: "lower_midpoint v * S \<le> of_int X * real T" "of_int X * real T \<le> upper_midpoint v * S" using inside [of X 1] X by simp_all
    have first: "m = 0 \<Longrightarrow> R < T" using st' by (simp add: R_def)
    have "\<bar>real (?D * T) - double_value v * S\<bar> \<le> \<bar>of_int X * real T - double_value v * S\<bar>"
      by (rule weeded_closest [OF wd [folded R_def] DT T0 between lo hi first ins])
    then have "\<bar>real ?D * ?e - double_value v\<bar> * S \<le> \<bar>of_int X * ?e - double_value v\<bar> * S"
      unfolding abs_mult_pos [OF less_imp_le [OF S]] left_diff_distrib mult.assoc e by simp
    then show ?thesis using S by (simp only: mult_le_cancel_right_pos)
  qed
  have finer: "\<not> reads_as v (of_int Y * (10 * ?e))" for Y :: int
  proof
    assume "reads_as v (of_int Y * (10 * ?e))"
    then have ins: "lower_midpoint v * S \<le> of_int Y * 10 * real T" "of_int Y * 10 * real T \<le> upper_midpoint v * S" using inside [of Y 10] by simp_all
    have "10 * dec es * T + (d * T + rest) = ?H" using st' by (simp add: dec_append add_mult_distrib)
    then have "real (10 * dec es * T + (d * T + rest)) = real ?H" by (rule arg_cong)
    then have sum: "real (dec es) * 10 * real T + (real d * real T + real rest) = real ?H" by simp
    have "real ?I \<le> real (d * T + rest)" using st' by (simp only: of_nat_le_iff)
    then have "real (dec es) * 10 * real T < of_int Y * 10 * real T" using sum ins(1) lo by simp
    then have "of_int (int (dec es)) < (of_int Y :: real)" using T0 by simp
    then have "int (dec es) + 1 \<le> Y" by (simp only: of_int_less_iff zless_imp_add1_zle)
    then have "of_int (int (dec es) + 1) \<le> (of_int Y :: real)" by (simp only: of_int_le_iff)
    then have "real (dec es) + 1 \<le> of_int Y" by simp
    then have "(real (dec es) + 1) * (10 * real T) \<le> of_int Y * (10 * real T)" by (rule mult_right_mono) simp
    moreover have "d * T + rest < 9 * T + T" using st' mult_le_mono1 [of d 9 T] by linarith
    then have "real d * real T + real rest < 10 * real T" using of_nat_less_iff [of "d * T + rest" "9 * T + T", where 'a = real] by simp
    ultimately show False using sum ins(2) hi by (simp add: algebra_simps)
  qed
  have p: "int (Suc (length es)) + (kappa - mk) - int (length (es @ [d - m])) = kappa - mk" by simp
  show ?thesis unfolding shortest_decimal_def decimal_def p Let_def using reads closest finer by (simp add: reads_as_def)
qed

lemma room_for_digits:
  fixes high low :: nat and a P :: real
  assumes "P \<le> a * 2 ^ 53" "real high < P + 1" "2 ^ 61 \<le> high" "low \<le> high" "a < real high - real low + 2"
  shows "10 * (high + 1) < 10 ^ 17 * (high - low + 2)"
proof -
  have "real (2 ^ 61) \<le> real high" using assms(3) by (simp only: of_nat_le_iff)
  then have "10 * (real high + 1) < 100000000000000000 * (real high - real low + 2)" using assms(1,2,5) by simp
  then have "real (10 * (high + 1)) < real (100000000000000000 * (high - low + 2))" using assms(4) by (simp add: of_nat_diff)
  then show ?thesis by (simp only: of_nat_less_iff) simp
qed

lemma Times_e [simp]: "fp_e (DiyFp_Times x c) = fp_e x + fp_e c + 64"
  by (simp add: DiyFp_Times_def DiyFp_Multiply_def Let_def)

lemma gain_eq: "e \<le> 0 \<Longrightarrow> 10 powi mk / 2 powi e = 10 powi mk * (2 :: real) ^ nat (- e)"
  by (simp add: power_int_def power_one_over field_simps)

lemma Grisu3_ok:
  assumes v: "0 < v" "v < kInfinity" and b: "17 \<le> length buffer"
  obtains ok buffer' ds k where "Grisu3 v buffer = Some (ok, buffer', length ds, k)" "length buffer' = length buffer" "holds buffer' (length ds) ds"
    "1 \<le> length ds" "length ds \<le> 17" "ok \<Longrightarrow> shortest_decimal v ds (int (length ds) + k)"
proof -
  obtain w minus plus t where n: "AsNormalizedDiyFp v = Some w" "NormalizedBoundaries v = Some (minus, plus)" "fp_e plus = fp_e w" "fp_e minus = fp_e w"
      "-1137 \<le> fp_e w" "fp_e w \<le> 960" "2 ^ 63 \<le> unat (fp_f w)" "512 \<le> t" "4 * t \<le> unat (fp_f w)"
      "unat (fp_f plus) = unat (fp_f w) + 2 * t" "unat (fp_f minus) + 2 * t = unat (fp_f w) \<or> unat (fp_f minus) + t = unat (fp_f w)"
      "unat (fp_f plus) \<le> (unat (fp_f plus) - unat (fp_f minus)) * 2 ^ 53"
      "fp_value w = double_value v" "fp_value minus = lower_midpoint v" "fp_value plus = upper_midpoint v"
    using normalized_double [OF v] .
  obtain c mk where c: "scaling_power w = Some (c, mk)" "ten_power c mk" "-60 \<le> fp_e w + fp_e c + 64" "fp_e w + fp_e c + 64 \<le> -32"
    using scaling_power_ok [OF n(5,6)] .
  define e where "e = fp_e w + fp_e c + 64"
  define g where "g = (10 powi mk / 2 powi e :: real)"
  let ?low = "DiyFp_Times minus c" and ?w = "DiyFp_Times w c" and ?high = "DiyFp_Times plus c"
  let ?l = "unat (fp_f ?low)" and ?x = "unat (fp_f ?w)" and ?h = "unat (fp_f ?high)"
  have c63: "2 ^ 63 \<le> unat (fp_f c)" using c(2) by (simp add: ten_power_def)
  have m62: "2 ^ 62 \<le> unat (fp_f minus)" "unat (fp_f minus) + 6 \<le> unat (fp_f plus)" using n(7-11) by auto
  have le: "?l \<le> ?x" "?x \<le> ?h" "?l \<le> ?h" using Times_mono [of minus w c] Times_mono [of w plus c] Times_mono [of minus plus c] n(10,11) by (auto simp: word_le_nat_alt)
  have far: "?l + 2 \<le> ?h" using m62(2) c63 by (rule Times_far)
  have lb: "2 ^ 61 \<le> ?l" using Times_bounds(1) [OF m62(1) c63] .
  have hb: "2 ^ 61 \<le> ?h" "?h + 1 < 2 ^ 64" using Times_bounds [of plus c] n(7,10) c63 by simp_all
  have err: "\<bar>real ?l - lower_midpoint v * g\<bar> < 1" "\<bar>real ?x - double_value v * g\<bar> < 1" "\<bar>real ?h - upper_midpoint v * g\<bar> < 1"
    using Times_error [OF c(2), of minus] Times_error [OF c(2), of w] Times_error [OF c(2), of plus] unfolding n g_def e_def by simp_all
  have gain: "g = 10 powi mk * 2 ^ nat (- e)"
    unfolding g_def using c(4) by (intro gain_eq) (simp add: e_def)
  have room: "10 * (?h + 1) < 10 ^ 17 * (?h - ?l + 2)"
  proof (rule room_for_digits [OF _ _ hb(1) le(3)])
    have "real (unat (fp_f plus)) \<le> real ((unat (fp_f plus) - unat (fp_f minus)) * 2 ^ 53)" using n(12) by (simp only: of_nat_le_iff)
    moreover have "real (unat (fp_f plus) - unat (fp_f minus)) = real (unat (fp_f plus)) - real (unat (fp_f minus))" using m62 by (intro of_nat_diff) simp
    ultimately have "real (unat (fp_f plus)) \<le> (real (unat (fp_f plus)) - real (unat (fp_f minus))) * 2 ^ 53" by (simp del: of_nat_unat)
    then have "real (unat (fp_f plus)) * (2 powi fp_e w * g) \<le> (real (unat (fp_f plus)) - real (unat (fp_f minus))) * 2 ^ 53 * (2 powi fp_e w * g)"
      by (rule mult_right_mono) (simp add: g_def)
    then show "upper_midpoint v * g \<le> ((upper_midpoint v - lower_midpoint v) * g) * 2 ^ 53"
      unfolding n(14,15) [symmetric] fp_value_def n(3,4) by (simp only: left_diff_distrib right_diff_distrib mult.assoc mult.commute mult.left_commute)
    show "real ?h < upper_midpoint v * g + 1" using err(3) by linarith
    show "(upper_midpoint v - lower_midpoint v) * g < real ?h - real ?l + 2" using err(1,3) by (simp add: left_diff_distrib abs_less_iff del: of_nat_unat)
  qed
  obtain buffer' es d m ok kappa where dg: "DigitGen ?low ?w ?high buffer = Some (ok, buffer', Suc (length es), kappa)" "length buffer' = length buffer"
      "holds buffer' (Suc (length es)) (es @ [d - m])" "length es \<le> 16" "ok \<longrightarrow> generated (nat (- e)) (?h + 1) (?h - ?l + 2) (?h + 1 - ?x) es d m kappa"
    using DigitGen_ok [of ?low ?w ?high buffer] n(3,4) c(3,4) le far lb hb room b by (auto simp: e_def)
  show ?thesis
  proof (rule that [of ok buffer' "es @ [d - m]" "- mk + kappa"])
    show "Grisu3 v buffer = Some (ok, buffer', length (es @ [d - m]), - mk + kappa)" using n(1-3) c(1) dg(1) by (simp add: Grisu3_def)
    assume ok
    then show "shortest_decimal v (es @ [d - m]) (int (length (es @ [d - m])) + (- mk + kappa))"
      using generated_shortest [OF _ _ le(1,2) gain err(2,1,3), of es d m kappa] dg(5) lb by simp
  qed (use dg in simp_all)
qed

lemma not_special:
  assumes "v < kInfinity"
  shows "\<not> IsSpecial v" "0 \<le> Sign v"
proof -
  have n: "unat v < 2047 * 2 ^ 52" using assms unat_kInfinity by (simp add: word_less_nat_alt)
  have "unat (take_bit 11 (drop_bit 52 v)) = unat v div 2 ^ 52" using n by (intro unat_take_11) simp
  moreover have "unat v div 2 ^ 52 < 2047" using n by (intro less_mult_imp_div_less) simp
  ultimately have x: "unat (drop_bit 52 (v AND kExponentMask)) < 2047" by (simp only: exponent_field)
  show "\<not> IsSpecial v"
  proof
    assume "IsSpecial v"
    then have "drop_bit 52 (v AND kExponentMask) = 2047" by (simp add: IsSpecial_def kExponentMask_def)
    then show False using x by simp
  qed
  have "v AND push_bit 63 1 = 0" using mask_of_bit [of v 63] unat64 [of v] n by simp
  moreover have "kSignMask = push_bit 63 1" by (simp add: kSignMask_def)
  ultimately show "0 \<le> Sign v" by (simp add: Sign_def)
qed

lemma FastDtoa_shortest_ok:
  assumes v: "0 < v" "v < kInfinity" and b: "18 \<le> length buffer"
  obtains (fast) buffer' ds point where "FastDtoa v FAST_DTOA_SHORTEST requested_digits buffer = Some (buffer', Some (length ds, point))" "length buffer' = length buffer"
    "holds buffer' (length ds) ds" "buffer' ! length ds = 0" "1 \<le> length ds" "length ds \<le> 17" "shortest_decimal v ds point"
  | (slow) buffer' where "FastDtoa v FAST_DTOA_SHORTEST requested_digits buffer = Some (buffer', None)" "length buffer' = length buffer"
proof -
  obtain ok buffer' ds k where g: "Grisu3 v buffer = Some (ok, buffer', length ds, k)" "length buffer' = length buffer" "holds buffer' (length ds) ds"
    "1 \<le> length ds" "length ds \<le> 17" "ok \<Longrightarrow> shortest_decimal v ds (int (length ds) + k)"
    using Grisu3_ok [OF v le_trans [OF _ b], of thesis] by simp
  have sp: "\<not> (IsSpecial v \<or> v = 0 \<or> Sign v < 0)" using not_special [OF v(2)] v(1) by simp
  have put: "buffer_put buffer' (length ds) 0 = Some (buffer'[length ds := 0])" using g(2,5) b by (simp add: buffer_put_def)
  show ?thesis
  proof (cases ok)
    case True
    show ?thesis
    proof (rule fast [of "buffer'[length ds := 0]" ds "int (length ds) + k"])
      show "FastDtoa v FAST_DTOA_SHORTEST requested_digits buffer = Some (buffer'[length ds := 0], Some (length ds, int (length ds) + k))"
        using sp g(1) put True by (simp add: FastDtoa_def)
      show "holds (buffer'[length ds := 0]) (length ds) ds" using g(3) by (rule holds_cong) simp_all
    qed (use g b True in simp_all)
  next
    case False
    then show ?thesis using slow [of buffer'] sp g(1,2) by (simp add: FastDtoa_def)
  qed
qed

section \<open>A number of digits\<close>

text \<open>The digits of \<open>x\<close> rounded to as many significant digits; the first one is in the place before \<open>p\<close>.\<close>

definition precise_decimal :: "64 word \<Rightarrow> nat list \<Rightarrow> int \<Rightarrow> bool" where
  "precise_decimal v ds point \<longleftrightarrow>
     (\<exists>p. 10 powi (p - 1) \<le> double_value v \<and> double_value v < 10 powi p \<and> decimal ds point = rounded_to (p - int (length ds)) (double_value v))"

lemma rounded_to_shift: "rounded_to q (x * 10 powi m) = rounded_to (q - m) x * 10 powi m"
  by (simp add: rounded_to_def power_int_diff)

lemma counted_precise:
  assumes c: "counted_ok s X ds kappa" and V: "\<bar>real X - double_value v * (10 powi mk * 2 ^ s)\<bar> < 1"
  shows "precise_decimal v ds (int (length ds) + (kappa - mk))"
proof -
  let ?y = "double_value v * 10 powi mk"
  have "\<bar>?y * 2 ^ s - real X\<bar> < 1" using V by (simp add: abs_minus_commute mult.assoc)
  then obtain q where q: "10 powi (q + int (length ds) - 1) \<le> ?y" "?y < 10 powi (q + int (length ds))" "real (dec ds) * 10 powi kappa = rounded_to q ?y"
    using c unfolding counted_ok_def by blast
  define p where "p = q + int (length ds) - mk"
  have m: "0 < (10 :: real) powi mk" by simp
  have P: "10 powi (q + int (length ds) - 1) = 10 powi (p - 1) * (10 :: real) powi mk" "10 powi (q + int (length ds)) = 10 powi p * (10 :: real) powi mk"
    unfolding p_def by (simp_all add: add_diff_eq flip: power_int_add)
  have "10 powi (p - 1) \<le> double_value v" "double_value v < 10 powi p"
    using q(1,2) m unfolding P by (simp_all only: mult_le_cancel_right_pos mult_less_cancel_right_pos)
  moreover have "decimal ds (int (length ds) + (kappa - mk)) * 10 powi mk = rounded_to (p - int (length ds)) (double_value v) * 10 powi mk"
    using q(3) unfolding rounded_to_shift by (simp add: decimal_def p_def power_int_diff)
  then have "decimal ds (int (length ds) + (kappa - mk)) = rounded_to (p - int (length ds)) (double_value v)" using m by simp
  ultimately show ?thesis unfolding precise_decimal_def by blast
qed

lemma Grisu3Counted_ok:
  assumes v: "0 < v" "v < kInfinity" and n: "1 \<le> n" "n \<le> length buffer"
  obtains ok buffer' len k where "Grisu3Counted v (int n) buffer = Some (ok, buffer', len, k)" "length buffer' = length buffer"
    "ok \<Longrightarrow> len = n \<and> (\<exists>ds. holds buffer' n ds \<and> ds ! 0 \<noteq> 0 \<and> precise_decimal v ds (int n + k))"
proof -
  obtain w where w: "AsNormalizedDiyFp v = Some w" "-1137 \<le> fp_e w" "fp_e w \<le> 960" "2 ^ 63 \<le> unat (fp_f w)" "fp_value w = double_value v"
    using normalized_double [OF v] by blast
  obtain c mk where c: "scaling_power w = Some (c, mk)" "ten_power c mk" "-60 \<le> fp_e w + fp_e c + 64" "fp_e w + fp_e c + 64 \<le> -32"
    using scaling_power_ok [OF w(2,3)] .
  let ?w = "DiyFp_Times w c" and ?s = "nat (- (fp_e w + fp_e c + 64))"
  have "2 ^ 60 \<le> unat (fp_f ?w)" using Times_bounds(1) [of w c] w(4) c(2) by (simp add: ten_power_def)
  then obtain ok buffer' len kappa where d: "DigitGenCounted ?w (int n) buffer = Some (ok, buffer', len, kappa)" "length buffer' = length buffer"
      "ok \<longrightarrow> len = n \<and> (\<exists>ds. holds buffer' n ds \<and> counted_ok ?s (unat (fp_f ?w)) ds kappa)"
    using DigitGenCounted_ok [of ?w n buffer, unfolded Times_e, OF c(3,4) _ n] by blast
  have "fp_e w + fp_e c + 64 \<le> 0" using c(4) by simp
  then have err: "\<bar>real (unat (fp_f ?w)) - double_value v * (10 powi mk * 2 ^ ?s)\<bar> < 1"
    using Times_error [OF c(2), of w] unfolding w(5) by (simp only: gain_eq)
  show ?thesis
  proof (rule that [of ok buffer' len "- mk + kappa"])
    show "Grisu3Counted v (int n) buffer = Some (ok, buffer', len, - mk + kappa)" using w(1) c(1) d(1) by (simp add: Grisu3Counted_def)
    assume ok
    then obtain ds where ds: "len = n" "holds buffer' n ds" "counted_ok ?s (unat (fp_f ?w)) ds kappa" using d(3) by blast
    have l: "length ds = n" "ds ! 0 \<noteq> 0" using ds(2,3) by (simp_all add: holds_def counted_ok_def)
    have "precise_decimal v ds (int n + (- mk + kappa))" using counted_precise [OF ds(3) err] l(1) by simp
    then show "len = n \<and> (\<exists>ds. holds buffer' n ds \<and> ds ! 0 \<noteq> 0 \<and> precise_decimal v ds (int n + (- mk + kappa)))" using ds(1,2) l(2) by blast
  qed (rule d(2))
qed

lemma FastDtoa_precision_ok:
  assumes v: "0 < v" "v < kInfinity" and n: "1 \<le> n" "n < length buffer"
  obtains (fast) buffer' ds point where "FastDtoa v FAST_DTOA_PRECISION (int n) buffer = Some (buffer', Some (n, point))" "length buffer' = length buffer"
    "holds buffer' n ds" "buffer' ! n = 0" "ds ! 0 \<noteq> 0" "precise_decimal v ds point"
  | (slow) buffer' where "FastDtoa v FAST_DTOA_PRECISION (int n) buffer = Some (buffer', None)" "length buffer' = length buffer"
proof -
  obtain ok buffer' len k where g: "Grisu3Counted v (int n) buffer = Some (ok, buffer', len, k)" "length buffer' = length buffer"
    "ok \<Longrightarrow> len = n \<and> (\<exists>ds. holds buffer' n ds \<and> ds ! 0 \<noteq> 0 \<and> precise_decimal v ds (int n + k))"
    using Grisu3Counted_ok [OF v n(1) less_imp_le [OF n(2)], of thesis] by simp
  have sp: "\<not> (IsSpecial v \<or> v = 0 \<or> Sign v < 0)" using not_special [OF v(2)] v(1) by simp
  show ?thesis
  proof (cases ok)
    case True
    then obtain ds where ds: "len = n" "holds buffer' n ds" "ds ! 0 \<noteq> 0" "precise_decimal v ds (int n + k)" using g(3) by blast
    show ?thesis
    proof (rule fast [of "buffer'[n := 0]" "int n + k" ds])
      show "FastDtoa v FAST_DTOA_PRECISION (int n) buffer = Some (buffer'[n := 0], Some (n, int n + k))"
        using sp g(1,2) True ds(1) n(2) by (simp add: FastDtoa_def buffer_put_def)
      show "holds (buffer'[n := 0]) n ds" using ds(2) by (rule holds_cong) simp_all
    qed (use g n ds in simp_all)
  next
    case False
    then show ?thesis using slow [of buffer'] sp g(1,2) by (simp add: FastDtoa_def)
  qed
qed

end
