(* ===== verification/Double_To_Ascii.thy ===== *)
theory Double_To_Ascii
  imports Fast_Dtoa_Correct
begin

text \<open>
  The conversion of doubles to decimals of \<^verbatim>\<open>src/dtoa.cc\<close>, which strips the sign, tries the fast algorithm of the mode, and
  falls back to the exact one.  The caller cannot tell which of the two has produced the digits.
\<close>

section \<open>The program\<close>

datatype DtoaMode = DTOA_SHORTEST | DTOA_FIXED | DTOA_PRECISION

fun DtoaToBignumDtoaMode :: "DtoaMode \<Rightarrow> dtoa_mode" where
  "DtoaToBignumDtoaMode DTOA_SHORTEST = BIGNUM_DTOA_SHORTEST"
| "DtoaToBignumDtoaMode DTOA_FIXED = BIGNUM_DTOA_FIXED"
| "DtoaToBignumDtoaMode DTOA_PRECISION = BIGNUM_DTOA_PRECISION"

text \<open>
  The result is the buffer, the sign, the number of digits and the position of the point; the latter is left as the caller has it when no
  digits are requested.  The negation of a double flips its sign bit.
\<close>

definition DoubleToAscii :: "(nat \<Rightarrow> int \<Rightarrow> nat) \<Rightarrow> 64 word \<Rightarrow> DtoaMode \<Rightarrow> int \<Rightarrow> nat list \<Rightarrow> int \<Rightarrow> (nat list \<times> int \<times> nat \<times> int) option" where
  "DoubleToAscii undefined_shift v mode requested_digits buffer point =
     (if IsSpecial v \<or> \<not> (mode = DTOA_SHORTEST \<or> requested_digits \<ge> 0) then None
      else
        (let (sign, v) = if Sign v < 0 then (1, v XOR kSignMask) else (0, v)
         in if v = 0 then do {
              buffer \<leftarrow> buffer_put buffer 0 48;
              buffer \<leftarrow> buffer_put buffer 1 0;
              Some (buffer, sign, 1, 1)
            }
            else if mode = DTOA_PRECISION \<and> requested_digits = 0 then do {
              buffer \<leftarrow> buffer_put buffer 0 0;
              Some (buffer, sign, 0, point)
            }
            else do {
              (buffer, fast_worked) \<leftarrow>
                (case mode of
                   DTOA_SHORTEST \<Rightarrow> FastDtoa v FAST_DTOA_SHORTEST 0 buffer
                 | DTOA_FIXED \<Rightarrow>
                     map_option (\<lambda>r. case r of Some (buffer, len, point) \<Rightarrow> (buffer, Some (len, point)) | None \<Rightarrow> (buffer, None))
                       (FastFixedDtoa undefined_shift v requested_digits buffer)
                 | DTOA_PRECISION \<Rightarrow> FastDtoa v FAST_DTOA_PRECISION requested_digits buffer);
              (case fast_worked of
                 Some (len, point) \<Rightarrow> Some (buffer, sign, len, point)
               | None \<Rightarrow> do {
                   (buffer, len, point) \<leftarrow> BignumDtoa v (DtoaToBignumDtoaMode mode) requested_digits buffer;
                   buffer \<leftarrow> buffer_put buffer len 0;
                   Some (buffer, sign, len, point)
                 })
            }))"

section \<open>Sign and magnitude\<close>

definition magnitude :: "64 word \<Rightarrow> 64 word" where
  "magnitude v = (if Sign v < 0 then v XOR kSignMask else v)"

lemma bit_kSignMask: "bit kSignMask n \<longleftrightarrow> n = 63"
proof -
  have "kSignMask = push_bit 63 1" by (simp add: kSignMask_def)
  then have "bit kSignMask n = bit (push_bit 63 (1 :: 64 word)) n" by (rule arg_cong)
  also have "\<dots> \<longleftrightarrow> n = 63" by (simp only: bit_push_bit_iff possible_bit_word bit_1_iff) auto
  finally show ?thesis .
qed

lemma Sign_iff: "Sign v < 0 \<longleftrightarrow> bit v 63"
proof -
  have "v AND kSignMask = 0 \<longleftrightarrow> \<not> bit v 63"
  proof
    assume "v AND kSignMask = 0"
    then have "\<not> bit (v AND kSignMask) 63" by (simp only: bit_0_eq bot_apply simp_thms bot_bool_def)
    then show "\<not> bit v 63" by (simp add: bit_and_iff bit_kSignMask)
  next
    assume "\<not> bit v 63"
    then show "v AND kSignMask = 0" by (intro bit_word_eqI) (auto simp: bit_and_iff bit_kSignMask)
  qed
  then show ?thesis by (simp add: Sign_def)
qed

lemma magnitude_eq: "magnitude v = take_bit 63 v"
proof (rule bit_word_eqI)
  fix n assume "n < LENGTH(64)"
  then show "bit (magnitude v) n = bit (take_bit 63 v) n"
    by (cases "n = 63") (auto simp: magnitude_def Sign_iff bit_xor_iff bit_kSignMask bit_take_bit_iff)
qed

lemma magnitude_finite:
  assumes "\<not> IsSpecial v"
  shows "magnitude v < kInfinity"
proof -
  let ?x = "take_bit 11 (drop_bit 52 v)"
  have x: "take_bit 11 (drop_bit 52 (magnitude v)) = ?x" by (simp add: magnitude_eq drop_bit_take_bit)
  have "unat (magnitude v) < 2 ^ 63" unfolding magnitude_eq using take_bit_nat_less_exp [of 63 "unat v"] by (simp add: unsigned_take_bit_eq)
  then have u: "unat (magnitude v) div 2 ^ 52 = unat ?x" using unat_take_11 [of "magnitude v"] x by simp
  have "unat ?x \<noteq> 2047"
  proof
    assume "unat ?x = 2047"
    then have "word_of_nat (unat ?x) = (word_of_nat 2047 :: 64 word)" by (rule arg_cong)
    then have "?x = 2047" by simp
    then have e: "drop_bit 52 (v AND kExponentMask) = 2047" by (simp only: exponent_field)
    have k: "kExponentMask = push_bit 52 2047" by (simp add: kExponentMask_def)
    have M: "bit kExponentMask n \<longleftrightarrow> n < 64 \<and> 52 \<le> n \<and> bit (2047 :: 64 word) (n - 52)" for n
      unfolding k bit_push_bit_iff by (auto simp del: push_bit_numeral)
    have "v AND kExponentMask = kExponentMask"
    proof (rule bit_word_eqI)
      fix n assume "n < LENGTH(64)"
      have "bit (v AND kExponentMask) (52 + (n - 52)) = bit (2047 :: 64 word) (n - 52)" unfolding e [symmetric] bit_drop_bit_eq comp_def ..
      then show "bit (v AND kExponentMask) n = bit kExponentMask n" using M [of n] by (cases "52 \<le> n") (auto simp: bit_and_iff)
    qed
    then show False using assms by (simp add: IsSpecial_def)
  qed
  moreover have "unat ?x < 2 ^ 11" using take_bit_nat_less_exp [of 11 "unat (drop_bit 52 v)"] by (simp add: unsigned_take_bit_eq)
  ultimately have "unat (magnitude v) div 2 ^ 52 < 2047" unfolding u by simp
  then have "unat (magnitude v) < 2047 * 2 ^ 52" by (simp add: div_less_iff_less_mult)
  then show ?thesis using unat_kInfinity by (simp add: word_less_nat_alt)
qed

lemma fast_or_exact:
  assumes "\<not> IsSpecial v" "magnitude v \<noteq> 0" "mode = DTOA_SHORTEST \<or> 0 \<le> requested_digits" "\<not> (mode = DTOA_PRECISION \<and> requested_digits = 0)"
  shows "DoubleToAscii undefined_shift v mode requested_digits buffer point =
    (case mode of
       DTOA_SHORTEST \<Rightarrow> FastDtoa (magnitude v) FAST_DTOA_SHORTEST 0 buffer
     | DTOA_FIXED \<Rightarrow>
         map_option (\<lambda>r. case r of Some (buffer, len, point) \<Rightarrow> (buffer, Some (len, point)) | None \<Rightarrow> (buffer, None))
           (FastFixedDtoa undefined_shift (magnitude v) requested_digits buffer)
     | DTOA_PRECISION \<Rightarrow> FastDtoa (magnitude v) FAST_DTOA_PRECISION requested_digits buffer) \<bind>
    (\<lambda>(buffer, fast_worked). case fast_worked of
       Some (len, point) \<Rightarrow> Some (buffer, if Sign v < 0 then 1 else 0, len, point)
     | None \<Rightarrow> do {
         (buffer, len, point) \<leftarrow> BignumDtoa (magnitude v) (DtoaToBignumDtoaMode mode) requested_digits buffer;
         buffer \<leftarrow> buffer_put buffer len 0;
         Some (buffer, if Sign v < 0 then 1 else 0, len, point)
       })"
proof -
  have p: "(if Sign v < 0 then (1, v XOR kSignMask) else (0, v)) = (if Sign v < 0 then 1 else 0, magnitude v)" by (simp add: magnitude_def)
  have g: "\<not> (IsSpecial v \<or> \<not> (mode = DTOA_SHORTEST \<or> requested_digits \<ge> 0))" using assms by simp
  show ?thesis unfolding DoubleToAscii_def p Let_def prod.case if_not_P [OF g] if_not_P [OF assms(2)] if_not_P [OF assms(4)] ..
qed

lemma DoubleToAscii_zero:
  assumes "\<not> IsSpecial v" "magnitude v = 0" "mode = DTOA_SHORTEST \<or> 0 \<le> requested_digits" "2 \<le> length buffer"
  shows "DoubleToAscii undefined_shift v mode requested_digits buffer point = Some (buffer[0 := 48, 1 := 0], if Sign v < 0 then 1 else 0, 1, 1)"
proof -
  have p: "(if Sign v < 0 then (1, v XOR kSignMask) else (0, v)) = (if Sign v < 0 then 1 else 0, magnitude v)" by (simp add: magnitude_def)
  have g: "\<not> (IsSpecial v \<or> \<not> (mode = DTOA_SHORTEST \<or> requested_digits \<ge> 0))" using assms by simp
  have "buffer \<noteq> []" using assms(4) by auto
  then show ?thesis unfolding DoubleToAscii_def p Let_def prod.case if_not_P [OF g] if_P [OF assms(2)] using assms(4) by (simp add: buffer_put_def)
qed

text \<open>What the caller gets: the digits, terminated by a zero character, and the sign.\<close>

definition terminated :: "nat list \<Rightarrow> nat list \<Rightarrow> bool" where
  "terminated buffer ds \<longleftrightarrow> length ds < length buffer \<and> take (length ds) buffer = map ((+) 48) ds \<and> buffer ! length ds = 0 \<and> list_all (\<lambda>d. d \<le> 9) ds"

lemma terminated_put:
  assumes "take (length ds) buffer = map ((+) 48) ds" "\<forall>d\<in>set ds. d \<le> 9" "length ds < length buffer"
  shows "buffer_put buffer (length ds) 0 = Some (buffer[length ds := 0])" "terminated (buffer[length ds := 0]) ds"
  using assms by (simp_all add: terminated_def buffer_put_def list_all_iff)

lemma DoubleToAscii_shortest_ok:
  assumes v: "\<not> IsSpecial v" "magnitude v \<noteq> 0" and b: "18 \<le> length buffer"
  obtains buffer' ds point' where
    "DoubleToAscii undefined_shift v DTOA_SHORTEST requested_digits buffer point = Some (buffer', if Sign v < 0 then 1 else 0, length ds, point')"
    "terminated buffer' ds" "1 \<le> length ds" "length ds \<le> 17" "shortest_decimal (magnitude v) ds point'"
proof -
  have m: "0 < magnitude v" "magnitude v < kInfinity" using v magnitude_finite by (simp_all add: word_neq_0_conv)
  note run = fast_or_exact [where undefined_shift = undefined_shift and mode = DTOA_SHORTEST, OF v]
  consider (fast) buffer' ds p where "FastDtoa (magnitude v) FAST_DTOA_SHORTEST 0 buffer = Some (buffer', Some (length ds, p))"
      "length buffer' = length buffer" "holds buffer' (length ds) ds" "buffer' ! length ds = 0" "1 \<le> length ds" "length ds \<le> 17" "shortest_decimal (magnitude v) ds p"
    | (slow) buffer' where "FastDtoa (magnitude v) FAST_DTOA_SHORTEST 0 buffer = Some (buffer', None)" "length buffer' = length buffer"
    by (rule FastDtoa_shortest_ok [OF m b])
  then show ?thesis
  proof cases
    case fast
    then show ?thesis using that [of buffer' ds p] run b by (simp add: terminated_def holds_def list_all_iff)
  next
    case slow
    have "18 \<le> length buffer'" using slow(2) b by simp
    then obtain b' ds p where e: "BignumDtoa (magnitude v) BIGNUM_DTOA_SHORTEST requested_digits buffer' = Some (b', length ds, p)"
        "take (length ds) b' = map ((+) 48) ds" "length b' = length buffer'" "1 \<le> length ds" "length ds \<le> 17" "\<forall>d \<in> set ds. d \<le> 9"
        "shortest_decimal (magnitude v) ds p"
      by (rule BignumDtoa_shortest_ok [OF m])
    note t = terminated_put [OF e(2,6)]
    show ?thesis using that [of "b'[length ds := 0]" ds p] run slow e t b by simp
  qed
qed

lemma DoubleToAscii_precision_ok:
  assumes v: "\<not> IsSpecial v" "magnitude v \<noteq> 0" and n: "1 \<le> n" "n < length buffer"
  obtains buffer' ds point' where
    "DoubleToAscii undefined_shift v DTOA_PRECISION (int n) buffer point = Some (buffer', if Sign v < 0 then 1 else 0, length ds, point')"
    "terminated buffer' ds" "length ds = n" "precise_decimal (magnitude v) ds point'"
proof -
  have m: "0 < magnitude v" "magnitude v < kInfinity" using v magnitude_finite by (simp_all add: word_neq_0_conv)
  have go: "DTOA_PRECISION = DTOA_SHORTEST \<or> 0 \<le> int n" "\<not> (DTOA_PRECISION = DTOA_PRECISION \<and> int n = 0)" using n(1) by simp_all
  note run = fast_or_exact [where undefined_shift = undefined_shift, OF v go, of buffer point]
  consider (fast) buffer' ds p where "FastDtoa (magnitude v) FAST_DTOA_PRECISION (int n) buffer = Some (buffer', Some (n, p))"
      "length buffer' = length buffer" "holds buffer' n ds" "buffer' ! n = 0" "precise_decimal (magnitude v) ds p"
    | (slow) buffer' where "FastDtoa (magnitude v) FAST_DTOA_PRECISION (int n) buffer = Some (buffer', None)" "length buffer' = length buffer"
    by (rule FastDtoa_precision_ok [OF m n])
  then show ?thesis
  proof cases
    case fast
    then show ?thesis using that [of buffer' ds p] run n by (simp add: terminated_def holds_def list_all_iff)
  next
    case slow
    have n': "0 < n" "n < length buffer'" using slow(2) n by simp_all
    obtain b' ds q p where e: "BignumDtoa (magnitude v) BIGNUM_DTOA_PRECISION (int n) buffer' = Some (b', n, q)"
        "take n b' = map ((+) 48) ds" "length ds = n" "\<forall>d \<in> set ds. d \<le> 9" "10 powi (p - 1) \<le> double_value (magnitude v)"
        "double_value (magnitude v) < 10 powi p" "decimal ds q = rounded_to (p - int n) (double_value (magnitude v))" "length b' = length buffer'"
      by (rule BignumDtoa_precision_ok [OF m n'])
    have "precise_decimal (magnitude v) ds q" unfolding precise_decimal_def e(3) using e(5-7) by blast
    then show ?thesis using that [of "b'[n := 0]" ds q] run slow e terminated_put [of ds b'] n' by simp
  qed
qed

lemma DoubleToAscii_fixed_ok:
  assumes v: "\<not> IsSpecial v" "magnitude v \<noteq> 0"
    and n: "Exponent (magnitude v) \<le> 20 \<and> n \<le> 20 \<and> 41 \<le> length buffer \<or> n + 326 < length buffer" and und: "undefined_shift 0 (-1) mod 2 = 0"
  obtains buffer' ds point' where
    "DoubleToAscii undefined_shift v DTOA_FIXED (int n) buffer point = Some (buffer', if Sign v < 0 then 1 else 0, length ds, point')"
    "terminated buffer' ds" "decimal ds point' = rounded_to (- int n) (double_value (magnitude v))"
proof -
  have m: "0 < magnitude v" "magnitude v < kInfinity" using v magnitude_finite by (simp_all add: word_neq_0_conv)
  have go: "DTOA_FIXED = DTOA_SHORTEST \<or> 0 \<le> int n" "\<not> (DTOA_FIXED = DTOA_PRECISION \<and> int n = 0)" by simp_all
  note run = fast_or_exact [where undefined_shift = undefined_shift, OF v go, of buffer point]
  show ?thesis
  proof (cases "Exponent (magnitude v) \<le> 20 \<and> n \<le> 20")
    case True
    then obtain b' ds p where "FastFixedDtoa undefined_shift (magnitude v) (int n) buffer = Some (Some (b', length ds, p))" "take (length ds) b' = map ((+) 48) ds"
        "b' ! length ds = 0" "\<forall>d\<in>set ds. d \<le> 9" "length ds < length b'" "decimal ds p = rounded_to (- int n) (double_value (magnitude v))"
      using FastFixedDtoa_ok [where undefined_shift = undefined_shift, OF m(2) _ _ und, of n buffer] n by auto
    then show ?thesis using that [of b' ds p] run by (simp add: terminated_def list_all_iff)
  next
    case False
    then have "FastFixedDtoa undefined_shift (magnitude v) (int n) buffer = Some None" by (auto simp: FastFixedDtoa_def Let_def)
    moreover have "int n + 326 < int (length buffer)" using n False by auto
    then obtain b' ds p where e: "BignumDtoa (magnitude v) BIGNUM_DTOA_FIXED (int n) buffer = Some (b', length ds, p)" "take (length ds) b' = map ((+) 48) ds"
        "\<forall>d\<in>set ds. d \<le> 9" "decimal ds p = rounded_to (- int n) (double_value (magnitude v))" "length b' = length buffer" "length ds < length buffer"
      by (rule BignumDtoa_fixed_ok [OF m of_nat_0_le_iff])
    ultimately show ?thesis using that [of "b'[length ds := 0]" ds p] run terminated_put [of ds b'] by simp
  qed
qed

lemma precise_decimal_unique:
  assumes "precise_decimal v ds p" "precise_decimal v es q" "length ds = length es"
  shows "decimal ds p = decimal es q"
proof -
  have decade: "a \<le> b" if "10 powi (a - 1) \<le> x" "x < 10 powi b" for a b :: int and x :: real
  proof (rule ccontr)
    assume "\<not> a \<le> b"
    then have "(10 :: real) powi b \<le> 10 powi (a - 1)" by (intro power_int_increasing) auto
    then show False using that by linarith
  qed
  from assms(1,2) obtain a b where ab: "10 powi (a - 1) \<le> double_value v" "double_value v < 10 powi a" "decimal ds p = rounded_to (a - int (length ds)) (double_value v)"
      "10 powi (b - 1) \<le> double_value v" "double_value v < 10 powi b" "decimal es q = rounded_to (b - int (length es)) (double_value v)"
    unfolding precise_decimal_def by blast
  then have "a = b" using decade [of a "double_value v" b] decade [of b "double_value v" a] by simp
  then show ?thesis using ab(3,6) assms(3) by simp
qed

section \<open>Properties\<close>

text \<open>
  C15. Shortest mode as a whole.  For every finite double other than zero and a buffer of 18 characters, \<open>DoubleToAscii\<close> returns the sign
  and between one and seventeen digits, terminated by a zero character.  Whichever of the two algorithms has produced them, the
  decimal reads as the absolute value of the double, none with the same last place that reads as it is closer to it, and none
  with a coarser last place reads as it.  (When the fast algorithm succeeds, no assertion has failed, no product or sum was
  truncated, and no write left the buffer; when it gives up, the exact one starts from the buffer it has left behind.)
\<close>

theorem DoubleToAscii_shortest:
  assumes "\<not> IsSpecial v" "magnitude v \<noteq> 0" "18 \<le> length buffer"
  shows "\<exists>buffer' ds point'. DoubleToAscii undefined_shift v DTOA_SHORTEST requested_digits buffer point =
      Some (buffer', if Sign v < 0 then 1 else 0, length ds, point') \<and>
    terminated buffer' ds \<and> 1 \<le> length ds \<and> length ds \<le> 17 \<and> shortest_decimal (magnitude v) ds point'"
  by (rule DoubleToAscii_shortest_ok [OF assms]) blast

theorem DoubleToAscii_shortest_witness:
  "\<exists>buffer' ds point'. DoubleToAscii (\<lambda>_ _. 0) 0xBFD3333333333333 DTOA_SHORTEST 0 (replicate 18 0) 0 = Some (buffer', 1, length ds, point') \<and>
    shortest_decimal 0x3FD3333333333333 ds point'"
proof -
  let ?v = "0xBFD3333333333333 :: 64 word"
  have v: "\<not> IsSpecial ?v" "Sign ?v < 0" "magnitude ?v = 0x3FD3333333333333" by (simp_all add: IsSpecial_def Sign_def magnitude_def kExponentMask_def kSignMask_def)
  have "magnitude ?v \<noteq> 0" "18 \<le> length (replicate 18 (0 :: nat))" unfolding v(3) by simp_all
  from DoubleToAscii_shortest [OF v(1) this, of "\<lambda>_ _. 0" 0 0] show ?thesis using v(2,3) by auto
qed

text \<open>
  C17. Precision mode as a whole.  For a positive number of digits and a buffer with one more character, \<open>DoubleToAscii\<close> returns
  exactly that many digits, and the decimal is the absolute value of the double rounded to that many significant digits, halfway
  cases up, whichever of the two algorithms has produced it.
\<close>

theorem DoubleToAscii_precision:
  assumes "\<not> IsSpecial v" "magnitude v \<noteq> 0" "1 \<le> n" "n < length buffer"
  shows "\<exists>buffer' ds point' p. DoubleToAscii undefined_shift v DTOA_PRECISION (int n) buffer point =
      Some (buffer', if Sign v < 0 then 1 else 0, n, point') \<and>
    terminated buffer' ds \<and> length ds = n \<and> 10 powi (p - 1) \<le> double_value (magnitude v) \<and> double_value (magnitude v) < 10 powi p \<and>
    decimal ds point' = of_int \<lfloor>double_value (magnitude v) / 10 powi (p - int n) + 1 / 2\<rfloor> * 10 powi (p - int n)"
  unfolding rounded_to_def [symmetric]
  by (rule DoubleToAscii_precision_ok [OF assms, of undefined_shift point]) (auto simp: precise_decimal_def)

theorem DoubleToAscii_precision_witness:
  "\<exists>buffer' point'. DoubleToAscii (\<lambda>_ _. 0) 0x3FD3333333333333 DTOA_PRECISION (int 5) (replicate 6 0) 0 = Some (buffer', 0, 5, point')"
proof -
  let ?v = "0x3FD3333333333333 :: 64 word"
  have v: "\<not> IsSpecial ?v" "\<not> Sign ?v < 0" "magnitude ?v = 0x3FD3333333333333" by (simp_all add: IsSpecial_def Sign_def magnitude_def kExponentMask_def kSignMask_def)
  have "magnitude ?v \<noteq> 0" "1 \<le> (5 :: nat)" "5 < length (replicate 6 (0 :: nat))" unfolding v(3) by simp_all
  from DoubleToAscii_precision [OF v(1) this, of "\<lambda>_ _. 0" 0] show ?thesis using v(2) by auto
qed



text \<open>The fast conversion of 5.3 to two digits: the scaled number is slightly below 53000 and is rounded up.\<close>

lemma FastDtoa_rounds_up: "FastDtoa 0x4015333333333333 FAST_DTOA_PRECISION 2 [0, 0, 0] = Some ([53, 51, 0], Some (2, 1))"
proof -
  have entry: "kCachedPowers ! 44 = \<lparr>cp_significand = 0x9c40000000000000, binary_exponent = -50, decimal_exponent = 4\<rparr>" by (simp add: kCachedPowers_def)
  have "AsNormalizedDiyFp 0x4015333333333333 = Some \<lparr>fp_f = 0xA999999999999800, fp_e = -61\<rparr>" by code_simp
  moreover have "scaling_power \<lparr>fp_f = 0xA999999999999800, fp_e = -61\<rparr> = Some (\<lparr>fp_f = 0x9c40000000000000, fp_e = -50\<rparr>, 4)"
    by (simp add: scaling_power_def GetCachedPowerForBinaryExponentRange_def kMinimalTargetExponent_def kMaximalTargetExponent_def
      fl_def entry signed_divide_int_def cached_fp_def DiyFp_def)
  moreover have "DiyFp_Times \<lparr>fp_f = 0xA999999999999800, fp_e = -61\<rparr> \<lparr>fp_f = 0x9c40000000000000, fp_e = -50\<rparr> =
      \<lparr>fp_f = 0x6783ffffffffff06, fp_e = -47\<rparr>" by (simp add: DiyFp_Times_def DiyFp_Multiply_def Let_def)
  moreover have "DigitGenCounted \<lparr>fp_f = 0x6783ffffffffff06, fp_e = -47\<rparr> 2 [0, 0, 0] = Some (True, [53, 51, 0], 2, 3)"
  proof -
    have "BiggestPowerTen 52999 17 = Some (10000, 4)"
      by (simp add: BiggestPowerTen_def kTen4_def kTen5_def kTen6_def kTen7_def kTen8_def kTen9_def)
    moreover have "counted_integral 5 2 52999 10000 [0, 0, 0] 0 = Some (3, 0, 999, 1000, [53, 50, 0], 2)"
      by (simp add: counted_integral.simps(2) [of "pred_numeral _", folded numeral_eq_Suc] buffer_put_def)
    moreover have "RoundWeedCounted [53, 50, 0] 2 140737488355327750 140737488355328000 (Suc 0) 3 = Some (True, [53, 51, 0], 3)"
      by (simp add: RoundWeedCounted_def sub64_def uint64_def buffer_get_def)
    ultimately show ?thesis by (simp add: DigitGenCounted_def kMinimalTargetExponent_def kMaximalTargetExponent_def uint32_def uint64_def)
  qed
  ultimately show ?thesis
    by (simp add: FastDtoa_def Grisu3Counted_def IsSpecial_def Sign_def kExponentMask_def kSignMask_def buffer_put_def)
qed

text \<open>
  C22. Where the fast conversion succeeds in precision mode, it answers with the decimal of the exact one, from whatever the buffers
  contain, so that trying it first changes nothing but the time.
\<close>

theorem FastDtoa_agrees_with_BignumDtoa:
  assumes "0 < v" "v < kInfinity" "1 \<le> n" "n < length buffer" "n < length other"
    and "FastDtoa v FAST_DTOA_PRECISION (int n) buffer = Some (buffer', Some (len, point))"
  shows "\<exists>ds es other' q. len = n \<and> take n buffer' = map ((+) 48) ds \<and> BignumDtoa v BIGNUM_DTOA_PRECISION (int n) other = Some (other', n, q) \<and>
    take n other' = map ((+) 48) es \<and> ds ! 0 \<noteq> 0 \<and> decimal ds point = decimal es q"
  using assms(1-4)
proof (cases rule: FastDtoa_precision_ok)
  case (fast b ds p)
  have e: "buffer' = b" "len = n" "point = p" using fast(1) assms(6) by auto
  have "0 < n" using assms(3) by simp
  then obtain other' es q p' where x: "BignumDtoa v BIGNUM_DTOA_PRECISION (int n) other = Some (other', n, q)" "take n other' = map ((+) 48) es"
      "length es = n" "10 powi (p' - 1) \<le> double_value v" "double_value v < 10 powi p'" "decimal es q = rounded_to (p' - int n) (double_value v)"
    by (rule BignumDtoa_precision_ok [OF assms(1,2) _ assms(5)])
  have "precise_decimal v es q" unfolding precise_decimal_def x(3) using x(4-6) by blast
  then have "decimal ds p = decimal es q" using precise_decimal_unique [OF fast(6)] fast(3) x(3) by (simp add: holds_def)
  then show ?thesis using e fast(3,5) x(1,2) by (auto simp: holds_def)
next
  case (slow b)
  then show ?thesis using assms(6) by simp
qed

theorem FastDtoa_agrees_with_BignumDtoa_witness:
  "\<exists>ds es other' q. FastDtoa 0x4015333333333333 FAST_DTOA_PRECISION 2 [0, 0, 0] = Some ([53, 51, 0], Some (2, 1)) \<and> [53, 51] = map ((+) 48) ds \<and>
    BignumDtoa 0x4015333333333333 BIGNUM_DTOA_PRECISION 2 [0, 0, 0] = Some (other', 2, q) \<and> take 2 other' = map ((+) 48) es \<and>
    ds ! 0 \<noteq> 0 \<and> decimal ds 1 = decimal es q"
proof -
  have "(0 :: 64 word) < 0x4015333333333333" "0x4015333333333333 < kInfinity" "1 \<le> (2 :: nat)" by (simp_all add: kInfinity_def)
  from FastDtoa_agrees_with_BignumDtoa [OF this, of "[0, 0, 0]" "[0, 0, 0]" "[53, 51, 0]" 2 1] show ?thesis
    using FastDtoa_rounds_up by simp
qed

end
