(* ===== verification/String_Builder.thy ===== *)
theory String_Builder
  imports Fixed_Dtoa
begin

text \<open>
  Zero-terminated strings and \<open>SimpleStringBuilder\<close> of \<^verbatim>\<open>src/utils.h\<close> and \<^verbatim>\<open>src/utils.cc\<close>: a buffer of fixed size that is filled from the
  front.  A builder that contains the text \<open>s\<close> has the normal form \<open>filled buffer s\<close>, and each operation extends the text as long as
  there is room.
\<close>

section \<open>Strings that end with a zero character\<close>

text \<open>A string is the memory that the pointer points to; running off its end is \<open>None\<close>.\<close>

fun StrLength :: "nat list \<Rightarrow> nat option" where
  "StrLength [] = None"
| "StrLength (c # s) = (if c = 0 then Some 0 else map_option Suc (StrLength s))"

definition c_string :: "nat list \<Rightarrow> nat list \<Rightarrow> bool" where
  "c_string memory s \<longleftrightarrow> 0 \<notin> set s \<and> (\<exists>rest. memory = s @ 0 # rest)"

lemma StrLength_c_string: "c_string memory s \<Longrightarrow> StrLength memory = Some (length s)"
proof -
  have "0 \<notin> set s \<Longrightarrow> StrLength (s @ 0 # rest) = Some (length s)" for rest by (induction s) auto
  then show "c_string memory s \<Longrightarrow> StrLength memory = Some (length s)" by (auto simp: c_string_def)
qed

lemma c_string_drop: "c_string memory s \<Longrightarrow> k \<le> length s \<Longrightarrow> c_string (drop k memory) (drop k s)"
  by (auto simp: c_string_def dest: in_set_dropD)

lemma c_string_take: "c_string memory s \<Longrightarrow> n \<le> length s \<Longrightarrow> take n memory = take n s"
  by (auto simp: c_string_def)

lemma c_string_get: "c_string memory s \<Longrightarrow> i < length s \<Longrightarrow> buffer_get memory i = Some (s ! i)"
  by (auto simp: c_string_def buffer_get_def nth_append)

lemma c_string_self: "0 \<notin> set s \<Longrightarrow> c_string (s @ 0 # rest) s" "0 \<notin> set s \<Longrightarrow> c_string (s @ [0]) s"
  by (auto simp: c_string_def)

definition StrDup :: "nat list \<Rightarrow> nat list option" where
  "StrDup str = map_option (\<lambda>n. take n str @ [0]) (StrLength str)"

lemma StrDup_ok: "c_string memory s \<Longrightarrow> StrDup memory = Some (s @ [0])"
  using c_string_take [of memory s "length s"] by (simp add: StrDup_def StrLength_c_string)

section \<open>The builder\<close>

record string_builder =
  sb_buffer :: "nat list"
  sb_position :: int

definition StringBuilder :: "nat list \<Rightarrow> string_builder" where
  "StringBuilder buffer = \<lparr>sb_buffer = buffer, sb_position = 0\<rparr>"

text \<open>A new buffer has unspecified contents.\<close>

definition StringBuilder_new :: "(nat \<Rightarrow> nat) \<Rightarrow> nat \<Rightarrow> string_builder" where
  "StringBuilder_new memory n = StringBuilder (map memory [0..<n])"

definition is_finalized :: "string_builder \<Rightarrow> bool" where
  "is_finalized b \<longleftrightarrow> sb_position b < 0"

definition position :: "string_builder \<Rightarrow> int option" where
  "position b = (if is_finalized b then None else Some (sb_position b))"

definition StringBuilder_Reset :: "string_builder \<Rightarrow> string_builder" where
  "StringBuilder_Reset b = b\<lparr>sb_position := 0\<rparr>"

definition AddCharacter :: "string_builder \<Rightarrow> nat \<Rightarrow> string_builder option" where
  "AddCharacter b c =
     (if c = 0 then None
      else if is_finalized b \<or> \<not> sb_position b < int (length (sb_buffer b)) then None
      else do {
        buffer \<leftarrow> buffer_put (sb_buffer b) (nat (sb_position b)) c;
        Some \<lparr>sb_buffer = buffer, sb_position = sb_position b + 1\<rparr>
      })"

definition AddSubstring :: "string_builder \<Rightarrow> nat list \<Rightarrow> int \<Rightarrow> string_builder option" where
  "AddSubstring b s n =
     (if is_finalized b \<or> \<not> sb_position b + n < int (length (sb_buffer b)) then None
      else do {
        len \<leftarrow> StrLength s;
        if n < 0 \<or> \<not> nat n \<le> len then None
        else
          (let p = nat (sb_position b)
           in Some \<lparr>sb_buffer = take p (sb_buffer b) @ take (nat n) s @ drop (p + nat n) (sb_buffer b), sb_position = sb_position b + n\<rparr>)
      })"

definition AddString :: "string_builder \<Rightarrow> nat list \<Rightarrow> string_builder option" where
  "AddString b s = do { n \<leftarrow> StrLength s; AddSubstring b s (int n) }"

fun padding_loop :: "nat \<Rightarrow> string_builder \<Rightarrow> nat \<Rightarrow> string_builder option" where
  "padding_loop 0 b c = Some b"
| "padding_loop (Suc n) b c = do { b \<leftarrow> AddCharacter b c; padding_loop n b c }"

definition AddPadding :: "string_builder \<Rightarrow> nat \<Rightarrow> int \<Rightarrow> string_builder option" where
  "AddPadding b c count_of = padding_loop (nat count_of) b c"

text \<open>The number of digits, and the digits from the last one.\<close>

function count_loop :: "nat \<Rightarrow> nat \<Rightarrow> nat \<Rightarrow> nat" where
  "count_loop number ndigits factor =
     (if ndigits < 10 then if factor > number then ndigits else count_loop number (ndigits + 1) (uint32 (factor * 10)) else ndigits)"
  by pat_completeness auto
termination by (relation "measure (\<lambda>(number, ndigits, factor). 10 - ndigits)") auto

declare count_loop.simps [simp del]

fun integer_loop :: "nat \<Rightarrow> nat \<Rightarrow> nat \<Rightarrow> nat list \<Rightarrow> nat list option" where
  "integer_loop 0 p number buffer = Some buffer"
| "integer_loop (Suc n) p number buffer = do {
     buffer \<leftarrow> buffer_put buffer (p - 1) (48 + number mod 10);
     integer_loop n (p - 1) (number div 10) buffer
   }"

definition AddDecimalInteger :: "string_builder \<Rightarrow> int \<Rightarrow> string_builder option" where
  "AddDecimalInteger b value = do {
     b \<leftarrow> (if value < 0 then AddCharacter b 45 else Some b);
     let number = nat ((if value < 0 then - value else value) mod 2 ^ 32);
     let ndigits = count_loop number 1 10;
     let p = sb_position b + int ndigits;
     buffer \<leftarrow> integer_loop ndigits (nat p) number (sb_buffer b);
     Some \<lparr>sb_buffer = buffer, sb_position = p\<rparr>
   }"

definition Finalize :: "string_builder \<Rightarrow> nat list option" where
  "Finalize b =
     (if is_finalized b \<or> \<not> sb_position b < int (length (sb_buffer b)) then None
      else do {
        buffer \<leftarrow> buffer_put (sb_buffer b) (nat (sb_position b)) 0;
        len \<leftarrow> StrLength buffer;
        if int len \<noteq> sb_position b then None else Some buffer
      })"

section \<open>The text of a builder\<close>

definition filled :: "nat list \<Rightarrow> nat list \<Rightarrow> string_builder" where
  "filled buffer s = \<lparr>sb_buffer = s @ drop (length s) buffer, sb_position = int (length s)\<rparr>"

named_theorems builder \<open>operations of the builder on its normal form\<close>

lemma filled_fields [simp]: "sb_position (filled buffer s) = int (length s)" "sb_buffer (filled buffer s) = s @ drop (length s) buffer"
    "\<not> is_finalized (filled buffer s)"
  by (simp_all add: filled_def is_finalized_def)

lemma StringBuilder_text [builder]: "StringBuilder buffer = filled buffer []"
  by (simp add: StringBuilder_def filled_def)

lemma Reset_empties: "StringBuilder_Reset (filled buffer s) = filled (s @ drop (length s) buffer) []"
  by (simp add: StringBuilder_Reset_def filled_def)

lemma position_text [builder]: "position (filled buffer s) = Some (int (length s))"
  by (simp add: position_def)

lemma update_at_end: "length s < length buffer \<Longrightarrow> (s @ drop (length s) buffer)[length s := c] = (s @ [c]) @ drop (Suc (length s)) buffer"
  by (simp add: Cons_nth_drop_Suc [symmetric])

lemma AddCharacter_text [builder]:
  "c \<noteq> 0 \<Longrightarrow> length s < length buffer \<Longrightarrow> AddCharacter (filled buffer s) c = Some (filled buffer (s @ [c]))"
  by (simp add: AddCharacter_def buffer_put_def update_at_end filled_def is_finalized_def)

lemma AddSubstring_text [builder]:
  assumes "c_string memory t" "0 \<le> n" "nat n \<le> length t" "length s + nat n < length buffer"
  shows "AddSubstring (filled buffer s) memory n = Some (filled buffer (s @ take (nat n) t))"
proof -
  obtain k where "n = int k" using assms(2) by (rule nonneg_int_cases)
  then show ?thesis using assms c_string_take [OF assms(1,3)]
    by (simp add: AddSubstring_def StrLength_c_string Let_def filled_def is_finalized_def nat_add_distrib add.commute)
qed

lemma AddString_text [builder]:
  "c_string memory t \<Longrightarrow> length s + length t < length buffer \<Longrightarrow> AddString (filled buffer s) memory = Some (filled buffer (s @ t))"
  using AddSubstring_text [of memory t "int (length t)" s buffer] by (simp add: AddString_def StrLength_c_string)

lemma AddPadding_text [builder]:
  "c \<noteq> 0 \<Longrightarrow> length s + nat k \<le> length buffer \<Longrightarrow> AddPadding (filled buffer s) c k = Some (filled buffer (s @ replicate (nat k) c))"
proof -
  have "padding_loop n (filled buffer s) c = Some (filled buffer (s @ replicate n c))" if "c \<noteq> 0" "length s + n \<le> length buffer" for n
    using that by (induction n arbitrary: s) (simp_all add: AddCharacter_text)
  then show "c \<noteq> 0 \<Longrightarrow> length s + nat k \<le> length buffer \<Longrightarrow> ?thesis" by (simp add: AddPadding_def)
qed

lemma Finalize_text [builder]:
  assumes "0 \<notin> set s" "length s < length buffer"
  shows "Finalize (filled buffer s) = Some (s @ 0 # drop (Suc (length s)) buffer)"
  using assms c_string_self(1) [THEN StrLength_c_string, of s "drop (Suc (length s)) buffer"]
  by (simp add: Finalize_def buffer_put_def update_at_end)

text \<open>The decimal digits of an integer.\<close>

lemma count_loop_ok:
  "number < 10 ^ 10 \<Longrightarrow> ndigits \<le> 10 \<Longrightarrow> 1 \<le> ndigits \<Longrightarrow> ndigits < 10 \<longrightarrow> factor = 10 ^ ndigits \<Longrightarrow> (1 < ndigits \<longrightarrow> 10 ^ (ndigits - 1) \<le> number) \<Longrightarrow>
    ndigits \<le> count_loop number ndigits factor \<and> number < 10 ^ count_loop number ndigits factor \<and>
    (1 < count_loop number ndigits factor \<longrightarrow> 10 ^ (count_loop number ndigits factor - 1) \<le> number)"
proof (induction number ndigits factor rule: count_loop.induct)
  case (1 number ndigits factor)
  show ?case
  proof (cases "ndigits < 10 \<and> \<not> factor > number")
    case False
    then have "count_loop number ndigits factor = ndigits" by (subst count_loop.simps) auto
    then show ?thesis using 1(2-) False by (cases "ndigits = 10") auto
  next
    case True
    then have c: "count_loop number ndigits factor = count_loop number (ndigits + 1) (uint32 (factor * 10))" by (subst count_loop.simps) simp
    have f: "ndigits + 1 < 10 \<longrightarrow> uint32 (factor * 10) = 10 ^ (ndigits + 1)"
    proof
      assume "ndigits + 1 < 10"
      then have "(10 :: nat) ^ (ndigits + 1) \<le> 10 ^ 9" by (intro power_increasing) auto
      then show "uint32 (factor * 10) = 10 ^ (ndigits + 1)" using 1(5) True by (simp add: cast_id mult.commute)
    qed
    have "ndigits + 1 \<le> count_loop number (ndigits + 1) (uint32 (factor * 10)) \<and>
        number < 10 ^ count_loop number (ndigits + 1) (uint32 (factor * 10)) \<and>
        (1 < count_loop number (ndigits + 1) (uint32 (factor * 10)) \<longrightarrow>
          10 ^ (count_loop number (ndigits + 1) (uint32 (factor * 10)) - 1) \<le> number)"
      by (rule 1(1)) (use True 1(2,4,5) f in simp_all)
    then show ?thesis unfolding c by linarith
  qed
qed

lemma integer_loop_ok:
  "p \<le> length buffer \<Longrightarrow> n \<le> p \<Longrightarrow> integer_loop n p number buffer = Some (take (p - n) buffer @ map ((+) 48) (fixed n number) @ drop p buffer)"
proof (induction n arbitrary: p number buffer)
  case (Suc n)
  have "drop (p - 1) (buffer[p - 1 := 48 + number mod 10]) = (48 + number mod 10) # drop p buffer"
    using Suc.prems by (cases p) (simp_all add: drop_update_swap Cons_nth_drop_Suc [symmetric])
  then show ?case using Suc.prems Suc.IH [of "p - 1" "buffer[p - 1 := 48 + number mod 10]" "number div 10"] by (simp add: buffer_put_def)
qed simp

text \<open>The digits of a number, at least one.\<close>

definition numeral_digits :: "nat \<Rightarrow> nat list" where
  "numeral_digits n = (if n = 0 then [0] else digits n)"

lemma fixed_digits_eq: "0 < n \<Longrightarrow> number < 10 ^ n \<Longrightarrow> (1 < n \<longrightarrow> 10 ^ (n - 1) \<le> number) \<Longrightarrow> fixed n number = numeral_digits number"
proof (induction n arbitrary: number)
  case (Suc n)
  show ?case
  proof (cases "n = 0")
    case True
    then have "number < 10" using Suc.prems(2) by simp
    then show ?thesis using True by (simp add: numeral_digits_def digits.simps [of number] digits.simps [of 0])
  next
    case False
    have "(10 :: nat) ^ n = 10 * 10 ^ (n - 1)" using False by (cases n) auto
    then have lo: "10 ^ (n - 1) \<le> number div 10" using Suc.prems(3) False by auto
    have "0 < number div 10" using lo by (cases "number div 10") auto
    moreover from this have "number \<noteq> 0" by auto
    moreover have "number div 10 < 10 ^ n" using Suc.prems(2) by auto
    ultimately show ?thesis using Suc.IH [of "number div 10"] lo False by (simp add: numeral_digits_def digits.simps [of number])
  qed
qed simp

lemma numeral_digits_ok: "numeral_digits n \<noteq> []" "\<forall>d\<in>set (numeral_digits n). d \<le> 9" "dec (numeral_digits n) = n"
    "0 < k \<Longrightarrow> n < 10 ^ k \<Longrightarrow> length (numeral_digits n) \<le> k"
proof -
  show "numeral_digits n \<noteq> []" by (simp add: numeral_digits_def digits.simps [of n])
  show "\<forall>d\<in>set (numeral_digits n). d \<le> 9" "dec (numeral_digits n) = n" using digits_ok dec_digits by (simp_all add: numeral_digits_def)
  show "0 < k \<Longrightarrow> n < 10 ^ k \<Longrightarrow> length (numeral_digits n) \<le> k" using digits_length [of n k] by (simp add: numeral_digits_def)
qed

lemma AddDecimalInteger_text [builder]:
  assumes "0 \<le> value" "value < 2 ^ 31" "length s + length (numeral_digits (nat value)) \<le> length buffer"
  shows "AddDecimalInteger (filled buffer s) value = Some (filled buffer (s @ map ((+) 48) (numeral_digits (nat value))))"
proof -
  define m n where "m = nat value" and "n = count_loop m 1 10"
  have m: "m < 10 ^ 10" "nat (value mod 2 ^ 32) = m" using assms(1,2) by (simp_all add: m_def)
  have n: "1 \<le> n" "m < 10 ^ n" "1 < n \<longrightarrow> 10 ^ (n - 1) \<le> m" using count_loop_ok [OF m(1), of 1 10] by (simp_all add: n_def)
  then have f: "fixed n m = numeral_digits m" by (intro fixed_digits_eq) auto
  have l: "length (numeral_digits m) = n" unfolding f [symmetric] using fixed_ok by simp
  let ?b = "s @ drop (length s) buffer"
  have "integer_loop n (length s + n) m ?b = Some (take (length s + n - n) ?b @ map ((+) 48) (fixed n m) @ drop (length s + n) ?b)"
    using assms(3) l unfolding m_def [symmetric] by (intro integer_loop_ok) simp_all
  then have "integer_loop n (length s + n) m ?b = Some (s @ map ((+) 48) (numeral_digits m) @ drop (length s + n) buffer)" by (simp add: f add.commute)
  moreover have "nat (int (length s) + int n) = length s + n" "\<not> value < 0" using assms(1) by simp_all
  ultimately show ?thesis unfolding AddDecimalInteger_def Let_def
    by (simp only: if_False Option.bind.simps m(2) n_def [symmetric] filled_fields) (simp add: filled_def l m_def [symmetric])
qed

end
