(* ===== verification/Number_To_String.thy ===== *)
theory Number_To_String
  imports Double_To_Ascii String_Builder
begin

text \<open>
  The conversions of numbers to strings of \<^verbatim>\<open>src/conversions.cc\<close> behind \<open>Number.prototype.toString\<close>, \<open>toFixed\<close>, \<open>toExponential\<close> and
  \<open>toPrecision\<close>.  Local arrays and new buffers have arbitrary contents \<open>memory\<close>.
\<close>

section \<open>The program\<close>

definition kBase10MaximalLength :: nat where "kBase10MaximalLength = 17"

definition literal :: "string \<Rightarrow> nat list" where
  "literal s = map of_char s @ [0]"

definition less_zero :: "64 word \<Rightarrow> bool" where
  "less_zero v \<longleftrightarrow> Sign v < 0 \<and> \<not> IsNan v \<and> v XOR kSignMask \<noteq> 0"

definition is_zero :: "64 word \<Rightarrow> bool" where
  "is_zero v \<longleftrightarrow> v = 0 \<or> v = kSignMask"

definition DoubleToCString :: "(nat \<Rightarrow> int \<Rightarrow> nat) \<Rightarrow> (nat \<Rightarrow> nat) \<Rightarrow> 64 word \<Rightarrow> nat list \<Rightarrow> nat list option" where
  "DoubleToCString undefined_shift memory v buffer =
     (if IsNan v then Some (literal ''NaN'')
      else if IsInfinite v then Some (literal (if less_zero v then ''-Infinity'' else ''Infinity''))
      else if is_zero v then Some (literal ''0'')
      else do {
        let builder = StringBuilder buffer;
        (decimal_rep, sign, len, decimal_point) \<leftarrow>
          DoubleToAscii undefined_shift v DTOA_SHORTEST 0 (map memory [0..<kBase10MaximalLength + 1]) (int (memory 0));
        builder \<leftarrow> (if sign \<noteq> 0 then AddCharacter builder 45 else Some builder);
        builder \<leftarrow>
          (if int len \<le> decimal_point \<and> decimal_point \<le> 21 then do {
             builder \<leftarrow> AddString builder decimal_rep;
             AddPadding builder 48 (decimal_point - int len)
           }
           else if 0 < decimal_point \<and> decimal_point \<le> 21 then do {
             builder \<leftarrow> AddSubstring builder decimal_rep decimal_point;
             builder \<leftarrow> AddCharacter builder 46;
             AddString builder (drop (nat decimal_point) decimal_rep)
           }
           else if decimal_point \<le> 0 \<and> decimal_point > -6 then do {
             builder \<leftarrow> AddString builder (literal ''0.'');
             builder \<leftarrow> AddPadding builder 48 (- decimal_point);
             AddString builder decimal_rep
           }
           else do {
             c \<leftarrow> buffer_get decimal_rep 0;
             builder \<leftarrow> AddCharacter builder c;
             builder \<leftarrow> (if len \<noteq> 1 then do { builder \<leftarrow> AddCharacter builder 46; AddString builder (drop 1 decimal_rep) } else Some builder);
             builder \<leftarrow> AddCharacter builder 101;
             builder \<leftarrow> AddCharacter builder (if decimal_point \<ge> 0 then 43 else 45);
             let expo = decimal_point - 1;
             AddDecimalInteger builder (if expo < 0 then - expo else expo)
           });
        Finalize builder
      })"

text \<open>The digits of an integer from the back of the buffer; the result is the string that starts at the last position written.\<close>

function digits_loop :: "nat \<Rightarrow> nat list \<Rightarrow> nat \<Rightarrow> (nat list \<times> nat) option" where
  "digits_loop n buffer i =
     (if i = 0 then None
      else do {
        buffer \<leftarrow> buffer_put buffer (i - 1) (48 + n mod 10);
        if n div 10 \<noteq> 0 then digits_loop (n div 10) buffer (i - 1) else Some (buffer, i - 1)
      })"
  by pat_completeness auto
termination by (relation "measure (\<lambda>(n, buffer, i). i)") auto

declare digits_loop.simps [simp del]

definition kMinInt :: int where "kMinInt = - 2147483648"
definition kMinInt_double :: "64 word" where "kMinInt_double = 0xC1E0000000000000"

definition IntToCString :: "(nat \<Rightarrow> int \<Rightarrow> nat) \<Rightarrow> (nat \<Rightarrow> nat) \<Rightarrow> int \<Rightarrow> nat list \<Rightarrow> nat list option" where
  "IntToCString undefined_shift memory n buffer =
     (if n = kMinInt then DoubleToCString undefined_shift memory kMinInt_double buffer
      else
        (let negative = n < 0;
             n = \<bar>n\<bar>;
             i = length buffer
         in if i = 0 then None
            else do {
              buffer \<leftarrow> buffer_put buffer (i - 1) 0;
              (buffer, i) \<leftarrow> digits_loop (nat n) buffer (i - 1);
              if negative then
                if i = 0 then None
                else do { buffer \<leftarrow> buffer_put buffer (i - 1) 45; Some (drop (i - 1) buffer) }
              else Some (drop i buffer)
            }))"

definition kMaxDigitsBeforePoint :: nat where "kMaxDigitsBeforePoint = 21"
definition kMaxDigitsAfterPoint :: nat where "kMaxDigitsAfterPoint = 20"
definition kFirstNonFixed :: "64 word" where "kFirstNonFixed = 0x444B1AE4D6E2EF50"

text \<open>Comparing the bits of doubles that are not negative compares the doubles; nothing is larger than or equal to a NaN.\<close>

definition DoubleToFixedCString :: "(nat \<Rightarrow> int \<Rightarrow> nat) \<Rightarrow> (nat \<Rightarrow> nat) \<Rightarrow> 64 word \<Rightarrow> int \<Rightarrow> nat list option" where
  "DoubleToFixedCString undefined_shift memory v f =
     (if \<not> (0 \<le> f \<and> f \<le> int kMaxDigitsAfterPoint) then None
      else
        (let negative = less_zero v;
             abs_value = if negative then v XOR kSignMask else v
         in if \<not> IsNan v \<and> \<not> Sign abs_value < 0 \<and> abs_value \<ge> kFirstNonFixed then do {
              s \<leftarrow> DoubleToCString undefined_shift memory v (map memory [0..<100]);
              StrDup s
            }
            else do {
              (decimal_rep, sign, decimal_rep_length, decimal_point) \<leftarrow>
                DoubleToAscii undefined_shift v DTOA_FIXED f (map memory [0..<kMaxDigitsBeforePoint + kMaxDigitsAfterPoint + 1]) (int (memory 0));
              let (zero_prefix_length, decimal_point) = (if decimal_point \<le> 0 then (- decimal_point + 1, 1) else (0, decimal_point));
              let zero_postfix_length =
                (if zero_prefix_length + int decimal_rep_length < decimal_point + f
                 then decimal_point + f - int decimal_rep_length - zero_prefix_length else 0);
              let rep_length = zero_prefix_length + int decimal_rep_length + zero_postfix_length;
              let rep_builder = StringBuilder_new memory (nat (rep_length + 1));
              rep_builder \<leftarrow> AddPadding rep_builder 48 zero_prefix_length;
              rep_builder \<leftarrow> AddString rep_builder decimal_rep;
              rep_builder \<leftarrow> AddPadding rep_builder 48 zero_postfix_length;
              rep \<leftarrow> Finalize rep_builder;
              let result_size = decimal_point + f + 2;
              let builder = StringBuilder_new memory (nat (result_size + 1));
              builder \<leftarrow> (if negative then AddCharacter builder 45 else Some builder);
              builder \<leftarrow> AddSubstring builder rep decimal_point;
              builder \<leftarrow> (if f > 0 then do {
                  builder \<leftarrow> AddCharacter builder 46;
                  AddSubstring builder (drop (nat decimal_point) rep) f
                } else Some builder);
              Finalize builder
            }))"

definition CreateExponentialRepresentation :: "(nat \<Rightarrow> nat) \<Rightarrow> nat list \<Rightarrow> int \<Rightarrow> bool \<Rightarrow> int \<Rightarrow> nat list option" where
  "CreateExponentialRepresentation memory decimal_rep expo negative significant_digits = do {
     let negative_exponent = expo < 0;
     let expo = (if negative_exponent then - expo else expo);
     let builder = StringBuilder_new memory (nat (significant_digits + 7 + 1));
     builder \<leftarrow> (if negative then AddCharacter builder 45 else Some builder);
     c \<leftarrow> buffer_get decimal_rep 0;
     builder \<leftarrow> AddCharacter builder c;
     builder \<leftarrow> (if significant_digits \<noteq> 1 then do {
         builder \<leftarrow> AddCharacter builder 46;
         builder \<leftarrow> AddString builder (drop 1 decimal_rep);
         rep_length \<leftarrow> StrLength decimal_rep;
         AddPadding builder 48 (significant_digits - int rep_length)
       } else Some builder);
     builder \<leftarrow> AddCharacter builder 101;
     builder \<leftarrow> AddCharacter builder (if negative_exponent then 45 else 43);
     builder \<leftarrow> AddDecimalInteger builder expo;
     Finalize builder
   }"

definition DoubleToExponentialCString :: "(nat \<Rightarrow> int \<Rightarrow> nat) \<Rightarrow> (nat \<Rightarrow> nat) \<Rightarrow> 64 word \<Rightarrow> int \<Rightarrow> nat list option" where
  "DoubleToExponentialCString undefined_shift memory v f =
     (if \<not> (-1 \<le> f \<and> f \<le> int kMaxDigitsAfterPoint) then None
      else do {
        let negative = less_zero v;
        let v = (if negative then v XOR kSignMask else v);
        let decimal_rep = map memory [0..<kMaxDigitsAfterPoint + 1 + 1];
        (decimal_rep, sign, decimal_rep_length, decimal_point) \<leftarrow>
          (if f = -1 then DoubleToAscii undefined_shift v DTOA_SHORTEST 0 decimal_rep (int (memory 0))
           else DoubleToAscii undefined_shift v DTOA_PRECISION (f + 1) decimal_rep (int (memory 0)));
        let f = (if f = -1 then int decimal_rep_length - 1 else f);
        if \<not> (0 < decimal_rep_length \<and> int decimal_rep_length \<le> f + 1) then None
        else CreateExponentialRepresentation memory decimal_rep (decimal_point - 1) negative (f + 1)
      })"

definition DoubleToPrecisionCString :: "(nat \<Rightarrow> int \<Rightarrow> nat) \<Rightarrow> (nat \<Rightarrow> nat) \<Rightarrow> 64 word \<Rightarrow> int \<Rightarrow> nat list option" where
  "DoubleToPrecisionCString undefined_shift memory v p =
     (if \<not> (1 \<le> p \<and> p \<le> 21) then None
      else do {
        let negative = less_zero v;
        let v = (if negative then v XOR kSignMask else v);
        (decimal_rep, sign, decimal_rep_length, decimal_point) \<leftarrow>
          DoubleToAscii undefined_shift v DTOA_PRECISION p (map memory [0..<21 + 1]) (int (memory 0));
        if \<not> int decimal_rep_length \<le> p then None
        else
          (let expo = decimal_point - 1
           in if expo < -6 \<or> expo \<ge> p then CreateExponentialRepresentation memory decimal_rep expo negative p
              else do {
                let builder = StringBuilder_new memory (nat ((if decimal_point \<le> 0 then - decimal_point + p + 3 else p + 2) + 1));
                builder \<leftarrow> (if negative then AddCharacter builder 45 else Some builder);
                builder \<leftarrow>
                  (if decimal_point \<le> 0 then do {
                     builder \<leftarrow> AddString builder (literal ''0.'');
                     builder \<leftarrow> AddPadding builder 48 (- decimal_point);
                     builder \<leftarrow> AddString builder decimal_rep;
                     AddPadding builder 48 (p - int decimal_rep_length)
                   }
                   else do {
                     builder \<leftarrow> AddSubstring builder decimal_rep (min (int decimal_rep_length) decimal_point);
                     builder \<leftarrow> AddPadding builder 48 (decimal_point - int decimal_rep_length);
                     if decimal_point < p then do {
                       builder \<leftarrow> AddCharacter builder 46;
                       let extra = (if negative then 2 else 1);
                       builder \<leftarrow> (if int decimal_rep_length > decimal_point then do {
                           len \<leftarrow> StrLength (drop (nat decimal_point) decimal_rep);
                           pos \<leftarrow> position builder;
                           AddSubstring builder (drop (nat decimal_point) decimal_rep) (min (int len) (p - (pos - extra)))
                         } else Some builder);
                       pos \<leftarrow> position builder;
                       AddPadding builder 48 (extra + (p - pos))
                     }
                     else Some builder
                   });
                Finalize builder
              })
      })"

section \<open>Reading a numeral\<close>

text \<open>
  What a string of decimal digits with an optional sign, point and exponent denotes: whether it is negative, and the integer \<open>m\<close>
  and exponent \<open>k\<close> of its absolute value \<open>m * 10 ^ k\<close>.
\<close>

definition is_digit :: "nat \<Rightarrow> bool" where
  "is_digit c \<longleftrightarrow> 48 \<le> c \<and> c \<le> 57"

definition digit_values :: "nat list \<Rightarrow> nat list" where
  "digit_values s = map (\<lambda>c. c - 48) s"

definition read_numeral :: "nat list \<Rightarrow> (bool \<times> nat \<times> int) option" where
  "read_numeral s =
     (let (negative, s) = (case s of c # t \<Rightarrow> if c = 45 then (True, t) else (False, s) | [] \<Rightarrow> (False, s));
          integral = takeWhile is_digit s;
          s = dropWhile is_digit s;
          (fraction, s) = (case s of c # t \<Rightarrow> if c = 46 then (takeWhile is_digit t, dropWhile is_digit t) else ([], s) | [] \<Rightarrow> ([], s));
          m = dec (digit_values (integral @ fraction));
          k = - int (length fraction)
      in if integral = [] then None
         else (case s of
             [] \<Rightarrow> Some (negative, m, k)
           | [c] \<Rightarrow> None
           | c # sign # t \<Rightarrow>
               if c = 101 \<and> (sign = 43 \<or> sign = 45) \<and> t \<noteq> [] \<and> list_all is_digit t
               then Some (negative, m, k + (if sign = 43 then 1 else -1) * int (dec (digit_values t)))
               else None))"

definition sign_chars :: "bool \<Rightarrow> nat list" where
  "sign_chars negative = (if negative then [45] else [])"

abbreviation chars :: "nat list \<Rightarrow> nat list" where
  "chars ds \<equiv> map ((+) 48) ds"

lemma chars_digits: "list_all (\<lambda>d. d \<le> 9) ds \<Longrightarrow> list_all is_digit (chars ds)" "digit_values (chars ds) = ds"
  by (simp_all add: list_all_iff is_digit_def digit_values_def comp_def)

lemma span_digits:
  assumes "list_all is_digit xs" "r = [] \<or> \<not> is_digit (hd r)"
  shows "takeWhile is_digit (xs @ r) = xs" "dropWhile is_digit (xs @ r) = r"
proof -
  have "takeWhile is_digit r = []" "dropWhile is_digit r = r" using assms(2) by (cases r; auto)+
  then show "takeWhile is_digit (xs @ r) = xs" "dropWhile is_digit (xs @ r) = r" using assms(1) by (simp_all add: list_all_iff)
qed

text \<open>The shapes of numerals: with and without a fraction and an exponent.\<close>

definition fraction_chars :: "nat list option \<Rightarrow> nat list" where
  "fraction_chars f = (case f of None \<Rightarrow> [] | Some fs \<Rightarrow> 46 # chars fs)"

definition exponent_chars :: "(bool \<times> nat list) option \<Rightarrow> nat list" where
  "exponent_chars e = (case e of None \<Rightarrow> [] | Some (negative, es) \<Rightarrow> 101 # (if negative then 45 else 43) # chars es)"

definition numeral_chars :: "bool \<Rightarrow> nat list \<Rightarrow> nat list option \<Rightarrow> (bool \<times> nat list) option \<Rightarrow> nat list" where
  "numeral_chars negative is f e = sign_chars negative @ chars is @ fraction_chars f @ exponent_chars e"

lemma read_numeral_chars:
  fixes f e
  defines "fs \<equiv> (case f of None \<Rightarrow> [] | Some fs \<Rightarrow> fs)" and "x \<equiv> (case e of None \<Rightarrow> 0 | Some (n, es) \<Rightarrow> (if n then -1 else 1) * int (dec es))"
  assumes d: "list_all (\<lambda>d. d \<le> 9) (is @ fs)" "is \<noteq> []" and e: "\<And>n es. e = Some (n, es) \<Longrightarrow> es \<noteq> [] \<and> list_all (\<lambda>d. d \<le> 9) es"
  shows "read_numeral (numeral_chars negative is f e) = Some (negative, dec (is @ fs), x - int (length fs))"
proof -
  have di: "list_all is_digit (chars is)" "list_all is_digit (chars fs)" using d(1) chars_digits(1) by simp_all
  obtain i0 ir where i: "is = i0 # ir" using d(2) by (cases "is") auto
  let ?E = "exponent_chars e" and ?F = "fraction_chars f"
  have E: "?E = [] \<or> \<not> is_digit (hd ?E)" by (auto simp: exponent_chars_def is_digit_def split: option.splits)
  have FE: "?F @ ?E = [] \<or> \<not> is_digit (hd (?F @ ?E))" using E by (auto simp: fraction_chars_def is_digit_def split: option.splits)
  have neg: "(case numeral_chars negative is f e of c # t \<Rightarrow> if c = 45 then (True, t) else (False, numeral_chars negative is f e) | [] \<Rightarrow> (False, numeral_chars negative is f e)) =
      (negative, chars is @ ?F @ ?E)"
    using i by (simp add: numeral_chars_def sign_chars_def)
  have frac: "(case ?F @ ?E of c # t \<Rightarrow> if c = 46 then (takeWhile is_digit t, dropWhile is_digit t) else ([], ?F @ ?E) | [] \<Rightarrow> ([], ?F @ ?E)) = (chars fs, ?E)"
  proof (cases f)
    case None
    then show ?thesis by (auto simp: fraction_chars_def exponent_chars_def fs_def split: option.splits)
  next
    case (Some gs)
    then show ?thesis using span_digits [OF di(2) E] by (simp add: fraction_chars_def fs_def)
  qed
  have m: "digit_values (chars is @ chars fs) = is @ fs" using chars_digits(2) [of "is @ fs"] by simp
  show ?thesis
    unfolding read_numeral_def Let_def neg prod.case span_digits [OF di(1) FE] frac m
  proof (cases e)
    case None
    then show "(if chars is = [] then None else case exponent_chars e of [] \<Rightarrow> Some (negative, dec (is @ fs), - int (length (chars fs))) | [c] \<Rightarrow> None
      | c # sign # t \<Rightarrow> if c = 101 \<and> (sign = 43 \<or> sign = 45) \<and> t \<noteq> [] \<and> list_all is_digit t
          then Some (negative, dec (is @ fs), - int (length (chars fs)) + (if sign = 43 then 1 else - 1) * int (dec (digit_values t))) else None) =
      Some (negative, dec (is @ fs), x - int (length fs))"
      using d(2) by (simp add: exponent_chars_def x_def)
  next
    case (Some ne)
    obtain n es where ne: "ne = (n, es)" by (cases ne)
    have es: "es \<noteq> []" "list_all is_digit (chars es)" using e [of n es] Some ne chars_digits(1) by auto
    then show "(if chars is = [] then None else case exponent_chars e of [] \<Rightarrow> Some (negative, dec (is @ fs), - int (length (chars fs))) | [c] \<Rightarrow> None
      | c # sign # t \<Rightarrow> if c = 101 \<and> (sign = 43 \<or> sign = 45) \<and> t \<noteq> [] \<and> list_all is_digit t
          then Some (negative, dec (is @ fs), - int (length (chars fs)) + (if sign = 43 then 1 else - 1) * int (dec (digit_values t))) else None) =
      Some (negative, dec (is @ fs), x - int (length fs))"
      using d(2) Some ne chars_digits(2) [of es] by (simp add: exponent_chars_def x_def)
  qed
qed

lemma numeral_chars_nonzero [simp]: "0 \<notin> set (numeral_chars negative is f e)"
  by (auto simp: numeral_chars_def sign_chars_def fraction_chars_def exponent_chars_def split: option.splits)

section \<open>The position of the point\<close>

lemma double_range:
  assumes v: "0 < v" "v < kInfinity"
  shows "2 powi (-1074) \<le> double_value v" "double_value v \<le> 2 powi 1024"
proof -
  have f: "0 < unat (Significand v)" "unat (Significand v) < 2 ^ 53" and e: "-1074 \<le> Exponent v" "Exponent v \<le> 971" using finite_fields [OF v] by simp_all
  have "real (unat (Significand v)) < real (2 ^ 53)" using f(2) by (simp only: of_nat_less_iff)
  then have f': "1 \<le> real (unat (Significand v))" "real (unat (Significand v)) \<le> 2 powi 53" using f(1) by (simp_all add: Suc_le_eq del: of_nat_unat)
  have p: "(2 :: real) powi (-1074) \<le> 2 powi Exponent v" "2 powi Exponent v \<le> (2 :: real) powi 971" using e by (intro power_int_increasing; simp)+
  have "1 * 2 powi (-1074) \<le> real (unat (Significand v)) * 2 powi Exponent v" using f'(1) p(1) by (intro mult_mono) simp_all
  then show "2 powi (-1074) \<le> double_value v" by (simp add: double_value_def)
  have "real (unat (Significand v)) * 2 powi Exponent v \<le> 2 powi 53 * 2 powi 971" using f'(2) p(2) by (intro mult_mono) simp_all
  also have "\<dots> = 2 powi (53 + 971)" by (rule power_int_add [symmetric]) simp
  also have "(53 + 971 :: int) = 1024" by simp
  finally show "double_value v \<le> 2 powi 1024" by (simp add: double_value_def)
qed

lemma powi_less_imp: "(10 :: real) powi a < 10 powi b \<Longrightarrow> a < b"
  by (metis not_le one_le_numeral power_int_increasing)

lemma big_powers: "(2 :: real) * 2 powi 1024 < 10 powi 342" "(10 :: real) powi (-359) \<le> 2 powi (-1074) / 2"
proof -
  have two: "2 * 2 powi k = (2 :: real) powi (k + 1)" for k by (simp only: power_int_add_1' zero_neq_numeral not_False_eq_True disjI1 simp_thms)
  have half: "2 * x = y \<Longrightarrow> x = y / 2" for x y :: real by simp
  have "(2 :: real) powi (1024 + 1) < 2 powi (3 * 342)" by (rule power_int_strict_increasing) simp_all
  also have "(2 :: real) powi (3 * 342) = (2 powi 3) powi 342" by (rule power_int_mult)
  also have "\<dots> \<le> 10 powi 342" by (rule power_int_mono) simp_all
  finally show "(2 :: real) * 2 powi 1024 < 10 powi 342" unfolding two .
  have "(10 :: real) powi (-359) \<le> (2 powi 3) powi (-359)" by (rule power_int_antimono) simp_all
  also have "\<dots> = 2 powi (3 * (-359))" by (rule power_int_mult [symmetric])
  also have "\<dots> \<le> (2 :: real) powi (-1075)" by (rule power_int_increasing) simp_all
  also have "\<dots> = 2 powi (-1074) / 2"
  proof -
    have "(-1075 + 1 :: int) = -1074" by simp
    then have "2 * 2 powi (-1075) = (2 :: real) powi (-1074)" using two [of "-1075"] by (simp only:)
    then show ?thesis by (rule half)
  qed
  finally show "(10 :: real) powi (-359) \<le> 2 powi (-1074) / 2" .
qed

lemma double_powers_of_ten:
  assumes "0 < v" "v < kInfinity"
  shows "2 * double_value v < 10 powi 342" "10 powi (-359) \<le> double_value v / 2"
proof -
  have "2 * double_value v \<le> 2 * 2 powi 1024" by (rule mult_left_mono [OF double_range(2) [OF assms]]) (rule zero_le_numeral)
  then show "2 * double_value v < 10 powi 342" using big_powers(1) by (rule le_less_trans)
  have "2 powi (-1074) / 2 \<le> double_value v / 2" by (rule divide_right_mono [OF double_range(1) [OF assms]]) (rule zero_le_numeral)
  with big_powers(2) show "10 powi (-359) \<le> double_value v / 2" by (rule order_trans)
qed

lemma point_range:
  assumes v: "0 < v" "v < kInfinity" and d: "double_value v / 2 \<le> decimal ds point" "decimal ds point \<le> 2 * double_value v"
    and ds: "list_all (\<lambda>d. d \<le> 9) ds" "length ds \<le> 21"
  shows "-400 < point" "point < 400"
proof -
  let ?u = "10 powi (point - int (length ds)) :: real"
  have lo: "10 powi (-359) \<le> decimal ds point" using double_powers_of_ten(2) [OF v] d(1) by (rule order_trans)
  have "0 < (10 :: real) powi (-359)" by (rule zero_less_power_int) (rule zero_less_numeral)
  then have pos: "0 < decimal ds point" using lo by (rule less_le_trans)
  then have "0 < dec ds" by (simp add: decimal_def zero_less_mult_iff)
  then have "1 \<le> real (dec ds)" by simp
  then have "1 * ?u \<le> decimal ds point" unfolding decimal_def by (rule mult_right_mono) simp
  also have "\<dots> < 10 powi 342" using d(2) double_powers_of_ten(1) [OF v] by (rule le_less_trans)
  finally have "point - int (length ds) < 342" unfolding mult_1 by (rule powi_less_imp)
  then show "point < 400" using ds(2) by linarith
  have "real (dec ds) < real (10 ^ length ds)" using dec_bound [of ds] ds(1) by (simp only: of_nat_less_iff list_all_iff)
  then have "decimal ds point < 10 ^ length ds * ?u" unfolding decimal_def by (intro mult_strict_right_mono) simp_all
  also have "\<dots> = 10 powi point" using powi_shift [of "point - int (length ds)" "length ds"] by (simp add: mult.commute)
  finally have "decimal ds point < 10 powi point" .
  with lo have "10 powi (-359) < (10 :: real) powi point" by (rule le_less_trans)
  then show "-400 < point" using powi_less_imp [of "-359" point] by linarith
qed

lemma shortest_point_range:
  assumes v: "0 < v" "v < kInfinity" and d: "shortest_decimal v ds point" and ds: "list_all (\<lambda>d. d \<le> 9) ds" "length ds \<le> 21"
  shows "-400 < point" "point < 400"
proof -
  have r: "reads_as v (decimal ds point)" using d by (simp add: shortest_decimal_def Let_def)
  then have "lower_midpoint v \<le> decimal ds point" "decimal ds point \<le> upper_midpoint v" by (auto simp: reads_as_def split: if_splits)
  moreover have "double_value v / 2 \<le> lower_midpoint v" by (simp add: lower_midpoint_def double_value_def del: of_nat_unat)
  moreover have "upper_midpoint v \<le> 2 * double_value v"
  proof -
    have "1 \<le> real (unat (Significand v))" using finite_fields(2) [OF v] by (simp add: Suc_le_eq del: of_nat_unat)
    then have "1 * 2 powi Exponent v \<le> double_value v" unfolding double_value_def by (rule mult_right_mono) simp
    moreover have "0 < (2 :: real) powi Exponent v" by simp
    ultimately show ?thesis unfolding upper_midpoint_eq [OF v(2)] by linarith
  qed
  ultimately show "-400 < point" "point < 400" by (intro point_range [OF v _ _ ds]; linarith)+
qed

lemma precise_point_range:
  assumes v: "0 < v" "v < kInfinity" and d: "precise_decimal v ds point" and ds: "list_all (\<lambda>d. d \<le> 9) ds" "1 \<le> length ds" "length ds \<le> 21"
  shows "-400 < point" "point < 400"
proof -
  obtain p where p: "10 powi (p - 1) \<le> double_value v" "decimal ds point = rounded_to (p - int (length ds)) (double_value v)"
    using d unfolding precise_decimal_def by blast
  let ?u = "10 powi (p - int (length ds)) :: real"
  define z where "z = double_value v / ?u + 1 / 2"
  have u: "0 < ?u" "double_value v / ?u * ?u = double_value v" by simp_all
  have "of_int \<lfloor>z\<rfloor> \<le> z" "z - 1 \<le> of_int \<lfloor>z\<rfloor>" by linarith+
  then have "of_int \<lfloor>z\<rfloor> * ?u \<le> z * ?u" "(z - 1) * ?u \<le> of_int \<lfloor>z\<rfloor> * ?u" by (intro mult_right_mono, simp_all)+
  then have near: "decimal ds point \<le> double_value v + ?u / 2" "double_value v - ?u / 2 \<le> decimal ds point"
    unfolding p(2) rounded_to_def z_def [symmetric] using u(2) by (simp_all add: z_def algebra_simps)
  have "?u \<le> 10 powi (p - 1)" using ds(2) by (intro power_int_increasing) linarith+
  then show "-400 < point" "point < 400" using near p(1) u(1) by (intro point_range [OF v _ _ ds(1,3)]; linarith)+
qed

section \<open>The shortest string\<close>

text \<open>The notation that section 9.8.1 of ECMA-262 prescribes for digits and a point: the integral digits, the fraction and the exponent.\<close>

definition number_parts :: "nat list \<Rightarrow> int \<Rightarrow> nat list \<times> nat list option \<times> (bool \<times> nat list) option" where
  "number_parts ds n =
     (if int (length ds) \<le> n \<and> n \<le> 21 then (ds @ replicate (nat n - length ds) 0, None, None)
      else if 0 < n \<and> n \<le> 21 then (take (nat n) ds, Some (drop (nat n) ds), None)
      else if n \<le> 0 \<and> n > -6 then ([0], Some (replicate (nat (- n)) 0 @ ds), None)
      else ([ds ! 0], if length ds = 1 then None else Some (tl ds), Some (n - 1 < 0, numeral_digits (nat \<bar>n - 1\<bar>))))"

lemma terminated_c_string: "terminated buffer ds \<Longrightarrow> c_string buffer (chars ds)"
proof -
  assume t: "terminated buffer ds"
  then have "buffer = chars ds @ 0 # drop (Suc (length ds)) buffer" using id_take_nth_drop [of "length ds" buffer] by (simp add: terminated_def)
  then show ?thesis unfolding c_string_def by (auto simp: image_iff)
qed

lemma literal_point: "c_string (literal ''0.'') [48, 46]"
  by (simp add: c_string_def literal_def)

lemma finite_kinds:
  assumes "\<not> IsSpecial v" "magnitude v \<noteq> 0"
  shows "\<not> IsNan v" "\<not> IsInfinite v" "\<not> is_zero v" "less_zero v \<longleftrightarrow> Sign v < 0"
  using assms by (auto simp: IsSpecial_def IsNan_def IsInfinite_def is_zero_def magnitude_def less_zero_def Sign_def split: if_splits)

lemma exponent_length: "-400 < n \<Longrightarrow> n < 400 \<Longrightarrow> length (numeral_digits (nat \<bar>n - 1\<bar>)) \<le> 3"
  by (rule numeral_digits_ok(4)) simp_all

lemma StringBuilder_sign:
  "1 \<le> length buffer \<Longrightarrow> (if negative then AddCharacter (StringBuilder buffer) 45 else Some (StringBuilder buffer)) = Some (filled buffer (sign_chars negative))"
  by (auto simp: builder sign_chars_def Suc_le_eq)

lemma DoubleToCString_ok:
  assumes v: "\<not> IsSpecial v" "magnitude v \<noteq> 0" and b: "26 \<le> length buffer"
  obtains result ds point where "DoubleToCString undefined_shift memory v buffer = Some result" "list_all (\<lambda>d. d \<le> 9) ds" "1 \<le> length ds"
    "shortest_decimal (magnitude v) ds point" "-400 < point" "point < 400"
    "case number_parts ds point of (is, f, e) \<Rightarrow> c_string result (numeral_chars (Sign v < 0) is f e)"
proof -
  let ?neg = "Sign v < 0"
  have m: "0 < magnitude v" "magnitude v < kInfinity" using v magnitude_finite by (simp_all add: word_neq_0_conv)
  have room: "18 \<le> length (map memory [0..<kBase10MaximalLength + 1])" by (simp add: kBase10MaximalLength_def)
  obtain rep ds p where a: "DoubleToAscii undefined_shift v DTOA_SHORTEST 0 (map memory [0..<kBase10MaximalLength + 1]) (int (memory 0)) =
        Some (rep, if ?neg then 1 else 0, length ds, p)"
      "terminated rep ds" "1 \<le> length ds" "length ds \<le> 17" "shortest_decimal (magnitude v) ds p"
    using DoubleToAscii_shortest_ok [OF v room] .
  have d9: "list_all (\<lambda>d. d \<le> 9) ds" using a(2) by (simp add: terminated_def)
  have cs: "c_string rep (chars ds)" using a(2) by (rule terminated_c_string)
  have p: "-400 < p" "p < 400" using shortest_point_range [OF m a(5) d9] a(4) by simp_all
  note k = finite_kinds [OF v]
  let ?S = "sign_chars ?neg"
  have S: "length ?S \<le> 1" by (simp add: sign_chars_def)
  have sign: "(if (if ?neg then 1 else 0 :: int) \<noteq> 0 then AddCharacter (StringBuilder buffer) 45 else Some (StringBuilder buffer)) = Some (filled buffer ?S)"
    using StringBuilder_sign [of buffer ?neg] b by (cases ?neg) simp_all
  obtain "is" f e where parts: "number_parts ds p = (is, f, e)" by (cases "number_parts ds p") auto
  let ?text = "numeral_chars ?neg is f e"
  have body: "(if int (length ds) \<le> p \<and> p \<le> 21 then do {
             builder \<leftarrow> AddString (filled buffer ?S) rep;
             AddPadding builder 48 (p - int (length ds))
           }
           else if 0 < p \<and> p \<le> 21 then do {
             builder \<leftarrow> AddSubstring (filled buffer ?S) rep p;
             builder \<leftarrow> AddCharacter builder 46;
             AddString builder (drop (nat p) rep)
           }
           else if p \<le> 0 \<and> p > -6 then do {
             builder \<leftarrow> AddString (filled buffer ?S) (literal ''0.'');
             builder \<leftarrow> AddPadding builder 48 (- p);
             AddString builder rep
           }
           else do {
             c \<leftarrow> buffer_get rep 0;
             builder \<leftarrow> AddCharacter (filled buffer ?S) c;
             builder \<leftarrow> (if length ds \<noteq> 1 then do { builder \<leftarrow> AddCharacter builder 46; AddString builder (drop 1 rep) } else Some builder);
             builder \<leftarrow> AddCharacter builder 101;
             builder \<leftarrow> AddCharacter builder (if p \<ge> 0 then 43 else 45);
             let expo = p - 1;
             AddDecimalInteger builder (if expo < 0 then - expo else expo)
           }) = Some (filled buffer ?text) \<and> length ?text \<le> 25"
    (is "?body = _ \<and> _")
  proof -
    consider (one) "int (length ds) \<le> p \<and> p \<le> 21" | (two) "\<not> int (length ds) \<le> p" "0 < p \<and> p \<le> 21" | (three) "p \<le> 0 \<and> p > -6"
      | (four) "\<not> (int (length ds) \<le> p \<and> p \<le> 21)" "\<not> (0 < p \<and> p \<le> 21)" "\<not> (p \<le> 0 \<and> p > -6)" by blast
    then show ?thesis
    proof cases
      case one
      have n: "nat (p - int (length ds)) = nat p - length ds" by simp
      have "length ds + nat (p - int (length ds)) \<le> 21" using one by linarith
      then have r: "length (?S @ chars ds) + nat (p - int (length ds)) \<le> length buffer" using S b by simp
      have "AddPadding (filled buffer (?S @ chars ds)) 48 (p - int (length ds)) = Some (filled buffer ((?S @ chars ds) @ replicate (nat p - length ds) 48))"
        using AddPadding_text [OF _ r, of 48] n by simp
      then show ?thesis using parts one a(4) b S cs
        by (auto simp: builder number_parts_def numeral_chars_def fraction_chars_def exponent_chars_def nat_le_iff)
    next
      case two
      have "nat p \<le> length ds" using two by simp
      then show ?thesis using parts two a(4) b S cs c_string_drop [OF cs, of "nat p"]
        by (auto simp: builder number_parts_def numeral_chars_def fraction_chars_def exponent_chars_def take_map drop_map)
    next
      case three
      then have "\<not> int (length ds) \<le> p" "nat (- p) \<le> 5" using a(3) by linarith+
      then show ?thesis using parts three a(4) b S cs literal_point
        by (auto simp: builder number_parts_def numeral_chars_def fraction_chars_def exponent_chars_def)
    next
      case four
      obtain d es where ds: "ds = d # es" using a(3) by (cases ds) auto
      have get: "buffer_get rep 0 = Some (48 + d)" using c_string_get [OF cs, of 0] ds by simp
      have rest: "c_string (drop 1 rep) (chars es)" using c_string_drop [OF cs, of 1] ds by simp
      have abs: "(if p - 1 < 0 then - (p - 1) else p - 1) = \<bar>p - 1\<bar>" by simp
      have sg: "(if 0 \<le> p then 43 else 45 :: nat) = (if p - 1 < 0 then 45 else 43)" using four by auto
      have le: "length (numeral_digits (nat \<bar>p - 1\<bar>)) \<le> 3" using p by (rule exponent_length)
      have "?body = do {
             builder \<leftarrow> (if es \<noteq> [] then do { builder \<leftarrow> AddCharacter (filled buffer (?S @ [48 + d])) 46; AddString builder (drop 1 rep) }
               else Some (filled buffer (?S @ [48 + d])));
             builder \<leftarrow> AddCharacter builder 101;
             builder \<leftarrow> AddCharacter builder (if p - 1 < 0 then 45 else 43);
             AddDecimalInteger builder \<bar>p - 1\<bar> }"
        unfolding if_not_P [OF four(1)] if_not_P [OF four(2)] if_not_P [OF four(3)] get Let_def abs sg using b S ds by (simp add: builder)
      also have "\<dots> = Some (filled buffer ?text)"
        using parts four a(4) b S ds rest p le by (cases "es = []") (auto simp: builder number_parts_def numeral_chars_def fraction_chars_def exponent_chars_def)
      moreover have "length ?text \<le> 25"
        using parts four a(4) S ds le by (auto simp: number_parts_def numeral_chars_def fraction_chars_def exponent_chars_def)
      ultimately show ?thesis by simp
    qed
  qed
  have fin: "Finalize (filled buffer ?text) = Some (?text @ 0 # drop (Suc (length ?text)) buffer)" using body b by (intro Finalize_text) auto
  have "DoubleToCString undefined_shift memory v buffer = Some (?text @ 0 # drop (Suc (length ?text)) buffer)"
    unfolding DoubleToCString_def using k(1-3) a(1) sign body fin by (simp add: Let_def)
  then show ?thesis using that [OF _ d9 a(3,5) p] parts c_string_self(1) [of ?text] by simp
qed

lemma dec_padded: "dec (replicate k 0 @ ds) = dec ds" "dec (ds @ replicate k 0) = dec ds * 10 ^ k"
proof -
  have "dec (replicate k 0) = 0" by (induction k) simp_all
  then show "dec (replicate k 0 @ ds) = dec ds" "dec (ds @ replicate k 0) = dec ds * 10 ^ k" by (simp_all add: dec_app)
qed

text \<open>The four notations of a decimal.\<close>

lemma read_shape:
  assumes "list_all (\<lambda>d. d \<le> 9) (is @ fs)" "is \<noteq> []" "\<And>n es. e = Some (n, es) \<Longrightarrow> es \<noteq> [] \<and> list_all (\<lambda>d. d \<le> 9) es"
    and "f = None \<and> fs = [] \<or> f = Some fs" "x = (case e of None \<Rightarrow> 0 | Some (n, es) \<Rightarrow> (if n then -1 else 1) * int (dec es))"
    and "real (dec (is @ fs)) * 10 powi (x - int (length fs)) = y"
  shows "\<exists>m k. read_numeral (numeral_chars negative is f e) = Some (negative, m, k) \<and> real m * 10 powi k = y"
proof -
  have "(case f of None \<Rightarrow> [] | Some fs \<Rightarrow> fs) = fs" using assms(4) by auto
  then have "read_numeral (numeral_chars negative is f e) = Some (negative, dec (is @ fs), x - int (length fs))"
    using read_numeral_chars [of "is" f e negative] assms(1-3,5) by simp
  then show ?thesis using assms(6) by blast
qed

lemma read_notations:
  assumes d: "list_all (\<lambda>d. d \<le> 9) ds" "1 \<le> length ds"
  shows "int (length ds) \<le> n \<Longrightarrow> \<exists>m k. read_numeral (numeral_chars negative (ds @ replicate (nat n - length ds) 0) None None) = Some (negative, m, k) \<and>
      real m * 10 powi k = decimal ds n"
    and "0 < n \<Longrightarrow> n \<le> int (length ds) \<Longrightarrow> \<exists>m k. read_numeral (numeral_chars negative (take (nat n) ds) (Some (drop (nat n) ds)) None) = Some (negative, m, k) \<and>
      real m * 10 powi k = decimal ds n"
    and "n \<le> 0 \<Longrightarrow> \<exists>m k. read_numeral (numeral_chars negative [0] (Some (replicate (nat (- n)) 0 @ ds)) None) = Some (negative, m, k) \<and>
      real m * 10 powi k = decimal ds n"
    and "\<exists>m k. read_numeral (numeral_chars negative [ds ! 0] (if length ds = 1 then None else Some (tl ds)) (Some (n - 1 < 0, numeral_digits (nat \<bar>n - 1\<bar>)))) =
      Some (negative, m, k) \<and> real m * 10 powi k = decimal ds n"
proof -
  obtain d0 es where ds: "ds = d0 # es" using d(2) by (cases ds) auto
  show "\<exists>m k. read_numeral (numeral_chars negative (ds @ replicate (nat n - length ds) 0) None None) = Some (negative, m, k) \<and> real m * 10 powi k = decimal ds n"
    if "int (length ds) \<le> n"
  proof (rule read_shape [where fs = "[]" and x = 0])
    have "n - int (length ds) = int (nat n - length ds)" using that by linarith
    then have "decimal ds n = real (dec ds) * 10 ^ (nat n - length ds)" unfolding decimal_def by (simp only: power_int_of_nat)
    then show "real (dec ((ds @ replicate (nat n - length ds) 0) @ [])) * 10 powi (0 - int (length ([] :: nat list))) = decimal ds n" by (simp add: dec_padded)
  qed (use d ds in \<open>auto simp: list_all_iff\<close>)
  show "\<exists>m k. read_numeral (numeral_chars negative (take (nat n) ds) (Some (drop (nat n) ds)) None) = Some (negative, m, k) \<and> real m * 10 powi k = decimal ds n"
    if "0 < n" "n \<le> int (length ds)"
  proof (rule read_shape [where fs = "drop (nat n) ds" and x = 0])
    have "0 - int (length (drop (nat n) ds)) = n - int (length ds)" using that by simp
    then show "real (dec (take (nat n) ds @ drop (nat n) ds)) * 10 powi (0 - int (length (drop (nat n) ds))) = decimal ds n"
      unfolding decimal_def append_take_drop_id by (simp only:)
  qed (use d ds that in auto)
  show "\<exists>m k. read_numeral (numeral_chars negative [0] (Some (replicate (nat (- n)) 0 @ ds)) None) = Some (negative, m, k) \<and> real m * 10 powi k = decimal ds n"
    if "n \<le> 0"
  proof (rule read_shape [where fs = "replicate (nat (- n)) 0 @ ds" and x = 0])
    have "0 - int (length (replicate (nat (- n)) 0 @ ds)) = n - int (length ds)" using that by simp
    then show "real (dec ([0] @ replicate (nat (- n)) 0 @ ds)) * 10 powi (0 - int (length (replicate (nat (- n)) 0 @ ds))) = decimal ds n"
      by (simp add: decimal_def dec_padded)
  qed (use d in \<open>auto simp: list_all_iff\<close>)
  show "\<exists>m k. read_numeral (numeral_chars negative [ds ! 0] (if length ds = 1 then None else Some (tl ds)) (Some (n - 1 < 0, numeral_digits (nat \<bar>n - 1\<bar>)))) =
      Some (negative, m, k) \<and> real m * 10 powi k = decimal ds n"
    by (rule read_shape [where fs = "tl ds" and x = "n - 1"])
      (use d ds numeral_digits_ok in \<open>auto simp: list_all_iff decimal_def diff_diff_eq\<close>)
qed

lemma number_parts_read:
  assumes d: "list_all (\<lambda>d. d \<le> 9) ds" "1 \<le> length ds" and parts: "number_parts ds n = (is, f, e)"
  shows "\<exists>m k. read_numeral (numeral_chars negative is f e) = Some (negative, m, k) \<and> real m * 10 powi k = decimal ds n"
  using parts read_notations [where n = n and negative = negative, OF d] by (auto simp: number_parts_def split: if_splits)

section \<open>Fixed notation\<close>

lemma take_exact:
  assumes eq: "real (dec R) * 10 powi (int n - int f - int (length R)) = of_int X * 10 powi (- int f)"
    and n: "n \<le> length R" and d: "list_all (\<lambda>d. d \<le> 9) R"
  shows "X = int (dec (take n R))"
proof -
  define j where "j = length R - n"
  have e: "int n - int f - int (length R) = - int f - int j" using n by (simp add: j_def)
  have "real (dec R) = of_int X * 10 ^ j" using eq unfolding e by (simp add: power_int_diff power_int_minus field_simps)
  then have "of_int (int (dec R)) = (of_int (X * 10 ^ j) :: real)" by simp
  then have X: "int (dec R) = X * 10 ^ j" by (simp only: of_int_eq_iff)
  have "dec R = dec (take n R) * 10 ^ j + dec (drop n R)" using dec_app [of "take n R" "drop n R"] by (simp add: j_def)
  moreover have "dec (drop n R) < 10 ^ j" using dec_bound [of "drop n R"] d by (auto simp: j_def list_all_iff dest: in_set_dropD)
  ultimately have "dec R div 10 ^ j = dec (take n R)" by simp
  then have "int (dec R) div 10 ^ j = int (dec (take n R))" using zdiv_int [of "dec R" "10 ^ j"] by simp
  then show ?thesis unfolding X by simp
qed

lemma DoubleToAscii_fixed_any:
  assumes v: "\<not> IsSpecial v" "Exponent (magnitude v) \<le> 20" and n: "n \<le> 20" "41 \<le> length buffer" and und: "undefined_shift 0 (-1) mod 2 = 0"
  obtains buffer' ds point' sign where "DoubleToAscii undefined_shift v DTOA_FIXED (int n) buffer point = Some (buffer', sign, length ds, point')"
    "terminated buffer' ds" "decimal ds point' = rounded_to (- int n) (double_value (magnitude v))"
proof (cases "magnitude v = 0")
  case False
  show ?thesis
    by (rule DoubleToAscii_fixed_ok [where undefined_shift = undefined_shift and n = n and buffer = buffer and point = point, OF v(1) False _ und])
      (use v(2) n that in auto)
next
  case True
  obtain a b rest where b: "buffer = a # b # rest" using n(2) by (cases buffer; cases "tl buffer") auto
  have z: "double_value 0 = 0" by (simp add: double_value_eq bits_value_def)
  show ?thesis
  proof (rule that [of "48 # 0 # rest" _ "[0]" 1])
    show "DoubleToAscii undefined_shift v DTOA_FIXED (int n) buffer point = Some (48 # 0 # rest, if Sign v < 0 then 1 else 0, length [0 :: nat], 1)"
      using DoubleToAscii_zero [OF v(1) True, of DTOA_FIXED "int n" buffer undefined_shift point] b by simp
  qed (simp_all add: terminated_def True z decimal_def rounded_to_def)
qed

lemma padded_digits:
  fixes ds :: "nat list" and point f :: int
  assumes d: "list_all (\<lambda>d. d \<le> 9) ds" "decimal ds point = rounded_to (- f) x" "0 \<le> f"
  defines "z \<equiv> (if point \<le> 0 then - point + 1 else 0)" and "D \<equiv> (if point \<le> 0 then 1 else point)"
  defines "q \<equiv> (if z + int (length ds) < D + f then D + f - int (length ds) - z else 0)"
  defines "R \<equiv> replicate (nat z) 0 @ ds @ replicate (nat q) 0"
  shows "1 \<le> D" "nat (D + f) \<le> length R" "int (length R) = z + int (length ds) + q" "list_all (\<lambda>d. d \<le> 9) R"
    "real (dec (take (nat (D + f)) R)) * 10 powi (- f) = rounded_to (- f) x"
proof -
  have zq: "0 \<le> z" "0 \<le> q" by (auto simp: z_def q_def)
  show D: "1 \<le> D" by (auto simp: D_def)
  show len: "int (length R) = z + int (length ds) + q" using zq by (simp add: R_def)
  show n: "nat (D + f) \<le> length R" using len by (auto simp: q_def split: if_splits)
  show d9: "list_all (\<lambda>d. d \<le> 9) R" using d(1) by (auto simp: R_def list_all_iff)
  have zD: "D - z = point" by (simp add: D_def z_def)
  have "real (dec R) * 10 powi (D - int (length R)) = decimal ds point"
  proof -
    have "dec R = dec ds * 10 ^ nat q" by (simp add: R_def dec_padded dec_padded(2) [of ds "nat q"] del: replicate_append_same)
    moreover have pt: "point - int (length ds) = (D - int (length R)) + int (nat q)" using len zD zq by simp
    ultimately show ?thesis unfolding decimal_def pt powi_shift by simp
  qed
  moreover have "int (nat (D + f)) - int (nat f) - int (length R) = D - int (length R)" using D d(3) by simp
  ultimately have "real (dec R) * 10 powi (int (nat (D + f)) - int (nat f) - int (length R)) = of_int \<lfloor>x / 10 powi (- f) + 1 / 2\<rfloor> * 10 powi (- int (nat f))"
    using d(2,3) by (simp add: rounded_to_def)
  then have "\<lfloor>x / 10 powi (- f) + 1 / 2\<rfloor> = int (dec (take (nat (D + f)) R))" using n d9 by (rule take_exact)
  then show "real (dec (take (nat (D + f)) R)) * 10 powi (- f) = rounded_to (- f) x" by (simp add: rounded_to_def)
qed

lemma new_builder [builder]: "StringBuilder_new memory n = filled (map memory [0..<n]) []"
  by (simp add: StringBuilder_new_def StringBuilder_text)

lemma new_sign:
  "1 \<le> n \<Longrightarrow> (if negative then AddCharacter (StringBuilder_new memory n) 45 else Some (StringBuilder_new memory n)) =
    Some (filled (map memory [0..<n]) (sign_chars negative))"
  using StringBuilder_sign [of "map memory [0..<n]" negative] by (cases negative) (simp_all add: StringBuilder_new_def)

lemma DoubleToFixedCString_ok:
  assumes v: "\<not> IsSpecial v" "magnitude v < kFirstNonFixed" and f: "f \<le> 20" and und: "undefined_shift 0 (-1) mod 2 = 0"
  obtains result "is" fs where "DoubleToFixedCString undefined_shift memory v (int f) = Some result"
    "c_string result (numeral_chars (less_zero v) is (if f = 0 then None else Some fs) None)" "is \<noteq> []" "length fs = f" "list_all (\<lambda>d. d \<le> 9) (is @ fs)"
    "real (dec (is @ fs)) * 10 powi (- int f) = rounded_to (- int f) (double_value (magnitude v))"
proof -
  let ?neg = "less_zero v" and ?m = "map memory"
  have nan: "\<not> IsNan v" using v(1) by (simp add: IsSpecial_def IsNan_def)
  have small: "\<not> (\<not> IsNan v \<and> \<not> Sign (if ?neg then v XOR kSignMask else v) < 0 \<and> (if ?neg then v XOR kSignMask else v) \<ge> kFirstNonFixed)"
    using v(2) nan by (auto simp: magnitude_def less_zero_def not_le split: if_splits)
  have le: "magnitude v \<le> kInfinity" using magnitude_finite [OF v(1)] by simp
  have "unat (magnitude v) < unat kFirstNonFixed" using v(2) by (simp add: word_less_nat_alt)
  then have "unat (magnitude v) div 2 ^ 52 \<le> 0x444" using div_le_mono [of "unat (magnitude v)" "unat kFirstNonFixed" "2 ^ 52"] by (simp add: kFirstNonFixed_def)
  then have e: "Exponent (magnitude v) \<le> 20" unfolding Exponent_eq [OF le] by linarith
  let ?b = "?m [0..<kMaxDigitsBeforePoint + kMaxDigitsAfterPoint + 1]"
  have "41 \<le> length ?b" by (simp add: kMaxDigitsBeforePoint_def kMaxDigitsAfterPoint_def)
  then obtain rep ds p sign where a: "DoubleToAscii undefined_shift v DTOA_FIXED (int f) ?b (int (memory 0)) = Some (rep, sign, length ds, p)"
      "terminated rep ds" "decimal ds p = rounded_to (- int f) (double_value (magnitude v))"
    using DoubleToAscii_fixed_any [where undefined_shift = undefined_shift, OF v(1) e f _ und] by metis
  have d9: "list_all (\<lambda>d. d \<le> 9) ds" using a(2) by (simp add: terminated_def)
  define z D where "z = (if p \<le> 0 then - p + 1 else 0)" and "D = (if p \<le> 0 then 1 else p)"
  define q where "q = (if z + int (length ds) < D + int f then D + int f - int (length ds) - z else 0)"
  define R where "R = replicate (nat z) 0 @ ds @ replicate (nat q) 0"
  note pad = padded_digits [OF d9 a(3) of_nat_0_le_iff, folded z_def D_def, folded q_def, folded R_def]
  have zq: "0 \<le> z" "0 \<le> q" by (auto simp: z_def q_def)
  let ?n = "nat (z + int (length ds) + q + 1)"
  have n: "?n = Suc (nat z + length ds + nat q)" using zq by simp
  have cs: "c_string rep (chars ds)" using a(2) by (rule terminated_c_string)
  have joined: "replicate (nat z) 48 @ chars ds @ replicate (nat q) 48 = chars R" by (simp add: R_def)
  have z0: "0 \<notin> set (chars R)" by auto
  have first: "do {
      rep_builder \<leftarrow> AddPadding (StringBuilder_new memory ?n) 48 z;
      rep_builder \<leftarrow> AddString rep_builder rep;
      rep_builder \<leftarrow> AddPadding rep_builder 48 q;
      Finalize rep_builder } = Finalize (filled (?m [0..<?n]) (chars R))"
    using cs by (simp add: builder n joined [symmetric])
  obtain rep' where r: "Finalize (filled (?m [0..<?n]) (chars R)) = Some rep'" "c_string rep' (chars R)"
    using Finalize_text [OF z0, of "?m [0..<?n]"] c_string_self(1) [OF z0] pad(3) n zq by simp
  let ?k = "nat (D + int f + 2 + 1)" and ?S = "sign_chars ?neg"
  obtain D' where D': "D = int D'" "1 \<le> D'" using pad(1) by (metis nonneg_int_cases of_nat_1 of_nat_le_iff order_trans zero_le_one)
  have k: "?k = D' + f + 3" "nat (D + int f) = D' + f" using D' by simp_all
  have lR: "D' + f \<le> length R" using pad(2) k(2) by simp
  have S: "length ?S \<le> 1" by (simp add: sign_chars_def)
  define "is" fs where "is = take D' R" and "fs = take f (drop D' R)"
  let ?text = "numeral_chars ?neg is (if f = 0 then None else Some fs) None"
  have sg: "(if ?neg then AddCharacter (StringBuilder_new memory ?k) 45 else Some (StringBuilder_new memory ?k)) = Some (filled (?m [0..<?k]) ?S)"
    by (rule new_sign) (unfold k, simp)
  have second: "do {
      builder \<leftarrow> AddSubstring (filled (?m [0..<?k]) ?S) rep' D;
      builder \<leftarrow> (if int f > 0 then do {
          builder \<leftarrow> AddCharacter builder 46;
          AddSubstring builder (drop (nat D) rep') (int f)
        } else Some builder);
      Finalize builder } = Finalize (filled (?m [0..<?k]) ?text)"
    using r(2) c_string_drop [OF r(2), of D'] lR S D'
    by (auto simp: builder k numeral_chars_def fraction_chars_def exponent_chars_def is_def fs_def take_map drop_map)
  have "length ?text \<le> D' + f + 2" using S lR by (auto simp: numeral_chars_def fraction_chars_def exponent_chars_def is_def fs_def)
  then have "length ?text < length (?m [0..<?k])" unfolding length_map length_upt diff_zero k by linarith
  note fin = Finalize_text [OF numeral_chars_nonzero this]
  let ?result = "?text @ 0 # drop (Suc (length ?text)) (?m [0..<?k])"
  have "DoubleToFixedCString undefined_shift memory v (int f) = Some ?result"
  proof -
    have pz: "(if p \<le> 0 then (- p + 1, 1) else (0, p)) = (z, D)" by (simp add: z_def D_def)
    have f20: "\<not> \<not> (0 \<le> int f \<and> int f \<le> int kMaxDigitsAfterPoint)" using f by (simp add: kMaxDigitsAfterPoint_def)
    have "DoubleToFixedCString undefined_shift memory v (int f) = do {
        rep \<leftarrow> do {
          rep_builder \<leftarrow> AddPadding (StringBuilder_new memory ?n) 48 z;
          rep_builder \<leftarrow> AddString rep_builder rep;
          rep_builder \<leftarrow> AddPadding rep_builder 48 q;
          Finalize rep_builder };
        builder \<leftarrow> (if ?neg then AddCharacter (StringBuilder_new memory ?k) 45 else Some (StringBuilder_new memory ?k));
        do {
          builder \<leftarrow> AddSubstring builder rep D;
          builder \<leftarrow> (if int f > 0 then do {
              builder \<leftarrow> AddCharacter builder 46;
              AddSubstring builder (drop (nat D) rep) (int f)
            } else Some builder);
          Finalize builder } }"
      unfolding DoubleToFixedCString_def Let_def if_not_P [OF small] if_not_P [OF f20] a(1) Option.bind.simps prod.case pz q_def [symmetric]
      by (simp only: bind_assoc)
    then show ?thesis unfolding first r(1) Option.bind.simps sg second fin .
  qed
  moreover have "real (dec (is @ fs)) * 10 powi (- int f) = rounded_to (- int f) (double_value (magnitude v))"
    using pad(5) unfolding k(2) by (simp add: is_def fs_def take_add)
  moreover have "is \<noteq> []" "length fs = f" using lR D'(2) by (auto simp: is_def fs_def)
  moreover have "list_all (\<lambda>d. d \<le> 9) (is @ fs)" using pad(4) by (auto simp: is_def fs_def list_all_iff dest!: in_set_takeD in_set_dropD)
  ultimately show ?thesis using that [of ?result "is" fs] c_string_self(1) [OF numeral_chars_nonzero] by blast
qed

section \<open>Exponential notation\<close>

lemma CreateExponentialRepresentation_ok:
  assumes cs: "c_string rep (chars ds)" and ds: "1 \<le> length ds" "length ds \<le> n" and p: "-400 < p" "p < 400"
  defines "E \<equiv> ds @ replicate (n - length ds) 0"
  shows "\<exists>result. CreateExponentialRepresentation memory rep (p - 1) negative (int n) = Some result \<and>
    c_string result (numeral_chars negative [E ! 0] (if length E = 1 then None else Some (tl E)) (Some (p - 1 < 0, numeral_digits (nat \<bar>p - 1\<bar>))))"
proof -
  let ?k = "nat (int n + 7 + 1)" and ?S = "sign_chars negative"
  let ?b = "map memory [0..<?k]"
  let ?text = "numeral_chars negative [E ! 0] (if length E = 1 then None else Some (tl E)) (Some (p - 1 < 0, numeral_digits (nat \<bar>p - 1\<bar>)))"
  have k: "length ?b = n + 8" by simp
  obtain d es where dd: "ds = d # es" using ds(1) by (cases ds) auto
  have S: "length ?S \<le> 1" by (simp add: sign_chars_def)
  have get: "buffer_get rep 0 = Some (48 + d)" using c_string_get [OF cs, of 0] dd by simp
  have rest: "c_string (drop 1 rep) (chars es)" using c_string_drop [OF cs, of 1] dd by simp
  have abs: "(if p - 1 < 0 then - (p - 1) else p - 1) = \<bar>p - 1\<bar>" by simp
  have le: "length (numeral_digits (nat \<bar>p - 1\<bar>)) \<le> 3" using p by (rule exponent_length)
  define j where "j = n - length ds"
  have j: "n = length ds + j" "int n - int (length ds) = int j" using ds(2) by (simp_all add: j_def)
  have E: "E = d # es @ replicate j 0" "length E = n" using dd ds(2) by (simp_all add: E_def j_def)
  have sg: "(if negative then AddCharacter (StringBuilder_new memory ?k) 45 else Some (StringBuilder_new memory ?k)) = Some (filled ?b ?S)"
    by (rule new_sign) simp
  have l: "length ?text \<le> n + 7" using E S le by (auto simp: numeral_chars_def fraction_chars_def exponent_chars_def)
  have "CreateExponentialRepresentation memory rep (p - 1) negative (int n) = do {
      builder \<leftarrow> AddCharacter (filled ?b ?S) (48 + d);
      builder \<leftarrow> (if int n \<noteq> 1 then do {
          builder \<leftarrow> AddCharacter builder 46;
          builder \<leftarrow> AddString builder (drop 1 rep);
          AddPadding builder 48 (int j)
        } else Some builder);
      builder \<leftarrow> AddCharacter builder 101;
      builder \<leftarrow> AddCharacter builder (if p - 1 < 0 then 45 else 43);
      builder \<leftarrow> AddDecimalInteger builder \<bar>p - 1\<bar>;
      Finalize builder }"
    unfolding CreateExponentialRepresentation_def Let_def sg get abs StrLength_c_string [OF cs] Option.bind.simps length_map j(2) ..
  also have "\<dots> = Finalize (filled ?b ?text)"
    using E S le k j(1) dd rest p by (auto simp: builder numeral_chars_def fraction_chars_def exponent_chars_def)
  also have "\<dots> = Some (?text @ 0 # drop (Suc (length ?text)) ?b)" using l k by (intro Finalize_text numeral_chars_nonzero) linarith
  finally show ?thesis using c_string_self(1) [OF numeral_chars_nonzero] by blast
qed

lemma abs_value:
  assumes "\<not> IsSpecial v"
  defines "a \<equiv> (if less_zero v then v XOR kSignMask else v)"
  shows "\<not> IsSpecial a" "magnitude a = magnitude v"
proof -
  have m: "magnitude (magnitude v) = magnitude v" by (simp add: magnitude_eq)
  have "a = v \<or> a = magnitude v" by (auto simp: a_def less_zero_def magnitude_def)
  then show "\<not> IsSpecial a" "magnitude a = magnitude v" using not_special(1) [OF magnitude_finite [OF assms(1)]] assms(1) m by auto
qed

text \<open>The digits of zero are one zero.\<close>

lemma zero_digits:
  assumes "\<not> IsSpecial v" "magnitude v = 0" "mode = DTOA_SHORTEST \<or> 0 \<le> requested_digits" "2 \<le> length buffer"
  shows "\<exists>rep sign. DoubleToAscii undefined_shift v mode requested_digits buffer point = Some (rep, sign, 1, 1) \<and> terminated rep [0]"
proof -
  obtain a b rest where "buffer = a # b # rest" using assms(4) by (cases buffer; cases "tl buffer") auto
  then show ?thesis using DoubleToAscii_zero [OF assms, of undefined_shift point] by (simp add: terminated_def)
qed

text \<open>
  The decimal for a number of significant digits, of a double other than zero or of zero: \<open>y\<close> is the double rounded to \<open>n\<close>
  significant digits.
\<close>

definition significant :: "64 word \<Rightarrow> nat \<Rightarrow> real \<Rightarrow> bool" where
  "significant v n y \<longleftrightarrow>
     (if v = 0 then y = 0
      else \<exists>p. 10 powi (p - 1) \<le> double_value v \<and> double_value v < 10 powi p \<and> y = rounded_to (p - int n) (double_value v))"

lemma precision_digits:
  assumes v: "\<not> IsSpecial v" and n: "1 \<le> n" "n \<le> 21" "n < length buffer"
  obtains rep ds p sign where "DoubleToAscii undefined_shift v DTOA_PRECISION (int n) buffer point = Some (rep, sign, length ds, p)" "terminated rep ds"
    "1 \<le> length ds" "length ds \<le> n" "list_all (\<lambda>d. d \<le> 9) ds" "-400 < p" "p < 400" "significant (magnitude v) n (decimal ds p)"
proof (cases "magnitude v = 0")
  case True
  obtain rep sign where r: "DoubleToAscii undefined_shift v DTOA_PRECISION (int n) buffer point = Some (rep, sign, 1, 1)" "terminated rep [0]"
    using zero_digits [OF v True, of DTOA_PRECISION "int n" buffer undefined_shift point] n by auto
  show ?thesis by (rule that [of rep sign "[0]" 1]) (use r n True in \<open>simp_all add: significant_def decimal_def\<close>)
next
  case False
  have m: "0 < magnitude v" "magnitude v < kInfinity" using v False magnitude_finite by (simp_all add: word_neq_0_conv)
  obtain rep ds p where r: "DoubleToAscii undefined_shift v DTOA_PRECISION (int n) buffer point = Some (rep, if Sign v < 0 then 1 else 0, length ds, p)"
      "terminated rep ds" "length ds = n" "precise_decimal (magnitude v) ds p"
    using DoubleToAscii_precision_ok [OF v False n(1,3)] .
  have d9: "list_all (\<lambda>d. d \<le> 9) ds" using r(2) by (simp add: terminated_def)
  have "-400 < p" "p < 400" using precise_point_range [OF m r(4) d9] r(3) n by simp_all
  moreover have "significant (magnitude v) n (decimal ds p)" using r(3,4) False by (auto simp: significant_def precise_decimal_def)
  ultimately show ?thesis using that [OF r(1,2)] r(3) n(1) d9 by simp
qed

lemma decimal_padded: "decimal (ds @ replicate k 0) p = decimal ds p"
  by (rule decimal_zeros(1))

lemma DoubleToExponentialCString_ok:
  assumes v: "\<not> IsSpecial v" and f: "f \<le> 20"
  obtains result d fs e m k where "DoubleToExponentialCString undefined_shift memory v (int f) = Some result"
    "c_string result (numeral_chars (less_zero v) [d] (if f = 0 then None else Some fs) (Some e))" "length fs = f"
    "read_numeral (numeral_chars (less_zero v) [d] (if f = 0 then None else Some fs) (Some e)) = Some (less_zero v, m, k)"
    "significant (magnitude v) (f + 1) (real m * 10 powi k)"
proof -
  let ?a = "if less_zero v then v XOR kSignMask else v" and ?b = "map memory [0..<kMaxDigitsAfterPoint + 1 + 1]"
  note a = abs_value [OF v]
  have n: "1 \<le> f + 1" "f + 1 \<le> 21" "f + 1 < length ?b" using f by (simp_all add: kMaxDigitsAfterPoint_def)
  obtain rep ds p sign where r: "DoubleToAscii undefined_shift ?a DTOA_PRECISION (int (f + 1)) ?b (int (memory 0)) = Some (rep, sign, length ds, p)"
      "terminated rep ds" "1 \<le> length ds" "length ds \<le> f + 1" "list_all (\<lambda>d. d \<le> 9) ds" "-400 < p" "p < 400"
      "significant (magnitude ?a) (f + 1) (decimal ds p)"
    using precision_digits [OF a(1) n] .
  define E where "E = ds @ replicate (f + 1 - length ds) 0"
  have E: "length E = f + 1" "list_all (\<lambda>d. d \<le> 9) E" "1 \<le> length E" using r(4,5) by (auto simp: E_def list_all_iff)
  obtain result where res: "CreateExponentialRepresentation memory rep (p - 1) (less_zero v) (int (f + 1)) = Some result"
      "c_string result (numeral_chars (less_zero v) [E ! 0] (if length E = 1 then None else Some (tl E)) (Some (p - 1 < 0, numeral_digits (nat \<bar>p - 1\<bar>))))"
    using CreateExponentialRepresentation_ok [OF terminated_c_string [OF r(2)] r(3,4,6,7)] unfolding E_def by blast
  obtain m k where mk: "read_numeral (numeral_chars (less_zero v) [E ! 0] (if length E = 1 then None else Some (tl E)) (Some (p - 1 < 0, numeral_digits (nat \<bar>p - 1\<bar>)))) =
      Some (less_zero v, m, k)" "real m * 10 powi k = decimal E p"
    using read_notations(4) [OF E(2,3)] by blast
  have go: "\<not> \<not> (-1 \<le> int f \<and> int f \<le> int kMaxDigitsAfterPoint)" "int f \<noteq> -1" "\<not> \<not> (0 < length ds \<and> int (length ds) \<le> int f + 1)"
    using f r(3,4) by (auto simp: kMaxDigitsAfterPoint_def)
  have f1: "int f + 1 = int (f + 1)" by simp
  have "DoubleToExponentialCString undefined_shift memory v (int f) = Some result"
    unfolding DoubleToExponentialCString_def Let_def if_not_P [OF go(1)] if_not_P [OF go(2)] f1 r(1) Option.bind.simps prod.case
    using res(1) go(3) by simp
  moreover have "(length E = 1) = (f = 0)" "length (tl E) = f" using E(1) by simp_all
  moreover have "significant (magnitude v) (f + 1) (real m * 10 powi k)" using r(8) unfolding mk(2) a(2) E_def decimal_padded .
  ultimately show ?thesis using that [of result "E ! 0" "tl E"] res(2) mk(1) by simp
qed

section \<open>A number of significant digits\<close>

lemma precision_notation:
  fixes negative :: bool and q :: nat
  assumes cs: "c_string rep (chars ds)" and q: "0 < q" "q \<le> n" and ds: "length ds \<le> n" and b: "length b = n + 3"
  defines "E \<equiv> ds @ replicate (n - length ds) 0"
  defines "t \<equiv> (if q < n then numeral_chars negative (take q E) (Some (drop q E)) None else numeral_chars negative E None None)"
  shows "do {
      builder \<leftarrow> AddSubstring (filled b (sign_chars negative)) rep (min (int (length ds)) (int q));
      builder \<leftarrow> AddPadding builder 48 (int q - int (length ds));
      if int q < int n then do {
        builder \<leftarrow> AddCharacter builder 46;
        builder \<leftarrow> (if int (length ds) > int q then do {
            len \<leftarrow> StrLength (drop q rep);
            pos \<leftarrow> position builder;
            AddSubstring builder (drop q rep) (min (int len) (int n - (pos - (if negative then 2 else 1))))
          } else Some builder);
        pos \<leftarrow> position builder;
        AddPadding builder 48 ((if negative then 2 else 1) + (int n - pos))
      }
      else Some builder } = Some (filled b t) \<and> length t \<le> n + 2"
proof -
  let ?S = "sign_chars negative"
  have S: "length ?S \<le> 1" and extra: "(if negative then 2 else 1) = int (length ?S) + 1" by (simp_all add: sign_chars_def)
  note shapes = numeral_chars_def fraction_chars_def exponent_chars_def
  show ?thesis
  proof (cases "length ds \<le> q")
    case True
    define i j where "i = q - length ds" and "j = n - q"
    have ij: "q = length ds + i" "n = length ds + i + j" using True q(2) by (simp_all add: i_def j_def)
    have E: "E = (ds @ replicate i 0) @ replicate j 0" "take q E = ds @ replicate i 0" "drop q E = replicate j 0"
      using ij by (simp_all add: E_def replicate_add)
    have m: "min (int (length ds)) (int q) = int (length ds)" "int q - int (length ds) = int i" using ij by simp_all
    have pos: "int (length ?S) + 1 + (int n - int (length ?S + q + 1)) = int j" using ij by simp
    have one: "AddSubstring (filled b ?S) rep (int (length ds)) = Some (filled b (?S @ chars ds))"
      using AddSubstring_text [OF cs, of "int (length ds)" ?S b] b S ij by simp
    have two: "AddPadding (filled b (?S @ chars ds)) 48 (int i) = Some (filled b (?S @ chars ds @ replicate i 48))"
      using AddPadding_text [of 48 "?S @ chars ds" "int i" b] b S ij by simp
    show ?thesis
    proof (cases "q < n")
      case False
      then have "j = 0" by (simp add: j_def)
      then have "t = ?S @ chars ds @ replicate i 48" using False E(1) by (simp add: t_def shapes)
      then show ?thesis unfolding m one Option.bind.simps two using False S ij by simp
    next
      case q: True
      let ?T = "?S @ chars ds @ replicate i 48 @ [46]"
      have T: "length ?T = length ?S + q + 1" using ij by simp
      have three: "AddCharacter (filled b (?S @ chars ds @ replicate i 48)) 46 = Some (filled b ?T)"
        using AddCharacter_text [of 46 "?S @ chars ds @ replicate i 48" b] b S ij by simp
      have t: "t = ?T @ replicate j 48" using q E by (simp add: t_def shapes)
      have four: "AddPadding (filled b ?T) 48 (int j) = Some (filled b t)" unfolding t using AddPadding_text [of 48 ?T "int j" b] b S ij by simp
      have no: "int q < int n" "\<not> int (length ds) > int q" using q ij(1) by simp_all
      show ?thesis unfolding m one Option.bind.simps two three if_P [OF no(1)] if_not_P [OF no(2)] position_text extra T pos four
        using S ij t by simp
    qed
  next
    case False
    define i j where "i = length ds - q" and "j = n - length ds"
    have ij: "length ds = q + i" "n = q + i + j" "0 < i" using False ds by (simp_all add: i_def j_def)
    have E: "take q E = take q ds" "drop q E = drop q ds @ replicate j 0" using ij by (simp_all add: E_def j_def)
    have m: "min (int (length ds)) (int q) = int q" using ij by simp
    have cd: "c_string (drop q rep) (chars (drop q ds))" using c_string_drop [OF cs, of q] ij by (simp add: drop_map)
    have one: "AddSubstring (filled b ?S) rep (int q) = Some (filled b (?S @ chars (take q ds)))"
      using AddSubstring_text [OF cs, of "int q" ?S b] b S ij by (simp add: take_map)
    have two: "AddPadding (filled b (?S @ chars (take q ds))) 48 (int q - int (length ds)) = Some (filled b (?S @ chars (take q ds)))"
      using ij by (simp add: AddPadding_def)
    let ?T = "?S @ chars (take q ds) @ [46]"
    have T: "length ?T = length ?S + q + 1" "length (?T @ chars (drop q ds)) = length ?S + 1 + length ds" using ij by simp_all
    have three: "AddCharacter (filled b (?S @ chars (take q ds))) 46 = Some (filled b ?T)"
      using AddCharacter_text [of 46 "?S @ chars (take q ds)" b] b S ij by simp
    have mm: "min (int (length (chars (drop q ds)))) (int n - (int (length ?S + q + 1) - (int (length ?S) + 1))) = int i" using ij by simp
    have four: "AddSubstring (filled b ?T) (drop q rep) (int i) = Some (filled b (?T @ chars (drop q ds)))"
      using AddSubstring_text [OF cd, of "int i" ?T b] b S ij by simp
    have pos: "int (length ?S) + 1 + (int n - int (length ?S + 1 + length ds)) = int j" using ij by simp
    have t: "t = (?T @ chars (drop q ds)) @ replicate j 48" using E ij by (simp add: t_def shapes)
    have five: "AddPadding (filled b (?T @ chars (drop q ds))) 48 (int j) = Some (filled b t)" unfolding t
      using AddPadding_text [of 48 "?T @ chars (drop q ds)" "int j" b] b S ij by simp
    have yes: "int q < int n" "int (length ds) > int q" using ij by simp_all
    show ?thesis unfolding m one Option.bind.simps two three if_P [OF yes(1)] if_P [OF yes(2)] position_text extra StrLength_c_string [OF cd] T mm four pos five
      using S ij t by simp
  qed
qed

lemma DoubleToPrecisionCString_ok:
  assumes v: "\<not> IsSpecial v" and n: "1 \<le> n" "n \<le> 21"
  obtains result "is" f e m k where "DoubleToPrecisionCString undefined_shift memory v (int n) = Some result"
    "c_string result (numeral_chars (less_zero v) is f e)"
    "read_numeral (numeral_chars (less_zero v) is f e) = Some (less_zero v, m, k)" "significant (magnitude v) n (real m * 10 powi k)"
proof -
  note obtained = that
  let ?a = "if less_zero v then v XOR kSignMask else v" and ?b = "map memory [0..<21 + 1]" and ?neg = "less_zero v"
  note a = abs_value [OF v]
  have n22: "n < length ?b" using n by simp
  obtain rep ds p sign where r: "DoubleToAscii undefined_shift ?a DTOA_PRECISION (int n) ?b (int (memory 0)) = Some (rep, sign, length ds, p)"
      "terminated rep ds" "1 \<le> length ds" "length ds \<le> n" "list_all (\<lambda>d. d \<le> 9) ds" "-400 < p" "p < 400"
      "significant (magnitude ?a) n (decimal ds p)"
    using precision_digits [OF a(1) n n22] .
  have cs: "c_string rep (chars ds)" using r(2) by (rule terminated_c_string)
  define E where "E = ds @ replicate (n - length ds) 0"
  have E: "length E = n" "list_all (\<lambda>d. d \<le> 9) E" "1 \<le> length E" using r(3,4,5) by (auto simp: E_def list_all_iff)
  note rd = read_notations [where n = p and negative = ?neg, OF E(2,3)]
  have sig: "significant (magnitude v) n (decimal E p)" using r(8) unfolding a(2) E_def decimal_padded .
  have go: "\<not> \<not> (1 \<le> int n \<and> int n \<le> 21)" "\<not> \<not> int (length ds) \<le> int n" using n r(4) by simp_all
  note unf = DoubleToPrecisionCString_def Let_def if_not_P [OF go(1)] r(1) Option.bind.simps prod.case if_not_P [OF go(2)]
  show ?thesis
  proof (cases "p - 1 < -6 \<or> p - 1 \<ge> int n")
    case True
    obtain result where res: "CreateExponentialRepresentation memory rep (p - 1) ?neg (int n) = Some result"
        "c_string result (numeral_chars ?neg [E ! 0] (if length E = 1 then None else Some (tl E)) (Some (p - 1 < 0, numeral_digits (nat \<bar>p - 1\<bar>))))"
      using CreateExponentialRepresentation_ok [OF cs r(3,4,6,7)] unfolding E_def by blast
    obtain m k where mk: "read_numeral (numeral_chars ?neg [E ! 0] (if length E = 1 then None else Some (tl E)) (Some (p - 1 < 0, numeral_digits (nat \<bar>p - 1\<bar>)))) =
        Some (?neg, m, k)" "real m * 10 powi k = decimal E p" using rd(4) by blast
    have "DoubleToPrecisionCString undefined_shift memory v (int n) = Some result" unfolding unf if_P [OF True] res(1) ..
    then show ?thesis using obtained res(2) mk sig by simp
  next
    case F: False
    let ?k = "nat ((if p \<le> 0 then - p + int n + 3 else int n + 2) + 1)" and ?S = "sign_chars ?neg"
    define B where "B = map memory [0..<?k]"
    have sg: "(if ?neg then AddCharacter (StringBuilder_new memory ?k) 45 else Some (StringBuilder_new memory ?k)) = Some (filled B ?S)"
      unfolding B_def by (rule new_sign) (simp, arith)
    have S: "length ?S \<le> 1" by (simp add: sign_chars_def)
    have fin: "DoubleToPrecisionCString undefined_shift memory v (int n) = Some (numeral_chars ?neg is f e @ 0 # drop (Suc (length (numeral_chars ?neg is f e))) B)"
      if "(if p \<le> 0 then do {
             builder \<leftarrow> AddString (filled B ?S) (literal ''0.'');
             builder \<leftarrow> AddPadding builder 48 (- p);
             builder \<leftarrow> AddString builder rep;
             AddPadding builder 48 (int n - int (length ds))
           }
           else do {
             builder \<leftarrow> AddSubstring (filled B ?S) rep (min (int (length ds)) p);
             builder \<leftarrow> AddPadding builder 48 (p - int (length ds));
             if p < int n then do {
               builder \<leftarrow> AddCharacter builder 46;
               builder \<leftarrow> (if int (length ds) > p then do {
                   len \<leftarrow> StrLength (drop (nat p) rep);
                   pos \<leftarrow> position builder;
                   AddSubstring builder (drop (nat p) rep) (min (int len) (int n - (pos - (if ?neg then 2 else 1))))
                 } else Some builder);
               pos \<leftarrow> position builder;
               AddPadding builder 48 ((if ?neg then 2 else 1) + (int n - pos))
             }
             else Some builder
           }) = Some (filled B (numeral_chars ?neg is f e))" "length (numeral_chars ?neg is f e) < length B" for "is" f e
      unfolding unf if_not_P [OF F] sg that(1) by (rule Finalize_text [OF numeral_chars_nonzero that(2)])
    have finish: thesis if "(\<exists>m k. read_numeral (numeral_chars ?neg is f e) = Some (?neg, m, k) \<and> real m * 10 powi k = decimal E p)"
        "DoubleToPrecisionCString undefined_shift memory v (int n) = Some (numeral_chars ?neg is f e @ 0 # drop (Suc (length (numeral_chars ?neg is f e))) B)" for "is" f e
      using that(1) obtained [OF that(2) c_string_self(1) [OF numeral_chars_nonzero]] sig by auto
    show ?thesis
    proof (cases "p \<le> 0")
      case True
      define j i where "j = n - length ds" and "i = nat (- p)"
      have j: "n = length ds + j" "int n - int (length ds) = int j" "E = ds @ replicate j 0" "- p = int i" using r(4) True by (simp_all add: j_def E_def i_def)
      have k: "length B = i + n + 4" using True by (simp add: i_def B_def)
      show ?thesis
      proof (rule finish [OF rd(3) [OF True] fin])
        show "length (numeral_chars ?neg [0] (Some (replicate (nat (- p)) 0 @ E)) None) < length B"
          unfolding k j(4) using S j(1,3) by (simp add: numeral_chars_def fraction_chars_def exponent_chars_def)
      qed (unfold if_P [OF True] j(2,4) nat_int, use literal_point cs k S j(1,3) in
        \<open>simp add: builder numeral_chars_def fraction_chars_def exponent_chars_def\<close>)
    next
      case False
      define q where "q = nat p"
      have q: "p = int q" "0 < q" "q \<le> n" "nat p = q" using False F by (auto simp: q_def)
      have k: "length B = n + 3" using False by (simp add: B_def)
      note body = precision_notation [OF cs q(2,3) r(4) k, of ?neg, folded E_def, folded q(1), folded q(4)]
      show ?thesis
      proof (cases "q < n")
        case True
        show ?thesis
          by (rule finish [OF rd(2) fin]) (use body True False q E k in auto)
      next
        case nq: False
        have "E @ replicate (nat p - length E) 0 = E" using nq q E(1) by simp
        then show ?thesis using finish [OF rd(1) [unfolded \<open>E @ replicate (nat p - length E) 0 = E\<close>] fin] body nq False q E k by auto
      qed
    qed
  qed
qed

section \<open>The shortest digits in exponential notation\<close>

lemma DoubleToExponentialCString_shortest_ok:
  assumes v: "\<not> IsSpecial v" "magnitude v \<noteq> 0"
  obtains result d f e m k ds p where "DoubleToExponentialCString undefined_shift memory v (-1) = Some result"
    "c_string result (numeral_chars (less_zero v) [d] f (Some e))"
    "read_numeral (numeral_chars (less_zero v) [d] f (Some e)) = Some (less_zero v, m, k)"
    "real m * 10 powi k = decimal ds p" "shortest_decimal (magnitude v) ds p"
proof -
  let ?a = "if less_zero v then v XOR kSignMask else v" and ?b = "map memory [0..<kMaxDigitsAfterPoint + 1 + 1]"
  note a = abs_value [OF v(1)]
  have m: "0 < magnitude v" "magnitude v < kInfinity" using v magnitude_finite by (simp_all add: word_neq_0_conv)
  have a0: "magnitude ?a \<noteq> 0" unfolding a(2) by (rule v(2))
  have n: "18 \<le> length ?b" by (simp add: kMaxDigitsAfterPoint_def)
  obtain rep ds p where r: "DoubleToAscii undefined_shift ?a DTOA_SHORTEST 0 ?b (int (memory 0)) = Some (rep, if Sign ?a < 0 then 1 else 0, length ds, p)"
      "terminated rep ds" "1 \<le> length ds" "length ds \<le> 17" "shortest_decimal (magnitude ?a) ds p"
    by (rule DoubleToAscii_shortest_ok [OF a(1) a0 n])
  have d9: "list_all (\<lambda>d. d \<le> 9) ds" using r(2) by (simp add: terminated_def)
  have sd: "shortest_decimal (magnitude v) ds p" using r(5) unfolding a(2) .
  have p: "-400 < p" "p < 400" using shortest_point_range [OF m sd d9] r(4) by simp_all
  obtain result where res: "CreateExponentialRepresentation memory rep (p - 1) (less_zero v) (int (length ds)) = Some result"
      "c_string result (numeral_chars (less_zero v) [ds ! 0] (if length ds = 1 then None else Some (tl ds)) (Some (p - 1 < 0, numeral_digits (nat \<bar>p - 1\<bar>))))"
    using CreateExponentialRepresentation_ok [OF terminated_c_string [OF r(2)] r(3) order.refl p, of memory "less_zero v"]
    unfolding diff_self_eq_0 replicate_0 append_Nil2 by blast
  obtain m k where mk: "read_numeral (numeral_chars (less_zero v) [ds ! 0] (if length ds = 1 then None else Some (tl ds)) (Some (p - 1 < 0, numeral_digits (nat \<bar>p - 1\<bar>)))) =
      Some (less_zero v, m, k)" "real m * 10 powi k = decimal ds p"
    using read_notations(4) [OF d9 r(3)] by blast
  have go: "\<not> \<not> (-1 \<le> (-1 :: int) \<and> -1 \<le> int kMaxDigitsAfterPoint)" "\<not> \<not> (0 < length ds \<and> int (length ds) \<le> int (length ds) - 1 + 1)" using r(3) by auto
  have "DoubleToExponentialCString undefined_shift memory v (-1) = Some result"
    unfolding DoubleToExponentialCString_def Let_def if_not_P [OF go(1)] if_P [OF refl] r(1) Option.bind.simps prod.case if_not_P [OF go(2)]
    using res(1) by simp
  then show ?thesis using that res(2) mk sd by blast
qed

section \<open>Integers\<close>

lemma numeral_digits_rec: "numeral_digits n = (if n div 10 = 0 then [n mod 10] else numeral_digits (n div 10) @ [n mod 10])"
  by (auto simp: numeral_digits_def digits.simps [of n] digits.simps [of 0])

lemma digits_loop_ok:
  "length (numeral_digits n) \<le> i \<Longrightarrow> i \<le> length buffer \<Longrightarrow>
   digits_loop n buffer i = Some (take (i - length (numeral_digits n)) buffer @ chars (numeral_digits n) @ drop i buffer, i - length (numeral_digits n))"
proof (induction n buffer i rule: digits_loop.induct)
  case (1 n buffer i)
  let ?b = "buffer[i - 1 := 48 + n mod 10]"
  have i: "0 < i" using 1(2) numeral_digits_ok(1) [of n] by (cases i) auto
  have put: "buffer_put buffer (i - 1) (48 + n mod 10) = Some ?b" using i 1(3) by (simp add: buffer_put_def)
  have drop: "drop (i - 1) ?b = (48 + n mod 10) # drop i buffer" using i 1(3) by (cases i) (simp_all add: drop_update_swap Cons_nth_drop_Suc [symmetric])
  show ?case
  proof (cases "n div 10 = 0")
    case True
    then have "digits_loop n buffer i = Some (?b, i - 1)" using i put by (subst digits_loop.simps) simp
    moreover have "?b = take (i - 1) buffer @ (48 + n mod 10) # drop i buffer" using append_take_drop_id [of "i - 1" ?b] unfolding drop by simp
    ultimately show ?thesis using True drop numeral_digits_rec [of n] by simp
  next
    case False
    then have l: "length (numeral_digits n) = Suc (length (numeral_digits (n div 10)))" using numeral_digits_rec [of n] by simp
    have "digits_loop n buffer i = digits_loop (n div 10) ?b (i - 1)" using i put False by (subst digits_loop.simps) simp
    also have "\<dots> = Some (take (i - 1 - length (numeral_digits (n div 10))) ?b @ chars (numeral_digits (n div 10)) @ drop (i - 1) ?b,
        i - 1 - length (numeral_digits (n div 10)))"
      using 1(1) [of ?b] i put False 1(2,3) l by simp
    finally show ?thesis using drop l False numeral_digits_rec [of n] by simp
  qed
qed

lemma IntToCString_ok:
  assumes n: "kMinInt < n" "n < 2 ^ 31" and b: "12 \<le> length buffer"
  shows "\<exists>result. IntToCString undefined_shift memory n buffer = Some result \<and> c_string result (numeral_chars (n < 0) (numeral_digits (nat \<bar>n\<bar>)) None None)"
proof -
  define m l where "m = nat \<bar>n\<bar>" and "l = length (numeral_digits m)"
  have "m < 10 ^ 10" using n by (auto simp: m_def kMinInt_def)
  then have l: "l \<le> 10" unfolding l_def by (intro numeral_digits_ok(4)) simp_all
  let ?i = "length buffer" and ?b = "buffer[length buffer - 1 := 0]"
  have put: "buffer_put buffer (?i - 1) 0 = Some ?b" using b by (simp add: buffer_put_def)
  have drop: "drop (?i - 1) ?b = [0]" using b by (cases buffer rule: rev_cases) simp_all
  let ?c = "take (?i - 1 - l) ?b @ chars (numeral_digits m) @ [0]"
  have loop: "digits_loop m ?b (?i - 1) = Some (?c, ?i - 1 - l)"
    using digits_loop_ok [of m "?i - 1" ?b] l b drop unfolding l_def [symmetric] by simp
  have i: "?i \<noteq> 0" "?i - 1 - l \<noteq> 0" "?i - 1 - l < length ?c" using b l by (auto simp: l_def [symmetric])
  have len: "length (take (?i - 1 - l) ?b) = ?i - 1 - l" by simp
  have neq: "n \<noteq> kMinInt" using n(1) by simp
  note unf = IntToCString_def if_not_P [OF neq] Let_def if_not_P [OF i(1)] put Option.bind.simps m_def [symmetric] loop prod.case
  show ?thesis
  proof (cases "n < 0")
    case False
    have "IntToCString undefined_shift memory n buffer = Some (chars (numeral_digits m) @ [0])"
      unfolding unf if_not_P [OF False] using len by simp
    then show ?thesis using False unfolding m_def [symmetric]
      by (auto simp: numeral_chars_def sign_chars_def fraction_chars_def exponent_chars_def c_string_def)
  next
    case True
    have "drop (?i - 1 - l - 1) (?c[?i - 1 - l - 1 := 45]) = 45 # chars (numeral_digits m) @ [0]"
    proof -
      have "drop (k - 1) ((P @ X)[k - 1 := c]) = c # X" if "length P = k" "k \<noteq> 0" for P X :: "nat list" and k c
        using that by (cases P rule: rev_cases) (auto simp: list_update_append)
      from this [OF len i(2)] show ?thesis .
    qed
    then have "IntToCString undefined_shift memory n buffer = Some (45 # chars (numeral_digits m) @ [0])"
      unfolding unf if_P [OF True] if_not_P [OF i(2)] using i by (simp add: buffer_put_def)
    then show ?thesis using True unfolding m_def [symmetric]
      by (auto simp: numeral_chars_def sign_chars_def fraction_chars_def exponent_chars_def c_string_def)
  qed
qed

section \<open>Properties\<close>

text \<open>
  C16. The string of a number reads back as the number.  For every finite double other than zero, \<open>DoubleToCString\<close> writes a numeral of
  at most 25 characters into the buffer it is given; no write is out of range.  The numeral has the sign of the double, and its value lies
  between the midpoints to the neighbours of the double (including them if the significand is even), in each of the four notations: no
  double is closer to it, and one at the same distance only if the significand is even.
\<close>

theorem DoubleToCString_reads_back:
  assumes "\<not> IsSpecial v" "magnitude v \<noteq> 0" "26 \<le> length buffer"
  shows "\<exists>result s m k. DoubleToCString undefined_shift memory v buffer = Some result \<and> c_string result s \<and>
    read_numeral s = Some (Sign v < 0, m, k) \<and> reads_as (magnitude v) (real m * 10 powi k) \<and>
    (\<forall>w. w < kInfinity \<and> w \<noteq> magnitude v \<longrightarrow>
       \<bar>real m * 10 powi k - double_value (magnitude v)\<bar> \<le> \<bar>real m * 10 powi k - double_value w\<bar> \<and>
       (\<bar>real m * 10 powi k - double_value (magnitude v)\<bar> = \<bar>real m * 10 powi k - double_value w\<bar> \<longrightarrow> Significand (magnitude v) AND 1 = 0))"
proof -
  have pos: "0 < magnitude v" "magnitude v < kInfinity" using assms(1,2) magnitude_finite by (simp_all add: word_neq_0_conv)
  obtain result ds p where r: "DoubleToCString undefined_shift memory v buffer = Some result" "list_all (\<lambda>d. d \<le> 9) ds" "1 \<le> length ds"
    "shortest_decimal (magnitude v) ds p" "case number_parts ds p of (is, f, e) \<Rightarrow> c_string result (numeral_chars (Sign v < 0) is f e)"
    by (rule DoubleToCString_ok [OF assms])
  obtain "is" f e where parts: "number_parts ds p = (is, f, e)" by (cases "number_parts ds p") auto
  obtain m k where mk: "read_numeral (numeral_chars (Sign v < 0) is f e) = Some (Sign v < 0, m, k)" "real m * 10 powi k = decimal ds p"
    using number_parts_read [OF r(2,3) parts, of "Sign v < 0"] by blast
  have x: "reads_as (magnitude v) (real m * 10 powi k)" using r(4) unfolding mk(2) by (simp add: shortest_decimal_def Let_def)
  have "c_string result (numeral_chars (Sign v < 0) is f e)" using r(5) parts by simp
  then show ?thesis using r(1) mk(1) x reads_as_nearest [OF pos x] by blast
qed

theorem DoubleToCString_reads_back_witness:
  "\<exists>result s m k. DoubleToCString (\<lambda>_ _. 0) (\<lambda>_. 7) 0xC4B52D02C7E14AF6 (replicate 100 0) = Some result \<and> c_string result s \<and>
    read_numeral s = Some (True, m, k) \<and> reads_as 0x44B52D02C7E14AF6 (real m * 10 powi k)"
proof -
  let ?v = "0xC4B52D02C7E14AF6 :: 64 word"
  have v: "\<not> IsSpecial ?v" "Sign ?v < 0" "magnitude ?v = 0x44B52D02C7E14AF6" by (simp_all add: IsSpecial_def Sign_def magnitude_def kExponentMask_def kSignMask_def)
  have "magnitude ?v \<noteq> 0" "26 \<le> length (replicate 100 (0 :: nat))" unfolding v(3) by simp_all
  from DoubleToCString_reads_back [OF v(1) this, of "\<lambda>_ _. 0" "\<lambda>_. 7"] show ?thesis using v(2,3) by auto
qed



text \<open>
  C21. \<open>toExponential\<close>.  For every finite double and \<open>f\<close> between 0 and 20, \<open>DoubleToExponentialCString\<close> returns a numeral with one digit before
  and \<open>f\<close> digits after the point and an exponent, which denotes the double rounded to \<open>f + 1\<close> significant digits, halfway cases up (and
  zero for zero); the buffer of \<open>f + 9\<close> characters is large enough for every exponent.
\<close>

theorem DoubleToExponentialCString_rounds:
  assumes "\<not> IsSpecial v" "f \<le> 20"
  shows "\<exists>result d fs e m k. DoubleToExponentialCString undefined_shift memory v (int f) = Some result \<and>
    c_string result (numeral_chars (less_zero v) [d] (if f = 0 then None else Some fs) (Some e)) \<and> length fs = f \<and>
    read_numeral (numeral_chars (less_zero v) [d] (if f = 0 then None else Some fs) (Some e)) = Some (less_zero v, m, k) \<and>
    significant (magnitude v) (f + 1) (real m * 10 powi k)"
  by (rule DoubleToExponentialCString_ok [OF assms]) blast

theorem DoubleToExponentialCString_rounds_witness:
  "\<exists>result d fs e m k. DoubleToExponentialCString (\<lambda>_ _. 0) (\<lambda>_. 7) 0x3FD3333333333333 (int 3) = Some result \<and>
    c_string result (numeral_chars False [d] (Some fs) (Some e)) \<and> length fs = 3 \<and> significant 0x3FD3333333333333 4 (real m * 10 powi k)"
proof -
  let ?v = "0x3FD3333333333333 :: 64 word"
  have v: "\<not> IsSpecial ?v" "\<not> less_zero ?v" "magnitude ?v = ?v"
    by (simp_all add: IsSpecial_def less_zero_def Sign_def magnitude_def kExponentMask_def kSignMask_def)
  from DoubleToExponentialCString_rounds [OF v(1), of 3 "\<lambda>_ _. 0" "\<lambda>_. 7"] show ?thesis using v(2,3) by simp blast
qed



text \<open>
  C24. The string of an integer is its numeral.  For every 32-bit integer but the smallest one (which is converted as a double, because its
  absolute value is not an integer of that size) and a buffer of 12 characters, \<open>IntToCString\<close> returns a string inside the buffer that
  reads back as the integer.
\<close>

theorem IntToCString_reads_back:
  assumes "kMinInt < n" "n < 2 ^ 31" "12 \<le> length buffer"
  shows "\<exists>result s. IntToCString undefined_shift memory n buffer = Some result \<and> c_string result s \<and> read_numeral s = Some (n < 0, nat \<bar>n\<bar>, 0)"
proof -
  have "read_numeral (numeral_chars (n < 0) (numeral_digits (nat \<bar>n\<bar>)) None None) = Some (n < 0, dec (numeral_digits (nat \<bar>n\<bar>)), 0)"
    using read_numeral_chars [of "numeral_digits (nat \<bar>n\<bar>)" None None "n < 0"] numeral_digits_ok [of "nat \<bar>n\<bar>"] by (simp add: list_all_iff)
  then show ?thesis using IntToCString_ok [OF assms, of undefined_shift memory] numeral_digits_ok(3) by auto
qed

theorem IntToCString_reads_back_witness:
  "\<exists>result s. IntToCString (\<lambda>_ _. 0) (\<lambda>_. 7) (-2147483647) (replicate 12 0) = Some result \<and> c_string result s \<and>
    read_numeral s = Some (True, 2147483647, 0)"
  using IntToCString_reads_back [of "-2147483647" "replicate 12 0" "\<lambda>_ _. 0" "\<lambda>_. 7"] by (simp add: kMinInt_def)

end
