(* ===== verification/Dictionary.thy ===== *)
theory Dictionary
  imports W16_Prelude
begin

text \<open>
  The contract of the two dictionaries of the virtual machine, the splay trees of
  \<^verbatim>\<open>src/splay-tree-inl.h\<close> and the hash maps of \<^verbatim>\<open>src/hashmap.cc\<close>: an abstraction to a partial map and
  an invariant.  Operations may fail, and both kinds of dictionary rearrange themselves on lookups.
  The client lemma is proved once: a sequence of operations on an empty dictionary does not
  fail and answers like the map.
\<close>

text \<open>Looking a key up and setting its value answer with the value found; removing a key has no answer.\<close>

datatype ('k, 'v) request = Get 'k | Put 'k 'v | Delete 'k

fun on_class :: "('k \<Rightarrow> 'c) \<Rightarrow> ('k, 'v) request \<Rightarrow> ('c, 'v) request" where
  "on_class cls (Get k) = Get (cls k)"
| "on_class cls (Put k v) = Put (cls k) v"
| "on_class cls (Delete k) = Delete (cls k)"

lemma on_class_id [simp]: "on_class id = id"
proof
  show "on_class id r = id r" for r :: "('a, 'b) request" by (cases r) simp_all
qed

fun spec_step :: "('k, 'v) request \<Rightarrow> ('k \<rightharpoonup> 'v) \<Rightarrow> ('k \<rightharpoonup> 'v) \<times> 'v option" where
  "spec_step (Get k) m = (m, m k)"
| "spec_step (Put k v) m = (m(k \<mapsto> v), m k)"
| "spec_step (Delete k) m = (m(k := None), None)"

fun spec_run :: "('k, 'v) request list \<Rightarrow> ('k \<rightharpoonup> 'v) \<Rightarrow> ('k \<rightharpoonup> 'v) \<times> 'v option list" where
  "spec_run [] m = (m, [])"
| "spec_run (r # rs) m =
     (let (m, a) = spec_step r m; (m, as) = spec_run rs m in (m, a # as))"

fun dict_run :: "(('k, 'v) request \<Rightarrow> 's \<Rightarrow> ('s \<times> 'v option) option) \<Rightarrow> ('k, 'v) request list \<Rightarrow> 's \<Rightarrow> ('s \<times> 'v option list) option" where
  "dict_run step [] s = Some (s, [])"
| "dict_run step (r # rs) s =
     (case step r s of
        None \<Rightarrow> None
      | Some (s, a) \<Rightarrow> (case dict_run step rs s of None \<Rightarrow> None | Some (s, as) \<Rightarrow> Some (s, a # as)))"

text \<open>
  \<open>cls\<close> maps a key to what the dictionary compares of it; \<open>room s n\<close> says that \<open>n\<close> more insertions are possible: hash maps have a largest capacity, trees
  have no bound.
\<close>

locale dictionary =
  fixes step :: "('k, 'v) request \<Rightarrow> 's \<Rightarrow> ('s \<times> 'v option) option" and cls :: "'k \<Rightarrow> 'c"
    and empty :: 's and ok :: "'s \<Rightarrow> bool" and contents :: "'s \<Rightarrow> ('c \<rightharpoonup> 'v)" and room :: "'s \<Rightarrow> nat \<Rightarrow> bool"
  assumes ok_empty: "ok empty" and contents_empty: "contents empty = Map.empty"
    and step_ok: "ok s \<Longrightarrow> room s (Suc n) \<Longrightarrow>
      \<exists>s' a. step r s = Some (s', a) \<and> ok s' \<and> room s' n \<and> (contents s', a) = spec_step (on_class cls r) (contents s)"
begin

lemma run_from:
  "ok s \<Longrightarrow> room s (length rs) \<Longrightarrow>
   \<exists>s' as. dict_run step rs s = Some (s', as) \<and> ok s' \<and> (contents s', as) = spec_run (map (on_class cls) rs) (contents s)"
proof (induction rs arbitrary: s)
  case (Cons r rs)
  obtain s1 a where 1: "step r s = Some (s1, a)" "ok s1" "room s1 (length rs)"
      "(contents s1, a) = spec_step (on_class cls r) (contents s)"
    using step_ok [OF Cons.prems(1), of "length rs" r] Cons.prems(2) by auto
  then obtain s2 as where "dict_run step rs s1 = Some (s2, as)" "ok s2" "(contents s2, as) = spec_run (map (on_class cls) rs) (contents s1)"
    using Cons.IH by blast
  then show ?case using 1 by (auto simp: Let_def split: prod.splits)
qed simp

lemma run_refines_map:
  "room empty (length rs) \<Longrightarrow>
   \<exists>s as. dict_run step rs empty = Some (s, as) \<and> ok s \<and> (contents s, as) = spec_run (map (on_class cls) rs) Map.empty"
  using run_from [OF ok_empty] contents_empty by simp

end

section \<open>Ordered dictionaries\<close>

text \<open>The entry with the greatest key that is not above a bound, and the one with the least key that is not below it.\<close>

definition greatest_entry :: "('k :: linorder \<rightharpoonup> 'v) \<Rightarrow> 'k \<Rightarrow> ('k \<times> 'v) option \<Rightarrow> bool" where
  "greatest_entry m key e =
     (case e of None \<Rightarrow> \<forall>x\<in>dom m. key < x | Some (k, v) \<Rightarrow> m k = Some v \<and> k \<le> key \<and> (\<forall>x\<in>dom m. x \<le> key \<longrightarrow> x \<le> k))"

definition least_entry :: "('k :: linorder \<rightharpoonup> 'v) \<Rightarrow> 'k \<Rightarrow> ('k \<times> 'v) option \<Rightarrow> bool" where
  "least_entry m key e =
     (case e of None \<Rightarrow> \<forall>x\<in>dom m. x < key | Some (k, v) \<Rightarrow> m k = Some v \<and> key \<le> k \<and> (\<forall>x\<in>dom m. key \<le> x \<longrightarrow> k \<le> x))"

lemma greatest_entry_bound:
  assumes "greatest_entry m c e" "m k = Some v" "k \<le> c"
  shows "\<exists>k' v'. e = Some (k', v') \<and> m k' = Some v' \<and> k' \<le> c \<and> k \<le> k'"
proof -
  have "k \<in> dom m" using assms(2) by blast
  then show ?thesis using assms(1,3) by (cases e) (auto simp: greatest_entry_def dest: leD)
qed

text \<open>Entries as intervals from the key to an upper bound, no two of which overlap.\<close>

definition disjoint :: "('v \<Rightarrow> 'k :: linorder) \<Rightarrow> ('k \<rightharpoonup> 'v) \<Rightarrow> bool" where
  "disjoint upper m \<longleftrightarrow> (\<forall>k v k'. m k = Some v \<longrightarrow> k' \<in> dom m \<longrightarrow> k < k' \<longrightarrow> upper v < k')"

definition interval_at :: "('v \<Rightarrow> 'k :: linorder) \<Rightarrow> ('k \<rightharpoonup> 'v) \<Rightarrow> 'k \<Rightarrow> 'v \<Rightarrow> bool" where
  "interval_at upper m c v \<longleftrightarrow> (\<exists>k. m k = Some v \<and> k \<le> c \<and> c \<le> upper v)"

locale ordered_map =
  fixes ok :: "'t \<Rightarrow> bool" and contents :: "'t \<Rightarrow> ('k :: linorder \<rightharpoonup> 'v)"
    and put :: "'k \<Rightarrow> 'v \<Rightarrow> 't \<Rightarrow> 't" and update :: "'k \<Rightarrow> ('v \<Rightarrow> 'v) \<Rightarrow> 't \<Rightarrow> 't"
    and lower_neighbour :: "'k \<Rightarrow> 't \<Rightarrow> 't \<times> ('k \<times> 'v) option" and upper_neighbour :: "'k \<Rightarrow> 't \<Rightarrow> 't \<times> ('k \<times> 'v) option"
  assumes put_ok: "ok t \<Longrightarrow> ok (put k v t) \<and> contents (put k v t) = (contents t)(k \<mapsto> v)"
    and update_ok: "ok t \<Longrightarrow> contents t k = Some v \<Longrightarrow> ok (update k f t) \<and> contents (update k f t) = (contents t)(k \<mapsto> f v)"
    and lower_ok: "ok t \<Longrightarrow> \<exists>t' e. lower_neighbour c t = (t', e) \<and> ok t' \<and> contents t' = contents t \<and> greatest_entry (contents t) c e"
    and upper_ok: "ok t \<Longrightarrow> \<exists>t' e. upper_neighbour c t = (t', e) \<and> ok t' \<and> contents t' = contents t \<and> least_entry (contents t) c e"
begin

text \<open>The lower neighbour of a point is the only interval that can contain it.\<close>

lemma lower_neighbour_interval:
  assumes "ok t" "disjoint upper (contents t)"
  obtains t' e where "lower_neighbour c t = (t', e)" "ok t'" "contents t' = contents t"
    "\<And>v. interval_at upper (contents t) c v \<longleftrightarrow> (\<exists>k. e = Some (k, v) \<and> c \<le> upper v)"
    "\<And>k v. e = Some (k, v) \<Longrightarrow> contents t k = Some v"
proof -
  obtain t' e where 1: "lower_neighbour c t = (t', e)" "ok t'" "contents t' = contents t" "greatest_entry (contents t) c e"
    using lower_ok [OF assms(1)] by blast
  have "interval_at upper (contents t) c v \<longleftrightarrow> (\<exists>k. e = Some (k, v) \<and> c \<le> upper v)" for v
  proof
    assume "interval_at upper (contents t) c v"
    then obtain k where k: "contents t k = Some v" "k \<le> c" "c \<le> upper v" by (auto simp: interval_at_def)
    then obtain k' v' where e: "e = Some (k', v')" "contents t k' = Some v'" "k' \<le> c" "k \<le> k'"
      using greatest_entry_bound [OF 1(4)] by blast
    then have "k = k'" using assms(2) k unfolding disjoint_def by (metis domI leD le_less_trans order.not_eq_order_implies_strict)
    then show "\<exists>k. e = Some (k, v) \<and> c \<le> upper v" using e k by auto
  next
    assume "\<exists>k. e = Some (k, v) \<and> c \<le> upper v"
    then show "interval_at upper (contents t) c v" using 1(4) by (auto simp: greatest_entry_def interval_at_def)
  qed
  then show ?thesis using that 1 by (auto simp: greatest_entry_def split: option.splits)
qed

end

end
