(* ===== verification/V8_HashMap.thy ===== *)
theory V8_HashMap
  imports Dictionary "HOL-Library.Word"
begin

unbundle bit_operations_syntax

text \<open>
  The hash maps of \<^verbatim>\<open>src/hashmap.cc\<close> and \<^verbatim>\<open>src/hashmap.h\<close>: open addressing with linear probing in a table whose
  size is a power of two.  Pointers into the table are indices; \<open>None\<close> as a key or a value is the null pointer.  The
  matching function, the keys' hash and the allocator are arguments of the operations that use them.
  \<open>Probe\<close> and the scan of \<open>Remove\<close> end only because the table has an empty entry, so the loops are
  partial functions and \<open>None\<close> is a loop that never ends or a process stopped by \<open>FatalProcessOutOfMemory\<close>.
\<close>

section \<open>The program\<close>

record ('k, 'v) Entry =
  key :: "'k option"
  val :: "'v option"
  hash :: "32 word"

record ('k, 'v) HashMap =
  table :: "('k, 'v) Entry list"
  capacity :: nat
  occupancy :: nat

definition map_index :: "nat \<Rightarrow> 32 word \<Rightarrow> nat" where
  "map_index cap h = unat h AND (cap - 1)"

partial_function (option) probe_loop :: "('k \<Rightarrow> 'k \<Rightarrow> bool) \<Rightarrow> ('k, 'v) HashMap \<Rightarrow> 'k \<Rightarrow> 32 word \<Rightarrow> nat \<Rightarrow> nat option" where
  "probe_loop match_fun m k h p =
     (case key (table m ! p) of
        None \<Rightarrow> Some p
      | Some k' \<Rightarrow>
          if h \<noteq> hash (table m ! p) \<or> \<not> match_fun k k'
          then probe_loop match_fun m k h (if capacity m \<le> p + 1 then 0 else p + 1)
          else Some p)"

declare probe_loop.simps [code]

definition Probe :: "('k \<Rightarrow> 'k \<Rightarrow> bool) \<Rightarrow> ('k, 'v) HashMap \<Rightarrow> 'k \<Rightarrow> 32 word \<Rightarrow> nat option" where
  "Probe match_fun m k h = probe_loop match_fun m k h (map_index (capacity m) h)"

definition HashMap_Clear :: "('k, 'v) HashMap \<Rightarrow> ('k, 'v) HashMap" where
  "HashMap_Clear m = m \<lparr>table := map (\<lambda>e. e \<lparr>key := None\<rparr>) (table m), occupancy := 0\<rparr>"

text \<open>\<open>New n\<close> is the memory for \<open>n\<close> entries, with whatever it holds, or \<open>None\<close> when the allocator has none.\<close>

definition HashMap_Initialize :: "(nat \<Rightarrow> ('k, 'v) Entry list option) \<Rightarrow> nat \<Rightarrow> ('k, 'v) HashMap option" where
  "HashMap_Initialize New cap =
     (case New cap of
        None \<Rightarrow> None
      | Some es \<Rightarrow> Some (HashMap_Clear \<lparr>table = es, capacity = cap, occupancy = 0\<rparr>))"

definition set_value :: "nat \<Rightarrow> 'v option \<Rightarrow> ('k, 'v) HashMap \<Rightarrow> ('k, 'v) HashMap" where
  "set_value p v m = m \<lparr>table := (table m)[p := (table m ! p) \<lparr>val := v\<rparr>]\<rparr>"

text \<open>
  \<open>Resize\<close> calls \<open>Lookup\<close>, which may call \<open>Resize\<close>: the inner \<open>Lookup\<close> is an argument here and the depth of the
  recursion an argument of \<open>Lookup\<close>.
\<close>

fun rehash :: "(('k, 'v) HashMap \<Rightarrow> 'k \<Rightarrow> 32 word \<Rightarrow> bool \<Rightarrow> (('k, 'v) HashMap \<times> nat option) option) \<Rightarrow>
  ('k, 'v) Entry list \<Rightarrow> nat \<Rightarrow> ('k, 'v) HashMap \<Rightarrow> ('k, 'v) HashMap option" where
  "rehash lookup [] n m = (if n > 0 then None else Some m)"
| "rehash lookup (e # es) n m =
     (if n > 0 then
        (case key e of
           None \<Rightarrow> rehash lookup es n m
         | Some k \<Rightarrow>
             (case lookup m k (hash e) True of
                Some (m, Some p) \<Rightarrow> rehash lookup es (n - 1) (set_value p (val e) m)
              | _ \<Rightarrow> None))
      else Some m)"

definition HashMap_Resize :: "(('k, 'v) HashMap \<Rightarrow> 'k \<Rightarrow> 32 word \<Rightarrow> bool \<Rightarrow> (('k, 'v) HashMap \<times> nat option) option) \<Rightarrow>
  (nat \<Rightarrow> ('k, 'v) Entry list option) \<Rightarrow> ('k, 'v) HashMap \<Rightarrow> ('k, 'v) HashMap option" where
  "HashMap_Resize lookup New m =
     (case HashMap_Initialize New ((capacity m * 2) mod 2 ^ 32) of
        None \<Rightarrow> None
      | Some m' \<Rightarrow> rehash lookup (table m) (occupancy m) m')"

definition insert_at :: "nat \<Rightarrow> 'k \<Rightarrow> 32 word \<Rightarrow> ('k, 'v) HashMap \<Rightarrow> ('k, 'v) HashMap" where
  "insert_at p k h m =
     m \<lparr>table := (table m)[p := \<lparr>key = Some k, val = None, hash = h\<rparr>], occupancy := (occupancy m + 1) mod 2 ^ 32\<rparr>"

definition is_full :: "('k, 'v) HashMap \<Rightarrow> bool" where
  "is_full m \<longleftrightarrow> capacity m \<le> (occupancy m + occupancy m div 4) mod 2 ^ 32"

definition lookup_body :: "(('k, 'v) HashMap \<Rightarrow> ('k, 'v) HashMap option) \<Rightarrow> ('k \<Rightarrow> 'k \<Rightarrow> bool) \<Rightarrow>
  ('k, 'v) HashMap \<Rightarrow> 'k \<Rightarrow> 32 word \<Rightarrow> bool \<Rightarrow> (('k, 'v) HashMap \<times> nat option) option" where
  "lookup_body resize match_fun m k h ins =
     (case Probe match_fun m k h of
        None \<Rightarrow> None
      | Some p \<Rightarrow>
          if key (table m ! p) \<noteq> None then Some (m, Some p)
          else if ins then
            (let m = insert_at p k h m in
             if is_full m then
               (case resize m of
                  None \<Rightarrow> None
                | Some m \<Rightarrow> (case Probe match_fun m k h of None \<Rightarrow> None | Some p \<Rightarrow> Some (m, Some p)))
             else Some (m, Some p))
          else Some (m, None))"

primrec Lookup :: "nat \<Rightarrow> (nat \<Rightarrow> ('k, 'v) Entry list option) \<Rightarrow> ('k \<Rightarrow> 'k \<Rightarrow> bool) \<Rightarrow>
  ('k, 'v) HashMap \<Rightarrow> 'k \<Rightarrow> 32 word \<Rightarrow> bool \<Rightarrow> (('k, 'v) HashMap \<times> nat option) option" where
  "Lookup 0 New match_fun = lookup_body (\<lambda>m. None) match_fun"
| "Lookup (Suc d) New match_fun = lookup_body (HashMap_Resize (Lookup d New match_fun) New) match_fun"

text \<open>The scan of \<open>Remove\<close>: \<open>p\<close> is the entry to clear, \<open>q\<close> the last one looked at.\<close>

definition next_entry :: "nat \<Rightarrow> nat \<Rightarrow> nat" where
  "next_entry cap q = (if q + 1 = cap then 0 else q + 1)"

partial_function (option) remove_loop :: "('k, 'v) Entry list \<Rightarrow> nat \<Rightarrow> nat \<Rightarrow> nat \<Rightarrow> (('k, 'v) Entry list \<times> nat) option" where
  "remove_loop es cap p q =
     (let q = next_entry cap q in
      if key (es ! q) = None then Some (es, p)
      else
        (let r = map_index cap (hash (es ! q)) in
         if (q > p \<and> (r \<le> p \<or> r > q)) \<or> (q < p \<and> (r \<le> p \<and> r > q))
         then remove_loop (es[p := es ! q]) cap q q
         else remove_loop es cap p q))"

declare remove_loop.simps [code]

definition HashMap_Remove :: "('k \<Rightarrow> 'k \<Rightarrow> bool) \<Rightarrow> ('k, 'v) HashMap \<Rightarrow> 'k \<Rightarrow> 32 word \<Rightarrow> ('k, 'v) HashMap option" where
  "HashMap_Remove match_fun m k h =
     (case Probe match_fun m k h of
        None \<Rightarrow> None
      | Some p \<Rightarrow>
          if key (table m ! p) = None then Some m
          else
            (case remove_loop (table m) (capacity m) p p of
               None \<Rightarrow> None
             | Some (es, p) \<Rightarrow>
                 Some (m \<lparr>table := es[p := (es ! p) \<lparr>key := None\<rparr>], occupancy := occupancy m - 1\<rparr>)))"

text \<open>Iteration: \<open>next_from\<close> is the loop of \<open>Next\<close>, whose first step increments the pointer.\<close>

function next_from :: "('k, 'v) HashMap \<Rightarrow> nat \<Rightarrow> nat option" where
  "next_from m p =
     (if p < capacity m then (if key (table m ! p) \<noteq> None then Some p else next_from m (p + 1)) else None)"
  by pat_completeness auto
termination by (relation "measure (\<lambda>(m, p). capacity m - p)") auto

definition Next :: "('k, 'v) HashMap \<Rightarrow> nat \<Rightarrow> nat option" where
  "Next m p = next_from m (p + 1)"

definition Start :: "('k, 'v) HashMap \<Rightarrow> nat option" where
  "Start m = next_from m 0"

text \<open>
  The operations as the users of a map call them: the value is read and set through the entry that \<open>Lookup\<close> returns.
  The default initial capacity is 8.
\<close>

fun hash_step :: "(nat \<Rightarrow> ('k, 'v) Entry list option) \<Rightarrow> ('k \<Rightarrow> 'k \<Rightarrow> bool) \<Rightarrow> ('k \<Rightarrow> 32 word) \<Rightarrow>
  ('k, 'v) request \<Rightarrow> ('k, 'v) HashMap \<Rightarrow> (('k, 'v) HashMap \<times> 'v option) option" where
  "hash_step New match_fun Hash (Get k) m =
     (case Lookup 1 New match_fun m k (Hash k) False of
        None \<Rightarrow> None
      | Some (m, p) \<Rightarrow> Some (m, case p of None \<Rightarrow> None | Some p \<Rightarrow> val (table m ! p)))"
| "hash_step New match_fun Hash (Put k v) m =
     (case Lookup 1 New match_fun m k (Hash k) True of
        Some (m, Some p) \<Rightarrow> Some (set_value p (Some v) m, val (table m ! p))
      | _ \<Rightarrow> None)"
| "hash_step New match_fun Hash (Delete k) m =
     (case HashMap_Remove match_fun m k (Hash k) of None \<Rightarrow> None | Some m \<Rightarrow> Some (m, None))"

definition HashMap_new :: "(nat \<Rightarrow> ('k, 'v) Entry list option) \<Rightarrow> ('k, 'v) HashMap option" where
  "HashMap_new New = HashMap_Initialize New 8"

text \<open>
  The keys of the maps from addresses, \<open>HeapObjectsMap\<close> in \<^verbatim>\<open>src/profile-generator.h\<close>: non-null addresses, compared as
  pointers and hashed by the integer hash of \<^verbatim>\<open>src/utils.h\<close>.
\<close>

definition ComputeIntegerHash :: "32 word \<Rightarrow> 32 word" where
  "ComputeIntegerHash k =
     (let h = k;
          h = NOT h + push_bit 15 h;
          h = h XOR drop_bit 12 h;
          h = h + push_bit 2 h;
          h = h XOR drop_bit 4 h;
          h = h * 2057;
          h = h XOR drop_bit 16 h
      in h)"

definition AddressesMatch :: "64 word \<Rightarrow> 64 word \<Rightarrow> bool" where
  "AddressesMatch key1 key2 \<longleftrightarrow> key1 = key2"

definition AddressHash :: "64 word \<Rightarrow> 32 word" where
  "AddressHash a = ComputeIntegerHash (ucast a)"

section \<open>Distances in a circular table\<close>

definition dist :: "nat \<Rightarrow> nat \<Rightarrow> nat \<Rightarrow> nat" where
  "dist cap a b = (if a \<le> b then b - a else b + cap - a)"

lemma dist_less: "a < cap \<Longrightarrow> b < cap \<Longrightarrow> dist cap a b < cap"
  by (auto simp: dist_def)

lemma dist_inj: "a < cap \<Longrightarrow> b < cap \<Longrightarrow> c < cap \<Longrightarrow> dist cap a b = dist cap a c \<Longrightarrow> b = c"
  by (auto simp: dist_def split: if_splits)

lemma next_less: "q < cap \<Longrightarrow> next_entry cap q < cap"
  by (auto simp: next_entry_def)

lemma dist_next: "h < cap \<Longrightarrow> q < cap \<Longrightarrow> next_entry cap q \<noteq> h \<Longrightarrow> dist cap h (next_entry cap q) = Suc (dist cap h q)"
  by (auto simp: dist_def next_entry_def split: if_splits)

lemma dist_before_next:
  assumes "h < cap" "q < cap" "next_entry cap q = h" "j < cap"
  shows "dist cap h j \<le> dist cap h q"
  using assms by (auto simp: dist_def next_entry_def split: if_splits)

text \<open>The condition under which \<open>Remove\<close> moves an entry says that the entry to clear is on the path from its initial position.\<close>

lemma on_path_iff:
  assumes "p < cap" "q < cap" "r < cap" "p \<noteq> q"
  shows "(q > p \<and> (r \<le> p \<or> r > q)) \<or> (q < p \<and> (r \<le> p \<and> r > q)) \<longleftrightarrow> dist cap r p < dist cap r q"
  using assms by (auto simp: dist_def)

lemma map_index_less: "0 < cap \<Longrightarrow> map_index cap h < cap"
  by (auto simp: map_index_def and_nat_def nat_less_iff)

section \<open>The tables\<close>

definition used :: "('k, 'v) Entry list \<Rightarrow> nat \<Rightarrow> bool" where
  "used es i \<longleftrightarrow> key (es ! i) \<noteq> None"

definition home :: "('k, 'v) Entry list \<Rightarrow> nat \<Rightarrow> nat" where
  "home es i = map_index (length es) (hash (es ! i))"

text \<open>Every entry on the path from the initial position of an entry to the entry is in use.\<close>

definition paths_used :: "('k, 'v) Entry list \<Rightarrow> bool" where
  "paths_used es = (\<forall>i<length es. used es i \<longrightarrow>
     (\<forall>j<length es. dist (length es) (home es i) j < dist (length es) (home es i) i \<longrightarrow> used es j))"

lemma paths_usedD:
  "paths_used es \<Longrightarrow> i < length es \<Longrightarrow> used es i \<Longrightarrow> j < length es \<Longrightarrow>
   dist (length es) (home es i) j < dist (length es) (home es i) i \<Longrightarrow> used es j"
  unfolding paths_used_def by blast

definition hits :: "('k \<Rightarrow> 'k \<Rightarrow> bool) \<Rightarrow> 'k \<Rightarrow> 32 word \<Rightarrow> ('k, 'v) Entry \<Rightarrow> bool" where
  "hits match_fun k h e \<longleftrightarrow> (case key e of None \<Rightarrow> False | Some k' \<Rightarrow> h = hash e \<and> match_fun k k')"

lemma probe_loop_unfold:
  "probe_loop match_fun m k h p =
     (if \<not> used (table m) p \<or> hits match_fun k h (table m ! p) then Some p
      else probe_loop match_fun m k h (if capacity m \<le> p + 1 then 0 else p + 1))"
  by (subst probe_loop.simps) (auto simp: used_def hits_def split: option.split)

definition passed :: "('k \<Rightarrow> 'k \<Rightarrow> bool) \<Rightarrow> 'k \<Rightarrow> 32 word \<Rightarrow> ('k, 'v) Entry list \<Rightarrow> nat \<Rightarrow> bool" where
  "passed match_fun k h es p = (\<forall>j<length es. dist (length es) (map_index (length es) h) j < dist (length es) (map_index (length es) h) p \<longrightarrow>
     used es j \<and> \<not> hits match_fun k h (es ! j))"

lemma probe_loop_ends:
  assumes "capacity m = length (table m)" and "e < capacity m" "\<not> used (table m) e"
    and "p < capacity m" "passed match_fun k h (table m) p"
  shows "\<exists>p'. probe_loop match_fun m k h p = Some p' \<and> p' < capacity m \<and> passed match_fun k h (table m) p' \<and>
    (\<not> used (table m) p' \<or> hits match_fun k h (table m ! p'))"
  using assms(4,5)
proof (induction "capacity m - dist (capacity m) (map_index (capacity m) h) p" arbitrary: p rule: less_induct)
  case less
  let ?n = "length (table m)" and ?h = "map_index (length (table m)) h"
  have h: "?h < ?n" using assms(1,2) by (intro map_index_less) auto
  show ?case
  proof (cases "\<not> used (table m) p \<or> hits match_fun k h (table m ! p)")
    case True
    then show ?thesis using less.prems by (subst probe_loop_unfold) auto
  next
    case False
    let ?q = "next_entry ?n p"
    have q: "(if capacity m \<le> p + 1 then 0 else p + 1) = ?q" using less.prems(1) assms(1) by (auto simp: next_entry_def)
    have u: "used (table m) j \<and> \<not> hits match_fun k h (table m ! j)" if "j < ?n" "dist ?n ?h j \<le> dist ?n ?h p" for j
      using less.prems(2) False that dist_inj [of ?h ?n j p] h less.prems(1) assms(1)
      by (cases "j = p") (auto simp: passed_def le_less)
    have "?q \<noteq> ?h" using u [of e] dist_before_next [OF h, of p e] assms less.prems(1) by auto
    then have d: "dist ?n ?h ?q = Suc (dist ?n ?h p)" using dist_next h less.prems(1) assms(1) by simp
    then have "passed match_fun k h (table m) ?q" using u by (simp add: passed_def less_Suc_eq_le)
    moreover have ql: "?q < ?n" using next_less less.prems(1) assms(1) by simp
    moreover have "?n - dist ?n ?h ?q < ?n - dist ?n ?h p" using d dist_less [OF h ql] by simp
    ultimately have "\<exists>p'. probe_loop match_fun m k h ?q = Some p' \<and> p' < capacity m \<and> passed match_fun k h (table m) p' \<and>
        (\<not> used (table m) p' \<or> hits match_fun k h (table m ! p'))"
      using less.hyps [of ?q] assms(1) by simp
    then show ?thesis using False q by (subst probe_loop_unfold) simp
  qed
qed

text \<open>\<open>cls k\<close> stands for the keys that match \<open>k\<close>.\<close>

definition cls_at :: "('k \<Rightarrow> 'c) \<Rightarrow> ('k, 'v) Entry list \<Rightarrow> nat \<Rightarrow> 'c" where
  "cls_at cls es i = cls (the (key (es ! i)))"

definition keys_unique :: "('k \<Rightarrow> 'c) \<Rightarrow> ('k, 'v) Entry list \<Rightarrow> bool" where
  "keys_unique cls es = (\<forall>i<length es. \<forall>j<length es. used es i \<longrightarrow> used es j \<longrightarrow> cls_at cls es i = cls_at cls es j \<longrightarrow> i = j)"

lemma keys_uniqueD:
  "keys_unique cls es \<Longrightarrow> i < length es \<Longrightarrow> j < length es \<Longrightarrow> used es i \<Longrightarrow> used es j \<Longrightarrow>
   cls_at cls es i = cls_at cls es j \<Longrightarrow> i = j"
  unfolding keys_unique_def by blast

definition hashes_ok :: "('k \<Rightarrow> 32 word) \<Rightarrow> ('k, 'v) Entry list \<Rightarrow> bool" where
  "hashes_ok Hash es = (\<forall>e\<in>set es. \<forall>k. key e = Some k \<longrightarrow> hash e = Hash k)"

definition live :: "('k, 'v) Entry list \<Rightarrow> ('k, 'v) Entry set" where
  "live es = {e \<in> set es. key e \<noteq> None}"

definition count_used :: "('k, 'v) Entry list \<Rightarrow> nat" where
  "count_used es = length (filter (\<lambda>e. key e \<noteq> None) es)"

definition table_map :: "('k \<Rightarrow> 'c) \<Rightarrow> ('k, 'v) Entry list \<Rightarrow> ('c \<rightharpoonup> 'v)" where
  "table_map cls es c =
     (case find (\<lambda>e. case key e of None \<Rightarrow> False | Some k \<Rightarrow> cls k = c) es of None \<Rightarrow> None | Some e \<Rightarrow> val e)"

lemma live_used: "e \<in> live es \<longleftrightarrow> (\<exists>i<length es. used es i \<and> e = es ! i)"
  by (auto simp: live_def used_def in_set_conv_nth)

lemma ball_live: "(\<forall>e\<in>live es. P e) \<longleftrightarrow> (\<forall>i<length es. used es i \<longrightarrow> P (es ! i))"
  unfolding Ball_def live_used by auto

lemma table_map_eq:
  assumes "keys_unique cls es" and "e \<in> live es"
  shows "table_map cls es (cls (the (key e))) = val e"
proof -
  obtain i where i: "i < length es" "used es i" "e = es ! i" using assms(2) live_used by metis
  let ?P = "\<lambda>e'. case key e' of None \<Rightarrow> False | Some k \<Rightarrow> cls k = cls (the (key e))"
  have "?P e" "e \<in> set es" using i by (auto simp: used_def split: option.splits)
  then obtain e' where "find ?P es = Some e'" by (metis (no_types, lifting) find_None_iff not_Some_eq)
  then obtain j where j: "j < length es" "?P (es ! j)" "e' = es ! j" by (auto simp: find_Some_iff)
  then have "i = j" using assms(1) i by (auto simp: keys_unique_def cls_at_def used_def split: option.splits)
  then have "e' = e" using i(3) j(3) by simp
  then show ?thesis using \<open>find ?P es = Some e'\<close> by (simp only: table_map_def option.case)
qed

lemma table_map_None:
  assumes "\<forall>e\<in>live es. cls (the (key e)) \<noteq> c"
  shows "table_map cls es c = None"
proof -
  have "\<not> (case key e of None \<Rightarrow> False | Some k \<Rightarrow> cls k = c)" if "e \<in> set es" for e
    using assms that by (auto simp: live_def split: option.split)
  then have "find (\<lambda>e. case key e of None \<Rightarrow> False | Some k \<Rightarrow> cls k = c) es = None" by (simp add: find_None_iff)
  then show ?thesis by (simp only: table_map_def option.case)
qed

lemma table_map_cong:
  assumes "keys_unique cls es" "keys_unique cls es'" "live es = live es'"
  shows "table_map cls es = table_map cls es'"
proof
  fix c
  show "table_map cls es c = table_map cls es' c"
  proof (cases "\<exists>e\<in>live es. cls (the (key e)) = c")
    case True
    then show ?thesis using table_map_eq [OF assms(1)] table_map_eq [OF assms(2)] assms(3) by metis
  next
    case False
    then show ?thesis using table_map_None [of es cls c] table_map_None [of es' cls c] assms(3) by simp
  qed
qed

lemma keys_unique_Cons:
  assumes "keys_unique cls (e # es)"
  shows "keys_unique cls es" and "\<And>k e'. key e = Some k \<Longrightarrow> e' \<in> live es \<Longrightarrow> cls (the (key e')) \<noteq> cls k"
proof -
  show "keys_unique cls es" unfolding keys_unique_def
    using keys_uniqueD [OF assms, of "Suc i" "Suc j" for i j] by (auto simp: used_def cls_at_def)
  fix k e'
  assume k: "key e = Some k" "e' \<in> live es"
  then obtain i where "i < length es" "used es i" "e' = es ! i" using live_used by metis
  then show "cls (the (key e')) \<noteq> cls k" using keys_uniqueD [OF assms, of 0 "Suc i"] k by (auto simp: used_def cls_at_def)
qed

lemma same_keys:
  assumes "length es' = length es" "\<And>i. key (es' ! i) = key (es ! i)" "\<And>i. hash (es' ! i) = hash (es ! i)"
  shows "paths_used es' = paths_used es" and "keys_unique cls es' = keys_unique cls es" and "hashes_ok Hash es' = hashes_ok Hash es"
  by (simp_all add: assms paths_used_def keys_unique_def used_def cls_at_def home_def hashes_ok_def all_set_conv_all_nth)

text \<open>What one entry more, and one entry less, does to a table.\<close>

lemma split_at: "p < length es \<Longrightarrow> es = take p es @ es ! p # drop (Suc p) es"
  by (rule id_take_nth_drop)

lemma count_used_fill: "p < length es \<Longrightarrow> \<not> used es p \<Longrightarrow> key x \<noteq> None \<Longrightarrow> count_used (es[p := x]) = Suc (count_used es)"
  by (subst (2) split_at [of p es]) (simp_all add: upd_conv_take_nth_drop count_used_def used_def)

lemma count_used_clear: "p < length es \<Longrightarrow> used es p \<Longrightarrow> key x = None \<Longrightarrow> Suc (count_used (es[p := x])) = count_used es"
  by (subst (2) split_at [of p es]) (simp_all add: upd_conv_take_nth_drop count_used_def used_def)

lemma count_used_same: "p < length es \<Longrightarrow> used es p \<Longrightarrow> key x \<noteq> None \<Longrightarrow> count_used (es[p := x]) = count_used es"
  by (subst (2) split_at [of p es]) (simp_all add: upd_conv_take_nth_drop count_used_def used_def)

lemma unused_exists: "count_used es < length es \<Longrightarrow> \<exists>e<length es. \<not> used es e"
proof (rule ccontr)
  assume *: "count_used es < length es" and "\<not> (\<exists>e<length es. \<not> used es e)"
  then have "\<forall>e\<in>set es. key e \<noteq> None" by (auto simp: used_def in_set_conv_nth)
  then have "filter (\<lambda>e. key e \<noteq> None) es = es" by (simp add: filter_id_conv)
  then show False using * by (simp add: count_used_def)
qed

lemma used_update: "p < length es \<Longrightarrow> used (es[p := x]) i \<longleftrightarrow> (if i = p then key x \<noteq> None else used es i)"
  by (auto simp: used_def nth_list_update)

lemma live_update:
  assumes "p < length es"
  shows "live (es[p := x]) = {es ! i | i. i < length es \<and> i \<noteq> p \<and> used es i} \<union> (if key x = None then {} else {x})"
  using assms by (auto simp: live_used set_eq_iff used_update nth_list_update)

definition power_of_two :: "nat \<Rightarrow> bool" where
  "power_of_two n = (\<exists>j<32. n = 2 ^ j)"

definition table_ok :: "('k \<Rightarrow> 32 word) \<Rightarrow> ('k \<Rightarrow> 'c) \<Rightarrow> ('k, 'v) HashMap \<Rightarrow> bool" where
  "table_ok Hash cls m \<longleftrightarrow>
     capacity m = length (table m) \<and> power_of_two (length (table m)) \<and> occupancy m = count_used (table m) \<and>
     paths_used (table m) \<and> hashes_ok Hash (table m) \<and> keys_unique cls (table m)"

text \<open>The map is at most 80\% full: there is room for another entry without resizing or with it.\<close>

definition map_ok :: "('k \<Rightarrow> 32 word) \<Rightarrow> ('k \<Rightarrow> 'c) \<Rightarrow> ('k, 'v) HashMap \<Rightarrow> bool" where
  "map_ok Hash cls m \<longleftrightarrow> table_ok Hash cls m \<and> occupancy m + occupancy m div 4 < capacity m"

definition absent :: "('k \<Rightarrow> 'c) \<Rightarrow> 'k \<Rightarrow> ('k, 'v) Entry list \<Rightarrow> bool" where
  "absent cls k es = (\<forall>e\<in>live es. cls (the (key e)) \<noteq> cls k)"

lemma power_two_bound: "n = 2 ^ j \<Longrightarrow> j < 32 \<Longrightarrow> n \<le> (2 ^ 31 :: nat)"
  using power_increasing [of j 31 "2::nat"] by simp

lemma table_okD:
  assumes "table_ok Hash cls m"
  shows "capacity m = length (table m)" "occupancy m = count_used (table m)" "paths_used (table m)"
    "hashes_ok Hash (table m)" "keys_unique cls (table m)" "0 < length (table m)" "length (table m) \<le> 2 ^ 31"
proof -
  obtain j where j: "j < 32" "capacity m = 2 ^ j" using assms by (auto simp: table_ok_def power_of_two_def)
  show "capacity m = length (table m)" "occupancy m = count_used (table m)" "paths_used (table m)"
    "hashes_ok Hash (table m)" "keys_unique cls (table m)" using assms by (auto simp: table_ok_def)
  have c: "length (table m) = 2 ^ j" using j(2) assms by (simp add: table_ok_def)
  then show "0 < length (table m)" using zero_less_power [of "2::nat" j] by simp
  show "length (table m) \<le> 2 ^ 31" using c j(1) by (rule power_two_bound)
qed

section \<open>Removing an entry\<close>

lemma dist_next_left: "q < cap \<Longrightarrow> e < cap \<Longrightarrow> q \<noteq> e \<Longrightarrow> dist cap (next_entry cap q) e < dist cap q e"
  by (auto simp: dist_def next_entry_def split: if_splits)

lemma dist_between:
  "h < cap \<Longrightarrow> p < cap \<Longrightarrow> q < cap \<Longrightarrow> i < cap \<Longrightarrow> dist cap h p < dist cap h i \<Longrightarrow> dist cap p q < dist cap p i \<Longrightarrow>
   dist cap h q < dist cap h i"
  by (auto simp: dist_def split: if_splits)

lemma dist_self [simp]: "dist cap p p = 0"
  by (simp add: dist_def)

text \<open>
  The entry at \<open>p\<close> is to be cleared; of the entries from \<open>p\<close> to \<open>q\<close>, all in use, none has \<open>p\<close> on its path.
\<close>

definition hole_ok :: "('k, 'v) Entry list \<Rightarrow> nat \<Rightarrow> nat \<Rightarrow> bool" where
  "hole_ok es p q \<longleftrightarrow> p < length es \<and> q < length es \<and> used es p \<and>
     (\<forall>i<length es. \<forall>j<length es. i \<noteq> p \<longrightarrow> used es i \<longrightarrow> dist (length es) (home es i) j < dist (length es) (home es i) i \<longrightarrow> used es j) \<and>
     (\<forall>i<length es. dist (length es) p i \<le> dist (length es) p q \<longrightarrow>
        used es i \<and> \<not> dist (length es) (home es i) p < dist (length es) (home es i) i \<or> i = p)"

lemma hole_okD:
  assumes "hole_ok es p q"
  shows "p < length es" "q < length es" "used es p"
    and "i < length es \<Longrightarrow> j < length es \<Longrightarrow> i \<noteq> p \<Longrightarrow> used es i \<Longrightarrow> dist (length es) (home es i) j < dist (length es) (home es i) i \<Longrightarrow> used es j"
    and "i < length es \<Longrightarrow> i \<noteq> p \<Longrightarrow> dist (length es) p i \<le> dist (length es) p q \<Longrightarrow>
      used es i \<and> \<not> dist (length es) (home es i) p < dist (length es) (home es i) i"
  using assms unfolding hole_ok_def by blast+

definition cleared :: "('k, 'v) Entry list \<Rightarrow> nat \<Rightarrow> ('k, 'v) Entry list" where
  "cleared es p = es[p := (es ! p) \<lparr>key := None\<rparr>]"

lemma used_cleared: "p < length es \<Longrightarrow> used (cleared es p) i \<longleftrightarrow> i \<noteq> p \<and> used es i"
  by (simp add: cleared_def used_update)

lemma hole_start:
  assumes "paths_used es" "p < length es" "used es p"
  shows "hole_ok es p p"
proof -
  have "i = p" if "i < length es" "dist (length es) p i \<le> dist (length es) p p" for i
    using dist_inj [OF assms(2) that(1) assms(2)] that(2) by simp
  then show ?thesis using assms unfolding hole_ok_def paths_used_def by blast
qed

lemma hole_done:
  assumes "hole_ok es p q" and "\<not> used es (next_entry (length es) q)"
  shows "paths_used (cleared es p)"
  unfolding paths_used_def
proof (intro allI impI)
  note h = hole_okD [OF assms(1)]
  fix i j
  assume "i < length (cleared es p)" "used (cleared es p) i" "j < length (cleared es p)"
    and d: "dist (length (cleared es p)) (home (cleared es p) i) j < dist (length (cleared es p)) (home (cleared es p) i) i"
  then have i: "i < length es" "used es i" "i \<noteq> p" "j < length es" using used_cleared [OF h(1), of i] by (auto simp: cleared_def)
  let ?n = "length es" and ?h = "home es i" and ?q = "next_entry (length es) q"
  have n: "0 < ?n" using i(1) by linarith
  then have hl: "?h < ?n" by (simp add: home_def map_index_less)
  have d': "dist ?n ?h j < dist ?n ?h i" using d i(3) by (simp add: cleared_def home_def)
  have u: "used es j" using h(4) [OF i(1,4,3,2) d'] .
  have q: "?q < ?n" "?q \<noteq> p" "?q \<noteq> i" using next_less [OF h(2)] h(3) i(2) assms(2) by auto
  have "j \<noteq> p"
  proof
    assume "j = p"
    then have *: "dist ?n ?h p < dist ?n ?h i" using d' by simp
    then have "dist ?n p q < dist ?n p i" using h(5) [OF i(1,3)] i by (meson not_less)
    then have "dist ?n p ?q < dist ?n p i"
      using dist_next [OF h(1,2) q(2)] dist_inj [OF h(1) q(1) i(1)] q(3) by linarith
    then have "dist ?n ?h ?q < dist ?n ?h i" using dist_between [OF hl h(1) q(1) i(1) *] by simp
    then show False using h(4) [OF i(1) q(1) i(3,2)] assms(2) by simp
  qed
  then show "used (cleared es p) j" using u used_cleared [OF h(1)] by simp
qed

lemma hole_stays:
  assumes "hole_ok es p q" and "used es (next_entry (length es) q)" and "next_entry (length es) q \<noteq> p"
    and "\<not> dist (length es) (home es (next_entry (length es) q)) p < dist (length es) (home es (next_entry (length es) q)) (next_entry (length es) q)"
  shows "hole_ok es p (next_entry (length es) q)"
proof -
  note h = hole_okD [OF assms(1)]
  let ?n = "length es" and ?q = "next_entry (length es) q"
  have q: "?q < ?n" using next_less [OF h(2)] .
  have "used es i \<and> \<not> dist ?n (home es i) p < dist ?n (home es i) i \<or> i = p"
    if i: "i < ?n" "dist ?n p i \<le> dist ?n p ?q" for i
  proof (cases "dist ?n p i \<le> dist ?n p q")
    case True
    then show ?thesis using h(5) [OF i(1)] by blast
  next
    case False
    then have "i = ?q" using i dist_next [OF h(1,2) assms(3)] dist_inj [OF h(1) i(1) q] by simp
    then show ?thesis using assms(2,4) by simp
  qed
  then show ?thesis using assms(1) q unfolding hole_ok_def by blast
qed

lemma hole_moves:
  assumes "hole_ok es p q" and "used es (next_entry (length es) q)" and "next_entry (length es) q \<noteq> p"
    and "dist (length es) (home es (next_entry (length es) q)) p < dist (length es) (home es (next_entry (length es) q)) (next_entry (length es) q)"
  shows "hole_ok (es[p := es ! next_entry (length es) q]) (next_entry (length es) q) (next_entry (length es) q)"
proof -
  note h = hole_okD [OF assms(1)]
  let ?n = "length es" and ?q = "next_entry (length es) q"
  let ?es = "es[p := es ! ?q]"
  have q: "?q < ?n" using next_less [OF h(2)] .
  have u: "used ?es i = used es i" for i using h(1,3) assms(2) by (auto simp: used_update) (simp add: used_def)+
  have hm: "home ?es i = home es (if i = p then ?q else i)" for i using h(1) by (simp add: home_def)
  have "used es j" if i: "i < ?n" "j < ?n" "i \<noteq> ?q" "used es i" and d: "dist ?n (home ?es i) j < dist ?n (home ?es i) i" for i j
  proof (cases "i = p")
    case True
    then have "dist ?n (home es ?q) j < dist ?n (home es ?q) ?q" using d assms(4) hm [of i] by simp
    then show ?thesis using h(4) [OF q i(2) assms(3,2)] by simp
  next
    case False
    then show ?thesis using h(4) [OF i(1,2) False i(4)] d hm [of i] by simp
  qed
  moreover have "i = ?q" if "i < ?n" "dist ?n ?q i \<le> dist ?n ?q ?q" for i
    using dist_inj [OF q that(1) q] that(2) by simp
  ultimately show ?thesis using q u assms(2) unfolding hole_ok_def by simp
qed

text \<open>What the moves keep: the entries other than the one to clear.\<close>

lemma live_cleared: "p < length es \<Longrightarrow> live (cleared es p) = {es ! i | i. i < length es \<and> i \<noteq> p \<and> used es i}"
  by (simp add: cleared_def live_update)

lemma keys_unique_cleared:
  assumes "keys_unique cls es" and "p < length es"
  shows "keys_unique cls (cleared es p)"
  unfolding keys_unique_def
proof (intro allI impI)
  fix i j
  assume *: "i < length (cleared es p)" "j < length (cleared es p)" "used (cleared es p) i" "used (cleared es p) j"
    "cls_at cls (cleared es p) i = cls_at cls (cleared es p) j"
  then have "i \<noteq> p" "j \<noteq> p" "used es i" "used es j" using assms(2) by (auto simp: used_cleared)
  then show "i = j" using keys_uniqueD [OF assms(1), of i j] * by (simp add: cls_at_def cleared_def)
qed

lemma cleared_moves:
  assumes "p < length es" "q < length es" "p \<noteq> q" "used es p" "used es q"
  shows "live (cleared (es[p := es ! q]) q) = live (cleared es p)"
    and "keys_unique cls (cleared es p) \<Longrightarrow> keys_unique cls (cleared (es[p := es ! q]) q)"
    and "hashes_ok Hash es \<Longrightarrow> hashes_ok Hash (es[p := es ! q])"
    and "count_used (es[p := es ! q]) = count_used es"
proof -
  let ?es = "es[p := es ! q]" and ?f = "\<lambda>i. if i = p then q else i"
  have u: "used ?es i = used es i" for i using assms by (auto simp: used_update) (simp add: used_def)+
  have n: "?es ! i = es ! ?f i" for i using assms(1) by simp
  show "live (cleared ?es q) = live (cleared es p)" using assms
    by (auto simp: live_cleared u n set_eq_iff)
  show "hashes_ok Hash es \<Longrightarrow> hashes_ok Hash ?es"
    using assms(2) set_update_subset_insert [of es p "es ! q"] by (auto simp: hashes_ok_def)
  show "count_used ?es = count_used es" using assms by (intro count_used_same) (auto simp: used_def)
  assume k: "keys_unique cls (cleared es p)"
  show "keys_unique cls (cleared ?es q)" unfolding keys_unique_def
  proof (intro allI impI)
    fix i j
    assume *: "i < length (cleared ?es q)" "j < length (cleared ?es q)" "used (cleared ?es q) i" "used (cleared ?es q) j"
      "cls_at cls (cleared ?es q) i = cls_at cls (cleared ?es q) j"
    then have ij: "i < length es" "j < length es" "i \<noteq> q" "j \<noteq> q" "used es i" "used es j"
      using assms(2) u by (auto simp: used_cleared) (auto simp: cleared_def)
    have "?f i = ?f j"
    proof (rule keys_uniqueD [OF k])
      show "used (cleared es p) (?f i)" "used (cleared es p) (?f j)" using ij assms by (auto simp: used_cleared)
      show "cls_at cls (cleared es p) (?f i) = cls_at cls (cleared es p) (?f j)"
        using *(5) ij(3,4) assms(1,3) n by (auto simp: cls_at_def cleared_def split: if_splits)
    qed (use ij assms in \<open>auto simp: cleared_def\<close>)
    then show "i = j" using ij by (auto split: if_splits)
  qed
qed

lemma remove_loop_ok:
  assumes "hole_ok es p q" "e < length es" "\<not> used es e" and "keys_unique cls (cleared es p)" "hashes_ok Hash es"
  shows "\<exists>es' p'. remove_loop es (length es) p q = Some (es', p') \<and> length es' = length es \<and> p' < length es \<and> used es' p' \<and>
    paths_used (cleared es' p') \<and> keys_unique cls (cleared es' p') \<and> hashes_ok Hash es' \<and>
    live (cleared es' p') = live (cleared es p) \<and> count_used es' = count_used es"
  using assms
proof (induction "dist (length es) q e" arbitrary: es p q rule: less_induct)
  case less
  note h = hole_okD [OF less.prems(1)]
  let ?n = "length es" and ?q = "next_entry (length es) q"
  have uq: "used es q" using h(3) h(5) [OF h(2)] by (cases "q = p") auto
  have q: "?q < ?n" using next_less [OF h(2)] .
  show ?case
  proof (cases "used es ?q")
    case False
    then have "remove_loop es ?n p q = Some (es, p)" by (subst remove_loop.simps) (simp add: used_def)
    then show ?thesis using hole_done [OF less.prems(1) False] h less.prems(4,5) by simp
  next
    case True
    have m: "dist ?n ?q e < dist ?n q e" using dist_next_left [OF h(2) less.prems(2)] uq less.prems(3) by blast
    have qp: "?q \<noteq> p"
      using dist_before_next [OF h(1,2) _ less.prems(2)] h(3) h(5) [OF less.prems(2)] less.prems(3) by metis
    have r: "map_index ?n (hash (es ! ?q)) = home es ?q" by (simp add: home_def)
    have "home es ?q < ?n" unfolding home_def using q by (intro map_index_less) linarith
    note path = on_path_iff [OF h(1) q this qp [symmetric]]
    show ?thesis
    proof (cases "dist ?n (home es ?q) p < dist ?n (home es ?q) ?q")
      case on: True
      then have e: "remove_loop es ?n p q = remove_loop (es[p := es ! ?q]) ?n ?q ?q"
        using True path by (subst remove_loop.simps) (auto simp: used_def r Let_def)
      note c = cleared_moves(1,3,4) [OF h(1) q qp [symmetric] h(3) True]
        cleared_moves(2) [OF h(1) q qp [symmetric] h(3) True less.prems(4)]
      have "\<not> used (es[p := es ! ?q]) e" using less.prems(3) h(1,3) by (auto simp: used_update)
      then show ?thesis unfolding e
        using less.hyps [of "es[p := es ! ?q]" ?q ?q] m hole_moves [OF less.prems(1) True qp on] less.prems(2-5) c by simp
    next
      case off: False
      then have e: "remove_loop es ?n p q = remove_loop es ?n p ?q"
        using True path by (subst remove_loop.simps) (auto simp: used_def r Let_def)
      show ?thesis unfolding e
        using less.hyps [OF m hole_stays [OF less.prems(1) True qp off] less.prems(2-5)] .
    qed
  qed
qed

text \<open>\<open>n\<close> more entries fit: the table that holds them is allocated and its size does not overflow.\<close>

definition fits_more :: "nat \<Rightarrow> ('k, 'v) HashMap \<Rightarrow> nat \<Rightarrow> bool" where
  "fits_more limit m n \<longleftrightarrow> (let N = occupancy m + n in (N + N div 4) * 2 < 2 ^ 32 \<and> (N + N div 4) * 2 \<le> limit)"

locale hashed_keys =
  fixes match_fun :: "'k \<Rightarrow> 'k \<Rightarrow> bool" and Hash :: "'k \<Rightarrow> 32 word" and cls :: "'k \<Rightarrow> 'c"
  assumes match_iff: "match_fun a b \<longleftrightarrow> cls a = cls b"
    and Hash_cls: "cls a = cls b \<Longrightarrow> Hash a = Hash b"
begin

lemma hits_iff:
  assumes "hashes_ok Hash es" and "i < length es"
  shows "hits match_fun k (Hash k) (es ! i) \<longleftrightarrow> used es i \<and> cls_at cls es i = cls k"
proof (cases "key (es ! i)")
  case (Some k')
  then have h: "hash (es ! i) = Hash k'" using assms by (simp add: hashes_ok_def)
  have "hits match_fun k (Hash k) (es ! i) \<longleftrightarrow> Hash k = Hash k' \<and> cls k = cls k'"
    by (simp only: hits_def Some h match_iff option.case)
  moreover have "used es i \<and> cls_at cls es i = cls k \<longleftrightarrow> cls k' = cls k" by (simp add: used_def cls_at_def Some)
  ultimately show ?thesis using Hash_cls [of k k'] by metis
qed (simp add: hits_def used_def)

lemma absent_iff: "absent cls k es \<longleftrightarrow> (\<forall>i<length es. used es i \<longrightarrow> cls_at cls es i \<noteq> cls k)"
  by (simp add: absent_def ball_live cls_at_def)

lemma Probe_ok:
  assumes "table_ok Hash cls m" and "occupancy m < capacity m"
  obtains p where "Probe match_fun m k (Hash k) = Some p" "p < length (table m)" "passed match_fun k (Hash k) (table m) p"
    "used (table m) p \<Longrightarrow> cls_at cls (table m) p = cls k"
    "\<not> used (table m) p \<Longrightarrow> absent cls k (table m)"
proof -
  note ok = table_okD [OF assms(1)]
  let ?es = "table m" and ?n = "length (table m)"
  let ?h = "map_index ?n (Hash k)"
  obtain e where e: "e < ?n" "\<not> used ?es e" using unused_exists [of ?es] ok(1,2) assms(2) by auto
  have h: "?h < ?n" using ok(6) by (rule map_index_less)
  have "passed match_fun k (Hash k) ?es ?h" by (simp add: passed_def dist_def)
  then obtain p where p: "Probe match_fun m k (Hash k) = Some p" "p < ?n" "passed match_fun k (Hash k) ?es p"
      "\<not> used ?es p \<or> hits match_fun k (Hash k) (?es ! p)"
    using probe_loop_ends [OF ok(1), of e ?h match_fun k "Hash k"] e h ok(1) by (auto simp: Probe_def)
  have "absent cls k ?es" if "\<not> used ?es p"
  proof (unfold absent_iff, intro allI impI notI)
    fix i assume i: "i < ?n" "used ?es i" "cls_at cls ?es i = cls k"
    then have "hits match_fun k (Hash k) (?es ! i)" using hits_iff [OF ok(4) i(1)] by simp
    then have "\<not> dist ?n ?h i < dist ?n ?h p" using p(3) i(1) by (auto simp: passed_def)
    moreover have "home ?es i = ?h" using \<open>hits match_fun k (Hash k) (?es ! i)\<close> by (auto simp: home_def hits_def split: option.splits)
    then have "\<not> dist ?n ?h p < dist ?n ?h i" using paths_usedD [OF ok(3) i(1,2) p(2)] that by auto
    ultimately have "i = p" using dist_inj [OF h i(1) p(2)] by simp
    then show False using i that by simp
  qed
  moreover have "cls_at cls ?es p = cls k" if "used ?es p" using p(4) hits_iff [OF ok(4) p(2)] that by simp
  ultimately show ?thesis using that p by blast
qed

lemma insert_at_ok:
  assumes "table_ok Hash cls m" "occupancy m < capacity m" and "p < length (table m)" "passed match_fun k (Hash k) (table m) p"
    and "\<not> used (table m) p" "absent cls k (table m)"
  shows "table_ok Hash cls (insert_at p k (Hash k) m)"
    and "live (table (insert_at p k (Hash k) m)) = insert \<lparr>key = Some k, val = None, hash = Hash k\<rparr> (live (table m))"
    and "occupancy (insert_at p k (Hash k) m) = Suc (occupancy m)" and "capacity (insert_at p k (Hash k) m) = capacity m"
proof -
  note ok = table_okD [OF assms(1)]
  let ?e = "\<lparr>key = Some k, val = None, hash = Hash k\<rparr>" and ?es = "table m"
  let ?es' = "?es[p := ?e]"
  have t: "table (insert_at p k (Hash k) m) = ?es'" by (simp add: insert_at_def)
  show occ: "occupancy (insert_at p k (Hash k) m) = Suc (occupancy m)"
    using assms(2) ok(1,7) by (simp add: insert_at_def)
  show cap: "capacity (insert_at p k (Hash k) m) = capacity m" by (simp add: insert_at_def)
  have u: "used ?es' i \<longleftrightarrow> i = p \<or> used ?es i" for i using assms(3) by (simp add: used_update)
  have "paths_used ?es'" unfolding paths_used_def
  proof (intro allI impI)
    fix i j
    assume i: "i < length ?es'" "used ?es' i" "j < length ?es'"
      and d: "dist (length ?es') (home ?es' i) j < dist (length ?es') (home ?es' i) i"
    show "used ?es' j"
    proof (cases "i = p")
      case True
      then show ?thesis using d i(3) assms(3,4) u by (auto simp: passed_def home_def)
    next
      case False
      then have "home ?es' i = home ?es i" "used ?es i" using i(2) u by (auto simp: home_def)
      then have "used ?es j" using d i paths_usedD [OF ok(3), of i j] by simp
      then show ?thesis using u by simp
    qed
  qed
  moreover have "hashes_ok Hash ?es'" using ok(4) set_update_subset_insert [of ?es p ?e] by (auto simp: hashes_ok_def)
  moreover have "keys_unique cls ?es'" unfolding keys_unique_def
  proof (intro allI impI)
    fix i j
    assume i: "i < length ?es'" "j < length ?es'" "used ?es' i" "used ?es' j" and c: "cls_at cls ?es' i = cls_at cls ?es' j"
    have "cls_at cls ?es' i = (if i = p then cls k else cls_at cls ?es i)" for i
      using assms(3) by (simp add: cls_at_def)
    then have "i = p \<longleftrightarrow> j = p" using c i assms(6) u unfolding absent_iff by (metis length_list_update)
    then show "i = j" using keys_uniqueD [OF ok(5), of i j] c i u by (auto simp: cls_at_def)
  qed
  moreover have "count_used ?es' = Suc (count_used ?es)" using assms(3,5) by (simp add: count_used_fill)
  ultimately show "table_ok Hash cls (insert_at p k (Hash k) m)"
    using assms(1) occ cap t by (simp add: table_ok_def)
  have "{?es ! i |i. i < length ?es \<and> i \<noteq> p \<and> used ?es i} = live ?es" using assms(5) by (auto simp: live_used set_eq_iff)
  then show "live (table (insert_at p k (Hash k) m)) = insert ?e (live ?es)"
    unfolding t live_update [OF assms(3)] by simp
qed

text \<open>Setting the value of an entry.\<close>

lemma set_value_ok:
  assumes "table_ok Hash cls m" and "p < length (table m)" "used (table m) p"
  shows "table_ok Hash cls (set_value p v m)"
    and "live (table (set_value p v m)) = (live (table m) - {table m ! p}) \<union> {(table m ! p) \<lparr>val := v\<rparr>}"
    and "occupancy (set_value p v m) = occupancy m" and "capacity (set_value p v m) = capacity m"
proof -
  note ok = table_okD [OF assms(1)]
  let ?es = "table m"
  let ?es' = "?es[p := (?es ! p) \<lparr>val := v\<rparr>]"
  have t: "table (set_value p v m) = ?es'" by (simp add: set_value_def)
  have k: "key (?es' ! i) = key (?es ! i)" "hash (?es' ! i) = hash (?es ! i)" for i
    using assms(2) by (auto simp: nth_list_update)
  have "count_used ?es' = count_used ?es" using assms(2,3) by (intro count_used_same) (auto simp: used_def)
  moreover have "capacity (set_value p v m) = capacity m" "occupancy (set_value p v m) = occupancy m" by (simp_all add: set_value_def)
  ultimately show "table_ok Hash cls (set_value p v m)"
    using assms(1) same_keys(1,3) [OF length_list_update k] same_keys(2) [OF length_list_update k, of cls] by (simp add: table_ok_def t)
  have "{?es ! i |i. i < length ?es \<and> i \<noteq> p \<and> used ?es i} = live ?es - {?es ! p}"
    using keys_uniqueD [OF ok(5) _ assms(2) _ assms(3)] by (auto simp: live_used set_eq_iff cls_at_def)
  then show "live (table (set_value p v m)) = (live ?es - {?es ! p}) \<union> {(?es ! p) \<lparr>val := v\<rparr>}"
    using assms(3) unfolding t live_update [OF assms(2)] by (auto simp: used_def)
qed (simp_all add: set_value_def)

text \<open>\<open>Lookup\<close> finds the entry of a key, inserts one, or resizes first.\<close>

lemma full_iff: "table_ok Hash cls m \<Longrightarrow> occupancy m \<le> 2 ^ 31 \<Longrightarrow> is_full m \<longleftrightarrow> capacity m \<le> occupancy m + occupancy m div 4"
  by (simp add: is_full_def)

lemma map_okD: "map_ok Hash cls m \<Longrightarrow> table_ok Hash cls m" "map_ok Hash cls m \<Longrightarrow> occupancy m < capacity m"
  by (auto simp: map_ok_def)

lemma lookup_body_present:
  assumes "map_ok Hash cls m" and "\<not> absent cls k (table m)"
  obtains p where "lookup_body resize match_fun m k (Hash k) ins = Some (m, Some p)" "p < length (table m)" "used (table m) p" "cls_at cls (table m) p = cls k"
proof -
  obtain p where p: "Probe match_fun m k (Hash k) = Some p" "p < length (table m)" "used (table m) p" "cls_at cls (table m) p = cls k"
    using Probe_ok [OF map_okD [OF assms(1)], of k] assms(2) by metis
  then show ?thesis using that [of p] by (auto simp: lookup_body_def used_def)
qed

lemma lookup_body_absent:
  assumes "map_ok Hash cls m" and "absent cls k (table m)"
  shows "lookup_body resize match_fun m k (Hash k) False = Some (m, None)"
proof -
  obtain p where "Probe match_fun m k (Hash k) = Some p" "\<not> used (table m) p"
    using Probe_ok [OF map_okD [OF assms(1)], of k] assms(2) unfolding absent_iff by metis
  then show ?thesis by (simp add: lookup_body_def used_def)
qed

lemma lookup_body_inserts:
  assumes "map_ok Hash cls m" and "absent cls k (table m)"
  obtains p m' where "p < length (table m')" "table m' ! p = \<lparr>key = Some k, val = None, hash = Hash k\<rparr>"
    "table_ok Hash cls m'" "live (table m') = insert \<lparr>key = Some k, val = None, hash = Hash k\<rparr> (live (table m))"
    "occupancy m' = Suc (occupancy m)" "capacity m' = capacity m"
    "lookup_body resize match_fun m k (Hash k) True =
       (if is_full m' then
          (case resize m' of None \<Rightarrow> None | Some m \<Rightarrow> (case Probe match_fun m k (Hash k) of None \<Rightarrow> None | Some p \<Rightarrow> Some (m, Some p)))
        else Some (m', Some p))"
proof -
  obtain p where p: "Probe match_fun m k (Hash k) = Some p" "p < length (table m)" "passed match_fun k (Hash k) (table m) p" "\<not> used (table m) p"
    using Probe_ok [OF map_okD [OF assms(1)], of k] assms(2) unfolding absent_iff by metis
  note i = insert_at_ok [OF map_okD [OF assms(1)] p(2-4) assms(2)]
  have t: "table (insert_at p k (Hash k) m) = (table m)[p := \<lparr>key = Some k, val = None, hash = Hash k\<rparr>]" by (simp add: insert_at_def)
  show ?thesis
    by (rule that [of p "insert_at p k (Hash k) m", OF _ _ i]) (use p t in \<open>auto simp: lookup_body_def used_def Let_def\<close>)
qed

lemma rehash_step:
  assumes "map_ok Hash cls m" and "absent cls k (table m)" and "key e = Some k" "hash e = Hash k"
    and "Suc (occupancy m) + Suc (occupancy m) div 4 < capacity m"
  obtains p m1 where "lookup_body resize match_fun m k (hash e) True = Some (m1, Some p)"
    "map_ok Hash cls (set_value p (val e) m1)" "live (table (set_value p (val e) m1)) = insert e (live (table m))"
    "occupancy (set_value p (val e) m1) = Suc (occupancy m)" "capacity (set_value p (val e) m1) = capacity m"
proof -
  let ?e = "\<lparr>key = Some k, val = None, hash = Hash k\<rparr>"
  obtain p m1 where 1: "p < length (table m1)" "table m1 ! p = ?e" "table_ok Hash cls m1"
      "live (table m1) = insert ?e (live (table m))" "occupancy m1 = Suc (occupancy m)" "capacity m1 = capacity m"
      and l: "lookup_body resize match_fun m k (Hash k) True =
        (if is_full m1 then
           (case resize m1 of None \<Rightarrow> None | Some m \<Rightarrow> (case Probe match_fun m k (Hash k) of None \<Rightarrow> None | Some p \<Rightarrow> Some (m, Some p)))
         else Some (m1, Some p))"
    using lookup_body_inserts [OF assms(1,2), of resize] by blast
  have c: "capacity m \<le> 2 ^ 31" using table_okD(1,7) [OF map_okD(1) [OF assms(1)]] by simp
  then have "occupancy m1 \<le> 2 ^ 31" using 1(5) assms(5) by simp
  then have f: "\<not> is_full m1" using full_iff [OF 1(3)] 1(5,6) assms(5) by simp
  have u: "used (table m1) p" using 1(2) by (simp add: used_def)
  note s = set_value_ok [OF 1(3,1) u, of "val e"]
  have "?e \<notin> live (table m)" using assms(2) by (auto simp: absent_def)
  moreover have "?e \<lparr>val := val e\<rparr> = e" using assms(3,4) by simp
  ultimately have "live (table (set_value p (val e) m1)) = insert e (live (table m))"
    unfolding s(2) 1(2,4) by auto
  then show ?thesis using that l f assms(4,5) s 1(5,6) by (simp add: map_ok_def)
qed

lemma rehash_ok:
  assumes "keys_unique cls es" "hashes_ok Hash es" and "map_ok Hash cls m"
    and "\<forall>e\<in>live es. absent cls (the (key e)) (table m)"
    and "n = count_used es" "occupancy m + n + (occupancy m + n) div 4 < capacity m"
  shows "\<exists>m'. rehash (lookup_body resize match_fun) es n m = Some m' \<and> map_ok Hash cls m' \<and>
    live (table m') = live (table m) \<union> live es \<and> occupancy m' = occupancy m + n \<and> capacity m' = capacity m"
  using assms
proof (induction es arbitrary: n m)
  case Nil
  then show ?case by (simp add: count_used_def live_def)
next
  case (Cons e es)
  have u: "keys_unique cls es" "hashes_ok Hash es"
    using keys_unique_Cons(1) [OF Cons.prems(1)] Cons.prems(2) by (simp_all add: hashes_ok_def)
  show ?case
  proof (cases "key e")
    case None
    then have *: "live (e # es) = live es" "count_used (e # es) = count_used es" by (auto simp: live_def count_used_def)
    have "rehash (lookup_body resize match_fun) (e # es) n m = rehash (lookup_body resize match_fun) es n m"
      using None by (cases "n = 0"; cases es) auto
    then show ?thesis using Cons.IH [OF u Cons.prems(3)] Cons.prems(4-6) * by simp
  next
    case (Some k)
    then have n: "n = Suc (count_used es)" and l: "live (e # es) = insert e (live es)"
      using Cons.prems(5) by (auto simp: live_def count_used_def)
    have "absent cls k (table m)" using Cons.prems(4) l Some by simp
    moreover have "hash e = Hash k" using Cons.prems(2) Some by (simp add: hashes_ok_def)
    moreover have "Suc (occupancy m) + Suc (occupancy m) div 4 < capacity m"
      using Cons.prems(6) n div_le_mono [of "Suc (occupancy m)" "occupancy m + n" 4] by simp
    ultimately obtain p m1 where 1: "lookup_body resize match_fun m k (hash e) True = Some (m1, Some p)"
      "map_ok Hash cls (set_value p (val e) m1)" "live (table (set_value p (val e) m1)) = insert e (live (table m))"
      "occupancy (set_value p (val e) m1) = Suc (occupancy m)" "capacity (set_value p (val e) m1) = capacity m"
      using rehash_step [OF Cons.prems(3) _ Some, of resize] by blast
    have "cls (the (key e')) \<noteq> cls k" if "e' \<in> live es" for e'
      using keys_unique_Cons(2) [OF Cons.prems(1) Some that] .
    then have "\<forall>e'\<in>live es. absent cls (the (key e')) (table (set_value p (val e) m1))"
      using Cons.prems(4) l Some unfolding absent_def 1(3) by fastforce
    then show ?thesis using Cons.IH [OF u 1(2) _ refl] 1 n l Some Cons.prems(6) by simp
  qed
qed

end

locale hash_table = hashed_keys match_fun Hash cls
  for match_fun :: "'k \<Rightarrow> 'k \<Rightarrow> bool" and Hash :: "'k \<Rightarrow> 32 word" and cls :: "'k \<Rightarrow> 'c" +
  fixes New :: "nat \<Rightarrow> ('k, 'v) Entry list option" and limit :: nat
  assumes New_ok: "n \<le> limit \<Longrightarrow> \<exists>es. New n = Some es \<and> length es = n" and limit: "8 \<le> limit"
begin

lemma Initialize_ok:
  assumes "n \<le> limit" and "power_of_two n"
  obtains m where "HashMap_Initialize New n = Some m" "map_ok Hash cls m" "live (table m) = {}" "occupancy m = 0" "capacity m = n"
proof -
  obtain es where es: "New n = Some es" "length es = n" using New_ok [OF assms(1)] by blast
  let ?m = "HashMap_Clear \<lparr>table = es, capacity = n, occupancy = 0\<rparr>"
  have k: "key (table ?m ! i) = None" if "i < n" for i using that es(2) by (simp add: HashMap_Clear_def)
  have l: "live (table ?m) = {}" "count_used (table ?m) = 0" by (auto simp: live_def count_used_def HashMap_Clear_def filter_empty_conv)
  have "paths_used (table ?m)" "keys_unique cls (table ?m)" "hashes_ok Hash (table ?m)"
    using es(2) by (auto simp: paths_used_def keys_unique_def hashes_ok_def used_def HashMap_Clear_def)
  moreover have "0 < n" using assms(2) by (auto simp: power_of_two_def)
  ultimately have "map_ok Hash cls ?m" using l es(2) assms(2) by (simp add: map_ok_def table_ok_def) (simp add: HashMap_Clear_def)
  then show ?thesis using that [of ?m] l es by (simp add: HashMap_Initialize_def) (simp add: HashMap_Clear_def)
qed

text \<open>The depth of the recursion is enough: the calls of \<open>Lookup\<close> in \<open>Resize\<close> do not resize.\<close>

lemma Lookup_body: "\<exists>resize. Lookup d New match_fun = lookup_body resize match_fun"
  by (cases d) auto

lemma Resize_ok:
  assumes "table_ok Hash cls m" and "occupancy m \<le> capacity m" and "capacity m * 2 < 2 ^ 32" "capacity m * 2 \<le> limit"
  obtains m' where "HashMap_Resize (Lookup d New match_fun) New m = Some m'" "map_ok Hash cls m'"
    "live (table m') = live (table m)" "occupancy m' = occupancy m" "capacity m' = capacity m * 2"
proof -
  note ok = table_okD [OF assms(1)]
  obtain resize where r: "Lookup d New match_fun = lookup_body resize match_fun" using Lookup_body by blast
  obtain j where j: "length (table m) = 2 ^ j" using assms(1) by (auto simp: table_ok_def power_of_two_def)
  then have c: "capacity m * 2 = 2 ^ Suc j" using ok(1) by simp
  then have "(2::nat) ^ Suc j < 2 ^ 32" using assms(3) by simp
  then have "Suc j < 32" by (rule power_less_imp_less_exp [rotated]) simp
  then have p: "power_of_two (capacity m * 2)" using c unfolding power_of_two_def by blast
  obtain m0 where 0: "HashMap_Initialize New (capacity m * 2) = Some m0" "map_ok Hash cls m0" "live (table m0) = {}" "occupancy m0 = 0" "capacity m0 = capacity m * 2"
    using Initialize_ok [OF assms(4) p] by blast
  have "0 < capacity m" using ok(1,6) by simp
  then have "occupancy m + occupancy m div 4 < capacity m * 2" using assms(2) by linarith
  then obtain m' where "rehash (lookup_body resize match_fun) (table m) (occupancy m) m0 = Some m'" "map_ok Hash cls m'"
      "live (table m') = live (table m)" "occupancy m' = occupancy m" "capacity m' = capacity m * 2"
    using rehash_ok [OF ok(5,4) 0(2) _ ok(2), of resize] 0(3-5) by (auto simp: absent_def)
  then show ?thesis using that [of m'] 0(1) r assms(3) by (simp add: HashMap_Resize_def)
qed

lemma Lookup_present:
  assumes "map_ok Hash cls m" and "\<not> absent cls k (table m)"
  obtains p where "Lookup d New match_fun m k (Hash k) ins = Some (m, Some p)" "p < length (table m)" "used (table m) p" "cls_at cls (table m) p = cls k"
  using Lookup_body [of d] lookup_body_present [OF assms] by metis

lemma Lookup_absent:
  assumes "map_ok Hash cls m" and "absent cls k (table m)"
  shows "Lookup d New match_fun m k (Hash k) False = Some (m, None)"
  using Lookup_body [of d] lookup_body_absent [OF assms] by metis

lemma Lookup_inserts:
  assumes "map_ok Hash cls m" and "absent cls k (table m)" and "fits_more limit m (Suc n)"
  obtains p m' where "Lookup (Suc d) New match_fun m k (Hash k) True = Some (m', Some p)" "map_ok Hash cls m'"
    "p < length (table m')" "table m' ! p = \<lparr>key = Some k, val = None, hash = Hash k\<rparr>"
    "live (table m') = insert \<lparr>key = Some k, val = None, hash = Hash k\<rparr> (live (table m))" "occupancy m' = Suc (occupancy m)"
proof -
  let ?e = "\<lparr>key = Some k, val = None, hash = Hash k\<rparr>" and ?resize = "HashMap_Resize (Lookup d New match_fun) New"
  obtain p m1 where 1: "p < length (table m1)" "table m1 ! p = ?e" "table_ok Hash cls m1"
      "live (table m1) = insert ?e (live (table m))" "occupancy m1 = Suc (occupancy m)" "capacity m1 = capacity m"
      and l: "Lookup (Suc d) New match_fun m k (Hash k) True =
        (if is_full m1 then
           (case ?resize m1 of None \<Rightarrow> None | Some m \<Rightarrow> (case Probe match_fun m k (Hash k) of None \<Rightarrow> None | Some p \<Rightarrow> Some (m, Some p)))
         else Some (m1, Some p))"
    using lookup_body_inserts [OF assms(1,2), of ?resize] unfolding Lookup.simps by blast
  have o: "occupancy m1 \<le> capacity m1" using map_okD(2) [OF assms(1)] 1(5,6) by simp
  have "occupancy m1 \<le> 2 ^ 31" using o table_okD(1,7) [OF 1(3)] by simp
  then have full: "is_full m1 \<longleftrightarrow> capacity m1 \<le> occupancy m1 + occupancy m1 div 4" by (rule full_iff [OF 1(3)])
  show ?thesis
  proof (cases "is_full m1")
    case False
    then show ?thesis using that [of m1 p] l 1 full by (simp add: map_ok_def)
  next
    case True
    have "Suc (occupancy m) div 4 \<le> (occupancy m + Suc n) div 4" by (simp add: div_le_mono)
    then have "capacity m1 * 2 \<le> (occupancy m + Suc n + (occupancy m + Suc n) div 4) * 2"
      using True full 1(5) by simp
    then have "capacity m1 * 2 < 2 ^ 32" "capacity m1 * 2 \<le> limit" using assms(3) by (simp_all add: fits_more_def Let_def)
    then obtain m2 where 2: "?resize m1 = Some m2" "map_ok Hash cls m2" "live (table m2) = live (table m1)" "occupancy m2 = occupancy m1"
      using Resize_ok [OF 1(3) o] by blast
    obtain i where i: "i < length (table m2)" "used (table m2) i" "table m2 ! i = ?e"
      using 2(3) 1(4) live_used [of ?e "table m2"] by auto
    then have "\<not> absent cls k (table m2)" by (auto simp: absent_iff cls_at_def)
    then obtain p2 where p2: "Probe match_fun m2 k (Hash k) = Some p2" "p2 < length (table m2)" "used (table m2) p2" "cls_at cls (table m2) p2 = cls k"
      using Probe_ok [OF map_okD [OF 2(2)], of k] by metis
    have "p2 = i" using keys_uniqueD [OF table_okD(5) [OF map_okD(1) [OF 2(2)]] p2(2) i(1) p2(3) i(2)] p2(4) i(3) by (simp add: cls_at_def)
    then show ?thesis using that [of m2 p2] l True 2 p2(1) i 1(4,5) by simp
  qed
qed

lemma Remove_ok:
  assumes "map_ok Hash cls m"
  obtains m' where "HashMap_Remove match_fun m k (Hash k) = Some m'" "map_ok Hash cls m'"
    "live (table m') = {e \<in> live (table m). cls (the (key e)) \<noteq> cls k}" "occupancy m' \<le> occupancy m"
proof -
  note ok = table_okD [OF map_okD(1) [OF assms]]
  let ?es = "table m" and ?n = "length (table m)"
  obtain p where p: "Probe match_fun m k (Hash k) = Some p" "p < ?n" "used ?es p \<Longrightarrow> cls_at cls ?es p = cls k"
      "\<not> used ?es p \<Longrightarrow> absent cls k ?es"
    using Probe_ok [OF map_okD [OF assms], of k] by metis
  show ?thesis
  proof (cases "used ?es p")
    case False
    then show ?thesis using that [of m] p(1,4) assms by (auto simp: HashMap_Remove_def used_def absent_def)
  next
    case True
    note hole = hole_start [OF ok(3) p(2) True]
    obtain e where e: "e < ?n" "\<not> used ?es e" using unused_exists [of ?es] ok(1,2) map_okD(2) [OF assms] by auto
    have u: "keys_unique cls (cleared ?es p)" by (rule keys_unique_cleared [OF ok(5) p(2)])
    obtain es' p' where r: "remove_loop ?es ?n p p = Some (es', p')" "length es' = ?n" "p' < ?n" "used es' p'"
        "paths_used (cleared es' p')" "keys_unique cls (cleared es' p')" "hashes_ok Hash es'"
        "live (cleared es' p') = live (cleared ?es p)" "count_used es' = count_used ?es"
      using remove_loop_ok [OF hole e u ok(4)] by blast
    let ?m = "m \<lparr>table := cleared es' p', occupancy := occupancy m - 1\<rparr>"
    have R: "HashMap_Remove match_fun m k (Hash k) = Some ?m"
      using p(1) True r(1) ok(1) by (auto simp: HashMap_Remove_def used_def cleared_def)
    have c: "Suc (count_used (cleared es' p')) = count_used ?es"
      using count_used_clear [of p' es'] r(2,3,4,9) by (simp add: cleared_def)
    have "hashes_ok Hash (cleared es' p')"
      using r(7) set_update_subset_insert [of es' p' "(es' ! p') \<lparr>key := None\<rparr>"] by (auto simp: hashes_ok_def cleared_def)
    then have t: "table_ok Hash cls ?m"
      using map_okD(1) [OF assms] r(2,5,6) c by (simp add: table_ok_def) (simp add: cleared_def)
    have "(occupancy m - 1) div 4 \<le> occupancy m div 4" by (rule div_le_mono) simp
    then have "map_ok Hash cls ?m" using t assms by (simp add: map_ok_def) linarith
    moreover have "live (cleared ?es p) = {e \<in> live ?es. cls (the (key e)) \<noteq> cls k}"
      unfolding live_cleared [OF p(2)]
    proof (intro set_eqI iffI)
      fix x
      assume "x \<in> {?es ! i |i. i < ?n \<and> i \<noteq> p \<and> used ?es i}"
      then obtain i where "x = ?es ! i" "i < ?n" "i \<noteq> p" "used ?es i" by blast
      then show "x \<in> {e \<in> live ?es. cls (the (key e)) \<noteq> cls k}"
        using keys_uniqueD [OF ok(5) _ p(2) _ True] p(3) [OF True] by (auto simp: live_used cls_at_def)
    next
      fix x
      assume "x \<in> {e \<in> live ?es. cls (the (key e)) \<noteq> cls k}"
      then show "x \<in> {?es ! i |i. i < ?n \<and> i \<noteq> p \<and> used ?es i}"
        using p(3) [OF True] by (auto simp: live_used cls_at_def)
    qed
    ultimately show ?thesis using that [OF R] r(8) by simp
  qed
qed

lemma map_after_set_value:
  assumes "map_ok Hash cls m" and "p < length (table m)" "used (table m) p"
  shows "map_ok Hash cls (set_value p v m)" "occupancy (set_value p v m) = occupancy m"
    and "table_map cls (table (set_value p v m)) = (table_map cls (table m))(cls_at cls (table m) p := v)"
proof -
  note s = set_value_ok [OF map_okD(1) [OF assms(1)] assms(2,3), of v]
  show ok: "map_ok Hash cls (set_value p v m)" and "occupancy (set_value p v m) = occupancy m"
    using assms(1) s by (simp_all add: map_ok_def)
  note u = table_okD(5) [OF map_okD(1) [OF assms(1)]] and u' = table_okD(5) [OF map_okD(1) [OF ok]]
  let ?e = "table m ! p"
  show "table_map cls (table (set_value p v m)) = (table_map cls (table m))(cls_at cls (table m) p := v)"
  proof
    fix c
    consider "c = cls_at cls (table m) p" | e where "e \<in> live (table m)" "e \<noteq> ?e" "cls (the (key e)) = c" "c \<noteq> cls_at cls (table m) p"
      | "c \<noteq> cls_at cls (table m) p" "\<forall>e\<in>live (table m). cls (the (key e)) \<noteq> c"
      by (cases "c = cls_at cls (table m) p"; cases "\<exists>e\<in>live (table m). cls (the (key e)) = c") (auto simp: cls_at_def)
    then show "table_map cls (table (set_value p v m)) c = ((table_map cls (table m))(cls_at cls (table m) p := v)) c"
    proof cases
      case 1
      then show ?thesis using table_map_eq [OF u', of "?e \<lparr>val := v\<rparr>"] s(2) by (simp add: cls_at_def)
    next
      case 2
      then show ?thesis using table_map_eq [OF u', of e] table_map_eq [OF u, of e] s(2) by simp
    next
      case 3
      then have "\<forall>e\<in>live (table (set_value p v m)). cls (the (key e)) \<noteq> c" using s(2) by (auto simp: cls_at_def)
      then show ?thesis using 3 table_map_None by (metis fun_upd_other)
    qed
  qed
qed

lemma value_at:
  assumes "map_ok Hash cls m" and "p < length (table m)" "used (table m) p"
  shows "table_map cls (table m) (cls_at cls (table m) p) = val (table m ! p)"
  using table_map_eq [OF table_okD(5) [OF map_okD(1) [OF assms(1)]], of "table m ! p"] assms(2,3) live_used
  by (metis cls_at_def)

lemma step_Get:
  assumes "map_ok Hash cls m"
  shows "hash_step New match_fun Hash (Get k) m = Some (m, table_map cls (table m) (cls k))"
proof (cases "absent cls k (table m)")
  case True
  then show ?thesis using Lookup_absent [OF assms True, of 1] table_map_None [of "table m" cls "cls k"]
    by (simp add: absent_def)
next
  case False
  then obtain p where "Lookup 1 New match_fun m k (Hash k) False = Some (m, Some p)" "p < length (table m)" "used (table m) p" "cls_at cls (table m) p = cls k"
    using Lookup_present [OF assms] by blast
  then show ?thesis using value_at [OF assms, of p] by simp
qed

lemma step_Put:
  assumes "map_ok Hash cls m" and "fits_more limit m (Suc n)"
  shows "\<exists>m'. hash_step New match_fun Hash (Put k v) m = Some (m', table_map cls (table m) (cls k)) \<and> map_ok Hash cls m' \<and> fits_more limit m' n \<and>
    table_map cls (table m') = (table_map cls (table m))(cls k \<mapsto> v)"
proof (cases "absent cls k (table m)")
  case True
  let ?e = "\<lparr>key = Some k, val = None, hash = Hash k\<rparr>"
  obtain p m1 where 1: "Lookup (Suc 0) New match_fun m k (Hash k) True = Some (m1, Some p)" "map_ok Hash cls m1" "p < length (table m1)"
      "table m1 ! p = ?e" "live (table m1) = insert ?e (live (table m))" "occupancy m1 = Suc (occupancy m)"
    using Lookup_inserts [OF assms(1) True assms(2)] by blast
  have u: "used (table m1) p" "cls_at cls (table m1) p = cls k" using 1(4) by (simp_all add: used_def cls_at_def)
  note s = map_after_set_value [OF 1(2,3) u(1), of "Some v"]
  have N: "table_map cls (table m) (cls k) = None" using True table_map_None [of "table m" cls "cls k"] by (simp add: absent_def)
  have "table_map cls (table m1) c = table_map cls (table m) c" for c
  proof (cases "c = cls k")
    case True
    then show ?thesis using N value_at [OF 1(2,3) u(1)] u(2) 1(4) by simp
  next
    case False
    then show ?thesis
      using table_map_eq [OF table_okD(5) [OF map_okD(1) [OF 1(2)]]] table_map_eq [OF table_okD(5) [OF map_okD(1) [OF assms(1)]]] 1(5)
        table_map_None [of "table m1" cls c] table_map_None [of "table m" cls c]
      by (cases "\<exists>e\<in>live (table m). cls (the (key e)) = c") auto
  qed
  then have "table_map cls (table m1) = table_map cls (table m)" by blast
  moreover have "fits_more limit (set_value p (Some v) m1) n" using assms(2) 1(6) s(2) by (simp add: fits_more_def)
  ultimately show ?thesis using 1(1,4) s N u(2) by simp
next
  case False
  then obtain p where 1: "Lookup 1 New match_fun m k (Hash k) True = Some (m, Some p)" "p < length (table m)" "used (table m) p" "cls_at cls (table m) p = cls k"
    using Lookup_present [OF assms(1)] by blast
  note s = map_after_set_value [OF assms(1) 1(2,3), of "Some v"]
  have "fits_more limit m n" using assms(2) div_le_mono [of "occupancy m + n" "occupancy m + Suc n" 4] by (auto simp: fits_more_def Let_def)
  then show ?thesis using 1 s value_at [OF assms(1) 1(2,3)] by (simp add: fits_more_def)
qed

lemma step_Delete:
  assumes "map_ok Hash cls m" and "fits_more limit m (Suc n)"
  shows "\<exists>m'. hash_step New match_fun Hash (Delete k) m = Some (m', None) \<and> map_ok Hash cls m' \<and> fits_more limit m' n \<and>
    table_map cls (table m') = (table_map cls (table m))(cls k := None)"
proof -
  obtain m' where 1: "HashMap_Remove match_fun m k (Hash k) = Some m'" "map_ok Hash cls m'"
    "live (table m') = {e \<in> live (table m). cls (the (key e)) \<noteq> cls k}" "occupancy m' \<le> occupancy m"
    using Remove_ok [OF assms(1)] by blast
  have "table_map cls (table m') c = ((table_map cls (table m))(cls k := None)) c" for c
    using table_map_eq [OF table_okD(5) [OF map_okD(1) [OF 1(2)]]] table_map_eq [OF table_okD(5) [OF map_okD(1) [OF assms(1)]]] 1(3)
      table_map_None [of "table m'" cls c] table_map_None [of "table m" cls c]
    by (cases "\<exists>e\<in>live (table m). cls (the (key e)) = c"; cases "c = cls k") auto
  then have "table_map cls (table m') = (table_map cls (table m))(cls k := None)" by blast
  moreover have "fits_more limit m' n" using assms(2) 1(4) div_le_mono [of "occupancy m' + n" "occupancy m + Suc n" 4] by (auto simp: fits_more_def Let_def)
  ultimately show ?thesis using 1 by simp
qed

sublocale dictionary "hash_step New match_fun Hash" cls "the (HashMap_new New)" "map_ok Hash cls" "\<lambda>m. table_map cls (table m)" "fits_more limit"
proof unfold_locales
  have "power_of_two 8" unfolding power_of_two_def by (rule exI [of _ 3]) simp
  then obtain m where "HashMap_new New = Some m" "map_ok Hash cls m" "live (table m) = {}"
    using Initialize_ok [OF limit] by (auto simp: HashMap_new_def)
  then show "map_ok Hash cls (the (HashMap_new New))" "table_map cls (table (the (HashMap_new New))) = Map.empty"
    using table_map_None [of "table m" cls] by auto
next
  fix m :: "('k, 'v) HashMap" and n and r :: "('k, 'v) request"
  assume "map_ok Hash cls m" "fits_more limit m (Suc n)"
  then show "\<exists>m' a. hash_step New match_fun Hash r m = Some (m', a) \<and> map_ok Hash cls m' \<and> fits_more limit m' n \<and>
      (table_map cls (table m'), a) = spec_step (on_class cls r) (table_map cls (table m))"
    using step_Get [of m] step_Put [of m n] step_Delete [of m n] by (cases r) (fastforce simp: fits_more_def Let_def)+
qed

lemmas table_run_refines_map = run_refines_map

end

section \<open>Properties\<close>

interpretation addresses: hashed_keys AddressesMatch AddressHash id
  by unfold_locales (simp_all add: AddressesMatch_def)

text \<open>An allocator with a bound on the size of a table.\<close>

definition bounded_New :: "nat \<Rightarrow> ('k, 'v) Entry \<Rightarrow> nat \<Rightarrow> ('k, 'v) Entry list option" where
  "bounded_New limit garbage n = (if n \<le> limit then Some (replicate n garbage) else None)"

interpretation address_map: hash_table AddressesMatch AddressHash id "bounded_New (2 ^ 20) garbage" "2 ^ 20"
  by unfold_locales (simp_all add: bounded_New_def)

text \<open>
  C25. Any sequence of lookups, insertions and removals on a new hash map answers as a map on the classes of matching keys
  does, when matching is comparing the classes, matching keys have the same hash, and the allocator
  has memory for the largest table needed: \<open>Probe\<close> and the scan of \<open>Remove\<close> always end, the table is resized before it is full, no
  entry becomes unreachable when another is removed, and at the end the entries are those of the map.
\<close>

theorem hash_map_refines_map:
  assumes match: "\<And>a b. match_fun a b \<longleftrightarrow> cls a = cls b" and Hash: "\<And>a b. cls a = cls b \<Longrightarrow> Hash a = Hash b"
    and New: "\<And>n. n \<le> limit \<Longrightarrow> \<exists>es. New n = Some es \<and> length es = n" and limit: "8 \<le> limit"
    and fits: "(length rs + length rs div 4) * 2 \<le> limit" "(length rs + length rs div 4) * 2 < 2 ^ 32"
  shows "\<exists>m0 m as. HashMap_new New = Some m0 \<and> dict_run (hash_step New match_fun Hash) rs m0 = Some (m, as) \<and> map_ok Hash cls m \<and>
    (table_map cls (table m), as) = spec_run (map (on_class cls) rs) Map.empty"
proof -
  have h: "hash_table match_fun Hash cls New limit" using assms by unfold_locales
  obtain m0 where m0: "HashMap_new New = Some m0" "occupancy m0 = 0"
    using New [OF limit] by (auto simp: HashMap_new_def HashMap_Initialize_def HashMap_Clear_def)
  then have "fits_more limit (the (HashMap_new New)) (length rs)" using fits by (simp add: fits_more_def)
  from hash_table.table_run_refines_map [OF h this] show ?thesis using m0(1) by simp
qed

theorem hash_map_refines_map_witness:
  "\<exists>m0 m as. HashMap_new (bounded_New 8 \<lparr>key = None, val = None, hash = 0\<rparr>) = Some m0 \<and>
     dict_run (hash_step (bounded_New 8 \<lparr>key = None, val = None, hash = 0\<rparr>) AddressesMatch AddressHash)
       [Put 0x1000 ''a'', Delete 0x1000, Get 0x1000] m0 = Some (m, as) \<and>
     table_map id (table m) = Map.empty \<and> as = [None, None, None]"
proof -
  let ?New = "bounded_New 8 \<lparr>key = None, val = None, hash = 0\<rparr>" and ?rs = "[Put 0x1000 ''a'', Delete 0x1000, Get (0x1000 :: 64 word)]"
  have "\<exists>m0 m as. HashMap_new ?New = Some m0 \<and> dict_run (hash_step ?New AddressesMatch AddressHash) ?rs m0 = Some (m, as) \<and>
      map_ok AddressHash id m \<and> (table_map id (table m), as) = spec_run (map (on_class id) ?rs) Map.empty"
    by (rule hash_map_refines_map [where limit = 8]) (simp_all add: AddressesMatch_def bounded_New_def)
  then show ?thesis by (simp del: dict_run.simps) metis
qed

end
