(* ===== verification/Char_Range.thy ===== *)
theory Char_Range
  imports W16_Prelude "HOL-Library.Word"
begin

unbundle bit_operations_syntax

text \<open>
  Sets of characters as lists of ranges, \<open>CharacterRange\<close> of \<^verbatim>\<open>src/jsregexp.h\<close> and \<^verbatim>\<open>src/jsregexp.cc\<close>: standard classes,
  canonical lists, merging, negation and the comparison with the word characters.  A \<open>uc16\<close> is an integer below
  \<open>2 ^ 16\<close>; arithmetic on characters is that of \<open>int\<close> and storing a result in a range truncates it.
\<close>

section \<open>The program\<close>

definition uc16 :: "int \<Rightarrow> int" where
  "uc16 x = x mod 2 ^ 16"

record char_range =
  range_from :: int
  range_to :: int

definition CharacterRange :: "int \<Rightarrow> int \<Rightarrow> char_range" where
  "CharacterRange a b = \<lparr>range_from = uc16 a, range_to = uc16 b\<rparr>"

definition kMaxUC16CharCode :: int where
  "kMaxUC16CharCode = 0xffff"

subsection \<open>Standard classes\<close>

definition kSpaceRanges :: "int list" where
  "kSpaceRanges =
     [0x0009, 0x000D, 0x0020, 0x0020, 0x00A0, 0x00A0, 0x1680, 0x1680, 0x180E, 0x180E, 0x2000, 0x200A,
      0x2028, 0x2029, 0x202F, 0x202F, 0x205F, 0x205F, 0x3000, 0x3000]"

definition kWordRanges :: "int list" where
  "kWordRanges = [0x30, 0x39, 0x41, 0x5A, 0x5F, 0x5F, 0x61, 0x7A]"

definition kDigitRanges :: "int list" where
  "kDigitRanges = [0x30, 0x39]"

definition kLineTerminatorRanges :: "int list" where
  "kLineTerminatorRanges = [0x000A, 0x000A, 0x000D, 0x000D, 0x2028, 0x2029]"

fun AddClass :: "int list \<Rightarrow> char_range list \<Rightarrow> char_range list" where
  "AddClass (a # b # elmv) ranges = AddClass elmv (ranges @ [CharacterRange a b])"
| "AddClass _ ranges = ranges"

fun add_negated :: "int \<Rightarrow> int list \<Rightarrow> char_range list \<Rightarrow> char_range list" where
  "add_negated lst (a # b # elmv) ranges = add_negated (uc16 (b + 1)) elmv (ranges @ [CharacterRange lst (a - 1)])"
| "add_negated lst _ ranges = ranges @ [CharacterRange lst kMaxUC16CharCode]"

definition AddClassNegated :: "int list \<Rightarrow> char_range list \<Rightarrow> char_range list" where
  "AddClassNegated elmv ranges = add_negated 0 elmv ranges"

text \<open>An unknown type is unreachable code, \<open>None\<close>.\<close>

definition AddClassEscape :: "char \<Rightarrow> char_range list \<Rightarrow> char_range list option" where
  "AddClassEscape type ranges =
     (if type = CHR ''s'' then Some (AddClass kSpaceRanges ranges)
      else if type = CHR ''S'' then Some (AddClassNegated kSpaceRanges ranges)
      else if type = CHR ''w'' then Some (AddClass kWordRanges ranges)
      else if type = CHR ''W'' then Some (AddClassNegated kWordRanges ranges)
      else if type = CHR ''d'' then Some (AddClass kDigitRanges ranges)
      else if type = CHR ''D'' then Some (AddClassNegated kDigitRanges ranges)
      else if type = CHR ''.'' then Some (AddClassNegated kLineTerminatorRanges ranges)
      else if type = CHR ''*'' then Some (ranges @ [CharacterRange 0 0xffff])
      else if type = CHR ''n'' then Some (AddClass kLineTerminatorRanges ranges)
      else None)"

fun compare_inverse_loop :: "char_range \<Rightarrow> char_range list \<Rightarrow> int list \<Rightarrow> bool" where
  "compare_inverse_loop rng (nxt # ranges) (a # b # special_class) =
     (if a \<noteq> range_to rng + 1 then False
      else if b \<noteq> range_from nxt - 1 then False
      else compare_inverse_loop nxt ranges special_class)"
| "compare_inverse_loop rng _ _ = (range_to rng = 0xffff)"

definition CompareInverseRanges :: "char_range list \<Rightarrow> int list \<Rightarrow> bool" where
  "CompareInverseRanges ranges special_class =
     (if length ranges \<noteq> length special_class div 2 + 1 then False
      else if range_from (hd ranges) \<noteq> 0 then False
      else compare_inverse_loop (hd ranges) (tl ranges) special_class)"

fun compare_loop :: "char_range list \<Rightarrow> int list \<Rightarrow> bool" where
  "compare_loop (rng # ranges) (a # b # special_class) =
     (if range_from rng \<noteq> a \<or> range_to rng \<noteq> b then False else compare_loop ranges special_class)"
| "compare_loop _ _ = True"

definition CompareRanges :: "char_range list \<Rightarrow> int list \<Rightarrow> bool" where
  "CompareRanges ranges special_class =
     (if length ranges * 2 \<noteq> length special_class then False else compare_loop ranges special_class)"

text \<open>
  \<open>RegExpCharacterClass::is_standard\<close>: the answer and the standard type of the set, which is set when the ranges
  turn out to be those of a standard class.
\<close>

definition is_standard :: "bool \<Rightarrow> char option \<Rightarrow> char_range list \<Rightarrow> bool \<times> char option" where
  "is_standard is_negated standard_set_type ranges =
     (if is_negated then (False, standard_set_type)
      else if standard_set_type \<noteq> None then (True, standard_set_type)
      else if CompareRanges ranges kSpaceRanges then (True, Some (CHR ''s''))
      else if CompareInverseRanges ranges kSpaceRanges then (True, Some (CHR ''S''))
      else if CompareInverseRanges ranges kLineTerminatorRanges then (True, Some (CHR ''.''))
      else if CompareRanges ranges kLineTerminatorRanges then (True, Some (CHR ''n''))
      else if CompareRanges ranges kWordRanges then (True, Some (CHR ''w''))
      else if CompareInverseRanges ranges kWordRanges then (True, Some (CHR ''W''))
      else (False, standard_set_type))"

subsection \<open>Canonical lists\<close>

fun canonical_from :: "int \<Rightarrow> char_range list \<Rightarrow> bool" where
  "canonical_from m [] = True"
| "canonical_from m (nxt # ranges) = (if range_from nxt \<le> m + 1 then False else canonical_from (range_to nxt) ranges)"

definition IsCanonical :: "char_range list \<Rightarrow> bool" where
  "IsCanonical ranges = (case ranges of [] \<Rightarrow> True | r # rs \<Rightarrow> canonical_from (range_to r) rs)"

text \<open>\<open>MoveRanges\<close>: the element \<open>from + i\<close> is copied to position \<open>to + i\<close>, in the order of the loop.\<close>

definition MoveRanges :: "char_range list \<Rightarrow> nat \<Rightarrow> nat \<Rightarrow> nat \<Rightarrow> char_range list" where
  "MoveRanges list src dst count =
     (if src < dst then fold (\<lambda>i list. list[dst + i := list ! (src + i)]) (rev [0..<count]) list
      else fold (\<lambda>i list. list[dst + i := list ! (src + i)]) [0..<count] list)"

fun insert_positions :: "char_range list \<Rightarrow> char_range \<Rightarrow> nat \<Rightarrow> nat \<Rightarrow> nat \<times> nat" where
  "insert_positions list r 0 end_pos = (0, end_pos)"
| "insert_positions list r (Suc i) end_pos =
     (let current = list ! i in
      if range_from current > range_to r + 1 then insert_positions list r i i
      else if range_to current + 1 < range_from r then (i + 1, end_pos)
      else insert_positions list r i end_pos)"

definition InsertRangeInCanonicalList :: "char_range list \<Rightarrow> nat \<Rightarrow> char_range \<Rightarrow> char_range list \<times> nat" where
  "InsertRangeInCanonicalList list count r =
     (let (start_pos, end_pos) = insert_positions list r count count in
      if start_pos = end_pos then
        (let list = (if start_pos < count then MoveRanges list start_pos (start_pos + 1) (count - start_pos) else list)
         in (list[start_pos := r], count + 1))
      else if start_pos + 1 = end_pos then
        (let to_replace = list ! start_pos;
             new_from = min (range_from to_replace) (range_from r);
             new_to = max (range_to to_replace) (range_to r)
         in (list[start_pos := CharacterRange new_from new_to], count))
      else
        (let new_from = min (range_from (list ! start_pos)) (range_from r);
             new_to = max (range_to (list ! (end_pos - 1))) (range_to r);
             list = (if end_pos < count then MoveRanges list end_pos (start_pos + 1) (count - end_pos) else list)
         in (list[start_pos := CharacterRange new_from new_to], count - (end_pos - start_pos) + 1)))"

fun canonical_prefix :: "int \<Rightarrow> nat \<Rightarrow> char_range list \<Rightarrow> nat" where
  "canonical_prefix m i [] = i"
| "canonical_prefix m i (current # ranges) = (if range_from current \<le> m + 1 then i else canonical_prefix (range_to current) (i + 1) ranges)"

definition Canonicalize :: "char_range list \<Rightarrow> char_range list" where
  "Canonicalize character_ranges =
     (if length character_ranges \<le> 1 then character_ranges
      else
        (let n = length character_ranges;
             i = canonical_prefix (range_to (hd character_ranges)) 1 (tl character_ranges)
         in if i = n then character_ranges
            else
              (let (list, num_canonical) =
                 fold (\<lambda>read (list, num_canonical). InsertRangeInCanonicalList list num_canonical (list ! read)) [i..<n] (character_ranges, i)
               in take num_canonical list)))"

definition Negate :: "char_range list \<Rightarrow> char_range list" where
  "Negate ranges =
     (let range_count = length ranges;
          (c, i) = (if range_count > 0 \<and> range_from (ranges ! 0) = 0 then (range_to (ranges ! 0), 1) else (0, 0));
          (negated, c) = fold (\<lambda>r (negated, c). (negated @ [CharacterRange (c + 1) (range_from r - 1)], range_to r)) (drop i ranges) ([], c)
      in if c < kMaxUC16CharCode then negated @ [CharacterRange (c + 1) kMaxUC16CharCode] else negated)"

subsection \<open>Merging\<close>

text \<open>
  The output lists are addressed by pointers, which may be null and may be equal; a store maps them to their lists.
\<close>

definition kInsideNone :: nat where "kInsideNone = 0"
definition kInsideFirst :: nat where "kInsideFirst = 1"
definition kInsideSecond :: nat where "kInsideSecond = 2"
definition kInsideBoth :: nat where "kInsideBoth = 3"

definition AddRangeToSet :: "nat option \<Rightarrow> char_range \<Rightarrow> (nat \<Rightarrow> char_range list) \<Rightarrow> (nat \<Rightarrow> char_range list)" where
  "AddRangeToSet out_set rng store =
     (case out_set of
        None \<Rightarrow> store
      | Some p \<Rightarrow>
          if store p \<noteq> [] \<and> range_to (last (store p)) = range_from rng - 1
          then store(p := butlast (store p) @ [CharacterRange (range_from (last (store p))) (range_to rng)])
          else store(p := store p @ [rng]))"

definition AddRangeToSelectedSet :: "nat option \<Rightarrow> nat option \<Rightarrow> nat option \<Rightarrow> nat \<Rightarrow> char_range \<Rightarrow>
  (nat \<Rightarrow> char_range list) \<Rightarrow> (nat \<Rightarrow> char_range list)" where
  "AddRangeToSelectedSet first_set second_set intersection_set selector rng store =
     (if selector = kInsideFirst then AddRangeToSet first_set rng store
      else if selector = kInsideSecond then AddRangeToSet second_set rng store
      else if selector = kInsideBoth then AddRangeToSet intersection_set rng store
      else store)"

text \<open>One round of the loop, for the next range and its source; the current range is \<open>c\<close> to \<open>d\<close>.\<close>

definition merge_step :: "(nat \<Rightarrow> char_range \<Rightarrow> 's \<Rightarrow> 's) \<Rightarrow> char_range \<Rightarrow> nat \<Rightarrow> int \<times> int \<times> nat \<times> 's \<Rightarrow> int \<times> int \<times> nat \<times> 's" where
  "merge_step add nxt source = (\<lambda>(c, d, state, out).
     if d < range_from nxt then (range_from nxt, range_to nxt, source, add state (CharacterRange c d) out)
     else
       (let out = (if c < range_from nxt then add state (CharacterRange c (range_from nxt - 1)) out else out) in
        if d < range_to nxt
        then (d + 1, range_to nxt, source, add (state OR source) (CharacterRange (range_from nxt) d) out)
        else (range_to nxt + 1, d, if range_to nxt = d then kInsideNone else state,
              add (state OR source) (CharacterRange (range_from nxt) (range_to nxt)) out)))"

fun merge_loop :: "(nat \<Rightarrow> char_range \<Rightarrow> 's \<Rightarrow> 's) \<Rightarrow> char_range list \<Rightarrow> char_range list \<Rightarrow> int \<times> int \<times> nat \<times> 's \<Rightarrow> int \<times> int \<times> nat \<times> 's" where
  "merge_loop add [] [] s = s"
| "merge_loop add (r # rs) [] s = merge_loop add rs [] (merge_step add r kInsideFirst s)"
| "merge_loop add [] (q # qs) s = merge_loop add [] qs (merge_step add q kInsideSecond s)"
| "merge_loop add (r # rs) (q # qs) s =
     (if range_from r < range_from q then merge_loop add rs (q # qs) (merge_step add r kInsideFirst s)
      else merge_loop add (r # rs) qs (merge_step add q kInsideSecond s))"

definition merge_ranges :: "(nat \<Rightarrow> char_range \<Rightarrow> 's \<Rightarrow> 's) \<Rightarrow> char_range list \<Rightarrow> char_range list \<Rightarrow> 's \<Rightarrow> 's" where
  "merge_ranges add rs qs out =
     (let (c, d, state, out) = merge_loop add rs qs (0, -1, kInsideNone, out) in add state (CharacterRange c d) out)"

text \<open>\<open>None\<close> is the dereference of a null pointer: the shortcuts for an empty input do not test theirs.\<close>

definition Merge :: "char_range list \<Rightarrow> char_range list \<Rightarrow> nat option \<Rightarrow> nat option \<Rightarrow> nat option \<Rightarrow>
  (nat \<Rightarrow> char_range list) \<Rightarrow> (nat \<Rightarrow> char_range list) option" where
  "Merge first_set second_set first_set_only_out second_set_only_out both_sets_out store =
     (if first_set = [] then
        (case second_set_only_out of None \<Rightarrow> None | Some p \<Rightarrow> Some (store(p := store p @ second_set)))
      else if second_set = [] then
        (case first_set_only_out of None \<Rightarrow> None | Some p \<Rightarrow> Some (store(p := store p @ first_set)))
      else Some (merge_ranges (AddRangeToSelectedSet first_set_only_out second_set_only_out both_sets_out) first_set second_set store))"

subsection \<open>Comparison with the word characters\<close>

record set_relation =
  in_first :: bool
  in_second :: bool
  in_both :: bool

definition NonTrivialIntersection :: "set_relation \<Rightarrow> bool" where
  "NonTrivialIntersection s \<longleftrightarrow> in_first s \<and> in_second s \<and> in_both s"

definition compare_ranges :: "char_range \<Rightarrow> char_range \<Rightarrow> set_relation \<Rightarrow> set_relation" where
  "compare_ranges argument word result =
     (if range_from argument > range_to word then result \<lparr>in_second := True\<rparr>
      else if range_from word > range_to argument then result \<lparr>in_first := True\<rparr>
      else if range_from word \<le> range_from argument \<and> range_to word \<ge> range_from argument then
        (let result = result \<lparr>in_both := True\<rparr> in
         if range_from word < range_from argument \<or> range_to word > range_from argument then result \<lparr>in_second := True\<rparr> else result)
      else if range_from word \<ge> range_from argument \<and> range_to word \<le> range_from argument then result \<lparr>in_both := True, in_first := True\<rparr>
      else result \<lparr>in_first := True, in_second := True, in_both := True\<rparr>)"

function word_relation_loop :: "char_range list \<Rightarrow> char_range list \<Rightarrow> set_relation \<Rightarrow> set_relation" where
  "word_relation_loop ranges [] result = (if ranges \<noteq> [] then result \<lparr>in_first := True\<rparr> else result)"
| "word_relation_loop [] (w # words) result = result \<lparr>in_second := True\<rparr>"
| "word_relation_loop (r # ranges) (w # words) result =
     (let result = compare_ranges r w result in
      if NonTrivialIntersection result then result
      else word_relation_loop (if range_to r \<le> range_to w then ranges else r # ranges) (if range_to w \<le> range_to r then words else w # words) result)"
  by pat_completeness auto
termination by (relation "measure (\<lambda>(rs, ws, _). length rs + length ws)") auto

definition WordCharacterRelation :: "char_range list \<Rightarrow> set_relation" where
  "WordCharacterRelation rng =
     (if rng = [] then \<lparr>in_first = False, in_second = True, in_both = False\<rparr>
      else word_relation_loop rng (AddClass kWordRanges []) \<lparr>in_first = False, in_second = False, in_both = False\<rparr>)"

section \<open>Sets of characters\<close>

definition valid :: "char_range \<Rightarrow> bool" where
  "valid r \<longleftrightarrow> 0 \<le> range_from r \<and> range_from r \<le> range_to r \<and> range_to r \<le> 0xffff"

definition chars :: "char_range list \<Rightarrow> int set" where
  "chars rs = (\<Union>r\<in>set rs. {range_from r..range_to r})"

lemma chars_simps [simp]:
  "chars [] = {}" "chars (r # rs) = {range_from r..range_to r} \<union> chars rs" "chars (rs @ qs) = chars rs \<union> chars qs"
  by (auto simp: chars_def)

definition gap :: "char_range \<Rightarrow> char_range \<Rightarrow> bool" where
  "gap a b \<longleftrightarrow> range_to a + 1 < range_from b"

text \<open>Canonical lists: ordered, with a gap between any two ranges.\<close>

definition canonical :: "char_range list \<Rightarrow> bool" where
  "canonical rs \<longleftrightarrow> (\<forall>r\<in>set rs. valid r) \<and> sorted_wrt gap rs"

lemma canonical_simps [simp]:
  "canonical []" "canonical (r # rs) \<longleftrightarrow> valid r \<and> (\<forall>q\<in>set rs. gap r q) \<and> canonical rs"
  by (auto simp: canonical_def)

lemma canonical_append:
  "canonical (rs @ qs) \<longleftrightarrow> canonical rs \<and> canonical qs \<and> (\<forall>r\<in>set rs. \<forall>q\<in>set qs. gap r q)"
  by (auto simp: canonical_def sorted_wrt_append)

lemma canonical_from_iff:
  "\<forall>r\<in>set rs. valid r \<Longrightarrow> canonical_from m rs \<longleftrightarrow> (\<forall>q\<in>set rs. m + 1 < range_from q) \<and> sorted_wrt gap rs"
proof (induction rs arbitrary: m)
  case (Cons r rs)
  then have "range_from r \<le> range_to r" by (simp add: valid_def)
  moreover have "canonical_from (range_to r) rs \<longleftrightarrow> (\<forall>q\<in>set rs. gap r q) \<and> sorted_wrt gap rs"
    using Cons by (simp add: gap_def [of r])
  ultimately show ?case by (force simp: gap_def [of r])
qed simp

lemma IsCanonical_iff: "\<forall>r\<in>set rs. valid r \<Longrightarrow> IsCanonical rs \<longleftrightarrow> canonical rs"
  by (cases rs) (auto simp: IsCanonical_def canonical_from_iff canonical_def gap_def)

lemma uc16_id [simp]: "0 \<le> x \<Longrightarrow> x \<le> 0xffff \<Longrightarrow> uc16 x = x"
  by (simp add: uc16_def)

lemma CharacterRange_id: "valid \<lparr>range_from = a, range_to = b\<rparr> \<Longrightarrow> CharacterRange a b = \<lparr>range_from = a, range_to = b\<rparr>"
  by (simp add: CharacterRange_def valid_def)

section \<open>Canonicalization\<close>

lemma move_up:
  "src < dst \<Longrightarrow> dst + n \<le> length l \<Longrightarrow>
   length (fold (\<lambda>i l. l[dst + i := l ! (src + i)]) (rev [0..<n]) l) = length l \<and>
   (\<forall>j<length l. fold (\<lambda>i l. l[dst + i := l ! (src + i)]) (rev [0..<n]) l ! j =
      (if dst \<le> j \<and> j < dst + n then l ! (src + (j - dst)) else l ! j))"
proof (induction n arbitrary: l)
  case (Suc n)
  then show ?case using Suc.IH [of "l[dst + n := l ! (src + n)]"] by (auto simp: nth_list_update less_Suc_eq)
qed auto

lemma move_down:
  "dst \<le> src \<Longrightarrow> src + n \<le> length l \<Longrightarrow>
   length (fold (\<lambda>i l. l[dst + i := l ! (src + i)]) [0..<n] l) = length l \<and>
   (\<forall>j<length l. fold (\<lambda>i l. l[dst + i := l ! (src + i)]) [0..<n] l ! j =
      (if dst \<le> j \<and> j < dst + n then l ! (src + (j - dst)) else l ! j))"
proof (induction n)
  case (Suc n)
  then show ?case by (auto simp: nth_list_update less_Suc_eq)
qed auto

lemma MoveRanges_ok:
  assumes "src + n \<le> length l" "dst + n \<le> length l"
  shows "length (MoveRanges l src dst n) = length l"
    and "j < length l \<Longrightarrow> MoveRanges l src dst n ! j = (if dst \<le> j \<and> j < dst + n then l ! (src + (j - dst)) else l ! j)"
  using assms move_up [of src dst n l] move_down [of dst src n l] by (auto simp: MoveRanges_def)

lemma insert_positions_ok:
  assumes "insert_positions list r i e0 = (s, e)" and "sorted_wrt gap (take count list)" "\<forall>q\<in>set (take count list). valid q" "count \<le> length list" "valid r"
    and "i \<le> e0" "e0 \<le> count" and "\<forall>j. e0 \<le> j \<and> j < count \<longrightarrow> gap r (list ! j)"
    and "\<forall>j. i \<le> j \<and> j < e0 \<longrightarrow> \<not> gap r (list ! j) \<and> \<not> gap (list ! j) r"
  shows "s \<le> e \<and> e \<le> count \<and> (\<forall>j. e \<le> j \<and> j < count \<longrightarrow> gap r (list ! j)) \<and> (\<forall>j < s. gap (list ! j) r) \<and>
    (\<forall>j. s \<le> j \<and> j < e \<longrightarrow> \<not> gap r (list ! j) \<and> \<not> gap (list ! j) r)"
  using assms(1,6-9)
proof (induction i arbitrary: e0)
  case 0
  then show ?case by simp
next
  case (Suc i)
  have g: "gap (list ! j) (list ! k)" if "j < k" "k < count" for j k
    using sorted_wrt_nth_less [OF assms(2), of j k] that assms(4) by simp
  have v: "valid (list ! j)" if "j < count" for j
    using assms(3,4) that nth_mem [of j "take count list"] by simp
  consider "gap r (list ! i)" | "\<not> gap r (list ! i)" "gap (list ! i) r" | "\<not> gap r (list ! i)" "\<not> gap (list ! i) r" by blast
  then show ?case
  proof cases
    case 1
    have "\<forall>j. i \<le> j \<and> j < count \<longrightarrow> gap r (list ! j)"
    proof (intro allI impI)
      fix j assume "i \<le> j \<and> j < count"
      then show "gap r (list ! j)" using 1 g [of i j] v [of i] by (cases "i = j") (auto simp: gap_def valid_def)
    qed
    then show ?thesis using Suc.IH [of i] Suc.prems 1 by (auto simp: Let_def gap_def)
  next
    case 2
    have "gap (list ! j) r" if "j < Suc i" for j
      using 2(2) g [of j i] v [of i] that Suc.prems(2,3) by (cases "j = i") (auto simp: gap_def valid_def)
    then show ?thesis using Suc.prems 2 by (auto simp: Let_def gap_def)
  next
    case 3
    then have a: "insert_positions list r i e0 = (s, e)" using Suc.prems(1) by (auto simp: Let_def gap_def)
    have b: "\<forall>j. i \<le> j \<and> j < e0 \<longrightarrow> \<not> gap r (list ! j) \<and> \<not> gap (list ! j) r"
    proof (intro allI impI)
      fix j assume "i \<le> j \<and> j < e0"
      then show "\<not> gap r (list ! j) \<and> \<not> gap (list ! j) r" using Suc.prems(5) 3 by (cases "i = j") auto
    qed
    show ?thesis by (rule Suc.IH [OF a _ Suc.prems(3,4) b]) (use Suc.prems(2) in simp)
  qed
qed

text \<open>The range that replaces those between the two positions, and what the insertion does to the list.\<close>

definition joined :: "char_range list \<Rightarrow> char_range \<Rightarrow> char_range" where
  "joined rs r = (if rs = [] then r
     else \<lparr>range_from = min (range_from (hd rs)) (range_from r), range_to = max (range_to (last rs)) (range_to r)\<rparr>)"

lemma list_replace_nth:
  assumes "s \<le> e" "e \<le> count" "count < length list" "length list' = length list"
    and "\<forall>j < s. list' ! j = list ! j" "list' ! s = m" "\<forall>j. s < j \<and> j \<le> count - (e - s) \<longrightarrow> list' ! j = list ! (e + j - s - 1)"
  shows "take (count - (e - s) + 1) list' = take s list @ m # drop e (take count list)"
proof (rule nth_equalityI)
  show "length (take (count - (e - s) + 1) list') = length (take s list @ m # drop e (take count list))" using assms(1-4) by simp
  fix j
  assume "j < length (take (count - (e - s) + 1) list')"
  then have j: "j \<le> count - (e - s)" by simp
  consider "j < s" | "j = s" | "s < j" by linarith
  then show "take (count - (e - s) + 1) list' ! j = (take s list @ m # drop e (take count list)) ! j"
  proof cases
    case 3
    then have "(take s list @ m # drop e (take count list)) ! j = take count list ! (e + (j - s - 1))"
      using assms(1-3) j by (simp add: nth_append nth_Cons')
    moreover have "e + (j - s - 1) = e + j - s - 1" "e + j - s - 1 < count" using 3 j assms(1,2) by auto
    ultimately show ?thesis using 3 j assms(7) by simp
  qed (use assms j in \<open>auto simp: nth_append\<close>)
qed

lemma InsertRange_ok:
  assumes "canonical (take count list)" "count < length list" "valid r"
  obtains s e list' where "s \<le> e" "e \<le> count" "\<forall>j. e \<le> j \<and> j < count \<longrightarrow> gap r (list ! j)" "\<forall>j < s. gap (list ! j) r"
    "\<forall>j. s \<le> j \<and> j < e \<longrightarrow> \<not> gap r (list ! j) \<and> \<not> gap (list ! j) r"
    "InsertRangeInCanonicalList list count r = (list', count - (e - s) + 1)" "length list' = length list"
    "take (count - (e - s) + 1) list' = take s list @ joined (drop s (take e list)) r # drop e (take count list)"
    "\<forall>j. count < j \<and> j < length list \<longrightarrow> list' ! j = list ! j"
proof -
  obtain s e where p: "insert_positions list r count count = (s, e)" by fastforce
  have "s \<le> e \<and> e \<le> count \<and> (\<forall>j. e \<le> j \<and> j < count \<longrightarrow> gap r (list ! j)) \<and> (\<forall>j < s. gap (list ! j) r) \<and>
      (\<forall>j. s \<le> j \<and> j < e \<longrightarrow> \<not> gap r (list ! j) \<and> \<not> gap (list ! j) r)"
    by (rule insert_positions_ok [OF p]) (use assms in \<open>auto simp: canonical_def\<close>)
  then have se: "s \<le> e" "e \<le> count" "\<forall>j. e \<le> j \<and> j < count \<longrightarrow> gap r (list ! j)" "\<forall>j < s. gap (list ! j) r"
    "\<forall>j. s \<le> j \<and> j < e \<longrightarrow> \<not> gap r (list ! j) \<and> \<not> gap (list ! j) r"
    by blast+
  have v: "valid (list ! j)" if "j < count" for j
    using assms(1,2) that nth_mem [of j "take count list"] by (simp add: canonical_def)
  let ?B = "drop s (take e list)"
  consider (none) "s = e" | (one) "Suc s = e" | (many) "Suc s < e" using se(1) by linarith
  then obtain list' where l: "InsertRangeInCanonicalList list count r = (list', count - (e - s) + 1)" "length list' = length list"
    "\<forall>j < s. list' ! j = list ! j" "list' ! s = joined ?B r" "\<forall>j. s < j \<and> j \<le> count - (e - s) \<longrightarrow> list' ! j = list ! (e + j - s - 1)"
    "\<forall>j. count < j \<and> j < length list \<longrightarrow> list' ! j = list ! j"
  proof cases
    case none
    let ?l = "MoveRanges list s (s + 1) (count - s)"
    have m: "length ?l = length list" "\<And>j. j < length list \<Longrightarrow> ?l ! j = (if s + 1 \<le> j \<and> j < s + 1 + (count - s) then list ! (s + (j - (s + 1))) else list ! j)"
      using MoveRanges_ok [of s "count - s" list "s + 1"] assms(2) se none by auto
    have l0: "(if s < count then ?l else list) = ?l" using se none by (simp add: MoveRanges_def)
    show ?thesis
      by (rule that [of "?l[s := r]"])
        (use p none l0 m assms(2) se(1,2) in \<open>auto simp: InsertRangeInCanonicalList_def Let_def joined_def nth_list_update\<close>)
  next
    case one
    have B: "?B = [list ! s]" using assms(2) se unfolding one [symmetric] by (simp add: take_Suc_conv_app_nth)
    have c: "valid \<lparr>range_from = min (range_from (list ! s)) (range_from r), range_to = max (range_to (list ! s)) (range_to r)\<rparr>"
      using v [of s] assms(3) one se by (auto simp: valid_def)
    show ?thesis
      by (rule that [of "list[s := joined ?B r]"])
        (use p one B assms(2) se(1,2) CharacterRange_id [OF c] in \<open>auto simp: InsertRangeInCanonicalList_def Let_def joined_def nth_list_update\<close>)
  next
    case many
    let ?l = "MoveRanges list e (s + 1) (count - e)"
    have m: "length ?l = length list" "\<And>j. j < length list \<Longrightarrow> ?l ! j = (if s + 1 \<le> j \<and> j < s + 1 + (count - e) then list ! (e + (j - (s + 1))) else list ! j)"
      using MoveRanges_ok [of e "count - e" list "s + 1"] assms(2) se many by auto
    have l0: "(if e < count then ?l else list) = ?l" using se many by (simp add: MoveRanges_def)
    have B: "?B \<noteq> []" "hd ?B = list ! s" "last ?B = list ! (e - 1)" using many assms(2) se by (auto simp: hd_drop_conv_nth last_conv_nth)
    have c: "valid \<lparr>range_from = min (range_from (list ! s)) (range_from r), range_to = max (range_to (list ! (e - 1))) (range_to r)\<rparr>"
      using v [of s] v [of "e - 1"] assms(3) many se by (auto simp: valid_def)
    show ?thesis
      by (rule that [of "?l[s := joined ?B r]"])
        (use p many B l0 m assms(2) se(1,2) CharacterRange_id [OF c] in \<open>auto simp: InsertRangeInCanonicalList_def Let_def joined_def nth_list_update\<close>)
  qed
  show ?thesis by (rule that [OF se l(1,2) list_replace_nth [OF se(1,2) assms(2) l(2-5)] l(6)])
qed

lemma canonical_hd_last:
  assumes "canonical B" "b \<in> set B"
  shows "range_from (hd B) \<le> range_from b" and "range_to b \<le> range_to (last B)"
proof -
  show "range_from (hd B) \<le> range_from b" using assms by (cases B) (auto simp: gap_def valid_def)
  show "range_to b \<le> range_to (last B)"
    using assms by (cases B rule: rev_cases) (auto simp: canonical_append gap_def valid_def)
qed

lemma joined_ok:
  assumes "canonical (A @ B @ C)" "valid r" and "\<forall>a\<in>set A. gap a r" "\<forall>c\<in>set C. gap r c" "\<forall>b\<in>set B. \<not> gap r b \<and> \<not> gap b r"
  shows "canonical (A @ joined B r # C)" and "chars (A @ joined B r # C) = chars (A @ B @ C) \<union> {range_from r..range_to r}"
proof -
  have "valid (joined B r) \<and> (\<forall>a\<in>set A. gap a (joined B r)) \<and> (\<forall>c\<in>set C. gap (joined B r) c) \<and>
    {range_from (joined B r)..range_to (joined B r)} = chars B \<union> {range_from r..range_to r}"
  proof (cases "B = []")
    case False
    have h: "hd B \<in> set B" "last B \<in> set B" using False by auto
    have v: "\<forall>b\<in>set B. valid b" and ac: "\<forall>a\<in>set A. \<forall>b\<in>set B. gap a b" "\<forall>b\<in>set B. \<forall>c\<in>set C. gap b c"
      using assms(1) by (auto simp: canonical_def sorted_wrt_append)
    have cB: "canonical B" using assms(1) by (simp add: canonical_append)
    have "valid (joined B r)" using v h assms(2) False by (auto simp: valid_def joined_def)
    moreover have "\<forall>a\<in>set A. gap a (joined B r)" using ac(1) h assms(3) False by (auto simp: gap_def joined_def)
    moreover have "\<forall>c\<in>set C. gap (joined B r) c" using bspec [OF ac(2) h(2)] assms(4) False by (auto simp: gap_def joined_def max_def)
    moreover have o: "range_from (hd B) \<le> range_from b" "range_to b \<le> range_to (last B)" if "b \<in> set B" for b
      using canonical_hd_last [OF cB that] by simp_all
    moreover have "{range_from (joined B r)..range_to (joined B r)} = chars B \<union> {range_from r..range_to r}" (is "?l = ?r")
    proof (intro set_eqI iffI)
      fix x assume "x \<in> ?r"
      then show "x \<in> ?l" using o False by (fastforce simp: joined_def chars_def)
    next
      fix x assume x: "x \<in> ?l"
      consider "x < range_from r" | "range_to r < x" | "range_from r \<le> x" "x \<le> range_to r" by linarith
      then show "x \<in> ?r"
      proof cases
        case 1
        then have "x \<in> {range_from (hd B)..range_to (hd B)}" using x bspec [OF assms(5) h(1)] False by (auto simp: joined_def gap_def)
        then show ?thesis using h by (auto simp: chars_def)
      next
        case 2
        then have "x \<in> {range_from (last B)..range_to (last B)}" using x bspec [OF assms(5) h(2)] False by (auto simp: joined_def gap_def)
        then show ?thesis using h by (auto simp: chars_def)
      qed simp
    qed
    ultimately show ?thesis by blast
  qed (use assms in \<open>auto simp: joined_def\<close>)
  then have j: "valid (joined B r)" "\<forall>a\<in>set A. gap a (joined B r)" "\<forall>c\<in>set C. gap (joined B r) c"
    "{range_from (joined B r)..range_to (joined B r)} = chars B \<union> {range_from r..range_to r}" by blast+
  show "canonical (A @ joined B r # C)" using assms(1) j by (auto simp: canonical_append)
  show "chars (A @ joined B r # C) = chars (A @ B @ C) \<union> {range_from r..range_to r}" using j(4) by auto
qed

text \<open>The loop: the canonical part of the list grows, and the ranges not yet read stay in place.\<close>

lemma canonicalize_loop:
  assumes "canonical (take i list)" "\<forall>r\<in>set list. valid r" "i \<le> n" "n \<le> length list"
  shows "\<exists>list' k. fold (\<lambda>read (list, num). InsertRangeInCanonicalList list num (list ! read)) [i..<n] (list, i) = (list', k) \<and>
    k \<le> n \<and> length list' = length list \<and> canonical (take k list') \<and> chars (take k list') = chars (take n list) \<and>
    (\<forall>j. n \<le> j \<and> j < length list \<longrightarrow> list' ! j = list ! j)"
  using assms(3,4)
proof (induction n)
  case 0
  then show ?case using assms(1) by simp
next
  case (Suc n)
  show ?case
  proof (cases "i = Suc n")
    case True
    then show ?thesis using assms(1) Suc.prems by simp
  next
    case False
    then obtain l k where 1: "fold (\<lambda>read (list, num). InsertRangeInCanonicalList list num (list ! read)) [i..<n] (list, i) = (l, k)"
        "k \<le> n" "length l = length list" "canonical (take k l)" "chars (take k l) = chars (take n list)"
        "\<forall>j. n \<le> j \<and> j < length list \<longrightarrow> l ! j = list ! j"
      using Suc by auto
    have n: "l ! n = list ! n" "valid (list ! n)" using 1(6) assms(2) Suc.prems by auto
    have kl: "k < length l" using 1(2,3) Suc.prems by simp
    obtain s e l' where 2: "s \<le> e" "e \<le> k" "\<forall>j. e \<le> j \<and> j < k \<longrightarrow> gap (list ! n) (l ! j)" "\<forall>j < s. gap (l ! j) (list ! n)"
      "\<forall>j. s \<le> j \<and> j < e \<longrightarrow> \<not> gap (list ! n) (l ! j) \<and> \<not> gap (l ! j) (list ! n)"
      "InsertRangeInCanonicalList l k (list ! n) = (l', k - (e - s) + 1)" "length l' = length l"
      "take (k - (e - s) + 1) l' = take s l @ joined (drop s (take e l)) (list ! n) # drop e (take k l)"
      "\<forall>j. k < j \<and> j < length l \<longrightarrow> l' ! j = l ! j"
      by (rule InsertRange_ok [OF 1(4) kl n(2)])
    have split: "take k l = take s l @ drop s (take e l) @ drop e (take k l)"
      using 2(1,2) by (metis append.assoc append_take_drop_id min.absorb1 take_take)
    have "canonical (take (k - (e - s) + 1) l')" "chars (take (k - (e - s) + 1) l') = chars (take k l) \<union> {range_from (list ! n)..range_to (list ! n)}"
      unfolding 2(8)
    proof -
      have A: "\<forall>a\<in>set (take s l). gap a (list ! n)" using 2(4) by (auto simp: in_set_conv_nth)
      have C: "\<forall>c\<in>set (drop e (take k l)). gap (list ! n) c" using 2(2,3) kl by (auto simp: in_set_conv_nth)
      have B: "\<forall>b\<in>set (drop s (take e l)). \<not> gap (list ! n) b \<and> \<not> gap b (list ! n)"
        using 2(1,2,5) kl by (auto simp: in_set_conv_nth)
      note j = joined_ok [OF _ n(2) A C B, folded split, OF 1(4)]
      show "canonical (take s l @ joined (drop s (take e l)) (list ! n) # drop e (take k l))" by (rule j(1))
      show "chars (take s l @ joined (drop s (take e l)) (list ! n) # drop e (take k l)) = chars (take k l) \<union> {range_from (list ! n)..range_to (list ! n)}"
        by (rule j(2))
    qed
    moreover have "chars (take (Suc n) list) = chars (take n list) \<union> {range_from (list ! n)..range_to (list ! n)}"
      using Suc.prems by (simp add: take_Suc_conv_app_nth)
    moreover have "\<forall>j. Suc n \<le> j \<and> j < length list \<longrightarrow> l' ! j = list ! j" using 2(9) 1(2,3,6) by simp
    ultimately show ?thesis using 1(1,2,3,5) 2(1,2,6,7) n(1) False Suc.prems by simp
  qed
qed

lemma canonical_prefix_ok:
  "\<exists>k\<le>length rs. canonical_prefix m i rs = i + k \<and> canonical_from m (take k rs)"
proof (induction rs arbitrary: m i)
  case (Cons r rs)
  obtain k where "k \<le> length rs" "canonical_prefix (range_to r) (i + 1) rs = i + 1 + k" "canonical_from (range_to r) (take k rs)"
    using Cons.IH by blast
  then have "Suc k \<le> length (r # rs)" "\<not> range_from r \<le> m + 1 \<Longrightarrow> canonical_prefix m i (r # rs) = i + Suc k \<and> canonical_from m (take (Suc k) (r # rs))"
    by auto
  moreover have "range_from r \<le> m + 1 \<Longrightarrow> canonical_prefix m i (r # rs) = i + 0 \<and> canonical_from m (take 0 (r # rs))" by simp
  ultimately show ?case by (metis le0)
qed simp

lemma canonical_of_canonical_from:
  "\<forall>q\<in>set (r # rs). valid q \<Longrightarrow> canonical_from (range_to r) rs \<Longrightarrow> canonical (r # rs)"
  using canonical_from_iff [of rs "range_to r"] by (auto simp: canonical_def gap_def [of r])

lemma Canonicalize_ok:
  assumes "\<forall>r\<in>set rs. valid r"
  shows "canonical (Canonicalize rs) \<and> chars (Canonicalize rs) = chars rs \<and> length (Canonicalize rs) \<le> length rs"
proof (cases rs)
  case (Cons r qs)
  obtain k where k: "k \<le> length qs" "canonical_prefix (range_to r) 1 qs = 1 + k" "canonical_from (range_to r) (take k qs)"
    using canonical_prefix_ok by blast
  have v: "\<forall>q\<in>set (r # take k qs). valid q" using assms Cons by (auto dest: in_set_takeD)
  then have c: "canonical (take (1 + k) rs)" using canonical_of_canonical_from [OF v k(3)] Cons by simp
  obtain l n where f: "fold (\<lambda>read (list, num). InsertRangeInCanonicalList list num (list ! read)) [1 + k..<length rs] (rs, 1 + k) = (l, n)"
      "n \<le> length rs" "canonical (take n l)" "chars (take n l) = chars rs"
    using canonicalize_loop [OF c assms, of "length rs"] k(1) Cons by auto
  show ?thesis
  proof (cases "length rs \<le> 1 \<or> 1 + k = length rs")
    case True
    then have "Canonicalize rs = rs" using k(2) Cons by (auto simp: Canonicalize_def)
    moreover have "canonical rs" using c True Cons by auto
    ultimately show ?thesis by simp
  next
    case False
    then have "Canonicalize rs = take n l" using k(2) f(1) Cons by (simp add: Canonicalize_def Let_def)
    then show ?thesis using f(2-4) by simp
  qed
qed (simp add: Canonicalize_def)

section \<open>Negation\<close>

lemma negate_loop:
  assumes "canonical rs" "0 \<le> c" "\<forall>r\<in>set rs. c < range_from r"
    and "fold (\<lambda>r (negated, c). (negated @ [CharacterRange (c + 1) (range_from r - 1)], range_to r)) rs (neg, c) = (neg', c')"
  shows "chars neg' = chars neg \<union> ({c<..c'} - chars rs) \<and> c \<le> c' \<and> (c \<le> 0xffff \<longrightarrow> c' \<le> 0xffff)"
  using assms
proof (induction rs arbitrary: c neg)
  case (Cons r rs)
  have r: "valid r" "\<forall>q\<in>set rs. range_to r < range_from q" "canonical rs" using Cons.prems(1) by (auto simp: gap_def)
  let ?n = "neg @ [CharacterRange (c + 1) (range_from r - 1)]"
  have 1: "chars neg' = chars ?n \<union> ({range_to r<..c'} - chars rs) \<and> range_to r \<le> c' \<and> (range_to r \<le> 0xffff \<longrightarrow> c' \<le> 0xffff)"
    using Cons.IH [OF r(3) _ r(2)] Cons.prems(4) r(1) by (simp add: valid_def)
  have c: "c < range_from r" "range_from r \<le> range_to r" "range_to r \<le> 0xffff" using Cons.prems(3) r(1) by (auto simp: valid_def)
  have "{range_from (CharacterRange (c + 1) (range_from r - 1))..range_to (CharacterRange (c + 1) (range_from r - 1))} = {c<..<range_from r}"
    using c Cons.prems(2) by (auto simp: CharacterRange_def)
  moreover have "\<forall>x\<in>chars rs. range_to r < x" using r(2) by (force simp: chars_def)
  ultimately show ?case using 1 c by auto
qed auto

lemma Negate_from:
  assumes "canonical rs" "0 \<le> c" "c \<le> 0xffff" "\<forall>r\<in>set rs. c < range_from r"
    and "fold (\<lambda>r (negated, c). (negated @ [CharacterRange (c + 1) (range_from r - 1)], range_to r)) rs ([], c) = (neg, c')"
  shows "chars (if c' < kMaxUC16CharCode then neg @ [CharacterRange (c' + 1) kMaxUC16CharCode] else neg) = {c<..0xffff} - chars rs"
proof -
  have 1: "chars neg = {c<..c'} - chars rs" "c \<le> c'" "c' \<le> 0xffff" using negate_loop [OF assms(1,2,4,5)] assms(3) by auto
  have "\<forall>x\<in>chars rs. x \<le> c'"
  proof (cases rs rule: rev_cases)
    case (snoc qs q)
    then have "c' = range_to (last rs)" using assms(5) by (auto split: prod.splits)
    then show ?thesis using canonical_hd_last(2) [OF assms(1)] by (auto simp: chars_def intro: order_trans)
  qed (simp add: chars_def)
  then show ?thesis using 1 assms(2) by (auto simp: CharacterRange_def kMaxUC16CharCode_def)
qed

lemma Negate_ok:
  assumes "canonical rs"
  shows "chars (Negate rs) = {1..0xffff} - chars rs"
proof (cases "rs \<noteq> [] \<and> range_from (hd rs) = 0")
  case True
  then obtain r qs where rs: "rs = r # qs" "range_from r = 0" by (cases rs) auto
  obtain neg c where f: "fold (\<lambda>r (negated, c). (negated @ [CharacterRange (c + 1) (range_from r - 1)], range_to r)) qs ([], range_to r) = (neg, c)"
    by fastforce
  have q: "valid r" "canonical qs" "\<forall>q\<in>set qs. range_to r < range_from q" using assms rs by (auto simp: gap_def)
  have "chars (Negate rs) = {range_to r<..0xffff} - chars qs"
    using Negate_from [OF q(2) _ _ q(3) f] q(1) rs f by (simp add: Negate_def valid_def)
  moreover have "\<forall>x\<in>chars qs. range_to r < x" using q(3) by (force simp: chars_def)
  ultimately show ?thesis using rs q(1) by (auto simp: valid_def)
next
  case False
  obtain neg c where f: "fold (\<lambda>r (negated, c). (negated @ [CharacterRange (c + 1) (range_from r - 1)], range_to r)) rs ([], 0) = (neg, c)"
    by fastforce
  have "\<forall>r\<in>set rs. 0 < range_from r"
    using False assms canonical_hd_last(1) [OF assms] by (cases rs) (force simp: valid_def)+
  moreover have "Negate rs = (if c < kMaxUC16CharCode then neg @ [CharacterRange (c + 1) kMaxUC16CharCode] else neg)"
    using False f by (cases rs) (simp_all add: Negate_def)
  ultimately have "chars (Negate rs) = {0<..0xffff} - chars rs"
    using Negate_from [OF assms _ _ _ f] by simp
  then show ?thesis by auto
qed

section \<open>Standard classes\<close>

text \<open>The bounds of a range are characters.\<close>

definition uc16_range :: "char_range \<Rightarrow> bool" where
  "uc16_range r \<longleftrightarrow> uc16 (range_from r) = range_from r \<and> uc16 (range_to r) = range_to r"

lemma CharacterRange_fields: "uc16_range r \<Longrightarrow> CharacterRange (range_from r) (range_to r) = r"
  by (simp add: uc16_range_def CharacterRange_def)

lemma compare_loop_AddClass:
  "compare_loop rs cs \<Longrightarrow> length rs * 2 = length cs \<Longrightarrow> \<forall>r\<in>set rs. uc16_range r \<Longrightarrow> AddClass cs qs = qs @ rs"
  by (induction rs cs arbitrary: qs rule: compare_loop.induct) (auto simp: CharacterRange_fields split: if_splits)

lemma CompareRanges_AddClass:
  "CompareRanges rs cs \<Longrightarrow> \<forall>r\<in>set rs. uc16_range r \<Longrightarrow> AddClass cs [] = rs"
  using compare_loop_AddClass [of rs cs "[]"] by (auto simp: CompareRanges_def split: if_splits)

lemma compare_inverse_loop_negated:
  "compare_inverse_loop r rs cs \<Longrightarrow> length rs * 2 = length cs \<Longrightarrow> \<forall>q\<in>set (r # rs). uc16_range q \<Longrightarrow>
   add_negated (range_from r) cs qs = qs @ r # rs"
proof (induction r rs cs arbitrary: qs rule: compare_inverse_loop.induct)
  case (1 r nxt rs a b cs)
  then have "CharacterRange (range_from r) (a - 1) = r" "uc16 (b + 1) = range_from nxt"
    by (auto simp: CharacterRange_def uc16_range_def split: if_splits)
  then show ?case using 1 by (auto split: if_splits)
qed (auto simp: kMaxUC16CharCode_def CharacterRange_def uc16_range_def)

lemma CompareInverseRanges_negated:
  assumes "CompareInverseRanges rs cs" "even (length cs)" "\<forall>r\<in>set rs. uc16_range r"
  shows "AddClassNegated cs [] = rs"
proof -
  obtain r qs where rs: "rs = r # qs" using assms(1) by (cases rs) (auto simp: CompareInverseRanges_def split: if_splits)
  then have "length qs * 2 = length cs" "range_from r = 0" "compare_inverse_loop r qs cs"
    using assms(1,2) by (auto simp: CompareInverseRanges_def split: if_splits)
  then show ?thesis using compare_inverse_loop_negated [of r qs cs "[]"] assms(3) rs by (simp add: AddClassNegated_def)
qed

lemma even_classes: "even (length kSpaceRanges)" "even (length kWordRanges)" "even (length kLineTerminatorRanges)"
  by (simp_all add: kSpaceRanges_def kWordRanges_def kLineTerminatorRanges_def)

lemma is_standard_ok:
  assumes "is_standard False None rs = (True, Some type)" "\<forall>r\<in>set rs. uc16_range r"
  shows "AddClassEscape type [] = Some rs"
proof -
  note a = CompareRanges_AddClass [OF _ assms(2)] CompareInverseRanges_negated [OF _ even_classes(1) assms(2)]
    CompareInverseRanges_negated [OF _ even_classes(2) assms(2)] CompareInverseRanges_negated [OF _ even_classes(3) assms(2)]
  consider "type = CHR ''s''" "CompareRanges rs kSpaceRanges" | "type = CHR ''S''" "CompareInverseRanges rs kSpaceRanges"
    | "type = CHR ''.''" "CompareInverseRanges rs kLineTerminatorRanges" | "type = CHR ''n''" "CompareRanges rs kLineTerminatorRanges"
    | "type = CHR ''w''" "CompareRanges rs kWordRanges" | "type = CHR ''W''" "CompareInverseRanges rs kWordRanges"
    using assms(1) unfolding is_standard_def by (auto split: if_splits)
  then show ?thesis by cases (simp_all add: AddClassEscape_def a)
qed

section \<open>Properties\<close>

text \<open>
  C30. \<open>Canonicalize\<close> turns any list of ranges into one that \<open>IsCanonical\<close> accepts, with the same characters and no more ranges than before,
  by inserting the ranges in place and joining those that overlap or touch.
\<close>

theorem Canonicalize_canonical:
  assumes "\<forall>r\<in>set rs. valid r"
  shows "IsCanonical (Canonicalize rs) \<and> chars (Canonicalize rs) = chars rs \<and> length (Canonicalize rs) \<le> length rs"
  using Canonicalize_ok [OF assms] IsCanonical_iff [of "Canonicalize rs"] by (auto simp: canonical_def)

theorem Canonicalize_canonical_witness:
  "IsCanonical (Canonicalize [CharacterRange 7 9, CharacterRange 1 3, CharacterRange 4 8])"
  using Canonicalize_canonical [of "[CharacterRange 7 9, CharacterRange 1 3, CharacterRange 4 8]"]
  by (simp add: valid_def CharacterRange_def uc16_def)



text \<open>
  When \<open>is_standard\<close> recognises a list of ranges as a standard class, \<open>AddClassEscape\<close> of that class gives back the list.
\<close>

theorem is_standard_round_trip:
  assumes "is_standard False None rs = (True, Some type)" "\<forall>r\<in>set rs. uc16_range r"
  shows "AddClassEscape type [] = Some rs"
  using is_standard_ok [OF assms] .

theorem is_standard_round_trip_witness:
  "AddClassEscape (CHR ''W'') [] = Some [CharacterRange 0 0x2F, CharacterRange 0x3A 0x40, CharacterRange 0x5B 0x5E, CharacterRange 0x60 0x60, CharacterRange 0x7B 0xFFFF]"
  by (rule is_standard_round_trip)
    (simp_all add: is_standard_def CompareRanges_def CompareInverseRanges_def kSpaceRanges_def kLineTerminatorRanges_def kWordRanges_def
      CharacterRange_def uc16_def uc16_range_def)

end
