(* ===== verification/Char_Merge.thy ===== *)
theory Char_Merge
  imports Char_Range
begin

unbundle bit_operations_syntax

text \<open>
  \<open>Merge\<close> computes the differences and the intersection of two canonical lists, whichever of its output lists
  are equal or missing.  The proof follows the ranges it adds, in their order, and the lists get them one after the other.
\<close>

section \<open>The trace of the ranges added\<close>

definition trace :: "nat \<Rightarrow> char_range \<Rightarrow> (nat \<times> char_range) list \<Rightarrow> (nat \<times> char_range) list" where
  "trace sel r t = t @ [(sel, r)]"

definition replay :: "(nat \<Rightarrow> char_range \<Rightarrow> 's \<Rightarrow> 's) \<Rightarrow> (nat \<times> char_range) list \<Rightarrow> 's \<Rightarrow> 's" where
  "replay add t = fold (\<lambda>(sel, r). add sel r) t"

lemma replay_simps [simp]: "replay add [] out = out" "replay add (trace sel r t) out = add sel r (replay add t out)"
  by (simp_all add: replay_def trace_def)

definition replayed :: "(nat \<Rightarrow> char_range \<Rightarrow> 's \<Rightarrow> 's) \<Rightarrow> 's \<Rightarrow> int \<times> int \<times> nat \<times> (nat \<times> char_range) list \<Rightarrow> int \<times> int \<times> nat \<times> 's" where
  "replayed add out = (\<lambda>(c, d, state, t). (c, d, state, replay add t out))"

lemma merge_step_replay: "merge_step add r source (replayed add out s) = replayed add out (merge_step trace r source s)"
  by (cases s) (simp add: merge_step_def replayed_def Let_def)

lemma merge_loop_replay: "merge_loop add rs qs (replayed add out s) = replayed add out (merge_loop trace rs qs s)"
  by (induction trace rs qs s rule: merge_loop.induct) (simp_all add: merge_step_replay)

lemma merge_ranges_replay: "merge_ranges add rs qs out = replay add (merge_ranges trace rs qs []) out"
proof -
  obtain c d state t where m: "merge_loop trace rs qs (0, -1, kInsideNone, []) = (c, d, state, t)" by (metis prod_cases4)
  have "replayed add out (0, -1, kInsideNone, []) = (0, -1, kInsideNone, out)" by (simp add: replayed_def)
  then have "merge_loop add rs qs (0, -1, kInsideNone, out) = (c, d, state, replay add t out)"
    using merge_loop_replay [of add rs qs out "(0, -1, kInsideNone, [])"] m by (simp add: replayed_def)
  then show ?thesis using m by (simp add: merge_ranges_def)
qed

section \<open>The loop\<close>

definition traced :: "nat \<Rightarrow> (nat \<times> char_range) list \<Rightarrow> int set" where
  "traced sel t = chars (map snd (filter (\<lambda>(s, r). s = sel) t))"

lemma traced_simps [simp]:
  "traced sel [] = {}" "traced sel (trace s r t) = traced sel t \<union> (if s = sel then {range_from r..range_to r} else {})"
  by (auto simp: traced_def trace_def)

definition ordered :: "int \<Rightarrow> (nat \<times> char_range) list \<Rightarrow> bool" where
  "ordered fr t \<longleftrightarrow> (\<forall>(s, r)\<in>set t. s \<noteq> kInsideNone \<longrightarrow> valid r \<and> range_to r < fr) \<and>
     sorted_wrt (\<lambda>(_, a) (_, b). range_to a < range_from b) (filter (\<lambda>(s, r). s \<noteq> kInsideNone) t)"

lemma ordered_trace:
  assumes "ordered fr t" "s \<noteq> kInsideNone \<Longrightarrow> valid r \<and> fr \<le> range_from r \<and> range_to r < fr'" "fr \<le> fr'"
  shows "ordered fr' (trace s r t)"
  using assms by (fastforce simp: ordered_def trace_def sorted_wrt_append)

text \<open>
  \<open>A 1\<close> and \<open>A 2\<close> are the two sets, \<open>R 1\<close> and \<open>R 2\<close> the ranges not yet read; the characters before the frontier are done.
\<close>

fun frontier :: "int \<times> int \<times> nat \<times> 's \<Rightarrow> int" where
  "frontier (c, d, state, out) = (if state = kInsideNone then d + 1 else c)"

definition region :: "(nat \<Rightarrow> int set) \<Rightarrow> nat \<Rightarrow> int set" where
  "region A sel = (if sel = kInsideBoth then A 1 \<inter> A 2 else A sel - A (3 - sel))"

fun merge_inv :: "(nat \<Rightarrow> int set) \<Rightarrow> (nat \<Rightarrow> char_range list) \<Rightarrow> int \<times> int \<times> nat \<times> (nat \<times> char_range) list \<Rightarrow> bool" where
  "merge_inv A R (c, d, state, t) \<longleftrightarrow>
     (let fr = frontier (c, d, state, t) in
      state \<in> {0, 1, 2} \<and> (state \<noteq> 0 \<longrightarrow> 0 \<le> c \<and> c \<le> d) \<and> -1 \<le> d \<and> d \<le> 0xffff \<and> ordered fr t \<and>
      (\<forall>s\<in>{1, 2}. canonical (R s) \<and> (\<forall>r\<in>set (R s). fr \<le> range_from r \<and> (state = s \<longrightarrow> d + 1 < range_from r)) \<and>
         A s \<inter> {fr..} = (if state = s then {c..d} else {}) \<union> chars (R s)) \<and>
      (\<forall>sel\<in>{1, 2, 3}. traced sel t = region A sel \<inter> {..<fr}))"

lemma kInside [simp]: "kInsideNone = 0" "kInsideFirst = 1" "kInsideSecond = 2" "kInsideBoth = 3"
  by (simp_all add: kInsideNone_def kInsideFirst_def kInsideSecond_def kInsideBoth_def)

lemma CharacterRange_bounds:
  "0 \<le> a \<Longrightarrow> a \<le> 0xffff \<Longrightarrow> 0 \<le> b \<Longrightarrow> b \<le> 0xffff \<Longrightarrow> range_from (CharacterRange a b) = a \<and> range_to (CharacterRange a b) = b"
  by (simp add: CharacterRange_def)

text \<open>The parts of the invariant.\<close>

lemma merge_invD:
  assumes "merge_inv A R (c, d, state, t)" "fr = (if state = 0 then d + 1 else c)"
  shows "state \<in> {0, 1, 2}" "state \<noteq> 0 \<Longrightarrow> 0 \<le> c \<and> c \<le> d" "-1 \<le> d" "d \<le> 0xffff" "ordered fr t"
    and "s \<in> {1, 2} \<Longrightarrow> canonical (R s)" "s \<in> {1, 2} \<Longrightarrow> r \<in> set (R s) \<Longrightarrow> fr \<le> range_from r"
    and "s \<in> {1, 2} \<Longrightarrow> r \<in> set (R s) \<Longrightarrow> state = s \<Longrightarrow> d + 1 < range_from r"
    and "s \<in> {1, 2} \<Longrightarrow> fr \<le> x \<Longrightarrow> x \<in> A s \<longleftrightarrow> state = s \<and> c \<le> x \<and> x \<le> d \<or> x \<in> chars (R s)"
    and "sel \<in> {1, 2, 3} \<Longrightarrow> x \<in> traced sel t \<longleftrightarrow> x \<in> region A sel \<and> x < fr"
proof -
  have i: "state \<in> {0, 1, 2} \<and> (state \<noteq> 0 \<longrightarrow> 0 \<le> c \<and> c \<le> d) \<and> -1 \<le> d \<and> d \<le> 0xffff \<and> ordered fr t"
      "\<forall>s\<in>{1, 2}. canonical (R s) \<and> (\<forall>r\<in>set (R s). fr \<le> range_from r \<and> (state = s \<longrightarrow> d + 1 < range_from r)) \<and>
         A s \<inter> {fr..} = (if state = s then {c..d} else {}) \<union> chars (R s)"
      "\<forall>sel\<in>{1, 2, 3}. traced sel t = region A sel \<inter> {..<fr}"
    using assms unfolding merge_inv.simps Let_def frontier.simps kInside by blast+
  show "state \<in> {0, 1, 2}" "state \<noteq> 0 \<Longrightarrow> 0 \<le> c \<and> c \<le> d" "-1 \<le> d" "d \<le> 0xffff" "ordered fr t" using i(1) by blast+
  show "s \<in> {1, 2} \<Longrightarrow> canonical (R s)" "s \<in> {1, 2} \<Longrightarrow> r \<in> set (R s) \<Longrightarrow> fr \<le> range_from r"
    "s \<in> {1, 2} \<Longrightarrow> r \<in> set (R s) \<Longrightarrow> state = s \<Longrightarrow> d + 1 < range_from r" using i(2) by blast+
  show "x \<in> A s \<longleftrightarrow> state = s \<and> c \<le> x \<and> x \<le> d \<or> x \<in> chars (R s)" if "s \<in> {1, 2}" "fr \<le> x"
  proof -
    have "A s \<inter> {fr..} = (if state = s then {c..d} else {}) \<union> chars (R s)" using i(2) that(1) by blast
    then show ?thesis using that(2) by (auto simp: set_eq_iff split: if_splits)
  qed
  show "sel \<in> {1, 2, 3} \<Longrightarrow> x \<in> traced sel t \<longleftrightarrow> x \<in> region A sel \<and> x < fr" using i(3) by auto
qed

lemma merge_invI:
  assumes "fr = (if state = 0 then d + 1 else c)" "state \<in> {0, 1, 2}" "state \<noteq> 0 \<Longrightarrow> 0 \<le> c \<and> c \<le> d" "-1 \<le> d" "d \<le> 0xffff" "ordered fr t"
    and "\<And>s. s \<in> {1, 2} \<Longrightarrow> canonical (R s)" "\<And>s r. s \<in> {1, 2} \<Longrightarrow> r \<in> set (R s) \<Longrightarrow> fr \<le> range_from r"
    and "\<And>s r. s \<in> {1, 2} \<Longrightarrow> r \<in> set (R s) \<Longrightarrow> state = s \<Longrightarrow> d + 1 < range_from r"
    and "\<And>s x. s \<in> {1, 2} \<Longrightarrow> fr \<le> x \<Longrightarrow> x \<in> A s \<longleftrightarrow> state = s \<and> c \<le> x \<and> x \<le> d \<or> x \<in> chars (R s)"
    and "\<And>sel x. sel \<in> {1, 2, 3} \<Longrightarrow> x \<in> traced sel t \<longleftrightarrow> x \<in> region A sel \<and> x < fr"
  shows "merge_inv A R (c, d, state, t)"
proof -
  have "x \<ge> fr" if "s \<in> {1, 2}" "x \<in> chars (R s)" for s x using assms(8) [OF that(1)] that(2) by (force simp: chars_def)
  then have "A s \<inter> {fr..} = (if state = s then {c..d} else {}) \<union> chars (R s)" if "s \<in> {1, 2}" for s
    using assms(1) assms(10) [OF that] that by (auto split: if_splits)
  moreover have "traced sel t = region A sel \<inter> {..<fr}" if "sel \<in> {1, 2, 3}" for sel using assms(11) [OF that] by auto
  ultimately show ?thesis using assms(1-9) unfolding merge_inv.simps Let_def frontier.simps kInside by simp
qed

lemma region_iff:
  "x \<in> region A (Suc 0) \<longleftrightarrow> x \<in> A (Suc 0) \<and> x \<notin> A 2" "x \<in> region A 2 \<longleftrightarrow> x \<in> A 2 \<and> x \<notin> A (Suc 0)"
  "x \<in> region A 3 \<longleftrightarrow> x \<in> A (Suc 0) \<and> x \<in> A 2"
  by (simp_all add: region_def numeral_2_eq_2)

lemma chars_above: "\<forall>r\<in>set rs. a \<le> range_from r \<Longrightarrow> x \<in> chars rs \<Longrightarrow> a \<le> x"
  by (force simp: chars_def)

declare merge_inv.simps [simp del]

text \<open>\<open>r\<close> is the next range, from the source \<open>s\<close>.\<close>

definition merging :: "(nat \<Rightarrow> int set) \<Rightarrow> (nat \<Rightarrow> char_range list) \<Rightarrow> int \<Rightarrow> int \<Rightarrow> nat \<Rightarrow> (nat \<times> char_range) list \<Rightarrow>
  nat \<Rightarrow> char_range \<Rightarrow> char_range list \<Rightarrow> int \<Rightarrow> bool" where
  "merging A R c d state t s r rest fr \<longleftrightarrow> merge_inv A R (c, d, state, t) \<and> fr = (if state = 0 then d + 1 else c) \<and>
     s \<in> {1, 2} \<and> R s = r # rest \<and> (\<forall>q\<in>set (R (3 - s)). range_from r \<le> range_from q)"

lemma mergingD:
  assumes "merging A R c d state t s r rest fr"
  shows "merge_inv A R (c, d, state, t)" "fr = (if state = 0 then d + 1 else c)" "s \<in> {1, 2}" "R s = r # rest"
    "\<And>q. q \<in> set (R (3 - s)) \<Longrightarrow> range_from r \<le> range_from q"
  using assms unfolding merging_def by blast+

lemma next_range:
  assumes m: "merging A R c d state t s r rest fr"
  shows "valid r" "canonical rest" "\<And>q. q \<in> set rest \<Longrightarrow> range_to r + 1 < range_from q"
    and "0 \<le> range_from r" "range_from r \<le> range_to r" "range_to r \<le> 0xffff" "fr \<le> range_from r"
proof -
  note md = mergingD [OF m] and parts = merge_invD [OF mergingD(1,2) [OF m]]
  show 1: "valid r" "canonical rest" "\<And>q. q \<in> set rest \<Longrightarrow> range_to r + 1 < range_from q"
    using parts(6) [OF md(3)] md(4) by (auto simp: gap_def)
  then show "0 \<le> range_from r" "range_from r \<le> range_to r" "range_to r \<le> 0xffff" "fr \<le> range_from r"
    using parts(7) [OF md(3), of r] md(4) by (auto simp: valid_def)
qed

lemma rest_ranges:
  assumes m: "merging A R c d state t s r rest fr" and "s' \<in> {1, 2}"
  shows "canonical ((R(s := rest)) s')" "q \<in> set ((R(s := rest)) s') \<Longrightarrow> range_from r \<le> range_from q"
    "q \<in> set (R s') \<Longrightarrow> range_from r \<le> range_from q"
proof -
  note md = mergingD [OF m] and parts = merge_invD [OF mergingD(1,2) [OF m]] and r = next_range [OF m]
  show "canonical ((R(s := rest)) s')" using parts(6) [OF assms(2)] r(2) by simp
  have "s' = s \<or> s' = 3 - s" using assms(2) md(3) by auto
  then show "q \<in> set (R s') \<Longrightarrow> range_from r \<le> range_from q"
    using md(4,5) r(3,5) by fastforce
  then show "q \<in> set ((R(s := rest)) s') \<Longrightarrow> range_from r \<le> range_from q"
    using md(4) by (cases "s' = s") auto
qed

text \<open>Before the next range only the current range has characters left.\<close>

lemma between:
  assumes m: "merging A R c d state t s r rest fr" and "s' \<in> {1, 2}" "fr \<le> x" "x < range_from r"
  shows "x \<in> A s' \<longleftrightarrow> state = s' \<and> c \<le> x \<and> x \<le> d"
proof -
  have "x \<notin> chars (R s')" using chars_above [of "R s'" "range_from r" x] rest_ranges(3) [OF m assms(2)] assms(4) by fastforce
  then show ?thesis using merge_invD(9) [OF mergingD(1,2) [OF m] assms(2,3)] by simp
qed

lemma later:
  assumes m: "merging A R c d state t s r rest fr" and "s' \<in> {1, 2}" "fr \<le> x"
  shows "x \<in> A s' \<longleftrightarrow> state = s' \<and> c \<le> x \<and> x \<le> d \<or> s' = s \<and> range_from r \<le> x \<and> x \<le> range_to r \<or> x \<in> chars ((R(s := rest)) s')"
  using merge_invD(9) [OF mergingD(1,2) [OF m] assms(2,3)] mergingD(4) [OF m] by auto

lemma disjoint_step:
  assumes m: "merging A R c d state t s r rest fr" and "d < range_from r"
  shows "merge_inv A (R(s := rest)) (range_from r, range_to r, s, trace state (CharacterRange c d) t)"
proof (rule merge_invI [OF refl])
  note md = mergingD [OF m] and parts = merge_invD [OF mergingD(1,2) [OF m]] and r = next_range [OF m]
  have cd: "state \<noteq> 0 \<Longrightarrow> range_from (CharacterRange c d) = c \<and> range_to (CharacterRange c d) = d"
    using parts(2,4) by (intro CharacterRange_bounds) auto
  have s0: "(if s = 0 then range_to r + 1 else range_from r) = range_from r" using md(3) by auto
  show "ordered (if s = 0 then range_to r + 1 else range_from r) (trace state (CharacterRange c d) t)"
    unfolding s0 by (rule ordered_trace [OF parts(5)]) (use cd parts(2,4) md(2) assms(2) r in \<open>auto simp: valid_def\<close>)
  show "x \<in> A s' \<longleftrightarrow> s = s' \<and> range_from r \<le> x \<and> x \<le> range_to r \<or> x \<in> chars ((R(s := rest)) s')"
    if "s' \<in> {1, 2}" "(if s = 0 then range_to r + 1 else range_from r) \<le> x" for s' x
    using later [OF m that(1), of x] that(2) assms(2) r(7) s0 by auto
  show "x \<in> traced sel (trace state (CharacterRange c d) t) \<longleftrightarrow> x \<in> region A sel \<and> x < (if s = 0 then range_to r + 1 else range_from r)"
    if sel: "sel \<in> {1, 2, 3}" for sel x
  proof -
    have "fr \<le> x \<Longrightarrow> x < range_from r \<Longrightarrow> x \<in> region A sel \<longleftrightarrow> state = sel \<and> c \<le> x \<and> x \<le> d"
      using between [OF m, of 1 x] between [OF m, of 2 x] sel parts(1) by (auto simp: region_iff)
    then show ?thesis
      unfolding s0 using parts(10) [OF sel, of x] cd md(2) sel assms(2) r(7) by (cases "x < fr") auto
  qed
  show "range_to r + 1 < range_from q" if "s' \<in> {1, 2}" "q \<in> set ((R(s := rest)) s')" "s = s'" for s' q
    using r(3) that by simp
  show "(if s = 0 then range_to r + 1 else range_from r) \<le> range_from q" if "s' \<in> {1, 2}" "q \<in> set ((R(s := rest)) s')" for s' q
    unfolding s0 using rest_ranges(2) [OF m that] .
qed (use mergingD(3) [OF m] next_range [OF m] rest_ranges(1) [OF m] in auto)

text \<open>The ranges overlap: the current range is from the other source, and its part before the next range comes first.\<close>

lemma overlap_state:
  assumes m: "merging A R c d state t s r rest fr" and "range_from r \<le> d"
  shows "state = 3 - s" "state \<in> {1, 2}" "fr = c" "state OR s = 3"
proof -
  note md = mergingD [OF m] and parts = merge_invD [OF mergingD(1,2) [OF m]] and r = next_range [OF m]
  have "state \<noteq> 0" using md(2) r(7) assms(2) by (auto split: if_splits)
  moreover have "state \<noteq> s" using parts(8) [OF md(3), of r] md(4) assms(2) by auto
  ultimately have "state = 3 - s \<and> state \<in> {1, 2} \<and> state OR s = 3" using parts(1) md(3) by auto
  then show "state = 3 - s" "state \<in> {1, 2}" "state OR s = 3" "fr = c" using md(2) \<open>state \<noteq> 0\<close> by auto
qed

lemma lead_in:
  assumes m: "merging A R c d state t s r rest fr" and d: "range_from r \<le> d"
    and t': "t' = (if c < range_from r then trace state (CharacterRange c (range_from r - 1)) t else t)"
  shows "ordered (range_from r) t'" "sel \<in> {1, 2, 3} \<Longrightarrow> x \<in> traced sel t' \<longleftrightarrow> x \<in> region A sel \<and> x < range_from r"
proof -
  note md = mergingD [OF m] and parts = merge_invD [OF mergingD(1,2) [OF m]] and r = next_range [OF m] and o = overlap_state [OF m d]
  have c: "0 \<le> c" "c \<le> d" using parts(2) o(2) by auto
  have cd: "c < range_from r \<Longrightarrow> range_from (CharacterRange c (range_from r - 1)) = c \<and> range_to (CharacterRange c (range_from r - 1)) = range_from r - 1"
    using c r by (intro CharacterRange_bounds) auto
  have "ordered (range_from r) t'" if "c < range_from r"
    unfolding t' if_P [OF that] by (rule ordered_trace [OF parts(5)]) (use cd [OF that] c r o(3) that in \<open>auto simp: valid_def\<close>)
  moreover have "c = range_from r" if "\<not> c < range_from r" using that o(3) r(7) by simp
  ultimately show "ordered (range_from r) t'" using parts(5) o(3) t' by auto
  show "x \<in> traced sel t' \<longleftrightarrow> x \<in> region A sel \<and> x < range_from r" if sel: "sel \<in> {1, 2, 3}"
  proof -
    have "fr \<le> x \<Longrightarrow> x < range_from r \<Longrightarrow> x \<in> region A sel \<longleftrightarrow> state = sel"
      using between [OF m, of 1 x] between [OF m, of 2 x] sel o d by (auto simp: region_iff)
    then show ?thesis
      using parts(10) [OF sel, of x] cd o sel r(7) unfolding t' by (cases "x < fr") auto
  qed
qed

lemma overlap_step:
  assumes m: "merging A R c d state t s r rest fr" and d: "range_from r \<le> d" "d < range_to r"
    and t': "t' = (if c < range_from r then trace state (CharacterRange c (range_from r - 1)) t else t)"
  shows "merge_inv A (R(s := rest)) (d + 1, range_to r, s, trace 3 (CharacterRange (range_from r) d) t')"
proof (rule merge_invI [OF refl])
  note md = mergingD [OF m] and parts = merge_invD [OF mergingD(1,2) [OF m]] and r = next_range [OF m] and o = overlap_state [OF m d(1)]
  note l = lead_in [OF m d(1) t']
  have cd: "range_from (CharacterRange (range_from r) d) = range_from r \<and> range_to (CharacterRange (range_from r) d) = d"
    using r d parts(4) by (intro CharacterRange_bounds) auto
  have s0: "(if s = 0 then range_to r + 1 else d + 1) = d + 1" using md(3) by auto
  show "ordered (if s = 0 then range_to r + 1 else d + 1) (trace 3 (CharacterRange (range_from r) d) t')"
    unfolding s0 by (rule ordered_trace [OF l(1)]) (use cd r d parts(4) in \<open>auto simp: valid_def\<close>)
  show "x \<in> A s' \<longleftrightarrow> s = s' \<and> d + 1 \<le> x \<and> x \<le> range_to r \<or> x \<in> chars ((R(s := rest)) s')"
    if "s' \<in> {1, 2}" "(if s = 0 then range_to r + 1 else d + 1) \<le> x" for s' x
    using later [OF m that(1), of x] that(2) d r(7) s0 by auto
  have far: "d + 1 < range_from q" if "s' \<in> {1, 2}" "q \<in> set ((R(s := rest)) s')" for s' q
    using parts(8) [OF that(1), of q] o(1) r(3) [of q] d that md(3) by (cases "s' = s") auto
  then show "(if s = 0 then range_to r + 1 else d + 1) \<le> range_from q" if "s' \<in> {1, 2}" "q \<in> set ((R(s := rest)) s')" for s' q
    unfolding s0 using far [OF that] by simp
  show "x \<in> traced sel (trace 3 (CharacterRange (range_from r) d) t') \<longleftrightarrow> x \<in> region A sel \<and> x < (if s = 0 then range_to r + 1 else d + 1)"
    if sel: "sel \<in> {1, 2, 3}" for sel x
  proof -
    have "x \<in> A s'" if "range_from r \<le> x" "x \<le> d" "s' \<in> {1, 2}" for s'
      using later [OF m that(3), of x] that o d r(7) md(3) by auto
    then have "range_from r \<le> x \<Longrightarrow> x \<le> d \<Longrightarrow> x \<in> region A sel \<longleftrightarrow> sel = 3" using sel by (auto simp: region_iff)
    then show ?thesis unfolding s0 using l(2) [OF sel, of x] cd d sel by (cases "x < range_from r") auto
  qed
  show "range_to r + 1 < range_from q" if "s' \<in> {1, 2}" "q \<in> set ((R(s := rest)) s')" "s = s'" for s' q
    using r(3) that by simp
qed (use mergingD(3) [OF m] next_range [OF m] rest_ranges(1) [OF m] d in auto)

lemma included_step:
  assumes m: "merging A R c d state t s r rest fr" and d: "range_from r \<le> d" "\<not> d < range_to r"
    and t': "t' = (if c < range_from r then trace state (CharacterRange c (range_from r - 1)) t else t)"
  shows "merge_inv A (R(s := rest)) (range_to r + 1, d, if range_to r = d then 0 else state, trace 3 (CharacterRange (range_from r) (range_to r)) t')"
proof (rule merge_invI [OF refl])
  note md = mergingD [OF m] and parts = merge_invD [OF mergingD(1,2) [OF m]] and r = next_range [OF m] and o = overlap_state [OF m d(1)]
  note l = lead_in [OF m d(1) t']
  let ?state = "if range_to r = d then 0 else state"
  have cd: "range_from (CharacterRange (range_from r) (range_to r)) = range_from r \<and> range_to (CharacterRange (range_from r) (range_to r)) = range_to r"
    using r d by (intro CharacterRange_bounds) auto
  have s0: "(if ?state = 0 then d + 1 else range_to r + 1) = range_to r + 1" using o(2) by auto
  show "ordered (if ?state = 0 then d + 1 else range_to r + 1) (trace 3 (CharacterRange (range_from r) (range_to r)) t')"
    unfolding s0 by (rule ordered_trace [OF l(1)]) (use cd r d parts(4) in \<open>auto simp: valid_def\<close>)
  have far: "range_to r + 1 < range_from q" if "s' \<in> {1, 2}" "q \<in> set ((R(s := rest)) s')" for s' q
    using parts(8) [OF that(1), of q] o(1) r(3) [of q] d that md(3) by (cases "s' = s") auto
  then show "(if ?state = 0 then d + 1 else range_to r + 1) \<le> range_from q" if "s' \<in> {1, 2}" "q \<in> set ((R(s := rest)) s')" for s' q
    unfolding s0 using far [OF that] by simp
  show "x \<in> A s' \<longleftrightarrow> ?state = s' \<and> range_to r + 1 \<le> x \<and> x \<le> d \<or> x \<in> chars ((R(s := rest)) s')"
    if "s' \<in> {1, 2}" "(if ?state = 0 then d + 1 else range_to r + 1) \<le> x" for s' x
    using later [OF m that(1), of x] that r d o s0 by auto
  show "x \<in> traced sel (trace 3 (CharacterRange (range_from r) (range_to r)) t') \<longleftrightarrow> x \<in> region A sel \<and> x < (if ?state = 0 then d + 1 else range_to r + 1)"
    if sel: "sel \<in> {1, 2, 3}" for sel x
  proof -
    have "x \<in> A s'" if "range_from r \<le> x" "x \<le> range_to r" "s' \<in> {1, 2}" for s'
      using later [OF m that(3), of x] that o d r(7) md(3) by auto
    then have "range_from r \<le> x \<Longrightarrow> x \<le> range_to r \<Longrightarrow> x \<in> region A sel \<longleftrightarrow> sel = 3" using sel by (auto simp: region_iff)
    then show ?thesis unfolding s0 using l(2) [OF sel, of x] cd d r sel by (cases "x < range_from r") auto
  qed
  show "d + 1 < range_from q" if "s' \<in> {1, 2}" "q \<in> set ((R(s := rest)) s')" "?state = s'" for s' q
    using parts(8) [OF that(1), of q] that o(1) md(3) by (auto split: if_splits)
qed (use mergingD(3) [OF m] next_range [OF m] rest_ranges(1) [OF m] d merge_invD(1,3,4) [OF mergingD(1,2) [OF m]] in \<open>auto split: if_splits\<close>)

lemma merge_step_inv:
  assumes "merge_inv A R st" and "s \<in> {1, 2}" "R s = r # rest" "\<And>q. q \<in> set (R (3 - s)) \<Longrightarrow> range_from r \<le> range_from q"
  shows "merge_inv A (R(s := rest)) (merge_step trace r s st)"
proof -
  obtain c d state t where st: "st = (c, d, state, t)" by (cases st)
  have m: "merging A R c d state t s r rest (if state = 0 then d + 1 else c)" using assms st by (simp add: merging_def)
  show ?thesis unfolding st
  proof (cases "d < range_from r")
    case True
    then show "merge_inv A (R(s := rest)) (merge_step trace r s (c, d, state, t))"
      using disjoint_step [OF m True] by (simp add: merge_step_def)
  next
    case False
    then have d: "range_from r \<le> d" by simp
    let ?t = "if c < range_from r then trace state (CharacterRange c (range_from r - 1)) t else t"
    have "merge_step trace r s (c, d, state, t) =
        (if d < range_to r then (d + 1, range_to r, s, trace 3 (CharacterRange (range_from r) d) ?t)
         else (range_to r + 1, d, if range_to r = d then 0 else state, trace 3 (CharacterRange (range_from r) (range_to r)) ?t))"
      using False overlap_state(4) [OF m d] by (simp add: merge_step_def Let_def)
    then show "merge_inv A (R(s := rest)) (merge_step trace r s (c, d, state, t))"
      using overlap_step [OF m d _ refl] included_step [OF m d _ refl] by presburger
  qed
qed

definition remaining :: "char_range list \<Rightarrow> char_range list \<Rightarrow> nat \<Rightarrow> char_range list" where
  "remaining rs qs s = (if s = 1 then rs else if s = 2 then qs else [])"

lemma remaining_simps [simp]:
  "remaining rs qs (Suc 0) = rs" "remaining rs qs 2 = qs"
  "(remaining rs qs)(Suc 0 := rs') = remaining rs' qs" "(remaining rs qs)(2 := qs') = remaining rs qs'"
  by (auto simp: remaining_def fun_eq_iff)

lemma from_mono: "canonical (r # rs) \<Longrightarrow> q \<in> set (r # rs) \<Longrightarrow> range_from r \<le> range_from q"
  by (auto simp: gap_def valid_def)

lemma merge_first:
  "merge_inv A (remaining (r # rs) qs) st \<Longrightarrow> \<forall>q\<in>set qs. range_from r \<le> range_from q \<Longrightarrow> merge_inv A (remaining rs qs) (merge_step trace r (Suc 0) st)"
  using merge_step_inv [of A "remaining (r # rs) qs" st 1 r rs] by simp

lemma merge_second:
  "merge_inv A (remaining rs (q # qs)) st \<Longrightarrow> \<forall>r\<in>set rs. range_from q \<le> range_from r \<Longrightarrow> merge_inv A (remaining rs qs) (merge_step trace q 2 st)"
  using merge_step_inv [of A "remaining rs (q # qs)" st 2 q qs] by simp

lemma merge_loop_inv:
  "merge_inv A (remaining rs qs) st \<Longrightarrow> canonical rs \<Longrightarrow> canonical qs \<Longrightarrow> merge_inv A (remaining [] []) (merge_loop trace rs qs st)"
proof (induction trace rs qs st rule: merge_loop.induct)
  case (4 r rs q qs st)
  have r: "\<And>x. x \<in> set (r # rs) \<Longrightarrow> range_from r \<le> range_from x" and q: "\<And>x. x \<in> set (q # qs) \<Longrightarrow> range_from q \<le> range_from x"
    using from_mono "4.prems"(2,3) by blast+
  show ?case
  proof (cases "range_from r < range_from q")
    case True
    then have "\<forall>x\<in>set (q # qs). range_from r \<le> range_from x" using q by fastforce
    then show ?thesis using 4 True merge_first [OF "4.prems"(1)] by simp
  next
    case False
    then have "\<forall>x\<in>set (r # rs). range_from q \<le> range_from x" using r by fastforce
    then show ?thesis using 4 False merge_second [OF "4.prems"(1)] by simp
  qed
qed (simp_all add: merge_first merge_second)

lemma merge_trace:
  assumes "canonical rs" "canonical qs"
  shows "ordered 0x10000 (merge_ranges trace rs qs []) \<and>
    (\<forall>sel\<in>{1, 2, 3}. traced sel (merge_ranges trace rs qs []) = region (\<lambda>s. chars (remaining rs qs s)) sel)"
proof -
  let ?A = "\<lambda>s. chars (remaining rs qs s)"
  obtain c d state t where e: "merge_loop trace rs qs (0, -1, kInsideNone, []) = (c, d, state, t)" by (metis prod_cases4)
  have c: "canonical (remaining rs qs s)" for s using assms by (simp add: remaining_def)
  then have pos: "\<forall>r\<in>set (remaining rs qs s). 0 \<le> range_from r" for s by (metis canonical_def valid_def)
  have below: "x \<in> ?A s \<Longrightarrow> 0 \<le> x" for s x using chars_above [OF pos] by blast
  have b: "x \<in> chars rs \<Longrightarrow> 0 \<le> x" "x \<in> chars qs \<Longrightarrow> 0 \<le> x" for x using below [of x 1] below [of x 2] by simp_all
  have "merge_inv ?A (remaining rs qs) (0, -1, kInsideNone, [])"
    by (rule merge_invI [OF refl]) (use c pos b [THEN leD] in \<open>auto simp: ordered_def region_def split: if_splits\<close>)
  then have inv: "merge_inv ?A (remaining [] []) (c, d, state, t)" using merge_loop_inv [OF _ assms] e by metis
  note parts = merge_invD [OF inv refl]
  let ?fr = "if state = 0 then d + 1 else c" and ?t = "trace state (CharacterRange c d) t"
  have cd: "state \<noteq> 0 \<Longrightarrow> range_from (CharacterRange c d) = c \<and> range_to (CharacterRange c d) = d"
    using parts(2,4) by (intro CharacterRange_bounds) auto
  have "merge_ranges trace rs qs [] = ?t" using e by (simp add: merge_ranges_def)
  moreover have "ordered 0x10000 ?t"
    by (rule ordered_trace [OF parts(5)]) (use cd parts(2,4) in \<open>auto simp: valid_def\<close>)
  moreover have "traced sel ?t = region ?A sel" if sel: "sel \<in> {1, 2, 3}" for sel
  proof (rule set_eqI)
    fix x
    have a: "?fr \<le> x \<Longrightarrow> s \<in> {1, 2} \<Longrightarrow> x \<in> ?A s \<longleftrightarrow> state = s \<and> c \<le> x \<and> x \<le> d" for s
      using parts(9) [of s x] by (auto simp: remaining_def)
    have "?fr \<le> x \<Longrightarrow> x \<in> region ?A sel \<longleftrightarrow> state = sel \<and> c \<le> x \<and> x \<le> d"
      using a [of 1] a [of 2] sel parts(1) by (auto simp: region_iff split: if_splits)
    then show "x \<in> traced sel ?t \<longleftrightarrow> x \<in> region ?A sel"
      using parts(10) [OF sel, of x] cd sel by (cases "x < ?fr") auto
  qed
  ultimately show ?thesis by simp
qed

section \<open>The output lists\<close>

definition out_ptr :: "nat option \<Rightarrow> nat option \<Rightarrow> nat option \<Rightarrow> nat \<Rightarrow> nat option" where
  "out_ptr p1 p2 p3 sel = (if sel = 1 then p1 else if sel = 2 then p2 else if sel = 3 then p3 else None)"

lemma AddRangeToSelectedSet_ptr: "AddRangeToSelectedSet p1 p2 p3 sel r store = AddRangeToSet (out_ptr p1 p2 p3 sel) r store"
  by (simp add: AddRangeToSelectedSet_def out_ptr_def AddRangeToSet_def)

lemma AddRangeToSet_ok:
  assumes "canonical (store p)" "\<forall>q\<in>set (store p). range_to q < range_from r" "valid r"
  shows "canonical (AddRangeToSet (Some p) r store p)" "chars (AddRangeToSet (Some p) r store p) = chars (store p) \<union> {range_from r..range_to r}"
    "\<forall>q\<in>set (AddRangeToSet (Some p) r store p). range_to q \<le> range_to r"
proof -
  have "canonical (AddRangeToSet (Some p) r store p) \<and> chars (AddRangeToSet (Some p) r store p) = chars (store p) \<union> {range_from r..range_to r} \<and>
    (\<forall>q\<in>set (AddRangeToSet (Some p) r store p). range_to q \<le> range_to r)"
  proof (cases "store p" rule: rev_cases)
    case Nil
    then show ?thesis using assms(3) by (auto simp: AddRangeToSet_def)
  next
    case (snoc qs q)
    have q: "valid q" "canonical qs" "\<forall>a\<in>set qs. gap a q" "range_to q < range_from r"
      using assms(1,2) snoc by (auto simp: canonical_append)
    have m: "CharacterRange (range_from q) (range_to r) = \<lparr>range_from = range_from q, range_to = range_to r\<rparr>"
      by (rule CharacterRange_id) (use q(1,4) assms(3) in \<open>auto simp: valid_def\<close>)
    show ?thesis
    proof (cases "range_to q = range_from r - 1")
      case True
      then have "AddRangeToSet (Some p) r store p = qs @ [\<lparr>range_from = range_from q, range_to = range_to r\<rparr>]" using snoc m by (simp add: AddRangeToSet_def)
      then show ?thesis using True q assms snoc by (auto simp: canonical_append gap_def valid_def)
    next
      case False
      then have "AddRangeToSet (Some p) r store p = qs @ [q, r]" using snoc by (simp add: AddRangeToSet_def)
      then show ?thesis using False q assms snoc by (auto simp: canonical_append gap_def valid_def)
    qed
  qed
  then show "canonical (AddRangeToSet (Some p) r store p)" "chars (AddRangeToSet (Some p) r store p) = chars (store p) \<union> {range_from r..range_to r}"
    "\<forall>q\<in>set (AddRangeToSet (Some p) r store p). range_to q \<le> range_to r" by blast+
qed

lemma ordered_snoc: "ordered fr (t @ [(sel, r)]) \<Longrightarrow> sel \<noteq> 0 \<Longrightarrow> ordered (range_from r) t \<and> valid r"
  by (fastforce simp: ordered_def sorted_wrt_append)

lemma ordered_butlast: "ordered fr (t @ [x]) \<Longrightarrow> ordered fr t"
  by (auto simp: ordered_def sorted_wrt_append split: if_splits)

lemma ordered_less: "ordered fr t \<Longrightarrow> sel \<noteq> 0 \<Longrightarrow> x \<in> traced sel t \<Longrightarrow> x < fr"
  by (fastforce simp: ordered_def traced_def chars_def)

lemma UN_one_more:
  "s \<in> I \<Longrightarrow> (\<Union>i\<in>I. f i \<union> (if s = i then X else {})) = (\<Union>i\<in>I. f i) \<union> X"
  "s \<notin> I \<Longrightarrow> (\<Union>i\<in>I. f i \<union> (if s = i then X else {})) = (\<Union>i\<in>I. f i)"
  by (auto split: if_splits)

lemma UN_three:
  "x \<in> (\<Union>sel\<in>{sel \<in> {1 :: nat, 2, 3}. P sel}. f sel) \<longleftrightarrow> P 1 \<and> x \<in> f 1 \<or> P 2 \<and> x \<in> f 2 \<or> P 3 \<and> x \<in> f 3"
  by auto

lemma replay_ok:
  assumes "ordered fr t" "store p = []"
  shows "canonical (replay (AddRangeToSelectedSet p1 p2 p3) t store p) \<and> (\<forall>q\<in>set (replay (AddRangeToSelectedSet p1 p2 p3) t store p). range_to q < fr) \<and>
    chars (replay (AddRangeToSelectedSet p1 p2 p3) t store p) = (\<Union>sel\<in>{sel \<in> {1, 2, 3}. out_ptr p1 p2 p3 sel = Some p}. traced sel t)"
  using assms(1)
proof (induction t arbitrary: fr rule: rev_induct)
  case Nil
  then show ?case using assms(2) by simp
next
  case (snoc x t)
  obtain sel r where x: "x = (sel, r)" by (cases x)
  let ?s = "replay (AddRangeToSelectedSet p1 p2 p3) t store"
  have s': "replay (AddRangeToSelectedSet p1 p2 p3) (t @ [x]) store = AddRangeToSet (out_ptr p1 p2 p3 sel) r ?s"
    using x by (simp add: replay_def AddRangeToSelectedSet_ptr)
  have t: "traced sel' (t @ [x]) = traced sel' t \<union> (if sel = sel' then {range_from r..range_to r} else {})" for sel'
    using traced_simps(2) [of sel' sel r t] x by (simp add: trace_def)
  show ?case
  proof (cases "out_ptr p1 p2 p3 sel = Some p")
    case True
    then have sel: "sel \<in> {1, 2, 3}" "sel \<noteq> 0" by (auto simp: out_ptr_def split: if_splits)
    then have o: "ordered (range_from r) t" "valid r" using ordered_snoc snoc.prems x by auto
    have r: "range_to r < fr" using snoc.prems x sel by (simp add: ordered_def)
    have i: "canonical (?s p)" "\<forall>q\<in>set (?s p). range_to q < range_from r"
      "chars (?s p) = (\<Union>sel\<in>{sel \<in> {1, 2, 3}. out_ptr p1 p2 p3 sel = Some p}. traced sel t)"
      using snoc.IH [OF o(1)] by blast+
    note a = AddRangeToSet_ok [where store = ?s and p = p, OF i(1,2) o(2)]
    have "(\<Union>sel\<in>{sel \<in> {1, 2, 3}. out_ptr p1 p2 p3 sel = Some p}. traced sel (t @ [x])) = chars (?s p) \<union> {range_from r..range_to r}"
      unfolding i(3) t by (rule UN_one_more(1)) (use sel(1) True in simp)
    then show ?thesis unfolding s' True using a r by fastforce
  next
    case False
    then have same: "AddRangeToSet (out_ptr p1 p2 p3 sel) r ?s p = ?s p" by (auto simp: AddRangeToSet_def split: option.split)
    have "(\<Union>sel\<in>{sel \<in> {1, 2, 3}. out_ptr p1 p2 p3 sel = Some p}. traced sel (t @ [x])) =
        (\<Union>sel\<in>{sel \<in> {1, 2, 3}. out_ptr p1 p2 p3 sel = Some p}. traced sel t)"
      unfolding t by (rule UN_one_more(2)) (use False in simp)
    then show ?thesis unfolding s' same using snoc.IH [OF ordered_butlast [OF snoc.prems]] by metis
  qed
qed

section \<open>Merge\<close>

text \<open>What a list that receives the selected parts of two sets should hold.\<close>

definition selected :: "nat option \<Rightarrow> nat option \<Rightarrow> nat option \<Rightarrow> int set \<Rightarrow> int set \<Rightarrow> nat \<Rightarrow> int set" where
  "selected first_out second_out both_out S1 S2 p =
     (if first_out = Some p then S1 - S2 else {}) \<union> (if second_out = Some p then S2 - S1 else {}) \<union> (if both_out = Some p then S1 \<inter> S2 else {})"

lemma merge_ranges_ok:
  assumes "canonical rs" "canonical qs" "store p = []"
  shows "canonical (merge_ranges (AddRangeToSelectedSet p1 p2 p3) rs qs store p)"
    "chars (merge_ranges (AddRangeToSelectedSet p1 p2 p3) rs qs store p) = selected p1 p2 p3 (chars rs) (chars qs) p"
proof -
  note t = merge_trace [OF assms(1,2)]
  note r = replay_ok [of _ "merge_ranges trace rs qs []" store p p1 p2 p3, OF conjunct1 [OF t] assms(3)]
  note m = merge_ranges_replay [of "AddRangeToSelectedSet p1 p2 p3" rs qs store]
  show "canonical (merge_ranges (AddRangeToSelectedSet p1 p2 p3) rs qs store p)" unfolding m using r by blast
  have "(\<Union>sel\<in>{sel \<in> {1, 2, 3}. out_ptr p1 p2 p3 sel = Some p}. traced sel (merge_ranges trace rs qs [])) =
      (\<Union>sel\<in>{sel \<in> {1, 2, 3}. out_ptr p1 p2 p3 sel = Some p}. region (\<lambda>s. chars (remaining rs qs s)) sel)" using t by auto
  also have "\<dots> = selected p1 p2 p3 (chars rs) (chars qs) p"
  proof (rule set_eqI)
    fix x
    let ?A = "\<lambda>s. chars (remaining rs qs s)"
    show "x \<in> (\<Union>sel\<in>{sel \<in> {1, 2, 3}. out_ptr p1 p2 p3 sel = Some p}. region ?A sel) \<longleftrightarrow> x \<in> selected p1 p2 p3 (chars rs) (chars qs) p"
      unfolding UN_three by (simp add: out_ptr_def selected_def region_iff)
  qed
  finally show "chars (merge_ranges (AddRangeToSelectedSet p1 p2 p3) rs qs store p) = selected p1 p2 p3 (chars rs) (chars qs) p"
    unfolding m using r by metis
qed

text \<open>
  C29. \<open>Merge\<close> of two canonical lists gives each output list exactly the characters its pointers select, those only in the first
  set, only in the second, or in both, and the list is canonical, whichever of the output pointers
  are equal or null; an empty input is merged as long as the pointer its shortcut uses is not null.
\<close>

theorem Merge_selects:
  assumes "canonical first_set" "canonical second_set" "store p = []"
    and "first_set = [] \<Longrightarrow> second_out \<noteq> None" "first_set \<noteq> [] \<Longrightarrow> second_set = [] \<Longrightarrow> first_out \<noteq> None"
  shows "\<exists>store'. Merge first_set second_set first_out second_out both_out store = Some store' \<and>
    canonical (store' p) \<and> chars (store' p) = selected first_out second_out both_out (chars first_set) (chars second_set) p"
proof (cases "first_set = [] \<or> second_set = []")
  case True
  then show ?thesis using assms by (auto simp: Merge_def selected_def split: if_splits)
next
  case False
  then show ?thesis using merge_ranges_ok [where store = store and p = p, OF assms(1-3)] by (simp add: Merge_def)
qed

theorem Merge_selects_witness:
  "\<exists>store'. Merge [CharacterRange 1 5] [CharacterRange 3 9] (Some 0) None (Some 0) (\<lambda>_. []) = Some store' \<and>
     canonical (store' 0) \<and> chars (store' 0) = {1..5}"
proof -
  let ?r = "[CharacterRange 1 5]" and ?q = "[CharacterRange 3 9]"
  have "canonical ?r" "canonical ?q" by (simp_all add: CharacterRange_def uc16_def valid_def)
  then have "\<exists>store'. Merge ?r ?q (Some 0) None (Some 0) (\<lambda>_. []) = Some store' \<and>
      canonical (store' 0) \<and> chars (store' 0) = selected (Some 0) None (Some 0) (chars ?r) (chars ?q) 0"
    by (intro Merge_selects) simp_all
  moreover have "selected (Some 0) None (Some 0) (chars ?r) (chars ?q) 0 = {1..5}"
    by (auto simp: selected_def CharacterRange_def uc16_def)
  ultimately show ?thesis by simp
qed

text \<open>
  \<open>Merge\<close> dereferences a null pointer when an input is empty and the output for the characters of the other one is not wanted, although
  the pointers to the output lists may be null.
\<close>

theorem Merge_null_output:
  "Merge [] second_set first_out None both_out store = None \<and> Merge (r # rs) [] None second_out both_out store = None"
  by (simp add: Merge_def)

end
