(* ===== verification/Word_Relation.thy ===== *)
theory Word_Relation
  imports Char_Range
begin

text \<open>
  \<open>WordCharacterRelation\<close> reports every kind of element there is, those only in the argument, only among the word
  characters, and in both, but also some that there are not: a comparison in it uses the start of the argument range for its end.
\<close>

lemma flags_compare:
  "in_first res \<Longrightarrow> in_first (compare_ranges r w res)" "in_second res \<Longrightarrow> in_second (compare_ranges r w res)"
  "in_both res \<Longrightarrow> in_both (compare_ranges r w res)"
  by (simp_all add: compare_ranges_def Let_def)

lemma flags_loop:
  "in_first res \<Longrightarrow> in_first (word_relation_loop rs ws res)" "in_second res \<Longrightarrow> in_second (word_relation_loop rs ws res)"
  "in_both res \<Longrightarrow> in_both (word_relation_loop rs ws res)"
  by (induction rs ws res rule: word_relation_loop.induct) (simp_all add: flags_compare Let_def)

lemma beyond: "\<forall>q\<in>set rs. gap r q \<Longrightarrow> x \<in> chars rs \<Longrightarrow> range_to r + 1 < x"
  by (force simp: gap_def chars_def)

declare word_relation_loop.simps(3) [simp del]

text \<open>A flag is set when each step either sets it, or leaves the elements it stands for ahead.\<close>

definition next_ranges :: "char_range \<Rightarrow> char_range list \<Rightarrow> char_range \<Rightarrow> char_range list" where
  "next_ranges r rs w = (if range_to r \<le> range_to w then rs else r # rs)"

lemma loop_sets_flag:
  assumes step: "\<And>r rs w ws res. canonical (r # rs) \<Longrightarrow> canonical (w # ws) \<Longrightarrow> ahead (r # rs) (w # ws) \<Longrightarrow>
      flag (compare_ranges r w res) \<or> ahead (next_ranges r rs w) (next_ranges w ws r)"
    and keep: "\<And>rs ws res. flag res \<Longrightarrow> flag (word_relation_loop rs ws res)" "\<And>res. NonTrivialIntersection res \<Longrightarrow> flag res"
    and ended: "\<And>rs res. ahead rs [] \<Longrightarrow> flag (word_relation_loop rs [] res)" "\<And>w ws res. ahead [] (w # ws) \<Longrightarrow> flag (word_relation_loop [] (w # ws) res)"
  shows "canonical rs \<Longrightarrow> canonical ws \<Longrightarrow> ahead rs ws \<Longrightarrow> flag (word_relation_loop rs ws res)"
proof (induction rs ws res rule: word_relation_loop.induct)
  case (3 r rs w ws res)
  let ?res = "compare_ranges r w res"
  have l: "word_relation_loop (r # rs) (w # ws) res =
      (if NonTrivialIntersection ?res then ?res else word_relation_loop (next_ranges r rs w) (next_ranges w ws r) ?res)"
    by (simp add: word_relation_loop.simps Let_def next_ranges_def)
  have c: "canonical (next_ranges r rs w)" "canonical (next_ranges w ws r)" using "3.prems" by (auto simp: next_ranges_def)
  consider "NonTrivialIntersection ?res" | "\<not> NonTrivialIntersection ?res" "flag ?res"
    | "\<not> NonTrivialIntersection ?res" "ahead (next_ranges r rs w) (next_ranges w ws r)" using step "3.prems" by blast
  then show ?case
  proof cases
    case 3
    then show ?thesis using "3.IH" [OF refl] c unfolding l next_ranges_def by simp
  qed (simp_all add: l keep)
qed (use ended in auto)

lemma valid_order: "canonical (r # rs) \<Longrightarrow> range_from r \<le> range_to r"
  by (simp add: valid_def)

lemmas compare_step = compare_ranges_def Let_def next_ranges_def NonTrivialIntersection_def

lemma in_first_ok:
  "canonical rs \<Longrightarrow> canonical ws \<Longrightarrow> x \<in> chars rs \<Longrightarrow> x \<notin> chars ws \<Longrightarrow> in_first (word_relation_loop rs ws res)"
  by (rule loop_sets_flag [where ahead = "\<lambda>rs ws. x \<in> chars rs \<and> x \<notin> chars ws"])
    (auto simp: compare_step flags_loop dest!: valid_order split: if_splits)

lemma in_second_ok:
  "canonical rs \<Longrightarrow> canonical ws \<Longrightarrow> x \<in> chars ws \<Longrightarrow> x \<notin> chars rs \<Longrightarrow> in_second (word_relation_loop rs ws res)"
  by (rule loop_sets_flag [where ahead = "\<lambda>rs ws. x \<in> chars ws \<and> x \<notin> chars rs"])
    (auto simp: compare_step flags_loop dest!: valid_order split: if_splits)

lemma in_both_ok:
  assumes "canonical rs" "canonical ws" "x \<in> chars ws" "x \<in> chars rs"
  shows "in_both (word_relation_loop rs ws res)"
proof (rule loop_sets_flag [where ahead = "\<lambda>rs ws. x \<in> chars rs \<and> x \<in> chars ws"])
  fix r rs w ws res
  assume c: "canonical (r # rs)" "canonical (w # ws)" and x: "x \<in> chars (r # rs) \<and> x \<in> chars (w # ws)"
  have "x \<in> chars rs \<Longrightarrow> range_to r + 1 < x" "x \<in> chars ws \<Longrightarrow> range_to w + 1 < x" using c beyond by auto
  then show "in_both (compare_ranges r w res) \<or> x \<in> chars (next_ranges r rs w) \<and> x \<in> chars (next_ranges w ws r)"
    using c [THEN valid_order] x by (auto simp: compare_step split: if_splits)
qed (use assms flags_loop in \<open>auto simp: NonTrivialIntersection_def\<close>)

lemma canonical_words: "canonical (AddClass kWordRanges [])"
  by (simp add: kWordRanges_def CharacterRange_def uc16_def valid_def gap_def)

text \<open>
  \<open>WordCharacterRelation\<close> misses nothing: when a canonical list of ranges has a character that is no word character, lacks a word
  character, or has one, the relation says so.
\<close>

theorem WordCharacterRelation_complete:
  assumes "canonical rs"
  shows "(chars rs - chars (AddClass kWordRanges []) \<noteq> {} \<longrightarrow> in_first (WordCharacterRelation rs)) \<and>
    (chars (AddClass kWordRanges []) - chars rs \<noteq> {} \<longrightarrow> in_second (WordCharacterRelation rs)) \<and>
    (chars (AddClass kWordRanges []) \<inter> chars rs \<noteq> {} \<longrightarrow> in_both (WordCharacterRelation rs))"
  using in_first_ok [OF assms canonical_words] in_second_ok [OF assms canonical_words] in_both_ok [OF assms canonical_words]
  by (auto simp: WordCharacterRelation_def)

theorem WordCharacterRelation_complete_witness:
  "in_both (WordCharacterRelation [CharacterRange 0x30 0x35]) \<and> in_second (WordCharacterRelation [CharacterRange 0x30 0x35])"
proof -
  let ?rs = "[CharacterRange 0x30 0x35]"
  have "canonical ?rs" by (simp add: CharacterRange_def uc16_def valid_def)
  moreover have "0x30 \<in> chars (AddClass kWordRanges []) \<inter> chars ?rs" "0x36 \<in> chars (AddClass kWordRanges []) - chars ?rs"
    by (simp_all add: kWordRanges_def CharacterRange_def uc16_def)
  ultimately show ?thesis using WordCharacterRelation_complete [of ?rs] by blast
qed

text \<open>
  For the list of the word characters itself, \<open>WordCharacterRelation\<close> reports word characters outside the list, although there are
  none: the test for a word range that ends beyond the argument range compares it with the start of that range.
\<close>

theorem WordCharacterRelation_of_words:
  "in_second (WordCharacterRelation (AddClass kWordRanges [])) \<and> chars (AddClass kWordRanges []) - chars (AddClass kWordRanges []) = {}"
  by (simp add: WordCharacterRelation_def kWordRanges_def CharacterRange_def uc16_def word_relation_loop.simps compare_ranges_def NonTrivialIntersection_def)

end
