(* ===== verification/Out_Set.thy ===== *)
theory Out_Set
  imports W16_Prelude "HOL-Library.Word"
begin

unbundle bit_operations_syntax

text \<open>
  The sets of choices of a dispatch table, \<open>OutSet\<close> of \<^verbatim>\<open>src/jsregexp.h\<close> and \<^verbatim>\<open>src/jsregexp.cc\<close>.  The objects live in a
  zone and are never freed; pointers are indices.  A set keeps the values below 32 in a word and the others in a
  list, which \<open>Extend\<close> shares between a set and its successors.
\<close>

section \<open>The program\<close>

record out_set =
  first :: "32 word"
  remaining :: "nat option"
  successors :: "nat list option"

record zone =
  sets :: "out_set list"
  lists :: "nat list list"

definition kFirstLimit :: nat where
  "kFirstLimit = 32"

definition OutSet_new :: "zone \<Rightarrow> zone \<times> nat" where
  "OutSet_new z = (z \<lparr>sets := sets z @ [\<lparr>first = 0, remaining = None, successors = None\<rparr>]\<rparr>, length (sets z))"

definition OutSet_Get :: "zone \<Rightarrow> nat \<Rightarrow> nat \<Rightarrow> bool" where
  "OutSet_Get z s v =
     (if v < kFirstLimit then first (sets z ! s) AND push_bit v 1 \<noteq> 0
      else (case remaining (sets z ! s) of None \<Rightarrow> False | Some l \<Rightarrow> v \<in> set (lists z ! l)))"

definition OutSet_Set :: "nat \<Rightarrow> nat \<Rightarrow> zone \<Rightarrow> zone" where
  "OutSet_Set s v z =
     (if v < kFirstLimit then z \<lparr>sets := (sets z)[s := (sets z ! s) \<lparr>first := first (sets z ! s) OR push_bit v 1\<rparr>]\<rparr>
      else
        (let (z, l) = (case remaining (sets z ! s) of
             None \<Rightarrow> (z \<lparr>sets := (sets z)[s := (sets z ! s) \<lparr>remaining := Some (length (lists z))\<rparr>], lists := lists z @ [[]]\<rparr>, length (lists z))
           | Some l \<Rightarrow> (z, l))
         in if lists z ! l = [] \<or> v \<notin> set (lists z ! l) then z \<lparr>lists := (lists z)[l := lists z ! l @ [v]]\<rparr> else z))"

definition OutSet_Extend :: "nat \<Rightarrow> nat \<Rightarrow> zone \<Rightarrow> zone \<times> nat" where
  "OutSet_Extend s v z =
     (if OutSet_Get z s v then (z, s)
      else
        (case find (\<lambda>s'. OutSet_Get z s' v) (case successors (sets z ! s) of None \<Rightarrow> [] | Some ss \<Rightarrow> ss) of
           Some successor \<Rightarrow> (z, successor)
         | None \<Rightarrow>
             (let result = length (sets z);
                  z = z \<lparr>sets := sets z @ [\<lparr>first = first (sets z ! s), remaining = remaining (sets z ! s), successors = None\<rparr>]\<rparr>;
                  z = OutSet_Set result v z;
                  ss = (case successors (sets z ! s) of None \<Rightarrow> [] | Some ss \<Rightarrow> ss);
                  z = z \<lparr>sets := (sets z)[s := (sets z ! s) \<lparr>successors := Some (ss @ [result])\<rparr>]\<rparr>
              in (z, result))))"

section \<open>Small sets\<close>

definition elements :: "zone \<Rightarrow> nat \<Rightarrow> nat set" where
  "elements z s = {v. OutSet_Get z s v}"

text \<open>
  As long as every value is below 32 no set has a list, and a successor has one value more than its set.
\<close>

definition small :: "zone \<Rightarrow> bool" where
  "small z \<longleftrightarrow> (\<forall>s<length (sets z). remaining (sets z ! s) = None \<and>
     (\<forall>ss. successors (sets z ! s) = Some ss \<longrightarrow>
        (\<forall>s'\<in>set ss. s' < length (sets z) \<and> (\<exists>v. elements z s' = insert v (elements z s)))))"

text \<open>A zone grows: the sets that were there keep their elements.\<close>

definition grows :: "zone \<Rightarrow> zone \<Rightarrow> bool" where
  "grows z z' \<longleftrightarrow> length (sets z) \<le> length (sets z') \<and> (\<forall>s<length (sets z). elements z' s = elements z s)"

lemma grows_refl [simp]: "grows z z"
  by (simp add: grows_def)

lemma grows_trans: "grows z z' \<Longrightarrow> grows z' z'' \<Longrightarrow> grows z z''"
  by (auto simp: grows_def)

lemma Get_small: "v < 32 \<Longrightarrow> OutSet_Get z s v \<longleftrightarrow> bit (first (sets z ! s)) v"
  by (simp add: OutSet_Get_def kFirstLimit_def bit_iff_and_push_bit_not_eq_0)

lemma elements_small: "remaining (sets z ! s) = None \<Longrightarrow> elements z s = {v. bit (first (sets z ! s)) v}"
proof -
  assume r: "remaining (sets z ! s) = None"
  have "OutSet_Get z s v \<longleftrightarrow> bit (first (sets z ! s)) v" for v
    using Get_small r bit_imp_le_length [of "first (sets z ! s)" v] by (cases "v < 32") (auto simp: OutSet_Get_def kFirstLimit_def)
  then show ?thesis by (simp add: elements_def)
qed

text \<open>A new successor: the list of sets gets it at the end, and the set it comes from knows it.\<close>

lemma Extend_new:
  assumes "small z" "s < length (sets z)" "v < 32" "\<not> OutSet_Get z s v"
    and "ss = (case successors (sets z ! s) of None \<Rightarrow> [] | Some ss \<Rightarrow> ss)" "find (\<lambda>s'. OutSet_Get z s' v) ss = None"
  shows "\<exists>z'. OutSet_Extend s v z = (z', length (sets z)) \<and>
    sets z' = (sets z)[s := (sets z ! s) \<lparr>successors := Some (ss @ [length (sets z)])\<rparr>]
      @ [\<lparr>first = first (sets z ! s) OR push_bit v 1, remaining = None, successors = None\<rparr>]"
proof -
  have r: "remaining (sets z ! s) = None" using assms(1,2) by (simp add: small_def)
  show ?thesis using assms(2-4,6) r unfolding OutSet_Extend_def assms(5) [symmetric]
    by (simp add: Let_def OutSet_Set_def kFirstLimit_def nth_append list_update_append assms(5))
qed

lemma Extend_small:
  assumes z: "small z" and s: "s < length (sets z)" and v: "v < 32" and e: "OutSet_Extend s v z = (z', s')"
  shows "small z' \<and> grows z z' \<and> s' < length (sets z') \<and> elements z' s' = insert v (elements z s)"
proof -
  define ss where ss: "ss = (case successors (sets z ! s) of None \<Rightarrow> [] | Some ss \<Rightarrow> ss)"
  have succ: "s' < length (sets z) \<and> (\<exists>v. elements z s' = insert v (elements z s))" if "s' \<in> set ss" for s'
    using z s that unfolding small_def ss by (cases "successors (sets z ! s)") auto
  consider "OutSet_Get z s v" | t where "\<not> OutSet_Get z s v" "find (\<lambda>s'. OutSet_Get z s' v) ss = Some t"
    | "\<not> OutSet_Get z s v" "find (\<lambda>s'. OutSet_Get z s' v) ss = None" by (cases "find (\<lambda>s'. OutSet_Get z s' v) ss") auto
  then show ?thesis
  proof cases
    case 1
    then have "z' = z" "s' = s" using e by (simp_all add: OutSet_Extend_def)
    then show ?thesis using z s 1 by (auto simp: elements_def)
  next
    case 2
    then have zs: "z' = z" "s' = t" using e by (simp_all add: OutSet_Extend_def ss)
    have t: "t \<in> set ss" "OutSet_Get z t v" using 2(2) by (auto simp: find_Some_iff)
    then obtain w where w: "t < length (sets z)" "elements z t = insert w (elements z s)" using succ by blast
    then have "v = w" using t(2) 2(1) by (auto simp: elements_def set_eq_iff)
    then show ?thesis using zs z w by simp
  next
    case 3
    let ?n = "length (sets z)"
    obtain S: "s' = ?n" "sets z' = (sets z)[s := (sets z ! s) \<lparr>successors := Some (ss @ [?n])\<rparr>]
        @ [\<lparr>first = first (sets z ! s) OR push_bit v 1, remaining = None, successors = None\<rparr>]"
      using Extend_new [OF z s v 3(1) ss 3(2)] e by auto
    have r: "remaining (sets z ! i) = None" if "i < ?n" for i using z that by (simp add: small_def)
    have old: "elements z' i = elements z i" if "i < ?n" for i
    proof -
      have "remaining (sets z' ! i) = None" "first (sets z' ! i) = first (sets z ! i)"
        using that s r [OF that] r [OF s] S(2) by (auto simp: nth_append nth_list_update)
      then show ?thesis using elements_small r [OF that] by simp
    qed
    have new: "elements z' ?n = insert v (elements z s)"
    proof -
      have "sets z' ! ?n = \<lparr>first = first (sets z ! s) OR push_bit v 1, remaining = None, successors = None\<rparr>" using S(2) by (simp add: nth_append)
      then have "elements z' ?n = {x. bit (first (sets z ! s) OR push_bit v 1) x}" using elements_small by simp
      then show ?thesis using elements_small [OF r [OF s]] v by (auto simp: bit_simps)
    qed
    have "small z'" unfolding small_def
    proof (intro allI impI conjI ballI)
      fix i assume i: "i < length (sets z')"
      then show "remaining (sets z' ! i) = None" using r s S(2) by (auto simp: nth_append nth_list_update less_Suc_eq)
      fix ss' t assume t: "successors (sets z' ! i) = Some ss'" "t \<in> set ss'"
      have t': "i < ?n \<and> (t < ?n \<and> (\<exists>v. elements z t = insert v (elements z i)) \<or> i = s \<and> t = ?n)"
        using i t S(2) succ [of t] z s by (auto simp: nth_append nth_list_update less_Suc_eq small_def split: if_splits)
      then show "t < length (sets z')" using S(2) by auto
      show "\<exists>v. elements z' t = insert v (elements z' i)" using t' old new s by metis
    qed
    then show ?thesis using S old new by (simp add: grows_def)
  qed
qed

section \<open>Large sets\<close>

text \<open>
  A set that has a value of 32 or more changes when it is extended with another such value: the extended set shares the list of
  those values, so the value is in both of them.
\<close>

theorem Extend_changes_large_set:
  "\<exists>z a z' b. OutSet_Extend 0 40 \<lparr>sets = [\<lparr>first = 0, remaining = None, successors = None\<rparr>], lists = []\<rparr> = (z, a) \<and>
     OutSet_Extend a 41 z = (z', b) \<and> \<not> OutSet_Get z a 41 \<and> OutSet_Get z' a 41"
  by (simp add: OutSet_Extend_def OutSet_Get_def OutSet_Set_def kFirstLimit_def Let_def)

end
