(* ===== verification/V8_Splay_Tree.thy ===== *)
theory V8_Splay_Tree
  imports Dictionary "HOL-Library.Multiset"
begin

text \<open>
  The splay trees of \<^verbatim>\<open>src/splay-tree-inl.h\<close> and \<^verbatim>\<open>src/splay-tree.h\<close>, with top-down splaying.  A tree is a
  value; the left and the right tree that the loop of \<open>Splay\<close> builds below its dummy node are the
  lists of the nodes on their spines, the last one first, because the code only ever extends
  them at that end.  Keys are linearly ordered; \<open>Config_Compare\<close> is the comparison of the configuration.
\<close>

section \<open>The program\<close>

datatype ('k, 'v) node = Null | Node "('k, 'v) node" 'k 'v "('k, 'v) node"

type_synonym ('k, 'v) spine = "(('k, 'v) node \<times> 'k \<times> 'v) list"

definition Config_Compare :: "'k :: linorder \<Rightarrow> 'k \<Rightarrow> int" where
  "Config_Compare a b = (if a < b then -1 else if a = b then 0 else 1)"

definition left_tree :: "('k, 'v) spine \<Rightarrow> ('k, 'v) node \<Rightarrow> ('k, 'v) node" where
  "left_tree L t = foldl (\<lambda>t (l, k, v). Node l k v t) t L"

definition right_tree :: "('k, 'v) spine \<Rightarrow> ('k, 'v) node \<Rightarrow> ('k, 'v) node" where
  "right_tree R t = foldl (\<lambda>t (r, k, v). Node t k v r) t R"

fun assemble :: "('k, 'v) node \<Rightarrow> ('k, 'v) spine \<Rightarrow> ('k, 'v) spine \<Rightarrow> ('k, 'v) node" where
  "assemble Null L R = Null"
| "assemble (Node l k v r) L R = Node (left_tree L l) k v (right_tree R r)"

function splay_loop :: "'k :: linorder \<Rightarrow> ('k, 'v) node \<Rightarrow> ('k, 'v) spine \<Rightarrow> ('k, 'v) spine \<Rightarrow> ('k, 'v) node" where
  "splay_loop key Null L R = Null"
| "splay_loop key (Node l k v r) L R =
     (let cmp = Config_Compare key k in
      if cmp < 0 then
        (case l of
           Null \<Rightarrow> assemble (Node l k v r) L R
         | Node ll lk lv lr \<Rightarrow>
             if Config_Compare key lk < 0 then
               (case ll of
                  Null \<Rightarrow> assemble (Node ll lk lv (Node lr k v r)) L R
                | Node _ _ _ _ \<Rightarrow> splay_loop key ll L ((Node lr k v r, lk, lv) # R))
             else splay_loop key l L ((r, k, v) # R))
      else if cmp > 0 then
        (case r of
           Null \<Rightarrow> assemble (Node l k v r) L R
         | Node rl rk rv rr \<Rightarrow>
             if Config_Compare key rk > 0 then
               (case rr of
                  Null \<Rightarrow> assemble (Node (Node l k v rl) rk rv rr) L R
                | Node _ _ _ _ \<Rightarrow> splay_loop key rr ((Node l k v rl, rk, rv) # L) R)
             else splay_loop key r ((l, k, v) # L) R)
      else assemble (Node l k v r) L R)"
  by pat_completeness auto
termination by (relation "measure (\<lambda>(key, t, L, R). size t)") auto

definition Splay :: "'k :: linorder \<Rightarrow> ('k, 'v) node \<Rightarrow> ('k, 'v) node" where
  "Splay key root = splay_loop key root [] []"

fun InsertInternal :: "int \<Rightarrow> 'k \<Rightarrow> 'v \<Rightarrow> ('k, 'v) node \<Rightarrow> ('k, 'v) node" where
  "InsertInternal cmp key val Null = Null"
| "InsertInternal cmp key val (Node l k v r) =
     (if cmp > 0 then Node (Node l k v Null) key val r else Node l key val (Node Null k v r))"

text \<open>The locator is bound to the root in each case, so that its value can be set there.\<close>

definition Insert :: "'v \<Rightarrow> 'k :: linorder \<Rightarrow> ('k, 'v) node \<Rightarrow> ('k, 'v) node \<times> bool" where
  "Insert kNoValue key root =
     (case root of
        Null \<Rightarrow> (Node Null key kNoValue Null, True)
      | Node _ _ _ _ \<Rightarrow>
          (case Splay key root of
             Null \<Rightarrow> (Null, True)
           | Node l k v r \<Rightarrow>
               (let cmp = Config_Compare key k in
                if cmp = 0 then (Node l k v r, False)
                else (InsertInternal cmp key kNoValue (Node l k v r), True))))"

fun root_set_value :: "'v \<Rightarrow> ('k, 'v) node \<Rightarrow> ('k, 'v) node" where
  "root_set_value w Null = Null"
| "root_set_value w (Node l k v r) = Node l k w r"

definition FindInternal :: "'k :: linorder \<Rightarrow> ('k, 'v) node \<Rightarrow> ('k, 'v) node \<times> bool" where
  "FindInternal key root =
     (case Splay key root of
        Null \<Rightarrow> (Null, False)
      | Node l k v r \<Rightarrow> (Node l k v r, Config_Compare key k = 0))"

definition Find :: "'k :: linorder \<Rightarrow> ('k, 'v) node \<Rightarrow> ('k, 'v) node \<times> ('k \<times> 'v) option" where
  "Find key root =
     (case FindInternal key root of
        (Node l k v r, True) \<Rightarrow> (Node l k v r, Some (k, v))
      | (root, _) \<Rightarrow> (root, None))"

fun FindGreatest :: "('k, 'v) node \<Rightarrow> ('k \<times> 'v) option" where
  "FindGreatest Null = None"
| "FindGreatest (Node l k v Null) = Some (k, v)"
| "FindGreatest (Node l k v (Node rl rk rv rr)) = FindGreatest (Node rl rk rv rr)"

fun FindLeast :: "('k, 'v) node \<Rightarrow> ('k \<times> 'v) option" where
  "FindLeast Null = None"
| "FindLeast (Node Null k v r) = Some (k, v)"
| "FindLeast (Node (Node ll lk lv lr) k v r) = FindLeast (Node ll lk lv lr)"

definition FindGreatestLessThan :: "'k :: linorder \<Rightarrow> ('k, 'v) node \<Rightarrow> ('k, 'v) node \<times> ('k \<times> 'v) option" where
  "FindGreatestLessThan key root =
     (case Splay key root of
        Null \<Rightarrow> (Null, None)
      | Node l k v r \<Rightarrow> (Node l k v r, if Config_Compare k key \<le> 0 then Some (k, v) else FindGreatest l))"

definition FindLeastGreaterThan :: "'k :: linorder \<Rightarrow> ('k, 'v) node \<Rightarrow> ('k, 'v) node \<times> ('k \<times> 'v) option" where
  "FindLeastGreaterThan key root =
     (case Splay key root of
        Null \<Rightarrow> (Null, None)
      | Node l k v r \<Rightarrow> (Node l k v r, if Config_Compare k key \<ge> 0 then Some (k, v) else FindLeast r))"

text \<open>The root exists where \<open>RemoveRootNode\<close> is called; a missing one is a null pointer, \<open>None\<close>.\<close>

definition RemoveRootNode :: "'k :: linorder \<Rightarrow> ('k, 'v) node \<Rightarrow> ('k, 'v) node option" where
  "RemoveRootNode key root =
     (case root of
        Null \<Rightarrow> None
      | Node Null _ _ r \<Rightarrow> Some r
      | Node l _ _ r \<Rightarrow>
          (case Splay key l of Null \<Rightarrow> None | Node ll lk lv _ \<Rightarrow> Some (Node ll lk lv r)))"

definition SplayTree_Remove :: "'k :: linorder \<Rightarrow> ('k, 'v) node \<Rightarrow> (('k, 'v) node \<times> bool) option" where
  "SplayTree_Remove key root =
     (case FindInternal key root of
        (root, False) \<Rightarrow> Some (root, False)
      | (root, True) \<Rightarrow> map_option (\<lambda>root. (root, True)) (RemoveRootNode key root))"

definition Move :: "'k :: linorder \<Rightarrow> 'k \<Rightarrow> ('k, 'v) node \<Rightarrow> (('k, 'v) node \<times> bool) option" where
  "Move old_key new_key root =
     (case FindInternal old_key root of
        (root, False) \<Rightarrow> Some (root, False)
      | (Null, True) \<Rightarrow> None
      | (Node l k v r, True) \<Rightarrow>
          (case RemoveRootNode old_key (Node l k v r) of
             None \<Rightarrow> None
           | Some root \<Rightarrow>
               (case Splay new_key root of
                  Null \<Rightarrow> None
                | Node l' k' v' r' \<Rightarrow>
                    (let cmp = Config_Compare new_key k' in
                     if cmp = 0 then Some (Node l' k' v' r', False)
                     else Some (InsertInternal cmp new_key v (Node l' k' v' r'), True)))))"

text \<open>\<open>ForEachNode\<close>: the part of the list \<open>nodes_to_visit\<close> from \<open>pos\<close> on is the argument.\<close>

definition child :: "('k, 'v) node \<Rightarrow> ('k, 'v) node list" where
  "child t = (case t of Null \<Rightarrow> [] | Node _ _ _ _ \<Rightarrow> [t])"

function for_each_loop :: "('k, 'v) node list \<Rightarrow> ('k \<times> 'v) list" where
  "for_each_loop [] = []"
| "for_each_loop (Null # ts) = for_each_loop ts"
| "for_each_loop (Node l k v r # ts) = (k, v) # for_each_loop (ts @ child l @ child r)"
  by pat_completeness auto
termination
  by (relation "measure (\<lambda>ts. sum_list (map (\<lambda>t. Suc (2 * size t)) ts))") (auto simp: child_def split: node.splits)

definition ForEach :: "('k, 'v) node \<Rightarrow> ('k \<times> 'v) list" where
  "ForEach root = for_each_loop (child root)"


section \<open>Order and contents\<close>

fun inorder :: "('k, 'v) node \<Rightarrow> ('k \<times> 'v) list" where
  "inorder Null = []"
| "inorder (Node l k v r) = inorder l @ (k, v) # inorder r"

definition keys :: "('k, 'v) node \<Rightarrow> 'k list" where
  "keys t = map fst (inorder t)"

lemma tree_keys [simp]: "keys Null = []" "keys (Node l k v r) = keys l @ k # keys r"
  by (simp_all add: keys_def)

definition search_tree :: "('k :: linorder, 'v) node \<Rightarrow> bool" where
  "search_tree t = sorted_wrt (<) (keys t)"

definition tree_map :: "('k, 'v) node \<Rightarrow> ('k \<rightharpoonup> 'v)" where
  "tree_map t = map_of (inorder t)"

lemma search_tree_Null [simp]: "search_tree Null"
  by (simp add: search_tree_def)

lemma search_tree_Node:
  "search_tree (Node l k v r) \<longleftrightarrow>
   search_tree l \<and> search_tree r \<and> (\<forall>x\<in>set (keys l). x < k) \<and> (\<forall>x\<in>set (keys r). k < x)"
  by (force simp: search_tree_def sorted_wrt_append)

lemma Config_Compare_iff [simp]:
  "Config_Compare a b < 0 \<longleftrightarrow> a < b" "0 < Config_Compare a b \<longleftrightarrow> b < a" "Config_Compare a b = 0 \<longleftrightarrow> a = b"
  "Config_Compare a b \<le> 0 \<longleftrightarrow> a \<le> b" "0 \<le> Config_Compare a b \<longleftrightarrow> b \<le> a"
  by (auto simp: Config_Compare_def)

definition keys_below :: "'k :: linorder \<Rightarrow> ('k, 'v) node \<Rightarrow> bool" where
  "keys_below key t = (\<forall>x\<in>set (keys t). x < key)"

definition keys_above :: "'k :: linorder \<Rightarrow> ('k, 'v) node \<Rightarrow> bool" where
  "keys_above key t = (\<forall>x\<in>set (keys t). key < x)"

lemma below_simps [simp]: "keys_below key Null" "keys_below key (Node l k v r) \<longleftrightarrow> keys_below key l \<and> k < key \<and> keys_below key r"
  and above_simps [simp]: "keys_above key Null" "keys_above key (Node l k v r) \<longleftrightarrow> keys_above key l \<and> key < k \<and> keys_above key r"
  by (auto simp: keys_below_def keys_above_def)

lemma below_trans: "keys_below k t \<Longrightarrow> k < key \<Longrightarrow> keys_below key t" and above_trans: "keys_above k t \<Longrightarrow> key < k \<Longrightarrow> keys_above key t"
  by (force simp: keys_below_def keys_above_def)+

lemma search_tree_iff [simp]:
  "search_tree (Node l k v r) \<longleftrightarrow> search_tree l \<and> search_tree r \<and> keys_below k l \<and> keys_above k r"
  by (auto simp: search_tree_Node keys_below_def keys_above_def)

lemma left_tree_simps [simp]: "left_tree [] t = t" "left_tree ((l, k, v) # L) t = left_tree L (Node l k v t)"
  and right_tree_simps [simp]: "right_tree [] t = t" "right_tree ((r, k, v) # R) t = right_tree R (Node t k v r)"
  by (simp_all add: left_tree_def right_tree_def)

text \<open>The nodes on a spine, in order.\<close>

fun left_order :: "('k, 'v) spine \<Rightarrow> ('k \<times> 'v) list" where
  "left_order [] = []"
| "left_order ((l, k, v) # L) = left_order L @ inorder l @ [(k, v)]"

fun right_order :: "('k, 'v) spine \<Rightarrow> ('k \<times> 'v) list" where
  "right_order [] = []"
| "right_order ((r, k, v) # R) = (k, v) # inorder r @ right_order R"

lemma inorder_left_tree [simp]: "inorder (left_tree L t) = left_order L @ inorder t"
  by (induction L arbitrary: t) auto

lemma inorder_right_tree [simp]: "inorder (right_tree R t) = inorder t @ right_order R"
  by (induction R arbitrary: t) auto

section \<open>Splaying\<close>

lemma inorder_assemble:
  "t \<noteq> Null \<Longrightarrow> inorder (assemble t L R) = left_order L @ inorder t @ right_order R"
  by (cases t) auto

declare splay_loop.simps(2) [simp del]

lemma inorder_splay_loop:
  "t \<noteq> Null \<Longrightarrow> inorder (splay_loop key t L R) = left_order L @ inorder t @ right_order R"
proof (induction key t L R rule: splay_loop.induct)
  case (2 key l k v r L R)
  then show ?case by (subst splay_loop.simps) (auto simp: Let_def split: node.split)
qed simp

text \<open>
  The nodes on the left spine have keys below the one sought, those on the right spine keys
  above it; so the root of the result separates the smaller keys from the greater ones.
\<close>

fun divided :: "'k :: linorder \<Rightarrow> ('k, 'v) node \<Rightarrow> bool" where
  "divided key Null = False"
| "divided key (Node l k v r) = (keys_below key l \<and> keys_above key r)"

definition left_spine :: "'k :: linorder \<Rightarrow> ('k, 'v) spine \<Rightarrow> bool" where
  "left_spine key L = (\<forall>(l, k, v)\<in>set L. keys_below key l \<and> k < key)"

definition right_spine :: "'k :: linorder \<Rightarrow> ('k, 'v) spine \<Rightarrow> bool" where
  "right_spine key R = (\<forall>(r, k, v)\<in>set R. keys_above key r \<and> key < k)"

lemma spine_simps [simp]:
  "left_spine key []" "left_spine key ((l, k, v) # L) \<longleftrightarrow> keys_below key l \<and> k < key \<and> left_spine key L"
  "right_spine key []" "right_spine key ((r, k, v) # R) \<longleftrightarrow> keys_above key r \<and> key < k \<and> right_spine key R"
  by (auto simp: left_spine_def right_spine_def)

lemma below_left_tree [simp]: "left_spine key L \<Longrightarrow> keys_below key (left_tree L t) = keys_below key t"
  by (induction L arbitrary: t) auto

lemma above_right_tree [simp]: "right_spine key R \<Longrightarrow> keys_above key (right_tree R t) = keys_above key t"
  by (induction R arbitrary: t) auto

lemma divided_turn_left:
  assumes "key < k" and "search_tree (Node l k v r)" and "left_spine key L" "right_spine key R"
    and zig_zig: "\<And>ll lk lv lr. l = Node ll lk lv lr \<Longrightarrow> key < lk \<Longrightarrow> ll \<noteq> Null \<Longrightarrow> keys_above key lr \<Longrightarrow> keys_above key r \<Longrightarrow>
      divided key (splay_loop key ll L ((Node lr k v r, lk, lv) # R))"
    and zig: "\<And>ll lk lv lr. l = Node ll lk lv lr \<Longrightarrow> \<not> key < lk \<Longrightarrow> keys_above key r \<Longrightarrow> divided key (splay_loop key l L ((r, k, v) # R))"
  shows "divided key (splay_loop key (Node l k v r) L R)"
proof -
  have r: "keys_above key r" using assms above_trans by auto
  show ?thesis
  proof (cases l)
    case l: (Node ll lk lv lr)
    have lr: "keys_above key lr" if "key < lk" using assms(2) l above_trans that by auto
    show ?thesis using assms(1-4) r lr zig_zig [OF l] zig [OF l] l
      by (subst splay_loop.simps) (auto split: node.split)
  qed (use assms(1-4) r in \<open>simp add: splay_loop.simps\<close>)
qed

lemma divided_turn_right:
  assumes "k < key" and "search_tree (Node l k v r)" and "left_spine key L" "right_spine key R"
    and zig_zig: "\<And>rl rk rv rr. r = Node rl rk rv rr \<Longrightarrow> rk < key \<Longrightarrow> rr \<noteq> Null \<Longrightarrow> keys_below key rl \<Longrightarrow> keys_below key l \<Longrightarrow>
      divided key (splay_loop key rr ((Node l k v rl, rk, rv) # L) R)"
    and zig: "\<And>rl rk rv rr. r = Node rl rk rv rr \<Longrightarrow> \<not> rk < key \<Longrightarrow> keys_below key l \<Longrightarrow> divided key (splay_loop key r ((l, k, v) # L) R)"
  shows "divided key (splay_loop key (Node l k v r) L R)"
proof -
  have l: "keys_below key l" using assms below_trans by auto
  show ?thesis
  proof (cases r)
    case r: (Node rl rk rv rr)
    have rl: "keys_below key rl" if "rk < key" using assms(2) r below_trans that by auto
    show ?thesis using assms(1-4) l rl zig_zig [OF r] zig [OF r] r
      by (subst splay_loop.simps) (auto split: node.split)
  qed (use assms(1-4) l in \<open>auto simp: splay_loop.simps\<close>)
qed

lemma divided_splay_loop:
  "t \<noteq> Null \<Longrightarrow> search_tree t \<Longrightarrow> left_spine key L \<Longrightarrow> right_spine key R \<Longrightarrow> divided key (splay_loop key t L R)"
proof (induction key t L R rule: splay_loop.induct)
  case (2 key l k v r L R)
  show ?case
  proof (cases key k rule: linorder_cases)
    case less
    show ?thesis
    proof (rule divided_turn_left [OF less "2.prems"(2-4)])
      fix ll lk lv lr
      assume *: "l = Node ll lk lv lr" "key < lk" "ll \<noteq> Null" "keys_above key lr" "keys_above key r"
      then obtain a b c d where "ll = Node a b c d" by (cases ll) auto
      then show "divided key (splay_loop key ll L ((Node lr k v r, lk, lv) # R))"
        using "2.IH"(1) [OF refl _ *(1)] less * "2.prems" by simp
    next
      fix ll lk lv lr
      assume *: "l = Node ll lk lv lr" "\<not> key < lk" "keys_above key r"
      then show "divided key (splay_loop key l L ((r, k, v) # R))"
        using "2.IH"(2) [OF refl _ *(1)] less "2.prems" by simp
    qed
  next
    case equal
    then show ?thesis using "2.prems" by (simp add: splay_loop.simps)
  next
    case greater
    show ?thesis
    proof (rule divided_turn_right [OF greater "2.prems"(2-4)])
      fix rl rk rv rr
      assume *: "r = Node rl rk rv rr" "rk < key" "rr \<noteq> Null" "keys_below key rl" "keys_below key l"
      then obtain a b c d where "rr = Node a b c d" by (cases rr) auto
      then show "divided key (splay_loop key rr ((Node l k v rl, rk, rv) # L) R)"
        using "2.IH"(3) [OF refl _ _ *(1)] greater * "2.prems" by simp
    next
      fix rl rk rv rr
      assume *: "r = Node rl rk rv rr" "\<not> rk < key" "keys_below key l"
      then show "divided key (splay_loop key r ((l, k, v) # L) R)"
        using "2.IH"(4) [OF refl _ _ *(1)] greater "2.prems" by simp
    qed
  qed
qed simp

lemma Splay_ok:
  assumes "search_tree t" and "t \<noteq> Null"
  obtains l k v r where "Splay key t = Node l k v r" "inorder (Node l k v r) = inorder t"
    "search_tree (Node l k v r)" "keys_below key l" "keys_above key r"
proof -
  have "divided key (Splay key t)" and *: "inorder (Splay key t) = inorder t"
    using assms by (simp_all add: Splay_def divided_splay_loop inorder_splay_loop)
  then obtain l k v r where 1: "Splay key t = Node l k v r" "keys_below key l" "keys_above key r"
    by (cases "Splay key t") auto
  moreover have "keys (Node l k v r) = keys t" using 1 * by (simp add: keys_def)
  ultimately show ?thesis using that [OF 1(1)] * assms(1) by (metis search_tree_def)
qed

section \<open>The operations as operations on maps\<close>

lemma tree_map_Null [simp]: "tree_map Null = Map.empty"
  by (simp add: tree_map_def)

lemma tree_map_cong: "inorder s = inorder t \<Longrightarrow> tree_map s = tree_map t"
  by (simp add: tree_map_def)

lemma search_tree_cong: "inorder s = inorder t \<Longrightarrow> search_tree s = search_tree t"
  by (simp add: search_tree_def keys_def)

lemma dom_tree_map: "dom (tree_map t) = set (keys t)"
  by (simp add: tree_map_def keys_def dom_map_of_conv_image_fst)

lemma tree_map_below: "keys_below k t \<Longrightarrow> k \<le> x \<Longrightarrow> tree_map t x = None"
  by (metis domI dom_tree_map keys_below_def leD not_None_eq)

lemma tree_map_above: "keys_above k t \<Longrightarrow> x \<le> k \<Longrightarrow> tree_map t x = None"
  by (metis domI dom_tree_map keys_above_def leD not_None_eq)

lemma tree_map_Node:
  "search_tree (Node l k v r) \<Longrightarrow>
   tree_map (Node l k v r) x = (if x < k then tree_map l x else if x = k then Some v else tree_map r x)"
  using tree_map_below [of k l x] tree_map_above [of k r x]
  by (auto simp: tree_map_def map_add_def split: option.split)

lemma keys_below_weaken: "keys_below key l \<Longrightarrow> key \<le> k \<Longrightarrow> keys_below k l"
  and keys_above_weaken: "keys_above key l \<Longrightarrow> k \<le> key \<Longrightarrow> keys_above k l"
  by (force simp: keys_below_def keys_above_def)+

lemma InsertInternal_ok:
  assumes "search_tree (Node l k v r)" and "keys_below key l" "keys_above key r" and "key \<noteq> k"
  shows "search_tree (InsertInternal (Config_Compare key k) key val (Node l k v r))"
    and "tree_map (InsertInternal (Config_Compare key k) key val (Node l k v r)) = (tree_map (Node l k v r))(key \<mapsto> val)"
    and "\<exists>l' r'. InsertInternal (Config_Compare key k) key val (Node l k v r) = Node l' key val r'"
proof -
  show 1: "search_tree (InsertInternal (Config_Compare key k) key val (Node l k v r))"
    using assms by auto
  show "tree_map (InsertInternal (Config_Compare key k) key val (Node l k v r)) = (tree_map (Node l k v r))(key \<mapsto> val)"
  proof
    fix x
    show "tree_map (InsertInternal (Config_Compare key k) key val (Node l k v r)) x = ((tree_map (Node l k v r))(key \<mapsto> val)) x"
      using 1 assms tree_map_below [of key l x] tree_map_above [of key r x]
      by (auto simp: tree_map_Node)
  qed
qed simp

lemma Insert_ok:
  assumes "search_tree t"
  obtains t' where "Insert w key t = (t', tree_map t key = None)" "search_tree t'"
    "tree_map t' = (tree_map t)(key \<mapsto> case tree_map t key of None \<Rightarrow> w | Some v \<Rightarrow> v)"
    "\<exists>l v r. t' = Node l key v r"
proof (cases "t = Null")
  case True
  then show ?thesis using that [of "Node Null key w Null"] by (simp add: Insert_def tree_map_def)
next
  case False
  then obtain l k v r where 1: "Splay key t = Node l k v r" "inorder (Node l k v r) = inorder t"
      "search_tree (Node l k v r)" "keys_below key l" "keys_above key r"
    using Splay_ok [OF assms] by metis
  have m: "tree_map t = tree_map (Node l k v r)" using 1(2) by (metis tree_map_cong)
  obtain a b c d where t: "t = Node a b c d" using False by (cases t) auto
  show ?thesis
  proof (cases "key = k")
    case True
    then have "tree_map t key = Some v" using 1(3) by (simp add: m tree_map_Node)
    then show ?thesis using 1 True that [of "Node l k v r"] m t by (auto simp: Insert_def map_upd_triv)
  next
    case False
    have "tree_map t key = None"
      using 1(3-5) False tree_map_below [of key l key] tree_map_above [of key r key] by (simp add: m tree_map_Node)
    then show ?thesis
      using that [of "InsertInternal (Config_Compare key k) key w (Node l k v r)"] InsertInternal_ok [OF 1(3-5) False] 1(1) m t False
      by (simp add: Insert_def Let_def)
  qed
qed

lemma FindInternal_ok:
  assumes "search_tree t"
  obtains t' where "FindInternal key t = (t', tree_map t key \<noteq> None)" "inorder t' = inorder t" "search_tree t'"
    "\<And>v. tree_map t key = Some v \<Longrightarrow> \<exists>l r. t' = Node l key v r"
proof (cases "t = Null")
  case True
  then show ?thesis using that [of Null] by (simp add: FindInternal_def Splay_def)
next
  case False
  then obtain l k v r where 1: "Splay key t = Node l k v r" "inorder (Node l k v r) = inorder t"
      "search_tree (Node l k v r)" "keys_below key l" "keys_above key r"
    using Splay_ok [OF assms] by metis
  have m: "tree_map t = tree_map (Node l k v r)" using 1(2) by (metis tree_map_cong)
  have "tree_map t key = (if key = k then Some v else None)"
    using 1(3-5) tree_map_below [of key l key] tree_map_above [of key r key] by (simp add: m tree_map_Node)
  then show ?thesis using 1 that [of "Node l k v r"] by (auto simp: FindInternal_def split: if_splits)
qed

lemma Find_ok:
  assumes "search_tree t"
  obtains t' where "Find key t = (t', map_option (Pair key) (tree_map t key))" "inorder t' = inorder t" "search_tree t'"
proof -
  obtain t' where 1: "FindInternal key t = (t', tree_map t key \<noteq> None)" "inorder t' = inorder t" "search_tree t'"
      "\<And>v. tree_map t key = Some v \<Longrightarrow> \<exists>l r. t' = Node l key v r"
    using FindInternal_ok [OF assms] by blast
  show ?thesis
  proof (cases "tree_map t key")
    case None
    then show ?thesis using 1 that [of t'] by (simp add: Find_def split: node.split)
  next
    case (Some v)
    then obtain l r where "t' = Node l key v r" using 1(4) by blast
    then show ?thesis using 1 Some that [of t'] by (simp add: Find_def)
  qed
qed

lemma RemoveRootNode_ok:
  assumes "search_tree (Node l k v r)"
  obtains t' where "RemoveRootNode k (Node l k v r) = Some t'" "inorder t' = inorder l @ inorder r" "search_tree t'"
    "tree_map t' = (tree_map (Node l k v r))(k := None)"
proof -
  obtain t' where 1: "RemoveRootNode k (Node l k v r) = Some t'" "inorder t' = inorder l @ inorder r"
  proof (cases "l = Null")
    case True
    then show ?thesis using that [of r] by (simp add: RemoveRootNode_def)
  next
    case False
    then obtain ll lk lv lr where 2: "Splay k l = Node ll lk lv lr" "inorder (Node ll lk lv lr) = inorder l" "keys_above k lr"
      using Splay_ok [of l k] assms by auto metis
    have "lr = Null"
    proof (cases lr)
      case (Node a b c d)
      then have "b \<in> set (keys l)" using 2(2) by (auto simp: keys_def intro: rev_image_eqI simp flip: 2(2))
      then show ?thesis using assms 2(3) Node by (auto simp: keys_below_def)
    qed simp
    then show ?thesis using 2 False that [of "Node ll lk lv r"] by (cases l) (auto simp: RemoveRootNode_def)
  qed
  have 2: "search_tree t'" using 1(2) assms by (auto simp: search_tree_def keys_def sorted_wrt_append keys_below_def keys_above_def intro: less_trans)
  have "tree_map t' = (tree_map (Node l k v r))(k := None)"
    using assms tree_map_below [of k l k] tree_map_above [of k r k] 1(2)
    by (auto simp: tree_map_def map_add_def fun_eq_iff split: option.split)
  then show ?thesis using that 1 2 by blast
qed

lemma SplayTree_Remove_ok:
  assumes "search_tree t"
  obtains t' where "SplayTree_Remove key t = Some (t', tree_map t key \<noteq> None)" "search_tree t'"
    "tree_map t' = (tree_map t)(key := None)"
proof -
  obtain t' where 1: "FindInternal key t = (t', tree_map t key \<noteq> None)" "inorder t' = inorder t" "search_tree t'"
      "\<And>v. tree_map t key = Some v \<Longrightarrow> \<exists>l r. t' = Node l key v r"
    using FindInternal_ok [OF assms] by blast
  have m: "tree_map t = tree_map t'" using 1(2) by (simp add: tree_map_def)
  show ?thesis
  proof (cases "tree_map t key")
    case None
    have "SplayTree_Remove key t = Some (t', tree_map t key \<noteq> None)" using 1(1) None by (simp add: SplayTree_Remove_def)
    moreover have "tree_map t' = (tree_map t)(key := None)" using None m fun_upd_idem by metis
    ultimately show ?thesis using 1(3) that by blast
  next
    case (Some v)
    then obtain l r where t': "t' = Node l key v r" using 1(4) by blast
    obtain t2 where "RemoveRootNode key t' = Some t2" "search_tree t2" "tree_map t2 = (tree_map t')(key := None)"
      using RemoveRootNode_ok [of l key v r] 1(3) t' by blast
    then show ?thesis using 1(1) Some m that [of t2] by (simp add: SplayTree_Remove_def)
  qed
qed

lemma root_set_value_ok:
  assumes "search_tree (Node l k v r)"
  shows "search_tree (root_set_value w (Node l k v r))"
    and "tree_map (root_set_value w (Node l k v r)) = (tree_map (Node l k v r))(k \<mapsto> w)"
  using assms by (auto simp: tree_map_Node fun_eq_iff)

section \<open>Splay trees are dictionaries\<close>

text \<open>The operations as the users of a tree call them: the value is read and set through the locator.\<close>

fun root_value :: "('k, 'v) node \<Rightarrow> 'v option" where
  "root_value Null = None"
| "root_value (Node l k v r) = Some v"

fun tree_step :: "'v \<Rightarrow> ('k :: linorder, 'v) request \<Rightarrow> ('k, 'v) node \<Rightarrow> (('k, 'v) node \<times> 'v option) option" where
  "tree_step w (Get k) t = (let (t, found) = Find k t in Some (t, map_option snd found))"
| "tree_step w (Put k v) t =
     (let (t, new) = Insert w k t in Some (root_set_value v t, if new then None else root_value t))"
| "tree_step w (Delete k) t = map_option (\<lambda>(t, _). (t, None)) (SplayTree_Remove k t)"

lemma tree_step_ok:
  assumes "search_tree t"
  shows "\<exists>t' a. tree_step w r t = Some (t', a) \<and> search_tree t' \<and> (tree_map t', a) = spec_step r (tree_map t)"
proof (cases r)
  case (Get k)
  obtain t' where "Find k t = (t', map_option (Pair k) (tree_map t k))" "inorder t' = inorder t" "search_tree t'"
    using Find_ok [OF assms] by blast
  then show ?thesis using Get by (simp add: tree_map_def option.map_comp comp_def option.map_ident)
next
  case (Put k v)
  obtain t' where 1: "Insert w k t = (t', tree_map t k = None)" "search_tree t'"
      "tree_map t' = (tree_map t)(k \<mapsto> case tree_map t k of None \<Rightarrow> w | Some v \<Rightarrow> v)" "\<exists>l v r. t' = Node l k v r"
    using Insert_ok [OF assms] by blast
  then obtain l x r where t': "t' = Node l k x r" by blast
  have "x = (case tree_map t k of None \<Rightarrow> w | Some v \<Rightarrow> v)"
    using 1(3) tree_map_Node [of l k x r k] 1(2) t' by simp
  then show ?thesis using Put 1 t' root_set_value_ok [of l k x r v] by (auto split: option.split)
next
  case (Delete k)
  obtain t' where "SplayTree_Remove k t = Some (t', tree_map t k \<noteq> None)" "search_tree t'"
      "tree_map t' = (tree_map t)(k := None)"
    using SplayTree_Remove_ok [OF assms] by blast
  then show ?thesis using Delete by simp
qed

interpretation tree: dictionary "tree_step w" id Null search_tree tree_map "\<lambda>t n. True"
  by unfold_locales (simp_all add: tree_step_ok)

section \<open>Neighbours\<close>

lemma FindGreatest_last: "FindGreatest t = (if t = Null then None else Some (last (inorder t)))"
  by (induction t rule: FindGreatest.induct) auto

lemma FindLeast_hd: "FindLeast t = (if t = Null then None else Some (hd (inorder t)))"
  by (induction t rule: FindLeast.induct) (auto simp: hd_append)

lemma inorder_Nil_iff [simp]: "inorder t = [] \<longleftrightarrow> t = Null"
  by (cases t) auto

lemma search_tree_distinct: "search_tree t \<Longrightarrow> distinct (keys t)"
  by (simp add: search_tree_def strict_sorted_iff)

lemma tree_map_in: "search_tree t \<Longrightarrow> (k, v) \<in> set (inorder t) \<Longrightarrow> tree_map t k = Some v"
  using search_tree_distinct [of t] by (simp add: tree_map_def keys_def)

lemma FindGreatest_ok:
  assumes "search_tree t" and "t \<noteq> Null"
  obtains k v where "FindGreatest t = Some (k, v)" "tree_map t k = Some v" "\<forall>x\<in>set (keys t). x \<le> k"
proof -
  obtain k v where l: "last (inorder t) = (k, v)" by fastforce
  have i: "inorder t = butlast (inorder t) @ [(k, v)]" using assms(2) append_butlast_last_id [of "inorder t"] l by simp
  then have "tree_map t k = Some v" using tree_map_in [OF assms(1)] by (metis in_set_conv_decomp)
  moreover have "keys t = map fst (butlast (inorder t)) @ [k]" unfolding keys_def by (subst i) simp
  then have "\<forall>x\<in>set (keys t). x \<le> k" using assms(1) by (auto simp: search_tree_def sorted_wrt_append)
  ultimately show ?thesis using that assms(2) l by (simp add: FindGreatest_last)
qed

lemma FindLeast_ok:
  assumes "search_tree t" and "t \<noteq> Null"
  obtains k v where "FindLeast t = Some (k, v)" "tree_map t k = Some v" "\<forall>x\<in>set (keys t). k \<le> x"
proof -
  obtain k v xs where i: "inorder t = (k, v) # xs" using assms(2) by (cases "inorder t") auto
  then have "tree_map t k = Some v" by (simp add: tree_map_def)
  moreover have "\<forall>x\<in>set (keys t). k \<le> x" using assms(1) i by (auto simp: search_tree_def keys_def)
  ultimately show ?thesis using that assms(2) i by (simp add: FindLeast_hd)
qed

lemma FindGreatestLessThan_ok:
  assumes "search_tree t"
  obtains t' e where "FindGreatestLessThan key t = (t', e)" "inorder t' = inorder t" "greatest_entry (tree_map t) key e"
proof (cases "t = Null")
  case True
  then show ?thesis using that [of Null None] by (simp add: FindGreatestLessThan_def Splay_def greatest_entry_def)
next
  case False
  then obtain l k v r where 1: "Splay key t = Node l k v r" "inorder (Node l k v r) = inorder t"
      "search_tree (Node l k v r)" "keys_below key l" "keys_above key r"
    using Splay_ok [OF assms] by metis
  have m: "tree_map t = tree_map (Node l k v r)" using 1(2) by (metis tree_map_cong)
  have d: "dom (tree_map (Node l k v r)) = set (keys l) \<union> {k} \<union> set (keys r)" by (simp add: dom_tree_map)
  have r: "\<forall>x\<in>set (keys r). key < x \<and> k < x" and l: "\<forall>x\<in>set (keys l). x < key \<and> x < k"
    using 1(3-5) by (auto simp: keys_above_def keys_below_def)
  have F: "FindGreatestLessThan key t = (Node l k v r, if k \<le> key then Some (k, v) else FindGreatest l)"
    using 1(1) by (simp add: FindGreatestLessThan_def)
  have "greatest_entry (tree_map t) key (if k \<le> key then Some (k, v) else FindGreatest l)"
  proof (cases "k \<le> key \<or> l = Null")
    case True
    then show ?thesis using r l 1(3) unfolding greatest_entry_def m d by (auto simp: tree_map_Node) 
  next
    case False
    then obtain k' v' where g: "FindGreatest l = Some (k', v')" "tree_map l k' = Some v'" "\<forall>x\<in>set (keys l). x \<le> k'"
      using FindGreatest_ok [of l] 1(3) by auto
    then have "k' \<in> set (keys l)" using dom_tree_map [of l] by blast
    then have "tree_map (Node l k v r) k' = Some v'" "k' < key" using g(2) l tree_map_Node [OF 1(3)] by simp_all
    moreover have "x \<le> k'" if "x \<in> dom (tree_map (Node l k v r))" "x \<le> key" for x
      using that False g(3) r unfolding d by auto
    ultimately show ?thesis using False g(1) by (auto simp: greatest_entry_def m)
  qed
  then show ?thesis using that F 1(2) by simp
qed

lemma FindLeastGreaterThan_ok:
  assumes "search_tree t"
  obtains t' e where "FindLeastGreaterThan key t = (t', e)" "inorder t' = inorder t" "least_entry (tree_map t) key e"
proof (cases "t = Null")
  case True
  then show ?thesis using that [of Null None] by (simp add: FindLeastGreaterThan_def Splay_def least_entry_def)
next
  case False
  then obtain l k v r where 1: "Splay key t = Node l k v r" "inorder (Node l k v r) = inorder t"
      "search_tree (Node l k v r)" "keys_below key l" "keys_above key r"
    using Splay_ok [OF assms] by metis
  have m: "tree_map t = tree_map (Node l k v r)" using 1(2) by (metis tree_map_cong)
  have d: "dom (tree_map (Node l k v r)) = set (keys l) \<union> {k} \<union> set (keys r)" by (simp add: dom_tree_map)
  have r: "\<forall>x\<in>set (keys r). key < x \<and> k < x" and l: "\<forall>x\<in>set (keys l). x < key \<and> x < k"
    using 1(3-5) by (auto simp: keys_above_def keys_below_def)
  have F: "FindLeastGreaterThan key t = (Node l k v r, if key \<le> k then Some (k, v) else FindLeast r)"
    using 1(1) by (simp add: FindLeastGreaterThan_def)
  have "least_entry (tree_map t) key (if key \<le> k then Some (k, v) else FindLeast r)"
  proof (cases "key \<le> k \<or> r = Null")
    case True
    then show ?thesis using r l 1(3) unfolding least_entry_def m d by (auto simp: tree_map_Node)
  next
    case False
    then obtain k' v' where g: "FindLeast r = Some (k', v')" "tree_map r k' = Some v'" "\<forall>x\<in>set (keys r). k' \<le> x"
      using FindLeast_ok [of r] 1(3) by auto
    then have "k' \<in> set (keys r)" using dom_tree_map [of r] by blast
    then have "tree_map (Node l k v r) k' = Some v'" "key < k'" using g(2) r tree_map_Node [OF 1(3)] by auto
    moreover have "k' \<le> x" if "x \<in> dom (tree_map (Node l k v r))" "key \<le> x" for x
      using that False g(3) l unfolding d by auto
    ultimately show ?thesis using False g(1) by (auto simp: least_entry_def m)
  qed
  then show ?thesis using that F 1(2) by simp
qed

section \<open>Splay trees are ordered dictionaries\<close>

text \<open>
  Insertion followed by a write through the locator, and a write through a locator, a pointer to a node, whose key names it.
\<close>

definition put_value :: "'v \<Rightarrow> 'k :: linorder \<Rightarrow> 'v \<Rightarrow> ('k, 'v) node \<Rightarrow> ('k, 'v) node" where
  "put_value kNoValue key v root = root_set_value v (fst (Insert kNoValue key root))"

primrec update_value :: "'k \<Rightarrow> ('v \<Rightarrow> 'v) \<Rightarrow> ('k, 'v) node \<Rightarrow> ('k, 'v) node" where
  "update_value key f Null = Null"
| "update_value key f (Node l k v r) = Node (update_value key f l) k (if k = key then f v else v) (update_value key f r)"

lemma put_value_ok:
  assumes "search_tree t"
  shows "search_tree (put_value w key v t) \<and> tree_map (put_value w key v t) = (tree_map t)(key \<mapsto> v)"
proof -
  obtain t' where 1: "Insert w key t = (t', tree_map t key = None)" "search_tree t'"
      "tree_map t' = (tree_map t)(key \<mapsto> case tree_map t key of None \<Rightarrow> w | Some v \<Rightarrow> v)" "\<exists>l v r. t' = Node l key v r"
    using Insert_ok [OF assms] by blast
  then obtain l x r where "t' = Node l key x r" by blast
  then show ?thesis using 1 root_set_value_ok [of l key x r v] by (simp add: put_value_def)
qed

lemma keys_update_value [simp]: "keys (update_value key f t) = keys t"
  by (induction t) simp_all

lemma update_value_ok:
  assumes "search_tree t" "tree_map t key = Some v"
  shows "search_tree (update_value key f t) \<and> tree_map (update_value key f t) = (tree_map t)(key \<mapsto> f v)"
proof -
  have "tree_map (update_value key f t) x = (if x = key then map_option f (tree_map t x) else tree_map t x)" if "search_tree t" for x t
    using that
  proof (induction t)
    case (Node l k v r)
    moreover have "search_tree (update_value key f (Node l k v r))" using Node.prems by (simp add: search_tree_def)
    ultimately show ?case by (auto simp: tree_map_Node)
  qed simp
  then show ?thesis using assms by (auto simp: search_tree_def)
qed

interpretation ordered_tree: ordered_map search_tree tree_map "put_value w" update_value FindGreatestLessThan FindLeastGreaterThan
proof unfold_locales
  fix t :: "('a, 'b) node" and c
  assume t: "search_tree t"
  show "\<exists>t' e. FindGreatestLessThan c t = (t', e) \<and> search_tree t' \<and> tree_map t' = tree_map t \<and> greatest_entry (tree_map t) c e"
    by (rule FindGreatestLessThan_ok [OF t, of c]) (use t in \<open>metis tree_map_cong search_tree_cong\<close>)
  show "\<exists>t' e. FindLeastGreaterThan c t = (t', e) \<and> search_tree t' \<and> tree_map t' = tree_map t \<and> least_entry (tree_map t) c e"
    by (rule FindLeastGreaterThan_ok [OF t, of c]) (use t in \<open>metis tree_map_cong search_tree_cong\<close>)
qed (simp_all add: put_value_ok update_value_ok)

section \<open>Moving an entry\<close>

lemma Move_ok:
  assumes "search_tree t" and "tree_map t old_key = Some v" and "dom (tree_map t) \<noteq> {old_key}"
  obtains t' where "Move old_key new_key t = Some (t', new_key = old_key \<or> tree_map t new_key = None)" "search_tree t'"
    "tree_map t' = (if new_key = old_key \<or> tree_map t new_key = None then (tree_map t)(old_key := None, new_key \<mapsto> v)
                    else (tree_map t)(old_key := None))"
proof -
  obtain l r where 1: "FindInternal old_key t = (Node l old_key v r, True)" "inorder (Node l old_key v r) = inorder t" "search_tree (Node l old_key v r)"
  proof (rule FindInternal_ok [OF assms(1), of old_key])
    fix t'
    assume *: "FindInternal old_key t = (t', tree_map t old_key \<noteq> None)" "inorder t' = inorder t" "search_tree t'"
      "\<And>v. tree_map t old_key = Some v \<Longrightarrow> \<exists>l r. t' = Node l old_key v r"
    from *(4) [OF assms(2)] obtain l r where "t' = Node l old_key v r" by blast
    then show ?thesis using that [of l r] * assms(2) by auto
  qed
  obtain t1 where 2: "RemoveRootNode old_key (Node l old_key v r) = Some t1" "search_tree t1" "tree_map t1 = (tree_map t)(old_key := None)"
    using RemoveRootNode_ok [OF 1(3)] tree_map_cong [OF 1(2)] by metis
  have "dom (tree_map t1) \<noteq> {}" using 2(3) assms(2,3) by auto
  then have "t1 \<noteq> Null" by auto
  then obtain l' k' v' r' where 3: "Splay new_key t1 = Node l' k' v' r'" "inorder (Node l' k' v' r') = inorder t1"
      "search_tree (Node l' k' v' r')" "keys_below new_key l'" "keys_above new_key r'"
    using Splay_ok [OF 2(2)] by metis
  have m: "tree_map (Node l' k' v' r') = (tree_map t)(old_key := None)" using tree_map_cong [OF 3(2)] 2(3) by simp
  have n: "tree_map (Node l' k' v' r') new_key = (if new_key = k' then Some v' else None)"
    using 3(3-5) tree_map_below [of new_key l' new_key] tree_map_above [of new_key r' new_key] by (simp add: tree_map_Node)
  then have e: "new_key = k' \<longleftrightarrow> new_key \<noteq> old_key \<and> tree_map t new_key \<noteq> None"
    unfolding m by (auto split: if_splits)
  show ?thesis
  proof (cases "new_key = k'")
    case True
    then show ?thesis using that [of "Node l' k' v' r'"] 1(1) 2(1) 3(1,3) m e by (auto simp: Move_def)
  next
    case False
    then show ?thesis
      using that [of "InsertInternal (Config_Compare new_key k') new_key v (Node l' k' v' r')"] InsertInternal_ok [OF 3(3-5) False, of v]
        1(1) 2(1) 3(1) m e by (simp add: Move_def Let_def)
  qed
qed

section \<open>Visiting the nodes\<close>

lemma for_each_loop_mset: "mset (for_each_loop ts) = sum_list (map (\<lambda>t. mset (inorder t)) ts)"
  by (induction ts rule: for_each_loop.induct) (auto simp: child_def split: node.splits)

lemma ForEach_mset: "mset (ForEach t) = mset (inorder t)"
  by (simp add: ForEach_def for_each_loop_mset child_def split: node.split)

lemma ForEach_tree_map:
  assumes "search_tree t"
  shows "(k, v) \<in> set (ForEach t) \<longleftrightarrow> tree_map t k = Some v"
proof -
  have "distinct (map fst (inorder t))" using assms by (simp add: search_tree_def keys_def strict_sorted_iff)
  then have "(k, v) \<in> set (inorder t) \<longleftrightarrow> tree_map t k = Some v" by (simp add: tree_map_def map_of_eq_Some_iff)
  moreover have "set (ForEach t) = set (inorder t)" using mset_eq_setD [OF ForEach_mset] .
  ultimately show ?thesis by simp
qed

section \<open>Properties\<close>

text \<open>
  C26. Any sequence of lookups, insertions and removals on an empty splay tree, with the tree
  reorganised by each of them, answers as a map does: no operation dereferences a null pointer, every answer
  is the value the map holds and the entries of the final tree are those of the map.
\<close>

theorem splay_tree_refines_map:
  "\<exists>t as. dict_run (tree_step w) rs Null = Some (t, as) \<and> search_tree t \<and> (tree_map t, as) = spec_run rs Map.empty"
  using tree.run_refines_map [where rs = rs and w = w] by simp

text \<open>
  \<open>FindGreatestLessThan\<close> finds the entry with the greatest key that is at most the given one, and
  \<open>FindLeastGreaterThan\<close> the entry with the least key that is at least the given one, or report that
  there is none; the splaying they do keeps the entries and their order.
\<close>

theorem splay_tree_neighbours:
  assumes "search_tree t"
  shows "(\<exists>t' e. FindGreatestLessThan key t = (t', e) \<and> inorder t' = inorder t \<and> greatest_entry (tree_map t) key e) \<and>
    (\<exists>t' e. FindLeastGreaterThan key t = (t', e) \<and> inorder t' = inorder t \<and> least_entry (tree_map t) key e)"
  by (rule FindGreatestLessThan_ok [OF assms], rule FindLeastGreaterThan_ok [OF assms]) blast

theorem splay_tree_neighbours_witness:
  "(\<exists>t' e. FindGreatestLessThan 4 (Node (Node Null (1::int) ''a'' Null) 3 ''b'' (Node Null 5 ''c'' Null)) = (t', e) \<and>
      inorder t' = [(1, ''a''), (3, ''b''), (5, ''c'')] \<and>
      greatest_entry (tree_map (Node (Node Null 1 ''a'' Null) 3 ''b'' (Node Null 5 ''c'' Null))) 4 e) \<and>
   FindGreatestLessThan 4 (Node (Node Null (1::int) ''a'' Null) 3 ''b'' (Node Null 5 ''c'' Null)) =
     (Node (Node (Node Null 1 ''a'' Null) 3 ''b'' Null) 5 ''c'' Null, Some (3, ''b''))"
  using splay_tree_neighbours [of "Node (Node Null (1::int) ''a'' Null) 3 ''b'' (Node Null 5 ''c'' Null)" 4]
  by (simp add: FindGreatestLessThan_def Splay_def splay_loop.simps Config_Compare_def)

text \<open>
  C32. \<open>Move\<close> of the only entry of a tree dereferences a null pointer, whatever the new key is: removing the
  root leaves the empty tree, \<open>Splay\<close> returns at once and the comparison reads the key of the missing root.
\<close>

theorem Move_of_only_entry: "Move old_key new_key (Node Null old_key v Null) = None"
  by (simp add: Move_def FindInternal_def Splay_def splay_loop.simps Config_Compare_def RemoveRootNode_def)

text \<open>
  \<open>Move\<close> in a tree with another entry gives the value the new key when no other entry has that key, and
  otherwise reports failure, the entry under the old key deleted.
\<close>

theorem Move_renames:
  assumes "search_tree t" and "tree_map t old_key = Some v" and "dom (tree_map t) \<noteq> {old_key}"
  shows "\<exists>t'. Move old_key new_key t = Some (t', new_key = old_key \<or> tree_map t new_key = None) \<and> search_tree t' \<and>
    tree_map t' = (if new_key = old_key \<or> tree_map t new_key = None then (tree_map t)(old_key := None, new_key \<mapsto> v)
                   else (tree_map t)(old_key := None))"
  by (rule Move_ok [OF assms, of new_key]) blast

theorem Move_renames_witness:
  "\<exists>t'. Move 1 (2::int) (Node Null 1 ''a'' (Node Null 3 ''b'' Null)) = Some (t', True) \<and> search_tree t' \<and> tree_map t' 2 = Some ''a''"
proof -
  let ?t = "Node Null (1::int) ''a'' (Node Null 3 ''b'' Null)"
  have m: "tree_map ?t 1 = Some ''a''" "tree_map ?t 2 = None" "tree_map ?t 3 = Some ''b''"
    by (simp_all add: tree_map_def)
  then have d: "dom (tree_map ?t) \<noteq> {1}" by (auto simp: dom_tree_map)
  have s: "search_tree ?t" by simp
  obtain t' where "Move 1 2 ?t = Some (t', True)" "search_tree t'" "tree_map t' = (tree_map ?t)(1 := None, 2 \<mapsto> ''a'')"
    using Move_renames [OF s m(1) d, of 2] unfolding m(2) by auto
  then show ?thesis by (intro exI [of _ t']) simp
qed

text \<open>\<open>ForEach\<close> calls back once for every entry of the tree.\<close>

theorem ForEach_visits_each_once: "mset (ForEach t) = mset (inorder t)"
  by (rule ForEach_mset)

end
