(* ===== verification/Dispatch_Table.thy ===== *)
theory Dispatch_Table
  imports Char_Range Out_Set V8_Splay_Tree
begin

text \<open>
  \<open>DispatchTable\<close> of \<^verbatim>\<open>src/jsregexp.h\<close> and \<^verbatim>\<open>src/jsregexp.cc\<close>: a splay tree of disjoint ranges of characters, each with the set of the
  choices that its characters select, and the clients that split a class and add its complement.  The zone of the
  sets is part of the table; \<open>entry\<close> pointers are the keys of their nodes, which reorganising the tree does not change.
\<close>

section \<open>The program\<close>

record entry =
  entry_from :: int
  entry_to :: int
  entry_out :: nat

record dispatch_table =
  table_zone :: zone
  table_empty :: nat
  table_tree :: "(int, entry) node"

definition DispatchTable_new :: "zone \<Rightarrow> dispatch_table" where
  "DispatchTable_new z = (let (z, s) = OutSet_new z in \<lparr>table_zone = z, table_empty = s, table_tree = Null\<rparr>)"

text \<open>
  \<open>Insert\<close> followed by \<open>set_value\<close> through its locator; the default value, with its null set, is overwritten before it is read.
\<close>

definition kNoValue :: entry where
  "kNoValue = \<lparr>entry_from = 0, entry_to = 0, entry_out = 0\<rparr>"

definition put_entry :: "int \<Rightarrow> int \<Rightarrow> nat \<Rightarrow> dispatch_table \<Rightarrow> dispatch_table" where
  "put_entry a b s d = d \<lparr>table_tree := put_value kNoValue a \<lparr>entry_from = a, entry_to = b, entry_out = s\<rparr> (table_tree d)\<rparr>"

definition put_extended :: "int \<Rightarrow> int \<Rightarrow> nat \<Rightarrow> dispatch_table \<Rightarrow> dispatch_table" where
  "put_extended a b v d =
     (let (z, s) = OutSet_Extend (table_empty d) v (table_zone d) in put_entry a b s (d \<lparr>table_zone := z\<rparr>))"

definition set_to :: "int \<Rightarrow> int \<Rightarrow> dispatch_table \<Rightarrow> dispatch_table" where
  "set_to k b d = d \<lparr>table_tree := update_value k (\<lambda>e. e \<lparr>entry_to := b\<rparr>) (table_tree d)\<rparr>"

definition AddValue :: "int \<Rightarrow> entry \<Rightarrow> nat \<Rightarrow> dispatch_table \<Rightarrow> dispatch_table" where
  "AddValue k e v d =
     (let (z, s) = OutSet_Extend (entry_out e) v (table_zone d)
      in d \<lparr>table_zone := z, table_tree := update_value k (\<lambda>e. e \<lparr>entry_out := s\<rparr>) (table_tree d)\<rparr>)"

partial_function (option) add_loop :: "int \<Rightarrow> int \<Rightarrow> nat \<Rightarrow> dispatch_table \<Rightarrow> dispatch_table option" where
  "add_loop a b v d =
     (if a \<le> b then
        (let (t, found) = FindLeastGreaterThan a (table_tree d);
             d = d \<lparr>table_tree := t\<rparr>
         in case found of
              None \<Rightarrow> Some (put_extended a b v d)
            | Some (k, e) \<Rightarrow>
                if entry_from e \<le> b \<and> a \<le> entry_to e then
                  (let (d, a) = (if a < entry_from e then (put_extended a (uc16 (entry_from e - 1)) v d, entry_from e) else (d, a));
                       (d, t) = (if b < entry_to e then (set_to k b (put_entry (uc16 (b + 1)) (entry_to e) (entry_out e) d), b)
                                 else (d, entry_to e));
                       d = AddValue k e v d
                   in if t = kMaxUC16CharCode then Some d else add_loop (uc16 (t + 1)) b v d)
                else Some (put_extended a b v d))
      else Some d)"

declare add_loop.simps [code]

definition split_left :: "int \<Rightarrow> dispatch_table \<Rightarrow> dispatch_table" where
  "split_left a d =
     (let (t, found) = FindGreatestLessThan a (table_tree d);
          d = d \<lparr>table_tree := t\<rparr>
      in case found of
           None \<Rightarrow> d
         | Some (k, e) \<Rightarrow>
             if entry_from e < a \<and> a \<le> entry_to e
             then put_entry a (entry_to e) (entry_out e) (set_to k (uc16 (a - 1)) d)
             else d)"

definition AddRange :: "char_range \<Rightarrow> nat \<Rightarrow> dispatch_table \<Rightarrow> dispatch_table option" where
  "AddRange r v d =
     (if table_tree d = Null then Some (put_extended (range_from r) (range_to r) v d)
      else add_loop (range_from r) (range_to r) v (split_left (range_from r) d))"

definition DispatchTable_Get :: "int \<Rightarrow> dispatch_table \<Rightarrow> dispatch_table \<times> nat" where
  "DispatchTable_Get c d =
     (let (t, found) = FindGreatestLessThan c (table_tree d);
          d = d \<lparr>table_tree := t\<rparr>
      in case found of
           None \<Rightarrow> (d, table_empty d)
         | Some (k, e) \<Rightarrow> (d, if c \<le> entry_to e then entry_out e else table_empty d))"

section \<open>The tables\<close>

definition entries :: "dispatch_table \<Rightarrow> (int \<rightharpoonup> entry)" where
  "entries d = tree_map (table_tree d)"

definition entry_ok :: "zone \<Rightarrow> int \<Rightarrow> entry \<Rightarrow> bool" where
  "entry_ok z k e \<longleftrightarrow> entry_from e = k \<and> 0 \<le> k \<and> k \<le> entry_to e \<and> entry_to e \<le> 0xffff \<and> entry_out e < length (sets z)"

definition zone_ok :: "zone \<Rightarrow> nat \<Rightarrow> bool" where
  "zone_ok z s \<longleftrightarrow> small z \<and> s < length (sets z) \<and> elements z s = {}"

definition entries_ok :: "zone \<Rightarrow> (int \<rightharpoonup> entry) \<Rightarrow> bool" where
  "entries_ok z m \<longleftrightarrow> (\<forall>k e. m k = Some e \<longrightarrow> entry_ok z k e) \<and> disjoint entry_to m"

definition table_ok :: "dispatch_table \<Rightarrow> bool" where
  "table_ok d \<longleftrightarrow> search_tree (table_tree d) \<and> zone_ok (table_zone d) (table_empty d) \<and> entries_ok (table_zone d) (entries d)"

text \<open>The choices that a character selects.\<close>

definition selects :: "zone \<Rightarrow> (int \<rightharpoonup> entry) \<Rightarrow> int \<Rightarrow> nat set" where
  "selects z m c = {v. \<exists>e. interval_at entry_to m c e \<and> v \<in> elements z (entry_out e)}"

definition choices :: "dispatch_table \<Rightarrow> int \<Rightarrow> nat set" where
  "choices d = selects (table_zone d) (entries d)"

definition with_choice :: "int \<Rightarrow> int \<Rightarrow> nat \<Rightarrow> (int \<Rightarrow> nat set) \<Rightarrow> int \<Rightarrow> nat set" where
  "with_choice a b v f c = (if a \<le> c \<and> c \<le> b then insert v (f c) else f c)"

lemma with_choice_empty [simp]: "b < a \<Longrightarrow> with_choice a b v f = f"
  by (auto simp: with_choice_def fun_eq_iff)

subsection \<open>Disjoint entries\<close>

lemma entries_okD:
  "entries_ok z m \<Longrightarrow> m k = Some e \<Longrightarrow> entry_from e = k"
  "entries_ok z m \<Longrightarrow> m k = Some e \<Longrightarrow> 0 \<le> k"
  "entries_ok z m \<Longrightarrow> m k = Some e \<Longrightarrow> k \<le> entry_to e"
  "entries_ok z m \<Longrightarrow> m k = Some e \<Longrightarrow> entry_to e \<le> 0xffff"
  "entries_ok z m \<Longrightarrow> m k = Some e \<Longrightarrow> entry_out e < length (sets z)"
  "entries_ok z m \<Longrightarrow> m k = Some e \<Longrightarrow> m k' = Some e' \<Longrightarrow> k < k' \<Longrightarrow> entry_to e < k'"
  unfolding entries_ok_def entry_ok_def disjoint_def by blast+

lemma selects_iff: "v \<in> selects z m c \<longleftrightarrow> (\<exists>k e. m k = Some e \<and> k \<le> c \<and> c \<le> entry_to e \<and> v \<in> elements z (entry_out e))"
  by (auto simp: selects_def interval_at_def)

lemma selects_in:
  assumes "entries_ok z m" "m k = Some e" "k \<le> c" "c \<le> entry_to e"
  shows "selects z m c = elements z (entry_out e)"
proof -
  have "k' = k" if "m k' = Some e'" "k' \<le> c" "c \<le> entry_to e'" for k' e'
    using entries_okD(6) [OF assms(1), of k e k' e'] entries_okD(6) [OF assms(1), of k' e' k e] assms that by linarith
  then show ?thesis using assms by (fastforce simp: selects_iff set_eq_iff)
qed

lemma selects_none: "(\<And>k e. m k = Some e \<Longrightarrow> k \<le> c \<Longrightarrow> entry_to e < c) \<Longrightarrow> selects z m c = {}"
  by (force simp: selects_iff set_eq_iff)

text \<open>A zone that grows keeps what is selected.\<close>

lemma selects_grows:
  assumes "grows z z'" "entries_ok z m"
  shows "selects z' m = selects z m"
proof -
  have "elements z' (entry_out e) = elements z (entry_out e)" if "m k = Some e" for k e
    using assms(1) entries_okD(5) [OF assms(2) that] by (simp add: grows_def)
  then have "v \<in> selects z' m c \<longleftrightarrow> v \<in> selects z m c" for c v unfolding selects_iff by metis
  then show ?thesis by auto
qed

lemma entries_ok_grows: "grows z z' \<Longrightarrow> entries_ok z m \<Longrightarrow> entries_ok z' m"
  by (fastforce simp: entries_ok_def entry_ok_def grows_def)

text \<open>A new entry between the others.\<close>

definition free :: "(int \<rightharpoonup> entry) \<Rightarrow> int \<Rightarrow> int \<Rightarrow> bool" where
  "free m a b \<longleftrightarrow> (\<forall>k e. m k = Some e \<longrightarrow> entry_to e < a \<or> b < k)"

lemma freeD: "free m a b \<Longrightarrow> m k = Some e \<Longrightarrow> entry_to e < a \<or> b < k"
  by (simp add: free_def)

lemma add_entry:
  assumes m: "entries_ok z m" and f: "free m a b" and e: "entry_ok z a e" "entry_to e = b"
  shows "entries_ok z (m(a \<mapsto> e)) \<and> selects z (m(a \<mapsto> e)) = (\<lambda>c. if a \<le> c \<and> c \<le> b then elements z (entry_out e) else selects z m c)"
proof -
  have ab: "a \<le> b" using e by (simp add: entry_ok_def)
  have n: "m a = None"
    using freeD [OF f, of a] entries_okD(3) [OF m, of a] ab by (cases "m a") force+
  have "disjoint entry_to (m(a \<mapsto> e))" unfolding disjoint_def
  proof (intro allI impI)
    fix k v k' assume *: "(m(a \<mapsto> e)) k = Some v" "k' \<in> dom (m(a \<mapsto> e))" "k < k'"
    show "entry_to v < k'"
    proof (cases "k = a")
      case True
      then obtain e' where "m k' = Some e'" using * by auto
      then show ?thesis using * True freeD [OF f, of k' e'] entries_okD(3) [OF m, of k' e'] e by auto
    next
      case False
      then have k: "m k = Some v" using *(1) by simp
      show ?thesis
      proof (cases "k' = a")
        case True
        then show ?thesis using freeD [OF f k] *(3) ab by auto
      next
        case False
        then obtain e' where "m k' = Some e'" using *(2) by auto
        then show ?thesis using entries_okD(6) [OF m k] *(3) by blast
      qed
    qed
  qed
  then have ok: "entries_ok z (m(a \<mapsto> e))" using m e by (auto simp: entries_ok_def)
  moreover have "selects z (m(a \<mapsto> e)) c = (if a \<le> c \<and> c \<le> b then elements z (entry_out e) else selects z m c)" for c
    using selects_in [OF ok, of a e c] e(2) n by (auto simp: selects_iff set_eq_iff)
  ultimately show ?thesis by auto
qed

text \<open>An entry that is replaced by one that is not longer.\<close>

lemma replace_entry:
  assumes m: "entries_ok z m" and k: "m k = Some e" and e': "entry_ok z k e'" "entry_to e' \<le> entry_to e"
  shows "entries_ok z (m(k \<mapsto> e')) \<and> free (m(k \<mapsto> e')) (entry_to e' + 1) (entry_to e) \<and>
    selects z (m(k \<mapsto> e')) = (\<lambda>c. if k \<le> c \<and> c \<le> entry_to e' then elements z (entry_out e') else if k \<le> c \<and> c \<le> entry_to e then {} else selects z m c)"
proof -
  have d: "disjoint entry_to (m(k \<mapsto> e'))" unfolding disjoint_def
  proof (intro allI impI)
    fix i v j assume *: "(m(k \<mapsto> e')) i = Some v" "j \<in> dom (m(k \<mapsto> e'))" "i < j"
    then obtain w where w: "m j = Some w" using k by (cases "j = k") auto
    show "entry_to v < j"
    proof (cases "i = k")
      case True
      then show ?thesis using * e'(2) entries_okD(6) [OF m k w] by auto
    next
      case False
      then show ?thesis using * entries_okD(6) [OF m _ w] by auto
    qed
  qed
  then have ok: "entries_ok z (m(k \<mapsto> e'))" using m e' by (auto simp: entries_ok_def)
  have f: "free (m(k \<mapsto> e')) (entry_to e' + 1) (entry_to e)" unfolding free_def
  proof (intro allI impI)
    fix i v assume *: "(m(k \<mapsto> e')) i = Some v"
    consider "i = k" | "i < k" "m i = Some v" | "k < i" "m i = Some v" using * by (cases i k rule: linorder_cases) auto
    then show "entry_to v < entry_to e' + 1 \<or> entry_to e < i"
    proof cases
      case 1
      then show ?thesis using * by simp
    next
      case 2
      then show ?thesis using entries_okD(6) [OF m 2(2) k 2(1)] e' by (simp add: entry_ok_def)
    next
      case 3
      then show ?thesis using entries_okD(6) [OF m k 3(2,1)] by simp
    qed
  qed
  have "selects z (m(k \<mapsto> e')) c = (if k \<le> c \<and> c \<le> entry_to e' then elements z (entry_out e') else if k \<le> c \<and> c \<le> entry_to e then {} else selects z m c)" for c
  proof (cases "k \<le> c \<and> c \<le> entry_to e")
    case True
    then show ?thesis using selects_in [OF ok, of k e' c] selects_none [of "m(k \<mapsto> e')" c z] f by (force simp: free_def)
  next
    case False
    then show ?thesis using k e' by (auto simp: selects_iff set_eq_iff)
  qed
  then show ?thesis using ok f by auto
qed


subsection \<open>The operations\<close>

lemma table_ok_splayed:
  assumes "table_ok d" "search_tree t" "tree_map t = tree_map (table_tree d)"
  shows "table_ok (d \<lparr>table_tree := t\<rparr>)" "entries (d \<lparr>table_tree := t\<rparr>) = entries d" "choices (d \<lparr>table_tree := t\<rparr>) = choices d"
  using assms by (simp_all add: table_ok_def entries_def choices_def)

lemma Extend_ok:
  assumes "zone_ok z n" "s < length (sets z)" "v < 32" "OutSet_Extend s v z = (z', s')"
  shows "zone_ok z' n" "grows z z'" "s' < length (sets z')" "elements z' s' = insert v (elements z s)"
  using Extend_small [OF _ assms(2,3,4)] assms(1) by (auto simp: zone_ok_def grows_def)

lemma put_entry_ok:
  assumes d: "table_ok d" and f: "free (entries d) a b" and r: "0 \<le> a" "a \<le> b" "b \<le> 0xffff" and s: "s < length (sets (table_zone d))"
  shows "table_ok (put_entry a b s d)" "entries (put_entry a b s d) = (entries d)(a \<mapsto> \<lparr>entry_from = a, entry_to = b, entry_out = s\<rparr>)"
    "choices (put_entry a b s d) = (\<lambda>c. if a \<le> c \<and> c \<le> b then elements (table_zone d) s else choices d c)"
proof -
  let ?e = "\<lparr>entry_from = a, entry_to = b, entry_out = s\<rparr>"
  have e: "entry_ok (table_zone d) a ?e" using r s by (simp add: entry_ok_def)
  have m: "entries_ok (table_zone d) (entries d)" and t: "search_tree (table_tree d)" using d by (auto simp: table_ok_def)
  show 1: "entries (put_entry a b s d) = (entries d)(a \<mapsto> ?e)"
    using ordered_tree.put_ok [OF t] by (simp add: put_entry_def entries_def)
  show "table_ok (put_entry a b s d)" using add_entry [OF m f e] 1 d ordered_tree.put_ok [OF t]
    by (simp add: put_entry_def table_ok_def)
  show "choices (put_entry a b s d) = (\<lambda>c. if a \<le> c \<and> c \<le> b then elements (table_zone d) s else choices d c)"
    using add_entry [OF m f e] unfolding choices_def 1 by (auto simp: put_entry_def fun_eq_iff)
qed

lemma put_extended_ok:
  assumes d: "table_ok d" and f: "free (entries d) a b" and r: "0 \<le> a" "a \<le> b" "b \<le> 0xffff" and v: "v < 32"
  shows "table_ok (put_extended a b v d)" "table_empty (put_extended a b v d) = table_empty d"
    "\<exists>s. entries (put_extended a b v d) = (entries d)(a \<mapsto> \<lparr>entry_from = a, entry_to = b, entry_out = s\<rparr>)"
    "choices (put_extended a b v d) = with_choice a b v (choices d)"
    "grows (table_zone d) (table_zone (put_extended a b v d))"
proof -
  obtain z s where e: "OutSet_Extend (table_empty d) v (table_zone d) = (z, s)" by force
  have zd: "zone_ok (table_zone d) (table_empty d)" and md: "entries_ok (table_zone d) (entries d)" using d by (auto simp: table_ok_def)
  then have z: "zone_ok z (table_empty d)" "grows (table_zone d) z" "s < length (sets z)" "elements z s = {v}"
    using Extend_ok [OF zd _ v e] by (auto simp: zone_ok_def)
  let ?d = "d \<lparr>table_zone := z\<rparr>"
  have m: "entries ?d = entries d" by (simp add: entries_def)
  have ok: "table_ok ?d" using d z entries_ok_grows [OF z(2) md] m by (auto simp: table_ok_def)
  have ch: "choices ?d = choices d" using selects_grows [OF z(2) md] m by (simp add: choices_def)
  have n: "choices d c = {}" if "a \<le> c" "c \<le> b" for c
    unfolding choices_def by (rule selects_none) (use freeD [OF f] that in force)
  have p: "put_extended a b v d = put_entry a b s ?d" using e by (simp add: put_extended_def)
  have s: "s < length (sets (table_zone ?d))" using z by simp
  note P = put_entry_ok [OF ok _ r s, unfolded m, OF f]
  show "table_ok (put_extended a b v d)" "table_empty (put_extended a b v d) = table_empty d"
    "\<exists>s. entries (put_extended a b v d) = (entries d)(a \<mapsto> \<lparr>entry_from = a, entry_to = b, entry_out = s\<rparr>)"
    "grows (table_zone d) (table_zone (put_extended a b v d))"
    unfolding p using P z(2) by (auto simp: put_entry_def)
  show "choices (put_extended a b v d) = with_choice a b v (choices d)"
    unfolding p P(3) ch using n z(4) by (auto simp: fun_eq_iff with_choice_def)
qed

text \<open>An entry is cut in two: the part above \<open>x\<close> gets an entry of its own.\<close>

lemma set_to_ok:
  assumes d: "table_ok d" and k: "entries d k = Some e" and x: "k \<le> x" "x \<le> entry_to e"
  shows "table_ok (set_to k x d)" "entries (set_to k x d) = (entries d)(k \<mapsto> e \<lparr>entry_to := x\<rparr>)" "free (entries (set_to k x d)) (x + 1) (entry_to e)"
    "choices (set_to k x d) = (\<lambda>c. if x < c \<and> c \<le> entry_to e then {} else choices d c)"
proof -
  have m: "entries_ok (table_zone d) (entries d)" and t: "search_tree (table_tree d)" using d by (auto simp: table_ok_def)
  have e': "entry_ok (table_zone d) k (e \<lparr>entry_to := x\<rparr>)" using x entries_okD [OF m k] by (simp add: entry_ok_def)
  note R = replace_entry [OF m k e']
  have u: "search_tree (update_value k (\<lambda>e. e \<lparr>entry_to := x\<rparr>) (table_tree d))"
      "tree_map (update_value k (\<lambda>e. e \<lparr>entry_to := x\<rparr>) (table_tree d)) = (entries d)(k \<mapsto> e \<lparr>entry_to := x\<rparr>)"
    using ordered_tree.update_ok [OF t, of k e] k by (simp_all add: entries_def)
  show 1: "entries (set_to k x d) = (entries d)(k \<mapsto> e \<lparr>entry_to := x\<rparr>)" using u(2) by (simp add: set_to_def entries_def)
  show "table_ok (set_to k x d)" using R 1 u x d by (simp add: set_to_def table_ok_def)
  show "free (entries (set_to k x d)) (x + 1) (entry_to e)" using R x unfolding 1 by simp
  have "selects (table_zone d) (entries d) c = elements (table_zone d) (entry_out e)" if "k \<le> c" "c \<le> x" for c
    using selects_in [OF m k] that x by simp
  then show "choices (set_to k x d) = (\<lambda>c. if x < c \<and> c \<le> entry_to e then {} else choices d c)"
    using R x unfolding choices_def 1 by (auto simp: set_to_def fun_eq_iff)
qed

lemma cut_ok:
  assumes d: "table_ok d" and k: "entries d k = Some e" and x: "k \<le> x" "x < entry_to e"
    and d': "d' = put_entry (x + 1) (entry_to e) (entry_out e) (set_to k x d)"
  shows "table_ok d'" "choices d' = choices d" "entries d' k = Some (e \<lparr>entry_to := x\<rparr>)" "table_zone d' = table_zone d" "table_empty d' = table_empty d"
proof -
  have m: "entries_ok (table_zone d) (entries d)" using d by (auto simp: table_ok_def)
  note b = entries_okD [OF m k]
  note S = set_to_ok [OF d k x(1)]
  have z: "table_zone (set_to k x d) = table_zone d" by (simp add: set_to_def)
  note P = put_entry_ok [OF S(1) S(3), of "entry_out e"]
  show "table_ok d'" unfolding d' using P(1) x b z by simp
  show "entries d' k = Some (e \<lparr>entry_to := x\<rparr>)" unfolding d' using P(2) S(2) x b z by simp
  show "table_zone d' = table_zone d" "table_empty d' = table_empty d" unfolding d' by (simp_all add: put_entry_def set_to_def)
  have "choices d c = elements (table_zone d) (entry_out e)" if "x + 1 \<le> c" "c \<le> entry_to e" for c
    unfolding choices_def using selects_in [OF m k] that x by simp
  then show "choices d' = choices d" unfolding d' using P(3) S(4) x b z by (auto simp: fun_eq_iff)
qed

text \<open>The order in which the code changes the two entries does not matter.\<close>

lemma cut_order:
  assumes d: "table_ok d" and k: "entries d k = Some e" and x: "k \<le> x" "x < entry_to e"
    and d': "d' = set_to k x (put_entry (x + 1) (entry_to e) (entry_out e) d)"
  shows "table_ok d'" "choices d' = choices d" "entries d' k = Some (e \<lparr>entry_to := x\<rparr>)" "table_zone d' = table_zone d" "table_empty d' = table_empty d"
proof -
  let ?e = "\<lparr>entry_from = x + 1, entry_to = entry_to e, entry_out = entry_out e\<rparr>"
  have t: "search_tree (table_tree d)" using d by (simp add: table_ok_def)
  note p = ordered_tree.put_ok [OF t, of kNoValue "x + 1" ?e]
  have k': "tree_map (table_tree (put_entry (x + 1) (entry_to e) (entry_out e) d)) k = Some e"
    using p k x by (simp add: put_entry_def entries_def)
  note u = ordered_tree.update_ok [OF _ k', of "\<lambda>e. e \<lparr>entry_to := x\<rparr>"]
  obtain d'' where d'': "d'' = put_entry (x + 1) (entry_to e) (entry_out e) (set_to k x d)" by blast
  note C = cut_ok [OF d k x d'']
  note p' = ordered_tree.put_ok [of "table_tree (set_to k x d)" kNoValue "x + 1" ?e]
  have s: "search_tree (table_tree d')" "entries d' = (entries d)(x + 1 \<mapsto> ?e, k \<mapsto> e \<lparr>entry_to := x\<rparr>)"
    using u p unfolding d' by (auto simp: put_entry_def set_to_def entries_def)
  have "entries d'' = (entries d)(k \<mapsto> e \<lparr>entry_to := x\<rparr>, x + 1 \<mapsto> ?e)"
    using p' ordered_tree.update_ok [OF t, of k e "\<lambda>e. e \<lparr>entry_to := x\<rparr>"] k
    unfolding d'' by (simp add: put_entry_def set_to_def entries_def)
  then have m: "entries d' = entries d''" using s(2) x by (auto simp: fun_upd_twist)
  have z: "table_zone d' = table_zone d''" "table_empty d' = table_empty d''" unfolding d' d'' by (simp_all add: put_entry_def set_to_def)
  show "table_ok d'" "choices d' = choices d" "entries d' k = Some (e \<lparr>entry_to := x\<rparr>)" "table_zone d' = table_zone d" "table_empty d' = table_empty d"
    using C s(1) m z by (simp_all add: table_ok_def choices_def)
qed

lemma AddValue_ok:
  assumes d: "table_ok d" and k: "entries d k = Some e'" "entry_out e' = entry_out e" and v: "v < 32"
  shows "table_ok (AddValue k e v d)" "table_empty (AddValue k e v d) = table_empty d"
    "\<exists>s. entries (AddValue k e v d) = (entries d)(k \<mapsto> e' \<lparr>entry_out := s\<rparr>)"
    "choices (AddValue k e v d) = with_choice k (entry_to e') v (choices d)"
proof -
  obtain z s where E: "OutSet_Extend (entry_out e) v (table_zone d) = (z, s)" by force
  have zd: "zone_ok (table_zone d) (table_empty d)" and md: "entries_ok (table_zone d) (entries d)" and t: "search_tree (table_tree d)"
    using d by (auto simp: table_ok_def)
  have z: "zone_ok z (table_empty d)" "grows (table_zone d) z" "s < length (sets z)" "elements z s = insert v (elements (table_zone d) (entry_out e'))"
    using Extend_ok [OF zd _ v E] entries_okD(5) [OF md k(1)] k(2) by auto
  have u: "search_tree (update_value k (\<lambda>e. e \<lparr>entry_out := s\<rparr>) (table_tree d))"
      "tree_map (update_value k (\<lambda>e. e \<lparr>entry_out := s\<rparr>) (table_tree d)) = (entries d)(k \<mapsto> e' \<lparr>entry_out := s\<rparr>)"
    using ordered_tree.update_ok [OF t, of k e'] k by (simp_all add: entries_def)
  have ez: "entries_ok z (entries d)" by (rule entries_ok_grows [OF z(2) md])
  have e': "entry_ok z k (e' \<lparr>entry_out := s\<rparr>)" using z(3) entries_okD [OF ez k(1)] by (simp add: entry_ok_def)
  note R = replace_entry [OF ez k(1) e']
  have p: "AddValue k e v d = d \<lparr>table_zone := z, table_tree := update_value k (\<lambda>e. e \<lparr>entry_out := s\<rparr>) (table_tree d)\<rparr>"
    using E by (simp add: AddValue_def)
  have m: "entries (AddValue k e v d) = (entries d)(k \<mapsto> e' \<lparr>entry_out := s\<rparr>)" unfolding p using u by (simp add: entries_def)
  then show "\<exists>s. entries (AddValue k e v d) = (entries d)(k \<mapsto> e' \<lparr>entry_out := s\<rparr>)" by blast
  show "table_empty (AddValue k e v d) = table_empty d" unfolding p by simp
  show "table_ok (AddValue k e v d)" using R z u m unfolding p by (simp add: table_ok_def)
  have "selects (table_zone d) (entries d) c = elements (table_zone d) (entry_out e')" if "k \<le> c" "c \<le> entry_to e'" for c
    using selects_in [OF md k(1)] that by simp
  then show "choices (AddValue k e v d) = with_choice k (entry_to e') v (choices d)"
    using R selects_grows [OF z(2) md] z(4) unfolding choices_def m by (auto simp: p fun_eq_iff with_choice_def)
qed


subsection \<open>Adding a range\<close>

text \<open>No entry crosses the point from below.\<close>

definition separated :: "(int \<rightharpoonup> entry) \<Rightarrow> int \<Rightarrow> bool" where
  "separated m a \<longleftrightarrow> (\<forall>k e. m k = Some e \<longrightarrow> k < a \<longrightarrow> entry_to e < a)"

lemma separated_after:
  assumes "entries_ok z m" "m k = Some e"
  shows "separated m (entry_to e + 1)"
  unfolding separated_def
proof (intro allI impI)
  fix i v assume "m i = Some v" "i < entry_to e + 1"
  then show "entry_to v < entry_to e + 1"
    using entries_okD(3,6) [OF assms(1)] assms(2) by (cases i k rule: linorder_cases) (fastforce dest: leD)+
qed

lemma free_before:
  assumes "separated m a" "least_entry m a found" "\<And>k e. found = Some (k, e) \<Longrightarrow> b < k"
  shows "free m a b"
  unfolding free_def
proof (intro allI impI)
  fix k e assume "m k = Some e"
  then show "entry_to e < a \<or> b < k"
    using assms by (cases "k < a") (force simp: separated_def least_entry_def dom_def split: option.splits)+
qed

lemma table_separated: "table_ok d \<Longrightarrow> entries d k = Some e \<Longrightarrow> separated (entries d) (entry_to e + 1)"
  by (rule separated_after [of "table_zone d" _ k]) (simp_all add: table_ok_def)

text \<open>One turn of the loop with an entry that overlaps: the range up to the end of the entry, or of the range, gets the value.\<close>

definition overlap_turn :: "int \<Rightarrow> int \<Rightarrow> nat \<Rightarrow> int \<Rightarrow> entry \<Rightarrow> dispatch_table \<Rightarrow> dispatch_table" where
  "overlap_turn a b v k e d =
     (let d = (if a < entry_from e then put_extended a (entry_from e - 1) v d else d)
      in AddValue k e v (if b < entry_to e then set_to k b (put_entry (b + 1) (entry_to e) (entry_out e) d) else d))"

lemma overlap_turn_ok:
  assumes d: "table_ok d" and le: "least_entry (entries d) a (Some (k, e))" and sep: "separated (entries d) a"
    and r: "0 \<le> a" "k \<le> b" "b \<le> 0xffff" and v: "v < 32" and d': "d' = overlap_turn a b v k e d" and x: "x = min b (entry_to e)"
  shows "table_ok d'" "separated (entries d') (x + 1)" "choices d' = with_choice a x v (choices d)"
proof -
  have m: "entries_ok (table_zone d) (entries d)" using d by (simp add: table_ok_def)
  have k: "entries d k = Some e" "a \<le> k" using le by (auto simp: least_entry_def)
  note K = entries_okD [OF m k(1)]
  define d1 where d1: "d1 = (if a < entry_from e then put_extended a (entry_from e - 1) v d else d)"
  have D1: "table_ok d1 \<and> entries d1 k = Some e \<and> choices d1 = with_choice a (k - 1) v (choices d)"
  proof (cases "a < k")
    case True
    have f: "free (entries d) a (k - 1)" by (rule free_before [OF sep le]) simp
    have "a \<le> k - 1" "k - 1 \<le> 0xffff" using True r by auto
    note P = put_extended_ok [OF d f r(1) this v]
    show ?thesis using True P(1,3,4) K(1) k(1) unfolding d1 by auto
  next
    case False
    then show ?thesis using d k K(1) unfolding d1 by (auto simp: fun_eq_iff with_choice_def)
  qed
  define d2 where d2: "d2 = (if b < entry_to e then set_to k b (put_entry (b + 1) (entry_to e) (entry_out e) d1) else d1)"
  have D2: "table_ok d2 \<and> choices d2 = choices d1 \<and> entries d2 k = Some (e \<lparr>entry_to := x\<rparr>)"
  proof (cases "b < entry_to e")
    case True
    have ok: "table_ok d1" "entries d1 k = Some e" using D1 by auto
    show ?thesis using cut_order(1-3) [OF ok r(2) True refl] True unfolding d2 x by simp
  next
    case False
    then show ?thesis using D1 unfolding d2 x by simp
  qed
  have t: "d' = AddValue k e v d2" unfolding d' overlap_turn_def d2 d1 by (simp add: Let_def)
  note A = AddValue_ok [of d2 k "e \<lparr>entry_to := x\<rparr>" e v]
  show ok: "table_ok d'" unfolding t using A(1) D2 v by simp
  obtain s where s: "entries d' k = Some (e \<lparr>entry_to := x, entry_out := s\<rparr>)" unfolding t using A(3) D2 v by auto
  show "separated (entries d') (x + 1)"
    using table_separated [OF ok s] by simp
  show "choices d' = with_choice a x v (choices d)"
  proof -
    have "choices d' = with_choice k x v (choices d1)" unfolding t using A(4) D2 v by simp
    moreover have "choices d1 = with_choice a (k - 1) v (choices d)" "k \<le> x" using D1 K(3) r(2) x by auto
    ultimately show ?thesis using k(2) by (auto simp: fun_eq_iff with_choice_def)
  qed
qed

lemma add_loop_ok:
  "table_ok d \<Longrightarrow> separated (entries d) a \<Longrightarrow> 0 \<le> a \<Longrightarrow> b \<le> 0xffff \<Longrightarrow> v < 32 \<Longrightarrow>
   \<exists>d'. add_loop a b v d = Some d' \<and> table_ok d' \<and> choices d' = with_choice a b v (choices d)"
proof (induction "nat (b + 1 - a)" arbitrary: a d rule: less_induct)
  case less
  show ?case
  proof (cases "a \<le> b")
    case False
    then show ?thesis using less.prems(1) by (auto simp: add_loop.simps fun_eq_iff with_choice_def)
  next
    case True
    have t: "search_tree (table_tree d)" using less.prems(1) by (simp add: table_ok_def)
    obtain t' found where f: "FindLeastGreaterThan a (table_tree d) = (t', found)" "search_tree t'" "tree_map t' = tree_map (table_tree d)"
        "least_entry (entries d) a found"
      using ordered_tree.upper_ok [OF t] unfolding entries_def by blast
    let ?d = "d \<lparr>table_tree := t'\<rparr>"
    note D = table_ok_splayed [OF less.prems(1) f(2,3)]
    show ?thesis
    proof (cases "\<exists>k e. found = Some (k, e) \<and> entry_from e \<le> b \<and> a \<le> entry_to e")
      case False
      have "k > b" if "found = Some (k, e)" for k e
      proof -
        have k: "entries d k = Some e" "a \<le> k" using f(4) that by (auto simp: least_entry_def)
        have "entries_ok (table_zone d) (entries d)" using less.prems(1) by (simp add: table_ok_def)
        then have "entry_from e = k" "k \<le> entry_to e" using entries_okD(1,3) k(1) by blast+
        then show ?thesis using False that k(2) by force
      qed
      then have fr: "free (entries ?d) a b" using free_before [OF less.prems(2) f(4)] D(2) by simp
      have l: "add_loop a b v d = Some (put_extended a b v ?d)"
        using False True f(1) by (subst add_loop.simps) (auto simp: Let_def split: option.splits)
      show ?thesis using put_extended_ok(1,4) [OF D(1) fr less.prems(3) True less.prems(4,5)] D(3) l by simp
    next
      case ov: True
      then obtain k e where e: "found = Some (k, e)" "entry_from e \<le> b" "a \<le> entry_to e" by blast
      have k: "entries d k = Some e" "a \<le> k" using f(4) e by (auto simp: least_entry_def)
      have m: "entries_ok (table_zone d) (entries d)" using less.prems(1) by (simp add: table_ok_def)
      note K = entries_okD [OF m k(1)]
      define x where x: "x = min b (entry_to e)"
      have b: "0 \<le> x" "a \<le> x" "x \<le> b" "x \<le> 0xffff" using less.prems K e True unfolding x by auto
      note T = overlap_turn_ok [OF D(1) _ _ less.prems(3) _ less.prems(4,5) refl x, unfolded D(2), of k, unfolded D(3)]
      let ?d' = "overlap_turn a b v k e ?d"
      have T': "table_ok ?d'" "separated (entries ?d') (x + 1)"
          "choices ?d' = with_choice a x v (choices d)"
        using T f(4) less.prems(2) e K(1) by auto
      have "uc16 (entry_from e - 1) = entry_from e - 1" if "a < entry_from e" using that less.prems K e by (intro uc16_id) auto
      moreover have "uc16 (b + 1) = b + 1" if "b < entry_to e" using that less.prems K True by (intro uc16_id) auto
      ultimately have l: "add_loop a b v d = (if x = kMaxUC16CharCode then Some ?d' else add_loop (uc16 (x + 1)) b v ?d')"
        using True f(1) e by (subst add_loop.simps) (auto simp: overlap_turn_def x min_def Let_def)
      show ?thesis
      proof (cases "x = 0xffff")
        case True
        then have "x = b" using b less.prems by simp
        then show ?thesis using T' l True by (auto simp: kMaxUC16CharCode_def)
      next
        case False
        then have u: "uc16 (x + 1) = x + 1" using b by (intro uc16_id) auto
        obtain d'' where "add_loop (x + 1) b v ?d' = Some d''" "table_ok d''"
            "choices d'' = with_choice (x + 1) b v (choices ?d')"
          using less.hyps [of "x + 1" ?d'] T'(1,2) less.prems b by force
        moreover have "with_choice (x + 1) b v (choices ?d') = with_choice a b v (choices d)"
          using T'(3) b by (auto simp: with_choice_def fun_eq_iff)
        ultimately show ?thesis using l u False by (simp add: kMaxUC16CharCode_def)
      qed
    qed
  qed
qed

lemma split_left_ok:
  assumes d: "table_ok d" and a: "0 \<le> a" "a \<le> 0xffff"
  shows "table_ok (split_left a d) \<and> separated (entries (split_left a d)) a \<and> choices (split_left a d) = choices d"
proof -
  have t: "search_tree (table_tree d)" and m: "entries_ok (table_zone d) (entries d)" using d by (simp_all add: table_ok_def)
  obtain t' found where f: "FindGreatestLessThan a (table_tree d) = (t', found)" "search_tree t'" "tree_map t' = tree_map (table_tree d)"
      "greatest_entry (entries d) a found"
    using ordered_tree.lower_ok [OF t] unfolding entries_def by blast
  let ?d = "d \<lparr>table_tree := t'\<rparr>"
  note D = table_ok_splayed [OF d f(2,3)]
  show ?thesis
  proof (cases "\<exists>k e. found = Some (k, e) \<and> entry_from e < a \<and> a \<le> entry_to e")
    case True
    then obtain k e where e: "found = Some (k, e)" "entry_from e < a" "a \<le> entry_to e" by blast
    then have k: "entries ?d k = Some e" using f(4) D(2) by (simp add: greatest_entry_def)
    then have kf: "entry_from e = k" "0 \<le> k" using entries_okD(1,2) [OF m] D(2) by auto
    then have u: "uc16 (a - 1) = a - 1" using a e by (intro uc16_id) auto
    have s: "split_left a d = put_entry (a - 1 + 1) (entry_to e) (entry_out e) (set_to k (a - 1) ?d)"
      using f(1) e u by (simp add: split_left_def)
    have x: "k \<le> a - 1" "a - 1 < entry_to e" using kf e by auto
    note C = cut_ok [OF D(1) k x s]
    have "separated (entries (split_left a d)) (a - 1 + 1)"
      using table_separated [OF C(1,3)] by simp
    then show ?thesis using C D by simp
  next
    case False
    then have s: "split_left a d = ?d" using f(1) by (auto simp: split_left_def Let_def split: option.splits)
    have "separated (entries d) a" unfolding separated_def
    proof (intro allI impI)
      fix i v assume i: "entries d i = Some v" "i < a"
      then obtain k e where e: "found = Some (k, e)" "entries d k = Some e" "k \<le> a" "i \<le> k"
        using greatest_entry_bound [OF f(4)] by (meson less_imp_le)
      then show "entry_to v < a" using False i entries_okD(1,6) [OF m] by (cases "i = k") force+
    qed
    then show ?thesis using s D by simp
  qed
qed

lemma AddRange_ok:
  assumes d: "table_ok d" and r: "valid r" and v: "v < 32"
  shows "\<exists>d'. AddRange r v d = Some d' \<and> table_ok d' \<and>
    choices d' = with_choice (range_from r) (range_to r) v (choices d)"
proof (cases "table_tree d = Null")
  case True
  then have "free (entries d) (range_from r) (range_to r)" by (simp add: free_def entries_def tree_map_def)
  then show ?thesis using put_extended_ok(1,4) [OF d _ _ _ _ v] r True by (simp add: AddRange_def valid_def)
next
  case False
  have r': "0 \<le> range_from r" "range_from r \<le> 0xffff" "range_to r \<le> 0xffff" using r by (auto simp: valid_def)
  note S = split_left_ok [OF d r'(1,2)]
  show ?thesis using add_loop_ok [OF S [THEN conjunct1] S [THEN conjunct2, THEN conjunct1] r'(1,3) v] S False by (simp add: AddRange_def)
qed

lemma DispatchTable_Get_ok:
  assumes d: "table_ok d"
  obtains d' s where "DispatchTable_Get c d = (d', s)" "table_ok d'" "choices d' = choices d" "elements (table_zone d') s = choices d c"
proof -
  have t: "search_tree (table_tree d)" and m: "entries_ok (table_zone d) (entries d)" using d by (simp_all add: table_ok_def)
  then have dis: "disjoint entry_to (tree_map (table_tree d))" by (simp add: entries_ok_def entries_def)
  have emp: "elements (table_zone d) (table_empty d) = {}" using d by (simp add: table_ok_def zone_ok_def)
  obtain t' found where f: "FindGreatestLessThan c (table_tree d) = (t', found)" "search_tree t'" "tree_map t' = tree_map (table_tree d)"
      "\<And>e. interval_at entry_to (entries d) c e \<longleftrightarrow> (\<exists>k. found = Some (k, e) \<and> c \<le> entry_to e)"
    by (rule ordered_tree.lower_neighbour_interval [OF t dis, of c], rule that) (assumption | simp add: entries_def)+
  note D = table_ok_splayed [OF d f(2,3)]
  have "elements (table_zone d) (case found of None \<Rightarrow> table_empty d | Some (k, e) \<Rightarrow> if c \<le> entry_to e then entry_out e else table_empty d) = choices d c"
    unfolding choices_def selects_def f(4) using emp by (auto split: option.splits)
  moreover have "DispatchTable_Get c d = (d \<lparr>table_tree := t'\<rparr>,
      case found of None \<Rightarrow> table_empty d | Some (k, e) \<Rightarrow> if c \<le> entry_to e then entry_out e else table_empty d)"
    using f(1) by (simp add: DispatchTable_Get_def Let_def split: option.splits)
  ultimately show ?thesis using that [OF _ D(1,3)] by simp
qed


section \<open>Building a table\<close>

text \<open>A table that is filled range by range, as the clients of \<open>AddRange\<close> do.\<close>

fun add_ranges :: "(char_range \<times> nat) list \<Rightarrow> dispatch_table \<Rightarrow> dispatch_table option" where
  "add_ranges [] d = Some d"
| "add_ranges ((r, v) # rs) d = (case AddRange r v d of None \<Rightarrow> None | Some d \<Rightarrow> add_ranges rs d)"

definition range_choices :: "(char_range \<times> nat) list \<Rightarrow> int \<Rightarrow> nat set" where
  "range_choices rs c = {v. \<exists>r. (r, v) \<in> set rs \<and> range_from r \<le> c \<and> c \<le> range_to r}"

lemma range_choices_simps [simp]:
  "range_choices [] c = {}"
  "range_choices ((r, v) # rs) c = (if range_from r \<le> c \<and> c \<le> range_to r then {v} else {}) \<union> range_choices rs c"
  "range_choices (rs @ qs) c = range_choices rs c \<union> range_choices qs c"
  by (auto simp: range_choices_def)

lemma add_ranges_append: "add_ranges (rs @ qs) d = Option.bind (add_ranges rs d) (add_ranges qs)"
  by (induction rs d rule: add_ranges.induct) (auto split: option.splits)

lemma add_ranges_ok:
  "table_ok d \<Longrightarrow> \<forall>(r, v)\<in>set rs. valid r \<and> v < 32 \<Longrightarrow>
   \<exists>d'. add_ranges rs d = Some d' \<and> table_ok d' \<and> choices d' = (\<lambda>c. choices d c \<union> range_choices rs c)"
proof (induction rs d rule: add_ranges.induct)
  case (2 r v rs d)
  obtain d1 where 1: "AddRange r v d = Some d1" "table_ok d1" "choices d1 = with_choice (range_from r) (range_to r) v (choices d)"
    using AddRange_ok 2(2,3) by fastforce
  then show ?case using "2.IH" [OF 1(1,2)] 2(3) by (auto simp: with_choice_def fun_eq_iff)
qed simp

lemma new_ok:
  assumes "small z"
  shows "table_ok (DispatchTable_new z)" "choices (DispatchTable_new z) = (\<lambda>c. {})"
proof -
  let ?z = "table_zone (DispatchTable_new z)"
  have S: "sets ?z = sets z @ [\<lparr>first = 0, remaining = None, successors = None\<rparr>]" by (simp add: DispatchTable_new_def OutSet_new_def)
  have old: "elements ?z s = elements z s" if "s < length (sets z)" for s
    using assms that S elements_small [of ?z s] elements_small [of z s] by (simp add: small_def nth_append)
  have new: "elements ?z (length (sets z)) = {}" using S elements_small [of ?z "length (sets z)"] by (simp add: nth_append)
  have "small ?z" unfolding small_def
  proof (intro allI impI conjI ballI)
    fix i assume i: "i < length (sets ?z)"
    then show "remaining (sets ?z ! i) = None" using assms S by (auto simp: small_def nth_append less_Suc_eq)
    fix ss t assume t: "successors (sets ?z ! i) = Some ss" "t \<in> set ss"
    then have "i < length (sets z)" using i S by (auto simp: nth_append less_Suc_eq split: if_splits)
    then show "t < length (sets ?z)" "\<exists>v. elements ?z t = insert v (elements ?z i)"
      using assms t S old by (fastforce simp: small_def nth_append)+
  qed
  then show "table_ok (DispatchTable_new z)" using new S
    by (auto simp: table_ok_def zone_ok_def entries_ok_def disjoint_def entries_def tree_map_def DispatchTable_new_def OutSet_new_def)
  show "choices (DispatchTable_new z) = (\<lambda>c. {})"
    by (auto simp: choices_def selects_iff fun_eq_iff entries_def tree_map_def DispatchTable_new_def OutSet_new_def)
qed

lemma build_ok:
  assumes "small z" "\<forall>(r, v)\<in>set rs. valid r \<and> v < 32"
  shows "\<exists>d. add_ranges rs (DispatchTable_new z) = Some d \<and> table_ok d \<and> choices d = range_choices rs"
  using add_ranges_ok [OF new_ok(1) [OF assms(1)] assms(2)] new_ok(2) [OF assms(1)] by simp

text \<open>What \<open>Get\<close> answers, as a set.\<close>

definition lookup :: "dispatch_table \<Rightarrow> int \<Rightarrow> nat set" where
  "lookup d c = (let (d, s) = DispatchTable_Get c d in elements (table_zone d) s)"

lemma lookup_ok: "table_ok d \<Longrightarrow> lookup d c = choices d c"
  by (rule DispatchTable_Get_ok [of d c]) (simp_all add: lookup_def)

section \<open>Splitting a class\<close>

definition kInBase :: nat where "kInBase = 0"
definition kInOverlay :: nat where "kInOverlay = 1"

definition add_target :: "char_range \<Rightarrow> char_range list option \<Rightarrow> char_range list option" where
  "add_target r target = Some ((case target of None \<Rightarrow> [] | Some rs \<Rightarrow> rs) @ [r])"

definition CharacterRangeSplitter_Call :: "zone \<Rightarrow> int \<Rightarrow> entry \<Rightarrow> char_range list option \<times> char_range list option \<Rightarrow>
    char_range list option \<times> char_range list option" where
  "CharacterRangeSplitter_Call z k e = (\<lambda>(included, excluded).
     if \<not> OutSet_Get z (entry_out e) kInBase then (included, excluded)
     else let r = CharacterRange (entry_from e) (entry_to e)
       in if OutSet_Get z (entry_out e) kInOverlay then (add_target r included, excluded) else (included, add_target r excluded))"

fun overlay_ranges :: "int list \<Rightarrow> char_range list" where
  "overlay_ranges (a # b # overlay) = CharacterRange a b # overlay_ranges overlay"
| "overlay_ranges _ = []"

definition Split :: "zone \<Rightarrow> char_range list \<Rightarrow> int list \<Rightarrow> (char_range list option \<times> char_range list option) option" where
  "Split z base overlay =
     (case add_ranges (map (\<lambda>r. (r, kInBase)) base @ map (\<lambda>r. (r, kInOverlay)) (overlay_ranges overlay)) (DispatchTable_new z) of
        None \<Rightarrow> None
      | Some d \<Rightarrow> Some (fold (\<lambda>(k, e). CharacterRangeSplitter_Call (table_zone d) k e) (ForEach (table_tree d)) (None, None)))"


text \<open>The characters of a list that may be missing.\<close>

definition target_chars :: "char_range list option \<Rightarrow> int set" where
  "target_chars target = (case target of None \<Rightarrow> {} | Some rs \<Rightarrow> chars rs)"

lemma target_chars_add [simp]: "target_chars (add_target r target) = target_chars target \<union> {range_from r..range_to r}"
  by (auto simp: target_chars_def add_target_def split: option.splits)

lemma Call_ok:
  assumes "entry_ok z k e" "CharacterRangeSplitter_Call z k e (i, x) = (i', x')"
  shows "target_chars i' = target_chars i \<union> (if {0, 1} \<subseteq> elements z (entry_out e) then {k..entry_to e} else {})"
    "target_chars x' = target_chars x \<union> (if 0 \<in> elements z (entry_out e) \<and> 1 \<notin> elements z (entry_out e) then {k..entry_to e} else {})"
  using assms by (auto simp: CharacterRangeSplitter_Call_def elements_def kInBase_def kInOverlay_def Let_def CharacterRange_def entry_ok_def
    split: if_splits)

lemma Calls_ok:
  "\<forall>(k, e)\<in>set es. entry_ok z k e \<Longrightarrow> fold (\<lambda>(k, e). CharacterRangeSplitter_Call z k e) es (i, x) = (i', x') \<Longrightarrow>
   target_chars i' = target_chars i \<union> (\<Union>(k, e)\<in>set es. if {0, 1} \<subseteq> elements z (entry_out e) then {k..entry_to e} else {}) \<and>
   target_chars x' = target_chars x \<union>
     (\<Union>(k, e)\<in>set es. if 0 \<in> elements z (entry_out e) \<and> 1 \<notin> elements z (entry_out e) then {k..entry_to e} else {})"
proof (induction es arbitrary: i x)
  case (Cons p es)
  obtain k e where p: "p = (k, e)" by force
  obtain i1 x1 where 1: "CharacterRangeSplitter_Call z k e (i, x) = (i1, x1)" by force
  have k: "entry_ok z k e" using Cons.prems(1) p by simp
  show ?case using Cons.IH [of i1 x1] Cons.prems p 1 unfolding Call_ok [OF k 1] by (simp add: Un_assoc)
qed simp

lemma choices_visited:
  assumes "table_ok d"
  shows "v \<in> choices d c \<longleftrightarrow> (\<exists>(k, e)\<in>set (ForEach (table_tree d)). k \<le> c \<and> c \<le> entry_to e \<and> v \<in> elements (table_zone d) (entry_out e))"
proof -
  have t: "search_tree (table_tree d)" using assms by (simp add: table_ok_def)
  show ?thesis unfolding choices_def selects_iff entries_def ForEach_tree_map [OF t, symmetric] by auto
qed

lemma Split_ok:
  assumes z: "small z" and base: "\<forall>r\<in>set base. valid r" and overlay: "\<forall>r\<in>set (overlay_ranges overlay). valid r"
  shows "\<exists>i x. Split z base overlay = Some (i, x) \<and> target_chars i = chars base \<inter> chars (overlay_ranges overlay) \<and>
    target_chars x = chars base - chars (overlay_ranges overlay)"
proof -
  let ?rs = "map (\<lambda>r. (r, kInBase)) base @ map (\<lambda>r. (r, kInOverlay)) (overlay_ranges overlay)"
  have "\<forall>(r, v)\<in>set ?rs. valid r \<and> v < 32" using base overlay by (auto simp: kInBase_def kInOverlay_def)
  then obtain d where d: "add_ranges ?rs (DispatchTable_new z) = Some d" "table_ok d" "choices d = range_choices ?rs"
    using build_ok [OF z] by blast
  let ?z = "table_zone d"
  have t: "search_tree (table_tree d)" and m: "entries_ok ?z (entries d)" using d(2) by (simp_all add: table_ok_def)
  have ok: "\<forall>(k, e)\<in>set (ForEach (table_tree d)). entry_ok ?z k e"
    using m ForEach_tree_map [OF t] by (auto simp: entries_ok_def entries_def)
  obtain i x where f: "fold (\<lambda>(k, e). CharacterRangeSplitter_Call ?z k e) (ForEach (table_tree d)) (None, None) = (i, x)" by force
  have sel: "choices d c = elements ?z (entry_out e)" if "(k, e) \<in> set (ForEach (table_tree d))" "k \<le> c" "c \<le> entry_to e" for k e c
    using selects_in [OF m] that ForEach_tree_map [OF t] unfolding choices_def by (simp add: entries_def)
  have ch: "0 \<in> choices d c \<longleftrightarrow> c \<in> chars base" "1 \<in> choices d c \<longleftrightarrow> c \<in> chars (overlay_ranges overlay)" for c
    unfolding d(3) by (auto simp: range_choices_def chars_def kInBase_def kInOverlay_def)
  note C = Calls_ok [OF ok f]
  have "target_chars i = {c. 0 \<in> choices d c \<and> 1 \<in> choices d c}"
    using C sel choices_visited [OF d(2), of 0] by (fastforce simp: target_chars_def set_eq_iff split: if_splits)
  moreover have "target_chars x = {c. 0 \<in> choices d c \<and> 1 \<notin> choices d c}"
    using C sel choices_visited [OF d(2), of 0] by (fastforce simp: target_chars_def set_eq_iff split: if_splits)
  moreover have "Split z base overlay = Some (i, x)" using d(1) f by (simp add: Split_def)
  ultimately show ?thesis unfolding ch by auto
qed


section \<open>Adding a complement\<close>

text \<open>The C library's \<open>qsort\<close>, which \<open>Sort\<close> calls, is a parameter: the order of equal elements is not specified.\<close>

fun add_inverse_loop :: "int \<Rightarrow> char_range list \<Rightarrow> nat \<Rightarrow> dispatch_table \<Rightarrow> dispatch_table option" where
  "add_inverse_loop lst [] v d = AddRange (CharacterRange lst kMaxUC16CharCode) v d"
| "add_inverse_loop lst (r # rs) v d =
     (case (if lst < range_from r then AddRange (CharacterRange lst (range_from r - 1)) v d else Some d) of
        None \<Rightarrow> None
      | Some d \<Rightarrow>
          if range_to r \<ge> lst then
            if range_to r = kMaxUC16CharCode then Some d else add_inverse_loop (uc16 (range_to r + 1)) rs v d
          else add_inverse_loop lst rs v d)"

definition AddInverse :: "(char_range list \<Rightarrow> char_range list) \<Rightarrow> char_range list \<Rightarrow> nat \<Rightarrow> dispatch_table \<Rightarrow>
    (char_range list \<times> dispatch_table) option" where
  "AddInverse qsort ranges choice_index d = map_option (Pair (qsort ranges)) (add_inverse_loop 0 (qsort ranges) choice_index d)"

definition outside :: "int \<Rightarrow> char_range list \<Rightarrow> nat \<Rightarrow> (int \<Rightarrow> nat set) \<Rightarrow> int \<Rightarrow> nat set" where
  "outside lst rs v f c = (if lst \<le> c \<and> c \<le> 0xffff \<and> c \<notin> chars rs then insert v (f c) else f c)"

lemma add_inverse_loop_ok:
  "table_ok d \<Longrightarrow> \<forall>r\<in>set rs. valid r \<Longrightarrow> sorted (map range_from rs) \<Longrightarrow> v < 32 \<Longrightarrow> 0 \<le> lst \<Longrightarrow> lst \<le> 0xffff \<Longrightarrow>
   \<exists>d'. add_inverse_loop lst rs v d = Some d' \<and> table_ok d' \<and> choices d' = outside lst rs v (choices d)"
proof (induction lst rs v d rule: add_inverse_loop.induct)
  case (1 lst v d)
  then have "CharacterRange lst kMaxUC16CharCode = \<lparr>range_from = lst, range_to = 0xffff\<rparr>" by (simp add: CharacterRange_def kMaxUC16CharCode_def)
  then show ?case using AddRange_ok [OF 1(1), of "\<lparr>range_from = lst, range_to = 0xffff\<rparr>" v] 1
    by (simp add: valid_def with_choice_def outside_def fun_eq_iff)
next
  case (2 lst r rs v d)
  have r: "0 \<le> range_from r" "range_from r \<le> range_to r" "range_to r \<le> 0xffff" using 2(4) by (auto simp: valid_def)
  have later: "range_from r \<le> c" if "c \<in> chars rs" for c using that 2(5) by (force simp: chars_def)
  obtain d1 where d1: "(if lst < range_from r then AddRange (CharacterRange lst (range_from r - 1)) v d else Some d) = Some d1" "table_ok d1"
    "choices d1 = with_choice lst (range_from r - 1) v (choices d)"
  proof (cases "lst < range_from r")
    case True
    then have "CharacterRange lst (range_from r - 1) = \<lparr>range_from = lst, range_to = range_from r - 1\<rparr>" using 2(7) r by (simp add: CharacterRange_def)
    then show thesis using that AddRange_ok [OF 2(3) _ 2(6), of "CharacterRange lst (range_from r - 1)"] True 2(7) r by (auto simp: valid_def)
  next
    case False
    then show thesis using that [of d] 2(3) by simp
  qed
  consider "range_to r < lst" | "lst \<le> range_to r" "range_to r = 0xffff" | "lst \<le> range_to r" "range_to r < 0xffff" using r by linarith
  then show ?case
  proof cases
    case 1
    then obtain d' where "add_inverse_loop lst rs v d1 = Some d'" "table_ok d'" "choices d' = outside lst rs v (choices d1)"
      using "2.IH"(2) [OF d1(1)] d1(2) 2 by force
    moreover have "outside lst rs v (choices d1) = outside lst (r # rs) v (choices d)"
      using 1 r unfolding d1(3) by (auto simp: outside_def with_choice_def fun_eq_iff)
    ultimately show ?thesis using 1 d1(1) by (simp del: if_split add: if_split_eq1)
  next
    case 2
    have "choices d1 = outside lst (r # rs) v (choices d)"
      using 2 r later unfolding d1(3) by (force simp: outside_def with_choice_def fun_eq_iff)
    then show ?thesis using 2 d1 by (simp add: kMaxUC16CharCode_def)
  next
    case 3
    then have u: "uc16 (range_to r + 1) = range_to r + 1" using r by (intro uc16_id) auto
    obtain d' where "add_inverse_loop (range_to r + 1) rs v d1 = Some d'" "table_ok d'" "choices d' = outside (range_to r + 1) rs v (choices d1)"
      using "2.IH"(1) [OF d1(1)] d1(2) 2 3 u r by (force simp: kMaxUC16CharCode_def)
    moreover have "outside (range_to r + 1) rs v (choices d1) = outside lst (r # rs) v (choices d)"
      using 3 r later unfolding d1(3) by (force simp: outside_def with_choice_def fun_eq_iff)
    ultimately show ?thesis using 3 d1(1) u by (simp add: kMaxUC16CharCode_def)
  qed
qed


section \<open>Properties\<close>

text \<open>
  C27. A dispatch table that is filled range by range, with choices below 32, is a map from characters to sets of choices: no call of
  \<open>AddRange\<close> loops for ever, overlapping ranges are cut where they have to be, and \<open>Get\<close> answers for every character with exactly
  the choices of the ranges the character is in.
\<close>

theorem dispatch_table_maps_characters:
  assumes "small z" and "\<forall>(r, v)\<in>set rs. valid r \<and> v < 32"
  shows "\<exists>d. add_ranges rs (DispatchTable_new z) = Some d \<and> table_ok d \<and> (\<forall>c. lookup d c = range_choices rs c)"
  using build_ok [OF assms] lookup_ok by metis

theorem dispatch_table_maps_characters_witness:
  "\<exists>d. add_ranges [(CharacterRange 0x61 0xffff, 0), (CharacterRange 0x30 0x70, 1), (CharacterRange 0x65 0x66, 5)]
      (DispatchTable_new \<lparr>sets = [], lists = []\<rparr>) = Some d \<and> lookup d 0x30 = {1} \<and> lookup d 0x65 = {0, 1, 5} \<and> lookup d 0xffff = {0}"
proof -
  have "small \<lparr>sets = [], lists = []\<rparr>" by (simp add: small_def)
  moreover have "\<forall>(r, v)\<in>set [(CharacterRange 0x61 0xffff, 0), (CharacterRange 0x30 0x70, 1), (CharacterRange 0x65 0x66, 5)]. valid r \<and> v < (32 :: nat)"
    by (simp add: valid_def CharacterRange_def)
  ultimately show ?thesis using dispatch_table_maps_characters [of "\<lparr>sets = [], lists = []\<rparr>"
      "[(CharacterRange 0x61 0xffff, 0), (CharacterRange 0x30 0x70, 1), (CharacterRange 0x65 0x66, 5)]"]
    by (auto simp: CharacterRange_def)
qed



text \<open>
  \<open>AddInverse\<close> gives its choice to exactly the characters that none of the ranges has, for ranges in any order and overlapping,
  provided that \<open>qsort\<close> sorts.
\<close>

theorem AddInverse_complements:
  assumes "table_ok d" and "\<forall>r\<in>set ranges. valid r" and "choice_index < 32"
    and "mset (qsort ranges) = mset ranges" and "sorted (map range_from (qsort ranges))"
  shows "\<exists>d'. AddInverse qsort ranges choice_index d = Some (qsort ranges, d') \<and> table_ok d' \<and>
    (\<forall>c. lookup d' c = (if 0 \<le> c \<and> c \<le> 0xffff \<and> c \<notin> chars ranges then insert choice_index (lookup d c) else lookup d c))"
proof -
  have s: "set (qsort ranges) = set ranges" using mset_eq_setD [OF assms(4)] .
  have c: "chars (qsort ranges) = chars ranges" unfolding chars_def s ..
  have v: "\<forall>r\<in>set (qsort ranges). valid r" using assms(2) s by simp
  obtain d' where "add_inverse_loop 0 (qsort ranges) choice_index d = Some d'" "table_ok d'" "choices d' = outside 0 (qsort ranges) choice_index (choices d)"
    using add_inverse_loop_ok [OF assms(1) v assms(5,3), of 0] by auto
  then show ?thesis using lookup_ok assms(1) c by (simp add: AddInverse_def outside_def)
qed

theorem AddInverse_complements_witness:
  "\<exists>d'. AddInverse (sort_key range_from) [CharacterRange 0x61 0x7a, CharacterRange 0 0x65] 3 (DispatchTable_new \<lparr>sets = [], lists = []\<rparr>) =
      Some ([CharacterRange 0 0x65, CharacterRange 0x61 0x7a], d') \<and> lookup d' 0x7b = {3} \<and> lookup d' 0x61 = {}"
proof -
  let ?d = "DispatchTable_new \<lparr>sets = [], lists = []\<rparr>"
  have "small \<lparr>sets = [], lists = []\<rparr>" by (simp add: small_def)
  then have d: "table_ok ?d" "choices ?d = (\<lambda>c. {})" using new_ok by blast+
  have "\<forall>r\<in>set [CharacterRange 0x61 0x7a, CharacterRange 0 0x65]. valid r" by (simp add: valid_def CharacterRange_def)
  then show ?thesis
    using AddInverse_complements [OF d(1), of "[CharacterRange 0x61 0x7a, CharacterRange 0 0x65]" 3 "sort_key range_from"] lookup_ok [OF d(1)] d(2)
    by (auto simp: CharacterRange_def)
qed

end
