(* ===== verification/String_Search.thy ===== *)
theory String_Search
  imports W16_Prelude
begin

text \<open>
  The string search of \<^verbatim>\<open>src/string-search.h\<close>: linear search for short patterns, otherwise a linear search that changes to
  Boyer-Moore-Horspool and then to Boyer-Moore as it does badly.  Characters are numbers; \<open>psize\<close> and \<open>ssize\<close> are the sizes of the
  characters of pattern and subject in bytes, the template parameters of the class.  The tables belong to the thread and are
  part of the state; a table is the function of its (biased) index.  Positions are integers as in the code, the answer \<open>-1\<close>
  stands for no match, and \<open>None\<close> for a loop that does not end.
\<close>

section \<open>The program\<close>

datatype strategy = FailSearch | SingleCharSearch | LinearSearch | InitialSearch | BoyerMooreHorspoolSearch | BoyerMooreSearch

record string_search =
  psize :: nat
  ssize :: nat
  pattern :: "nat list"
  start :: int
  strategy :: strategy
  bad_char_table :: "int \<Rightarrow> int"
  good_suffix_shift_table :: "int \<Rightarrow> int"
  suffix_table :: "int \<Rightarrow> int"

definition kBMMaxShift :: int where "kBMMaxShift = 250"
definition kAsciiAlphabetSize :: int where "kAsciiAlphabetSize = 128"
definition kUC16AlphabetSize :: int where "kUC16AlphabetSize = 256"
definition kBMMinPatternLength :: int where "kBMMinPatternLength = 7"
definition kMaxAsciiCharCode :: nat where "kMaxAsciiCharCode = 127"

definition at_pos :: "nat list \<Rightarrow> int \<Rightarrow> nat" where
  "at_pos xs i = xs ! nat i"

definition len :: "nat list \<Rightarrow> int" where
  "len xs = int (length xs)"

definition IsAsciiString :: "nat list \<Rightarrow> bool" where
  "IsAsciiString xs \<longleftrightarrow> (\<forall>c\<in>set xs. c \<le> kMaxAsciiCharCode)"

text \<open>The constructor; the tables are those that the thread has.\<close>

definition StringSearch :: "nat \<Rightarrow> nat \<Rightarrow> nat list \<Rightarrow> (int \<Rightarrow> int) \<times> (int \<Rightarrow> int) \<times> (int \<Rightarrow> int) \<Rightarrow> string_search" where
  "StringSearch ps ss pat tables =
     \<lparr>psize = ps, ssize = ss, pattern = pat, start = max 0 (len pat - kBMMaxShift),
      strategy =
        (if ps > ss \<and> \<not> IsAsciiString pat then FailSearch
         else if len pat < kBMMinPatternLength then if len pat = 1 then SingleCharSearch else LinearSearch
         else InitialSearch),
      bad_char_table = fst tables, good_suffix_shift_table = fst (snd tables), suffix_table = snd (snd tables)\<rparr>"

definition AlphabetSize :: "string_search \<Rightarrow> int" where
  "AlphabetSize s = (if psize s = 1 then kAsciiAlphabetSize else kUC16AlphabetSize)"

definition CharOccurrence :: "string_search \<Rightarrow> nat \<Rightarrow> int" where
  "CharOccurrence s c =
     (if ssize s = 1 then bad_char_table s (int c)
      else if psize s = 1 then if c > kMaxAsciiCharCode then -1 else bad_char_table s (int c)
      else bad_char_table s (int c mod kUC16AlphabetSize))"

subsection \<open>Linear search\<close>

text \<open>The library's \<open>memchr\<close> on the subject, for \<open>n\<close> characters from position \<open>i\<close>.\<close>

definition memchr :: "nat list \<Rightarrow> int \<Rightarrow> nat \<Rightarrow> int \<Rightarrow> int option" where
  "memchr subject i c n = find (\<lambda>k. at_pos subject k = c) [i..i + n - 1]"

function single_loop :: "nat list \<Rightarrow> nat \<Rightarrow> int \<Rightarrow> int" where
  "single_loop subject c i =
     (if i < len subject then if at_pos subject i = c then i else single_loop subject c (i + 1) else -1)"
  by pat_completeness auto

termination
  by (relation "measure (\<lambda>(subject, _, i). nat (len subject - i))") auto

declare single_loop.simps [simp del]

definition run_SingleCharSearch :: "string_search \<Rightarrow> nat list \<Rightarrow> int \<Rightarrow> int" where
  "run_SingleCharSearch s subject index =
     (let pattern_first_char = at_pos (pattern s) 0
      in if ssize s = 1 \<and> psize s = 1 then
           (case memchr subject index pattern_first_char (len subject - index) of None \<Rightarrow> -1 | Some p \<Rightarrow> p)
         else if psize s > ssize s \<and> pattern_first_char > kMaxAsciiCharCode then -1
         else single_loop subject pattern_first_char index)"

text \<open>\<open>CharCompare\<close> of \<open>n\<close> characters of the pattern from \<open>p\<close> with the subject from \<open>i\<close>.\<close>

fun CharCompare :: "nat list \<Rightarrow> int \<Rightarrow> nat list \<Rightarrow> int \<Rightarrow> nat \<Rightarrow> bool" where
  "CharCompare pat p subject i 0 = True"
| "CharCompare pat p subject i (Suc n) = (if at_pos pat p \<noteq> at_pos subject i then False else CharCompare pat (p + 1) subject (i + 1) n)"

lemma memchr_bounds: "memchr subject i c n = Some p \<Longrightarrow> i \<le> p \<and> p < i + n"
  by (auto simp: memchr_def find_Some_iff nth_upto)

function linear_loop :: "bool \<Rightarrow> nat list \<Rightarrow> nat list \<Rightarrow> int \<Rightarrow> int" where
  "linear_loop bytes pat subject i =
     (let n = len subject - len pat
      in if i \<le> n then
           (case (if bytes then memchr subject i (at_pos pat 0) (n - i + 1) else Some i) of
              None \<Rightarrow> -1
            | Some p \<Rightarrow>
                if \<not> bytes \<and> at_pos subject p \<noteq> at_pos pat 0 then linear_loop bytes pat subject (p + 1)
                else if CharCompare pat 1 subject (p + 1) (length pat - 1) then p
                else linear_loop bytes pat subject (p + 1))
         else -1)"
  by pat_completeness auto

termination
  by (relation "measure (\<lambda>(_, pat, subject, i). nat (len subject - len pat + 1 - i))")
    (auto dest: memchr_bounds split: if_splits)

declare linear_loop.simps [simp del]

definition run_LinearSearch :: "string_search \<Rightarrow> nat list \<Rightarrow> int \<Rightarrow> int" where
  "run_LinearSearch s subject index = linear_loop (ssize s = 1 \<and> psize s = 1) (pattern s) subject index"

subsection \<open>Boyer-Moore\<close>

text \<open>The comparison from the right: the position of the first character that differs, or \<open>-1\<close>.\<close>

function match_back :: "nat list \<Rightarrow> nat list \<Rightarrow> int \<Rightarrow> int \<Rightarrow> int" where
  "match_back pat subject index j =
     (if j \<ge> 0 \<and> at_pos pat j = at_pos subject (index + j) then match_back pat subject index (j - 1) else j)"
  by pat_completeness auto

termination
  by (relation "measure (\<lambda>(_, _, _, j). nat (j + 1))") auto

declare match_back.simps [simp del]

partial_function (option) boyer_moore_loop :: "string_search \<Rightarrow> nat list \<Rightarrow> int \<Rightarrow> int option" where
  "boyer_moore_loop s subject index =
     (let last_char = at_pos (pattern s) (len (pattern s) - 1);
          j = len (pattern s) - 1
      in if index \<le> len subject - len (pattern s) then
           (let c = at_pos subject (index + j)
            in if last_char \<noteq> c then boyer_moore_loop s subject (index + (j - CharOccurrence s c))
               else
                 (let j = match_back (pattern s) subject index j
                  in if j < 0 then Some index
                     else if j < start s
                     then boyer_moore_loop s subject (index + (len (pattern s) - 1 - CharOccurrence s last_char))
                     else
                       (let c = at_pos subject (index + j);
                            gs_shift = good_suffix_shift_table s (j + 1);
                            shift = j - CharOccurrence s c
                        in boyer_moore_loop s subject (index + (if gs_shift > shift then gs_shift else shift)))))
         else Some (-1))"

declare boyer_moore_loop.simps [code]

definition run_BoyerMooreSearch :: "string_search \<Rightarrow> nat list \<Rightarrow> int \<Rightarrow> int option" where
  "run_BoyerMooreSearch s subject index = boyer_moore_loop s subject index"

text \<open>The table of shifts: the loops of \<open>PopulateBoyerMooreTable\<close>, with the two tables and the current suffix as state.\<close>

partial_function (option) suffix_loop :: "nat list \<Rightarrow> int \<Rightarrow> int \<Rightarrow> (int \<Rightarrow> int) \<Rightarrow> (int \<Rightarrow> int) \<Rightarrow> int \<Rightarrow> ((int \<Rightarrow> int) \<times> int) option" where
  "suffix_loop pat length_tab i shift_table suffix_tab suffix =
     (if suffix \<le> len pat \<and> at_pos pat (i - 1) \<noteq> at_pos pat (suffix - 1)
      then suffix_loop pat length_tab i
        (if shift_table suffix = length_tab then shift_table(suffix := suffix - i) else shift_table) suffix_tab (suffix_tab suffix)
      else Some (shift_table, suffix))"

declare suffix_loop.simps [code]

function last_char_loop :: "nat list \<Rightarrow> int \<Rightarrow> int \<Rightarrow> int \<Rightarrow> (int \<Rightarrow> int) \<Rightarrow> (int \<Rightarrow> int) \<Rightarrow> int \<times> (int \<Rightarrow> int) \<times> (int \<Rightarrow> int)" where
  "last_char_loop pat lo length_tab i shift_table suffix_tab =
     (if i > lo \<and> at_pos pat (i - 1) \<noteq> at_pos pat (len pat - 1)
      then last_char_loop pat lo length_tab (i - 1)
        (if shift_table (len pat) = length_tab then shift_table(len pat := len pat - i) else shift_table) (suffix_tab(i - 1 := len pat))
      else (i, shift_table, suffix_tab))"
  by pat_completeness auto

termination
  by (relation "measure (\<lambda>(_, lo, _, i, _). nat (i - lo))") auto

declare last_char_loop.simps [simp del]

partial_function (option) find_suffixes :: "nat list \<Rightarrow> int \<Rightarrow> int \<Rightarrow> int \<Rightarrow> (int \<Rightarrow> int) \<Rightarrow> (int \<Rightarrow> int) \<Rightarrow> int \<Rightarrow> ((int \<Rightarrow> int) \<times> (int \<Rightarrow> int) \<times> int) option" where
  "find_suffixes pat lo length_tab i shift_table suffix_tab suffix =
     (if i > lo then
        (case suffix_loop pat length_tab i shift_table suffix_tab suffix of
           None \<Rightarrow> None
         | Some (shift_table, suffix) \<Rightarrow>
             (let i = i - 1;
                  suffix = suffix - 1;
                  suffix_tab = suffix_tab(i := suffix)
              in if suffix = len pat then
                   (let (i, shift_table, suffix_tab) = last_char_loop pat lo length_tab i shift_table suffix_tab
                    in if i > lo then find_suffixes pat lo length_tab (i - 1) shift_table (suffix_tab(i - 1 := suffix - 1)) (suffix - 1)
                       else find_suffixes pat lo length_tab i shift_table suffix_tab suffix)
                 else find_suffixes pat lo length_tab i shift_table suffix_tab suffix))
      else Some (shift_table, suffix_tab, suffix))"

declare find_suffixes.simps [code]

definition use_suffix :: "int \<Rightarrow> int \<Rightarrow> (int \<Rightarrow> int) \<Rightarrow> int \<Rightarrow> (int \<Rightarrow> int) \<times> int \<Rightarrow> (int \<Rightarrow> int) \<times> int" where
  "use_suffix lo length_tab suffix_tab i = (\<lambda>(shift_table, suffix).
     (if shift_table i = length_tab then shift_table(i := suffix - lo) else shift_table, if i = suffix then suffix_tab suffix else suffix))"

definition PopulateBoyerMooreTable :: "string_search \<Rightarrow> string_search option" where
  "PopulateBoyerMooreTable s =
     (let n = len (pattern s);
          length_tab = n - start s;
          shift_table = fold (\<lambda>i t. t(i := length_tab)) [start s..n - 1] (good_suffix_shift_table s);
          shift_table = shift_table(n := 1);
          suffix_tab = (suffix_table s)(n := n + 1)
      in case find_suffixes (pattern s) (start s) length_tab n shift_table suffix_tab (n + 1) of
           None \<Rightarrow> None
         | Some (shift_table, suffix_tab, suffix) \<Rightarrow>
             (let shift_table =
                (if suffix < n then fst (fold (use_suffix (start s) length_tab suffix_tab) [start s..n] (shift_table, suffix)) else shift_table)
              in Some (s \<lparr>good_suffix_shift_table := shift_table, suffix_table := suffix_tab\<rparr>)))"

subsection \<open>Boyer-Moore-Horspool\<close>

definition PopulateBoyerMooreHorspoolTable :: "string_search \<Rightarrow> string_search" where
  "PopulateBoyerMooreHorspoolTable s =
     (let table = fold (\<lambda>i t. t(i := (if start s = 0 then -1 else start s - 1))) [0..AlphabetSize s - 1] (bad_char_table s);
          table = fold (\<lambda>i t. let c = at_pos (pattern s) i in t(if psize s = 1 then int c else int c mod AlphabetSize s := i))
            [start s..len (pattern s) - 2] table
      in s \<lparr>bad_char_table := table\<rparr>)"

partial_function (option) horspool_loop :: "string_search \<Rightarrow> nat list \<Rightarrow> int \<Rightarrow> int \<Rightarrow> (int \<times> string_search) option" where
  "horspool_loop s subject index badness =
     (let last_char = at_pos (pattern s) (len (pattern s) - 1);
          last_char_shift = len (pattern s) - 1 - CharOccurrence s last_char;
          j = len (pattern s) - 1
      in if index \<le> len subject - len (pattern s) then
           (let subject_char = at_pos subject (index + j)
            in if last_char \<noteq> subject_char
               then (let shift = j - CharOccurrence s subject_char in horspool_loop s subject (index + shift) (badness + 1 - shift))
               else
                 (let j = match_back (pattern s) subject index (j - 1)
                  in if j < 0 then Some (index, s)
                     else
                       (let index = index + last_char_shift;
                            badness = badness + (len (pattern s) - j) - last_char_shift
                        in if badness > 0 then
                             (case PopulateBoyerMooreTable s of
                                None \<Rightarrow> None
                              | Some s \<Rightarrow>
                                  (let s = s \<lparr>strategy := BoyerMooreSearch\<rparr>
                                   in map_option (\<lambda>r. (r, s)) (run_BoyerMooreSearch s subject index)))
                           else horspool_loop s subject index badness)))
         else Some (-1, s))"

declare horspool_loop.simps [code]

definition run_BoyerMooreHorspoolSearch :: "string_search \<Rightarrow> nat list \<Rightarrow> int \<Rightarrow> (int \<times> string_search) option" where
  "run_BoyerMooreHorspoolSearch s subject start_index = horspool_loop s subject start_index (- len (pattern s))"

subsection \<open>The initial search\<close>

function match_forward :: "nat list \<Rightarrow> nat list \<Rightarrow> int \<Rightarrow> int \<Rightarrow> int" where
  "match_forward pat subject i j =
     (if j < len pat then if at_pos pat j \<noteq> at_pos subject (i + j) then j else match_forward pat subject i (j + 1) else j)"
  by pat_completeness auto

termination
  by (relation "measure (\<lambda>(pat, _, _, j). nat (len pat - j))") auto

declare match_forward.simps [simp del]

function initial_loop :: "string_search \<Rightarrow> nat list \<Rightarrow> int \<Rightarrow> int \<Rightarrow> (int \<times> string_search) option" where
  "initial_loop s subject i badness =
     (let n = len subject - len (pattern s);
          bytes = (ssize s = 1 \<and> psize s = 1)
      in if i \<le> n then
           (let badness = badness + 1
            in if badness \<le> 0 then
                 (case (if bytes then memchr subject i (at_pos (pattern s) 0) (n - i + 1) else Some i) of
                    None \<Rightarrow> Some (-1, s)
                  | Some p \<Rightarrow>
                      if \<not> bytes \<and> at_pos subject p \<noteq> at_pos (pattern s) 0 then initial_loop s subject (p + 1) badness
                      else
                        (let j = match_forward (pattern s) subject p 1
                         in if j = len (pattern s) then Some (p, s) else initial_loop s subject (p + 1) (badness + j)))
               else
                 (let s = (PopulateBoyerMooreHorspoolTable s) \<lparr>strategy := BoyerMooreHorspoolSearch\<rparr>
                  in run_BoyerMooreHorspoolSearch s subject i))
         else Some (-1, s))"
  by pat_completeness auto

termination
  by (relation "measure (\<lambda>(s, subject, i, _). nat (len subject - len (pattern s) + 1 - i))")
    (auto dest: memchr_bounds split: if_splits)

declare initial_loop.simps [simp del]

definition run_InitialSearch :: "string_search \<Rightarrow> nat list \<Rightarrow> int \<Rightarrow> (int \<times> string_search) option" where
  "run_InitialSearch s subject index = initial_loop s subject index (- 10 - len (pattern s) * 4)"

definition Search :: "string_search \<Rightarrow> nat list \<Rightarrow> int \<Rightarrow> (int \<times> string_search) option" where
  "Search s subject index =
     (case strategy s of
        FailSearch \<Rightarrow> Some (-1, s)
      | SingleCharSearch \<Rightarrow> Some (run_SingleCharSearch s subject index, s)
      | LinearSearch \<Rightarrow> Some (run_LinearSearch s subject index, s)
      | InitialSearch \<Rightarrow> run_InitialSearch s subject index
      | BoyerMooreHorspoolSearch \<Rightarrow> run_BoyerMooreHorspoolSearch s subject index
      | BoyerMooreSearch \<Rightarrow> map_option (\<lambda>r. (r, s)) (run_BoyerMooreSearch s subject index))"

definition SearchString :: "nat \<Rightarrow> nat \<Rightarrow> (int \<Rightarrow> int) \<times> (int \<Rightarrow> int) \<times> (int \<Rightarrow> int) \<Rightarrow> nat list \<Rightarrow> nat list \<Rightarrow> int \<Rightarrow> int option" where
  "SearchString ps ss tables subject pat start_index = map_option fst (Search (StringSearch ps ss pat tables) subject start_index)"


section \<open>Matches\<close>

definition matches :: "nat list \<Rightarrow> nat list \<Rightarrow> int \<Rightarrow> bool" where
  "matches pat subject i \<longleftrightarrow> 0 \<le> i \<and> i + len pat \<le> len subject \<and> (\<forall>k. 0 \<le> k \<longrightarrow> k < len pat \<longrightarrow> at_pos subject (i + k) = at_pos pat k)"

text \<open>The answer of a search from position \<open>a\<close>.\<close>

definition first_match :: "nat list \<Rightarrow> nat list \<Rightarrow> int \<Rightarrow> int \<Rightarrow> bool" where
  "first_match pat subject a r \<longleftrightarrow>
     (if r = -1 then \<forall>i\<ge>a. \<not> matches pat subject i
      else a \<le> r \<and> matches pat subject r \<and> (\<forall>i. a \<le> i \<longrightarrow> i < r \<longrightarrow> \<not> matches pat subject i))"

lemma matchesD: "matches pat subject i \<Longrightarrow> 0 \<le> k \<Longrightarrow> k < len pat \<Longrightarrow> at_pos subject (i + k) = at_pos pat k"
  by (simp add: matches_def)

lemma first_match_later:
  assumes "first_match pat subject b r" "a \<le> b" "\<And>i. a \<le> i \<Longrightarrow> i < b \<Longrightarrow> \<not> matches pat subject i"
  shows "first_match pat subject a r"
  using assms by (force simp: first_match_def split: if_splits)

lemma first_match_next: "first_match pat subject (a + 1) r \<Longrightarrow> \<not> matches pat subject a \<Longrightarrow> first_match pat subject a r"
  by (rule first_match_later) auto

lemma first_match_here: "matches pat subject a \<Longrightarrow> first_match pat subject a a"
  by (auto simp: first_match_def matches_def)

lemma first_match_end: "len subject - len pat < a \<Longrightarrow> first_match pat subject a (-1)"
  by (auto simp: first_match_def matches_def)

lemma len_pos: "pat \<noteq> [] \<Longrightarrow> 0 < len pat"
  by (cases pat) (auto simp: len_def)

subsection \<open>The linear strategies\<close>

lemma memchr_None: "memchr subject i c n = None \<Longrightarrow> i \<le> k \<Longrightarrow> k < i + n \<Longrightarrow> at_pos subject k \<noteq> c"
  by (auto simp: memchr_def find_None_iff)

lemma memchr_Some:
  assumes "memchr subject i c n = Some p"
  shows "at_pos subject p = c" "i \<le> k \<Longrightarrow> k < p \<Longrightarrow> at_pos subject k \<noteq> c"
proof -
  obtain m where m: "m < length [i..i + n - 1]" "at_pos subject ([i..i + n - 1] ! m) = c" "p = [i..i + n - 1] ! m"
      "\<forall>j<m. at_pos subject ([i..i + n - 1] ! j) \<noteq> c"
    using assms by (auto simp: memchr_def find_Some_iff)
  have p: "p = i + int m" using m(1,3) by (simp add: nth_upto)
  show "at_pos subject p = c" using m by simp
  assume "i \<le> k" "k < p"
  then have "nat (k - i) < m" "k = [i..i + n - 1] ! nat (k - i)" using p m(1) by (auto simp: nth_upto)
  then show "at_pos subject k \<noteq> c" using m(4) by metis
qed

lemma matches_first: "matches pat subject i \<Longrightarrow> pat \<noteq> [] \<Longrightarrow> at_pos subject i = at_pos pat 0"
  using matchesD [of pat subject i 0] len_pos [of pat] by simp

lemma CharCompare_iff: "CharCompare pat p subject i n \<longleftrightarrow> (\<forall>k. 0 \<le> k \<longrightarrow> k < int n \<longrightarrow> at_pos pat (p + k) = at_pos subject (i + k))"
proof (induction n arbitrary: p i)
  case (Suc n)
  show ?case
  proof
    assume *: "CharCompare pat p subject i (Suc n)"
    then have 0: "at_pos pat p = at_pos subject i" "CharCompare pat (p + 1) subject (i + 1) n" by (auto split: if_splits)
    show "\<forall>k. 0 \<le> k \<longrightarrow> k < int (Suc n) \<longrightarrow> at_pos pat (p + k) = at_pos subject (i + k)"
    proof (intro allI impI)
      fix k assume k: "0 \<le> k" "k < int (Suc n)"
      show "at_pos pat (p + k) = at_pos subject (i + k)"
      proof (cases "k = 0")
        case False
        then have "at_pos pat (p + 1 + (k - 1)) = at_pos subject (i + 1 + (k - 1))"
          using 0(2) [unfolded Suc.IH, rule_format, of "k - 1"] k by simp
        then show ?thesis by simp
      qed (use 0 in simp)
    qed
  next
    assume *: "\<forall>k. 0 \<le> k \<longrightarrow> k < int (Suc n) \<longrightarrow> at_pos pat (p + k) = at_pos subject (i + k)"
    have "at_pos pat (p + 1 + k) = at_pos subject (i + 1 + k)" if "0 \<le> k" "k < int n" for k
      using * [rule_format, of "k + 1"] that by (simp add: algebra_simps)
    then show "CharCompare pat p subject i (Suc n)" using * [rule_format, of 0] Suc.IH by simp
  qed
qed simp

lemma matches_split:
  assumes "pat \<noteq> []" "0 \<le> i" "i \<le> len subject - len pat"
  shows "matches pat subject i \<longleftrightarrow> at_pos subject i = at_pos pat 0 \<and> CharCompare pat 1 subject (i + 1) (length pat - 1)"
proof -
  have l: "int (length pat - 1) = len pat - 1" using assms(1) by (cases pat) (auto simp: len_def)
  have "(\<forall>k. 0 \<le> k \<longrightarrow> k < len pat \<longrightarrow> at_pos subject (i + k) = at_pos pat k) \<longleftrightarrow>
      at_pos subject i = at_pos pat 0 \<and> (\<forall>k. 0 \<le> k \<longrightarrow> k < len pat - 1 \<longrightarrow> at_pos pat (1 + k) = at_pos subject (i + 1 + k))" (is "?l = ?r")
  proof
    assume L: ?l
    show ?r using L [rule_format, of 0] L [rule_format, of "1 + k" for k] len_pos [OF assms(1)] by (auto simp: algebra_simps)
  next
    assume R: ?r
    show ?l
    proof (intro allI impI)
      fix k assume "0 \<le> k" "k < len pat"
      then show "at_pos subject (i + k) = at_pos pat k" using R [THEN conjunct2, rule_format, of "k - 1"] R by (cases "k = 0") auto
    qed
  qed
  then show ?thesis using assms(2,3) unfolding CharCompare_iff l by (simp add: matches_def)
qed

text \<open>The place where a linear strategy looks next: that of the first character for byte strings, otherwise the current one.\<close>

lemma next_place_None:
  assumes "(if bytes then memchr subject i (at_pos pat 0) (len subject - len pat - i + 1) else Some i) = None" "pat \<noteq> []"
  shows "first_match pat subject i (-1)"
proof -
  have "memchr subject i (at_pos pat 0) (len subject - len pat - i + 1) = None" using assms(1) by (simp split: if_splits)
  then have "\<not> matches pat subject k" if "i \<le> k" for k
    using memchr_None [of subject i _ _ k] matches_first [of pat subject k] assms(2) that by (auto simp: matches_def)
  then show ?thesis by (simp add: first_match_def)
qed

lemma next_place_Some:
  assumes "(if bytes then memchr subject i (at_pos pat 0) (len subject - len pat - i + 1) else Some i) = Some p" "pat \<noteq> []" "i \<le> len subject - len pat"
  shows "i \<le> p" "p \<le> len subject - len pat" "bytes \<Longrightarrow> at_pos subject p = at_pos pat 0" "i \<le> k \<Longrightarrow> k < p \<Longrightarrow> \<not> matches pat subject k"
  using assms memchr_bounds memchr_Some matches_first by (fastforce split: if_splits)+

lemma linear_loop_ok:
  "pat \<noteq> [] \<Longrightarrow> 0 \<le> i \<Longrightarrow> first_match pat subject i (linear_loop bytes pat subject i)"
proof (induction bytes pat subject i rule: linear_loop.induct)
  case (1 bytes pat subject i)
  let ?n = "len subject - len pat"
  let ?m = "if bytes then memchr subject i (at_pos pat 0) (?n - i + 1) else Some i"
  show ?case
  proof (cases "i \<le> ?n")
    case False
    then show ?thesis using first_match_end by (simp add: linear_loop.simps [of _ _ _ i] Let_def)
  next
    case i: True
    show ?thesis
    proof (cases ?m)
      case None
      then show ?thesis using next_place_None [OF None 1(3)] i by (simp add: linear_loop.simps [of _ _ _ i] Let_def)
    next
      case (Some p)
      note p = next_place_Some [OF Some 1(3) i]
      have split: "matches pat subject p \<longleftrightarrow> at_pos subject p = at_pos pat 0 \<and> CharCompare pat 1 subject (p + 1) (length pat - 1)"
        using matches_split [OF 1(3), of p subject] p(1,2) 1(4) by simp
      show ?thesis
      proof (cases "matches pat subject p")
        case True
        then show ?thesis using first_match_later [OF first_match_here [OF True] p(1) p(4)] split i Some
          by (simp add: linear_loop.simps [of _ _ _ i] Let_def)
      next
        case False
        have "first_match pat subject (p + 1) (linear_loop bytes pat subject (p + 1))"
          using "1.IH" [OF refl i Some] False split p(3) 1(3,4) p(1) by (cases "\<not> bytes \<and> at_pos subject p \<noteq> at_pos pat 0") auto
        then have "first_match pat subject i (linear_loop bytes pat subject (p + 1))"
          using first_match_later [OF first_match_next [OF _ False] p(1) p(4)] by blast
        moreover have "linear_loop bytes pat subject i = linear_loop bytes pat subject (p + 1)"
          using False split p(3) i Some by (subst linear_loop.simps) (auto simp: Let_def)
        ultimately show ?thesis by simp
      qed
    qed
  qed
qed

lemma matches_single: "len pat = 1 \<Longrightarrow> matches pat subject i \<longleftrightarrow> 0 \<le> i \<and> i < len subject \<and> at_pos subject i = at_pos pat 0"
proof -
  assume l: "len pat = 1"
  have k: "0 \<le> k \<and> k < 1 \<longleftrightarrow> k = 0" for k :: int by auto
  show ?thesis unfolding matches_def l imp_conjL [symmetric] k by auto
qed

lemma single_loop_ok: "len pat = 1 \<Longrightarrow> 0 \<le> i \<Longrightarrow> first_match pat subject i (single_loop subject (at_pos pat 0) i)"
proof (induction subject "at_pos pat 0" i rule: single_loop.induct)
  case (1 subject i)
  have m: "matches pat subject i \<longleftrightarrow> i < len subject \<and> at_pos subject i = at_pos pat 0" using matches_single [OF 1(2)] 1(3) by simp
  consider "len subject \<le> i" | "i < len subject" "at_pos subject i = at_pos pat 0" | "i < len subject" "at_pos subject i \<noteq> at_pos pat 0" by linarith
  then show ?case
  proof cases
    case 1
    then show ?thesis using first_match_end [of subject pat i] \<open>len pat = 1\<close> by (simp add: single_loop.simps [of _ _ i])
  next
    case 2
    then show ?thesis using first_match_here m by (simp add: single_loop.simps [of _ _ i])
  next
    case 3
    then have "first_match pat subject (i + 1) (single_loop subject (at_pos pat 0) (i + 1))" using 1(1) \<open>len pat = 1\<close> \<open>0 \<le> i\<close> by simp
    then show ?thesis using first_match_next m 3 by (simp add: single_loop.simps [of _ _ i])
  qed
qed

lemma memchr_single:
  assumes "len pat = 1" "0 \<le> i"
  shows "first_match pat subject i (case memchr subject i (at_pos pat 0) (len subject - i) of None \<Rightarrow> -1 | Some p \<Rightarrow> p)"
proof (cases "memchr subject i (at_pos pat 0) (len subject - i)")
  case None
  then have "\<not> matches pat subject k" if "i \<le> k" for k
    using memchr_None [OF None] matches_single [OF assms(1)] that by auto
  then show ?thesis using None by (simp add: first_match_def)
next
  case (Some p)
  have "matches pat subject p" "i \<le> p" using memchr_bounds [OF Some] memchr_Some(1) [OF Some] matches_single [OF assms(1)] assms(2) by auto
  moreover have "\<not> matches pat subject k" if "i \<le> k" "k < p" for k using memchr_Some(2) [OF Some] matches_single [OF assms(1)] that by auto
  ultimately show ?thesis using Some first_match_later [OF first_match_here] by simp
qed

subsection \<open>Shifts by the occurrence of a character\<close>

text \<open>
  What the strings of the two sizes have: one byte holds an ASCII character; a pattern with larger characters than the subject is
  ASCII too, otherwise the search would have failed at once.
\<close>

definition chars_ok :: "string_search \<Rightarrow> nat list \<Rightarrow> bool" where
  "chars_ok s subject \<longleftrightarrow> (psize s = 1 \<or> psize s = 2) \<and> (ssize s = 1 \<or> ssize s = 2) \<and> (ssize s = 1 \<longrightarrow> IsAsciiString subject) \<and>
     (psize s = 1 \<or> ssize s = 1 \<longrightarrow> IsAsciiString (pattern s))"

definition bad_char_ok :: "string_search \<Rightarrow> bool" where
  "bad_char_ok s \<longleftrightarrow> (\<forall>c. (ssize s = 1 \<longrightarrow> c \<le> kMaxAsciiCharCode) \<longrightarrow> -1 \<le> CharOccurrence s c \<and> CharOccurrence s c < len (pattern s) - 1 \<and>
     (\<forall>k. CharOccurrence s c < k \<longrightarrow> k < len (pattern s) - 1 \<longrightarrow> at_pos (pattern s) k \<noteq> c))"

lemma bad_charD:
  assumes "bad_char_ok s" "ssize s = 1 \<longrightarrow> c \<le> kMaxAsciiCharCode"
  shows "-1 \<le> CharOccurrence s c" "CharOccurrence s c < len (pattern s) - 1"
    "CharOccurrence s c < k \<Longrightarrow> k < len (pattern s) - 1 \<Longrightarrow> at_pos (pattern s) k \<noteq> c"
  using assms unfolding bad_char_ok_def by blast+

lemma subject_char:
  assumes "chars_ok s subject" "0 \<le> i" "i < len subject"
  shows "ssize s = 1 \<longrightarrow> at_pos subject i \<le> kMaxAsciiCharCode"
proof -
  have "at_pos subject i \<in> set subject" using assms(2,3) by (simp add: at_pos_def len_def)
  then show ?thesis using assms(1) by (simp add: chars_ok_def IsAsciiString_def)
qed

text \<open>A shift that aligns the last character of the window, or the one that differs, with its last occurrence skips no match.\<close>

lemma occurrence_shift:
  assumes ok: "bad_char_ok s" "chars_ok s subject" and j: "0 \<le> j" "j < len (pattern s)" and index: "0 \<le> index" "index \<le> len subject - len (pattern s)"
    and here: "\<not> matches (pattern s) subject index" and i: "index \<le> i" "i < index + (j - CharOccurrence s (at_pos subject (index + j)))"
  shows "\<not> matches (pattern s) subject i"
proof (cases "i = index")
  case True
  then show ?thesis using here by simp
next
  case False
  let ?c = "at_pos subject (index + j)" and ?k = "j - (i - index)"
  have "ssize s = 1 \<longrightarrow> ?c \<le> kMaxAsciiCharCode" using subject_char [OF ok(2), of "index + j"] j index by simp
  note B = bad_charD [OF ok(1) this]
  have k: "CharOccurrence s ?c < ?k" "?k < len (pattern s) - 1" using i False j by auto
  have "at_pos (pattern s) ?k \<noteq> ?c" using B(3) k by blast
  moreover have "0 \<le> ?k" using k(1) B(1) by linarith
  ultimately show ?thesis using matchesD [of "pattern s" subject i ?k] k(2) by (auto simp: algebra_simps)
qed

text \<open>The state of the tables that a strategy needs.\<close>

definition window_matches :: "nat list \<Rightarrow> int \<Rightarrow> int \<Rightarrow> int \<Rightarrow> bool" where
  "window_matches pat lo k d \<longleftrightarrow> (\<forall>t. k \<le> t \<longrightarrow> t < len pat \<longrightarrow> lo \<le> t - d \<longrightarrow> at_pos pat (t - d) = at_pos pat t) \<and>
     (lo \<le> k - 1 - d \<longrightarrow> at_pos pat (k - 1 - d) \<noteq> at_pos pat (k - 1))"

definition good_suffix_ok :: "string_search \<Rightarrow> bool" where
  "good_suffix_ok s \<longleftrightarrow> (\<forall>k. start s < k \<longrightarrow> k < len (pattern s) \<longrightarrow> 1 \<le> good_suffix_shift_table s k \<and>
     (\<forall>d. 0 < d \<longrightarrow> d < good_suffix_shift_table s k \<longrightarrow> \<not> window_matches (pattern s) (start s) k d))"

lemma match_back_ok:
  "match_back pat subject index j \<le> max j (-1) \<and> (\<forall>t. match_back pat subject index j < t \<longrightarrow> t \<le> j \<longrightarrow> 0 \<le> t \<longrightarrow> at_pos pat t = at_pos subject (index + t)) \<and>
   (-1 \<le> j \<longrightarrow> -1 \<le> match_back pat subject index j) \<and>
   (0 \<le> match_back pat subject index j \<longrightarrow> at_pos pat (match_back pat subject index j) \<noteq> at_pos subject (index + match_back pat subject index j))"
proof (induction pat subject index j rule: match_back.induct)
  case (1 pat subject index j)
  show ?case
  proof (cases "j \<ge> 0 \<and> at_pos pat j = at_pos subject (index + j)")
    case True
    have m: "match_back pat subject index j = match_back pat subject index (j - 1)" using True by (subst match_back.simps) simp
    let ?r = "match_back pat subject index (j - 1)"
    note I = "1.IH" [OF True]
    have "at_pos pat t = at_pos subject (index + t)" if "?r < t" "t \<le> j" "0 \<le> t" for t
      using I [THEN conjunct2, THEN conjunct1, rule_format, of t] that True by (cases "t = j") auto
    moreover have "?r \<le> max j (-1)" using I [THEN conjunct1] by linarith
    ultimately show ?thesis unfolding m using I [THEN conjunct2, THEN conjunct2] True by auto
  next
    case False
    have m: "match_back pat subject index j = j" using False by (subst match_back.simps) (rule if_not_P)
    show ?thesis unfolding m using False by auto
  qed
qed


lemma match_backD:
  assumes "match_back pat subject index j = r" "-1 \<le> j"
  shows "r \<le> j" "-1 \<le> r" "r < t \<Longrightarrow> t \<le> j \<Longrightarrow> at_pos subject (index + t) = at_pos pat t" "0 \<le> r \<Longrightarrow> at_pos pat r \<noteq> at_pos subject (index + r)"
  using match_back_ok [of pat subject index j] assms by auto

text \<open>A comparison from the right that reaches \<open>-1\<close> has found a match.\<close>

lemma full_window:
  assumes "match_back pat subject index j < 0" "-1 \<le> j" "0 \<le> index" "index \<le> len subject - len pat"
    and "\<And>t. j < t \<Longrightarrow> t < len pat \<Longrightarrow> at_pos subject (index + t) = at_pos pat t"
  shows "matches pat subject index"
proof -
  have r: "match_back pat subject index j = -1" using match_backD(2) [OF refl assms(2), of pat subject index] assms(1) by linarith
  then have "at_pos subject (index + t) = at_pos pat t" if "0 \<le> t" "t < len pat" for t
    using match_backD(3) [OF r assms(2), of t] assms(5) [of t] that by (cases "t \<le> j") auto
  then show ?thesis using assms(3,4) by (simp add: matches_def)
qed

lemma suffix_shift:
  assumes g: "good_suffix_ok s" and r: "match_back (pattern s) subject index (len (pattern s) - 1) = r" "start s \<le> r" "r < len (pattern s) - 1" "0 \<le> start s"
    and i: "index < i" "i < index + good_suffix_shift_table s (r + 1)"
  shows "\<not> matches (pattern s) subject i"
proof
  assume m: "matches (pattern s) subject i"
  let ?d = "i - index"
  have l: "-1 \<le> len (pattern s) - 1" using r by simp
  note B = match_backD [OF r(1) l]
  have "at_pos (pattern s) (t - ?d) = at_pos (pattern s) t" if "r + 1 \<le> t" "t < len (pattern s)" "start s \<le> t - ?d" for t
    using matchesD [OF m, of "t - ?d"] B(3) [of t] that i(1) r(4) by (simp add: algebra_simps)
  moreover have "at_pos (pattern s) (r - ?d) \<noteq> at_pos (pattern s) r" if "start s \<le> r - ?d"
    using matchesD [OF m, of "r - ?d"] B(4) that i(1) r by (simp add: algebra_simps)
  ultimately have "window_matches (pattern s) (start s) (r + 1) ?d" by (simp add: window_matches_def)
  then show False using g i r(2,3) unfolding good_suffix_ok_def by (auto dest!: spec [of _ "r + 1"])
qed

definition search_state :: "string_search \<Rightarrow> bool" where
  "search_state s \<longleftrightarrow> 0 \<le> start s \<and> start s < len (pattern s) - 1 \<and> bad_char_ok s"

lemma boyer_moore_ok:
  assumes s: "search_state s" "good_suffix_ok s" "chars_ok s subject"
  shows "0 \<le> index \<Longrightarrow> \<exists>r. boyer_moore_loop s subject index = Some r \<and> first_match (pattern s) subject index r"
proof (induction "nat (len subject - len (pattern s) + 1 - index)" arbitrary: index rule: less_induct)
  case less
  let ?p = "pattern s" and ?j = "len (pattern s) - 1"
  have st: "0 \<le> start s" "start s < ?j" and bc: "bad_char_ok s" using s(1) by (auto simp: search_state_def)
  have cont: "\<exists>r. boyer_moore_loop s subject (index + d) = Some r \<and> first_match ?p subject index r"
    if d: "1 \<le> d" "index \<le> len subject - len ?p" "\<And>i. index \<le> i \<Longrightarrow> i < index + d \<Longrightarrow> \<not> matches ?p subject i" for d
  proof -
    obtain r where "boyer_moore_loop s subject (index + d) = Some r" "first_match ?p subject (index + d) r"
      using less.hyps [of "index + d"] less.prems d(1,2) by auto
    then show ?thesis using first_match_later [of ?p subject "index + d" r index] d by auto
  qed
  show ?case
  proof (cases "index \<le> len subject - len ?p")
    case False
    then show ?thesis using first_match_end [of subject ?p index] by (simp add: boyer_moore_loop.simps [of _ _ index] Let_def)
  next
    case index: True
    let ?c = "at_pos subject (index + ?j)"
    have skip: "\<not> matches ?p subject i" if "0 \<le> j" "j \<le> ?j" "\<not> matches ?p subject index" "index \<le> i"
        "i < index + (j - CharOccurrence s (at_pos subject (index + j)))" for i j
      using occurrence_shift [OF bc s(3) that(1) _ less.prems index that(3-5)] that(2) by simp
    have occ: "CharOccurrence s ?c < ?j"
      using bad_charD(2) [OF bc subject_char [OF s(3), of "index + ?j"]] st index less.prems by simp
    show ?thesis
    proof (cases "at_pos ?p ?j = ?c")
      case False
      then have "\<not> matches ?p subject index" using matchesD [of ?p subject index ?j] st by auto
      then have "\<exists>r. boyer_moore_loop s subject (index + (?j - CharOccurrence s ?c)) = Some r \<and> first_match ?p subject index r"
        using cont [of "?j - CharOccurrence s ?c"] skip [of ?j] index occ st by simp
      then show ?thesis using False index by (simp add: boyer_moore_loop.simps [of _ _ index] Let_def)
    next
      case last: True
      obtain r where r: "match_back ?p subject index ?j = r" by blast
      have l: "-1 \<le> ?j" using st by simp
      note B = match_backD [OF r l]
      show ?thesis
      proof (cases "r < 0")
        case True
        then have "matches ?p subject index" using full_window [of ?p subject index ?j] r l less.prems index by simp
        then show ?thesis using True last r index first_match_here by (simp add: boyer_moore_loop.simps [of _ _ index] Let_def)
      next
        case False
        have rj: "r < ?j" using B(1,4) False last by (cases "r = ?j") auto
        have no: "\<not> matches ?p subject index" using matchesD [of ?p subject index r] B(4) False rj by auto
        show ?thesis
        proof (cases "r < start s")
          case True
          have "\<exists>x. boyer_moore_loop s subject (index + (?j - CharOccurrence s ?c)) = Some x \<and> first_match ?p subject index x"
            using cont [of "?j - CharOccurrence s ?c"] skip [of ?j] index occ st no by simp
          then show ?thesis using True False last r index by (simp add: boyer_moore_loop.simps [of _ _ index] Let_def)
        next
          case r': False
          let ?g = "good_suffix_shift_table s (r + 1)" and ?o = "r - CharOccurrence s (at_pos subject (index + r))"
          have g: "1 \<le> ?g" using s(2) r' rj unfolding good_suffix_ok_def by (auto dest!: spec [of _ "r + 1"])
          have "\<not> matches ?p subject i" if "index \<le> i" "i < index + (if ?g > ?o then ?g else ?o)" for i
            using that suffix_shift [OF s(2) r _ rj st(1), of i] skip [of r i] no r' False rj by (cases "i = index") (auto split: if_splits)
          then have "\<exists>x. boyer_moore_loop s subject (index + (if ?g > ?o then ?g else ?o)) = Some x \<and> first_match ?p subject index x"
            using cont [of "if ?g > ?o then ?g else ?o"] index g by simp
          then show ?thesis using False r' last r index by (simp add: boyer_moore_loop.simps [of _ _ index] Let_def)
        qed
      qed
    qed
  qed
qed

end
