(* ===== verification/Boyer_Moore.thy ===== *)
theory Boyer_Moore
  imports String_Search
begin

text \<open>
  \<open>PopulateBoyerMooreTable\<close> of \<^verbatim>\<open>src/string-search.h\<close>: the suffix table holds for every position the longest proper border of
  the suffix that starts there, and no shift of the good-suffix table jumps over a place where the pattern could match.
\<close>

section \<open>Borders\<close>

text \<open>The suffix from \<open>k\<close> is a border of the suffix from \<open>i\<close>: it also occurs at its start.\<close>

definition border :: "nat list \<Rightarrow> int \<Rightarrow> int \<Rightarrow> bool" where
  "border pat i k \<longleftrightarrow> i < k \<and> k \<le> len pat \<and> (\<forall>t. k \<le> t \<longrightarrow> t < len pat \<longrightarrow> at_pos pat (i + (t - k)) = at_pos pat t)"

lemma borderD:
  "border pat i k \<Longrightarrow> i < k" "border pat i k \<Longrightarrow> k \<le> len pat"
  "border pat i k \<Longrightarrow> k \<le> t \<Longrightarrow> t < len pat \<Longrightarrow> at_pos pat (i + (t - k)) = at_pos pat t"
  by (auto simp: border_def)

lemma border_end [simp]: "border pat i (len pat) \<longleftrightarrow> i < len pat"
  by (auto simp: border_def)

lemma border_chain:
  assumes "border pat i k" "border pat i k'" "k < k'"
  shows "border pat k k'"
proof -
  have "at_pos pat (k + (t - k')) = at_pos pat t" if "k' \<le> t" "t < len pat" for t
    using borderD(3) [OF assms(1), of "k + (t - k')"] borderD(3) [OF assms(2), of t] that assms(3) by simp
  then show ?thesis using assms(3) borderD(2) [OF assms(2)] by (simp add: border_def)
qed

lemma border_compose:
  assumes "border pat i k" "border pat k k'"
  shows "border pat i k'"
proof -
  have "at_pos pat (i + (t - k')) = at_pos pat t" if "k' \<le> t" "t < len pat" for t
    using borderD(3) [OF assms(1), of "k + (t - k')"] borderD(3) [OF assms(2), of t] that borderD(1) [OF assms(2)] by simp
  then show ?thesis using borderD(1) [OF assms(1)] borderD(1,2) [OF assms(2)] by (simp add: border_def)
qed

lemma border_extend:
  assumes "k \<le> len pat"
  shows "border pat (i - 1) (k - 1) \<longleftrightarrow> border pat i k \<and> at_pos pat (i - 1) = at_pos pat (k - 1)"
proof
  assume b: "border pat (i - 1) (k - 1)"
  have "at_pos pat (i + (t - k)) = at_pos pat t" if "k \<le> t" "t < len pat" for t
    using borderD(3) [OF b, of t] that by (simp add: algebra_simps)
  then show "border pat i k \<and> at_pos pat (i - 1) = at_pos pat (k - 1)"
    using borderD(1) [OF b] borderD(3) [OF b, of "k - 1"] assms by (simp add: border_def)
next
  assume b: "border pat i k \<and> at_pos pat (i - 1) = at_pos pat (k - 1)"
  have "at_pos pat (i - 1 + (t - (k - 1))) = at_pos pat t" if t: "k - 1 \<le> t" "t < len pat" for t
  proof (cases "t = k - 1")
    case False
    have e: "i - 1 + (t - (k - 1)) = i + (t - k)" by simp
    show ?thesis unfolding e using borderD(3) [of pat i k t] b t False by simp
  qed (use b in simp)
  moreover have "i - 1 < k - 1" "k - 1 \<le> len pat" using b borderD(1,2) [of pat i k] by simp_all
  ultimately show "border pat (i - 1) (k - 1)" unfolding border_def by blast
qed

text \<open>The entry of the suffix table: the start of the longest border.\<close>

definition suffix_entry :: "nat list \<Rightarrow> int \<Rightarrow> int \<Rightarrow> bool" where
  "suffix_entry pat i k \<longleftrightarrow> (if i = len pat then k = len pat + 1 else border pat i k \<and> (\<forall>k'. border pat i k' \<longrightarrow> k \<le> k'))"

section \<open>The loops\<close>

text \<open>One turn of the outer loop for \<open>i\<close>: the result \<open>x\<close> extends a border of \<open>i\<close> to the left or stands for none.\<close>

definition turn :: "nat list \<Rightarrow> int \<Rightarrow> int \<Rightarrow> (int \<Rightarrow> int) \<Rightarrow> (int \<Rightarrow> int) \<Rightarrow> int \<Rightarrow> bool" where
  "turn pat l i sh sh' x \<longleftrightarrow>
     (x = len pat + 1 \<or> border pat i x \<and> at_pos pat (i - 1) = at_pos pat (x - 1)) \<and>
     (\<forall>k. border pat i k \<longrightarrow> k < x \<longrightarrow> at_pos pat (i - 1) \<noteq> at_pos pat (k - 1) \<and> sh' k \<le> k - i) \<and>
     (\<forall>k. sh' k = sh k \<or> sh k = l \<and> border pat i k \<and> sh' k = k - i)"

definition tables_ok :: "nat list \<Rightarrow> int \<Rightarrow> int \<Rightarrow> (int \<Rightarrow> int) \<Rightarrow> (int \<Rightarrow> int) \<Rightarrow> int \<Rightarrow> bool" where
  "tables_ok pat lo i sh tab x \<longleftrightarrow> lo \<le> i \<and> i \<le> len pat \<and> x = tab i \<and> sh (len pat) = 1 \<and>
     (\<forall>t. i \<le> t \<longrightarrow> t \<le> len pat \<longrightarrow> suffix_entry pat t (tab t)) \<and>
     (\<forall>i' k. i < i' \<longrightarrow> border pat i' k \<longrightarrow> at_pos pat (i' - 1) \<noteq> at_pos pat (k - 1) \<longrightarrow> sh k \<le> k - i') \<and>
     (\<forall>k. lo \<le> k \<longrightarrow> k < len pat \<longrightarrow> sh k = len pat - lo \<or> 1 \<le> sh k \<and> sh k \<le> k - i)"

lemma tables_okD:
  assumes "tables_ok pat lo i sh tab x"
  shows "lo \<le> i" "i \<le> len pat" "x = tab i" "sh (len pat) = 1" "i \<le> t \<Longrightarrow> t \<le> len pat \<Longrightarrow> suffix_entry pat t (tab t)"
    "i < i' \<Longrightarrow> border pat i' k \<Longrightarrow> at_pos pat (i' - 1) \<noteq> at_pos pat (k - 1) \<Longrightarrow> sh k \<le> k - i'"
    "lo \<le> k \<Longrightarrow> k < len pat \<Longrightarrow> sh k = len pat - lo \<or> 1 \<le> sh k \<and> sh k \<le> k - i"
  using assms unfolding tables_ok_def by blast+

lemma suffix_entryD:
  "suffix_entry pat i k \<Longrightarrow> i < len pat \<Longrightarrow> border pat i k"
  "suffix_entry pat i k \<Longrightarrow> i < len pat \<Longrightarrow> border pat i k' \<Longrightarrow> k \<le> k'"
  by (auto simp: suffix_entry_def)

lemma suffix_loop_turn:
  assumes t: "tables_ok pat lo i sh tab x" and i: "i \<le> len pat" "lo < i"
  shows "x' = len pat + 1 \<or> border pat i x' \<Longrightarrow> i < x' \<Longrightarrow>
    (\<forall>k. border pat i k \<longrightarrow> k < x' \<longrightarrow> at_pos pat (i - 1) \<noteq> at_pos pat (k - 1) \<and> sh' k \<le> k - i) \<Longrightarrow>
    (\<forall>k. sh' k = sh k \<or> sh k = len pat - lo \<and> border pat i k \<and> sh' k = k - i) \<Longrightarrow>
    \<exists>sh'' x''. suffix_loop pat (len pat - lo) i sh' tab x' = Some (sh'', x'') \<and> turn pat (len pat - lo) i sh sh'' x''"
proof (induction "nat (len pat + 1 - x')" arbitrary: sh' x' rule: less_induct)
  case less
  show ?case
  proof (cases "x' \<le> len pat \<and> at_pos pat (i - 1) \<noteq> at_pos pat (x' - 1)")
    case False
    then have "suffix_loop pat (len pat - lo) i sh' tab x' = Some (sh', x')" by (subst suffix_loop.simps) (rule if_not_P)
    moreover have "turn pat (len pat - lo) i sh sh' x'" using False less.prems borderD(2) [of pat i x'] unfolding turn_def by auto
    ultimately show ?thesis by blast
  next
    case True
    then have b: "border pat i x'" using less.prems(1) by auto
    let ?sh = "if sh' x' = len pat - lo then sh'(x' := x' - i) else sh'"
    have e: "suffix_entry pat x' (tab x')" using tables_okD(5) [OF t] less.prems(2) True by simp
    have next_x: "(tab x' = len pat + 1 \<or> border pat i (tab x')) \<and> x' < tab x'"
    proof (cases "x' = len pat")
      case False
      then have "border pat x' (tab x')" using suffix_entryD(1) [OF e] True by simp
      then show ?thesis using border_compose [OF b] borderD(1) by blast
    qed (use e in \<open>simp add: suffix_entry_def\<close>)
    have le: "sh' x' = len pat - lo \<or> sh' x' \<le> x' - i"
    proof (cases "x' = len pat")
      case True
      have "sh x' = 1" using tables_okD(4) [OF t] True by simp
      then show ?thesis using less.prems(4) [rule_format, of x'] borderD(1) [OF b] by auto
    next
      case False
      then have "sh x' = len pat - lo \<or> sh x' \<le> x' - i" using tables_okD(7) [OF t, of x'] True i less.prems(2) by auto
      then show ?thesis using less.prems(4) by (metis order_refl)
    qed
    have "at_pos pat (i - 1) \<noteq> at_pos pat (k - 1) \<and> ?sh k \<le> k - i" if "border pat i k" "k < tab x'" for k
    proof -
      consider "k < x'" | "k = x'" | "x' < k" by linarith
      then show ?thesis
      proof cases
        case 1
        then show ?thesis using less.prems(3) that by auto
      next
        case 2
        then show ?thesis using True le by auto
      next
        case 3
        then have "border pat x' k" using border_chain [OF b that(1)] by simp
        moreover have "x' < len pat" using 3 borderD(2) [OF that(1)] by simp
        ultimately show ?thesis using suffix_entryD(2) [OF e] that(2) by fastforce
      qed
    qed
    moreover have "?sh k = sh k \<or> sh k = len pat - lo \<and> border pat i k \<and> ?sh k = k - i" for k
      using less.prems(4) [rule_format, of k] b by (cases "k = x'") auto
    ultimately have "\<exists>sh'' x''. suffix_loop pat (len pat - lo) i ?sh tab (tab x') = Some (sh'', x'') \<and> turn pat (len pat - lo) i sh sh'' x''"
      using less.hyps [of "tab x'" ?sh] next_x less.prems(2) True by auto
    then show ?thesis using True by (simp add: suffix_loop.simps [of _ _ _ sh'])
  qed
qed


lemma turn_step:
  assumes t: "tables_ok pat lo i sh tab x" and lo: "lo < i" "0 \<le> lo" "lo + 1 < len pat" and u: "turn pat (len pat - lo) i sh sh' y"
  shows "tables_ok pat lo (i - 1) sh' (tab(i - 1 := y - 1)) (y - 1)"
proof -
  let ?n = "len pat"
  note T = tables_okD [OF t]
  have y: "y = ?n + 1 \<or> border pat i y \<and> at_pos pat (i - 1) = at_pos pat (y - 1)"
    and seen: "\<And>k. border pat i k \<Longrightarrow> k < y \<Longrightarrow> at_pos pat (i - 1) \<noteq> at_pos pat (k - 1) \<and> sh' k \<le> k - i"
    and ch: "\<And>k. sh' k = sh k \<or> sh k = ?n - lo \<and> border pat i k \<and> sh' k = k - i" using u unfolding turn_def by blast+
  have n1: "sh' ?n = 1" using ch [of ?n] T(4) lo(3) by auto
  have "suffix_entry pat (i - 1) (y - 1)"
  proof -
    have "border pat (i - 1) (y - 1)" using y border_extend [of y pat i] borderD(2) [of pat i y] T(2) by (auto simp: border_def)
    moreover have "y - 1 \<le> k'" if "border pat (i - 1) k'" for k'
    proof (rule ccontr)
      assume "\<not> y - 1 \<le> k'"
      then have k: "k' + 1 < y" "k' + 1 \<le> ?n" using y borderD(2) [of pat i y] by auto
      then have "border pat i (k' + 1)" "at_pos pat (i - 1) = at_pos pat (k' + 1 - 1)" using border_extend [OF k(2), of i] that by simp_all
      then show False using seen [of "k' + 1"] k(1) by simp
    qed
    ultimately show ?thesis using T(2) by (simp add: suffix_entry_def)
  qed
  moreover have "sh' k \<le> k - i'" if p: "i - 1 < i'" "border pat i' k" "at_pos pat (i' - 1) \<noteq> at_pos pat (k - 1)" for i' k
  proof (cases "i' = i")
    case False
    then have s: "sh k \<le> k - i'" using T(6) [of i' k] p by simp
    then have "sh k \<noteq> ?n - lo" using borderD(2) [OF p(2)] p(1) lo(1) by linarith
    then show ?thesis using s ch [of k] by auto
  next
    case True
    show ?thesis
    proof (cases "k < y")
      case k: True
      then show ?thesis using seen [of k] p(2) True by simp
    next
      case k: False
      then have bd: "border pat i y" "at_pos pat (i - 1) = at_pos pat (y - 1)" using y borderD(2) [OF p(2)] by auto
      then have "y < k" using k p(3) True by (cases "k = y") auto
      then have "border pat y k" using border_chain [OF bd(1)] p(2) True by simp
      then have "sh k \<le> k - y" using T(6) [of y k] borderD(1) [OF bd(1)] bd(2) p(3) True by simp
      then have "sh k \<le> k - i" using borderD(1) [OF bd(1)] by simp
      then show ?thesis using ch [of k] True by auto
    qed
  qed
  moreover have "sh' k = ?n - lo \<or> 1 \<le> sh' k \<and> sh' k \<le> k - (i - 1)" if k: "lo \<le> k" "k < ?n" for k
  proof (cases "sh' k = sh k")
    case True
    then show ?thesis using T(7) [OF k] by auto
  next
    case False
    then have "border pat i k" "sh' k = k - i" using ch [of k] by auto
    then show ?thesis using borderD(1) [of pat i k] by simp
  qed
  ultimately show ?thesis unfolding tables_ok_def using T(2,5) lo(1) n1 by auto
qed

text \<open>The loop over the characters that differ from the last one makes such turns, too.\<close>

lemma last_char_turn:
  assumes t: "tables_ok pat lo i sh tab (len pat)" and i: "i < len pat"
  shows "at_pos pat (i - 1) \<noteq> at_pos pat (len pat - 1) \<Longrightarrow> turn pat (len pat - lo) i sh sh (len pat + 1)"
    and "at_pos pat (i - 1) = at_pos pat (len pat - 1) \<Longrightarrow> turn pat (len pat - lo) i sh sh (len pat)"
proof -
  note T = tables_okD [OF t]
  have e: "suffix_entry pat i (len pat)" using T(5) [of i] T(3) i by simp
  have only: "k = len pat" if "border pat i k" for k using suffix_entryD(2) [OF e i that] borderD(2) [OF that] by simp
  show "at_pos pat (i - 1) \<noteq> at_pos pat (len pat - 1) \<Longrightarrow> turn pat (len pat - lo) i sh sh (len pat + 1)"
    using only T(4) i by (auto simp: turn_def)
  show "at_pos pat (i - 1) = at_pos pat (len pat - 1) \<Longrightarrow> turn pat (len pat - lo) i sh sh (len pat)"
    using only i by (auto simp: turn_def)
qed

lemma last_char_loop_ok:
  "tables_ok pat lo i sh tab (len pat) \<Longrightarrow> i < len pat \<Longrightarrow> 0 \<le> lo \<Longrightarrow> lo + 1 < len pat \<Longrightarrow>
   \<exists>i' tab'. last_char_loop pat lo (len pat - lo) i sh tab = (i', sh, tab') \<and> i' \<le> i \<and> tables_ok pat lo i' sh tab' (len pat) \<and>
     (lo < i' \<longrightarrow> at_pos pat (i' - 1) = at_pos pat (len pat - 1))"
proof (induction "nat (i - lo)" arbitrary: i tab rule: less_induct)
  case less
  show ?case
  proof (cases "i > lo \<and> at_pos pat (i - 1) \<noteq> at_pos pat (len pat - 1)")
    case False
    then have "last_char_loop pat lo (len pat - lo) i sh tab = (i, sh, tab)" by (subst last_char_loop.simps) (rule if_not_P)
    then show ?thesis using False less.prems by auto
  next
    case True
    have "turn pat (len pat - lo) i sh sh (len pat + 1)" using last_char_turn(1) [OF less.prems(1,2)] True by simp
    then have t: "tables_ok pat lo (i - 1) sh (tab(i - 1 := len pat)) (len pat)" using turn_step [OF less.prems(1)] True less.prems(3,4) by fastforce
    have n: "sh (len pat) \<noteq> len pat - lo" using tables_okD(4) [OF less.prems(1)] less.prems(4) by simp
    obtain i' tab' where "last_char_loop pat lo (len pat - lo) (i - 1) sh (tab(i - 1 := len pat)) = (i', sh, tab')" "i' \<le> i - 1"
        "tables_ok pat lo i' sh tab' (len pat)" "lo < i' \<longrightarrow> at_pos pat (i' - 1) = at_pos pat (len pat - 1)"
      using less.hyps [of "i - 1" "tab(i - 1 := len pat)"] t True less.prems(2-4) by auto
    then show ?thesis using True n by (intro exI2 [of _ i' tab']) (simp add: last_char_loop.simps [of _ _ _ i])
  qed
qed

lemma find_suffixes_ok:
  "tables_ok pat lo i sh tab x \<Longrightarrow> 0 \<le> lo \<Longrightarrow> lo + 1 < len pat \<Longrightarrow>
   \<exists>sh' tab' x'. find_suffixes pat lo (len pat - lo) i sh tab x = Some (sh', tab', x') \<and> tables_ok pat lo lo sh' tab' x'"
proof (induction "nat (i - lo)" arbitrary: i sh tab x rule: less_induct)
  case less
  note T = tables_okD [OF less.prems(1)]
  show ?case
  proof (cases "i > lo")
    case False
    then have "i = lo" using T(1) by simp
    then show ?thesis using less.prems(1) by (simp add: find_suffixes.simps [of _ _ _ lo])
  next
    case True
    have e: "suffix_entry pat i x" using T(2,3) T(5) [of i] by simp
    have x: "(x = len pat + 1 \<or> border pat i x) \<and> i < x" using e borderD(1) [of pat i x] T(2) by (auto simp: suffix_entry_def split: if_splits)
    have "\<not> (border pat i k \<and> k < x)" for k using e borderD(1,2) [of pat i k] by (auto simp: suffix_entry_def split: if_splits)
    then obtain sh1 y where l: "suffix_loop pat (len pat - lo) i sh tab x = Some (sh1, y)" "turn pat (len pat - lo) i sh sh1 y"
      using suffix_loop_turn [OF less.prems(1) T(2) True, of x sh] x by auto
    have t1: "tables_ok pat lo (i - 1) sh1 (tab(i - 1 := y - 1)) (y - 1)" by (rule turn_step [OF less.prems(1) True less.prems(2,3) l(2)])
    show ?thesis
    proof (cases "y - 1 = len pat")
      case False
      then show ?thesis using less.hyps [OF _ t1 less.prems(2,3)] True l(1) by (simp add: find_suffixes.simps [of _ _ _ i] Let_def)
    next
      case y: True
      have i1: "i - 1 < len pat" using T(2) by simp
      obtain i2 tab2 where c: "last_char_loop pat lo (len pat - lo) (i - 1) sh1 (tab(i - 1 := y - 1)) = (i2, sh1, tab2)" "i2 \<le> i - 1"
          "tables_ok pat lo i2 sh1 tab2 (len pat)" "lo < i2 \<longrightarrow> at_pos pat (i2 - 1) = at_pos pat (len pat - 1)"
        using last_char_loop_ok [OF t1 [unfolded y] i1 less.prems(2,3)] y by auto
      show ?thesis
      proof (cases "i2 > lo")
        case False
        then show ?thesis using less.hyps [OF _ c(3) less.prems(2,3)] c(1,2) True l(1) y by (simp add: find_suffixes.simps [of _ _ _ i] Let_def)
      next
        case i2: True
        have "turn pat (len pat - lo) i2 sh1 sh1 (len pat)" using last_char_turn(2) [OF c(3)] c(2,4) i1 i2 by simp
        note t3 = turn_step [OF c(3) i2 less.prems(2,3) this]
        show ?thesis using less.hyps [OF _ t3 less.prems(2,3)] c(1,2) True l(1) y i2 by (simp add: find_suffixes.simps [of _ _ _ i] Let_def)
      qed
    qed
  qed
qed


section \<open>Borders of the whole pattern\<close>

text \<open>In the last loop \<open>x\<close> is the first border at or after \<open>i\<close>; the entries before \<open>i\<close> do not jump over a border.\<close>

definition second_pass :: "nat list \<Rightarrow> int \<Rightarrow> (int \<Rightarrow> int) \<Rightarrow> int \<Rightarrow> (int \<Rightarrow> int) \<Rightarrow> int \<Rightarrow> bool" where
  "second_pass pat lo sh0 i sh x \<longleftrightarrow>
     (i \<le> len pat \<longrightarrow> border pat lo x \<and> i \<le> x \<and> (\<forall>k. border pat lo k \<longrightarrow> i \<le> k \<longrightarrow> x \<le> k)) \<and>
     (\<forall>k. sh k \<le> sh0 k) \<and> (\<forall>k\<ge>i. sh k = sh0 k) \<and>
     (\<forall>k. lo \<le> k \<longrightarrow> k < i \<longrightarrow> 1 \<le> sh k \<and> (\<forall>k'. border pat lo k' \<longrightarrow> k \<le> k' \<longrightarrow> sh k \<le> k' - lo))"

lemma use_suffix_step:
  assumes t: "tables_ok pat lo lo sh0 tab x0" and p: "second_pass pat lo sh0 i sh x" and i: "lo \<le> i" "i \<le> len pat"
  shows "\<exists>sh' x'. use_suffix lo (len pat - lo) tab i (sh, x) = (sh', x') \<and> second_pass pat lo sh0 (i + 1) sh' x'"
proof -
  note T = tables_okD [OF t]
  let ?sh = "if sh i = len pat - lo then sh(i := x - lo) else sh" and ?x = "if i = x then tab x else x"
  have P: "border pat lo x" "i \<le> x" "\<And>k. border pat lo k \<Longrightarrow> i \<le> k \<Longrightarrow> x \<le> k" "\<And>k. sh k \<le> sh0 k" "\<And>k. i \<le> k \<Longrightarrow> sh k = sh0 k"
    "\<And>k. lo \<le> k \<Longrightarrow> k < i \<Longrightarrow> 1 \<le> sh k" "\<And>k k'. lo \<le> k \<Longrightarrow> k < i \<Longrightarrow> border pat lo k' \<Longrightarrow> k \<le> k' \<Longrightarrow> sh k \<le> k' - lo"
    using p i unfolding second_pass_def by blast+
  note X = borderD(1,2) [OF P(1)]
  have new: "border pat lo ?x \<and> i + 1 \<le> ?x \<and> (\<forall>k. border pat lo k \<longrightarrow> i + 1 \<le> k \<longrightarrow> ?x \<le> k)" if "i + 1 \<le> len pat"
  proof (cases "i = x")
    case True
    have e: "suffix_entry pat x (tab x)" using T(5) [of x] X by simp
    have x: "x < len pat" using True that by simp
    note b = suffix_entryD(1) [OF e x]
    have "tab x \<le> k" if "border pat lo k" "i + 1 \<le> k" for k
      using suffix_entryD(2) [OF e x border_chain [OF P(1) that(1)]] True that(2) by simp
    then show ?thesis using True border_compose [OF P(1) b] borderD(1) [OF b] by simp
  next
    case False
    then show ?thesis using P(1-3) by auto
  qed
  have here: "1 \<le> ?sh i \<and> (\<forall>k'. border pat lo k' \<longrightarrow> i \<le> k' \<longrightarrow> ?sh i \<le> k' - lo)"
  proof (cases "sh i = len pat - lo")
    case True
    then show ?thesis using P(3) X by auto
  next
    case False
    then have "1 \<le> sh i \<and> sh i \<le> max 1 (i - lo)" using T(4) T(7) [OF i(1)] P(5) [of i] i(2) by (cases "i = len pat") auto
    then show ?thesis using False borderD(1) by force
  qed
  have "?sh k \<le> sh0 k" for k using P(4,5) [of k] X by auto
  moreover have "?sh k = sh0 k" if "i + 1 \<le> k" for k using P(5) [of k] that by auto
  moreover have "1 \<le> ?sh k \<and> (\<forall>k'. border pat lo k' \<longrightarrow> k \<le> k' \<longrightarrow> ?sh k \<le> k' - lo)" if "lo \<le> k" "k < i + 1" for k
    using here P(6,7) [of k] that by (cases "k = i") auto
  ultimately have "second_pass pat lo sh0 (i + 1) ?sh ?x" unfolding second_pass_def using new by blast
  then show ?thesis by (simp add: use_suffix_def)
qed

lemma use_suffixes_ok:
  assumes t: "tables_ok pat lo lo sh0 tab x0"
  shows "second_pass pat lo sh0 i sh x \<Longrightarrow> lo \<le> i \<Longrightarrow> i \<le> len pat + 1 \<Longrightarrow>
    \<exists>sh' x'. fold (use_suffix lo (len pat - lo) tab) [i..len pat] (sh, x) = (sh', x') \<and> second_pass pat lo sh0 (len pat + 1) sh' x'"
proof (induction "nat (len pat + 1 - i)" arbitrary: i sh x rule: less_induct)
  case less
  show ?case
  proof (cases "i \<le> len pat")
    case False
    then have "i = len pat + 1" using less.prems by simp
    then show ?thesis using less.prems by simp
  next
    case True
    obtain sh' x' where u: "use_suffix lo (len pat - lo) tab i (sh, x) = (sh', x')" "second_pass pat lo sh0 (i + 1) sh' x'"
      using use_suffix_step [OF t less.prems(1,2) True] by blast
    then show ?thesis using less.hyps [OF _ u(2)] less.prems(2) True by (simp add: upto_rec1)
  qed
qed

section \<open>The table\<close>

lemma shifts_safe:
  assumes first: "\<And>i' k. lo < i' \<Longrightarrow> border pat i' k \<Longrightarrow> at_pos pat (i' - 1) \<noteq> at_pos pat (k - 1) \<Longrightarrow> sh k \<le> k - i'"
    and second: "\<And>k'. border pat lo k' \<Longrightarrow> k \<le> k' \<Longrightarrow> sh k \<le> k' - lo" and k: "lo < k" "k < len pat" and d: "0 < d" "d < sh k"
  shows "\<not> window_matches pat lo k d"
proof
  assume w: "window_matches pat lo k d"
  have eq: "at_pos pat (t - d) = at_pos pat t" if "k \<le> t" "t < len pat" "lo \<le> t - d" for t using w that by (simp add: window_matches_def)
  show False
  proof (cases "lo \<le> k - 1 - d")
    case True
    have "at_pos pat (k - d + (t - k)) = at_pos pat t" if "k \<le> t" "t < len pat" for t using eq [of t] that True by simp
    then have "border pat (k - d) k" using d k by (simp add: border_def)
    moreover have "at_pos pat (k - d - 1) \<noteq> at_pos pat (k - 1)" using w True by (simp add: window_matches_def algebra_simps)
    ultimately show False using first [of "k - d" k] True d by simp
  next
    case False
    show False
    proof (cases "lo + d \<le> len pat")
      case True
      have "at_pos pat (lo + (t - (lo + d))) = at_pos pat t" if "lo + d \<le> t" "t < len pat" for t using eq [of t] that False by simp
      then have "border pat lo (lo + d)" using True d by (simp add: border_def)
      then show False using second [of "lo + d"] False d by simp
    next
      case False
      then show False using second [of "len pat"] k d by simp
    qed
  qed
qed

lemma fold_const: "fold (\<lambda>i t. t(i := c)) xs t k = (if k \<in> set xs then c else t k)"
  by (induction xs arbitrary: t) auto

lemma Populate_ok:
  assumes s: "0 \<le> start s" "start s + 1 < len (pattern s)"
  shows "\<exists>sh tab. PopulateBoyerMooreTable s = Some (s \<lparr>good_suffix_shift_table := sh, suffix_table := tab\<rparr>) \<and>
    good_suffix_ok (s \<lparr>good_suffix_shift_table := sh, suffix_table := tab\<rparr>)"
proof -
  let ?p = "pattern s" and ?lo = "start s" and ?n = "len (pattern s)"
  let ?sh = "(fold (\<lambda>i t. t(i := ?n - ?lo)) [?lo..?n - 1] (good_suffix_shift_table s))(?n := 1)" and ?tab = "(suffix_table s)(?n := ?n + 1)"
  have "\<not> border ?p i' k" if "?n < i'" for i' k using borderD(1,2) [of ?p i' k] that by auto
  then have t0: "tables_ok ?p ?lo ?n ?sh ?tab (?n + 1)" using s by (auto simp: tables_ok_def suffix_entry_def fold_const)
  obtain sh tab x where f: "find_suffixes ?p ?lo (?n - ?lo) ?n ?sh ?tab (?n + 1) = Some (sh, tab, x)" "tables_ok ?p ?lo ?lo sh tab x"
    using find_suffixes_ok [OF t0 s] by blast
  note T = tables_okD [OF f(2)]
  have e: "suffix_entry ?p ?lo x" using T(3) T(5) [of ?lo] s by simp
  have lo: "?lo < ?n" using s by simp
  note x = suffix_entryD(1) [OF e lo]
  let ?fin = "if x < ?n then fst (fold (use_suffix ?lo (?n - ?lo) tab) [?lo..?n] (sh, x)) else sh"
  have fin: "\<exists>y. second_pass ?p ?lo sh (?n + 1) ?fin y"
  proof (cases "x < ?n")
    case True
    have "second_pass ?p ?lo sh ?lo sh x" using x suffix_entryD(2) [OF e lo] borderD(1) [OF x] by (simp add: second_pass_def)
    then show ?thesis using use_suffixes_ok [OF f(2), of ?lo sh x] True lo by fastforce
  next
    case False
    have "1 \<le> sh k \<and> (\<forall>k'. border ?p ?lo k' \<longrightarrow> k \<le> k' \<longrightarrow> sh k \<le> k' - ?lo)" if k: "?lo \<le> k" "k \<le> ?n" for k
    proof -
      have "k' = ?n" if "border ?p ?lo k'" for k' using suffix_entryD(2) [OF e lo that] False borderD(2) [OF that] by simp
      moreover have "sh k = ?n - ?lo \<or> 1 \<le> sh k \<and> sh k \<le> max 1 (k - ?lo)" using T(4) T(7) [OF k(1)] k(2) by (cases "k = ?n") auto
      ultimately show ?thesis using lo k by force
    qed
    then show ?thesis using False by (auto simp: second_pass_def)
  qed
  then obtain y where y: "second_pass ?p ?lo sh (?n + 1) ?fin y" by blast
  have "1 \<le> ?fin k \<and> (\<forall>d. 0 < d \<longrightarrow> d < ?fin k \<longrightarrow> \<not> window_matches ?p ?lo k d)" if k: "?lo < k" "k < ?n" for k
  proof -
    have le: "?fin k' \<le> sh k'" for k' using y unfolding second_pass_def by blast
    have sec: "1 \<le> ?fin k" "\<And>k'. border ?p ?lo k' \<Longrightarrow> k \<le> k' \<Longrightarrow> ?fin k \<le> k' - ?lo" using y k unfolding second_pass_def by auto
    have fst: "?fin k' \<le> k' - i'" if "?lo < i'" "border ?p i' k'" "at_pos ?p (i' - 1) \<noteq> at_pos ?p (k' - 1)" for i' k'
      using T(6) [OF that] le [of k'] by linarith
    show ?thesis using sec(1) shifts_safe [where sh = ?fin, OF fst sec(2) k] by blast
  qed
  then have g: "good_suffix_ok (s \<lparr>good_suffix_shift_table := ?fin, suffix_table := tab\<rparr>)" by (simp add: good_suffix_ok_def)
  have "PopulateBoyerMooreTable s = Some (s \<lparr>good_suffix_shift_table := ?fin, suffix_table := tab\<rparr>)"
    using f(1) by (simp add: PopulateBoyerMooreTable_def Let_def)
  then show ?thesis using g by blast
qed

end
