(* ===== verification/Search_Correct.thy ===== *)
theory Search_Correct
  imports Boyer_Moore
begin

text \<open>
  The strategies of \<^verbatim>\<open>src/string-search.h\<close> put together: the table of occurrences, the hand-over from the initial search to
  Boyer-Moore-Horspool and from there to Boyer-Moore, and the searches that a client makes one after the other with one object.
\<close>

section \<open>The table of occurrences\<close>

lemma fold_last_index:
  fixes a b :: int
  assumes "T = fold (\<lambda>i t. t(f i := i)) [a..b] t"
  shows "T k = t k \<or> a \<le> T k \<and> T k \<le> b" "a \<le> i \<Longrightarrow> i \<le> b \<Longrightarrow> i \<le> T (f i)"
proof -
  have "(\<forall>k. T k = t k \<or> a \<le> T k \<and> T k \<le> b) \<and> (\<forall>i. a \<le> i \<longrightarrow> i \<le> b \<longrightarrow> i \<le> T (f i))" using assms
  proof (induction "nat (b - a + 1)" arbitrary: b T)
    case (Suc n)
    then have ab: "a \<le> b" by simp
    let ?T = "fold (\<lambda>i t. t(f i := i)) [a..b - 1] t"
    have T: "T = ?T(f b := b)" using Suc.prems ab by (simp add: upto_rec2)
    have I: "(\<forall>k. ?T k = t k \<or> a \<le> ?T k \<and> ?T k \<le> b - 1) \<and> (\<forall>i. a \<le> i \<longrightarrow> i \<le> b - 1 \<longrightarrow> i \<le> ?T (f i))"
      using Suc.hyps(1) [of "b - 1"] Suc.hyps(2) by simp
    have "i \<le> T (f i)" if "a \<le> i" "i \<le> b" for i
      using I [THEN conjunct2, rule_format, of i] that T by (cases "i = b") auto
    moreover have "T k = t k \<or> a \<le> T k \<and> T k \<le> b" for k
      using I [THEN conjunct1, rule_format, of k] T ab by auto
    ultimately show ?case by blast
  qed simp
  then show "T k = t k \<or> a \<le> T k \<and> T k \<le> b" "a \<le> i \<Longrightarrow> i \<le> b \<Longrightarrow> i \<le> T (f i)" by blast+
qed

lemma pattern_char:
  assumes "IsAsciiString pat" "0 \<le> k" "k < len pat"
  shows "at_pos pat k \<le> kMaxAsciiCharCode"
proof -
  have "at_pos pat k \<in> set pat" using assms(2,3) by (simp add: at_pos_def len_def)
  then show ?thesis using assms(1) by (simp add: IsAsciiString_def)
qed

definition bucket :: "string_search \<Rightarrow> nat \<Rightarrow> int" where
  "bucket s c = (if psize s = 1 then int c else int c mod AlphabetSize s)"

text \<open>The index that a character of the subject is looked up at is the one that the same character of the pattern is entered at.\<close>

lemma CharOccurrence_bucket:
  assumes "psize s = 1 \<or> psize s = 2" "ssize s = 1 \<or> ssize s = 2" "ssize s = 1 \<longrightarrow> c \<le> kMaxAsciiCharCode"
  shows "CharOccurrence s c = (if psize s = 1 \<and> c > kMaxAsciiCharCode then -1 else bad_char_table s (bucket s c))"
    "\<not> (psize s = 1 \<and> c > kMaxAsciiCharCode) \<Longrightarrow> 0 \<le> bucket s c \<and> bucket s c \<le> AlphabetSize s - 1"
  using assms by (auto simp: CharOccurrence_def bucket_def AlphabetSize_def kAsciiAlphabetSize_def kUC16AlphabetSize_def kMaxAsciiCharCode_def)

lemma PopulateBoyerMooreHorspoolTable_ok:
  assumes ok: "psize s = 1 \<or> psize s = 2" "ssize s = 1 \<or> ssize s = 2" "psize s = 1 \<longrightarrow> IsAsciiString (pattern s)"
    and st: "0 \<le> start s" "start s < len (pattern s) - 1"
  shows "\<exists>T. PopulateBoyerMooreHorspoolTable s = s \<lparr>bad_char_table := T\<rparr> \<and> bad_char_ok (s \<lparr>bad_char_table := T\<rparr>)"
proof -
  let ?n = "len (pattern s)"
  define T0 where "T0 = fold (\<lambda>i t. t(i := (if start s = 0 then -1 else start s - 1))) [0..AlphabetSize s - 1] (bad_char_table s)"
  define T where "T = fold (\<lambda>i t. t(bucket s (at_pos (pattern s) i) := i)) [start s..?n - 2] T0"
  let ?s = "s \<lparr>bad_char_table := T\<rparr>"
  note F = fold_last_index [OF T_def]
  have T: "PopulateBoyerMooreHorspoolTable s = ?s"
    by (simp add: PopulateBoyerMooreHorspoolTable_def T_def T0_def bucket_def Let_def)
  have b [simp]: "bucket ?s = bucket s" "AlphabetSize ?s = AlphabetSize s" by (auto simp: bucket_def AlphabetSize_def fun_eq_iff)
  have "bad_char_ok ?s"
    unfolding bad_char_ok_def
  proof (intro allI impI)
    fix c assume c: "ssize ?s = 1 \<longrightarrow> c \<le> kMaxAsciiCharCode"
    have sz: "psize ?s = 1 \<or> psize ?s = 2" "ssize ?s = 1 \<or> ssize ?s = 2" using ok by auto
    note O = CharOccurrence_bucket [OF sz c]
    show "-1 \<le> CharOccurrence ?s c \<and> CharOccurrence ?s c < len (pattern ?s) - 1 \<and>
      (\<forall>k. CharOccurrence ?s c < k \<longrightarrow> k < len (pattern ?s) - 1 \<longrightarrow> at_pos (pattern ?s) k \<noteq> c)"
    proof (cases "psize s = 1 \<and> c > kMaxAsciiCharCode")
      case True
      then have "at_pos (pattern s) k \<noteq> c" if "0 \<le> k" "k < ?n" for k using pattern_char [of "pattern s" k] ok(3) that by auto
      then show ?thesis using O(1) True st by auto
    next
      case False
      then have o: "CharOccurrence ?s c = T (bucket s c)" using O(1) False by (simp, blast)
      have "T0 (bucket s c) = start s - 1" using O(2) False by (auto simp: T0_def fold_const)
      then have r: "start s - 1 \<le> T (bucket s c)" "T (bucket s c) \<le> ?n - 2" using F(1) [of "bucket s c"] st by auto
      have "at_pos (pattern s) k \<noteq> c" if k: "T (bucket s c) < k" "k < ?n - 1" for k
        using F(2) [of k] r(1) k by auto
      then show ?thesis using r o st by simp
    qed
  qed
  then show ?thesis using T by blast
qed

section \<open>Boyer-Moore-Horspool\<close>

text \<open>What a search object is: the strategy fits the pattern, and the tables that it uses are those of the pattern.\<close>

definition search_ok :: "string_search \<Rightarrow> bool" where
  "search_ok s \<longleftrightarrow> (psize s = 1 \<or> psize s = 2) \<and> (ssize s = 1 \<or> ssize s = 2) \<and> (psize s = 1 \<longrightarrow> IsAsciiString (pattern s)) \<and>
     pattern s \<noteq> [] \<and> start s = max 0 (len (pattern s) - kBMMaxShift) \<and>
     (if strategy s = FailSearch then psize s > ssize s \<and> \<not> IsAsciiString (pattern s)
      else (ssize s = 1 \<longrightarrow> IsAsciiString (pattern s)) \<and>
        (strategy s = SingleCharSearch \<longrightarrow> len (pattern s) = 1) \<and>
        (strategy s \<in> {InitialSearch, BoyerMooreHorspoolSearch, BoyerMooreSearch} \<longrightarrow> kBMMinPatternLength \<le> len (pattern s)) \<and>
        (strategy s \<in> {BoyerMooreHorspoolSearch, BoyerMooreSearch} \<longrightarrow> bad_char_ok s) \<and> (strategy s = BoyerMooreSearch \<longrightarrow> good_suffix_ok s))"

text \<open>A subject has characters of the size that the object was made for.\<close>

definition subject_ok :: "string_search \<Rightarrow> nat list \<Rightarrow> bool" where
  "subject_ok s subject \<longleftrightarrow> (ssize s = 1 \<longrightarrow> IsAsciiString subject)"

definition same_search :: "string_search \<Rightarrow> string_search \<Rightarrow> bool" where
  "same_search s s' \<longleftrightarrow> psize s' = psize s \<and> ssize s' = ssize s \<and> pattern s' = pattern s"

text \<open>What a call of \<open>Search\<close> returns.\<close>

definition search_result :: "string_search \<Rightarrow> nat list \<Rightarrow> int \<Rightarrow> (int \<times> string_search) option \<Rightarrow> bool" where
  "search_result s subject index x \<longleftrightarrow> (\<exists>r s'. x = Some (r, s') \<and> first_match (pattern s) subject index r \<and> search_ok s' \<and> same_search s s')"

lemma search_resultI:
  "first_match (pattern s) subject index r \<Longrightarrow> search_ok s' \<Longrightarrow> same_search s s' \<Longrightarrow> search_result s subject index (Some (r, s'))"
  by (simp add: search_result_def)

lemma search_result_later:
  assumes "search_result s' subject b x" "same_search s s'" "a \<le> b" "\<And>i. a \<le> i \<Longrightarrow> i < b \<Longrightarrow> \<not> matches (pattern s) subject i"
  shows "search_result s subject a x"
proof -
  obtain r s'' where "x = Some (r, s'')" "first_match (pattern s) subject b r" "search_ok s''" "same_search s s''"
    using assms(1,2) by (auto simp: search_result_def same_search_def)
  then show ?thesis using first_match_later [of "pattern s" subject b r a] assms(3,4) by (auto simp: search_result_def)
qed

lemma same_search_refl [simp]: "same_search s s"
  by (simp add: same_search_def)

lemma search_ok_chars: "search_ok s \<Longrightarrow> subject_ok s subject \<Longrightarrow> strategy s \<noteq> FailSearch \<Longrightarrow> chars_ok s subject"
  by (auto simp: search_ok_def subject_ok_def chars_ok_def)

lemma search_ok_state:
  assumes "search_ok s" "strategy s = BoyerMooreHorspoolSearch \<or> strategy s = BoyerMooreSearch"
  shows "search_state s"
  using assms by (auto simp: search_ok_def search_state_def kBMMaxShift_def kBMMinPatternLength_def)

lemma tables_frame [simp]:
  "bad_char_ok (s \<lparr>good_suffix_shift_table := sh\<rparr>) = bad_char_ok s" "bad_char_ok (s \<lparr>suffix_table := tab\<rparr>) = bad_char_ok s"
  "bad_char_ok (s \<lparr>strategy := x\<rparr>) = bad_char_ok s" "good_suffix_ok (s \<lparr>strategy := x\<rparr>) = good_suffix_ok s"
  unfolding bad_char_ok_def good_suffix_ok_def CharOccurrence_def by simp_all

lemma Populate_search_ok:
  assumes "search_ok s" "strategy s = BoyerMooreHorspoolSearch"
  shows "\<exists>s'. PopulateBoyerMooreTable s = Some s' \<and> search_ok (s' \<lparr>strategy := BoyerMooreSearch\<rparr>) \<and> same_search s s'"
proof -
  have st: "0 \<le> start s" "start s + 1 < len (pattern s)" using search_ok_state [OF assms(1)] assms(2) by (auto simp: search_state_def)
  obtain sh tab where "PopulateBoyerMooreTable s = Some (s \<lparr>good_suffix_shift_table := sh, suffix_table := tab\<rparr>)"
      "good_suffix_ok (s \<lparr>good_suffix_shift_table := sh, suffix_table := tab\<rparr>)" using Populate_ok [OF st] by blast
  then show ?thesis using assms by (simp add: search_ok_def same_search_def)
qed

lemma BoyerMoore_result:
  assumes "search_ok s" "strategy s = BoyerMooreSearch" "subject_ok s subject" "0 \<le> index"
  shows "search_result s subject index (map_option (\<lambda>r. (r, s)) (run_BoyerMooreSearch s subject index))"
  using boyer_moore_ok [of s subject index] search_ok_state [OF assms(1)] search_ok_chars [OF assms(1,3)] assms
  by (auto simp: run_BoyerMooreSearch_def search_ok_def intro!: search_resultI)

lemma horspool_loop_ok:
  assumes s: "search_ok s" "strategy s = BoyerMooreHorspoolSearch" "subject_ok s subject"
  shows "0 \<le> index \<Longrightarrow> search_result s subject index (horspool_loop s subject index badness)"
proof (induction "nat (len subject - len (pattern s) + 1 - index)" arbitrary: index badness rule: less_induct)
  case less
  let ?p = "pattern s" and ?j = "len (pattern s) - 1"
  have st: "0 \<le> start s" "start s < ?j" and bc: "bad_char_ok s" using search_ok_state [OF s(1)] s(2) by (auto simp: search_state_def)
  have ch: "chars_ok s subject" using search_ok_chars [OF s(1,3)] s(2) by simp
  show ?case
  proof (cases "index \<le> len subject - len ?p")
    case False
    then show ?thesis using first_match_end [of subject ?p index] s(1) by (simp add: horspool_loop.simps [of _ _ index] Let_def search_resultI)
  next
    case index: True
    let ?c = "at_pos subject (index + ?j)"
    let ?d = "?j - CharOccurrence s ?c"
    have d: "1 \<le> ?d" using bad_charD(2) [OF bc subject_char [OF ch, of "index + ?j"]] st index less.prems by simp
    have skip: "\<not> matches ?p subject i" if "\<not> matches ?p subject index" "index \<le> i" "i < index + ?d" for i
      using occurrence_shift [OF bc ch _ _ less.prems index that] st by simp
    have later: "search_result s subject index x" if "search_result s' subject (index + ?d) x" "same_search s s'" "\<not> matches ?p subject index" for x s'
      using search_result_later [OF that(1,2), of index] skip that(3) d by simp
    have loop: "search_result s subject (index + ?d) (horspool_loop s subject (index + ?d) b)" for b
      using less.hyps [of "index + ?d" b] less.prems d index by simp
    show ?thesis
    proof (cases "at_pos ?p ?j = ?c")
      case False
      then have "\<not> matches ?p subject index" using matchesD [of ?p subject index ?j] st by auto
      then show ?thesis using later [OF loop] False index by (simp add: horspool_loop.simps [of _ _ index] Let_def)
    next
      case last: True
      obtain r where r: "match_back ?p subject index (?j - 1) = r" by blast
      have l: "-1 \<le> ?j - 1" using st by simp
      note B = match_backD [OF r l]
      show ?thesis
      proof (cases "r < 0")
        case True
        have "at_pos subject (index + t) = at_pos ?p t" if "?j - 1 < t" "t < len ?p" for t
        proof -
          have "t = ?j" using that by linarith
          then show ?thesis using last by simp
        qed
        then have "matches ?p subject index" using full_window [of ?p subject index "?j - 1"] r True l less.prems index by simp
        then show ?thesis using True last r index s(1) first_match_here
          by (simp add: horspool_loop.simps [of _ _ index] Let_def search_resultI)
      next
        case False
        have no: "\<not> matches ?p subject index" using matchesD [of ?p subject index r] B(1,4) False by auto
        obtain s' where s': "PopulateBoyerMooreTable s = Some s'" "search_ok (s' \<lparr>strategy := BoyerMooreSearch\<rparr>)" "same_search s s'"
          using Populate_search_ok [OF s(1,2)] by blast
        let ?s = "s' \<lparr>strategy := BoyerMooreSearch\<rparr>"
        have "same_search s ?s" "subject_ok ?s subject" using s' s(3) by (auto simp: same_search_def subject_ok_def)
        moreover have "0 \<le> index + ?d" using d less.prems by simp
        ultimately have "search_result s subject index (map_option (\<lambda>r. (r, ?s)) (run_BoyerMooreSearch ?s subject (index + ?d)))"
          using later [OF BoyerMoore_result [OF s'(2)]] no by simp
        then show ?thesis using later [OF loop] no last r False index s'(1) by (simp add: horspool_loop.simps [of _ _ index] Let_def)
      qed
    qed
  qed
qed

lemma Horspool_result:
  assumes "search_ok s" "strategy s = BoyerMooreHorspoolSearch" "subject_ok s subject" "0 \<le> index"
  shows "search_result s subject index (run_BoyerMooreHorspoolSearch s subject index)"
  unfolding run_BoyerMooreHorspoolSearch_def by (rule horspool_loop_ok [OF assms])

section \<open>The initial search\<close>

lemma match_forward_ok:
  "j \<le> len pat \<Longrightarrow> match_forward pat subject i j \<le> len pat \<and>
     (match_forward pat subject i j = len pat \<longleftrightarrow> (\<forall>t. j \<le> t \<longrightarrow> t < len pat \<longrightarrow> at_pos pat t = at_pos subject (i + t)))"
proof (induction pat subject i j rule: match_forward.induct)
  case (1 pat subject i j)
  consider "j = len pat" | "j < len pat" "at_pos pat j \<noteq> at_pos subject (i + j)" | "j < len pat" "at_pos pat j = at_pos subject (i + j)"
    using 1(2) by linarith
  then show ?case
  proof cases
    case 3
    have "j \<le> t \<and> t < len pat \<longleftrightarrow> t = j \<or> j + 1 \<le> t \<and> t < len pat" for t using 3(1) by linarith
    then have "(\<forall>t. j \<le> t \<longrightarrow> t < len pat \<longrightarrow> at_pos pat t = at_pos subject (i + t)) \<longleftrightarrow>
      (\<forall>t. j + 1 \<le> t \<longrightarrow> t < len pat \<longrightarrow> at_pos pat t = at_pos subject (i + t))" using 3(2) by metis
    moreover have "match_forward pat subject i j = match_forward pat subject i (j + 1)" using 3 by (simp add: match_forward.simps [of _ _ _ j])
    ultimately show ?thesis using 1(1) 3 by simp
  next
    case 1
    have "match_forward pat subject i j = j" using 1 by (subst match_forward.simps) simp
    then show ?thesis using 1 by simp
  next
    case 2
    have "match_forward pat subject i j = j" using 2 by (subst match_forward.simps) simp
    then show ?thesis using 2 by auto
  qed
qed

lemma match_forward_matches:
  assumes "1 \<le> len pat" "at_pos subject i = at_pos pat 0" "0 \<le> i" "i \<le> len subject - len pat"
  shows "match_forward pat subject i 1 = len pat \<longleftrightarrow> matches pat subject i"
proof -
  have "0 \<le> t \<and> t < len pat \<longleftrightarrow> t = 0 \<or> 1 \<le> t \<and> t < len pat" for t using assms(1) by linarith
  then have "(\<forall>t. 1 \<le> t \<longrightarrow> t < len pat \<longrightarrow> at_pos pat t = at_pos subject (i + t)) \<longleftrightarrow> (\<forall>t. 0 \<le> t \<longrightarrow> t < len pat \<longrightarrow> at_pos subject (i + t) = at_pos pat t)"
    using assms(2) by (metis add.right_neutral)
  then show ?thesis using match_forward_ok [OF assms(1), of subject i] assms(3,4) by (simp add: matches_def)
qed

lemma switch_to_Horspool:
  assumes "search_ok s" "strategy s = InitialSearch"
  shows "search_ok ((PopulateBoyerMooreHorspoolTable s) \<lparr>strategy := BoyerMooreHorspoolSearch\<rparr>)"
    "same_search s ((PopulateBoyerMooreHorspoolTable s) \<lparr>strategy := BoyerMooreHorspoolSearch\<rparr>)"
proof -
  have "0 \<le> start s" "start s < len (pattern s) - 1" using assms by (auto simp: search_ok_def kBMMaxShift_def kBMMinPatternLength_def)
  then obtain T where "PopulateBoyerMooreHorspoolTable s = s \<lparr>bad_char_table := T\<rparr>" "bad_char_ok (s \<lparr>bad_char_table := T\<rparr>)"
    using PopulateBoyerMooreHorspoolTable_ok [of s] assms(1) by (auto simp: search_ok_def)
  then show "search_ok ((PopulateBoyerMooreHorspoolTable s) \<lparr>strategy := BoyerMooreHorspoolSearch\<rparr>)"
    "same_search s ((PopulateBoyerMooreHorspoolTable s) \<lparr>strategy := BoyerMooreHorspoolSearch\<rparr>)"
    using assms by (auto simp: search_ok_def same_search_def)
qed

lemma initial_loop_ok:
  assumes s: "search_ok s" "strategy s = InitialSearch" "subject_ok s subject"
  shows "0 \<le> i \<Longrightarrow> search_result s subject i (initial_loop s subject i badness)"
proof (induction "nat (len subject - len (pattern s) + 1 - i)" arbitrary: i badness rule: less_induct)
  case less
  let ?p = "pattern s" and ?n = "len subject - len (pattern s)" and ?bytes = "ssize s = 1 \<and> psize s = 1"
  have ne: "?p \<noteq> []" "1 \<le> len ?p" using s(1,2) by (auto simp: search_ok_def kBMMinPatternLength_def)
  consider (out) "?n < i" | (switch) "i \<le> ?n" "0 < badness + 1"
    | (none) "i \<le> ?n" "badness + 1 \<le> 0" "(if ?bytes then memchr subject i (at_pos ?p 0) (?n - i + 1) else Some i) = None"
    | (some) p where "i \<le> ?n" "badness + 1 \<le> 0" "(if ?bytes then memchr subject i (at_pos ?p 0) (?n - i + 1) else Some i) = Some p"
    by fastforce
  then show ?case
  proof cases
    case out
    then show ?thesis using first_match_end [of subject ?p i] s(1) by (simp add: initial_loop.simps [of _ _ i] Let_def search_resultI)
  next
    case switch
    let ?s = "(PopulateBoyerMooreHorspoolTable s) \<lparr>strategy := BoyerMooreHorspoolSearch\<rparr>"
    note w = switch_to_Horspool [OF s(1,2)]
    have "search_result ?s subject i (run_BoyerMooreHorspoolSearch ?s subject i)"
      using Horspool_result [OF w(1) _ _ less.prems] w(2) s(3) by (simp add: subject_ok_def same_search_def)
    then have "search_result s subject i (run_BoyerMooreHorspoolSearch ?s subject i)" using search_result_later [OF _ w(2), of subject i _ i] by simp
    then show ?thesis using switch by (simp add: initial_loop.simps [of _ _ i] Let_def)
  next
    case none
    then show ?thesis using next_place_None [OF none(3) ne(1)] s(1) by (subst initial_loop.simps) (simp add: Let_def search_resultI)
  next
    case (some p)
    note p = next_place_Some [OF some(3) ne(1) some(1)]
    have loop: "search_result s subject i (initial_loop s subject (p + 1) b)" if "\<not> matches ?p subject p" for b
    proof -
      have "search_result s subject (p + 1) (initial_loop s subject (p + 1) b)" using less.hyps [of "p + 1" b] less.prems p(1,2) by simp
      moreover have "\<not> matches ?p subject k" if "i \<le> k" "k < p + 1" for k using p(4) [of k] that \<open>\<not> matches ?p subject p\<close> by (cases "k = p") auto
      ultimately show ?thesis using search_result_later [of s subject "p + 1" _ s i] p(1) by simp
    qed
    show ?thesis
    proof (cases "at_pos subject p = at_pos ?p 0")
      case False
      then have "\<not> matches ?p subject p" using matches_first ne(1) by blast
      then show ?thesis using loop False p(3) some by (subst initial_loop.simps) (auto simp: Let_def)
    next
      case True
      have m: "match_forward ?p subject p 1 = len ?p \<longleftrightarrow> matches ?p subject p"
        using match_forward_matches [OF ne(2) True] p(1,2) less.prems by simp
      show ?thesis
      proof (cases "matches ?p subject p")
        case True
        then have "first_match ?p subject i p" using first_match_later [OF first_match_here [OF True] p(1) p(4)] by simp
        then show ?thesis using some m True \<open>at_pos subject p = at_pos ?p 0\<close> s(1)
          by (subst initial_loop.simps) (simp add: Let_def search_resultI)
      next
        case no: False
        then show ?thesis using loop [OF no] some m True by (subst initial_loop.simps) (simp add: Let_def)
      qed
    qed
  qed
qed

section \<open>Searches\<close>

lemma Search_ok:
  assumes s: "search_ok s" "subject_ok s subject" "0 \<le> index"
  shows "search_result s subject index (Search s subject index)"
proof (cases "strategy s")
  case FailSearch
  then obtain k where "ssize s = 1" "0 \<le> k" "k < len (pattern s)" "kMaxAsciiCharCode < at_pos (pattern s) k"
    using s(1) by (fastforce simp: search_ok_def IsAsciiString_def in_set_conv_nth at_pos_def len_def not_le
        intro: that [of "int n" for n])
  moreover have "at_pos subject (i + k) \<le> kMaxAsciiCharCode" if "matches (pattern s) subject i" for i
    using pattern_char [of subject "i + k"] s(2) that calculation by (simp add: subject_ok_def matches_def)
  ultimately have "\<not> matches (pattern s) subject i" for i using matchesD [of "pattern s" subject i k] by fastforce
  then show ?thesis using FailSearch s(1) by (simp add: Search_def first_match_def search_resultI)
next
  case SingleCharSearch
  have 1: "len (pattern s) = 1" using s(1) SingleCharSearch by (simp add: search_ok_def)
  have "\<not> (psize s > ssize s \<and> at_pos (pattern s) 0 > kMaxAsciiCharCode)"
    using s(1) SingleCharSearch pattern_char [of "pattern s" 0] 1 by (auto simp: search_ok_def)
  then have "first_match (pattern s) subject index (run_SingleCharSearch s subject index)"
    using memchr_single [OF 1 s(3)] single_loop_ok [OF 1 s(3)] by (auto simp: run_SingleCharSearch_def Let_def)
  then show ?thesis using SingleCharSearch s(1) by (simp add: Search_def search_resultI)
next
  case LinearSearch
  then show ?thesis using linear_loop_ok [of "pattern s" index subject] s by (simp add: Search_def run_LinearSearch_def search_ok_def search_resultI)
next
  case InitialSearch
  then show ?thesis using initial_loop_ok [OF s(1) _ s(2,3)] by (simp add: Search_def run_InitialSearch_def)
next
  case BoyerMooreHorspoolSearch
  then show ?thesis using Horspool_result [OF s(1) _ s(2,3)] by (simp add: Search_def)
next
  case BoyerMooreSearch
  then show ?thesis using BoyerMoore_result [OF s(1) _ s(2,3)] by (simp add: Search_def)
qed

text \<open>Strings that fit the sizes of their characters, as the constructor gets them.\<close>

definition strings_ok :: "nat \<Rightarrow> nat \<Rightarrow> nat list \<Rightarrow> nat list \<Rightarrow> bool" where
  "strings_ok ps ss pat subject \<longleftrightarrow> (ps = 1 \<or> ps = 2) \<and> (ss = 1 \<or> ss = 2) \<and> pat \<noteq> [] \<and>
     (ps = 1 \<longrightarrow> IsAsciiString pat) \<and> (ss = 1 \<longrightarrow> IsAsciiString subject)"

lemma StringSearch_ok: "strings_ok ps ss pat subject \<Longrightarrow> search_ok (StringSearch ps ss pat tables)"
  by (auto simp: strings_ok_def search_ok_def StringSearch_def)

lemma StringSearch_subject: "strings_ok ps ss pat subject \<Longrightarrow> subject_ok (StringSearch ps ss pat tables) subject"
  by (simp add: strings_ok_def subject_ok_def StringSearch_def)

subsection \<open>The reference\<close>

text \<open>The first place at or after \<open>a\<close> where the pattern is a sublist of the subject.\<close>

definition index_of :: "nat list \<Rightarrow> nat list \<Rightarrow> int \<Rightarrow> int" where
  "index_of pat subject a =
     (case find (\<lambda>i. take (length pat) (drop i subject) = pat) [nat a..<length subject + 1 - length pat] of
        None \<Rightarrow> -1 | Some i \<Rightarrow> int i)"

lemma matches_sublist: "matches pat subject (int i) \<longleftrightarrow> i + length pat \<le> length subject \<and> take (length pat) (drop i subject) = pat"
proof -
  have "(\<forall>k. 0 \<le> k \<longrightarrow> k < len pat \<longrightarrow> at_pos subject (int i + k) = at_pos pat k) \<longleftrightarrow> (\<forall>k<length pat. subject ! (i + k) = pat ! k)" (is "?l = ?r")
  proof
    assume L: ?l
    show ?r using L [rule_format, of "int k" for k] by (auto simp: at_pos_def len_def nat_add_distrib)
  next
    assume ?r
    then show ?l by (auto simp: at_pos_def len_def nat_add_distrib)
  qed
  moreover have "take (length pat) (drop i subject) = pat \<longleftrightarrow> (\<forall>k<length pat. subject ! (i + k) = pat ! k)" if "i + length pat \<le> length subject"
    using that by (auto simp: list_eq_iff_nth_eq)
  ultimately show ?thesis by (auto simp: matches_def len_def)
qed

lemma first_match_unique: "first_match pat subject a r \<Longrightarrow> first_match pat subject a r' \<Longrightarrow> 0 \<le> a \<Longrightarrow> r = r'"
  unfolding first_match_def by (auto split: if_splits) (meson linorder_less_linear)

lemma index_of_first:
  assumes "pat \<noteq> []" "0 \<le> a"
  shows "first_match pat subject a (index_of pat subject a)"
proof (cases "find (\<lambda>i. take (length pat) (drop i subject) = pat) [nat a..<length subject + 1 - length pat]")
  case None
  have "\<not> matches pat subject i" if "a \<le> i" for i
    using None matches_sublist [of pat subject "nat i"] that assms by (auto simp: find_None_iff nat_le_iff)
  then show ?thesis using None by (simp add: index_of_def first_match_def)
next
  case (Some i)
  let ?ns = "[nat a..<length subject + 1 - length pat]"
  obtain m where m: "m < length ?ns" "take (length pat) (drop (?ns ! m) subject) = pat" "i = ?ns ! m"
      "\<forall>k<m. take (length pat) (drop (?ns ! k) subject) \<noteq> pat" using Some by (auto simp: find_Some_iff)
  have i: "i = nat a + m" using m(1,3) by simp
  have "matches pat subject (int i)" using m matches_sublist [of pat subject i] by simp
  moreover have "\<not> matches pat subject k" if "a \<le> k" "k < int i" for k
    using m(1,4) i that assms(2) matches_sublist [of pat subject "nat k"] by (auto dest!: spec [of _ "nat k - nat a"] simp: nat_less_iff)
  ultimately have "first_match pat subject a (int i)" using first_match_later [OF first_match_here, of pat subject "int i" a] i assms(2) by simp
  then show ?thesis using Some by (simp add: index_of_def)
qed

subsection \<open>Correctness\<close>



text \<open>Searches that a client makes one after the other with one object, which keeps the strategy that the last one ended with.\<close>

fun searches :: "string_search \<Rightarrow> (nat list \<times> int) list \<Rightarrow> (int list \<times> string_search) option" where
  "searches s [] = Some ([], s)"
| "searches s ((subject, index) # qs) =
     (case Search s subject index of
        None \<Rightarrow> None
      | Some (r, s') \<Rightarrow> map_option (\<lambda>(rs, s''). (r # rs, s'')) (searches s' qs))"

lemma searches_ok:
  assumes "search_ok s" "\<forall>(subject, index)\<in>set qs. subject_ok s subject \<and> 0 \<le> index"
  shows "\<exists>s'. searches s qs = Some (map (\<lambda>(subject, index). index_of (pattern s) subject index) qs, s') \<and> search_ok s' \<and> same_search s s'"
  using assms
proof (induction qs arbitrary: s)
  case (Cons q qs)
  obtain subject index where q: "q = (subject, index)" by fastforce
  have i: "0 \<le> index" "pattern s \<noteq> []" using Cons.prems q by (auto simp: search_ok_def)
  obtain r s' where r: "Search s subject index = Some (r, s')" "first_match (pattern s) subject index r" and s': "search_ok s'" "same_search s s'"
    using Search_ok [of s subject index] Cons.prems q by (auto simp: search_result_def)
  have "r = index_of (pattern s) subject index" using first_match_unique [OF r(2) index_of_first [OF i(2,1)] i(1)] .
  moreover have "\<forall>(subject, index)\<in>set qs. subject_ok s' subject \<and> 0 \<le> index" using Cons.prems(2) s'(2) by (auto simp: subject_ok_def same_search_def)
  ultimately show ?case using Cons.IH [OF s'(1)] r(1) s'(2) q by (auto simp: same_search_def)
qed simp



end
