(* ===== verification/Unbound_Queue.thy ===== *)
theory Unbound_Queue
  imports W16_Prelude
begin

text \<open>
  \<open>UnboundQueue\<close> of \<^verbatim>\<open>src/unbound-queue.h\<close> and \<^verbatim>\<open>src/unbound-queue-inl.h\<close>, the queue without locks between one producer and
  one consumer.  The nodes live in an explicit heap from which \<open>delete\<close> removes them; every access to shared memory is a step of its
  own, the steps of the two threads interleave, and an access to a node that is not allocated or through a null pointer is an error.
\<close>

section \<open>The program\<close>

record 'a qnode =
  qvalue :: 'a
  qnext :: "nat option"

record 'a queue =
  nodes :: "nat \<rightharpoonup> 'a qnode"
  fresh :: nat
  first_node :: "nat option"
  divider :: nat
  last_node :: nat

text \<open>The position of the producer in \<open>Enqueue\<close> and that of the consumer in \<open>IsEmpty\<close> and \<open>Dequeue\<close>.\<close>

datatype producer = Outside | Linked | Checking | Deleting

datatype 'a consumer = Waiting | Reading | Copying nat | Storing nat 'a

definition UnboundQueue_new :: "'a \<Rightarrow> 'a queue" where
  "UnboundQueue_new dummy =
     \<lparr>nodes = [0 \<mapsto> \<lparr>qvalue = dummy, qnext = None\<rparr>], fresh = 1, first_node = Some 0, divider = 0, last_node = 0\<rparr>"

definition IsEmpty :: "'a queue \<Rightarrow> bool" where
  "IsEmpty q \<longleftrightarrow> divider q = last_node q"

definition DeleteFirst :: "'a queue \<Rightarrow> 'a queue option" where
  "DeleteFirst q =
     (case first_node q of
        None \<Rightarrow> None
      | Some f \<Rightarrow>
          (case nodes q f of
             None \<Rightarrow> None
           | Some tmp \<Rightarrow> Some (q \<lparr>nodes := (nodes q)(f := None), first_node := qnext tmp\<rparr>)))"

text \<open>The destructor.\<close>

partial_function (option) UnboundQueue_delete :: "'a queue \<Rightarrow> 'a queue option" where
  "UnboundQueue_delete q =
     (if first_node q = None then Some q else (case DeleteFirst q of None \<Rightarrow> None | Some q \<Rightarrow> UnboundQueue_delete q))"

declare UnboundQueue_delete.simps [code]

definition Peek :: "'a queue \<Rightarrow> 'a option" where
  "Peek q =
     (case nodes q (divider q) of
        None \<Rightarrow> None
      | Some d \<Rightarrow> (case qnext d of None \<Rightarrow> None | Some n \<Rightarrow> map_option qvalue (nodes q n)))"

text \<open>\<open>Enqueue\<close> of a record: link a new node, publish it, and delete the nodes before the divider.\<close>

fun Enqueue :: "'a \<Rightarrow> producer \<Rightarrow> 'a queue \<Rightarrow> (producer \<times> 'a queue) option" where
  "Enqueue rec Outside q =
     (case nodes q (last_node q) of
        None \<Rightarrow> None
      | Some l \<Rightarrow> Some (Linked,
          q \<lparr>nodes := (nodes q)(fresh q \<mapsto> \<lparr>qvalue = rec, qnext = None\<rparr>, last_node q \<mapsto> l \<lparr>qnext := Some (fresh q)\<rparr>), fresh := Suc (fresh q)\<rparr>))"
| "Enqueue rec Linked q =
     (case nodes q (last_node q) of
        None \<Rightarrow> None
      | Some l \<Rightarrow> (case qnext l of None \<Rightarrow> None | Some n \<Rightarrow> Some (Checking, q \<lparr>last_node := n\<rparr>)))"
| "Enqueue rec Checking q = Some (if first_node q \<noteq> Some (divider q) then Deleting else Outside, q)"
| "Enqueue rec Deleting q = map_option (Pair Checking) (DeleteFirst q)"

text \<open>
  The consumer asks \<open>IsEmpty\<close> and calls \<open>Dequeue\<close>, which answers with a record in its last step, only when the queue is not empty.
\<close>

fun Dequeue :: "'a consumer \<Rightarrow> 'a queue \<Rightarrow> ('a consumer \<times> 'a queue \<times> 'a list) option" where
  "Dequeue Waiting q = Some (if IsEmpty q then Waiting else Reading, q, [])"
| "Dequeue Reading q =
     (case nodes q (divider q) of
        None \<Rightarrow> None
      | Some d \<Rightarrow> (case qnext d of None \<Rightarrow> None | Some n \<Rightarrow> Some (Copying n, q, [])))"
| "Dequeue (Copying n) q = (case nodes q n of None \<Rightarrow> None | Some e \<Rightarrow> Some (Storing n (qvalue e), q, []))"
| "Dequeue (Storing n v) q = Some (Waiting, q \<lparr>divider := n\<rparr>, [v])"

section \<open>Runs of the two threads\<close>

text \<open>The records that were given to \<open>Enqueue\<close> and those that \<open>Dequeue\<close> answered, in order.\<close>

record 'a run =
  queue :: "'a queue"
  producer :: producer
  consumer :: "'a consumer"
  sent :: "'a list"
  received :: "'a list"

text \<open>A schedule says which thread makes the next step, and with which record the producer calls \<open>Enqueue\<close> when it starts anew.\<close>

definition run_step :: "'a option \<Rightarrow> 'a run \<Rightarrow> 'a run option" where
  "run_step c s =
     (case c of
        Some rec \<Rightarrow> map_option (\<lambda>(p, q). s \<lparr>producer := p, queue := q, sent := sent s @ (if producer s = Outside then [rec] else [])\<rparr>)
          (Enqueue rec (producer s) (queue s))
      | None \<Rightarrow> map_option (\<lambda>(c, q, vs). s \<lparr>consumer := c, queue := q, received := received s @ vs\<rparr>) (Dequeue (consumer s) (queue s)))"

fun execute :: "'a option list \<Rightarrow> 'a run \<Rightarrow> 'a run option" where
  "execute [] s = Some s"
| "execute (c # schedule) s = (case run_step c s of None \<Rightarrow> None | Some s \<Rightarrow> execute schedule s)"

definition run_init :: "'a \<Rightarrow> 'a run" where
  "run_init dummy = \<lparr>queue = UnboundQueue_new dummy, producer = Outside, consumer = Waiting, sent = [], received = []\<rparr>"

section \<open>The chain of nodes\<close>

text \<open>
  The allocated nodes form a chain from the first to the newest.  The divider is at position \<open>d\<close>; the last node is the newest, or the
  one before it between linking and publishing; the records behind the divider are those that are still to be received.
\<close>

definition linked :: "(nat \<rightharpoonup> 'a qnode) \<Rightarrow> (nat \<times> 'a) list \<Rightarrow> bool" where
  "linked m cs \<longleftrightarrow> distinct (map fst cs) \<and> dom m = fst ` set cs \<and>
     (\<forall>i<length cs. m (fst (cs ! i)) = Some \<lparr>qvalue = snd (cs ! i), qnext = (if Suc i < length cs then Some (fst (cs ! Suc i)) else None)\<rparr>)"

definition newest :: "producer \<Rightarrow> nat" where
  "newest p = (if p = Linked then 1 else 0)"

definition consumer_ok :: "'a consumer \<Rightarrow> (nat \<times> 'a) list \<Rightarrow> nat \<Rightarrow> nat \<Rightarrow> bool" where
  "consumer_ok c cs d l \<longleftrightarrow>
     (case c of
        Waiting \<Rightarrow> True
      | Reading \<Rightarrow> d < l
      | Copying n \<Rightarrow> d < l \<and> n = fst (cs ! Suc d)
      | Storing n v \<Rightarrow> d < l \<and> (n, v) = cs ! Suc d)"

definition run_inv :: "'a run \<Rightarrow> (nat \<times> 'a) list \<Rightarrow> nat \<Rightarrow> nat \<Rightarrow> bool" where
  "run_inv s cs d l \<longleftrightarrow> linked (nodes (queue s)) cs \<and> (\<forall>c\<in>set cs. fst c < fresh (queue s)) \<and>
     d \<le> l \<and> Suc l + newest (producer s) = length cs \<and>
     first_node (queue s) = Some (fst (cs ! 0)) \<and> divider (queue s) = fst (cs ! d) \<and> last_node (queue s) = fst (cs ! l) \<and>
     consumer_ok (consumer s) cs d l \<and> (producer s = Deleting \<longrightarrow> 0 < d) \<and>
     received s @ map snd (drop (Suc d) cs) = sent s"

lemma linkedD:
  "linked m cs \<Longrightarrow> i < length cs \<Longrightarrow> m (fst (cs ! i)) = Some \<lparr>qvalue = snd (cs ! i), qnext = (if Suc i < length cs then Some (fst (cs ! Suc i)) else None)\<rparr>"
  "linked m cs \<Longrightarrow> i < length cs \<Longrightarrow> j < length cs \<Longrightarrow> fst (cs ! i) = fst (cs ! j) \<longleftrightarrow> i = j"
  by (auto simp: linked_def distinct_conv_nth)

lemma linked_append:
  assumes m: "linked m cs" and n: "n \<notin> fst ` set cs" and l: "Suc l = length cs" and e: "m (fst (cs ! l)) = Some e"
  shows "linked (m(n \<mapsto> \<lparr>qvalue = v, qnext = None\<rparr>, fst (cs ! l) \<mapsto> e \<lparr>qnext := Some n\<rparr>)) (cs @ [(n, v)])"
proof -
  have d: "distinct (map fst (cs @ [(n, v)]))" using m n by (simp add: linked_def)
  have ne: "fst (cs ! i) \<noteq> n" if "i < length cs" for i using that n by force
  have e': "e = \<lparr>qvalue = snd (cs ! l), qnext = None\<rparr>" using linkedD(1) [OF m, of l] l e by simp
  have "(m(n \<mapsto> \<lparr>qvalue = v, qnext = None\<rparr>, fst (cs ! l) \<mapsto> e \<lparr>qnext := Some n\<rparr>)) (fst ((cs @ [(n, v)]) ! i)) =
      Some \<lparr>qvalue = snd ((cs @ [(n, v)]) ! i), qnext = (if Suc i < length (cs @ [(n, v)]) then Some (fst ((cs @ [(n, v)]) ! Suc i)) else None)\<rparr>"
    if i: "i < length (cs @ [(n, v)])" for i
  proof -
    consider "i < l" | "i = l" | "i = Suc l" using i l by fastforce
    then show ?thesis
      by cases (use e' l ne [of l] ne [of i] linkedD(1) [OF m, of i] linkedD(2) [OF m, of i l] in \<open>auto simp: nth_append\<close>)
  qed
  moreover have "dom (m(n \<mapsto> \<lparr>qvalue = v, qnext = None\<rparr>, fst (cs ! l) \<mapsto> e \<lparr>qnext := Some n\<rparr>)) = fst ` set (cs @ [(n, v)])"
    using m l by (auto simp: linked_def)
  ultimately show ?thesis using d unfolding linked_def by blast
qed

lemma linked_tl:
  assumes "linked m (c # cs)"
  shows "linked (m(fst c := None)) cs"
proof -
  have d: "distinct (map fst (c # cs))" using assms by (simp add: linked_def)
  have "(m(fst c := None)) (fst (cs ! i)) = Some \<lparr>qvalue = snd (cs ! i), qnext = (if Suc i < length cs then Some (fst (cs ! Suc i)) else None)\<rparr>"
    if "i < length cs" for i
  proof -
    have "fst (cs ! i) \<noteq> fst c" using that d by (metis distinct.simps(2) list.simps(9) length_map nth_map nth_mem)
    then show ?thesis using that linkedD(1) [OF assms, of "Suc i"] by simp
  qed
  moreover have "dom (m(fst c := None)) = fst ` set cs" using assms d by (auto simp: linked_def)
  ultimately show ?thesis using d by (auto simp: linked_def)
qed


lemma run_invD:
  assumes "run_inv s cs d l"
  shows "linked (nodes (queue s)) cs" "d \<le> l" "Suc l + newest (producer s) = length cs" "first_node (queue s) = Some (fst (cs ! 0))"
    "divider (queue s) = fst (cs ! d)" "last_node (queue s) = fst (cs ! l)" "consumer_ok (consumer s) cs d l"
    "received s @ map snd (drop (Suc d) cs) = sent s" "\<forall>c\<in>set cs. fst c < fresh (queue s)" "producer s = Deleting \<longrightarrow> 0 < d"
  using assms by (auto simp: run_inv_def)

lemma run_init_inv: "run_inv (run_init dummy) [(0, dummy)] 0 0"
  by (auto simp: run_inv_def run_init_def UnboundQueue_new_def linked_def newest_def consumer_ok_def)

lemma consumer_ok_later: "consumer_ok c cs d l \<Longrightarrow> consumer_ok c (cs @ [x]) d l" if "l < length cs"
  using that by (auto simp: consumer_ok_def nth_append split: consumer.splits)

lemma link_inv:
  assumes inv: "run_inv s cs d l" and p: "producer s = Outside"
  shows "\<exists>q. Enqueue rec Outside (queue s) = Some (Linked, q) \<and>
    run_inv (s \<lparr>producer := Linked, queue := q, sent := sent s @ [rec]\<rparr>) (cs @ [(fresh (queue s), rec)]) d l"
proof -
  note I = run_invD [OF inv]
  have l: "Suc l = length cs" using I(3) p by (simp add: newest_def)
  obtain e where e: "nodes (queue s) (fst (cs ! l)) = Some e" using linkedD(1) [OF I(1), of l] l by simp
  have n: "fresh (queue s) \<notin> fst ` set cs" using I(9) by auto
  have "linked ((nodes (queue s))(fresh (queue s) \<mapsto> \<lparr>qvalue = rec, qnext = None\<rparr>, last_node (queue s) \<mapsto> e \<lparr>qnext := Some (fresh (queue s))\<rparr>))
      (cs @ [(fresh (queue s), rec)])"
    using linked_append [OF I(1) n l e] I(6) by simp
  moreover have "consumer_ok (consumer s) (cs @ [(fresh (queue s), rec)]) d l" using consumer_ok_later [OF _ I(7)] l by simp
  ultimately show ?thesis using e I l
    by (auto simp: run_inv_def newest_def nth_append less_Suc_eq append_assoc [symmetric] simp del: append_assoc)
qed

lemma publish_inv:
  assumes inv: "run_inv s cs d l" and p: "producer s = Linked"
  shows "\<exists>q. Enqueue rec Linked (queue s) = Some (Checking, q) \<and> run_inv (s \<lparr>producer := Checking, queue := q\<rparr>) cs d (Suc l)"
proof -
  note I = run_invD [OF inv]
  have l: "Suc (Suc l) = length cs" using I(3) p by (simp add: newest_def)
  have "consumer_ok (consumer s) cs d (Suc l)" using I(7) by (auto simp: consumer_ok_def split: consumer.splits)
  then show ?thesis using linkedD(1) [OF I(1), of l] l I by (auto simp: run_inv_def newest_def)
qed

lemma delete_inv:
  assumes inv: "run_inv s cs d l" and p: "producer s = Deleting"
  shows "\<exists>q. Enqueue rec Deleting (queue s) = Some (Checking, q) \<and> run_inv (s \<lparr>producer := Checking, queue := q\<rparr>) (tl cs) (d - 1) (l - 1)"
proof -
  note I = run_invD [OF inv]
  have l: "Suc l = length cs" "0 < d" "d \<le> l" using I p by (simp_all add: newest_def)
  obtain c cs' where cs: "cs = c # cs'" using l(1) by (cases cs) auto
  obtain d' l' where dl: "d = Suc d'" "l = Suc l'" using l(2,3) by (metis Suc_le_D gr0_implies_Suc)
  have "nodes (queue s) (fst c) = Some \<lparr>qvalue = snd c, qnext = Some (fst (cs' ! 0))\<rparr>"
    using linkedD(1) [OF I(1), of 0] l cs dl by (cases cs') auto
  then have "Enqueue rec Deleting (queue s) = Some (Checking, queue s \<lparr>nodes := (nodes (queue s))(fst c := None), first_node := Some (fst (cs' ! 0))\<rparr>)"
    using I(4) cs by (simp add: DeleteFirst_def)
  moreover have last': "last_node (queue s) = fst (cs' ! l')" using I(6) cs dl(2) by simp
  moreover have "consumer_ok (consumer s) cs' d' l'" using I(7) cs dl by (auto simp: consumer_ok_def split: consumer.splits)
  ultimately have "\<exists>q. Enqueue rec Deleting (queue s) = Some (Checking, q) \<and> run_inv (s \<lparr>producer := Checking, queue := q\<rparr>) cs' d' l'"
    using I(1-5,7-10) last' l(1) cs dl linked_tl [of "nodes (queue s)" c cs'] p by (auto simp: run_inv_def newest_def)
  then show ?thesis using cs dl by simp
qed

lemma check_inv:
  assumes inv: "run_inv s cs d l" and p: "producer s = Checking"
  shows "\<exists>p. Enqueue rec Checking (queue s) = Some (p, queue s) \<and> run_inv (s \<lparr>producer := p\<rparr>) cs d l"
proof -
  note I = run_invD [OF inv]
  show ?thesis using I p by (auto simp: run_inv_def newest_def intro: gr0I)
qed

lemma consume_inv:
  assumes inv: "run_inv s cs d l"
  shows "\<exists>c q vs d'. Dequeue (consumer s) (queue s) = Some (c, q, vs) \<and> run_inv (s \<lparr>consumer := c, queue := q, received := received s @ vs\<rparr>) cs d' l"
proof -
  note I = run_invD [OF inv]
  have dl: "d < length cs" "l < length cs" using I(2,3) by auto
  show ?thesis
  proof (cases "consumer s")
    case Waiting
    have "divider (queue s) = last_node (queue s) \<longleftrightarrow> d = l" using I(5,6) linkedD(2) [OF I(1) dl] by simp
    then show ?thesis using Waiting I by (auto simp: IsEmpty_def run_inv_def consumer_ok_def intro!: exI [of _ d])
  next
    case Reading
    then have "d < l" using I(7) by (simp add: consumer_ok_def)
    then show ?thesis using Reading I linkedD(1) [OF I(1) dl(1)] dl by (auto simp: run_inv_def consumer_ok_def intro!: exI [of _ d])
  next
    case (Copying n)
    then have "d < l" "n = fst (cs ! Suc d)" using I(7) by (simp_all add: consumer_ok_def)
    then show ?thesis using Copying I linkedD(1) [OF I(1), of "Suc d"] dl by (auto simp: run_inv_def consumer_ok_def intro!: exI [of _ d])
  next
    case (Storing n v)
    then have d: "d < l" "(n, v) = cs ! Suc d" using I(7) by (simp_all add: consumer_ok_def)
    then have "map snd (drop (Suc d) cs) = v # map snd (drop (Suc (Suc d)) cs)" "n = fst (cs ! Suc d)"
      using dl by (metis Cons_nth_drop_Suc le_less_trans Suc_leI list.simps(9) snd_conv, metis fst_conv)
    then show ?thesis using Storing I d by (auto simp: run_inv_def consumer_ok_def intro!: exI [of _ "Suc d"])
  qed
qed

lemma produce_inv:
  assumes inv: "run_inv s cs d l"
  shows "\<exists>p q cs' d' l'. Enqueue rec (producer s) (queue s) = Some (p, q) \<and>
    run_inv (s \<lparr>producer := p, queue := q, sent := sent s @ (if producer s = Outside then [rec] else [])\<rparr>) cs' d' l'"
proof (cases "producer s")
  case Outside
  then show ?thesis using link_inv [OF inv Outside, of rec] by (simp only: if_True simp_thms) blast
next
  case Linked
  obtain q where "Enqueue rec Linked (queue s) = Some (Checking, q)" "run_inv (s \<lparr>producer := Checking, queue := q\<rparr>) cs d (Suc l)"
    using publish_inv [OF inv Linked] by blast
  then show ?thesis using Linked by auto
next
  case Checking
  obtain p where "Enqueue rec Checking (queue s) = Some (p, queue s)" "run_inv (s \<lparr>producer := p\<rparr>) cs d l"
    using check_inv [OF inv Checking] by blast
  then show ?thesis using Checking by auto
next
  case Deleting
  obtain q where "Enqueue rec Deleting (queue s) = Some (Checking, q)" "run_inv (s \<lparr>producer := Checking, queue := q\<rparr>) (tl cs) (d - 1) (l - 1)"
    using delete_inv [OF inv Deleting] by blast
  then show ?thesis using Deleting by auto
qed

lemma step_inv:
  assumes inv: "run_inv s cs d l"
  shows "\<exists>s' cs' d' l'. run_step c s = Some s' \<and> run_inv s' cs' d' l'"
proof (cases c)
  case None
  then show ?thesis using consume_inv [OF inv] by (auto simp: run_step_def)
next
  case (Some rec)
  obtain p q cs' d' l' where "Enqueue rec (producer s) (queue s) = Some (p, q)"
      "run_inv (s \<lparr>producer := p, queue := q, sent := sent s @ (if producer s = Outside then [rec] else [])\<rparr>) cs' d' l'"
    using produce_inv [OF inv, of rec] by blast
  then show ?thesis using Some unfolding run_step_def by (simp only: option.case option.map prod.case) blast
qed

lemma run_steps_inv: "run_inv s cs d l \<Longrightarrow> \<exists>s' cs' d' l'. execute schedule s = Some s' \<and> run_inv s' cs' d' l'"
proof (induction schedule arbitrary: s cs d l)
  case (Cons c schedule)
  then show ?case using step_inv [OF Cons.prems, of c] by fastforce
qed auto

lemma run_from_init: "\<exists>s cs d l. execute schedule (run_init dummy) = Some s \<and> run_inv s cs d l"
  by (rule run_steps_inv [OF run_init_inv])

section \<open>Progress and storage\<close>

lemma Waiting_progress:
  assumes inv: "run_inv s cs d l" and c: "consumer s = Waiting" and p: "producer s = Outside" and n: "received s \<noteq> sent s"
  shows "\<not> IsEmpty (queue s)"
proof -
  note I = run_invD [OF inv]
  have l: "Suc l = length cs" using I(3) p by (simp add: newest_def)
  have "d \<noteq> l" using I(8) n l by auto
  then show ?thesis using linkedD(2) [OF I(1), of d l] I(2,5,6) l by (auto simp: IsEmpty_def)
qed

lemma Peek_next:
  assumes inv: "run_inv s cs d l" and n: "\<not> IsEmpty (queue s)"
  shows "\<exists>v vs. map snd (drop (Suc d) cs) = v # vs \<and> Peek (queue s) = Some v"
proof -
  note I = run_invD [OF inv]
  have dl: "d < l" "l < length cs" using I(2,3,5,6) n by (auto simp: IsEmpty_def nat_less_le)
  then have "Peek (queue s) = Some (snd (cs ! Suc d))"
    using linkedD(1) [OF I(1), of d] linkedD(1) [OF I(1), of "Suc d"] I(5) by (simp add: Peek_def)
  moreover have "drop (Suc d) cs = cs ! Suc d # drop (Suc (Suc d)) cs" using dl by (simp add: Cons_nth_drop_Suc)
  ultimately show ?thesis by simp
qed

lemma delete_chain:
  "linked (nodes q) cs \<Longrightarrow> first_node q = (if cs = [] then None else Some (fst (cs ! 0))) \<Longrightarrow>
   \<exists>q'. UnboundQueue_delete q = Some q' \<and> nodes q' = Map.empty"
proof (induction cs arbitrary: q)
  case Nil
  then show ?case by (auto simp: UnboundQueue_delete.simps linked_def)
next
  case (Cons c cs)
  have "nodes q (fst c) = Some \<lparr>qvalue = snd c, qnext = (if cs = [] then None else Some (fst (cs ! 0)))\<rparr>"
    using linkedD(1) [OF Cons.prems(1), of 0] by simp
  then obtain q1 where q1: "DeleteFirst q = Some q1" "nodes q1 = (nodes q)(fst c := None)" "first_node q1 = (if cs = [] then None else Some (fst (cs ! 0)))"
    using Cons.prems(2) by (simp add: DeleteFirst_def)
  have "linked (nodes q1) cs" unfolding q1(2) by (rule linked_tl [OF Cons.prems(1)])
  from Cons.IH [OF this q1(3)] show ?case using q1(1) Cons.prems(2) UnboundQueue_delete.simps [of q] by simp
qed

section \<open>Properties\<close>

text \<open>
  C35. The queue between one producer and one consumer is first in, first out and touches only allocated nodes: in every interleaving of
  the steps of \<open>Enqueue\<close> and \<open>Dequeue\<close> no step reads a deleted node or a null pointer, the records received are the first of those that
  were sent, and \<open>Peek\<close> shows the next one.  A record can be received as soon as its \<open>Enqueue\<close> has returned.
\<close>

theorem UnboundQueue_fifo:
  "\<exists>s rest. execute schedule (run_init dummy) = Some s \<and> sent s = received s @ rest \<and>
     (if IsEmpty (queue s) then producer s = Outside \<and> consumer s = Waiting \<longrightarrow> rest = [] else rest \<noteq> [] \<and> Peek (queue s) = Some (hd rest))"
proof -
  obtain s cs d l where s: "execute schedule (run_init dummy) = Some s" "run_inv s cs d l" using run_from_init [of schedule dummy] by blast
  let ?rest = "map snd (drop (Suc d) cs)"
  have r: "received s @ ?rest = sent s" using run_invD(8) [OF s(2)] .
  then have "producer s = Outside \<and> consumer s = Waiting \<longrightarrow> ?rest = []" if "IsEmpty (queue s)"
    using Waiting_progress [OF s(2)] that by (metis append_self_conv)
  moreover have "?rest \<noteq> [] \<and> Peek (queue s) = Some (hd ?rest)" if "\<not> IsEmpty (queue s)" using Peek_next [OF s(2) that] by auto
  ultimately show ?thesis using s(1) r by (intro exI2 [of _ s ?rest]) simp
qed

theorem UnboundQueue_fifo_witness:
  "\<exists>s. execute [Some 7, Some 7, None, None, None, Some 7, Some 8, None, None] (run_init (0 :: nat)) = Some s \<and> sent s = [7, 8] \<and>
     received s = [7] \<and> (\<exists>rest. sent s = received s @ rest)"
  using UnboundQueue_fifo [of "[Some 7, Some 7, None, None, None, Some 7, Some 8, None, None]" "0 :: nat"]
  by (auto simp: run_step_def run_init_def UnboundQueue_new_def IsEmpty_def DeleteFirst_def)

text \<open>
  C36. No node is lost or deleted twice: whatever the two threads have done, the destructor ends and leaves no node allocated.
\<close>

theorem UnboundQueue_delete_frees_all:
  "\<exists>s q. execute schedule (run_init dummy) = Some s \<and> UnboundQueue_delete (queue s) = Some q \<and> nodes q = Map.empty"
proof -
  obtain s cs d l where s: "execute schedule (run_init dummy) = Some s" "run_inv s cs d l" using run_from_init [of schedule dummy] by blast
  note I = run_invD [OF s(2)]
  have "first_node (queue s) = (if cs = [] then None else Some (fst (cs ! 0)))" using I(3,4) by (cases cs) auto
  from delete_chain [OF I(1) this] show ?thesis using s(1) by blast
qed

end
