(* ===== verification/Spec2Isabelle.thy ===== *)
theory Spec2Isabelle
  imports Stm_Serial Gc_Protocol Event_Loop Number_To_String V8_HashMap Char_Merge Word_Relation Dispatch_Table
    Search_Correct Unbound_Queue
begin

text \<open>
  W16 is a fork of the V8 JavaScript engine in which several threads run events of one program on one heap, each event in a
  software transaction.  This development models the transactional memory and the event loops that are W16's own, and of the engine the
  containers, the conversion of numbers to strings, the search for strings and the character classes of regular expressions; it proves what these
  parts promise to their callers.
  Paths in the texts are relative to the repository's root; \<^verbatim>\<open>src/stm.cc\<close> is the file of that name in its directory \<^verbatim>\<open>src\<close>.

  \<^bold>\<open>How the parts fit together.\<close>  \<^verbatim>\<open>w16/main.cc\<close> starts worker threads that take events from a queue.  A worker starts a
  transaction (\<open>STM::StartTransaction\<close>), runs the event and commits; when the commit fails, it runs the event again.  While the event runs, the
  runtime sends every load and store of an object through \<open>RedirectLoad\<close> and \<open>RedirectStore\<close>: a load registers the object in the read set, a
  store makes a private copy and registers it in the write set.  The sets are \<open>CellMap\<close>s: chains of blocks of cells, which the collector
  visits and updates, so that they survive moving collections.  A commit locks out the other transactions, writes the copies back and aborts
  every transaction whose sets intersect its write set.  Allocation and collection scopes stop the world: the collector takes the GC locks of
  all transactions.  The other components are sequential and are used by the engine everywhere: the growable arrays, the splay trees, the hash
  maps, the number conversions, the string search, the queue between the profiler's threads, and the ranges and dispatch tables from which
  regular expressions are compiled.  A number becomes a string in layers: \<open>DoubleToCString\<close> and its variants ask \<open>DoubleToAscii\<close> for
  digits, which tries \<open>FastDtoa\<close> or \<open>FastFixedDtoa\<close> on 64-bit approximations and, when these give up, computes exactly with \<open>BignumDtoa\<close>.

  \<^bold>\<open>Theories.\<close>
  \<^item> \<open>W16_Prelude\<close>: addresses, handle locations, unsigned integers with their truncation written out, facts shared by the components.
  \<^item> \<open>V8_List\<close>: \<open>List<T>\<close> of \<^verbatim>\<open>src/list.h\<close> and \<^verbatim>\<open>src/list-inl.h\<close> with its backing store and capacity; locale
    \<open>sequence\<close> states it as a sequence of elements and is interpreted on the operations.  \<open>SortedListBSearch\<close> terminates and finds what is there.
  \<^item> \<open>Cell_Map\<close>: \<open>CellMap\<close>, \<open>ReadSet\<close> and \<open>WriteSet\<close> of \<^verbatim>\<open>src/stm.cc\<close>: blocks, the two indexes, \<open>AddMapping\<close>, \<open>GetMapping\<close>,
    \<open>Iterate\<close> with \<open>RebuildObjectMap\<close>, \<open>CommitChanges\<close>, \<open>Intersects\<close>; locale \<open>redirect_set\<close> is what the transactions rely on.
  \<^item> \<open>Stm\<close>, \<open>Stm_Commit\<close>: \<open>Transaction\<close> and \<open>STM\<close> of \<^verbatim>\<open>src/stm.cc\<close>, \<open>CopyJSObject\<close> and \<open>CopyBlock\<close> of \<^verbatim>\<open>src/heap.cc\<close>
    and \<^verbatim>\<open>src/heap-inl.h\<close>, \<open>StoreIC::Store\<close> of \<^verbatim>\<open>src/ic.cc\<close>, each run to completion.  The invariant of every reachable state; reading
    one's own writes; isolation of stores; the effect of a commit on the heap and on the other transactions; collections commute with lookups.
    Allocator and collector are parameters, with what the code relies on as hypotheses.
  \<^item> \<open>Stm_Serial\<close>: the same protocol as a step relation of any number of threads, with the steps of load, store and commit interleaved.
    Committed transactions are serializable in the order of their commits, under the condition that no copy is registered late; without it, a
    reachable state shows the lost update.
  \<^item> \<open>Gc_Protocol\<close>: the locks of allocation, collection, pausing, starting and committing as a small-step machine; mutual exclusion of
    the collector, absence of lost wake-ups, and the deadlock of a collection nested in an allocation.
  \<^item> \<open>Event_Loop\<close>: \<^verbatim>\<open>w16/main.cc\<close>: the checks of \<open>main\<close>, \<open>Async\<close> and \<open>EventLoop\<close> as a step function with one program counter per worker.
  \<^item> \<open>Dictionary\<close>, \<open>V8_Splay_Tree\<close>, \<open>V8_HashMap\<close>: the locale \<open>dictionary\<close> says that a container answers any sequence of
    requests as a map does, \<open>ordered_map\<close> adds the neighbours of a key; \<^verbatim>\<open>src/splay-tree-inl.h\<close> and \<^verbatim>\<open>src/hashmap.cc\<close> are its instances.
  \<^item> \<open>Char_Range\<close>, \<open>Char_Merge\<close>, \<open>Word_Relation\<close>: \<open>CharacterRange\<close> of \<^verbatim>\<open>src/jsregexp.cc\<close>: standard classes, canonical
    lists, negation, \<open>Merge\<close>, the relation to the word characters, each with its effect on the set of characters.
  \<^item> \<open>Out_Set\<close>, \<open>Dispatch_Table\<close>: \<open>OutSet\<close> and \<open>DispatchTable\<close> of the same file on top of the splay tree; a table maps every
    character to the choices of the ranges it is in; \<open>CharacterRange::Split\<close> and \<open>AddInverse\<close> as clients.
  \<^item> \<open>Bignum\<close>, \<open>Bignum_Arith\<close>, \<open>Bignum_Divide\<close>, \<open>Bignum_Power\<close>: \<^verbatim>\<open>src/bignum.cc\<close> in bigits of 28 bits; every operation is exact on
    the value as long as the capacity suffices, and \<open>None\<close> otherwise.
  \<^item> \<open>V8_Double\<close>, \<open>Estimate_Power\<close>: \<^verbatim>\<open>src/double.h\<close>, \<^verbatim>\<open>src/diy-fp.h\<close> on bit patterns; the estimate of the power of ten with
    the rounding of its double arithmetic written out.
  \<^item> \<open>Bignum_Dtoa\<close>, \<open>Dtoa_Digits\<close>, \<open>Dtoa_Start\<close>, \<open>Dtoa_Correct\<close>: \<^verbatim>\<open>src/bignum-dtoa.cc\<close>; locale \<open>scaled_numbers\<close> is what the
    digit generator needs of the bignums.  Shortest digits that read back as the double; exactly rounded digits in the two other modes.
  \<^item> \<open>Fixed_Dtoa\<close>: \<^verbatim>\<open>src/fixed-dtoa.cc\<close>; locale \<open>fixed_point\<close> covers its loops on 64 and on 128 bits; the fast conversion is exact and
    agrees with the one on bignums.
  \<^item> \<open>Cached_Powers\<close>: the table of \<^verbatim>\<open>src/cached-powers.cc\<close>; every entry is within half a unit of its power of ten, and the lookups find one in range.
  \<^item> \<open>Fast_Dtoa\<close>, \<open>Grisu_Digits\<close>, \<open>Grisu_Counted\<close>, \<open>Fast_Dtoa_Correct\<close>: \<^verbatim>\<open>src/fast-dtoa.cc\<close>; the program, the digit generators of
    its two modes with the error terms that they keep, and the whole conversion: what it does not reject is shortest and closest, or exactly rounded.
  \<^item> \<open>Double_To_Ascii\<close>: \<^verbatim>\<open>src/dtoa.cc\<close>, the choice between the fast and the exact conversions, correct in its three modes.
  \<^item> \<open>String_Builder\<close>, \<open>Number_To_String\<close>: the string builder of \<^verbatim>\<open>src/utils.h\<close> and \<^verbatim>\<open>src/utils.cc\<close>, and the functions of
    \<^verbatim>\<open>src/conversions.cc\<close> that print numbers; the printed strings are read by a reference reader of decimal literals.
  \<^item> \<open>String_Search\<close>, \<open>Boyer_Moore\<close>, \<open>Search_Correct\<close>: \<^verbatim>\<open>src/string-search.h\<close>, the searches from the one for a single character to
    Boyer-Moore and the switching between them; each finds the first occurrence.
  \<^item> \<open>Unbound_Queue\<close>: \<^verbatim>\<open>src/unbound-queue-inl.h\<close>, with the steps of the producer and the consumer interleaved.

  \<^bold>\<open>Conventions.\<close>  A C++ object is a record, an enum a datatype, an object in shared memory an index into an explicit store.  Failing
  assertions, null dereferences, writes outside of a buffer and exhausted capacities are \<open>None\<close>.  Widths matter where the code relies on them:
  the doubles, the significands and the sets of choices are words, the other unsigned integers are natural numbers with the truncation written out.
  Loops are structural recursions, or functions with a termination proof.  Where a loop need not end, in the probing and the removal of hash maps, in
  \<open>DispatchTable::AddRange\<close>, in the string searches, and in the normalizing, dividing and digit loops of the number conversions, it is a partial function
  with result \<open>None\<close> for not ending, and the theorems state that it ends.  Memory that the code does not initialize and results that C++ leaves
  undefined (the buffers, a shift by the width of the operand) are arguments of the definitions, and the theorems hold for all of them, or under
  a named condition on them.  \<open>Lookup\<close> of
  hash maps calls itself after growing the table; the model allows one such call, which is enough because a table that was just doubled is not full.

  \<^bold>\<open>What the properties show.\<close>  Transactions: serializability, consistency of the reads of live transactions, the state invariant, the
  effect of a commit, isolation.  Collections: exclusion, signalling, equivalence with lookups.  Events: every event completes, shutting down is final.
  Containers: refinement of maps, sequences and queues.  Searches: the first occurrence.  Characters: the sets that the list operations denote.
  Numbers: exact or shortest decimals, round trip of the printed string, agreement of the fast conversions with the exact ones.
  Theorems about states that the code should not reach, such as the lost update, the nested collection, the start of the event loops, the removed
  transaction of release builds, \<open>Move\<close> of the only node, \<open>Negate\<close> and the null character, or the shared lists of \<open>OutSet\<close>, document
  errors of the code.

  \<^bold>\<open>Not modelled.\<close>  The compilers and code generators, the object model, the runtime functions, the garbage collector itself, the parser, the
  API and the platform layers: they are inherited from V8, are far larger than this development, and the transactional memory does not depend on
  their details beyond what the hypotheses state.  Of the modelled files: the conversion of bignums from and to strings, \<open>DoubleToRadixCString\<close> and the
  functions of \<^verbatim>\<open>src/conversions.cc\<close> that read numbers (they end in \<^verbatim>\<open>src/strtod.cc\<close>), \<open>Iterate\<close> and \<open>Sort\<close>
  of lists, \<open>AddCaseEquivalents\<close> (which rests on generated tables), reading files and printing in \<open>main\<close>.

  \<^bold>\<open>Plan.\<close>  Next are \<^verbatim>\<open>src/strtod.cc\<close> and \<^verbatim>\<open>src/conversions-inl.h\<close> for the way back from strings to numbers, with the reference reader of
  \<open>Number_To_String\<close> as its specification; then \<^verbatim>\<open>src/circular-queue.cc\<close> and the clients of the containers in \<^verbatim>\<open>src/profile-generator.cc\<close>.
\<close>

end
